(* ===== verification/Prelude.thy ===== *)
theory Prelude
  imports Main "HOL-Library.Word" "HOL-Library.Monad_Syntax"
begin

text \<open>
  Shared material of the development: the C types the modelled code uses, the errno values it
  returns, checked reads and writes of C arrays (an access outside the array is \<open>None\<close>, so
  that a theorem that a function returns \<open>Some\<close> also says that it stays inside its
  arrays), and the lemmas on machine words, masks and powers of two that several components
  need.
\<close>

unbundle bit_operations_syntax

section \<open>C types and errno values\<close>

type_synonym u8 = "8 word"
type_synonym u16 = "16 word"
type_synonym u32 = "32 word"
type_synonym u64 = "64 word"

abbreviation (input) ENOENT :: int where "ENOENT \<equiv> 2"
abbreviation (input) ENOMEM :: int where "ENOMEM \<equiv> 12"
abbreviation (input) EINVAL :: int where "EINVAL \<equiv> 22"
abbreviation (input) ENOSPC :: int where "ENOSPC \<equiv> 28"
abbreviation (input) ENOBUFS :: int where "ENOBUFS \<equiv> 105"
abbreviation (input) EDQUOT :: int where "EDQUOT \<equiv> 122"

section \<open>Checked array accesses\<close>

definition read_at :: "'a list \<Rightarrow> nat \<Rightarrow> 'a option" where
  "read_at xs i = (if i < length xs then Some (xs ! i) else None)"

definition write_at :: "'a list \<Rightarrow> nat \<Rightarrow> 'a \<Rightarrow> 'a list option" where
  "write_at xs i v = (if i < length xs then Some (xs[i := v]) else None)"

lemma read_at_in [simp]: "i < length xs \<Longrightarrow> read_at xs i = Some (xs ! i)"
  by (simp add: read_at_def)

lemma write_at_in [simp]: "i < length xs \<Longrightarrow> write_at xs i v = Some (xs[i := v])"
  by (simp add: write_at_def)

lemma read_at_out [simp]: "length xs \<le> i \<Longrightarrow> read_at xs i = None"
  by (simp add: read_at_def)

lemma write_at_out [simp]: "length xs \<le> i \<Longrightarrow> write_at xs i v = None"
  by (simp add: write_at_def)

lemma read_at_SomeD: "read_at xs i = Some v \<Longrightarrow> i < length xs \<and> v = xs ! i"
  by (auto simp: read_at_def split: if_splits)

lemma write_at_SomeD: "write_at xs i v = Some ys \<Longrightarrow> i < length xs \<and> ys = xs[i := v]"
  by (auto simp: write_at_def split: if_splits)

section \<open>Evaluation of the model\<close>

text \<open>Weak congruences: the model is rewritten in the order in which the code runs.\<close>

lemma option_bind_weak_cong: "x = y \<Longrightarrow> Option.bind x f = Option.bind y f" by simp

lemma prod_case_weak_cong: "x = y \<Longrightarrow> case_prod f x = case_prod f y" by simp

lemmas eval_cong = option_bind_weak_cong let_weak_cong option.case_cong_weak if_weak_cong

section \<open>Words, masks and powers of two\<close>

named_theorems word_nat \<open>translation of bounded word operations to natural numbers\<close>

lemma unat_and_mask [word_nat]: "unat (w AND mask k) = unat w mod 2 ^ k"
proof -
  have "unat (take_bit k w) = take_bit k (unat w)" by (rule unsigned_take_bit_eq)
  then show ?thesis by (simp add: take_bit_eq_mask [of k w] take_bit_eq_mod [of k "unat w"])
qed

lemma of_nat_and_mask:
  assumes "k \<le> LENGTH('a)"
  shows "unat ((of_nat n :: 'a::len word) AND mask k) = n mod 2 ^ k"
proof -
  have "(2::nat) ^ k dvd 2 ^ LENGTH('a)" using assms by (simp add: le_imp_power_dvd)
  then show ?thesis by (simp add: unat_and_mask unat_of_nat mod_mod_cancel)
qed

lemma unat_of_nat_less [word_nat]:
  "n < 2 ^ LENGTH('a) \<Longrightarrow> unat (of_nat n :: 'a::len word) = n"
  by (simp add: unat_of_nat)

lemma of_nat_word_eq_near:
  assumes "(of_nat a :: 'a::len word) = of_nat b" and "a \<le> b" and "b < a + 2 ^ LENGTH('a)"
  shows "a = b"
proof -
  have "(of_nat (b - a) :: 'a word) = 0" using assms by (simp add: of_nat_diff)
  then have "unat (of_nat (b - a) :: 'a word) = 0" by simp
  then have "(b - a) mod 2 ^ LENGTH('a) = 0" by (simp add: unat_of_nat)
  moreover have "b - a < 2 ^ LENGTH('a)" using assms by simp
  ultimately show ?thesis using assms(2) by simp
qed

lemma unat_ucast_32: "unat (ucast (w :: u32) :: u64) = unat w"
proof -
  have "unat w < 2 ^ LENGTH(32)" by (rule unsigned_less)
  then have "unat w < 2 ^ 64" by simp
  then show ?thesis by (simp add: unsigned_ucast_eq take_bit_nat_eq_self)
qed

lemma unat_diff_of_nat:
  assumes "a \<le> b" and "b - a < 2 ^ LENGTH('a)"
  shows "unat (of_nat b - of_nat a :: 'a::len word) = b - a"
proof -
  have "(of_nat b - of_nat a :: 'a word) = of_nat (b - a)" using assms(1) by (simp add: of_nat_diff)
  then show ?thesis using assms(2) by (simp add: unat_of_nat)
qed

lemma mod_range_inj:
  fixes a b n l :: nat
  assumes "a mod n = b mod n" and "l \<le> a" "a < l + n" and "l \<le> b" "b < l + n"
  shows "a = b"
proof -
  have "int n dvd int a - int b" using assms(1)
    by (metis mod_eq_dvd_iff of_nat_mod)
  moreover have "\<bar>int a - int b\<bar> < int n" using assms by linarith
  ultimately have "int a - int b = 0"
    using dvd_imp_le_int [of "int a - int b" "int n"] by (cases "int a - int b = 0") auto
  then show ?thesis by simp
qed

lemma and_not_plus_and: "(w AND NOT m) + (w AND m) = (w :: 'a::len word)"
proof -
  have "(w AND NOT m) + (w AND m) = (w AND NOT m) OR (w AND m)"
    by (rule disjunctive_add) (simp add: bit_simps)
  also have "\<dots> = w" by (rule bit_word_eqI) (auto simp: bit_simps)
  finally show ?thesis .
qed

lemma unat_and_not_mask [word_nat]: "unat (w AND NOT (mask k)) = unat w - unat w mod 2 ^ k"
proof -
  have "w AND NOT (mask k) = w - (w AND mask k)"
    using and_not_plus_and [of w "mask k"] by (simp add: algebra_simps)
  moreover have "w AND mask k \<le> w"
    by (simp add: word_le_nat_alt unat_and_mask)
  ultimately have "unat (w AND NOT (mask k)) = unat w - unat (w AND mask k)"
    by (simp only: unat_sub)
  then show ?thesis by (simp only: unat_and_mask)
qed

subsection \<open>The test \<open>((x - 1) & x) == 0\<close> of the C code\<close>

definition POWEROF2 :: "'a::len word \<Rightarrow> bool" where
  "POWEROF2 x \<longleftrightarrow> (x - 1) AND x = 0"

lemma nat_and_pred_zero:
  "0 < n \<Longrightarrow> (n - 1) AND n = (0::nat) \<Longrightarrow> \<exists>k. n = 2 ^ k"
proof (induction n rule: less_induct)
  case (less n)
  show ?case
  proof (cases "odd n")
    case True
    then obtain q where q: "n = 2 * q + 1" by (elim oddE)
    have "(n - 1) AND n = 2 * (q AND q)" unfolding q by (subst and_rec) simp
    with less.prems have "q = 0" by simp
    with q show ?thesis by (intro exI [of _ 0]) simp
  next
    case False
    then obtain q where q: "n = 2 * q" by (auto elim: evenE)
    with less.prems have q0: "0 < q" by simp
    have "n - 1 = 2 * (q - 1) + 1" using q q0 by simp
    then have "(n - 1) AND n = 2 * ((q - 1) AND q)" unfolding q by (subst and_rec) simp
    with less.prems have "(q - 1) AND q = 0" by simp
    with less.IH [of q] q q0 obtain k where "q = 2 ^ k" by auto
    with q show ?thesis by (intro exI [of _ "Suc k"]) simp
  qed
qed

lemma POWEROF2_unat:
  fixes x :: "'a::len word"
  assumes "POWEROF2 x" and "x \<noteq> 0"
  shows "\<exists>k < LENGTH('a). unat x = 2 ^ k"
proof -
  have pos: "0 < unat x" using assms(2) by (simp add: unat_gt_0)
  have "unat ((x - 1) AND x) = 0" using assms(1) by (simp add: POWEROF2_def)
  moreover have "unat (x - 1) = unat x - 1" using assms(2) by (simp add: unat_minus_one)
  ultimately have "(unat x - 1) AND unat x = 0" by (simp add: unsigned_and_eq)
  with pos obtain k where k: "unat x = 2 ^ k" using nat_and_pred_zero by blast
  have "unat x < 2 ^ LENGTH('a)" by simp
  with k have "k < LENGTH('a)" by simp
  with k show ?thesis by blast
qed

lemma POWEROF2_mask:
  fixes x :: "'a::len word"
  assumes "POWEROF2 x" and "x \<noteq> 0"
  shows "\<exists>k < LENGTH('a). unat x = 2 ^ k \<and> x - 1 = mask k"
proof -
  obtain k where k: "k < LENGTH('a)" "unat x = 2 ^ k" using POWEROF2_unat [OF assms] by blast
  then have "(of_nat (unat x) :: 'a word) = of_nat (2 ^ k)" by simp
  then have "x = 2 ^ k" by simp
  with k show ?thesis by (auto simp: mask_eq_exp_minus_1)
qed

end
