(* ===== verification/Bits.thy ===== *)
theory Bits
  imports Prelude
begin

text \<open>
  64-bit words as sets of positions: the builtins of the compiler that count bits and find the
  first and the last one, and what they are on the set of the bits.
\<close>

section \<open>The builtins\<close>

text \<open>The builtins of the compiler on 64-bit words, undefined on 0 where the code never has 0.\<close>

definition popcountll :: "u64 \<Rightarrow> nat" where "popcountll m = length (filter (bit m) [0..<64])"
definition ctzll :: "u64 \<Rightarrow> nat" where "ctzll m = length (takeWhile (\<lambda>i. \<not> bit m i) [0..<64])"
definition clzll :: "u64 \<Rightarrow> nat" where "clzll m = length (takeWhile (\<lambda>i. \<not> bit m (63 - i)) [0..<64])"

section \<open>Masks as sets of positions\<close>

definition bits :: "u64 \<Rightarrow> nat set" where "bits m = {i. bit m i}"

lemma bit_less_64: "bit (m :: u64) i \<Longrightarrow> i < 64"
  using bit_imp_le_length [of m i] by simp

lemma bits_less: "i \<in> bits m \<Longrightarrow> i < 64"
  by (simp add: bits_def bit_less_64)

lemma mem_bits: "i \<in> bits m \<longleftrightarrow> bit m i"
  by (simp add: bits_def)

lemma finite_bits [simp]: "finite (bits m)"
  by (rule finite_subset [of _ "{..<64}"]) (auto dest: bits_less)

lemma bits_empty [simp]: "bits m = {} \<longleftrightarrow> m = 0"
  by (auto simp: bits_def bit_eq_iff) (blast dest: bit_less_64)

lemma bits_or: "bits (a OR b) = bits a \<union> bits b"
  and bits_and_not: "bits (a AND NOT b) = bits a - bits b"
  and bits_and: "bits (a AND b) = bits a \<inter> bits b"
  and bits_0 [simp]: "bits 0 = {}"
  by (auto simp: bits_def bit_simps dest: bit_less_64)

lemma bits_single: "n < 64 \<Longrightarrow> bits (push_bit n 1) = {n}"
  by (auto simp: bits_def bit_simps)

lemma bit_test: "push_bit n 1 AND m \<noteq> 0 \<longleftrightarrow> n \<in> bits m" if "n < 64" for m :: u64
proof -
  have "bits (push_bit n 1 AND m) = {n} \<inter> bits m" by (simp only: bits_and bits_single [OF that])
  then show ?thesis by (metis Int_insert_left_if0 Int_insert_left_if1 bits_empty inf_bot_left insert_not_empty)
qed

lemma filter_bit: "filter (bit m) [0..<64] = sorted_list_of_set (bits m)" for m :: u64
proof -
  have "sorted (filter (bit m) [0..<64])" by (rule sorted_wrt_filter) simp
  moreover have "distinct (filter (bit m) [0..<64])" by simp
  moreover have "set (filter (bit m) [0..<64]) = bits m" by (auto simp: bits_def dest: bit_less_64)
  ultimately show ?thesis by (metis sorted_list_of_set.idem_if_sorted_distinct)
qed

lemma length_takeWhile_least:
  assumes "k < n" and "\<not> P k" and "\<And>i. i < k \<Longrightarrow> P i"
  shows "length (takeWhile P [0..<n]) = k"
proof -
  have "[0..<n] = [0..<k] @ k # [Suc k..<n]"
    using upt_add_eq_append [of 0 k "n - k"] upt_conv_Cons [of k n] assms(1) by simp
  moreover have "takeWhile P ([0..<k] @ k # [Suc k..<n]) = [0..<k]"
    using assms(2,3) by (subst takeWhile_append2) auto
  ultimately show ?thesis by simp
qed

lemma ctzll_Min: "m \<noteq> 0 \<Longrightarrow> ctzll m = Min (bits m)"
proof -
  assume "m \<noteq> 0"
  then have "Min (bits m) \<in> bits m" by (intro Min_in) simp_all
  moreover have "\<not> bit m i" if "i < Min (bits m)" for i
    using that Min_le [OF finite_bits, of i m] unfolding mem_bits by linarith
  ultimately show ?thesis
    unfolding ctzll_def mem_bits using bit_less_64 by (intro length_takeWhile_least) blast+
qed

lemma clzll_Max: "m \<noteq> 0 \<Longrightarrow> clzll m = 63 - Max (bits m)"
proof -
  assume "m \<noteq> 0"
  then have mx: "Max (bits m) \<in> bits m" by (intro Max_in) simp_all
  have "\<not> bit m (63 - i)" if "i < 63 - Max (bits m)" for i
    using that Max_ge [OF finite_bits, of "63 - i" m] unfolding mem_bits by linarith
  moreover have "63 - (63 - Max (bits m)) = Max (bits m)" using bits_less [OF mx] by (intro diff_diff_cancel) linarith
  ultimately show ?thesis
    unfolding clzll_def using mx by (intro length_takeWhile_least) (simp_all add: mem_bits)
qed

lemma last_id: "m \<noteq> 0 \<Longrightarrow> 63 - clzll m = Max (bits m)"
proof -
  assume m: "m \<noteq> 0"
  then have "Max (bits m) < 64" using bits_less [OF Max_in [OF finite_bits, of m]] by simp
  then show ?thesis unfolding clzll_Max [OF m] by (intro diff_diff_cancel) linarith
qed

end
