(* ===== verification/Ring.thy ===== *)
theory Ring
  imports Prelude
begin

text \<open>
  The lock-free ring of lib/librte_ring (rte_ring.h, rte_ring.c): its state, its counters, the
  two copy macros and the single-producer and single-consumer operations. Head and tail
  indices are the 32-bit counters of the code; the ring memory is a list of object pointers
  that a checked access reads and writes. The main results refine the operations to a bounded
  FIFO queue of objects.
\<close>

section \<open>State\<close>

record 'a rte_ring =
  r_name :: string
  r_flags :: u32
  r_memzone :: "nat option"
  prod_watermark :: u32
  prod_sp_enqueue :: bool
  prod_size :: u32
  prod_mask :: u32
  prod_head :: u32
  prod_tail :: u32
  cons_sc_dequeue :: bool
  cons_size :: u32
  cons_mask :: u32
  cons_head :: u32
  cons_tail :: u32
  ring_mem :: "'a list"

datatype rte_ring_queue_behavior = RTE_RING_QUEUE_FIXED | RTE_RING_QUEUE_VARIABLE

abbreviation (input) RTE_RING_NAMESIZE :: nat where "RTE_RING_NAMESIZE \<equiv> 32"
abbreviation (input) RING_F_SP_ENQ :: u32 where "RING_F_SP_ENQ \<equiv> 1"
abbreviation (input) RING_F_SC_DEQ :: u32 where "RING_F_SC_DEQ \<equiv> 2"
abbreviation (input) RTE_RING_QUOT_EXCEED :: u32 where "RTE_RING_QUOT_EXCEED \<equiv> 0x80000000"
abbreviation (input) RTE_RING_SZ_MASK :: u32 where "RTE_RING_SZ_MASK \<equiv> 0x0fffffff"
abbreviation (input) RTE_CACHE_LINE_SIZE :: int where "RTE_CACHE_LINE_SIZE \<equiv> 64"

text \<open>
  The size of \<open>struct rte_ring\<close> without its flexible array, for the build configuration
  of src/pal/linux_dpdk/dpdk22/rte_config.h (no ring statistics, producer and consumer in one
  cache line pair): the header takes one cache line and the two index blocks the next.
\<close>

abbreviation (input) sizeof_rte_ring :: int where "sizeof_rte_ring \<equiv> 128"

definition rte_ring_get_memsize :: "u32 \<Rightarrow> int" where
  "rte_ring_get_memsize count =
     (if \<not> POWEROF2 count \<or> RTE_RING_SZ_MASK < count then - EINVAL
      else (let sz = sizeof_rte_ring + uint count * 8 in
            (sz + (RTE_CACHE_LINE_SIZE - 1)) div RTE_CACHE_LINE_SIZE * RTE_CACHE_LINE_SIZE))"

text \<open>
  \<open>mem\<close> is what the ring's memory holds when it is initialised; \<open>rte_ring_init\<close>
  clears the header and leaves the object slots as they are.
\<close>

definition rte_ring_init :: "string \<Rightarrow> u32 \<Rightarrow> u32 \<Rightarrow> 'a list \<Rightarrow> 'a rte_ring" where
  "rte_ring_init name count flags mem =
     \<lparr> r_name = take (RTE_RING_NAMESIZE - 1) name,
       r_flags = flags,
       r_memzone = None,
       prod_watermark = count,
       prod_sp_enqueue = (flags AND RING_F_SP_ENQ \<noteq> 0),
       prod_size = count,
       prod_mask = count - 1,
       prod_head = 0,
       prod_tail = 0,
       cons_sc_dequeue = (flags AND RING_F_SC_DEQ \<noteq> 0),
       cons_size = count,
       cons_mask = count - 1,
       cons_head = 0,
       cons_tail = 0,
       ring_mem = mem \<rparr>"

definition rte_ring_set_water_mark :: "'a rte_ring \<Rightarrow> u32 \<Rightarrow> int \<times> 'a rte_ring" where
  "rte_ring_set_water_mark r count =
     (if prod_size r \<le> count then (- EINVAL, r)
      else (let count' = (if count = 0 then prod_size r else count) in
            (0, r\<lparr>prod_watermark := count'\<rparr>)))"

section \<open>Counters\<close>

definition rte_ring_full :: "'a rte_ring \<Rightarrow> bool" where
  "rte_ring_full r \<longleftrightarrow> (cons_tail r - prod_tail r - 1) AND prod_mask r = 0"

definition rte_ring_empty :: "'a rte_ring \<Rightarrow> bool" where
  "rte_ring_empty r \<longleftrightarrow> cons_tail r = prod_tail r"

definition rte_ring_count :: "'a rte_ring \<Rightarrow> u32" where
  "rte_ring_count r = (prod_tail r - cons_tail r) AND prod_mask r"

definition rte_ring_free_count :: "'a rte_ring \<Rightarrow> u32" where
  "rte_ring_free_count r = (cons_tail r - prod_tail r - 1) AND prod_mask r"

section \<open>The copy macros\<close>

text \<open>
  Both macros run the same loops and differ in the assignment of their body, which is the
  parameter \<open>body idx i\<close> of the loops below: four assignments at a time and a
  \<open>switch\<close> with fall-through for the rest when the objects do not reach the end of the
  ring, two plain loops when they do. The loop counters stay below the ring size, so they are
  natural numbers; the test \<open>idx + n < size\<close> is the code's 32-bit one.
\<close>

function copy_loop4 :: "(nat \<Rightarrow> nat \<Rightarrow> 's \<Rightarrow> 's option) \<Rightarrow> nat \<Rightarrow> nat \<Rightarrow> nat \<Rightarrow> 's \<Rightarrow> (nat \<times> nat \<times> 's) option"
where
  "copy_loop4 body m i idx s =
     (if i < m then do {
        s \<leftarrow> body idx i s;
        s \<leftarrow> body (idx + 1) (i + 1) s;
        s \<leftarrow> body (idx + 2) (i + 2) s;
        s \<leftarrow> body (idx + 3) (i + 3) s;
        copy_loop4 body m (i + 4) (idx + 4) s }
      else Some (i, idx, s))"
  by pat_completeness auto
termination
  by (relation "measure (\<lambda>(body, m, i, idx, s). m - i)") auto

declare copy_loop4.simps [simp del]

definition copy_switch :: "(nat \<Rightarrow> nat \<Rightarrow> 's \<Rightarrow> 's option) \<Rightarrow> u32 \<Rightarrow> nat \<Rightarrow> nat \<Rightarrow> 's \<Rightarrow> 's option" where
  "copy_switch body n3 i idx s =
     (if n3 = 3 then do { s \<leftarrow> body idx i s; s \<leftarrow> body (idx + 1) (i + 1) s; body (idx + 2) (i + 2) s }
      else if n3 = 2 then do { s \<leftarrow> body idx i s; body (idx + 1) (i + 1) s }
      else if n3 = 1 then body idx i s
      else Some s)"

function copy_to_end :: "(nat \<Rightarrow> nat \<Rightarrow> 's \<Rightarrow> 's option) \<Rightarrow> nat \<Rightarrow> nat \<Rightarrow> nat \<Rightarrow> 's \<Rightarrow> (nat \<times> 's) option"
where
  "copy_to_end body sz i idx s =
     (if idx < sz then do { s \<leftarrow> body idx i s; copy_to_end body sz (i + 1) (idx + 1) s }
      else Some (i, s))"
  by pat_completeness auto
termination
  by (relation "measure (\<lambda>(body, sz, i, idx, s). sz - idx)") auto

declare copy_to_end.simps [simp del]

function copy_rest :: "(nat \<Rightarrow> nat \<Rightarrow> 's \<Rightarrow> 's option) \<Rightarrow> nat \<Rightarrow> nat \<Rightarrow> nat \<Rightarrow> 's \<Rightarrow> 's option"
where
  "copy_rest body n i idx s =
     (if i < n then do { s \<leftarrow> body idx i s; copy_rest body n (i + 1) (idx + 1) s }
      else Some s)"
  by pat_completeness auto
termination
  by (relation "measure (\<lambda>(body, n, i, idx, s). n - i)") auto

declare copy_rest.simps [simp del]

definition copy_ptrs :: "(nat \<Rightarrow> nat \<Rightarrow> 's \<Rightarrow> 's option) \<Rightarrow> u32 \<Rightarrow> u32 \<Rightarrow> u32 \<Rightarrow> u32 \<Rightarrow> 's \<Rightarrow> 's option" where
  "copy_ptrs body sz msk head n s =
     (let idx = head AND msk in
      if idx + n < sz then do {
        (i, idx', s) \<leftarrow> copy_loop4 body (unat (n AND NOT 3)) 0 (unat idx) s;
        copy_switch body (n AND 3) i idx' s }
      else do {
        (i, s) \<leftarrow> copy_to_end body (unat sz) 0 (unat idx) s;
        copy_rest body (unat n) i 0 s })"

definition ENQUEUE_PTRS :: "'a rte_ring \<Rightarrow> u32 \<Rightarrow> u32 \<Rightarrow> 'a list \<Rightarrow> ('a list) option" where
  "ENQUEUE_PTRS r head n obj_table =
     copy_ptrs (\<lambda>idx i mem. do { v \<leftarrow> read_at obj_table i; write_at mem idx v })
       (prod_size r) (prod_mask r) head n (ring_mem r)"

definition DEQUEUE_PTRS :: "'a rte_ring \<Rightarrow> u32 \<Rightarrow> u32 \<Rightarrow> 'a list \<Rightarrow> ('a list) option" where
  "DEQUEUE_PTRS r head n obj_table =
     copy_ptrs (\<lambda>idx i tbl. do { v \<leftarrow> read_at (ring_mem r) idx; write_at tbl i v })
       (cons_size r) (prod_mask r) head n obj_table"

section \<open>Single-producer enqueue and single-consumer dequeue\<close>

text \<open>
  The value is \<open>None\<close> when the call would access memory outside the ring or the caller's
  table. The \<open>(int)(n | RTE_RING_QUOT_EXCEED)\<close> of a burst over the watermark is the
  signed reading of the 32-bit word.
\<close>

definition enqueue_ret :: "'a rte_ring \<Rightarrow> u32 \<Rightarrow> u32 \<Rightarrow> rte_ring_queue_behavior \<Rightarrow> int" where
  "enqueue_ret r free_entries n behavior =
     (if prod_watermark r < (prod_mask r + 1) - free_entries + n
      then (if behavior = RTE_RING_QUEUE_FIXED then - EDQUOT else sint (n OR RTE_RING_QUOT_EXCEED))
      else (if behavior = RTE_RING_QUEUE_FIXED then 0 else sint n))"

definition sp_do_enqueue ::
  "'a rte_ring \<Rightarrow> 'a list \<Rightarrow> u32 \<Rightarrow> rte_ring_queue_behavior \<Rightarrow> (int \<times> 'a rte_ring) option" where
  "sp_do_enqueue r obj_table n behavior =
     (let free_entries = prod_mask r + cons_tail r - prod_head r in
      if free_entries < n \<and> behavior = RTE_RING_QUEUE_FIXED then Some (- ENOBUFS, r)
      else if free_entries < n \<and> free_entries = 0 then Some (0, r)
      else (let n' = (if free_entries < n then free_entries else n);
                head = prod_head r;
                prod_next = head + n';
                r1 = r\<lparr>prod_head := prod_next\<rparr> in do {
              mem \<leftarrow> ENQUEUE_PTRS r1 head n' obj_table;
              Some (enqueue_ret r free_entries n' behavior,
                    r1\<lparr>ring_mem := mem, prod_tail := prod_next\<rparr>) }))"

definition sc_do_dequeue ::
  "'a rte_ring \<Rightarrow> 'a list \<Rightarrow> u32 \<Rightarrow> rte_ring_queue_behavior \<Rightarrow> (int \<times> 'a list \<times> 'a rte_ring) option" where
  "sc_do_dequeue r obj_table n behavior =
     (let entries = prod_tail r - cons_head r in
      if entries < n \<and> behavior = RTE_RING_QUEUE_FIXED then Some (- ENOENT, obj_table, r)
      else if entries < n \<and> entries = 0 then Some (0, obj_table, r)
      else (let n' = (if entries < n then entries else n);
                head = cons_head r;
                cons_next = head + n';
                r1 = r\<lparr>cons_head := cons_next\<rparr> in do {
              tbl \<leftarrow> DEQUEUE_PTRS r1 head n' obj_table;
              Some (if behavior = RTE_RING_QUEUE_FIXED then 0 else sint n', tbl,
                    r1\<lparr>cons_tail := cons_next\<rparr>) }))"

section \<open>The copy macros against one-object-at-a-time copies\<close>

primrec copy_seq :: "(nat \<Rightarrow> nat \<Rightarrow> 's \<Rightarrow> 's option) \<Rightarrow> nat \<Rightarrow> nat \<Rightarrow> nat \<Rightarrow> 's \<Rightarrow> 's option" where
  "copy_seq body idx i 0 s = Some s"
| "copy_seq body idx i (Suc k) s = do { s \<leftarrow> body idx i s; copy_seq body (idx + 1) (i + 1) k s }"

lemma copy_seq_add:
  "copy_seq body idx i (a + b) s =
     do { s \<leftarrow> copy_seq body idx i a s; copy_seq body (idx + a) (i + a) b s }"
  by (induction a arbitrary: idx i s) (auto split: bind_split)

lemma copy_seq_4:
  "copy_seq body idx i (4 + b) s = do {
     s \<leftarrow> body idx i s; s \<leftarrow> body (idx + 1) (i + 1) s; s \<leftarrow> body (idx + 2) (i + 2) s;
     s \<leftarrow> body (idx + 3) (i + 3) s; copy_seq body (idx + 4) (i + 4) b s }"
  by (simp add: numeral_eq_Suc split: bind_split)

lemma copy_loop4_seq:
  "m = i + 4 * q \<Longrightarrow>
   copy_loop4 body m i idx s = map_option (\<lambda>s. (m, idx + 4 * q, s)) (copy_seq body idx i (4 * q) s)"
proof (induction q arbitrary: i idx s)
  case 0
  then show ?case by (subst copy_loop4.simps, simp)
next
  case (Suc q)
  have m: "m = (i + 4) + 4 * q" "i < m" using Suc.prems by simp_all
  have len: "4 * Suc q = 4 + 4 * q" by simp
  show ?case
    unfolding len copy_seq_4 using m(2)
    by (simp add: copy_loop4.simps [of body m i] Suc.IH [OF m(1)] ac_simps split: bind_split)
qed

lemma word_lt4_cases:
  assumes "unat (w :: u32) < 4"
  obtains "w = 0" | "w = 1" | "w = 2" | "w = 3"
proof -
  have w: "w = of_nat (unat w)" by simp
  have n: "unat w = 0 \<or> unat w = 1 \<or> unat w = 2 \<or> unat w = 3" using assms by arith
  have "w = 0 \<or> w = 1 \<or> w = 2 \<or> w = 3"
    using n by (elim disjE) (subst w, simp)+
  then show thesis using that by blast
qed

lemma copy_switch_seq:
  assumes "unat n3 < 4"
  shows "copy_switch body n3 i idx s = copy_seq body idx i (unat n3) s"
proof -
  have 2: "copy_seq body idx i 2 s = do { s \<leftarrow> body idx i s; body (idx + 1) (i + 1) s }"
    and 3: "copy_seq body idx i 3 s =
      do { s \<leftarrow> body idx i s; s \<leftarrow> body (idx + 1) (i + 1) s; body (idx + 2) (i + 2) s }"
    by (simp_all add: eval_nat_numeral split: bind_split)
  show ?thesis
    by (rule word_lt4_cases [OF assms]) (auto simp: copy_switch_def 2 3 split: bind_split)
qed

lemma copy_to_end_seq:
  "idx \<le> sz \<Longrightarrow> copy_to_end body sz i idx s =
     map_option (\<lambda>s. (i + (sz - idx), s)) (copy_seq body idx i (sz - idx) s)"
proof (induction "sz - idx" arbitrary: i idx s)
  case 0
  then show ?case by (subst copy_to_end.simps, simp)
next
  case (Suc d)
  have lt: "idx < sz" and len: "sz - idx = Suc (sz - Suc idx)" using Suc.hyps(2) by simp_all
  have i: "i + (sz - idx) = Suc i + (sz - Suc idx)" using lt by simp
  have IH: "copy_to_end body sz (Suc i) (Suc idx) s' =
      map_option (\<lambda>s. (Suc i + (sz - Suc idx), s)) (copy_seq body (Suc idx) (Suc i) (sz - Suc idx) s')" for s'
    by (rule Suc.hyps(1)) (use Suc.hyps(2) lt in simp_all)
  have "copy_to_end body sz i idx s =
      map_option (\<lambda>s. (Suc i + (sz - Suc idx), s)) (copy_seq body idx i (Suc (sz - Suc idx)) s)"
    using lt by (subst copy_to_end.simps) (simp add: IH del: add_Suc split: bind_split)
  then show ?case by (simp only: i [symmetric] len [symmetric])
qed

lemma copy_rest_seq: "i \<le> n \<Longrightarrow> copy_rest body n i idx s = copy_seq body idx i (n - i) s"
proof (induction "n - i" arbitrary: i idx s)
  case 0
  then show ?case by (subst copy_rest.simps, simp)
next
  case (Suc d)
  then have "i < n" "n - i = Suc (n - Suc i)" by simp_all
  with Suc show ?case
    by (simp add: copy_rest.simps [of body n i] split: bind_split)
qed

lemma unat_round_down4: "unat (n AND NOT 3 :: u32) = 4 * (unat n div 4)"
proof -
  have m: "(3 :: u32) = mask 2" by (simp add: mask_eq_exp_minus_1)
  show ?thesis unfolding m unat_and_not_mask by (simp add: minus_mod_eq_mult_div)
qed

lemma unat_round_down4': "unat (n AND - 4 :: u32) = 4 * (unat n div 4)"
  using unat_round_down4 [of n] by simp

lemma unat_rest4: "unat (n AND 3 :: u32) = unat n mod 4"
proof -
  have m: "(3 :: u32) = mask 2" by (simp add: mask_eq_exp_minus_1)
  show ?thesis unfolding m unat_and_mask by simp
qed

lemma copy_ptrs_seq:
  assumes idx: "unat (head AND msk) \<le> unat sz" and n: "unat n \<le> unat sz" and sz: "unat sz < 2 ^ 31"
    and wrap: "unat sz \<le> unat (head AND msk) + unat n"
  shows "copy_ptrs body sz msk head n s =
     do { s \<leftarrow> copy_seq body (unat (head AND msk)) 0 (unat sz - unat (head AND msk)) s;
          copy_seq body 0 (unat sz - unat (head AND msk)) (unat n - (unat sz - unat (head AND msk))) s }"
proof -
  have "unat ((head AND msk) + n) = unat (head AND msk) + unat n"
    using idx n sz by (simp add: unat_word_ariths)
  then have "\<not> (head AND msk) + n < sz" using wrap by (simp add: word_less_nat_alt)
  then show ?thesis
    using idx wrap
    by (simp add: copy_ptrs_def Let_def copy_to_end_seq copy_rest_seq split: bind_split)
qed

lemma copy_ptrs_seq_nowrap:
  assumes idx: "unat (head AND msk) \<le> unat sz" and n: "unat n \<le> unat sz" and sz: "unat sz < 2 ^ 31"
    and nowrap: "unat (head AND msk) + unat n < unat sz"
  shows "copy_ptrs body sz msk head n s = copy_seq body (unat (head AND msk)) 0 (unat n) s"
proof -
  define idx' where "idx' = unat (head AND msk)"
  have "unat ((head AND msk) + n) = unat (head AND msk) + unat n"
    using idx n sz by (simp add: unat_word_ariths)
  then have lt: "(head AND msk) + n < sz" using nowrap by (simp add: word_less_nat_alt)
  have split: "unat n = 4 * (unat n div 4) + unat (n AND 3)" by (simp add: unat_rest4)
  have loop: "copy_loop4 body (unat (n AND NOT 3)) 0 idx' s = map_option
     (\<lambda>s. (4 * (unat n div 4), idx' + 4 * (unat n div 4), s)) (copy_seq body idx' 0 (4 * (unat n div 4)) s)"
    by (subst copy_loop4_seq [of _ _ "unat n div 4"]) (simp_all add: unat_round_down4')
  have sw: "copy_switch body (n AND 3) i j s = copy_seq body j i (unat (n AND 3)) s" for i j s
    by (rule copy_switch_seq) (simp add: unat_rest4)
  have "copy_ptrs body sz msk head n s = do {
      s \<leftarrow> copy_seq body idx' 0 (4 * (unat n div 4)) s;
      copy_seq body (idx' + 4 * (unat n div 4)) (4 * (unat n div 4)) (unat (n AND 3)) s }"
    using lt by (simp add: copy_ptrs_def Let_def sw loop [simplified] flip: idx'_def split: bind_split)
  also have "\<dots> = copy_seq body idx' 0 (unat n) s"
    by (subst (3) split) (simp add: copy_seq_add)
  finally show ?thesis by (simp add: idx'_def)
qed

section \<open>What the copies leave in memory\<close>

primrec ring_store :: "'a list \<Rightarrow> nat \<Rightarrow> nat \<Rightarrow> 'a list \<Rightarrow> 'a list" where
  "ring_store mem sz h [] = mem"
| "ring_store mem sz h (x # xs) = ring_store (mem[h mod sz := x]) sz (Suc h) xs"

definition ring_load :: "'a list \<Rightarrow> nat \<Rightarrow> nat \<Rightarrow> nat \<Rightarrow> 'a list" where
  "ring_load mem sz h n = map (\<lambda>j. mem ! ((h + j) mod sz)) [0..<n]"

lemma length_ring_store [simp]: "length (ring_store mem sz h xs) = length mem"
  by (induction xs arbitrary: mem h) auto

lemma ring_store_append:
  "ring_store mem sz h (xs @ ys) = ring_store (ring_store mem sz h xs) sz (h + length xs) ys"
  by (induction xs arbitrary: mem h) auto

lemma ring_store_cong_mod:
  "h mod sz = h' mod sz \<Longrightarrow> ring_store mem sz h xs = ring_store mem sz h' xs"
proof (induction xs arbitrary: mem h h')
  case Nil
  then show ?case by simp
next
  case (Cons x xs)
  have "Suc h mod sz = Suc h' mod sz" using Cons.prems by (metis mod_Suc_eq)
  with Cons.IH [of "Suc h" "Suc h'"] Cons.prems show ?case by simp
qed

lemma ring_store_nth_out:
  "(\<And>j. j < length xs \<Longrightarrow> p \<noteq> (h + j) mod sz) \<Longrightarrow> ring_store mem sz h xs ! p = mem ! p"
proof (induction xs arbitrary: mem h)
  case Nil
  then show ?case by simp
next
  case (Cons x xs)
  have "p \<noteq> h mod sz" using Cons.prems [of 0] by simp
  moreover have "p \<noteq> (Suc h + j) mod sz" if "j < length xs" for j
    using Cons.prems [of "Suc j"] that by simp
  ultimately show ?case using Cons.IH [of "Suc h" "mem[h mod sz := x]"] by simp
qed

lemma ring_store_nth_in:
  "j < length xs \<Longrightarrow> length xs \<le> sz \<Longrightarrow> length mem = sz \<Longrightarrow>
   ring_store mem sz h xs ! ((h + j) mod sz) = xs ! j"
proof (induction xs arbitrary: mem h j)
  case Nil
  then show ?case by simp
next
  case (Cons x xs)
  have sz: "0 < sz" using Cons.prems by auto
  show ?case
  proof (cases j)
    case 0
    have "h mod sz \<noteq> (Suc h + i) mod sz" if "i < length xs" for i
    proof
      assume "h mod sz = (Suc h + i) mod sz"
      then have "h = Suc h + i" by (rule mod_range_inj [where l = h]) (use that Cons.prems in auto)
      then show False by simp
    qed
    then have "ring_store (mem[h mod sz := x]) sz (Suc h) xs ! (h mod sz) = mem[h mod sz := x] ! (h mod sz)"
      by (rule ring_store_nth_out)
    then show ?thesis using 0 Cons.prems sz by simp
  next
    case (Suc i)
    then show ?thesis using Cons.IH [of i "mem[h mod sz := x]" "Suc h"] Cons.prems by simp
  qed
qed

lemma length_ring_load [simp]: "length (ring_load mem sz h n) = n"
  by (simp add: ring_load_def)

lemma nth_ring_load [simp]: "j < n \<Longrightarrow> ring_load mem sz h n ! j = mem ! ((h + j) mod sz)"
  by (simp add: ring_load_def)

lemma ring_load_add: "ring_load mem sz h (a + b) = ring_load mem sz h a @ ring_load mem sz (h + a) b"
  by (rule nth_equalityI) (auto simp: nth_append ac_simps)

lemma ring_load_cong_mod: "h mod sz = h' mod sz \<Longrightarrow> ring_load mem sz h n = ring_load mem sz h' n"
proof -
  assume eq: "h mod sz = h' mod sz"
  have "(h + j) mod sz = (h' + j) mod sz" for j using eq by (metis mod_add_left_eq)
  then show ?thesis by (simp add: ring_load_def)
qed

lemma ring_load_store:
  assumes "length xs \<le> sz" and "length mem = sz"
  shows "ring_load (ring_store mem sz h xs) sz h (length xs) = xs"
  by (rule nth_equalityI) (use assms in \<open>auto simp: ring_store_nth_in\<close>)

lemma ring_load_store_other:
  assumes "l \<le> h" and "l + n \<le> h" and "h + length xs \<le> l + sz"
  shows "ring_load (ring_store mem sz h xs) sz l n = ring_load mem sz l n"
proof (rule nth_equalityI)
  fix j assume "j < length (ring_load (ring_store mem sz h xs) sz l n)"
  then have j: "j < n" by simp
  have "(l + j) mod sz \<noteq> (h + i) mod sz" if "i < length xs" for i
  proof
    assume "(l + j) mod sz = (h + i) mod sz"
    then have "l + j = h + i" by (rule mod_range_inj [where l = l]) (use that assms j in auto)
    then show False using j assms by simp
  qed
  then have "ring_store mem sz h xs ! ((l + j) mod sz) = mem ! ((l + j) mod sz)"
    by (rule ring_store_nth_out)
  then show "ring_load (ring_store mem sz h xs) sz l n ! j = ring_load mem sz l n ! j"
    using j by simp
qed simp

lemma copy_seq_store:
  "idx + k \<le> length mem \<Longrightarrow> i + k \<le> length objs \<Longrightarrow>
   copy_seq (\<lambda>idx i mem. do { v \<leftarrow> read_at objs i; write_at mem idx v }) idx i k mem =
     Some (ring_store mem (length mem) idx (take k (drop i objs)))"
proof (induction k arbitrary: idx i mem)
  case 0
  then show ?case by simp
next
  case (Suc k)
  have d: "take (Suc k) (drop i objs) = objs ! i # take k (drop (Suc i) objs)"
    using Suc.prems by (simp add: Cons_nth_drop_Suc [symmetric])
  show ?case using Suc.IH [of "Suc idx" "mem[idx := objs ! i]" "Suc i"] Suc.prems
    by (simp add: d)
qed

lemma copy_seq_load:
  "idx + k \<le> length mem \<Longrightarrow> i + k \<le> length tbl \<Longrightarrow>
   copy_seq (\<lambda>idx i tbl. do { v \<leftarrow> read_at mem idx; write_at tbl i v }) idx i k tbl =
     Some (take i tbl @ ring_load mem (length mem) idx k @ drop (i + k) tbl)"
proof (induction k arbitrary: idx i tbl)
  case 0
  then show ?case by (simp add: ring_load_def)
next
  case (Suc k)
  have split: "ring_load mem (length mem) idx (Suc k) =
      mem ! idx # ring_load mem (length mem) (Suc idx) k"
    using ring_load_add [of mem "length mem" idx 1 k] Suc.prems by (simp add: ring_load_def)
  have "take (Suc i) (tbl[i := mem ! idx]) = take i tbl @ [mem ! idx]"
    using Suc.prems by (simp add: take_Suc_conv_app_nth)
  then show ?case
    using Suc.IH [of "Suc idx" "Suc i" "tbl[i := mem ! idx]"] Suc.prems
    by (simp add: split)
qed

section \<open>Ring geometry\<close>

text \<open>
  What \<open>rte_ring_init\<close> sets up for a non-zero power of two within the size limit, and no
  operation changes.
\<close>

definition ring_geom :: "'a rte_ring \<Rightarrow> bool" where
  "ring_geom r \<longleftrightarrow>
     POWEROF2 (prod_size r) \<and> prod_size r \<noteq> 0 \<and> prod_size r \<le> RTE_RING_SZ_MASK \<and>
     cons_size r = prod_size r \<and> prod_mask r = prod_size r - 1 \<and> cons_mask r = prod_size r - 1 \<and>
     length (ring_mem r) = unat (prod_size r)"

lemma ring_geomE:
  assumes "ring_geom r"
  obtains k where "k < 28" and "unat (prod_size r) = 2 ^ k" and "prod_mask r = mask k"
    and "cons_size r = prod_size r" and "cons_mask r = mask k" and "length (ring_mem r) = 2 ^ k"
proof -
  from assms obtain k where k: "k < 32" "unat (prod_size r) = 2 ^ k" "prod_size r - 1 = mask k"
    unfolding ring_geom_def using POWEROF2_mask [of "prod_size r"] by auto
  have "(2::nat) ^ k \<le> 0x0fffffff"
    using assms k(2) by (simp add: ring_geom_def word_le_nat_alt)
  also have "(0x0fffffff :: nat) < 2 ^ 28" by simp
  finally have "k < 28" by (rule power_less_imp_less_exp [rotated]) simp
  with k assms show thesis by (intro that [of k]) (auto simp: ring_geom_def)
qed

lemma ENQUEUE_PTRS_eq:
  assumes "ring_geom r" and "unat n \<le> unat (prod_size r)" and "unat n \<le> length objs"
  shows "ENQUEUE_PTRS r h n objs =
    Some (ring_store (ring_mem r) (unat (prod_size r)) (unat h) (take (unat n) objs))"
proof -
  from assms(1) obtain k where k: "k < 28" "unat (prod_size r) = 2 ^ k" "prod_mask r = mask k"
     "length (ring_mem r) = 2 ^ k" by (rule ring_geomE) blast
  define sz where "sz = unat (prod_size r)"
  define idx where "idx = unat (h AND prod_mask r)"
  have idx: "idx = unat h mod sz" by (simp add: idx_def sz_def k unat_and_mask)
  have sz: "0 < sz" "sz < 2 ^ 31" "length (ring_mem r) = sz"
    using k power_strict_increasing [of k 28 "2::nat"] by (simp_all add: sz_def)
  have "idx < sz" using sz(1) by (simp add: idx)
  note n = assms(2) [folded sz_def]
  have store_idx: "ring_store mem sz idx xs = ring_store mem sz (unat h) xs" for mem :: "'a list" and xs
    by (rule ring_store_cong_mod) (simp add: idx)
  show ?thesis
  proof (cases "idx + unat n < sz")
    case True
    have "copy_ptrs b (prod_size r) (prod_mask r) h n s = copy_seq b idx 0 (unat n) s"
      for b and s :: "'a list"
      using copy_ptrs_seq_nowrap [of h "prod_mask r" "prod_size r" n b s] n sz True \<open>idx < sz\<close>
      by (simp flip: idx_def sz_def)
    then show ?thesis using True sz assms(3)
      by (simp add: ENQUEUE_PTRS_def copy_seq_store store_idx flip: sz_def)
  next
    case False
    define d where "d = sz - idx"
    have d: "d \<le> unat n" "idx + d = sz" "unat n - d \<le> sz" using False \<open>idx < sz\<close> n by (auto simp: d_def)
    have cp: "copy_ptrs b (prod_size r) (prod_mask r) h n s =
        do { s \<leftarrow> copy_seq b idx 0 d s; copy_seq b 0 d (unat n - d) s }"
      for b and s :: "'a list"
      using copy_ptrs_seq [of h "prod_mask r" "prod_size r" n b s] n sz False \<open>idx < sz\<close>
      by (simp flip: idx_def sz_def d_def)
    have split: "take (unat n) objs = take d objs @ take (unat n - d) (drop d objs)"
      using d by (metis le_add_diff_inverse take_add)
    have "ENQUEUE_PTRS r h n objs =
      Some (ring_store (ring_store (ring_mem r) sz idx (take d objs)) sz 0 (take (unat n - d) (drop d objs)))"
      using n sz assms(3) d
      by (simp add: ENQUEUE_PTRS_def cp copy_seq_store flip: sz_def)
    also have "\<dots> = Some (ring_store (ring_mem r) sz idx (take (unat n) objs))"
      unfolding split ring_store_append using d assms(3)
      by (simp add: min_absorb2 ring_store_cong_mod [of sz sz 0])
    finally show ?thesis by (simp add: store_idx [unfolded sz_def] sz_def)
  qed
qed

lemma DEQUEUE_PTRS_eq:
  assumes "ring_geom r" and "unat n \<le> unat (prod_size r)" and "unat n \<le> length tbl"
  shows "DEQUEUE_PTRS r h n tbl =
    Some (ring_load (ring_mem r) (unat (prod_size r)) (unat h) (unat n) @ drop (unat n) tbl)"
proof -
  from assms(1) obtain k where k: "k < 28" "unat (prod_size r) = 2 ^ k" "prod_mask r = mask k"
     "length (ring_mem r) = 2 ^ k" "cons_size r = prod_size r" by (rule ring_geomE) blast
  define sz where "sz = unat (prod_size r)"
  define idx where "idx = unat (h AND prod_mask r)"
  have idx: "idx = unat h mod sz" by (simp add: idx_def sz_def k unat_and_mask)
  have sz: "0 < sz" "sz < 2 ^ 31" "length (ring_mem r) = sz"
    using k power_strict_increasing [of k 28 "2::nat"] by (simp_all add: sz_def)
  have "idx < sz" using sz(1) by (simp add: idx)
  note n = assms(2) [folded sz_def]
  have load_idx: "ring_load mem sz idx m = ring_load mem sz (unat h) m" for mem :: "'a list" and m
    by (rule ring_load_cong_mod) (simp add: idx)
  show ?thesis
  proof (cases "idx + unat n < sz")
    case True
    have "copy_ptrs b (prod_size r) (prod_mask r) h n s = copy_seq b idx 0 (unat n) s"
      for b and s :: "'a list"
      using copy_ptrs_seq_nowrap [of h "prod_mask r" "prod_size r" n b s] n sz True \<open>idx < sz\<close>
      by (simp flip: idx_def sz_def)
    then show ?thesis using True sz assms(3) copy_seq_load [of idx "unat n" "ring_mem r" 0 tbl]
      by (simp add: DEQUEUE_PTRS_def k(5) load_idx flip: sz_def)
  next
    case False
    define d where "d = sz - idx"
    have d: "d \<le> unat n" "idx + d = sz" "unat n - d \<le> sz" using False \<open>idx < sz\<close> n by (auto simp: d_def)
    have cp: "copy_ptrs b (prod_size r) (prod_mask r) h n s =
        do { s \<leftarrow> copy_seq b idx 0 d s; copy_seq b 0 d (unat n - d) s }"
      for b and s :: "'a list"
      using copy_ptrs_seq [of h "prod_mask r" "prod_size r" n b s] n sz False \<open>idx < sz\<close>
      by (simp flip: idx_def sz_def d_def)
    have "DEQUEUE_PTRS r h n tbl =
      Some (ring_load (ring_mem r) sz idx d @ ring_load (ring_mem r) sz 0 (unat n - d) @ drop (unat n) tbl)"
      using n sz assms(3) d copy_seq_load [of idx d "ring_mem r" 0 tbl]
        copy_seq_load [of 0 "unat n - d" "ring_mem r" d "ring_load (ring_mem r) sz idx d @ drop d tbl"]
      by (simp add: DEQUEUE_PTRS_def cp k(5) flip: sz_def)
    also have "ring_load (ring_mem r) sz 0 (unat n - d) = ring_load (ring_mem r) sz (idx + d) (unat n - d)"
      by (rule ring_load_cong_mod) (simp add: d)
    finally have "DEQUEUE_PTRS r h n tbl =
      Some (ring_load (ring_mem r) sz idx (d + (unat n - d)) @ drop (unat n) tbl)"
      by (simp add: ring_load_add)
    then show ?thesis using d by (simp add: load_idx [unfolded sz_def] sz_def)
  qed
qed

section \<open>Refinement to a bounded FIFO queue\<close>

text \<open>
  A ring with no operation in progress: heads and tails agree and at most \<open>size - 1\<close>
  objects are stored. The objects it holds are the slots from the consumer tail up to the
  producer tail, oldest first.
\<close>

definition ring_ok :: "'a rte_ring \<Rightarrow> bool" where
  "ring_ok r \<longleftrightarrow> ring_geom r \<and> prod_head r = prod_tail r \<and> cons_head r = cons_tail r \<and>
     prod_tail r - cons_tail r \<le> prod_mask r"

definition ring_contents :: "'a rte_ring \<Rightarrow> 'a list" where
  "ring_contents r =
     ring_load (ring_mem r) (unat (prod_size r)) (unat (cons_tail r)) (unat (prod_tail r - cons_tail r))"

definition ring_capacity :: "'a rte_ring \<Rightarrow> nat" where
  "ring_capacity r = unat (prod_mask r)"

lemma length_ring_contents: "length (ring_contents r) = unat (prod_tail r - cons_tail r)"
  by (simp add: ring_contents_def)

lemma ring_geom_capacity:
  assumes "ring_geom r"
  shows "unat (prod_size r) = ring_capacity r + 1" and "ring_capacity r < 2 ^ 28"
    and "unat (prod_size r) dvd 2 ^ 32"
proof -
  from assms obtain k where k: "k < 28" "unat (prod_size r) = 2 ^ k" "prod_mask r = mask k"
    by (rule ring_geomE) blast
  have m: "unat (prod_mask r) = 2 ^ k - 1"
    using assms k by (simp add: ring_geom_def unat_minus_one)
  show "unat (prod_size r) = ring_capacity r + 1" by (simp add: ring_capacity_def k(2) m)
  have "(2::nat) ^ k < 2 ^ 28" using k by (intro power_strict_increasing) auto
  then show "ring_capacity r < 2 ^ 28" by (simp add: ring_capacity_def m)
  have "(2::nat) ^ k dvd 2 ^ 32" by (rule le_imp_power_dvd) (use k in simp)
  then show "unat (prod_size r) dvd 2 ^ 32" by (simp only: k(2))
qed

lemma ring_ok_length:
  "ring_ok r \<Longrightarrow> length (ring_contents r) \<le> ring_capacity r"
  by (simp add: ring_ok_def length_ring_contents ring_capacity_def word_le_nat_alt)

text \<open>The indices wrap at $2^{32}$, a multiple of the ring size, so a slot is found from either counter.\<close>

lemma unat_add_mod_size:
  assumes "ring_geom r"
  shows "(unat (a + b :: u32)) mod unat (prod_size r) = (unat a + unat b) mod unat (prod_size r)"
proof -
  have "unat (a + b) = (unat a + unat b) mod 2 ^ 32" by (simp add: unat_word_ariths)
  then show ?thesis using ring_geom_capacity(3) [OF assms] by (simp add: mod_mod_cancel)
qed

lemma ring_free_entries:
  assumes "ring_ok r"
  shows "unat (prod_mask r + cons_tail r - prod_head r) = ring_capacity r - length (ring_contents r)"
proof -
  have "prod_mask r + cons_tail r - prod_head r = prod_mask r - (prod_tail r - cons_tail r)"
    using assms by (simp add: ring_ok_def)
  then show ?thesis unfolding \<open>prod_mask r + cons_tail r - prod_head r = _\<close>
    using assms by (simp add: ring_ok_def unat_sub ring_capacity_def length_ring_contents)
qed

definition fifo_accept :: "nat \<Rightarrow> nat \<Rightarrow> rte_ring_queue_behavior \<Rightarrow> nat" where
  "fifo_accept room n behavior =
     (if n \<le> room then n else if behavior = RTE_RING_QUEUE_FIXED then 0 else room)"

definition fifo_enqueue_ret :: "nat \<Rightarrow> nat \<Rightarrow> nat \<Rightarrow> nat \<Rightarrow> rte_ring_queue_behavior \<Rightarrow> int" where
  "fifo_enqueue_ret capacity watermark used n behavior =
     (let room = capacity - used; m = fifo_accept room n behavior in
      if room < n \<and> behavior = RTE_RING_QUEUE_FIXED then - ENOBUFS
      else if room < n \<and> room = 0 then 0
      else if watermark \<le> used + m
           then (if behavior = RTE_RING_QUEUE_FIXED then - EDQUOT else int m - 2 ^ 31)
           else (if behavior = RTE_RING_QUEUE_FIXED then 0 else int m))"

lemma signed_31_small: "0 \<le> k \<Longrightarrow> k < 2 ^ 31 \<Longrightarrow> signed_take_bit 31 (k :: int) = k"
  by (rule signed_take_bit_int_eq_self) simp_all

lemma signed_31_top:
  assumes "0 \<le> k" "k < 2 ^ 31"
  shows "signed_take_bit 31 (k + 2 ^ 31 :: int) = k - 2 ^ 31"
proof -
  have "signed_take_bit 31 (k + 2 ^ 31) = (k + 2 ^ 31 + 2 ^ 31) mod 2 ^ 32 - 2 ^ 31"
    by (simp add: signed_take_bit_eq_take_bit_shift take_bit_eq_mod)
  also have "(k + 2 ^ 31 + 2 ^ 31) mod 2 ^ 32 = k" using assms by simp
  finally show ?thesis .
qed

lemma uint_less_31: "unat (n :: u32) < 2 ^ 31 \<Longrightarrow> uint n < 2 ^ 31"
  by (metis of_nat_less_iff of_nat_numeral of_nat_power of_nat_unat)

lemma sint_small: "unat (n :: u32) < 2 ^ 31 \<Longrightarrow> sint n = int (unat n)"
  using signed_31_small [OF _ uint_less_31, of n] by (simp add: sint_uint)

lemma sint_quot_exceed:
  assumes "unat (n :: u32) < 2 ^ 31"
  shows "sint (n OR RTE_RING_QUOT_EXCEED) = int (unat n) - 2 ^ 31"
proof -
  define e :: u32 where "e = 2 ^ 31"
  have top: "RTE_RING_QUOT_EXCEED = e" by (simp add: e_def)
  have be: "bit e i \<Longrightarrow> i = 31" for i unfolding e_def bit_exp_iff by simp
  have n: "take_bit 31 n = n"
    using assms by (simp add: word_unat_eq_iff take_bit_eq_mask unat_and_mask)
  have "bit n i \<Longrightarrow> i < 31" for i by (subst (asm) n [symmetric]) (simp add: bit_take_bit_iff)
  then have or: "n OR e = n + e"
    by (subst disjunctive_add) (auto dest: be)
  have "unat (n + e) = unat n + 2 ^ 31"
    using assms by (subst unat_word_ariths(1)) (simp add: e_def)
  then have "int (unat (n + e)) = int (unat n) + 2 ^ 31"
    by (simp only: of_nat_add of_nat_power of_nat_numeral)
  then have "uint (n + e) = uint n + 2 ^ 31" by (simp only: of_nat_unat)
  then show ?thesis unfolding top or
    using signed_31_top [OF _ uint_less_31 [OF assms]] by (simp add: sint_uint)
qed

lemma enqueue_ret_eq:
  assumes "unat free_entries \<le> unat (prod_mask r)" and "unat n \<le> unat free_entries"
    and "unat (prod_mask r) < 2 ^ 28"
  shows "enqueue_ret r free_entries n behavior =
     (if unat (prod_watermark r) < unat (prod_mask r) + 1 - unat free_entries + unat n
      then (if behavior = RTE_RING_QUEUE_FIXED then - EDQUOT else int (unat n) - 2 ^ 31)
      else (if behavior = RTE_RING_QUEUE_FIXED then 0 else int (unat n)))"
proof -
  have a: "unat (prod_mask r + 1) = unat (prod_mask r) + 1"
    using assms by (simp add: unat_word_ariths)
  have b: "unat (prod_mask r + 1 - free_entries) = unat (prod_mask r) + 1 - unat free_entries"
    using assms a by (simp add: unat_sub word_le_nat_alt)
  have "unat (prod_mask r + 1 - free_entries + n) = unat (prod_mask r) + 1 - unat free_entries + unat n"
    using assms b by (subst unat_word_ariths(1)) simp
  moreover have "unat n < 2 ^ 31" using assms by simp
  ultimately show ?thesis
    by (simp add: enqueue_ret_def word_less_nat_alt sint_small sint_quot_exceed [simplified])
qed

lemma ring_push:
  assumes ok: "ring_ok r" and len: "length (ring_contents r) + length xs \<le> ring_capacity r"
    and k: "unat k = length xs"
  defines "r' \<equiv> r\<lparr>prod_head := prod_head r + k,
     ring_mem := ring_store (ring_mem r) (unat (prod_size r)) (unat (prod_head r)) xs,
     prod_tail := prod_head r + k\<rparr>"
  shows "ring_ok r'" and "ring_contents r' = ring_contents r @ xs"
proof -
  define sz where "sz = unat (prod_size r)"
  define cnt where "cnt = unat (prod_tail r - cons_tail r)"
  define ct where "ct = unat (cons_tail r)"
  have geom: "ring_geom r" and hd: "prod_head r = prod_tail r" and ch: "cons_head r = cons_tail r"
    using ok by (auto simp: ring_ok_def)
  have cnt_len: "length (ring_contents r) = cnt" by (simp add: cnt_def length_ring_contents)
  have cap: "sz = ring_capacity r + 1" "ring_capacity r < 2 ^ 28" "length (ring_mem r) = sz"
    using ring_geom_capacity [OF geom] geom by (auto simp: sz_def ring_geom_def)
  have bound: "cnt + length xs \<le> ring_capacity r" using len by (simp add: cnt_len)
  have "prod_tail r + k - cons_tail r = (prod_tail r - cons_tail r) + k" by simp
  then have cnt': "unat (prod_tail r + k - cons_tail r) = cnt + length xs"
    using bound cap by (simp only:) (subst unat_word_ariths(1), simp add: k flip: cnt_def)
  show "ring_ok r'"
    using geom hd ch cnt' bound
    by (simp add: ring_ok_def r'_def ring_geom_def word_le_nat_alt ring_capacity_def)
  have pt: "unat (prod_tail r) mod sz = (ct + cnt) mod sz"
    using unat_add_mod_size [OF geom, of "cons_tail r" "prod_tail r - cons_tail r"]
    by (simp add: sz_def ct_def cnt_def)
  have mem': "ring_store (ring_mem r) sz (unat (prod_head r)) xs = ring_store (ring_mem r) sz (ct + cnt) xs"
    unfolding hd by (rule ring_store_cong_mod [OF pt])
  have "ring_contents r' = ring_load (ring_store (ring_mem r) sz (ct + cnt) xs) sz ct (cnt + length xs)"
    using mem' cnt' hd by (simp add: ring_contents_def r'_def sz_def ct_def)
  also have "\<dots> = ring_load (ring_mem r) sz ct cnt @ xs"
    using bound cap by (simp add: ring_load_add ring_load_store ring_load_store_other)
  finally show "ring_contents r' = ring_contents r @ xs"
    by (simp add: ring_contents_def sz_def ct_def cnt_def)
qed

lemma sp_do_enqueue_refines:
  fixes behavior :: rte_ring_queue_behavior and n :: u32 and r :: "'a rte_ring"
  assumes ok: "ring_ok r" and len: "unat n \<le> length objs"
  defines "m \<equiv> fifo_accept (ring_capacity r - length (ring_contents r)) (unat n) behavior"
  shows "\<exists>r'. sp_do_enqueue r objs n behavior =
      Some (fifo_enqueue_ret (ring_capacity r) (unat (prod_watermark r)) (length (ring_contents r)) (unat n) behavior, r')
    \<and> ring_ok r' \<and> ring_contents r' = ring_contents r @ take m objs
    \<and> ring_capacity r' = ring_capacity r \<and> prod_watermark r' = prod_watermark r"
proof -
  define free where "free = prod_mask r + cons_tail r - prod_head r"
  define room where "room = ring_capacity r - length (ring_contents r)"
  have free: "unat free = room" using ring_free_entries [OF ok] by (simp add: free_def room_def)
  have geom: "ring_geom r" using ok by (simp add: ring_ok_def)
  have full: "length (ring_contents r) + room = ring_capacity r"
    using ring_ok_length [OF ok] by (simp add: room_def)
  consider (refuse) "room < unat n" "behavior = RTE_RING_QUEUE_FIXED"
    | (none) "room < unat n" "behavior = RTE_RING_QUEUE_VARIABLE" "room = 0"
    | (some) "\<not> (room < unat n \<and> (behavior = RTE_RING_QUEUE_FIXED \<or> room = 0))"
    using rte_ring_queue_behavior.exhaust by blast
  then show ?thesis
  proof cases
    case refuse
    then show ?thesis using ok free
      by (intro exI [of _ r])
        (simp add: sp_do_enqueue_def fifo_enqueue_ret_def fifo_accept_def word_less_nat_alt m_def
          flip: free_def room_def)
  next
    case none
    then have "free = 0" using free by (simp add: word_unat_eq_iff)
    with none show ?thesis using ok free
      by (intro exI [of _ r])
        (simp add: sp_do_enqueue_def fifo_enqueue_ret_def fifo_accept_def word_less_nat_alt m_def
          flip: free_def room_def)
  next
    case some
    define n' where "n' = (if free < n then free else n)"
    have m: "unat n' = m" "m \<le> room" "m \<le> length objs"
      using some len by (auto simp: n'_def m_def fifo_accept_def free word_less_nat_alt simp flip: room_def)
    define r' where "r' = r\<lparr>prod_head := prod_head r + n',
       ring_mem := ring_store (ring_mem r) (unat (prod_size r)) (unat (prod_head r)) (take m objs),
       prod_tail := prod_head r + n'\<rparr>"
    have push: "ring_ok r'" "ring_contents r' = ring_contents r @ take m objs"
      using ring_push [OF ok, of "take m objs" n'] m full by (simp_all add: r'_def min_absorb2)
    have "ring_geom (r\<lparr>prod_head := prod_head r + n'\<rparr>)" using geom by (simp add: ring_geom_def)
    from ENQUEUE_PTRS_eq [OF this, of n' objs "prod_head r"]
    have copy: "ENQUEUE_PTRS (r\<lparr>prod_head := prod_head r + n'\<rparr>) (prod_head r) n' objs =
      Some (ring_store (ring_mem r) (unat (prod_size r)) (unat (prod_head r)) (take m objs))"
      using m full ring_geom_capacity [OF geom] by simp
    have ret: "enqueue_ret r free n' behavior =
      fifo_enqueue_ret (ring_capacity r) (unat (prod_watermark r)) (length (ring_contents r)) (unat n) behavior"
    proof (subst enqueue_ret_eq)
      show "unat free \<le> unat (prod_mask r)" "unat n' \<le> unat free" "unat (prod_mask r) < 2 ^ 28"
        using m full free ring_geom_capacity [OF geom] by (simp_all add: ring_capacity_def)
      have acc: "fifo_accept room (unat n) behavior = m" by (simp add: m_def room_def)
      have used: "unat (prod_mask r) + 1 - unat free + unat n' = length (ring_contents r) + 1 + m"
        using m full free by (simp add: ring_capacity_def)
      show "(if unat (prod_watermark r) < unat (prod_mask r) + 1 - unat free + unat n'
          then if behavior = RTE_RING_QUEUE_FIXED then - EDQUOT else int (unat n') - 2 ^ 31
          else if behavior = RTE_RING_QUEUE_FIXED then 0 else int (unat n')) =
        fifo_enqueue_ret (ring_capacity r) (unat (prod_watermark r)) (length (ring_contents r)) (unat n) behavior"
        unfolding used fifo_enqueue_ret_def Let_def room_def [symmetric] acc
        using some m by auto
    qed
    have c1: "\<not> (free < n \<and> behavior = RTE_RING_QUEUE_FIXED)" and c2: "\<not> (free < n \<and> free = 0)"
      using some free by (auto simp: word_less_nat_alt)
    have "sp_do_enqueue r objs n behavior = Some (enqueue_ret r free n' behavior, r')"
      unfolding sp_do_enqueue_def Let_def free_def [symmetric] if_not_P [OF c1] if_not_P [OF c2] n'_def [symmetric]
      by (simp add: copy r'_def)
    then show ?thesis using push ret by (intro exI [of _ r']) (simp add: r'_def ring_capacity_def)
  qed
qed

definition fifo_dequeue_ret :: "nat \<Rightarrow> nat \<Rightarrow> rte_ring_queue_behavior \<Rightarrow> int" where
  "fifo_dequeue_ret used n behavior =
     (if used < n \<and> behavior = RTE_RING_QUEUE_FIXED then - ENOENT
      else if behavior = RTE_RING_QUEUE_FIXED then 0
      else int (fifo_accept used n behavior))"

lemma ring_pop:
  assumes ok: "ring_ok r" and k: "unat k \<le> length (ring_contents r)"
  defines "r' \<equiv> r\<lparr>cons_head := cons_head r + k, cons_tail := cons_head r + k\<rparr>"
  shows "ring_ok r'" and "ring_contents r' = drop (unat k) (ring_contents r)"
    and "ring_load (ring_mem r) (unat (prod_size r)) (unat (cons_head r)) (unat k) = take (unat k) (ring_contents r)"
proof -
  define sz where "sz = unat (prod_size r)"
  define cnt where "cnt = unat (prod_tail r - cons_tail r)"
  have geom: "ring_geom r" and hd: "prod_head r = prod_tail r" and ch: "cons_head r = cons_tail r"
    and le: "prod_tail r - cons_tail r \<le> prod_mask r"
    using ok by (auto simp: ring_ok_def)
  have kc: "unat k \<le> cnt" using k by (simp add: cnt_def length_ring_contents)
  have cnt': "unat (prod_tail r - (cons_tail r + k)) = cnt - unat k"
  proof -
    have "prod_tail r - (cons_tail r + k) = (prod_tail r - cons_tail r) - k" by simp
    then show ?thesis using kc by (simp only: cnt_def unat_sub word_le_nat_alt)
  qed
  show "ring_ok r'"
    using geom hd ch cnt' le
    by (simp add: ring_ok_def r'_def ring_geom_def word_le_nat_alt cnt_def)
  have split: "ring_contents r = ring_load (ring_mem r) sz (unat (cons_tail r)) (unat k)
      @ ring_load (ring_mem r) sz (unat (cons_tail r) + unat k) (cnt - unat k)"
    using kc by (simp add: ring_contents_def cnt_def sz_def flip: ring_load_add)
  have "ring_load (ring_mem r) sz (unat (cons_tail r + k)) (cnt - unat k)
      = ring_load (ring_mem r) sz (unat (cons_tail r) + unat k) (cnt - unat k)"
    unfolding sz_def by (rule ring_load_cong_mod) (rule unat_add_mod_size [OF geom])
  then have "ring_contents r' = ring_load (ring_mem r) sz (unat (cons_tail r) + unat k) (cnt - unat k)"
    using ch cnt' by (simp add: ring_contents_def r'_def sz_def)
  then show "ring_contents r' = drop (unat k) (ring_contents r)" by (simp add: split)
  show "ring_load (ring_mem r) (unat (prod_size r)) (unat (cons_head r)) (unat k) = take (unat k) (ring_contents r)"
    using ch by (simp add: split flip: sz_def)
qed

lemma sc_do_dequeue_refines:
  fixes behavior :: rte_ring_queue_behavior and n :: u32 and r :: "'a rte_ring"
  assumes ok: "ring_ok r" and len: "unat n \<le> length tbl"
  defines "m \<equiv> fifo_accept (length (ring_contents r)) (unat n) behavior"
  shows "\<exists>r'. sc_do_dequeue r tbl n behavior =
      Some (fifo_dequeue_ret (length (ring_contents r)) (unat n) behavior, take m (ring_contents r) @ drop m tbl, r')
    \<and> ring_ok r' \<and> ring_contents r' = drop m (ring_contents r)
    \<and> ring_capacity r' = ring_capacity r \<and> prod_watermark r' = prod_watermark r"
proof -
  define used where "used = length (ring_contents r)"
  define entries where "entries = prod_tail r - cons_head r"
  have entries: "unat entries = used"
    using ok by (simp add: entries_def used_def ring_ok_def length_ring_contents)
  have geom: "ring_geom r" using ok by (simp add: ring_ok_def)
  have acc: "fifo_accept used (unat n) behavior = m" by (simp add: m_def used_def)
  have used: "used \<le> ring_capacity r" using ring_ok_length [OF ok] by (simp add: used_def)
  consider (refuse) "used < unat n" "behavior = RTE_RING_QUEUE_FIXED"
    | (none) "used < unat n" "behavior = RTE_RING_QUEUE_VARIABLE" "used = 0"
    | (some) "\<not> (used < unat n \<and> (behavior = RTE_RING_QUEUE_FIXED \<or> used = 0))"
    using rte_ring_queue_behavior.exhaust by blast
  then show ?thesis
  proof cases
    case refuse
    then show ?thesis using ok entries
      by (intro exI [of _ r])
        (simp add: sc_do_dequeue_def fifo_dequeue_ret_def fifo_accept_def word_less_nat_alt m_def
          flip: entries_def used_def)
  next
    case none
    then have "entries = 0" using entries by (simp add: word_unat_eq_iff)
    with none show ?thesis using ok entries
      by (intro exI [of _ r])
        (simp add: sc_do_dequeue_def fifo_dequeue_ret_def fifo_accept_def word_less_nat_alt m_def
          flip: entries_def used_def)
  next
    case some
    define n' where "n' = (if entries < n then entries else n)"
    have m: "unat n' = m" "m \<le> used" "m \<le> length tbl"
      using some len by (auto simp: n'_def fifo_accept_def entries word_less_nat_alt simp flip: acc)
    define r1 where "r1 = r\<lparr>cons_head := cons_head r + n'\<rparr>"
    define r' where "r' = r1\<lparr>cons_tail := cons_head r + n'\<rparr>"
    have pop: "ring_ok r'" "ring_contents r' = drop m (ring_contents r)"
      "ring_load (ring_mem r) (unat (prod_size r)) (unat (cons_head r)) m = take m (ring_contents r)"
      using ring_pop [OF ok, of n'] m by (simp_all add: r'_def r1_def used_def)
    have "ring_geom r1" using geom by (simp add: ring_geom_def r1_def)
    from DEQUEUE_PTRS_eq [OF this, of n' tbl "cons_head r"]
    have copy: "DEQUEUE_PTRS r1 (cons_head r) n' tbl = Some (take m (ring_contents r) @ drop m tbl)"
      using m used pop(3) ring_geom_capacity [OF geom] by (simp add: r1_def)
    have c1: "\<not> (entries < n \<and> behavior = RTE_RING_QUEUE_FIXED)" and c2: "\<not> (entries < n \<and> entries = 0)"
      using some entries by (auto simp: word_less_nat_alt)
    have "m < 2 ^ 31" using m used ring_geom_capacity(2) [OF geom] by simp
    then have ret: "(if behavior = RTE_RING_QUEUE_FIXED then 0 else sint n') = fifo_dequeue_ret used (unat n) behavior"
      using m(1) some by (auto simp: fifo_dequeue_ret_def acc sint_small)
    have "sc_do_dequeue r tbl n behavior =
      Some (fifo_dequeue_ret used (unat n) behavior, take m (ring_contents r) @ drop m tbl, r')"
      unfolding sc_do_dequeue_def Let_def entries_def [symmetric] if_not_P [OF c1] if_not_P [OF c2]
        n'_def [symmetric] r1_def [symmetric]
      by (simp add: copy ret r'_def)
    then show ?thesis using pop
      by (intro exI [of _ r']) (simp add: r'_def r1_def ring_capacity_def used_def)
  qed
qed

lemma rte_ring_init_ok:
  assumes "POWEROF2 count" and "count \<noteq> 0" and "count \<le> RTE_RING_SZ_MASK" and "length mem = unat count"
  shows "ring_ok (rte_ring_init name count flags mem)"
    and "ring_contents (rte_ring_init name count flags mem) = []"
  using assms by (simp_all add: ring_ok_def ring_geom_def rte_ring_init_def ring_contents_def ring_load_def)

lemma ring_counters:
  assumes ok: "ring_ok r"
  shows "unat (rte_ring_count r) = length (ring_contents r)"
    and "unat (rte_ring_free_count r) = ring_capacity r - length (ring_contents r)"
    and "rte_ring_empty r \<longleftrightarrow> ring_contents r = []"
    and "rte_ring_full r \<longleftrightarrow> length (ring_contents r) = ring_capacity r"
proof -
  from ok have "ring_geom r" by (simp add: ring_ok_def)
  then obtain k where k: "k < 28" "unat (prod_size r) = 2 ^ k" "prod_mask r = mask k"
    by (rule ring_geomE) blast
  have cap: "ring_capacity r = 2 ^ k - 1"
    using ring_geom_capacity(1) [OF \<open>ring_geom r\<close>] k(2) by simp
  define d where "d = prod_tail r - cons_tail r"
  have d: "unat d = length (ring_contents r)" "unat d \<le> 2 ^ k - 1"
    using ring_ok_length [OF ok] cap by (simp_all add: d_def length_ring_contents)
  have "(0::nat) < 2 ^ k" by simp
  with d(2) have d_less: "unat d < 2 ^ k" by linarith
  show "unat (rte_ring_count r) = length (ring_contents r)"
    using d(1) d_less by (simp add: rte_ring_count_def k unat_and_mask d_def)
  have e1: "cons_tail r - prod_tail r - 1 = - 1 - d" by (simp add: d_def)
  have e2: "unat (- 1 - d) = 2 ^ 32 - 1 - unat d"
    by (subst unat_sub) (simp_all add: unsigned_minus_1_eq_mask mask_eq_exp_minus_1)
  have e3: "(2 ^ 32 - 1 - unat d) mod 2 ^ k = 2 ^ k - 1 - unat d"
  proof -
    have "(2::nat) ^ 32 = 2 ^ k * 2 ^ (32 - k)"
      using k(1) by (simp flip: power_add)
    moreover have "(1::nat) \<le> 2 ^ (32 - k)" by simp
    then obtain q where "(2::nat) ^ (32 - k) = Suc q" by (metis Suc_diff_1 less_eq_Suc_le One_nat_def)
    ultimately have eq: "(2::nat) ^ 32 - 1 - unat d = (2 ^ k - 1 - unat d) + 2 ^ k * q"
      using d_less by simp
    show ?thesis unfolding eq mod_mult_self2 using d_less by simp
  qed
  have free: "unat (rte_ring_free_count r) = 2 ^ k - 1 - unat d"
    unfolding rte_ring_free_count_def k(3) e1 unat_and_mask e2 e3 ..
  then show "unat (rte_ring_free_count r) = ring_capacity r - length (ring_contents r)"
    by (simp add: cap d)
  have "rte_ring_full r \<longleftrightarrow> unat (rte_ring_free_count r) = 0"
    by (simp add: rte_ring_full_def rte_ring_free_count_def word_unat_eq_iff)
  then show "rte_ring_full r \<longleftrightarrow> length (ring_contents r) = ring_capacity r"
    using free d cap by auto
  show "rte_ring_empty r \<longleftrightarrow> ring_contents r = []"
  proof -
    have "rte_ring_empty r \<longleftrightarrow> d = 0" by (auto simp: rte_ring_empty_def d_def)
    also have "\<dots> \<longleftrightarrow> unat d = 0" by (simp add: word_unat_eq_iff)
    finally show ?thesis by (simp add: d(1))
  qed
qed

end
