(* ===== verification/Ring_MP.thy ===== *)
theory Ring_MP
  imports Ring
begin

text \<open>
  The multi-producer and multi-consumer operations of lib/librte_ring/rte_ring.h, one atomic
  access to shared memory at a time: the reads of the head and tail indices, the
  compare-and-set, each object copy, and the wait for the tail. Any number of producer and
  consumer threads interleave on one ring (sequential consistency). The invariant shows that
  the threads never touch each other's slots and that the objects leave the ring in the order
  in which their slots were reserved.
\<close>

section \<open>A producer and a consumer, one access at a time\<close>

text \<open>
  \<open>PLoop\<close> is the top of the \<open>do\<close> loop of \<open>__rte_ring_mp_do_enqueue\<close> (\<open>n\<close> reset to
  \<open>max\<close>), \<open>PTail\<close> is after the read of \<open>prod.head\<close>, \<open>PCas\<close> before
  \<open>rte_atomic32_cmpset\<close>, \<open>PCopy\<close> inside \<open>ENQUEUE_PTRS\<close> with the number of objects copied,
  \<open>PWait\<close> at the wait for \<open>prod.tail\<close>. \<open>PFault\<close> is an access outside the ring or the
  caller's table. A step of the macro handles object \<open>i\<close>; its slot is the index of the loop that
  handles it, counted on from the masked head in the loops that do not wrap and from 0 in the
  last one, without a further mask (\<open>copy_ptrs_from\<close> shows that the loops of the macro are these
  steps).
\<close>

definition ptrs_idx :: "u32 \<Rightarrow> u32 \<Rightarrow> u32 \<Rightarrow> u32 \<Rightarrow> nat \<Rightarrow> nat" where
  "ptrs_idx sz msk head n i = (let idx = head AND msk in
     if idx + n < sz \<or> unat idx + i < unat sz then unat idx + i else i - (unat sz - unat idx))"

definition ptrs_more :: "u32 \<Rightarrow> u32 \<Rightarrow> u32 \<Rightarrow> u32 \<Rightarrow> nat \<Rightarrow> bool" where
  "ptrs_more sz msk head n i \<longleftrightarrow> (let idx = head AND msk in
     i < unat n \<or> (\<not> idx + n < sz \<and> unat idx + i < unat sz))"

datatype 'a prod_pc =
    PIdle
  | PLoop "'a list" u32 rte_ring_queue_behavior
  | PTail "'a list" u32 rte_ring_queue_behavior u32
  | PCas "'a list" u32 rte_ring_queue_behavior u32 u32 u32
  | PCopy "'a list" rte_ring_queue_behavior u32 u32 u32 nat
  | PWait u32 u32 int
  | PDone int
  | PFault

fun mp_enqueue_step :: "'a rte_ring \<Rightarrow> 'a prod_pc \<Rightarrow> ('a rte_ring \<times> 'a prod_pc) option" where
  "mp_enqueue_step r (PLoop objs mx b) = Some (r, PTail objs mx b (prod_head r))"
| "mp_enqueue_step r (PTail objs mx b ph) =
     (let free_entries = prod_mask r + cons_tail r - ph in
      if free_entries < mx \<and> b = RTE_RING_QUEUE_FIXED then Some (r, PDone (- ENOBUFS))
      else if free_entries < mx \<and> free_entries = 0 then Some (r, PDone 0)
      else Some (r, PCas objs mx b ph free_entries (if free_entries < mx then free_entries else mx)))"
| "mp_enqueue_step r (PCas objs mx b ph free_entries n) =
     (if prod_head r = ph then Some (r\<lparr>prod_head := ph + n\<rparr>, PCopy objs b ph free_entries n 0)
      else Some (r, PLoop objs mx b))"
| "mp_enqueue_step r (PCopy objs b ph free_entries n i) =
     (if ptrs_more (prod_size r) (prod_mask r) ph n i then
        (case do { v \<leftarrow> read_at objs i;
                   write_at (ring_mem r) (ptrs_idx (prod_size r) (prod_mask r) ph n i) v } of
           None \<Rightarrow> Some (r, PFault)
         | Some mem \<Rightarrow> Some (r\<lparr>ring_mem := mem\<rparr>, PCopy objs b ph free_entries n (Suc i)))
      else Some (r, PWait ph n (enqueue_ret r free_entries n b)))"
| "mp_enqueue_step r (PWait ph n ret) =
     (if prod_tail r = ph then Some (r\<lparr>prod_tail := ph + n\<rparr>, PDone ret)
      else Some (r, PWait ph n ret))"
| "mp_enqueue_step r PIdle = None"
| "mp_enqueue_step r (PDone ret) = None"
| "mp_enqueue_step r PFault = None"

datatype 'a cons_pc =
    CIdle
  | CLoop "'a list" u32 rte_ring_queue_behavior
  | CTail "'a list" u32 rte_ring_queue_behavior u32
  | CCas "'a list" u32 rte_ring_queue_behavior u32 u32
  | CCopy "'a list" rte_ring_queue_behavior u32 u32 nat
  | CWait "'a list" rte_ring_queue_behavior u32 u32
  | CDone int "'a list"
  | CFault

fun mc_dequeue_step :: "'a rte_ring \<Rightarrow> 'a cons_pc \<Rightarrow> ('a rte_ring \<times> 'a cons_pc) option" where
  "mc_dequeue_step r (CLoop tbl mx b) = Some (r, CTail tbl mx b (cons_head r))"
| "mc_dequeue_step r (CTail tbl mx b ch) =
     (let entries = prod_tail r - ch in
      if entries < mx \<and> b = RTE_RING_QUEUE_FIXED then Some (r, CDone (- ENOENT) tbl)
      else if entries < mx \<and> entries = 0 then Some (r, CDone 0 tbl)
      else Some (r, CCas tbl mx b ch (if entries < mx then entries else mx)))"
| "mc_dequeue_step r (CCas tbl mx b ch n) =
     (if cons_head r = ch then Some (r\<lparr>cons_head := ch + n\<rparr>, CCopy tbl b ch n 0)
      else Some (r, CLoop tbl mx b))"
| "mc_dequeue_step r (CCopy tbl b ch n i) =
     (if ptrs_more (cons_size r) (prod_mask r) ch n i then
        (case do { v \<leftarrow> read_at (ring_mem r) (ptrs_idx (cons_size r) (prod_mask r) ch n i);
                   write_at tbl i v } of
           None \<Rightarrow> Some (r, CFault)
         | Some tbl' \<Rightarrow> Some (r, CCopy tbl' b ch n (Suc i)))
      else Some (r, CWait tbl b ch n))"
| "mc_dequeue_step r (CWait tbl b ch n) =
     (if cons_tail r = ch
      then Some (r\<lparr>cons_tail := ch + n\<rparr>,
                 CDone (if b = RTE_RING_QUEUE_FIXED then 0 else sint n) tbl)
      else Some (r, CWait tbl b ch n))"
| "mc_dequeue_step r CIdle = None"
| "mc_dequeue_step r (CDone ret tbl) = None"
| "mc_dequeue_step r CFault = None"

section \<open>Any number of threads on one ring\<close>

text \<open>
  Besides the ring and the threads' positions the state has bookkeeping that no access of the
  code reads: the objects in the order in which their slots were reserved (\<open>g_hist\<close>), how
  many reserved objects are published, claimed by consumers and released (\<open>g_pt\<close>, \<open>g_ch\<close>,
  \<open>g_ct\<close>, the tail and head indices without the wrap at $2^{32}$), the ticket at which each
  thread read the head, and the objects delivered so far in the order of their release
  (\<open>g_out\<close>).
\<close>

record 'a ring_sys =
  shared :: "'a rte_ring"
  prods :: "nat \<Rightarrow> 'a prod_pc"
  conss :: "nat \<Rightarrow> 'a cons_pc"
  g_hist :: "'a list"
  g_pt :: nat
  g_ch :: nat
  g_ct :: nat
  g_ptick :: "nat \<Rightarrow> nat"
  g_ctick :: "nat \<Rightarrow> nat"
  g_out :: "'a list"

fun prod_ghost :: "nat \<Rightarrow> 'a prod_pc \<Rightarrow> 'a prod_pc \<Rightarrow> 'a ring_sys \<Rightarrow> 'a ring_sys" where
  "prod_ghost i (PLoop objs mx b) pc' s = s\<lparr>g_ptick := (g_ptick s)(i := length (g_hist s))\<rparr>"
| "prod_ghost i (PCas objs mx b ph free_entries n) (PCopy objs' b' ph' f' n' k) s =
     s\<lparr>g_hist := g_hist s @ take (unat n) objs\<rparr>"
| "prod_ghost i (PWait ph n ret) (PDone ret') s = s\<lparr>g_pt := g_pt s + unat n\<rparr>"
| "prod_ghost i pc pc' s = s"

fun cons_ghost :: "nat \<Rightarrow> 'a cons_pc \<Rightarrow> 'a cons_pc \<Rightarrow> 'a ring_sys \<Rightarrow> 'a ring_sys" where
  "cons_ghost i (CLoop tbl mx b) pc' s = s\<lparr>g_ctick := (g_ctick s)(i := g_ch s)\<rparr>"
| "cons_ghost i (CCas tbl mx b ch n) (CCopy tbl' b' ch' n' k) s = s\<lparr>g_ch := g_ch s + unat n\<rparr>"
| "cons_ghost i (CWait tbl b ch n) (CDone ret tbl') s =
     s\<lparr>g_ct := g_ct s + unat n, g_out := g_out s @ take (unat n) tbl\<rparr>"
| "cons_ghost i pc pc' s = s"

text \<open>
  The compare-and-set cannot tell an index from the same index $2^{32}$ objects later. The
  environment assumption is that no thread is held up between its read of a head and its
  compare-and-set while $2^{32}$ objects pass through the ring.
\<close>

fun prod_fresh :: "'a ring_sys \<Rightarrow> nat \<Rightarrow> 'a prod_pc \<Rightarrow> bool" where
  "prod_fresh s i (PCas objs mx b ph free_entries n) \<longleftrightarrow> length (g_hist s) < g_ptick s i + 2 ^ 32"
| "prod_fresh s i pc \<longleftrightarrow> True"

fun cons_fresh :: "'a ring_sys \<Rightarrow> nat \<Rightarrow> 'a cons_pc \<Rightarrow> bool" where
  "cons_fresh s i (CCas tbl mx b ch n) \<longleftrightarrow> g_ch s < g_ctick s i + 2 ^ 32"
| "cons_fresh s i pc \<longleftrightarrow> True"

fun prod_returned :: "'a prod_pc \<Rightarrow> bool" where
  "prod_returned PIdle \<longleftrightarrow> True"
| "prod_returned (PDone ret) \<longleftrightarrow> True"
| "prod_returned pc \<longleftrightarrow> False"

fun cons_returned :: "'a cons_pc \<Rightarrow> bool" where
  "cons_returned CIdle \<longleftrightarrow> True"
| "cons_returned (CDone ret tbl) \<longleftrightarrow> True"
| "cons_returned pc \<longleftrightarrow> False"

inductive ring_trans :: "'a ring_sys \<Rightarrow> 'a ring_sys \<Rightarrow> bool" where
  prod_call: "prod_returned (prods s i) \<Longrightarrow> unat n \<le> length objs \<Longrightarrow>
     ring_trans s (s\<lparr>prods := (prods s)(i := PLoop objs n b)\<rparr>)"
| prod_step: "mp_enqueue_step (shared s) (prods s i) = Some (r', pc') \<Longrightarrow> prod_fresh s i (prods s i) \<Longrightarrow>
     ring_trans s (prod_ghost i (prods s i) pc' (s\<lparr>shared := r', prods := (prods s)(i := pc')\<rparr>))"
| cons_call: "cons_returned (conss s i) \<Longrightarrow> unat n \<le> length tbl \<Longrightarrow>
     ring_trans s (s\<lparr>conss := (conss s)(i := CLoop tbl n b)\<rparr>)"
| cons_step: "mc_dequeue_step (shared s) (conss s i) = Some (r', pc') \<Longrightarrow> cons_fresh s i (conss s i) \<Longrightarrow>
     ring_trans s (cons_ghost i (conss s i) pc' (s\<lparr>shared := r', conss := (conss s)(i := pc')\<rparr>))"

definition ring_start :: "string \<Rightarrow> u32 \<Rightarrow> u32 \<Rightarrow> 'a list \<Rightarrow> 'a ring_sys" where
  "ring_start name count flags mem =
     \<lparr> shared = rte_ring_init name count flags mem, prods = (\<lambda>_. PIdle), conss = (\<lambda>_. CIdle),
       g_hist = [], g_pt = 0, g_ch = 0, g_ct = 0, g_ptick = (\<lambda>_. 0), g_ctick = (\<lambda>_. 0), g_out = [] \<rparr>"

definition ring_start_ok :: "u32 \<Rightarrow> 'a list \<Rightarrow> bool" where
  "ring_start_ok count mem \<longleftrightarrow>
     POWEROF2 count \<and> count \<noteq> 0 \<and> count \<le> RTE_RING_SZ_MASK \<and> length mem = unat count"

inductive ring_reachable :: "'a ring_sys \<Rightarrow> bool" where
  start: "ring_start_ok count mem \<Longrightarrow> ring_reachable (ring_start name count flags mem)"
| step: "ring_reachable s \<Longrightarrow> ring_trans s s' \<Longrightarrow> ring_reachable s'"

section \<open>The invariant\<close>

text \<open>The tickets a thread holds: from its compare-and-set to its update of the tail.\<close>

fun prod_res :: "'a prod_pc \<Rightarrow> nat option" where
  "prod_res (PCopy objs b ph f n i) = Some (unat n)"
| "prod_res (PWait ph n ret) = Some (unat n)"
| "prod_res pc = None"

fun prod_copied :: "'a prod_pc \<Rightarrow> nat" where
  "prod_copied (PCopy objs b ph f n i) = i"
| "prod_copied (PWait ph n ret) = unat n"
| "prod_copied pc = 0"

fun cons_res :: "'a cons_pc \<Rightarrow> nat option" where
  "cons_res (CCopy tbl b ch n i) = Some (unat n)"
| "cons_res (CWait tbl b ch n) = Some (unat n)"
| "cons_res pc = None"

definition inv_geom :: "'a ring_sys \<Rightarrow> bool" where
  "inv_geom s \<longleftrightarrow> (let r = shared s; ph = length (g_hist s) in
     ring_geom r \<and>
     prod_head r = of_nat ph \<and> prod_tail r = of_nat (g_pt s) \<and>
     cons_head r = of_nat (g_ch s) \<and> cons_tail r = of_nat (g_ct s) \<and>
     g_ct s \<le> g_ch s \<and> g_ch s \<le> g_pt s \<and> g_pt s \<le> ph \<and> ph \<le> g_ct s + ring_capacity r)"

definition slot_of :: "'a ring_sys \<Rightarrow> nat \<Rightarrow> 'a" where
  "slot_of s t = ring_mem (shared s) ! (t mod unat (prod_size (shared s)))"

definition inv_slots :: "'a ring_sys \<Rightarrow> bool" where
  "inv_slots s \<longleftrightarrow> (\<forall>t. g_ct s \<le> t \<and> t < g_pt s \<longrightarrow> slot_of s t = g_hist s ! t)"

fun prod_inv :: "'a ring_sys \<Rightarrow> nat \<Rightarrow> 'a prod_pc \<Rightarrow> bool" where
  "prod_inv s t (PLoop objs mx b) \<longleftrightarrow> unat mx \<le> length objs"
| "prod_inv s t (PTail objs mx b ph) \<longleftrightarrow>
     unat mx \<le> length objs \<and> ph = of_nat t \<and> t \<le> length (g_hist s)"
| "prod_inv s t (PCas objs mx b ph f n) \<longleftrightarrow>
     unat mx \<le> length objs \<and> unat n \<le> unat mx \<and> ph = of_nat t \<and> t \<le> length (g_hist s) \<and>
     (t = length (g_hist s) \<longrightarrow> t + unat n \<le> g_ct s + ring_capacity (shared s))"
| "prod_inv s t (PCopy objs b ph f n i) \<longleftrightarrow>
     unat n \<le> length objs \<and> i \<le> unat n \<and> ph = of_nat t \<and> t + unat n \<le> length (g_hist s) \<and>
     (0 < unat n \<longrightarrow> g_pt s \<le> t) \<and>
     (\<forall>j < unat n. objs ! j = g_hist s ! (t + j)) \<and> (\<forall>j < i. slot_of s (t + j) = g_hist s ! (t + j))"
| "prod_inv s t (PWait ph n ret) \<longleftrightarrow>
     ph = of_nat t \<and> t + unat n \<le> length (g_hist s) \<and> (0 < unat n \<longrightarrow> g_pt s \<le> t) \<and>
     (\<forall>j < unat n. slot_of s (t + j) = g_hist s ! (t + j))"
| "prod_inv s t PFault \<longleftrightarrow> False"
| "prod_inv s t pc \<longleftrightarrow> True"

fun cons_inv :: "'a ring_sys \<Rightarrow> nat \<Rightarrow> 'a cons_pc \<Rightarrow> bool" where
  "cons_inv s t (CLoop tbl mx b) \<longleftrightarrow> unat mx \<le> length tbl"
| "cons_inv s t (CTail tbl mx b ch) \<longleftrightarrow> unat mx \<le> length tbl \<and> ch = of_nat t \<and> t \<le> g_ch s"
| "cons_inv s t (CCas tbl mx b ch n) \<longleftrightarrow>
     unat mx \<le> length tbl \<and> unat n \<le> unat mx \<and> ch = of_nat t \<and> t \<le> g_ch s \<and>
     (t = g_ch s \<longrightarrow> t + unat n \<le> g_pt s)"
| "cons_inv s t (CCopy tbl b ch n i) \<longleftrightarrow>
     unat n \<le> length tbl \<and> i \<le> unat n \<and> ch = of_nat t \<and> t + unat n \<le> g_ch s \<and>
     (0 < unat n \<longrightarrow> g_ct s \<le> t) \<and> (\<forall>j < i. tbl ! j = g_hist s ! (t + j))"
| "cons_inv s t (CWait tbl b ch n) \<longleftrightarrow>
     unat n \<le> length tbl \<and> ch = of_nat t \<and> t + unat n \<le> g_ch s \<and>
     (0 < unat n \<longrightarrow> g_ct s \<le> t) \<and> (\<forall>j < unat n. tbl ! j = g_hist s ! (t + j))"
| "cons_inv s t CFault \<longleftrightarrow> False"
| "cons_inv s t pc \<longleftrightarrow> True"

text \<open>Two reservations never share a ticket, and every ticket between tail and head is reserved.\<close>

definition res_disjoint :: "(nat \<Rightarrow> nat) \<Rightarrow> (nat \<Rightarrow> nat option) \<Rightarrow> bool" where
  "res_disjoint tick res \<longleftrightarrow> (\<forall>i j n m. i \<noteq> j \<and> res i = Some n \<and> res j = Some m \<longrightarrow>
     tick i + n \<le> tick j \<or> tick j + m \<le> tick i)"

definition res_cover :: "(nat \<Rightarrow> nat) \<Rightarrow> (nat \<Rightarrow> nat option) \<Rightarrow> nat \<Rightarrow> nat \<Rightarrow> bool" where
  "res_cover tick res lo hi \<longleftrightarrow> (\<forall>t. lo \<le> t \<and> t < hi \<longrightarrow>
     (\<exists>i n. res i = Some n \<and> tick i \<le> t \<and> t < tick i + n))"

definition ring_inv :: "'a ring_sys \<Rightarrow> bool" where
  "ring_inv s \<longleftrightarrow> inv_geom s \<and> inv_slots s \<and>
     (\<forall>i. prod_inv s (g_ptick s i) (prods s i)) \<and>
     (\<forall>i. cons_inv s (g_ctick s i) (conss s i)) \<and>
     res_disjoint (g_ptick s) (\<lambda>i. prod_res (prods s i)) \<and>
     res_cover (g_ptick s) (\<lambda>i. prod_res (prods s i)) (g_pt s) (length (g_hist s)) \<and>
     res_disjoint (g_ctick s) (\<lambda>i. cons_res (conss s i)) \<and>
     res_cover (g_ctick s) (\<lambda>i. cons_res (conss s i)) (g_ct s) (g_ch s) \<and>
     g_out s = take (g_ct s) (g_hist s)"

section \<open>Every access keeps the invariant\<close>

lemma unat_of_nat_mod_size:
  assumes "ring_geom r"
  shows "(unat (of_nat t :: u32) + i) mod unat (prod_size r) = (t + i) mod unat (prod_size r)"
proof -
  have "(t mod 2 ^ 32) mod unat (prod_size r) = t mod unat (prod_size r)"
    by (rule mod_mod_cancel [OF ring_geom_capacity(3) [OF assms]])
  moreover have "unat (of_nat t :: u32) = t mod 2 ^ 32" by (simp add: unat_of_nat)
  ultimately have "unat (of_nat t :: u32) mod unat (prod_size r) = t mod unat (prod_size r)" by presburger
  then show ?thesis by (rule mod_add_cong) simp
qed

lemma ptrs_idx_mod:
  assumes "ring_geom r" and "unat n \<le> unat (prod_size r)" and "i < unat n"
  shows "ptrs_idx (prod_size r) (prod_mask r) h n i = (unat h + i) mod unat (prod_size r)"
proof -
  obtain k where k: "k < 28" "unat (prod_size r) = 2 ^ k" "prod_mask r = mask k" using assms(1) by (rule ring_geomE) blast
  define sz where "sz = unat (prod_size r)"
  define idx where "idx = unat (h AND prod_mask r)"
  have idx: "idx = unat h mod sz" by (simp add: idx_def sz_def k unat_and_mask)
  have sz: "0 < sz" "sz < 2 ^ 31" using k power_strict_increasing [of k 28 "2::nat"] by (simp_all add: sz_def)
  have less: "idx < sz" using sz(1) by (simp add: idx)
  have "unat ((h AND prod_mask r) + n) = idx + unat n"
    unfolding idx_def using less assms(2) sz by (subst unat_word_ariths) (simp flip: idx_def sz_def)
  then have test: "(h AND prod_mask r) + n < prod_size r \<longleftrightarrow> idx + unat n < sz" by (simp add: word_less_nat_alt sz_def)
  have "(unat h + i) mod sz = (idx + i) mod sz" by (simp add: idx mod_add_left_eq)
  also have "\<dots> = (if idx + i < sz then idx + i else i - (sz - idx))"
  proof (cases "idx + i < sz")
    case False
    moreover have "idx + i - sz < sz" using less assms(2,3) by (simp flip: sz_def)
    ultimately show ?thesis using less by (simp add: le_mod_geq)
  qed simp
  finally show ?thesis using assms(3) test by (simp add: ptrs_idx_def Let_def flip: idx_def sz_def)
qed

primrec copy_from :: "(nat \<Rightarrow> nat \<Rightarrow> 's \<Rightarrow> 's option) \<Rightarrow> (nat \<Rightarrow> nat) \<Rightarrow> nat \<Rightarrow> nat \<Rightarrow> 's \<Rightarrow> 's option" where
  "copy_from body idx i 0 s = Some s"
| "copy_from body idx i (Suc k) s = do { s \<leftarrow> body (idx i) i s; copy_from body idx (Suc i) k s }"

lemma copy_from_add:
  "copy_from body idx i (a + b) s = do { s \<leftarrow> copy_from body idx i a s; copy_from body idx (i + a) b s }"
  by (induction a arbitrary: i s) (simp_all split: bind_split)

lemma copy_seq_from: "(\<And>j. j < k \<Longrightarrow> idx (i + j) = p + j) \<Longrightarrow> copy_seq body p i k s = copy_from body idx i k s"
proof (induction k arbitrary: p i s)
  case (Suc k)
  have "idx (Suc i + j) = Suc p + j" if "j < k" for j using Suc.prems [of "Suc j"] that by simp
  then show ?case using Suc.IH [of "Suc i" "Suc p"] Suc.prems [of 0] by simp
qed simp

text \<open>The loops of the macro are the steps for \<open>i\<close> from 0 on, as long as there are more.\<close>

lemma copy_ptrs_from:
  assumes "ring_geom r" and "unat n \<le> unat (prod_size r)"
  shows "copy_ptrs body (prod_size r) (prod_mask r) h n s =
    copy_from body (ptrs_idx (prod_size r) (prod_mask r) h n) 0 (unat n) s"
proof -
  obtain k where k: "k < 28" "unat (prod_size r) = 2 ^ k" "prod_mask r = mask k" using assms(1) by (rule ring_geomE) blast
  define sz where "sz = unat (prod_size r)"
  define idx where "idx = unat (h AND prod_mask r)"
  have idx: "idx = unat h mod sz" by (simp add: idx_def sz_def k unat_and_mask)
  have sz: "0 < sz" "sz < 2 ^ 31" using k power_strict_increasing [of k 28 "2::nat"] by (simp_all add: sz_def)
  have less: "idx < sz" using sz(1) by (simp add: idx)
  have "unat ((h AND prod_mask r) + n) = idx + unat n"
    unfolding idx_def using less assms(2) sz by (subst unat_word_ariths) (simp flip: idx_def sz_def)
  then have test: "(h AND prod_mask r) + n < prod_size r \<longleftrightarrow> idx + unat n < sz" by (simp add: word_less_nat_alt sz_def)
  have at: "ptrs_idx (prod_size r) (prod_mask r) h n i = (if idx + unat n < sz \<or> idx + i < sz then idx + i else i - (sz - idx))" for i
    using test by (simp add: ptrs_idx_def Let_def flip: idx_def sz_def)
  show ?thesis
  proof (cases "idx + unat n < sz")
    case True
    have "copy_ptrs body (prod_size r) (prod_mask r) h n s = copy_seq body idx 0 (unat n) s"
      using copy_ptrs_seq_nowrap [of h "prod_mask r" "prod_size r" n] assms(2) sz True less by (simp flip: idx_def sz_def)
    also have "\<dots> = copy_from body (ptrs_idx (prod_size r) (prod_mask r) h n) 0 (unat n) s"
      using True by (intro copy_seq_from) (simp add: at)
    finally show ?thesis .
  next
    case False
    define d where "d = sz - idx"
    have d: "d \<le> unat n" "idx + d = sz" using False less by (auto simp: d_def)
    have "copy_ptrs body (prod_size r) (prod_mask r) h n s =
        do { s \<leftarrow> copy_seq body idx 0 d s; copy_seq body 0 d (unat n - d) s }"
      using copy_ptrs_seq [of h "prod_mask r" "prod_size r" n] assms(2) sz False less by (simp flip: idx_def sz_def d_def)
    also have "copy_seq body idx 0 d = copy_from body (ptrs_idx (prod_size r) (prod_mask r) h n) 0 d"
      using d by (intro ext copy_seq_from) (simp add: at)
    also have "copy_seq body 0 d (unat n - d) = copy_from body (ptrs_idx (prod_size r) (prod_mask r) h n) (0 + d) (unat n - d)"
      unfolding add_0 by (intro ext copy_seq_from) (use d False in \<open>simp add: at d_def\<close>)
    finally show ?thesis using d(1) copy_from_add [of body _ 0 d "unat n - d"] by simp
  qed
qed

lemma ptrs_more_less:
  assumes "ring_geom r" and "unat n \<le> unat (prod_size r)"
  shows "ptrs_more (prod_size r) (prod_mask r) h n i \<longleftrightarrow> i < unat n"
proof -
  obtain k where k: "k < 28" "unat (prod_size r) = 2 ^ k" "prod_mask r = mask k" using assms(1) by (rule ring_geomE) blast
  have "unat (h AND prod_mask r) < 2 ^ k" by (simp add: k unat_and_mask)
  moreover have "(2 :: nat) ^ k < 2 ^ 28" using k by (intro power_strict_increasing) auto
  ultimately have "unat ((h AND prod_mask r) + n) = unat (h AND prod_mask r) + unat n"
    using assms(2) k(2) by (subst unat_word_ariths) simp
  then show ?thesis unfolding ptrs_more_def Let_def by (auto simp: word_less_nat_alt)
qed

lemma shared_triv [simp]: "s\<lparr>shared := shared s\<rparr> = s"
  by (cases s) simp

lemma prod_inv_cong:
  "g_hist s' = g_hist s \<Longrightarrow> g_pt s' = g_pt s \<Longrightarrow> g_ct s' = g_ct s \<Longrightarrow> shared s' = shared s \<Longrightarrow>
   prod_inv s' t pc = prod_inv s t pc"
  by (cases pc) (simp_all add: slot_of_def)

lemma cons_inv_cong:
  "g_hist s' = g_hist s \<Longrightarrow> g_pt s' = g_pt s \<Longrightarrow> g_ct s' = g_ct s \<Longrightarrow> g_ch s' = g_ch s \<Longrightarrow>
   cons_inv s' t pc = cons_inv s t pc"
  by (cases pc) simp_all

lemma prod_inv_mono:
  assumes "prod_inv s t pc" and "g_hist s' = g_hist s @ xs" and "g_ct s \<le> g_ct s'"
    and "ring_capacity (shared s') = ring_capacity (shared s)"
    and "\<And>n. prod_res pc = Some n \<Longrightarrow> 0 < n \<Longrightarrow> g_pt s' \<le> t"
    and "\<And>j. j < prod_copied pc \<Longrightarrow> slot_of s' (t + j) = slot_of s (t + j)"
  shows "prod_inv s' t pc"
  using assms by (cases pc) (auto simp: nth_append)

lemma cons_inv_mono:
  assumes "cons_inv s t pc" and "g_hist s' = g_hist s @ xs" and "g_ch s \<le> length (g_hist s)"
    and "g_ch s \<le> g_ch s'" and "g_pt s \<le> g_pt s'"
    and "\<And>n. cons_res pc = Some n \<Longrightarrow> 0 < n \<Longrightarrow> g_ct s' \<le> t"
  shows "cons_inv s' t pc"
  using assms by (cases pc) (auto simp: nth_append)

lemma res_disjoint_mono:
  "res_disjoint tick res \<Longrightarrow> (\<And>j. res' j = res j) \<Longrightarrow> (\<And>j. res j \<noteq> None \<Longrightarrow> tick' j = tick j) \<Longrightarrow>
   res_disjoint tick' res'"
  unfolding res_disjoint_def by (metis option.distinct(1))

lemma res_cover_mono:
  "res_cover tick res lo hi \<Longrightarrow> (\<And>j. res' j = res j) \<Longrightarrow> (\<And>j. res j \<noteq> None \<Longrightarrow> tick' j = tick j) \<Longrightarrow>
   res_cover tick' res' lo hi"
  unfolding res_cover_def by (metis option.distinct(1))

text \<open>A new reservation at the head, and the release of the reservation at the tail.\<close>

lemma res_disjoint_new:
  assumes "res_disjoint tick res" and "res i = None" and "\<And>j m. res j = Some m \<Longrightarrow> tick j + m \<le> tick i"
  shows "res_disjoint tick (res(i := Some n))"
  using assms unfolding res_disjoint_def by (metis fun_upd_apply option.inject)

lemma res_cover_new:
  assumes "res_cover tick res lo hi" and "res i = None" and "tick i = hi"
  shows "res_cover tick (res(i := Some n)) lo (hi + n)"
  unfolding res_cover_def
proof (intro allI impI)
  fix t assume t: "lo \<le> t \<and> t < hi + n"
  show "\<exists>j m. (res(i := Some n)) j = Some m \<and> tick j \<le> t \<and> t < tick j + m"
  proof (cases "t < hi")
    case True
    with assms(1) t obtain j m where j: "res j = Some m" "tick j \<le> t" "t < tick j + m"
      unfolding res_cover_def by blast
    with assms(2) have "j \<noteq> i" by auto
    with j show ?thesis by (intro exI [of _ j] exI [of _ m]) simp
  next
    case False
    then show ?thesis using t assms(3) by (intro exI [of _ i] exI [of _ n]) simp
  qed
qed

lemma res_disjoint_drop: "res_disjoint tick res \<Longrightarrow> res_disjoint tick (res(i := None))"
  by (auto simp: res_disjoint_def)

lemma res_cover_drop:
  assumes "res_cover tick res lo hi" and "res i = Some n" and "0 < n \<longrightarrow> tick i = lo"
  shows "res_cover tick (res(i := None)) (lo + n) hi"
  unfolding res_cover_def
proof (intro allI impI)
  fix t assume t: "lo + n \<le> t \<and> t < hi"
  with assms(1) obtain j m where j: "res j = Some m" "tick j \<le> t" "t < tick j + m"
    unfolding res_cover_def by (metis le_add1 le_trans)
  have "j \<noteq> i"
  proof
    assume "j = i"
    with j assms(2,3) t show False by (cases "n = 0") auto
  qed
  with j show "\<exists>j m. (res(i := None)) j = Some m \<and> tick j \<le> t \<and> t < tick j + m"
    by (intro exI [of _ j] exI [of _ m]) simp
qed

lemma res_after_release:
  assumes "res_disjoint tick res" and "res i = Some n" and "0 < n \<longrightarrow> tick i = lo"
    and "res j = Some m" and "0 < m" and "lo \<le> tick j" and "j \<noteq> i"
  shows "lo + n \<le> tick j"
proof (cases "n = 0")
  case False
  with assms(3) have "tick i = lo" by simp
  moreover have "tick i + n \<le> tick j \<or> tick j + m \<le> tick i"
    using assms(1,2,4,7) unfolding res_disjoint_def by blast
  ultimately show ?thesis using assms(5,6) by auto
qed (use assms in simp)

lemma res_fun_upd: "(\<lambda>j. f ((g(i := y)) j)) = (\<lambda>j. f (g j))(i := f y)"
  by auto

lemma ring_inv_prod_local:
  assumes inv: "ring_inv s" and res: "prod_res pc' = prod_res (prods s i)"
    and pc': "prod_inv s t pc'" and tick: "t = g_ptick s i \<or> prod_res pc' = None"
  shows "ring_inv (s\<lparr>prods := (prods s)(i := pc'), g_ptick := (g_ptick s)(i := t)\<rparr>)" (is "ring_inv ?s'")
proof -
  have cong: "prod_inv ?s' u pc = prod_inv s u pc" "cons_inv ?s' u cc = cons_inv s u cc" for u pc cc
    by (rule prod_inv_cong cons_inv_cong; simp)+
  have "res_disjoint (g_ptick ?s') (\<lambda>j. prod_res (prods ?s' j))"
    by (rule res_disjoint_mono [of "g_ptick s" "\<lambda>j. prod_res (prods s j)"])
      (use inv res tick in \<open>auto simp: ring_inv_def\<close>)
  moreover have "res_cover (g_ptick ?s') (\<lambda>j. prod_res (prods ?s' j)) (g_pt s) (length (g_hist s))"
    by (rule res_cover_mono [of "g_ptick s" "\<lambda>j. prod_res (prods s j)"])
      (use inv res tick in \<open>auto simp: ring_inv_def\<close>)
  ultimately show ?thesis
    using inv pc' by (simp add: ring_inv_def inv_geom_def inv_slots_def slot_of_def cong)
qed

lemma ring_inv_cons_local:
  assumes inv: "ring_inv s" and res: "cons_res pc' = cons_res (conss s i)"
    and pc': "cons_inv s t pc'" and tick: "t = g_ctick s i \<or> cons_res pc' = None"
  shows "ring_inv (s\<lparr>conss := (conss s)(i := pc'), g_ctick := (g_ctick s)(i := t)\<rparr>)" (is "ring_inv ?s'")
proof -
  have cong: "prod_inv ?s' u pc = prod_inv s u pc" "cons_inv ?s' u cc = cons_inv s u cc" for u pc cc
    by (rule prod_inv_cong cons_inv_cong; simp)+
  have "res_disjoint (g_ctick ?s') (\<lambda>j. cons_res (conss ?s' j))"
    by (rule res_disjoint_mono [of "g_ctick s" "\<lambda>j. cons_res (conss s j)"])
      (use inv res tick in \<open>auto simp: ring_inv_def\<close>)
  moreover have "res_cover (g_ctick ?s') (\<lambda>j. cons_res (conss ?s' j)) (g_ct s) (g_ch s)"
    by (rule res_cover_mono [of "g_ctick s" "\<lambda>j. cons_res (conss s j)"])
      (use inv res tick in \<open>auto simp: ring_inv_def\<close>)
  ultimately show ?thesis
    using inv pc' by (simp add: ring_inv_def inv_geom_def inv_slots_def slot_of_def cong)
qed

lemma ring_inv_geomD:
  assumes "ring_inv s"
  shows "ring_geom (shared s)" and "prod_head (shared s) = of_nat (length (g_hist s))"
    and "prod_tail (shared s) = of_nat (g_pt s)" and "cons_head (shared s) = of_nat (g_ch s)"
    and "cons_tail (shared s) = of_nat (g_ct s)" and "g_ct s \<le> g_ch s" and "g_ch s \<le> g_pt s"
    and "g_pt s \<le> length (g_hist s)" and "length (g_hist s) \<le> g_ct s + ring_capacity (shared s)"
    and "ring_capacity (shared s) < 2 ^ 28"
    and "unat (prod_size (shared s)) = ring_capacity (shared s) + 1"
    and "length (ring_mem (shared s)) = ring_capacity (shared s) + 1"
  using assms ring_geom_capacity [of "shared s"]
  by (auto simp: ring_inv_def inv_geom_def Let_def ring_geom_def)

lemma ring_invD:
  assumes "ring_inv s"
  shows "inv_slots s" and "prod_inv s (g_ptick s i) (prods s i)" and "cons_inv s (g_ctick s i) (conss s i)"
    and "res_disjoint (g_ptick s) (\<lambda>i. prod_res (prods s i))"
    and "res_cover (g_ptick s) (\<lambda>i. prod_res (prods s i)) (g_pt s) (length (g_hist s))"
    and "res_disjoint (g_ctick s) (\<lambda>i. cons_res (conss s i))"
    and "res_cover (g_ctick s) (\<lambda>i. cons_res (conss s i)) (g_ct s) (g_ch s)"
    and "g_out s = take (g_ct s) (g_hist s)"
  using assms by (auto simp: ring_inv_def)

lemma prod_res_bounds:
  assumes "ring_inv s" and "prod_res (prods s j) = Some m"
  shows "g_ptick s j + m \<le> length (g_hist s)" and "0 < m \<Longrightarrow> g_pt s \<le> g_ptick s j"
    and "prod_copied (prods s j) \<le> m"
  using ring_invD(2) [OF assms(1), of j] assms(2) by (cases "prods s j"; auto)+

lemma cons_res_bounds:
  assumes "ring_inv s" and "cons_res (conss s j) = Some m"
  shows "g_ctick s j + m \<le> g_ch s" and "0 < m \<Longrightarrow> g_ct s \<le> g_ctick s j"
  using ring_invD(3) [OF assms(1), of j] assms(2) by (cases "conss s j"; auto)+

lemma prod_cas_inv:
  assumes inv: "ring_inv s" and pc: "prods s i = PCas objs mx b ph f n"
    and fresh: "length (g_hist s) < g_ptick s i + 2 ^ 32" and eq: "prod_head (shared s) = ph"
  shows "ring_inv (s\<lparr>shared := (shared s)\<lparr>prod_head := ph + n\<rparr>,
     prods := (prods s)(i := PCopy objs b ph f n 0), g_hist := g_hist s @ take (unat n) objs\<rparr>)" (is "ring_inv ?s'")
proof -
  note g = ring_inv_geomD [OF inv]
  have pi: "prod_inv s (g_ptick s i) (PCas objs mx b ph f n)" using ring_invD(2) [OF inv, of i] pc by simp
  then have n: "unat n \<le> length objs" and tle: "g_ptick s i \<le> length (g_hist s)"
    and ph: "ph = of_nat (g_ptick s i)" by auto
  have tick: "g_ptick s i = length (g_hist s)"
    by (rule of_nat_word_eq_near [where 'a = 32]) (use g(2) eq ph tle fresh in simp_all)
  with pi have room: "length (g_hist s) + unat n \<le> g_ct s + ring_capacity (shared s)" by simp
  have resi: "prod_res (prods s i) = None" by (simp add: pc)
  have slot: "slot_of ?s' u = slot_of s u" for u by (simp add: slot_of_def)
  have prods': "prod_inv ?s' (g_ptick ?s' j) (prods ?s' j)" for j
  proof (cases "j = i")
    case True
    then show ?thesis using n ph tick g(8) by (simp add: nth_append min_absorb2)
  next
    case False
    have "prod_inv ?s' (g_ptick s j) (prods s j)"
      by (rule prod_inv_mono [OF ring_invD(2) [OF inv], of _ "take (unat n) objs"])
        (simp_all add: slot ring_capacity_def prod_res_bounds [OF inv])
    then show ?thesis using False by simp
  qed
  have conss': "cons_inv ?s' (g_ctick ?s' j) (conss ?s' j)" for j
    by (rule cons_inv_mono [of s _ _ _ "take (unat n) objs"])
      (use g in \<open>simp_all add: ring_invD [OF inv] cons_res_bounds [OF inv]\<close>)
  have res': "(\<lambda>j. prod_res (prods ?s' j)) = (\<lambda>j. prod_res (prods s j))(i := Some (unat n))"
    by auto
  have disj: "res_disjoint (g_ptick ?s') (\<lambda>j. prod_res (prods ?s' j))"
    using res_disjoint_new [OF ring_invD(4) [OF inv] resi, of "unat n"] prod_res_bounds(1) [OF inv] tick
    unfolding res' by simp
  have cover: "res_cover (g_ptick ?s') (\<lambda>j. prod_res (prods ?s' j)) (g_pt ?s') (length (g_hist ?s'))"
    using res_cover_new [OF ring_invD(5) [OF inv] resi tick, of "unat n"] n
    unfolding res' by (simp add: min_absorb2)
  have "inv_geom ?s'"
    using g room n tick by (simp add: inv_geom_def ring_geom_def ring_capacity_def min_absorb2 ph)
  moreover have "inv_slots ?s'"
    using ring_invD(1) [OF inv] g(8) by (auto simp: inv_slots_def slot nth_append)
  ultimately show ?thesis
    using prods' conss' disj cover ring_invD(6-8) [OF inv] g(6-8)
    by (simp add: ring_inv_def)
qed

lemma prod_copy_inv:
  assumes inv: "ring_inv s" and pc: "prods s i = PCopy objs b ph f n k" and k: "k < unat n"
  shows "\<exists>mem. do { v \<leftarrow> read_at objs k;
        write_at (ring_mem (shared s)) ((unat ph + k) mod unat (prod_size (shared s))) v } = Some mem
    \<and> ring_inv (s\<lparr>shared := (shared s)\<lparr>ring_mem := mem\<rparr>, prods := (prods s)(i := PCopy objs b ph f n (Suc k))\<rparr>)"
proof -
  define sz where "sz = unat (prod_size (shared s))"
  define t where "t = g_ptick s i"
  define mem where "mem = (ring_mem (shared s))[(t + k) mod sz := objs ! k]"
  define s' where "s' = s\<lparr>shared := (shared s)\<lparr>ring_mem := mem\<rparr>, prods := (prods s)(i := PCopy objs b ph f n (Suc k))\<rparr>"
  note g = ring_inv_geomD [OF inv]
  have pi: "prod_inv s t (PCopy objs b ph f n k)" using ring_invD(2) [OF inv, of i] pc by (simp add: t_def)
  then have len: "unat n \<le> length objs" and ph: "ph = of_nat t" and fit: "t + unat n \<le> length (g_hist s)"
    and pt: "g_pt s \<le> t" and obj: "objs ! k = g_hist s ! (t + k)" using k by auto
  have sz: "sz = ring_capacity (shared s) + 1" "length (ring_mem (shared s)) = sz" using g by (simp_all add: sz_def)
  have idx: "(unat ph + k) mod sz = (t + k) mod sz"
    unfolding sz_def ph by (rule unat_of_nat_mod_size [OF g(1)])
  have other: "slot_of s' u = slot_of s u" if "g_ct s \<le> u" "u < g_ct s + sz" "u \<noteq> t + k" for u
  proof -
    have "u mod sz \<noteq> (t + k) mod sz"
    proof
      assume "u mod sz = (t + k) mod sz"
      then have "u = t + k" by (rule mod_range_inj [where l = "g_ct s"])
        (use that g sz pt fit k in auto)
      with that show False by simp
    qed
    then show ?thesis by (simp add: slot_of_def s'_def mem_def flip: sz_def)
  qed
  have here: "slot_of s' (t + k) = objs ! k"
    using sz by (simp add: slot_of_def s'_def mem_def flip: sz_def)
  have cap: "ring_capacity (shared s') = ring_capacity (shared s)" by (simp add: s'_def ring_capacity_def)
  have keep: "slot_of s' u = g_hist s ! u" if "slot_of s u = g_hist s ! u" "g_ct s \<le> u" "u < g_ct s + sz" for u
    using other [OF that(2,3)] here obj that(1) by (cases "u = t + k") auto
  have prods': "prod_inv s' (g_ptick s' j) (prods s' j)" for j
  proof (cases "j = i")
    case True
    have "slot_of s' (t + u) = g_hist s ! (t + u)" if "u < Suc k" for u
      using pi that keep [of "t + u"] here obj g sz fit pt k by (cases "u = k") auto
    then show ?thesis using True pi k by (simp add: s'_def t_def)
  next
    case False
    have "slot_of s' (g_ptick s j + u) = slot_of s (g_ptick s j + u)" if u: "u < prod_copied (prods s j)" for u
    proof -
      from u obtain m where m: "prod_res (prods s j) = Some m" by (cases "prods s j") auto
      note bnd = prod_res_bounds [OF inv m]
      have um: "u < m" using u bnd(3) by simp
      have "t + unat n \<le> g_ptick s j \<or> g_ptick s j + m \<le> t"
        using ring_invD(4) [OF inv] False m pc unfolding res_disjoint_def t_def
        by (metis prod_res.simps(1))
      then have "g_ptick s j + u \<noteq> t + k" using um k by auto
      then show ?thesis using bnd um g sz by (intro other) auto
    qed
    then have "prod_inv s' (g_ptick s j) (prods s j)"
      by (intro prod_inv_mono [OF ring_invD(2) [OF inv], of s' "[]"])
        (simp_all add: cap prod_res_bounds [OF inv], simp_all add: s'_def prod_res_bounds [OF inv])
    then show ?thesis using False by (simp add: s'_def)
  qed
  have conss': "cons_inv s' (g_ctick s' j) (conss s' j)" for j
  proof -
    have "cons_inv s' u cc = cons_inv s u cc" for u cc by (rule cons_inv_cong) (simp_all add: s'_def)
    moreover have "g_ctick s' = g_ctick s" "conss s' = conss s" by (simp_all add: s'_def)
    ultimately show ?thesis using ring_invD(3) [OF inv, of j] by simp
  qed
  have slots: "inv_slots s'"
    using ring_invD(1) [OF inv] keep g sz by (auto simp: inv_slots_def s'_def)
  have res': "(\<lambda>j. prod_res (prods s' j)) = (\<lambda>j. prod_res (prods s j))"
    using pc by (auto simp: s'_def)
  have geom: "inv_geom s'"
  proof -
    have "inv_geom s' = inv_geom s"
      by (simp add: inv_geom_def s'_def ring_geom_def ring_capacity_def mem_def Let_def)
    then show ?thesis using inv by (simp add: ring_inv_def)
  qed
  have "ring_inv s'"
    using geom slots prods' conss' ring_invD(4-8) [OF inv]
    by (simp add: ring_inv_def res') (simp add: s'_def)
  moreover have "do { v \<leftarrow> read_at objs k; write_at (ring_mem (shared s)) ((unat ph + k) mod sz) v } = Some mem"
    using k len sz(2) by (simp add: idx mem_def) (simp add: sz(1))
  ultimately show ?thesis unfolding s'_def sz_def by blast
qed

lemma prod_release_inv:
  assumes inv: "ring_inv s" and pc: "prods s i = PWait ph n ret" and eq: "prod_tail (shared s) = ph"
  shows "ring_inv (s\<lparr>shared := (shared s)\<lparr>prod_tail := ph + n\<rparr>,
     prods := (prods s)(i := PDone ret), g_pt := g_pt s + unat n\<rparr>)" (is "ring_inv ?s'")
proof -
  note g = ring_inv_geomD [OF inv]
  define t where "t = g_ptick s i"
  have pi: "prod_inv s t (PWait ph n ret)" using ring_invD(2) [OF inv, of i] pc by (simp add: t_def)
  have res: "prod_res (prods s i) = Some (unat n)" by (simp add: pc)
  have tick: "0 < unat n \<longrightarrow> t = g_pt s"
  proof
    assume "0 < unat n"
    with pi have le: "g_pt s \<le> t" "t + unat n \<le> length (g_hist s)" "ph = of_nat t" by auto
    have "g_pt s = t"
      by (rule of_nat_word_eq_near [where 'a = 32]) (use g le eq in simp_all)
    then show "t = g_pt s" by simp
  qed
  have fit: "g_pt s + unat n \<le> length (g_hist s)"
    using pi tick g(8) by (cases "unat n = 0") auto
  have slot: "slot_of ?s' u = slot_of s u" for u by (simp add: slot_of_def)
  have prods': "prod_inv ?s' (g_ptick ?s' j) (prods ?s' j)" for j
  proof (cases "j = i")
    case False
    have "prod_inv ?s' (g_ptick s j) (prods s j)"
    proof (rule prod_inv_mono [OF ring_invD(2) [OF inv], of _ "[]"])
      fix m assume m: "prod_res (prods s j) = Some m" "0 < m"
      show "g_pt ?s' \<le> g_ptick s j"
        using res_after_release [OF ring_invD(4) [OF inv] res _ m(1) m(2) _ False, of "g_pt s"]
          prod_res_bounds(2) [OF inv m(1) m(2)] tick by (simp add: t_def)
    qed (simp_all add: slot ring_capacity_def)
    then show ?thesis using False by simp
  qed simp
  have conss': "cons_inv ?s' (g_ctick ?s' j) (conss ?s' j)" for j
    by (rule cons_inv_mono [of s _ _ _ "[]"])
      (use g in \<open>simp_all add: ring_invD [OF inv] cons_res_bounds [OF inv]\<close>)
  have res': "(\<lambda>j. prod_res (prods ?s' j)) = (\<lambda>j. prod_res (prods s j))(i := None)"
    by auto
  have disj: "res_disjoint (g_ptick ?s') (\<lambda>j. prod_res (prods ?s' j))"
    using res_disjoint_drop [OF ring_invD(4) [OF inv], of i] unfolding res' by simp
  have cover: "res_cover (g_ptick ?s') (\<lambda>j. prod_res (prods ?s' j)) (g_pt ?s') (length (g_hist ?s'))"
    using res_cover_drop [OF ring_invD(5) [OF inv] res] tick
    unfolding res' by (simp add: t_def)
  have "inv_geom ?s'"
    using g fit eq by (simp add: inv_geom_def ring_geom_def ring_capacity_def)
  moreover have "inv_slots ?s'"
    unfolding inv_slots_def slot
  proof (intro allI impI)
    fix u assume u: "g_ct ?s' \<le> u \<and> u < g_pt ?s'"
    show "slot_of s u = g_hist ?s' ! u"
    proof (cases "u < g_pt s")
      case True
      then show ?thesis using ring_invD(1) [OF inv] u by (simp add: inv_slots_def)
    next
      case False
      with u tick have "t = g_pt s" "u - t < unat n" by auto
      then have "slot_of s (t + (u - t)) = g_hist s ! (t + (u - t))" using pi unfolding prod_inv.simps by blast
      then show ?thesis using False \<open>t = g_pt s\<close> by simp
    qed
  qed
  ultimately show ?thesis
    using prods' conss' disj cover ring_invD(6-8) [OF inv] by (simp add: ring_inv_def)
qed

lemma cons_cas_inv:
  assumes inv: "ring_inv s" and pc: "conss s i = CCas tbl mx b ch n"
    and fresh: "g_ch s < g_ctick s i + 2 ^ 32" and eq: "cons_head (shared s) = ch"
  shows "ring_inv (s\<lparr>shared := (shared s)\<lparr>cons_head := ch + n\<rparr>,
     conss := (conss s)(i := CCopy tbl b ch n 0), g_ch := g_ch s + unat n\<rparr>)" (is "ring_inv ?s'")
proof -
  note g = ring_inv_geomD [OF inv]
  have ci: "cons_inv s (g_ctick s i) (CCas tbl mx b ch n)" using ring_invD(3) [OF inv, of i] pc by simp
  then have n: "unat n \<le> length tbl" and tle: "g_ctick s i \<le> g_ch s" and ch: "ch = of_nat (g_ctick s i)" by auto
  have tick: "g_ctick s i = g_ch s"
    by (rule of_nat_word_eq_near [where 'a = 32]) (use g(4) eq ch tle fresh in simp_all)
  with ci have fit: "g_ch s + unat n \<le> g_pt s" by simp
  have resi: "cons_res (conss s i) = None" by (simp add: pc)
  have slot: "slot_of ?s' u = slot_of s u" for u by (simp add: slot_of_def)
  have prods': "prod_inv ?s' (g_ptick ?s' j) (prods ?s' j)" for j
  proof -
    have "prod_inv ?s' (g_ptick s j) (prods s j)"
      by (rule prod_inv_mono [OF ring_invD(2) [OF inv], of _ "[]"])
        (simp_all add: slot ring_capacity_def prod_res_bounds [OF inv])
    then show ?thesis by simp
  qed
  have conss': "cons_inv ?s' (g_ctick ?s' j) (conss ?s' j)" for j
  proof (cases "j = i")
    case True
    then show ?thesis using n ch tick g(6) by simp
  next
    case False
    have "cons_inv ?s' (g_ctick s j) (conss s j)"
      by (rule cons_inv_mono [of s _ _ _ "[]"])
        (use g in \<open>simp_all add: ring_invD [OF inv] cons_res_bounds [OF inv]\<close>)
    then show ?thesis using False by simp
  qed
  have res': "(\<lambda>j. cons_res (conss ?s' j)) = (\<lambda>j. cons_res (conss s j))(i := Some (unat n))"
    by auto
  have disj: "res_disjoint (g_ctick ?s') (\<lambda>j. cons_res (conss ?s' j))"
    using res_disjoint_new [OF ring_invD(6) [OF inv] resi, of "unat n"] cons_res_bounds(1) [OF inv] tick
    unfolding res' by simp
  have cover: "res_cover (g_ctick ?s') (\<lambda>j. cons_res (conss ?s' j)) (g_ct ?s') (g_ch ?s')"
    using res_cover_new [OF ring_invD(7) [OF inv] resi tick, of "unat n"]
    unfolding res' by simp
  have "inv_geom ?s'"
    using g fit tick ch by (simp add: inv_geom_def ring_geom_def ring_capacity_def)
  moreover have "inv_slots ?s'"
    using ring_invD(1) [OF inv] by (simp add: inv_slots_def slot)
  ultimately show ?thesis
    using prods' conss' disj cover ring_invD(4,5,8) [OF inv] by (simp add: ring_inv_def)
qed

lemma cons_copy_step:
  assumes inv: "ring_inv s" and pc: "conss s i = CCopy tbl b ch n k" and k: "k < unat n"
  shows "\<exists>tbl'. do { v \<leftarrow> read_at (ring_mem (shared s)) ((unat ch + k) mod unat (cons_size (shared s)));
        write_at tbl k v } = Some tbl'
    \<and> cons_inv s (g_ctick s i) (CCopy tbl' b ch n (Suc k))"
proof -
  note g = ring_inv_geomD [OF inv]
  define t where "t = g_ctick s i"
  have ci: "cons_inv s t (CCopy tbl b ch n k)" using ring_invD(3) [OF inv, of i] pc by (simp add: t_def)
  then have len: "unat n \<le> length tbl" and ch: "ch = of_nat t" and fit: "t + unat n \<le> g_ch s"
    and ct: "g_ct s \<le> t" and old: "\<forall>j < k. tbl ! j = g_hist s ! (t + j)" using k by auto
  have sz: "unat (cons_size (shared s)) = unat (prod_size (shared s))" using g(1) by (simp add: ring_geom_def)
  have idx: "(unat ch + k) mod unat (prod_size (shared s)) = (t + k) mod unat (prod_size (shared s))"
    unfolding ch by (rule unat_of_nat_mod_size [OF g(1)])
  have val: "slot_of s (t + k) = g_hist s ! (t + k)"
    using ring_invD(1) [OF inv] ct fit g(7) k by (simp add: inv_slots_def)
  define tbl' where "tbl' = tbl[k := slot_of s (t + k)]"
  have "do { v \<leftarrow> read_at (ring_mem (shared s)) ((unat ch + k) mod unat (cons_size (shared s)));
        write_at tbl k v } = Some tbl'"
    using k len g(12) by (simp add: sz idx tbl'_def slot_of_def) (simp add: g(11))
  moreover have "cons_inv s t (CCopy tbl' b ch n (Suc k))"
    using ci k old val by (simp add: tbl'_def nth_list_update less_Suc_eq)
  ultimately show ?thesis by (auto simp: t_def)
qed

lemma cons_release_inv:
  assumes inv: "ring_inv s" and pc: "conss s i = CWait tbl b ch n" and eq: "cons_tail (shared s) = ch"
  shows "ring_inv (s\<lparr>shared := (shared s)\<lparr>cons_tail := ch + n\<rparr>, conss := (conss s)(i := CDone ret tbl),
     g_ct := g_ct s + unat n, g_out := g_out s @ take (unat n) tbl\<rparr>)" (is "ring_inv ?s'")
proof -
  note g = ring_inv_geomD [OF inv]
  define t where "t = g_ctick s i"
  have ci: "cons_inv s t (CWait tbl b ch n)" using ring_invD(3) [OF inv, of i] pc by (simp add: t_def)
  have res: "cons_res (conss s i) = Some (unat n)" by (simp add: pc)
  have tick: "0 < unat n \<longrightarrow> t = g_ct s"
  proof
    assume "0 < unat n"
    with ci have le: "g_ct s \<le> t" "t + unat n \<le> g_ch s" "ch = of_nat t" by auto
    have "g_ct s = t"
      by (rule of_nat_word_eq_near [where 'a = 32]) (use g le eq in simp_all)
    then show "t = g_ct s" by simp
  qed
  have fit: "g_ct s + unat n \<le> g_ch s" using ci tick g(6) by (cases "unat n = 0") auto
  have slot: "slot_of ?s' u = slot_of s u" for u by (simp add: slot_of_def)
  have prods': "prod_inv ?s' (g_ptick ?s' j) (prods ?s' j)" for j
  proof -
    have "prod_inv ?s' (g_ptick s j) (prods s j)"
      by (rule prod_inv_mono [OF ring_invD(2) [OF inv], of _ "[]"])
        (simp_all add: slot ring_capacity_def prod_res_bounds [OF inv])
    then show ?thesis by simp
  qed
  have conss': "cons_inv ?s' (g_ctick ?s' j) (conss ?s' j)" for j
  proof (cases "j = i")
    case False
    have "cons_inv ?s' (g_ctick s j) (conss s j)"
    proof (rule cons_inv_mono [of s _ _ _ "[]"])
      fix m assume m: "cons_res (conss s j) = Some m" "0 < m"
      show "g_ct ?s' \<le> g_ctick s j"
        using res_after_release [OF ring_invD(6) [OF inv] res _ m(1) m(2) _ False, of "g_ct s"]
          cons_res_bounds(2) [OF inv m(1) m(2)] tick by (simp add: t_def)
    qed (use g in \<open>simp_all add: ring_invD [OF inv]\<close>)
    then show ?thesis using False by simp
  qed simp
  have res': "(\<lambda>j. cons_res (conss ?s' j)) = (\<lambda>j. cons_res (conss s j))(i := None)"
    by auto
  have disj: "res_disjoint (g_ctick ?s') (\<lambda>j. cons_res (conss ?s' j))"
    using res_disjoint_drop [OF ring_invD(6) [OF inv], of i] unfolding res' by simp
  have cover: "res_cover (g_ctick ?s') (\<lambda>j. cons_res (conss ?s' j)) (g_ct ?s') (g_ch ?s')"
    using res_cover_drop [OF ring_invD(7) [OF inv] res] tick
    unfolding res' by (simp add: t_def)
  have "inv_geom ?s'"
    using g fit eq by (simp add: inv_geom_def ring_geom_def ring_capacity_def)
  moreover have "inv_slots ?s'"
    using ring_invD(1) [OF inv] by (simp add: inv_slots_def slot)
  moreover have "take (unat n) tbl = take (unat n) (drop (g_ct s) (g_hist s))"
    using ci tick g(7,8) fit by (cases "unat n = 0") (auto intro!: nth_equalityI)
  then have "g_out ?s' = take (g_ct ?s') (g_hist ?s')"
    using ring_invD(8) [OF inv] by (simp add: take_add)
  ultimately show ?thesis
    using prods' conss' disj cover ring_invD(4,5) [OF inv] by (simp add: ring_inv_def)
qed

lemma ring_inv_prod_move:
  "ring_inv s \<Longrightarrow> prod_res pc' = prod_res (prods s i) \<Longrightarrow> prod_inv s (g_ptick s i) pc' \<Longrightarrow>
   ring_inv (s\<lparr>prods := (prods s)(i := pc')\<rparr>)"
  using ring_inv_prod_local [of s pc' i "g_ptick s i"] by simp

lemma ring_inv_cons_move:
  "ring_inv s \<Longrightarrow> cons_res pc' = cons_res (conss s i) \<Longrightarrow> cons_inv s (g_ctick s i) pc' \<Longrightarrow>
   ring_inv (s\<lparr>conss := (conss s)(i := pc')\<rparr>)"
  using ring_inv_cons_local [of s pc' i "g_ctick s i"] by simp

lemma free_entries_now:
  assumes "ring_inv s"
  shows "unat (prod_mask (shared s) + cons_tail (shared s) - of_nat (length (g_hist s)))
    = ring_capacity (shared s) + g_ct s - length (g_hist s)"
proof -
  note g = ring_inv_geomD [OF assms]
  have mask: "prod_mask (shared s) = of_nat (ring_capacity (shared s))" by (simp add: ring_capacity_def)
  have "prod_mask (shared s) + cons_tail (shared s) - of_nat (length (g_hist s))
      = of_nat (ring_capacity (shared s) + g_ct s) - (of_nat (length (g_hist s)) :: u32)"
    by (simp add: mask g(5))
  then show ?thesis
    by (simp only:) (rule unat_diff_of_nat, use g in simp_all)
qed

lemma entries_now:
  assumes "ring_inv s"
  shows "unat (prod_tail (shared s) - of_nat (g_ch s)) = g_pt s - g_ch s"
proof -
  note g = ring_inv_geomD [OF assms]
  show ?thesis unfolding g(3) by (rule unat_diff_of_nat) (use g in simp_all)
qed

text \<open>At a copy step no more objects are copied than the ring has slots.\<close>

lemma prod_copy_index:
  assumes inv: "ring_inv s" and pc: "prods s i = PCopy objs b ph f n k"
  shows "ptrs_more (prod_size (shared s)) (prod_mask (shared s)) ph n k \<longleftrightarrow> k < unat n"
    and "k < unat n \<Longrightarrow> ptrs_idx (prod_size (shared s)) (prod_mask (shared s)) ph n k = (unat ph + k) mod unat (prod_size (shared s))"
proof -
  note g = ring_inv_geomD [OF inv]
  have "unat n \<le> unat (prod_size (shared s))" using ring_invD(2) [OF inv, of i] pc g by (cases "unat n = 0") simp_all
  note n = ptrs_more_less [OF g(1) this] ptrs_idx_mod [OF g(1) this]
  show "ptrs_more (prod_size (shared s)) (prod_mask (shared s)) ph n k \<longleftrightarrow> k < unat n" by (rule n(1))
  show "ptrs_idx (prod_size (shared s)) (prod_mask (shared s)) ph n k = (unat ph + k) mod unat (prod_size (shared s))"
    if "k < unat n" using n(2) [OF that] .
qed

lemma cons_copy_index:
  assumes inv: "ring_inv s" and pc: "conss s i = CCopy tbl b ch n k"
  shows "ptrs_more (cons_size (shared s)) (prod_mask (shared s)) ch n k \<longleftrightarrow> k < unat n"
    and "k < unat n \<Longrightarrow> ptrs_idx (cons_size (shared s)) (prod_mask (shared s)) ch n k = (unat ch + k) mod unat (cons_size (shared s))"
proof -
  note g = ring_inv_geomD [OF inv]
  have sz: "cons_size (shared s) = prod_size (shared s)" using g(1) by (simp add: ring_geom_def)
  have "unat n \<le> unat (prod_size (shared s))" using ring_invD(3) [OF inv, of i] pc g by (cases "unat n = 0") simp_all
  note n = ptrs_more_less [OF g(1) this] ptrs_idx_mod [OF g(1) this]
  show "ptrs_more (cons_size (shared s)) (prod_mask (shared s)) ch n k \<longleftrightarrow> k < unat n" unfolding sz by (rule n(1))
  show "ptrs_idx (cons_size (shared s)) (prod_mask (shared s)) ch n k = (unat ch + k) mod unat (cons_size (shared s))"
    if "k < unat n" unfolding sz using n(2) [OF that] .
qed

lemma prod_step_inv:
  assumes inv: "ring_inv s" and step: "mp_enqueue_step (shared s) (prods s i) = Some (r', pc')"
    and fresh: "prod_fresh s i (prods s i)"
  shows "ring_inv (prod_ghost i (prods s i) pc' (s\<lparr>shared := r', prods := (prods s)(i := pc')\<rparr>))"
proof (cases "prods s i")
  case (PLoop objs mx b)
  have "ring_inv (s\<lparr>prods := (prods s)(i := PTail objs mx b (prod_head (shared s))),
      g_ptick := (g_ptick s)(i := length (g_hist s))\<rparr>)"
    using ring_invD(2) [OF inv, of i] ring_inv_geomD(2) [OF inv] PLoop
    by (intro ring_inv_prod_local [OF inv]) simp_all
  then show ?thesis using step PLoop by (auto simp: shared_triv)
next
  case (PTail objs mx b ph)
  define free where "free = prod_mask (shared s) + cons_tail (shared s) - ph"
  have pi: "prod_inv s (g_ptick s i) (PTail objs mx b ph)" using ring_invD(2) [OF inv, of i] PTail by simp
  have r': "r' = shared s" using step PTail by (auto simp: Let_def split: if_splits)
  have now: "unat free = ring_capacity (shared s) + g_ct s - length (g_hist s)"
    if "g_ptick s i = length (g_hist s)"
    using free_entries_now [OF inv] pi that by (simp add: free_def)
  have "prod_res pc' = None \<and> prod_inv s (g_ptick s i) pc'"
  proof (cases "\<exists>ret. pc' = PDone ret")
    case False
    then have pc': "pc' = PCas objs mx b ph free (if free < mx then free else mx)"
      using step PTail by (auto simp: Let_def free_def split: if_splits)
    show ?thesis
      using pi now ring_inv_geomD(9) [OF inv] unfolding pc' prod_inv.simps
      by (auto simp: word_less_nat_alt)
  qed auto
  then show ?thesis using ring_inv_prod_move [OF inv, of pc' i] PTail by (simp add: r')
next
  case (PCas objs mx b ph f n)
  show ?thesis
  proof (cases "prod_head (shared s) = ph")
    case True
    then show ?thesis using prod_cas_inv [OF inv PCas] fresh step PCas by auto
  next
    case False
    have "ring_inv (s\<lparr>prods := (prods s)(i := PLoop objs mx b)\<rparr>)"
      using ring_invD(2) [OF inv, of i] PCas by (intro ring_inv_prod_move [OF inv]) simp_all
    then show ?thesis using False step PCas by auto
  qed
next
  case (PCopy objs b ph f n k)
  show ?thesis
  proof (cases "k < unat n")
    case True
    from prod_copy_inv [OF inv PCopy True] show ?thesis using step PCopy True by (auto simp: prod_copy_index [OF inv PCopy])
  next
    case False
    have pi: "prod_inv s (g_ptick s i) (PCopy objs b ph f n k)"
      using ring_invD(2) [OF inv, of i] PCopy by simp
    have "ring_inv (s\<lparr>prods := (prods s)(i := PWait ph n (enqueue_ret (shared s) f n b))\<rparr>)"
      using pi False PCopy by (intro ring_inv_prod_move [OF inv]) auto
    then show ?thesis using False step PCopy by (auto simp: prod_copy_index [OF inv PCopy])
  qed
next
  case (PWait ph n ret)
  show ?thesis
  proof (cases "prod_tail (shared s) = ph")
    case True
    then show ?thesis using prod_release_inv [OF inv PWait] step PWait by auto
  next
    case False
    have "ring_inv (s\<lparr>prods := (prods s)(i := PWait ph n ret)\<rparr>)"
      using ring_invD(2) [OF inv, of i] PWait by (intro ring_inv_prod_move [OF inv]) simp_all
    moreover have "r' = shared s" "pc' = PWait ph n ret" using False step PWait by auto
    ultimately show ?thesis unfolding PWait by simp
  qed
qed (use step in auto)

lemma cons_step_inv:
  assumes inv: "ring_inv s" and step: "mc_dequeue_step (shared s) (conss s i) = Some (r', pc')"
    and fresh: "cons_fresh s i (conss s i)"
  shows "ring_inv (cons_ghost i (conss s i) pc' (s\<lparr>shared := r', conss := (conss s)(i := pc')\<rparr>))"
proof (cases "conss s i")
  case (CLoop tbl mx b)
  have "ring_inv (s\<lparr>conss := (conss s)(i := CTail tbl mx b (cons_head (shared s))),
      g_ctick := (g_ctick s)(i := g_ch s)\<rparr>)"
    using ring_invD(3) [OF inv, of i] ring_inv_geomD(4) [OF inv] CLoop
    by (intro ring_inv_cons_local [OF inv]) simp_all
  then show ?thesis using step CLoop by auto
next
  case (CTail tbl mx b ch)
  define entries where "entries = prod_tail (shared s) - ch"
  have ci: "cons_inv s (g_ctick s i) (CTail tbl mx b ch)" using ring_invD(3) [OF inv, of i] CTail by simp
  have r': "r' = shared s" using step CTail by (auto simp: Let_def split: if_splits)
  have now: "unat entries = g_pt s - g_ch s" if "g_ctick s i = g_ch s"
    using entries_now [OF inv] ci that by (simp add: entries_def)
  have "cons_res pc' = None \<and> cons_inv s (g_ctick s i) pc'"
  proof (cases "\<exists>ret tbl'. pc' = CDone ret tbl'")
    case False
    then have pc': "pc' = CCas tbl mx b ch (if entries < mx then entries else mx)"
      using step CTail by (auto simp: Let_def entries_def split: if_splits)
    show ?thesis
      using ci now ring_inv_geomD(7) [OF inv] unfolding pc' cons_inv.simps
      by (auto simp: word_less_nat_alt)
  qed auto
  then show ?thesis using ring_inv_cons_move [OF inv, of pc' i] CTail by (simp add: r')
next
  case (CCas tbl mx b ch n)
  show ?thesis
  proof (cases "cons_head (shared s) = ch")
    case True
    then show ?thesis using cons_cas_inv [OF inv CCas] fresh step CCas by auto
  next
    case False
    have "ring_inv (s\<lparr>conss := (conss s)(i := CLoop tbl mx b)\<rparr>)"
      using ring_invD(3) [OF inv, of i] CCas by (intro ring_inv_cons_move [OF inv]) simp_all
    then show ?thesis using False step CCas by auto
  qed
next
  case (CCopy tbl b ch n k)
  show ?thesis
  proof (cases "k < unat n")
    case True
    from cons_copy_step [OF inv CCopy True] obtain tbl' where tbl':
      "do { v \<leftarrow> read_at (ring_mem (shared s)) ((unat ch + k) mod unat (cons_size (shared s)));
        write_at tbl k v } = Some tbl'"
      "cons_inv s (g_ctick s i) (CCopy tbl' b ch n (Suc k))" by blast
    have "ring_inv (s\<lparr>conss := (conss s)(i := CCopy tbl' b ch n (Suc k))\<rparr>)"
      using tbl' CCopy by (intro ring_inv_cons_move [OF inv]) auto
    then show ?thesis using step CCopy True tbl' by (auto simp: cons_copy_index [OF inv CCopy])
  next
    case False
    have ci: "cons_inv s (g_ctick s i) (CCopy tbl b ch n k)"
      using ring_invD(3) [OF inv, of i] CCopy by simp
    have "ring_inv (s\<lparr>conss := (conss s)(i := CWait tbl b ch n)\<rparr>)"
      using ci False CCopy by (intro ring_inv_cons_move [OF inv]) auto
    then show ?thesis using False step CCopy by (auto simp: cons_copy_index [OF inv CCopy])
  qed
next
  case (CWait tbl b ch n)
  show ?thesis
  proof (cases "cons_tail (shared s) = ch")
    case True
    then show ?thesis using cons_release_inv [OF inv CWait True] step CWait by auto
  next
    case False
    have "ring_inv (s\<lparr>conss := (conss s)(i := CWait tbl b ch n)\<rparr>)"
      using ring_invD(3) [OF inv, of i] CWait by (intro ring_inv_cons_move [OF inv]) simp_all
    moreover have "r' = shared s" "pc' = CWait tbl b ch n" using False step CWait by auto
    ultimately show ?thesis unfolding CWait by simp
  qed
qed (use step in auto)

lemma ring_trans_inv:
  assumes "ring_trans s s'" and inv: "ring_inv s"
  shows "ring_inv s'"
  using assms(1)
proof cases
  case (prod_call i n objs b)
  have "prod_res (prods s i) = None" using prod_call(2) by (cases "prods s i") auto
  then show ?thesis unfolding prod_call(1) using prod_call(3)
    by (intro ring_inv_prod_move [OF inv]) simp_all
next
  case (cons_call i n tbl b)
  have "cons_res (conss s i) = None" using cons_call(2) by (cases "conss s i") auto
  then show ?thesis unfolding cons_call(1) using cons_call(3)
    by (intro ring_inv_cons_move [OF inv]) simp_all
qed (simp_all add: prod_step_inv [OF inv] cons_step_inv [OF inv])

lemma ring_start_inv:
  assumes "ring_start_ok count mem"
  shows "ring_inv (ring_start name count flags mem)"
  using rte_ring_init_ok [of count mem name flags] assms
  by (simp add: ring_inv_def ring_start_def ring_start_ok_def inv_geom_def inv_slots_def
      res_disjoint_def res_cover_def ring_ok_def) (simp add: rte_ring_init_def)

lemma ring_reachable_inv: "ring_reachable s \<Longrightarrow> ring_inv s"
  by (induction rule: ring_reachable.induct) (auto intro: ring_start_inv ring_trans_inv)

section \<open>Schedules\<close>

text \<open>A schedule names the thread that takes each step; running it gives a reachable state.\<close>

datatype 'a ring_event =
    EvEnqueue nat "'a list" u32 rte_ring_queue_behavior
  | EvProd nat
  | EvDequeue nat "'a list" u32 rte_ring_queue_behavior
  | EvCons nat

fun run_event :: "'a ring_event \<Rightarrow> 'a ring_sys \<Rightarrow> 'a ring_sys option" where
  "run_event (EvEnqueue i objs n b) s =
     (if prod_returned (prods s i) \<and> unat n \<le> length objs
      then Some (s\<lparr>prods := (prods s)(i := PLoop objs n b)\<rparr>) else None)"
| "run_event (EvProd i) s =
     (if prod_fresh s i (prods s i)
      then map_option (\<lambda>(r', pc'). prod_ghost i (prods s i) pc' (s\<lparr>shared := r', prods := (prods s)(i := pc')\<rparr>))
             (mp_enqueue_step (shared s) (prods s i))
      else None)"
| "run_event (EvDequeue i tbl n b) s =
     (if cons_returned (conss s i) \<and> unat n \<le> length tbl
      then Some (s\<lparr>conss := (conss s)(i := CLoop tbl n b)\<rparr>) else None)"
| "run_event (EvCons i) s =
     (if cons_fresh s i (conss s i)
      then map_option (\<lambda>(r', pc'). cons_ghost i (conss s i) pc' (s\<lparr>shared := r', conss := (conss s)(i := pc')\<rparr>))
             (mc_dequeue_step (shared s) (conss s i))
      else None)"

primrec run_events :: "'a ring_event list \<Rightarrow> 'a ring_sys \<Rightarrow> 'a ring_sys option" where
  "run_events [] s = Some s"
| "run_events (e # es) s = Option.bind (run_event e s) (run_events es)"

lemma run_event_trans: "run_event e s = Some s' \<Longrightarrow> ring_trans s s'"
  by (cases e) (auto intro: ring_trans.intros split: if_splits)

lemma run_events_reachable: "run_events es s = Some s' \<Longrightarrow> ring_reachable s \<Longrightarrow> ring_reachable s'"
proof (induction es arbitrary: s)
  case (Cons e es)
  then obtain u where u: "run_event e s = Some u" "run_events es u = Some s'"
    by (auto simp: bind_eq_Some_conv)
  have "ring_reachable u" using ring_reachable.step [OF Cons.prems(2) run_event_trans [OF u(1)]] .
  then show ?case using Cons.IH u(2) by blast
qed simp

text \<open>
  Two producers and a consumer on a ring of size 4: producer 1 reserves two slots and stops in
  the middle of its copy, producer 2 reserves the third slot, copies and has to wait; the
  state is used below to instantiate the theorems.
\<close>

definition ring_demo_events :: "nat ring_event list" where
  "ring_demo_events =
     [EvEnqueue 1 [10, 11] 2 RTE_RING_QUEUE_FIXED, EvProd 1, EvProd 1, EvProd 1, EvProd 1,
      EvEnqueue 2 [20] 1 RTE_RING_QUEUE_VARIABLE, EvProd 2, EvProd 2, EvProd 2, EvProd 2, EvProd 2, EvProd 2]"

definition ring_demo_finish :: "nat ring_event list" where
  "ring_demo_finish =
     [EvProd 1, EvProd 1, EvProd 1, EvProd 2, EvDequeue 7 [0, 0] 2 RTE_RING_QUEUE_FIXED,
      EvCons 7, EvCons 7, EvCons 7, EvCons 7, EvCons 7, EvCons 7, EvCons 7]"

definition ring_demo :: "nat ring_sys" where
  "ring_demo = the (run_events ring_demo_events (ring_start ''r'' 4 0 [0, 0, 0, 0]))"

definition ring_demo_end :: "nat ring_sys" where
  "ring_demo_end = the (run_events (ring_demo_events @ ring_demo_finish) (ring_start ''r'' 4 0 [0, 0, 0, 0]))"

lemma ring_demo_start: "ring_reachable (ring_start ''r'' 4 0 [0, 0, 0, 0 :: nat])"
  by (rule ring_reachable.start) (simp add: ring_start_ok_def POWEROF2_def)

lemmas ring_demo_eval = ptrs_idx_def ptrs_more_def ring_start_def rte_ring_init_def ring_demo_events_def ring_demo_finish_def
  enqueue_ret_def Let_def

lemma ring_demo_run:
  "\<exists>s. run_events ring_demo_events (ring_start ''r'' 4 0 [0, 0, 0, 0]) = Some s \<and>
    prods s 1 = PCopy [10, 11] RTE_RING_QUEUE_FIXED 0 3 2 1 \<and> prods s 2 = PWait 2 1 1 \<and>
    g_ptick s 1 = 0 \<and> g_ptick s 2 = 2 \<and> prod_size (shared s) = 4 \<and>
    g_pt s = 0 \<and> g_hist s = [10, 11, 20]"
  by (simp add: ring_demo_eval)

lemma ring_demo_facts:
  shows "ring_reachable ring_demo" and "prods ring_demo 1 = PCopy [10, 11] RTE_RING_QUEUE_FIXED 0 3 2 1"
    and "prods ring_demo 2 = PWait 2 1 1" and "g_ptick ring_demo 1 = 0" and "g_ptick ring_demo 2 = 2"
    and "prod_size (shared ring_demo) = 4" and "g_pt ring_demo = 0" and "g_hist ring_demo = [10, 11, 20]"
  using ring_demo_run run_events_reachable [OF _ ring_demo_start, of ring_demo_events]
  by (auto simp: ring_demo_def)

lemma ring_demo_end_run:
  "\<exists>s. run_events (ring_demo_events @ ring_demo_finish) (ring_start ''r'' 4 0 [0, 0, 0, 0]) = Some s \<and>
    (\<forall>i. prod_returned (prods s i)) \<and> (\<forall>i. cons_returned (conss s i)) \<and>
    g_out s = [10, 11] \<and> g_ct s = 2 \<and> g_pt s = 3 \<and> g_hist s = [10, 11, 20]"
  by (simp add: ring_demo_eval)

lemma ring_demo_end_facts:
  shows "ring_reachable ring_demo_end" and "\<forall>i. prod_returned (prods ring_demo_end i)"
    and "\<forall>i. cons_returned (conss ring_demo_end i)" and "g_out ring_demo_end = [10, 11]"
    and "g_ct ring_demo_end = 2" and "g_pt ring_demo_end = 3" and "g_hist ring_demo_end = [10, 11, 20]"
  using ring_demo_end_run run_events_reachable [OF _ ring_demo_start, of "ring_demo_events @ ring_demo_finish"]
  by (auto simp: ring_demo_end_def)

section \<open>What the invariant gives\<close>

text \<open>No thread accesses memory outside the ring or outside its own object table.\<close>

lemma ring_mp_no_fault:
  assumes "ring_reachable s"
  shows "prods s i \<noteq> PFault \<and> conss s i \<noteq> CFault"
  using ring_invD(2,3) [OF ring_reachable_inv [OF assms], of i] by auto



text \<open>The slots a producer or a consumer has reserved.\<close>

definition prod_slots :: "'a ring_sys \<Rightarrow> nat \<Rightarrow> nat set" where
  "prod_slots s i = (case prod_res (prods s i) of None \<Rightarrow> {}
     | Some n \<Rightarrow> (\<lambda>j. (g_ptick s i + j) mod unat (prod_size (shared s))) ` {..<n})"

definition cons_slots :: "'a ring_sys \<Rightarrow> nat \<Rightarrow> nat set" where
  "cons_slots s i = (case cons_res (conss s i) of None \<Rightarrow> {}
     | Some n \<Rightarrow> (\<lambda>j. (g_ctick s i + j) mod unat (prod_size (shared s))) ` {..<n})"

lemma tickets_slots_disjoint:
  assumes "a + n \<le> b \<or> b + m \<le> (a :: nat)"
    and "0 < n \<longrightarrow> l \<le> a \<and> a + n \<le> l + sz" and "0 < m \<longrightarrow> l \<le> b \<and> b + m \<le> l + sz"
  shows "(\<lambda>j. (a + j) mod sz) ` {..<n} \<inter> (\<lambda>j. (b + j) mod sz) ` {..<m} = {}"
proof -
  have "(a + j) mod sz \<noteq> (b + k) mod sz" if "j < n" "k < m" for j k
  proof
    assume "(a + j) mod sz = (b + k) mod sz"
    then have "a + j = b + k" by (rule mod_range_inj [where l = l]) (use that assms in auto)
    then show False using that assms(1) by auto
  qed
  then show ?thesis by auto
qed


lemma ring_demo_slots: "prod_slots ring_demo 1 = {0, 1}"
  unfolding prod_slots_def ring_demo_facts(2,4,6) by (auto simp: image_iff lessThan_nat_numeral)


text \<open>
  When every call has returned, the ring is well-formed again and holds exactly the objects
  reserved and not yet taken, in order: no object is lost, duplicated or reordered.
\<close>

theorem ring_mp_quiescent:
  assumes "ring_reachable s" and "\<forall>i. prod_returned (prods s i)" and "\<forall>i. cons_returned (conss s i)"
  shows "ring_ok (shared s) \<and> g_hist s = g_out s @ ring_contents (shared s)"
proof -
  note inv = ring_reachable_inv [OF assms(1)]
  note g = ring_inv_geomD [OF inv]
  have nores: "prod_res (prods s i) = None" "cons_res (conss s i) = None" for i
    using assms(2,3) [rule_format, of i] by (cases "prods s i"; cases "conss s i"; auto)+
  have pt: "g_pt s = length (g_hist s)"
  proof (rule ccontr)
    assume "g_pt s \<noteq> length (g_hist s)"
    with g(8) ring_invD(5) [OF inv] show False unfolding res_cover_def nores by auto
  qed
  have ct: "g_ct s = g_ch s"
  proof (rule ccontr)
    assume "g_ct s \<noteq> g_ch s"
    with g(6) ring_invD(7) [OF inv] show False unfolding res_cover_def nores by auto
  qed
  have used: "unat (prod_tail (shared s) - cons_tail (shared s)) = length (g_hist s) - g_ct s"
    unfolding g(3,5) pt by (rule unat_diff_of_nat) (use g pt ct in simp_all)
  have "ring_ok (shared s)"
    using g pt ct used by (simp add: ring_ok_def word_le_nat_alt flip: ring_capacity_def)
  moreover have "ring_contents (shared s) = ring_load (ring_mem (shared s)) (unat (prod_size (shared s)))
      (g_ct s) (length (g_hist s) - g_ct s)"
    unfolding ring_contents_def used
    by (rule ring_load_cong_mod) (use unat_of_nat_mod_size [OF g(1), of "g_ct s" 0] g(5) in simp)
  moreover have "ring_load (ring_mem (shared s)) (unat (prod_size (shared s))) (g_ct s) (length (g_hist s) - g_ct s)
      = drop (g_ct s) (g_hist s)"
    using ring_invD(1) [OF inv] pt by (intro nth_equalityI) (auto simp: inv_slots_def slot_of_def)
  ultimately show ?thesis using ring_invD(8) [OF inv] by simp
qed

lemma ring_mp_quiescent_witness:
  "ring_contents (shared ring_demo_end) = [20]"
  using ring_mp_quiescent [OF ring_demo_end_facts(1-3)] by (simp add: ring_demo_end_facts)

text \<open>The thread with the oldest ticket gets through by its own steps: it copies, and passes its wait at once.\<close>

lemma prod_alone:
  assumes "ring_inv s" and "prod_res (prods s i) = Some n" and "0 < n" and "g_ptick s i = g_pt s"
  shows "\<exists>k s' ret. k \<le> n - prod_copied (prods s i) + 2 \<and> run_events (replicate k (EvProd i)) s = Some s' \<and>
    prods s' i = PDone ret \<and> g_pt s' = g_pt s + n"
  using assms
proof (induction "n - prod_copied (prods s i)" arbitrary: s rule: less_induct)
  case less
  note inv = less.prems(1) and g = ring_inv_geomD [OF less.prems(1)]
  show ?case
  proof (cases "prods s i")
    case (PCopy objs b ph f m j)
    then have m: "unat m = n" using less.prems(2) by simp
    have more: "ptrs_more (prod_size (shared s)) (prod_mask (shared s)) ph m j \<longleftrightarrow> j < unat m" by (rule prod_copy_index(1) [OF inv PCopy])
    show ?thesis
    proof (cases "j < unat m")
      case True
      obtain mem where mem: "do { v \<leftarrow> read_at objs j;
            write_at (ring_mem (shared s)) (ptrs_idx (prod_size (shared s)) (prod_mask (shared s)) ph m j) v } = Some mem"
        using prod_copy_inv [OF inv PCopy True] prod_copy_index(2) [OF inv PCopy True] by auto
      define s1 where "s1 = s\<lparr>shared := (shared s)\<lparr>ring_mem := mem\<rparr>, prods := (prods s)(i := PCopy objs b ph f m (Suc j))\<rparr>"
      have step: "run_event (EvProd i) s = Some s1" using PCopy True more mem by (simp add: s1_def)
      have "ring_inv s1" using ring_trans_inv [OF run_event_trans [OF step] inv] .
      moreover have "prod_res (prods s1 i) = Some n" "g_ptick s1 i = g_pt s1" "g_pt s1 = g_pt s" "prod_copied (prods s1 i) = Suc j"
        using m less.prems(4) by (simp_all add: s1_def)
      moreover have "n - Suc j < n - j" "prod_copied (prods s i) = j" using PCopy True m by simp_all
      ultimately obtain k s' ret where "k \<le> n - Suc j + 2" "run_events (replicate k (EvProd i)) s1 = Some s'"
          "prods s' i = PDone ret" "g_pt s' = g_pt s + n"
        using less.hyps [of s1] less.prems(3) by auto
      moreover have "run_events (replicate (Suc k) (EvProd i)) s = Some s'" using step calculation(2) by (simp del: run_event.simps)
      moreover have "Suc k \<le> n - prod_copied (prods s i) + 2" using calculation(1) PCopy True m by simp
      ultimately show ?thesis by blast
    next
      case False
      define s1 where "s1 = s\<lparr>prods := (prods s)(i := PWait ph m (enqueue_ret (shared s) f m b))\<rparr>"
      have step: "run_event (EvProd i) s = Some s1" using PCopy False more by (simp add: s1_def)
      have "prod_tail (shared s) = ph" using ring_invD(2) [OF inv, of i] PCopy g(3) less.prems(4) by simp
      then have "\<exists>s'. run_event (EvProd i) s1 = Some s' \<and> prods s' i = PDone (enqueue_ret (shared s) f m b) \<and> g_pt s' = g_pt s + n"
        using m by (simp add: s1_def)
      then obtain s' where "run_event (EvProd i) s1 = Some s'" "prods s' i = PDone (enqueue_ret (shared s) f m b)" "g_pt s' = g_pt s + n"
        by blast
      then show ?thesis using step
        by (intro exI [of _ "Suc (Suc 0)"] exI [of _ s'] exI [of _ "enqueue_ret (shared s) f m b"]) simp
    qed
  next
    case (PWait ph m ret)
    then have m: "unat m = n" using less.prems(2) by simp
    have "prod_tail (shared s) = ph" using ring_invD(2) [OF inv, of i] PWait g(3) less.prems(4) by simp
    then have "\<exists>s'. run_event (EvProd i) s = Some s' \<and> prods s' i = PDone ret \<and> g_pt s' = g_pt s + n" using PWait m by simp
    then obtain s' where "run_event (EvProd i) s = Some s'" "prods s' i = PDone ret" "g_pt s' = g_pt s + n" by blast
    then show ?thesis by (intro exI [of _ "Suc 0"] exI [of _ s'] exI [of _ ret]) simp
  qed (use less.prems(2) in simp_all)
qed

lemma cons_alone:
  assumes "ring_inv s" and "cons_res (conss s i) = Some n" and "0 < n" and "g_ctick s i = g_ct s"
  shows "\<exists>k s' ret tbl. k \<le> n + 2 \<and> run_events (replicate k (EvCons i)) s = Some s' \<and>
    conss s' i = CDone ret tbl \<and> g_ct s' = g_ct s + n"
proof -
  define left where "left pc = (case pc of CCopy tbl b ch m j \<Rightarrow> n - j | pc \<Rightarrow> 0)" for pc :: "'a cons_pc"
  have "\<exists>k s' ret tbl. k \<le> left (conss s i) + 2 \<and> run_events (replicate k (EvCons i)) s = Some s' \<and>
    conss s' i = CDone ret tbl \<and> g_ct s' = g_ct s + n"
    using assms
  proof (induction "left (conss s i)" arbitrary: s rule: less_induct)
    case less
    note inv = less.prems(1) and g = ring_inv_geomD [OF less.prems(1)]
    show ?case
    proof (cases "conss s i")
      case (CCopy tbl b ch m j)
      then have m: "unat m = n" using less.prems(2) by simp
      have more: "ptrs_more (cons_size (shared s)) (prod_mask (shared s)) ch m j \<longleftrightarrow> j < unat m" by (rule cons_copy_index(1) [OF inv CCopy])
      show ?thesis
      proof (cases "j < unat m")
        case True
        obtain tbl' where tbl': "do { v \<leftarrow> read_at (ring_mem (shared s)) (ptrs_idx (cons_size (shared s)) (prod_mask (shared s)) ch m j);
            write_at tbl j v } = Some tbl'"
          using cons_copy_step [OF inv CCopy True] cons_copy_index(2) [OF inv CCopy True] by auto
        define s1 where "s1 = s\<lparr>conss := (conss s)(i := CCopy tbl' b ch m (Suc j))\<rparr>"
        have step: "run_event (EvCons i) s = Some s1" using CCopy True more tbl' by (simp add: s1_def)
        have "ring_inv s1" using ring_trans_inv [OF run_event_trans [OF step] inv] .
        moreover have "cons_res (conss s1 i) = Some n" "g_ctick s1 i = g_ct s1" "g_ct s1 = g_ct s" "left (conss s1 i) = n - Suc j"
          using m less.prems(4) by (simp_all add: s1_def left_def)
        moreover have "left (conss s i) = n - j" "n - Suc j < n - j" using CCopy True m by (simp_all add: left_def)
        ultimately obtain k s' ret tbl where k: "k \<le> n - Suc j + 2" "run_events (replicate k (EvCons i)) s1 = Some s'"
            "conss s' i = CDone ret tbl" "g_ct s' = g_ct s + n"
          using less.hyps [of s1] less.prems(3) by auto
        then show ?thesis using step \<open>left (conss s i) = n - j\<close> \<open>n - Suc j < n - j\<close>
          by (intro exI [of _ "Suc k"] exI [of _ s'] exI [of _ ret] exI [of _ tbl]) simp
      next
        case False
        define s1 where "s1 = s\<lparr>conss := (conss s)(i := CWait tbl b ch m)\<rparr>"
        have step: "run_event (EvCons i) s = Some s1" using CCopy False more by (simp add: s1_def)
        have "cons_tail (shared s) = ch" using ring_invD(3) [OF inv, of i] CCopy g(5) less.prems(4) by simp
        then have "\<exists>s' ret. run_event (EvCons i) s1 = Some s' \<and> conss s' i = CDone ret tbl \<and> g_ct s' = g_ct s + n"
          using m by (simp add: s1_def)
        then obtain s' ret where "run_event (EvCons i) s1 = Some s'" "conss s' i = CDone ret tbl" "g_ct s' = g_ct s + n" by blast
        then show ?thesis using step
          by (intro exI [of _ "Suc (Suc 0)"] exI [of _ s'] exI [of _ ret] exI [of _ tbl]) simp
      qed
    next
      case (CWait tbl b ch m)
      then have m: "unat m = n" using less.prems(2) by simp
      have "cons_tail (shared s) = ch" using ring_invD(3) [OF inv, of i] CWait g(5) less.prems(4) by simp
      then have "\<exists>s' ret. run_event (EvCons i) s = Some s' \<and> conss s' i = CDone ret tbl \<and> g_ct s' = g_ct s + n" using CWait m by simp
      then obtain s' ret where "run_event (EvCons i) s = Some s'" "conss s' i = CDone ret tbl" "g_ct s' = g_ct s + n" by blast
      then show ?thesis by (intro exI [of _ "Suc 0"] exI [of _ s'] exI [of _ ret] exI [of _ tbl]) simp
    qed (use less.prems(2) in simp_all)
  qed
  moreover have "left (conss s i) \<le> n" by (simp add: left_def split: cons_pc.split)
  ultimately show ?thesis by (meson add_le_mono1 order_trans)
qed



text \<open>A schedule in which producer 1 overtakes an empty enqueue of producer 0.\<close>

definition ring_stall_events :: "nat ring_event list" where
  "ring_stall_events =
     [EvEnqueue 0 [] 0 RTE_RING_QUEUE_FIXED, EvProd 0, EvProd 0, EvProd 0, EvProd 0,
      EvEnqueue 1 [5] 1 RTE_RING_QUEUE_FIXED, EvProd 1, EvProd 1, EvProd 1, EvProd 1, EvProd 1, EvProd 1]"

lemma ring_stall_run:
  "\<exists>s. run_events ring_stall_events (ring_start ''r'' 4 0 [0, 0, 0, 0]) = Some s \<and>
     prods s 0 = PWait 0 0 0 \<and> (\<forall>j. j \<noteq> 0 \<longrightarrow> prod_returned (prods s j)) \<and> (\<forall>j. cons_returned (conss s j)) \<and>
     mp_enqueue_step (shared s) (prods s 0) = Some (shared s, prods s 0)"
  by (simp add: ring_stall_events_def ring_demo_eval)

text \<open>
  An enqueue of no objects by one producer can be overtaken for good: it reserves nothing,
  but still waits for the tail to come back to the index it read, and when another producer has
  advanced the tail meanwhile it spins although every other call has returned.
\<close>

theorem ring_mp_empty_enqueue_stalls:
  "\<exists>s :: nat ring_sys. ring_reachable s \<and> {j. \<not> prod_returned (prods s j)} = {0} \<and>
     {j. \<not> cons_returned (conss s j)} = {} \<and>
     mp_enqueue_step (shared s) (prods s 0) = Some (shared s, prods s 0)"
proof -
  obtain s :: "nat ring_sys" where s: "run_events ring_stall_events (ring_start ''r'' 4 0 [0, 0, 0, 0]) = Some s"
    "prods s 0 = PWait 0 0 0" "\<forall>j. j \<noteq> 0 \<longrightarrow> prod_returned (prods s j)" "\<forall>j. cons_returned (conss s j)"
    "mp_enqueue_step (shared s) (prods s 0) = Some (shared s, prods s 0)"
    using ring_stall_run by blast
  have "{j. \<not> prod_returned (prods s j)} = {0}" "{j. \<not> cons_returned (conss s j)} = {}"
    using s(2-4) by auto
  with s run_events_reachable [OF s(1) ring_demo_start] show ?thesis by blast
qed

end
