(* ===== verification/Ring_Api.thy ===== *)
theory Ring_Api
  imports Ring_MP "HOL-Library.While_Combinator"
begin

text \<open>
  The calls of lib/librte_ring that other libraries use: the single-object, bulk and burst
  wrappers of rte_ring.h, which choose the single- or multi-thread operation from the flags of
  the ring, and the table of named rings of rte_ring.c. The interface \<open>fifo_queue\<close> states what
  a client of a ring may rely on.
\<close>

section \<open>A multi-producer or multi-consumer call that runs alone\<close>

text \<open>
  The loops of the code as written: the value is \<open>None\<close> when the call faults or never returns.
\<close>

definition prod_run :: "'a rte_ring \<times> 'a prod_pc \<Rightarrow> ('a rte_ring \<times> 'a prod_pc) option" where
  "prod_run = while_option (\<lambda>(r, pc). mp_enqueue_step r pc \<noteq> None) (\<lambda>(r, pc). the (mp_enqueue_step r pc))"

definition cons_run :: "'a rte_ring \<times> 'a cons_pc \<Rightarrow> ('a rte_ring \<times> 'a cons_pc) option" where
  "cons_run = while_option (\<lambda>(r, pc). mc_dequeue_step r pc \<noteq> None) (\<lambda>(r, pc). the (mc_dequeue_step r pc))"

definition mp_do_enqueue ::
  "'a rte_ring \<Rightarrow> 'a list \<Rightarrow> u32 \<Rightarrow> rte_ring_queue_behavior \<Rightarrow> (int \<times> 'a rte_ring) option" where
  "mp_do_enqueue r obj_table n behavior =
     (case prod_run (r, PLoop obj_table n behavior) of
        Some (r', PDone ret) \<Rightarrow> Some (ret, r')
      | _ \<Rightarrow> None)"

definition mc_do_dequeue ::
  "'a rte_ring \<Rightarrow> 'a list \<Rightarrow> u32 \<Rightarrow> rte_ring_queue_behavior \<Rightarrow> (int \<times> 'a list \<times> 'a rte_ring) option" where
  "mc_do_dequeue r obj_table n behavior =
     (case cons_run (r, CLoop obj_table n behavior) of
        Some (r', CDone ret tbl) \<Rightarrow> Some (ret, tbl, r')
      | _ \<Rightarrow> None)"

lemma prod_run_step:
  "prod_run (r, pc) = (case mp_enqueue_step r pc of None \<Rightarrow> Some (r, pc) | Some x \<Rightarrow> prod_run x)"
  unfolding prod_run_def by (subst while_option_unfold) (auto split: option.split)

lemma cons_run_step:
  "cons_run (r, pc) = (case mc_dequeue_step r pc of None \<Rightarrow> Some (r, pc) | Some x \<Rightarrow> cons_run x)"
  unfolding cons_run_def by (subst while_option_unfold) (auto split: option.split)

lemma prod_run_end [simp]:
  "prod_run (r, PDone ret) = Some (r, PDone ret)"
  "prod_tail r = ph \<Longrightarrow> prod_run (r, PWait ph n ret) = Some (r\<lparr>prod_tail := ph + n\<rparr>, PDone ret)"
  by (subst prod_run_step, simp add: prod_run_step [of _ "PDone _"])+

lemma cons_run_end [simp]:
  "cons_run (r, CDone ret tbl) = Some (r, CDone ret tbl)"
  "cons_tail r = ch \<Longrightarrow> cons_run (r, CWait tbl b ch n) =
     Some (r\<lparr>cons_tail := ch + n\<rparr>, CDone (if b = RTE_RING_QUEUE_FIXED then 0 else sint n) tbl)"
  by (subst cons_run_step, simp add: cons_run_step [of _ "CDone _ _"])+

lemma enqueue_ret_mem [simp]: "enqueue_ret (r\<lparr>ring_mem := m\<rparr>) f n b = enqueue_ret r f n b"
  by (simp add: enqueue_ret_def)

lemma prod_run_copy:
  assumes "ring_geom r" and "unat n \<le> unat (prod_size r)"
    and "unat n \<le> length objs" and "k \<le> unat n"
  shows "prod_run (r, PCopy objs b ph f n k) =
    prod_run (r\<lparr>ring_mem := ring_store (ring_mem r) (unat (prod_size r)) (unat ph + k) (drop k (take (unat n) objs))\<rparr>,
      PWait ph n (enqueue_ret r f n b))"
  using assms
proof (induction "unat n - k" arbitrary: k r)
  case 0
  then have "k = unat n" by simp
  then show ?case using 0 ptrs_more_less [of r n ph k] by (subst prod_run_step) simp
next
  case (Suc d)
  define idx where "idx = (unat ph + k) mod unat (prod_size r)"
  have k: "k < unat n" using Suc.hyps(2) by simp
  have idx: "idx < length (ring_mem r)" using Suc.prems(1) ring_geom_capacity(1) [of r] by (simp add: idx_def ring_geom_def)
  have at: "ptrs_more (prod_size r) (prod_mask r) ph n k" "ptrs_idx (prod_size r) (prod_mask r) ph n k = idx"
    using k Suc.prems(1,2) by (simp_all add: ptrs_more_less ptrs_idx_mod idx_def)
  define r1 where "r1 = r\<lparr>ring_mem := (ring_mem r)[idx := objs ! k]\<rparr>"
  have "prod_run (r, PCopy objs b ph f n k) = prod_run (r1, PCopy objs b ph f n (Suc k))"
    using k idx at Suc.prems(3) by (subst prod_run_step) (simp add: r1_def)
  also have "\<dots> = prod_run (r1\<lparr>ring_mem := ring_store (ring_mem r1) (unat (prod_size r1)) (unat ph + Suc k)
      (drop (Suc k) (take (unat n) objs))\<rparr>, PWait ph n (enqueue_ret r1 f n b))"
    by (rule Suc.hyps(1)) (use Suc.hyps(2) Suc.prems k in \<open>simp_all add: r1_def ring_geom_def\<close>)
  also have "drop k (take (unat n) objs) = objs ! k # drop (Suc k) (take (unat n) objs)"
    using k Suc.prems(3) by (simp flip: Cons_nth_drop_Suc)
  ultimately show ?case by (simp add: r1_def idx_def)
qed

lemma mp_do_enqueue_alone:
  assumes ok: "ring_ok r" and len: "unat n \<le> length objs"
  shows "mp_do_enqueue r objs n b = sp_do_enqueue r objs n b"
proof -
  define free where "free = prod_mask r + cons_tail r - prod_head r"
  define n' where "n' = (if free < n then free else n)"
  have geom: "ring_geom r" and hd: "prod_head r = prod_tail r" using ok by (auto simp: ring_ok_def)
  have sz: "length (ring_mem r) = unat (prod_size r)" "0 < unat (prod_size r)"
    using geom ring_geom_capacity(1) [OF geom] by (auto simp: ring_geom_def)
  have n': "unat n' \<le> length objs" using len by (auto simp: n'_def word_less_nat_alt)
  have "unat n' \<le> unat free" by (auto simp: n'_def word_less_nat_alt)
  then have n's: "unat n' \<le> unat (prod_size r)"
    using ring_free_entries [OF ok] ring_geom_capacity(1) [OF geom] by (simp add: free_def)
  define r1 where "r1 = r\<lparr>prod_head := prod_head r + n'\<rparr>"
  have geom1: "ring_geom r1" using geom by (simp add: r1_def ring_geom_def)
  have copy: "ENQUEUE_PTRS r1 (prod_head r) n' objs =
      Some (ring_store (ring_mem r) (unat (prod_size r)) (unat (prod_head r)) (take (unat n') objs))"
    using ENQUEUE_PTRS_eq [OF geom1, of n' objs "prod_head r"] n's n' by (simp add: r1_def)
  have tail: "prod_run (r, PTail objs n b (prod_head r)) =
    (if free < n \<and> b = RTE_RING_QUEUE_FIXED then Some (r, PDone (- ENOBUFS))
     else if free < n \<and> free = 0 then Some (r, PDone 0)
     else prod_run (r, PCas objs n b (prod_head r) free n'))"
    by (subst prod_run_step) (auto simp: n'_def Let_def simp flip: free_def)
  have cas: "prod_run (r, PCas objs n b (prod_head r) free n') =
      prod_run (r1, PCopy objs b (prod_head r) free n' 0)"
    by (subst prod_run_step) (simp add: r1_def)
  also have "\<dots> = Some (r1\<lparr>ring_mem := ring_store (ring_mem r) (unat (prod_size r)) (unat (prod_head r)) (take (unat n') objs),
      prod_tail := prod_head r + n'\<rparr>, PDone (enqueue_ret r1 free n' b))"
    by (subst prod_run_copy) (use geom1 n's n' hd in \<open>simp_all add: r1_def\<close>)
  finally have cas': "prod_run (r, PCas objs n b (prod_head r) free n') =
    Some (r1\<lparr>ring_mem := ring_store (ring_mem r) (unat (prod_size r)) (unat (prod_head r)) (take (unat n') objs),
      prod_tail := prod_head r + n'\<rparr>, PDone (enqueue_ret r1 free n' b))" .
  have ret: "enqueue_ret r1 free n' b = enqueue_ret r free n' b" by (simp add: r1_def enqueue_ret_def)
  have "prod_run (r, PLoop objs n b) = prod_run (r, PTail objs n b (prod_head r))"
    by (subst prod_run_step) simp
  then show ?thesis
    unfolding mp_do_enqueue_def sp_do_enqueue_def Let_def free_def [symmetric] n'_def [symmetric] r1_def [symmetric]
    by (auto simp: tail cas' copy ret)
qed

lemma cons_run_copy:
  assumes "ring_geom r" and "unat n \<le> unat (prod_size r)"
    and "unat n \<le> length tbl" and "k \<le> unat n"
  shows "cons_run (r, CCopy tbl b ch n k) = cons_run (r, CWait
      (take k tbl @ ring_load (ring_mem r) (unat (cons_size r)) (unat ch + k) (unat n - k) @ drop (unat n) tbl) b ch n)"
  using assms
proof (induction "unat n - k" arbitrary: k tbl)
  case 0
  then have "k = unat n" by simp
  have "cons_size r = prod_size r" using 0 by (simp add: ring_geom_def)
  then show ?case using 0 \<open>k = unat n\<close> ptrs_more_less [of r n ch k] by (subst cons_run_step) (simp add: ring_load_def)
next
  case (Suc d)
  define idx where "idx = (unat ch + k) mod unat (cons_size r)"
  have k: "k < unat n" using Suc.hyps(2) by simp
  have sz: "cons_size r = prod_size r" using Suc.prems(1) by (simp add: ring_geom_def)
  have idx: "idx < length (ring_mem r)" using Suc.prems(1) ring_geom_capacity(1) [of r] by (simp add: idx_def ring_geom_def)
  have at: "ptrs_more (cons_size r) (prod_mask r) ch n k" "ptrs_idx (cons_size r) (prod_mask r) ch n k = idx"
    using k Suc.prems(1,2) by (simp_all add: ptrs_more_less ptrs_idx_mod idx_def sz)
  define tbl1 where "tbl1 = tbl[k := ring_mem r ! idx]"
  have "cons_run (r, CCopy tbl b ch n k) = cons_run (r, CCopy tbl1 b ch n (Suc k))"
    using k idx at Suc.prems(3) by (subst cons_run_step) (simp add: tbl1_def)
  also have "\<dots> = cons_run (r, CWait (take (Suc k) tbl1 @
      ring_load (ring_mem r) (unat (cons_size r)) (unat ch + Suc k) (unat n - Suc k) @ drop (unat n) tbl1) b ch n)"
    by (rule Suc.hyps(1)) (use Suc.hyps(2) Suc.prems k in \<open>simp_all add: tbl1_def\<close>)
  also have "take (Suc k) tbl1 = take k tbl @ [ring_mem r ! idx]"
    using k Suc.prems(3) by (simp add: tbl1_def take_Suc_conv_app_nth)
  also have "drop (unat n) tbl1 = drop (unat n) tbl" using k by (simp add: tbl1_def)
  finally have step: "cons_run (r, CCopy tbl b ch n k) = cons_run (r, CWait ((take k tbl @ [ring_mem r ! idx]) @
      ring_load (ring_mem r) (unat (cons_size r)) (unat ch + Suc k) (unat n - Suc k) @ drop (unat n) tbl) b ch n)" .
  have "unat n - k = 1 + (unat n - Suc k)" using k by simp
  then have "ring_load (ring_mem r) (unat (cons_size r)) (unat ch + k) (unat n - k) =
      [ring_mem r ! idx] @ ring_load (ring_mem r) (unat (cons_size r)) (unat ch + Suc k) (unat n - Suc k)"
    by (simp only: ring_load_add) (simp add: ring_load_def idx_def)
  then show ?case using step by simp
qed

lemma mc_do_dequeue_alone:
  assumes ok: "ring_ok r" and len: "unat n \<le> length tbl"
  shows "mc_do_dequeue r tbl n b = sc_do_dequeue r tbl n b"
proof -
  define entries where "entries = prod_tail r - cons_head r"
  define n' where "n' = (if entries < n then entries else n)"
  have geom: "ring_geom r" and hd: "cons_head r = cons_tail r" and le: "prod_tail r - cons_tail r \<le> prod_mask r"
    using ok by (auto simp: ring_ok_def)
  have sz: "length (ring_mem r) = unat (cons_size r)" "0 < unat (cons_size r)" "cons_size r = prod_size r"
    using geom ring_geom_capacity(1) [OF geom] by (auto simp: ring_geom_def)
  have n': "unat n' \<le> length tbl" using len by (auto simp: n'_def word_less_nat_alt)
  have "unat n' \<le> unat entries" by (auto simp: n'_def word_less_nat_alt)
  then have n's: "unat n' \<le> unat (prod_size r)"
    using le hd ring_geom_capacity(1) [OF geom] by (simp add: entries_def word_le_nat_alt ring_capacity_def)
  define r1 where "r1 = r\<lparr>cons_head := cons_head r + n'\<rparr>"
  have geom1: "ring_geom r1" using geom by (simp add: r1_def ring_geom_def)
  define tbl' where "tbl' = ring_load (ring_mem r) (unat (prod_size r)) (unat (cons_head r)) (unat n') @ drop (unat n') tbl"
  have copy: "DEQUEUE_PTRS r1 (cons_head r) n' tbl = Some tbl'"
    using DEQUEUE_PTRS_eq [OF geom1, of n' tbl "cons_head r"] n's n' by (simp add: r1_def tbl'_def)
  have tail: "cons_run (r, CTail tbl n b (cons_head r)) =
    (if entries < n \<and> b = RTE_RING_QUEUE_FIXED then Some (r, CDone (- ENOENT) tbl)
     else if entries < n \<and> entries = 0 then Some (r, CDone 0 tbl)
     else cons_run (r, CCas tbl n b (cons_head r) n'))"
    by (subst cons_run_step) (auto simp: n'_def Let_def simp flip: entries_def)
  have "cons_run (r, CCas tbl n b (cons_head r) n') = cons_run (r1, CCopy tbl b (cons_head r) n' 0)"
    by (subst cons_run_step) (simp add: r1_def)
  also have "\<dots> = Some (r1\<lparr>cons_tail := cons_head r + n'\<rparr>,
      CDone (if b = RTE_RING_QUEUE_FIXED then 0 else sint n') tbl')"
    by (subst cons_run_copy) (use sz geom1 n's n' hd in \<open>simp_all add: r1_def tbl'_def\<close>)
  finally have cas: "cons_run (r, CCas tbl n b (cons_head r) n') = Some (r1\<lparr>cons_tail := cons_head r + n'\<rparr>,
      CDone (if b = RTE_RING_QUEUE_FIXED then 0 else sint n') tbl')" .
  have "cons_run (r, CLoop tbl n b) = cons_run (r, CTail tbl n b (cons_head r))"
    by (subst cons_run_step) simp
  then show ?thesis
    unfolding mc_do_dequeue_def sc_do_dequeue_def Let_def entries_def [symmetric] n'_def [symmetric] r1_def [symmetric]
    by (auto simp: tail cas copy)
qed

section \<open>The wrappers of rte_ring.h\<close>

text \<open>
  \<open>to_u32\<close> is the conversion of the operations' \<open>int\<close> result to the \<open>unsigned\<close> result of the
  burst calls; a table of one object stands for \<open>&obj\<close>, and the object a single dequeue leaves in
  \<open>*obj_p\<close> is part of the result.
\<close>

definition to_u32 :: "(int \<times> 'b) option \<Rightarrow> (u32 \<times> 'b) option" where
  "to_u32 = map_option (map_prod word_of_int id)"

definition rte_ring_mp_enqueue_bulk :: "'a rte_ring \<Rightarrow> 'a list \<Rightarrow> u32 \<Rightarrow> (int \<times> 'a rte_ring) option" where
  "rte_ring_mp_enqueue_bulk r obj_table n = mp_do_enqueue r obj_table n RTE_RING_QUEUE_FIXED"

definition rte_ring_sp_enqueue_bulk :: "'a rte_ring \<Rightarrow> 'a list \<Rightarrow> u32 \<Rightarrow> (int \<times> 'a rte_ring) option" where
  "rte_ring_sp_enqueue_bulk r obj_table n = sp_do_enqueue r obj_table n RTE_RING_QUEUE_FIXED"

definition rte_ring_enqueue_bulk :: "'a rte_ring \<Rightarrow> 'a list \<Rightarrow> u32 \<Rightarrow> (int \<times> 'a rte_ring) option" where
  "rte_ring_enqueue_bulk r obj_table n =
     (if prod_sp_enqueue r then rte_ring_sp_enqueue_bulk r obj_table n
      else rte_ring_mp_enqueue_bulk r obj_table n)"

definition rte_ring_mp_enqueue :: "'a rte_ring \<Rightarrow> 'a \<Rightarrow> (int \<times> 'a rte_ring) option" where
  "rte_ring_mp_enqueue r obj = rte_ring_mp_enqueue_bulk r [obj] 1"

definition rte_ring_sp_enqueue :: "'a rte_ring \<Rightarrow> 'a \<Rightarrow> (int \<times> 'a rte_ring) option" where
  "rte_ring_sp_enqueue r obj = rte_ring_sp_enqueue_bulk r [obj] 1"

definition rte_ring_enqueue :: "'a rte_ring \<Rightarrow> 'a \<Rightarrow> (int \<times> 'a rte_ring) option" where
  "rte_ring_enqueue r obj =
     (if prod_sp_enqueue r then rte_ring_sp_enqueue r obj else rte_ring_mp_enqueue r obj)"

definition rte_ring_mc_dequeue_bulk ::
  "'a rte_ring \<Rightarrow> 'a list \<Rightarrow> u32 \<Rightarrow> (int \<times> 'a list \<times> 'a rte_ring) option" where
  "rte_ring_mc_dequeue_bulk r obj_table n = mc_do_dequeue r obj_table n RTE_RING_QUEUE_FIXED"

definition rte_ring_sc_dequeue_bulk ::
  "'a rte_ring \<Rightarrow> 'a list \<Rightarrow> u32 \<Rightarrow> (int \<times> 'a list \<times> 'a rte_ring) option" where
  "rte_ring_sc_dequeue_bulk r obj_table n = sc_do_dequeue r obj_table n RTE_RING_QUEUE_FIXED"

definition rte_ring_dequeue_bulk ::
  "'a rte_ring \<Rightarrow> 'a list \<Rightarrow> u32 \<Rightarrow> (int \<times> 'a list \<times> 'a rte_ring) option" where
  "rte_ring_dequeue_bulk r obj_table n =
     (if cons_sc_dequeue r then rte_ring_sc_dequeue_bulk r obj_table n
      else rte_ring_mc_dequeue_bulk r obj_table n)"

definition deref :: "(int \<times> 'a list \<times> 'b) option \<Rightarrow> (int \<times> 'a \<times> 'b) option" where
  "deref res = map_option (\<lambda>(ret, tbl, r). (ret, hd tbl, r)) res"

definition rte_ring_mc_dequeue :: "'a rte_ring \<Rightarrow> 'a \<Rightarrow> (int \<times> 'a \<times> 'a rte_ring) option" where
  "rte_ring_mc_dequeue r obj_p = deref (rte_ring_mc_dequeue_bulk r [obj_p] 1)"

definition rte_ring_sc_dequeue :: "'a rte_ring \<Rightarrow> 'a \<Rightarrow> (int \<times> 'a \<times> 'a rte_ring) option" where
  "rte_ring_sc_dequeue r obj_p = deref (rte_ring_sc_dequeue_bulk r [obj_p] 1)"

definition rte_ring_dequeue :: "'a rte_ring \<Rightarrow> 'a \<Rightarrow> (int \<times> 'a \<times> 'a rte_ring) option" where
  "rte_ring_dequeue r obj_p =
     (if cons_sc_dequeue r then rte_ring_sc_dequeue r obj_p else rte_ring_mc_dequeue r obj_p)"

definition rte_ring_mp_enqueue_burst :: "'a rte_ring \<Rightarrow> 'a list \<Rightarrow> u32 \<Rightarrow> (u32 \<times> 'a rte_ring) option" where
  "rte_ring_mp_enqueue_burst r obj_table n = to_u32 (mp_do_enqueue r obj_table n RTE_RING_QUEUE_VARIABLE)"

definition rte_ring_sp_enqueue_burst :: "'a rte_ring \<Rightarrow> 'a list \<Rightarrow> u32 \<Rightarrow> (u32 \<times> 'a rte_ring) option" where
  "rte_ring_sp_enqueue_burst r obj_table n = to_u32 (sp_do_enqueue r obj_table n RTE_RING_QUEUE_VARIABLE)"

definition rte_ring_enqueue_burst :: "'a rte_ring \<Rightarrow> 'a list \<Rightarrow> u32 \<Rightarrow> (u32 \<times> 'a rte_ring) option" where
  "rte_ring_enqueue_burst r obj_table n =
     (if prod_sp_enqueue r then rte_ring_sp_enqueue_burst r obj_table n
      else rte_ring_mp_enqueue_burst r obj_table n)"

definition rte_ring_mc_dequeue_burst ::
  "'a rte_ring \<Rightarrow> 'a list \<Rightarrow> u32 \<Rightarrow> (u32 \<times> 'a list \<times> 'a rte_ring) option" where
  "rte_ring_mc_dequeue_burst r obj_table n = to_u32 (mc_do_dequeue r obj_table n RTE_RING_QUEUE_VARIABLE)"

definition rte_ring_sc_dequeue_burst ::
  "'a rte_ring \<Rightarrow> 'a list \<Rightarrow> u32 \<Rightarrow> (u32 \<times> 'a list \<times> 'a rte_ring) option" where
  "rte_ring_sc_dequeue_burst r obj_table n = to_u32 (sc_do_dequeue r obj_table n RTE_RING_QUEUE_VARIABLE)"

definition rte_ring_dequeue_burst ::
  "'a rte_ring \<Rightarrow> 'a list \<Rightarrow> u32 \<Rightarrow> (u32 \<times> 'a list \<times> 'a rte_ring) option" where
  "rte_ring_dequeue_burst r obj_table n =
     (if cons_sc_dequeue r then rte_ring_sc_dequeue_burst r obj_table n
      else rte_ring_mc_dequeue_burst r obj_table n)"

lemmas ring_enqueue_defs = rte_ring_mp_enqueue_bulk_def rte_ring_sp_enqueue_bulk_def rte_ring_enqueue_bulk_def
  rte_ring_mp_enqueue_def rte_ring_sp_enqueue_def rte_ring_enqueue_def
  rte_ring_mp_enqueue_burst_def rte_ring_sp_enqueue_burst_def rte_ring_enqueue_burst_def

lemmas ring_dequeue_defs = rte_ring_mc_dequeue_bulk_def rte_ring_sc_dequeue_bulk_def rte_ring_dequeue_bulk_def
  rte_ring_mc_dequeue_def rte_ring_sc_dequeue_def rte_ring_dequeue_def
  rte_ring_mc_dequeue_burst_def rte_ring_sc_dequeue_burst_def rte_ring_dequeue_burst_def

section \<open>The interface of a bounded FIFO queue\<close>

locale fifo_queue =
  fixes ok :: "'q \<Rightarrow> bool" and contents :: "'q \<Rightarrow> 'a list" and capacity :: "'q \<Rightarrow> nat"
    and enq :: "'q \<Rightarrow> 'a \<Rightarrow> (int \<times> 'q) option" and deq :: "'q \<Rightarrow> 'a \<Rightarrow> (int \<times> 'a \<times> 'q) option"
  assumes bounded: "ok q \<Longrightarrow> length (contents q) \<le> capacity q"
    and enq_room: "ok q \<Longrightarrow> length (contents q) < capacity q \<Longrightarrow>
      \<exists>ret q'. enq q x = Some (ret, q') \<and> (ret = 0 \<or> ret = - EDQUOT) \<and> ok q' \<and>
        contents q' = contents q @ [x] \<and> capacity q' = capacity q"
    and enq_full: "ok q \<Longrightarrow> length (contents q) = capacity q \<Longrightarrow> enq q x = Some (- ENOBUFS, q)"
    and deq_some: "ok q \<Longrightarrow> contents q = x # xs \<Longrightarrow>
      \<exists>q'. deq q old = Some (0, x, q') \<and> ok q' \<and> contents q' = xs \<and> capacity q' = capacity q"
    and deq_none: "ok q \<Longrightarrow> contents q = [] \<Longrightarrow> deq q old = Some (- ENOENT, old, q)"
begin

primrec enq_all :: "'q \<Rightarrow> 'a list \<Rightarrow> 'q option" where
  "enq_all q [] = Some q"
| "enq_all q (x # xs) = Option.bind (enq q x) (\<lambda>(ret, q'). enq_all q' xs)"

primrec deq_n :: "'q \<Rightarrow> nat \<Rightarrow> 'a \<Rightarrow> ('a list \<times> 'q) option" where
  "deq_n q 0 old = Some ([], q)"
| "deq_n q (Suc k) old =
     Option.bind (deq q old) (\<lambda>(ret, x, q'). map_option (apfst ((#) x)) (deq_n q' k old))"

lemma enq_all_contents:
  "ok q \<Longrightarrow> length (contents q) + length xs \<le> capacity q \<Longrightarrow>
   \<exists>q'. enq_all q xs = Some q' \<and> ok q' \<and> contents q' = contents q @ xs \<and> capacity q' = capacity q"
proof (induction xs arbitrary: q)
  case (Cons x xs)
  then have "length (contents q) < capacity q" by simp
  from enq_room [OF Cons.prems(1) this, of x] obtain ret q1 where
    q1: "enq q x = Some (ret, q1)" "ok q1" "contents q1 = contents q @ [x]" "capacity q1 = capacity q"
    by blast
  with Cons.IH [of q1] Cons.prems show ?case by auto
qed simp

lemma deq_n_contents:
  "ok q \<Longrightarrow> k \<le> length (contents q) \<Longrightarrow>
   \<exists>q'. deq_n q k old = Some (take k (contents q), q') \<and> ok q' \<and> contents q' = drop k (contents q) \<and>
     capacity q' = capacity q"
proof (induction k arbitrary: q)
  case (Suc k)
  then obtain x xs where c: "contents q = x # xs" by (cases "contents q") auto
  from deq_some [OF Suc.prems(1) c, of old] obtain q1 where
    q1: "deq q old = Some (0, x, q1)" "ok q1" "contents q1 = xs" "capacity q1 = capacity q" by blast
  with Suc.IH [of q1] Suc.prems c show ?case by auto
qed simp

lemma enq_then_deq:
  assumes "ok q" "contents q = []" "length xs \<le> capacity q"
  shows "\<exists>q1 q2. enq_all q xs = Some q1 \<and> deq_n q1 (length xs) old = Some (xs, q2) \<and> ok q2 \<and> contents q2 = []"
  using enq_all_contents [of q xs] deq_n_contents [of _ "length xs" old] assms by fastforce

end

lemma ring_single_enqueue:
  assumes "ring_ok r"
  shows "rte_ring_sp_enqueue r x = sp_do_enqueue r [x] 1 RTE_RING_QUEUE_FIXED"
    and "rte_ring_mp_enqueue r x = sp_do_enqueue r [x] 1 RTE_RING_QUEUE_FIXED"
    and "rte_ring_enqueue r x = sp_do_enqueue r [x] 1 RTE_RING_QUEUE_FIXED"
  by (simp_all add: ring_enqueue_defs mp_do_enqueue_alone [OF assms])

lemma ring_single_dequeue:
  assumes "ring_ok r"
  shows "rte_ring_sc_dequeue r x = deref (sc_do_dequeue r [x] 1 RTE_RING_QUEUE_FIXED)"
    and "rte_ring_mc_dequeue r x = deref (sc_do_dequeue r [x] 1 RTE_RING_QUEUE_FIXED)"
    and "rte_ring_dequeue r x = deref (sc_do_dequeue r [x] 1 RTE_RING_QUEUE_FIXED)"
  by (simp_all add: ring_dequeue_defs mc_do_dequeue_alone [OF assms])

lemma ring_enqueue_room:
  assumes "ring_ok r" and "length (ring_contents r) < ring_capacity r"
  shows "\<exists>ret r'. sp_do_enqueue r [x] 1 RTE_RING_QUEUE_FIXED = Some (ret, r') \<and>
    (ret = 0 \<or> ret = - EDQUOT) \<and> ring_ok r' \<and> ring_contents r' = ring_contents r @ [x] \<and>
    ring_capacity r' = ring_capacity r"
  using sp_do_enqueue_refines [OF assms(1), of 1 "[x]" RTE_RING_QUEUE_FIXED] assms(2)
  by (auto simp: fifo_enqueue_ret_def fifo_accept_def Let_def)

lemma ring_enqueue_full:
  assumes "ring_ok r" and "length (ring_contents r) = ring_capacity r"
  shows "sp_do_enqueue r [x] 1 RTE_RING_QUEUE_FIXED = Some (- ENOBUFS, r)"
  using ring_free_entries [OF assms(1)] assms(2)
  by (simp add: sp_do_enqueue_def Let_def word_less_nat_alt)

lemma ring_dequeue_some:
  assumes "ring_ok r" and "ring_contents r = x # xs"
  shows "\<exists>r'. deref (sc_do_dequeue r [old] 1 RTE_RING_QUEUE_FIXED) = Some (0, x, r') \<and>
    ring_ok r' \<and> ring_contents r' = xs \<and> ring_capacity r' = ring_capacity r"
  using sc_do_dequeue_refines [OF assms(1), of 1 "[old]" RTE_RING_QUEUE_FIXED] assms(2)
  by (auto simp: fifo_dequeue_ret_def fifo_accept_def deref_def)

lemma ring_dequeue_none:
  assumes "ring_ok r" and "ring_contents r = []"
  shows "deref (sc_do_dequeue r [old] 1 RTE_RING_QUEUE_FIXED) = Some (- ENOENT, old, r)"
proof -
  have "unat (prod_tail r - cons_head r) = 0"
    using assms by (simp add: ring_ok_def flip: length_ring_contents)
  then show ?thesis by (simp add: sc_do_dequeue_def Let_def deref_def word_less_nat_alt)
qed

interpretation ring_queue: fifo_queue ring_ok ring_contents ring_capacity rte_ring_enqueue rte_ring_dequeue
  by unfold_locales
    (simp_all add: ring_single_enqueue ring_single_dequeue ring_ok_length ring_enqueue_room ring_enqueue_full
      ring_dequeue_some ring_dequeue_none)

interpretation ring_queue_sp_mc: fifo_queue ring_ok ring_contents ring_capacity rte_ring_sp_enqueue rte_ring_mc_dequeue
  by unfold_locales
    (simp_all add: ring_single_enqueue ring_single_dequeue ring_ok_length ring_enqueue_room ring_enqueue_full
      ring_dequeue_some ring_dequeue_none)

interpretation ring_queue_sp_sc: fifo_queue ring_ok ring_contents ring_capacity rte_ring_sp_enqueue rte_ring_sc_dequeue
  by unfold_locales
    (simp_all add: ring_single_enqueue ring_single_dequeue ring_ok_length ring_enqueue_room ring_enqueue_full
      ring_dequeue_some ring_dequeue_none)

section \<open>Named rings: rte_ring.c\<close>

text \<open>
  The rings in memory by address, the tail queue of rings (each entry with the address of its
  \<open>rte_tailq_entry\<close> and of its ring), the entries allocated and not freed, and the
  \<open>rte_errno\<close> of the caller. The allocator and the memory zones are other components:
  \<open>env_zmalloc\<close> is the entry \<open>rte_zmalloc\<close> returns, \<open>env_reserve name size socket\<close> the
  memory zone \<open>rte_memzone_reserve\<close> returns, with its address and its object slots, or the
  errno it sets, and \<open>env_free\<close> the result of \<open>rte_memzone_free\<close>.
\<close>

record 'a ring_env =
  env_zmalloc :: "nat option"
  env_reserve :: "string \<Rightarrow> int \<Rightarrow> int \<Rightarrow> int + (nat \<times> nat \<times> 'a list)"
  env_free :: "nat \<Rightarrow> int"

record 'a ring_registry =
  reg_rings :: "nat \<Rightarrow> 'a rte_ring option"
  reg_list :: "(nat \<times> nat) list"
  reg_tes :: "nat set"
  rte_errno :: int

abbreviation (input) RTE_MEMZONE_NAMESIZE :: nat where "RTE_MEMZONE_NAMESIZE \<equiv> 32"

definition rte_ring_create ::
  "'a ring_env \<Rightarrow> string \<Rightarrow> u32 \<Rightarrow> int \<Rightarrow> u32 \<Rightarrow> 'a ring_registry \<Rightarrow> nat option \<times> 'a ring_registry" where
  "rte_ring_create env name count socket_id flags st =
     (let ring_size = rte_ring_get_memsize count in
      if ring_size < 0 then (None, st\<lparr>rte_errno := ring_size\<rparr>)
      else case env_zmalloc env of
        None \<Rightarrow> (None, st\<lparr>rte_errno := ENOMEM\<rparr>)
      | Some te \<Rightarrow>
          (let mz_name = take (RTE_MEMZONE_NAMESIZE - 1) (''RG_'' @ name);
               st = st\<lparr>reg_tes := insert te (reg_tes st)\<rparr> in
           case env_reserve env mz_name ring_size socket_id of
             Inr (mz, addr, slots) \<Rightarrow>
               (let r = (rte_ring_init name count flags (take (unat count) slots))\<lparr>r_memzone := Some mz\<rparr> in
                (Some addr, st\<lparr>reg_rings := (reg_rings st)(addr \<mapsto> r), reg_list := reg_list st @ [(te, addr)]\<rparr>))
           | Inl err \<Rightarrow>
               (None, st\<lparr>reg_tes := reg_tes st - {te}, rte_errno := err\<rparr>)))"

text \<open>\<open>None\<close>: the address to free holds no ring.\<close>

definition rte_ring_free :: "'a ring_env \<Rightarrow> nat option \<Rightarrow> 'a ring_registry \<Rightarrow> 'a ring_registry option" where
  "rte_ring_free env ring st =
     (case ring of None \<Rightarrow> Some st
      | Some addr \<Rightarrow> do {
          r \<leftarrow> reg_rings st addr;
          case r_memzone r of
            None \<Rightarrow> Some st
          | Some mz \<Rightarrow>
            (if env_free env mz \<noteq> 0 then Some st
             else (let st = st\<lparr>reg_rings := (reg_rings st)(addr := None)\<rparr> in
               case find (\<lambda>te. snd te = addr) (reg_list st) of
                 None \<Rightarrow> Some st
               | Some te \<Rightarrow> Some (st\<lparr>reg_list := remove1 te (reg_list st), reg_tes := reg_tes st - {fst te}\<rparr>))) })"

text \<open>
  \<open>strncmp (name, r->name, RTE_RING_NAMESIZE) == 0\<close> on strings without a NUL. The search is
  \<open>None\<close> when an entry of the list points to memory that holds no ring.
\<close>

definition strncmp_eq :: "string \<Rightarrow> string \<Rightarrow> nat \<Rightarrow> bool" where
  "strncmp_eq s t n \<longleftrightarrow> take n s = take n t"

fun ring_search :: "(nat \<Rightarrow> 'a rte_ring option) \<Rightarrow> string \<Rightarrow> (nat \<times> nat) list \<Rightarrow> nat option option" where
  "ring_search mem name [] = Some None"
| "ring_search mem name ((te, addr) # tes) = do {
     r \<leftarrow> mem addr;
     if strncmp_eq name (r_name r) RTE_RING_NAMESIZE then Some (Some addr)
     else ring_search mem name tes }"

definition rte_ring_lookup :: "string \<Rightarrow> 'a ring_registry \<Rightarrow> (nat option \<times> 'a ring_registry) option" where
  "rte_ring_lookup name st = do {
     found \<leftarrow> ring_search (reg_rings st) name (reg_list st);
     Some (case found of None \<Rightarrow> (None, st\<lparr>rte_errno := ENOENT\<rparr>) | Some addr \<Rightarrow> (Some addr, st)) }"

text \<open>The table is consistent: every entry is live and points to its own live ring with a short name.\<close>

definition ring_registry_ok :: "'a ring_registry \<Rightarrow> bool" where
  "ring_registry_ok st \<longleftrightarrow>
     distinct (map fst (reg_list st)) \<and> distinct (map snd (reg_list st)) \<and>
     fst ` set (reg_list st) \<subseteq> reg_tes st \<and>
     (\<forall>te \<in> set (reg_list st). \<exists>r. reg_rings st (snd te) = Some r \<and> length (r_name r) < RTE_RING_NAMESIZE)"

text \<open>What the allocator and the memory zones are relied on for: new memory is not in use.\<close>

definition ring_env_ok :: "'a ring_env \<Rightarrow> 'a ring_registry \<Rightarrow> bool" where
  "ring_env_ok env st \<longleftrightarrow>
     (\<forall>te. env_zmalloc env = Some te \<longrightarrow> te \<notin> reg_tes st) \<and>
     (\<forall>name size socket mz addr slots. env_reserve env name size socket = Inr (mz, addr, slots) \<longrightarrow>
        reg_rings st addr = None \<and> size \<le> sizeof_rte_ring + 8 * int (length slots))"

lemma distinct_map_remove1: "distinct (map f xs) \<Longrightarrow> distinct (map f (remove1 x xs))"
  by (induction xs) (use set_remove1_subset in \<open>fastforce+\<close>)

lemma find_append: "find P (xs @ ys) = (case find P xs of None \<Rightarrow> find P ys | Some y \<Rightarrow> Some y)"
  by (induction xs) auto

lemma ring_search_ok:
  assumes "\<forall>te \<in> set tes. mem (snd te) \<noteq> None"
  shows "ring_search mem name tes =
    Some (map_option snd (find (\<lambda>te. strncmp_eq name (r_name (the (mem (snd te)))) RTE_RING_NAMESIZE) tes))"
  using assms by (induction mem name tes rule: ring_search.induct) auto

lemma ring_registry_okD:
  assumes "ring_registry_ok st"
  shows "\<forall>te \<in> set (reg_list st). reg_rings st (snd te) \<noteq> None"
  using assms by (auto simp: ring_registry_ok_def)

lemma rte_ring_lookup_found:
  assumes "ring_registry_ok st" and "rte_ring_lookup name st = Some (Some addr, st')"
  shows "st' = st \<and> addr \<in> snd ` set (reg_list st) \<and>
    (\<exists>r. reg_rings st addr = Some r \<and> take RTE_RING_NAMESIZE name = r_name r)"
proof -
  obtain te where te: "find (\<lambda>te. strncmp_eq name (r_name (the (reg_rings st (snd te)))) RTE_RING_NAMESIZE)
      (reg_list st) = Some te" "addr = snd te" "st' = st"
    using assms(2) by (auto simp: rte_ring_lookup_def ring_search_ok [OF ring_registry_okD [OF assms(1)]]
        split: option.splits)
  then obtain i where i: "i < length (reg_list st)" "te = reg_list st ! i"
    "strncmp_eq name (r_name (the (reg_rings st (snd te)))) RTE_RING_NAMESIZE"
    by (auto simp: find_Some_iff)
  then have mem: "te \<in> set (reg_list st)" by simp
  with assms(1) obtain r where r: "reg_rings st (snd te) = Some r" "length (r_name r) < RTE_RING_NAMESIZE"
    by (auto simp: ring_registry_ok_def)
  with i te mem show ?thesis by (auto simp: strncmp_eq_def)
qed

lemma rte_ring_create_cases:
  assumes "ring_registry_ok st" and "ring_env_ok env st" and "count \<noteq> 0"
  shows "case rte_ring_create env name count socket flags st of
      (None, st') \<Rightarrow> reg_rings st' = reg_rings st \<and> reg_list st' = reg_list st \<and> reg_tes st' = reg_tes st
    | (Some addr, st') \<Rightarrow> ring_registry_ok st' \<and> addr \<in> snd ` set (reg_list st') \<and>
        (\<exists>r. reg_rings st' = (reg_rings st)(addr \<mapsto> r) \<and> ring_ok r \<and> ring_contents r = [] \<and>
          ring_capacity r = unat count - 1 \<and> unat (prod_watermark r) = unat count \<and> r_memzone r \<noteq> None)"
proof -
  define size where "size = rte_ring_get_memsize count"
  have fresh: "reg_tes st - {te} = reg_tes st" if "env_zmalloc env = Some te" for te
    using assms(2) that by (auto simp: ring_env_ok_def)
  show ?thesis
  proof (cases "size < 0 \<or> env_zmalloc env = None \<or>
      (\<exists>err. env_reserve env (take (RTE_MEMZONE_NAMESIZE - 1) (''RG_'' @ name)) size socket = Inl err)")
    case True
    then show ?thesis using fresh
      by (auto simp: rte_ring_create_def Let_def size_def split: option.split)
  next
    case False
    then obtain te mz addr slots where te: "env_zmalloc env = Some te" and size: "\<not> size < 0"
      and mz: "env_reserve env (take (RTE_MEMZONE_NAMESIZE - 1) (''RG_'' @ name)) size socket = Inr (mz, addr, slots)"
      by (cases "env_reserve env (take (RTE_MEMZONE_NAMESIZE - 1) (''RG_'' @ name)) size socket") auto
    define r0 where "r0 = rte_ring_init name count flags (take (unat count) slots)"
    define r where "r = r0\<lparr>r_memzone := Some mz\<rparr>"
    have new: "te \<notin> reg_tes st" "reg_rings st addr = None" "size \<le> sizeof_rte_ring + 8 * int (length slots)"
      using assms(2) te mz by (auto simp: ring_env_ok_def)
    have count: "POWEROF2 count" "count \<le> RTE_RING_SZ_MASK"
      using size by (auto simp: size_def rte_ring_get_memsize_def split: if_splits)
    have "sizeof_rte_ring + 8 * c \<le> (sizeof_rte_ring + c * 8 + (RTE_CACHE_LINE_SIZE - 1)) div RTE_CACHE_LINE_SIZE * RTE_CACHE_LINE_SIZE" for c :: int
      by presburger
    then have "sizeof_rte_ring + 8 * int (unat count) \<le> size"
      using count(1) leD [OF count(2)] by (simp add: size_def rte_ring_get_memsize_def)
    with new(3) have len: "unat count \<le> length slots" by linarith
    have r0: "ring_ok r0" "ring_contents r0 = []"
      using rte_ring_init_ok [OF count(1) assms(3) count(2), of "take (unat count) slots" name flags] len
      by (simp_all add: r0_def)
    have pos: "unat (count - 1) = unat count - 1" using assms(3) by (simp add: unat_minus_one)
    have r: "ring_ok r" "ring_contents r = []" "ring_capacity r = unat count - 1" "length (r_name r) < RTE_RING_NAMESIZE"
      using r0 pos by (simp_all add: r_def ring_ok_def ring_geom_def ring_contents_def ring_capacity_def)
        (simp_all add: r0_def rte_ring_init_def pos)
    define st' where "st' = st\<lparr>reg_tes := insert te (reg_tes st), reg_rings := (reg_rings st)(addr \<mapsto> r),
        reg_list := reg_list st @ [(te, addr)]\<rparr>"
    have create: "rte_ring_create env name count socket flags st = (Some addr, st')"
      using size mz te by (simp add: rte_ring_create_def Let_def st'_def r_def r0_def flip: size_def)
    have sep: "te \<notin> fst ` set (reg_list st)" "addr \<notin> snd ` set (reg_list st)"
      using assms(1) new by (fastforce simp: ring_registry_ok_def)+
    have "ring_registry_ok st'"
      using assms(1) sep r(4) by (fastforce simp: ring_registry_ok_def st'_def)
    moreover have "prod_watermark r = count" "r_memzone r \<noteq> None" by (simp_all add: r_def r0_def rte_ring_init_def)
    ultimately show ?thesis using r by (simp add: create st'_def) (auto intro!: exI [of _ r])
  qed
qed

text \<open>
  C37. Creating a ring for a count other than 0 keeps the table of rings consistent, whether it
  succeeds or not: a ring it returns is listed, initialised and empty with room for \<open>count - 1\<close>
  objects; and a failed creation leaves the rings, the list and the allocated entries as they were.
  The code accepts the count 0 as a power of two, and for it this does not hold. Memory and memory
  zones are what the environment gives (\<open>ring_env_ok\<close>).
\<close>

theorem rte_ring_create_ok:
  assumes "ring_registry_ok st" and "ring_env_ok env st" and "count \<noteq> 0"
  shows "case rte_ring_create env name count socket flags st of
      (None, st') \<Rightarrow> reg_rings st' = reg_rings st \<and> reg_list st' = reg_list st \<and> reg_tes st' = reg_tes st
    | (Some addr, st') \<Rightarrow> ring_registry_ok st' \<and> addr \<in> snd ` set (reg_list st') \<and>
        (\<exists>r. reg_rings st' = (reg_rings st)(addr \<mapsto> r) \<and> ring_ok r \<and> ring_contents r = [] \<and>
          ring_capacity r = unat count - 1)"
  using rte_ring_create_cases [OF assms, of name socket flags] by (auto split: prod.splits option.splits)

definition demo_env :: "nat ring_env" where
  "demo_env = \<lparr> env_zmalloc = Some 7, env_reserve = (\<lambda>name size socket.
     if size \<le> 192 then Inr (3, 100, replicate 8 0) else Inl ENOMEM), env_free = (\<lambda>mz. 0) \<rparr>"

definition empty_registry :: "'a ring_registry" where
  "empty_registry = \<lparr> reg_rings = (\<lambda>_. None), reg_list = [], reg_tes = {}, rte_errno = 0 \<rparr>"

lemma demo_registry_ok: "ring_registry_ok empty_registry" "ring_env_ok demo_env empty_registry"
  by (auto simp: ring_registry_ok_def ring_env_ok_def demo_env_def empty_registry_def split: if_splits)

lemma rte_ring_create_ok_witness:
  "case rte_ring_create demo_env ''tx'' 8 0 1 empty_registry of
     (Some addr, st') \<Rightarrow> ring_registry_ok st' \<and> addr = 100
   | (None, st') \<Rightarrow> False"
  using rte_ring_create_ok [OF demo_registry_ok, of 8 "''tx''" 0 1]
  by (simp add: rte_ring_create_def rte_ring_get_memsize_def POWEROF2_def demo_env_def Let_def)

text \<open>
  Freeing a ring that is in the table takes it and its entry out and keeps the table
  consistent, so that no later lookup reaches the freed memory.
\<close>

theorem rte_ring_free_ok:
  assumes "ring_registry_ok st" and "reg_rings st addr = Some r" and "r_memzone r = Some mz"
    and "env_free env mz = 0"
  shows "\<exists>st'. rte_ring_free env (Some addr) st = Some st' \<and> ring_registry_ok st' \<and>
    reg_rings st' addr = None \<and> set (reg_list st') = {te \<in> set (reg_list st). snd te \<noteq> addr} \<and>
    (\<forall>name. \<exists>res. rte_ring_lookup name st' = Some res \<and> fst res \<noteq> Some addr)"
proof -
  let ?find = "find (\<lambda>te. snd te = addr) (reg_list st)"
  define st' where "st' = st\<lparr>reg_rings := (reg_rings st)(addr := None),
     reg_list := (case ?find of None \<Rightarrow> reg_list st | Some te \<Rightarrow> remove1 te (reg_list st)),
     reg_tes := (case ?find of None \<Rightarrow> reg_tes st | Some te \<Rightarrow> reg_tes st - {fst te})\<rparr>"
  have free: "rte_ring_free env (Some addr) st = Some st'"
    using assms(2-4) by (simp add: rte_ring_free_def st'_def Let_def split: option.split)
  have dist: "distinct (map fst (reg_list st))" "distinct (map snd (reg_list st))"
    using assms(1) by (auto simp: ring_registry_ok_def)
  have set': "set (reg_list st') = {te \<in> set (reg_list st). snd te \<noteq> addr}"
  proof (cases ?find)
    case None
    then have "snd te \<noteq> addr" if "te \<in> set (reg_list st)" for te
      using None that by (cases te) (auto simp: find_None_iff)
    then show ?thesis using None by (auto simp: st'_def)
  next
    case (Some te)
    then have te: "te \<in> set (reg_list st)" "snd te = addr" by (auto simp: find_Some_iff)
    have eq: "te' = te" if "te' \<in> set (reg_list st)" "snd te' = addr" for te'
      using dist(2) te that unfolding distinct_map by (metis inj_onD)
    have "distinct (reg_list st)" using dist(1) by (simp add: distinct_map)
    then have "set (reg_list st') = set (reg_list st) - {te}" using Some by (simp add: st'_def)
    then show ?thesis using te eq by blast
  qed
  have keep: "distinct (map fst (reg_list st'))" "distinct (map snd (reg_list st'))"
    using dist by (auto simp: st'_def intro: distinct_map_remove1 split: option.split)
  have tes: "fst ` set (reg_list st') \<subseteq> reg_tes st'"
  proof (cases ?find)
    case None
    then show ?thesis using assms(1) by (auto simp: st'_def ring_registry_ok_def)
  next
    case (Some te)
    then have te: "te \<in> set (reg_list st)" by (auto simp: find_Some_iff)
    have eq: "x = te" if "x \<in> set (reg_list st)" "fst x = fst te" for x
      using dist(1) te that unfolding distinct_map by (metis inj_onD)
    have "distinct (reg_list st)" using dist(1) by (simp add: distinct_map)
    then have "set (reg_list st') = set (reg_list st) - {te}" using Some by (simp add: st'_def)
    then have "x \<in> set (reg_list st) \<and> fst x \<noteq> fst te" if "x \<in> set (reg_list st')" for x
      using that eq [of x] by auto
    moreover have "reg_tes st' = reg_tes st - {fst te}" using Some by (simp add: st'_def)
    ultimately show ?thesis using assms(1) by (fastforce simp: ring_registry_ok_def)
  qed
  have ok: "ring_registry_ok st'"
    using assms(1) keep tes set' by (auto simp: ring_registry_ok_def st'_def)
  have "\<exists>res. rte_ring_lookup name st' = Some res \<and> fst res \<noteq> Some addr" for name
  proof -
    obtain res where res: "rte_ring_lookup name st' = Some res"
      by (auto simp: rte_ring_lookup_def ring_search_ok [OF ring_registry_okD [OF ok]] split: option.splits)
    moreover have "fst res \<noteq> Some addr"
      using rte_ring_lookup_found [OF ok, of name addr "snd res"] res set' by (cases res) auto
    ultimately show ?thesis by blast
  qed
  then show ?thesis using free ok set' by (auto simp: st'_def)
qed

lemma demo_env_free: "env_free demo_env mz = 0"
  by (simp add: demo_env_def)

lemma demo_ring_create:
  "rte_ring_create demo_env ''tx'' 8 0 1 empty_registry =
    (Some 100, empty_registry\<lparr>reg_tes := {7},
       reg_rings := [100 \<mapsto> (rte_ring_init ''tx'' 8 1 (replicate 8 0))\<lparr>r_memzone := Some 3\<rparr>], reg_list := [(7, 100)]\<rparr>)"
  by (simp add: rte_ring_create_def rte_ring_get_memsize_def POWEROF2_def demo_env_def Let_def empty_registry_def)

lemma rte_ring_free_ok_witness:
  "\<exists>st'. rte_ring_free demo_env (Some 100) (snd (rte_ring_create demo_env ''tx'' 8 0 1 empty_registry)) = Some st' \<and>
    reg_rings st' 100 = None"
proof -
  let ?st = "snd (rte_ring_create demo_env ''tx'' 8 0 1 empty_registry)"
  have "ring_registry_ok ?st"
    unfolding demo_ring_create by (simp add: ring_registry_ok_def empty_registry_def rte_ring_init_def)
  from rte_ring_free_ok [OF this, of 100 "(rte_ring_init ''tx'' 8 1 (replicate 8 0))\<lparr>r_memzone := Some 3\<rparr>" 3 demo_env]
  show ?thesis unfolding demo_ring_create by (auto simp: demo_env_free)
qed

text \<open>
  A ring created under a name shorter than \<open>RTE_RING_NAMESIZE\<close> that no listed ring has is
  the ring a lookup of that name returns.
\<close>

theorem rte_ring_lookup_created:
  assumes "ring_registry_ok st" and "ring_env_ok env st" and "count \<noteq> 0"
    and "length name < RTE_RING_NAMESIZE"
    and "\<forall>te \<in> set (reg_list st). \<forall>r. reg_rings st (snd te) = Some r \<longrightarrow> r_name r \<noteq> name"
    and "rte_ring_create env name count socket flags st = (Some addr, st')"
  shows "rte_ring_lookup name st' = Some (Some addr, st')"
proof -
  obtain te mz slots where te: "env_zmalloc env = Some te"
    and mz: "env_reserve env (take (RTE_MEMZONE_NAMESIZE - 1) (''RG_'' @ name)) (rte_ring_get_memsize count) socket
      = Inr (mz, addr, slots)"
    and st': "st' = st\<lparr>reg_tes := insert te (reg_tes st),
        reg_rings := (reg_rings st)(addr \<mapsto> (rte_ring_init name count flags (take (unat count) slots))\<lparr>r_memzone := Some mz\<rparr>),
        reg_list := reg_list st @ [(te, addr)]\<rparr>"
    using assms(6) by (auto simp: rte_ring_create_def Let_def split: if_splits option.splits sum.splits)
  have new: "reg_rings st addr = None" using assms(2) mz by (auto simp: ring_env_ok_def)
  have name: "take RTE_RING_NAMESIZE name = name" "take (RTE_RING_NAMESIZE - 1) name = name" using assms(4) by simp_all
  have old: "reg_rings st' (snd te') = reg_rings st (snd te') \<and>
      \<not> strncmp_eq name (r_name (the (reg_rings st' (snd te')))) RTE_RING_NAMESIZE"
    if "te' \<in> set (reg_list st)" for te'
  proof -
    obtain r where r: "reg_rings st (snd te') = Some r" "length (r_name r) < RTE_RING_NAMESIZE"
      using assms(1) \<open>te' \<in> set (reg_list st)\<close> by (auto simp: ring_registry_ok_def)
    then have "snd te' \<noteq> addr" using new by auto
    then show ?thesis using r assms(4,5) that by (auto simp: st' strncmp_eq_def)
  qed
  then have nomatch: "find (\<lambda>te'. strncmp_eq name (r_name (the (reg_rings st' (snd te')))) RTE_RING_NAMESIZE) (reg_list st) = None"
    by (meson find_None_iff)
  have mem: "\<forall>te' \<in> set (reg_list st'). reg_rings st' (snd te') \<noteq> None"
    using old ring_registry_okD [OF assms(1)] by (auto simp: st')
  have "reg_list st' = reg_list st @ [(te, addr)]" by (simp add: st')
  moreover have "strncmp_eq name (r_name (the (reg_rings st' addr))) RTE_RING_NAMESIZE"
    using name by (simp add: st' strncmp_eq_def rte_ring_init_def)
  ultimately have "find (\<lambda>te'. strncmp_eq name (r_name (the (reg_rings st' (snd te')))) RTE_RING_NAMESIZE) (reg_list st') = Some (te, addr)"
    using nomatch by (simp add: find_append)
  then show ?thesis by (simp add: rte_ring_lookup_def ring_search_ok [OF mem])
qed

lemma rte_ring_lookup_created_witness:
  "rte_ring_lookup ''tx'' (snd (rte_ring_create demo_env ''tx'' 8 0 1 empty_registry)) =
    Some (Some 100, snd (rte_ring_create demo_env ''tx'' 8 0 1 empty_registry))"
  by (rule rte_ring_lookup_created [OF demo_registry_ok, of 8 "''tx''" 0 1])
    (simp_all add: demo_ring_create, simp add: empty_registry_def)

text \<open>
  A name of \<open>RTE_RING_NAMESIZE\<close> or more characters is never found again: the stored name is
  cut to 31 characters and the comparison looks at 32.
\<close>

theorem rte_ring_lookup_long_name:
  assumes "ring_registry_ok st" and "RTE_RING_NAMESIZE \<le> length name"
  shows "rte_ring_lookup name st = Some (None, st\<lparr>rte_errno := ENOENT\<rparr>)"
proof -
  have "\<not> strncmp_eq name (r_name (the (reg_rings st (snd te)))) RTE_RING_NAMESIZE" if "te \<in> set (reg_list st)" for te
  proof
    assume "strncmp_eq name (r_name (the (reg_rings st (snd te)))) RTE_RING_NAMESIZE"
    then have "length (take RTE_RING_NAMESIZE name) = length (take RTE_RING_NAMESIZE (r_name (the (reg_rings st (snd te)))))"
      by (simp add: strncmp_eq_def)
    then show False using assms that by (auto simp: ring_registry_ok_def)
  qed
  then have "find (\<lambda>te. strncmp_eq name (r_name (the (reg_rings st (snd te)))) RTE_RING_NAMESIZE) (reg_list st) = None"
    by (auto simp: find_None_iff)
  then show ?thesis by (simp add: rte_ring_lookup_def ring_search_ok [OF ring_registry_okD [OF assms(1)]])
qed

lemma rte_ring_lookup_long_name_witness:
  "rte_ring_lookup (replicate 40 CHR ''x'') empty_registry =
    Some (None, (empty_registry :: nat ring_registry)\<lparr>rte_errno := ENOENT\<rparr>)"
  by (rule rte_ring_lookup_long_name) (simp_all add: demo_registry_ok)

text \<open>
  \<open>rte_ring_get_memsize\<close> accepts a count of 0, and every enqueue of an object into the ring
  \<open>rte_ring_init\<close> then builds writes outside the ring.
\<close>

theorem rte_ring_count_zero_faults:
  fixes obj :: 'a
  shows "0 < rte_ring_get_memsize 0 \<and>
   sp_do_enqueue (rte_ring_init name 0 flags []) (obj # objs) 1 behavior = None"
proof -
  have le: "\<not> (- 1 :: u32) < 1" by (simp add: word_less_nat_alt unsigned_minus_1_eq_mask mask_eq_exp_minus_1)
  have "ENQUEUE_PTRS ((rte_ring_init name 0 flags [])\<lparr>prod_head := 1\<rparr>) 0 1 (obj # objs) = None"
    by (simp add: ENQUEUE_PTRS_def copy_ptrs_def rte_ring_init_def Let_def copy_to_end.simps [of _ 0] copy_rest.simps [of _ "Suc 0" 0])
  moreover have "prod_mask (rte_ring_init name 0 flags [] :: 'a rte_ring) = - 1"
    "cons_tail (rte_ring_init name 0 flags [] :: 'a rte_ring) = 0"
    "prod_head (rte_ring_init name 0 flags [] :: 'a rte_ring) = 0"
    by (simp_all add: rte_ring_init_def)
  ultimately have "sp_do_enqueue (rte_ring_init name 0 flags []) (obj # objs) 1 behavior = None"
    using le by (simp add: sp_do_enqueue_def Let_def)
  moreover have "0 < rte_ring_get_memsize 0" by (simp add: rte_ring_get_memsize_def POWEROF2_def)
  ultimately show ?thesis by blast
qed

text \<open>
  A creation refused for its count leaves a negative \<open>rte_errno\<close> (the documented value is
  the positive \<open>EINVAL\<close>).
\<close>

theorem rte_ring_create_bad_count:
  assumes "\<not> POWEROF2 count \<or> RTE_RING_SZ_MASK < count"
  shows "rte_ring_create env name count socket flags st = (None, st\<lparr>rte_errno := - EINVAL\<rparr>)"
  using assms by (auto simp: rte_ring_create_def rte_ring_get_memsize_def)

lemma rte_ring_create_bad_count_witness:
  "rte_errno (snd (rte_ring_create demo_env ''tx'' 6 0 0 empty_registry)) = - 22"
  using rte_ring_create_bad_count [of 6 demo_env "''tx''" 0 0 empty_registry] by (simp add: POWEROF2_def)

text \<open>
  C1. Enqueue, bulk or burst, on a ring of either kind whose operations do not overlap: the call
  stays inside the ring and the table, appends to the queue exactly the objects the bounded FIFO
  accepts (all of them or none for a bulk, as many as fit for a burst), and returns the FIFO's
  result: the count or 0, \<open>-ENOBUFS\<close> when the ring has no room, \<open>-EDQUOT\<close> or the count with the
  top bit set from the watermark on.
\<close>

theorem rte_ring_enqueue_fifo:
  assumes "ring_ok r" and "unat n \<le> length objs"
  defines "room \<equiv> ring_capacity r - length (ring_contents r)"
    and "ret \<equiv> fifo_enqueue_ret (ring_capacity r) (unat (prod_watermark r)) (length (ring_contents r)) (unat n)"
  shows "(\<exists>r'. rte_ring_enqueue_bulk r objs n = Some (ret RTE_RING_QUEUE_FIXED, r') \<and> ring_ok r' \<and>
      ring_contents r' = ring_contents r @ (if unat n \<le> room then take (unat n) objs else [])) \<and>
    (\<exists>r'. rte_ring_enqueue_burst r objs n = Some (word_of_int (ret RTE_RING_QUEUE_VARIABLE), r') \<and> ring_ok r' \<and>
      ring_contents r' = ring_contents r @ take (min (unat n) room) objs)"
proof
  have bulk: "rte_ring_enqueue_bulk r objs n = sp_do_enqueue r objs n RTE_RING_QUEUE_FIXED"
    by (simp add: ring_enqueue_defs mp_do_enqueue_alone [OF assms(1,2)])
  show "\<exists>r'. rte_ring_enqueue_bulk r objs n = Some (ret RTE_RING_QUEUE_FIXED, r') \<and> ring_ok r' \<and>
      ring_contents r' = ring_contents r @ (if unat n \<le> room then take (unat n) objs else [])"
    unfolding bulk ret_def room_def
    using sp_do_enqueue_refines [OF assms(1,2), of RTE_RING_QUEUE_FIXED] by (auto simp: fifo_accept_def)
  have burst: "rte_ring_enqueue_burst r objs n = to_u32 (sp_do_enqueue r objs n RTE_RING_QUEUE_VARIABLE)"
    by (simp add: ring_enqueue_defs mp_do_enqueue_alone [OF assms(1,2)])
  show "\<exists>r'. rte_ring_enqueue_burst r objs n = Some (word_of_int (ret RTE_RING_QUEUE_VARIABLE), r') \<and> ring_ok r' \<and>
      ring_contents r' = ring_contents r @ take (min (unat n) room) objs"
    unfolding burst ret_def room_def
    using sp_do_enqueue_refines [OF assms(1,2), of RTE_RING_QUEUE_VARIABLE]
    by (auto simp: fifo_accept_def to_u32_def min_def)
qed

lemma rte_ring_enqueue_fifo_witness:
  "\<exists>r'. rte_ring_enqueue_bulk (rte_ring_init ''q'' 4 0 [0, 0, 0, 0 :: nat]) [5, 6, 7] 3 = Some (0, r') \<and>
     ring_contents r' = [5, 6, 7]"
proof -
  have ok: "ring_ok (rte_ring_init ''q'' 4 0 [0, 0, 0, 0 :: nat])" "ring_contents (rte_ring_init ''q'' 4 0 [0, 0, 0, 0 :: nat]) = []"
    by (rule rte_ring_init_ok; simp add: POWEROF2_def)+
  have cap: "ring_capacity (rte_ring_init ''q'' 4 0 [0, 0, 0, 0 :: nat]) = 3"
    "prod_watermark (rte_ring_init ''q'' 4 0 [0, 0, 0, 0 :: nat]) = 4"
    by (simp_all add: ring_capacity_def rte_ring_init_def)
  show ?thesis
    using rte_ring_enqueue_fifo [OF ok(1), of 3 "[5, 6, 7]"]
    by (auto simp: cap ok(2) fifo_enqueue_ret_def fifo_accept_def)
qed

text \<open>
  C2. Dequeue, bulk or burst, on a ring whose operations do not overlap: the call takes the
  oldest objects (all \<open>n\<close> or none for a bulk, as many as there are for a burst), leaves them in
  order at the front of the caller's table, touches no other entry of it, and returns 0,
  \<open>-ENOENT\<close> or the count.
\<close>

theorem rte_ring_dequeue_fifo:
  assumes "ring_ok r" and "unat n \<le> length tbl"
  defines "used \<equiv> length (ring_contents r)"
  shows "(\<exists>r'. rte_ring_dequeue_bulk r tbl n =
      (if unat n \<le> used then Some (0, take (unat n) (ring_contents r) @ drop (unat n) tbl, r') else Some (- ENOENT, tbl, r')) \<and>
      ring_ok r' \<and> ring_contents r' = (if unat n \<le> used then drop (unat n) (ring_contents r) else ring_contents r)) \<and>
    (\<exists>r'. rte_ring_dequeue_burst r tbl n = Some (of_nat (min (unat n) used),
        take (unat n) (ring_contents r) @ drop (min (unat n) used) tbl, r') \<and>
      ring_ok r' \<and> ring_contents r' = drop (unat n) (ring_contents r))"
proof
  have bulk: "rte_ring_dequeue_bulk r tbl n = sc_do_dequeue r tbl n RTE_RING_QUEUE_FIXED"
    by (simp add: ring_dequeue_defs mc_do_dequeue_alone [OF assms(1,2)])
  show "\<exists>r'. rte_ring_dequeue_bulk r tbl n =
      (if unat n \<le> used then Some (0, take (unat n) (ring_contents r) @ drop (unat n) tbl, r') else Some (- ENOENT, tbl, r')) \<and>
      ring_ok r' \<and> ring_contents r' = (if unat n \<le> used then drop (unat n) (ring_contents r) else ring_contents r)"
    unfolding bulk used_def
    using sc_do_dequeue_refines [OF assms(1,2), of RTE_RING_QUEUE_FIXED]
    by (auto simp: fifo_accept_def fifo_dequeue_ret_def)
  have burst: "rte_ring_dequeue_burst r tbl n = to_u32 (sc_do_dequeue r tbl n RTE_RING_QUEUE_VARIABLE)"
    by (simp add: ring_dequeue_defs mc_do_dequeue_alone [OF assms(1,2)])
  have take: "take (min (unat n) used) (ring_contents r) = take (unat n) (ring_contents r)"
    "drop (min (unat n) used) (ring_contents r) = drop (unat n) (ring_contents r)"
    by (simp_all add: used_def min_def)
  have m: "fifo_accept used (unat n) RTE_RING_QUEUE_VARIABLE = min (unat n) used"
    by (simp add: fifo_accept_def min_def)
  show "\<exists>r'. rte_ring_dequeue_burst r tbl n = Some (of_nat (min (unat n) used),
        take (unat n) (ring_contents r) @ drop (min (unat n) used) tbl, r') \<and>
      ring_ok r' \<and> ring_contents r' = drop (unat n) (ring_contents r)"
    using sc_do_dequeue_refines [OF assms(1,2), of RTE_RING_QUEUE_VARIABLE, folded used_def]
    unfolding burst by (auto simp: m take to_u32_def fifo_dequeue_ret_def)
qed

lemma rte_ring_dequeue_fifo_witness:
  "\<exists>r'. rte_ring_dequeue_bulk (rte_ring_init ''q'' 4 0 [0, 0, 0, 0 :: nat]) [1, 2] 2 = Some (- ENOENT, [1, 2], r')"
proof -
  have ok: "ring_ok (rte_ring_init ''q'' 4 0 [0, 0, 0, 0 :: nat])" "ring_contents (rte_ring_init ''q'' 4 0 [0, 0, 0, 0 :: nat]) = []"
    by (rule rte_ring_init_ok; simp add: POWEROF2_def)+
  show ?thesis using rte_ring_dequeue_fifo [OF ok(1), of 2 "[1, 2]"] by (auto simp: ok(2))
qed

end
