(* ===== verification/Malloc.thy ===== *)
theory Malloc
  imports Prelude
begin

text \<open>
  The heap allocator of lib/librte_eal/common: malloc_elem.c (element headers, splitting and
  joining), malloc_heap.c (free lists, allocation) and rte_malloc.c (the public calls). Headers
  and users' bytes lie in one memory: 64 bytes from an address hold an element header, or each
  of them a byte that was stored, and a write of either kind destroys what it overlaps of the
  other. Reading a header where there is none, or where a store has gone over it, is \<open>None\<close>. The
  build configuration has no malloc cookies, so the header is 64 bytes and there is no trailer.
\<close>

section \<open>Constants and macros\<close>

abbreviation (input) RTE_CACHE_LINE :: u64 where "RTE_CACHE_LINE \<equiv> 64"
abbreviation (input) MALLOC_ELEM_HEADER_LEN :: u64 where "MALLOC_ELEM_HEADER_LEN \<equiv> 64"
abbreviation (input) MALLOC_ELEM_TRAILER_LEN :: u64 where "MALLOC_ELEM_TRAILER_LEN \<equiv> 0"
abbreviation (input) MALLOC_ELEM_OVERHEAD :: u64 where "MALLOC_ELEM_OVERHEAD \<equiv> 64"
abbreviation (input) MIN_DATA_SIZE :: u64 where "MIN_DATA_SIZE \<equiv> 64"
abbreviation (input) RTE_HEAP_NUM_FREELISTS :: nat where "RTE_HEAP_NUM_FREELISTS \<equiv> 13"
abbreviation (input) RTE_MAX_NUMA_NODES :: nat where "RTE_MAX_NUMA_NODES \<equiv> 8"
abbreviation (input) RTE_MAX_MEMSEG :: nat where "RTE_MAX_MEMSEG \<equiv> 256"
abbreviation (input) SOCKET_ID_ANY :: int where "SOCKET_ID_ANY \<equiv> - 1"
abbreviation (input) RTE_MEMZONE_SIZE_HINT_ONLY :: u32 where "RTE_MEMZONE_SIZE_HINT_ONLY \<equiv> 4"
abbreviation (input) NULL :: u64 where "NULL \<equiv> 0"

definition RTE_CACHE_LINE_ROUNDUP :: "u64 \<Rightarrow> u64" where
  "RTE_CACHE_LINE_ROUNDUP sz = RTE_CACHE_LINE * ((sz + RTE_CACHE_LINE - 1) div RTE_CACHE_LINE)"

definition RTE_ALIGN_FLOOR :: "u64 \<Rightarrow> u64 \<Rightarrow> u64" where
  "RTE_ALIGN_FLOOR val align_minus_1 = val AND NOT align_minus_1"

text \<open>
  The second argument is \<open>align - 1\<close> converted to the type of the first: for an \<open>unsigned\<close>
  alignment the subtraction is a 32-bit one.
\<close>

section \<open>State\<close>

datatype elem_state = ELEM_FREE | ELEM_BUSY | ELEM_PAD

record rte_memseg =
  phys_addr :: u64
  ms_addr :: u64
  ms_len :: u64
  ms_hugepage_sz :: u64
  ms_socket_id :: nat

record malloc_elem =
  e_heap :: nat
  e_prev :: u64
  e_ms :: rte_memseg
  e_state :: elem_state
  e_pad :: u32
  e_size :: u64

record malloc_heap =
  free_head :: "u64 list list"
  alloc_count :: u32
  total_size :: u64

text \<open>
  \<open>elems\<close> is the header that the 64 bytes from an address hold, \<open>bytes\<close> the byte at an address
  that is no part of a header and has been stored (\<open>None\<close>: part of a header, or never stored).
\<close>

record malloc_mem =
  elems :: "u64 \<Rightarrow> malloc_elem option"
  heaps :: "malloc_heap list"
  bytes :: "u64 \<Rightarrow> u8 option"

text \<open>Do the header at \<open>a\<close> and the \<open>n\<close> bytes from \<open>p\<close> share a byte?\<close>

definition overlaps :: "u64 \<Rightarrow> u64 \<Rightarrow> u64 \<Rightarrow> bool" where
  "overlaps a p n \<longleftrightarrow> n \<noteq> 0 \<and> (a - p < n \<or> p - a < MALLOC_ELEM_HEADER_LEN)"

definition put_elem :: "u64 \<Rightarrow> malloc_elem \<Rightarrow> malloc_mem \<Rightarrow> malloc_mem" where
  "put_elem a e st = st\<lparr>
     elems := (\<lambda>x. if x = a then Some e else if overlaps x a MALLOC_ELEM_HEADER_LEN then None else elems st x),
     bytes := (\<lambda>b. if b - a < MALLOC_ELEM_HEADER_LEN then None else bytes st b)\<rparr>"

definition store_bytes :: "u64 \<Rightarrow> u64 \<Rightarrow> (u64 \<Rightarrow> u8 option) \<Rightarrow> malloc_mem \<Rightarrow> malloc_mem" where
  "store_bytes p n f st = st\<lparr>
     elems := (\<lambda>x. if overlaps x p n then None else elems st x),
     bytes := (\<lambda>b. if b - p < n then f b else bytes st b)\<rparr>"

definition upd_elem :: "u64 \<Rightarrow> (malloc_elem \<Rightarrow> malloc_elem) \<Rightarrow> malloc_mem \<Rightarrow> malloc_mem option" where
  "upd_elem a f st = do { e \<leftarrow> elems st a; Some (put_elem a (f e) st) }"

definition upd_heap :: "nat \<Rightarrow> (malloc_heap \<Rightarrow> malloc_heap) \<Rightarrow> malloc_mem \<Rightarrow> malloc_mem option" where
  "upd_heap h f st = do { hp \<leftarrow> read_at (heaps st) h; hps \<leftarrow> write_at (heaps st) h (f hp); Some (st\<lparr>heaps := hps\<rparr>) }"

section \<open>malloc_elem.c\<close>

definition malloc_elem_init :: "u64 \<Rightarrow> nat \<Rightarrow> rte_memseg \<Rightarrow> u64 \<Rightarrow> malloc_mem \<Rightarrow> malloc_mem" where
  "malloc_elem_init elem heap ms sz st =
     put_elem elem \<lparr>e_heap = heap, e_prev = NULL, e_ms = ms, e_state = ELEM_FREE, e_pad = 0, e_size = sz\<rparr> st"

definition malloc_elem_mkend :: "u64 \<Rightarrow> u64 \<Rightarrow> malloc_mem \<Rightarrow> malloc_mem option" where
  "malloc_elem_mkend elem prev st = do {
     p \<leftarrow> elems st prev;
     upd_elem elem (\<lambda>e. e\<lparr>e_prev := prev, e_state := ELEM_BUSY\<rparr>) (malloc_elem_init elem (e_heap p) (e_ms p) 0 st) }"

definition elem_start_pt :: "u64 \<Rightarrow> malloc_elem \<Rightarrow> u64 \<Rightarrow> u32 \<Rightarrow> u64 \<Rightarrow> u64" where
  "elem_start_pt elem e sz align bound =
     (let bmask = NOT (bound - 1);
          end_pt = elem + e_size e - MALLOC_ELEM_TRAILER_LEN;
          new_data_start = RTE_ALIGN_FLOOR (end_pt - sz) (ucast (align - 1)) in
      if new_data_start AND bmask \<noteq> (end_pt - 1) AND bmask
      then (let end_pt = RTE_ALIGN_FLOOR end_pt (bound - 1);
                new_data_start = RTE_ALIGN_FLOOR (end_pt - sz) (ucast (align - 1)) in
            if (end_pt - 1) AND bmask \<noteq> new_data_start AND bmask then NULL
            else (let new_elem_start = new_data_start - MALLOC_ELEM_HEADER_LEN in
                  if new_elem_start < elem then NULL else new_elem_start))
      else (let new_elem_start = new_data_start - MALLOC_ELEM_HEADER_LEN in
            if new_elem_start < elem then NULL else new_elem_start))"

definition malloc_elem_can_hold :: "u64 \<Rightarrow> u64 \<Rightarrow> u32 \<Rightarrow> u64 \<Rightarrow> malloc_mem \<Rightarrow> bool option" where
  "malloc_elem_can_hold elem sz align bound st = do {
     e \<leftarrow> elems st elem;
     Some (elem_start_pt elem e sz align bound \<noteq> NULL) }"

definition split_elem :: "u64 \<Rightarrow> u64 \<Rightarrow> malloc_mem \<Rightarrow> malloc_mem option" where
  "split_elem elem split_pt st = do {
     e \<leftarrow> elems st elem;
     let next_elem = elem + e_size e;
     let old_elem_size = split_pt - elem;
     let new_elem_size = e_size e - old_elem_size;
     let st = malloc_elem_init split_pt (e_heap e) (e_ms e) new_elem_size st;
     st \<leftarrow> upd_elem split_pt (\<lambda>e. e\<lparr>e_prev := elem\<rparr>) st;
     st \<leftarrow> upd_elem next_elem (\<lambda>e. e\<lparr>e_prev := split_pt\<rparr>) st;
     upd_elem elem (\<lambda>e. e\<lparr>e_size := old_elem_size\<rparr>) st }"

text \<open>\<open>64 - __builtin_clzl (sz - 1)\<close> is the number of significant bits of \<open>sz - 1\<close>.\<close>

fun bit_length :: "nat \<Rightarrow> nat" where
  "bit_length n = (if n = 0 then 0 else Suc (bit_length (n div 2)))"

declare bit_length.simps [simp del]

definition malloc_elem_free_list_index :: "u64 \<Rightarrow> nat" where
  "malloc_elem_free_list_index sz =
     (if sz \<le> 256 then 0
      else (let log2 = bit_length (unat (sz - 1));
                index = (log2 - 8 + 2 - 1) div 2 in
            if index \<le> RTE_HEAP_NUM_FREELISTS - 1 then index else RTE_HEAP_NUM_FREELISTS - 1))"

text \<open>
  The free lists are the \<open>LIST\<close>s of sys/queue.h, here the sequence of their elements.
  Removing an element that is on no list of its heap corrupts memory and is \<open>None\<close>.
\<close>

definition malloc_elem_free_list_insert :: "u64 \<Rightarrow> malloc_mem \<Rightarrow> malloc_mem option" where
  "malloc_elem_free_list_insert elem st = do {
     e \<leftarrow> elems st elem;
     let idx = malloc_elem_free_list_index (e_size e - MALLOC_ELEM_HEADER_LEN);
     st \<leftarrow> upd_elem elem (\<lambda>e. e\<lparr>e_state := ELEM_FREE\<rparr>) st;
     upd_heap (e_heap e) (\<lambda>h. h\<lparr>free_head := (free_head h)[idx := elem # free_head h ! idx]\<rparr>) st }"

definition elem_free_list_remove :: "u64 \<Rightarrow> malloc_mem \<Rightarrow> malloc_mem option" where
  "elem_free_list_remove elem st = do {
     e \<leftarrow> elems st elem;
     hp \<leftarrow> read_at (heaps st) (e_heap e);
     if elem \<in> set (concat (free_head hp))
     then upd_heap (e_heap e) (\<lambda>h. h\<lparr>free_head := map (remove1 elem) (free_head h)\<rparr>) st
     else None }"

definition malloc_elem_alloc :: "u64 \<Rightarrow> u64 \<Rightarrow> u32 \<Rightarrow> u64 \<Rightarrow> malloc_mem \<Rightarrow> (u64 \<times> malloc_mem) option" where
  "malloc_elem_alloc elem sz align bound st = do {
     e \<leftarrow> elems st elem;
     let new_elem = elem_start_pt elem e sz align bound;
     let old_elem_size = new_elem - elem;
     let trailer_size = e_size e - old_elem_size - sz - MALLOC_ELEM_OVERHEAD;
     st \<leftarrow> elem_free_list_remove elem st;
     st \<leftarrow> (if MALLOC_ELEM_OVERHEAD + MIN_DATA_SIZE < trailer_size then do {
              let new_free_elem = new_elem + (sz + MALLOC_ELEM_OVERHEAD);
              st \<leftarrow> split_elem elem new_free_elem st;
              malloc_elem_free_list_insert new_free_elem st }
            else Some st);
     if old_elem_size < MALLOC_ELEM_OVERHEAD + MIN_DATA_SIZE then do {
       st \<leftarrow> upd_elem elem (\<lambda>e. e\<lparr>e_state := ELEM_BUSY, e_pad := ucast old_elem_size\<rparr>) st;
       e \<leftarrow> elems st elem;
       if 0 < e_pad e then do {
         st \<leftarrow> Some (put_elem new_elem ((case elems st new_elem of Some p \<Rightarrow> p | None \<Rightarrow> e)
              \<lparr>e_pad := e_pad e, e_state := ELEM_PAD, e_size := e_size e - ucast (e_pad e)\<rparr>) st);
         Some (new_elem, st) }
       else Some (new_elem, st) }
     else do {
       st \<leftarrow> split_elem elem new_elem st;
       st \<leftarrow> upd_elem new_elem (\<lambda>e. e\<lparr>e_state := ELEM_BUSY\<rparr>) st;
       st \<leftarrow> malloc_elem_free_list_insert elem st;
       Some (new_elem, st) } }"

text \<open>
  The dummy header in the padding sets three fields and leaves the others as they are in
  memory; where memory holds no header yet, they are taken from \<open>elem\<close> and never read.
\<close>

definition join_elem :: "u64 \<Rightarrow> u64 \<Rightarrow> malloc_mem \<Rightarrow> malloc_mem option" where
  "join_elem elem1 elem2 st = do {
     e2 \<leftarrow> elems st elem2;
     let next = elem2 + e_size e2;
     st \<leftarrow> upd_elem elem1 (\<lambda>e. e\<lparr>e_size := e_size e + e_size e2\<rparr>) st;
     upd_elem next (\<lambda>e. e\<lparr>e_prev := elem1\<rparr>) st }"

definition malloc_elem_free :: "u64 \<Rightarrow> malloc_mem \<Rightarrow> (int \<times> malloc_mem) option" where
  "malloc_elem_free elem st =
     (if elem = NULL then Some (- 1, st) else do {
        e \<leftarrow> elems st elem;
        if e_state e \<noteq> ELEM_BUSY then Some (- 1, st) else do {
          let next = elem + e_size e;
          n \<leftarrow> elems st next;
          st \<leftarrow> (if e_state n = ELEM_FREE then do {
                   st \<leftarrow> elem_free_list_remove next st;
                   join_elem elem next st }
                 else Some st);
          e \<leftarrow> elems st elem;
          joined \<leftarrow> (if e_prev e \<noteq> NULL then map_option (\<lambda>p. e_state p = ELEM_FREE) (elems st (e_prev e)) else Some False);
          st \<leftarrow> (if joined then do {
                   st \<leftarrow> elem_free_list_remove (e_prev e) st;
                   st \<leftarrow> join_elem (e_prev e) elem st;
                   malloc_elem_free_list_insert (e_prev e) st }
                 else do {
                   st \<leftarrow> malloc_elem_free_list_insert elem st;
                   upd_elem elem (\<lambda>e. e\<lparr>e_pad := 0\<rparr>) st });
          st \<leftarrow> upd_heap (e_heap e) (\<lambda>h. h\<lparr>alloc_count := alloc_count h - 1\<rparr>) st;
          Some (0, st) } })"

definition malloc_elem_resize :: "u64 \<Rightarrow> u64 \<Rightarrow> malloc_mem \<Rightarrow> (int \<times> malloc_mem) option" where
  "malloc_elem_resize elem sz st = do {
     let new_size = sz + MALLOC_ELEM_OVERHEAD;
     e \<leftarrow> elems st elem;
     let current_size = e_size e - ucast (e_pad e);
     if new_size \<le> current_size then Some (0, st) else do {
       let next = elem + e_size e;
       n \<leftarrow> elems st next;
       if e_state n \<noteq> ELEM_FREE then Some (- 1, st)
       else if current_size + e_size n < new_size then Some (- 1, st)
       else do {
         st \<leftarrow> elem_free_list_remove next st;
         st \<leftarrow> join_elem elem next st;
         e \<leftarrow> elems st elem;
         st \<leftarrow> (if MIN_DATA_SIZE + MALLOC_ELEM_OVERHEAD \<le> e_size e - new_size then do {
                  let split_pt = elem + new_size;
                  let split_pt = RTE_ALIGN_FLOOR (split_pt + (RTE_CACHE_LINE - 1)) (RTE_CACHE_LINE - 1);
                  st \<leftarrow> split_elem elem split_pt st;
                  malloc_elem_free_list_insert split_pt st }
                else Some st);
         Some (0, st) } } }"

definition malloc_elem_from_data :: "u64 \<Rightarrow> malloc_mem \<Rightarrow> u64 option" where
  "malloc_elem_from_data data st =
     (if data = NULL then Some NULL
      else (let elem = data - MALLOC_ELEM_HEADER_LEN in
            if elem = NULL then Some NULL
            else do { e \<leftarrow> elems st elem;
                      Some (if e_state e \<noteq> ELEM_PAD then elem else elem - ucast (e_pad e)) }))"

section \<open>malloc_heap.c\<close>

definition check_hugepage_sz :: "u32 \<Rightarrow> u64 \<Rightarrow> u32" where
  "check_hugepage_sz flags hugepage_sz =
     (if flags AND NOT RTE_MEMZONE_SIZE_HINT_ONLY = 0 then 1
      else (let check_flag =
              (if hugepage_sz = 2 ^ 18 then 0x10000      \<comment> \<open>256 KB\<close>
               else if hugepage_sz = 2 ^ 21 then 0x1     \<comment> \<open>2 MB\<close>
               else if hugepage_sz = 2 ^ 24 then 0x100   \<comment> \<open>16 MB\<close>
               else if hugepage_sz = 2 ^ 28 then 0x20000 \<comment> \<open>256 MB\<close>
               else if hugepage_sz = 2 ^ 29 then 0x40000 \<comment> \<open>512 MB\<close>
               else if hugepage_sz = 2 ^ 30 then 0x2     \<comment> \<open>1 GB\<close>
               else if hugepage_sz = 2 ^ 32 then 0x80000 \<comment> \<open>4 GB\<close>
               else if hugepage_sz = 2 ^ 34 then 0x200   \<comment> \<open>16 GB\<close>
               else 0) in check_flag AND flags))"

definition malloc_heap_add_memseg :: "nat \<Rightarrow> rte_memseg \<Rightarrow> malloc_mem \<Rightarrow> malloc_mem option" where
  "malloc_heap_add_memseg heap ms st = do {
     let start_elem = ms_addr ms;
     let end_elem = RTE_ALIGN_FLOOR (ms_addr ms + (ms_len ms - MALLOC_ELEM_OVERHEAD)) (RTE_CACHE_LINE - 1);
     let elem_size = end_elem - start_elem;
     let st = malloc_elem_init start_elem heap ms elem_size st;
     st \<leftarrow> malloc_elem_mkend end_elem start_elem st;
     st \<leftarrow> malloc_elem_free_list_insert start_elem st;
     upd_heap heap (\<lambda>h. h\<lparr>total_size := total_size h + elem_size\<rparr>) st }"

text \<open>The walk over one free list: an element to return at once, or the alternative so far.\<close>

fun search_free_list ::
  "malloc_mem \<Rightarrow> u64 \<Rightarrow> u32 \<Rightarrow> u64 \<Rightarrow> u64 \<Rightarrow> u64 \<Rightarrow> u64 list \<Rightarrow> (u64 + u64) option" where
  "search_free_list st sz flags align bound alt_elem [] = Some (Inr alt_elem)"
| "search_free_list st sz flags align bound alt_elem (elem # es) = do {
     fits \<leftarrow> malloc_elem_can_hold elem sz (ucast align) bound st;
     if fits then do {
       e \<leftarrow> elems st elem;
       if check_hugepage_sz flags (ms_hugepage_sz (e_ms e)) \<noteq> 0 then Some (Inl elem)
       else search_free_list st sz flags align bound (if alt_elem = NULL then elem else alt_elem) es }
     else search_free_list st sz flags align bound alt_elem es }"

fun search_free_lists ::
  "malloc_mem \<Rightarrow> u64 \<Rightarrow> u32 \<Rightarrow> u64 \<Rightarrow> u64 \<Rightarrow> u64 \<Rightarrow> u64 list list \<Rightarrow> (u64 + u64) option" where
  "search_free_lists st sz flags align bound alt_elem [] = Some (Inr alt_elem)"
| "search_free_lists st sz flags align bound alt_elem (l # ls) = do {
     res \<leftarrow> search_free_list st sz flags align bound alt_elem l;
     case res of Inl elem \<Rightarrow> Some (Inl elem)
     | Inr alt_elem \<Rightarrow> search_free_lists st sz flags align bound alt_elem ls }"

definition find_suitable_element :: "malloc_heap \<Rightarrow> u64 \<Rightarrow> u32 \<Rightarrow> u64 \<Rightarrow> u64 \<Rightarrow> malloc_mem \<Rightarrow> u64 option" where
  "find_suitable_element heap sz flags align bound st = do {
     res \<leftarrow> search_free_lists st sz flags align bound NULL
              (drop (malloc_elem_free_list_index sz) (free_head heap));
     Some (case res of Inl elem \<Rightarrow> elem
           | Inr alt_elem \<Rightarrow>
               if alt_elem \<noteq> NULL \<and> flags AND RTE_MEMZONE_SIZE_HINT_ONLY \<noteq> 0 then alt_elem else NULL) }"

definition malloc_heap_alloc ::
  "nat \<Rightarrow> u64 \<Rightarrow> u32 \<Rightarrow> u64 \<Rightarrow> u64 \<Rightarrow> malloc_mem \<Rightarrow> (u64 \<times> malloc_mem) option" where
  "malloc_heap_alloc heap sz flags align bound st = do {
     let sz = RTE_CACHE_LINE_ROUNDUP sz;
     let align = RTE_CACHE_LINE_ROUNDUP align;
     hp \<leftarrow> read_at (heaps st) heap;
     elem \<leftarrow> find_suitable_element hp sz flags align bound st;
     if elem \<noteq> NULL then do {
       (elem, st) \<leftarrow> malloc_elem_alloc elem sz (ucast align) bound st;
       st \<leftarrow> upd_heap heap (\<lambda>h. h\<lparr>alloc_count := alloc_count h + 1\<rparr>) st;
       Some (if elem = NULL then NULL else elem + MALLOC_ELEM_HEADER_LEN, st) }
     else Some (NULL, st) }"

record rte_malloc_socket_stats =
  heap_totalsz_bytes :: u64
  heap_freesz_bytes :: u64
  greatest_free_size :: u64
  free_count :: u32
  stat_alloc_count :: u32
  heap_allocsz_bytes :: u64

fun stats_free_list ::
  "malloc_mem \<Rightarrow> u64 list \<Rightarrow> rte_malloc_socket_stats \<Rightarrow> rte_malloc_socket_stats option" where
  "stats_free_list st [] stats = Some stats"
| "stats_free_list st (elem # es) stats = do {
     e \<leftarrow> elems st elem;
     stats_free_list st es (stats\<lparr>free_count := free_count stats + 1,
       heap_freesz_bytes := heap_freesz_bytes stats + e_size e,
       greatest_free_size := (if greatest_free_size stats < e_size e then e_size e else greatest_free_size stats)\<rparr>) }"

definition malloc_heap_get_stats :: "malloc_heap \<Rightarrow> malloc_mem \<Rightarrow> rte_malloc_socket_stats option" where
  "malloc_heap_get_stats heap st = do {
     stats \<leftarrow> stats_free_list st (concat (free_head heap))
       \<lparr>heap_totalsz_bytes = 0, heap_freesz_bytes = 0, greatest_free_size = 0, free_count = 0,
        stat_alloc_count = 0, heap_allocsz_bytes = 0\<rparr>;
     Some (stats\<lparr>heap_totalsz_bytes := total_size heap,
                heap_allocsz_bytes := total_size heap - heap_freesz_bytes stats,
                stat_alloc_count := alloc_count heap\<rparr>) }"

fun heap_init_segs :: "nat \<Rightarrow> rte_memseg list \<Rightarrow> malloc_mem \<Rightarrow> malloc_mem option" where
  "heap_init_segs ms_cnt [] st = Some st"
| "heap_init_segs ms_cnt (ms # mss) st =
     (if ms_cnt < RTE_MAX_MEMSEG \<and> 0 < ms_len ms
      then do { st \<leftarrow> malloc_heap_add_memseg (ms_socket_id ms) ms st; heap_init_segs (ms_cnt + 1) mss st }
      else Some st)"

text \<open>The memory configuration is \<open>None\<close> when there is none.\<close>

definition rte_eal_malloc_heap_init :: "rte_memseg list option \<Rightarrow> malloc_mem \<Rightarrow> (int \<times> malloc_mem) option" where
  "rte_eal_malloc_heap_init mcfg st =
     (case mcfg of None \<Rightarrow> Some (- 1, st)
      | Some memsegs \<Rightarrow> map_option (Pair 0) (heap_init_segs 0 memsegs st))"

section \<open>rte_malloc.c\<close>

text \<open>
  What the calls read of the environment: whether the process uses huge pages and the socket of
  the calling core (\<open>SOCKET_ID_ANY\<close> when it has none). \<open>rte_panic\<close> ends the process: the
  result of such a call is \<open>Some None\<close>, a memory fault is \<open>None\<close>.
\<close>

record malloc_env =
  has_hugepages :: bool
  lcore_socket_id :: int

definition malloc_get_numa_socket :: "malloc_env \<Rightarrow> int" where
  "malloc_get_numa_socket env = (if lcore_socket_id env = SOCKET_ID_ANY then 0 else lcore_socket_id env)"

definition rte_is_power_of_2 :: "u32 \<Rightarrow> bool" where
  "rte_is_power_of_2 n \<longleftrightarrow> n \<noteq> 0 \<and> n AND (n - 1) = 0"

definition rte_free :: "u64 \<Rightarrow> malloc_mem \<Rightarrow> malloc_mem option option" where
  "rte_free addr st =
     (if addr = NULL then Some (Some st) else do {
        elem \<leftarrow> malloc_elem_from_data addr st;
        (ret, st) \<leftarrow> malloc_elem_free elem st;
        Some (if ret < 0 then None else Some st) })"

fun malloc_other_heaps :: "nat list \<Rightarrow> int \<Rightarrow> u64 \<Rightarrow> u32 \<Rightarrow> malloc_mem \<Rightarrow> (u64 \<times> malloc_mem) option" where
  "malloc_other_heaps [] socket sz align st = Some (NULL, st)"
| "malloc_other_heaps (i # is) socket sz align st =
     (if int i = socket then malloc_other_heaps is socket sz align st
      else do {
        (ret, st) \<leftarrow> malloc_heap_alloc i sz 0 (if align = 0 then 1 else ucast align) 0 st;
        if ret \<noteq> NULL then Some (ret, st) else malloc_other_heaps is socket sz align st })"

text \<open>A negative socket other than \<open>SOCKET_ID_ANY\<close> indexes the heaps out of their range.\<close>

definition rte_malloc_socket ::
  "malloc_env \<Rightarrow> u64 \<Rightarrow> u32 \<Rightarrow> int \<Rightarrow> malloc_mem \<Rightarrow> (u64 \<times> malloc_mem) option" where
  "rte_malloc_socket env sz align socket_arg st =
     (if sz = 0 \<or> align \<noteq> 0 \<and> \<not> rte_is_power_of_2 align then Some (NULL, st)
      else (let socket_arg = (if \<not> has_hugepages env then SOCKET_ID_ANY else socket_arg);
                socket = (if socket_arg = SOCKET_ID_ANY then malloc_get_numa_socket env else socket_arg) in
            if int RTE_MAX_NUMA_NODES \<le> socket then Some (NULL, st)
            else if socket < 0 then None
            else do {
              (ret, st) \<leftarrow> malloc_heap_alloc (nat socket) sz 0 (if align = 0 then 1 else ucast align) 0 st;
              if ret \<noteq> NULL \<or> socket_arg \<noteq> SOCKET_ID_ANY then Some (ret, st)
              else malloc_other_heaps [0..<RTE_MAX_NUMA_NODES] socket sz align st }))"

definition rte_malloc :: "malloc_env \<Rightarrow> u64 \<Rightarrow> u32 \<Rightarrow> malloc_mem \<Rightarrow> (u64 \<times> malloc_mem) option" where
  "rte_malloc env sz align st = rte_malloc_socket env sz align SOCKET_ID_ANY st"

definition memset0 :: "u64 \<Rightarrow> u64 \<Rightarrow> malloc_mem \<Rightarrow> malloc_mem" where
  "memset0 p n st = store_bytes p n (\<lambda>_. Some 0) st"

definition memcpy :: "u64 \<Rightarrow> u64 \<Rightarrow> u64 \<Rightarrow> malloc_mem \<Rightarrow> malloc_mem" where
  "memcpy dst src n st = store_bytes dst n (\<lambda>a. bytes st (src + (a - dst))) st"

definition rte_zmalloc_socket ::
  "malloc_env \<Rightarrow> u64 \<Rightarrow> u32 \<Rightarrow> int \<Rightarrow> malloc_mem \<Rightarrow> (u64 \<times> malloc_mem) option" where
  "rte_zmalloc_socket env sz align socket st = do {
     (ptr, st) \<leftarrow> rte_malloc_socket env sz align socket st;
     Some (ptr, if ptr \<noteq> NULL then memset0 ptr sz st else st) }"

definition rte_zmalloc :: "malloc_env \<Rightarrow> u64 \<Rightarrow> u32 \<Rightarrow> malloc_mem \<Rightarrow> (u64 \<times> malloc_mem) option" where
  "rte_zmalloc env sz align st = rte_zmalloc_socket env sz align SOCKET_ID_ANY st"

definition rte_calloc_socket ::
  "malloc_env \<Rightarrow> u64 \<Rightarrow> u64 \<Rightarrow> u32 \<Rightarrow> int \<Rightarrow> malloc_mem \<Rightarrow> (u64 \<times> malloc_mem) option" where
  "rte_calloc_socket env num sz align socket st = rte_zmalloc_socket env (num * sz) align socket st"

definition rte_calloc :: "malloc_env \<Rightarrow> u64 \<Rightarrow> u64 \<Rightarrow> u32 \<Rightarrow> malloc_mem \<Rightarrow> (u64 \<times> malloc_mem) option" where
  "rte_calloc env num sz align st = rte_zmalloc env (num * sz) align st"

text \<open>
  In \<open>rte_realloc\<close> the alignment is an \<open>unsigned\<close>, the rounded size a \<open>size_t\<close>, and the old
  size is kept in an \<open>unsigned\<close>.
\<close>

definition rte_realloc :: "malloc_env \<Rightarrow> u64 \<Rightarrow> u64 \<Rightarrow> u32 \<Rightarrow> malloc_mem \<Rightarrow> (u64 \<times> malloc_mem) option option" where
  "rte_realloc env ptr sz align st =
     (if ptr = NULL then map_option Some (rte_malloc env sz align st)
      else do {
        elem \<leftarrow> malloc_elem_from_data ptr st;
        if elem = NULL then Some None
        else do {
          let sz = RTE_CACHE_LINE_ROUNDUP sz;
          let align = (64 * ((align + 64 - 1) div 64) :: u32);
          (ret, st) \<leftarrow> (if RTE_ALIGN_FLOOR (ptr + ucast (align - 1)) (ucast (align - 1)) = ptr
                       then malloc_elem_resize elem sz st else Some (- 1, st));
          if ret = 0 then Some (Some (ptr, st))
          else do {
            (new_ptr, st) \<leftarrow> rte_malloc env sz align st;
            if new_ptr = NULL then Some (Some (NULL, st))
            else do {
              e \<leftarrow> elems st elem;
              let old_size = (ucast (e_size e - MALLOC_ELEM_OVERHEAD) :: u32);
              let st = memcpy new_ptr ptr (if ucast old_size < sz then ucast old_size else sz) st;
              freed \<leftarrow> rte_free ptr st;
              Some (map_option (Pair new_ptr) freed) } } } })"

definition rte_malloc_validate :: "u64 \<Rightarrow> malloc_mem \<Rightarrow> (int \<times> u64 option) option" where
  "rte_malloc_validate ptr st = do {
     elem \<leftarrow> malloc_elem_from_data ptr st;
     if elem = NULL then Some (- 1, None)
     else do {
       e \<leftarrow> elems st elem;
       Some (0, Some (e_size e - ucast (e_pad e) - MALLOC_ELEM_OVERHEAD)) } }"

definition rte_malloc_get_socket_stats ::
  "int \<Rightarrow> malloc_mem \<Rightarrow> (int \<times> rte_malloc_socket_stats option) option" where
  "rte_malloc_get_socket_stats socket st =
     (if int RTE_MAX_NUMA_NODES \<le> socket \<or> socket < 0 then Some (- 1, None)
      else do {
        hp \<leftarrow> read_at (heaps st) (nat socket);
        stats \<leftarrow> malloc_heap_get_stats hp st;
        Some (0, Some stats) })"

definition rte_malloc_set_limit :: "string \<Rightarrow> u64 \<Rightarrow> int" where
  "rte_malloc_set_limit type mx = 0"

definition rte_malloc_virt2phy :: "u64 \<Rightarrow> malloc_mem \<Rightarrow> u64 option" where
  "rte_malloc_virt2phy addr st = do {
     elem \<leftarrow> malloc_elem_from_data addr st;
     if elem = NULL then Some 0
     else do {
       e \<leftarrow> elems st elem;
       Some (phys_addr (e_ms e) + (addr - ms_addr (e_ms e))) } }"

end
