(* ===== verification/Malloc_Proof.thy ===== *)
theory Malloc_Proof
  imports Malloc
begin

text \<open>
  Correctness of the allocator: the elements tile the memory segments, the free lists hold
  exactly the free elements by size, blocks in use never overlap and are not touched by other
  calls, and free neighbours are always merged.
\<close>

section \<open>The element invariant\<close>

definition esz :: "malloc_mem \<Rightarrow> u64 \<Rightarrow> u64" where "esz st a = e_size (the (elems st a))"
definition epv :: "malloc_mem \<Rightarrow> u64 \<Rightarrow> u64" where "epv st a = e_prev (the (elems st a))"
definition est :: "malloc_mem \<Rightarrow> u64 \<Rightarrow> elem_state" where "est st a = e_state (the (elems st a))"
definition epd :: "malloc_mem \<Rightarrow> u64 \<Rightarrow> u32" where "epd st a = e_pad (the (elems st a))"
definition ehp :: "malloc_mem \<Rightarrow> u64 \<Rightarrow> nat" where "ehp st a = e_heap (the (elems st a))"

lemmas elem_views = esz_def epv_def est_def epd_def ehp_def

text \<open>
  Every header in memory lies on a cache line, and none of its bytes is a stored one. Under this
  invariant a header that is overwritten in place, or written at a free cache line, destroys no
  other header; one that is written at a new place destroys the 64 bytes there.
\<close>

definition hdrs_ok :: "(u64 \<Rightarrow> malloc_elem option) \<Rightarrow> (u64 \<Rightarrow> u8 option) \<Rightarrow> bool" where
  "hdrs_ok f m \<longleftrightarrow> (\<forall>a. f a \<noteq> None \<longrightarrow> 64 dvd unat a \<and> (\<forall>b. b - a < 64 \<longrightarrow> m b = None))"

definition hdr_bytes :: "u64 \<Rightarrow> (u64 \<Rightarrow> u8 option) \<Rightarrow> u64 \<Rightarrow> u8 option" where
  "hdr_bytes a m = (\<lambda>b. if b - a < 64 then None else m b)"

lemma lines_apart:
  assumes "64 dvd unat a" "64 dvd unat (b :: u64)" "a \<noteq> b"
  shows "\<not> a - b < 64"
proof
  assume lt: "a - b < 64"
  have "unat a = (unat b + unat (a - b)) mod 2 ^ 64"
    using unat_word_ariths(1) [of b "a - b"] by simp
  then have "64 dvd (unat b + unat (a - b)) mod 2 ^ 64" using assms(1) by simp
  moreover have "(64 :: nat) dvd 2 ^ 64" by simp
  ultimately have "64 dvd unat b + unat (a - b)" by (simp add: dvd_mod_iff del: power_numeral)
  then have "64 dvd unat (a - b)" using assms(2) by (simp add: dvd_add_right_iff)
  moreover have "unat (a - b) < 64" using lt by (simp add: word_less_nat_alt)
  ultimately have "unat (a - b) = 0" by auto
  then have "a - b = 0" by (simp add: unat_eq_0)
  then show False using assms(3) by simp
qed

lemma put_elem_heaps [simp]: "heaps (put_elem a e st) = heaps st" "heaps (store_bytes p n f st) = heaps st"
  by (simp_all add: put_elem_def store_bytes_def)

lemma put_elem_line:
  assumes "hdrs_ok (elems st) (bytes st)" and "64 dvd unat a"
  shows "put_elem a e st = st\<lparr>elems := (elems st)(a \<mapsto> e), bytes := hdr_bytes a (bytes st)\<rparr>"
proof -
  have "elems st x = None" if "x \<noteq> a" "overlaps x a 64" for x
    using assms that lines_apart [of x a] lines_apart [of a x] by (auto simp: hdrs_ok_def overlaps_def)
  then have "(\<lambda>x. if x = a then Some e else if overlaps x a 64 then None else elems st x) = (elems st)(a \<mapsto> e)"
    by (auto simp: fun_eq_iff)
  then show ?thesis by (simp add: put_elem_def hdr_bytes_def)
qed

lemma put_elem_at:
  assumes "hdrs_ok (elems st) (bytes st)" and "elems st a \<noteq> None"
  shows "put_elem a e st = st\<lparr>elems := (elems st)(a \<mapsto> e)\<rparr>"
proof -
  have "64 dvd unat a" "hdr_bytes a (bytes st) = bytes st" using assms by (auto simp: hdrs_ok_def hdr_bytes_def fun_eq_iff)
  then show ?thesis using put_elem_line [OF assms(1), of a e] by simp
qed

text \<open>Two memories that differ only in the 64 bytes from each address of \<open>H\<close>.\<close>

definition only_hdrs :: "u64 set \<Rightarrow> (u64 \<Rightarrow> u8 option) \<Rightarrow> (u64 \<Rightarrow> u8 option) \<Rightarrow> bool" where
  "only_hdrs H m m' \<longleftrightarrow> (\<forall>x. m' x = m x \<or> (\<exists>a \<in> H. x - a < 64))"

lemma only_hdrs_refl [simp]: "only_hdrs H m m"
  by (simp add: only_hdrs_def)

lemma only_hdrs_mono: "only_hdrs H m m' \<Longrightarrow> H \<subseteq> H' \<Longrightarrow> only_hdrs H' m m'"
  by (fastforce simp: only_hdrs_def)

lemma only_hdrs_put: "only_hdrs H m m' \<Longrightarrow> only_hdrs (insert a H) m (hdr_bytes a m')"
  by (auto simp: only_hdrs_def hdr_bytes_def)

lemma hdrs_ok_line: "hdrs_ok f m \<Longrightarrow> 64 dvd unat a \<Longrightarrow> hdrs_ok (f(a \<mapsto> e)) (hdr_bytes a m)"
  by (auto simp: hdrs_ok_def hdr_bytes_def)

lemma hdrs_ok_at: "hdrs_ok f m \<Longrightarrow> f a \<noteq> None \<Longrightarrow> hdrs_ok (f(a \<mapsto> e)) m"
  by (auto simp: hdrs_ok_def)

lemma upd_elem_at:
  "hdrs_ok (elems st) (bytes st) \<Longrightarrow> elems st a = Some e \<Longrightarrow> upd_elem a f st = Some (st\<lparr>elems := (elems st)(a \<mapsto> f e)\<rparr>)"
  by (simp add: upd_elem_def put_elem_at)

text \<open>
  \<open>N\<close> is the set of elements of all segments, end markers (size 0) included: cache-line
  aligned headers, linked to the next element by their size and back by \<open>prev\<close>, no two of them
  overlapping; a padded element has its dummy header 64 bytes after its own.
\<close>

definition elem_ok :: "malloc_mem \<Rightarrow> u64 \<Rightarrow> bool" where
  "elem_ok st a \<longleftrightarrow> elems st a \<noteq> None \<and> a \<noteq> 0 \<and> 64 dvd unat a \<and> 64 dvd unat (esz st a) \<and>
     unat a + unat (esz st a) + 64 \<le> 2 ^ 64 \<and> est st a \<noteq> ELEM_PAD \<and> ehp st a < RTE_MAX_NUMA_NODES \<and>
     (esz st a = 0 \<longrightarrow> est st a = ELEM_BUSY)"

definition next_ok :: "malloc_mem \<Rightarrow> u64 set \<Rightarrow> u64 \<Rightarrow> bool" where
  "next_ok st N a \<longleftrightarrow> (esz st a \<noteq> 0 \<longrightarrow> a + esz st a \<in> N \<and> epv st (a + esz st a) = a)"

definition prev_ok :: "malloc_mem \<Rightarrow> u64 set \<Rightarrow> u64 \<Rightarrow> bool" where
  "prev_ok st N a \<longleftrightarrow> (epv st a \<noteq> 0 \<longrightarrow>
     epv st a \<in> N \<and> esz st (epv st a) \<noteq> 0 \<and> epv st a + esz st (epv st a) = a)"

definition pad_ok :: "malloc_mem \<Rightarrow> u64 \<Rightarrow> bool" where
  "pad_ok st a \<longleftrightarrow> (est st a = ELEM_BUSY \<and> epd st a \<noteq> 0 \<longrightarrow> epd st a = 64 \<and> 128 \<le> unat (esz st a) \<and>
     elems st (a + 64) \<noteq> None \<and> est st (a + 64) = ELEM_PAD \<and> epd st (a + 64) = 64)"

definition apart :: "malloc_mem \<Rightarrow> u64 \<Rightarrow> u64 \<Rightarrow> bool" where
  "apart st a b \<longleftrightarrow> (unat a < unat b \<longrightarrow> unat a + 64 \<le> unat b \<and> unat a + unat (esz st a) \<le> unat b)"

definition blocks_ok :: "malloc_mem \<Rightarrow> u64 set \<Rightarrow> bool" where
  "blocks_ok st N \<longleftrightarrow> hdrs_ok (elems st) (bytes st) \<and> (\<forall>a \<in> N. elem_ok st a \<and> next_ok st N a \<and> prev_ok st N a \<and> pad_ok st a \<and> (\<forall>b \<in> N. apart st a b))"

text \<open>
  The free lists hold the free elements, each on the list of its size; \<open>X\<close> are the elements
  taken off their list in the middle of an operation.
\<close>

abbreviation list_index :: "malloc_mem \<Rightarrow> u64 \<Rightarrow> nat" where
  "list_index st a \<equiv> malloc_elem_free_list_index (esz st a - MALLOC_ELEM_HEADER_LEN)"

definition on_list :: "malloc_mem \<Rightarrow> u64 set \<Rightarrow> u64 set \<Rightarrow> nat \<Rightarrow> nat \<Rightarrow> u64 set" where
  "on_list st N X h i = {a \<in> N - X. est st a = ELEM_FREE \<and> ehp st a = h \<and> list_index st a = i}"

definition free_ok :: "malloc_mem \<Rightarrow> u64 set \<Rightarrow> u64 set \<Rightarrow> bool" where
  "free_ok st N X \<longleftrightarrow> length (heaps st) = RTE_MAX_NUMA_NODES \<and>
     (\<forall>a \<in> X. a \<in> N \<and> est st a = ELEM_FREE) \<and>
     (\<forall>h < RTE_MAX_NUMA_NODES. length (free_head (heaps st ! h)) = RTE_HEAP_NUM_FREELISTS \<and>
       (\<forall>i < RTE_HEAP_NUM_FREELISTS. distinct (free_head (heaps st ! h) ! i) \<and>
          set (free_head (heaps st ! h) ! i) = on_list st N X h i))"

definition malloc_inv :: "malloc_mem \<Rightarrow> u64 set \<Rightarrow> u64 set \<Rightarrow> bool" where
  "malloc_inv st N X \<longleftrightarrow> blocks_ok st N \<and> free_ok st N X"

lemma unat_add_fit: "unat a + unat (b :: u64) < 2 ^ 64 \<Longrightarrow> unat (a + b) = unat a + unat b"
  by (subst unat_word_ariths(1)) simp

lemma unat_neq: "x \<noteq> (y :: u64) \<Longrightarrow> unat x \<noteq> unat y"
  by (simp add: word_unat_eq_iff)

lemma blocks_okD:
  assumes "blocks_ok st N" and "a \<in> N"
  shows "elem_ok st a" and "next_ok st N a" and "prev_ok st N a" and "pad_ok st a"
    and "b \<in> N \<Longrightarrow> apart st a b"
  using assms by (auto simp: blocks_ok_def)

lemma blocks_ok_hdrs: "blocks_ok st N \<Longrightarrow> hdrs_ok (elems st) (bytes st)"
  by (simp add: blocks_ok_def)

lemma elem_ok_line:
  assumes "elem_ok st a"
  shows "64 dvd unat a"
  using assms by (simp add: elem_ok_def)

lemma elem_some: "elem_ok st a \<Longrightarrow> elems st a = Some (the (elems st a))"
  by (auto simp: elem_ok_def)

lemma unat_next:
  assumes "elem_ok st a"
  shows "unat (a + esz st a) = unat a + unat (esz st a)"
  using assms by (intro unat_add_fit) (auto simp: elem_ok_def)

lemma size_ge_64:
  assumes "elem_ok st a" and "esz st a \<noteq> 0"
  shows "64 \<le> unat (esz st a)"
proof -
  have "0 < unat (esz st a)" using assms(2) by (simp add: unat_gt_0)
  with assms(1) show ?thesis by (auto simp: elem_ok_def elim!: dvdE)
qed

lemma next_inj:
  assumes "blocks_ok st N" and "a \<in> N" "a' \<in> N" and "esz st a \<noteq> 0" "esz st a' \<noteq> 0"
    and "a + esz st a = a' + esz st a'"
  shows "a = a'"
  using blocks_okD(2) [OF assms(1,2)] blocks_okD(2) [OF assms(1,3)] assms(4-6) by (auto simp: next_ok_def)

lemma next_neq:
  assumes "elem_ok st a" and "esz st a \<noteq> 0"
  shows "a + esz st a \<noteq> a"
  using assms(2) by simp

section \<open>Splitting an element\<close>

lemma split_elem_effect:
  assumes hd: "hdrs_ok (elems st) (bytes st)" and "elem_ok st a" and "elems st (a + esz st a) = Some n" and "c \<noteq> a" and "c \<noteq> a + esz st a"
    and "esz st a \<noteq> 0" and c: "64 dvd unat c"
  shows "split_elem a c st = Some (st\<lparr>elems := (elems st)
     (c \<mapsto> \<lparr>e_heap = ehp st a, e_prev = a, e_ms = e_ms (the (elems st a)), e_state = ELEM_FREE, e_pad = 0,
            e_size = esz st a - (c - a)\<rparr>,
      a + esz st a \<mapsto> n\<lparr>e_prev := c\<rparr>,
      a \<mapsto> (the (elems st a))\<lparr>e_size := c - a\<rparr>), bytes := hdr_bytes c (bytes st)\<rparr>)"
proof -
  obtain e where e: "elems st a = Some e" using elem_some [OF assms(2)] by blast
  have n: "elems st (a + e_size e) = Some n" "c \<noteq> a + e_size e" "e_size e \<noteq> 0" using assms e by (auto simp: esz_def)
  show ?thesis
    using n assms(4) e
    by (simp add: split_elem_def Let_def malloc_elem_init_def put_elem_line [OF hd c] upd_elem_at hdrs_ok_at
        hdrs_ok_line [OF hd c] elem_views)
qed

lemma split_blocks:
  assumes ok: "blocks_ok st N" and a: "a \<in> N" and c: "c = a + k" and k: "64 \<le> unat k" "64 dvd unat k"
    and fit: "unat k + 64 \<le> unat (esz st a)" and pad: "est st a = ELEM_BUSY \<and> epd st a \<noteq> 0 \<longrightarrow> 128 \<le> unat k"
  shows "\<exists>st'. split_elem a c st = Some st' \<and> blocks_ok st' (insert c N) \<and> c \<notin> N \<and> unat c = unat a + unat k \<and>
    heaps st' = heaps st \<and> bytes st' = hdr_bytes c (bytes st) \<and>
    esz st' = (esz st)(c := esz st a - k, a := k) \<and> est st' = (est st)(c := ELEM_FREE) \<and>
    ehp st' = (ehp st)(c := ehp st a) \<and> epd st' = (epd st)(c := 0) \<and> epv st' c = a \<and>
    (\<forall>x. x \<noteq> c \<and> elems st x \<noteq> None \<longrightarrow> elems st' x \<noteq> None)"
proof -
  note ea = blocks_okD(1) [OF ok a]
  define b where "b = a + esz st a"
  have sz: "esz st a \<noteq> 0" using fit by auto
  have b: "b \<in> N" "epv st b = a" using blocks_okD(2) [OF ok a] sz by (auto simp: next_ok_def b_def)
  note eb = blocks_okD(1) [OF ok b(1)]
  have ub: "unat b = unat a + unat (esz st a)" using unat_next [OF ea] by (simp add: b_def)
  have uc: "unat c = unat a + unat k"
    unfolding c by (rule unat_add_fit) (use ea fit in \<open>auto simp: elem_ok_def\<close>)
  have ne: "c \<noteq> a" "c \<noteq> b" "b \<noteq> a" using uc ub k fit by auto
  have "0 < unat c" using uc k by simp
  then have c0: "c \<noteq> 0" by auto
  have cN: "c \<notin> N"
  proof
    assume "c \<in> N"
    then have "apart st a c" using blocks_okD(5) [OF ok a] by blast
    then show False using uc k fit by (simp add: apart_def)
  qed
  have rest: "unat (esz st a - k) = unat (esz st a) - unat k"
    using fit by (intro unat_sub) (simp add: word_le_nat_alt)
  define st' where "st' = st\<lparr>elems := (elems st)
     (c \<mapsto> \<lparr>e_heap = ehp st a, e_prev = a, e_ms = e_ms (the (elems st a)), e_state = ELEM_FREE, e_pad = 0,
            e_size = esz st a - (c - a)\<rparr>,
      b \<mapsto> (the (elems st b))\<lparr>e_prev := c\<rparr>,
      a \<mapsto> (the (elems st a))\<lparr>e_size := c - a\<rparr>), bytes := hdr_bytes c (bytes st)\<rparr>"
  have hd: "hdrs_ok (elems st) (bytes st)" by (rule blocks_ok_hdrs [OF ok])
  have dc: "64 dvd unat c" using ea k(2) uc by (simp add: elem_ok_def)
  have hd': "hdrs_ok (elems st') (bytes st')"
    unfolding st'_def using ea eb ne by (simp add: hdrs_ok_line [OF hd dc] hdrs_ok_at elem_ok_def)
  have split: "split_elem a c st = Some st'"
    unfolding st'_def b_def
    by (rule split_elem_effect [OF hd ea]) (use elem_some [OF eb] ne sz dc in \<open>auto simp: b_def\<close>)
  have ck: "c - a = k" by (simp add: c)
  have vsz: "esz st' = (esz st)(c := esz st a - k, a := k)" using ne by (auto simp: st'_def elem_views ck fun_eq_iff)
  have vst: "est st' = (est st)(c := ELEM_FREE)" using ne by (auto simp: st'_def elem_views fun_eq_iff)
  have vhp: "ehp st' = (ehp st)(c := ehp st a)" using ne by (auto simp: st'_def elem_views fun_eq_iff)
  have vpd: "epd st' = (epd st)(c := 0)" using ne by (auto simp: st'_def elem_views fun_eq_iff)
  have vpv: "epv st' = (epv st)(c := a, b := c)" using ne by (auto simp: st'_def elem_views fun_eq_iff)
  have some: "elems st' x \<noteq> None" if "x = c \<or> elems st x \<noteq> None" for x using that by (auto simp: st'_def)
  have cb: "c + (esz st a - k) = b" by (simp add: c b_def)
  have "blocks_ok st' (insert c N)"
    unfolding blocks_ok_def
  proof (intro ballI conjI hd')
    fix x y assume x: "x \<in> insert c N" and y: "y \<in> insert c N"
    show "elem_ok st' x"
    proof (cases "x = c")
      case True
      have "64 dvd unat (esz st a) - unat k" "64 dvd unat a + unat k"
        using ea k by (auto simp: elem_ok_def)
      then show ?thesis using True c0 ne uc rest fit ea by (auto simp: elem_ok_def vsz vst vhp some)
    next
      case False
      then have "elem_ok st x" using x blocks_okD(1) [OF ok] by blast
      then show ?thesis using False ne k fit ea by (auto simp: elem_ok_def vsz vst vhp some)
    qed
    show "next_ok st' (insert c N) x"
    proof (cases "x = c \<or> x = a")
      case True
      then show ?thesis using ne b cb by (auto simp: next_ok_def vsz vpv c)
    next
      case False
      then have "next_ok st N x" "x \<in> N" using x blocks_okD(2) [OF ok] by auto
      moreover have "x + esz st x \<noteq> b" if "esz st x \<noteq> 0"
        using next_inj [OF ok \<open>x \<in> N\<close> a that sz] False by (auto simp: b_def)
      ultimately show ?thesis using False cN by (auto simp: next_ok_def vsz vpv)
    qed
    show "prev_ok st' (insert c N) x"
    proof (cases "x = c \<or> x = b")
      case True
      then show ?thesis using ne a cb k by (auto simp: prev_ok_def vsz vpv c)
    next
      case False
      then have "prev_ok st N x" "x \<in> N" using x blocks_okD(3) [OF ok] by auto
      moreover have "epv st x \<noteq> a" if "epv st x \<noteq> 0"
      proof
        assume "epv st x = a"
        with \<open>prev_ok st N x\<close> that have "x = b" by (auto simp: prev_ok_def b_def)
        with False show False by simp
      qed
      ultimately show ?thesis using False cN by (auto simp: prev_ok_def vsz vpv)
    qed
    show "pad_ok st' x"
    proof (cases "x = c")
      case False
      then have xN: "x \<in> N" and px: "pad_ok st x" using x blocks_okD(4) [OF ok] by auto
      show ?thesis unfolding pad_ok_def
      proof (intro impI)
        assume "est st' x = ELEM_BUSY \<and> epd st' x \<noteq> 0"
        then have busy: "est st x = ELEM_BUSY \<and> epd st x \<noteq> 0" using False by (simp add: vst vpd)
        then have p: "epd st x = 64" "128 \<le> unat (esz st x)" "elems st (x + 64) \<noteq> None"
          "est st (x + 64) = ELEM_PAD" "epd st (x + 64) = 64" using px by (auto simp: pad_ok_def)
        have ex: "elem_ok st x" using xN blocks_okD(1) [OF ok] by blast
        then have u64: "unat (x + 64) = unat x + 64" using p(2) by (subst unat_add_fit) (auto simp: elem_ok_def)
        have "x + 64 \<noteq> c"
        proof
          assume eq: "x + 64 = c"
          then have ux: "unat x + 64 = unat a + unat k" using u64 uc by simp
          show False
          proof (cases "x = a")
            case True
            then show False using ux busy pad by auto
          next
            case False
            then have "unat x \<noteq> unat a" by (rule unat_neq)
            moreover have "apart st x a" "apart st a x" using blocks_okD(5) [OF ok] xN a by blast+
            ultimately show False using ux k fit p(2) by (auto simp: apart_def)
          qed
        qed
        moreover have "128 \<le> unat (esz st' x)" using busy pad p(2) False by (auto simp: vsz)
        ultimately show "epd st' x = 64 \<and> 128 \<le> unat (esz st' x) \<and> elems st' (x + 64) \<noteq> None \<and>
            est st' (x + 64) = ELEM_PAD \<and> epd st' (x + 64) = 64"
          using p False by (auto simp: vst vpd some)
      qed
    qed (simp add: pad_ok_def vst)
    show "apart st' x y"
    proof -
      have aN: "apart st a z" "apart st z a" if "z \<in> N" for z using blocks_okD(5) [OF ok] a that by auto
      have neq: "unat z < unat a \<or> unat a < unat z" if "z \<noteq> a" for z using unat_neq [OF that] by arith
      show ?thesis
      proof (cases "x = c")
        case True
        show ?thesis
        proof (cases "y = c \<or> y = a")
          case False
          with y have "apart st a y" "y \<noteq> a" using aN by auto
          then show ?thesis using True uc rest fit neq [of y] by (auto simp: apart_def vsz ne)
        qed (use True uc in \<open>auto simp: apart_def\<close>)
      next
        case False
        then have xN: "x \<in> N" using x by simp
        show ?thesis
        proof (cases "y = c")
          case True
          then show ?thesis using xN aN [of x] uc k fit neq [of x] False
            by (cases "x = a") (auto simp: apart_def vsz)
        next
          case False
          then have "apart st x y" using xN y blocks_okD(5) [OF ok] by auto
          then show ?thesis using \<open>x \<noteq> c\<close> fit by (cases "x = a") (auto simp: apart_def vsz)
        qed
      qed
    qed
  qed
  then show ?thesis
    using split cN uc vsz vst vhp vpd vpv ne some by (intro exI [of _ st']) (auto simp: st'_def)
qed

section \<open>Joining an element with the next one\<close>

lemma join_blocks:
  assumes ok: "blocks_ok st N" and a: "a \<in> N" and b: "b = a + esz st a" and sz: "esz st a \<noteq> 0" "esz st b \<noteq> 0"
  shows "\<exists>st'. join_elem a b st = Some st' \<and> blocks_ok st' (N - {b}) \<and> b \<in> N \<and> b \<noteq> a \<and>
    heaps st' = heaps st \<and> bytes st' = bytes st \<and>
    esz st' = (esz st)(a := esz st a + esz st b) \<and> unat (esz st a + esz st b) = unat (esz st a) + unat (esz st b) \<and>
    est st' = est st \<and> ehp st' = ehp st \<and> epd st' = epd st \<and> epv st' a = epv st a \<and>
    (\<forall>x. elems st x \<noteq> None \<longrightarrow> elems st' x \<noteq> None)"
proof -
  note ea = blocks_okD(1) [OF ok a]
  have bN: "b \<in> N" "epv st b = a" using blocks_okD(2) [OF ok a] sz by (auto simp: next_ok_def b)
  note eb = blocks_okD(1) [OF ok bN(1)]
  define c where "c = b + esz st b"
  have cN: "c \<in> N" "epv st c = b" using blocks_okD(2) [OF ok bN(1)] sz by (auto simp: next_ok_def c_def)
  note ec = blocks_okD(1) [OF ok cN(1)]
  have ub: "unat b = unat a + unat (esz st a)" using unat_next [OF ea] by (simp add: b)
  have uc: "unat c = unat b + unat (esz st b)" using unat_next [OF eb] by (simp add: c_def)
  have sa: "64 \<le> unat (esz st a)" "64 \<le> unat (esz st b)" using size_ge_64 ea eb sz by auto
  have ne: "b \<noteq> a" "c \<noteq> a" "c \<noteq> b" using ub uc sa by auto
  have usum: "unat (esz st a + esz st b) = unat (esz st a) + unat (esz st b)"
    by (rule unat_add_fit) (use uc ub ec in \<open>auto simp: elem_ok_def\<close>)
  have ac: "a + (esz st a + esz st b) = c" by (simp add: c_def b)
  define st' where "st' = st\<lparr>elems := (elems st)(a \<mapsto> (the (elems st a))\<lparr>e_size := esz st a + esz st b\<rparr>,
      c \<mapsto> (the (elems st c))\<lparr>e_prev := a\<rparr>)\<rparr>"
  have hd: "hdrs_ok (elems st) (bytes st)" by (rule blocks_ok_hdrs [OF ok])
  have hd': "hdrs_ok (elems st') (bytes st')"
    unfolding st'_def using ea ec ne by (simp add: hdrs_ok_at hd elem_ok_def)
  have join: "join_elem a b st = Some st'"
  proof -
    obtain eb' ea' ec' where e: "elems st b = Some eb'" "elems st a = Some ea'" "elems st c = Some ec'"
      using elem_some [OF eb] elem_some [OF ea] elem_some [OF ec] by blast
    then have "c = b + e_size eb'" by (simp add: c_def esz_def)
    then show ?thesis using e ne by (simp add: join_elem_def upd_elem_at hd hdrs_ok_at Let_def st'_def esz_def)
  qed
  have vsz: "esz st' = (esz st)(a := esz st a + esz st b)" using ne by (auto simp: st'_def elem_views fun_eq_iff)
  have vst: "est st' = est st" using ne by (auto simp: st'_def elem_views fun_eq_iff)
  have vhp: "ehp st' = ehp st" using ne by (auto simp: st'_def elem_views fun_eq_iff)
  have vpd: "epd st' = epd st" using ne by (auto simp: st'_def elem_views fun_eq_iff)
  have vpv: "epv st' = (epv st)(c := a)" using ne by (auto simp: st'_def elem_views fun_eq_iff)
  have some: "elems st' x \<noteq> None" if "elems st x \<noteq> None" for x using that by (auto simp: st'_def)
  have usum0: "esz st a + esz st b \<noteq> 0" using usum sa by auto
  have "blocks_ok st' (N - {b})"
    unfolding blocks_ok_def
  proof (intro ballI conjI hd')
    fix x y assume x: "x \<in> N - {b}" and y: "y \<in> N - {b}"
    show "elem_ok st' x"
    proof (cases "x = a")
      case True
      then show ?thesis using ea eb ec usum usum0 ub uc some by (auto simp: elem_ok_def vsz vst vhp)
    next
      case False
      then show ?thesis using x blocks_okD(1) [OF ok, of x] some by (auto simp: elem_ok_def vsz vst vhp)
    qed
    show "next_ok st' (N - {b}) x"
    proof (cases "x = a")
      case True
      then show ?thesis using cN ne ac by (auto simp: next_ok_def vsz vpv)
    next
      case False
      then have "next_ok st N x" "x \<in> N" using x blocks_okD(2) [OF ok] by auto
      moreover have "x + esz st x \<noteq> b" if "esz st x \<noteq> 0"
        using next_inj [OF ok \<open>x \<in> N\<close> a that sz(1)] False by (auto simp: b)
      moreover have "x + esz st x \<noteq> c" if "esz st x \<noteq> 0"
        using next_inj [OF ok \<open>x \<in> N\<close> bN(1) that sz(2)] x by (auto simp: c_def)
      ultimately show ?thesis using False by (auto simp: next_ok_def vsz vpv)
    qed
    show "prev_ok st' (N - {b}) x"
    proof (cases "x = c")
      case True
      then show ?thesis using ne a ac usum0 by (auto simp: prev_ok_def vsz vpv)
    next
      case False
      then have px: "prev_ok st N x" "x \<in> N" using x blocks_okD(3) [OF ok] by auto
      moreover have "epv st x \<noteq> b" if "epv st x \<noteq> 0"
      proof
        assume "epv st x = b"
        with px that have "x = c" by (auto simp: prev_ok_def c_def)
        with False show False by simp
      qed
      moreover have "epv st x \<noteq> a" if "epv st x \<noteq> 0"
      proof
        assume "epv st x = a"
        with px that have "x = b" by (auto simp: prev_ok_def b)
        with x show False by simp
      qed
      ultimately show ?thesis using False by (auto simp: prev_ok_def vsz vpv)
    qed
    show "pad_ok st' x"
      using x blocks_okD(4) [OF ok, of x] usum some by (auto simp: pad_ok_def vst vpd vsz)
    show "apart st' x y"
    proof -
      have "apart st b y" "apart st x y" "apart st y b" using blocks_okD(5) [OF ok] x y bN by auto
      moreover have "y \<noteq> b" using y by simp
      then have "unat y \<noteq> unat b" by (rule unat_neq)
      ultimately show ?thesis using ub usum by (fastforce simp: apart_def vsz)
    qed
  qed
  then show ?thesis
    using join bN(1) ne usum vsz vst vhp vpd vpv some by (intro exI [of _ st']) (auto simp: st'_def)
qed

section \<open>Marking an element busy\<close>

lemma upd_state_blocks:
  assumes ok: "blocks_ok st N" and a: "a \<in> N" and sz: "esz st a = 0 \<longrightarrow> s = ELEM_BUSY" "s \<noteq> ELEM_PAD"
    and pad: "s = ELEM_BUSY \<longrightarrow> p = 0"
  shows "\<exists>st'. upd_elem a (\<lambda>e. e\<lparr>e_state := s, e_pad := p\<rparr>) st = Some st' \<and> blocks_ok st' N \<and>
    heaps st' = heaps st \<and> bytes st' = bytes st \<and> esz st' = esz st \<and> est st' = (est st)(a := s) \<and>
    ehp st' = ehp st \<and> epd st' = (epd st)(a := p) \<and> epv st' = epv st"
proof -
  note ea = blocks_okD(1) [OF ok a]
  define st' where "st' = st\<lparr>elems := (elems st)(a \<mapsto> (the (elems st a))\<lparr>e_state := s, e_pad := p\<rparr>)\<rparr>"
  have upd: "upd_elem a (\<lambda>e. e\<lparr>e_state := s, e_pad := p\<rparr>) st = Some st'"
  proof -
    obtain e where "elems st a = Some e" using elem_some [OF ea] by blast
    then show ?thesis by (simp add: upd_elem_at [OF blocks_ok_hdrs [OF ok]] st'_def)
  qed
  have hd': "hdrs_ok (elems st') (bytes st')"
    unfolding st'_def using ea by (simp add: hdrs_ok_at blocks_ok_hdrs [OF ok] elem_ok_def)
  have v: "esz st' = esz st" "est st' = (est st)(a := s)" "ehp st' = ehp st" "epd st' = (epd st)(a := p)" "epv st' = epv st"
    by (auto simp: st'_def elem_views fun_eq_iff)
  have some: "elems st' x \<noteq> None" if "elems st x \<noteq> None" for x using that by (auto simp: st'_def)
  have "pad_ok st' x" if x: "x \<in> N" for x
  proof (cases "x = a")
    case True
    then show ?thesis using pad by (simp add: pad_ok_def v)
  next
    case False
    have px: "pad_ok st x" and ex: "elem_ok st x" using x blocks_okD(1,4) [OF ok] by auto
    have "x + 64 \<noteq> a" if "128 \<le> unat (esz st x)"
    proof
      assume eq: "x + 64 = a"
      have "unat (x + 64) = unat x + 64" using ex that by (subst unat_add_fit) (auto simp: elem_ok_def)
      with eq have "unat a = unat x + 64" by simp
      moreover have "apart st x a" using blocks_okD(5) [OF ok x a] .
      ultimately show False using that by (simp add: apart_def)
    qed
    then show ?thesis using px False some by (auto simp: pad_ok_def v)
  qed
  then have "blocks_ok st' N"
    using ok sz some hd' by (auto simp: blocks_ok_def elem_ok_def next_ok_def prev_ok_def apart_def v)
  then show ?thesis using upd v by (intro exI [of _ st']) (auto simp: st'_def)
qed

section \<open>The free lists\<close>

lemma elem_free_list_remove_inv:
  assumes free: "free_ok st N X" and a: "a \<in> N - X" "est st a = ELEM_FREE" "ehp st a < RTE_MAX_NUMA_NODES"
    and some: "elems st a \<noteq> None"
  shows "\<exists>st'. elem_free_list_remove a st = Some st' \<and> free_ok st' N (insert a X) \<and>
    elems st' = elems st \<and> bytes st' = bytes st"
proof -
  define h where "h = ehp st a"
  define hp where "hp = heaps st ! h"
  define i where "i = list_index st a"
  obtain e where e: "elems st a = Some e" using some by blast
  have h: "e_heap e = h" using e by (simp add: h_def ehp_def)
  have len: "length (heaps st) = RTE_MAX_NUMA_NODES" "h < length (heaps st)"
    using free a(3) by (auto simp: free_ok_def h_def)
  have lh: "length (free_head hp) = RTE_HEAP_NUM_FREELISTS" using free a(3) by (auto simp: free_ok_def hp_def h_def)
  have i: "i < RTE_HEAP_NUM_FREELISTS" by (simp add: i_def malloc_elem_free_list_index_def Let_def)
  have "a \<in> set (free_head hp ! i)"
    using free a i len by (auto simp: free_ok_def hp_def h_def i_def on_list_def)
  then have mem: "a \<in> set (concat (free_head hp))" using i lh by (auto intro!: bexI [of _ "free_head hp ! i"])
  define st' where "st' = st\<lparr>heaps := (heaps st)[h := hp\<lparr>free_head := map (remove1 a) (free_head hp)\<rparr>]\<rparr>"
  have "elem_free_list_remove a st = Some st'"
    using len mem by (simp add: elem_free_list_remove_def e h upd_heap_def st'_def flip: hp_def)
  moreover have "free_ok st' N (insert a X)"
  proof -
    have elems: "esz st' = esz st" "est st' = est st" "ehp st' = ehp st" by (simp_all add: st'_def elem_views fun_eq_iff)
    have lists: "free_head (heaps st' ! g) ! j = remove1 a (free_head (heaps st ! g) ! j)"
      if "g < RTE_MAX_NUMA_NODES" "j < RTE_HEAP_NUM_FREELISTS" for g j
    proof (cases "g = h")
      case True
      then show ?thesis using that len lh by (simp add: st'_def hp_def)
    next
      case False
      then have "a \<notin> set (free_head (heaps st ! g) ! j)"
        using free that by (auto simp: free_ok_def on_list_def h_def)
      then show ?thesis using False by (simp add: st'_def remove1_idem)
    qed
    have "set (free_head (heaps st' ! g) ! j) = on_list st' N (insert a X) g j \<and>
        distinct (free_head (heaps st' ! g) ! j)"
      if "g < RTE_MAX_NUMA_NODES" "j < RTE_HEAP_NUM_FREELISTS" for g j
    proof -
      have "distinct (free_head (heaps st ! g) ! j)" "set (free_head (heaps st ! g) ! j) = on_list st N X g j"
        using free that by (auto simp: free_ok_def)
      then show ?thesis unfolding lists [OF that] by (auto simp: on_list_def elems)
    qed
    moreover have "length (free_head (heaps st' ! g)) = RTE_HEAP_NUM_FREELISTS" if "g < RTE_MAX_NUMA_NODES" for g
      using free that lh len by (cases "g = h") (auto simp: free_ok_def st'_def)
    ultimately show ?thesis using free a len by (auto simp: free_ok_def elems) (simp add: st'_def)
  qed
  ultimately show ?thesis by (intro exI [of _ st']) (simp add: st'_def)
qed

lemma free_list_insert_inv:
  assumes ok: "blocks_ok st N" and free: "free_ok st N X" and a: "a \<in> N" "esz st a \<noteq> 0"
    and X: "a \<in> X \<or> est st a = ELEM_BUSY"
  shows "\<exists>st'. malloc_elem_free_list_insert a st = Some st' \<and> blocks_ok st' N \<and> free_ok st' N (X - {a}) \<and>
    esz st' = esz st \<and> est st' = (est st)(a := ELEM_FREE) \<and> ehp st' = ehp st \<and> epd st' = epd st \<and> epv st' = epv st \<and>
    bytes st' = bytes st"
proof -
  note ea = blocks_okD(1) [OF ok a(1)]
  define h where "h = ehp st a"
  define hp where "hp = heaps st ! h"
  define i where "i = list_index st a"
  obtain e where e: "elems st a = Some e" using ea by (auto simp: elem_ok_def)
  have h: "e_heap e = h" "h < RTE_MAX_NUMA_NODES" using e ea by (auto simp: h_def ehp_def elem_ok_def)
  have len: "length (heaps st) = RTE_MAX_NUMA_NODES" using free by (auto simp: free_ok_def)
  have lh: "length (free_head hp) = RTE_HEAP_NUM_FREELISTS" using free h by (auto simp: free_ok_def hp_def)
  have i: "i < RTE_HEAP_NUM_FREELISTS" by (simp add: i_def malloc_elem_free_list_index_def Let_def)
  have ie: "malloc_elem_free_list_index (e_size e - MALLOC_ELEM_HEADER_LEN) = i" using e by (simp add: i_def esz_def)
  obtain st1 where st1: "upd_elem a (\<lambda>e. e\<lparr>e_state := ELEM_FREE, e_pad := epd st a\<rparr>) st = Some st1" "blocks_ok st1 N"
    "heaps st1 = heaps st" "bytes st1 = bytes st" "esz st1 = esz st" "est st1 = (est st)(a := ELEM_FREE)"
    "ehp st1 = ehp st" "epd st1 = (epd st)(a := epd st a)" "epv st1 = epv st"
    using upd_state_blocks [OF ok a(1), of ELEM_FREE "epd st a"] a(2) by auto
  have upd: "upd_elem a (\<lambda>e. e\<lparr>e_state := ELEM_FREE\<rparr>) st = Some st1"
    using st1(1) e by (simp add: upd_elem_def epd_def)
  define st' where "st' = st1\<lparr>heaps := (heaps st1)[h := hp\<lparr>free_head := (free_head hp)[i := a # free_head hp ! i]\<rparr>]\<rparr>"
  have "malloc_elem_free_list_insert a st = Some st'"
    using len h upd e by (simp add: malloc_elem_free_list_insert_def upd_heap_def st'_def ie st1(3) Let_def flip: hp_def)
  moreover have v: "esz st' = esz st" "est st' = (est st)(a := ELEM_FREE)" "ehp st' = ehp st" "epd st' = epd st" "epv st' = epv st"
    "bytes st' = bytes st"
    using st1 by (simp_all add: st'_def elem_views fun_eq_iff)
  moreover have "blocks_ok st' N"
    using st1(2) by (simp add: st'_def blocks_ok_def hdrs_ok_def elem_ok_def next_ok_def prev_ok_def pad_ok_def apart_def elem_views)
  moreover have "free_ok st' N (X - {a})"
  proof -
    have notin: "a \<notin> set (free_head (heaps st ! g) ! j)" if "g < RTE_MAX_NUMA_NODES" "j < RTE_HEAP_NUM_FREELISTS" for g j
      using free that X by (auto simp: free_ok_def on_list_def)
    have lists: "free_head (heaps st' ! g) ! j = (if g = h \<and> j = i then a # free_head (heaps st ! g) ! j else free_head (heaps st ! g) ! j)"
      if "g < RTE_MAX_NUMA_NODES" "j < RTE_HEAP_NUM_FREELISTS" for g j
      using that len lh st1(3) by (cases "g = h"; cases "j = i") (auto simp: st'_def hp_def)
    have "set (free_head (heaps st' ! g) ! j) = on_list st' N (X - {a}) g j \<and> distinct (free_head (heaps st' ! g) ! j)"
      if "g < RTE_MAX_NUMA_NODES" "j < RTE_HEAP_NUM_FREELISTS" for g j
    proof -
      have "distinct (free_head (heaps st ! g) ! j)" "set (free_head (heaps st ! g) ! j) = on_list st N X g j"
        using free that by (auto simp: free_ok_def)
      then show ?thesis unfolding lists [OF that] using notin [OF that] a(1) X
        by (auto simp: on_list_def v h_def i_def)
    qed
    moreover have "length (free_head (heaps st' ! g)) = RTE_HEAP_NUM_FREELISTS" if "g < RTE_MAX_NUMA_NODES" for g
      using free that lh len st1(3) by (cases "g = h") (auto simp: free_ok_def st'_def)
    ultimately show ?thesis using free len st1(3) by (auto simp: free_ok_def v) (simp add: st'_def)
  qed
  ultimately show ?thesis by blast
qed

section \<open>Where a block fits\<close>

lemma align_floor_pow2:
  fixes align :: u32
  assumes "POWEROF2 align" and "align \<noteq> 0"
  shows "unat (RTE_ALIGN_FLOOR v (ucast (align - 1))) = unat v - unat v mod unat align"
proof -
  obtain k where k: "k < 32" "unat align = 2 ^ k" "align - 1 = mask k"
    using POWEROF2_mask [OF assms] by auto
  have "(ucast (mask k :: u32) :: u64) = mask k"
    using k(1) by (simp add: ucast_mask_eq)
  then show ?thesis by (simp add: RTE_ALIGN_FLOOR_def k unat_and_not_mask)
qed

text \<open>
  With no boundary (\<open>bound = 0\<close>), a size and an alignment that the addresses leave room for, a
  non-NULL start point lies in the element with the data behind it, aligned.
\<close>

lemma elem_start_pt_fits:
  assumes ok: "elem_ok st a" and pow: "POWEROF2 align" "64 \<le> unat align" and sz: "64 dvd unat sz"
    and low: "unat sz + unat align + 64 \<le> unat a"
    and s: "s = elem_start_pt a (the (elems st a)) sz align 0" "s \<noteq> 0"
  shows "unat a \<le> unat s" and "unat s + 64 + unat sz \<le> unat a + unat (esz st a)" and "64 dvd unat s"
    and "unat align dvd unat s + 64"
proof -
  have al0: "align \<noteq> 0" using pow(2) by auto
  define d where "d = RTE_ALIGN_FLOOR (a + esz st a - sz) (ucast (align - 1))"
  define E where "E = unat a + unat (esz st a) - unat sz"
  have "unat (a + esz st a) = unat a + unat (esz st a)" by (rule unat_next [OF ok])
  then have E: "unat (a + esz st a - sz) = E"
    using low by (subst unat_sub) (simp_all add: word_le_nat_alt E_def)
  have d: "unat d = E - E mod unat align" unfolding d_def align_floor_pow2 [OF pow(1) al0] E ..
  have dvd: "unat align dvd unat d" unfolding d by (simp add: minus_mod_eq_mult_div)
  obtain k where k: "unat align = 2 ^ k" using POWEROF2_unat [OF pow(1) al0] by blast
  have "64 dvd unat align"
  proof -
    have "\<not> k < 6"
    proof
      assume "k < 6"
      then have "(2::nat) ^ k < 2 ^ 6" by (intro power_strict_increasing) auto
      then show False using pow(2) k by simp
    qed
    then have "(2::nat) ^ 6 dvd 2 ^ k" by (intro le_imp_power_dvd) simp
    then show ?thesis using k by simp
  qed
  with dvd have dvd64: "64 dvd unat d" by (rule dvd_trans [rotated])
  have "E mod unat align < unat align" using pow(2) by (intro mod_less_divisor) simp
  then have d64: "64 \<le> unat d" using d low unfolding E_def by linarith
  then have sub: "unat (d - 64) = unat d - 64" by (subst unat_sub) (simp_all add: word_le_nat_alt)
  have s': "s = (if d - 64 < a then 0 else d - 64)"
    unfolding s(1) by (simp add: elem_start_pt_def Let_def d_def esz_def)
  then have sd: "s = d - 64" and le: "\<not> d - 64 < a" using s(2) by (auto split: if_splits)
  have us: "unat s + 64 = unat d" using sd sub d64 by simp
  show "unat a \<le> unat s" using le sd by (simp add: word_less_nat_alt)
  show "unat s + 64 + unat sz \<le> unat a + unat (esz st a)"
    using us d low unfolding E_def by linarith
  show "unat align dvd unat s + 64" using us dvd by simp
  have "unat s = unat d - 64" using us by simp
  then show "64 dvd unat s" using dvd64 by simp
qed

section \<open>Allocating in an element\<close>

lemma split_free:
  assumes "free_ok st N X" and "a \<in> X \<or> est st a = ELEM_BUSY" and "c \<notin> N" and "heaps st' = heaps st"
    and "esz st' = (esz st)(c := x, a := y)" and "est st' = (est st)(c := ELEM_FREE)" and "ehp st' = (ehp st)(c := z)"
  shows "free_ok st' (insert c N) (insert c X)"
proof -
  have "on_list st' (insert c N) (insert c X) = on_list st N X"
    using assms(2,3) by (auto simp: on_list_def assms(5-7) fun_eq_iff)
  then show ?thesis using assms by (auto simp: free_ok_def)
qed

lemma busy_free:
  assumes "free_ok st N X" and "\<forall>x \<in> N. est st' x = ((est st)(a := ELEM_BUSY)) x" and "heaps st' = heaps st"
    and "\<forall>x \<in> N. esz st' x = esz st x" and "\<forall>x \<in> N. ehp st' x = ehp st x" and "a \<in> X"
  shows "free_ok st' N (X - {a})"
proof -
  have "on_list st' N (X - {a}) h i = on_list st N X h i" for h i
    using assms(2,4-6) by (auto simp: on_list_def split: if_splits)
  then show ?thesis using assms by (auto simp: free_ok_def)
qed

lemma pad_blocks:
  assumes ok: "blocks_ok st N" and a: "a \<in> N" "est st a = ELEM_FREE" and sz: "128 \<le> unat (esz st a)"
    and s: "s = a + 64" and q: "e_state q = ELEM_PAD" "e_pad q = 64"
    and st': "st' = st\<lparr>elems := (elems st)(a \<mapsto> (the (elems st a))\<lparr>e_state := ELEM_BUSY, e_pad := 64\<rparr>, s \<mapsto> q),
      bytes := hdr_bytes s (bytes st)\<rparr>"
  shows "blocks_ok st' N \<and> s \<notin> N \<and> s \<noteq> a \<and> unat s = unat a + 64 \<and>
    (\<forall>x. x \<noteq> s \<longrightarrow> esz st' x = esz st x \<and> ehp st' x = ehp st x \<and> epv st' x = epv st x) \<and>
    (\<forall>x. x \<noteq> s \<longrightarrow> est st' x = ((est st)(a := ELEM_BUSY)) x) \<and>
    (\<forall>x. x \<noteq> s \<longrightarrow> epd st' x = ((epd st)(a := 64)) x) \<and> est st' s = ELEM_PAD \<and> epd st' s = 64 \<and> elems st' s \<noteq> None"
proof -
  note ea = blocks_okD(1) [OF ok a(1)]
  have us: "unat s = unat a + 64"
    unfolding s by (subst unat_add_fit) (use ea sz in \<open>auto simp: elem_ok_def\<close>)
  have sa: "s \<noteq> a" using us by auto
  have sN: "s \<notin> N"
  proof
    assume "s \<in> N"
    then have "apart st a s" using blocks_okD(5) [OF ok a(1)] by blast
    then show False using us sz by (simp add: apart_def)
  qed
  have ds: "64 dvd unat s" using elem_ok_line [OF ea] us by simp
  have hd': "hdrs_ok (elems st') (bytes st')"
    unfolding st' using ea by (simp add: hdrs_ok_line hdrs_ok_at blocks_ok_hdrs [OF ok] ds elem_ok_def)
  have v1: "\<forall>x. x \<noteq> s \<longrightarrow> esz st' x = esz st x \<and> ehp st' x = ehp st x \<and> epv st' x = epv st x"
    and v2: "\<forall>x. x \<noteq> s \<longrightarrow> est st' x = ((est st)(a := ELEM_BUSY)) x"
    and v3: "\<forall>x. x \<noteq> s \<longrightarrow> epd st' x = ((epd st)(a := 64)) x"
    and v4: "est st' s = ELEM_PAD" "epd st' s = 64" "elems st' s \<noteq> None"
    using sa q by (auto simp: st' elem_views)
  have some: "elems st' x \<noteq> None" if "elems st x \<noteq> None" for x using that by (auto simp: st')
  have inN: "esz st' x = esz st x" "ehp st' x = ehp st x" "epv st' x = epv st x"
    "est st' x = ((est st)(a := ELEM_BUSY)) x" "epd st' x = ((epd st)(a := 64)) x" if "x \<in> N" for x
    using that sN v1 v2 v3 by (metis)+
  have "blocks_ok st' N"
    unfolding blocks_ok_def
  proof (intro ballI conjI hd')
    fix x y assume x: "x \<in> N" and y: "y \<in> N"
    show "elem_ok st' x" using blocks_okD(1) [OF ok x] some sz by (auto simp: elem_ok_def inN [OF x])
    show "next_ok st' N x" using blocks_okD(2) [OF ok x] by (auto simp: next_ok_def inN [OF x] inN)
    show "prev_ok st' N x" using blocks_okD(3) [OF ok x] by (auto simp: prev_ok_def inN [OF x] inN)
    show "apart st' x y" using blocks_okD(5) [OF ok x y] by (simp add: apart_def inN [OF x])
    show "pad_ok st' x"
    proof (cases "x = a")
      case True
      then show ?thesis using sz v4 inN [OF a(1)] by (simp add: pad_ok_def flip: s)
    next
      case False
      have px: "pad_ok st x" and ex: "elem_ok st x" using x blocks_okD(1,4) [OF ok] by auto
      have "x + 64 \<noteq> a" if "128 \<le> unat (esz st x)"
      proof
        assume eq: "x + 64 = a"
        have "unat (x + 64) = unat x + 64" using ex that by (subst unat_add_fit) (auto simp: elem_ok_def)
        with eq have "unat a = unat x + 64" by simp
        moreover have "apart st x a" using blocks_okD(5) [OF ok x a(1)] .
        ultimately show False using that by (simp add: apart_def)
      qed
      moreover have "x + 64 \<noteq> s" using False by (simp add: s)
      ultimately show ?thesis using px False some v2 v3 by (auto simp: pad_ok_def inN [OF x])
    qed
  qed
  then show ?thesis using sN sa us v1 v2 v3 v4 by blast
qed

text \<open>The memory the elements cover.\<close>

definition region :: "malloc_mem \<Rightarrow> u64 set \<Rightarrow> nat set" where
  "region st N = (\<Union>a \<in> N. {unat a ..< unat a + unat (esz st a)})"

lemma region_cong: "(\<And>x. x \<in> N \<Longrightarrow> esz st' x = esz st x) \<Longrightarrow> region st' N = region st N"
  by (simp add: region_def)

lemma region_insert: "region st (insert a N) = {unat a ..< unat a + unat (esz st a)} \<union> region st N"
  by (simp add: region_def)

lemma region_split:
  assumes "a \<in> N" "c \<notin> N" "esz st' = (esz st)(c := esz st a - k, a := k)" "unat c = unat a + unat k"
    and "unat k \<le> unat (esz st a)"
  shows "region st' (insert c N) = region st N"
proof -
  have "unat (esz st a - k) = unat (esz st a) - unat k" using assms(5) by (simp add: unat_sub word_le_nat_alt)
  then have "{unat a ..< unat a + unat (esz st a)} = {unat a ..< unat a + unat k} \<union> {unat c ..< unat c + unat (esz st a - k)}"
    using assms(4,5) by auto
  moreover have "c \<noteq> a" using assms(1,2) by blast
  moreover have "region st N = {unat a ..< unat a + unat (esz st a)} \<union> region st (N - {a})"
    "region st' N = {unat a ..< unat a + unat (esz st' a)} \<union> region st' (N - {a})"
    using region_insert [of st a "N - {a}"] region_insert [of st' a "N - {a}"] assms(1) by (simp_all add: insert_absorb)
  moreover have "region st' (insert c N) = {unat c ..< unat c + unat (esz st' c)} \<union> region st' N"
    by (rule region_insert)
  moreover have "region st' (N - {a}) = region st (N - {a})"
    by (rule region_cong) (use assms(2,3) in auto)
  ultimately show ?thesis using assms(3) by auto
qed

lemma region_join:
  assumes "a \<in> N" "b \<in> N" "b \<noteq> a" "esz st' = (esz st)(a := esz st a + esz st b)" "unat b = unat a + unat (esz st a)"
    and "unat (esz st a + esz st b) = unat (esz st a) + unat (esz st b)"
  shows "region st' (N - {b}) = region st N"
proof -
  have "{unat a ..< unat a + unat (esz st' a)} = {unat a ..< unat a + unat (esz st a)} \<union> {unat b ..< unat b + unat (esz st b)}"
    using assms(4-6) by auto
  moreover have N: "insert b (insert a (N - {a, b})) = N" "insert a (N - {a, b}) = N - {b}" "insert b (N - {b}) = N" using assms(1-3) by blast+
  moreover have "region st N = {unat b ..< unat b + unat (esz st b)} \<union> ({unat a ..< unat a + unat (esz st a)} \<union> region st (N - {a, b}))"
    "region st' (N - {b}) = {unat a ..< unat a + unat (esz st' a)} \<union> region st' (N - {a, b})"
    using region_insert [of st b "insert a (N - {a, b})"] region_insert [of st a "N - {a, b}"]
      region_insert [of st' a "N - {a, b}"] by (simp_all only: N)
  moreover have "region st' (N - {a, b}) = region st (N - {a, b})"
    by (rule region_cong) (use assms(4) in auto)
  ultimately show ?thesis by auto
qed

text \<open>What a successful allocation in element \<open>a\<close> leaves: one new busy element, the rest unchanged.\<close>

definition busy_set :: "malloc_mem \<Rightarrow> u64 set \<Rightarrow> u64 set" where
  "busy_set st N = {b \<in> N. est st b = ELEM_BUSY}"

definition coalesced :: "malloc_mem \<Rightarrow> u64 set \<Rightarrow> bool" where
  "coalesced st N \<longleftrightarrow> (\<forall>a \<in> N. est st a = ELEM_FREE \<longrightarrow> est st (a + esz st a) \<noteq> ELEM_FREE)"

definition alloc_result :: "malloc_mem \<Rightarrow> u64 set \<Rightarrow> u64 \<Rightarrow> u64 \<Rightarrow> malloc_mem \<Rightarrow> u64 set \<Rightarrow> u64 \<Rightarrow> bool" where
  "alloc_result st N s sz st' N' b \<longleftrightarrow>
     malloc_inv st' N' {} \<and> coalesced st' N' \<and> N \<subseteq> N' \<and> region st' N' = region st N \<and> b \<notin> busy_set st N \<and>
     busy_set st' N' = insert b (busy_set st N) \<and>
     (\<forall>x \<in> busy_set st N. esz st' x = esz st x \<and> epd st' x = epd st x) \<and>
     only_hdrs (insert s N') (bytes st) (bytes st') \<and> (\<forall>i. map_option alloc_count (read_at (heaps st') i) = map_option alloc_count (read_at (heaps st) i)) \<and>
     s = b + ucast (epd st' b) \<and> unat s = unat b + unat (epd st' b) \<and>
     (epd st' b = 0 \<or> est st' s = ELEM_PAD \<and> epd st' s = epd st' b \<and> elems st' s \<noteq> None) \<and>
     unat s + 64 + unat sz \<le> unat b + unat (esz st' b)"

text \<open>
  The state between the two halves of \<open>malloc_elem_alloc\<close>: element \<open>a\<close> is off its list and
  holds the block, possibly cut to size, and nothing else has changed.
\<close>

definition alloc_mid :: "malloc_mem \<Rightarrow> u64 set \<Rightarrow> u64 \<Rightarrow> malloc_mem \<Rightarrow> u64 set \<Rightarrow> bool" where
  "alloc_mid st N a st2 N2 \<longleftrightarrow> blocks_ok st2 N2 \<and> free_ok st2 N2 {a} \<and> N \<subseteq> N2 \<and>
     (\<forall>x \<in> N - {a}. esz st2 x = esz st x \<and> epd st2 x = epd st x) \<and> busy_set st2 N2 = busy_set st N \<and>
     (\<forall>x \<in> N2 - {a}. est st2 x = ELEM_FREE \<longrightarrow> est st2 (x + esz st2 x) \<noteq> ELEM_FREE) \<and>
     region st2 N2 = region st N \<and> only_hdrs N2 (bytes st) (bytes st2) \<and>
     (\<forall>i. map_option alloc_count (read_at (heaps st2) i) = map_option alloc_count (read_at (heaps st) i))"

lemma list_insert_count:
  "malloc_elem_free_list_insert a st = Some st' \<Longrightarrow>
   map_option alloc_count (read_at (heaps st') i) = map_option alloc_count (read_at (heaps st) i)"
  by (auto simp: malloc_elem_free_list_insert_def upd_elem_def upd_heap_def Let_def bind_eq_Some_conv read_at_def
      write_at_def nth_list_update split: if_splits)

lemma list_remove_count:
  "elem_free_list_remove a st = Some st' \<Longrightarrow>
   map_option alloc_count (read_at (heaps st') i) = map_option alloc_count (read_at (heaps st) i)"
  by (auto simp: elem_free_list_remove_def upd_heap_def bind_eq_Some_conv read_at_def
      write_at_def nth_list_update split: if_splits)

lemma alloc_trailer:
  assumes inv: "malloc_inv st N {}" and coal: "coalesced st N" and a: "a \<in> N" "est st a = ELEM_FREE"
    and s: "unat a \<le> unat s" "64 dvd unat s" "64 dvd unat sz" "unat s + 64 + unat sz \<le> unat a + unat (esz st a)"
  shows "\<exists>st1 st2 N2. elem_free_list_remove a st = Some st1 \<and>
    (if MALLOC_ELEM_OVERHEAD + MIN_DATA_SIZE < esz st a - (s - a) - sz - MALLOC_ELEM_OVERHEAD then do {
              let new_free_elem = s + (sz + MALLOC_ELEM_OVERHEAD);
              st \<leftarrow> split_elem a new_free_elem st1;
              malloc_elem_free_list_insert new_free_elem st }
            else Some st1) = Some st2 \<and> alloc_mid st N a st2 N2 \<and> est st2 a = ELEM_FREE \<and>
    unat s + 64 + unat sz \<le> unat a + unat (esz st2 a)"
proof -
  have ok: "blocks_ok st N" and free: "free_ok st N {}" using inv by (auto simp: malloc_inv_def)
  note ea = blocks_okD(1) [OF ok a(1)]
  obtain st1 where st1: "elem_free_list_remove a st = Some st1" "free_ok st1 N {a}" "elems st1 = elems st" "bytes st1 = bytes st"
    using elem_free_list_remove_inv [OF free, of a] a ea by (auto simp: elem_ok_def)
  have v1: "esz st1 = esz st" "est st1 = est st" "ehp st1 = ehp st" "epd st1 = epd st" "epv st1 = epv st"
    using st1(3) by (simp_all add: elem_views fun_eq_iff)
  have ok1: "blocks_ok st1 N"
    using ok by (simp add: blocks_ok_def elem_ok_def next_ok_def prev_ok_def pad_ok_def apart_def v1 st1(3,4))
  have usa: "unat (s - a) = unat s - unat a" using s(1) by (subst unat_sub) (simp_all add: word_le_nat_alt)
  have e1: "unat (esz st a - (s - a)) = unat (esz st a) - (unat s - unat a)"
    using s usa by (subst unat_sub) (auto simp: word_le_nat_alt)
  have e2: "unat (esz st a - (s - a) - sz) = unat (esz st a) - (unat s - unat a) - unat sz"
    using s e1 by (subst unat_sub) (auto simp: word_le_nat_alt)
  have tr: "unat (esz st a - (s - a) - sz - 64) = unat (esz st a) - (unat s - unat a) - unat sz - 64"
    using s e2 by (subst unat_sub) (auto simp: word_le_nat_alt)
  define tr where "tr = esz st a - (s - a) - sz - 64"
  have cnt1: "map_option alloc_count (read_at (heaps st1) i) = map_option alloc_count (read_at (heaps st) i)" for i
    by (rule list_remove_count [OF st1(1)])
  show ?thesis
  proof (cases "128 < tr")
    case False
    have "alloc_mid st N a st1 N"
      using ok1 st1 coal cnt1 by (auto simp: alloc_mid_def v1 busy_set_def coalesced_def region_def)
    then show ?thesis using False st1(1) s a by (intro exI [of _ st1] exI [of _ N]) (simp add: v1 flip: tr_def)
  next
    case True
    define k where "k = (s - a) + (sz + 64)"
    define t where "t = s + (sz + 64)"
    have trn: "128 < unat tr" using True by (simp add: word_less_nat_alt)
    have lim: "unat a + unat (esz st a) + 64 \<le> 2 ^ 64" using ea by (simp add: elem_ok_def)
    have u1: "unat (sz + 64) = unat sz + 64" by (subst unat_add_fit) (use s lim in simp_all)
    have uk: "unat k = unat s - unat a + (unat sz + 64)"
      unfolding k_def by (subst unat_add_fit) (use s lim u1 usa in simp_all)
    have t: "t = a + k" by (simp add: t_def k_def)
    have "64 dvd unat s - unat a" using s(2) ea by (simp add: elem_ok_def)
    then have "64 dvd unat k" unfolding uk by (intro dvd_add) (use s(3) in simp_all)
    then have k: "64 \<le> unat k" "64 dvd unat k" "unat k + 64 \<le> unat (esz st1 a)"
      using uk trn tr s by (auto simp: tr_def v1)
    obtain st2 where st2: "split_elem a t st1 = Some st2" "blocks_ok st2 (insert t N)" "t \<notin> N"
      "unat t = unat a + unat k" "heaps st2 = heaps st1" "bytes st2 = hdr_bytes t (bytes st1)"
      "esz st2 = (esz st1)(t := esz st1 a - k, a := k)" "est st2 = (est st1)(t := ELEM_FREE)"
      "ehp st2 = (ehp st1)(t := ehp st1 a)" "epd st2 = (epd st1)(t := 0)" "epv st2 t = a"
      using split_blocks [OF ok1 a(1) t k] a by (auto simp: v1)
    have free2: "free_ok st2 (insert t N) {t, a}"
      using split_free [OF st1(2) _ st2(3,5,7,8,9)] by (simp add: insert_commute)
    have ta: "t \<noteq> a" using st2(4) k by auto
    have et: "esz st2 t \<noteq> 0" using st2(7) ta k by (auto simp: v1)
    obtain st3 where st3: "malloc_elem_free_list_insert t st2 = Some st3" "blocks_ok st3 (insert t N)"
      "free_ok st3 (insert t N) ({t, a} - {t})" "esz st3 = esz st2" "est st3 = (est st2)(t := ELEM_FREE)"
      "ehp st3 = ehp st2" "epd st3 = epd st2" "bytes st3 = bytes st2"
      using free_list_insert_inv [OF st2(2) free2 _ et] by auto
    have v3: "esz st3 = (esz st)(t := esz st a - k, a := k)" "est st3 = (est st)(t := ELEM_FREE)" "epd st3 = (epd st)(t := 0)"
      using st2 st3 v1 by simp_all
    have nxt: "t + (esz st a - k) = a + esz st a" by (simp add: t)
    have ae: "esz st a \<noteq> 0" using k by (auto simp: v1)
    have nN: "a + esz st a \<in> N" using blocks_okD(2) [OF ok a(1)] ae by (simp add: next_ok_def)
    have coal3: "est st3 (x + esz st3 x) \<noteq> ELEM_FREE" if "x \<in> insert t N - {a}" "est st3 x = ELEM_FREE" for x
    proof (cases "x = t")
      case True
      have "est st (a + esz st a) \<noteq> ELEM_FREE" using coal a by (simp add: coalesced_def)
      then show ?thesis using True ta nN st2(3) by (auto simp: v3 nxt)
    next
      case False
      then have x: "x \<in> N" "x \<noteq> a" "est st x = ELEM_FREE" using that by (auto simp: v3)
      then have "esz st x \<noteq> 0" using blocks_okD(1) [OF ok x(1)] by (auto simp: elem_ok_def)
      then have "x + esz st x \<in> N" using blocks_okD(2) [OF ok x(1)] by (simp add: next_ok_def)
      moreover have "est st (x + esz st x) \<noteq> ELEM_FREE" using coal x by (simp add: coalesced_def)
      ultimately show ?thesis using False x st2(3) by (auto simp: v3)
    qed
    have busy3: "busy_set st3 (insert t N) = busy_set st N" using st2(3) by (auto simp: busy_set_def v3)
    have "map_option alloc_count (read_at (heaps st3) i) = map_option alloc_count (read_at (heaps st) i)" for i
      using list_insert_count [OF st3(1), of i] cnt1 [of i] st2(5) by simp
    moreover have "{t, a} - {t} = {a}" using ta by auto
    moreover have "only_hdrs (insert t N) (bytes st) (bytes st3)" using st3(8) st2(6) st1(4) by (simp add: only_hdrs_put)
    moreover have "region st3 (insert t N) = region st N"
      using region_split [OF a(1) st2(3) v3(1) st2(4)] k(3) by (simp add: v1)
    moreover have "\<forall>x \<in> N - {a}. esz st3 x = esz st x \<and> epd st3 x = epd st x" using st2(3) by (auto simp: v3)
    moreover have "\<forall>x \<in> insert t N - {a}. est st3 x = ELEM_FREE \<longrightarrow> est st3 (x + esz st3 x) \<noteq> ELEM_FREE"
      using coal3 by blast
    ultimately have "alloc_mid st N a st3 (insert t N)"
      unfolding alloc_mid_def using st3(2,3) busy3 by (simp only: subset_insertI simp_thms)
    moreover have "est st3 a = ELEM_FREE" using a ta by (simp add: v3)
    moreover have "unat s + 64 + unat sz \<le> unat a + unat (esz st3 a)" using uk s(1) ta by (simp add: v3)
    ultimately show ?thesis using True st1(1) st2(1) st3(1)
      by (intro exI [of _ st1] exI [of _ st3] exI [of _ "insert t N"]) (simp add: t_def Let_def flip: tr_def)
  qed
qed

lemma upd_pad_same: "e_pad e = p \<Longrightarrow> e\<lparr>e_state := s, e_pad := p\<rparr> = e\<lparr>e_state := s\<rparr>"
  by (cases e) simp

lemma busy_setI:
  assumes "b \<in> N'" "est st' b = ELEM_BUSY" and "\<forall>x \<in> N'. x \<noteq> b \<longrightarrow> (est st' x = ELEM_BUSY \<longleftrightarrow> x \<in> busy_set st N)"
    and "busy_set st N \<subseteq> N'"
  shows "busy_set st' N' = insert b (busy_set st N)"
  using assms by (auto simp: busy_set_def)

lemma malloc_elem_alloc_ok:
  assumes inv: "malloc_inv st N {}" and coal: "coalesced st N" and a: "a \<in> N" "est st a = ELEM_FREE"
    and pow: "POWEROF2 align" "64 \<le> unat align" and sz: "64 dvd unat sz"
    and low: "unat sz + unat align + 64 \<le> unat a"
    and s: "s = elem_start_pt a (the (elems st a)) sz align 0" "s \<noteq> 0"
  shows "\<exists>st' N' b. malloc_elem_alloc a sz align 0 st = Some (s, st') \<and> alloc_result st N s sz st' N' b"
proof -
  have ok: "blocks_ok st N" using inv by (simp add: malloc_inv_def)
  note ea = blocks_okD(1) [OF ok a(1)]
  obtain e where e: "elems st a = Some e" using elem_some [OF ea] by blast
  note fits = elem_start_pt_fits [OF ea pow sz low s]
  obtain st1 st2 N2 where mid: "elem_free_list_remove a st = Some st1"
    "(if MALLOC_ELEM_OVERHEAD + MIN_DATA_SIZE < esz st a - (s - a) - sz - MALLOC_ELEM_OVERHEAD then do {
              let new_free_elem = s + (sz + MALLOC_ELEM_OVERHEAD);
              st \<leftarrow> split_elem a new_free_elem st1;
              malloc_elem_free_list_insert new_free_elem st }
            else Some st1) = Some st2"
    "alloc_mid st N a st2 N2" "est st2 a = ELEM_FREE" "unat s + 64 + unat sz \<le> unat a + unat (esz st2 a)"
    using alloc_trailer [OF inv coal a fits(1,3) sz fits(2)] by blast
  have ok2: "blocks_ok st2 N2" and free2: "free_ok st2 N2 {a}" and N2: "N \<subseteq> N2"
    and same: "\<forall>x \<in> N - {a}. esz st2 x = esz st x \<and> epd st2 x = epd st x" and busy2: "busy_set st2 N2 = busy_set st N"
    and coal2: "\<forall>x \<in> N2 - {a}. est st2 x = ELEM_FREE \<longrightarrow> est st2 (x + esz st2 x) \<noteq> ELEM_FREE"
    and bytes2: "only_hdrs N2 (bytes st) (bytes st2)" and reg2: "region st2 N2 = region st N"
    and cnt2: "\<And>i. map_option alloc_count (read_at (heaps st2) i) = map_option alloc_count (read_at (heaps st) i)"
    using mid(3) by (auto simp: alloc_mid_def)
  have aN2: "a \<in> N2" using a(1) N2 by blast
  note ea2 = blocks_okD(1) [OF ok2 aN2]
  have anb: "a \<notin> busy_set st N" using a(2) by (simp add: busy_set_def)
  have usa: "unat (s - a) = unat s - unat a" using fits(1) by (subst unat_sub) (simp_all add: word_le_nat_alt)
  have head: "malloc_elem_alloc a sz align 0 st = (if s - a < MALLOC_ELEM_OVERHEAD + MIN_DATA_SIZE then do {
       st \<leftarrow> upd_elem a (\<lambda>e. e\<lparr>e_state := ELEM_BUSY, e_pad := ucast (s - a)\<rparr>) st2;
       e \<leftarrow> elems st a;
       if 0 < e_pad e then do {
         st \<leftarrow> Some (put_elem s ((case elems st s of Some p \<Rightarrow> p | None \<Rightarrow> e)
              \<lparr>e_pad := e_pad e, e_state := ELEM_PAD, e_size := e_size e - ucast (e_pad e)\<rparr>) st);
         Some (s, st) }
       else Some (s, st) }
     else do {
       st \<leftarrow> split_elem a s st2;
       st \<leftarrow> upd_elem s (\<lambda>e. e\<lparr>e_state := ELEM_BUSY\<rparr>) st;
       st \<leftarrow> malloc_elem_free_list_insert a st;
       Some (s, st) })"
  proof -
    have sp: "elem_start_pt a e sz align 0 = s" and ez: "e_size e = esz st a" using s(1) e by (simp_all add: esz_def)
    show ?thesis
      unfolding malloc_elem_alloc_def e Let_def bind.bind_lunit sp ez mid(1) mid(2) [unfolded Let_def] ..
  qed
  have nextN: "x + esz st2 x \<in> N2" if "x \<in> N2" "est st2 x = ELEM_FREE" for x
  proof -
    have "esz st2 x \<noteq> 0" using blocks_okD(1) [OF ok2 that(1)] that(2) by (auto simp: elem_ok_def)
    then show ?thesis using blocks_okD(2) [OF ok2 that(1)] by (simp add: next_ok_def)
  qed
  have dv: "64 dvd unat s - unat a" using fits(3) ea by (simp add: elem_ok_def)
  consider (same) "s = a" | (pad) "s \<noteq> a" "unat s - unat a = 64" | (cut) "128 \<le> unat s - unat a"
  proof -
    obtain q where q: "unat s - unat a = 64 * q" using dv by blast
    then have "q = 0 \<or> q = 1 \<or> 2 \<le> q" by linarith
    then show thesis
    proof (elim disjE)
      assume "q = 0"
      then have "unat s = unat a" using q fits(1) by simp
      then show thesis using same by (simp add: word_unat_eq_iff)
    next
      assume "q = 1"
      then have "unat s \<noteq> unat a" using q by simp
      then have "s \<noteq> a" by auto
      then show thesis using pad q \<open>q = 1\<close> by simp
    qed (use q cut in simp)
  qed
  then show ?thesis
  proof cases
    case same
    obtain st3 where st3: "upd_elem a (\<lambda>e. e\<lparr>e_state := ELEM_BUSY, e_pad := 0\<rparr>) st2 = Some st3" "blocks_ok st3 N2"
      "heaps st3 = heaps st2" "bytes st3 = bytes st2" "esz st3 = esz st2" "est st3 = (est st2)(a := ELEM_BUSY)"
      "ehp st3 = ehp st2" "epd st3 = (epd st2)(a := 0)"
      using upd_state_blocks [OF ok2 aN2, of ELEM_BUSY 0] by auto
    have "elems st3 a \<noteq> None" using blocks_okD(1) [OF st3(2) aN2] by (simp add: elem_ok_def)
    moreover have "epd st3 a = 0" by (simp add: st3(8))
    ultimately obtain e3 where e3: "elems st3 a = Some e3" "e_pad e3 = 0" by (auto simp: epd_def)
    have "malloc_elem_alloc a sz align 0 st = Some (s, st3)"
      unfolding head using same st3(1) e3 by simp
    moreover have "free_ok st3 N2 ({a} - {a})"
      by (rule busy_free [OF free2]) (use st3 in auto)
    moreover have "coalesced st3 N2"
      unfolding coalesced_def using coal2 nextN by (auto simp: st3(5,6))
    moreover have "busy_set st3 N2 = insert a (busy_set st N)"
      using busy2 aN2 by (auto simp: busy_set_def st3(6))
    ultimately have "alloc_result st N s sz st3 N2 a"
      using st3 N2 same anb mid(5) only_hdrs_mono [OF bytes2, of "insert s N2"] cnt2 \<open>\<forall>x \<in> N - {a}. _\<close> reg2
      by (auto simp: alloc_result_def malloc_inv_def busy_set_def region_def)
    then show ?thesis using \<open>malloc_elem_alloc a sz align 0 st = Some (s, st3)\<close> by blast
  next
    case pad
    have sa: "s - a = 64" using pad(2) usa by (simp add: word_unat_eq_iff)
    then have s64: "s = a + 64" by (simp add: algebra_simps)
    have sz2: "128 \<le> unat (esz st2 a)" using mid(5) pad(2) fits(1) by linarith
    obtain e2 where e2: "elems st2 a = Some e2" using elem_some [OF ea2] by blast
    define q where "q = (case ((elems st2)(a \<mapsto> e2\<lparr>e_state := ELEM_BUSY, e_pad := 64\<rparr>)) s of
        Some p \<Rightarrow> p | None \<Rightarrow> e2\<lparr>e_state := ELEM_BUSY, e_pad := 64\<rparr>)
        \<lparr>e_pad := 64, e_state := ELEM_PAD, e_size := e_size e2 - 64\<rparr>"
    define st3 where "st3 = st2\<lparr>elems := (elems st2)(a \<mapsto> (the (elems st2 a))\<lparr>e_state := ELEM_BUSY, e_pad := 64\<rparr>, s \<mapsto> q),
      bytes := hdr_bytes s (bytes st2)\<rparr>"
    note hd2 = blocks_ok_hdrs [OF ok2]
    have alloc: "malloc_elem_alloc a sz align 0 st = Some (s, st3)"
      unfolding head using pad(1) by (simp add: sa upd_elem_at hd2 e2 put_elem_line hdrs_ok_at fits(3) st3_def q_def)
    have "e_state q = ELEM_PAD" "e_pad q = 64" by (simp_all add: q_def)
    note pb = pad_blocks [OF ok2 aN2 mid(4) sz2 s64 this st3_def]
    have inN: "est st3 x = ((est st2)(a := ELEM_BUSY)) x" "esz st3 x = esz st2 x" "ehp st3 x = ehp st2 x"
      "epd st3 x = ((epd st2)(a := 64)) x" if "x \<in> N2" for x
    proof -
      have "x \<noteq> s" using pb that by auto
      then show "est st3 x = ((est st2)(a := ELEM_BUSY)) x" "esz st3 x = esz st2 x" "ehp st3 x = ehp st2 x"
        "epd st3 x = ((epd st2)(a := 64)) x" using pb by blast+
    qed
    have heaps3: "heaps st3 = heaps st2" by (simp add: st3_def)
    have "free_ok st3 N2 ({a} - {a})"
      by (rule busy_free [OF free2]) (use inN in \<open>auto simp: heaps3\<close>)
    moreover have "coalesced st3 N2"
      unfolding coalesced_def
    proof (intro ballI impI)
      fix x assume x: "x \<in> N2" "est st3 x = ELEM_FREE"
      then have x2: "x \<noteq> a" "est st2 x = ELEM_FREE" using inN [OF x(1)] by (auto split: if_splits)
      then have "est st2 (x + esz st2 x) \<noteq> ELEM_FREE" using coal2 x(1) by blast
      then show "est st3 (x + esz st3 x) \<noteq> ELEM_FREE"
        using inN [OF x(1)] inN(1) [OF nextN [OF x(1) x2(2)]] by auto
    qed
    moreover have "busy_set st3 N2 = insert a (busy_set st N)"
      by (rule busy_setI) (use aN2 inN(1) busy2 in \<open>auto simp: busy_set_def\<close>)
    moreover have "esz st3 x = esz st x \<and> epd st3 x = epd st x" if "x \<in> busy_set st N" for x
    proof -
      have "x \<in> N - {a}" "x \<in> N2" using that anb N2 by (auto simp: busy_set_def)
      then show ?thesis using same inN [of x] by auto
    qed
    moreover have "only_hdrs (insert s N2) (bytes st) (bytes st3)" "heaps st3 = heaps st2"
      by (simp_all add: st3_def only_hdrs_put bytes2)
    moreover have "epd st3 a = 64" "esz st3 a = esz st2 a" using inN [OF aN2] by simp_all
    moreover have "unat s = unat a + 64" "epd st3 s = 64" "est st3 s = ELEM_PAD" "elems st3 s \<noteq> None" "blocks_ok st3 N2"
      using pb by blast+
    moreover have "{a} - {a} = ({} :: u64 set)" by simp
    moreover have "region st3 N2 = region st N" unfolding reg2 [symmetric] by (rule region_cong) (rule inN)
    ultimately have "alloc_result st N s sz st3 N2 a"
      unfolding alloc_result_def malloc_inv_def using N2 anb mid(5) cnt2 s64 by simp
    then show ?thesis using alloc by blast
  next
    case cut
    have k: "s = a + (s - a)" "64 \<le> unat (s - a)" "64 dvd unat (s - a)" "unat (s - a) + 64 \<le> unat (esz st2 a)"
      using cut usa dv mid(5) fits(1) by auto
    have ncut: "\<not> s - a < MALLOC_ELEM_OVERHEAD + MIN_DATA_SIZE" using cut usa by (simp add: word_less_nat_alt)
    obtain st3 where st3: "split_elem a s st2 = Some st3" "blocks_ok st3 (insert s N2)" "s \<notin> N2"
      "heaps st3 = heaps st2" "bytes st3 = hdr_bytes s (bytes st2)"
      "esz st3 = (esz st2)(s := esz st2 a - (s - a), a := s - a)" "est st3 = (est st2)(s := ELEM_FREE)"
      "ehp st3 = (ehp st2)(s := ehp st2 a)" "epd st3 = (epd st2)(s := 0)"
      using split_blocks [OF ok2 aN2 k] mid(4) by auto
    have free3: "free_ok st3 (insert s N2) (insert s {a})"
      by (rule split_free [OF free2 _ st3(3,4,6,7,8)]) simp
    have sa: "s \<noteq> a" using cut by auto
    have rest: "unat (esz st2 a - (s - a)) = unat (esz st2 a) - (unat s - unat a)"
      using k(4) usa by (subst unat_sub) (simp_all add: word_le_nat_alt)
    obtain st4 where st4: "upd_elem s (\<lambda>e. e\<lparr>e_state := ELEM_BUSY, e_pad := 0\<rparr>) st3 = Some st4" "blocks_ok st4 (insert s N2)"
      "heaps st4 = heaps st3" "bytes st4 = bytes st3" "esz st4 = esz st3" "est st4 = (est st3)(s := ELEM_BUSY)"
      "ehp st4 = ehp st3" "epd st4 = (epd st3)(s := 0)"
      using upd_state_blocks [OF st3(2), of s ELEM_BUSY 0] by auto
    have "elems st3 s \<noteq> None" using blocks_okD(1) [OF st3(2), of s] by (simp add: elem_ok_def)
    moreover have "epd st3 s = 0" by (simp add: st3(9))
    ultimately have upd: "upd_elem s (\<lambda>e. e\<lparr>e_state := ELEM_BUSY\<rparr>) st3 = Some st4"
      using st4(1) by (auto simp: upd_elem_def epd_def upd_pad_same)
    have free4: "free_ok st4 (insert s N2) {a}"
      using busy_free [OF free3, of st4 s] st4 sa by auto
    have a4: "esz st4 a \<noteq> 0" using st4(5) st3(6) k(2) by auto
    obtain st5 where st5: "malloc_elem_free_list_insert a st4 = Some st5" "blocks_ok st5 (insert s N2)"
      "free_ok st5 (insert s N2) ({a} - {a})" "esz st5 = esz st4" "est st5 = (est st4)(a := ELEM_FREE)"
      "epd st5 = epd st4" "bytes st5 = bytes st4"
      using free_list_insert_inv [OF st4(2) free4 _ a4] aN2 by auto
    have v: "esz st5 = (esz st2)(s := esz st2 a - (s - a), a := s - a)" "est st5 = (est st2)(s := ELEM_BUSY)"
      "epd st5 = (epd st2)(s := 0)" "bytes st5 = hdr_bytes s (bytes st2)"
      using st3 st4 st5 mid(4) sa by (auto simp: fun_eq_iff)
    have alloc: "malloc_elem_alloc a sz align 0 st = Some (s, st5)"
      unfolding head using ncut st3(1) upd st5(1) by simp
    have cnt: "map_option alloc_count (read_at (heaps st5) i) = map_option alloc_count (read_at (heaps st) i)" for i
      using list_insert_count [OF st5(1), of i] cnt2 [of i] st3(4) st4(3) by simp
    have coal5: "coalesced st5 (insert s N2)"
      unfolding coalesced_def
    proof (intro ballI impI)
      fix x assume x: "x \<in> insert s N2" "est st5 x = ELEM_FREE"
      then have x2: "x \<noteq> s" "x \<in> N2" "est st2 x = ELEM_FREE" by (auto simp: v split: if_splits)
      show "est st5 (x + esz st5 x) \<noteq> ELEM_FREE"
      proof (cases "x = a")
        case True
        then show ?thesis using sa by (simp add: v)
      next
        case False
        then show ?thesis using coal2 x2 by (auto simp: v)
      qed
    qed
    have snb: "s \<notin> busy_set st N" using st3(3) N2 by (auto simp: busy_set_def)
    have "busy_set st5 (insert s N2) = insert s (busy_set st N)"
      by (rule busy_setI) (use busy2 in \<open>auto simp: busy_set_def v\<close>)
    moreover have "esz st5 x = esz st x \<and> epd st5 x = epd st x" if "x \<in> busy_set st N" for x
      using that same snb anb by (auto simp: busy_set_def v)
    moreover have "unat s + 64 + unat sz \<le> unat s + unat (esz st5 s)"
      using rest mid(5) fits(1) k(4) usa sa by (simp add: v)
    moreover have "region st5 (insert s N2) = region st N"
      using region_split [OF aN2 st3(3) v(1)] k(4) usa fits(1) reg2 by simp
    ultimately have "alloc_result st N s sz st5 (insert s N2) s"
      using st5(2,3) coal5 N2 snb cnt only_hdrs_put [OF bytes2, of s] by (auto simp: alloc_result_def malloc_inv_def v)
    then show ?thesis using alloc by blast
  qed
qed

section \<open>Freeing an element\<close>

lemma join_free:
  assumes "free_ok st N X" and "a \<in> X \<or> est st a = ELEM_BUSY" and "b \<in> X \<or> est st b = ELEM_BUSY"
    and "heaps st' = heaps st" and "esz st' = (esz st)(a := x)" and "est st' = est st" and "ehp st' = ehp st" and "a \<noteq> b"
  shows "free_ok st' (N - {b}) (X - {b})"
proof -
  have "on_list st' (N - {b}) (X - {b}) = on_list st N X"
    using assms(2,3) by (auto simp: on_list_def assms(5-7) fun_eq_iff)
  then show ?thesis using assms by (auto simp: free_ok_def)
qed

lemma remove_join:
  assumes ok: "blocks_ok st N" and free: "free_ok st N {}" and a: "a \<in> N" "est st a = ELEM_BUSY" "esz st a \<noteq> 0"
    and b: "b = a + esz st a" "est st b = ELEM_FREE"
  shows "\<exists>st1 st2. elem_free_list_remove b st = Some st1 \<and> join_elem a b st1 = Some st2 \<and>
    blocks_ok st2 (N - {b}) \<and> free_ok st2 (N - {b}) {} \<and> b \<in> N \<and> b \<noteq> a \<and> esz st b \<noteq> 0 \<and>
    esz st2 = (esz st)(a := esz st a + esz st b) \<and> est st2 = est st \<and> ehp st2 = ehp st \<and> epd st2 = epd st \<and>
    epv st2 a = epv st a \<and> bytes st2 = bytes st \<and> region st2 (N - {b}) = region st N"
proof -
  note ea = blocks_okD(1) [OF ok a(1)]
  have bN: "b \<in> N" using blocks_okD(2) [OF ok a(1)] a(3) by (simp add: next_ok_def b)
  note eb = blocks_okD(1) [OF ok bN]
  have szb: "esz st b \<noteq> 0" using eb b(2) by (auto simp: elem_ok_def)
  obtain st1 where st1: "elem_free_list_remove b st = Some st1" "free_ok st1 N {b}" "elems st1 = elems st" "bytes st1 = bytes st"
    using elem_free_list_remove_inv [OF free, of b] bN b(2) eb by (auto simp: elem_ok_def)
  have v1: "esz st1 = esz st" "est st1 = est st" "ehp st1 = ehp st" "epd st1 = epd st" "epv st1 = epv st"
    using st1(3) by (simp_all add: elem_views fun_eq_iff)
  have ok1: "blocks_ok st1 N"
    using ok by (simp add: blocks_ok_def elem_ok_def next_ok_def prev_ok_def pad_ok_def apart_def v1 st1(3,4))
  obtain st2 where st2: "join_elem a b st1 = Some st2" "blocks_ok st2 (N - {b})" "b \<noteq> a" "heaps st2 = heaps st1"
    "bytes st2 = bytes st1" "esz st2 = (esz st1)(a := esz st1 a + esz st1 b)"
    "unat (esz st1 a + esz st1 b) = unat (esz st1 a) + unat (esz st1 b)"
    "est st2 = est st1" "ehp st2 = ehp st1" "epd st2 = epd st1" "epv st2 a = epv st1 a"
    using join_blocks [OF ok1 a(1), of b] a(3) szb b(1) by (auto simp: v1)
  have "free_ok st2 (N - {b}) ({b} - {b})"
    by (rule join_free [OF st1(2) _ _ st2(4,6,8,9)]) (use a st2(3) in \<open>auto simp: v1\<close>)
  moreover have "unat b = unat a + unat (esz st a)" using unat_next [OF ea] by (simp add: b)
  then have "region st2 (N - {b}) = region st N"
    using region_join [OF a(1) bN st2(3)] st2(6,7) by (simp add: v1)
  ultimately show ?thesis using st1 st2 bN szb by (intro exI [of _ st1] exI [of _ st2]) (simp add: v1)
qed

lemma upd_count_inv:
  assumes "free_ok st N X" and "h < RTE_MAX_NUMA_NODES"
  shows "\<exists>st'. upd_heap h (\<lambda>hp. hp\<lparr>alloc_count := f (alloc_count hp)\<rparr>) st = Some st' \<and> elems st' = elems st \<and>
    bytes st' = bytes st \<and> free_ok st' N X \<and>
    heaps st' = (heaps st)[h := (heaps st ! h)\<lparr>alloc_count := f (alloc_count (heaps st ! h))\<rparr>]"
proof -
  have len: "length (heaps st) = RTE_MAX_NUMA_NODES" using assms(1) by (simp add: free_ok_def)
  define st' where "st' = st\<lparr>heaps := (heaps st)[h := (heaps st ! h)\<lparr>alloc_count := f (alloc_count (heaps st ! h))\<rparr>]\<rparr>"
  have "free_head (heaps st' ! g) = free_head (heaps st ! g)" if "g < RTE_MAX_NUMA_NODES" for g
    using that len by (cases "g = h") (auto simp: st'_def)
  moreover have "on_list st' N X g i = on_list st N X g i" "est st' = est st" for g i
    by (simp_all add: on_list_def elem_views st'_def fun_eq_iff)
  ultimately have "free_ok st' N X" using assms(1) by (auto simp: free_ok_def) (simp add: st'_def)
  then show ?thesis using len assms(2) by (intro exI [of _ st']) (simp add: upd_heap_def st'_def)
qed

lemma inv_elems_cong:
  assumes "elems st' = elems st" "bytes st' = bytes st"
  shows "blocks_ok st' N = blocks_ok st N" and "coalesced st' N = coalesced st N" and "region st' N = region st N"
    and "busy_set st' N = busy_set st N" and "esz st' = esz st" and "epd st' = epd st" and "est st' = est st"
proof -
  show v: "esz st' = esz st" "epd st' = epd st" "est st' = est st" using assms(1) by (simp_all add: elem_views fun_eq_iff)
  have w: "epv st' = epv st" "ehp st' = ehp st" using assms(1) by (simp_all add: elem_views fun_eq_iff)
  show "blocks_ok st' N = blocks_ok st N" "coalesced st' N = coalesced st N" "region st' N = region st N"
    "busy_set st' N = busy_set st N"
    by (simp_all add: blocks_ok_def elem_ok_def next_ok_def prev_ok_def pad_ok_def apart_def coalesced_def region_def
        busy_set_def v w assms)
qed

lemma list_remove_views:
  "elem_free_list_remove a st = Some st' \<Longrightarrow> elems st' = elems st"
  by (auto simp: elem_free_list_remove_def upd_heap_def bind_eq_Some_conv split: if_splits)

definition free_result :: "malloc_mem \<Rightarrow> u64 set \<Rightarrow> u64 \<Rightarrow> malloc_mem \<Rightarrow> u64 set \<Rightarrow> bool" where
  "free_result st N a st' N' \<longleftrightarrow> malloc_inv st' N' {} \<and> coalesced st' N' \<and> N' \<subseteq> N \<and> region st' N' = region st N \<and>
     busy_set st' N' = busy_set st N - {a} \<and>
     (\<forall>x \<in> busy_set st N - {a}. esz st' x = esz st x \<and> epd st' x = epd st x) \<and> bytes st' = bytes st"

text \<open>The state after the merge with the next element: the rest of \<open>malloc_elem_free\<close> starts here.\<close>

lemma free_next:
  assumes inv: "malloc_inv st N {}" and coal: "coalesced st N" and a: "a \<in> N" "est st a = ELEM_BUSY" "esz st a \<noteq> 0"
    and b_def: "b = a + esz st a"
  shows "\<exists>st1 N1. (do { n \<leftarrow> elems st b;
           if e_state n = ELEM_FREE then do { st \<leftarrow> elem_free_list_remove b st; join_elem a b st }
           else Some st }) = Some st1 \<and>
    blocks_ok st1 N1 \<and> free_ok st1 N1 {} \<and> N1 \<subseteq> N \<and> a \<in> N1 \<and> region st1 N1 = region st N \<and>
    est st1 = est st \<and> ehp st1 = ehp st \<and> epd st1 = epd st \<and> bytes st1 = bytes st \<and> epv st1 a = epv st a \<and>
    busy_set st1 N1 = busy_set st N \<and> esz st1 a \<noteq> 0 \<and> (\<forall>x. x \<noteq> a \<longrightarrow> esz st1 x = esz st x) \<and>
    est st1 (a + esz st1 a) \<noteq> ELEM_FREE"
proof -
  have ok: "blocks_ok st N" and free: "free_ok st N {}" using inv by (auto simp: malloc_inv_def)
  have bN: "b \<in> N" using blocks_okD(2) [OF ok a(1)] a(3) by (simp add: next_ok_def b_def)
  obtain n where n: "elems st b = Some n" using elem_some [OF blocks_okD(1) [OF ok bN]] by blast
  then have sn: "e_state n = est st b" by (simp add: est_def)
  show ?thesis
  proof (cases "est st b = ELEM_FREE")
    case False
    then show ?thesis using ok free a n sn
      by (intro exI [of _ st] exI [of _ N]) (simp flip: b_def)
  next
    case True
    obtain st1 st2 where st: "elem_free_list_remove b st = Some st1" "join_elem a b st1 = Some st2"
      "blocks_ok st2 (N - {b})" "free_ok st2 (N - {b}) {}" "b \<noteq> a" "esz st b \<noteq> 0"
      "esz st2 = (esz st)(a := esz st a + esz st b)" "est st2 = est st" "ehp st2 = ehp st" "epd st2 = epd st"
      "epv st2 a = epv st a" "bytes st2 = bytes st" "region st2 (N - {b}) = region st N"
      using remove_join [OF ok free a b_def True] by blast
    have "busy_set st2 (N - {b}) = busy_set st N" using True st(8) by (auto simp: busy_set_def)
    moreover have a2: "esz st2 a \<noteq> 0"
    proof -
      have "64 \<le> unat (esz st a)" using size_ge_64 [OF blocks_okD(1) [OF ok a(1)] a(3)] .
      moreover have "unat (esz st a + esz st b) = unat (esz st a) + unat (esz st b)"
      proof (rule unat_add_fit)
        have "elem_ok st b" using blocks_okD(1) [OF ok bN] .
        moreover have "unat b = unat a + unat (esz st a)"
          using unat_next [OF blocks_okD(1) [OF ok a(1)]] by (simp add: b_def)
        ultimately show "unat (esz st a) + unat (esz st b) < 2 ^ 64" by (simp add: elem_ok_def)
      qed
      ultimately have "0 < unat (esz st a + esz st b)" by simp
      then show ?thesis by (auto simp: st(7))
    qed
    moreover have "est st2 (a + esz st2 a) \<noteq> ELEM_FREE"
    proof -
      have "a + esz st2 a = b + esz st b" by (simp add: b_def st(7))
      then show ?thesis using coal bN True by (simp add: st(8) coalesced_def)
    qed
    ultimately show ?thesis using st a(1) n sn True
      by (intro exI [of _ st2] exI [of _ "N - {b}"]) (simp flip: b_def)
  qed
qed

lemma malloc_elem_free_ok:
  assumes inv: "malloc_inv st N {}" and coal: "coalesced st N" and a: "a \<in> N" "est st a = ELEM_BUSY" "esz st a \<noteq> 0"
  shows "\<exists>st' N'. malloc_elem_free a st = Some (0, st') \<and> free_result st N a st' N'"
proof -
  have ok: "blocks_ok st N" using inv by (auto simp: malloc_inv_def)
  note ea = blocks_okD(1) [OF ok a(1)]
  obtain e where e: "elems st a = Some e" using elem_some [OF ea] by blast
  then have ev: "e_state e = ELEM_BUSY" "e_size e = esz st a" using a(2) by (simp_all add: elem_views)
  have a0: "a \<noteq> 0" using ea by (simp add: elem_ok_def)
  define b where "b = a + esz st a"
  define hh where "hh = ehp st a"
  obtain st1 N1 where mid: "(do { n \<leftarrow> elems st b;
           if e_state n = ELEM_FREE then do { st \<leftarrow> elem_free_list_remove b st; join_elem a b st }
           else Some st }) = Some st1"
    and ok1: "blocks_ok st1 N1" and free1: "free_ok st1 N1 {}" and N1: "N1 \<subseteq> N" "a \<in> N1"
    and reg1: "region st1 N1 = region st N" and v1: "est st1 = est st" "ehp st1 = ehp st" "epd st1 = epd st"
    "bytes st1 = bytes st" "epv st1 a = epv st a" and busy1: "busy_set st1 N1 = busy_set st N" and a1: "esz st1 a \<noteq> 0"
    and same1: "\<forall>x. x \<noteq> a \<longrightarrow> esz st1 x = esz st x" and nxt1: "est st1 (a + esz st1 a) \<noteq> ELEM_FREE"
    using free_next [OF inv coal a b_def] by blast
  obtain e1 where e1: "elems st1 a = Some e1" using elem_some [OF blocks_okD(1) [OF ok1 N1(2)]] by blast
  then have e1v: "e_prev e1 = epv st1 a" "e_heap e1 = ehp st1 a" by (simp_all add: elem_views)
  define p where "p = epv st1 a"
  define joined where "joined \<longleftrightarrow> p \<noteq> 0 \<and> est st1 p = ELEM_FREE"
  have pN: "p \<in> N1" "esz st1 p \<noteq> 0" "p + esz st1 p = a" if "p \<noteq> 0"
    using blocks_okD(3) [OF ok1 N1(2)] that by (auto simp: prev_ok_def p_def)
  have pj: "(if p \<noteq> NULL then map_option (\<lambda>q. e_state q = ELEM_FREE) (elems st1 p) else Some False) = Some joined"
    using elem_some [OF blocks_okD(1) [OF ok1 pN(1)]] by (auto simp: joined_def est_def)
  have run: "malloc_elem_free a st = do {
       st \<leftarrow> (if joined then do { st \<leftarrow> elem_free_list_remove p st1; st \<leftarrow> join_elem p a st; malloc_elem_free_list_insert p st }
             else do { st \<leftarrow> malloc_elem_free_list_insert a st1; upd_elem a (\<lambda>e. e\<lparr>e_pad := 0\<rparr>) st });
       st \<leftarrow> upd_heap hh (\<lambda>h. h\<lparr>alloc_count := alloc_count h - 1\<rparr>) st;
       Some (0, st) }"
  proof -
    obtain n where n: "elems st b = Some n"
      "(if e_state n = ELEM_FREE then do { st \<leftarrow> elem_free_list_remove b st; join_elem a b st }
           else Some st) = Some st1" using mid by (auto simp: bind_eq_Some_conv)
    show ?thesis
      unfolding malloc_elem_free_def if_not_P [OF a0] e Let_def bind.bind_lunit ev b_def [symmetric]
      by (simp only: n bind.bind_lunit e1 e1v p_def [symmetric] pj v1(2) hh_def [symmetric] if_False simp_thms)
  qed
  have hp: "hh < RTE_MAX_NUMA_NODES" using ea by (simp add: elem_ok_def hh_def)
  have coal1: "est st1 (x + esz st1 x) \<noteq> ELEM_FREE" if "x \<in> N1" "x \<noteq> a" "est st1 x = ELEM_FREE" for x
  proof -
    have "x \<in> N" "est st x = ELEM_FREE" using that N1 v1(1) by auto
    then have "est st (x + esz st x) \<noteq> ELEM_FREE" using coal by (simp add: coalesced_def)
    then show ?thesis using that(2) same1 by (simp add: v1(1))
  qed
  obtain st3 N3 where st3: "(if joined then do { st \<leftarrow> elem_free_list_remove p st1; st \<leftarrow> join_elem p a st; malloc_elem_free_list_insert p st }
             else do { st \<leftarrow> malloc_elem_free_list_insert a st1; upd_elem a (\<lambda>e. e\<lparr>e_pad := 0\<rparr>) st }) = Some st3"
    "blocks_ok st3 N3" "free_ok st3 N3 {}" "free_result st N a st3 N3"
  proof (cases joined)
    case False
    obtain st2 where st2: "malloc_elem_free_list_insert a st1 = Some st2" "blocks_ok st2 N1" "free_ok st2 N1 ({} - {a})"
      "esz st2 = esz st1" "est st2 = (est st1)(a := ELEM_FREE)" "ehp st2 = ehp st1" "epd st2 = epd st1" "epv st2 = epv st1"
      "bytes st2 = bytes st1"
      using free_list_insert_inv [OF ok1 free1 N1(2) a1] a(2) v1(1) by auto
    obtain st3 where st3: "upd_elem a (\<lambda>e. e\<lparr>e_state := ELEM_FREE, e_pad := 0\<rparr>) st2 = Some st3" "blocks_ok st3 N1"
      "heaps st3 = heaps st2" "bytes st3 = bytes st2" "esz st3 = esz st2" "est st3 = (est st2)(a := ELEM_FREE)"
      "ehp st3 = ehp st2" "epd st3 = (epd st2)(a := 0)"
      using upd_state_blocks [OF st2(2) N1(2), of ELEM_FREE 0] a1 st2(4) by auto
    have "upd_elem a (\<lambda>e. e\<lparr>e_pad := 0\<rparr>) st2 = Some st3"
    proof -
      obtain e2 where e2: "elems st2 a = Some e2" using elem_some [OF blocks_okD(1) [OF st2(2) N1(2)]] by blast
      have "est st2 a = ELEM_FREE" by (simp add: st2(5))
      then have "e2\<lparr>e_state := ELEM_FREE, e_pad := 0\<rparr> = e2\<lparr>e_pad := 0\<rparr>" using e2 by (cases e2) (simp add: est_def)
      then show ?thesis using st3(1) e2 by (simp add: upd_elem_def)
    qed
    moreover have free3: "free_ok st3 N1 {}"
    proof -
      have "on_list st3 N1 {} h i = on_list st2 N1 {} h i" for h i
        using st2(5) by (simp add: on_list_def st3(5-7) fun_upd_idem)
      then show ?thesis using st2(3) st3(3,6) st2(5) by (auto simp: free_ok_def)
    qed
    moreover have "coalesced st3 N1"
      unfolding coalesced_def
    proof (intro ballI impI)
      fix x assume x: "x \<in> N1" "est st3 x = ELEM_FREE"
      have sz3: "esz st3 = esz st1" by (simp add: st3(5) st2(4))
      show "est st3 (x + esz st3 x) \<noteq> ELEM_FREE"
      proof (cases "x = a")
        case True
        then show ?thesis using nxt1 a1 by (simp add: sz3 st3(6) st2(5))
      next
        case False
        then have xf: "est st1 x = ELEM_FREE" using x(2) by (simp add: st3(6) st2(5))
        have "x + esz st1 x \<noteq> a"
        proof
          assume eq: "x + esz st1 x = a"
          have "elem_ok st1 x" "next_ok st1 N1 x" using blocks_okD(1,2) [OF ok1 x(1)] by auto
          then have "epv st1 a = x" "x \<noteq> 0" using eq xf by (auto simp: next_ok_def elem_ok_def)
          with xf have joined by (simp add: joined_def p_def)
          with \<open>\<not> joined\<close> show False ..
        qed
        then show ?thesis using coal1 [OF x(1) False xf] by (simp add: sz3 st3(6) st2(5))
      qed
    qed
    moreover have "busy_set st3 N1 = busy_set st N - {a}"
      using busy1 by (auto simp: busy_set_def st3(6) st2(5) v1(1))
    moreover have "region st3 N1 = region st N" using reg1 by (simp add: region_def st3(5) st2(4))
    moreover have "\<forall>x \<in> busy_set st N - {a}. esz st3 x = esz st x \<and> epd st3 x = epd st x"
      using same1 by (auto simp: st3(5,8) st2(4,7) v1(3))
    ultimately have "free_result st N a st3 N1"
      using st3 st2 N1 v1(4) by (simp add: free_result_def malloc_inv_def)
    with False st2(1) \<open>upd_elem a (\<lambda>e. e\<lparr>e_pad := 0\<rparr>) st2 = Some st3\<close> st3(2) free3 show thesis
      by (intro that [of st3 N1]) simp_all
  next
    case True
    then have p: "p \<noteq> 0" "est st1 p = ELEM_FREE" by (auto simp: joined_def)
    note pN' = pN [OF p(1)]
    have ea1: "est st1 a = ELEM_BUSY" using a(2) v1(1) by simp
    then have pa: "p \<noteq> a" using p by auto
    obtain st2 where st2: "elem_free_list_remove p st1 = Some st2" "free_ok st2 N1 {p}" "elems st2 = elems st1" "bytes st2 = bytes st1"
      using elem_free_list_remove_inv [OF free1, of p] pN'(1) p(2) blocks_okD(1) [OF ok1 pN'(1)] by (auto simp: elem_ok_def)
    note v2 = inv_elems_cong [OF st2(3,4)]
    have h2: "ehp st2 = ehp st1" "epv st2 = epv st1" using st2(3) by (simp_all add: elem_views fun_eq_iff)
    have ok2: "blocks_ok st2 N1" using ok1 v2(1) by simp
    obtain st3 where st3: "join_elem p a st2 = Some st3" "blocks_ok st3 (N1 - {a})" "heaps st3 = heaps st2"
      "bytes st3 = bytes st2" "esz st3 = (esz st2)(p := esz st2 p + esz st2 a)"
      "unat (esz st2 p + esz st2 a) = unat (esz st2 p) + unat (esz st2 a)"
      "est st3 = est st2" "ehp st3 = ehp st2" "epd st3 = epd st2"
      using join_blocks [OF ok2 pN'(1), of a] pN' a1 by (auto simp: v2)
    have free3: "free_ok st3 (N1 - {a}) ({p} - {a})"
      by (rule join_free [OF st2(2) _ _ st3(3,5,7,8) pa]) (use ea1 in \<open>simp_all add: v2\<close>)
    have "64 \<le> unat (esz st2 p)" using size_ge_64 [OF blocks_okD(1) [OF ok1 pN'(1)] pN'(2)] by (simp add: v2)
    then have "0 < unat (esz st3 p)" using st3(5,6) by simp
    then have p3: "esz st3 p \<noteq> 0" by auto
    have pin: "p \<in> N1 - {a}" using pN'(1) pa by simp
    obtain st4 where st4: "malloc_elem_free_list_insert p st3 = Some st4" "blocks_ok st4 (N1 - {a})"
      "free_ok st4 (N1 - {a}) ({p} - {a} - {p})" "esz st4 = esz st3" "est st4 = (est st3)(p := ELEM_FREE)"
      "ehp st4 = ehp st3" "epd st4 = epd st3" "bytes st4 = bytes st3"
      using free_list_insert_inv [OF st3(2) free3 pin p3] pa by auto
    have ust: "est st4 = est st1" using st4(5) st3(7) v2(7) p(2) by auto
    have usz: "esz st4 = (esz st1)(p := esz st1 p + esz st1 a)" using st4(4) st3(5) v2(5) by simp
    have "coalesced st4 (N1 - {a})"
      unfolding coalesced_def
    proof (intro ballI impI)
      fix x assume x: "x \<in> N1 - {a}" "est st4 x = ELEM_FREE"
      show "est st4 (x + esz st4 x) \<noteq> ELEM_FREE"
      proof (cases "x = p")
        case True
        have "p + esz st1 p + esz st1 a = a + esz st1 a" by (simp only: pN'(3))
        then have eq: "p + (esz st1 p + esz st1 a) = a + esz st1 a" by (simp only: add.assoc)
        show ?thesis unfolding True ust usz fun_upd_same eq by (rule nxt1)
      next
        case False
        then show ?thesis using coal1 [of x] x by (simp add: ust usz)
      qed
    qed
    moreover have "busy_set st4 (N1 - {a}) = busy_set st N - {a}" using busy1 by (auto simp: busy_set_def ust)
    moreover have "unat a = unat p + unat (esz st1 p)"
      using unat_next [OF blocks_okD(1) [OF ok1 pN'(1)]] by (simp add: pN'(3))
    then have "region st4 (N1 - {a}) = region st N"
      using region_join [OF pN'(1) N1(2) _ usz] st3(6) pa reg1 by (simp add: v2)
    moreover have "\<forall>x \<in> busy_set st N - {a}. esz st4 x = esz st x \<and> epd st4 x = epd st x"
    proof
      fix x assume x: "x \<in> busy_set st N - {a}"
      then have "x \<noteq> p" using p(2) v1(1) by (auto simp: busy_set_def)
      then show "esz st4 x = esz st x \<and> epd st4 x = epd st x"
        using same1 x by (simp add: usz st4(7) st3(9) v2 v1(3))
    qed
    moreover have e0: "{p} - {a} - {p} = ({} :: u64 set)" by auto
    note fr4 = st4(3) [unfolded e0]
    have "bytes st4 = bytes st" using st4(8) st3(4) st2(4) v1(4) by simp
    moreover have "N1 - {a} \<subseteq> N" using N1 by auto
    ultimately have "free_result st N a st4 (N1 - {a})"
      unfolding free_result_def malloc_inv_def using st4(2) fr4 by blast
    with True st2(1) st3(1) st4(1,2) fr4 show thesis
      by (intro that [of st4 "N1 - {a}"]) simp_all
  qed
  obtain st4 where st4: "upd_heap hh (\<lambda>h. h\<lparr>alloc_count := alloc_count h - 1\<rparr>) st3 = Some st4"
    "elems st4 = elems st3" "bytes st4 = bytes st3" "free_ok st4 N3 {}"
    using upd_count_inv [OF st3(3) hp, of "\<lambda>c. c - 1"] by blast
  have "free_result st N a st4 N3"
    using st3(4) st4(3,4) inv_elems_cong [OF st4(2,3)] by (simp add: free_result_def malloc_inv_def)
  then show ?thesis using run st3(1) st4(1) by auto
qed

end
