(* ===== verification/Malloc_Heap.thy ===== *)
theory Malloc_Heap
  imports Malloc_Proof
begin

text \<open>
  The allocator as its users see it: free-list classes, the search for an element,
  \<open>malloc_heap_alloc\<close>, \<open>rte_malloc\<close> and \<open>rte_free\<close>, the interface \<open>allocator\<close> they implement,
  and the requests on which the code does not do what it should.
\<close>

section \<open>Free-list classes\<close>

lemma bit_length_le: "bit_length n \<le> k \<longleftrightarrow> n < 2 ^ k"
proof (induction n arbitrary: k rule: bit_length.induct)
  case (1 n)
  show ?case
  proof (cases "n = 0")
    case True
    then show ?thesis by (simp add: bit_length.simps [of 0])
  next
    case False
    show ?thesis
    proof (cases k)
      case 0
      then show ?thesis using False by (subst bit_length.simps) simp
    next
      case (Suc j)
      have "n div 2 < 2 ^ j \<longleftrightarrow> n < 2 ^ Suc j" by (simp add: div_less_iff_less_mult mult.commute)
      then show ?thesis using 1 [OF False, of j] Suc False by (subst bit_length.simps) simp
    qed
  qed
qed

lemma free_list_index_le:
  assumes "i < RTE_HEAP_NUM_FREELISTS - 1"
  shows "malloc_elem_free_list_index sz \<le> i \<longleftrightarrow> unat sz \<le> 2 ^ (8 + 2 * i)"
proof (cases "sz \<le> 256")
  case True
  then have "unat sz \<le> 2 ^ 8" by (simp add: word_le_nat_alt)
  also have "(2::nat) ^ 8 \<le> 2 ^ (8 + 2 * i)" by (rule power_increasing) simp_all
  finally show ?thesis using True by (simp add: malloc_elem_free_list_index_def)
next
  case False
  define l where "l = bit_length (unat (sz - 1))"
  have big: "256 < unat sz" using False by (simp add: word_le_nat_alt)
  then have "sz \<noteq> 0" by auto
  then have pred: "unat (sz - 1) = unat sz - 1" by (simp add: unat_minus_one)
  have "\<not> l \<le> 8" using big by (simp add: l_def bit_length_le pred)
  then have "(l - 8 + 2 - 1) div 2 \<le> i \<longleftrightarrow> l \<le> 8 + 2 * i" by linarith
  also have "\<dots> \<longleftrightarrow> unat sz \<le> 2 ^ (8 + 2 * i)" using big by (auto simp: l_def bit_length_le pred)
  finally show ?thesis using assms False
    by (auto simp add: malloc_elem_free_list_index_def Let_def l_def [symmetric])
qed

lemma free_list_index_bound: "malloc_elem_free_list_index sz < RTE_HEAP_NUM_FREELISTS"
  by (simp add: malloc_elem_free_list_index_def Let_def)

lemma free_list_index_mono:
  assumes "unat a \<le> unat b"
  shows "malloc_elem_free_list_index a \<le> malloc_elem_free_list_index b"
proof (cases "malloc_elem_free_list_index b < RTE_HEAP_NUM_FREELISTS - 1")
  case True
  then show ?thesis using assms free_list_index_le [OF True, of a] free_list_index_le [OF True, of b] by simp
next
  case False
  then show ?thesis using free_list_index_bound [of a] by simp
qed

text \<open>
  Free list \<open>i\<close> holds the sizes of the documented class: the index of a size is the least
  \<open>i\<close> with a size of at most $2^{8 + 2i}$, and the last list takes all larger ones.
\<close>

theorem malloc_elem_free_list_index_class:
  "malloc_elem_free_list_index sz = min (RTE_HEAP_NUM_FREELISTS - 1) (LEAST i. unat sz \<le> 2 ^ (8 + 2 * i))"
proof -
  define m where "m = (LEAST i. unat sz \<le> 2 ^ (8 + 2 * i))"
  have "unat sz < 2 ^ LENGTH(64)" by (rule unsigned_less)
  then have "unat sz \<le> 2 ^ (8 + 2 * 28)" by simp
  then have m: "unat sz \<le> 2 ^ (8 + 2 * m)" unfolding m_def by (rule LeastI)
  have cut: "m \<le> i \<longleftrightarrow> unat sz \<le> 2 ^ (8 + 2 * i)" for i
  proof
    assume "m \<le> i"
    then have "(2::nat) ^ (8 + 2 * m) \<le> 2 ^ (8 + 2 * i)" by (intro power_increasing) auto
    with m show "unat sz \<le> 2 ^ (8 + 2 * i)" by linarith
  qed (simp add: m_def Least_le)
  define x where "x = malloc_elem_free_list_index sz"
  define y where "y = min 12 m"
  have eq: "x \<le> i \<longleftrightarrow> y \<le> i" if "i < 12" for i
    using free_list_index_le [of i sz] that cut [of i] by (auto simp: x_def y_def)
  have "x \<le> 12" "y \<le> 12" using free_list_index_bound [of sz] by (auto simp: x_def y_def)
  then have "x = y" using eq [of x] eq [of y] by (cases "x < 12"; cases "y < 12") auto
  then show ?thesis by (simp add: x_def y_def m_def)
qed

section \<open>Searching the free lists\<close>

definition holds :: "malloc_mem \<Rightarrow> u64 \<Rightarrow> u32 \<Rightarrow> u64 \<Rightarrow> u64 \<Rightarrow> bool" where
  "holds st sz align bound a \<longleftrightarrow> elem_start_pt a (the (elems st a)) sz align bound \<noteq> 0"

lemma search_free_list_find:
  assumes "\<forall>a \<in> set l. elems st a \<noteq> None"
  shows "search_free_list st sz 0 align bound alt l =
    Some (case find (holds st sz (ucast align) bound) l of None \<Rightarrow> Inr alt | Some a \<Rightarrow> Inl a)"
  using assms
  by (induction l arbitrary: alt)
    (auto simp: malloc_elem_can_hold_def holds_def check_hugepage_sz_def)

lemma search_free_lists_find:
  assumes "\<forall>a \<in> set (concat ls). elems st a \<noteq> None"
  shows "search_free_lists st sz 0 align bound alt ls =
    Some (case find (holds st sz (ucast align) bound) (concat ls) of None \<Rightarrow> Inr alt | Some a \<Rightarrow> Inl a)"
  using assms
proof (induction ls arbitrary: alt)
  case (Cons l ls)
  have app: "find P (xs @ ys) = (case find P xs of None \<Rightarrow> find P ys | Some y \<Rightarrow> Some y)" for P :: "u64 \<Rightarrow> bool" and xs ys
    by (induction xs) auto
  show ?case using Cons by (auto simp: search_free_list_find app split: option.split)
qed simp

lemma listed_free:
  assumes "blocks_ok st N" and "free_ok st N {}" and "h < RTE_MAX_NUMA_NODES"
    and "a \<in> set (concat (free_head (heaps st ! h)))"
  shows "a \<in> N \<and> est st a = ELEM_FREE \<and> ehp st a = h"
proof -
  from assms(4) obtain l where l: "l \<in> set (free_head (heaps st ! h))" "a \<in> set l" by auto
  then obtain i where "i < length (free_head (heaps st ! h))" "a \<in> set (free_head (heaps st ! h) ! i)"
    unfolding in_set_conv_nth [of l] by blast
  then show ?thesis using assms(2,3) by (auto simp: free_ok_def on_list_def)
qed

lemma find_suitable_element_ok:
  assumes ok: "blocks_ok st N" and free: "free_ok st N {}" and h: "h < RTE_MAX_NUMA_NODES"
    and pow: "POWEROF2 (ucast align :: u32)" "64 \<le> unat (ucast align :: u32)" and sz: "64 dvd unat sz"
    and low: "\<forall>a \<in> N. unat sz + unat (ucast align :: u32) + 64 \<le> unat a"
  shows "\<exists>a. find_suitable_element (heaps st ! h) sz 0 align 0 st = Some a \<and>
    (a = 0 \<and> (\<forall>x \<in> N. est st x = ELEM_FREE \<and> ehp st x = h \<longrightarrow> \<not> holds st sz (ucast align) 0 x) \<or>
     a \<in> N \<and> est st a = ELEM_FREE \<and> ehp st a = h \<and> holds st sz (ucast align) 0 a)"
proof -
  define i0 where "i0 = malloc_elem_free_list_index sz"
  define l where "l = concat (drop i0 (free_head (heaps st ! h)))"
  have sub: "set l \<subseteq> set (concat (free_head (heaps st ! h)))"
    unfolding l_def by (auto dest: in_set_dropD)
  have "elems st a \<noteq> None" if "a \<in> set l" for a
    using listed_free [OF ok free h, of a] sub that blocks_okD(1) [OF ok, of a] by (auto simp: elem_ok_def)
  then have run: "find_suitable_element (heaps st ! h) sz 0 align 0 st =
      Some (case find (holds st sz (ucast align) 0) l of None \<Rightarrow> 0 | Some a \<Rightarrow> a)"
    using search_free_lists_find [of "drop i0 (free_head (heaps st ! h))" st sz align 0 0]
    by (auto simp: find_suitable_element_def i0_def [symmetric] l_def [symmetric] split: option.split)
  show ?thesis
  proof (cases "find (holds st sz (ucast align) 0) l")
    case (Some a)
    then have "a \<in> set l" "holds st sz (ucast align) 0 a" by (auto simp: find_Some_iff)
    then show ?thesis using run Some listed_free [OF ok free h, of a] sub by auto
  next
    case None
    have "\<not> holds st sz (ucast align) 0 x" if x: "x \<in> N" "est st x = ELEM_FREE" "ehp st x = h" for x
    proof
      assume holds: "holds st sz (ucast align) 0 x"
      note ex = blocks_okD(1) [OF ok x(1)]
      define s where "s = elem_start_pt x (the (elems st x)) sz (ucast align) 0"
      have "s \<noteq> 0" using holds by (simp add: holds_def s_def)
      note fits = elem_start_pt_fits [OF ex pow sz low [rule_format, OF x(1)] s_def this]
      have "unat (esz st x - 64) = unat (esz st x) - 64"
        by (subst unat_sub) (use fits in \<open>auto simp: word_le_nat_alt\<close>)
      then have "unat sz \<le> unat (esz st x - 64)" using fits(1,2) by linarith
      then have i: "i0 \<le> list_index st x" unfolding i0_def by (rule free_list_index_mono)
      have bnd: "list_index st x < RTE_HEAP_NUM_FREELISTS" by (rule free_list_index_bound)
      then have mem: "x \<in> set (free_head (heaps st ! h) ! list_index st x)"
        using free h x by (auto simp: free_ok_def on_list_def)
      have len: "length (free_head (heaps st ! h)) = RTE_HEAP_NUM_FREELISTS" using free h by (simp add: free_ok_def)
      have "free_head (heaps st ! h) ! list_index st x \<in> set (drop i0 (free_head (heaps st ! h)))"
        using i bnd len by (auto simp: in_set_conv_nth intro!: exI [of _ "list_index st x - i0"])
      then have "x \<in> set l" using mem by (auto simp: l_def)
      then show False using None holds by (auto simp: find_None_iff)
    qed
    then show ?thesis using run None by auto
  qed
qed

section \<open>Allocating from a heap\<close>

text \<open>The blocks in use: address and length of the data of every busy element that is no end marker.\<close>

definition block_of :: "malloc_mem \<Rightarrow> u64 \<Rightarrow> nat \<times> nat" where
  "block_of st b = (unat b + unat (epd st b) + 64, unat (esz st b) - unat (epd st b) - 64)"

definition live :: "malloc_mem \<Rightarrow> u64 set \<Rightarrow> (nat \<times> nat) set" where
  "live st N = block_of st ` {b \<in> busy_set st N. esz st b \<noteq> 0}"

definition heap_rep :: "nat \<Rightarrow> malloc_mem \<Rightarrow> u64 set \<Rightarrow> bool" where
  "heap_rep lowest st N \<longleftrightarrow> malloc_inv st N {} \<and> coalesced st N \<and> (\<forall>a \<in> N. lowest \<le> unat a)"

lemma unat_roundup:
  assumes "unat n + 63 < 2 ^ 64"
  shows "unat (RTE_CACHE_LINE_ROUNDUP n) = (unat n + 63) div 64 * 64"
proof -
  have "unat (n + 64 - 1) = unat n + 63"
  proof -
    have "n + 64 - 1 = n + 63" by simp
    then show ?thesis using assms by (simp only:) (subst unat_add_fit; simp)
  qed
  then have d: "unat ((n + 64 - 1) div 64) = (unat n + 63) div 64" by (simp add: unat_div_distrib)
  have "(unat n + 63) div 64 * 64 < 2 ^ 64"
    using assms by (metis div_times_less_eq_dividend order_le_less_trans)
  then show ?thesis unfolding RTE_CACHE_LINE_ROUNDUP_def unat_word_ariths(2) d
    by (simp add: mult.commute)
qed

lemma roundup_bounds:
  assumes "unat n + 63 < 2 ^ 64"
  shows "64 dvd unat (RTE_CACHE_LINE_ROUNDUP n)" and "unat n \<le> unat (RTE_CACHE_LINE_ROUNDUP n)"
    and "unat (RTE_CACHE_LINE_ROUNDUP n) \<le> unat n + 63"
  unfolding unat_roundup [OF assms] by (simp, presburger, presburger)

text \<open>The alignment \<open>rte_malloc\<close> passes on: at least a cache line.\<close>

abbreviation heap_align :: "u32 \<Rightarrow> u32" where
  "heap_align al \<equiv> ucast (RTE_CACHE_LINE_ROUNDUP (if al = 0 then 1 else ucast al))"

lemma heap_align_pow2:
  assumes "al = 0 \<or> rte_is_power_of_2 al"
  shows "POWEROF2 (heap_align al)" and "unat (heap_align al) = max 64 (unat al)"
proof -
  have "POWEROF2 (heap_align al) \<and> unat (heap_align al) = max 64 (unat al)"
  proof (cases "al = 0")
    case True
    then show ?thesis by (simp add: POWEROF2_def RTE_CACHE_LINE_ROUNDUP_def)
  next
    case False
    with assms have pow: "POWEROF2 al" by (simp add: rte_is_power_of_2_def POWEROF2_def and.commute)
    obtain k where k: "k < 32" "unat al = 2 ^ k" using POWEROF2_unat [OF pow False] by auto
    have small: "(2::nat) ^ k < 2 ^ 32" using k(1) by (intro power_strict_increasing) auto
    have ua: "unat (ucast al :: u64) = 2 ^ k" using k by (simp add: unat_ucast_32)
    have r: "unat (RTE_CACHE_LINE_ROUNDUP (ucast al)) = (2 ^ k + 63) div 64 * 64"
      by (subst unat_roundup) (use ua small in simp_all)
    have val: "(2 ^ k + 63) div 64 * 64 = max 64 ((2::nat) ^ k)"
    proof (cases "k \<le> 6")
      case True
      then have "k = 0 \<or> k = 1 \<or> k = 2 \<or> k = 3 \<or> k = 4 \<or> k = 5 \<or> k = 6" by linarith
      then show ?thesis by auto
    next
      case False
      then obtain j where j: "k = 6 + j" by (metis le_add_diff_inverse linorder_not_le nat_less_le)
      have "(2::nat) ^ k = 64 * 2 ^ j" by (simp add: j power_add)
      then show ?thesis by simp
    qed
    have u: "unat (heap_align al) = max 64 (2 ^ k)"
      using False small by (simp add: unsigned_ucast_eq r val take_bit_nat_eq_self)
    have "heap_align al = (if k \<le> 6 then 64 else al)"
    proof (rule word_unat_eq_iff [THEN iffD2])
      have "(2::nat) ^ k \<le> 2 ^ 6" if "k \<le> 6" using that by (intro power_increasing) auto
      moreover have "(2::nat) ^ 6 \<le> 2 ^ k" if "\<not> k \<le> 6" using that by (intro power_increasing) auto
      ultimately show "unat (heap_align al) = unat (if k \<le> 6 then 64 else al)"
        using u k(2) by (auto simp: max_def)
    qed
    then have "POWEROF2 (heap_align al)" using pow by (auto simp: POWEROF2_def)
    then show ?thesis using u k(2) by simp
  qed
  then show "POWEROF2 (heap_align al)" "unat (heap_align al) = max 64 (unat al)" by auto
qed

lemma block_bounds:
  assumes ok: "blocks_ok st N" and b: "b \<in> busy_set st N" "esz st b \<noteq> 0"
  shows "64 \<le> unat (esz st b)" and "unat (epd st b) + 64 \<le> unat (esz st b)" and "unat b + unat (esz st b) + 64 \<le> 2 ^ 64"
proof -
  have bN: "b \<in> N" and busy: "est st b = ELEM_BUSY" using b(1) by (auto simp: busy_set_def)
  note eb = blocks_okD(1) [OF ok bN]
  show "64 \<le> unat (esz st b)" by (rule size_ge_64 [OF eb b(2)])
  then show "unat (epd st b) + 64 \<le> unat (esz st b)"
    using blocks_okD(4) [OF ok bN] busy by (cases "epd st b = 0") (auto simp: pad_ok_def)
  show "unat b + unat (esz st b) + 64 \<le> 2 ^ 64" using eb by (simp add: elem_ok_def)
qed

lemma live_apart:
  assumes ok: "blocks_ok st N" and p: "(p, n) \<in> live st N" and q: "(q, m) \<in> live st N" and ne: "(p, n) \<noteq> (q, m)"
  shows "p + n \<le> q \<or> q + m \<le> p"
proof -
  obtain b where b: "b \<in> busy_set st N" "esz st b \<noteq> 0" "(p, n) = block_of st b" using p by (auto simp: live_def)
  obtain c where c: "c \<in> busy_set st N" "esz st c \<noteq> 0" "(q, m) = block_of st c" using q by (auto simp: live_def)
  have "b \<noteq> c" using ne b(3) c(3) by auto
  then have "unat b \<noteq> unat c" by (rule unat_neq)
  moreover have "apart st b c" "apart st c b" using blocks_okD(5) [OF ok] b(1) c(1) by (auto simp: busy_set_def)
  ultimately show ?thesis
    using b(3) c(3) block_bounds [OF ok b(1,2)] block_bounds [OF ok c(1,2)]
    by (auto simp: block_of_def apart_def)
qed

text \<open>Headers lie outside the data of the blocks in use, the dummy header of a block included.\<close>

lemma in_span:
  assumes "unat p + unat n \<le> 2 ^ 64"
  shows "x - p < (n :: u64) \<longleftrightarrow> unat p \<le> unat x \<and> unat x < unat p + unat n"
proof (cases "unat p \<le> unat x")
  case True
  then have "unat (x - p) = unat x - unat p" by (intro unat_sub) (simp add: word_le_nat_alt)
  then show ?thesis using True by (auto simp: word_less_nat_alt)
next
  case False
  have "\<not> x - p < n"
  proof
    assume lt: "x - p < n"
    have "unat (p + (x - p)) = unat p + unat (x - p)"
      by (rule unat_add_fit) (use lt assms in \<open>simp add: word_less_nat_alt\<close>)
    with False show False by simp
  qed
  with False show ?thesis by blast
qed

lemma live_header_apart:
  assumes ok: "blocks_ok st N" and q: "(q, k) \<in> live st N" "q \<le> unat x" "unat x < q + k" and a: "a \<in> N"
  shows "\<not> x - a < 64"
proof -
  obtain c where c: "c \<in> busy_set st N" "esz st c \<noteq> 0" "(q, k) = block_of st c" using q(1) by (auto simp: live_def)
  have ac: "apart st a c" "apart st c a" using blocks_okD(5) [OF ok] a c(1) by (auto simp: busy_set_def)
  have "unat a + unat (64 :: u64) \<le> 2 ^ 64" using blocks_okD(1) [OF ok a] by (simp add: elem_ok_def)
  note span = in_span [OF this, of x]
  have neq: "unat a < unat c \<or> unat c < unat a \<or> a = c" using unat_neq [of a c] by arith
  show ?thesis
    unfolding span using neq ac c(3) q(2,3) block_bounds [OF ok c(1,2)] by (auto simp: block_of_def apart_def)
qed

lemma live_dummy_apart:
  assumes ok: "blocks_ok st N" and q: "(q, k) \<in> live st N" "q \<le> unat x" "unat x < q + k" and p: "(unat (p :: u64), m) \<in> live st N"
  shows "\<not> x - (p - 64) < 64"
proof -
  obtain c where c: "c \<in> busy_set st N" "esz st c \<noteq> 0" "(q, k) = block_of st c" using q(1) by (auto simp: live_def)
  obtain b where b: "b \<in> busy_set st N" "esz st b \<noteq> 0" "(unat p, m) = block_of st b" using p by (auto simp: live_def)
  have bc: "apart st b c" "apart st c b" using blocks_okD(5) [OF ok] b(1) c(1) by (auto simp: busy_set_def)
  note bb = block_bounds [OF ok b(1,2)] and cb = block_bounds [OF ok c(1,2)]
  have up: "unat p = unat b + unat (epd st b) + 64" using b(3) by (simp add: block_of_def)
  then have h: "unat (p - 64) = unat b + unat (epd st b)" by (subst unat_sub) (simp_all add: word_le_nat_alt)
  have "unat (p - 64) + unat (64 :: u64) \<le> 2 ^ 64" unfolding h using bb by simp
  note span = in_span [OF this, of x]
  have neq: "unat b < unat c \<or> unat c < unat b \<or> b = c" using unat_neq [of b c] by arith
  show ?thesis
    unfolding span h using neq bc c(3) q(2,3) bb cb by (auto simp: block_of_def apart_def)
qed

text \<open>The bytes of a set of blocks are the same in two memories.\<close>

definition same_data :: "(nat \<times> nat) set \<Rightarrow> (u64 \<Rightarrow> 'a) \<Rightarrow> (u64 \<Rightarrow> 'a) \<Rightarrow> bool" where
  "same_data B m m' \<longleftrightarrow> (\<forall>(q, k) \<in> B. \<forall>x. q \<le> unat x \<and> unat x < q + k \<longrightarrow> m' x = m x)"

lemma same_data_mono: "same_data B m m' \<Longrightarrow> A \<subseteq> B \<Longrightarrow> same_data A m m'"
  by (auto simp: same_data_def)

lemma only_hdrs_live:
  assumes "blocks_ok st N" and "only_hdrs (insert (p - 64) N) m m'" and "(unat p, n) \<in> live st N"
  shows "same_data (live st N) m m'"
  using assms(2) live_header_apart [OF assms(1)] live_dummy_apart [OF assms(1) _ _ _ assms(3)]
  unfolding same_data_def only_hdrs_def by blast

lemma alloc_heap_rep:
  assumes rep: "heap_rep lowest st N" and res: "alloc_result st N s sz st' N' b"
  shows "heap_rep lowest st' N'" and "live st' N' = insert (unat s + 64, unat (esz st' b) - unat (epd st' b) - 64) (live st N)"
    and "(unat s + 64, unat (esz st' b) - unat (epd st' b) - 64) \<notin> live st N"
    and "unat sz \<le> unat (esz st' b) - unat (epd st' b) - 64"
proof -
  have r: "malloc_inv st' N' {}" "coalesced st' N'" "N \<subseteq> N'" "region st' N' = region st N" "b \<notin> busy_set st N"
    "busy_set st' N' = insert b (busy_set st N)" "\<forall>x \<in> busy_set st N. esz st' x = esz st x \<and> epd st' x = epd st x"
    "unat s = unat b + unat (epd st' b)" "unat s + 64 + unat sz \<le> unat b + unat (esz st' b)"
    using res by (auto simp: alloc_result_def)
  have ok: "blocks_ok st' N'" using r(1) by (simp add: malloc_inv_def)
  have b0: "esz st' b \<noteq> 0" using r(8,9) by auto
  show m: "unat sz \<le> unat (esz st' b) - unat (epd st' b) - 64" using r(8,9) by simp
  have "block_of st' x = block_of st x" if "x \<in> busy_set st N" for x using that r(7) by (simp add: block_of_def)
  moreover have "esz st' x = esz st x" if "x \<in> busy_set st N" for x using that r(7) by simp
  ultimately have old: "block_of st' ` {x \<in> busy_set st N. esz st' x \<noteq> 0} = live st N"
    by (auto simp: live_def)
  have bb: "block_of st' b = (unat s + 64, unat (esz st' b) - unat (epd st' b) - 64)" by (simp add: block_of_def r(8))
  have set: "{x \<in> busy_set st' N'. esz st' x \<noteq> 0} = insert b {x \<in> busy_set st N. esz st' x \<noteq> 0}"
    using r(6) b0 by auto
  show live: "live st' N' = insert (unat s + 64, unat (esz st' b) - unat (epd st' b) - 64) (live st N)"
    unfolding live_def [of st' N'] set image_insert old bb ..
  show "(unat s + 64, unat (esz st' b) - unat (epd st' b) - 64) \<notin> live st N"
  proof
    assume "(unat s + 64, unat (esz st' b) - unat (epd st' b) - 64) \<in> live st N"
    then obtain x where x: "x \<in> busy_set st N" "esz st' x \<noteq> 0" "block_of st' x = block_of st' b"
      unfolding old [symmetric] bb [symmetric] by force
    have "x \<noteq> b" using x(1) r(5) by auto
    then have "unat x \<noteq> unat b" by (rule unat_neq)
    have xN: "x \<in> busy_set st' N'" and bN: "b \<in> busy_set st' N'" using x r(6) by auto
    have "apart st' x b" "apart st' b x" using blocks_okD(5) [OF ok] xN bN by (auto simp: busy_set_def)
    then show False
      using \<open>unat x \<noteq> unat b\<close> x(3) block_bounds [OF ok xN x(2)] block_bounds [OF ok bN b0]
      by (auto simp: block_of_def apart_def)
  qed
  have "lowest \<le> unat x" if x: "x \<in> N'" for x
  proof (cases "esz st' x = 0")
    case False
    then have "0 < unat (esz st' x)" by (simp add: unat_gt_0)
    then have "unat x \<in> region st' N'" using x by (auto simp: region_def intro!: bexI [of _ x])
    then obtain y where "y \<in> N" "unat y \<le> unat x" unfolding r(4) by (auto simp: region_def)
    then show ?thesis using rep by (force simp: heap_rep_def)
  next
    case True
    then have "est st' x = ELEM_BUSY" using blocks_okD(1) [OF ok x] by (simp add: elem_ok_def)
    then have "x \<in> busy_set st N" using x True b0 r(6) by (auto simp: busy_set_def)
    then show ?thesis using rep by (auto simp: heap_rep_def busy_set_def)
  qed
  then show "heap_rep lowest st' N'" using r by (simp add: heap_rep_def)
qed

text \<open>The result of a call that may allocate: nothing has changed, or there is one new block.\<close>

definition alloc_outcome ::
  "nat \<Rightarrow> malloc_mem \<Rightarrow> u64 set \<Rightarrow> u64 \<Rightarrow> u32 \<Rightarrow> u64 \<Rightarrow> malloc_mem \<Rightarrow> bool" where
  "alloc_outcome lowest st N sz al p st' \<longleftrightarrow>
     p = 0 \<and> st' = st \<or>
     p \<noteq> 0 \<and> max 64 (unat al) dvd unat p \<and>
       (\<exists>N' m. heap_rep lowest st' N' \<and> only_hdrs (insert (p - 64) N') (bytes st) (bytes st') \<and> region st' N' = region st N \<and> unat sz \<le> m \<and>
         (unat p, m) \<notin> live st N \<and> live st' N' = insert (unat p, m) (live st N))"

lemma malloc_heap_alloc_ok:
  assumes rep: "heap_rep lowest st N" and h: "h < RTE_MAX_NUMA_NODES" and al: "al = 0 \<or> rte_is_power_of_2 al"
    and low: "unat sz + max 64 (unat al) + 127 \<le> lowest"
  shows "\<exists>p st'. malloc_heap_alloc h sz 0 (if al = 0 then 1 else ucast al) 0 st = Some (p, st') \<and>
    alloc_outcome lowest st N sz al p st' \<and>
    (p = 0 \<longrightarrow> (\<forall>x \<in> N. est st x = ELEM_FREE \<and> ehp st x = h \<longrightarrow>
       \<not> holds st (RTE_CACHE_LINE_ROUNDUP sz) (heap_align al) 0 x))"
proof -
  have inv: "malloc_inv st N {}" and coal: "coalesced st N" and lowN: "\<forall>a \<in> N. lowest \<le> unat a"
    using rep by (auto simp: heap_rep_def)
  have ok: "blocks_ok st N" and free: "free_ok st N {}" using inv by (auto simp: malloc_inv_def)
  have hlen: "h < length (heaps st)" using free h by (simp add: free_ok_def)
  define sz' where "sz' = RTE_CACHE_LINE_ROUNDUP sz"
  define A where "A = RTE_CACHE_LINE_ROUNDUP (if al = 0 then 1 else ucast al)"
  have pow: "POWEROF2 (ucast A :: u32)" "unat (ucast A :: u32) = max 64 (unat al)"
    unfolding A_def by (rule heap_align_pow2 [OF al])+
  have run: "malloc_heap_alloc h sz 0 (if al = 0 then 1 else ucast al) 0 st = do {
     elem \<leftarrow> find_suitable_element (heaps st ! h) sz' 0 A 0 st;
     if elem \<noteq> NULL then do {
       (elem, st) \<leftarrow> malloc_elem_alloc elem sz' (ucast A) 0 st;
       st \<leftarrow> upd_heap h (\<lambda>h. h\<lparr>alloc_count := alloc_count h + 1\<rparr>) st;
       Some (if elem = NULL then NULL else elem + MALLOC_ELEM_HEADER_LEN, st) }
     else Some (NULL, st) }"
    unfolding malloc_heap_alloc_def Let_def sz'_def [symmetric] A_def [symmetric] read_at_in [OF hlen] bind.bind_lunit ..
  show ?thesis
  proof (cases "\<exists>a. a \<in> N")
    case False
    then have "N = {}" by auto
    have none: "a \<notin> set (concat (free_head (heaps st ! h)))" for a
      using listed_free [OF ok free h, of a] \<open>N = {}\<close> by (metis empty_iff)
    have "set (concat (drop (malloc_elem_free_list_index sz') (free_head (heaps st ! h)))) = {}"
    proof (rule equals0I)
      fix a assume "a \<in> set (concat (drop (malloc_elem_free_list_index sz') (free_head (heaps st ! h))))"
      then have "a \<in> set (concat (free_head (heaps st ! h)))" by (auto dest: in_set_dropD)
      with none show False by blast
    qed
    then have "concat (drop (malloc_elem_free_list_index sz') (free_head (heaps st ! h))) = []" by simp
    then have "find_suitable_element (heaps st ! h) sz' 0 A 0 st = Some 0"
      using search_free_lists_find [of "drop (malloc_elem_free_list_index sz') (free_head (heaps st ! h))" st sz' A 0 0]
      by (simp add: find_suitable_element_def del: concat_eq_Nil_conv)
    then show ?thesis using run \<open>N = {}\<close> by (auto simp: alloc_outcome_def)
  next
    case True
    then obtain a0 where "a0 \<in> N" by blast
    then have "lowest \<le> unat a0" using lowN by blast
    moreover have "unat a0 < 2 ^ LENGTH(64)" by (rule unsigned_less)
    ultimately have "unat sz + 63 < 2 ^ 64" using low by simp
    note rb = roundup_bounds [OF this, folded sz'_def]
    have low': "\<forall>a \<in> N. unat sz' + unat (ucast A :: u32) + 64 \<le> unat a"
      using rb(3) low lowN unfolding pow(2) by fastforce
    have pow64: "64 \<le> unat (ucast A :: u32)" by (simp add: pow(2))
    obtain a where a: "find_suitable_element (heaps st ! h) sz' 0 A 0 st = Some a"
      "(a = 0 \<and> (\<forall>x \<in> N. est st x = ELEM_FREE \<and> ehp st x = h \<longrightarrow> \<not> holds st sz' (ucast A) 0 x) \<or>
       a \<in> N \<and> est st a = ELEM_FREE \<and> ehp st a = h \<and> holds st sz' (ucast A) 0 a)"
      using find_suitable_element_ok [OF ok free h pow(1) pow64 rb(1) low'] by blast
    show ?thesis
    proof (cases "a = 0")
      case True
      have "\<forall>x \<in> N. est st x = ELEM_FREE \<and> ehp st x = h \<longrightarrow> \<not> holds st sz' (ucast A) 0 x"
        using a(2) True blocks_okD(1) [OF ok, of 0] by (auto simp: elem_ok_def)
      then show ?thesis using run a(1) True by (simp add: alloc_outcome_def sz'_def A_def)
    next
      case False
      then have aN: "a \<in> N" "est st a = ELEM_FREE" and hold: "holds st sz' (ucast A) 0 a" using a(2) by auto
      define s where "s = elem_start_pt a (the (elems st a)) sz' (ucast A) 0"
      have s0: "s \<noteq> 0" using hold by (simp add: holds_def s_def)
      note fits = elem_start_pt_fits [OF blocks_okD(1) [OF ok aN(1)] pow(1) pow64 rb(1) low' [rule_format, OF aN(1)] s_def s0]
      obtain st1 N' b where st1: "malloc_elem_alloc a sz' (ucast A) 0 st = Some (s, st1)" "alloc_result st N s sz' st1 N' b"
        using malloc_elem_alloc_ok [OF inv coal aN pow(1) pow64 rb(1) low' [rule_format, OF aN(1)] s_def s0] by blast
      note rep1 = alloc_heap_rep [OF rep st1(2)]
      have free1: "free_ok st1 N' {}" using rep1(1) by (simp add: heap_rep_def malloc_inv_def)
      obtain st2 where st2: "upd_heap h (\<lambda>hp. hp\<lparr>alloc_count := alloc_count hp + 1\<rparr>) st1 = Some st2" "elems st2 = elems st1"
        "bytes st2 = bytes st1" "free_ok st2 N' {}"
        using upd_count_inv [OF free1 h, of "\<lambda>c. c + 1"] by blast
      note v2 = inv_elems_cong [OF st2(2,3)]
      have "unat a + unat (esz st a) + 64 \<le> 2 ^ 64" using blocks_okD(1) [OF ok aN(1)] by (simp add: elem_ok_def)
      then have up: "unat (s + 64) = unat s + 64" by (subst unat_add_fit) (use fits(2) in simp_all)
      have p0: "s + 64 \<noteq> 0" using up by auto
      have "heap_rep lowest st2 N'" using rep1(1) st2(4) by (simp add: heap_rep_def malloc_inv_def v2)
      moreover have "live st2 N' = live st1 N'" by (simp add: live_def block_of_def v2)
      moreover have "region st2 N' = region st N" using st1(2) by (simp add: alloc_result_def v2)
      moreover have "only_hdrs (insert s N') (bytes st) (bytes st1)" using st1(2) unfolding alloc_result_def by blast
      then have "only_hdrs (insert (s + 64 - 64) N') (bytes st) (bytes st2)" by (simp add: st2(3))
      moreover define m where "m = unat (esz st1 b) - unat (epd st1 b) - 64"
      note m = rep1(2-4) [folded m_def]
      have "max 64 (unat al) dvd unat s + 64" using fits(4) pow(2) by simp
      moreover have "unat sz \<le> m" using m(3) rb(2) by simp
      ultimately have "alloc_outcome lowest st N sz al (s + 64) st2"
        unfolding alloc_outcome_def up using p0 m(1,2) by blast
      then show ?thesis using run a(1) False st1(1) st2(1) s0 p0 by simp
    qed
  qed
qed

section \<open>rte_malloc and rte_free\<close>

lemma malloc_other_heaps_ok:
  assumes rep: "heap_rep lowest st N" and al: "al = 0 \<or> rte_is_power_of_2 al"
    and low: "unat sz + max 64 (unat al) + 127 \<le> lowest" and idx: "\<forall>i \<in> set is. i < RTE_MAX_NUMA_NODES"
  shows "\<exists>p st'. malloc_other_heaps is socket sz al st = Some (p, st') \<and> alloc_outcome lowest st N sz al p st'"
  using idx
proof (induction "is")
  case Nil
  then show ?case by (simp add: alloc_outcome_def)
next
  case (Cons i "is")
  then have i: "i < RTE_MAX_NUMA_NODES" by simp
  obtain p st' where p: "malloc_heap_alloc i sz 0 (if al = 0 then 1 else ucast al) 0 st = Some (p, st')"
    "alloc_outcome lowest st N sz al p st'"
    using malloc_heap_alloc_ok [OF rep i al low] by blast
  show ?case
  proof (cases "int i = socket \<or> p = 0")
    case True
    then have "malloc_other_heaps (i # is) socket sz al st = malloc_other_heaps is socket sz al st"
      using p by (auto simp: alloc_outcome_def)
    then show ?thesis using Cons by simp
  next
    case False
    then show ?thesis using p by auto
  qed
qed

text \<open>The environment is one the EAL sets up: the socket of the calling core exists.\<close>

definition env_ok :: "malloc_env \<Rightarrow> bool" where
  "env_ok env \<longleftrightarrow> SOCKET_ID_ANY \<le> lcore_socket_id env \<and> lcore_socket_id env < int RTE_MAX_NUMA_NODES"

lemma rte_malloc_socket_ok:
  assumes rep: "heap_rep lowest st N" and low: "unat sz + max 64 (unat al) + 127 \<le> lowest"
    and env: "env_ok env" and sock: "SOCKET_ID_ANY \<le> socket"
  shows "\<exists>p st'. rte_malloc_socket env sz al socket st = Some (p, st') \<and> alloc_outcome lowest st N sz al p st'"
proof (cases "sz = 0 \<or> al \<noteq> 0 \<and> \<not> rte_is_power_of_2 al")
  case True
  then show ?thesis by (simp add: rte_malloc_socket_def alloc_outcome_def)
next
  case False
  then have al: "al = 0 \<or> rte_is_power_of_2 al" by blast
  define arg where "arg = (if \<not> has_hugepages env then SOCKET_ID_ANY else socket)"
  define s where "s = (if arg = SOCKET_ID_ANY then malloc_get_numa_socket env else arg)"
  have s0: "0 \<le> s" using env sock by (auto simp: s_def arg_def malloc_get_numa_socket_def env_ok_def)
  have run: "rte_malloc_socket env sz al socket st = (if int RTE_MAX_NUMA_NODES \<le> s then Some (NULL, st)
      else do {
        (ret, st) \<leftarrow> malloc_heap_alloc (nat s) sz 0 (if al = 0 then 1 else ucast al) 0 st;
        if ret \<noteq> NULL \<or> arg \<noteq> SOCKET_ID_ANY then Some (ret, st)
        else malloc_other_heaps [0..<RTE_MAX_NUMA_NODES] s sz al st })"
    unfolding rte_malloc_socket_def if_not_P [OF False] Let_def arg_def [symmetric] s_def [symmetric] using s0 by simp
  show ?thesis
  proof (cases "int RTE_MAX_NUMA_NODES \<le> s")
    case True
    then show ?thesis using run by (simp add: alloc_outcome_def)
  next
    case False
    then have "nat s < RTE_MAX_NUMA_NODES" using s0 by linarith
    from malloc_heap_alloc_ok [OF rep this al low] obtain p st' where
      p: "malloc_heap_alloc (nat s) sz 0 (if al = 0 then 1 else ucast al) 0 st = Some (p, st')"
      "alloc_outcome lowest st N sz al p st'" by blast
    show ?thesis
    proof (cases "p \<noteq> 0 \<or> arg \<noteq> SOCKET_ID_ANY")
      case True
      then show ?thesis using run False p by auto
    next
      case other: False
      then have "st' = st" using p(2) by (auto simp: alloc_outcome_def)
      then have "rte_malloc_socket env sz al socket st = malloc_other_heaps [0..<RTE_MAX_NUMA_NODES] s sz al st"
        using run False p(1) other by simp
      moreover have "\<forall>i \<in> set [0..<RTE_MAX_NUMA_NODES]. i < RTE_MAX_NUMA_NODES" by simp
      ultimately show ?thesis using malloc_other_heaps_ok [OF rep al low, of "[0..<RTE_MAX_NUMA_NODES]" s] by simp
    qed
  qed
qed

lemma free_heap_rep:
  assumes rep: "heap_rep lowest st N" and b: "b \<in> busy_set st N" "esz st b \<noteq> 0" and res: "free_result st N b st' N'"
  shows "heap_rep lowest st' N'" and "live st' N' = live st N - {block_of st b}"
proof -
  have ok: "blocks_ok st N" using rep by (simp add: heap_rep_def malloc_inv_def)
  have r: "malloc_inv st' N' {}" "coalesced st' N'" "N' \<subseteq> N" "busy_set st' N' = busy_set st N - {b}"
    "\<forall>x \<in> busy_set st N - {b}. esz st' x = esz st x \<and> epd st' x = epd st x"
    using res by (auto simp: free_result_def)
  show "heap_rep lowest st' N'" using rep r by (auto simp: heap_rep_def)
  have "block_of st' x = block_of st x \<and> esz st' x = esz st x" if "x \<in> busy_set st N - {b}" for x
    using that r(5) by (simp add: block_of_def)
  then have "live st' N' = block_of st ` {x \<in> busy_set st N - {b}. esz st x \<noteq> 0}"
    unfolding live_def r(4) by (intro image_cong) auto
  moreover have ne: "block_of st x \<noteq> block_of st b" if x: "x \<in> busy_set st N - {b}" "esz st x \<noteq> 0" for x
  proof -
    have "unat x \<noteq> unat b" using x by (intro unat_neq) auto
    moreover have "apart st x b" "apart st b x" using blocks_okD(5) [OF ok] x b by (auto simp: busy_set_def)
    ultimately show ?thesis
      using block_bounds [OF ok, of x] block_bounds [OF ok b] x by (auto simp: block_of_def apart_def)
  qed
  moreover have "block_of st ` {x \<in> busy_set st N - {b}. esz st x \<noteq> 0} =
      block_of st ` {x \<in> busy_set st N. esz st x \<noteq> 0} - {block_of st b}"
    using ne by (intro equalityI subsetI) (force, force)
  ultimately show "live st' N' = live st N - {block_of st b}" by (simp add: live_def)
qed

lemma malloc_elem_from_data_ok:
  assumes ok: "blocks_ok st N" and b: "b \<in> busy_set st N" "esz st b \<noteq> 0" and p: "block_of st b = (unat p, m)"
  shows "malloc_elem_from_data p st = Some b" and "p \<noteq> 0"
proof -
  have bN: "b \<in> N" and busy: "est st b = ELEM_BUSY" using b(1) by (auto simp: busy_set_def)
  note eb = blocks_okD(1) [OF ok bN] and bb = block_bounds [OF ok b]
  have up: "unat p = unat b + unat (epd st b) + 64" using p by (simp add: block_of_def)
  then show "p \<noteq> 0" by auto
  have sub: "unat (p - 64) = unat b + unat (epd st b)" using up by (subst unat_sub) (simp_all add: word_le_nat_alt)
  have b0: "0 < unat b" using eb by (simp add: elem_ok_def unat_gt_0)
  show "malloc_elem_from_data p st = Some b"
  proof (cases "epd st b = 0")
    case True
    then have "p - 64 = b" using sub by (simp add: word_unat_eq_iff)
    moreover obtain e where "elems st b = Some e" using elem_some [OF eb] by blast
    moreover have "e_state (the (elems st b)) = ELEM_BUSY" using busy by (simp add: est_def)
    ultimately show ?thesis using \<open>p \<noteq> 0\<close> b0 by (auto simp: malloc_elem_from_data_def Let_def)
  next
    case False
    then have pad: "epd st b = 64" "elems st (b + 64) \<noteq> None" "est st (b + 64) = ELEM_PAD" "epd st (b + 64) = 64"
      using blocks_okD(4) [OF ok bN] busy by (auto simp: pad_ok_def)
    have "unat (b + 64) = unat b + 64" by (subst unat_add_fit) (use bb in simp_all)
    then have eq: "p - 64 = b + 64" using sub pad(1) by (simp add: word_unat_eq_iff)
    obtain e where e: "elems st (b + 64) = Some e" using pad(2) by blast
    have "e_state e = ELEM_PAD" "e_pad e = 64" using pad(3,4) e by (simp_all add: est_def epd_def)
    moreover have "b + 64 \<noteq> 0" using \<open>unat (b + 64) = unat b + 64\<close> by auto
    ultimately show ?thesis using \<open>p \<noteq> 0\<close> e by (simp add: malloc_elem_from_data_def Let_def eq)
  qed
qed

lemma rte_free_live:
  assumes rep: "heap_rep lowest st N" and p: "(unat p, m) \<in> live st N"
  shows "\<exists>st' N'. rte_free p st = Some (Some st') \<and> heap_rep lowest st' N' \<and> live st' N' = live st N - {(unat p, m)} \<and>
    region st' N' = region st N \<and> bytes st' = bytes st"
proof -
  have ok: "blocks_ok st N" and inv: "malloc_inv st N {}" and coal: "coalesced st N"
    using rep by (auto simp: heap_rep_def malloc_inv_def)
  obtain b where b: "b \<in> busy_set st N" "esz st b \<noteq> 0" "block_of st b = (unat p, m)" using p by (auto simp: live_def)
  have bN: "b \<in> N" "est st b = ELEM_BUSY" using b(1) by (auto simp: busy_set_def)
  obtain st' N' where st': "malloc_elem_free b st = Some (0, st')" "free_result st N b st' N'"
    using malloc_elem_free_ok [OF inv coal bN b(2)] by blast
  note fd = malloc_elem_from_data_ok [OF ok b]
  have "rte_free p st = Some (Some st')" using fd st'(1) by (simp add: rte_free_def)
  then show ?thesis using free_heap_rep [OF rep b(1,2) st'(2)] st'(2) b(3) by (auto simp: free_result_def)
qed

section \<open>Setting up the heaps\<close>

text \<open>A memory segment the EAL may pass: aligned, long enough for two headers, inside the address space.\<close>

definition seg_ok :: "nat \<Rightarrow> rte_memseg \<Rightarrow> bool" where
  "seg_ok lowest ms \<longleftrightarrow> lowest \<le> unat (ms_addr ms) \<and> ms_addr ms \<noteq> 0 \<and> 64 dvd unat (ms_addr ms) \<and>
     128 \<le> unat (ms_len ms) \<and> unat (ms_addr ms) + unat (ms_len ms) < 2 ^ 64 \<and> ms_socket_id ms < RTE_MAX_NUMA_NODES"

definition seg_apart :: "malloc_mem \<Rightarrow> u64 set \<Rightarrow> rte_memseg \<Rightarrow> bool" where
  "seg_apart st N ms \<longleftrightarrow> (\<forall>a \<in> N. unat a + 64 \<le> unat (ms_addr ms) \<and> unat a + unat (esz st a) \<le> unat (ms_addr ms) \<or>
     unat (ms_addr ms) + unat (ms_len ms) \<le> unat a)"

lemma align_floor_64: "unat (RTE_ALIGN_FLOOR v (64 - 1)) = unat v - unat v mod 64"
proof -
  have m: "(64 - 1 :: u64) = mask 6" by (simp add: mask_eq_exp_minus_1)
  show ?thesis unfolding RTE_ALIGN_FLOOR_def m unat_and_not_mask by simp
qed

lemma add_memseg_ok:
  assumes rep: "heap_rep lowest st N" and seg: "seg_ok lowest ms" "seg_apart st N ms"
  shows "\<exists>st' E. malloc_heap_add_memseg (ms_socket_id ms) ms st = Some st' \<and>
    heap_rep lowest st' (insert (ms_addr ms) (insert E N)) \<and>
    busy_set st' (insert (ms_addr ms) (insert E N)) = insert E (busy_set st N) \<and> esz st' E = 0 \<and>
    (\<forall>a \<in> N. esz st' a = esz st a \<and> epd st' a = epd st a) \<and>
    unat (ms_addr ms) + unat (esz st' (ms_addr ms)) = unat E \<and> unat E + 64 \<le> unat (ms_addr ms) + unat (ms_len ms)"
proof -
  define a where "a = ms_addr ms"
  define h where "h = ms_socket_id ms"
  define E where "E = RTE_ALIGN_FLOOR (a + (ms_len ms - 64)) (64 - 1)"
  define k where "k = E - a"
  have s: "lowest \<le> unat a" "a \<noteq> 0" "64 dvd unat a" "128 \<le> unat (ms_len ms)" "unat a + unat (ms_len ms) < 2 ^ 64"
    "h < RTE_MAX_NUMA_NODES" using seg(1) by (auto simp: seg_ok_def a_def h_def)
  have inv: "malloc_inv st N {}" and coal: "coalesced st N" and lowN: "\<forall>x \<in> N. lowest \<le> unat x"
    using rep by (auto simp: heap_rep_def)
  have ok: "blocks_ok st N" and free: "free_ok st N {}" using inv by (auto simp: malloc_inv_def)
  have ul: "unat (ms_len ms - 64) = unat (ms_len ms) - 64" using s(4) by (subst unat_sub) (simp_all add: word_le_nat_alt)
  have ua: "unat (a + (ms_len ms - 64)) = unat a + (unat (ms_len ms) - 64)"
    by (subst unat_add_fit) (use s ul in simp_all)
  define L where "L = (unat (ms_len ms) - 64) - (unat (ms_len ms) - 64) mod 64"
  have "(unat a + (unat (ms_len ms) - 64)) mod 64 = (unat (ms_len ms) - 64) mod 64"
    using s(3) by (auto elim!: dvdE)
  moreover have "unat E = unat a + (unat (ms_len ms) - 64) - (unat a + (unat (ms_len ms) - 64)) mod 64"
    unfolding E_def align_floor_64 ua ..
  moreover have "(unat (ms_len ms) - 64) mod 64 \<le> unat (ms_len ms) - 64" by (rule mod_less_eq_dividend)
  ultimately have uE: "unat E = unat a + L" unfolding L_def by linarith
  have L: "64 \<le> L" "64 dvd L" "L + 64 \<le> unat (ms_len ms)"
    using s(4) by (auto simp: L_def minus_mod_eq_mult_div)
  have uk: "unat k = L" unfolding k_def by (subst unat_sub) (simp_all add: word_le_nat_alt uE)
  have Ea: "a + k = E" by (simp add: k_def)
  have ne: "E \<noteq> a" using uE L by auto
  have E0: "E \<noteq> 0" using uE L by auto
  have k0: "k \<noteq> 0" using uk L by auto
  have dE: "64 dvd unat E" unfolding uE using s(3) L(2) by simp
  have apartN: "unat x + 64 \<le> unat a \<and> unat x + unat (esz st x) \<le> unat a \<or> unat a + unat (ms_len ms) \<le> unat x" if "x \<in> N" for x
    using seg(2) that by (auto simp: seg_apart_def a_def)
  have new: "a \<notin> N" "E \<notin> N"
    using apartN [of a] apartN [of E] s(4) uE L by auto
  define st1 where "st1 = st\<lparr>bytes := hdr_bytes E (hdr_bytes a (bytes st)), elems := (elems st)
     (a \<mapsto> \<lparr>e_heap = h, e_prev = 0, e_ms = ms, e_state = ELEM_FREE, e_pad = 0, e_size = k\<rparr>,
      E \<mapsto> \<lparr>e_heap = h, e_prev = a, e_ms = ms, e_state = ELEM_BUSY, e_pad = 0, e_size = 0\<rparr>)\<rparr>"
  note hd = hdrs_ok_line [OF blocks_ok_hdrs [OF ok] s(3)]
  have hd1: "hdrs_ok (elems st1) (bytes st1)" by (simp add: st1_def hdrs_ok_line hd dE)
  define N1 where "N1 = insert a (insert E N)"
  have run: "malloc_heap_add_memseg h ms st = do {
     st \<leftarrow> malloc_elem_free_list_insert a st1;
     upd_heap h (\<lambda>h. h\<lparr>total_size := total_size h + k\<rparr>) st }"
    using ne unfolding malloc_heap_add_memseg_def Let_def a_def [symmetric] E_def [symmetric] k_def [symmetric]
    by (simp add: malloc_elem_mkend_def malloc_elem_init_def put_elem_line [OF blocks_ok_hdrs [OF ok] s(3)]
        put_elem_line hd dE upd_elem_at hdrs_ok_line st1_def)
  have va: "esz st1 a = k" "est st1 a = ELEM_FREE" "epv st1 a = 0" "epd st1 a = 0" "ehp st1 a = h" "elems st1 a \<noteq> None"
    and vE: "esz st1 E = 0" "est st1 E = ELEM_BUSY" "epv st1 E = a" "epd st1 E = 0" "ehp st1 E = h" "elems st1 E \<noteq> None"
    using ne by (auto simp: st1_def elem_views)
  have vx: "esz st1 x = esz st x" "est st1 x = est st x" "epv st1 x = epv st x" "epd st1 x = epd st x" "ehp st1 x = ehp st x"
    "elems st1 x = elems st x" if "x \<noteq> a" "x \<noteq> E" for x using that by (auto simp: st1_def elem_views)
  have vN: "esz st1 x = esz st x" "est st1 x = est st x" "epv st1 x = epv st x" "epd st1 x = epd st x" "ehp st1 x = ehp st x"
    "elems st1 x = elems st x" if "x \<in> N" for x using vx [of x] new that by auto
  have ok1: "blocks_ok st1 N1"
    unfolding blocks_ok_def
  proof (intro ballI conjI hd1)
    fix x y assume x: "x \<in> N1" and y: "y \<in> N1"
    have xc: "x = a \<or> x = E \<or> x \<in> N" using x by (auto simp: N1_def)
    show "elem_ok st1 x"
      using xc s L uE uk k0 E0 dE va(6) vE(6) blocks_okD(1) [OF ok, of x] by (auto simp: elem_ok_def va(1-5) vE(1-5) vN)
    show "next_ok st1 N1 x"
      using xc blocks_okD(2) [OF ok, of x] by (auto simp: next_ok_def va vE vN N1_def Ea)
    show "prev_ok st1 N1 x"
      using xc blocks_okD(3) [OF ok, of x] k0 by (auto simp: prev_ok_def va vE vN N1_def Ea)
    show "pad_ok st1 x"
    proof (cases "x \<in> N")
      case False
      then show ?thesis using xc by (auto simp: pad_ok_def va vE)
    next
      case True
      have px: "pad_ok st x" and ex: "elem_ok st x" using blocks_okD(1,4) [OF ok True] by auto
      have "x + 64 \<noteq> a \<and> x + 64 \<noteq> E" if "128 \<le> unat (esz st x)"
      proof -
        have "unat (x + 64) = unat x + 64" using ex that by (subst unat_add_fit) (auto simp: elem_ok_def)
        then show ?thesis using apartN [OF True] that uE L by auto
      qed
      then show ?thesis using px vx [of "x + 64"] by (auto simp: pad_ok_def vN [OF True])
    qed
    have yc: "y = a \<or> y = E \<or> y \<in> N" using y by (auto simp: N1_def)
    show "apart st1 x y"
      using xc yc apartN [of x] apartN [of y] uE uk L blocks_okD(5) [OF ok, of x y]
      by (elim disjE) (auto simp: apart_def va vE vN)
  qed
  have "on_list st1 N1 {a} g i = on_list st N {} g i" for g i
    using new vE by (auto simp: on_list_def N1_def vN)
  moreover have "heaps st1 = heaps st" by (simp add: st1_def)
  ultimately have free1: "free_ok st1 N1 {a}" using free va(2) by (simp add: free_ok_def N1_def)
  obtain st2 where st2: "malloc_elem_free_list_insert a st1 = Some st2" "blocks_ok st2 N1" "free_ok st2 N1 ({a} - {a})"
    "esz st2 = esz st1" "est st2 = (est st1)(a := ELEM_FREE)" "ehp st2 = ehp st1" "epd st2 = epd st1"
    using free_list_insert_inv [OF ok1 free1, of a] k0 by (auto simp: N1_def va)
  have est2: "est st2 = est st1" using st2(5) va(2) by auto
  define st3 where "st3 = st2\<lparr>heaps := (heaps st2)[h := (heaps st2 ! h)\<lparr>total_size := total_size (heaps st2 ! h) + k\<rparr>]\<rparr>"
  have len2: "length (heaps st2) = RTE_MAX_NUMA_NODES" using st2(3) by (simp add: free_ok_def)
  have upd: "upd_heap h (\<lambda>h. h\<lparr>total_size := total_size h + k\<rparr>) st2 = Some st3"
    using len2 s(6) by (simp add: upd_heap_def st3_def)
  have e3: "elems st3 = elems st2" "bytes st3 = bytes st2" by (simp_all add: st3_def)
  note v3 = inv_elems_cong [OF e3]
  have free3: "free_ok st3 N1 {}"
  proof -
    have "free_head (heaps st3 ! g) = free_head (heaps st2 ! g)" if "g < RTE_MAX_NUMA_NODES" for g
      using that len2 by (cases "g = h") (auto simp: st3_def)
    moreover have "on_list st3 N1 {} g i = on_list st2 N1 {} g i" for g i
      using e3 by (simp add: on_list_def elem_views)
    ultimately show ?thesis using st2(3) by (auto simp: free_ok_def v3) (simp add: st3_def)
  qed
  have coal3: "coalesced st3 N1"
    unfolding coalesced_def
  proof (intro ballI impI)
    fix x assume x: "x \<in> N1" "est st3 x = ELEM_FREE"
    then have xc: "x = a \<or> x \<in> N \<and> est st x = ELEM_FREE" using vE by (auto simp: N1_def v3 est2 vN)
    show "est st3 (x + esz st3 x) \<noteq> ELEM_FREE"
    proof (cases "x = a")
      case True
      then show ?thesis using Ea vE by (simp add: v3 est2 st2(4) va)
    next
      case False
      then have xN: "x \<in> N" "est st x = ELEM_FREE" using xc by auto
      have "esz st x \<noteq> 0" using blocks_okD(1) [OF ok xN(1)] xN(2) by (auto simp: elem_ok_def)
      then have "x + esz st x \<in> N" using blocks_okD(2) [OF ok xN(1)] by (simp add: next_ok_def)
      then show ?thesis using coal xN by (simp add: v3 est2 st2(4) vN coalesced_def)
    qed
  qed
  have "lowest \<le> unat x" if "x \<in> N1" for x using that lowN s(1) uE by (auto simp: N1_def)
  then have "heap_rep lowest st3 N1" using st2(2) free3 coal3 by (simp add: heap_rep_def malloc_inv_def v3)
  moreover have "busy_set st3 N1 = insert E (busy_set st N)"
    using new va vE by (auto simp: busy_set_def v3 est2 N1_def vN)
  moreover have "\<forall>x \<in> N. esz st3 x = esz st x \<and> epd st3 x = epd st x" by (simp add: v3 st2(4,7) vN)
  ultimately show ?thesis
    using run st2(1) upd vE va uE uk L
    unfolding a_def [symmetric] h_def [symmetric] N1_def by (intro exI [of _ st3] exI [of _ E]) (simp add: v3 st2(4))
qed

definition segs_apart :: "rte_memseg list \<Rightarrow> bool" where
  "segs_apart mss \<longleftrightarrow> (\<forall>i < length mss. \<forall>j < length mss. i \<noteq> j \<longrightarrow>
     unat (ms_addr (mss ! i)) + unat (ms_len (mss ! i)) \<le> unat (ms_addr (mss ! j)) \<or>
     unat (ms_addr (mss ! j)) + unat (ms_len (mss ! j)) \<le> unat (ms_addr (mss ! i)))"

lemma heap_init_segs_ok:
  assumes "heap_rep lowest st N" and "live st N = {}" and "\<forall>ms \<in> set mss. seg_ok lowest ms \<and> seg_apart st N ms"
    and "segs_apart mss"
  shows "\<exists>st' N'. heap_init_segs n mss st = Some st' \<and> heap_rep lowest st' N' \<and> live st' N' = {}"
  using assms
proof (induction mss arbitrary: n st N)
  case Nil
  then show ?case by auto
next
  case (Cons ms mss)
  show ?case
  proof (cases "n < RTE_MAX_MEMSEG \<and> 0 < ms_len ms")
    case False
    then have "heap_init_segs n (ms # mss) st = Some st" by (simp only: heap_init_segs.simps if_False)
    then show ?thesis using Cons.prems(1,2) by blast
  next
    case True
    have seg: "seg_ok lowest ms" "seg_apart st N ms" using Cons.prems(3) by auto
    define N1 where "N1 E = insert (ms_addr ms) (insert E N)" for E
    obtain st1 E where st1: "malloc_heap_add_memseg (ms_socket_id ms) ms st = Some st1" "heap_rep lowest st1 (N1 E)"
      "busy_set st1 (N1 E) = insert E (busy_set st N)" "esz st1 E = 0"
      "\<forall>a \<in> N. esz st1 a = esz st a \<and> epd st1 a = epd st a"
      "unat (ms_addr ms) + unat (esz st1 (ms_addr ms)) = unat E" "unat E + 64 \<le> unat (ms_addr ms) + unat (ms_len ms)"
      using add_memseg_ok [OF Cons.prems(1) seg] unfolding N1_def by blast
    have "esz st b = 0" if "b \<in> busy_set st N" for b using Cons.prems(2) that by (auto simp: live_def)
    moreover have "b \<in> N" if "b \<in> busy_set st N" for b using that by (auto simp: busy_set_def)
    ultimately have "esz st1 b = 0" if "b \<in> busy_set st1 (N1 E)" for b
      using that st1(4,5) unfolding st1(3) by auto
    then have live1: "live st1 (N1 E) = {}" by (auto simp: live_def)
    have other: "seg_ok lowest x \<and> seg_apart st1 (N1 E) x" if x: "x \<in> set mss" for x
    proof -
      obtain j where j: "j < length mss" "mss ! j = x" using x by (auto simp: in_set_conv_nth)
      have "unat (ms_addr ms) + unat (ms_len ms) \<le> unat (ms_addr x) \<or> unat (ms_addr x) + unat (ms_len x) \<le> unat (ms_addr ms)"
        using Cons.prems(4) [unfolded segs_apart_def, rule_format, of 0 "Suc j"] j by auto
      moreover have "seg_ok lowest x" "seg_apart st N x" using Cons.prems(3) x by auto
      moreover have "64 \<le> unat (esz st1 (ms_addr ms)) \<or> esz st1 (ms_addr ms) = 0"
        using size_ge_64 [of st1 "ms_addr ms"] st1(2) blocks_okD(1) [of st1 "N1 E" "ms_addr ms"]
        by (auto simp: heap_rep_def malloc_inv_def N1_def)
      ultimately show ?thesis using st1(4-7) seg(1)
        by (auto simp: seg_apart_def N1_def seg_ok_def)
    qed
    have apart: "segs_apart mss"
      unfolding segs_apart_def
    proof (intro allI impI)
      fix i j assume "i < length mss" "j < length mss" "i \<noteq> j"
      then show "unat (ms_addr (mss ! i)) + unat (ms_len (mss ! i)) \<le> unat (ms_addr (mss ! j)) \<or>
          unat (ms_addr (mss ! j)) + unat (ms_len (mss ! j)) \<le> unat (ms_addr (mss ! i))"
        using Cons.prems(4) [unfolded segs_apart_def, rule_format, of "Suc i" "Suc j"] by simp
    qed
    have "heap_init_segs n (ms # mss) st = heap_init_segs (n + 1) mss st1" using True st1(1) by simp
    then show ?thesis using Cons.IH [OF st1(2) live1 _ apart, of "n + 1"] other by simp
  qed
qed

definition empty_heap :: malloc_heap where
  "empty_heap = \<lparr>free_head = replicate RTE_HEAP_NUM_FREELISTS [], alloc_count = 0, total_size = 0\<rparr>"

definition no_memory :: malloc_mem where
  "no_memory = \<lparr>elems = (\<lambda>_. None), heaps = replicate RTE_MAX_NUMA_NODES empty_heap, bytes = (\<lambda>_. None)\<rparr>"

lemma no_memory_rep: "heap_rep lowest no_memory {}" "live no_memory {} = {}"
  by (simp_all add: heap_rep_def malloc_inv_def blocks_ok_def hdrs_ok_def free_ok_def coalesced_def no_memory_def empty_heap_def
      on_list_def live_def busy_set_def)

text \<open>
  The initialisation from any list of usable, disjoint memory segments succeeds and leaves
  heaps in which all memory is free and every invariant of the allocator holds.
\<close>

theorem rte_eal_malloc_heap_init_ok:
  assumes "\<forall>ms \<in> set mss. seg_ok lowest ms" and "segs_apart mss"
  shows "\<exists>st N. rte_eal_malloc_heap_init (Some mss) no_memory = Some (0, st) \<and> heap_rep lowest st N \<and> live st N = {}"
  using heap_init_segs_ok [OF no_memory_rep, of mss lowest 0] assms
  by (fastforce simp: rte_eal_malloc_heap_init_def seg_apart_def)

definition demo_seg :: rte_memseg where
  "demo_seg = \<lparr>phys_addr = 0x80000000, ms_addr = 0x7f0000000000, ms_len = 0x200000, ms_hugepage_sz = 0x200000, ms_socket_id = 0\<rparr>"

lemma demo_seg_ok: "\<forall>ms \<in> set [demo_seg]. seg_ok (2 ^ 33) ms" "segs_apart [demo_seg]"
  by (simp_all add: seg_ok_def segs_apart_def demo_seg_def)

lemma rte_eal_malloc_heap_init_ok_witness:
  "\<exists>st N. rte_eal_malloc_heap_init (Some [demo_seg]) no_memory = Some (0, st) \<and> heap_rep (2 ^ 33) st N \<and> live st N = {}"
  by (rule rte_eal_malloc_heap_init_ok [OF demo_seg_ok])

definition demo_mem :: malloc_mem where
  "demo_mem = snd (the (rte_eal_malloc_heap_init (Some [demo_seg]) no_memory))"

definition demo_malloc_env :: malloc_env where
  "demo_malloc_env = \<lparr>has_hugepages = True, lcore_socket_id = 0\<rparr>"

lemma demo_mem_rep: "\<exists>N. heap_rep (2 ^ 33) demo_mem N \<and> live demo_mem N = {}"
  using heap_init_segs_ok [OF no_memory_rep, of "[demo_seg]" "2 ^ 33" 0] demo_seg_ok
  by (fastforce simp: rte_eal_malloc_heap_init_def seg_apart_def demo_mem_def)

lemma demo_malloc_env_ok: "env_ok demo_malloc_env"
  by (simp add: env_ok_def demo_malloc_env_def)

end
