(* ===== verification/Malloc_Api.thy ===== *)
theory Malloc_Api
  imports Malloc_Heap
begin

text \<open>
  What the callers of rte_malloc.c rely on: the contract of an allocator as a locale, a client
  that stores data in its blocks proved correct against that contract, the interpretation on
  the model of the code, and the properties of the public functions.
\<close>

section \<open>The contract of an allocator\<close>

text \<open>
  A client holds blocks \<open>(pointer, length)\<close> together with what it has stored in them. It
  allocates, frees, and stores bytes within the length it asked for.
\<close>

datatype heap_op = Malloc u64 u32 | Free nat | Store nat nat u8

record heap_block =
  b_ptr :: u64
  b_len :: nat
  b_data :: "nat \<Rightarrow> u8 option"

fun client_step ::
  "(u64 \<Rightarrow> u32 \<Rightarrow> 's \<Rightarrow> (u64 \<times> 's) option) \<Rightarrow> (u64 \<Rightarrow> 's \<Rightarrow> 's option option) \<Rightarrow> (u64 \<Rightarrow> u8 \<Rightarrow> 's \<Rightarrow> 's) \<Rightarrow>
   heap_op \<Rightarrow> 's \<times> heap_block list \<Rightarrow> ('s \<times> heap_block list) option option" where
  "client_step alloc release put (Malloc sz al) (s, hs) = do {
     (p, s) \<leftarrow> alloc sz al s;
     Some (Some (s, if p = 0 then hs else hs @ [\<lparr>b_ptr = p, b_len = unat sz, b_data = (\<lambda>_. None)\<rparr>])) }"
| "client_step alloc release put (Free i) (s, hs) =
     (if i < length hs
      then map_option (map_option (\<lambda>s. (s, take i hs @ drop (Suc i) hs))) (release (b_ptr (hs ! i)) s)
      else Some (Some (s, hs)))"
| "client_step alloc release put (Store i k v) (s, hs) =
     (if i < length hs \<and> k < b_len (hs ! i)
      then Some (Some (put (b_ptr (hs ! i) + of_nat k) v s, hs[i := (hs ! i)\<lparr>b_data := (b_data (hs ! i))(k \<mapsto> v)\<rparr>]))
      else Some (Some (s, hs)))"

text \<open>The outer option is a memory fault, the inner one a panic; both end the run.\<close>

fun client_run ::
  "(u64 \<Rightarrow> u32 \<Rightarrow> 's \<Rightarrow> (u64 \<times> 's) option) \<Rightarrow> (u64 \<Rightarrow> 's \<Rightarrow> 's option option) \<Rightarrow> (u64 \<Rightarrow> u8 \<Rightarrow> 's \<Rightarrow> 's) \<Rightarrow>
   heap_op list \<Rightarrow> 's \<times> heap_block list \<Rightarrow> ('s \<times> heap_block list) option option" where
  "client_run alloc release put [] c = Some (Some c)"
| "client_run alloc release put (x # xs) c = do {
     r \<leftarrow> client_step alloc release put x c;
     case r of None \<Rightarrow> Some None | Some c \<Rightarrow> client_run alloc release put xs c }"

fun op_within :: "u64 \<Rightarrow> heap_op \<Rightarrow> bool" where
  "op_within limit (Malloc sz al) = (sz \<le> limit)"
| "op_within limit _ = True"

definition block_holds :: "('s \<Rightarrow> u64 \<Rightarrow> u8 option) \<Rightarrow> 's \<Rightarrow> heap_block \<Rightarrow> bool" where
  "block_holds rd s h \<longleftrightarrow> (\<forall>k < b_len h. \<forall>v. b_data h k = Some v \<longrightarrow> rd s (b_ptr h + of_nat k) = Some v)"

definition spans_apart :: "nat \<times> nat \<Rightarrow> nat \<times> nat \<Rightarrow> bool" where
  "spans_apart x y \<longleftrightarrow> fst x + snd x \<le> fst y \<or> fst y + snd y \<le> fst x"

locale allocator =
  fixes rep :: "'s \<Rightarrow> (nat \<times> nat) set \<Rightarrow> bool"
    and alloc :: "u64 \<Rightarrow> u32 \<Rightarrow> 's \<Rightarrow> (u64 \<times> 's) option"
    and release :: "u64 \<Rightarrow> 's \<Rightarrow> 's option option"
    and rd :: "'s \<Rightarrow> u64 \<Rightarrow> u8 option"
    and put :: "u64 \<Rightarrow> u8 \<Rightarrow> 's \<Rightarrow> 's"
    and limit :: u64
  assumes rep_apart: "rep s B \<Longrightarrow> x \<in> B \<Longrightarrow> y \<in> B \<Longrightarrow> x \<noteq> y \<Longrightarrow> spans_apart x y"
    and rep_bound: "rep s B \<Longrightarrow> x \<in> B \<Longrightarrow> fst x + snd x \<le> 2 ^ 64"
    and alloc_law: "rep s B \<Longrightarrow> sz \<le> limit \<Longrightarrow> \<exists>p s'. alloc sz al s = Some (p, s') \<and>
      (p = 0 \<and> s' = s \<or> p \<noteq> 0 \<and> 0 < sz \<and> same_data B (rd s) (rd s') \<and>
        (\<exists>m. unat sz \<le> m \<and> (unat p, m) \<notin> B \<and> rep s' (insert (unat p, m) B)))"
    and release_law: "rep s B \<Longrightarrow> (unat p, m) \<in> B \<Longrightarrow> \<exists>s'. release p s = Some (Some s') \<and>
      rep s' (B - {(unat p, m)}) \<and> same_data (B - {(unat p, m)}) (rd s) (rd s')"
    and put_law: "rep s B \<Longrightarrow> (q, m) \<in> B \<Longrightarrow> q \<le> unat a \<Longrightarrow> unat a < q + m \<Longrightarrow>
      rep (put a v s) B \<and> rd (put a v s) = (rd s)(a \<mapsto> v)"
begin

definition client_ok :: "'s \<times> heap_block list \<Rightarrow> bool" where
  "client_ok c \<longleftrightarrow> (case c of (s, hs) \<Rightarrow> \<exists>B. rep s B \<and> (\<forall>h \<in> set hs. block_holds rd s h \<and> 0 < b_len h \<and>
     (\<exists>m. b_len h \<le> m \<and> (unat (b_ptr h), m) \<in> B)) \<and> distinct (map b_ptr hs))"

lemma client_blocks_apart:
  assumes c: "client_ok (s, hs)" and i: "i < length hs" and j: "j < length hs" and ne: "i \<noteq> j"
  shows "spans_apart (unat (b_ptr (hs ! i)), b_len (hs ! i)) (unat (b_ptr (hs ! j)), b_len (hs ! j))"
proof -
  obtain B where B: "rep s B" "\<forall>h \<in> set hs. \<exists>m. b_len h \<le> m \<and> (unat (b_ptr h), m) \<in> B" and d: "distinct (map b_ptr hs)"
    using c by (auto simp: client_ok_def)
  obtain m n where m: "b_len (hs ! i) \<le> m" "(unat (b_ptr (hs ! i)), m) \<in> B"
    and n: "b_len (hs ! j) \<le> n" "(unat (b_ptr (hs ! j)), n) \<in> B"
    using B(2) i j by (meson nth_mem)
  have "b_ptr (hs ! i) \<noteq> b_ptr (hs ! j)" using d i j ne nth_eq_iff_index_eq [OF d, of i j] by auto
  then have "(unat (b_ptr (hs ! i)), m) \<noteq> (unat (b_ptr (hs ! j)), n)" by (simp add: word_unat_eq_iff)
  from rep_apart [OF B(1) m(2) n(2) this] m(1) n(1) show ?thesis by (auto simp: spans_apart_def)
qed

lemma client_cell:
  assumes c: "client_ok (s, hs)" and h: "h \<in> set hs" and k: "k < b_len h"
  shows "unat (b_ptr h + of_nat k) = unat (b_ptr h) + k"
proof -
  obtain B m where B: "rep s B" "b_len h \<le> m" "(unat (b_ptr h), m) \<in> B" using c h by (auto simp: client_ok_def)
  have "unat (b_ptr h) + m \<le> 2 ^ 64" using rep_bound [OF B(1,3)] by simp
  then have "unat (b_ptr h) + k < 2 ^ 64" "unat (of_nat k :: u64) = k"
    using B(2) k by (auto simp: unat_of_nat take_bit_nat_eq_self)
  then show ?thesis by (subst unat_add_fit) simp_all
qed

lemma block_holds_new: "block_holds rd s \<lparr>b_ptr = p, b_len = n, b_data = (\<lambda>_. None)\<rparr>"
  by (simp add: block_holds_def)

lemma block_holds_same:
  assumes "rep s B" "(unat (b_ptr h), m) \<in> B" "b_len h \<le> m" and same: "same_data A (rd s) (rd s')" "(unat (b_ptr h), m) \<in> A"
    and holds: "block_holds rd s h"
  shows "block_holds rd s' h"
  unfolding block_holds_def
proof (intro allI impI)
  fix k v assume k: "k < b_len h" "b_data h k = Some v"
  have "unat (b_ptr h) + m \<le> 2 ^ 64" using rep_bound [OF assms(1,2)] by simp
  then have "unat (b_ptr h + of_nat k) = unat (b_ptr h) + k"
    using k(1) assms(3) by (subst unat_add_fit) (simp_all add: unat_of_nat take_bit_nat_eq_self)
  then have "rd s' (b_ptr h + of_nat k) = rd s (b_ptr h + of_nat k)"
    using same k(1) assms(3) by (auto simp: same_data_def)
  then show "rd s' (b_ptr h + of_nat k) = Some v" using holds k by (simp add: block_holds_def)
qed

lemma malloc_client_ok:
  assumes c: "client_ok (s, hs)" and sz: "sz \<le> limit"
  shows "\<exists>c'. client_step alloc release put (Malloc sz al) (s, hs) = Some (Some c') \<and> client_ok c'"
proof -
  obtain B where B: "rep s B" "\<forall>h \<in> set hs. block_holds rd s h \<and> 0 < b_len h \<and> (\<exists>m. b_len h \<le> m \<and> (unat (b_ptr h), m) \<in> B)"
    and d: "distinct (map b_ptr hs)" using c by (auto simp: client_ok_def)
  obtain p s' where p: "alloc sz al s = Some (p, s')" and
    res: "p = 0 \<and> s' = s \<or> p \<noteq> 0 \<and> 0 < sz \<and> same_data B (rd s) (rd s') \<and>
      (\<exists>m. unat sz \<le> m \<and> (unat p, m) \<notin> B \<and> rep s' (insert (unat p, m) B))"
    using alloc_law [OF B(1) sz] by blast
  show ?thesis
  proof (cases "p = 0")
    case True
    then show ?thesis using p res c by auto
  next
    case False
    then obtain m where m: "unat sz \<le> m" "(unat p, m) \<notin> B" "rep s' (insert (unat p, m) B)" "0 < sz" "same_data B (rd s) (rd s')"
      using res by blast
    have holds: "block_holds rd s' h" if "h \<in> set hs" for h
      using B(2) that block_holds_same [OF B(1) _ _ m(5)] by blast
    have sz0: "0 < unat sz" using m(4) by (simp add: word_less_nat_alt)
    have "b_ptr h \<noteq> p" if h: "h \<in> set hs" for h
    proof
      assume eq: "b_ptr h = p"
      obtain n where n: "b_len h \<le> n" "(unat p, n) \<in> B" "0 < b_len h" using B(2) h eq by blast
      then have "(unat p, n) \<noteq> (unat p, m)" using m(2) by auto
      from rep_apart [OF m(3) _ _ this] n m(1) sz0 show False by (auto simp: spans_apart_def)
    qed
    then have "distinct (map b_ptr (hs @ [\<lparr>b_ptr = p, b_len = unat sz, b_data = (\<lambda>_. None)\<rparr>]))" using d by auto
    then have "client_ok (s', hs @ [\<lparr>b_ptr = p, b_len = unat sz, b_data = (\<lambda>_. None)\<rparr>])"
      using B(2) m(1-3) sz0 holds unfolding client_ok_def
      by (auto simp: block_holds_new intro!: exI [of _ "insert (unat p, m) B"])
    then show ?thesis using p False by simp
  qed
qed

lemma free_client_ok:
  assumes c: "client_ok (s, hs)"
  shows "\<exists>c'. client_step alloc release put (Free i) (s, hs) = Some (Some c') \<and> client_ok c'"
proof (cases "i < length hs")
  case False
  then show ?thesis using c by simp
next
  case True
  define p where "p = b_ptr (hs ! i)"
  obtain B where B: "rep s B" "\<forall>h \<in> set hs. block_holds rd s h \<and> 0 < b_len h \<and> (\<exists>m. b_len h \<le> m \<and> (unat (b_ptr h), m) \<in> B)"
    and d: "distinct (map b_ptr hs)" using c by (auto simp: client_ok_def)
  obtain m where m: "(unat p, m) \<in> B" using B(2) True unfolding p_def by (meson nth_mem)
  obtain s' where s': "release p s = Some (Some s')" "rep s' (B - {(unat p, m)})" "same_data (B - {(unat p, m)}) (rd s) (rd s')"
    using release_law [OF B(1) m] by blast
  define hs' where "hs' = take i hs @ drop (Suc i) hs"
  have split: "hs = take i hs @ hs ! i # drop (Suc i) hs" by (rule id_take_nth_drop [OF True])
  have "distinct (map b_ptr (take i hs @ hs ! i # drop (Suc i) hs))" using d split by simp
  then have ne: "distinct (map b_ptr hs')" "\<forall>h \<in> set hs'. b_ptr h \<noteq> p" by (auto simp: hs'_def p_def) (metis imageI)+
  have "set hs' \<subseteq> set hs" using set_take_subset [of i hs] set_drop_subset [of "Suc i" hs] by (auto simp: hs'_def)
  then have kept: "block_holds rd s' h \<and> 0 < b_len h \<and> (\<exists>n. b_len h \<le> n \<and> (unat (b_ptr h), n) \<in> B - {(unat p, m)})"
    if h: "h \<in> set hs'" for h
  proof -
    have h': "h \<in> set hs" "unat (b_ptr h) \<noteq> unat p" using h \<open>set hs' \<subseteq> set hs\<close> ne(2) by (auto simp: word_unat_eq_iff)
    then obtain n where n: "b_len h \<le> n" "(unat (b_ptr h), n) \<in> B" "block_holds rd s h" "0 < b_len h" using B(2) by blast
    then have "(unat (b_ptr h), n) \<in> B - {(unat p, m)}" using h'(2) by auto
    then show ?thesis using n block_holds_same [OF B(1) n(2,1) s'(3)] by blast
  qed
  then have "client_ok (s', hs')" using s'(2) ne(1) unfolding client_ok_def by blast
  then show ?thesis using True s'(1) by (simp add: p_def hs'_def)
qed

lemma store_client_ok:
  assumes c: "client_ok (s, hs)"
  shows "\<exists>c'. client_step alloc release put (Store i k v) (s, hs) = Some (Some c') \<and> client_ok c'"
proof (cases "i < length hs \<and> k < b_len (hs ! i)")
  case False
  then show ?thesis using c by auto
next
  case ik: True
  define a where "a = b_ptr (hs ! i) + of_nat k"
  define hs' where "hs' = hs[i := (hs ! i)\<lparr>b_data := (b_data (hs ! i))(k \<mapsto> v)\<rparr>]"
  obtain B where B: "rep s B" "\<forall>h \<in> set hs. block_holds rd s h \<and> 0 < b_len h \<and> (\<exists>m. b_len h \<le> m \<and> (unat (b_ptr h), m) \<in> B)"
    and d: "distinct (map b_ptr hs)" using c by (auto simp: client_ok_def)
  obtain mi where mi: "b_len (hs ! i) \<le> mi" "(unat (b_ptr (hs ! i)), mi) \<in> B" using B(2) ik by (meson nth_mem)
  have "unat a = unat (b_ptr (hs ! i)) + k" unfolding a_def using client_cell [OF c, of "hs ! i" k] ik by simp
  then have pl: "rep (put a v s) B" "rd (put a v s) = (rd s)(a \<mapsto> v)"
    using put_law [OF B(1) mi(2), of a v] ik mi(1) by auto
  have ptr: "map b_ptr hs' = map b_ptr hs" "map b_len hs' = map b_len hs"
    by (simp_all add: hs'_def map_update list_update_same_conv ik)
  have len: "length hs' = length hs" by (simp add: hs'_def)
  have holds: "block_holds rd (put a v s) (hs' ! j)" if j: "j < length hs" for j
  proof (cases "j = i")
    case True
    have "block_holds rd s (hs ! i)" using B(2) True j by simp
    moreover have "of_nat k' \<noteq> (of_nat k :: u64)" if "k' < b_len (hs ! i)" "k' \<noteq> k" for k'
      using client_cell [OF c, of "hs ! i" k'] client_cell [OF c, of "hs ! i" k] that ik by auto
    ultimately show ?thesis using True j by (auto simp: hs'_def block_holds_def pl(2) [unfolded a_def] a_def)
  next
    case False
    have "spans_apart (unat (b_ptr (hs ! i)), b_len (hs ! i)) (unat (b_ptr (hs ! j)), b_len (hs ! j))"
      using client_blocks_apart [OF c _ j] ik False by simp
    moreover have "block_holds rd s (hs ! j)" using B(2) j by simp
    moreover have "b_ptr (hs ! j) + of_nat k' \<noteq> a" if "k' < b_len (hs ! j)" "spans_apart (unat (b_ptr (hs ! i)), b_len (hs ! i)) (unat (b_ptr (hs ! j)), b_len (hs ! j))" for k'
      using client_cell [OF c, of "hs ! j" k'] client_cell [OF c, of "hs ! i" k] that ik j unfolding a_def spans_apart_def
      by fastforce
    ultimately show ?thesis using False by (auto simp: hs'_def block_holds_def pl(2))
  qed
  have blk: "b_ptr (hs' ! j) = b_ptr (hs ! j) \<and> b_len (hs' ! j) = b_len (hs ! j)" if "j < length hs" for j
    using that ptr len by (metis nth_map)
  have "client_ok (put a v s, hs')"
    unfolding client_ok_def split
  proof (intro exI [of _ B] conjI ballI)
    show "rep (put a v s) B" by (rule pl(1))
    show "distinct (map b_ptr hs')" using d ptr by simp
    fix h assume "h \<in> set hs'"
    then obtain j where j: "j < length hs" "h = hs' ! j" using len by (auto simp: in_set_conv_nth)
    then have "hs ! j \<in> set hs" by simp
    then show "block_holds rd (put a v s) h" "0 < b_len h" "\<exists>m. b_len h \<le> m \<and> (unat (b_ptr h), m) \<in> B"
      using holds [OF j(1)] blk [OF j(1)] B(2) j(2) by auto
  qed
  then show ?thesis using ik by (simp add: a_def hs'_def)
qed

lemma client_run_ok:
  assumes "client_ok c" and "list_all (op_within limit) xs"
  shows "\<exists>c'. client_run alloc release put xs c = Some (Some c') \<and> client_ok c'"
  using assms
proof (induction xs arbitrary: c)
  case Nil
  then show ?case by simp
next
  case (Cons x xs)
  obtain s hs where c: "c = (s, hs)" by (cases c)
  have "\<exists>c'. client_step alloc release put x c = Some (Some c') \<and> client_ok c'"
    using Cons.prems malloc_client_ok free_client_ok store_client_ok by (cases x) (auto simp: c)
  then show ?case using Cons.IH Cons.prems(2) by fastforce
qed

end

text \<open>An element has a start point whenever some aligned address leaves room for a header and the data.\<close>

lemma elem_start_pt_room:
  assumes ok: "elem_ok st a" and pow: "POWEROF2 align" "64 \<le> unat align"
    and low: "unat sz + unat align + 64 \<le> unat a"
    and room: "unat align dvd x" "unat a + 64 \<le> x" "x + unat sz \<le> unat a + unat (esz st a)"
  shows "elem_start_pt a (the (elems st a)) sz align 0 \<noteq> 0"
proof -
  have al0: "align \<noteq> 0" using pow(2) by auto
  define d where "d = RTE_ALIGN_FLOOR (a + esz st a - sz) (ucast (align - 1))"
  define E where "E = unat a + unat (esz st a) - unat sz"
  have "unat (a + esz st a) = unat a + unat (esz st a)" by (rule unat_next [OF ok])
  then have E: "unat (a + esz st a - sz) = E"
    using low by (subst unat_sub) (simp_all add: word_le_nat_alt E_def)
  have "unat d = E - E mod unat align" unfolding d_def align_floor_pow2 [OF pow(1) al0] E ..
  then have "unat d = unat align * (E div unat align)" by (simp add: minus_mod_eq_mult_div)
  moreover obtain q where q: "x = unat align * q" using room(1) by blast
  moreover have "x \<le> E" using room(3) by (simp add: E_def)
  then have "q \<le> E div unat align" using q pow(2) by (simp add: less_eq_div_iff_mult_less_eq mult.commute)
  ultimately have "x \<le> unat d" by simp
  then have d: "unat a + 64 \<le> unat d" using room(2) by simp
  then have "unat (d - 64) = unat d - 64" by (subst unat_sub) (simp_all add: word_le_nat_alt)
  moreover have "0 < unat a" using ok by (simp add: elem_ok_def unat_gt_0)
  ultimately have "\<not> d - 64 < a" "0 < unat (d - 64)" using d by (simp_all add: word_less_nat_alt)
  moreover have "elem_start_pt a (the (elems st a)) sz align 0 = (if d - 64 < a then 0 else d - 64)"
    by (simp add: elem_start_pt_def Let_def d_def esz_def)
  ultimately show ?thesis by auto
qed

lemma al_pow2_le:
  assumes "al = 0 \<or> rte_is_power_of_2 al"
  shows "unat al \<le> 2 ^ 31"
proof (cases "al = 0")
  case False
  with assms have pow: "POWEROF2 al" by (simp add: rte_is_power_of_2_def POWEROF2_def and.commute)
  obtain k where k: "k < 32" "unat al = 2 ^ k" using POWEROF2_unat [OF pow False] by auto
  have "(2::nat) ^ k \<le> 2 ^ 31" using k(1) by (intro power_increasing) auto
  then show ?thesis unfolding k(2) .
qed simp

section \<open>The code implements the contract\<close>

text \<open>
  The representation of a set of blocks: the heaps after initialisation on segments above
  8 GB (the mappings of huge pages are far above), with exactly these blocks in use.
\<close>

definition mem_rep :: "malloc_env \<times> malloc_mem \<Rightarrow> (nat \<times> nat) set \<Rightarrow> bool" where
  "mem_rep s B \<longleftrightarrow> env_ok (fst s) \<and> (\<exists>lowest N. 2 ^ 33 \<le> lowest \<and> heap_rep lowest (snd s) N \<and> live (snd s) N = B)"

definition mem_alloc :: "u64 \<Rightarrow> u32 \<Rightarrow> malloc_env \<times> malloc_mem \<Rightarrow> (u64 \<times> malloc_env \<times> malloc_mem) option" where
  "mem_alloc sz al s = map_option (\<lambda>(p, st). (p, fst s, st)) (rte_malloc (fst s) sz al (snd s))"

definition mem_free :: "u64 \<Rightarrow> malloc_env \<times> malloc_mem \<Rightarrow> (malloc_env \<times> malloc_mem) option option" where
  "mem_free p s = map_option (map_option (Pair (fst s))) (rte_free p (snd s))"

definition mem_put :: "u64 \<Rightarrow> u8 \<Rightarrow> malloc_env \<times> malloc_mem \<Rightarrow> malloc_env \<times> malloc_mem" where
  "mem_put a v s = (fst s, store_bytes a 1 (\<lambda>_. Some v) (snd s))"

lemma overlapsI:
  assumes "b - a < (64 :: u64)" "b - p < n"
  shows "overlaps a p n"
proof (cases "b - a \<le> b - p")
  case True
  have "a - p = (b - p) - (b - a)" by simp
  then have "unat (a - p) = unat (b - p) - unat (b - a)" using unat_sub [OF True] by simp
  then show ?thesis using assms by (auto simp: overlaps_def word_less_nat_alt)
next
  case False
  have "p - a = (b - a) - (b - p)" by simp
  moreover have "b - p \<le> b - a" using False by simp
  ultimately have "unat (p - a) = unat (b - a) - unat (b - p)" using unat_sub [of "b - p" "b - a"] by simp
  then show ?thesis using assms by (auto simp: overlaps_def word_less_nat_alt)
qed

text \<open>A store into the data of a block in use destroys no header of the heap.\<close>

lemma store_heap_rep:
  assumes rep: "heap_rep lowest st N" and q: "(q, k) \<in> live st N" "q \<le> unat p" "unat p + unat n \<le> q + k" "q + k \<le> 2 ^ 64"
  shows "heap_rep lowest (store_bytes p n f st) N" and "live (store_bytes p n f st) N = live st N"
proof -
  define st' where "st' = store_bytes p n f st"
  have ok: "blocks_ok st N" and free: "free_ok st N {}" using rep by (auto simp: heap_rep_def malloc_inv_def)
  have inside: "q \<le> unat x \<and> unat x < q + k" if "x - p < n" for x
    using that in_span [of p n x] q by auto
  have pin: "q \<le> unat p \<and> unat p < q + k" if "n \<noteq> 0"
  proof -
    have "0 < unat n" using that by (simp add: unat_gt_0)
    with q show ?thesis by linarith
  qed
  have keep: "elems st' x = elems st x" if "x \<in> N" for x
  proof -
    have "\<not> overlaps x p n"
      using live_header_apart [OF ok q(1) _ _ that] inside [of x] pin by (fastforce simp: overlaps_def)
    then show ?thesis by (simp add: st'_def store_bytes_def)
  qed
  have pad: "elems st' (x + 64) = elems st (x + 64)" if x: "x \<in> N" "est st x = ELEM_BUSY" "epd st x \<noteq> 0" for x
  proof -
    have px: "epd st x = 64" "128 \<le> unat (esz st x)" using blocks_okD(4) [OF ok x(1)] x by (auto simp: pad_ok_def)
    have ex: "unat x + unat (esz st x) + 64 \<le> 2 ^ 64" using blocks_okD(1) [OF ok x(1)] by (simp add: elem_ok_def)
    have "unat (x + 128) = unat x + 128" by (subst unat_add_fit) (use px ex in simp_all)
    then have "block_of st x = (unat (x + 128), unat (esz st x) - 128)" by (simp add: block_of_def px)
    moreover have "esz st x \<noteq> 0" using px by auto
    ultimately have lx: "(unat (x + 128), unat (esz st x) - 128) \<in> live st N"
      using x unfolding live_def busy_set_def by force
    have x64: "x + 128 - 64 = x + 64" by simp
    have "\<not> overlaps (x + 64) p n"
      using live_dummy_apart [OF ok q(1) _ _ lx] inside [of "x + 64"] pin unfolding x64
      by (fastforce simp: overlaps_def)
    then show ?thesis by (simp add: st'_def store_bytes_def)
  qed
  have v: "esz st' x = esz st x" "epv st' x = epv st x" "est st' x = est st x" "epd st' x = epd st x" "ehp st' x = ehp st x"
    if "x \<in> N" for x using keep [OF that] by (simp_all add: elem_views)
  have w: "est st' (x + 64) = est st (x + 64)" "epd st' (x + 64) = epd st (x + 64)"
    if "x \<in> N" "est st x = ELEM_BUSY" "epd st x \<noteq> 0" for x using pad [OF that] by (simp_all add: elem_views)
  have hdr: "hdrs_ok (elems st') (bytes st')"
    unfolding hdrs_ok_def
  proof (intro allI impI conjI)
    fix a assume "elems st' a \<noteq> None"
    then have a: "\<not> overlaps a p n" "elems st a \<noteq> None" by (auto simp: st'_def store_bytes_def split: if_splits)
    then show "64 dvd unat a" using blocks_ok_hdrs [OF ok] by (simp add: hdrs_ok_def)
    fix b assume b: "b - a < 64"
    then have "bytes st b = None" using a(2) blocks_ok_hdrs [OF ok] by (simp add: hdrs_ok_def)
    moreover have "\<not> b - p < n" using overlapsI [OF b] a(1) by blast
    ultimately show "bytes st' b = None" by (simp add: st'_def store_bytes_def)
  qed
  have "blocks_ok st' N"
    unfolding blocks_ok_def
  proof (intro ballI conjI hdr)
    fix a b assume a: "a \<in> N" and b: "b \<in> N"
    note va = v [OF a] and o = blocks_okD [OF ok a]
    show "elem_ok st' a" using o(1) by (simp add: elem_ok_def va keep [OF a])
    show "next_ok st' N a" using o(2) v(2) by (auto simp: next_ok_def va)
    show "prev_ok st' N a" using o(3) v(1) by (auto simp: prev_ok_def va)
    show "pad_ok st' a" using o(4) w [OF a] pad [OF a] by (auto simp: pad_ok_def va)
    show "apart st' a b" using o(5) [OF b] by (simp add: apart_def va)
  qed
  moreover have "on_list st' N {} h i = on_list st N {} h i" for h i by (auto simp: on_list_def v)
  then have "free_ok st' N {}" using free by (auto simp: free_ok_def st'_def)
  moreover have "coalesced st' N"
    unfolding coalesced_def
  proof (intro ballI impI)
    fix a assume a: "a \<in> N" "est st' a = ELEM_FREE"
    then have fa: "est st a = ELEM_FREE" using v(3) by simp
    then have "esz st a \<noteq> 0" using blocks_okD(1) [OF ok a(1)] by (auto simp: elem_ok_def)
    then have "a + esz st a \<in> N" using blocks_okD(2) [OF ok a(1)] by (simp add: next_ok_def)
    then show "est st' (a + esz st' a) \<noteq> ELEM_FREE"
      using v a(1) fa rep by (auto simp: heap_rep_def coalesced_def)
  qed
  ultimately show "heap_rep lowest (store_bytes p n f st) N" using rep by (simp add: heap_rep_def malloc_inv_def st'_def)
  have "{b \<in> busy_set st' N. esz st' b \<noteq> 0} = {b \<in> busy_set st N. esz st b \<noteq> 0}"
    by (auto simp: busy_set_def v)
  moreover have "block_of st' b = block_of st b" if "b \<in> busy_set st N" for b
    using that by (simp add: block_of_def busy_set_def v)
  ultimately show "live (store_bytes p n f st) N = live st N" by (auto simp: live_def st'_def)
qed

lemma live_bound:
  assumes ok: "blocks_ok st N" and p: "(p, m) \<in> live st N"
  shows "p + m \<le> 2 ^ 64"
proof -
  obtain b where b: "b \<in> busy_set st N" "esz st b \<noteq> 0" "(p, m) = block_of st b" using p by (auto simp: live_def)
  then show ?thesis using block_bounds [OF ok b(1,2)] by (simp add: block_of_def)
qed

lemma alloc_outcome_data:
  assumes "alloc_outcome lowest st N sz al p st'" and "p \<noteq> 0"
  obtains N' m where "heap_rep lowest st' N'" "unat sz \<le> m" "(unat p, m) \<notin> live st N"
    "live st' N' = insert (unat p, m) (live st N)" "same_data (live st' N') (bytes st) (bytes st')"
proof -
  obtain N' m where m: "heap_rep lowest st' N'" "only_hdrs (insert (p - 64) N') (bytes st) (bytes st')" "unat sz \<le> m"
    "(unat p, m) \<notin> live st N" "live st' N' = insert (unat p, m) (live st N)"
    using assms by (auto simp: alloc_outcome_def)
  have "blocks_ok st' N'" using m(1) by (simp add: heap_rep_def malloc_inv_def)
  then have "same_data (live st' N') (bytes st) (bytes st')" using only_hdrs_live m(2,5) by blast
  then show thesis using that m by blast
qed

lemma rte_malloc_outcome:
  assumes rep: "heap_rep lowest st N" and env: "env_ok env" and low: "unat sz + max 64 (unat al) + 127 \<le> lowest"
  shows "\<exists>p st'. rte_malloc env sz al st = Some (p, st') \<and> alloc_outcome lowest st N sz al p st' \<and> (p \<noteq> 0 \<longrightarrow> 0 < sz)"
proof -
  obtain p st' where p: "rte_malloc env sz al st = Some (p, st')" "alloc_outcome lowest st N sz al p st'"
    using rte_malloc_socket_ok [OF rep low env, of SOCKET_ID_ANY] by (auto simp: rte_malloc_def)
  moreover have "p = 0" if "sz = 0" using p(1) that by (simp add: rte_malloc_def rte_malloc_socket_def)
  ultimately show ?thesis using word_gt_0 [of sz] by blast
qed

interpretation eal: allocator mem_rep mem_alloc mem_free "\<lambda>s. bytes (snd s)" mem_put "2 ^ 32"
proof unfold_locales
  fix s :: "malloc_env \<times> malloc_mem" and B
  assume "mem_rep s B"
  then obtain env st lowest N where s: "s = (env, st)" and rep: "env_ok env" "2 ^ 33 \<le> lowest" "heap_rep lowest st N"
    and B: "live st N = B" by (cases s) (auto simp: mem_rep_def)
  have ok: "blocks_ok st N" using rep(3) by (simp add: heap_rep_def malloc_inv_def)
  show "spans_apart x y" if "x \<in> B" "y \<in> B" "x \<noteq> y" for x y
    using live_apart [OF ok, of "fst x" "snd x" "fst y" "snd y"] that B by (auto simp: spans_apart_def)
  show "fst x + snd x \<le> 2 ^ 64" if "x \<in> B" for x
    using live_bound [OF ok, of "fst x" "snd x"] that B by simp
  show "\<exists>p s'. mem_alloc sz al s = Some (p, s') \<and> (p = 0 \<and> s' = s \<or> p \<noteq> 0 \<and> 0 < sz \<and>
      same_data B (bytes (snd s)) (bytes (snd s')) \<and> (\<exists>m. unat sz \<le> m \<and> (unat p, m) \<notin> B \<and> mem_rep s' (insert (unat p, m) B)))" if sz: "sz \<le> 2 ^ 32" for sz al
  proof -
    have u32: "unat (2 ^ 32 :: u64) = 2 ^ 32" by simp
    have "unat sz \<le> 2 ^ 32" using sz unfolding word_le_nat_alt u32 .
    show ?thesis
    proof (cases "al = 0 \<or> rte_is_power_of_2 al")
      case True
      have "max 64 (unat al) \<le> 2 ^ 31" using al_pow2_le [OF True] by simp
      then have "unat sz + max 64 (unat al) + 127 \<le> lowest" using \<open>unat sz \<le> 2 ^ 32\<close> rep(2) by simp
      then obtain p st' where p: "rte_malloc env sz al st = Some (p, st')" "alloc_outcome lowest st N sz al p st'" "p \<noteq> 0 \<longrightarrow> 0 < sz"
        using rte_malloc_outcome [OF rep(3,1)] by blast
      have "mem_alloc sz al s = Some (p, env, st')" using p(1) by (simp add: mem_alloc_def s)
      then show ?thesis
      proof (cases "p = 0")
        case True
        then show ?thesis using \<open>mem_alloc sz al s = _\<close> p(2) by (simp add: alloc_outcome_def s)
      next
        case False
        obtain N' m where m: "heap_rep lowest st' N'" "unat sz \<le> m" "(unat p, m) \<notin> live st N"
          "live st' N' = insert (unat p, m) (live st N)" "same_data (live st' N') (bytes st) (bytes st')"
          using alloc_outcome_data [OF p(2) False] .
        have "mem_rep (env, st') (insert (unat p, m) B)" using rep(1,2) m(1,4) B by (auto simp: mem_rep_def)
        moreover have "same_data B (bytes st) (bytes st')" using same_data_mono [OF m(5)] m(4) B by auto
        ultimately show ?thesis using \<open>mem_alloc sz al s = _\<close> p(3) False m(2,3) B s by auto
      qed
    next
      case False
      then have "mem_alloc sz al s = Some (0, s)" by (simp add: mem_alloc_def s rte_malloc_def rte_malloc_socket_def)
      then show ?thesis by blast
    qed
  qed
  show "\<exists>s'. mem_free p s = Some (Some s') \<and> mem_rep s' (B - {(unat p, m)}) \<and>
      same_data (B - {(unat p, m)}) (bytes (snd s)) (bytes (snd s'))"
    if "(unat p, m) \<in> B" for p m
  proof -
    have "(unat p, m) \<in> live st N" using that B by simp
    then obtain st' N' where "rte_free p st = Some (Some st')" "heap_rep lowest st' N'" "live st' N' = live st N - {(unat p, m)}"
      "bytes st' = bytes st" using rte_free_live [OF rep(3), of p m] by blast
    then show ?thesis using rep(1,2) B by (auto simp: mem_free_def s mem_rep_def same_data_def)
  qed
  show "mem_rep (mem_put a v s) B \<and> bytes (snd (mem_put a v s)) = (bytes (snd s))(a \<mapsto> v)"
    if q: "(q, m) \<in> B" "q \<le> unat a" "unat a < q + m" for q m a v
  proof -
    have "q + m \<le> 2 ^ 64" using live_bound [OF ok] q(1) B by blast
    then have "heap_rep lowest (store_bytes a 1 (\<lambda>_. Some v) st) N \<and> live (store_bytes a 1 (\<lambda>_. Some v) st) N = live st N"
      using store_heap_rep [OF rep(3), of q m a 1] q B by auto
    then have "mem_rep (mem_put a v s) B" using rep(1,2) B by (auto simp: mem_put_def s mem_rep_def)
    moreover have "b - a < 1 \<longleftrightarrow> b = a" for b :: u64 by (simp add: word_less_nat_alt unat_eq_0)
    then have "bytes (snd (mem_put a v s)) = (bytes (snd s))(a \<mapsto> v)"
      by (auto simp: mem_put_def s store_bytes_def fun_eq_iff)
    ultimately show ?thesis ..
  qed
qed

section \<open>Evaluation\<close>

text \<open>A configuration with one segment, and rules that evaluate the model on it by rewriting.\<close>

lemma empty_heap_eval:
  "empty_heap = \<lparr>free_head = [[], [], [], [], [], [], [], [], [], [], [], [], []], alloc_count = 0, total_size = 0\<rparr>"
  by (simp add: empty_heap_def numeral_eq_Suc)

lemma no_memory_eval:
  "no_memory = \<lparr>elems = (\<lambda>_. None), heaps = [empty_heap, empty_heap, empty_heap, empty_heap, empty_heap, empty_heap,
     empty_heap, empty_heap], bytes = (\<lambda>_. None)\<rparr>"
  by (simp add: no_memory_def numeral_eq_Suc)

lemma bit_length_eval:
  "bit_length 0 = 0" "bit_length 1 = 1" "bit_length (Suc 0) = 1"
  "bit_length (numeral k) = Suc (bit_length (numeral k div 2))"
  by (subst bit_length.simps; simp add: bit_length.simps)+

lemma put_elem_get: "elems (put_elem a e st) x = (if x = a then Some e else if overlaps x a 64 then None else elems st x)"
  by (simp add: put_elem_def)

lemmas init_eval = rte_eal_malloc_heap_init_def malloc_heap_add_memseg_def malloc_elem_init_def malloc_elem_mkend_def
  no_memory_eval empty_heap_eval RTE_ALIGN_FLOOR_def upd_elem_def upd_heap_def read_at_def write_at_def
  malloc_elem_free_list_insert_def malloc_elem_free_list_index_def bit_length_eval Let_def
  put_elem_get overlaps_def

lemmas alloc_eval = RTE_CACHE_LINE_ROUNDUP_def RTE_ALIGN_FLOOR_def upd_elem_def upd_heap_def read_at_def write_at_def
  malloc_elem_free_list_insert_def malloc_elem_free_list_index_def bit_length_eval Let_def malloc_elem_init_def
  malloc_elem_alloc_def elem_free_list_remove_def elem_start_pt_def split_elem_def malloc_heap_alloc_def
  find_suitable_element_def malloc_elem_can_hold_def rte_malloc_def rte_malloc_socket_def malloc_get_numa_socket_def
  rte_is_power_of_2_def demo_malloc_env_def check_hugepage_sz_def
  put_elem_get overlaps_def no_memory_eval

lemmas free_eval = rte_free_def malloc_elem_from_data_def malloc_elem_free_def join_elem_def

lemma demo_mem_eval: "demo_mem = (let
   st = put_elem 0x7f0000000000 \<lparr>e_heap = 0, e_prev = 0, e_ms = demo_seg, e_state = ELEM_FREE, e_pad = 0, e_size = 0x1fffc0\<rparr> no_memory;
   st = put_elem 0x7f00001fffc0 \<lparr>e_heap = 0, e_prev = 0, e_ms = demo_seg, e_state = ELEM_FREE, e_pad = 0, e_size = 0\<rparr> st;
   st = put_elem 0x7f00001fffc0 \<lparr>e_heap = 0, e_prev = 0x7f0000000000, e_ms = demo_seg, e_state = ELEM_BUSY, e_pad = 0, e_size = 0\<rparr> st;
   st = put_elem 0x7f0000000000 \<lparr>e_heap = 0, e_prev = 0, e_ms = demo_seg, e_state = ELEM_FREE, e_pad = 0, e_size = 0x1fffc0\<rparr> st in
   st\<lparr>heaps := [\<lparr>free_head = [[], [], [], [], [], [], [], [0x7f0000000000], [], [], [], [], []], alloc_count = 0, total_size = 0x1fffc0\<rparr>,
     empty_heap, empty_heap, empty_heap, empty_heap, empty_heap, empty_heap, empty_heap]\<rparr>)"
  unfolding demo_mem_def demo_seg_def by (simp add: init_eval cong: eval_cong)

lemma demo_alloc_nonzero: "fst (the (rte_malloc demo_malloc_env 100 512 demo_mem)) \<noteq> 0"
  unfolding demo_mem_eval by (simp add: alloc_eval empty_heap_eval cong: eval_cong)

lemma demo_block: "\<exists>(p :: u64) m st N. heap_rep (2 ^ 33) st N \<and> (unat p, m) \<in> live st N"
proof -
  obtain N where N: "heap_rep (2 ^ 33) demo_mem N" using demo_mem_rep by blast
  obtain p st where p: "rte_malloc demo_malloc_env 100 512 demo_mem = Some (p, st)"
    "alloc_outcome (2 ^ 33) demo_mem N 100 512 p st"
    using rte_malloc_outcome [OF N demo_malloc_env_ok, of 100 512] by auto
  have "p \<noteq> 0" using demo_alloc_nonzero p(1) by simp
  then obtain N' m where "heap_rep (2 ^ 33) st N'" "(unat p, m) \<in> live st N'" using p(2) by (auto simp: alloc_outcome_def)
  then show ?thesis by blast
qed

section \<open>Properties of the public functions\<close>

text \<open>
  C5. From the initialisation on disjoint segments above 8 GB on, every run of a client that asks
  for at most 4 GB ($2^{32}$ bytes) at a time, stores only within the lengths it asked for and
  frees its own blocks, in any order, never faults and never panics; every byte it has stored
  is still there, no header the allocator has written since has gone over it, and no two of its
  blocks overlap. Headers and stored bytes lie in one memory and destroy each other.
\<close>

theorem rte_malloc_client_safe:
  assumes "\<forall>ms \<in> set mss. seg_ok (2 ^ 33) ms" and "segs_apart mss" and "env_ok env" and "list_all (op_within (2 ^ 32)) xs"
  shows "\<exists>st s hs. rte_eal_malloc_heap_init (Some mss) no_memory = Some (0, st) \<and>
    client_run mem_alloc mem_free mem_put xs ((env, st), []) = Some (Some (s, hs)) \<and>
    (\<forall>h \<in> set hs. block_holds (\<lambda>s. bytes (snd s)) s h) \<and>
    (\<forall>i < length hs. \<forall>j < length hs. i \<noteq> j \<longrightarrow>
       spans_apart (unat (b_ptr (hs ! i)), b_len (hs ! i)) (unat (b_ptr (hs ! j)), b_len (hs ! j)))"
proof -
  obtain st N where st: "heap_init_segs 0 mss no_memory = Some st" "heap_rep (2 ^ 33) st N" "live st N = {}"
    using heap_init_segs_ok [OF no_memory_rep, of mss "2 ^ 33" 0] assms(1,2) by (auto simp: seg_apart_def)
  then have "eal.client_ok ((env, st), [])" using assms(3) by (auto simp: eal.client_ok_def mem_rep_def)
  from eal.client_run_ok [OF this assms(4)] obtain c where
    c: "client_run mem_alloc mem_free mem_put xs ((env, st), []) = Some (Some c)" "eal.client_ok c" by blast
  obtain s hs where "c = (s, hs)" by (cases c)
  moreover have "rte_eal_malloc_heap_init (Some mss) no_memory = Some (0, st)"
    using st(1) by (simp add: rte_eal_malloc_heap_init_def)
  moreover have "\<forall>h \<in> set hs. block_holds (\<lambda>s. bytes (snd s)) s h"
    using c(2) \<open>c = (s, hs)\<close> by (auto simp: eal.client_ok_def)
  ultimately show ?thesis using c eal.client_blocks_apart [of s hs] by blast
qed

definition demo_ops :: "heap_op list" where
  "demo_ops = [Malloc 100 0, Malloc 64 256, Store 0 99 7, Free 1, Malloc 5000 64, Store 1 0 9, Free 0]"

lemma rte_malloc_client_safe_witness:
  "\<exists>st s hs. rte_eal_malloc_heap_init (Some [demo_seg]) no_memory = Some (0, st) \<and>
    client_run mem_alloc mem_free mem_put demo_ops ((demo_malloc_env, st), []) = Some (Some (s, hs))"
proof -
  have "list_all (op_within (2 ^ 32)) demo_ops" by (simp add: demo_ops_def)
  from rte_malloc_client_safe [OF demo_seg_ok demo_malloc_env_ok this] show ?thesis by blast
qed

text \<open>
  C23. \<open>rte_malloc\<close> of a size that, with its alignment and 127 bytes, is below the lowest
  address of the segments never faults. It either returns NULL and changes nothing, or a new
  block: at least as long as asked for, aligned to the request and to a cache line, inside the
  segments, disjoint from every block in use. The bytes of all blocks, the new one included,
  stay as they are: what is written are headers of elements and the 64 bytes before the block.
\<close>

theorem rte_malloc_ok:
  assumes "heap_rep lowest st N" and "env_ok env" and "unat sz + max 64 (unat al) + 127 \<le> lowest"
  shows "\<exists>p st'. rte_malloc env sz al st = Some (p, st') \<and>
    (p = 0 \<and> st' = st \<or>
     p \<noteq> 0 \<and> max 64 (unat al) dvd unat p \<and>
       (\<exists>N' m. heap_rep lowest st' N' \<and> region st' N' = region st N \<and> unat sz \<le> m \<and>
         live st' N' = insert (unat p, m) (live st N) \<and>
         (\<forall>(q, k) \<in> live st N. unat p + m \<le> q \<or> q + k \<le> unat p) \<and>
         same_data (live st' N') (bytes st) (bytes st') \<and>
         only_hdrs (insert (p - 64) N') (bytes st) (bytes st')))"
proof -
  obtain p st' where p: "rte_malloc env sz al st = Some (p, st')" "alloc_outcome lowest st N sz al p st'"
    using rte_malloc_socket_ok [OF assms(1,3,2), of SOCKET_ID_ANY] by (auto simp: rte_malloc_def)
  have "(\<forall>(q, k) \<in> live st N. unat p + m \<le> q \<or> q + k \<le> unat p) \<and> same_data (live st' N') (bytes st) (bytes st')"
    if m: "heap_rep lowest st' N'" "(unat p, m) \<notin> live st N" "live st' N' = insert (unat p, m) (live st N)"
      "only_hdrs (insert (p - 64) N') (bytes st) (bytes st')" for N' m
  proof -
    have ok: "blocks_ok st' N'" using m(1) by (simp add: heap_rep_def malloc_inv_def)
    have "unat p + m \<le> q \<or> q + k \<le> unat p" if qk: "(q, k) \<in> live st N" for q k
      using live_apart [OF ok, of "unat p" m q k] m(2,3) qk by auto
    then show ?thesis using only_hdrs_live [OF ok m(4)] m(3) by auto
  qed
  then show ?thesis using p unfolding alloc_outcome_def by blast
qed

lemma rte_malloc_ok_witness:
  "\<exists>p st'. rte_malloc demo_malloc_env 100 512 demo_mem = Some (p, st') \<and> 512 dvd unat p"
proof -
  obtain N where "heap_rep (2 ^ 33) demo_mem N" using demo_mem_rep by blast
  from rte_malloc_ok [OF this demo_malloc_env_ok, of 100 512] show ?thesis by fastforce
qed

text \<open>
  C24. \<open>rte_free\<close> of a block in use takes exactly that block out of use, whatever its padding and
  whatever its neighbours, merges it with free neighbours, and leaves every invariant, the
  memory covered and all other blocks as they are.
\<close>

theorem rte_free_ok:
  assumes "heap_rep lowest st N" and "(unat p, m) \<in> live st N"
  shows "\<exists>st' N'. rte_free p st = Some (Some st') \<and> heap_rep lowest st' N' \<and>
    live st' N' = live st N - {(unat p, m)} \<and> region st' N' = region st N \<and> bytes st' = bytes st"
  by (rule rte_free_live [OF assms])


lemma rte_free_ok_witness:
  "\<exists>(p :: u64) m st N. (unat p, m) \<in> live st N \<and> (\<exists>st'. rte_free p st = Some (Some st'))"
proof -
  obtain p :: u64 and m st N where m: "heap_rep (2 ^ 33) st N" "(unat p, m) \<in> live st N" using demo_block by blast
  from rte_free_ok [OF m] m(2) show ?thesis by blast
qed



text \<open>
  \<open>rte_calloc\<close> of a number and a size whose product does not overflow returns NULL, with
  nothing changed, or a new block of at least the product, all zero; the contents of every block
  in use stay as they are.
\<close>

theorem rte_calloc_ok:
  assumes "heap_rep lowest st N" and "env_ok env" and "unat num * unat sz + max 64 (unat al) + 127 \<le> lowest"
  shows "\<exists>p st'. rte_calloc env num sz al st = Some (p, st') \<and> (p = 0 \<and> st' = st \<or>
    p \<noteq> 0 \<and> (\<exists>N' m. heap_rep lowest st' N' \<and> unat num * unat sz \<le> m \<and> live st' N' = insert (unat p, m) (live st N)) \<and>
    (\<forall>k < unat num * unat sz. bytes st' (p + of_nat k) = Some 0) \<and>
    same_data (live st N) (bytes st) (bytes st'))"
proof -
  have le: "unat (num * sz) \<le> unat num * unat sz" by (simp add: unat_word_ariths(2))
  have "unat (num * sz) + max 64 (unat al) + 127 \<le> lowest" using le assms(3) by linarith
  from rte_malloc_outcome [OF assms(1,2) this] obtain p st1 where
    p: "rte_malloc env (num * sz) al st = Some (p, st1)" "alloc_outcome lowest st N (num * sz) al p st1" by blast
  have run: "rte_calloc env num sz al st = Some (p, if p \<noteq> 0 then memset0 p (num * sz) st1 else st1)"
    using p(1) by (simp add: rte_calloc_def rte_zmalloc_def rte_zmalloc_socket_def rte_malloc_def)
  show ?thesis
  proof (cases "p = 0")
    case True
    then show ?thesis using run p(2) by (simp add: alloc_outcome_def)
  next
    case False
    obtain N' m where m: "heap_rep lowest st1 N'" "unat (num * sz) \<le> m" "(unat p, m) \<notin> live st N"
      "live st1 N' = insert (unat p, m) (live st N)" "same_data (live st1 N') (bytes st) (bytes st1)"
      using alloc_outcome_data [OF p(2) False] .
    have ok: "blocks_ok st1 N'" using m(1) by (simp add: heap_rep_def malloc_inv_def)
    obtain b where b: "b \<in> N'" using m(4) by (auto simp: live_def busy_set_def)
    then have "lowest \<le> unat b" using m(1) by (auto simp: heap_rep_def)
    moreover have "unat b < 2 ^ LENGTH(64)" by (rule unsigned_less)
    ultimately have "unat num * unat sz < 2 ^ 64" using assms(3) by simp
    then have uns: "unat (num * sz) = unat num * unat sz" by (simp add: unat_word_ariths(2))
    define st' where "st' = memset0 p (num * sz) st1"
    have pm: "(unat p, m) \<in> live st1 N'" using m(4) by simp
    have bnd: "unat p + m \<le> 2 ^ 64" using live_bound [OF ok pm] .
    have zero: "bytes st' (p + of_nat k) = Some 0" if "k < unat num * unat sz" for k
    proof -
      have "k < 2 ^ 64" using that \<open>unat num * unat sz < 2 ^ 64\<close> by linarith
      then have "(of_nat k :: u64) < num * sz"
        using that uns by (simp add: word_less_nat_alt unat_of_nat take_bit_nat_eq_self)
      then show ?thesis by (simp add: st'_def memset0_def store_bytes_def)
    qed
    have keep: "bytes st' a = bytes st a" if q: "(q, n) \<in> live st N" and a: "q \<le> unat a" "unat a < q + n" for q n a
    proof -
      have "unat p + m \<le> q \<or> q + n \<le> unat p"
        using live_apart [OF ok, of "unat p" m q n] m(3,4) q by auto
      then have "\<not> a - p < num * sz" using a m(2) bnd by (subst in_span) auto
      moreover have "bytes st1 a = bytes st a" using m(4,5) q a by (auto simp: same_data_def)
      ultimately show ?thesis by (simp add: st'_def memset0_def store_bytes_def)
    qed
    have rep': "heap_rep lowest st' N'" "live st' N' = live st1 N'"
      using store_heap_rep [OF m(1) pm, of p "num * sz"] m(2) bnd by (simp_all add: st'_def memset0_def)
    have "unat num * unat sz \<le> m" using m(2) uns by simp
    then show ?thesis using run False rep' m(4) zero keep
      unfolding st'_def [symmetric] same_data_def by (auto split: prod.split)
  qed
qed

lemma rte_calloc_ok_witness: "\<exists>p st'. rte_calloc demo_malloc_env 10 24 0 demo_mem = Some (p, st')"
proof -
  obtain N where "heap_rep (2 ^ 33) demo_mem N" using demo_mem_rep by blast
  from rte_calloc_ok [OF this demo_malloc_env_ok, of 10 24 0] show ?thesis by auto
qed

text \<open>
  \<open>rte_calloc\<close> does not detect the overflow of its product: for 2^63 + 1 elements of two
  bytes it is a request for two bytes.
\<close>

theorem rte_calloc_overflow: "rte_calloc env (2 ^ 63 + 1) 2 al st = rte_zmalloc env 2 al st"
proof -
  have "(2 ^ 63 + 1) * 2 = (2 :: u64)" by (simp add: word_eq_iff_unsigned) 
  then show ?thesis unfolding rte_calloc_def by (rule arg_cong)
qed

text \<open>
  Rounding a request of \<open>SIZE_MAX\<close> bytes to cache lines wraps to 0, and \<open>rte_malloc\<close>
  returns a block of no bytes instead of NULL: its data would be the header of the next element.
\<close>

theorem rte_malloc_size_max:
  "\<exists>p st'. rte_malloc demo_malloc_env (- 1) 0 demo_mem = Some (p, st') \<and> p \<noteq> 0 \<and>
     rte_malloc_validate p st' = Some (0, Some 0) \<and> elems st' p \<noteq> None"
  unfolding demo_mem_eval
  by (simp add: alloc_eval empty_heap_eval rte_malloc_validate_def malloc_elem_from_data_def cong: eval_cong)

text \<open>
  \<open>rte_realloc\<close> to size 0 returns the block and frees nothing, although the header
  documents that the memory is then freed.
\<close>

theorem rte_realloc_zero_not_freed:
  assumes "heap_rep lowest st N" and "(unat p, m) \<in> live st N"
  shows "rte_realloc env p 0 64 st = Some (Some (p, st))"
proof -
  have ok: "blocks_ok st N" using assms(1) by (simp add: heap_rep_def malloc_inv_def)
  obtain b where b: "b \<in> busy_set st N" "esz st b \<noteq> 0" "block_of st b = (unat p, m)" using assms(2) by (auto simp: live_def)
  have bN: "b \<in> N" and busy: "est st b = ELEM_BUSY" using b(1) by (auto simp: busy_set_def)
  note eb = blocks_okD(1) [OF ok bN] and fd = malloc_elem_from_data_ok [OF ok b] and bb = block_bounds [OF ok b(1,2)]
  obtain e where e: "elems st b = Some e" using elem_some [OF eb] by blast
  have b0: "b \<noteq> 0" and d64: "64 dvd unat b" using eb by (auto simp: elem_ok_def)
  have "epd st b = 0 \<or> epd st b = 64" using blocks_okD(4) [OF ok bN] busy by (auto simp: pad_ok_def)
  then have "unat (epd st b) = 0 \<or> unat (epd st b) = 64" by auto
  moreover have pb: "unat p = unat b + unat (epd st b) + 64" using b(3) by (simp add: block_of_def)
  ultimately have "64 dvd unat p" using d64 unfolding pb by auto
  moreover have "unat p \<le> 2 ^ 64 - 64"
  proof -
    have "unat p < 64 * 2 ^ 58" using unsigned_less [of p] by simp
    then show ?thesis using \<open>64 dvd unat p\<close> by (auto elim!: dvdE)
  qed
  ultimately have "unat (RTE_ALIGN_FLOOR (p + 63) (64 - 1)) = unat p"
    unfolding align_floor_64 by (subst (1 2) unat_add_fit) (auto elim!: dvdE)
  then have al: "RTE_ALIGN_FLOOR (p + 63) 63 = p" by (simp add: word_unat_eq_iff)
  have up: "unat (ucast (epd st b) :: u64) = unat (epd st b)" by (rule unat_ucast_32)
  then have "unat (esz st b - ucast (epd st b)) = unat (esz st b) - unat (epd st b)"
    using bb(2) by (subst unat_sub) (simp_all add: word_le_nat_alt)
  then have "(64 :: u64) \<le> esz st b - ucast (epd st b)" using bb(2) by (simp add: word_le_nat_alt)
  then have "malloc_elem_resize b 0 st = Some (0, st)"
    using e by (simp add: malloc_elem_resize_def Let_def esz_def epd_def)
  then show ?thesis using fd b0 al by (simp add: rte_realloc_def Let_def RTE_CACHE_LINE_ROUNDUP_def)
qed

lemma rte_realloc_zero_not_freed_witness:
  "\<exists>(p :: u64) m st N. (unat p, m) \<in> live st N \<and> rte_realloc demo_malloc_env p 0 64 st = Some (Some (p, st))"
proof -
  obtain p :: u64 and m st N where m: "heap_rep (2 ^ 33) st N" "(unat p, m) \<in> live st N" using demo_block by blast
  from rte_realloc_zero_not_freed [OF m] m(2) show ?thesis by blast
qed

text \<open>A heap of one page, with a block of 128 bytes behind padding and free memory before it.\<close>

definition small_mem :: malloc_mem where
  "small_mem = snd (the (rte_eal_malloc_heap_init (Some [demo_seg\<lparr>ms_len := 0x1000\<rparr>]) no_memory))"

definition padded_block :: "(u64 \<times> malloc_mem) option" where
  "padded_block = do {
     (b, st) \<leftarrow> rte_malloc demo_malloc_env 3648 64 small_mem;
     (p, st) \<leftarrow> rte_malloc demo_malloc_env 128 128 st;
     freed \<leftarrow> rte_free b st;
     map_option (Pair p) freed }"

text \<open>
  A block behind alignment padding that \<open>rte_realloc\<close> enlarges in place is split the
  padding too early: the caller is told it has 256 bytes and gets 192.
\<close>

theorem rte_realloc_padded_too_short:
  "\<exists>p st st'. padded_block = Some (p, st) \<and> rte_realloc demo_malloc_env p 256 128 st = Some (Some (p, st')) \<and>
     rte_malloc_validate p st' = Some (0, Some 192) \<and> elems st' (p + 192) \<noteq> None"
  unfolding padded_block_def small_mem_def demo_seg_def
  by (simp add: init_eval alloc_eval free_eval rte_realloc_def malloc_elem_resize_def rte_malloc_validate_def cong: eval_cong)

end
