(* ===== verification/Pipeline.thy ===== *)
theory Pipeline
  imports Bits
begin

text \<open>
  lib/librte_pipeline/rte_pipeline.c: a pipeline of input ports, tables and output ports. The
  ports and tables are given by their operations, function pointers that are \<open>None\<close> when
  NULL; a call through a NULL pointer and an access outside an array are \<open>None\<close>. What the
  operations change is an external state of type \<open>'e\<close>, and every call that moves or frees a
  packet, a handle or memory is recorded in a trace.
\<close>

section \<open>Words as sets of packets\<close>

definition RTE_LEN2MASK :: "u32 \<Rightarrow> u64" where
  "RTE_LEN2MASK ln = drop_bit (64 - unat ln) (- 1)"

text \<open>A \<open>uint32_t\<close> expression; the results are below 64.\<close>

definition rte_mask_get_next :: "u64 \<Rightarrow> u32 \<Rightarrow> u32" where
  "rte_mask_get_next m pos =
     (let mask_rot = push_bit (unat ((63 - pos) AND 0x3F)) m OR drop_bit (unat ((pos + 1) AND 0x3F)) m in
      (of_nat (ctzll mask_rot) - (63 - pos)) AND 0x3F)"

definition rte_mask_get_prev :: "u64 \<Rightarrow> u32 \<Rightarrow> u32" where
  "rte_mask_get_prev m pos =
     (let mask_rot = drop_bit (unat (pos AND 0x3F)) m OR push_bit (unat ((64 - pos) AND 0x3F)) m in
      ((63 - of_nat (clzll mask_rot)) + pos) AND 0x3F)"

text \<open>
  The packet loops: the positions they visit, in the fast branch for a mask of the form
  \<open>2^n - 1\<close> and in the branch that tests every bit.
\<close>

definition pkt_positions :: "u64 \<Rightarrow> nat list" where
  "pkt_positions pkts_mask =
     (if pkts_mask AND (pkts_mask + 1) = 0 then [0..<popcountll pkts_mask]
      else filter (\<lambda>i. push_bit i 1 AND pkts_mask \<noteq> 0) [0..<64])"

section \<open>Data\<close>

abbreviation (input) RTE_PIPELINE_TABLE_MAX :: nat where "RTE_PIPELINE_TABLE_MAX \<equiv> 64"
abbreviation (input) RTE_PIPELINE_PORT_IN_MAX :: nat where "RTE_PIPELINE_PORT_IN_MAX \<equiv> 64"
abbreviation (input) RTE_PIPELINE_PORT_OUT_MAX :: nat where "RTE_PIPELINE_PORT_OUT_MAX \<equiv> 64"
abbreviation (input) RTE_PORT_IN_BURST_SIZE_MAX :: u32 where "RTE_PORT_IN_BURST_SIZE_MAX \<equiv> 64"
abbreviation (input) RTE_TABLE_INVALID :: u32 where "RTE_TABLE_INVALID \<equiv> 0xFFFFFFFF"
abbreviation (input) RTE_MAX_NUMA_NODES :: int where "RTE_MAX_NUMA_NODES \<equiv> 8"
abbreviation (input) RTE_PIPELINE_MAX_NAME_SZ :: nat where "RTE_PIPELINE_MAX_NAME_SZ \<equiv> 124"
abbreviation (input) RTE_CACHE_LINE_SIZE :: u32 where "RTE_CACHE_LINE_SIZE \<equiv> 64"
abbreviation (input) sizeof_rte_pipeline :: u64 where "sizeof_rte_pipeline \<equiv> 21760"
abbreviation (input) sizeof_table_entry :: u32 where "sizeof_table_entry \<equiv> 8"

type_synonym pkt = u64

datatype rte_pipeline_action =
    RTE_PIPELINE_ACTION_DROP | RTE_PIPELINE_ACTION_PORT | RTE_PIPELINE_ACTION_PORT_META | RTE_PIPELINE_ACTION_TABLE

text \<open>\<open>port_id\<close> and \<open>table_id\<close> are the two names of one field, a union.\<close>

record rte_pipeline_table_entry =
  action :: rte_pipeline_action
  next_id :: u32
  action_data :: "u8 list"

record port_stats =
  n_pkts_in :: u64
  n_pkts_drop :: u64

text \<open>
  What the pipeline hands to its surroundings, as events: packets received and sent, packets
  freed, handles created, flushed and released, memory obtained and released.
\<close>

datatype io_event =
    Ev_rx u64 "pkt list" | Ev_tx u64 pkt | Ev_tx_bulk u64 "pkt list" | Ev_pkt_free pkt
  | Ev_create u64 | Ev_handle_free u64 | Ev_flush u64 | Ev_zmalloc u64 | Ev_mem_free u64

record 'e world =
  ext :: 'e
  trace :: "io_event list"

text \<open>
  The functions of other libraries: memory on a socket (NULL on failure), freeing memory,
  freeing a packet, and the 32-bit word at an offset of a packet's meta-data.
\<close>

record 'e pipe_env =
  env_zmalloc :: "u64 \<Rightarrow> u32 \<Rightarrow> int \<Rightarrow> 'e \<Rightarrow> u64 \<times> 'e"
  env_free :: "u64 \<Rightarrow> 'e \<Rightarrow> 'e"
  env_pktmbuf_free :: "pkt \<Rightarrow> 'e \<Rightarrow> 'e"
  env_mbuf_metadata :: "'e \<Rightarrow> pkt \<Rightarrow> u32 \<Rightarrow> u32"

record 'e rte_port_in_ops =
  in_f_create :: "(u64 \<Rightarrow> int \<Rightarrow> 'e \<Rightarrow> u64 \<times> 'e) option"
  in_f_free :: "(u64 \<Rightarrow> 'e \<Rightarrow> int \<times> 'e) option"
  in_f_rx :: "(u64 \<Rightarrow> pkt list \<Rightarrow> u32 \<Rightarrow> 'e \<Rightarrow> u32 \<times> pkt list \<times> 'e) option"
  in_f_stats :: "(u64 \<Rightarrow> port_stats option \<Rightarrow> bool \<Rightarrow> 'e \<Rightarrow> int \<times> port_stats option \<times> 'e) option"

record 'e rte_port_out_ops =
  out_f_create :: "(u64 \<Rightarrow> int \<Rightarrow> 'e \<Rightarrow> u64 \<times> 'e) option"
  out_f_free :: "(u64 \<Rightarrow> 'e \<Rightarrow> int \<times> 'e) option"
  out_f_tx :: "(u64 \<Rightarrow> pkt \<Rightarrow> 'e \<Rightarrow> 'e) option"
  out_f_tx_bulk :: "(u64 \<Rightarrow> pkt list \<Rightarrow> u64 \<Rightarrow> 'e \<Rightarrow> 'e) option"
  out_f_flush :: "(u64 \<Rightarrow> 'e \<Rightarrow> 'e) option"
  out_f_stats :: "(u64 \<Rightarrow> port_stats option \<Rightarrow> bool \<Rightarrow> 'e \<Rightarrow> int \<times> port_stats option \<times> 'e) option"

text \<open>
  Keys are addresses. The lookup returns the mask of the packets that hit and writes their
  entries into the array; adding and deleting an entry return a status, whether the key was
  there, and the address or the contents of the entry.
\<close>

record 'e rte_table_ops =
  tbl_f_create :: "(u64 \<Rightarrow> int \<Rightarrow> u32 \<Rightarrow> 'e \<Rightarrow> u64 \<times> 'e) option"
  tbl_f_free :: "(u64 \<Rightarrow> 'e \<Rightarrow> int \<times> 'e) option"
  tbl_f_add :: "(u64 \<Rightarrow> u64 \<Rightarrow> rte_pipeline_table_entry \<Rightarrow> 'e \<Rightarrow> (int \<times> int \<times> u64) \<times> 'e) option"
  tbl_f_delete :: "(u64 \<Rightarrow> u64 \<Rightarrow> 'e \<Rightarrow> (int \<times> int \<times> rte_pipeline_table_entry option) \<times> 'e) option"
  tbl_f_add_bulk :: "(u64 \<Rightarrow> u64 list \<Rightarrow> rte_pipeline_table_entry list \<Rightarrow> u32 \<Rightarrow> 'e \<Rightarrow> (int \<times> int list \<times> u64 list) \<times> 'e) option"
  tbl_f_delete_bulk :: "(u64 \<Rightarrow> u64 list \<Rightarrow> u32 \<Rightarrow> 'e \<Rightarrow> (int \<times> int list \<times> rte_pipeline_table_entry option list) \<times> 'e) option"
  tbl_f_lookup :: "(u64 \<Rightarrow> pkt list \<Rightarrow> u64 \<Rightarrow> rte_pipeline_table_entry option list \<Rightarrow> 'e \<Rightarrow>
     (u64 \<times> rte_pipeline_table_entry option list) \<times> 'e) option"
  tbl_f_stats :: "(u64 \<Rightarrow> port_stats option \<Rightarrow> bool \<Rightarrow> 'e \<Rightarrow> int \<times> port_stats option \<times> 'e) option"

text \<open>
  The action handlers get the packets, the mask and their argument, and return the new mask;
  for one packet the mask is 1 or 0. They neither replace packets nor rewrite the entries.
\<close>

record 'e rte_port_in =
  pi_ops :: "'e rte_port_in_ops"
  pi_f_action :: "(pkt list \<Rightarrow> u32 \<Rightarrow> u64 \<Rightarrow> u64 \<Rightarrow> 'e \<Rightarrow> u64 \<times> 'e) option"
  pi_arg_ah :: u64
  pi_burst_size :: u32
  pi_table_id :: u32
  pi_h_port :: u64
  pi_next :: "nat option"
  pi_n_pkts_dropped_by_ah :: u64

record 'e rte_port_out =
  po_ops :: "'e rte_port_out_ops"
  po_f_action :: "(pkt \<Rightarrow> u64 \<Rightarrow> u64 \<Rightarrow> 'e \<Rightarrow> u64 \<times> 'e) option"
  po_f_action_bulk :: "(pkt list \<Rightarrow> u64 \<Rightarrow> u64 \<Rightarrow> 'e \<Rightarrow> u64 \<times> 'e) option"
  po_arg_ah :: u64
  po_h_port :: u64
  po_n_pkts_dropped_by_ah :: u64

record 'e rte_table =
  t_ops :: "'e rte_table_ops"
  t_f_action_hit :: "(pkt list \<Rightarrow> u64 \<Rightarrow> rte_pipeline_table_entry option list \<Rightarrow> u64 \<Rightarrow> 'e \<Rightarrow> u64 \<times> 'e) option"
  t_f_action_miss :: "(pkt list \<Rightarrow> u64 \<Rightarrow> rte_pipeline_table_entry \<Rightarrow> u64 \<Rightarrow> 'e \<Rightarrow> u64 \<times> 'e) option"
  t_arg_ah :: u64
  t_default_entry_ptr :: u64
  t_default_entry :: rte_pipeline_table_entry
  t_entry_size :: u32
  t_table_next_id :: u32
  t_table_next_id_valid :: bool
  t_h_table :: u64
  t_n_pkts_dropped_by_lkp_hit_ah :: u64
  t_n_pkts_dropped_by_lkp_miss_ah :: u64
  t_n_pkts_dropped_lkp_hit :: u64
  t_n_pkts_dropped_lkp_miss :: u64

text \<open>Pointers to input ports are indices into \<open>ports_in\<close>.\<close>

record 'e rte_pipeline =
  p_name :: string
  p_socket_id :: int
  p_offset_port_id :: u32
  p_ports_in :: "'e rte_port_in list"
  p_ports_out :: "'e rte_port_out list"
  p_tables :: "'e rte_table list"
  p_num_ports_in :: u32
  p_num_ports_out :: u32
  p_num_tables :: u32
  p_enabled_port_in_mask :: u64
  p_port_in_first :: "nat option"
  p_pkts :: "pkt list"
  p_entries :: "rte_pipeline_table_entry option list"
  p_action_mask0 :: "rte_pipeline_action \<Rightarrow> u64"
  p_action_mask1 :: "rte_pipeline_action \<Rightarrow> u64"

text \<open>The contents of zeroed memory.\<close>

definition zero_entry :: "u32 \<Rightarrow> rte_pipeline_table_entry" where
  "zero_entry entry_size = \<lparr>action = RTE_PIPELINE_ACTION_DROP, next_id = 0,
     action_data = replicate (unat (entry_size - sizeof_table_entry)) 0\<rparr>"

definition zero_port_in :: "'e rte_port_in" where
  "zero_port_in = \<lparr>pi_ops = \<lparr>in_f_create = None, in_f_free = None, in_f_rx = None, in_f_stats = None\<rparr>,
     pi_f_action = None, pi_arg_ah = 0, pi_burst_size = 0, pi_table_id = 0, pi_h_port = 0, pi_next = None,
     pi_n_pkts_dropped_by_ah = 0\<rparr>"

definition zero_port_out :: "'e rte_port_out" where
  "zero_port_out = \<lparr>po_ops = \<lparr>out_f_create = None, out_f_free = None, out_f_tx = None, out_f_tx_bulk = None,
       out_f_flush = None, out_f_stats = None\<rparr>,
     po_f_action = None, po_f_action_bulk = None, po_arg_ah = 0, po_h_port = 0, po_n_pkts_dropped_by_ah = 0\<rparr>"

definition zero_table :: "'e rte_table" where
  "zero_table = \<lparr>t_ops = \<lparr>tbl_f_create = None, tbl_f_free = None, tbl_f_add = None, tbl_f_delete = None,
       tbl_f_add_bulk = None, tbl_f_delete_bulk = None, tbl_f_lookup = None, tbl_f_stats = None\<rparr>,
     t_f_action_hit = None, t_f_action_miss = None, t_arg_ah = 0, t_default_entry_ptr = 0,
     t_default_entry = zero_entry sizeof_table_entry, t_entry_size = 0, t_table_next_id = 0, t_table_next_id_valid = False,
     t_h_table = 0, t_n_pkts_dropped_by_lkp_hit_ah = 0, t_n_pkts_dropped_by_lkp_miss_ah = 0,
     t_n_pkts_dropped_lkp_hit = 0, t_n_pkts_dropped_lkp_miss = 0\<rparr>"

definition emit :: "io_event \<Rightarrow> 'e \<Rightarrow> 'e world \<Rightarrow> 'e world" where
  "emit ev e w = \<lparr>ext = e, trace = trace w @ [ev]\<rparr>"

definition upd_at :: "nat \<Rightarrow> ('a \<Rightarrow> 'a) \<Rightarrow> 'a list \<Rightarrow> 'a list option" where
  "upd_at i f xs = do { x \<leftarrow> read_at xs i; write_at xs i (f x) }"

section \<open>The pipeline\<close>

record rte_pipeline_params =
  pp_name :: "string option"
  pp_socket_id :: int
  pp_offset_port_id :: u32

definition rte_pipeline_check_params :: "rte_pipeline_params option \<Rightarrow> int" where
  "rte_pipeline_check_params params =
     (case params of None \<Rightarrow> - EINVAL
      | Some ps \<Rightarrow>
          if pp_name ps = None then - EINVAL
          else if pp_socket_id ps < 0 \<or> RTE_MAX_NUMA_NODES \<le> pp_socket_id ps then - EINVAL
          else 0)"

definition rte_pipeline_create ::
  "'e pipe_env \<Rightarrow> rte_pipeline_params option \<Rightarrow> 'e world \<Rightarrow> (u64 \<times> 'e rte_pipeline) option \<times> 'e world" where
  "rte_pipeline_create env params w =
     (if rte_pipeline_check_params params \<noteq> 0 then (None, w)
      else (let ps = the params;
                (ptr, e) = env_zmalloc env sizeof_rte_pipeline RTE_CACHE_LINE_SIZE (pp_socket_id ps) (ext w) in
            if ptr = 0 then (None, w\<lparr>ext := e\<rparr>)
            else (Some (ptr, \<lparr>p_name = take (RTE_PIPELINE_MAX_NAME_SZ - 1) (the (pp_name ps)),
                    p_socket_id = pp_socket_id ps, p_offset_port_id = pp_offset_port_id ps,
                    p_ports_in = replicate RTE_PIPELINE_PORT_IN_MAX zero_port_in,
                    p_ports_out = replicate RTE_PIPELINE_PORT_OUT_MAX zero_port_out,
                    p_tables = replicate RTE_PIPELINE_TABLE_MAX zero_table,
                    p_num_ports_in = 0, p_num_ports_out = 0, p_num_tables = 0,
                    p_enabled_port_in_mask = 0, p_port_in_first = None,
                    p_pkts = replicate 64 0, p_entries = replicate 64 None,
                    p_action_mask0 = (\<lambda>_. 0), p_action_mask1 = (\<lambda>_. 0)\<rparr>),
                  emit (Ev_zmalloc ptr) e w)))"

definition rte_pipeline_port_in_free :: "'e rte_port_in \<Rightarrow> 'e world \<Rightarrow> 'e world" where
  "rte_pipeline_port_in_free port w =
     (case in_f_free (pi_ops port) of None \<Rightarrow> w
      | Some f \<Rightarrow> emit (Ev_handle_free (pi_h_port port)) (snd (f (pi_h_port port) (ext w))) w)"

definition rte_pipeline_port_out_free :: "'e rte_port_out \<Rightarrow> 'e world \<Rightarrow> 'e world" where
  "rte_pipeline_port_out_free port w =
     (case out_f_free (po_ops port) of None \<Rightarrow> w
      | Some f \<Rightarrow> emit (Ev_handle_free (po_h_port port)) (snd (f (po_h_port port) (ext w))) w)"

definition call_free :: "'e pipe_env \<Rightarrow> u64 \<Rightarrow> 'e world \<Rightarrow> 'e world" where
  "call_free env ptr w = emit (Ev_mem_free ptr) (env_free env ptr (ext w)) w"

definition rte_pipeline_table_free :: "'e pipe_env \<Rightarrow> 'e rte_table \<Rightarrow> 'e world \<Rightarrow> 'e world" where
  "rte_pipeline_table_free env table w =
     (let w = (case tbl_f_free (t_ops table) of None \<Rightarrow> w
               | Some f \<Rightarrow> emit (Ev_handle_free (t_h_table table)) (snd (f (t_h_table table) (ext w))) w) in
      call_free env (t_default_entry_ptr table) w)"

definition rte_pipeline_free :: "'e pipe_env \<Rightarrow> (u64 \<times> 'e rte_pipeline) option \<Rightarrow> 'e world \<Rightarrow> int \<times> 'e world" where
  "rte_pipeline_free env pp w =
     (case pp of None \<Rightarrow> (- EINVAL, w)
      | Some (ptr, p) \<Rightarrow>
          (let w = fold rte_pipeline_port_in_free (take (unat (p_num_ports_in p)) (p_ports_in p)) w;
               w = fold (rte_pipeline_table_free env) (take (unat (p_num_tables p)) (p_tables p)) w;
               w = fold rte_pipeline_port_out_free (take (unat (p_num_ports_out p)) (p_ports_out p)) w in
           (0, call_free env ptr w)))"

section \<open>Tables\<close>

text \<open>
  A pipeline argument is \<open>None\<close> when NULL; so are the parameters and, where the functions
  test them, the places for results (\<open>False\<close>). The result of a call is the status and the new
  pipeline and world, \<open>None\<close> for a fault.
\<close>

record 'e rte_pipeline_table_params =
  tp_ops :: "'e rte_table_ops option"
  tp_arg_create :: u64
  tp_f_action_hit :: "(pkt list \<Rightarrow> u64 \<Rightarrow> rte_pipeline_table_entry option list \<Rightarrow> u64 \<Rightarrow> 'e \<Rightarrow> u64 \<times> 'e) option"
  tp_f_action_miss :: "(pkt list \<Rightarrow> u64 \<Rightarrow> rte_pipeline_table_entry \<Rightarrow> u64 \<Rightarrow> 'e \<Rightarrow> u64 \<times> 'e) option"
  tp_arg_ah :: u64
  tp_action_data_size :: u32

definition rte_table_check_params ::
  "'e rte_pipeline option \<Rightarrow> 'e rte_pipeline_table_params option \<Rightarrow> bool \<Rightarrow> int" where
  "rte_table_check_params pp params table_id_given =
     (case (pp, params) of (Some p, Some ps) \<Rightarrow>
        if \<not> table_id_given then - EINVAL
        else (case tp_ops ps of None \<Rightarrow> - EINVAL
              | Some ops \<Rightarrow>
                  if tbl_f_create ops = None then - EINVAL
                  else if tbl_f_lookup ops = None then - EINVAL
                  else if p_num_tables p = of_nat RTE_PIPELINE_TABLE_MAX then - EINVAL
                  else 0)
      | _ \<Rightarrow> - EINVAL)"

definition rte_pipeline_table_create ::
  "'e pipe_env \<Rightarrow> 'e rte_pipeline option \<Rightarrow> 'e rte_pipeline_table_params option \<Rightarrow> bool \<Rightarrow> 'e world \<Rightarrow>
   ((int \<times> u32 option) \<times> 'e rte_pipeline option \<times> 'e world) option" where
  "rte_pipeline_table_create env pp params table_id_given w =
     (let status = rte_table_check_params pp params table_id_given in
      if status \<noteq> 0 then Some ((status, None), pp, w)
      else (let p = the pp; ps = the params; ops = the (tp_ops ps);
                id = p_num_tables p;
                entry_size = sizeof_table_entry + tp_action_data_size ps;
                (default_entry, e) = env_zmalloc env (ucast entry_size) RTE_CACHE_LINE_SIZE (p_socket_id p) (ext w) in
            if default_entry = 0 then Some ((- EINVAL, None), pp, w\<lparr>ext := e\<rparr>)
            else (let w = emit (Ev_zmalloc default_entry) e w;
                      (h_table, e) = the (tbl_f_create ops) (tp_arg_create ps) (p_socket_id p) entry_size (ext w) in
                  if h_table = 0 then Some ((- EINVAL, None), pp, call_free env default_entry (w\<lparr>ext := e\<rparr>))
                  else do {
                    let w = emit (Ev_create h_table) e w;
                    tables \<leftarrow> upd_at (unat id) (\<lambda>table. table\<lparr>t_ops := ops, t_f_action_hit := tp_f_action_hit ps,
                      t_f_action_miss := tp_f_action_miss ps, t_arg_ah := tp_arg_ah ps, t_entry_size := entry_size,
                      t_default_entry_ptr := default_entry, t_default_entry := zero_entry entry_size,
                      t_h_table := h_table, t_table_next_id := 0, t_table_next_id_valid := False\<rparr>) (p_tables p);
                    Some ((0, Some id), Some (p\<lparr>p_num_tables := id + 1, p_tables := tables\<rparr>), w) })))"

text \<open>The copy of an entry of the table's size; reading past the end of the source is a fault.\<close>

definition copy_entry :: "u32 \<Rightarrow> rte_pipeline_table_entry \<Rightarrow> rte_pipeline_table_entry option" where
  "copy_entry entry_size src =
     (let n = unat (entry_size - sizeof_table_entry) in
      if n \<le> length (action_data src) then Some (src\<lparr>action_data := take n (action_data src)\<rparr>) else None)"

definition topology_clash :: "'e rte_table \<Rightarrow> rte_pipeline_table_entry \<Rightarrow> bool" where
  "topology_clash table entry \<longleftrightarrow>
     action entry = RTE_PIPELINE_ACTION_TABLE \<and> t_table_next_id_valid table \<and> next_id entry \<noteq> t_table_next_id table"

definition set_next_table :: "rte_pipeline_table_entry \<Rightarrow> 'e rte_table \<Rightarrow> 'e rte_table" where
  "set_next_table entry table =
     (if action entry = RTE_PIPELINE_ACTION_TABLE \<and> \<not> t_table_next_id_valid table
      then table\<lparr>t_table_next_id := next_id entry, t_table_next_id_valid := True\<rparr> else table)"

definition rte_pipeline_table_default_entry_add ::
  "'e rte_pipeline option \<Rightarrow> u32 \<Rightarrow> rte_pipeline_table_entry option \<Rightarrow> ((int \<times> u64 option) \<times> 'e rte_pipeline option) option" where
  "rte_pipeline_table_default_entry_add pp table_id default_entry =
     (case (pp, default_entry) of (Some p, Some entry) \<Rightarrow>
        if p_num_tables p \<le> table_id then Some ((- EINVAL, None), pp)
        else do {
          table \<leftarrow> read_at (p_tables p) (unat table_id);
          if topology_clash table entry then Some ((- EINVAL, None), pp)
          else do {
            let table = set_next_table entry table;
            copied \<leftarrow> copy_entry (t_entry_size table) entry;
            tables \<leftarrow> write_at (p_tables p) (unat table_id) (table\<lparr>t_default_entry := copied\<rparr>);
            Some ((0, Some (t_default_entry_ptr table)), Some (p\<lparr>p_tables := tables\<rparr>)) } }
      | _ \<Rightarrow> Some ((- EINVAL, None), pp))"

definition rte_pipeline_table_default_entry_delete ::
  "'e rte_pipeline option \<Rightarrow> u32 \<Rightarrow> bool \<Rightarrow> ((int \<times> rte_pipeline_table_entry option) \<times> 'e rte_pipeline option) option" where
  "rte_pipeline_table_default_entry_delete pp table_id entry_given =
     (case pp of None \<Rightarrow> Some ((- EINVAL, None), pp)
      | Some p \<Rightarrow>
          if p_num_tables p \<le> table_id then Some ((- EINVAL, None), pp)
          else do {
            table \<leftarrow> read_at (p_tables p) (unat table_id);
            let saved = (if entry_given then Some (t_default_entry table) else None);
            tables \<leftarrow> write_at (p_tables p) (unat table_id) (table\<lparr>t_default_entry := zero_entry (t_entry_size table)\<rparr>);
            Some ((0, saved), Some (p\<lparr>p_tables := tables\<rparr>)) })"

definition rte_pipeline_table_entry_add ::
  "'e rte_pipeline option \<Rightarrow> u32 \<Rightarrow> u64 \<Rightarrow> rte_pipeline_table_entry option \<Rightarrow> 'e world \<Rightarrow>
   ((int \<times> (int \<times> u64) option) \<times> 'e rte_pipeline option \<times> 'e world) option" where
  "rte_pipeline_table_entry_add pp table_id key entry w =
     (case pp of None \<Rightarrow> Some ((- EINVAL, None), pp, w)
      | Some p \<Rightarrow>
          if key = 0 then Some ((- EINVAL, None), pp, w)
          else (case entry of None \<Rightarrow> Some ((- EINVAL, None), pp, w)
          | Some entry \<Rightarrow>
              if p_num_tables p \<le> table_id then Some ((- EINVAL, None), pp, w)
              else do {
                table \<leftarrow> read_at (p_tables p) (unat table_id);
                case tbl_f_add (t_ops table) of None \<Rightarrow> Some ((- EINVAL, None), pp, w)
                | Some f_add \<Rightarrow>
                    if topology_clash table entry then Some ((- EINVAL, None), pp, w)
                    else do {
                      tables \<leftarrow> write_at (p_tables p) (unat table_id) (set_next_table entry table);
                      let ((status, found, ptr), e) = f_add (t_h_table table) key entry (ext w);
                      Some ((status, Some (found, ptr)), Some (p\<lparr>p_tables := tables\<rparr>), w\<lparr>ext := e\<rparr>) } }))"

definition rte_pipeline_table_entry_delete ::
  "'e rte_pipeline option \<Rightarrow> u32 \<Rightarrow> u64 \<Rightarrow> 'e world \<Rightarrow> ((int \<times> (int \<times> rte_pipeline_table_entry option) option) \<times> 'e world) option" where
  "rte_pipeline_table_entry_delete pp table_id key w =
     (case pp of None \<Rightarrow> Some ((- EINVAL, None), w)
      | Some p \<Rightarrow>
          if key = 0 then Some ((- EINVAL, None), w)
          else if p_num_tables p \<le> table_id then Some ((- EINVAL, None), w)
          else do {
            table \<leftarrow> read_at (p_tables p) (unat table_id);
            case tbl_f_delete (t_ops table) of None \<Rightarrow> Some ((- EINVAL, None), w)
            | Some f_delete \<Rightarrow>
                (let ((status, found, saved), e) = f_delete (t_h_table table) key (ext w) in
                 Some ((status, Some (found, saved)), w\<lparr>ext := e\<rparr>)) })"

definition rte_pipeline_table_entry_add_bulk ::
  "'e rte_pipeline option \<Rightarrow> u32 \<Rightarrow> u64 list option \<Rightarrow> rte_pipeline_table_entry list option \<Rightarrow> u32 \<Rightarrow> 'e world \<Rightarrow>
   ((int \<times> (int list \<times> u64 list) option) \<times> 'e rte_pipeline option \<times> 'e world) option" where
  "rte_pipeline_table_entry_add_bulk pp table_id keys entries n_keys w =
     (case (pp, keys, entries) of (Some p, Some ks, Some es) \<Rightarrow>
        if p_num_tables p \<le> table_id then Some ((- EINVAL, None), pp, w)
        else do {
          table \<leftarrow> read_at (p_tables p) (unat table_id);
          case tbl_f_add_bulk (t_ops table) of None \<Rightarrow> Some ((- EINVAL, None), pp, w)
          | Some f_add_bulk \<Rightarrow>
              if list_ex (topology_clash table) (take (unat n_keys) es) then Some ((- EINVAL, None), pp, w)
              else if length es < unat n_keys then None
              else do {
                let table = fold set_next_table (take (unat n_keys) es) table;
                tables \<leftarrow> write_at (p_tables p) (unat table_id) table;
                let ((status, found, ptrs), e) = f_add_bulk (t_h_table table) ks es n_keys (ext w);
                Some ((status, Some (found, ptrs)), Some (p\<lparr>p_tables := tables\<rparr>), w\<lparr>ext := e\<rparr>) } }
      | _ \<Rightarrow> Some ((- EINVAL, None), pp, w))"

definition rte_pipeline_table_entry_delete_bulk ::
  "'e rte_pipeline option \<Rightarrow> u32 \<Rightarrow> u64 list option \<Rightarrow> u32 \<Rightarrow> 'e world \<Rightarrow>
   ((int \<times> (int list \<times> rte_pipeline_table_entry option list) option) \<times> 'e world) option" where
  "rte_pipeline_table_entry_delete_bulk pp table_id keys n_keys w =
     (case (pp, keys) of (Some p, Some ks) \<Rightarrow>
        if p_num_tables p \<le> table_id then Some ((- EINVAL, None), w)
        else do {
          table \<leftarrow> read_at (p_tables p) (unat table_id);
          case tbl_f_delete_bulk (t_ops table) of None \<Rightarrow> Some ((- EINVAL, None), w)
          | Some f_delete_bulk \<Rightarrow>
              (let ((status, found, saved), e) = f_delete_bulk (t_h_table table) ks n_keys (ext w) in
               Some ((status, Some (found, saved)), w\<lparr>ext := e\<rparr>)) }
      | _ \<Rightarrow> Some ((- EINVAL, None), w))"

section \<open>Ports\<close>

record 'e rte_pipeline_port_in_params =
  pip_ops :: "'e rte_port_in_ops option"
  pip_arg_create :: u64
  pip_f_action :: "(pkt list \<Rightarrow> u32 \<Rightarrow> u64 \<Rightarrow> u64 \<Rightarrow> 'e \<Rightarrow> u64 \<times> 'e) option"
  pip_arg_ah :: u64
  pip_burst_size :: u32

record 'e rte_pipeline_port_out_params =
  pop_ops :: "'e rte_port_out_ops option"
  pop_arg_create :: u64
  pop_f_action :: "(pkt \<Rightarrow> u64 \<Rightarrow> u64 \<Rightarrow> 'e \<Rightarrow> u64 \<times> 'e) option"
  pop_f_action_bulk :: "(pkt list \<Rightarrow> u64 \<Rightarrow> u64 \<Rightarrow> 'e \<Rightarrow> u64 \<times> 'e) option"
  pop_arg_ah :: u64

definition rte_pipeline_port_in_check_params ::
  "'e rte_pipeline option \<Rightarrow> 'e rte_pipeline_port_in_params option \<Rightarrow> bool \<Rightarrow> int" where
  "rte_pipeline_port_in_check_params pp params port_id_given =
     (case (pp, params) of (Some p, Some ps) \<Rightarrow>
        if \<not> port_id_given then - EINVAL
        else (case pip_ops ps of None \<Rightarrow> - EINVAL
              | Some ops \<Rightarrow>
                  if in_f_create ops = None then - EINVAL
                  else if in_f_rx ops = None then - EINVAL
                  else if pip_burst_size ps = 0 \<or> RTE_PORT_IN_BURST_SIZE_MAX < pip_burst_size ps then - EINVAL
                  else if p_num_ports_in p = of_nat RTE_PIPELINE_PORT_IN_MAX then - EINVAL
                  else 0)
      | _ \<Rightarrow> - EINVAL)"

definition rte_pipeline_port_out_check_params ::
  "'e rte_pipeline option \<Rightarrow> 'e rte_pipeline_port_out_params option \<Rightarrow> bool \<Rightarrow> int" where
  "rte_pipeline_port_out_check_params pp params port_id_given =
     (case (pp, params) of (Some p, Some ps) \<Rightarrow>
        if \<not> port_id_given then - EINVAL
        else (case pop_ops ps of None \<Rightarrow> - EINVAL
              | Some ops \<Rightarrow>
                  if out_f_create ops = None then - EINVAL
                  else if out_f_tx ops = None then - EINVAL
                  else if out_f_tx_bulk ops = None then - EINVAL
                  else if pop_f_action ps \<noteq> None \<and> pop_f_action_bulk ps = None \<or>
                          pop_f_action ps = None \<and> pop_f_action_bulk ps \<noteq> None then - EINVAL
                  else if p_num_ports_out p = of_nat RTE_PIPELINE_PORT_OUT_MAX then - EINVAL
                  else 0)
      | _ \<Rightarrow> - EINVAL)"

definition rte_pipeline_port_in_create ::
  "'e rte_pipeline option \<Rightarrow> 'e rte_pipeline_port_in_params option \<Rightarrow> bool \<Rightarrow> 'e world \<Rightarrow>
   ((int \<times> u32 option) \<times> 'e rte_pipeline option \<times> 'e world) option" where
  "rte_pipeline_port_in_create pp params port_id_given w =
     (let status = rte_pipeline_port_in_check_params pp params port_id_given in
      if status \<noteq> 0 then Some ((status, None), pp, w)
      else (let p = the pp; ps = the params; ops = the (pip_ops ps);
                id = p_num_ports_in p;
                (h_port, e) = the (in_f_create ops) (pip_arg_create ps) (p_socket_id p) (ext w) in
            if h_port = 0 then Some ((- EINVAL, None), pp, w\<lparr>ext := e\<rparr>)
            else do {
              ports \<leftarrow> upd_at (unat id) (\<lambda>port. port\<lparr>pi_ops := ops, pi_f_action := pip_f_action ps,
                pi_arg_ah := pip_arg_ah ps, pi_burst_size := pip_burst_size ps, pi_table_id := RTE_TABLE_INVALID,
                pi_h_port := h_port, pi_next := None\<rparr>) (p_ports_in p);
              Some ((0, Some id), Some (p\<lparr>p_num_ports_in := id + 1, p_ports_in := ports\<rparr>), emit (Ev_create h_port) e w) }))"

definition rte_pipeline_port_out_create ::
  "'e rte_pipeline option \<Rightarrow> 'e rte_pipeline_port_out_params option \<Rightarrow> bool \<Rightarrow> 'e world \<Rightarrow>
   ((int \<times> u32 option) \<times> 'e rte_pipeline option \<times> 'e world) option" where
  "rte_pipeline_port_out_create pp params port_id_given w =
     (let status = rte_pipeline_port_out_check_params pp params port_id_given in
      if status \<noteq> 0 then Some ((status, None), pp, w)
      else (let p = the pp; ps = the params; ops = the (pop_ops ps);
                id = p_num_ports_out p;
                (h_port, e) = the (out_f_create ops) (pop_arg_create ps) (p_socket_id p) (ext w) in
            if h_port = 0 then Some ((- EINVAL, None), pp, w\<lparr>ext := e\<rparr>)
            else do {
              ports \<leftarrow> upd_at (unat id) (\<lambda>port. port\<lparr>po_ops := ops, po_f_action := pop_f_action ps,
                po_f_action_bulk := pop_f_action_bulk ps, po_arg_ah := pop_arg_ah ps, po_h_port := h_port\<rparr>) (p_ports_out p);
              Some ((0, Some id), Some (p\<lparr>p_num_ports_out := id + 1, p_ports_out := ports\<rparr>), emit (Ev_create h_port) e w) }))"

definition rte_pipeline_port_in_connect_to_table ::
  "'e rte_pipeline option \<Rightarrow> u32 \<Rightarrow> u32 \<Rightarrow> (int \<times> 'e rte_pipeline option) option" where
  "rte_pipeline_port_in_connect_to_table pp port_id table_id =
     (case pp of None \<Rightarrow> Some (- EINVAL, pp)
      | Some p \<Rightarrow>
          if p_num_ports_in p \<le> port_id then Some (- EINVAL, pp)
          else if p_num_tables p \<le> table_id then Some (- EINVAL, pp)
          else do {
            ports \<leftarrow> upd_at (unat port_id) (\<lambda>port. port\<lparr>pi_table_id := table_id\<rparr>) (p_ports_in p);
            Some (0, Some (p\<lparr>p_ports_in := ports\<rparr>)) })"

text \<open>The end of enabling and disabling: the first port, and no port after the last.\<close>

definition set_first_last :: "'e rte_pipeline \<Rightarrow> 'e rte_pipeline option" where
  "set_first_last p = do {
     let port_first_id = ctzll (p_enabled_port_in_mask p);
     let port_last_id = 63 - clzll (p_enabled_port_in_mask p);
     ports \<leftarrow> upd_at port_last_id (\<lambda>port. port\<lparr>pi_next := None\<rparr>) (p_ports_in p);
     Some (p\<lparr>p_port_in_first := Some port_first_id, p_ports_in := ports\<rparr>) }"

definition rte_pipeline_port_in_enable :: "'e rte_pipeline option \<Rightarrow> u32 \<Rightarrow> (int \<times> 'e rte_pipeline option) option" where
  "rte_pipeline_port_in_enable pp port_id =
     (case pp of None \<Rightarrow> Some (- EINVAL, pp)
      | Some p \<Rightarrow>
          if p_num_ports_in p \<le> port_id then Some (- EINVAL, pp)
          else (let port_mask = push_bit (unat port_id) 1 in
            if p_enabled_port_in_mask p AND port_mask \<noteq> 0 then Some (0, pp)
            else do {
              let p = p\<lparr>p_enabled_port_in_mask := p_enabled_port_in_mask p OR port_mask\<rparr>;
              let port_prev_id = rte_mask_get_prev (p_enabled_port_in_mask p) port_id;
              let port_next_id = rte_mask_get_next (p_enabled_port_in_mask p) port_id;
              ports \<leftarrow> upd_at (unat port_prev_id) (\<lambda>port. port\<lparr>pi_next := Some (unat port_id)\<rparr>) (p_ports_in p);
              ports \<leftarrow> upd_at (unat port_id) (\<lambda>port. port\<lparr>pi_next := Some (unat port_next_id)\<rparr>) ports;
              p \<leftarrow> set_first_last (p\<lparr>p_ports_in := ports\<rparr>);
              Some (0, Some p) }))"

definition rte_pipeline_port_in_disable :: "'e rte_pipeline option \<Rightarrow> u32 \<Rightarrow> (int \<times> 'e rte_pipeline option) option" where
  "rte_pipeline_port_in_disable pp port_id =
     (case pp of None \<Rightarrow> Some (- EINVAL, pp)
      | Some p \<Rightarrow>
          if p_num_ports_in p \<le> port_id then Some (- EINVAL, pp)
          else (let port_mask = push_bit (unat port_id) 1 in
            if p_enabled_port_in_mask p AND port_mask = 0 then Some (0, pp)
            else if popcountll (p_enabled_port_in_mask p) = 1
            then Some (0, Some (p\<lparr>p_enabled_port_in_mask := p_enabled_port_in_mask p AND NOT port_mask, p_port_in_first := None\<rparr>))
            else do {
              let port_prev_id = rte_mask_get_prev (p_enabled_port_in_mask p) port_id;
              let port_next_id = rte_mask_get_next (p_enabled_port_in_mask p) port_id;
              ports \<leftarrow> upd_at (unat port_prev_id) (\<lambda>port. port\<lparr>pi_next := Some (unat port_next_id)\<rparr>) (p_ports_in p);
              p \<leftarrow> set_first_last (p\<lparr>p_ports_in := ports, p_enabled_port_in_mask := p_enabled_port_in_mask p AND NOT port_mask\<rparr>);
              Some (0, Some p) }))"

section \<open>Run-time\<close>

definition rte_pipeline_check :: "'e rte_pipeline option \<Rightarrow> int" where
  "rte_pipeline_check pp =
     (case pp of None \<Rightarrow> - EINVAL
      | Some p \<Rightarrow>
          if p_num_ports_in p = 0 then - EINVAL
          else if p_num_tables p = 0 then - EINVAL
          else if p_num_ports_out p = 0 then - EINVAL
          else if list_ex (\<lambda>port. pi_table_id port = RTE_TABLE_INVALID) (take (unat (p_num_ports_in p)) (p_ports_in p)) then - EINVAL
          else 0)"

fun mark_actions :: "rte_pipeline_table_entry option list \<Rightarrow> nat list \<Rightarrow> (rte_pipeline_action \<Rightarrow> u64) \<Rightarrow>
    (rte_pipeline_action \<Rightarrow> u64) option" where
  "mark_actions entries [] action_mask = Some action_mask"
| "mark_actions entries (i # rest) action_mask = do {
     slot \<leftarrow> read_at entries i;
     entry \<leftarrow> slot;
     mark_actions entries rest (action_mask(action entry := action_mask (action entry) OR push_bit i 1)) }"

definition rte_pipeline_compute_masks :: "'e rte_pipeline \<Rightarrow> u64 \<Rightarrow> 'e rte_pipeline option" where
  "rte_pipeline_compute_masks p pkts_mask = do {
     masks \<leftarrow> mark_actions (p_entries p) (pkt_positions pkts_mask) (\<lambda>_. 0);
     Some (p\<lparr>p_action_mask1 := masks\<rparr>) }"

definition add_mask0 :: "rte_pipeline_action \<Rightarrow> u64 \<Rightarrow> 'e rte_pipeline \<Rightarrow> 'e rte_pipeline" where
  "add_mask0 a m p = p\<lparr>p_action_mask0 := (p_action_mask0 p)(a := p_action_mask0 p a OR m)\<rparr>"

definition selected :: "pkt list \<Rightarrow> u64 \<Rightarrow> pkt list" where
  "selected pkts pkts_mask = map (\<lambda>i. pkts ! i) (filter (bit pkts_mask) [0..<64])"

definition call_tx :: "'e rte_port_out \<Rightarrow> pkt \<Rightarrow> 'e world \<Rightarrow> 'e world option" where
  "call_tx port pkt w = do {
     f_tx \<leftarrow> out_f_tx (po_ops port);
     Some (emit (Ev_tx (po_h_port port) pkt) (f_tx (po_h_port port) pkt (ext w)) w) }"

definition call_tx_bulk :: "'e rte_port_out \<Rightarrow> pkt list \<Rightarrow> u64 \<Rightarrow> 'e world \<Rightarrow> 'e world option" where
  "call_tx_bulk port pkts pkts_mask w = do {
     f_tx_bulk \<leftarrow> out_f_tx_bulk (po_ops port);
     Some (emit (Ev_tx_bulk (po_h_port port) (selected pkts pkts_mask)) (f_tx_bulk (po_h_port port) pkts pkts_mask (ext w)) w) }"

definition rte_pipeline_action_handler_port_bulk ::
  "u64 \<Rightarrow> u32 \<Rightarrow> 'e rte_pipeline \<Rightarrow> 'e world \<Rightarrow> ('e rte_pipeline \<times> 'e world) option" where
  "rte_pipeline_action_handler_port_bulk pkts_mask port_id p w = do {
     port_out \<leftarrow> read_at (p_ports_out p) (unat port_id);
     let (pkts_mask, p, w) =
       (case po_f_action_bulk port_out of None \<Rightarrow> (pkts_mask, p, w)
        | Some f_action_bulk \<Rightarrow>
            (let (new_mask, e) = f_action_bulk (p_pkts p) pkts_mask (po_arg_ah port_out) (ext w) in
             (new_mask, add_mask0 RTE_PIPELINE_ACTION_DROP (new_mask XOR pkts_mask) p, w\<lparr>ext := e\<rparr>)));
     if pkts_mask \<noteq> 0 then do { w \<leftarrow> call_tx_bulk port_out (p_pkts p) pkts_mask w; Some (p, w) }
     else Some (p, w) }"

text \<open>The body of the loops of the PORT and PORT META actions: packet \<open>i\<close> to an output port.\<close>

definition send_packet :: "nat \<Rightarrow> u32 \<Rightarrow> 'e rte_pipeline \<Rightarrow> 'e world \<Rightarrow> ('e rte_pipeline \<times> 'e world) option" where
  "send_packet i port_out_id p w = do {
     pkt \<leftarrow> read_at (p_pkts p) i;
     port_out \<leftarrow> read_at (p_ports_out p) (unat port_out_id);
     case po_f_action port_out of
       None \<Rightarrow> do { w \<leftarrow> call_tx port_out pkt w; Some (p, w) }
     | Some f_action \<Rightarrow> do {
         let (pkt_mask, e) = f_action pkt 1 (po_arg_ah port_out) (ext w);
         let p = add_mask0 RTE_PIPELINE_ACTION_DROP (push_bit i (pkt_mask XOR 1)) p;
         let w = w\<lparr>ext := e\<rparr>;
         if pkt_mask \<noteq> 0 then do { w \<leftarrow> call_tx port_out pkt w; Some (p, w) } else Some (p, w) } }"

fun send_port :: "nat list \<Rightarrow> 'e rte_pipeline \<Rightarrow> 'e world \<Rightarrow> ('e rte_pipeline \<times> 'e world) option" where
  "send_port [] p w = Some (p, w)"
| "send_port (i # rest) p w = do {
     slot \<leftarrow> read_at (p_entries p) i;
     entry \<leftarrow> slot;
     (p, w) \<leftarrow> send_packet i (next_id entry) p w;
     send_port rest p w }"

definition rte_pipeline_action_handler_port ::
  "u64 \<Rightarrow> 'e rte_pipeline \<Rightarrow> 'e world \<Rightarrow> ('e rte_pipeline \<times> 'e world) option" where
  "rte_pipeline_action_handler_port pkts_mask p w = send_port (pkt_positions pkts_mask) p w"

fun send_port_meta :: "'e pipe_env \<Rightarrow> nat list \<Rightarrow> 'e rte_pipeline \<Rightarrow> 'e world \<Rightarrow> ('e rte_pipeline \<times> 'e world) option" where
  "send_port_meta env [] p w = Some (p, w)"
| "send_port_meta env (i # rest) p w = do {
     pkt \<leftarrow> read_at (p_pkts p) i;
     (p, w) \<leftarrow> send_packet i (env_mbuf_metadata env (ext w) pkt (p_offset_port_id p)) p w;
     send_port_meta env rest p w }"

definition rte_pipeline_action_handler_port_meta ::
  "'e pipe_env \<Rightarrow> u64 \<Rightarrow> 'e rte_pipeline \<Rightarrow> 'e world \<Rightarrow> ('e rte_pipeline \<times> 'e world) option" where
  "rte_pipeline_action_handler_port_meta env pkts_mask p w = send_port_meta env (pkt_positions pkts_mask) p w"

definition call_pktmbuf_free :: "'e pipe_env \<Rightarrow> pkt \<Rightarrow> 'e world \<Rightarrow> 'e world" where
  "call_pktmbuf_free env pkt w = emit (Ev_pkt_free pkt) (env_pktmbuf_free env pkt (ext w)) w"

fun drop_packets :: "'e pipe_env \<Rightarrow> pkt list \<Rightarrow> nat list \<Rightarrow> 'e world \<Rightarrow> 'e world option" where
  "drop_packets env pkts [] w = Some w"
| "drop_packets env pkts (i # rest) w = do {
     pkt \<leftarrow> read_at pkts i;
     drop_packets env pkts rest (call_pktmbuf_free env pkt w) }"

definition rte_pipeline_action_handler_drop :: "'e pipe_env \<Rightarrow> u64 \<Rightarrow> 'e rte_pipeline \<Rightarrow> 'e world \<Rightarrow> 'e world option" where
  "rte_pipeline_action_handler_drop env pkts_mask p w = drop_packets env (p_pkts p) (pkt_positions pkts_mask) w"

text \<open>The two halves of one turn of the table loop of \<open>rte_pipeline_run\<close>.\<close>

definition lookup_miss ::
  "'e rte_table \<Rightarrow> u64 \<Rightarrow> 'e rte_pipeline \<Rightarrow> 'e world \<Rightarrow> ('e rte_pipeline \<times> 'e world) option" where
  "lookup_miss table lookup_miss_mask p w =
     (if lookup_miss_mask = 0 then Some (p, w)
      else (let default_entry = t_default_entry table;
                (lookup_miss_mask, p, w) =
                  (case t_f_action_miss table of None \<Rightarrow> (lookup_miss_mask, p, w)
                   | Some f_action_miss \<Rightarrow>
                       (let (new_mask, e) = f_action_miss (p_pkts p) lookup_miss_mask default_entry (t_arg_ah table) (ext w) in
                        (new_mask, add_mask0 RTE_PIPELINE_ACTION_DROP (lookup_miss_mask XOR new_mask) p, w\<lparr>ext := e\<rparr>))) in
            if action default_entry = RTE_PIPELINE_ACTION_PORT \<and> lookup_miss_mask \<noteq> 0
            then rte_pipeline_action_handler_port_bulk lookup_miss_mask (next_id default_entry) p w
            else Some (p\<lparr>p_action_mask0 := (p_action_mask0 p)(action default_entry := lookup_miss_mask)\<rparr>, w)))"

definition lookup_hit ::
  "'e rte_table \<Rightarrow> u64 \<Rightarrow> 'e rte_pipeline \<Rightarrow> 'e world \<Rightarrow> ('e rte_pipeline \<times> 'e world) option" where
  "lookup_hit table lookup_hit_mask p w =
     (if lookup_hit_mask = 0 then Some (p, w)
      else (let (lookup_hit_mask, p, w) =
                  (case t_f_action_hit table of None \<Rightarrow> (lookup_hit_mask, p, w)
                   | Some f_action_hit \<Rightarrow>
                       (let (new_mask, e) = f_action_hit (p_pkts p) lookup_hit_mask (p_entries p) (t_arg_ah table) (ext w) in
                        (new_mask, add_mask0 RTE_PIPELINE_ACTION_DROP (lookup_hit_mask XOR new_mask) p, w\<lparr>ext := e\<rparr>))) in
            do {
              p \<leftarrow> rte_pipeline_compute_masks p lookup_hit_mask;
              Some (p\<lparr>p_action_mask0 := (\<lambda>a. p_action_mask0 p a OR p_action_mask1 p a)\<rparr>, w) }))"

definition table_turn ::
  "u32 \<Rightarrow> u64 \<Rightarrow> 'e rte_pipeline \<Rightarrow> 'e world \<Rightarrow> (u32 \<times> u64 \<times> 'e rte_pipeline \<times> 'e world) option" where
  "table_turn table_id pkts_mask p w = do {
     table \<leftarrow> read_at (p_tables p) (unat table_id);
     f_lookup \<leftarrow> tbl_f_lookup (t_ops table);
     let ((hit_mask, entries), e) = f_lookup (t_h_table table) (p_pkts p) pkts_mask (p_entries p) (ext w);
     let p = p\<lparr>p_entries := entries\<rparr>;
     let w = w\<lparr>ext := e\<rparr>;
     (p, w) \<leftarrow> lookup_miss table (pkts_mask AND NOT hit_mask) p w;
     (p, w) \<leftarrow> lookup_hit table hit_mask p w;
     let next_mask = p_action_mask0 p RTE_PIPELINE_ACTION_TABLE;
     Some (t_table_next_id table, next_mask,
           p\<lparr>p_action_mask0 := (p_action_mask0 p)(RTE_PIPELINE_ACTION_TABLE := 0)\<rparr>, w) }"

text \<open>
  The loops of a run need not end: tables can be chained in a circle. They are given a number of
  turns, and a run has one of three results: it is done, it has faulted, or it is still running
  when the turns are used up.
\<close>

datatype 'a run_result = Done 'a | Fault | Still_running

fun and_then :: "'a run_result \<Rightarrow> ('a \<Rightarrow> 'b run_result) \<Rightarrow> 'b run_result" where
  "and_then (Done x) f = f x"
| "and_then Fault f = Fault"
| "and_then Still_running f = Still_running"

definition or_fault :: "'a option \<Rightarrow> 'a run_result" where
  "or_fault x = (case x of None \<Rightarrow> Fault | Some y \<Rightarrow> Done y)"

fun run_tables :: "nat \<Rightarrow> u32 \<Rightarrow> u64 \<Rightarrow> 'e rte_pipeline \<Rightarrow> 'e world \<Rightarrow> ('e rte_pipeline \<times> 'e world) run_result" where
  "run_tables 0 table_id pkts_mask p w = (if pkts_mask = 0 then Done (p, w) else Still_running)"
| "run_tables (Suc turns) table_id pkts_mask p w =
     (if pkts_mask = 0 then Done (p, w)
      else and_then (or_fault (table_turn table_id pkts_mask p w))
        (\<lambda>(table_id, pkts_mask, p, w). run_tables turns table_id pkts_mask p w))"

definition finish_port :: "'e pipe_env \<Rightarrow> 'e rte_pipeline \<Rightarrow> 'e world \<Rightarrow> ('e rte_pipeline \<times> 'e world) option" where
  "finish_port env p w = do {
     (p, w) \<leftarrow> rte_pipeline_action_handler_port (p_action_mask0 p RTE_PIPELINE_ACTION_PORT) p w;
     (p, w) \<leftarrow> rte_pipeline_action_handler_port_meta env (p_action_mask0 p RTE_PIPELINE_ACTION_PORT_META) p w;
     w \<leftarrow> rte_pipeline_action_handler_drop env (p_action_mask0 p RTE_PIPELINE_ACTION_DROP) p w;
     Some (p, w) }"

definition run_port ::
  "nat \<Rightarrow> 'e pipe_env \<Rightarrow> 'e rte_port_in \<Rightarrow> 'e rte_pipeline \<Rightarrow> 'e world \<Rightarrow> ('e rte_pipeline \<times> 'e world) run_result" where
  "run_port turns env port_in p w =
     (case in_f_rx (pi_ops port_in) of None \<Rightarrow> Fault
      | Some f_rx \<Rightarrow>
          let (n_pkts, pkts, e) = f_rx (pi_h_port port_in) (p_pkts p) (pi_burst_size port_in) (ext w);
              p = p\<lparr>p_pkts := pkts\<rparr>;
              w = emit (Ev_rx (pi_h_port port_in) (take (unat n_pkts) pkts)) e w in
          if n_pkts = 0 then Done (p, w)
          else
            let pkts_mask = RTE_LEN2MASK n_pkts;
                p = p\<lparr>p_action_mask0 := (\<lambda>_. 0)\<rparr>;
                (pkts_mask, p, w) =
                  (case pi_f_action port_in of None \<Rightarrow> (pkts_mask, p, w)
                   | Some f_action \<Rightarrow>
                       (let (new_mask, e) = f_action (p_pkts p) n_pkts pkts_mask (pi_arg_ah port_in) (ext w) in
                        (new_mask, add_mask0 RTE_PIPELINE_ACTION_DROP (pkts_mask XOR new_mask) p, w\<lparr>ext := e\<rparr>))) in
            and_then (run_tables turns (pi_table_id port_in) pkts_mask p w)
              (\<lambda>(p, w). or_fault (finish_port env p w)))"

text \<open>The walk over the chain of enabled ports, at most \<open>ports\<close> of them.\<close>

fun run_ports ::
  "nat \<Rightarrow> nat \<Rightarrow> 'e pipe_env \<Rightarrow> nat option \<Rightarrow> 'e rte_pipeline \<Rightarrow> 'e world \<Rightarrow> ('e rte_pipeline \<times> 'e world) run_result" where
  "run_ports ports turns env None p w = Done (p, w)"
| "run_ports 0 turns env (Some i) p w = Still_running"
| "run_ports (Suc ports) turns env (Some i) p w =
     (case read_at (p_ports_in p) i of None \<Rightarrow> Fault
      | Some port_in \<Rightarrow>
          and_then (run_port turns env port_in p w) (\<lambda>(p, w). run_ports ports turns env (pi_next port_in) p w))"

definition rte_pipeline_run ::
  "nat \<Rightarrow> 'e pipe_env \<Rightarrow> 'e rte_pipeline \<Rightarrow> 'e world \<Rightarrow> (int \<times> 'e rte_pipeline \<times> 'e world) run_result" where
  "rte_pipeline_run turns env p w =
     and_then (run_ports RTE_PIPELINE_PORT_IN_MAX turns env (p_port_in_first p) p w) (\<lambda>(p, w). Done (0, p, w))"

lemma run_tables_more:
  "run_tables n t m p w \<noteq> Still_running \<Longrightarrow> n \<le> k \<Longrightarrow> run_tables k t m p w = run_tables n t m p w"
proof (induction n arbitrary: t m p w k)
  case 0
  then show ?case by (cases k) (auto split: if_splits)
next
  case (Suc n)
  obtain j where k: "k = Suc j" "n \<le> j" using Suc.prems(2) by (cases k) auto
  show ?case
  proof (cases "table_turn t m p w")
    case (Some r)
    obtain t' m' p' w' where "r = (t', m', p', w')" by (cases r)
    then show ?thesis using Suc.prems(1) Some k Suc.IH [of t' m' p' w' j] by (auto simp: or_fault_def)
  qed (simp add: k or_fault_def)
qed

lemma run_port_more:
  assumes "run_port n env port p w \<noteq> Still_running" and "n \<le> k"
  shows "run_port k env port p w = run_port n env port p w"
proof (cases "in_f_rx (pi_ops port)")
  case (Some f)
  have more: "and_then (run_tables k t m q v) g = and_then (run_tables n t m q v) g"
    if "and_then (run_tables n t m q v) g \<noteq> Still_running" for t m q v and g :: "_ \<Rightarrow> ('a rte_pipeline \<times> 'a world) run_result"
    using run_tables_more [of n t m q v k] that assms(2) by (cases "run_tables n t m q v") auto
  show ?thesis using assms(1) more unfolding run_port_def Some Let_def by (auto split: prod.splits if_splits)
qed (simp add: run_port_def)

lemma run_ports_more:
  "run_ports i n env port p w \<noteq> Still_running \<Longrightarrow> n \<le> k \<Longrightarrow> run_ports i k env port p w = run_ports i n env port p w"
proof (induction i n env port p w rule: run_ports.induct)
  case (3 i n env a p w)
  show ?case
  proof (cases "read_at (p_ports_in p) a")
    case (Some port)
    then have "run_port k env port p w = run_port n env port p w" using 3(2,3) by (intro run_port_more) auto
    then show ?thesis using 3 Some by (cases "run_port n env port p w") auto
  qed simp
qed simp_all

text \<open>A run that is done or has faulted is the same with more turns.\<close>

lemma rte_pipeline_run_more:
  "rte_pipeline_run n env p w \<noteq> Still_running \<Longrightarrow> n \<le> k \<Longrightarrow> rte_pipeline_run k env p w = rte_pipeline_run n env p w"
  using run_ports_more [of RTE_PIPELINE_PORT_IN_MAX n env "p_port_in_first p" p w k]
  by (cases "run_ports RTE_PIPELINE_PORT_IN_MAX n env (p_port_in_first p) p w") (auto simp: rte_pipeline_run_def)

definition flush_port :: "'e rte_port_out \<Rightarrow> 'e world \<Rightarrow> 'e world" where
  "flush_port port w =
     (case out_f_flush (po_ops port) of None \<Rightarrow> w
      | Some f_flush \<Rightarrow> emit (Ev_flush (po_h_port port)) (f_flush (po_h_port port) (ext w)) w)"

definition rte_pipeline_flush :: "'e rte_pipeline option \<Rightarrow> 'e world \<Rightarrow> int \<times> 'e world" where
  "rte_pipeline_flush pp w =
     (case pp of None \<Rightarrow> (- EINVAL, w)
      | Some p \<Rightarrow> (0, fold flush_port (take (unat (p_num_ports_out p)) (p_ports_out p)) w))"

definition rte_pipeline_port_out_packet_insert ::
  "'e pipe_env \<Rightarrow> 'e rte_pipeline \<Rightarrow> u32 \<Rightarrow> pkt \<Rightarrow> 'e world \<Rightarrow> (int \<times> 'e world) option" where
  "rte_pipeline_port_out_packet_insert env p port_id pkt w = do {
     port_out \<leftarrow> read_at (p_ports_out p) (unat port_id);
     w \<leftarrow> (case po_f_action port_out of
             None \<Rightarrow> call_tx port_out pkt w
           | Some f_action \<Rightarrow>
               (let (pkt_mask, e) = f_action pkt 1 (po_arg_ah port_out) (ext w); w = w\<lparr>ext := e\<rparr> in
                if pkt_mask \<noteq> 0 then call_tx port_out pkt w
                else Some (call_pktmbuf_free env pkt w)));
     Some (0, w) }"

section \<open>Statistics\<close>

record port_in_stats =
  pis_stats :: port_stats
  pis_n_pkts_dropped_by_ah :: u64

record table_stats =
  ts_stats :: port_stats
  ts_n_pkts_dropped_by_lkp_hit_ah :: u64
  ts_n_pkts_dropped_by_lkp_miss_ah :: u64
  ts_n_pkts_dropped_lkp_hit :: u64
  ts_n_pkts_dropped_lkp_miss :: u64

text \<open>
  The statistics of the low-level object, all zero when it keeps none: the status, the
  statistics where the caller asked for them, and the new external state.
\<close>

definition low_level_stats ::
  "(u64 \<Rightarrow> port_stats option \<Rightarrow> bool \<Rightarrow> 'e \<Rightarrow> int \<times> port_stats option \<times> 'e) option \<Rightarrow> u64 \<Rightarrow>
   port_stats option \<Rightarrow> bool \<Rightarrow> 'e \<Rightarrow> int \<times> port_stats option \<times> 'e" where
  "low_level_stats f_stats h stats clear e =
     (case f_stats of Some f \<Rightarrow> f h stats clear e
      | None \<Rightarrow> (0, map_option (\<lambda>_. \<lparr>n_pkts_in = 0, n_pkts_drop = 0\<rparr>) stats, e))"

definition rte_pipeline_port_in_stats_read ::
  "'e rte_pipeline option \<Rightarrow> u32 \<Rightarrow> port_in_stats option \<Rightarrow> bool \<Rightarrow> 'e world \<Rightarrow>
   ((int \<times> port_in_stats option) \<times> 'e rte_pipeline option \<times> 'e world) option" where
  "rte_pipeline_port_in_stats_read pp port_id stats clear w =
     (case pp of None \<Rightarrow> Some ((- EINVAL, stats), pp, w)
      | Some p \<Rightarrow>
          if p_num_ports_in p \<le> port_id then Some ((- EINVAL, stats), pp, w)
          else do {
            port \<leftarrow> read_at (p_ports_in p) (unat port_id);
            let (retval, low, e) = low_level_stats (in_f_stats (pi_ops port)) (pi_h_port port) (map_option pis_stats stats) clear (ext w);
            let stats = (case (stats, low) of (Some s, Some l) \<Rightarrow> Some (s\<lparr>pis_stats := l\<rparr>) | _ \<Rightarrow> stats);
            if retval \<noteq> 0 then Some ((retval, stats), pp, w\<lparr>ext := e\<rparr>)
            else do {
              ports \<leftarrow> write_at (p_ports_in p) (unat port_id) (if clear then port\<lparr>pi_n_pkts_dropped_by_ah := 0\<rparr> else port);
              Some ((0, map_option (\<lambda>s. s\<lparr>pis_n_pkts_dropped_by_ah := pi_n_pkts_dropped_by_ah port\<rparr>) stats),
                    Some (p\<lparr>p_ports_in := ports\<rparr>), w\<lparr>ext := e\<rparr>) } })"

definition rte_pipeline_port_out_stats_read ::
  "'e rte_pipeline option \<Rightarrow> u32 \<Rightarrow> port_in_stats option \<Rightarrow> bool \<Rightarrow> 'e world \<Rightarrow>
   ((int \<times> port_in_stats option) \<times> 'e rte_pipeline option \<times> 'e world) option" where
  "rte_pipeline_port_out_stats_read pp port_id stats clear w =
     (case pp of None \<Rightarrow> Some ((- EINVAL, stats), pp, w)
      | Some p \<Rightarrow>
          if p_num_ports_out p \<le> port_id then Some ((- EINVAL, stats), pp, w)
          else do {
            port \<leftarrow> read_at (p_ports_out p) (unat port_id);
            let (retval, low, e) = low_level_stats (out_f_stats (po_ops port)) (po_h_port port) (map_option pis_stats stats) clear (ext w);
            let stats = (case (stats, low) of (Some s, Some l) \<Rightarrow> Some (s\<lparr>pis_stats := l\<rparr>) | _ \<Rightarrow> stats);
            if retval \<noteq> 0 then Some ((retval, stats), pp, w\<lparr>ext := e\<rparr>)
            else do {
              ports \<leftarrow> write_at (p_ports_out p) (unat port_id) (if clear then port\<lparr>po_n_pkts_dropped_by_ah := 0\<rparr> else port);
              Some ((0, map_option (\<lambda>s. s\<lparr>pis_n_pkts_dropped_by_ah := po_n_pkts_dropped_by_ah port\<rparr>) stats),
                    Some (p\<lparr>p_ports_out := ports\<rparr>), w\<lparr>ext := e\<rparr>) } })"

definition rte_pipeline_table_stats_read ::
  "'e rte_pipeline option \<Rightarrow> u32 \<Rightarrow> table_stats option \<Rightarrow> bool \<Rightarrow> 'e world \<Rightarrow>
   ((int \<times> table_stats option) \<times> 'e rte_pipeline option \<times> 'e world) option" where
  "rte_pipeline_table_stats_read pp table_id stats clear w =
     (case pp of None \<Rightarrow> Some ((- EINVAL, stats), pp, w)
      | Some p \<Rightarrow>
          if p_num_tables p \<le> table_id then Some ((- EINVAL, stats), pp, w)
          else do {
            table \<leftarrow> read_at (p_tables p) (unat table_id);
            let (retval, low, e) = low_level_stats (tbl_f_stats (t_ops table)) (t_h_table table) (map_option ts_stats stats) clear (ext w);
            let stats = (case (stats, low) of (Some s, Some l) \<Rightarrow> Some (s\<lparr>ts_stats := l\<rparr>) | _ \<Rightarrow> stats);
            if retval \<noteq> 0 then Some ((retval, stats), pp, w\<lparr>ext := e\<rparr>)
            else do {
              tables \<leftarrow> write_at (p_tables p) (unat table_id)
                (if clear then table\<lparr>t_n_pkts_dropped_by_lkp_hit_ah := 0, t_n_pkts_dropped_by_lkp_miss_ah := 0,
                                     t_n_pkts_dropped_lkp_hit := 0, t_n_pkts_dropped_lkp_miss := 0\<rparr> else table);
              Some ((0, map_option (\<lambda>s. s\<lparr>ts_n_pkts_dropped_by_lkp_hit_ah := t_n_pkts_dropped_by_lkp_hit_ah table,
                       ts_n_pkts_dropped_by_lkp_miss_ah := t_n_pkts_dropped_by_lkp_miss_ah table,
                       ts_n_pkts_dropped_lkp_hit := t_n_pkts_dropped_lkp_hit table,
                       ts_n_pkts_dropped_lkp_miss := t_n_pkts_dropped_lkp_miss table\<rparr>) stats),
                    Some (p\<lparr>p_tables := tables\<rparr>), w\<lparr>ext := e\<rparr>) } })"

end
