(* ===== verification/Pipeline_Ports.thy ===== *)
theory Pipeline_Ports
  imports Pipeline
begin

text \<open>
  The bit arithmetic of the pipeline and the chain of enabled input ports: the linked list that
  enabling and disabling maintain is the sorted list of the enabled ports.
\<close>

section \<open>The packet loops\<close>

text \<open>
  The fast branch of the packet loops, taken for masks of the form 2^n - 1, visits the same
  packets in the same order as the branch that tests every bit.
\<close>

theorem pkt_positions_branches: "pkt_positions m = filter (bit m) [0..<64]"
proof (cases "m AND (m + 1) = 0")
  case True
  have "\<exists>n \<le> 64. m = mask n"
  proof (cases "m + 1 = 0")
    case True
    then have "m = - 1" by (simp only: eq_neg_iff_add_eq_0)
    also have "\<dots> = mask 64" by (rule bit_word_eqI) (simp add: bit_simps)
    finally have "m = mask 64" .
    then show ?thesis by blast
  next
    case False
    have "POWEROF2 (m + 1)" using True by (simp add: POWEROF2_def)
    from POWEROF2_mask [OF this False] obtain k where "k < 64" "m + 1 - 1 = mask k" by auto
    then show ?thesis by (intro exI [of _ k]) auto
  qed
  then obtain n where n: "n \<le> 64" "m = mask n" by blast
  have "filter (bit m) [0..<64] = [0..<n]"
  proof -
    have "[0..<64] = [0..<n] @ [n..<64]" using n(1) by (metis le0 le_add_diff_inverse upt_add_eq_append)
    moreover have "filter (bit m) [0..<n] = [0..<n]" "filter (bit m) [n..<64] = []"
      using n(1) by (auto simp: n(2) bit_simps filter_empty_conv intro!: filter_True)
    ultimately show ?thesis by (metis append_Nil2 filter_append)
  qed
  then show ?thesis using True by (simp add: pkt_positions_def popcountll_def)
next
  case False
  have "filter (\<lambda>i. push_bit i 1 AND m \<noteq> 0) [0..<64] = filter (bit m) [0..<64]"
    by (rule filter_cong) (simp_all only: bit_test mem_bits set_upt atLeastLessThan_iff)
  then show ?thesis using False by (simp add: pkt_positions_def)
qed

lemma pkt_positions_bits: "pkt_positions m = sorted_list_of_set (bits m)"
  unfolding pkt_positions_branches by (rule filter_bit)

section \<open>The neighbours of a port in the mask\<close>

lemma small_u32: "n < 64 \<Longrightarrow> unat (of_nat n :: u32) = n"
  by (simp add: unat_of_nat take_bit_nat_eq_self)

lemma and_63: "unat ((of_nat n :: u32) AND 0x3F) = n mod 64"
proof -
  have "(0x3F :: u32) = mask 6" by (simp add: mask_eq_exp_minus_1)
  then show ?thesis using of_nat_and_mask [where 'a = 32, of 6 n] by simp
qed

lemma rot_next:
  assumes "n < 64"
  shows "bit (push_bit (63 - n) m OR drop_bit ((n + 1) mod 64) m) i \<longleftrightarrow> i < 64 \<and> bit (m :: u64) ((i + n + 1) mod 64)"
proof (cases "n = 63")
  case True
  then show ?thesis using bit_less_64 [of m i] by (cases "i < 64") (auto simp: bit_simps)
next
  case False
  then have n: "n < 63" using assms by simp
  show ?thesis
  proof (cases "i < 63 - n")
    case True
    then show ?thesis using n by (auto simp: bit_simps algebra_simps)
  next
    case False
    then have "\<not> bit m (i + (n + 1))" using bit_less_64 [of m "i + (n + 1)"] by auto
    moreover have "(i + n + 1) mod 64 = i - (63 - n)" if "i < 64"
    proof -
      have "i + n + 1 = i - (63 - n) + 64" using False n by simp
      then show ?thesis using that n by (metis less_imp_diff_less mod_add_self2 mod_less)
    qed
    ultimately show ?thesis using False n by (auto simp: bit_simps algebra_simps)
  qed
qed

lemma rot_prev:
  assumes "n < 64"
  shows "bit (drop_bit n m OR push_bit ((64 - n) mod 64) m) i \<longleftrightarrow> i < 64 \<and> bit (m :: u64) ((i + n) mod 64)"
proof (cases "n = 0")
  case True
  then show ?thesis using bit_less_64 [of m i] by (cases "i < 64") (auto simp: bit_simps)
next
  case False
  show ?thesis
  proof (cases "i < 64 - n")
    case True
    then show ?thesis using False by (auto simp: bit_simps algebra_simps)
  next
    case other: False
    then have "\<not> bit m (i + n)" using bit_less_64 [of m "i + n"] by auto
    moreover have "(i + n) mod 64 = i - (64 - n)" if "i < 64"
    proof -
      have "i + n = i - (64 - n) + 64" using other assms by simp
      then show ?thesis using that by (metis less_imp_diff_less mod_add_self2 mod_less)
    qed
    ultimately show ?thesis using False other assms by (auto simp: bit_simps algebra_simps)
  qed
qed

definition cyc_next :: "nat set \<Rightarrow> nat \<Rightarrow> nat" where
  "cyc_next S n = (if {j \<in> S. n < j} = {} then Min S else Min {j \<in> S. n < j})"

definition cyc_prev :: "nat set \<Rightarrow> nat \<Rightarrow> nat" where
  "cyc_prev S n = (if {j \<in> S. j < n} = {} then Max S else Max {j \<in> S. j < n})"

lemma rte_mask_get_next_cyc:
  assumes n: "n \<in> bits m"
  shows "unat (rte_mask_get_next m (of_nat n)) = cyc_next (bits m) n"
proof -
  have n64: "n < 64" by (rule bits_less [OF n])
  define r where "r = push_bit (63 - n) m OR drop_bit ((n + 1) mod 64) m"
  have "(63 - of_nat n :: u32) = of_nat (63 - n)" "(of_nat n + 1 :: u32) = of_nat (n + 1)"
    using n64 by (simp_all add: of_nat_diff)
  then have s: "unat ((63 - of_nat n :: u32) AND 0x3F) = 63 - n" "unat ((of_nat n + 1 :: u32) AND 0x3F) = (n + 1) mod 64"
    by (simp_all only: and_63) simp_all
  have br: "i \<in> bits r \<longleftrightarrow> i < 64 \<and> (i + n + 1) mod 64 \<in> bits m" for i
    using rot_next [OF n64, of m i] by (simp add: bits_def r_def)
  have "63 \<in> bits r" using n n64 by (simp add: br)
  then have ne: "bits r \<noteq> {}" by blast
  then have r0: "r \<noteq> 0" by simp
  define k where "k = Min (bits r)"
  have k: "k < 64" "(k + n + 1) mod 64 \<in> bits m" using Min_in [OF finite_bits ne] br by (auto simp: k_def)
  have least: "k \<le> i" if "i < 64" "(i + n + 1) mod 64 \<in> bits m" for i
    unfolding k_def by (rule Min_le) (use that br in simp_all)
  have "(of_nat k - (63 - of_nat n) :: u32) = of_nat (k + n + 1 + 64 * 67108863)" by simp
  moreover have "(k + n + 1 + 64 * 67108863) mod 64 = (k + n + 1) mod 64" by (rule mod_mult_self2)
  ultimately have val: "unat (rte_mask_get_next m (of_nat n)) = (k + n + 1) mod 64"
    unfolding rte_mask_get_next_def Let_def s r_def [symmetric] ctzll_Min [OF r0] k_def [symmetric] by (simp only: and_63)
  show ?thesis
  proof (cases "{j \<in> bits m. n < j} = {}")
    case True
    have "\<not> k + n + 1 < 64" using True k(2) by auto
    then have eq: "(k + n + 1) mod 64 = k + n + 1 - 64" using k(1) n64 by (simp add: le_mod_geq)
    have "Min (bits m) = k + n + 1 - 64"
    proof (rule Min_eqI)
      fix j assume j: "j \<in> bits m"
      then have "j \<le> n" using True by auto
      then have "(j + 63 - n + n + 1) mod 64 = j" using n64 by simp
      then have "k \<le> j + 63 - n" using least [of "j + 63 - n"] j \<open>j \<le> n\<close> n64 by simp
      then show "k + n + 1 - 64 \<le> j" using \<open>j \<le> n\<close> n64 by simp
    qed (use k eq in simp_all)
    then show ?thesis using val True eq by (simp add: cyc_next_def)
  next
    case False
    then obtain j where j: "j \<in> bits m" "n < j" by blast
    have up: "k + n + 1 \<le> j'" if "j' \<in> bits m" "n < j'" for j'
      using least [of "j' - n - 1"] that bits_less [OF that(1)] by (simp add: less_imp_diff_less)
    have lt: "k + n + 1 < 64" using up [OF j] bits_less [OF j(1)] by simp
    have "Min {j \<in> bits m. n < j} = k + n + 1"
      by (rule Min_eqI) (use up k lt in auto)
    then show ?thesis unfolding cyc_next_def if_not_P [OF False] using val lt by simp
  qed
qed

lemma rte_mask_get_prev_cyc:
  assumes n: "n \<in> bits m"
  shows "unat (rte_mask_get_prev m (of_nat n)) = cyc_prev (bits m) n"
proof -
  have n64: "n < 64" by (rule bits_less [OF n])
  define r where "r = drop_bit n m OR push_bit ((64 - n) mod 64) m"
  have "(64 - of_nat n :: u32) = of_nat (64 - n)" using n64 by (simp add: of_nat_diff)
  then have s: "unat ((64 - of_nat n :: u32) AND 0x3F) = (64 - n) mod 64" "unat ((of_nat n :: u32) AND 0x3F) = n"
    using n64 by (simp_all only: and_63) simp_all
  have br: "i \<in> bits r \<longleftrightarrow> i < 64 \<and> (i + n) mod 64 \<in> bits m" for i
    using rot_prev [OF n64, of m i] by (simp add: bits_def r_def)
  have "0 \<in> bits r" using n n64 by (simp add: br)
  then have ne: "bits r \<noteq> {}" by blast
  then have r0: "r \<noteq> 0" by simp
  define k where "k = Max (bits r)"
  have k: "k < 64" "(k + n) mod 64 \<in> bits m" using Max_in [OF finite_bits ne] br by (auto simp: k_def)
  have greatest: "i \<le> k" if "i < 64" "(i + n) mod 64 \<in> bits m" for i
    unfolding k_def by (rule Max_ge) (use that br in simp_all)
  have "(63 - of_nat (clzll r) :: u32) = of_nat k"
    using last_id [OF r0] clzll_Max [OF r0] k(1) by (simp add: k_def of_nat_diff)
  then have val: "unat (rte_mask_get_prev m (of_nat n)) = (k + n) mod 64"
    unfolding rte_mask_get_prev_def Let_def s r_def [symmetric] using and_63 [of "k + n"] by simp
  show ?thesis
  proof (cases "{j \<in> bits m. j < n} = {}")
    case True
    have lt: "k + n < 64"
    proof (rule ccontr)
      assume "\<not> k + n < 64"
      then have "(k + n) mod 64 = k + n - 64" "k + n - 64 < n" using k(1) n64 by (simp_all add: le_mod_geq)
      then show False using True k(2) by auto
    qed
    have "Max (bits m) = k + n"
    proof (rule Max_eqI)
      fix j assume j: "j \<in> bits m"
      then have "n \<le> j" "j < 64" using True bits_less by auto
      then show "j \<le> k + n" using greatest [of "j - n"] j by (simp add: less_imp_diff_less le_diff_conv)
    qed (use k lt in simp_all)
    then show ?thesis using val True lt by (simp add: cyc_prev_def)
  next
    case False
    then obtain j where j: "j \<in> bits m" "j < n" by blast
    have up: "j' + 64 \<le> k + n" if "j' \<in> bits m" "j' < n" for j'
    proof -
      have "j' + 64 - n < 64" "j' + 64 - n + n = j' + 64" using that n64 by simp_all
      then show ?thesis using greatest [of "j' + 64 - n"] that bits_less [OF that(1)] by simp
    qed
    have ge: "64 \<le> k + n" using up [OF j] by simp
    then have eq: "(k + n) mod 64 = k + n - 64" using k(1) n64 by (simp add: le_mod_geq)
    have "Max {j \<in> bits m. j < n} = k + n - 64"
    proof (rule Max_eqI)
      show "k + n - 64 \<in> {j \<in> bits m. j < n}" using k eq ge by auto
    qed (use up in fastforce)+
    then show ?thesis unfolding cyc_prev_def if_not_P [OF False] using val eq by simp
  qed
qed

section \<open>The chain of enabled ports\<close>

definition succ_in :: "nat set \<Rightarrow> nat \<Rightarrow> nat option" where
  "succ_in S n = (if {j \<in> S. n < j} = {} then None else Some (Min {j \<in> S. n < j}))"

definition first_in :: "nat set \<Rightarrow> nat option" where
  "first_in S = (if S = {} then None else Some (Min S))"

abbreviation enabled :: "'e rte_pipeline \<Rightarrow> nat set" where
  "enabled p \<equiv> bits (p_enabled_port_in_mask p)"

text \<open>
  The invariant of the chain: only existing ports are enabled, the list starts at the least
  enabled port, and every enabled port points to the next larger one.
\<close>

definition chain_ok :: "'e rte_pipeline \<Rightarrow> bool" where
  "chain_ok p \<longleftrightarrow> length (p_ports_in p) = RTE_PIPELINE_PORT_IN_MAX \<and>
     unat (p_num_ports_in p) \<le> RTE_PIPELINE_PORT_IN_MAX \<and> (\<forall>i \<in> enabled p. i < unat (p_num_ports_in p)) \<and>
     p_port_in_first p = first_in (enabled p) \<and>
     (\<forall>i \<in> enabled p. pi_next (p_ports_in p ! i) = succ_in (enabled p) i)"

lemma succ_in_Max: "finite S \<Longrightarrow> succ_in S (Max S) = None"
  by (auto simp: succ_in_def dest: Max_ge)

lemma succ_in_eq:
  assumes "finite S" and "j \<in> S" and "n < j" and "\<And>x. x \<in> S \<Longrightarrow> n < x \<Longrightarrow> j \<le> x"
  shows "succ_in S n = Some j"
proof -
  have "Min {j \<in> S. n < j} = j" using assms by (intro Min_eqI) auto
  then show ?thesis using assms(2,3) by (auto simp: succ_in_def)
qed

lemma succ_inD:
  assumes "finite S" and "succ_in S n = Some j"
  shows "j \<in> S \<and> n < j \<and> (\<forall>x \<in> S. n < x \<longrightarrow> j \<le> x)"
proof -
  have ne: "{j \<in> S. n < j} \<noteq> {}" and j: "j = Min {j \<in> S. n < j}"
    using assms(2) by (auto simp: succ_in_def split: if_splits)
  have fin: "finite {j \<in> S. n < j}" using assms(1) by simp
  show ?thesis using Min_in [OF fin ne] Min_le [OF fin] unfolding j [symmetric] by blast
qed

lemma cyc_prev_below:
  assumes "finite S" and "i \<in> S" and "i < n" and "\<And>x. x \<in> S \<Longrightarrow> x < n \<Longrightarrow> x \<le> i"
  shows "cyc_prev S n = i"
proof -
  have "Max {j \<in> S. j < n} = i" using assms by (intro Max_eqI) auto
  then show ?thesis using assms(2,3) by (auto simp: cyc_prev_def)
qed

lemma cyc_prev_cases:
  assumes "finite S" and "n \<in> S"
  shows "cyc_prev S n \<in> S \<and> (cyc_prev S n < n \<and> (\<forall>x \<in> S. x < n \<longrightarrow> x \<le> cyc_prev S n) \<or>
    (\<forall>x \<in> S. n \<le> x) \<and> cyc_prev S n = Max S)"
proof (cases "{j \<in> S. j < n} = {}")
  case True
  have "Max S \<in> S" using assms by (intro Max_in) auto
  then show ?thesis using True by (auto simp: cyc_prev_def linorder_not_less)
next
  case False
  have fin: "finite {j \<in> S. j < n}" using assms(1) by simp
  show ?thesis using Max_in [OF fin False] Max_ge [OF fin] False by (auto simp: cyc_prev_def)
qed

lemma cyc_next_cases:
  assumes "finite S" and "n \<in> S"
  shows "cyc_next S n \<in> S \<and> ((\<forall>x \<in> S. x \<le> n) \<or> succ_in S n = Some (cyc_next S n))"
proof (cases "{j \<in> S. n < j} = {}")
  case True
  have "Min S \<in> S" using assms by (intro Min_in) auto
  then show ?thesis using True by (auto simp: cyc_next_def linorder_not_less)
next
  case False
  have fin: "finite {j \<in> S. n < j}" using assms(1) by simp
  show ?thesis using Min_in [OF fin False] False by (auto simp: cyc_next_def succ_in_def)
qed

text \<open>Linking \<open>n\<close> into the chain of \<open>S\<close>, and unlinking it.\<close>

lemma succ_in_insert:
  assumes S: "finite S" and n: "n \<notin> S" and i: "i \<in> insert n S" and last: "i \<noteq> Max (insert n S)"
  shows "succ_in (insert n S) i = (if i = n then Some (cyc_next (insert n S) n)
    else if i = cyc_prev (insert n S) n then Some n else succ_in S i)"
proof -
  define T where "T = insert n S"
  have T: "finite T" "n \<in> T" using S by (auto simp: T_def)
  obtain y where y: "y \<in> T" "i < y"
    using i last Max_in [of T] Max_ge [of T i] T by (metis T_def empty_iff nless_le)
  show ?thesis
  proof (cases "i = n")
    case True
    then show ?thesis using cyc_next_cases [OF T] y by (auto simp: T_def)
  next
    case neq: False
    show ?thesis
    proof (cases "i = cyc_prev T n")
      case True
      have "i < n \<and> (\<forall>x \<in> T. x < n \<longrightarrow> x \<le> i)"
        using cyc_prev_cases [OF T] True last by (auto simp: T_def)
      then have "succ_in T i = Some n" using T by (intro succ_in_eq) (auto simp: linorder_not_less [symmetric])
      then show ?thesis using True neq by (simp add: T_def)
    next
      case False
      have ge: "\<exists>x \<in> S. i < x \<and> x < n" if "i < n"
      proof (rule ccontr)
        assume "\<not> (\<exists>x \<in> S. i < x \<and> x < n)"
        then have "cyc_prev T n = i" using that i neq T by (intro cyc_prev_below) (auto simp: T_def linorder_not_less)
        with False show False by simp
      qed
      have ne: "{j \<in> S. i < j} \<noteq> {}" using y ge neq by (auto simp: T_def)
      then obtain j where j: "succ_in S i = Some j" by (simp add: succ_in_def)
      note jj = succ_inD [OF S j]
      have "succ_in T i = Some j"
      proof (intro succ_in_eq)
        fix x assume x: "x \<in> T" "i < x"
        show "j \<le> x"
        proof (cases "x = n")
          case True
          then obtain z where "z \<in> S" "i < z" "z < n" using ge x(2) by blast
          then show ?thesis using jj True by fastforce
        next
          case False
          then show ?thesis using x jj by (auto simp: T_def)
        qed
      qed (use jj T in \<open>auto simp: T_def\<close>)
      then show ?thesis using neq False j by (simp add: T_def)
    qed
  qed
qed

lemma succ_in_remove:
  assumes S: "finite S" and n: "n \<in> S" and i: "i \<in> S - {n}" and last: "i \<noteq> Max (S - {n})"
  shows "succ_in (S - {n}) i = (if i = cyc_prev S n then Some (cyc_next S n) else succ_in S i)"
proof -
  define T where "T = S - {n}"
  have T: "finite T" "i \<in> T" using S i by (auto simp: T_def)
  obtain y where y: "y \<in> T" "i < y"
    using last Max_in [of T] Max_ge [of T i] T by (metis T_def empty_iff nless_le)
  show ?thesis
  proof (cases "i = cyc_prev S n")
    case True
    have lt: "i < n \<and> (\<forall>x \<in> S. x < n \<longrightarrow> x \<le> i)"
    proof (rule ccontr)
      assume "\<not> ?thesis"
      then have "i = Max S" "n < i" using cyc_prev_cases [OF S n] True i by auto
      then have "i = Max T" using T S i by (intro Max_eqI [symmetric]) (auto simp: T_def)
      with last show False by (simp add: T_def)
    qed
    have up: "n < x" if "x \<in> T" "i < x" for x
    proof (rule ccontr)
      assume "\<not> n < x"
      then have "x < n" using that(1) by (auto simp: T_def)
      then show False using that lt by (auto simp: T_def)
    qed
    then have s: "succ_in S n = Some (cyc_next S n)" using cyc_next_cases [OF S n] y up [OF y] by (auto simp: T_def)
    note c = succ_inD [OF S s]
    have "succ_in T i = Some (cyc_next S n)"
      using c lt T by (intro succ_in_eq) (auto simp: T_def dest: up)
    then show ?thesis using True by (simp add: T_def)
  next
    case False
    have ne: "{j \<in> S. i < j} \<noteq> {}" using y by (auto simp: T_def)
    then obtain j where j: "succ_in S i = Some j" by (simp add: succ_in_def)
    note jj = succ_inD [OF S j]
    have "j \<noteq> n"
    proof
      assume "j = n"
      then have "cyc_prev S n = i" using jj i S by (intro cyc_prev_below) (auto simp: linorder_not_less [symmetric])
      with False show False by simp
    qed
    then have "succ_in T i = Some j" using jj T by (intro succ_in_eq) (auto simp: T_def)
    then show ?thesis using False j by (simp add: T_def)
  qed
qed

text \<open>Everything but the chain and the links of the ports is the same.\<close>

definition same_but_chain :: "'e rte_pipeline \<Rightarrow> 'e rte_pipeline \<Rightarrow> bool" where
  "same_but_chain p p' \<longleftrightarrow>
     p'\<lparr>p_enabled_port_in_mask := 0, p_port_in_first := None, p_ports_in := []\<rparr> =
     p\<lparr>p_enabled_port_in_mask := 0, p_port_in_first := None, p_ports_in := []\<rparr> \<and>
     map (\<lambda>port. port\<lparr>pi_next := None\<rparr>) (p_ports_in p') = map (\<lambda>port. port\<lparr>pi_next := None\<rparr>) (p_ports_in p)"

lemma set_first_last_ok:
  assumes "length (p_ports_in p) = 64" and "p_enabled_port_in_mask p \<noteq> 0"
  shows "set_first_last p = Some (p\<lparr>p_port_in_first := first_in (enabled p),
    p_ports_in := (p_ports_in p)[Max (enabled p) := (p_ports_in p ! Max (enabled p))\<lparr>pi_next := None\<rparr>]\<rparr>)"
proof -
  have "Max (enabled p) < 64" using assms(2) bits_less [OF Max_in [OF finite_bits, of "p_enabled_port_in_mask p"]] by simp
  then show ?thesis using assms
    by (simp add: set_first_last_def upd_at_def last_id ctzll_Min first_in_def Let_def)
qed

lemma map_upd_next:
  "map (\<lambda>port. port\<lparr>pi_next := None\<rparr>) (xs[i := (xs ! i)\<lparr>pi_next := v\<rparr>]) = map (\<lambda>port. port\<lparr>pi_next := None\<rparr>) xs"
  by (cases "i < length xs") (simp_all add: map_update list_update_same_conv list_update_beyond)

lemma rte_pipeline_port_in_enable_ok:
  assumes ok: "chain_ok p" and id: "port_id < p_num_ports_in p"
  shows "\<exists>p'. rte_pipeline_port_in_enable (Some p) port_id = Some (0, Some p') \<and> chain_ok p' \<and>
    enabled p' = insert (unat port_id) (enabled p) \<and> same_but_chain p p'"
proof -
  define n where "n = unat port_id"
  define S where "S = enabled p"
  have len: "length (p_ports_in p) = 64" and num: "unat (p_num_ports_in p) \<le> 64" and S_num: "\<forall>i \<in> S. i < unat (p_num_ports_in p)"
    and first: "p_port_in_first p = first_in S" and nxt: "\<forall>i \<in> S. pi_next (p_ports_in p ! i) = succ_in S i"
    using ok by (auto simp: chain_ok_def S_def)
  have n: "n < unat (p_num_ports_in p)" "n < 64" using id num by (auto simp: n_def word_less_nat_alt)
  have pid: "port_id = of_nat n" by (simp add: n_def)
  have nid: "\<not> p_num_ports_in p \<le> port_id" using id by simp
  show ?thesis
  proof (cases "n \<in> S")
    case True
    then have "p_enabled_port_in_mask p AND push_bit n 1 \<noteq> 0" using bit_test [OF n(2)] by (simp add: S_def and.commute)
    then have "rte_pipeline_port_in_enable (Some p) port_id = Some (0, Some p)"
      using nid by (simp add: rte_pipeline_port_in_enable_def n_def Let_def)
    then show ?thesis using ok True by (intro exI [of _ p]) (auto simp: S_def n_def same_but_chain_def)
  next
    case False
    then have new: "p_enabled_port_in_mask p AND push_bit n 1 = 0" using bit_test [OF n(2)] by (auto simp: S_def and.commute)
    define m where "m = p_enabled_port_in_mask p OR push_bit n 1"
    define T where "T = insert n S"
    have T: "bits m = T" unfolding m_def bits_or bits_single [OF n(2)] T_def S_def by simp
    have nT: "n \<in> bits m" by (simp add: T T_def)
    have fin: "finite S" "finite T" by (simp_all add: S_def T_def)
    have m0: "m \<noteq> 0" using nT by auto
    define pr where "pr = cyc_prev T n"
    define nx where "nx = cyc_next T n"
    have prT: "pr \<in> T" and nxT: "nx \<in> T"
      using cyc_prev_cases [OF fin(2), of n] cyc_next_cases [OF fin(2), of n] by (auto simp: pr_def nx_def T_def)
    have T64: "x < 64" if "x \<in> T" for x using that S_num n num by (auto simp: T_def)
    define ports where "ports = (p_ports_in p)[pr := (p_ports_in p ! pr)\<lparr>pi_next := Some n\<rparr>]"
    define ports2 where "ports2 = ports[n := (ports ! n)\<lparr>pi_next := Some nx\<rparr>]"
    define mx where "mx = Max T"
    have mx: "mx \<in> T" unfolding mx_def using fin by (intro Max_in) (auto simp: T_def)
    define ports3 where "ports3 = ports2[mx := (ports2 ! mx)\<lparr>pi_next := None\<rparr>]"
    define p' where "p' = p\<lparr>p_enabled_port_in_mask := m, p_port_in_first := first_in T, p_ports_in := ports3\<rparr>"
    have neigh: "unat (rte_mask_get_prev m port_id) = pr" "unat (rte_mask_get_next m port_id) = nx"
      using rte_mask_get_prev_cyc [OF nT] rte_mask_get_next_cyc [OF nT] by (simp_all add: pid T pr_def nx_def)
    have upds: "upd_at pr (\<lambda>port. port\<lparr>pi_next := Some n\<rparr>) (p_ports_in p) = Some ports"
      "upd_at n (\<lambda>port. port\<lparr>pi_next := Some nx\<rparr>) ports = Some ports2"
      using T64 [OF prT] n(2) len by (simp_all add: upd_at_def ports_def ports2_def)
    have last: "set_first_last (p\<lparr>p_enabled_port_in_mask := m, p_ports_in := ports2\<rparr>) = Some p'"
      by (subst set_first_last_ok) (use m0 len in \<open>simp_all add: p'_def ports3_def ports2_def ports_def T mx_def\<close>)
    have run: "rte_pipeline_port_in_enable (Some p) port_id = Some (0, Some p')"
      using nid new last neigh unfolding rte_pipeline_port_in_enable_def Let_def n_def [symmetric] m_def
      by (simp add: upds)
    have "pi_next (ports3 ! i) = succ_in T i" if i: "i \<in> T" for i
    proof (cases "i = mx")
      case True
      then show ?thesis using T64 [OF i] len fin
        by (simp add: ports3_def ports2_def ports_def mx_def succ_in_Max)
    next
      case neq: False
      have "ports3 ! i = ports2 ! i" using neq by (simp add: ports3_def)
      moreover have "pi_next (ports2 ! i) = (if i = n then Some nx else if i = pr then Some n else pi_next (p_ports_in p ! i))"
        using T64 [OF i] len n(2) by (auto simp: ports2_def ports_def nth_list_update)
      moreover have "succ_in T i = (if i = n then Some nx else if i = pr then Some n else succ_in S i)"
        using succ_in_insert [OF fin(1) False, of i] i neq by (simp add: T_def mx_def nx_def pr_def)
      ultimately show ?thesis using nxt i by (auto simp: T_def)
    qed
    then have "chain_ok p'" using S_num n len num by (auto simp: chain_ok_def p'_def T T_def ports3_def ports2_def ports_def)
    moreover have "same_but_chain p p'"
      by (simp add: same_but_chain_def p'_def ports3_def ports2_def ports_def map_upd_next)
    ultimately show ?thesis using run by (intro exI [of _ p']) (simp add: p'_def T T_def S_def n_def)
  qed
qed

lemma rte_pipeline_port_in_disable_ok:
  assumes ok: "chain_ok p" and id: "port_id < p_num_ports_in p"
  shows "\<exists>p'. rte_pipeline_port_in_disable (Some p) port_id = Some (0, Some p') \<and> chain_ok p' \<and>
    enabled p' = enabled p - {unat port_id} \<and> same_but_chain p p'"
proof -
  define n where "n = unat port_id"
  define S where "S = enabled p"
  have len: "length (p_ports_in p) = 64" and num: "unat (p_num_ports_in p) \<le> 64" and S_num: "\<forall>i \<in> S. i < unat (p_num_ports_in p)"
    and first: "p_port_in_first p = first_in S" and nxt: "\<forall>i \<in> S. pi_next (p_ports_in p ! i) = succ_in S i"
    using ok by (auto simp: chain_ok_def S_def)
  have n: "n < unat (p_num_ports_in p)" "n < 64" using id num by (auto simp: n_def word_less_nat_alt)
  have pid: "port_id = of_nat n" by (simp add: n_def)
  have nid: "\<not> p_num_ports_in p \<le> port_id" using id by simp
  have S64: "x < 64" if "x \<in> S" for x using that S_num num by auto
  define m where "m = p_enabled_port_in_mask p AND NOT (push_bit n 1)"
  define T where "T = S - {n}"
  have T: "bits m = T" unfolding m_def bits_and_not bits_single [OF n(2)] T_def S_def by simp
  have fin: "finite S" "finite T" by (simp_all add: S_def T_def)
  have pop: "popcountll (p_enabled_port_in_mask p) = card S" by (simp add: popcountll_def filter_bit S_def)
  show ?thesis
  proof (cases "n \<in> S")
    case False
    then have "p_enabled_port_in_mask p AND push_bit n 1 = 0" using bit_test [OF n(2)] by (auto simp: S_def and.commute)
    then have "rte_pipeline_port_in_disable (Some p) port_id = Some (0, Some p)"
      using nid by (simp add: rte_pipeline_port_in_disable_def n_def Let_def)
    then show ?thesis using ok False by (intro exI [of _ p]) (auto simp: S_def n_def same_but_chain_def)
  next
    case nS: True
    then have on: "p_enabled_port_in_mask p AND push_bit n 1 \<noteq> 0" using bit_test [OF n(2)] by (simp add: S_def and.commute)
    show ?thesis
    proof (cases "card S = 1")
      case True
      then have "T = {}" using nS by (auto simp: T_def card_1_singleton_iff)
      then have "m = 0" using T by simp
      define p' where "p' = p\<lparr>p_enabled_port_in_mask := m, p_port_in_first := None\<rparr>"
      have "rte_pipeline_port_in_disable (Some p) port_id = Some (0, Some p')"
        using nid on True pop by (simp add: rte_pipeline_port_in_disable_def n_def [symmetric] Let_def p'_def m_def)
      then show ?thesis using \<open>T = {}\<close> \<open>m = 0\<close> len num
        by (intro exI [of _ p']) (simp add: p'_def chain_ok_def first_in_def same_but_chain_def T_def S_def n_def)
    next
      case False
      have "T \<noteq> {}"
      proof
        assume "T = {}"
        then have "S = {n}" using nS by (auto simp: T_def)
        with False show False by simp
      qed
      then have m0: "m \<noteq> 0" using T by auto
      define pr where "pr = cyc_prev S n"
      define nx where "nx = cyc_next S n"
      have prS: "pr \<in> S" and nxS: "nx \<in> S"
        using cyc_prev_cases [OF fin(1) nS] cyc_next_cases [OF fin(1) nS] by (auto simp: pr_def nx_def)
      define ports where "ports = (p_ports_in p)[pr := (p_ports_in p ! pr)\<lparr>pi_next := Some nx\<rparr>]"
      define mx where "mx = Max T"
      have mx: "mx \<in> T" using fin \<open>T \<noteq> {}\<close> by (auto simp: mx_def intro!: Max_in)
      define ports2 where "ports2 = ports[mx := (ports ! mx)\<lparr>pi_next := None\<rparr>]"
      define p' where "p' = p\<lparr>p_enabled_port_in_mask := m, p_port_in_first := first_in T, p_ports_in := ports2\<rparr>"
      have nm: "n \<in> bits (p_enabled_port_in_mask p)" using nS by (simp add: S_def)
      have neigh: "unat (rte_mask_get_prev (p_enabled_port_in_mask p) port_id) = pr"
        "unat (rte_mask_get_next (p_enabled_port_in_mask p) port_id) = nx"
        using rte_mask_get_prev_cyc [OF nm] rte_mask_get_next_cyc [OF nm] by (simp_all add: pid pr_def nx_def S_def)
      have upds: "upd_at pr (\<lambda>port. port\<lparr>pi_next := Some nx\<rparr>) (p_ports_in p) = Some ports"
        using S64 [OF prS] len by (simp add: upd_at_def ports_def)
      have last: "set_first_last (p\<lparr>p_ports_in := ports, p_enabled_port_in_mask := m\<rparr>) = Some p'"
        by (subst set_first_last_ok) (use m0 len in \<open>simp_all add: p'_def ports2_def ports_def T mx_def\<close>)
      have run: "rte_pipeline_port_in_disable (Some p) port_id = Some (0, Some p')"
        using nid on last False pop unfolding rte_pipeline_port_in_disable_def Let_def n_def [symmetric] m_def
        by (simp add: neigh upds)
      have "pi_next (ports2 ! i) = succ_in T i" if i: "i \<in> T" for i
      proof (cases "i = mx")
        case True
        then show ?thesis using S64 i len fin by (simp add: ports2_def ports_def mx_def succ_in_Max T_def)
      next
        case neq: False
        have iS: "i \<in> S" using i by (simp add: T_def)
        have "ports2 ! i = ports ! i" using neq by (simp add: ports2_def)
        moreover have "pi_next (ports ! i) = (if i = pr then Some nx else pi_next (p_ports_in p ! i))"
          using S64 [OF iS] len by (auto simp: ports_def nth_list_update)
        moreover have "succ_in T i = (if i = pr then Some nx else succ_in S i)"
          using succ_in_remove [OF fin(1) nS, of i] i neq by (simp add: T_def mx_def nx_def pr_def)
        ultimately show ?thesis using nxt iS by auto
      qed
      then have "chain_ok p'" using S_num len num by (auto simp: chain_ok_def p'_def T T_def ports2_def ports_def)
      moreover have "same_but_chain p p'"
        by (simp add: same_but_chain_def p'_def ports2_def ports_def map_upd_next)
      ultimately show ?thesis using run by (intro exI [of _ p']) (simp add: p'_def T T_def S_def n_def)
    qed
  qed
qed

text \<open>
  A small pipeline for the witnesses: two input ports of which the first is enabled and receives
  two packets, a table in which only the packet at position 0 has an entry, one output port.
\<close>

definition demo_in :: "unit rte_port_in" where
  "demo_in = zero_port_in\<lparr>pi_ops := \<lparr>in_f_create = Some (\<lambda>arg socket e. (7, e)), in_f_free = Some (\<lambda>h e. (0, e)),
       in_f_rx = Some (\<lambda>h pkts n e. (if n < 2 then 0 else 2, pkts[0 := 11, 1 := 22], e)), in_f_stats = None\<rparr>,
     pi_burst_size := 32, pi_h_port := 7\<rparr>"

definition demo_out :: "unit rte_port_out" where
  "demo_out = zero_port_out\<lparr>po_ops := \<lparr>out_f_create = Some (\<lambda>arg socket e. (8, e)), out_f_free = Some (\<lambda>h e. (0, e)),
       out_f_tx = Some (\<lambda>h pkt e. e), out_f_tx_bulk = Some (\<lambda>h pkts m e. e), out_f_flush = None, out_f_stats = None\<rparr>,
     po_h_port := 8\<rparr>"

definition demo_lookup ::
  "u64 \<Rightarrow> pkt list \<Rightarrow> u64 \<Rightarrow> rte_pipeline_table_entry option list \<Rightarrow> unit \<Rightarrow> (u64 \<times> rte_pipeline_table_entry option list) \<times> unit" where
  "demo_lookup h pkts m entries e = ((m AND 1, if m AND 1 = 0 then entries
     else entries[0 := Some \<lparr>action = RTE_PIPELINE_ACTION_PORT, next_id = 0, action_data = []\<rparr>]), e)"

definition demo_table :: "unit rte_table" where
  "demo_table = zero_table\<lparr>t_ops := \<lparr>tbl_f_create = Some (\<lambda>arg socket size e. (9, e)), tbl_f_free = Some (\<lambda>h e. (0, e)),
       tbl_f_add = Some (\<lambda>h key entry e. ((0, 0, 1), e)), tbl_f_delete = None,
       tbl_f_add_bulk = Some (\<lambda>h ks xs n e. ((0, [0, 0], [16, 24]), e)), tbl_f_delete_bulk = None,
       tbl_f_lookup = Some demo_lookup, tbl_f_stats = None\<rparr>,
     t_entry_size := 8, t_h_table := 9, t_default_entry_ptr := 0x2000\<rparr>"

definition demo_pipe :: "unit rte_pipeline" where
  "demo_pipe = \<lparr>p_name = ''demo'', p_socket_id = 0, p_offset_port_id = 0,
     p_ports_in = demo_in # demo_in # replicate 62 zero_port_in, p_ports_out = demo_out # replicate 63 zero_port_out,
     p_tables = demo_table # replicate 63 zero_table, p_num_ports_in = 2, p_num_ports_out = 1, p_num_tables = 1,
     p_enabled_port_in_mask = 1, p_port_in_first = Some 0, p_pkts = replicate 64 0, p_entries = replicate 64 None,
     p_action_mask0 = (\<lambda>_. 0), p_action_mask1 = (\<lambda>_. 0)\<rparr>"

lemma enabled_demo [simp]: "enabled demo_pipe = {0}"
  by (auto simp: demo_pipe_def bits_def bit_1_iff)

lemma chain_ok_demo: "chain_ok demo_pipe"
  by (simp add: chain_ok_def first_in_def succ_in_def) (simp add: demo_pipe_def demo_in_def zero_port_in_def)

text \<open>
  C27. Enabling an input port links it into the chain and disabling one unlinks it: the set of
  enabled ports changes by exactly this port, the chain stays the sorted list of the enabled
  ports, nothing else changes, and no access leaves the array.
\<close>

theorem rte_pipeline_port_in_chain:
  assumes "chain_ok p" and "port_id < p_num_ports_in p"
  shows "(\<exists>p'. rte_pipeline_port_in_enable (Some p) port_id = Some (0, Some p') \<and> chain_ok p' \<and>
      enabled p' = insert (unat port_id) (enabled p) \<and> same_but_chain p p') \<and>
    (\<exists>p'. rte_pipeline_port_in_disable (Some p) port_id = Some (0, Some p') \<and> chain_ok p' \<and>
      enabled p' = enabled p - {unat port_id} \<and> same_but_chain p p')"
  using rte_pipeline_port_in_enable_ok [OF assms] rte_pipeline_port_in_disable_ok [OF assms] by blast

lemma rte_pipeline_port_in_chain_witness:
  "\<exists>p'. rte_pipeline_port_in_enable (Some demo_pipe) 1 = Some (0, Some p') \<and> chain_ok p' \<and> enabled p' = {1, 0}"
proof -
  have "(1 :: u32) < p_num_ports_in demo_pipe" by (simp add: demo_pipe_def)
  from rte_pipeline_port_in_chain [OF chain_ok_demo this] show ?thesis unfolding enabled_demo by (elim conjE exE) auto
qed

end
