(* ===== verification/Pipeline_Run.thy ===== *)
theory Pipeline_Run
  imports Pipeline_Ports "HOL-Library.Multiset"
begin

text \<open>
  What becomes of the packets: under the documented behaviour of the port and table operations
  and of the action handlers, a run of the pipeline ends, stays inside its arrays and sends or
  frees every packet it has received exactly once, unless a default entry discards what earlier
  steps have recorded, which the code does for some configurations.
\<close>

section \<open>Packets in the trace\<close>

fun ev_out :: "io_event \<Rightarrow> pkt multiset" where
  "ev_out (Ev_tx h pkt) = {#pkt#}"
| "ev_out (Ev_tx_bulk h pkts) = mset pkts"
| "ev_out (Ev_pkt_free pkt) = {#pkt#}"
| "ev_out _ = {#}"

fun ev_in :: "io_event \<Rightarrow> pkt multiset" where
  "ev_in (Ev_rx h pkts) = mset pkts"
| "ev_in _ = {#}"

fun ev_rx :: "io_event \<Rightarrow> u64 list" where
  "ev_rx (Ev_rx h pkts) = [h]"
| "ev_rx _ = []"

definition pkts_out :: "io_event list \<Rightarrow> pkt multiset" where "pkts_out evs = sum_list (map ev_out evs)"
definition pkts_in :: "io_event list \<Rightarrow> pkt multiset" where "pkts_in evs = sum_list (map ev_in evs)"
definition rx_ports :: "io_event list \<Rightarrow> u64 list" where "rx_ports evs = concat (map ev_rx evs)"

lemma pkts_append [simp]:
  "pkts_out (xs @ ys) = pkts_out xs + pkts_out ys" "pkts_in (xs @ ys) = pkts_in xs + pkts_in ys"
  "pkts_out [] = {#}" "pkts_in [] = {#}" "pkts_out [ev] = ev_out ev" "pkts_in [ev] = ev_in ev"
  "rx_ports (xs @ ys) = rx_ports xs @ rx_ports ys" "rx_ports [] = []" "rx_ports [ev] = ev_rx ev"
  by (simp_all add: pkts_out_def pkts_in_def rx_ports_def)

text \<open>Between two worlds exactly the packets at positions \<open>R\<close> have been sent or freed.\<close>

definition disposed :: "pkt list \<Rightarrow> nat set \<Rightarrow> 'e world \<Rightarrow> 'e world \<Rightarrow> bool" where
  "disposed pkts R w w' \<longleftrightarrow> finite R \<and> (\<exists>evs. trace w' = trace w @ evs \<and> pkts_in evs = {#} \<and> rx_ports evs = [] \<and>
     pkts_out evs = image_mset ((!) pkts) (mset_set R))"

lemma disposed_none [simp]: "trace w' = trace w \<Longrightarrow> disposed pkts {} w w'"
  by (simp add: disposed_def)

lemma disposed_one: "trace w' = trace w @ [ev] \<Longrightarrow> ev_in ev = {#} \<Longrightarrow> ev_rx ev = [] \<Longrightarrow> ev_out ev = {#pkts ! i#} \<Longrightarrow> disposed pkts {i} w w'"
  by (auto simp: disposed_def intro!: exI [of _ "[ev]"])

lemma disposed_trans:
  assumes "disposed pkts R w w'" and "disposed pkts R' w' w''" and "R \<inter> R' = {}"
  shows "disposed pkts (R \<union> R') w w''"
proof -
  obtain evs evs' where e: "trace w' = trace w @ evs" "pkts_in evs = {#}" "rx_ports evs = []" "pkts_out evs = image_mset ((!) pkts) (mset_set R)"
    "trace w'' = trace w' @ evs'" "pkts_in evs' = {#}" "rx_ports evs' = []" "pkts_out evs' = image_mset ((!) pkts) (mset_set R')"
    using assms(1,2) by (auto simp: disposed_def)
  have "mset_set (R \<union> R') = mset_set R + mset_set R'"
    using assms by (intro mset_set_Union) (auto simp: disposed_def)
  then show ?thesis using e assms by (auto simp: disposed_def intro!: exI [of _ "evs @ evs'"])
qed

lemma disposed_ext [simp]:
  "disposed pkts R (w\<lparr>ext := e\<rparr>) w' = disposed pkts R w w'" "disposed pkts R w (w'\<lparr>ext := e\<rparr>) = disposed pkts R w w'"
  by (simp_all add: disposed_def)

lemma mset_selected: "mset (selected pkts m) = image_mset ((!) pkts) (mset_set (bits m))"
proof -
  have "mset (sorted_list_of_set (bits m)) = mset_set (bits m)"
    by (metis mset_sorted_list_of_multiset sorted_list_of_mset_set)
  then show ?thesis by (simp add: selected_def filter_bit)
qed

lemma bits_xor: "bits (a XOR b) = (bits a - bits b) \<union> (bits b - bits a)"
  by (auto simp: bits_def bit_simps dest: bit_less_64)

lemma bits_shift_bit: "i < 64 \<Longrightarrow> bits (push_bit i (0 XOR 1)) = {i}" "bits (push_bit i (1 XOR 1)) = {}"
  using bits_single [of i] by simp_all

section \<open>Conforming operations\<close>

text \<open>
  The documented behaviour: action handlers only clear bits of the mask they get; a lookup
  reports hits among the packets it was asked about and fills in their entries, and may write
  anything into the others; entries name existing output ports, and an entry that sends packets to a table has registered the
  next table.
\<close>

definition port_out_ok :: "'e rte_port_out \<Rightarrow> bool" where
  "port_out_ok port \<longleftrightarrow> out_f_tx (po_ops port) \<noteq> None \<and> out_f_tx_bulk (po_ops port) \<noteq> None \<and>
     (\<forall>f pkt arg e. po_f_action port = Some f \<longrightarrow> fst (f pkt 1 arg e) \<in> {0, 1}) \<and>
     (\<forall>f pkts m arg e. po_f_action_bulk port = Some f \<longrightarrow> bits (fst (f pkts m arg e)) \<subseteq> bits m)"

definition valid_out :: "'e rte_pipeline \<Rightarrow> u32 \<Rightarrow> bool" where
  "valid_out p pid \<longleftrightarrow> unat pid < length (p_ports_out p) \<and> port_out_ok (p_ports_out p ! unat pid)"

definition entry_ok :: "'e rte_pipeline \<Rightarrow> 'e rte_table \<Rightarrow> rte_pipeline_table_entry \<Rightarrow> bool" where
  "entry_ok p table x \<longleftrightarrow> (action x = RTE_PIPELINE_ACTION_PORT \<longrightarrow> valid_out p (next_id x)) \<and>
     (action x = RTE_PIPELINE_ACTION_TABLE \<longrightarrow> t_table_next_id_valid table)"

definition lookup_ok ::
  "'e rte_pipeline \<Rightarrow> 'e rte_table \<Rightarrow> u64 \<Rightarrow> u64 \<Rightarrow> rte_pipeline_table_entry option list \<Rightarrow> bool" where
  "lookup_ok p table m hit ents' \<longleftrightarrow> bits hit \<subseteq> bits m \<and> length ents' = 64 \<and>
     (\<forall>i \<in> bits hit. \<exists>x. ents' ! i = Some x \<and> entry_ok p table x)"

definition table_ok :: "'e rte_pipeline \<Rightarrow> 'e rte_table \<Rightarrow> bool" where
  "table_ok p table \<longleftrightarrow> entry_ok p table (t_default_entry table) \<and>
     (\<exists>f. tbl_f_lookup (t_ops table) = Some f \<and>
       (\<forall>h pkts m ents e hit ents' e'. length ents = 64 \<longrightarrow> f h pkts m ents e = ((hit, ents'), e') \<longrightarrow> lookup_ok p table m hit ents')) \<and>
     (\<forall>f pkts m ents arg e. t_f_action_hit table = Some f \<longrightarrow> bits (fst (f pkts m ents arg e)) \<subseteq> bits m) \<and>
     (\<forall>f pkts m x arg e. t_f_action_miss table = Some f \<longrightarrow> bits (fst (f pkts m x arg e)) \<subseteq> bits m)"

text \<open>
  A table that comes after another one leaves the entries of packets it was not asked about
  alone. The documentation of the lookup does not promise that, but the run reads them after the
  last table, for the packets that earlier tables send to a port.
\<close>

definition lookup_keeps :: "'e rte_table \<Rightarrow> bool" where
  "lookup_keeps table \<longleftrightarrow> (\<forall>f h pkts m ents e hit ents' e'. tbl_f_lookup (t_ops table) = Some f \<longrightarrow> length ents = 64 \<longrightarrow>
     f h pkts m ents e = ((hit, ents'), e') \<longrightarrow> (\<forall>i < 64. i \<notin> bits m \<longrightarrow> ents' ! i = ents ! i))"

text \<open>What a run of a port does not change of the pipeline.\<close>

definition same_static :: "'e rte_pipeline \<Rightarrow> 'e rte_pipeline \<Rightarrow> bool" where
  "same_static p p' \<longleftrightarrow>
     p'\<lparr>p_pkts := [], p_entries := [], p_action_mask0 := (\<lambda>_. 0), p_action_mask1 := (\<lambda>_. 0)\<rparr> =
     p\<lparr>p_pkts := [], p_entries := [], p_action_mask0 := (\<lambda>_. 0), p_action_mask1 := (\<lambda>_. 0)\<rparr>"

lemma same_static_refl [simp]: "same_static p p"
  and same_static_trans: "same_static p p' \<Longrightarrow> same_static p' p'' \<Longrightarrow> same_static p p''"
  by (simp_all add: same_static_def)

lemma same_static_upd [simp]:
  "same_static p (p'\<lparr>p_pkts := a\<rparr>) = same_static p p'" "same_static p (p'\<lparr>p_entries := b\<rparr>) = same_static p p'"
  "same_static p (p'\<lparr>p_action_mask0 := c\<rparr>) = same_static p p'" "same_static p (p'\<lparr>p_action_mask1 := d\<rparr>) = same_static p p'"
  "same_static p (add_mask0 act m p') = same_static p p'"
  by (simp_all add: same_static_def add_mask0_def)

lemma same_staticD:
  assumes "same_static p p'"
  shows "p_ports_out p' = p_ports_out p" "p_tables p' = p_tables p" "p_ports_in p' = p_ports_in p"
    "p_offset_port_id p' = p_offset_port_id p" "p_port_in_first p' = p_port_in_first p"
proof -
  let ?c = "\<lambda>p. p\<lparr>p_pkts := [], p_entries := [], p_action_mask0 := (\<lambda>_. 0), p_action_mask1 := (\<lambda>_. 0)\<rparr>"
  have eq: "?c p' = ?c p" using assms by (simp add: same_static_def)
  show "p_ports_out p' = p_ports_out p" using arg_cong [OF eq, of p_ports_out] by simp
  show "p_tables p' = p_tables p" using arg_cong [OF eq, of p_tables] by simp
  show "p_ports_in p' = p_ports_in p" using arg_cong [OF eq, of p_ports_in] by simp
  show "p_offset_port_id p' = p_offset_port_id p" using arg_cong [OF eq, of p_offset_port_id] by simp
  show "p_port_in_first p' = p_port_in_first p" using arg_cong [OF eq, of p_port_in_first] by simp
qed

lemma same_static_ok:
  assumes "same_static p p'"
  shows "valid_out p' pid = valid_out p pid" "entry_ok p' table x = entry_ok p table x"
    "lookup_ok p' table m hit ents' = lookup_ok p table m hit ents'" "table_ok p' table = table_ok p table"
proof -
  show v: "valid_out p' pid = valid_out p pid" for pid by (simp add: valid_out_def same_staticD [OF assms])
  show en: "entry_ok p' table x = entry_ok p table x" for table x by (simp add: entry_ok_def v)
  show lk: "lookup_ok p' table m hit ents' = lookup_ok p table m hit ents'" for m hit ents'
    by (simp add: lookup_ok_def en)
  show "table_ok p' table = table_ok p table" unfolding table_ok_def en lk ..
qed

section \<open>Sending\<close>

abbreviation mask_bits :: "'e rte_pipeline \<Rightarrow> rte_pipeline_action \<Rightarrow> nat set" where
  "mask_bits p a \<equiv> bits (p_action_mask0 p a)"

abbreviation "DROP \<equiv> RTE_PIPELINE_ACTION_DROP"
abbreviation "PORT \<equiv> RTE_PIPELINE_ACTION_PORT"
abbreviation "META \<equiv> RTE_PIPELINE_ACTION_PORT_META"
abbreviation "TABLE \<equiv> RTE_PIPELINE_ACTION_TABLE"

text \<open>A step that sends the packets \<open>R\<close> and adds the packets \<open>X\<close> to the drop mask.\<close>

definition sends :: "nat set \<Rightarrow> nat set \<Rightarrow> 'e rte_pipeline \<Rightarrow> 'e world \<Rightarrow> 'e rte_pipeline \<Rightarrow> 'e world \<Rightarrow> bool" where
  "sends R X p w p' w' \<longleftrightarrow> same_static p p' \<and> p_entries p' = p_entries p \<and> p_pkts p' = p_pkts p \<and>
     (\<forall>a. a \<noteq> DROP \<longrightarrow> p_action_mask0 p' a = p_action_mask0 p a) \<and>
     mask_bits p' DROP = mask_bits p DROP \<union> X \<and> disposed (p_pkts p) R w w'"

lemma sends_refl: "sends {} {} p w p w" "sends {} {} p w p (w\<lparr>ext := e\<rparr>)"
  by (simp_all add: sends_def)

lemma sends_trans:
  assumes "sends R X p w p' w'" and "sends R' X' p' w' p'' w''" and "R \<inter> R' = {}"
  shows "sends (R \<union> R') (X \<union> X') p w p'' w''"
  using assms disposed_trans [of "p_pkts p" R w w' R' w'']
  by (auto simp: sends_def intro: same_static_trans)

lemma sends_drop: "sends {} (bits m) p w (add_mask0 DROP m p) (w\<lparr>ext := e\<rparr>)"
  by (simp add: sends_def add_mask0_def bits_or)

lemma call_tx_bulk_ok:
  assumes "port_out_ok port"
  shows "\<exists>w'. call_tx_bulk port pkts m w = Some w' \<and> disposed pkts (bits m) w w'"
proof -
  obtain f where f: "out_f_tx_bulk (po_ops port) = Some f" using assms by (auto simp: port_out_ok_def)
  then show ?thesis
    by (auto simp: call_tx_bulk_def disposed_def emit_def mset_selected
        intro!: exI [of _ "[Ev_tx_bulk (po_h_port port) (selected pkts m)]"])
qed

lemma call_tx_ok:
  assumes "port_out_ok port"
  shows "\<exists>w'. call_tx port (pkts ! i) w = Some w' \<and> disposed pkts {i} w w'"
proof -
  obtain f where f: "out_f_tx (po_ops port) = Some f" using assms by (auto simp: port_out_ok_def)
  then show ?thesis
    by (auto simp: call_tx_def emit_def intro!: disposed_one [where ev = "Ev_tx (po_h_port port) (pkts ! i)"])
qed

lemma port_bulk_ok:
  assumes v: "valid_out p pid"
  shows "\<exists>p' w' R. rte_pipeline_action_handler_port_bulk m pid p w = Some (p', w') \<and> R \<subseteq> bits m \<and> sends R (bits m - R) p w p' w'"
proof -
  define port where "port = p_ports_out p ! unat pid"
  have rd: "read_at (p_ports_out p) (unat pid) = Some port" and ok: "port_out_ok port"
    using v by (simp_all add: valid_out_def port_def)
  define m' where "m' = (case po_f_action_bulk port of None \<Rightarrow> m | Some f \<Rightarrow> fst (f (p_pkts p) m (po_arg_ah port) (ext w)))"
  define p1 where "p1 = (case po_f_action_bulk port of None \<Rightarrow> p | Some f \<Rightarrow> add_mask0 DROP (m' XOR m) p)"
  define w1 where "w1 = (case po_f_action_bulk port of None \<Rightarrow> w | Some f \<Rightarrow> w\<lparr>ext := snd (f (p_pkts p) m (po_arg_ah port) (ext w))\<rparr>)"
  have run: "rte_pipeline_action_handler_port_bulk m pid p w =
      (if m' \<noteq> 0 then do { w \<leftarrow> call_tx_bulk port (p_pkts p1) m' w1; Some (p1, w) } else Some (p1, w1))"
    by (cases "po_f_action_bulk port")
      (auto simp: rte_pipeline_action_handler_port_bulk_def rd m'_def p1_def w1_def split: prod.splits)
  have sub: "bits m' \<subseteq> bits m" using ok by (cases "po_f_action_bulk port") (auto simp: m'_def port_out_ok_def)
  have s1: "sends {} (bits m - bits m') p w p1 w1"
  proof (cases "po_f_action_bulk port")
    case None
    then show ?thesis by (simp add: p1_def w1_def m'_def sends_refl)
  next
    case (Some f)
    have "bits (m' XOR m) = bits m - bits m'" using sub by (auto simp: bits_xor)
    then show ?thesis using sends_drop [of "m' XOR m" p w] by (simp add: p1_def w1_def Some)
  qed
  show ?thesis
  proof (cases "m' = 0")
    case True
    then show ?thesis using run s1 by (intro exI [of _ p1] exI [of _ w1] exI [of _ "{}"]) simp
  next
    case False
    obtain w2 where w2: "call_tx_bulk port (p_pkts p1) m' w1 = Some w2" "disposed (p_pkts p1) (bits m') w1 w2"
      using call_tx_bulk_ok [OF ok] by blast
    have "sends (bits m') {} p1 w1 p1 w2" using w2(2) by (simp add: sends_def)
    from sends_trans [OF s1 this] show ?thesis using run False w2(1) sub
      by (intro exI [of _ p1] exI [of _ w2] exI [of _ "bits m'"]) simp
  qed
qed

lemma send_packet_ok:
  assumes i: "i < 64" "length (p_pkts p) = 64" and v: "valid_out p pid"
  shows "\<exists>p' w' R. send_packet i pid p w = Some (p', w') \<and> R \<subseteq> {i} \<and> sends R ({i} - R) p w p' w'"
proof -
  define port where "port = p_ports_out p ! unat pid"
  have rd: "read_at (p_ports_out p) (unat pid) = Some port" and ok: "port_out_ok port"
    using v by (simp_all add: valid_out_def port_def)
  have tx: "\<exists>w'. call_tx port (p_pkts p ! i) w = Some w' \<and> disposed (p_pkts p) {i} w w'" for w
    by (rule call_tx_ok [OF ok])
  show ?thesis
  proof (cases "po_f_action port")
    case None
    obtain w' where w': "call_tx port (p_pkts p ! i) w = Some w'" "disposed (p_pkts p) {i} w w'" using tx by blast
    then have "send_packet i pid p w = Some (p, w')" using i rd None by (simp add: send_packet_def)
    moreover have "sends {i} {} p w p w'" using w'(2) by (simp add: sends_def)
    ultimately show ?thesis by (intro exI [of _ p] exI [of _ w'] exI [of _ "{i}"]) simp
  next
    case (Some f)
    obtain m e where f: "f (p_pkts p ! i) 1 (po_arg_ah port) (ext w) = (m, e)" by fastforce
    have m: "m = 0 \<or> m = 1" using ok Some f unfolding port_out_ok_def by (metis empty_iff fst_conv insert_iff)
    define p1 where "p1 = add_mask0 DROP (push_bit i (m XOR 1)) p"
    have s1: "sends {} (bits (push_bit i (m XOR 1))) p w p1 (w\<lparr>ext := e\<rparr>)" unfolding p1_def by (rule sends_drop)
    have run: "send_packet i pid p w = (if m \<noteq> 0 then do { w \<leftarrow> call_tx port (p_pkts p ! i) (w\<lparr>ext := e\<rparr>); Some (p1, w) }
        else Some (p1, w\<lparr>ext := e\<rparr>))"
      using i rd Some f by (simp add: send_packet_def p1_def)
    show ?thesis
    proof (cases "m = 0")
      case True
      then have "sends {} {i} p w p1 (w\<lparr>ext := e\<rparr>)" using s1 bits_shift_bit(1) [OF i(1)] by simp
      then show ?thesis using run True by (intro exI [of _ p1] exI [of _ "w\<lparr>ext := e\<rparr>"] exI [of _ "{}"]) simp
    next
      case False
      then have s1': "sends {} {} p w p1 (w\<lparr>ext := e\<rparr>)" using s1 m by simp
      obtain w' where w': "call_tx port (p_pkts p ! i) (w\<lparr>ext := e\<rparr>) = Some w'" "disposed (p_pkts p) {i} (w\<lparr>ext := e\<rparr>) w'"
        using tx by blast
      have "sends {i} {} p1 (w\<lparr>ext := e\<rparr>) p1 w'" using w'(2) s1' by (simp add: sends_def)
      from sends_trans [OF s1' this] show ?thesis using run False w'(1)
        by (intro exI [of _ p1] exI [of _ w'] exI [of _ "{i}"]) simp
    qed
  qed
qed

lemma send_port_ok:
  assumes "distinct xs" and "\<forall>i \<in> set xs. i < 64 \<and> (\<exists>x. p_entries p ! i = Some x \<and> valid_out p (next_id x))"
    and "length (p_pkts p) = 64" and "length (p_entries p) = 64"
  shows "\<exists>p' w' R. send_port xs p w = Some (p', w') \<and> R \<subseteq> set xs \<and> sends R (set xs - R) p w p' w'"
  using assms
proof (induction xs arbitrary: p w)
  case Nil
  then show ?case by (auto simp: sends_refl)
next
  case (Cons i xs)
  obtain x where x: "p_entries p ! i = Some x" "valid_out p (next_id x)" and i: "i < 64" using Cons.prems(2) by auto
  obtain p1 w1 R1 where s1: "send_packet i (next_id x) p w = Some (p1, w1)" "R1 \<subseteq> {i}" "sends R1 ({i} - R1) p w p1 w1"
    using send_packet_ok [OF i Cons.prems(3) x(2)] by blast
  have st: "same_static p p1" "p_entries p1 = p_entries p" "p_pkts p1 = p_pkts p" using s1(3) by (simp_all add: sends_def)
  have "\<forall>i \<in> set xs. i < 64 \<and> (\<exists>x. p_entries p1 ! i = Some x \<and> valid_out p1 (next_id x))"
    using Cons.prems(2) by (simp add: st(2) same_static_ok(1) [OF st(1)])
  with Cons.IH [of p1 w1] Cons.prems(1,3,4) obtain p2 w2 R2 where
    s2: "send_port xs p1 w1 = Some (p2, w2)" "R2 \<subseteq> set xs" "sends R2 (set xs - R2) p1 w1 p2 w2" by (auto simp: st)
  have "R1 \<inter> R2 = {}" "({i} - R1) \<union> (set xs - R2) = set (i # xs) - (R1 \<union> R2)" using s1(2) s2(2) Cons.prems(1) by auto
  then have "sends (R1 \<union> R2) (set (i # xs) - (R1 \<union> R2)) p w p2 w2" using sends_trans [OF s1(3) s2(3)] by simp
  moreover have "send_port (i # xs) p w = Some (p2, w2)" using x(1) i Cons.prems(4) s1(1) s2(1) by simp
  ultimately show ?case using s1(2) s2(2) by (intro exI [of _ p2] exI [of _ w2] exI [of _ "R1 \<union> R2"]) auto
qed

definition meta_ok :: "'e pipe_env \<Rightarrow> 'e rte_pipeline \<Rightarrow> bool" where
  "meta_ok env p \<longleftrightarrow> (\<forall>e pkt. valid_out p (env_mbuf_metadata env e pkt (p_offset_port_id p)))"

lemma send_port_meta_ok:
  assumes "distinct xs" and "\<forall>i \<in> set xs. i < 64" and "meta_ok env p" and "length (p_pkts p) = 64"
  shows "\<exists>p' w' R. send_port_meta env xs p w = Some (p', w') \<and> R \<subseteq> set xs \<and> sends R (set xs - R) p w p' w'"
  using assms
proof (induction xs arbitrary: p w)
  case Nil
  then show ?case by (auto simp: sends_refl)
next
  case (Cons i xs)
  have i: "i < 64" using Cons.prems(2) by simp
  define pid where "pid = env_mbuf_metadata env (ext w) (p_pkts p ! i) (p_offset_port_id p)"
  have v: "valid_out p pid" using Cons.prems(3) by (simp add: meta_ok_def pid_def)
  obtain p1 w1 R1 where s1: "send_packet i pid p w = Some (p1, w1)" "R1 \<subseteq> {i}" "sends R1 ({i} - R1) p w p1 w1"
    using send_packet_ok [OF i Cons.prems(4) v] by blast
  have st: "same_static p p1" "p_pkts p1 = p_pkts p" using s1(3) by (simp_all add: sends_def)
  have "meta_ok env p1" using Cons.prems(3) by (simp add: meta_ok_def same_staticD [OF st(1)] same_static_ok [OF st(1)])
  with Cons.IH [of p1 w1] Cons.prems(1,2,4) obtain p2 w2 R2 where
    s2: "send_port_meta env xs p1 w1 = Some (p2, w2)" "R2 \<subseteq> set xs" "sends R2 (set xs - R2) p1 w1 p2 w2" by (auto simp: st)
  have "R1 \<inter> R2 = {}" "({i} - R1) \<union> (set xs - R2) = set (i # xs) - (R1 \<union> R2)" using s1(2) s2(2) Cons.prems(1) by auto
  then have "sends (R1 \<union> R2) (set (i # xs) - (R1 \<union> R2)) p w p2 w2" using sends_trans [OF s1(3) s2(3)] by simp
  moreover have "send_port_meta env (i # xs) p w = Some (p2, w2)" using i Cons.prems(4) s1(1) s2(1) by (simp add: pid_def)
  ultimately show ?case using s1(2) s2(2) by (intro exI [of _ p2] exI [of _ w2] exI [of _ "R1 \<union> R2"]) auto
qed

lemma drop_packets_ok:
  assumes "distinct xs" and "\<forall>i \<in> set xs. i < length pkts"
  shows "\<exists>w'. drop_packets env pkts xs w = Some w' \<and> disposed pkts (set xs) w w'"
  using assms
proof (induction xs arbitrary: w)
  case Nil
  then show ?case by simp
next
  case (Cons i xs)
  define w1 where "w1 = call_pktmbuf_free env (pkts ! i) w"
  have d1: "disposed pkts {i} w w1"
    by (rule disposed_one [where ev = "Ev_pkt_free (pkts ! i)"]) (simp_all add: w1_def call_pktmbuf_free_def emit_def)
  obtain w' where w': "drop_packets env pkts xs w1 = Some w'" "disposed pkts (set xs) w1 w'" using Cons by auto
  have "disposed pkts ({i} \<union> set xs) w w'" using disposed_trans [OF d1 w'(2)] Cons.prems(1) by simp
  then show ?case using w'(1) Cons.prems(2) by (auto simp: w1_def)
qed

section \<open>One table\<close>

text \<open>
  Every packet of the burst \<open>A\<close> is in exactly one place: to be dropped, to be sent to the port of
  its entry or of its meta-data, still in the tables (\<open>Q\<close>), or gone (\<open>S\<close>).
\<close>

definition parts :: "nat set \<Rightarrow> nat set \<Rightarrow> nat set \<Rightarrow> nat set \<Rightarrow> nat set \<Rightarrow> nat set \<Rightarrow> bool" where
  "parts A D P M Q S \<longleftrightarrow> D \<union> P \<union> M \<union> Q \<union> S = A \<and> D \<inter> (P \<union> M \<union> Q \<union> S) = {} \<and> P \<inter> (M \<union> Q \<union> S) = {} \<and>
     M \<inter> (Q \<union> S) = {} \<and> Q \<inter> S = {}"

definition acct :: "nat set \<Rightarrow> nat set \<Rightarrow> nat set \<Rightarrow> 'e world \<Rightarrow> 'e rte_pipeline \<Rightarrow> 'e world \<Rightarrow> bool" where
  "acct A Q S w0 p w \<longleftrightarrow> disposed (p_pkts p) S w0 w \<and> length (p_entries p) = 64 \<and> length (p_pkts p) = 64 \<and>
     parts A (mask_bits p DROP) (mask_bits p PORT) (mask_bits p META) Q S \<and>
     (\<forall>i \<in> mask_bits p PORT. \<exists>x. p_entries p ! i = Some x \<and> valid_out p (next_id x))"

lemma parts_move_drop: "parts A D P M Q S \<Longrightarrow> X \<subseteq> Q \<Longrightarrow> parts A (D \<union> X) P M (Q - X) S"
  and parts_move_sent: "parts A D P M Q S \<Longrightarrow> X \<subseteq> Q \<Longrightarrow> parts A D P M (Q - X) (S \<union> X)"
  and parts_move_port: "parts A D P M Q S \<Longrightarrow> X \<subseteq> Q \<Longrightarrow> parts A D (P \<union> X) M (Q - X) S"
  and parts_move_meta: "parts A D P M Q S \<Longrightarrow> X \<subseteq> Q \<Longrightarrow> parts A D P (M \<union> X) (Q - X) S"
  unfolding parts_def by blast+

text \<open>
  When the miss branch of the code keeps what has been recorded: it assigns, and does not add,
  to the mask of the default entry's action.
\<close>

definition miss_keeps :: "'e rte_table \<Rightarrow> nat set \<Rightarrow> nat set \<Rightarrow> nat set \<Rightarrow> bool" where
  "miss_keeps table D P M \<longleftrightarrow> (case action (t_default_entry table) of
       RTE_PIPELINE_ACTION_TABLE \<Rightarrow> True
     | RTE_PIPELINE_ACTION_PORT \<Rightarrow> t_f_action_miss table = None \<or> P = {}
     | RTE_PIPELINE_ACTION_PORT_META \<Rightarrow> M = {}
     | RTE_PIPELINE_ACTION_DROP \<Rightarrow> t_f_action_miss table = None \<and> D = {})"

lemma sends_acct:
  assumes "acct A Q S w0 p w" and "sends R (X - R) p w p' w'" and "R \<subseteq> X" and "X \<subseteq> Q"
  shows "acct A (Q - X) (S \<union> R) w0 p' w'"
proof -
  have s: "same_static p p'" "p_entries p' = p_entries p" "p_pkts p' = p_pkts p"
    "\<And>a. a \<noteq> DROP \<Longrightarrow> p_action_mask0 p' a = p_action_mask0 p a"
    "mask_bits p' DROP = mask_bits p DROP \<union> (X - R)" "disposed (p_pkts p) R w w'"
    using assms(2) by (auto simp: sends_def)
  have a: "disposed (p_pkts p) S w0 w" "parts A (mask_bits p DROP) (mask_bits p PORT) (mask_bits p META) Q S"
    using assms(1) by (auto simp: acct_def)
  have "S \<inter> R = {}" using a(2) assms(3,4) by (auto simp: parts_def)
  with disposed_trans [OF a(1) s(6)] have "disposed (p_pkts p) (S \<union> R) w0 w'" by simp
  moreover have "parts A (mask_bits p DROP \<union> (X - R)) (mask_bits p PORT) (mask_bits p META) (Q - X) (S \<union> R)"
    using a(2) assms(3,4) unfolding parts_def by blast
  ultimately show ?thesis using assms(1) by (simp add: acct_def s(2-5) same_static_ok(1) [OF s(1)])
qed

text \<open>The packets of an action mask leave \<open>Q\<close> for the place of the action; those for a table stay.\<close>

definition place :: "rte_pipeline_action \<Rightarrow> nat set \<Rightarrow> rte_pipeline_action \<Rightarrow> nat set" where
  "place a X b = (if b = a then X else {})"

lemma lookup_miss_ok:
  assumes tab: "table_ok p table" and ac: "acct A Q S w0 p w" and m: "bits m \<subseteq> Q" and T: "mask_bits p TABLE = {}"
    and keep: "m \<noteq> 0 \<longrightarrow> miss_keeps table (mask_bits p DROP) (mask_bits p PORT) (mask_bits p META)"
  shows "\<exists>p' w' S'. lookup_miss table m p w = Some (p', w') \<and> same_static p p' \<and> p_pkts p' = p_pkts p \<and>
    p_entries p' = p_entries p \<and> acct A (Q - bits m \<union> mask_bits p' TABLE) S' w0 p' w' \<and> mask_bits p' TABLE \<subseteq> bits m \<and>
    (mask_bits p' TABLE \<noteq> {} \<longrightarrow> t_table_next_id_valid table)"
proof (cases "m = 0")
  case True
  then show ?thesis using ac T by (intro exI [of _ p] exI [of _ w] exI [of _ S]) (simp add: lookup_miss_def)
next
  case False
  define x where "x = t_default_entry table"
  have ex: "entry_ok p table x" using tab by (simp add: table_ok_def x_def)
  define m' where "m' = (case t_f_action_miss table of None \<Rightarrow> m | Some f \<Rightarrow> fst (f (p_pkts p) m x (t_arg_ah table) (ext w)))"
  define p1 where "p1 = (case t_f_action_miss table of None \<Rightarrow> p | Some f \<Rightarrow> add_mask0 DROP (m XOR m') p)"
  define w1 where "w1 = (case t_f_action_miss table of None \<Rightarrow> w | Some f \<Rightarrow> w\<lparr>ext := snd (f (p_pkts p) m x (t_arg_ah table) (ext w))\<rparr>)"
  have run: "lookup_miss table m p w =
      (if action x = PORT \<and> m' \<noteq> 0 then rte_pipeline_action_handler_port_bulk m' (next_id x) p1 w1
       else Some (p1\<lparr>p_action_mask0 := (p_action_mask0 p1)(action x := m')\<rparr>, w1))"
    using False by (cases "t_f_action_miss table") (auto simp: lookup_miss_def Let_def m'_def p1_def w1_def x_def split: prod.splits)
  have sub: "bits m' \<subseteq> bits m" using tab by (cases "t_f_action_miss table") (auto simp: m'_def table_ok_def)
  have s1: "sends {} (bits m - bits m') p w p1 w1"
  proof (cases "t_f_action_miss table")
    case None
    then show ?thesis by (simp add: p1_def w1_def m'_def sends_refl)
  next
    case (Some f)
    have "bits (m XOR m') = bits m - bits m'" using sub by (auto simp: bits_xor)
    then show ?thesis using sends_drop [of "m XOR m'" p w] by (simp add: p1_def w1_def Some)
  qed
  have ac1: "acct A (Q - (bits m - bits m')) S w0 p1 w1" using sends_acct [OF ac, of "{}" "bits m - bits m'"] s1 m by auto
  have st1: "same_static p p1" "p_entries p1 = p_entries p" "p_pkts p1 = p_pkts p"
    "\<And>a. a \<noteq> DROP \<Longrightarrow> mask_bits p1 a = mask_bits p a" using s1 by (simp_all add: sends_def)
  have kp: "miss_keeps table (mask_bits p DROP) (mask_bits p PORT) (mask_bits p META)" using keep False by blast
  have p1p: "t_f_action_miss table = None \<Longrightarrow> p1 = p" by (simp add: p1_def)
  have QQ: "Q - (bits m - bits m') - bits m' = Q - bits m" using sub m by blast
  show ?thesis
  proof (cases "action x = PORT \<and> m' \<noteq> 0")
    case True
    then have v: "valid_out p1 (next_id x)" using ex by (simp add: entry_ok_def same_static_ok(1) [OF st1(1)])
    obtain p2 w2 R where s2: "rte_pipeline_action_handler_port_bulk m' (next_id x) p1 w1 = Some (p2, w2)"
      "R \<subseteq> bits m'" "sends R (bits m' - R) p1 w1 p2 w2" using port_bulk_ok [OF v] by blast
    have "acct A (Q - (bits m - bits m') - bits m') (S \<union> R) w0 p2 w2"
      by (rule sends_acct [OF ac1 s2(3,2)]) (use sub m in blast)
    moreover have "mask_bits p2 TABLE = {}" using s2(3) st1(4) [of TABLE] T by (simp add: sends_def)
    moreover have "same_static p p2 \<and> p_pkts p2 = p_pkts p \<and> p_entries p2 = p_entries p"
      using s2(3) st1 by (auto simp: sends_def intro: same_static_trans)
    ultimately show ?thesis using run True s2(1)
      by (intro exI [of _ p2] exI [of _ w2] exI [of _ "S \<union> R"]) (simp add: QQ)
  next
    case False
    define p2 where "p2 = p1\<lparr>p_action_mask0 := (p_action_mask0 p1)(action x := m')\<rparr>"
    have mb: "mask_bits p2 a = (if a = action x then bits m' else mask_bits p1 a)" for a by (simp add: p2_def)
    have d: "disposed (p_pkts p1) S w0 w1" "length (p_entries p1) = 64" "length (p_pkts p1) = 64"
      and pt: "parts A (mask_bits p1 DROP) (mask_bits p1 PORT) (mask_bits p1 META) (Q - (bits m - bits m')) S"
      and en: "\<forall>i \<in> mask_bits p1 PORT. \<exists>x. p_entries p1 ! i = Some x \<and> valid_out p1 (next_id x)"
      using ac1 by (auto simp: acct_def)
    have mQ: "bits m' \<subseteq> Q - (bits m - bits m')" using sub m by blast
    have pp: "p_pkts p2 = p_pkts p1" "p_entries p2 = p_entries p1" "same_static p1 p2" by (simp_all add: p2_def)
    have vo: "valid_out p2 = valid_out p1" using same_static_ok(1) [OF pp(3)] by (simp add: fun_eq_iff)
    have res: "same_static p p2 \<and> p_pkts p2 = p_pkts p \<and> p_entries p2 = p_entries p"
      using st1 by (simp add: p2_def)
    have "acct A (Q - bits m \<union> mask_bits p2 TABLE) S w0 p2 w1 \<and> mask_bits p2 TABLE \<subseteq> bits m \<and>
        (mask_bits p2 TABLE \<noteq> {} \<longrightarrow> t_table_next_id_valid table)"
    proof (cases "action x")
      case RTE_PIPELINE_ACTION_DROP
      then have "p1 = p" "m' = m" "mask_bits p DROP = {}" using kp p1p by (simp_all add: miss_keeps_def x_def m'_def)
      moreover have "parts A (bits m) (mask_bits p PORT) (mask_bits p META) (Q - bits m) S"
        using parts_move_drop [OF pt mQ] calculation QQ by simp
      ultimately show ?thesis using d en pp T RTE_PIPELINE_ACTION_DROP
        by (simp add: acct_def mb vo)
    next
      case RTE_PIPELINE_ACTION_PORT
      then have "m' = 0" using False by simp
      then have "t_f_action_miss table \<noteq> None" using \<open>m \<noteq> 0\<close> by (cases "t_f_action_miss table") (auto simp: m'_def)
      then have "mask_bits p PORT = {}" using kp RTE_PIPELINE_ACTION_PORT by (auto simp: miss_keeps_def x_def)
      then show ?thesis using d en pp pt T \<open>m' = 0\<close> RTE_PIPELINE_ACTION_PORT st1(4)
        by (simp add: acct_def mb vo)
    next
      case RTE_PIPELINE_ACTION_PORT_META
      then have "mask_bits p META = {}" using kp by (simp add: miss_keeps_def x_def)
      moreover have "parts A (mask_bits p1 DROP) (mask_bits p PORT) (bits m') (Q - bits m) S"
        using parts_move_meta [OF pt mQ] calculation QQ st1(4) by simp
      ultimately show ?thesis using d en pp T RTE_PIPELINE_ACTION_PORT_META st1(4)
        by (simp add: acct_def mb vo)
    next
      case RTE_PIPELINE_ACTION_TABLE
      have "Q - (bits m - bits m') = Q - bits m \<union> bits m'" using sub m by blast
      then show ?thesis using d en pp pt T RTE_PIPELINE_ACTION_TABLE ex sub
        by (simp add: acct_def mb vo entry_ok_def)
    qed
    then show ?thesis using run False res p2_def by (intro exI [of _ p2] exI [of _ w1] exI [of _ S]) auto
  qed
qed

lemma mark_actions_ok:
  assumes "\<forall>i \<in> set xs. i < 64 \<and> (\<exists>x. ents ! i = Some x)" and "length ents = 64"
  shows "\<exists>masks. mark_actions ents xs init = Some masks \<and>
    (\<forall>a. bits (masks a) = bits (init a) \<union> {i \<in> set xs. action (the (ents ! i)) = a})"
  using assms
proof (induction xs arbitrary: init)
  case Nil
  then show ?case by simp
next
  case (Cons i xs)
  obtain x where x: "ents ! i = Some x" "i < 64" using Cons.prems(1) by auto
  define init1 where "init1 = init(action x := init (action x) OR push_bit i 1)"
  obtain masks where masks: "mark_actions ents xs init1 = Some masks"
    "\<forall>a. bits (masks a) = bits (init1 a) \<union> {i \<in> set xs. action (the (ents ! i)) = a}"
    using Cons.IH [of init1] Cons.prems by auto
  have "bits (init1 a) = bits (init a) \<union> (if a = action x then {i} else {})" for a
    unfolding init1_def by (simp only: fun_upd_apply bits_or bits_single [OF x(2)] if_distrib [of bits] cong: if_cong) auto
  then have "\<forall>a. bits (masks a) = bits (init a) \<union> {j \<in> set (i # xs). action (the (ents ! j)) = a}"
    using masks(2) x(1) by auto
  moreover have "mark_actions ents (i # xs) init = mark_actions ents xs init1"
    using x Cons.prems(2) by (simp add: init1_def)
  ultimately show ?case using masks(1) by auto
qed

lemma lookup_hit_ok:
  assumes tab: "table_ok p table" and ac: "acct A (bits m \<union> mask_bits p TABLE) S w0 p w" and T: "bits m \<inter> mask_bits p TABLE = {}"
    and tv: "mask_bits p TABLE \<noteq> {} \<longrightarrow> t_table_next_id_valid table"
    and en: "\<forall>i \<in> bits m. \<exists>x. p_entries p ! i = Some x \<and> entry_ok p table x"
  shows "\<exists>p' w'. lookup_hit table m p w = Some (p', w') \<and> same_static p p' \<and> p_pkts p' = p_pkts p \<and>
    p_entries p' = p_entries p \<and> acct A (mask_bits p' TABLE) S w0 p' w' \<and>
    (mask_bits p' TABLE \<noteq> {} \<longrightarrow> t_table_next_id_valid table)"
proof (cases "m = 0")
  case True
  then show ?thesis using ac tv by (intro exI [of _ p] exI [of _ w]) (simp add: lookup_hit_def)
next
  case False
  define m' where "m' = (case t_f_action_hit table of None \<Rightarrow> m | Some f \<Rightarrow> fst (f (p_pkts p) m (p_entries p) (t_arg_ah table) (ext w)))"
  define p1 where "p1 = (case t_f_action_hit table of None \<Rightarrow> p | Some f \<Rightarrow> add_mask0 DROP (m XOR m') p)"
  define w1 where "w1 = (case t_f_action_hit table of None \<Rightarrow> w
    | Some f \<Rightarrow> w\<lparr>ext := snd (f (p_pkts p) m (p_entries p) (t_arg_ah table) (ext w))\<rparr>)"
  have run: "lookup_hit table m p w = do {
       p \<leftarrow> rte_pipeline_compute_masks p1 m';
       Some (p\<lparr>p_action_mask0 := (\<lambda>a. p_action_mask0 p a OR p_action_mask1 p a)\<rparr>, w1) }"
    using False by (cases "t_f_action_hit table") (auto simp: lookup_hit_def Let_def m'_def p1_def w1_def split: prod.splits)
  have sub: "bits m' \<subseteq> bits m" using tab by (cases "t_f_action_hit table") (auto simp: m'_def table_ok_def)
  have s1: "sends {} (bits m - bits m') p w p1 w1"
  proof (cases "t_f_action_hit table")
    case None
    then show ?thesis by (simp add: p1_def w1_def m'_def sends_refl)
  next
    case (Some f)
    have "bits (m XOR m') = bits m - bits m'" using sub by (auto simp: bits_xor)
    then show ?thesis using sends_drop [of "m XOR m'" p w] by (simp add: p1_def w1_def Some)
  qed
  have ac1: "acct A ((bits m \<union> mask_bits p TABLE) - (bits m - bits m')) S w0 p1 w1"
    using sends_acct [OF ac, of "{}" "bits m - bits m'"] s1 by auto
  moreover have QQ: "(bits m \<union> mask_bits p TABLE) - (bits m - bits m') = bits m' \<union> mask_bits p TABLE" using sub T by blast
  ultimately have ac1: "acct A (bits m' \<union> mask_bits p TABLE) S w0 p1 w1" by simp
  have st1: "same_static p p1" "p_entries p1 = p_entries p" "p_pkts p1 = p_pkts p"
    "\<And>a. a \<noteq> DROP \<Longrightarrow> mask_bits p1 a = mask_bits p a" using s1 by (simp_all add: sends_def)
  define act where "act i = action (the (p_entries p ! i))" for i
  have xs: "set (pkt_positions m') = bits m'" by (simp add: pkt_positions_bits)
  have len: "length (p_entries p) = 64" using ac by (simp add: acct_def)
  have "\<forall>i \<in> bits m'. i < 64 \<and> (\<exists>x. p_entries p ! i = Some x)" using en sub bits_less by blast
  then obtain masks where masks: "mark_actions (p_entries p1) (pkt_positions m') (\<lambda>_. 0) = Some masks"
    "\<And>a. bits (masks a) = {i \<in> bits m'. act i = a}"
    using mark_actions_ok [of "pkt_positions m'" "p_entries p" "\<lambda>_. 0"] len by (auto simp: xs st1(2) act_def)
  define p2 where "p2 = p1\<lparr>p_action_mask1 := masks, p_action_mask0 := (\<lambda>a. p_action_mask0 p1 a OR masks a)\<rparr>"
  have run': "lookup_hit table m p w = Some (p2, w1)" using masks(1) by (simp add: run rte_pipeline_compute_masks_def p2_def)
  have mb: "mask_bits p2 a = mask_bits p1 a \<union> {i \<in> bits m'. act i = a}" for a by (simp add: p2_def bits_or masks(2))
  have pp: "p_pkts p2 = p_pkts p" "p_entries p2 = p_entries p" "same_static p1 p2" "same_static p p2"
    using st1 by (simp_all add: p2_def)
  have tb: "mask_bits p2 TABLE = mask_bits p TABLE \<union> {i \<in> bits m'. act i = TABLE}" using mb [of TABLE] st1(4) by simp
  have "parts A (mask_bits p1 DROP) (mask_bits p1 PORT) (mask_bits p1 META) (bits m' \<union> mask_bits p TABLE) S"
    using ac1 by (simp add: acct_def)
  moreover have "act i = DROP \<or> act i = PORT \<or> act i = META \<or> act i = TABLE" for i by (cases "act i") auto
  ultimately have "parts A (mask_bits p2 DROP) (mask_bits p2 PORT) (mask_bits p2 META) (mask_bits p2 TABLE) S"
    using T sub unfolding mb [of DROP] mb [of PORT] mb [of META] tb parts_def by auto
  moreover have "\<exists>x. p_entries p2 ! i = Some x \<and> valid_out p2 (next_id x)" if i: "i \<in> mask_bits p2 PORT" for i
  proof (cases "i \<in> mask_bits p PORT")
    case True
    then show ?thesis using ac by (auto simp: acct_def pp same_static_ok(1) [OF pp(4)])
  next
    case False
    then have im: "i \<in> bits m'" "act i = PORT" using i mb [of PORT] st1(4) by auto
    then obtain x where x: "p_entries p ! i = Some x" "entry_ok p table x" using en sub by blast
    then show ?thesis using im(2) by (simp add: act_def entry_ok_def pp same_static_ok(1) [OF pp(4)])
  qed
  ultimately have ac2: "acct A (mask_bits p2 TABLE) S w0 p2 w1" using ac1 len by (simp add: acct_def pp st1)
  have "t_table_next_id_valid table" if ne: "mask_bits p2 TABLE \<noteq> {}"
  proof (cases "mask_bits p TABLE = {}")
    case True
    then obtain i where "i \<in> bits m'" "act i = TABLE" using ne tb by auto
    then show ?thesis using en sub by (fastforce simp: act_def entry_ok_def)
  qed (use tv in blast)
  then show ?thesis using run' ac2 pp by (intro exI [of _ p2] exI [of _ w1]) blast
qed

lemma table_turn_ok:
  assumes tid: "unat tid < length (p_tables p)" and tab: "table_ok p (p_tables p ! unat tid)"
    and ac: "acct A (bits m) S w0 p w" and T: "mask_bits p TABLE = {}"
    and keep: "miss_keeps (p_tables p ! unat tid) (mask_bits p DROP) (mask_bits p PORT) (mask_bits p META)"
    and late: "mask_bits p PORT = {} \<or> lookup_keeps (p_tables p ! unat tid)"
  shows "\<exists>m' p' w' S'. table_turn tid m p w = Some (t_table_next_id (p_tables p ! unat tid), m', p', w') \<and> same_static p p' \<and>
    p_pkts p' = p_pkts p \<and> acct A (bits m') S' w0 p' w' \<and> mask_bits p' TABLE = {} \<and>
    (m' \<noteq> 0 \<longrightarrow> t_table_next_id_valid (p_tables p ! unat tid))"
proof -
  define table where "table = p_tables p ! unat tid"
  obtain f where f: "tbl_f_lookup (t_ops table) = Some f"
    "\<forall>h pkts m ents e hit ents' e'. length ents = 64 \<longrightarrow> f h pkts m ents e = ((hit, ents'), e') \<longrightarrow> lookup_ok p table m hit ents'"
    using tab unfolding table_ok_def table_def [symmetric] by metis
  obtain hit ents e where r: "f (t_h_table table) (p_pkts p) m (p_entries p) (ext w) = ((hit, ents), e)" by (metis surj_pair)
  have len: "length (p_entries p) = 64" using ac by (simp add: acct_def)
  have lk: "lookup_ok p table m hit ents" using f(2) len r by blast
  define p1 where "p1 = p\<lparr>p_entries := ents\<rparr>"
  define w1 where "w1 = w\<lparr>ext := e\<rparr>"
  have st1: "same_static p p1" by (simp add: p1_def)
  have tab1: "table_ok p1 table" using tab same_static_ok(4) [OF st1] by (simp add: table_def)
  have hm: "bits hit \<subseteq> bits m" and lene: "length ents = 64" using lk by (simp_all add: lookup_ok_def)
  have old: "ents ! i = p_entries p ! i" if "i \<in> mask_bits p PORT" for i
  proof -
    have "i \<notin> bits m" using that ac by (auto simp: acct_def parts_def)
    moreover have "lookup_keeps table" using late that by (auto simp: table_def)
    ultimately show ?thesis using f(1) len r bits_less [OF that] unfolding lookup_keeps_def by blast
  qed
  have ac1: "acct A (bits m) S w0 p1 w1"
    using ac old lene by (auto simp: acct_def p1_def w1_def same_static_ok(1) [OF st1, unfolded p1_def])
  have bm: "bits (m AND NOT hit) = bits m - bits hit" by (rule bits_and_not)
  have mb1: "mask_bits p1 a = mask_bits p a" for a by (simp add: p1_def)
  have sub: "bits (m AND NOT hit) \<subseteq> bits m" and T1: "mask_bits p1 TABLE = {}" using T by (auto simp: bm mb1)
  have keep1: "m AND NOT hit \<noteq> 0 \<longrightarrow> miss_keeps table (mask_bits p1 DROP) (mask_bits p1 PORT) (mask_bits p1 META)"
    using keep by (simp add: mb1 table_def)
  obtain p2 w2 S2 where s2: "lookup_miss table (m AND NOT hit) p1 w1 = Some (p2, w2)" "same_static p1 p2" "p_pkts p2 = p_pkts p1"
    "p_entries p2 = p_entries p1" "acct A (bits m - (bits m - bits hit) \<union> mask_bits p2 TABLE) S2 w0 p2 w2"
    "mask_bits p2 TABLE \<subseteq> bits m - bits hit" "mask_bits p2 TABLE \<noteq> {} \<longrightarrow> t_table_next_id_valid table"
    using lookup_miss_ok [OF tab1 ac1 sub T1 keep1] unfolding bm by (elim exE conjE)
  have Q: "bits m - (bits m - bits hit) = bits hit" using hm by blast
  have tab2: "table_ok p2 table" using tab1 same_static_ok(4) [OF s2(2)] by simp
  have en: "\<forall>i \<in> bits hit. \<exists>x. p_entries p2 ! i = Some x \<and> entry_ok p2 table x"
  proof
    fix i assume "i \<in> bits hit"
    then obtain x where "ents ! i = Some x" "entry_ok p table x"
      using lk unfolding lookup_ok_def by blast
    then show "\<exists>x. p_entries p2 ! i = Some x \<and> entry_ok p2 table x"
      by (simp add: s2(4) p1_def same_static_ok(2) [OF s2(2)] same_static_ok(2) [OF st1, unfolded p1_def])
  qed
  obtain p3 w3 where s3: "lookup_hit table hit p2 w2 = Some (p3, w3)" "same_static p2 p3" "p_pkts p3 = p_pkts p2"
    "p_entries p3 = p_entries p2" "acct A (mask_bits p3 TABLE) S2 w0 p3 w3" "mask_bits p3 TABLE \<noteq> {} \<longrightarrow> t_table_next_id_valid table"
    using lookup_hit_ok [OF tab2 _ _ s2(7) en, of A S2 w0 w2] s2(5,6) unfolding Q by blast
  define p4 where "p4 = p3\<lparr>p_action_mask0 := (p_action_mask0 p3)(TABLE := 0)\<rparr>"
  have run: "table_turn tid m p w = Some (t_table_next_id table, p_action_mask0 p3 TABLE, p4, w3)"
    using tid f(1) r s2(1) s3(1) by (simp add: table_turn_def table_def [symmetric] p1_def w1_def p4_def)
  have st4: "same_static p3 p4" by (simp add: p4_def)
  have "acct A (bits (p_action_mask0 p3 TABLE)) S2 w0 p4 w3"
    using s3(5) by (simp add: acct_def p4_def same_static_ok(1) [OF st4, unfolded p4_def])
  moreover have "same_static p p4" using st1 s2(2) s3(2) st4 by (blast intro: same_static_trans)
  moreover have "p_pkts p4 = p_pkts p" using s2(3) s3(3) by (simp add: p4_def p1_def)
  moreover have "mask_bits p4 TABLE = {}" by (simp add: p4_def)
  ultimately show ?thesis using run s3(6) unfolding table_def by (metis bits_empty)
qed

section \<open>All tables of a port\<close>

text \<open>
  The tables form chains: \<open>rank\<close> decreases from a table to its next one. The default entry of
  the first table of a port may drop packets if nothing has been dropped before; that of a
  later table sends to a table or, with no action handler before it, to a port, and the lookup
  of a later table keeps the entries of packets it was not asked about.
\<close>

definition first_keeps :: "'e rte_port_in \<Rightarrow> 'e rte_table \<Rightarrow> bool" where
  "first_keeps port table \<longleftrightarrow> (action (t_default_entry table) = DROP \<longrightarrow> pi_f_action port = None \<and> t_f_action_miss table = None)"

definition late_keeps :: "'e rte_table \<Rightarrow> bool" where
  "late_keeps table \<longleftrightarrow> action (t_default_entry table) = TABLE \<or> action (t_default_entry table) = PORT \<and> t_f_action_miss table = None"

definition tables_ok :: "(nat \<Rightarrow> nat) \<Rightarrow> 'e rte_pipeline \<Rightarrow> bool" where
  "tables_ok rank p \<longleftrightarrow> unat (p_num_tables p) \<le> length (p_tables p) \<and>
     (\<forall>t < unat (p_num_tables p). table_ok p (p_tables p ! t) \<and>
       (t_table_next_id_valid (p_tables p ! t) \<longrightarrow> (let t' = unat (t_table_next_id (p_tables p ! t)) in
          t' < unat (p_num_tables p) \<and> rank t' < rank t \<and> late_keeps (p_tables p ! t') \<and> lookup_keeps (p_tables p ! t'))))"

lemma same_static_num: "same_static p p' \<Longrightarrow> p_num_tables p' = p_num_tables p"
proof -
  assume "same_static p p'"
  then have "p'\<lparr>p_pkts := [], p_entries := [], p_action_mask0 := (\<lambda>_. 0), p_action_mask1 := (\<lambda>_. 0)\<rparr> =
     p\<lparr>p_pkts := [], p_entries := [], p_action_mask0 := (\<lambda>_. 0), p_action_mask1 := (\<lambda>_. 0)\<rparr>" by (simp add: same_static_def)
  from arg_cong [OF this, of p_num_tables] show ?thesis by simp
qed

lemma tables_ok_static: "same_static p p' \<Longrightarrow> tables_ok rank p' = tables_ok rank p"
  unfolding tables_ok_def by (simp add: same_static_num same_staticD same_static_ok)

lemma late_keeps_any: "late_keeps table \<Longrightarrow> miss_keeps table D P M"
  by (auto simp: late_keeps_def miss_keeps_def)

lemma run_tables_ok:
  assumes "tables_ok rank p" and "acct A (bits m) S w0 p w" and "mask_bits p TABLE = {}"
    and "m \<noteq> 0 \<longrightarrow> unat tid < unat (p_num_tables p) \<and> rank (unat tid) < fuel \<and>
      miss_keeps (p_tables p ! unat tid) (mask_bits p DROP) (mask_bits p PORT) (mask_bits p META) \<and>
      (mask_bits p PORT = {} \<or> lookup_keeps (p_tables p ! unat tid))"
  shows "\<exists>p' w' S'. run_tables fuel tid m p w = Done (p', w') \<and> same_static p p' \<and> p_pkts p' = p_pkts p \<and> acct A {} S' w0 p' w'"
  using assms
proof (induction fuel arbitrary: tid m p w S)
  case 0
  then show ?case by (intro exI [of _ p] exI [of _ w] exI [of _ S]) simp
next
  case (Suc fuel)
  show ?case
  proof (cases "m = 0")
    case True
    then show ?thesis using Suc.prems(2) by (intro exI [of _ p] exI [of _ w] exI [of _ S]) simp
  next
    case False
    define table where "table = p_tables p ! unat tid"
    have t: "unat tid < unat (p_num_tables p)" "rank (unat tid) < Suc fuel"
      "miss_keeps table (mask_bits p DROP) (mask_bits p PORT) (mask_bits p META)"
      "mask_bits p PORT = {} \<or> lookup_keeps table" using Suc.prems(4) False by (auto simp: table_def)
    have tl: "unat tid < length (p_tables p)" and tab: "table_ok p table"
      and nxt: "t_table_next_id_valid table \<longrightarrow> unat (t_table_next_id table) < unat (p_num_tables p) \<and>
        rank (unat (t_table_next_id table)) < rank (unat tid) \<and> late_keeps (p_tables p ! unat (t_table_next_id table)) \<and>
        lookup_keeps (p_tables p ! unat (t_table_next_id table))"
      using Suc.prems(1) t(1) by (auto simp: tables_ok_def table_def Let_def)
    obtain m1 p1 w1 S1 where s1: "table_turn tid m p w = Some (t_table_next_id table, m1, p1, w1)" "same_static p p1"
      "p_pkts p1 = p_pkts p" "acct A (bits m1) S1 w0 p1 w1" "mask_bits p1 TABLE = {}" "m1 \<noteq> 0 \<longrightarrow> t_table_next_id_valid table"
      using table_turn_ok [OF tl tab [unfolded table_def] Suc.prems(2,3) t(3,4) [unfolded table_def]] unfolding table_def [symmetric]
      by (elim exE conjE)
    have "m1 \<noteq> 0 \<longrightarrow> unat (t_table_next_id table) < unat (p_num_tables p1) \<and> rank (unat (t_table_next_id table)) < fuel \<and>
        miss_keeps (p_tables p1 ! unat (t_table_next_id table)) (mask_bits p1 DROP) (mask_bits p1 PORT) (mask_bits p1 META) \<and>
        (mask_bits p1 PORT = {} \<or> lookup_keeps (p_tables p1 ! unat (t_table_next_id table)))"
      using s1(6) nxt t(2) by (auto simp: same_static_num [OF s1(2)] same_staticD [OF s1(2)] intro: late_keeps_any)
    from Suc.IH [OF _ s1(4,5) this] obtain p2 w2 S2 where
      s2: "run_tables fuel (t_table_next_id table) m1 p1 w1 = Done (p2, w2)" "same_static p1 p2" "p_pkts p2 = p_pkts p1" "acct A {} S2 w0 p2 w2"
      using Suc.prems(1) tables_ok_static [OF s1(2)] by blast
    have "run_tables (Suc fuel) tid m p w = Done (p2, w2)" using False s1(1) s2(1) by (simp add: or_fault_def)
    then show ?thesis using s2 s1(2,3) by (intro exI [of _ p2] exI [of _ w2] exI [of _ S2]) (auto intro: same_static_trans)
  qed
qed

section \<open>One input port\<close>

lemma bits_len2mask: "unat n \<le> 64 \<Longrightarrow> bits (RTE_LEN2MASK n) = {0..<unat n}"
  by (auto simp: bits_def RTE_LEN2MASK_def bit_simps dest: bit_less_64)

lemma mset_take: "n \<le> length xs \<Longrightarrow> image_mset ((!) xs) (mset_set {0..<n}) = mset (take n xs)"
proof -
  assume "n \<le> length xs"
  then have "take n xs = map ((!) xs) [0..<n]" by (metis map_nth take_map take_upt add_0 length_map length_take min.absorb2 nth_take map_cong atLeastLessThan_iff set_upt)
  then show ?thesis by (simp add: mset_upt)
qed

definition port_in_ok :: "'e rte_pipeline \<Rightarrow> 'e rte_port_in \<Rightarrow> bool" where
  "port_in_ok p port \<longleftrightarrow>
     (\<exists>f. in_f_rx (pi_ops port) = Some f \<and>
        (\<forall>h pkts b e n pkts' e'. length pkts = 64 \<longrightarrow> b \<le> 64 \<longrightarrow> f h pkts b e = (n, pkts', e') \<longrightarrow> n \<le> b \<and> length pkts' = 64)) \<and>
     pi_burst_size port \<le> 64 \<and>
     (\<forall>f pkts n m arg e. pi_f_action port = Some f \<longrightarrow> bits (fst (f pkts n m arg e)) \<subseteq> bits m) \<and>
     unat (pi_table_id port) < unat (p_num_tables p) \<and> first_keeps port (p_tables p ! unat (pi_table_id port))"

text \<open>What comes in over port \<open>h\<close> goes out, packet by packet.\<close>

definition conserves :: "u64 list \<Rightarrow> 'e world \<Rightarrow> 'e world \<Rightarrow> bool" where
  "conserves hs w w' \<longleftrightarrow> (\<exists>evs. trace w' = trace w @ evs \<and> pkts_out evs = pkts_in evs \<and> rx_ports evs = hs)"

lemma conserves_trans: "conserves hs w w' \<Longrightarrow> conserves hs' w' w'' \<Longrightarrow> conserves (hs @ hs') w w''"
  unfolding conserves_def by (elim exE conjE) (rename_tac evs evs', rule_tac x = "evs @ evs'" in exI, simp)

lemma finish_port_ok:
  assumes ac: "acct A {} S w0 p w" and meta: "meta_ok env p"
  shows "\<exists>p' w'. finish_port env p w = Some (p', w') \<and>
    same_static p p' \<and> p_pkts p' = p_pkts p \<and> p_entries p' = p_entries p \<and> disposed (p_pkts p) A w0 w'"
proof -
  have a: "disposed (p_pkts p) S w0 w" "length (p_entries p) = 64" "length (p_pkts p) = 64"
    "parts A (mask_bits p DROP) (mask_bits p PORT) (mask_bits p META) {} S"
    "\<forall>i \<in> mask_bits p PORT. \<exists>x. p_entries p ! i = Some x \<and> valid_out p (next_id x)" using ac by (auto simp: acct_def)
  have xs: "set (pkt_positions m) = bits m" "distinct (pkt_positions m)" for m by (simp_all add: pkt_positions_bits)
  have "\<forall>i \<in> mask_bits p PORT. i < 64 \<and> (\<exists>x. p_entries p ! i = Some x \<and> valid_out p (next_id x))" using a(5) bits_less by blast
  then obtain p1 w1 R1 where s1: "send_port (pkt_positions (p_action_mask0 p PORT)) p w = Some (p1, w1)" "R1 \<subseteq> mask_bits p PORT"
    "sends R1 (mask_bits p PORT - R1) p w p1 w1"
    using send_port_ok [of "pkt_positions (p_action_mask0 p PORT)" p w] a(2,3) unfolding xs by (auto simp: xs)
  have st1: "same_static p p1" "p_entries p1 = p_entries p" "p_pkts p1 = p_pkts p" "p_action_mask0 p1 META = p_action_mask0 p META"
    "mask_bits p1 DROP = mask_bits p DROP \<union> (mask_bits p PORT - R1)" "disposed (p_pkts p) R1 w w1"
    using s1(3) by (simp_all add: sends_def)
  have meta1: "meta_ok env p1" using meta by (simp add: meta_ok_def same_staticD [OF st1(1)] same_static_ok [OF st1(1)])
  have "\<forall>i \<in> mask_bits p META. i < 64" using bits_less by blast
  then obtain p2 w2 R2 where s2: "send_port_meta env (pkt_positions (p_action_mask0 p META)) p1 w1 = Some (p2, w2)" "R2 \<subseteq> mask_bits p META"
    "sends R2 (mask_bits p META - R2) p1 w1 p2 w2"
    using send_port_meta_ok [of "pkt_positions (p_action_mask0 p META)" env p1 w1] meta1 a(3) unfolding xs by (auto simp: xs st1)
  have st2: "same_static p1 p2" "p_entries p2 = p_entries p" "p_pkts p2 = p_pkts p"
    "mask_bits p2 DROP = mask_bits p DROP \<union> (mask_bits p PORT - R1) \<union> (mask_bits p META - R2)" "disposed (p_pkts p) R2 w1 w2"
    using s2(3) st1 by (simp_all add: sends_def)
  obtain w3 where s3: "drop_packets env (p_pkts p) (pkt_positions (p_action_mask0 p2 DROP)) w2 = Some w3"
    "disposed (p_pkts p) (mask_bits p2 DROP) w2 w3"
    using drop_packets_ok [of "pkt_positions (p_action_mask0 p2 DROP)" "p_pkts p" env w2] a(3) bits_less unfolding xs by (auto simp: xs)
  have dis: "S \<inter> R1 = {}" "(S \<union> R1) \<inter> R2 = {}" "(S \<union> R1 \<union> R2) \<inter> mask_bits p2 DROP = {}" "S \<union> R1 \<union> R2 \<union> mask_bits p2 DROP = A"
    using a(4) s1(2) s2(2) unfolding st2(4) parts_def by blast+
  have "disposed (p_pkts p) (S \<union> R1 \<union> R2 \<union> mask_bits p2 DROP) w0 w3"
    by (rule disposed_trans [OF disposed_trans [OF disposed_trans [OF a(1) st1(6) dis(1)] st2(5) dis(2)] s3(2) dis(3)])
  then have "disposed (p_pkts p) A w0 w3" unfolding dis(4) .
  moreover have "same_static p p2" using st1(1) st2(1) by (rule same_static_trans)
  ultimately show ?thesis using s1(1) s2(1) s3(1) st1(4) st2(2,3)
    by (intro exI [of _ p2] exI [of _ w3])
      (simp add: rte_pipeline_action_handler_port_def rte_pipeline_action_handler_port_meta_def rte_pipeline_action_handler_drop_def
        finish_port_def)
qed

lemma run_port_ok:
  assumes tabs: "tables_ok rank p" and port: "port_in_ok p port" and meta: "meta_ok env p"
    and len: "length (p_pkts p) = 64" "length (p_entries p) = 64" and fuel: "\<forall>t < unat (p_num_tables p). rank t < fuel"
  shows "\<exists>p' w'. run_port fuel env port p w = Done (p', w') \<and> same_static p p' \<and> length (p_pkts p') = 64 \<and>
    length (p_entries p') = 64 \<and> conserves [pi_h_port port] w w'"
proof -
  obtain f where f: "in_f_rx (pi_ops port) = Some f" and fx: "\<forall>h pkts b e n pkts' e'. length pkts = 64 \<longrightarrow> b \<le> 64 \<longrightarrow>
      f h pkts b e = (n, pkts', e') \<longrightarrow> n \<le> b \<and> length pkts' = 64"
    and burst: "pi_burst_size port \<le> 64"
    and act: "\<forall>f pkts n m arg e. pi_f_action port = Some f \<longrightarrow> bits (fst (f pkts n m arg e)) \<subseteq> bits m"
    and tid: "unat (pi_table_id port) < unat (p_num_tables p)" "first_keeps port (p_tables p ! unat (pi_table_id port))"
    using port unfolding port_in_ok_def by metis
  obtain n pkts e where r: "f (pi_h_port port) (p_pkts p) (pi_burst_size port) (ext w) = (n, pkts, e)" by (metis surj_pair)
  have n: "n \<le> 64" "length pkts = 64" using fx len(1) burst r by (blast intro: order_trans)+
  then have un: "unat n \<le> 64" by (simp add: word_le_nat_alt)
  define h where "h = pi_h_port port"
  define w1 where "w1 = emit (Ev_rx h (take (unat n) pkts)) e w"
  define p1 where "p1 = p\<lparr>p_pkts := pkts\<rparr>"
  show ?thesis
  proof (cases "n = 0")
    case True
    have "run_port fuel env port p w = Done (p1, w1)" using f r True by (simp add: run_port_def p1_def w1_def h_def)
    moreover have "conserves [h] w w1"
      by (auto simp: conserves_def w1_def emit_def True intro!: exI [of _ "[Ev_rx h []]"])
    ultimately show ?thesis using len n by (intro exI [of _ p1] exI [of _ w1]) (simp add: p1_def h_def)
  next
    case False
    define A where "A = {0..<unat n}"
    define m where "m = RTE_LEN2MASK n"
    have mA: "bits m = A" using bits_len2mask [OF un] by (simp add: m_def A_def)
    define p2 where "p2 = p1\<lparr>p_action_mask0 := (\<lambda>_. 0)\<rparr>"
    define m' where "m' = (case pi_f_action port of None \<Rightarrow> m | Some f \<Rightarrow> fst (f (p_pkts p2) n m (pi_arg_ah port) (ext w1)))"
    define p3 where "p3 = (case pi_f_action port of None \<Rightarrow> p2 | Some f \<Rightarrow> add_mask0 DROP (m XOR m') p2)"
    define w3 where "w3 = (case pi_f_action port of None \<Rightarrow> w1 | Some f \<Rightarrow> w1\<lparr>ext := snd (f (p_pkts p2) n m (pi_arg_ah port) (ext w1))\<rparr>)"
    have run: "run_port fuel env port p w = and_then (run_tables fuel (pi_table_id port) m' p3 w3)
       (\<lambda>(p, w). or_fault (finish_port env p w))"
      using f r False by (cases "pi_f_action port")
        (auto simp: run_port_def Let_def p1_def w1_def h_def p2_def m_def m'_def p3_def w3_def split: prod.splits)
    have sub: "bits m' \<subseteq> A"
    proof (cases "pi_f_action port")
      case (Some g)
      then have "bits (fst (g (p_pkts p2) n m (pi_arg_ah port) (ext w1))) \<subseteq> bits m" using act by blast
      then show ?thesis by (simp add: m'_def Some mA)
    qed (simp add: m'_def mA)
    have s: "sends {} (A - bits m') p2 w1 p3 w3"
    proof (cases "pi_f_action port")
      case None
      then show ?thesis by (simp add: p3_def w3_def m'_def mA sends_refl)
    next
      case (Some g)
      have "bits (m XOR m') = A - bits m'" using sub by (auto simp: bits_xor mA)
      then show ?thesis using sends_drop [of "m XOR m'" p2 w1] by (simp add: p3_def w3_def Some)
    qed
    have st2: "same_static p p2" by (simp add: p2_def p1_def)
    have "same_static p2 p3" using s by (simp add: sends_def)
    with st2 have st30: "same_static p p3" by (rule same_static_trans)
    have st3: "same_static p p3" "p_pkts p3 = pkts" "p_entries p3 = p_entries p"
      "mask_bits p3 DROP = A - bits m'" "mask_bits p3 PORT = {}" "mask_bits p3 META = {}" "mask_bits p3 TABLE = {}"
      using s st30 by (simp_all add: sends_def p2_def p1_def)
    have ac: "acct A (bits m') {} w1 p3 w3"
      using s sub len(2) n(2) by (auto simp: acct_def st3 sends_def p2_def p1_def parts_def)
    have "miss_keeps (p_tables p ! unat (pi_table_id port)) (mask_bits p3 DROP) {} {}"
    proof -
      have "mask_bits p3 DROP = {}" if "pi_f_action port = None" using that by (simp add: p3_def p2_def)
      then show ?thesis using tid(2)
        by (cases "action (t_default_entry (p_tables p ! unat (pi_table_id port)))") (auto simp: first_keeps_def miss_keeps_def)
    qed
    then have go: "m' \<noteq> 0 \<longrightarrow> unat (pi_table_id port) < unat (p_num_tables p3) \<and> rank (unat (pi_table_id port)) < fuel \<and>
        miss_keeps (p_tables p3 ! unat (pi_table_id port)) (mask_bits p3 DROP) (mask_bits p3 PORT) (mask_bits p3 META) \<and>
        (mask_bits p3 PORT = {} \<or> lookup_keeps (p_tables p3 ! unat (pi_table_id port)))"
      using tid(1) fuel by (simp add: same_static_num [OF st3(1)] same_staticD [OF st3(1)] st3)
    have tabs3: "tables_ok rank p3" using tabs tables_ok_static [OF st3(1)] by blast
    obtain p4 w4 S where
      s4: "run_tables fuel (pi_table_id port) m' p3 w3 = Done (p4, w4)" "same_static p3 p4" "p_pkts p4 = p_pkts p3" "acct A {} S w1 p4 w4"
      using run_tables_ok [OF tabs3 ac st3(7) go] by (elim exE conjE)
    have st4: "same_static p p4" using st3(1) s4(2) by (rule same_static_trans)
    have meta4: "meta_ok env p4" using meta by (simp add: meta_ok_def same_staticD [OF st4] same_static_ok [OF st4])
    obtain p5 w5 where s5: "run_port fuel env port p w = Done (p5, w5)" "same_static p4 p5" "p_pkts p5 = p_pkts p4"
      "p_entries p5 = p_entries p4" "disposed (p_pkts p4) A w1 w5"
      using finish_port_ok [OF s4(4) meta4] unfolding run s4(1) and_then.simps prod.case
      by (elim exE conjE) (simp add: or_fault_def)
    obtain evs where evs: "trace w5 = trace w1 @ evs" "pkts_in evs = {#}" "rx_ports evs = []"
      "pkts_out evs = image_mset ((!) pkts) (mset_set A)" using s5(5) s4(3) st3(2) by (auto simp: disposed_def)
    have "pkts_out evs = mset (take (unat n) pkts)" using evs(4) mset_take [of "unat n" pkts] n(2) un by (simp add: A_def)
    then have "conserves [h] w w5" using evs(1-3)
      by (auto simp: conserves_def w1_def emit_def intro!: exI [of _ "Ev_rx h (take (unat n) pkts) # evs"]
          simp: pkts_out_def pkts_in_def rx_ports_def)
    moreover have "length (p_entries p5) = 64" "length (p_pkts p5) = 64"
      using s4(4) s5(3,4) by (simp_all add: acct_def)
    moreover have "same_static p p5" using st4 s5(2) by (rule same_static_trans)
    ultimately show ?thesis using s5(1) by (auto simp: h_def)
  qed
qed

section \<open>The run\<close>

text \<open>Everything a run relies on.\<close>

definition run_ok :: "(nat \<Rightarrow> nat) \<Rightarrow> 'e pipe_env \<Rightarrow> 'e rte_pipeline \<Rightarrow> bool" where
  "run_ok rank env p \<longleftrightarrow> tables_ok rank p \<and> meta_ok env p \<and> length (p_pkts p) = 64 \<and> length (p_entries p) = 64 \<and>
     (\<forall>i \<in> enabled p. port_in_ok p (p_ports_in p ! i))"

lemma same_static_enabled: "same_static p p' \<Longrightarrow> p_enabled_port_in_mask p' = p_enabled_port_in_mask p"
proof -
  assume "same_static p p'"
  then have "p'\<lparr>p_pkts := [], p_entries := [], p_action_mask0 := (\<lambda>_. 0), p_action_mask1 := (\<lambda>_. 0)\<rparr> =
     p\<lparr>p_pkts := [], p_entries := [], p_action_mask0 := (\<lambda>_. 0), p_action_mask1 := (\<lambda>_. 0)\<rparr>" by (simp add: same_static_def)
  from arg_cong [OF this, of p_enabled_port_in_mask] show ?thesis by simp
qed

lemma run_ok_static:
  assumes "run_ok rank env p" and "same_static p p'" and "length (p_pkts p') = 64" and "length (p_entries p') = 64"
  shows "run_ok rank env p'"
  using assms by (simp add: run_ok_def tables_ok_static meta_ok_def port_in_ok_def same_static_num same_static_enabled
      same_staticD same_static_ok)

definition ports_from :: "nat set \<Rightarrow> nat option \<Rightarrow> nat set" where
  "ports_from S o1 = (case o1 of None \<Rightarrow> {} | Some i \<Rightarrow> {j \<in> S. i \<le> j})"

lemma ports_from_succ:
  assumes "finite S" and "i \<in> S"
  shows "ports_from S (Some i) = insert i (ports_from S (succ_in S i))" and "\<forall>j \<in> ports_from S (succ_in S i). i < j"
proof -
  have eq: "ports_from S (succ_in S i) = {j \<in> S. i < j}"
  proof (cases "succ_in S i")
    case None
    then show ?thesis by (auto simp: ports_from_def succ_in_def split: if_splits)
  next
    case (Some j)
    then show ?thesis using succ_inD [OF assms(1) Some] by (auto simp: ports_from_def)
  qed
  show "ports_from S (Some i) = insert i (ports_from S (succ_in S i))"
    unfolding eq using assms(2) by (auto simp: ports_from_def)
  show "\<forall>j \<in> ports_from S (succ_in S i). i < j" unfolding eq by simp
qed

lemma sorted_list_insert_min:
  assumes "finite S" and "\<forall>j \<in> S. i < (j :: nat)"
  shows "sorted_list_of_set (insert i S) = i # sorted_list_of_set S"
proof -
  have "sorted (i # sorted_list_of_set S)" "distinct (i # sorted_list_of_set S)" "set (i # sorted_list_of_set S) = insert i S"
    using assms by (auto intro: less_imp_le)
  then show ?thesis by (metis sorted_list_of_set.idem_if_sorted_distinct)
qed

lemma run_ports_ok:
  assumes "run_ok rank env p" and "chain_ok p" and "\<forall>t < unat (p_num_tables p). rank t < fuel"
    and "\<forall>i. o1 = Some i \<longrightarrow> i \<in> enabled p" and "card (ports_from (enabled p) o1) \<le> k"
  shows "\<exists>p' w'. run_ports k fuel env o1 p w = Done (p', w') \<and> same_static p p' \<and> run_ok rank env p' \<and>
    conserves (map (\<lambda>i. pi_h_port (p_ports_in p ! i)) (sorted_list_of_set (ports_from (enabled p) o1))) w w'"
  using assms
proof (induction k arbitrary: o1 p w)
  case 0
  have "o1 = None"
  proof (cases o1)
    case (Some i)
    then have "i \<in> ports_from (enabled p) o1" using 0 by (simp add: ports_from_def)
    moreover have "finite (ports_from (enabled p) o1)" by (auto simp: ports_from_def split: option.split)
    ultimately show ?thesis using 0 by auto
  qed
  then show ?case using 0 by (auto simp: conserves_def ports_from_def intro: exI [of _ "[]"])
next
  case (Suc k)
  show ?case
  proof (cases o1)
    case None
    then show ?thesis using Suc.prems by (auto simp: conserves_def ports_from_def intro: exI [of _ "[]"])
  next
    case (Some i)
    define S where "S = enabled p"
    have i: "i \<in> S" using Suc.prems(4) Some by (simp add: S_def)
    define port where "port = p_ports_in p ! i"
    have ch: "length (p_ports_in p) = 64" "i < 64" "pi_next port = succ_in S i"
      using Suc.prems(2) i by (auto simp: chain_ok_def S_def port_def dest: bits_less)
    have pk: "port_in_ok p port" using Suc.prems(1) i by (simp add: run_ok_def S_def port_def)
    have pre: "tables_ok rank p" "meta_ok env p" "length (p_pkts p) = 64" "length (p_entries p) = 64"
      using Suc.prems(1) by (simp_all add: run_ok_def)
    obtain p1 w1 where s1: "run_port fuel env port p w = Done (p1, w1)" "same_static p p1" "length (p_pkts p1) = 64"
      "length (p_entries p1) = 64" "conserves [pi_h_port port] w w1"
      using run_port_ok [OF pre(1) pk pre(2-4) Suc.prems(3), of w] by (elim exE conjE)
    have S1: "enabled p1 = S" by (simp add: S_def same_static_enabled [OF s1(2)])
    have ok1: "run_ok rank env p1" by (rule run_ok_static [OF Suc.prems(1) s1(2-4)])
    have "p_num_ports_in p1 = p_num_ports_in p"
    proof -
      have "p1\<lparr>p_pkts := [], p_entries := [], p_action_mask0 := (\<lambda>_. 0), p_action_mask1 := (\<lambda>_. 0)\<rparr> =
        p\<lparr>p_pkts := [], p_entries := [], p_action_mask0 := (\<lambda>_. 0), p_action_mask1 := (\<lambda>_. 0)\<rparr>" using s1(2) by (simp add: same_static_def)
      from arg_cong [OF this, of p_num_ports_in] show ?thesis by simp
    qed
    then have ch1: "chain_ok p1" using Suc.prems(2)
      by (simp add: chain_ok_def same_static_enabled [OF s1(2)] same_staticD [OF s1(2)])
    have fin: "finite S" by (simp add: S_def)
    note pf = ports_from_succ [OF fin i]
    have fin2: "finite (ports_from S (succ_in S i))" using fin by (auto simp: ports_from_def split: option.split)
    have "i \<notin> ports_from S (succ_in S i)" using pf(2) by blast
    then have "card (ports_from S (succ_in S i)) \<le> k"
      using Suc.prems(5) pf(1) fin2 unfolding Some S_def [symmetric] by simp
    moreover have "\<forall>j. succ_in S i = Some j \<longrightarrow> j \<in> S" using succ_inD [OF fin] by blast
    ultimately obtain p2 w2 where s2: "run_ports k fuel env (pi_next port) p1 w1 = Done (p2, w2)" "same_static p1 p2" "run_ok rank env p2"
      "conserves (map (\<lambda>i. pi_h_port (p_ports_in p1 ! i)) (sorted_list_of_set (ports_from S (succ_in S i)))) w1 w2"
      using Suc.IH [OF ok1 ch1, of "pi_next port" w1] Suc.prems(3) unfolding S1 ch(3) by (auto simp: same_static_num [OF s1(2)])
    have "run_ports (Suc k) fuel env o1 p w = Done (p2, w2)"
      using s1(1) s2(1) ch(1,2) by (simp add: Some port_def)
    moreover have "conserves (map (\<lambda>i. pi_h_port (p_ports_in p ! i)) (sorted_list_of_set (ports_from S (Some i)))) w w2"
      using conserves_trans [OF s1(5) s2(4)] sorted_list_insert_min [OF fin2 pf(2)]
      unfolding pf(1) by (simp add: same_staticD [OF s1(2)] port_def)
    ultimately show ?thesis using same_static_trans [OF s1(2) s2(2)] s2(3) by (auto simp: Some S_def)
  qed
qed


definition demo_env :: "unit pipe_env" where
  "demo_env = \<lparr>env_zmalloc = (\<lambda>size align socket e. (0x1000, e)), env_free = (\<lambda>a e. e), env_pktmbuf_free = (\<lambda>pkt e. e),
     env_mbuf_metadata = (\<lambda>e pkt off. 0)\<rparr>"

lemma bit_and_1: "bit (m AND 1 :: u64) i \<longleftrightarrow> i = 0 \<and> bit m 0"
  by (auto simp: bit_simps)

lemma lookup_ok_demo:
  assumes "length ents = 64"
  shows "lookup_ok demo_pipe demo_table m (m AND 1)
    (if m AND 1 = 0 then ents else ents[0 := Some \<lparr>action = PORT, next_id = 0, action_data = []\<rparr>])"
proof -
  have "(m AND 1 = 0) = (\<not> bit m 0)" by (metis bit_and_1 bit_0_eq bits_empty bot_apply equals0I mem_bits empty_iff)
  moreover have "entry_ok demo_pipe demo_table \<lparr>action = PORT, next_id = 0, action_data = []\<rparr>"
    by (simp add: entry_ok_def valid_out_def port_out_ok_def demo_pipe_def demo_out_def zero_port_out_def)
  ultimately show ?thesis using assms by (auto simp: lookup_ok_def mem_bits bit_and_1 nth_list_update)
qed

lemma demo_run_ok: "run_ok (\<lambda>_. 0) demo_env demo_pipe"
proof -
  have "table_ok demo_pipe demo_table"
    using lookup_ok_demo by (auto simp: table_ok_def entry_ok_def demo_table_def zero_table_def zero_entry_def demo_lookup_def)
  then have "tables_ok (\<lambda>_. 0) demo_pipe"
    by (simp add: tables_ok_def) (simp add: demo_pipe_def demo_table_def zero_table_def)
  moreover have "port_in_ok demo_pipe demo_in"
    by (auto simp: port_in_ok_def demo_in_def demo_pipe_def zero_port_in_def first_keeps_def demo_table_def zero_table_def word_le_nat_alt
        word_less_nat_alt)
  moreover have "meta_ok demo_env demo_pipe"
    by (simp add: meta_ok_def valid_out_def demo_env_def port_out_ok_def demo_pipe_def demo_out_def zero_port_out_def)
  moreover have "p_ports_in demo_pipe ! 0 = demo_in" "length (p_pkts demo_pipe) = 64" "length (p_entries demo_pipe) = 64"
    by (simp_all add: demo_pipe_def)
  ultimately show ?thesis by (simp add: run_ok_def)
qed


end
