(* ===== verification/Pipeline_Api.thy ===== *)
theory Pipeline_Api
  imports Pipeline_Run
begin

text \<open>
  The configuration calls of the pipeline: the pipelines they can reach, the resources these
  hold and release, the chaining of tables, and configurations on which a run goes wrong.
\<close>

section \<open>Resources\<close>

datatype resource = Handle u64 | Memory u64

fun ev_opened :: "io_event \<Rightarrow> resource multiset" where
  "ev_opened (Ev_create h) = {#Handle h#}"
| "ev_opened (Ev_zmalloc a) = {#Memory a#}"
| "ev_opened _ = {#}"

fun ev_released :: "io_event \<Rightarrow> resource multiset" where
  "ev_released (Ev_handle_free h) = {#Handle h#}"
| "ev_released (Ev_mem_free a) = {#Memory a#}"
| "ev_released _ = {#}"

definition opened :: "'e world \<Rightarrow> resource multiset" where "opened w = sum_list (map ev_opened (trace w))"
definition released :: "'e world \<Rightarrow> resource multiset" where "released w = sum_list (map ev_released (trace w))"

lemma resources_emit [simp]:
  "opened (emit ev e w) = opened w + ev_opened ev" "released (emit ev e w) = released w + ev_released ev"
  "opened (w\<lparr>ext := e\<rparr>) = opened w" "released (w\<lparr>ext := e\<rparr>) = released w"
  by (simp_all add: opened_def released_def emit_def)

lemma resources_call_free [simp]:
  "opened (call_free env a w) = opened w" "released (call_free env a w) = released w + {#Memory a#}"
  by (simp_all add: call_free_def)

definition ports_in :: "'e rte_pipeline \<Rightarrow> 'e rte_port_in list" where "ports_in p = take (unat (p_num_ports_in p)) (p_ports_in p)"
definition ports_out :: "'e rte_pipeline \<Rightarrow> 'e rte_port_out list" where "ports_out p = take (unat (p_num_ports_out p)) (p_ports_out p)"
definition tables :: "'e rte_pipeline \<Rightarrow> 'e rte_table list" where "tables p = take (unat (p_num_tables p)) (p_tables p)"

definition held :: "u64 \<Rightarrow> 'e rte_pipeline \<Rightarrow> resource multiset" where
  "held ptr p = {#Memory ptr#} + mset (map (\<lambda>port. Handle (pi_h_port port)) (ports_in p)) +
     mset (map (\<lambda>port. Handle (po_h_port port)) (ports_out p)) +
     mset (map (\<lambda>table. Handle (t_h_table table)) (tables p)) + mset (map (\<lambda>table. Memory (t_default_entry_ptr table)) (tables p))"

definition can_free :: "'e rte_pipeline \<Rightarrow> bool" where
  "can_free p \<longleftrightarrow> (\<forall>port \<in> set (ports_in p). in_f_free (pi_ops port) \<noteq> None) \<and>
     (\<forall>port \<in> set (ports_out p). out_f_free (po_ops port) \<noteq> None) \<and> (\<forall>table \<in> set (tables p). tbl_f_free (t_ops table) \<noteq> None)"

lemma fold_ports_in_free:
  assumes "\<forall>port \<in> set ps. in_f_free (pi_ops port) \<noteq> None"
  shows "opened (fold rte_pipeline_port_in_free ps w) = opened w"
    "released (fold rte_pipeline_port_in_free ps w) = released w + mset (map (\<lambda>port. Handle (pi_h_port port)) ps)"
  using assms by (induction ps arbitrary: w) (auto simp: rte_pipeline_port_in_free_def)

lemma fold_ports_out_free:
  assumes "\<forall>port \<in> set ps. out_f_free (po_ops port) \<noteq> None"
  shows "opened (fold rte_pipeline_port_out_free ps w) = opened w"
    "released (fold rte_pipeline_port_out_free ps w) = released w + mset (map (\<lambda>port. Handle (po_h_port port)) ps)"
  using assms by (induction ps arbitrary: w) (auto simp: rte_pipeline_port_out_free_def)

lemma fold_tables_free:
  assumes "\<forall>table \<in> set ts. tbl_f_free (t_ops table) \<noteq> None"
  shows "opened (fold (rte_pipeline_table_free env) ts w) = opened w"
    "released (fold (rte_pipeline_table_free env) ts w) = released w + mset (map (\<lambda>table. Handle (t_h_table table)) ts) +
       mset (map (\<lambda>table. Memory (t_default_entry_ptr table)) ts)"
  using assms by (induction ts arbitrary: w) (auto simp: rte_pipeline_table_free_def)

lemma rte_pipeline_free_ok:
  assumes "can_free p"
  shows "\<exists>w'. rte_pipeline_free env (Some (ptr, p)) w = (0, w') \<and> opened w' = opened w \<and> released w' = released w + held ptr p"
proof -
  define w1 where "w1 = fold rte_pipeline_port_in_free (ports_in p) w"
  define w2 where "w2 = fold (rte_pipeline_table_free env) (tables p) w1"
  define w3 where "w3 = fold rte_pipeline_port_out_free (ports_out p) w2"
  have run: "rte_pipeline_free env (Some (ptr, p)) w = (0, call_free env ptr w3)"
    by (simp add: rte_pipeline_free_def Let_def w1_def w2_def w3_def ports_in_def ports_out_def tables_def)
  have "opened w3 = opened w" "released w3 = released w + mset (map (\<lambda>port. Handle (pi_h_port port)) (ports_in p)) +
      (mset (map (\<lambda>table. Handle (t_h_table table)) (tables p)) + mset (map (\<lambda>table. Memory (t_default_entry_ptr table)) (tables p))) +
      mset (map (\<lambda>port. Handle (po_h_port port)) (ports_out p))"
    using assms unfolding can_free_def w1_def w2_def w3_def
    by (simp_all add: fold_ports_in_free fold_ports_out_free fold_tables_free)
  then show ?thesis using run by (simp add: held_def)
qed

section \<open>Configurations\<close>

text \<open>
  The pipelines that the configuration calls reach. A call that faults has no next pipeline; the
  calls that cannot fault are stated below.
\<close>

inductive configured :: "'e pipe_env \<Rightarrow> u64 \<Rightarrow> 'e rte_pipeline \<Rightarrow> 'e world \<Rightarrow> bool" for env where
  cfg_create: "rte_pipeline_create env params w = (Some (ptr, p), w') \<Longrightarrow> trace w = [] \<Longrightarrow> configured env ptr p w'"
| cfg_port_in: "configured env ptr p w \<Longrightarrow>
    rte_pipeline_port_in_create (Some p) params given w = Some (r, Some p', w') \<Longrightarrow> configured env ptr p' w'"
| cfg_port_out: "configured env ptr p w \<Longrightarrow>
    rte_pipeline_port_out_create (Some p) params given w = Some (r, Some p', w') \<Longrightarrow> configured env ptr p' w'"
| cfg_table: "configured env ptr p w \<Longrightarrow>
    rte_pipeline_table_create env (Some p) params given w = Some (r, Some p', w') \<Longrightarrow> configured env ptr p' w'"
| cfg_connect: "configured env ptr p w \<Longrightarrow> rte_pipeline_port_in_connect_to_table (Some p) port_id table_id = Some (r, Some p') \<Longrightarrow>
    configured env ptr p' w"
| cfg_enable: "configured env ptr p w \<Longrightarrow> rte_pipeline_port_in_enable (Some p) port_id = Some (r, Some p') \<Longrightarrow> configured env ptr p' w"
| cfg_disable: "configured env ptr p w \<Longrightarrow> rte_pipeline_port_in_disable (Some p) port_id = Some (r, Some p') \<Longrightarrow> configured env ptr p' w"
| cfg_default_add: "configured env ptr p w \<Longrightarrow> rte_pipeline_table_default_entry_add (Some p) table_id entry = Some (r, Some p') \<Longrightarrow>
    configured env ptr p' w"
| cfg_default_delete: "configured env ptr p w \<Longrightarrow> rte_pipeline_table_default_entry_delete (Some p) table_id given = Some (r, Some p') \<Longrightarrow>
    configured env ptr p' w"
| cfg_entry_add: "configured env ptr p w \<Longrightarrow> rte_pipeline_table_entry_add (Some p) table_id key entry w = Some (r, Some p', w') \<Longrightarrow>
    configured env ptr p' w'"
| cfg_entry_add_bulk: "configured env ptr p w \<Longrightarrow>
    rte_pipeline_table_entry_add_bulk (Some p) table_id keys entries n_keys w = Some (r, Some p', w') \<Longrightarrow> configured env ptr p' w'"
| cfg_entry_delete: "configured env ptr p w \<Longrightarrow> rte_pipeline_table_entry_delete (Some p) table_id key w = Some (r, w') \<Longrightarrow>
    configured env ptr p w'"
| cfg_entry_delete_bulk: "configured env ptr p w \<Longrightarrow>
    rte_pipeline_table_entry_delete_bulk (Some p) table_id keys n_keys w = Some (r, w') \<Longrightarrow> configured env ptr p w'"

text \<open>
  The invariant of a configuration: the arrays have their length and the counts stay within
  them, the chain of enabled ports is sorted, every created port has its required functions and
  a table that exists or none yet, a default entry that goes to a table goes to the table's next
  one, and the resources opened are those released and those held.
\<close>

definition port_in_inv :: "'e rte_pipeline \<Rightarrow> 'e rte_port_in \<Rightarrow> bool" where
  "port_in_inv p port \<longleftrightarrow> in_f_rx (pi_ops port) \<noteq> None \<and> 0 < pi_burst_size port \<and> pi_burst_size port \<le> 64 \<and>
     (pi_table_id port = RTE_TABLE_INVALID \<or> pi_table_id port < p_num_tables p)"

definition port_out_inv :: "'e rte_port_out \<Rightarrow> bool" where
  "port_out_inv port \<longleftrightarrow> out_f_tx (po_ops port) \<noteq> None \<and> out_f_tx_bulk (po_ops port) \<noteq> None \<and>
     (po_f_action port = None \<longleftrightarrow> po_f_action_bulk port = None)"

definition table_inv :: "'e rte_table \<Rightarrow> bool" where
  "table_inv table \<longleftrightarrow> tbl_f_lookup (t_ops table) \<noteq> None \<and> (action (t_default_entry table) = TABLE \<longrightarrow>
     t_table_next_id_valid table \<and> next_id (t_default_entry table) = t_table_next_id table)"

definition config_inv :: "u64 \<Rightarrow> 'e rte_pipeline \<Rightarrow> 'e world \<Rightarrow> bool" where
  "config_inv ptr p w \<longleftrightarrow> chain_ok p \<and> length (p_ports_out p) = 64 \<and> length (p_tables p) = 64 \<and>
     unat (p_num_ports_out p) \<le> 64 \<and> unat (p_num_tables p) \<le> 64 \<and>
     (\<forall>port \<in> set (ports_in p). port_in_inv p port) \<and> (\<forall>port \<in> set (ports_out p). port_out_inv port) \<and>
     (\<forall>table \<in> set (tables p). table_inv table) \<and> opened w = released w + held ptr p"

lemma take_Suc_update: "n < length xs \<Longrightarrow> take (Suc n) (xs[n := y]) = take n xs @ [y]"
  by (simp add: take_Suc_conv_app_nth)

lemma num_succ: "unat (n :: u32) \<le> 64 \<Longrightarrow> n \<noteq> 64 \<Longrightarrow> unat n < 64 \<and> unat (n + 1) = Suc (unat n)"
proof -
  assume n: "unat n \<le> 64" "n \<noteq> 64"
  have "unat n \<noteq> unat (64 :: u32)" using n(2) by (simp add: word_unat_eq_iff del: unat_numeral)
  then have "unat n < 64" using n(1) by simp
  moreover from this have "unat (n + 1) = Suc (unat n)" by (subst unat_word_ariths(1)) simp
  ultimately show ?thesis ..
qed

lemma config_create:
  assumes "rte_pipeline_create env params w = (Some (ptr, p), w')" and "trace w = []"
  shows "config_inv ptr p w'"
proof -
  obtain name sock off e where p: "p = \<lparr>p_name = name, p_socket_id = sock, p_offset_port_id = off,
      p_ports_in = replicate 64 zero_port_in, p_ports_out = replicate 64 zero_port_out, p_tables = replicate 64 zero_table,
      p_num_ports_in = 0, p_num_ports_out = 0, p_num_tables = 0, p_enabled_port_in_mask = 0, p_port_in_first = None,
      p_pkts = replicate 64 0, p_entries = replicate 64 None, p_action_mask0 = (\<lambda>_. 0), p_action_mask1 = (\<lambda>_. 0)\<rparr>"
    "w' = emit (Ev_zmalloc ptr) e w"
    using assms(1) by (auto simp: rte_pipeline_create_def Let_def split: if_splits prod.splits)
  show ?thesis
    using assms(2) by (simp add: p config_inv_def chain_ok_def first_in_def ports_in_def ports_out_def tables_def held_def
        opened_def released_def emit_def)
qed

lemma config_port_in:
  assumes inv: "config_inv ptr p w" and run: "rte_pipeline_port_in_create (Some p) params given w = Some (r, Some p', w')"
  shows "config_inv ptr p' w'"
proof (cases "rte_pipeline_port_in_check_params (Some p) params given = 0")
  case False
  then show ?thesis using run inv by (simp add: rte_pipeline_port_in_create_def)
next
  case True
  then obtain ps ops where ps: "params = Some ps" "pip_ops ps = Some ops" "in_f_create ops \<noteq> None" "in_f_rx ops \<noteq> None"
    "pip_burst_size ps \<noteq> 0" "\<not> 64 < pip_burst_size ps" "p_num_ports_in p \<noteq> 64"
    by (auto simp: rte_pipeline_port_in_check_params_def split: option.splits if_splits)
  obtain h e where h: "the (in_f_create ops) (pip_arg_create ps) (p_socket_id p) (ext w) = (h, e)" by fastforce
  show ?thesis
  proof (cases "h = 0")
    case h0: True
    then have "p' = p" "w' = w\<lparr>ext := e\<rparr>" using run True ps h by (auto simp: rte_pipeline_port_in_create_def Let_def)
    then show ?thesis using inv by (simp add: config_inv_def)
  next
    case False
    define n where "n = unat (p_num_ports_in p)"
    have ch: "chain_ok p" using inv by (simp add: config_inv_def)
    then have len: "length (p_ports_in p) = 64" and num: "unat (p_num_ports_in p) \<le> 64" by (simp_all add: chain_ok_def)
    note ns = num_succ [OF num ps(7), folded n_def]
    define port where "port = (p_ports_in p ! n)\<lparr>pi_ops := ops, pi_f_action := pip_f_action ps, pi_arg_ah := pip_arg_ah ps,
      pi_burst_size := pip_burst_size ps, pi_table_id := RTE_TABLE_INVALID, pi_h_port := h, pi_next := None\<rparr>"
    have p': "p' = p\<lparr>p_num_ports_in := p_num_ports_in p + 1, p_ports_in := (p_ports_in p)[n := port]\<rparr>" "w' = emit (Ev_create h) e w"
      using run True ps h False len ns by (auto simp: rte_pipeline_port_in_create_def Let_def upd_at_def n_def port_def)
    have pin: "ports_in p' = ports_in p @ [port]" "ports_out p' = ports_out p" "tables p' = tables p"
      using ns len by (simp_all add: p' ports_in_def ports_out_def tables_def take_Suc_update n_def [symmetric])
    have "n \<notin> enabled p" using ch by (auto simp: chain_ok_def n_def)
    then have "chain_ok p'" using ch ns len by (auto simp: chain_ok_def p' n_def [symmetric] nth_list_update less_Suc_eq)
    moreover have "port_in_inv p' port" using ps by (simp add: port_in_inv_def port_def word_gt_0 linorder_not_less)
    moreover have "port_in_inv p' x = port_in_inv p x" for x by (simp add: port_in_inv_def p')
    moreover have "held ptr p' = add_mset (Handle h) (held ptr p)" by (simp add: held_def pin port_def)
    moreover have "length (p_ports_out p') = length (p_ports_out p)" "length (p_tables p') = length (p_tables p)"
      "p_num_ports_out p' = p_num_ports_out p" "p_num_tables p' = p_num_tables p" by (simp_all add: p'(1))
    ultimately show ?thesis using inv unfolding config_inv_def pin by (simp add: p'(2))
  qed
qed

lemma config_port_out:
  assumes inv: "config_inv ptr p w" and run: "rte_pipeline_port_out_create (Some p) params given w = Some (r, Some p', w')"
  shows "config_inv ptr p' w'"
proof (cases "rte_pipeline_port_out_check_params (Some p) params given = 0")
  case False
  then show ?thesis using run inv by (simp add: rte_pipeline_port_out_create_def)
next
  case True
  then obtain ps ops where ps: "params = Some ps" "pop_ops ps = Some ops" "out_f_tx ops \<noteq> None" "out_f_tx_bulk ops \<noteq> None"
    "pop_f_action ps = None \<longleftrightarrow> pop_f_action_bulk ps = None" "p_num_ports_out p \<noteq> 64"
    unfolding rte_pipeline_port_out_check_params_def by (auto split: option.splits if_splits)
  obtain h e where h: "the (out_f_create ops) (pop_arg_create ps) (p_socket_id p) (ext w) = (h, e)" by fastforce
  show ?thesis
  proof (cases "h = 0")
    case h0: True
    then have "p' = p" "w' = w\<lparr>ext := e\<rparr>" using run True ps h by (auto simp: rte_pipeline_port_out_create_def Let_def)
    then show ?thesis using inv by (simp add: config_inv_def)
  next
    case False
    define n where "n = unat (p_num_ports_out p)"
    have len: "length (p_ports_out p) = 64" and num: "unat (p_num_ports_out p) \<le> 64" using inv by (simp_all add: config_inv_def)
    note ns = num_succ [OF num ps(6), folded n_def]
    define port where "port = (p_ports_out p ! n)\<lparr>po_ops := ops, po_f_action := pop_f_action ps, po_f_action_bulk := pop_f_action_bulk ps,
      po_arg_ah := pop_arg_ah ps, po_h_port := h\<rparr>"
    have p': "p' = p\<lparr>p_num_ports_out := p_num_ports_out p + 1, p_ports_out := (p_ports_out p)[n := port]\<rparr>" "w' = emit (Ev_create h) e w"
      using run True ps h False len ns by (auto simp: rte_pipeline_port_out_create_def Let_def upd_at_def n_def port_def)
    have pin: "ports_in p' = ports_in p" "ports_out p' = ports_out p @ [port]" "tables p' = tables p"
      using ns len by (simp_all add: p' ports_in_def ports_out_def tables_def take_Suc_update n_def [symmetric])
    have "chain_ok p'" using inv by (simp add: config_inv_def chain_ok_def p')
    moreover have "port_out_inv port" using ps by (simp add: port_out_inv_def port_def)
    moreover have "port_in_inv p' x = port_in_inv p x" for x by (simp add: port_in_inv_def p')
    moreover have "held ptr p' = add_mset (Handle h) (held ptr p)" by (simp add: held_def pin port_def)
    moreover have "length (p_ports_out p') = 64" "length (p_tables p') = length (p_tables p)"
      "unat (p_num_ports_out p') \<le> 64" "p_num_tables p' = p_num_tables p" using ns len by (simp_all add: p'(1) n_def)
    ultimately show ?thesis using inv unfolding config_inv_def pin by (simp add: p'(2))
  qed
qed

lemma config_table:
  assumes inv: "config_inv ptr p w" and run: "rte_pipeline_table_create env (Some p) params given w = Some (r, Some p', w')"
  shows "config_inv ptr p' w'"
proof (cases "rte_table_check_params (Some p) params given = 0")
  case False
  then show ?thesis using run inv by (simp add: rte_pipeline_table_create_def)
next
  case True
  then obtain ps ops where ps: "params = Some ps" "tp_ops ps = Some ops" "tbl_f_lookup ops \<noteq> None" "p_num_tables p \<noteq> 64"
    by (auto simp: rte_table_check_params_def split: option.splits if_splits)
  define es where "es = sizeof_table_entry + tp_action_data_size ps"
  obtain a e where a: "env_zmalloc env (ucast es) RTE_CACHE_LINE_SIZE (p_socket_id p) (ext w) = (a, e)" by fastforce
  obtain h e' where h: "the (tbl_f_create ops) (tp_arg_create ps) (p_socket_id p) es e = (h, e')" by fastforce
  consider "a = 0" | "a \<noteq> 0" "h = 0" | "a \<noteq> 0" "h \<noteq> 0" by blast
  then show ?thesis
  proof cases
    case 1
    then have "p' = p" "w' = w\<lparr>ext := e\<rparr>" using run True ps a by (auto simp: rte_pipeline_table_create_def Let_def es_def)
    then show ?thesis using inv by (simp add: config_inv_def)
  next
    case 2
    then have "p' = p" "w' = call_free env a ((emit (Ev_zmalloc a) e w)\<lparr>ext := e'\<rparr>)"
      using run True ps a h by (auto simp: rte_pipeline_table_create_def Let_def es_def emit_def)
    then show ?thesis using inv by (simp add: config_inv_def)
  next
    case 3
    define n where "n = unat (p_num_tables p)"
    have len: "length (p_tables p) = 64" and num: "unat (p_num_tables p) \<le> 64" using inv by (simp_all add: config_inv_def)
    note ns = num_succ [OF num ps(4), folded n_def]
    define table where "table = (p_tables p ! n)\<lparr>t_ops := ops, t_f_action_hit := tp_f_action_hit ps,
      t_f_action_miss := tp_f_action_miss ps, t_arg_ah := tp_arg_ah ps, t_entry_size := es,
      t_default_entry_ptr := a, t_default_entry := zero_entry es, t_h_table := h, t_table_next_id := 0, t_table_next_id_valid := False\<rparr>"
    have p': "p' = p\<lparr>p_num_tables := p_num_tables p + 1, p_tables := (p_tables p)[n := table]\<rparr>"
      "w' = emit (Ev_create h) e' (emit (Ev_zmalloc a) e w)"
      using run True ps a h 3 len ns by (auto simp: rte_pipeline_table_create_def Let_def upd_at_def n_def table_def es_def emit_def)
    have pin: "ports_in p' = ports_in p" "ports_out p' = ports_out p" "tables p' = tables p @ [table]"
      using ns len by (simp_all add: p' ports_in_def ports_out_def tables_def take_Suc_update n_def [symmetric])
    have "chain_ok p'" using inv by (simp add: config_inv_def chain_ok_def p')
    moreover have "table_inv table" using ps by (simp add: table_inv_def table_def zero_entry_def)
    moreover have "port_in_inv p' x" if "port_in_inv p x" for x
      using that ns by (auto simp: port_in_inv_def p' word_less_nat_alt n_def)
    moreover have "held ptr p' = add_mset (Handle h) (add_mset (Memory a) (held ptr p))" by (simp add: held_def pin table_def)
    moreover have "length (p_ports_out p') = length (p_ports_out p)" "length (p_tables p') = 64"
      "p_num_ports_out p' = p_num_ports_out p" "unat (p_num_tables p') \<le> 64" using ns len by (simp_all add: p'(1) n_def)
    ultimately show ?thesis using inv unfolding config_inv_def pin by (simp add: p'(2))
  qed
qed

lemma map_take_update: "f y = f (xs ! i) \<Longrightarrow> map f (take n (xs[i := y])) = map f (take n xs)"
  by (cases "i < length xs"; rule nth_equalityI) (auto simp: nth_list_update list_update_beyond)

lemma set_take_update: "x \<in> set (take n (xs[i := y])) \<Longrightarrow> x = y \<or> x \<in> set (take n xs)"
  using set_update_subset_insert [of "take n xs" i y] by (auto simp: take_update_swap)

text \<open>A call that rewrites one table or one port in place, keeping its operations and handles.\<close>

lemma config_upd_table:
  assumes inv: "config_inv ptr p w" and new: "table_inv table" and keep: "t_h_table table = t_h_table (p_tables p ! t)" "t_default_entry_ptr table = t_default_entry_ptr (p_tables p ! t)"
    and t: "t < unat (p_num_tables p)"
  shows "config_inv ptr (p\<lparr>p_tables := (p_tables p)[t := table]\<rparr>) w"
proof -
  let ?p = "p\<lparr>p_tables := (p_tables p)[t := table]\<rparr>"
  have num: "unat (p_num_tables p) \<le> 64" "length (p_tables p) = 64" using inv by (simp_all add: config_inv_def)
  have "x = table \<or> x \<in> set (tables p)" if "x \<in> set (tables ?p)" for x
    using that set_take_update [of x] by (simp add: tables_def)
  then have "\<forall>x \<in> set (tables ?p). table_inv x"
    using inv new unfolding config_inv_def by blast
  moreover have "ports_in ?p = ports_in p" "ports_out ?p = ports_out p" by (simp_all add: ports_in_def ports_out_def)
  moreover have "held ptr ?p = held ptr p"
    using keep by (simp add: held_def tables_def ports_in_def ports_out_def map_take_update)
  moreover have "chain_ok ?p" "port_in_inv ?p x = port_in_inv p x" for x
    using inv by (simp_all add: config_inv_def chain_ok_def port_in_inv_def)
  ultimately show ?thesis using inv unfolding config_inv_def by simp
qed

lemma config_ports_next:
  assumes inv: "config_inv ptr p w" and ch: "chain_ok p'" and same: "same_but_chain p p'"
  shows "config_inv ptr p' w"
proof -
  let ?c = "\<lambda>p. p\<lparr>p_enabled_port_in_mask := 0, p_port_in_first := None, p_ports_in := []\<rparr>"
  let ?n = "\<lambda>port. port\<lparr>pi_next := None\<rparr>"
  have eq: "?c p' = ?c p" and ports: "map ?n (p_ports_in p') = map ?n (p_ports_in p)" using same by (simp_all add: same_but_chain_def)
  have f: "p_ports_out p' = p_ports_out p" "p_tables p' = p_tables p" "p_num_ports_in p' = p_num_ports_in p"
    "p_num_ports_out p' = p_num_ports_out p" "p_num_tables p' = p_num_tables p"
    using arg_cong [OF eq, of p_ports_out] arg_cong [OF eq, of p_tables] arg_cong [OF eq, of p_num_ports_in]
      arg_cong [OF eq, of p_num_ports_out] arg_cong [OF eq, of p_num_tables] by simp_all
  have pm: "map ?n (ports_in p') = map ?n (ports_in p)" using ports by (simp add: ports_in_def f take_map [symmetric])
  have "map (\<lambda>port. Handle (pi_h_port port)) (map ?n xs) = map (\<lambda>port. Handle (pi_h_port port)) xs" for xs :: "'a rte_port_in list" by simp
  then have "map (\<lambda>port. Handle (pi_h_port port)) (ports_in p') = map (\<lambda>port. Handle (pi_h_port port)) (ports_in p)" by (metis pm)
  then have "held ptr p' = held ptr p" by (simp add: held_def ports_out_def tables_def f)
  have ex: "\<exists>q \<in> set (ports_in p). ?n q = ?n x" if "x \<in> set (ports_in p')" for x
  proof -
    have "?n x \<in> ?n ` set (ports_in p)" using that pm by (metis image_eqI list.set_map)
    then show ?thesis by auto
  qed
  have "port_in_inv p' x = port_in_inv p q" if "?n q = ?n x" for x q
  proof -
    have "pi_ops (?n q) = pi_ops (?n x)" "pi_burst_size (?n q) = pi_burst_size (?n x)" "pi_table_id (?n q) = pi_table_id (?n x)"
      using that by simp_all
    then show ?thesis by (simp add: port_in_inv_def f)
  qed
  then have "port_in_inv p' x" if "x \<in> set (ports_in p')" for x
    using ex [OF that] inv unfolding config_inv_def by metis
  with \<open>held ptr p' = held ptr p\<close> show ?thesis using inv ch unfolding config_inv_def ports_out_def tables_def f by simp
qed

lemma config_connect:
  assumes inv: "config_inv ptr p w" and run: "rte_pipeline_port_in_connect_to_table (Some p) port_id table_id = Some (r, Some p')"
  shows "config_inv ptr p' w"
proof (cases "p_num_ports_in p \<le> port_id \<or> p_num_tables p \<le> table_id")
  case True
  then have "p' = p" using run by (auto simp: rte_pipeline_port_in_connect_to_table_def split: if_splits)
  then show ?thesis using inv by simp
next
  case False
  define n where "n = unat port_id"
  have n: "n < unat (p_num_ports_in p)" and tl: "table_id < p_num_tables p" using False by (simp_all add: n_def word_less_nat_alt not_le)
  have ch: "chain_ok p" and len: "length (p_ports_in p) = 64" and num: "unat (p_num_ports_in p) \<le> 64"
    using inv by (simp_all add: config_inv_def chain_ok_def)
  define port where "port = (p_ports_in p ! n)\<lparr>pi_table_id := table_id\<rparr>"
  have p': "p' = p\<lparr>p_ports_in := (p_ports_in p)[n := port]\<rparr>"
    using run False n num len by (simp add: rte_pipeline_port_in_connect_to_table_def upd_at_def n_def port_def)
  have old: "p_ports_in p ! n \<in> set (ports_in p)" using n num len by (auto simp: ports_in_def in_set_conv_nth intro!: exI [of _ n])
  then have "port_in_inv p port"
    using inv tl unfolding config_inv_def by (simp_all add: port_in_inv_def port_def)
  moreover have "x = port \<or> x \<in> set (ports_in p)" if "x \<in> set (ports_in p')" for x
    using that set_take_update [of x] by (simp add: ports_in_def p')
  ultimately have "\<forall>x \<in> set (ports_in p'). port_in_inv p x"
    using inv unfolding config_inv_def by blast
  moreover have "port_in_inv p' x = port_in_inv p x" "ports_out p' = ports_out p" "tables p' = tables p" for x
    by (simp_all add: port_in_inv_def ports_out_def tables_def p')
  moreover have "chain_ok p'" using ch len n num by (auto simp: chain_ok_def p' port_def nth_list_update)
  moreover have "held ptr p' = held ptr p"
    by (simp add: held_def ports_in_def ports_out_def tables_def p' map_take_update port_def)
  moreover have "length (p_ports_out p') = length (p_ports_out p)" "length (p_tables p') = length (p_tables p)"
      "p_num_ports_out p' = p_num_ports_out p" "p_num_tables p' = p_num_tables p" by (simp_all add: p')
  ultimately show ?thesis using inv unfolding config_inv_def by simp
qed

lemma table_at:
  assumes "config_inv ptr p w" and "\<not> p_num_tables p \<le> t"
  shows "unat t < unat (p_num_tables p)" "read_at (p_tables p) (unat t) = Some (p_tables p ! unat t)"
    "\<And>table. write_at (p_tables p) (unat t) table = Some ((p_tables p)[unat t := table])" "table_inv (p_tables p ! unat t)"
proof -
  have len: "unat (p_num_tables p) \<le> 64" "length (p_tables p) = 64" using assms(1) by (simp_all add: config_inv_def)
  show t: "unat t < unat (p_num_tables p)" using assms(2) by (simp add: word_less_nat_alt not_le)
  then have lt: "unat t < length (p_tables p)" using len by simp
  show "read_at (p_tables p) (unat t) = Some (p_tables p ! unat t)" "\<And>table. write_at (p_tables p) (unat t) table = Some ((p_tables p)[unat t := table])"
    using lt by simp_all
  have "p_tables p ! unat t \<in> set (tables p)" using t len by (auto simp: tables_def in_set_conv_nth intro!: exI [of _ "unat t"])
  then show "table_inv (p_tables p ! unat t)" using assms(1) by (simp add: config_inv_def)
qed

lemma set_next_table_keeps [simp]:
  "t_ops (set_next_table x table) = t_ops table" "t_h_table (set_next_table x table) = t_h_table table"
  "t_default_entry_ptr (set_next_table x table) = t_default_entry_ptr table" "t_default_entry (set_next_table x table) = t_default_entry table"
  "t_entry_size (set_next_table x table) = t_entry_size table"
  by (simp_all add: set_next_table_def)

lemma set_next_table_ok:
  assumes "\<not> topology_clash table x"
  shows "t_table_next_id_valid table \<Longrightarrow> t_table_next_id_valid (set_next_table x table) \<and> t_table_next_id (set_next_table x table) = t_table_next_id table"
    "action x = TABLE \<Longrightarrow> t_table_next_id_valid (set_next_table x table) \<and> t_table_next_id (set_next_table x table) = next_id x"
  using assms by (auto simp: set_next_table_def topology_clash_def)

lemma config_default_add:
  assumes inv: "config_inv ptr p w" and run: "rte_pipeline_table_default_entry_add (Some p) t entry = Some (r, Some p')"
  shows "config_inv ptr p' w"
proof (cases entry)
  case None
  then show ?thesis using run inv by (simp add: rte_pipeline_table_default_entry_add_def)
next
  case (Some x)
  show ?thesis
  proof (cases "p_num_tables p \<le> t \<or> topology_clash (p_tables p ! unat t) x")
    case True
    then have "p' = p" using run Some table_at [OF inv] by (fastforce simp: rte_pipeline_table_default_entry_add_def split: if_splits)
    then show ?thesis using inv by simp
  next
    case False
    then have nt: "\<not> p_num_tables p \<le> t" and nc: "\<not> topology_clash (p_tables p ! unat t) x" by auto
    note at = table_at [OF inv nt]
    define table where "table = set_next_table x (p_tables p ! unat t)"
    obtain copied where c: "copy_entry (t_entry_size table) x = Some copied" "p' = p\<lparr>p_tables := (p_tables p)[unat t := table\<lparr>t_default_entry := copied\<rparr>]\<rparr>"
      using run nt nc at(2,3) by (auto simp: Some rte_pipeline_table_default_entry_add_def Let_def table_def split: bind_splits)
    have "action copied = action x" "next_id copied = next_id x" using c(1) by (auto simp: copy_entry_def Let_def split: if_splits)
    then have "table_inv (table\<lparr>t_default_entry := copied\<rparr>)"
      using at(4) set_next_table_ok [OF nc] by (auto simp: table_inv_def table_def)
    then show ?thesis unfolding c(2) by (intro config_upd_table [OF inv]) (use at(1) in \<open>simp_all add: table_def\<close>)
  qed
qed

lemma config_default_delete:
  assumes inv: "config_inv ptr p w" and run: "rte_pipeline_table_default_entry_delete (Some p) t given = Some (r, Some p')"
  shows "config_inv ptr p' w"
proof (cases "p_num_tables p \<le> t")
  case True
  then show ?thesis using run inv by (simp add: rte_pipeline_table_default_entry_delete_def)
next
  case False
  note at = table_at [OF inv False]
  define table where "table = p_tables p ! unat t"
  have p': "p' = p\<lparr>p_tables := (p_tables p)[unat t := table\<lparr>t_default_entry := zero_entry (t_entry_size table)\<rparr>]\<rparr>"
    using run False at(2,3) by (simp add: rte_pipeline_table_default_entry_delete_def Let_def table_def)
  have "table_inv (table\<lparr>t_default_entry := zero_entry (t_entry_size table)\<rparr>)"
    using at(4) by (simp add: table_inv_def table_def zero_entry_def)
  then show ?thesis unfolding p' by (intro config_upd_table [OF inv]) (use at(1) in \<open>simp_all add: table_def\<close>)
qed

lemma config_entry_add:
  assumes inv: "config_inv ptr p w" and run: "rte_pipeline_table_entry_add (Some p) t key entry w = Some (r, Some p', w')"
  shows "config_inv ptr p' w'"
proof -
  have ext: "config_inv ptr p (w\<lparr>ext := e\<rparr>)" for e using inv by (simp add: config_inv_def)
  show ?thesis
  proof (cases "key = 0 \<or> entry = None \<or> p_num_tables p \<le> t")
    case True
    then have "p' = p" "w' = w" using run by (auto simp: rte_pipeline_table_entry_add_def split: if_splits option.splits)
    then show ?thesis using inv by simp
  next
    case False
    then obtain x where x: "key \<noteq> 0" "entry = Some x" "\<not> p_num_tables p \<le> t" by auto
    note at = table_at [OF inv x(3)]
    show ?thesis
    proof (cases "tbl_f_add (t_ops (p_tables p ! unat t)) = None \<or> topology_clash (p_tables p ! unat t) x")
      case True
      then have "p' = p" "w' = w" using run x at(2) by (auto simp: rte_pipeline_table_entry_add_def split: if_splits option.splits)
      then show ?thesis using inv by simp
    next
      case False
      then obtain f where f: "tbl_f_add (t_ops (p_tables p ! unat t)) = Some f" and nc: "\<not> topology_clash (p_tables p ! unat t) x" by auto
      obtain s g a e where r: "f (t_h_table (p_tables p ! unat t)) key x (ext w) = ((s, g, a), e)" by (metis surj_pair)
      define table where "table = set_next_table x (p_tables p ! unat t)"
      have p': "p' = p\<lparr>p_tables := (p_tables p)[unat t := table]\<rparr>" "w' = w\<lparr>ext := e\<rparr>"
        using run x at(2,3) f nc r by (simp_all add: rte_pipeline_table_entry_add_def table_def)
      have "table_inv table" using at(4) set_next_table_ok(1) [OF nc] by (auto simp: table_inv_def table_def)
      then show ?thesis unfolding p' by (intro config_upd_table [OF ext]) (use at(1) in \<open>simp_all add: table_def\<close>)
    qed
  qed
qed

lemma fold_next_table_keeps [simp]:
  "t_ops (fold set_next_table xs table) = t_ops table" "t_h_table (fold set_next_table xs table) = t_h_table table"
  "t_default_entry_ptr (fold set_next_table xs table) = t_default_entry_ptr table"
  by (induction xs arbitrary: table) simp_all

lemma fold_next_table_inv: "table_inv table \<Longrightarrow> table_inv (fold set_next_table xs table)"
proof (induction xs arbitrary: table)
  case (Cons x xs)
  have "table_inv (set_next_table x table)" using Cons.prems by (auto simp: table_inv_def set_next_table_def)
  then show ?case using Cons.IH by simp
qed simp

lemma config_ext: "config_inv ptr p (w\<lparr>ext := e\<rparr>) = config_inv ptr p w"
  by (simp add: config_inv_def)

lemma config_entry_add_bulk:
  assumes inv: "config_inv ptr p w" and run: "rte_pipeline_table_entry_add_bulk (Some p) t keys entries n w = Some (r, Some p', w')"
  shows "config_inv ptr p' w'"
proof (cases "keys = None \<or> entries = None \<or> p_num_tables p \<le> t")
  case True
  then have "p' = p" "w' = w" using run by (auto simp: rte_pipeline_table_entry_add_bulk_def split: if_splits option.splits)
  then show ?thesis using inv by simp
next
  case False
  then obtain ks es where x: "keys = Some ks" "entries = Some es" "\<not> p_num_tables p \<le> t" by auto
  note at = table_at [OF inv x(3)]
  define old where "old = p_tables p ! unat t"
  define table where "table = fold set_next_table (take (unat n) es) old"
  have "p' = p \<and> w' = w \<or> (\<exists>e. p' = p\<lparr>p_tables := (p_tables p)[unat t := table]\<rparr> \<and> w' = w\<lparr>ext := e\<rparr>)"
    using run x at(2,3) by (auto simp: rte_pipeline_table_entry_add_bulk_def Let_def table_def old_def split: option.splits if_splits prod.splits)
  moreover have "config_inv ptr (p\<lparr>p_tables := (p_tables p)[unat t := table]\<rparr>) (w\<lparr>ext := e\<rparr>)" for e
    unfolding config_ext
    by (rule config_upd_table [OF inv]) (use at(1,4) fold_next_table_inv in \<open>simp_all add: table_def old_def\<close>)
  ultimately show ?thesis using inv by blast
qed

lemma config_entry_delete:
  assumes "config_inv ptr p w" and "rte_pipeline_table_entry_delete (Some p) t key w = Some (r, w')"
  shows "config_inv ptr p w'"
  using assms table_at(2) [OF assms(1)]
  by (auto simp: rte_pipeline_table_entry_delete_def Let_def config_ext split: option.splits if_splits prod.splits)

lemma config_entry_delete_bulk:
  assumes "config_inv ptr p w" and "rte_pipeline_table_entry_delete_bulk (Some p) t keys n w = Some (r, w')"
  shows "config_inv ptr p w'"
  using assms table_at(2) [OF assms(1)]
  by (auto simp: rte_pipeline_table_entry_delete_bulk_def Let_def config_ext split: option.splits if_splits prod.splits)

lemma config_enable:
  assumes inv: "config_inv ptr p w" and run: "rte_pipeline_port_in_enable (Some p) port_id = Some (r, Some p')"
  shows "config_inv ptr p' w"
proof (cases "port_id < p_num_ports_in p")
  case True
  have "chain_ok p" using inv by (simp add: config_inv_def)
  from rte_pipeline_port_in_enable_ok [OF this True] show ?thesis using run config_ports_next [OF inv] by auto
next
  case False
  then show ?thesis using run inv by (simp add: rte_pipeline_port_in_enable_def not_less)
qed

lemma config_disable:
  assumes inv: "config_inv ptr p w" and run: "rte_pipeline_port_in_disable (Some p) port_id = Some (r, Some p')"
  shows "config_inv ptr p' w"
proof (cases "port_id < p_num_ports_in p")
  case True
  have "chain_ok p" using inv by (simp add: config_inv_def)
  from rte_pipeline_port_in_disable_ok [OF this True] show ?thesis using run config_ports_next [OF inv] by auto
next
  case False
  then show ?thesis using run inv by (simp add: rte_pipeline_port_in_disable_def not_less)
qed

lemma configured_inv: "configured env ptr p w \<Longrightarrow> config_inv ptr p w"
proof (induction rule: configured.induct)
  case (cfg_create params w ptr p w')
  then show ?case by (rule config_create)
next
  case (cfg_port_in ptr p w params given r p' w')
  then show ?case using config_port_in by blast
next
  case (cfg_port_out ptr p w params given r p' w')
  then show ?case using config_port_out by blast
next
  case (cfg_table ptr p w params given r p' w')
  then show ?case using config_table by blast
qed (blast intro: config_connect config_enable config_disable config_default_add config_default_delete config_entry_add
    config_entry_add_bulk config_entry_delete config_entry_delete_bulk)+

section \<open>Calls that do not fault\<close>

text \<open>
  What a configuration call can do with any arguments but run outside the arrays of the pipeline.
  A default entry has to be as long as the entries of its table, and as many entries have to be
  given in bulk as are announced.
\<close>

definition calls_safe :: "'e pipe_env \<Rightarrow> 'e rte_pipeline \<Rightarrow> 'e world \<Rightarrow> bool" where
  "calls_safe env p w \<longleftrightarrow>
     (\<forall>params given. rte_pipeline_port_in_create (Some p) params given w \<noteq> None) \<and>
     (\<forall>params given. rte_pipeline_port_out_create (Some p) params given w \<noteq> None) \<and>
     (\<forall>params given. rte_pipeline_table_create env (Some p) params given w \<noteq> None) \<and>
     (\<forall>i t. rte_pipeline_port_in_connect_to_table (Some p) i t \<noteq> None) \<and>
     (\<forall>i. rte_pipeline_port_in_enable (Some p) i \<noteq> None \<and> rte_pipeline_port_in_disable (Some p) i \<noteq> None) \<and>
     (\<forall>t x. (\<forall>y. x = Some y \<longrightarrow> unat (t_entry_size (p_tables p ! unat t) - sizeof_table_entry) \<le> length (action_data y)) \<longrightarrow>
        rte_pipeline_table_default_entry_add (Some p) t x \<noteq> None) \<and>
     (\<forall>t given. rte_pipeline_table_default_entry_delete (Some p) t given \<noteq> None) \<and>
     (\<forall>t key x. rte_pipeline_table_entry_add (Some p) t key x w \<noteq> None) \<and>
     (\<forall>t key. rte_pipeline_table_entry_delete (Some p) t key w \<noteq> None) \<and>
     (\<forall>t ks xs n. (\<forall>ys. xs = Some ys \<longrightarrow> unat n \<le> length ys) \<longrightarrow> rte_pipeline_table_entry_add_bulk (Some p) t ks xs n w \<noteq> None) \<and>
     (\<forall>t ks n. rte_pipeline_table_entry_delete_bulk (Some p) t ks n w \<noteq> None)"

lemma upd_at_in: "i < length xs \<Longrightarrow> upd_at i f xs = Some (xs[i := f (xs ! i)])"
  by (simp add: upd_at_def)

lemma config_creates:
  assumes inv: "config_inv ptr p w"
  shows "rte_pipeline_port_in_create (Some p) ips given w \<noteq> None" and "rte_pipeline_port_out_create (Some p) ops given w \<noteq> None"
    and "rte_pipeline_table_create env (Some p) tps given w \<noteq> None"
proof -
  have len: "length (p_ports_in p) = 64" "unat (p_num_ports_in p) \<le> 64" "length (p_ports_out p) = 64" "unat (p_num_ports_out p) \<le> 64"
    "length (p_tables p) = 64" "unat (p_num_tables p) \<le> 64"
    using inv by (simp_all add: config_inv_def chain_ok_def)
  show "rte_pipeline_port_in_create (Some p) ips given w \<noteq> None"
  proof (cases "rte_pipeline_port_in_check_params (Some p) ips given = 0")
    case True
    then have "p_num_ports_in p \<noteq> 64" by (auto simp: rte_pipeline_port_in_check_params_def split: option.splits if_splits)
    then show ?thesis using True num_succ [OF len(2)] len(1)
      by (simp add: rte_pipeline_port_in_create_def Let_def upd_at_in split: prod.split)
  qed (simp add: rte_pipeline_port_in_create_def)
  show "rte_pipeline_port_out_create (Some p) ops given w \<noteq> None"
  proof (cases "rte_pipeline_port_out_check_params (Some p) ops given = 0")
    case True
    then have "p_num_ports_out p \<noteq> 64"
      unfolding rte_pipeline_port_out_check_params_def by (auto split: option.splits if_splits)
    then show ?thesis using True num_succ [OF len(4)] len(3)
      by (simp add: rte_pipeline_port_out_create_def Let_def upd_at_in split: prod.split)
  qed (simp add: rte_pipeline_port_out_create_def)
  show "rte_pipeline_table_create env (Some p) tps given w \<noteq> None"
  proof (cases "rte_table_check_params (Some p) tps given = 0")
    case True
    then have "p_num_tables p \<noteq> 64" by (auto simp: rte_table_check_params_def split: option.splits if_splits)
    then show ?thesis using True num_succ [OF len(6)] len(5)
      by (simp add: rte_pipeline_table_create_def Let_def upd_at_in split: prod.split)
  qed (simp add: rte_pipeline_table_create_def)
qed

lemma config_links:
  assumes inv: "config_inv ptr p w"
  shows "rte_pipeline_port_in_connect_to_table (Some p) i t \<noteq> None" and "rte_pipeline_port_in_enable (Some p) i \<noteq> None"
    and "rte_pipeline_port_in_disable (Some p) i \<noteq> None"
proof -
  have ch: "chain_ok p" using inv by (simp add: config_inv_def)
  then have len: "length (p_ports_in p) = 64" "unat (p_num_ports_in p) \<le> 64" by (simp_all add: chain_ok_def)
  have "unat i < 64" if "\<not> p_num_ports_in p \<le> i" using that len(2) by (simp add: word_less_nat_alt not_le)
  then show "rte_pipeline_port_in_connect_to_table (Some p) i t \<noteq> None"
    using len(1) by (simp add: rte_pipeline_port_in_connect_to_table_def upd_at_in)
  show "rte_pipeline_port_in_enable (Some p) i \<noteq> None"
  proof (cases "i < p_num_ports_in p")
    case True
    then show ?thesis using rte_pipeline_port_in_enable_ok [OF ch True] by auto
  qed (simp add: rte_pipeline_port_in_enable_def not_less)
  show "rte_pipeline_port_in_disable (Some p) i \<noteq> None"
  proof (cases "i < p_num_ports_in p")
    case True
    then show ?thesis using rte_pipeline_port_in_disable_ok [OF ch True] by auto
  qed (simp add: rte_pipeline_port_in_disable_def not_less)
qed

lemma config_entries:
  assumes inv: "config_inv ptr p w"
  shows "(\<forall>y. x = Some y \<longrightarrow> unat (t_entry_size (p_tables p ! unat t) - sizeof_table_entry) \<le> length (action_data y)) \<Longrightarrow>
      rte_pipeline_table_default_entry_add (Some p) t x \<noteq> None"
    and "rte_pipeline_table_default_entry_delete (Some p) t given \<noteq> None"
    and "rte_pipeline_table_entry_add (Some p) t key x w \<noteq> None" and "rte_pipeline_table_entry_delete (Some p) t key w \<noteq> None"
    and "(\<forall>ys. xs = Some ys \<longrightarrow> unat n \<le> length ys) \<Longrightarrow> rte_pipeline_table_entry_add_bulk (Some p) t ks xs n w \<noteq> None"
    and "rte_pipeline_table_entry_delete_bulk (Some p) t ks n w \<noteq> None"
proof -
  note at = table_at(2,3) [OF inv, of t]
  show "rte_pipeline_table_default_entry_add (Some p) t x \<noteq> None"
    if "\<forall>y. x = Some y \<longrightarrow> unat (t_entry_size (p_tables p ! unat t) - sizeof_table_entry) \<le> length (action_data y)"
    using that at by (cases x) (auto simp: rte_pipeline_table_default_entry_add_def copy_entry_def Let_def)
  show "rte_pipeline_table_default_entry_delete (Some p) t given \<noteq> None"
    using at by (auto simp: rte_pipeline_table_default_entry_delete_def Let_def)
  show "rte_pipeline_table_entry_add (Some p) t key x w \<noteq> None"
    using at by (auto simp: rte_pipeline_table_entry_add_def Let_def split: option.split prod.split)
  show "rte_pipeline_table_entry_delete (Some p) t key w \<noteq> None"
    using at by (auto simp: rte_pipeline_table_entry_delete_def Let_def split: option.split prod.split)
  show "rte_pipeline_table_entry_add_bulk (Some p) t ks xs n w \<noteq> None" if "\<forall>ys. xs = Some ys \<longrightarrow> unat n \<le> length ys"
    using that at by (auto simp: rte_pipeline_table_entry_add_bulk_def Let_def split: option.split prod.split)
  show "rte_pipeline_table_entry_delete_bulk (Some p) t ks n w \<noteq> None"
    using at by (auto simp: rte_pipeline_table_entry_delete_bulk_def Let_def split: option.split prod.split)
qed

lemma config_calls_safe: "config_inv ptr p w \<Longrightarrow> calls_safe env p w"
  unfolding calls_safe_def by (intro conjI allI impI) (rule config_creates config_links config_entries, assumption+)+

section \<open>A pipeline built by calls\<close>

definition demo_params :: "rte_pipeline_params option" where
  "demo_params = Some \<lparr>pp_name = Some ''demo'', pp_socket_id = 0, pp_offset_port_id = 0\<rparr>"

definition demo_port_params :: "(pkt list \<Rightarrow> u32 \<Rightarrow> u64 \<Rightarrow> u64 \<Rightarrow> unit \<Rightarrow> u64 \<times> unit) option \<Rightarrow> unit rte_pipeline_port_in_params option" where
  "demo_port_params act =
     Some \<lparr>pip_ops = Some (pi_ops demo_in), pip_arg_create = 0, pip_f_action = act, pip_arg_ah = 0, pip_burst_size = 32\<rparr>"

definition demo_out_params :: "unit rte_pipeline_port_out_params option" where
  "demo_out_params = Some \<lparr>pop_ops = Some (po_ops demo_out), pop_arg_create = 0, pop_f_action = None, pop_f_action_bulk = None, pop_arg_ah = 0\<rparr>"

definition demo_table_params :: "unit rte_pipeline_table_params option" where
  "demo_table_params = Some \<lparr>tp_ops = Some (t_ops demo_table), tp_arg_create = 0, tp_f_action_hit = None, tp_f_action_miss = None,
     tp_arg_ah = 0, tp_action_data_size = 0\<rparr>"

definition built_table :: "unit rte_table" where
  "built_table = demo_table\<lparr>t_default_entry_ptr := 0x1000\<rparr>"

definition built :: "(pkt list \<Rightarrow> u32 \<Rightarrow> u64 \<Rightarrow> u64 \<Rightarrow> unit \<Rightarrow> u64 \<times> unit) option \<Rightarrow> unit rte_pipeline \<Rightarrow> bool" where
  "built act p \<longleftrightarrow> p_num_ports_in p = 1 \<and> p_num_ports_out p = 1 \<and> p_num_tables p = 1 \<and> p_port_in_first p = Some 0 \<and>
     length (p_ports_in p) = 64 \<and> p_ports_in p ! 0 = demo_in\<lparr>pi_f_action := act\<rparr> \<and>
     p_ports_out p = demo_out # replicate 63 zero_port_out \<and> p_tables p = built_table # replicate 63 zero_table \<and>
     p_pkts p = replicate 64 0 \<and> p_entries p = replicate 64 None"

lemma replicate_64: "replicate 64 x = x # replicate 63 x"
  by (simp add: numeral_eq_Suc)

lemma built_enable:
  assumes ch: "chain_ok p" and p: "p_num_ports_in p = 1" "p_enabled_port_in_mask p = 0" "p_ports_in p ! 0 = port" "pi_next port = None"
  shows "\<exists>p'. rte_pipeline_port_in_enable (Some p) 0 = Some (0, Some p') \<and> p_port_in_first p' = Some 0 \<and>
    length (p_ports_in p') = 64 \<and> p_ports_in p' ! 0 = port \<and> p_num_ports_in p' = 1 \<and> p_num_ports_out p' = p_num_ports_out p \<and>
    p_num_tables p' = p_num_tables p \<and> p_ports_out p' = p_ports_out p \<and> p_tables p' = p_tables p \<and> p_pkts p' = p_pkts p \<and>
    p_entries p' = p_entries p"
proof -
  have lt: "(0 :: u32) < p_num_ports_in p" by (simp add: p)
  obtain p' where p': "rte_pipeline_port_in_enable (Some p) 0 = Some (0, Some p')" "chain_ok p'" "enabled p' = {0}" "same_but_chain p p'"
    using rte_pipeline_port_in_enable_ok [OF ch lt] by (auto simp: p(2))
  let ?c = "\<lambda>p. p\<lparr>p_enabled_port_in_mask := 0, p_port_in_first := None, p_ports_in := []\<rparr>"
  have eq: "?c p' = ?c p" using p'(4) by (simp add: same_but_chain_def)
  have f: "p_num_ports_in p' = 1" "p_num_ports_out p' = p_num_ports_out p" "p_num_tables p' = p_num_tables p"
    "p_ports_out p' = p_ports_out p" "p_tables p' = p_tables p" "p_pkts p' = p_pkts p" "p_entries p' = p_entries p"
    using arg_cong [OF eq, of p_num_ports_in] arg_cong [OF eq, of p_num_ports_out] arg_cong [OF eq, of p_num_tables]
      arg_cong [OF eq, of p_ports_out] arg_cong [OF eq, of p_tables] arg_cong [OF eq, of p_pkts] arg_cong [OF eq, of p_entries] p(1)
    by simp_all
  have len: "length (p_ports_in p') = 64" "length (p_ports_in p) = 64" using p'(2) ch by (simp_all add: chain_ok_def)
  have "p_port_in_first p' = Some 0" using p'(2,3) by (simp add: chain_ok_def first_in_def)
  moreover have nx: "pi_next (p_ports_in p' ! 0) = None" using p'(2,3) by (simp add: chain_ok_def succ_in_def)
  moreover have "p_ports_in p' ! 0 = port"
  proof -
    have "map (\<lambda>port. port\<lparr>pi_next := None\<rparr>) (p_ports_in p') ! 0 = map (\<lambda>port. port\<lparr>pi_next := None\<rparr>) (p_ports_in p) ! 0"
      using p'(4) by (simp add: same_but_chain_def)
    then have "(p_ports_in p' ! 0)\<lparr>pi_next := None\<rparr> = port\<lparr>pi_next := None\<rparr>" using len p(3) by simp
    moreover have "x\<lparr>pi_next := None\<rparr> = x" if "pi_next x = None" for x :: "'a rte_port_in" using that by (cases x) simp
    ultimately show ?thesis using nx p(4) by metis
  qed
  ultimately show ?thesis using p'(1) f len(1) by (intro exI [of _ p']) simp
qed

lemma demo_built: "\<exists>p w. configured demo_env 0x1000 p w \<and> built act p"
proof -
  obtain p1 w1 where 1: "rte_pipeline_create demo_env demo_params \<lparr>ext = (), trace = []\<rparr> = (Some (0x1000, p1), w1)"
    by (simp add: rte_pipeline_create_def rte_pipeline_check_params_def demo_params_def demo_env_def)
  have c1: "configured demo_env 0x1000 p1 w1" by (rule cfg_create [OF 1]) simp
  have n1: "p_ports_in p1 = replicate 64 zero_port_in" "p_ports_out p1 = replicate 64 zero_port_out" "p_tables p1 = replicate 64 zero_table"
    "p_num_ports_in p1 = 0" "p_num_ports_out p1 = 0" "p_num_tables p1 = 0" "p_enabled_port_in_mask p1 = 0"
    "p_pkts p1 = replicate 64 0" "p_entries p1 = replicate 64 None"
    using 1 by (auto simp: rte_pipeline_create_def rte_pipeline_check_params_def demo_params_def demo_env_def)
  define port where "port = demo_in\<lparr>pi_f_action := act\<rparr>"
  obtain w2 where 2: "rte_pipeline_port_in_create (Some p1) (demo_port_params act) True w1 = Some ((0, Some 0),
      Some (p1\<lparr>p_num_ports_in := 1, p_ports_in := port\<lparr>pi_table_id := RTE_TABLE_INVALID\<rparr> # replicate 63 zero_port_in\<rparr>), w2)"
    by (simp add: rte_pipeline_port_in_create_def rte_pipeline_port_in_check_params_def demo_port_params_def n1 upd_at_in demo_in_def
        word_less_nat_alt replicate_64 port_def zero_port_in_def)
  note c2 = cfg_port_in [OF c1 2]
  define p2 where "p2 = p1\<lparr>p_num_ports_in := 1, p_ports_in := port\<lparr>pi_table_id := RTE_TABLE_INVALID\<rparr> # replicate 63 zero_port_in\<rparr>"
  obtain w3 where 3: "rte_pipeline_port_out_create (Some p2) demo_out_params True w2 = Some ((0, Some 0),
      Some (p2\<lparr>p_num_ports_out := 1, p_ports_out := demo_out # replicate 63 zero_port_out\<rparr>), w3)"
    by (simp add: rte_pipeline_port_out_create_def rte_pipeline_port_out_check_params_def demo_out_params_def p2_def n1 upd_at_in
        demo_out_def replicate_64 zero_port_out_def)
  note c3 = cfg_port_out [OF c2 [folded p2_def] 3]
  define p3 where "p3 = p2\<lparr>p_num_ports_out := 1, p_ports_out := demo_out # replicate 63 zero_port_out\<rparr>"
  obtain w4 where 4: "rte_pipeline_table_create demo_env (Some p3) demo_table_params True w3 = Some ((0, Some 0),
      Some (p3\<lparr>p_num_tables := 1, p_tables := built_table # replicate 63 zero_table\<rparr>), w4)"
    by (simp add: rte_pipeline_table_create_def rte_table_check_params_def demo_table_params_def p3_def p2_def n1 upd_at_in
        demo_table_def built_table_def demo_env_def replicate_64 zero_table_def)
  note c4 = cfg_table [OF c3 [folded p3_def] 4]
  define p4 where "p4 = p3\<lparr>p_num_tables := 1, p_tables := built_table # replicate 63 zero_table\<rparr>"
  have 5: "rte_pipeline_port_in_connect_to_table (Some p4) 0 0 =
      Some (0, Some (p4\<lparr>p_ports_in := port # replicate 63 zero_port_in\<rparr>))"
    by (simp add: rte_pipeline_port_in_connect_to_table_def p4_def p3_def p2_def upd_at_in port_def demo_in_def zero_port_in_def)
  note c5 = cfg_connect [OF c4 [folded p4_def] 5]
  define p5 where "p5 = p4\<lparr>p_ports_in := port # replicate 63 zero_port_in\<rparr>"
  have ch: "chain_ok p5" using configured_inv [OF c5] by (simp add: config_inv_def p5_def)
  have "\<exists>p6. rte_pipeline_port_in_enable (Some p5) 0 = Some (0, Some p6) \<and> built act p6"
  proof -
    have "p_num_ports_in p5 = 1" "p_enabled_port_in_mask p5 = 0" "p_ports_in p5 ! 0 = port" "pi_next port = None"
      by (simp_all add: p5_def p4_def p3_def p2_def n1 port_def demo_in_def zero_port_in_def)
    from built_enable [OF ch this] obtain p6 where p6: "rte_pipeline_port_in_enable (Some p5) 0 = Some (0, Some p6)"
      "p_port_in_first p6 = Some 0" "length (p_ports_in p6) = 64" "p_ports_in p6 ! 0 = port" "p_num_ports_in p6 = 1"
      "p_num_ports_out p6 = p_num_ports_out p5" "p_num_tables p6 = p_num_tables p5" "p_ports_out p6 = p_ports_out p5"
      "p_tables p6 = p_tables p5" "p_pkts p6 = p_pkts p5" "p_entries p6 = p_entries p5" by blast
    then have "built act p6" by (simp add: built_def port_def p5_def p4_def p3_def p2_def n1)
    with p6(1) show ?thesis by blast
  qed
  then obtain p6 where "rte_pipeline_port_in_enable (Some p5) 0 = Some (0, Some p6)" "built act p6" by blast
  with cfg_enable [OF c5 [folded p5_def]] show ?thesis by blast
qed

lemma built_check: "built act p \<Longrightarrow> rte_pipeline_check (Some p) = 0"
  by (cases "p_ports_in p") (auto simp: built_def rte_pipeline_check_def demo_in_def zero_port_in_def)

lemma built_can_free: "built act p \<Longrightarrow> can_free p"
  by (cases "p_ports_in p") (auto simp: built_def can_free_def ports_in_def ports_out_def tables_def demo_in_def demo_out_def
      built_table_def demo_table_def)

section \<open>Invariant and release\<close>

text \<open>
  C28. Whatever sequence of configuration calls made it, with whatever arguments, a pipeline
  satisfies the invariant of its configuration, and no further configuration call on it reaches
  outside its arrays. (A default entry has to be as long as the entries of its table, and a call
  in bulk gets at least as many entries as it announces.)
\<close>

theorem rte_pipeline_configured_inv:
  assumes "configured env ptr p w"
  shows "config_inv ptr p w \<and> calls_safe env p w"
  using configured_inv [OF assms] config_calls_safe by blast

lemma rte_pipeline_configured_inv_witness:
  "\<exists>p w. p_num_ports_in p = 1 \<and> p_num_tables p = 1 \<and> config_inv 0x1000 (p :: unit rte_pipeline) w \<and> calls_safe demo_env p w"
proof -
  obtain p w where p: "configured demo_env 0x1000 p w" "built None p" using demo_built by blast
  from rte_pipeline_configured_inv [OF p(1)] p(2) show ?thesis by (auto simp: built_def)
qed

text \<open>
  C29. Freeing a configured pipeline all of whose ports and tables can be freed (the function for
  it is optional) returns 0 and leaves no resource behind: what was opened since the pipeline was
  created, its handles, its default entries and its own memory, has been released, each exactly
  as often as it was opened.
\<close>

theorem rte_pipeline_free_releases_all:
  assumes "configured env ptr p w" and "can_free p"
  shows "\<exists>w'. rte_pipeline_free env (Some (ptr, p)) w = (0, w') \<and> released w' = opened w'"
proof -
  have inv: "config_inv ptr p w" by (rule configured_inv [OF assms(1)])
  obtain w' where "rte_pipeline_free env (Some (ptr, p)) w = (0, w')" "opened w' = opened w" "released w' = released w + held ptr p"
    using rte_pipeline_free_ok [OF assms(2), of env ptr w] by auto
  with inv show ?thesis by (auto simp: config_inv_def)
qed

lemma rte_pipeline_free_releases_all_witness:
  "\<exists>p w w'. p_num_tables p = 1 \<and> rte_pipeline_free demo_env (Some (0x1000, p)) w = (0, w') \<and> released w' = opened w'"
proof -
  obtain p w where p: "configured demo_env 0x1000 p w" "built None p" using demo_built by blast
  from rte_pipeline_free_releases_all [OF p(1) built_can_free [OF p(2)]] p(2) show ?thesis by (auto simp: built_def)
qed

section \<open>The chaining of tables\<close>

definition goes_to :: "'e rte_table \<Rightarrow> rte_pipeline_table_entry \<Rightarrow> bool" where
  "goes_to table x \<longleftrightarrow> t_table_next_id_valid table \<and> t_table_next_id table = next_id x"

text \<open>
  All entries of a table that go to a table go to the same one. A default entry or an entry
  that would go to another is refused with \<open>-EINVAL\<close> and nothing changes; when an entry is
  not refused, the table has its next table as the next one, a next table that was there before
  has stayed, and no other table of the pipeline has changed.
\<close>

theorem rte_pipeline_table_one_next:
  assumes "config_inv ptr p w" and "t < p_num_tables p"
  shows "if topology_clash (p_tables p ! unat t) x
    then rte_pipeline_table_default_entry_add (Some p) t (Some x) = Some ((- EINVAL, None), Some p) \<and>
      (key \<noteq> 0 \<longrightarrow> rte_pipeline_table_entry_add (Some p) t key (Some x) w = Some ((- EINVAL, None), Some p, w))
    else (\<forall>r q p' w'. rte_pipeline_table_default_entry_add (Some p) t (Some x) = Some ((0, r), Some p') \<or>
        rte_pipeline_table_entry_add (Some p) t key (Some x) w = Some ((0, q), Some p', w') \<longrightarrow>
      (action x = TABLE \<longrightarrow> goes_to (p_tables p' ! unat t) x) \<and>
      (t_table_next_id_valid (p_tables p ! unat t) \<longrightarrow> t_table_next_id_valid (p_tables p' ! unat t) \<and>
         t_table_next_id (p_tables p' ! unat t) = t_table_next_id (p_tables p ! unat t)) \<and>
      (\<forall>i. i \<noteq> unat t \<longrightarrow> p_tables p' ! i = p_tables p ! i))"
proof -
  have nt: "\<not> p_num_tables p \<le> t" using assms(2) by simp
  note at = table_at [OF assms(1) nt]
  have len: "unat t < length (p_tables p)" using at(1) assms(1) by (simp add: config_inv_def)
  show ?thesis
  proof (cases "topology_clash (p_tables p ! unat t) x")
    case True
    then show ?thesis using nt at(2,3)
      by (simp add: rte_pipeline_table_default_entry_add_def rte_pipeline_table_entry_add_def split: option.splits)
  next
    case False
    let ?ok = "\<lambda>p'. \<exists>table. p_tables p' = (p_tables p)[unat t := table] \<and>
      t_table_next_id_valid table = t_table_next_id_valid (set_next_table x (p_tables p ! unat t)) \<and>
      t_table_next_id table = t_table_next_id (set_next_table x (p_tables p ! unat t))"
    have "?ok p'" if "rte_pipeline_table_default_entry_add (Some p) t (Some x) = Some ((0, r), Some p')" for r p'
      using that nt False at(2,3) by (auto simp: rte_pipeline_table_default_entry_add_def Let_def split: bind_splits)
    moreover have "?ok p'" if "rte_pipeline_table_entry_add (Some p) t key (Some x) w = Some ((0, q), Some p', w')" for q p' w'
      using that nt False at(2,3) by (auto simp: rte_pipeline_table_entry_add_def split: option.splits prod.splits if_splits)
    ultimately show ?thesis using False set_next_table_ok [OF False] len by (fastforce simp: goes_to_def)
  qed
qed

lemma rte_pipeline_table_one_next_witness:
  "\<exists>(p :: unit rte_pipeline) r p'. rte_pipeline_table_default_entry_add (Some p) 0 (Some \<lparr>action = TABLE, next_id = 5, action_data = []\<rparr>) =
     Some ((0, r), Some p') \<and> goes_to (p_tables p' ! 0) \<lparr>action = TABLE, next_id = 5, action_data = []\<rparr>"
proof -
  obtain p w where pb: "configured demo_env 0x1000 p w" "built None p" using demo_built by blast
  then have p: "configured demo_env 0x1000 p w" "p_num_tables p = 1" "\<not> t_table_next_id_valid (p_tables p ! 0)" "t_entry_size (p_tables p ! 0) = 8"
    by (simp_all add: built_def built_table_def demo_table_def zero_table_def)
  let ?x = "\<lparr>action = TABLE, next_id = 5, action_data = []\<rparr>"
  have inv: "config_inv 0x1000 p w" by (rule configured_inv [OF p(1)])
  have t: "(0 :: u32) < p_num_tables p" by (simp add: p)
  have nc: "\<not> topology_clash (p_tables p ! unat 0) ?x" using p(3) by (simp add: topology_clash_def)
  have "p_tables p \<noteq> []" using inv by (auto simp: config_inv_def)
  then obtain r p' where r: "rte_pipeline_table_default_entry_add (Some p) 0 (Some ?x) = Some ((0, r), Some p')"
    using nc p(2,4) by (simp add: rte_pipeline_table_default_entry_add_def copy_entry_def Let_def)
  with rte_pipeline_table_one_next [OF inv t, of ?x 0, unfolded if_not_P [OF nc], rule_format, of r p'] have "goes_to (p_tables p' ! 0) ?x"
    by simp
  with r show ?thesis by blast
qed


text \<open>
  Adding entries in bulk does not keep the tables chained one to one: two entries that go to
  different tables are both handed to a table that has no next table yet, and the call returns
  what the table's own operation returns. The first entry then decides for all.
\<close>

theorem rte_pipeline_table_entry_add_bulk_mixed:
  assumes "config_inv ptr p w" and "t < p_num_tables p" and "\<not> t_table_next_id_valid (p_tables p ! unat t)"
    and "tbl_f_add_bulk (t_ops (p_tables p ! unat t)) = Some f"
    and "f (t_h_table (p_tables p ! unat t)) ks [x, y] 2 (ext w) = ((status, found, ptrs), e)"
    and "action x = TABLE" and "action y = TABLE" and "next_id x \<noteq> next_id y"
  shows "\<exists>p'. rte_pipeline_table_entry_add_bulk (Some p) t (Some ks) (Some [x, y]) 2 w =
      Some ((status, Some (found, ptrs)), Some p', w\<lparr>ext := e\<rparr>) \<and>
    goes_to (p_tables p' ! unat t) x \<and> \<not> goes_to (p_tables p' ! unat t) y"
proof -
  have nt: "\<not> p_num_tables p \<le> t" using assms(2) by simp
  note at = table_at [OF assms(1) nt]
  have len: "unat t < length (p_tables p)" using at(1) assms(1) by (simp add: config_inv_def)
  then show ?thesis using nt assms(3-) at(2,3)
    by (simp add: rte_pipeline_table_entry_add_bulk_def topology_clash_def set_next_table_def goes_to_def)
qed

lemma rte_pipeline_table_entry_add_bulk_mixed_witness:
  "\<exists>p w p'. rte_pipeline_table_entry_add_bulk (Some (p :: unit rte_pipeline)) 0 (Some [1, 2])
      (Some [\<lparr>action = TABLE, next_id = 1, action_data = []\<rparr>, \<lparr>action = TABLE, next_id = 2, action_data = []\<rparr>]) 2 w =
      Some ((0, Some ([0, 0], [16, 24])), Some p', w) \<and>
    \<not> goes_to (p_tables p' ! 0) \<lparr>action = TABLE, next_id = 2, action_data = []\<rparr>"
proof -
  obtain p w where pb: "configured demo_env 0x1000 p w" "built None p" using demo_built by blast
  then have p: "configured demo_env 0x1000 p w" "p_num_tables p = 1" "\<not> t_table_next_id_valid (p_tables p ! 0)"
    "t_ops (p_tables p ! 0) = t_ops demo_table"
    by (simp_all add: built_def built_table_def demo_table_def zero_table_def)
  have inv: "config_inv 0x1000 p w" by (rule configured_inv [OF p(1)])
  have b: "tbl_f_add_bulk (t_ops (p_tables p ! 0)) = Some (\<lambda>h ks xs n e. ((0, [0, 0], [16, 24]), e))"
    by (simp add: p(4)) (simp add: demo_table_def)
  have t: "(0 :: u32) < p_num_tables p" by (simp add: p(2))
  from rte_pipeline_table_entry_add_bulk_mixed [where t = 0 and ks = "[1, 2]" and x = "\<lparr>action = TABLE, next_id = 1, action_data = []\<rparr>"
      and y = "\<lparr>action = TABLE, next_id = 2, action_data = []\<rparr>" and status = 0 and found = "[0, 0]" and ptrs = "[16, 24]" and e = "ext w",
      unfolded unat_0, OF inv t p(3) b]
  have "\<exists>p'. rte_pipeline_table_entry_add_bulk (Some p) 0 (Some [1, 2]) (Some [\<lparr>action = TABLE, next_id = 1, action_data = []\<rparr>, \<lparr>action = TABLE, next_id = 2, action_data = []\<rparr>]) 2 w =
      Some ((0, Some ([0, 0], [16, 24])), Some p', w\<lparr>ext := ext w\<rparr>) \<and> \<not> goes_to (p_tables p' ! 0) \<lparr>action = TABLE, next_id = 2, action_data = []\<rparr>" by auto
  moreover have "w\<lparr>ext := e\<rparr> = w" for e by (cases w) simp
  ultimately show ?thesis by auto
qed

section \<open>Runs that go wrong\<close>

lemma mask_small: "RTE_LEN2MASK 2 = 3"
  by (simp add: RTE_LEN2MASK_def mask_eq_exp_minus_1)

lemma bits_small: "bits 0 = {}" "bits 1 = {0}" "bits 2 = {1}" "bits 3 = {0, 1}"
proof -
  have "(1 :: u64) = push_bit 0 1" "(2 :: u64) = push_bit 1 1" "(3 :: u64) = push_bit 0 1 OR push_bit 1 1" by simp_all
  then show "bits 1 = {0}" "bits 2 = {1}" "bits 3 = {0, 1}" using bits_single [of 0] bits_single [of 1] by (simp_all only: bits_or) auto
qed simp

lemma pkt_positions_small: "pkt_positions 0 = []" "pkt_positions 1 = [0]" "pkt_positions 2 = [1]" "pkt_positions 3 = [0, 1]"
  unfolding pkt_positions_bits bits_small by simp_all

lemma run_ports_none: "run_ports n turns env None p w = Done (p, w)"
  by (cases n) simp_all

lemma unit_world: "(w :: unit world)\<lparr>ext := e\<rparr> = w"
  by (cases w) simp

lemma run_one_port:
  assumes "p_port_in_first p = Some i" and "read_at (p_ports_in p) i = Some port" and "pi_next port = None"
  shows "run_port turns env port p w = Done (p', w') \<Longrightarrow> rte_pipeline_run turns env p w = Done (0, p', w')"
    and "run_port turns env port p w = Still_running \<Longrightarrow> rte_pipeline_run turns env p w = Still_running"
proof -
  have "run_ports (Suc 63) turns env (Some i) p w = and_then (run_port turns env port p w) (\<lambda>(p, w). Done (p, w))"
    unfolding run_ports.simps assms(2)
    by (cases "run_port turns env port p w") (auto simp: assms(3) run_ports_none)
  then show "run_port turns env port p w = Done (p', w') \<Longrightarrow> rte_pipeline_run turns env p w = Done (0, p', w')"
    "run_port turns env port p w = Still_running \<Longrightarrow> rte_pipeline_run turns env p w = Still_running"
    using assms(1) by (simp_all add: rte_pipeline_run_def)
qed

lemma built_port:
  assumes "built act p"
  shows "p_port_in_first p = Some 0" "read_at (p_ports_in p) 0 = Some (demo_in\<lparr>pi_f_action := act\<rparr>)"
    "pi_next (demo_in\<lparr>pi_f_action := act\<rparr>) = None"
  using assms by (simp_all add: built_def demo_in_def zero_port_in_def)

text \<open>An action handler of an input port that drops the packet at position 0.\<close>

definition drop_first :: "pkt list \<Rightarrow> u32 \<Rightarrow> u64 \<Rightarrow> u64 \<Rightarrow> unit \<Rightarrow> u64 \<times> unit" where
  "drop_first pkts n m arg e = (m AND NOT 1, e)"

lemma leak_turn:
  assumes "p_tables p = built_table # replicate 63 zero_table" and "p_action_mask0 p = (\<lambda>_. 0)(DROP := 1)"
  shows "run_tables (Suc 0) 0 2 p w = Done (p\<lparr>p_action_mask0 := (\<lambda>_. 0)(DROP := 2, TABLE := 0)\<rparr>, w)"
  using assms by (simp add: table_turn_def built_table_def demo_table_def zero_table_def demo_lookup_def lookup_miss_def lookup_hit_def
      zero_entry_def or_fault_def)

text \<open>
  C39. A packet can be lost, on a pipeline that configuration calls reach and \<open>rte_pipeline_check\<close>
  accepts: one input port, whose action handler drops the packet at position 0, one table with
  the default entry of a new table (drop), one output port. Of the two packets received the
  first is recorded as dropped; the second misses in the table, and the default action assigns
  its mask over the record. The second packet is freed, the first is neither sent nor freed.
\<close>

theorem rte_pipeline_run_loses_packet:
  "\<exists>p w p'. configured demo_env 0x1000 p w \<and> rte_pipeline_check (Some p) = 0 \<and>
     rte_pipeline_run 1 demo_env p w = Done (0, p', \<lparr>ext = (), trace = trace w @ [Ev_rx 7 [11, 22], Ev_pkt_free 22]\<rparr>)"
proof -
  obtain p w where p: "configured demo_env 0x1000 p w" "built (Some drop_first) p" using demo_built by blast
  define port where "port = demo_in\<lparr>pi_f_action := Some drop_first\<rparr>"
  define w1 :: "unit world" where "w1 = emit (Ev_rx 7 [11, 22]) () w"
  define p1 where "p1 = p\<lparr>p_pkts := 11 # 22 # replicate 62 0, p_action_mask0 := (\<lambda>_. 0)(DROP := 1)\<rparr>"
  have pk: "(p_pkts p)[0 := 11, Suc 0 := 22] = 11 # 22 # replicate 62 0" using p(2) by (simp add: built_def numeral_eq_Suc)
  have m: "3 AND NOT 1 = (2 :: u64)" "3 XOR (2 :: u64) = 1" by simp_all
  have tables: "run_tables (Suc 0) 0 2 p1 w1 = Done (p1\<lparr>p_action_mask0 := (\<lambda>_. 0)(DROP := 2, TABLE := 0)\<rparr>, w1)"
    by (rule leak_turn) (use p(2) in \<open>simp_all add: p1_def built_def\<close>)
  have "run_port (Suc 0) demo_env port p w = and_then (run_tables (Suc 0) 0 2 p1 w1) (\<lambda>(p, w). or_fault (finish_port demo_env p w))"
    by (simp add: run_port_def port_def demo_in_def zero_port_in_def pk mask_small drop_first_def m p1_def w1_def add_mask0_def
        unit_world del: run_tables.simps)
  also have "\<dots> = or_fault (finish_port demo_env (p1\<lparr>p_action_mask0 := (\<lambda>_. 0)(DROP := 2, TABLE := 0)\<rparr>) w1)"
    unfolding tables by simp
  also have "\<dots> = Done (p1\<lparr>p_action_mask0 := (\<lambda>_. 0)(DROP := 2, TABLE := 0)\<rparr>,
      \<lparr>ext = (), trace = trace w @ [Ev_rx 7 [11, 22], Ev_pkt_free 22]\<rparr>)"
    by (simp add: finish_port_def or_fault_def rte_pipeline_action_handler_port_def rte_pipeline_action_handler_port_meta_def
        rte_pipeline_action_handler_drop_def pkt_positions_small p1_def call_pktmbuf_free_def emit_def w1_def)
  finally have "run_port 1 demo_env port p w = Done (p1\<lparr>p_action_mask0 := (\<lambda>_. 0)(DROP := 2, TABLE := 0)\<rparr>,
      \<lparr>ext = (), trace = trace w @ [Ev_rx 7 [11, 22], Ev_pkt_free 22]\<rparr>)" by simp
  from run_one_port(1) [OF built_port [OF p(2)] this [unfolded port_def]] p(1) built_check [OF p(2)] show ?thesis by blast
qed

definition loop_entry :: rte_pipeline_table_entry where
  "loop_entry = \<lparr>action = TABLE, next_id = 0, action_data = []\<rparr>"

definition loop_table :: "unit rte_table" where
  "loop_table = built_table\<lparr>t_default_entry := loop_entry, t_table_next_id := 0, t_table_next_id_valid := True\<rparr>"

lemma loop_turn:
  assumes "read_at (p_tables p) 0 = Some loop_table" and "p_action_mask0 p TABLE = 0"
  shows "table_turn 0 2 p w = Some (0, 2, p, w)"
proof -
  have "(p_action_mask0 p)(TABLE := 0) = p_action_mask0 p" using assms(2) by auto
  then have p: "p\<lparr>p_entries := p_entries p, p_action_mask0 := (p_action_mask0 p)(TABLE := 0)\<rparr> = p" by simp
  have w: "w\<lparr>ext := ()\<rparr> = w" by simp
  have "table_turn 0 2 p w =
      Some (0, 2, p\<lparr>p_entries := p_entries p, p_action_mask0 := (p_action_mask0 p)(TABLE := 0)\<rparr>, w\<lparr>ext := ()\<rparr>)"
    using assms(1) by (simp add: table_turn_def loop_table_def built_table_def demo_table_def zero_table_def demo_lookup_def
        lookup_miss_def lookup_hit_def loop_entry_def Let_def)
  then show ?thesis unfolding p w .
qed

lemma loop_first_turn:
  assumes "read_at (p_tables p) 0 = Some loop_table" and "p_action_mask0 p = (\<lambda>_. 0)" and "0 < length (p_entries p)"
  shows "\<exists>p'. table_turn 0 3 p w = Some (0, 2, p', w) \<and> p_tables p' = p_tables p \<and> p_action_mask0 p' TABLE = 0"
  using assms by (simp add: table_turn_def loop_table_def built_table_def demo_table_def zero_table_def demo_lookup_def lookup_miss_def
      lookup_hit_def loop_entry_def rte_pipeline_compute_masks_def pkt_positions_small Let_def)

lemma run_tables_stuck:
  assumes "table_turn t m p w = Some (t, m, p, w)" and "m \<noteq> 0"
  shows "run_tables turns t m p w = Still_running"
  using assms by (induction turns) (simp_all add: or_fault_def)

text \<open>
  C40. Nothing keeps tables from being chained in a circle. On a pipeline of one input port, one
  table and one output port that configuration calls reach, a default entry that sends the
  packets of table 0 to table 0 is accepted and \<open>rte_pipeline_check\<close> finds nothing wrong. The
  run receives two packets and does not fault and does not end: after any number of turns it is
  still running.
\<close>

theorem rte_pipeline_run_circle_never_ends:
  "\<exists>p w r p'. configured demo_env 0x1000 p w \<and>
     rte_pipeline_table_default_entry_add (Some p) 0 (Some loop_entry) = Some ((0, r), Some p') \<and>
     rte_pipeline_check (Some p') = 0 \<and> (\<forall>turns. rte_pipeline_run turns demo_env p' w = Still_running)"
proof -
  obtain p w where p: "configured demo_env 0x1000 p w" "built None p" using demo_built by blast
  define p' where "p' = p\<lparr>p_tables := loop_table # replicate 63 zero_table\<rparr>"
  have add: "rte_pipeline_table_default_entry_add (Some p) 0 (Some loop_entry) = Some ((0, Some 0x1000), Some p')"
    using p(2) by (simp add: rte_pipeline_table_default_entry_add_def built_def p'_def loop_table_def built_table_def demo_table_def
        zero_table_def topology_clash_def set_next_table_def loop_entry_def copy_entry_def)
  have check: "rte_pipeline_check (Some p') = 0" using built_check [OF p(2)] 
    by (simp add: rte_pipeline_check_def p'_def split: if_splits)
  define port where "port = demo_in\<lparr>pi_f_action := None\<rparr>"
  define w1 :: "unit world" where "w1 = emit (Ev_rx 7 [11, 22]) () w"
  define p1 where "p1 = p'\<lparr>p_pkts := 11 # 22 # replicate 62 0, p_action_mask0 := (\<lambda>_. 0)\<rparr>"
  have pk: "(p_pkts p')[0 := 11, Suc 0 := 22] = 11 # 22 # replicate 62 0" using p(2) by (simp add: built_def p'_def numeral_eq_Suc)
  have "0 < length (p_entries p1)" "read_at (p_tables p1) 0 = Some loop_table" "p_action_mask0 p1 = (\<lambda>_. 0)"
    using p(2) by (simp_all add: p1_def p'_def built_def)
  then obtain p2 where p2: "table_turn 0 3 p1 w1 = Some (0, 2, p2, w1)" "read_at (p_tables p2) 0 = Some loop_table"
      "p_action_mask0 p2 TABLE = 0"
    using loop_first_turn [of p1 w1] by auto
  have tables: "run_tables turns 0 3 p1 w1 = Still_running" for turns
    using p2 run_tables_stuck [OF loop_turn [OF p2(2,3)]] by (cases turns) (simp_all add: or_fault_def)
  have "run_port turns demo_env port p' w = Still_running" for turns
    using tables by (simp add: run_port_def port_def demo_in_def zero_port_in_def pk p1_def w1_def mask_small
        del: run_tables.simps)
  moreover have "p_port_in_first p' = Some 0" "read_at (p_ports_in p') 0 = Some port" "pi_next port = None"
    using built_port [OF p(2)] by (simp_all add: p'_def port_def)
  ultimately have "rte_pipeline_run turns demo_env p' w = Still_running" for turns using run_one_port(2) by blast
  with p(1) add check show ?thesis by blast
qed

end
