(* ===== verification/Hash.thy ===== *)
theory Hash
  imports Ring_Api
begin

text \<open>
  lib/librte_hash/rte_cuckoo_hash.c: the cuckoo hash table. Every key has two candidate buckets
  of four entries, chosen by its signature and the signature's secondary hash; a full bucket
  makes room by pushing entries to their other bucket. The indices of the free key slots wait
  in a ring, with transactional memory also in a cache of every core. The table owns its ring,
  its buckets and its key slots: the model keeps them inside the record of the table. An access
  outside an array is \<open>None\<close>.
\<close>

section \<open>Data\<close>

abbreviation (input) RTE_HASH_BUCKET_ENTRIES :: nat where "RTE_HASH_BUCKET_ENTRIES \<equiv> 4"
abbreviation (input) RTE_HASH_ENTRIES_MAX :: u32 where "RTE_HASH_ENTRIES_MAX \<equiv> 0x40000000"
abbreviation (input) RTE_HASH_NAMESIZE :: nat where "RTE_HASH_NAMESIZE \<equiv> 32"
abbreviation (input) LCORE_CACHE_SIZE :: u32 where "LCORE_CACHE_SIZE \<equiv> 8"
abbreviation (input) RTE_MAX_LCORE :: nat where "RTE_MAX_LCORE \<equiv> 128"
abbreviation (input) sizeof_rte_hash_key :: u32 where "sizeof_rte_hash_key \<equiv> 16"

type_synonym hash_sig_t = u32

text \<open>The keys are the bytes in memory; a signature is free when both halves are 0.\<close>

record rte_hash_signatures =
  sig_current :: hash_sig_t
  sig_alt :: hash_sig_t

definition NULL_SIGNATURE :: rte_hash_signatures where "NULL_SIGNATURE = \<lparr>sig_current = 0, sig_alt = 0\<rparr>"

record rte_hash_bucket =
  signatures :: "rte_hash_signatures list"
  key_idx :: "u32 list"
  flag :: "u8 list"

record rte_hash_key =
  pdata :: u64
  key_bytes :: "u8 list"

record lcore_cache =
  cache_len :: u32
  cache_objs :: "u64 list"

record rte_hash =
  h_name :: string
  h_entries :: u32
  num_buckets :: u32
  h_key_len :: u32
  hash_func :: "u8 list \<Rightarrow> u32 \<Rightarrow> u32 \<Rightarrow> u32"
  hash_func_init_val :: u32
  rte_hash_cmp_eq :: "u8 list \<Rightarrow> u8 list \<Rightarrow> u32 \<Rightarrow> int"
  bucket_bitmask :: u32
  key_entry_size :: u32
  free_slots :: "u64 rte_ring"
  key_store :: "rte_hash_key list"
  buckets :: "rte_hash_bucket list"
  hw_trans_mem_support :: bool
  local_free_slots :: "lcore_cache list"

text \<open>What zeroed memory holds; the last key index of a bucket is the dummy of the bulk lookup.\<close>

definition zero_bucket :: rte_hash_bucket where
  "zero_bucket = \<lparr>signatures = replicate 4 NULL_SIGNATURE, key_idx = replicate 5 0, flag = replicate 4 0\<rparr>"

definition zero_key :: "u32 \<Rightarrow> rte_hash_key" where
  "zero_key key_len = \<lparr>pdata = 0, key_bytes = replicate (unat key_len) 0\<rparr>"

definition zero_cache :: lcore_cache where
  "zero_cache = \<lparr>cache_len = 0, cache_objs = replicate 8 0\<rparr>"

section \<open>Hashes and comparisons\<close>

definition rte_hash_hash :: "rte_hash \<Rightarrow> u8 list \<Rightarrow> hash_sig_t" where
  "rte_hash_hash h key = hash_func h key (h_key_len h) (hash_func_init_val h)"

definition rte_hash_secondary_hash :: "hash_sig_t \<Rightarrow> hash_sig_t" where
  "rte_hash_secondary_hash primary_hash =
     (let tag = drop_bit 12 primary_hash in primary_hash XOR ((tag + 1) * 0x5bd1e995))"

text \<open>The comparisons of keys: 0 for equal. Those for multiples of 16 compare 16-byte words.\<close>

definition memcmp_eq :: "u8 list \<Rightarrow> u8 list \<Rightarrow> u32 \<Rightarrow> int" where
  "memcmp_eq k1 k2 n = (if take (unat n) k1 = take (unat n) k2 then 0 else 1)"

definition c_or :: "int \<Rightarrow> int \<Rightarrow> int" where "c_or a b = (if a \<noteq> 0 \<or> b \<noteq> 0 then 1 else 0)"

definition rte_hash_k16_cmp_eq :: "u8 list \<Rightarrow> u8 list \<Rightarrow> u32 \<Rightarrow> int" where
  "rte_hash_k16_cmp_eq k1 k2 n = (if take 16 k1 = take 16 k2 then 0 else 1)"

definition rte_hash_k32_cmp_eq :: "u8 list \<Rightarrow> u8 list \<Rightarrow> u32 \<Rightarrow> int" where
  "rte_hash_k32_cmp_eq k1 k2 n = c_or (rte_hash_k16_cmp_eq k1 k2 n) (rte_hash_k16_cmp_eq (drop 16 k1) (drop 16 k2) n)"

definition rte_hash_k48_cmp_eq :: "u8 list \<Rightarrow> u8 list \<Rightarrow> u32 \<Rightarrow> int" where
  "rte_hash_k48_cmp_eq k1 k2 n = c_or (c_or (rte_hash_k16_cmp_eq k1 k2 n) (rte_hash_k16_cmp_eq (drop 16 k1) (drop 16 k2) n))
     (rte_hash_k16_cmp_eq (drop 32 k1) (drop 32 k2) n)"

definition rte_hash_k64_cmp_eq :: "u8 list \<Rightarrow> u8 list \<Rightarrow> u32 \<Rightarrow> int" where
  "rte_hash_k64_cmp_eq k1 k2 n = c_or (rte_hash_k32_cmp_eq k1 k2 n) (rte_hash_k32_cmp_eq (drop 32 k1) (drop 32 k2) n)"

definition rte_hash_k80_cmp_eq :: "u8 list \<Rightarrow> u8 list \<Rightarrow> u32 \<Rightarrow> int" where
  "rte_hash_k80_cmp_eq k1 k2 n = c_or (rte_hash_k64_cmp_eq k1 k2 n) (rte_hash_k16_cmp_eq (drop 64 k1) (drop 64 k2) n)"

definition rte_hash_k96_cmp_eq :: "u8 list \<Rightarrow> u8 list \<Rightarrow> u32 \<Rightarrow> int" where
  "rte_hash_k96_cmp_eq k1 k2 n = c_or (rte_hash_k64_cmp_eq k1 k2 n) (rte_hash_k32_cmp_eq (drop 64 k1) (drop 64 k2) n)"

definition rte_hash_k112_cmp_eq :: "u8 list \<Rightarrow> u8 list \<Rightarrow> u32 \<Rightarrow> int" where
  "rte_hash_k112_cmp_eq k1 k2 n = c_or (c_or (rte_hash_k64_cmp_eq k1 k2 n) (rte_hash_k32_cmp_eq (drop 64 k1) (drop 64 k2) n))
     (rte_hash_k16_cmp_eq (drop 96 k1) (drop 96 k2) n)"

definition rte_hash_k128_cmp_eq :: "u8 list \<Rightarrow> u8 list \<Rightarrow> u32 \<Rightarrow> int" where
  "rte_hash_k128_cmp_eq k1 k2 n = c_or (rte_hash_k64_cmp_eq k1 k2 n) (rte_hash_k64_cmp_eq (drop 64 k1) (drop 64 k2) n)"

definition select_cmp_eq :: "u32 \<Rightarrow> u8 list \<Rightarrow> u8 list \<Rightarrow> u32 \<Rightarrow> int" where
  "select_cmp_eq key_len =
     (if key_len = 16 then rte_hash_k16_cmp_eq
      else if key_len = 32 then rte_hash_k32_cmp_eq
      else if key_len = 48 then rte_hash_k48_cmp_eq
      else if key_len = 64 then rte_hash_k64_cmp_eq
      else if key_len = 80 then rte_hash_k80_cmp_eq
      else if key_len = 96 then rte_hash_k96_cmp_eq
      else if key_len = 112 then rte_hash_k112_cmp_eq
      else if key_len = 128 then rte_hash_k128_cmp_eq
      else memcmp_eq)"

section \<open>Key slots and free slots\<close>

text \<open>
  The address of a key slot is computed as \<open>key_idx[i] * key_entry_size\<close> in 32 bits: this is
  the slot at that offset, \<open>None\<close> when the offset is not that of a slot of the store.
\<close>

definition key_slot :: "rte_hash \<Rightarrow> u32 \<Rightarrow> nat option" where
  "key_slot h idx =
     (let off = unat (idx * key_entry_size h); size = unat (key_entry_size h) in
      if size dvd off \<and> off div size < length (key_store h) then Some (off div size) else None)"

definition enqueue_slot_back :: "rte_hash \<Rightarrow> nat \<Rightarrow> u64 \<Rightarrow> rte_hash option" where
  "enqueue_slot_back h lcore_id slot_id =
     (if hw_trans_mem_support h then do {
        cache \<leftarrow> read_at (local_free_slots h) lcore_id;
        objs \<leftarrow> write_at (cache_objs cache) (unat (cache_len cache)) slot_id;
        caches \<leftarrow> write_at (local_free_slots h) lcore_id \<lparr>cache_len = cache_len cache + 1, cache_objs = objs\<rparr>;
        Some (h\<lparr>local_free_slots := caches\<rparr>) }
      else do {
        (ret, r) \<leftarrow> rte_ring_sp_enqueue (free_slots h) slot_id;
        Some (h\<lparr>free_slots := r\<rparr>) })"

text \<open>The beginning of an insertion: a free slot, or \<open>-ENOSPC\<close>.\<close>

definition get_slot :: "rte_hash \<Rightarrow> nat \<Rightarrow> ((int + u64) \<times> rte_hash) option" where
  "get_slot h lcore_id =
     (if hw_trans_mem_support h then do {
        cache \<leftarrow> read_at (local_free_slots h) lcore_id;
        (n_slots, objs, r) \<leftarrow>
          (if cache_len cache = 0 then rte_ring_mc_dequeue_burst (free_slots h) (cache_objs cache) LCORE_CACHE_SIZE
           else Some (0, cache_objs cache, free_slots h));
        if cache_len cache = 0 \<and> n_slots = 0 then Some (Inl (- ENOSPC), h\<lparr>free_slots := r\<rparr>)
        else do {
          let len = cache_len cache + n_slots - 1;
          slot_id \<leftarrow> read_at objs (unat len);
          caches \<leftarrow> write_at (local_free_slots h) lcore_id \<lparr>cache_len = len, cache_objs = objs\<rparr>;
          Some (Inr slot_id, h\<lparr>free_slots := r, local_free_slots := caches\<rparr>) } }
      else do {
        (ret, slot_id, r) \<leftarrow> rte_ring_sc_dequeue (free_slots h) 0;
        Some (if ret \<noteq> 0 then Inl (- ENOSPC) else Inr slot_id, h\<lparr>free_slots := r\<rparr>) })"

text \<open>
  The search of a bucket for a key: the first of the entries that passes the test of its
  signatures and whose key compares equal.
\<close>

fun find_key :: "rte_hash \<Rightarrow> rte_hash_bucket \<Rightarrow> (rte_hash_signatures \<Rightarrow> bool) \<Rightarrow> u8 list \<Rightarrow> nat list \<Rightarrow> nat option option" where
  "find_key h bkt test key [] = Some None"
| "find_key h bkt test key (i # rest) =
     (if test (signatures bkt ! i) then do {
        s \<leftarrow> key_slot h (key_idx bkt ! i);
        if rte_hash_cmp_eq h key (key_bytes (key_store h ! s)) (h_key_len h) = 0 then Some (Some i)
        else find_key h bkt test key rest }
      else find_key h bkt test key rest)"

definition set_entry :: "rte_hash_bucket list \<Rightarrow> nat \<Rightarrow> nat \<Rightarrow> rte_hash_signatures \<Rightarrow> u32 \<Rightarrow> rte_hash_bucket list option" where
  "set_entry bs b i sig idx = do {
     bkt \<leftarrow> read_at bs b;
     write_at bs b (bkt\<lparr>signatures := (signatures bkt)[i := sig], key_idx := (key_idx bkt)[i := idx]\<rparr>) }"

section \<open>Making space\<close>

definition free_entry :: "rte_hash_bucket \<Rightarrow> nat option" where
  "free_entry bkt = find (\<lambda>j. signatures bkt ! j = NULL_SIGNATURE) [0..<RTE_HASH_BUCKET_ENTRIES]"

definition next_bucket_idx :: "u32 \<Rightarrow> rte_hash_bucket \<Rightarrow> nat \<Rightarrow> nat" where
  "next_bucket_idx bitmask bkt i = unat (sig_alt (signatures bkt ! i) AND bitmask)"

text \<open>The first entry whose other bucket has room, with its place there.\<close>

fun find_room :: "rte_hash_bucket list \<Rightarrow> u32 \<Rightarrow> rte_hash_bucket \<Rightarrow> nat list \<Rightarrow> (nat \<times> nat) option option" where
  "find_room bs bitmask bkt [] = Some None"
| "find_room bs bitmask bkt (i # rest) = do {
     next_bkt \<leftarrow> read_at bs (next_bucket_idx bitmask bkt i);
     case free_entry next_bkt of
       Some j \<Rightarrow> Some (Some (i, j))
     | None \<Rightarrow> find_room bs bitmask bkt rest }"

text \<open>Entry \<open>i\<close> of bucket \<open>b\<close> is written to entry \<open>j\<close> of bucket \<open>next_b\<close>, its hashes swapped.\<close>

definition push_entry :: "rte_hash_bucket list \<Rightarrow> nat \<Rightarrow> nat \<Rightarrow> nat \<Rightarrow> nat \<Rightarrow> rte_hash_bucket list option" where
  "push_entry bs b i next_b j = do {
     bkt \<leftarrow> read_at bs b;
     let sig = signatures bkt ! i;
     set_entry bs next_b j \<lparr>sig_current = sig_alt sig, sig_alt = sig_current sig\<rparr> (key_idx bkt ! i) }"

definition set_flag :: "rte_hash_bucket list \<Rightarrow> nat \<Rightarrow> nat \<Rightarrow> u8 \<Rightarrow> rte_hash_bucket list" where
  "set_flag bs b i f = bs[b := (bs ! b)\<lparr>flag := (flag (bs ! b))[i := f]\<rparr>]"

definition unpushed :: "rte_hash_bucket \<Rightarrow> nat option" where
  "unpushed bkt = find (\<lambda>i. flag bkt ! i = 0) [0..<length (flag bkt)]"

lemma unpushed_Some: "unpushed bkt = Some i \<Longrightarrow> i < length (flag bkt) \<and> flag bkt ! i = 0"
  by (auto simp: unpushed_def find_Some_iff)

definition unset_flags :: "rte_hash_bucket list \<Rightarrow> nat" where
  "unset_flags bs = sum_list (map (\<lambda>bkt. length (filter (\<lambda>f. f = 0) (flag bkt))) bs)"

lemma sum_list_update_nat: "k < length xs \<Longrightarrow> sum_list (xs[k := x]) + xs ! k = sum_list xs + (x :: nat)"
proof (induction xs arbitrary: k)
  case (Cons y ys)
  then show ?case by (cases k) auto
qed simp

lemma filter_zero_update:
  "i < length fs \<Longrightarrow> fs ! i = 0 \<Longrightarrow> length (filter (\<lambda>f. f = 0) (fs[i := 1])) < length (filter (\<lambda>f. f = 0) (fs :: u8 list))"
proof (induction fs arbitrary: i)
  case (Cons f fs)
  then show ?case by (cases i) auto
qed simp

lemma unset_flags_set_flag:
  assumes "b < length bs" and "unpushed (bs ! b) = Some i"
  shows "unset_flags (set_flag bs b i 1) < unset_flags bs"
proof -
  let ?c = "\<lambda>bkt. length (filter (\<lambda>f. f = 0) (flag bkt))"
  have "?c ((bs ! b)\<lparr>flag := (flag (bs ! b))[i := 1]\<rparr>) < ?c (bs ! b)"
    using filter_zero_update [of i "flag (bs ! b)"] unpushed_Some [OF assms(2)] by simp
  moreover have "unset_flags (set_flag bs b i 1) + ?c (bs ! b) = unset_flags bs + ?c ((bs ! b)\<lparr>flag := (flag (bs ! b))[i := 1]\<rparr>)"
    using sum_list_update_nat [of b "map ?c bs"] assms(1) by (simp add: unset_flags_def set_flag_def map_update)
  ultimately show ?thesis by linarith
qed

text \<open>
  \<open>make_space_bucket\<close>: an entry of the bucket that has been copied to its other bucket and can be
  overwritten, or \<open>-ENOSPC\<close>. Every call of itself sets one more flag, so it ends.
\<close>

function make_space_bucket :: "u32 \<Rightarrow> rte_hash_bucket list \<Rightarrow> nat \<Rightarrow> (int \<times> rte_hash_bucket list) option" where
  "make_space_bucket bitmask bs b =
     (if b < length bs then do {
        room \<leftarrow> find_room bs bitmask (bs ! b) [0..<RTE_HASH_BUCKET_ENTRIES];
        case room of
          Some (i, j) \<Rightarrow> do { bs \<leftarrow> push_entry bs b i (next_bucket_idx bitmask (bs ! b) i) j; Some (int i, bs) }
        | None \<Rightarrow>
            (case unpushed (bs ! b) of
               None \<Rightarrow> Some (- ENOSPC, bs)
             | Some i \<Rightarrow> do {
                 let next_b = next_bucket_idx bitmask (bs ! b) i;
                 (ret, bs) \<leftarrow> make_space_bucket bitmask (set_flag bs b i 1) next_b;
                 let bs = set_flag bs b i 0;
                 if 0 \<le> ret then do { bs \<leftarrow> push_entry bs b i next_b (nat ret); Some (int i, bs) }
                 else Some (ret, bs) }) }
      else None)"
  by pat_completeness auto
termination
  by (relation "measure (\<lambda>(bitmask, bs, b). unset_flags bs)") (auto simp: unset_flags_set_flag)

declare make_space_bucket.simps [simp del]

section \<open>Adding, looking up and deleting keys\<close>

text \<open>The result of an operation that yields a position: \<open>key_idx - 1\<close> as an \<open>int32_t\<close>.\<close>

definition position :: "u32 \<Rightarrow> int" where "position idx = sint (idx - 1)"

text \<open>The key is in entry \<open>i\<close> of the bucket: the slot goes back and the data is replaced.\<close>

definition update_data :: "rte_hash \<Rightarrow> nat \<Rightarrow> u64 \<Rightarrow> u32 \<Rightarrow> u64 \<Rightarrow> (int \<times> rte_hash) option" where
  "update_data h lcore_id slot_id idx data = do {
     h \<leftarrow> enqueue_slot_back h lcore_id slot_id;
     k \<leftarrow> key_slot h idx;
     store \<leftarrow> write_at (key_store h) k ((key_store h ! k)\<lparr>pdata := data\<rparr>);
     Some (position idx, h\<lparr>key_store := store\<rparr>) }"

text \<open>The key is copied to the slot and gets an entry of its primary bucket, or the slot goes back.\<close>

definition insert_key :: "rte_hash \<Rightarrow> nat \<Rightarrow> nat \<Rightarrow> u8 list \<Rightarrow> rte_hash_signatures \<Rightarrow> u64 \<Rightarrow> u64 \<Rightarrow> (int \<times> rte_hash) option" where
  "insert_key h lcore_id prim_bucket_idx key sigs slot_id data =
     (if length key < unat (h_key_len h) then None
      else do {
        let new_idx = ucast slot_id;
        prim_bkt \<leftarrow> read_at (buckets h) prim_bucket_idx;
        store \<leftarrow> write_at (key_store h) (unat slot_id) \<lparr>pdata = data, key_bytes = take (unat (h_key_len h)) key\<rparr>;
        let h = h\<lparr>key_store := store\<rparr>;
        case free_entry prim_bkt of Some i \<Rightarrow> do {
          bs \<leftarrow> set_entry (buckets h) prim_bucket_idx i sigs new_idx;
          Some (position new_idx, h\<lparr>buckets := bs\<rparr>) }
        | None \<Rightarrow> do {
          (ret, bs) \<leftarrow> make_space_bucket (bucket_bitmask h) (buckets h) prim_bucket_idx;
          let h = h\<lparr>buckets := bs\<rparr>;
          if 0 \<le> ret then do {
            bs \<leftarrow> set_entry (buckets h) prim_bucket_idx (nat ret) sigs new_idx;
            Some (position new_idx, h\<lparr>buckets := bs\<rparr>) }
          else do {
            h \<leftarrow> enqueue_slot_back h lcore_id (ucast new_idx);
            Some (ret, h) } } })"

definition hash_add_key_with_hash ::
  "rte_hash \<Rightarrow> nat \<Rightarrow> u8 list \<Rightarrow> hash_sig_t \<Rightarrow> u64 \<Rightarrow> (int \<times> rte_hash) option" where
  "hash_add_key_with_hash h lcore_id key sig data = do {
     let prim_bucket_idx = unat (sig AND bucket_bitmask h);
     prim_bkt \<leftarrow> read_at (buckets h) prim_bucket_idx;
     let alt_hash = rte_hash_secondary_hash sig;
     let sec_bucket_idx = unat (alt_hash AND bucket_bitmask h);
     sec_bkt \<leftarrow> read_at (buckets h) sec_bucket_idx;
     (slot, h) \<leftarrow> get_slot h lcore_id;
     case slot of Inl err \<Rightarrow> Some (err, h)
     | Inr slot_id \<Rightarrow> do {
         found \<leftarrow> find_key h prim_bkt (\<lambda>s. sig_current s = sig \<and> sig_alt s = alt_hash) key [0..<RTE_HASH_BUCKET_ENTRIES];
         case found of Some i \<Rightarrow> update_data h lcore_id slot_id (key_idx prim_bkt ! i) data
         | None \<Rightarrow> do {
             found \<leftarrow> find_key h sec_bkt (\<lambda>s. sig_alt s = sig \<and> sig_current s = alt_hash) key [0..<RTE_HASH_BUCKET_ENTRIES];
             case found of Some i \<Rightarrow> update_data h lcore_id slot_id (key_idx sec_bkt ! i) data
             | None \<Rightarrow> insert_key h lcore_id prim_bucket_idx key \<lparr>sig_current = sig, sig_alt = alt_hash\<rparr> slot_id data } } }"

definition rte_hash_add_key_with_hash :: "rte_hash \<Rightarrow> nat \<Rightarrow> u8 list \<Rightarrow> hash_sig_t \<Rightarrow> (int \<times> rte_hash) option" where
  "rte_hash_add_key_with_hash h lcore_id key sig = hash_add_key_with_hash h lcore_id key sig 0"

definition rte_hash_add_key :: "rte_hash \<Rightarrow> nat \<Rightarrow> u8 list \<Rightarrow> (int \<times> rte_hash) option" where
  "rte_hash_add_key h lcore_id key = hash_add_key_with_hash h lcore_id key (rte_hash_hash h key) 0"

definition rte_hash_add_key_with_hash_data ::
  "rte_hash \<Rightarrow> nat \<Rightarrow> u8 list \<Rightarrow> hash_sig_t \<Rightarrow> u64 \<Rightarrow> (int \<times> rte_hash) option" where
  "rte_hash_add_key_with_hash_data h lcore_id key sig data = do {
     (ret, h) \<leftarrow> hash_add_key_with_hash h lcore_id key sig data;
     Some (if 0 \<le> ret then 0 else ret, h) }"

definition rte_hash_add_key_data :: "rte_hash \<Rightarrow> nat \<Rightarrow> u8 list \<Rightarrow> u64 \<Rightarrow> (int \<times> rte_hash) option" where
  "rte_hash_add_key_data h lcore_id key data = do {
     (ret, h) \<leftarrow> hash_add_key_with_hash h lcore_id key (rte_hash_hash h key) data;
     Some (if 0 \<le> ret then 0 else ret, h) }"

text \<open>The result of a lookup, with what it stores through \<open>data\<close> when it finds the key.\<close>

definition hash_lookup_with_hash :: "rte_hash \<Rightarrow> u8 list \<Rightarrow> hash_sig_t \<Rightarrow> (int \<times> u64 option) option" where
  "hash_lookup_with_hash h key sig = do {
     bkt \<leftarrow> read_at (buckets h) (unat (sig AND bucket_bitmask h));
     found \<leftarrow> find_key h bkt (\<lambda>s. sig_current s = sig \<and> s \<noteq> NULL_SIGNATURE) key [0..<RTE_HASH_BUCKET_ENTRIES];
     case found of Some i \<Rightarrow> do {
       k \<leftarrow> key_slot h (key_idx bkt ! i);
       Some (position (key_idx bkt ! i), Some (pdata (key_store h ! k))) }
     | None \<Rightarrow> do {
       let alt_hash = rte_hash_secondary_hash sig;
       bkt \<leftarrow> read_at (buckets h) (unat (alt_hash AND bucket_bitmask h));
       found \<leftarrow> find_key h bkt (\<lambda>s. sig_current s = alt_hash \<and> sig_alt s = sig) key [0..<RTE_HASH_BUCKET_ENTRIES];
       case found of Some i \<Rightarrow> do {
         k \<leftarrow> key_slot h (key_idx bkt ! i);
         Some (position (key_idx bkt ! i), Some (pdata (key_store h ! k))) }
       | None \<Rightarrow> Some (- ENOENT, None) } }"

definition rte_hash_lookup_with_hash :: "rte_hash \<Rightarrow> u8 list \<Rightarrow> hash_sig_t \<Rightarrow> int option" where
  "rte_hash_lookup_with_hash h key sig = map_option fst (hash_lookup_with_hash h key sig)"

definition rte_hash_lookup :: "rte_hash \<Rightarrow> u8 list \<Rightarrow> int option" where
  "rte_hash_lookup h key = map_option fst (hash_lookup_with_hash h key (rte_hash_hash h key))"

definition rte_hash_lookup_with_hash_data :: "rte_hash \<Rightarrow> u8 list \<Rightarrow> hash_sig_t \<Rightarrow> (int \<times> u64 option) option" where
  "rte_hash_lookup_with_hash_data h key sig = hash_lookup_with_hash h key sig"

definition rte_hash_lookup_data :: "rte_hash \<Rightarrow> u8 list \<Rightarrow> (int \<times> u64 option) option" where
  "rte_hash_lookup_data h key = hash_lookup_with_hash h key (rte_hash_hash h key)"

text \<open>A slot that is free again goes to the core's cache, which a full cache first empties into the ring, or to the ring.\<close>

definition recycle_slot :: "rte_hash \<Rightarrow> nat \<Rightarrow> u64 \<Rightarrow> rte_hash option" where
  "recycle_slot h lcore_id slot_id =
     (if hw_trans_mem_support h then do {
        cache \<leftarrow> read_at (local_free_slots h) lcore_id;
        (n_slots, r) \<leftarrow>
          (if cache_len cache = LCORE_CACHE_SIZE then rte_ring_mp_enqueue_burst (free_slots h) (cache_objs cache) LCORE_CACHE_SIZE
           else Some (0, free_slots h));
        let len = cache_len cache - n_slots;
        objs \<leftarrow> write_at (cache_objs cache) (unat len) slot_id;
        caches \<leftarrow> write_at (local_free_slots h) lcore_id \<lparr>cache_len = len + 1, cache_objs = objs\<rparr>;
        Some (h\<lparr>free_slots := r, local_free_slots := caches\<rparr>) }
      else do {
        (ret, r) \<leftarrow> rte_ring_sp_enqueue (free_slots h) slot_id;
        Some (h\<lparr>free_slots := r\<rparr>) })"

definition remove_entry :: "rte_hash \<Rightarrow> nat \<Rightarrow> nat \<Rightarrow> nat \<Rightarrow> rte_hash option" where
  "remove_entry h lcore_id b i = do {
     bkt \<leftarrow> read_at (buckets h) b;
     bs \<leftarrow> set_entry (buckets h) b i NULL_SIGNATURE (key_idx bkt ! i);
     recycle_slot (h\<lparr>buckets := bs\<rparr>) lcore_id (ucast (key_idx bkt ! i)) }"

definition hash_del_key_with_hash :: "rte_hash \<Rightarrow> nat \<Rightarrow> u8 list \<Rightarrow> hash_sig_t \<Rightarrow> (int \<times> rte_hash) option" where
  "hash_del_key_with_hash h lcore_id key sig = do {
     let b = unat (sig AND bucket_bitmask h);
     bkt \<leftarrow> read_at (buckets h) b;
     found \<leftarrow> find_key h bkt (\<lambda>s. sig_current s = sig \<and> s \<noteq> NULL_SIGNATURE) key [0..<RTE_HASH_BUCKET_ENTRIES];
     case found of Some i \<Rightarrow> do {
       h \<leftarrow> remove_entry h lcore_id b i;
       Some (position (key_idx bkt ! i), h) }
     | None \<Rightarrow> do {
       let alt_hash = rte_hash_secondary_hash sig;
       let b = unat (alt_hash AND bucket_bitmask h);
       bkt \<leftarrow> read_at (buckets h) b;
       found \<leftarrow> find_key h bkt (\<lambda>s. sig_current s = alt_hash \<and> s \<noteq> NULL_SIGNATURE) key [0..<RTE_HASH_BUCKET_ENTRIES];
       case found of Some i \<Rightarrow> do {
         h \<leftarrow> remove_entry h lcore_id b i;
         Some (position (key_idx bkt ! i), h) }
       | None \<Rightarrow> Some (- ENOENT, h) } }"

definition rte_hash_del_key_with_hash :: "rte_hash \<Rightarrow> nat \<Rightarrow> u8 list \<Rightarrow> hash_sig_t \<Rightarrow> (int \<times> rte_hash) option" where
  "rte_hash_del_key_with_hash h lcore_id key sig = hash_del_key_with_hash h lcore_id key sig"

definition rte_hash_del_key :: "rte_hash \<Rightarrow> nat \<Rightarrow> u8 list \<Rightarrow> (int \<times> rte_hash) option" where
  "rte_hash_del_key h lcore_id key = hash_del_key_with_hash h lcore_id key (rte_hash_hash h key)"

end
