(* ===== verification/Hash_Space.thy ===== *)
theory Hash_Space
  imports Hash "HOL-Library.Multiset"
begin

text \<open>
  The buckets as a multiset of entries, each a key index with its two hashes, and the proof that
  \<open>make_space_bucket\<close> ends, loses no entry and brings all flags back to 0.
\<close>

section \<open>The entries of the buckets\<close>

definition sig_at :: "rte_hash_bucket list \<Rightarrow> nat \<Rightarrow> nat \<Rightarrow> rte_hash_signatures" where
  "sig_at bs b i = signatures (bs ! b) ! i"

definition idx_at :: "rte_hash_bucket list \<Rightarrow> nat \<Rightarrow> nat \<Rightarrow> u32" where
  "idx_at bs b i = key_idx (bs ! b) ! i"

definition flags :: "rte_hash_bucket list \<Rightarrow> u8 list list" where
  "flags bs = map flag bs"

lemma length_flags [simp]: "length (flags bs) = length bs"
  by (simp add: flags_def)

definition bucket_wf :: "rte_hash_bucket \<Rightarrow> bool" where
  "bucket_wf bkt \<longleftrightarrow> length (signatures bkt) = 4 \<and> length (key_idx bkt) = 5 \<and> key_idx bkt ! 4 = 0 \<and> length (flag bkt) = 4"

definition cell :: "rte_hash_signatures \<Rightarrow> u32 \<Rightarrow> (u32 \<times> u32 multiset) multiset" where
  "cell s idx = (if s = NULL_SIGNATURE then {#} else {#(idx, {#sig_current s, sig_alt s#})#})"

definition bucket_cells :: "rte_hash_bucket \<Rightarrow> (u32 \<times> u32 multiset) multiset" where
  "bucket_cells bkt = (\<Sum>i\<leftarrow>[0..<4]. cell (signatures bkt ! i) (key_idx bkt ! i))"

definition contents :: "rte_hash_bucket list \<Rightarrow> (u32 \<times> u32 multiset) multiset" where
  "contents bs = sum_list (map bucket_cells bs)"

lemma upt_4: "[0..<4] = [0, 1, 2, 3 :: nat]"
  by (simp add: upt_rec)

lemma less_4: "i < 4 \<longleftrightarrow> i = 0 \<or> i = 1 \<or> i = 2 \<or> i = (3 :: nat)"
  by auto

lemma ex_less_4: "(\<exists>i < 4. P i) \<longleftrightarrow> P 0 \<or> P 1 \<or> P 2 \<or> P (3 :: nat)"
  by (auto simp: less_4)

lemma mem_cell: "e \<in># cell s idx \<longleftrightarrow> s \<noteq> NULL_SIGNATURE \<and> e = (idx, {#sig_current s, sig_alt s#})"
  by (simp add: cell_def)

lemma sum_list_update_mset: "k < length xs \<Longrightarrow> sum_list (xs[k := x]) + xs ! k = sum_list xs + (x :: 'a multiset)"
proof (induction xs arbitrary: k)
  case (Cons y ys)
  then show ?case by (cases k) (auto simp: ac_simps)
qed simp

lemma bucket_cells_update:
  assumes "bucket_wf bkt" and "i < 4"
  shows "bucket_cells (bkt\<lparr>signatures := (signatures bkt)[i := s], key_idx := (key_idx bkt)[i := idx]\<rparr>) +
      cell (signatures bkt ! i) (key_idx bkt ! i) = bucket_cells bkt + cell s idx"
  using assms by (auto simp: bucket_cells_def bucket_wf_def upt_4 less_4)

lemma contents_update:
  assumes "b < length bs" and "bucket_cells bkt + x = bucket_cells (bs ! b) + y"
  shows "contents (bs[b := bkt]) + x = contents bs + y"
proof -
  have "contents (bs[b := bkt]) + bucket_cells (bs ! b) = contents bs + bucket_cells bkt"
    using sum_list_update_mset [of b "map bucket_cells bs" "bucket_cells bkt"] assms(1) by (simp add: contents_def map_update)
  then have "(contents (bs[b := bkt]) + x) + bucket_cells (bs ! b) = contents bs + (bucket_cells bkt + x)"
    by (simp add: ac_simps)
  then show ?thesis unfolding assms(2) by (simp add: ac_simps)
qed

lemma mem_contents:
  "e \<in># contents bs \<longleftrightarrow> (\<exists>b < length bs. \<exists>i < 4. sig_at bs b i \<noteq> NULL_SIGNATURE \<and>
     e = (idx_at bs b i, {#sig_current (sig_at bs b i), sig_alt (sig_at bs b i)#}))"
proof -
  have "e \<in># bucket_cells bkt \<longleftrightarrow> (\<exists>i < 4. signatures bkt ! i \<noteq> NULL_SIGNATURE \<and>
      e = (key_idx bkt ! i, {#sig_current (signatures bkt ! i), sig_alt (signatures bkt ! i)#}))" for bkt
    unfolding ex_less_4 by (simp add: bucket_cells_def upt_4 mem_cell)
  moreover have "e \<in># contents bs \<longleftrightarrow> (\<exists>bkt \<in> set bs. e \<in># bucket_cells bkt)"
    unfolding contents_def by (induction bs) simp_all
  then have "e \<in># contents bs \<longleftrightarrow> (\<exists>b < length bs. e \<in># bucket_cells (bs ! b))"
    by (metis in_set_conv_nth)
  ultimately show ?thesis by (simp add: sig_at_def idx_at_def)
qed

text \<open>Entry \<open>i\<close> of bucket \<open>b\<close> becomes an entry with signatures \<open>s\<close> and key index \<open>idx\<close>, nothing else changes.\<close>

definition changed :: "rte_hash_bucket list \<Rightarrow> nat \<Rightarrow> nat \<Rightarrow> rte_hash_signatures \<Rightarrow> u32 \<Rightarrow> rte_hash_bucket list \<Rightarrow> bool" where
  "changed bs b i s idx bs' \<longleftrightarrow> length bs' = length bs \<and> (\<forall>bkt \<in> set bs'. bucket_wf bkt) \<and> flags bs' = flags bs \<and>
     (\<forall>b' i'. b' < length bs \<longrightarrow> i' < 4 \<longrightarrow>
        sig_at bs' b' i' = (if b' = b \<and> i' = i then s else sig_at bs b' i') \<and>
        idx_at bs' b' i' = (if b' = b \<and> i' = i then idx else idx_at bs b' i')) \<and>
     contents bs' + cell (sig_at bs b i) (idx_at bs b i) = contents bs + cell s idx"

lemma set_entry_changed:
  assumes wf: "\<forall>bkt \<in> set bs. bucket_wf bkt" and b: "b < length bs" and i: "i < 4"
  shows "\<exists>bs'. set_entry bs b i s idx = Some bs' \<and> changed bs b i s idx bs'"
proof -
  define bkt where "bkt = (bs ! b)\<lparr>signatures := (signatures (bs ! b))[i := s], key_idx := (key_idx (bs ! b))[i := idx]\<rparr>"
  have old: "bucket_wf (bs ! b)" using wf b by simp
  have "set_entry bs b i s idx = Some (bs[b := bkt])" using b by (simp add: set_entry_def bkt_def)
  moreover have "bucket_wf bkt" using old i by (simp add: bucket_wf_def bkt_def)
  then have "\<forall>x \<in> set (bs[b := bkt]). bucket_wf x" using wf by (auto dest!: set_update_subset_insert [THEN subsetD])
  moreover have "flags (bs[b := bkt]) = flags bs" using b by (simp add: flags_def map_update bkt_def list_update_same_conv)
  moreover have "contents (bs[b := bkt]) + cell (sig_at bs b i) (idx_at bs b i) = contents bs + cell s idx"
    unfolding sig_at_def idx_at_def by (rule contents_update [OF b]) (simp only: bkt_def bucket_cells_update [OF old i])
  moreover have "sig_at (bs[b := bkt]) b' i' = (if b' = b \<and> i' = i then s else sig_at bs b' i') \<and>
      idx_at (bs[b := bkt]) b' i' = (if b' = b \<and> i' = i then idx else idx_at bs b' i')" if "b' < length bs" "i' < 4" for b' i'
    using b that old i by (auto simp: sig_at_def idx_at_def bkt_def nth_list_update bucket_wf_def)
  ultimately show ?thesis by (intro exI [of _ "bs[b := bkt]"]) (simp add: changed_def)
qed

text \<open>Every entry is in the bucket of its current hash.\<close>

definition layout :: "u32 \<Rightarrow> rte_hash_bucket list \<Rightarrow> bool" where
  "layout bitmask bs \<longleftrightarrow> (\<exists>k. bitmask = mask k \<and> k < 32 \<and> length bs = 2 ^ k) \<and> (\<forall>bkt \<in> set bs. bucket_wf bkt) \<and>
     (\<forall>b < length bs. \<forall>i < 4. sig_at bs b i \<noteq> NULL_SIGNATURE \<longrightarrow> unat (sig_current (sig_at bs b i) AND bitmask) = b)"

lemma layout_index:
  assumes "layout bitmask bs"
  shows "unat (s AND bitmask) < length bs"
proof -
  obtain k where "bitmask = mask k" "length bs = 2 ^ k" using assms by (auto simp: layout_def)
  then show ?thesis by (simp add: unat_and_mask)
qed

lemma layout_wf: "layout bitmask bs \<Longrightarrow> \<forall>bkt \<in> set bs. bucket_wf bkt"
  by (simp add: layout_def)

lemma layout_changed:
  assumes "layout bitmask bs" and "changed bs b i s idx bs'" and "s = NULL_SIGNATURE \<or> unat (sig_current s AND bitmask) = b"
  shows "layout bitmask bs'"
  using assms unfolding layout_def changed_def by (metis (full_types))

definition full :: "rte_hash_bucket list \<Rightarrow> nat \<Rightarrow> bool" where
  "full bs b \<longleftrightarrow> (\<forall>i < 4. sig_at bs b i \<noteq> NULL_SIGNATURE)"

lemma free_entry_None: "free_entry (bs ! b) = None \<longleftrightarrow> full bs b"
  by (auto simp: free_entry_def find_None_iff full_def sig_at_def)

lemma free_entry_Some: "free_entry (bs ! b) = Some j \<Longrightarrow> j < 4 \<and> sig_at bs b j = NULL_SIGNATURE"
  by (auto simp: free_entry_def find_Some_iff sig_at_def)

lemma layout_next: "layout bitmask bs \<Longrightarrow> next_bucket_idx bitmask bkt i < length bs"
  unfolding next_bucket_idx_def by (rule layout_index)

lemma find_room_cases:
  assumes "layout bitmask bs"
  shows "(find_room bs bitmask bkt is = Some None \<and> (\<forall>i \<in> set is. full bs (next_bucket_idx bitmask bkt i))) \<or>
    (\<exists>i j. find_room bs bitmask bkt is = Some (Some (i, j)) \<and> i \<in> set is \<and> free_entry (bs ! next_bucket_idx bitmask bkt i) = Some j)"
proof (induction "is")
  case (Cons i "is")
  have "read_at bs (next_bucket_idx bitmask bkt i) = Some (bs ! next_bucket_idx bitmask bkt i)"
    using layout_next [OF assms, of bkt i] by simp
  then have step: "find_room bs bitmask bkt (i # is) = (case free_entry (bs ! next_bucket_idx bitmask bkt i) of
      Some j \<Rightarrow> Some (Some (i, j)) | None \<Rightarrow> find_room bs bitmask bkt is)" by simp
  show ?case
  proof (cases "free_entry (bs ! next_bucket_idx bitmask bkt i)")
    case None
    then have "full bs (next_bucket_idx bitmask bkt i)" by (simp add: free_entry_None)
    with Cons.IH None show ?thesis unfolding step by auto
  next
    case (Some j)
    then show ?thesis unfolding step by auto
  qed
qed simp

section \<open>Making space\<close>

definition flag_at :: "rte_hash_bucket list \<Rightarrow> nat \<Rightarrow> nat \<Rightarrow> u8" where
  "flag_at bs b i = flags bs ! b ! i"

text \<open>The entries with a flag are being pushed: they are in use and their other bucket is full.\<close>

definition flags_ok :: "u32 \<Rightarrow> rte_hash_bucket list \<Rightarrow> bool" where
  "flags_ok bitmask bs \<longleftrightarrow> (\<forall>b < length bs. \<forall>i < 4. flag_at bs b i \<noteq> 0 \<longrightarrow>
     sig_at bs b i \<noteq> NULL_SIGNATURE \<and> full bs (next_bucket_idx bitmask (bs ! b) i))"

lemma set_flag_at:
  assumes "b < length bs" and "\<forall>bkt \<in> set bs. bucket_wf bkt"
  shows "length (set_flag bs b i f) = length bs" "sig_at (set_flag bs b i f) b' i' = sig_at bs b' i'"
    "idx_at (set_flag bs b i f) b' i' = idx_at bs b' i'" "\<forall>bkt \<in> set (set_flag bs b i f). bucket_wf bkt"
    "contents (set_flag bs b i f) = contents bs" "full (set_flag bs b i f) b' = full bs b'"
    "next_bucket_idx bitmask (set_flag bs b i f ! b') i' = next_bucket_idx bitmask (bs ! b') i'"
    "flags (set_flag bs b i f) = (flags bs)[b := (flags bs ! b)[i := f]]"
proof -
  let ?bkt = "(bs ! b)\<lparr>flag := (flag (bs ! b))[i := f]\<rparr>"
  show "length (set_flag bs b i f) = length bs" by (simp add: set_flag_def)
  show sig: "sig_at (set_flag bs b i f) b' i' = sig_at bs b' i'" for b' i'
    using assms(1) by (simp add: sig_at_def set_flag_def nth_list_update)
  show "idx_at (set_flag bs b i f) b' i' = idx_at bs b' i'"
    using assms(1) by (simp add: idx_at_def set_flag_def nth_list_update)
  have "bucket_wf ?bkt" using assms by (simp add: bucket_wf_def)
  then show "\<forall>bkt \<in> set (set_flag bs b i f). bucket_wf bkt"
    using assms(2) by (auto simp: set_flag_def dest!: set_update_subset_insert [THEN subsetD])
  have "contents (bs[b := ?bkt]) + {#} = contents bs + {#}"
    by (rule contents_update [OF assms(1)]) (simp add: bucket_cells_def)
  then show "contents (set_flag bs b i f) = contents bs" by (simp add: set_flag_def)
  show "full (set_flag bs b i f) b' = full bs b'" by (simp add: full_def sig)
  show "next_bucket_idx bitmask (set_flag bs b i f ! b') i' = next_bucket_idx bitmask (bs ! b') i'"
    using sig [of b' i'] by (simp add: next_bucket_idx_def sig_at_def)
  show "flags (set_flag bs b i f) = (flags bs)[b := (flags bs ! b)[i := f]]"
    using assms(1) by (simp add: flags_def set_flag_def map_update)
qed

lemma flag_set_flag:
  assumes "b < length bs" and "\<forall>bkt \<in> set bs. bucket_wf bkt" and "i < 4" and "b' < length bs"
  shows "flag_at (set_flag bs b i f) b' i' = (if b' = b \<and> i' = i then f else flag_at bs b' i')"
proof -
  have "length (flag (bs ! b)) = 4" using assms by (simp add: bucket_wf_def)
  then show ?thesis using assms by (auto simp: flag_at_def flags_def set_flag_def nth_list_update)
qed

lemma layout_set_flag: "layout bitmask bs \<Longrightarrow> b < length bs \<Longrightarrow> layout bitmask (set_flag bs b i f)"
  using set_flag_at unfolding layout_def by (metis (no_types, lifting))

text \<open>
  What a call achieves. Entry \<open>ret\<close> of bucket \<open>b\<close> is one that has a copy elsewhere, so that
  overwriting it loses nothing; entries being pushed have not been touched.
\<close>

definition space_made :: "rte_hash_bucket list \<Rightarrow> nat \<Rightarrow> int \<Rightarrow> rte_hash_bucket list \<Rightarrow> bool" where
  "space_made bs b ret bs' \<longleftrightarrow> length bs' = length bs \<and> flags bs' = flags bs \<and>
     (if ret < 0 then ret = - ENOSPC \<and> bs' = bs
      else ret < 4 \<and> flag_at bs b (nat ret) = 0 \<and> sig_at bs' b (nat ret) \<noteq> NULL_SIGNATURE \<and>
        contents bs' = contents bs + cell (sig_at bs' b (nat ret)) (idx_at bs' b (nat ret)) \<and>
        (\<forall>b' < length bs. \<forall>i' < 4. flag_at bs b' i' \<noteq> 0 \<longrightarrow>
           sig_at bs' b' i' = sig_at bs b' i' \<and> idx_at bs' b' i' = idx_at bs b' i'))"

lemma cell_swap:
  "cell \<lparr>sig_current = sig_alt s, sig_alt = sig_current s\<rparr> idx = cell s idx"
proof -
  have "\<lparr>sig_current = sig_alt s, sig_alt = sig_current s\<rparr> = NULL_SIGNATURE \<longleftrightarrow> s = NULL_SIGNATURE"
    by (cases s) (auto simp: NULL_SIGNATURE_def)
  then show ?thesis by (simp add: cell_def add_mset_commute)
qed

lemma push_entry_changed:
  assumes lay: "layout bitmask bs" and b: "b < length bs" and j: "j < 4" and nb: "nb = next_bucket_idx bitmask (bs ! b) i"
  shows "\<exists>bs'. push_entry bs b i nb j = Some bs' \<and> layout bitmask bs' \<and>
    changed bs nb j \<lparr>sig_current = sig_alt (sig_at bs b i), sig_alt = sig_current (sig_at bs b i)\<rparr> (idx_at bs b i) bs'"
proof -
  let ?s = "\<lparr>sig_current = sig_alt (sig_at bs b i), sig_alt = sig_current (sig_at bs b i)\<rparr>"
  have "nb < length bs" unfolding nb by (rule layout_next [OF lay])
  from set_entry_changed [OF layout_wf [OF lay] this j, of ?s "idx_at bs b i"] obtain bs' where
    bs': "set_entry bs nb j ?s (idx_at bs b i) = Some bs'" "changed bs nb j ?s (idx_at bs b i) bs'" by blast
  have "unat (sig_current ?s AND bitmask) = nb" by (simp add: nb next_bucket_idx_def sig_at_def)
  with layout_changed [OF lay bs'(2)] have "layout bitmask bs'" by blast
  with bs' b show ?thesis by (simp add: push_entry_def sig_at_def idx_at_def)
qed

lemma set_flag_undo:
  assumes "b < length bs" and "unpushed (bs ! b) = Some i"
  shows "set_flag (set_flag bs b i 1) b i 0 = bs"
proof -
  have "(flag (bs ! b))[i := 0] = flag (bs ! b)" using unpushed_Some [OF assms(2)] by (metis list_update_id)
  then have "(bs ! b)\<lparr>flag := (flag (bs ! b))[i := 0]\<rparr> = bs ! b" by simp
  then show ?thesis using assms(1) by (simp add: set_flag_def)
qed

lemma make_space_found:
  assumes lay: "layout bitmask bs" and b: "b < length bs" and fl: "full bs b" and ok: "flags_ok bitmask bs"
    and i: "i < 4" and free: "free_entry (bs ! next_bucket_idx bitmask (bs ! b) i) = Some j"
  shows "\<exists>bs'. push_entry bs b i (next_bucket_idx bitmask (bs ! b) i) j = Some bs' \<and> layout bitmask bs' \<and> space_made bs b (int i) bs'"
proof -
  define nb where "nb = next_bucket_idx bitmask (bs ! b) i"
  have j: "j < 4" "sig_at bs nb j = NULL_SIGNATURE" using free_entry_Some [OF free] by (simp_all add: nb_def)
  obtain bs' where push: "push_entry bs b i nb j = Some bs'" "layout bitmask bs'" and
    ch: "changed bs nb j \<lparr>sig_current = sig_alt (sig_at bs b i), sig_alt = sig_current (sig_at bs b i)\<rparr> (idx_at bs b i) bs'"
    using push_entry_changed [OF lay b j(1) nb_def] by blast
  have "flag_at bs b i = 0" using ok b i free unfolding flags_ok_def by (metis free_entry_None option.distinct(1))
  moreover have used: "sig_at bs b i \<noteq> NULL_SIGNATURE" using fl i by (simp add: full_def)
  moreover have "sig_at bs' b i = sig_at bs b i \<and> idx_at bs' b i = idx_at bs b i"
    using ch b i used j(2) unfolding changed_def by metis
  moreover have "contents bs' = contents bs + cell (sig_at bs b i) (idx_at bs b i)"
    using ch j(2) by (simp add: changed_def cell_swap) (simp add: cell_def)
  moreover have "sig_at bs' b' i' = sig_at bs b' i' \<and> idx_at bs' b' i' = idx_at bs b' i'"
    if "b' < length bs" "i' < 4" "flag_at bs b' i' \<noteq> 0" for b' i'
    using ch that j(2) ok unfolding changed_def flags_ok_def by metis
  ultimately have "space_made bs b (int i) bs'" using ch i by (simp add: space_made_def changed_def)
  with push show ?thesis by (auto simp: nb_def)
qed

lemma flags_ok_set_flag:
  assumes lay: "layout bitmask bs" and b: "b < length bs" and fl: "full bs b" and ok: "flags_ok bitmask bs"
    and i: "i < 4" and nofree: "full bs (next_bucket_idx bitmask (bs ! b) i)"
  shows "flags_ok bitmask (set_flag bs b i 1)"
proof -
  note at = set_flag_at [OF b layout_wf [OF lay]]
  have "flag_at (set_flag bs b i 1) b' i' = (if b' = b \<and> i' = i then 1 else flag_at bs b' i')" if "b' < length bs" for b' i'
    by (rule flag_set_flag [OF b layout_wf [OF lay] i that])
  then show ?thesis using ok fl nofree b unfolding flags_ok_def at by (auto simp: full_def)
qed

lemma make_space_bucket_ok:
  "layout bitmask bs \<Longrightarrow> b < length bs \<Longrightarrow> full bs b \<Longrightarrow> flags_ok bitmask bs \<Longrightarrow>
   \<exists>ret bs'. make_space_bucket bitmask bs b = Some (ret, bs') \<and> layout bitmask bs' \<and> space_made bs b ret bs'"
proof (induction bitmask bs b rule: make_space_bucket.induct)
  case (1 bitmask bs b)
  note lay = 1(2) and b = 1(3) and fl = 1(4) and ok = 1(5)
  consider (room) i j where "find_room bs bitmask (bs ! b) [0..<4] = Some (Some (i, j))" "i < 4"
      "free_entry (bs ! next_bucket_idx bitmask (bs ! b) i) = Some j"
    | (stuck) "find_room bs bitmask (bs ! b) [0..<4] = Some None" "unpushed (bs ! b) = None"
    | (push) i where "find_room bs bitmask (bs ! b) [0..<4] = Some None" "unpushed (bs ! b) = Some i"
        "full bs (next_bucket_idx bitmask (bs ! b) i)"
  proof (cases "find_room bs bitmask (bs ! b) [0..<4] = Some None")
    case True
    have "length (flag (bs ! b)) = 4" using lay b by (simp add: layout_def bucket_wf_def)
    then show ?thesis using True that(2,3) unpushed_Some [of "bs ! b"] find_room_cases [OF lay, of "bs ! b" "[0..<4]"]
      by (cases "unpushed (bs ! b)") auto
  next
    case False
    then show ?thesis using that(1) find_room_cases [OF lay, of "bs ! b" "[0..<4]"] by auto
  qed
  then show ?case
  proof cases
    case room
    then show ?thesis using make_space_found [OF lay b fl ok room(2,3)] b
      by (subst make_space_bucket.simps) auto
  next
    case stuck
    then show ?thesis using b lay by (subst make_space_bucket.simps) (simp add: space_made_def)
  next
    case push
    define nb where "nb = next_bucket_idx bitmask (bs ! b) i"
    define bs1 where "bs1 = set_flag bs b i 1"
    note at = set_flag_at [OF b layout_wf [OF lay]]
    have nb: "nb < length bs" unfolding nb_def by (rule layout_next [OF lay])
    have i4: "i < 4" "flag_at bs b i = 0" "length (flags bs ! b) = 4"
      using unpushed_Some [OF push(2)] lay b by (auto simp: layout_def bucket_wf_def flag_at_def flags_def)
    have bs1: "layout bitmask bs1" "length bs1 = length bs" "flags_ok bitmask bs1" "full bs1 nb"
      using layout_set_flag [OF lay b] flags_ok_set_flag [OF lay b fl ok i4(1) push(3)] push(3) by (simp_all add: bs1_def nb_def at)
    obtain ret bs2 where rec: "make_space_bucket bitmask bs1 nb = Some (ret, bs2)" and lay2: "layout bitmask bs2"
        and sp: "space_made bs1 nb ret bs2"
      using 1(1) [OF b push(1) refl push(2)] bs1 nb unfolding bs1_def nb_def by fastforce
    have step: "make_space_bucket bitmask bs b =
        (let bs = set_flag bs2 b i 0 in
         if 0 \<le> ret then do { bs \<leftarrow> push_entry bs b i nb (nat ret); Some (int i, bs) } else Some (ret, bs))"
      using b push rec by (subst make_space_bucket.simps) (simp add: nb_def bs1_def Let_def)
    show ?thesis
    proof (cases "ret < 0")
      case True
      then have "bs2 = bs1" "ret = - ENOSPC" using sp by (auto simp: space_made_def)
      then show ?thesis using step True set_flag_undo [OF b push(2)] lay by (simp add: bs1_def space_made_def)
    next
      case False
      define r where "r = nat ret"
      define bs3 where "bs3 = set_flag bs2 b i 0"
      have r: "0 \<le> ret" "r < 4" "ret = int r" "flag_at bs1 nb r = 0" "length bs2 = length bs"
        "contents bs2 = contents bs1 + cell (sig_at bs2 nb r) (idx_at bs2 nb r)" "flags bs2 = flags bs1"
        and keep: "\<forall>b' < length bs. \<forall>i' < 4. flag_at bs1 b' i' \<noteq> 0 \<longrightarrow>
           sig_at bs2 b' i' = sig_at bs1 b' i' \<and> idx_at bs2 b' i' = idx_at bs1 b' i'"
        using sp False bs1(2) by (auto simp: space_made_def r_def)
      have b2: "b < length bs2" using b r(5) by simp
      note at2 = set_flag_at [OF b2 layout_wf [OF lay2]]
      have f1: "flag_at bs1 b' i' = (if b' = b \<and> i' = i then 1 else flag_at bs b' i')" if "b' < length bs" "i' < 4" for b' i'
        unfolding bs1_def by (rule flag_set_flag [OF b layout_wf [OF lay] i4(1) that(1)])
      have "(flags bs ! b)[i := 0] = flags bs ! b" using i4(2) by (metis flag_at_def list_update_id)
      then have "flags bs3 = flags bs" using i4 b by (simp add: bs3_def at2(8) r(7) bs1_def at(8) del: list_update_same_conv)
      have lay3: "layout bitmask bs3" unfolding bs3_def by (rule layout_set_flag [OF lay2 b2])
      have bi: "sig_at bs3 b i = sig_at bs b i" "idx_at bs3 b i = idx_at bs b i"
        using keep b i4(1) f1 by (simp_all add: bs3_def at2 bs1_def at)
      have "nb = next_bucket_idx bitmask (bs3 ! b) i" using bi(1) by (simp add: nb_def next_bucket_idx_def sig_at_def)
      moreover have "b < length bs3" using b2 by (simp add: bs3_def at2)
      ultimately obtain bs4 where push4: "push_entry bs3 b i nb r = Some bs4" "layout bitmask bs4" and
          ch: "changed bs3 nb r \<lparr>sig_current = sig_alt (sig_at bs b i), sig_alt = sig_current (sig_at bs b i)\<rparr> (idx_at bs b i) bs4"
        using push_entry_changed [OF lay3 _ r(2), of b nb i] bi by auto
      have ne: "\<not> (nb = b \<and> r = i)" using r(4) f1 [OF b i4(1)] by auto
      have len3: "length bs3 = length bs" by (simp add: bs3_def at2 r(5))
      have "contents bs4 + cell (sig_at bs2 nb r) (idx_at bs2 nb r) = contents bs3 + cell (sig_at bs b i) (idx_at bs b i)"
        using ch by (simp add: changed_def cell_swap) (simp add: bs3_def at2)
      moreover have "contents bs3 = contents bs + cell (sig_at bs2 nb r) (idx_at bs2 nb r)"
        by (simp add: bs3_def at2 r(6)) (simp add: bs1_def at)
      ultimately have "contents bs4 = contents bs + cell (sig_at bs b i) (idx_at bs b i)" by (simp add: ac_simps)
      moreover have same: "sig_at bs4 b' i' = sig_at bs b' i' \<and> idx_at bs4 b' i' = idx_at bs b' i'"
        if "b' < length bs" "i' < 4" "flag_at bs1 b' i' \<noteq> 0" for b' i'
      proof -
        have "\<not> (b' = nb \<and> i' = r)" using that(3) r(4) by auto
        then have "sig_at bs4 b' i' = sig_at bs3 b' i' \<and> idx_at bs4 b' i' = idx_at bs3 b' i'"
          using ch that len3 unfolding changed_def by metis
        then show ?thesis using keep that by (simp add: bs3_def at2 bs1_def at)
      qed
      moreover have "sig_at bs b i \<noteq> NULL_SIGNATURE" using fl i4(1) by (simp add: full_def)
      moreover have "flags bs4 = flags bs" "length bs4 = length bs"
        using ch \<open>flags bs3 = flags bs\<close> len3 by (simp_all add: changed_def)
      ultimately have "space_made bs b (int i) bs4" using i4 f1 b by (auto simp: space_made_def)
      then show ?thesis using step push4 r(1) by (simp add: bs3_def r_def)
    qed
  qed
qed

end
