(* ===== verification/Hash_Map.thy ===== *)
theory Hash_Map
  imports Hash_Space
begin

text \<open>
  The hash table as a map from keys to a position and data: the invariant of the table, its
  abstraction, and the lookup, the insertion and the deletion as operations on the map.
\<close>

section \<open>The pool of free slots\<close>

definition cache_free :: "lcore_cache \<Rightarrow> nat multiset" where
  "cache_free c = mset (map unat (take (unat (cache_len c)) (cache_objs c)))"

definition cache_ok :: "lcore_cache \<Rightarrow> bool" where
  "cache_ok c \<longleftrightarrow> length (cache_objs c) = 8 \<and> unat (cache_len c) \<le> 8"

definition pool_ok :: "rte_hash \<Rightarrow> bool" where
  "pool_ok h \<longleftrightarrow> ring_ok (free_slots h) \<and> ring_capacity (free_slots h) < unat (prod_watermark (free_slots h)) \<and>
     (\<forall>c \<in> set (local_free_slots h). cache_ok c)"

definition pool_free :: "rte_hash \<Rightarrow> nat multiset" where
  "pool_free h = mset (map unat (ring_contents (free_slots h))) +
     (if hw_trans_mem_support h then \<Sum>c\<leftarrow>local_free_slots h. cache_free c else {#})"

text \<open>A core can use the pool: with transactional memory it has a cache.\<close>

definition core_ok :: "rte_hash \<Rightarrow> nat \<Rightarrow> bool" where
  "core_ok h l \<longleftrightarrow> hw_trans_mem_support h \<longrightarrow> l < length (local_free_slots h)"

definition with_pool :: "u64 rte_ring \<Rightarrow> lcore_cache list \<Rightarrow> rte_hash \<Rightarrow> rte_hash" where
  "with_pool r cs h = h\<lparr>free_slots := r, local_free_slots := cs\<rparr>"

lemma with_pool_id: "with_pool (free_slots h) (local_free_slots h) h = h"
  by (simp add: with_pool_def)

lemma with_pool_simps [simp]:
  "free_slots (with_pool r cs h) = r" "local_free_slots (with_pool r cs h) = cs"
  "with_pool r' cs' (with_pool r cs h) = with_pool r' cs' h" "hw_trans_mem_support (with_pool r cs h) = hw_trans_mem_support h"
  "buckets (with_pool r cs h) = buckets h" "bucket_bitmask (with_pool r cs h) = bucket_bitmask h"
  "key_store (with_pool r cs h) = key_store h" "h_key_len (with_pool r cs h) = h_key_len h"
  "rte_hash_cmp_eq (with_pool r cs h) = rte_hash_cmp_eq h" "h_entries (with_pool r cs h) = h_entries h"
  "key_entry_size (with_pool r cs h) = key_entry_size h" "num_buckets (with_pool r cs h) = num_buckets h"
  "hash_func (with_pool r cs h) = hash_func h" "hash_func_init_val (with_pool r cs h) = hash_func_init_val h"
  by (simp_all add: with_pool_def)

lemma caches_update:
  "l < length cs \<Longrightarrow> (\<Sum>c\<leftarrow>cs[l := c']. cache_free c) + cache_free (cs ! l) = (\<Sum>c\<leftarrow>cs. cache_free c) + cache_free c'"
  using sum_list_update_mset [of l "map cache_free cs" "cache_free c'"] by (simp add: map_update)

text \<open>
  \<open>moved h h' l\<close>: only the ring and the caches differ, the pool is fine and as large as before.
\<close>

definition moved :: "rte_hash \<Rightarrow> rte_hash \<Rightarrow> nat \<Rightarrow> bool" where
  "moved h h' l \<longleftrightarrow> h' = with_pool (free_slots h') (local_free_slots h') h \<and> pool_ok h' \<and> core_ok h' l \<and>
     ring_capacity (free_slots h') = ring_capacity (free_slots h) \<and> length (local_free_slots h') = length (local_free_slots h)"

lemma movedI:
  assumes "ring_ok r" and "ring_capacity r = ring_capacity (free_slots h)" and "prod_watermark r = prod_watermark (free_slots h)"
    and "pool_ok h" and "\<forall>c \<in> set cs. cache_ok c" and "core_ok h l" and "length cs = length (local_free_slots h)"
  shows "moved h (with_pool r cs h) l"
  using assms by (simp add: moved_def pool_ok_def core_ok_def)

lemma burst_len: "unat (of_nat n :: u32) = n" if "n \<le> 8"
  using that by (simp add: unat_of_nat_less)

lemma mc_burst_ok:
  assumes "ring_ok r" and "length objs = 8"
  shows "\<exists>n r'. rte_ring_mc_dequeue_burst r objs LCORE_CACHE_SIZE =
      Some (of_nat n, take n (ring_contents r) @ drop n objs, r') \<and> n = min 8 (length (ring_contents r)) \<and> ring_ok r' \<and>
    ring_contents r' = drop n (ring_contents r) \<and> ring_capacity r' = ring_capacity r \<and> prod_watermark r' = prod_watermark r"
proof -
  define n where "n = min 8 (length (ring_contents r))"
  have acc: "fifo_accept (length (ring_contents r)) 8 RTE_RING_QUEUE_VARIABLE = n" by (auto simp: fifo_accept_def n_def)
  obtain r' where r': "sc_do_dequeue r objs 8 RTE_RING_QUEUE_VARIABLE =
      Some (fifo_dequeue_ret (length (ring_contents r)) 8 RTE_RING_QUEUE_VARIABLE, take n (ring_contents r) @ drop n objs, r')"
    "ring_ok r'" "ring_contents r' = drop n (ring_contents r)" "ring_capacity r' = ring_capacity r" "prod_watermark r' = prod_watermark r"
    using sc_do_dequeue_refines [OF assms(1), of 8 objs RTE_RING_QUEUE_VARIABLE] assms(2) acc by auto
  have "fifo_dequeue_ret (length (ring_contents r)) 8 RTE_RING_QUEUE_VARIABLE = int n" by (simp add: fifo_dequeue_ret_def acc)
  then have "rte_ring_mc_dequeue_burst r objs 8 = Some (of_nat n, take n (ring_contents r) @ drop n objs, r')"
    using mc_do_dequeue_alone [OF assms(1), of 8 objs] assms(2) r'(1)
    by (simp add: rte_ring_mc_dequeue_burst_def to_u32_def)
  with r' show ?thesis by (intro exI [of _ n] exI [of _ r']) (simp add: n_def)
qed

lemma mp_burst_ok:
  assumes "ring_ok r" and "length objs = 8" and "length (ring_contents r) + 8 \<le> ring_capacity r" and "ring_capacity r < unat (prod_watermark r)"
  shows "\<exists>r'. rte_ring_mp_enqueue_burst r objs LCORE_CACHE_SIZE = Some (8, r') \<and> ring_ok r' \<and>
    ring_contents r' = ring_contents r @ objs \<and> ring_capacity r' = ring_capacity r \<and> prod_watermark r' = prod_watermark r"
proof -
  have acc: "fifo_accept (ring_capacity r - length (ring_contents r)) 8 RTE_RING_QUEUE_VARIABLE = 8"
    using assms(3) by (simp add: fifo_accept_def)
  then have "fifo_enqueue_ret (ring_capacity r) (unat (prod_watermark r)) (length (ring_contents r)) 8 RTE_RING_QUEUE_VARIABLE = 8"
    using assms(3,4) by (simp add: fifo_enqueue_ret_def Let_def)
  then show ?thesis
    using sp_do_enqueue_refines [OF assms(1), of 8 objs RTE_RING_QUEUE_VARIABLE] assms(2) acc mp_do_enqueue_alone [OF assms(1), of 8 objs]
    by (auto simp: rte_ring_mp_enqueue_burst_def to_u32_def)
qed

lemma single_watermark:
  "ring_ok r \<Longrightarrow> rte_ring_sp_enqueue r x = Some (ret, r') \<Longrightarrow> prod_watermark r' = prod_watermark r"
  "ring_ok r \<Longrightarrow> rte_ring_sc_dequeue r x = Some (ret, y, r') \<Longrightarrow> prod_watermark r' = prod_watermark r"
  using sp_do_enqueue_refines [of r 1 "[x]" RTE_RING_QUEUE_FIXED] sc_do_dequeue_refines [of r 1 "[x]" RTE_RING_QUEUE_FIXED]
  by (auto simp: ring_single_enqueue ring_single_dequeue deref_def)

text \<open>No slot within reach of the core: neither in the ring nor in its cache.\<close>

definition no_slot :: "rte_hash \<Rightarrow> nat \<Rightarrow> bool" where
  "no_slot h l \<longleftrightarrow> ring_contents (free_slots h) = [] \<and> (hw_trans_mem_support h \<longrightarrow> cache_len (local_free_slots h ! l) = 0)"

lemma get_slot_ok:
  assumes ok: "pool_ok h" and core: "core_ok h l"
  shows "(\<exists>h'. get_slot h l = Some (Inl (- ENOSPC), h') \<and> moved h h' l \<and> pool_free h' = pool_free h \<and> no_slot h l) \<or>
    (\<exists>s h'. get_slot h l = Some (Inr s, h') \<and> moved h h' l \<and> pool_free h = add_mset (unat s) (pool_free h') \<and>
       (hw_trans_mem_support h \<longrightarrow> unat (cache_len (local_free_slots h' ! l)) < 8))"
proof (cases "hw_trans_mem_support h")
  case False
  show ?thesis
  proof (cases "ring_contents (free_slots h)")
    case Nil
    have "moved h h l" using ok core by (simp add: moved_def with_pool_id)
    then show ?thesis using ring_queue_sp_sc.deq_none [of "free_slots h" 0] ok False Nil
      by (intro disjI1 exI [of _ h]) (simp add: get_slot_def pool_ok_def pool_free_def no_slot_def)
  next
    case (Cons x xs)
    then obtain r where r: "rte_ring_sc_dequeue (free_slots h) 0 = Some (0, x, r)" "ring_ok r" "ring_contents r = xs"
        "ring_capacity r = ring_capacity (free_slots h)"
      using ring_queue_sp_sc.deq_some [of "free_slots h" x xs 0] ok by (auto simp: pool_ok_def)
    then have "get_slot h l = Some (Inr x, with_pool r (local_free_slots h) h)"
      using False by (simp add: get_slot_def with_pool_def)
    moreover have "moved h (with_pool r (local_free_slots h) h) l"
      by (rule movedI) (use r ok core single_watermark(2) [OF _ r(1)] in \<open>simp_all add: pool_ok_def\<close>)
    ultimately show ?thesis using r(3) Cons False by (auto simp: pool_free_def)
  qed
next
  case True
  define c where "c = local_free_slots h ! l"
  have l: "l < length (local_free_slots h)" and c: "cache_ok c" using True ok core by (auto simp: pool_ok_def core_ok_def c_def)
  define filled where "filled = (if cache_len c = 0 then rte_ring_mc_dequeue_burst (free_slots h) (cache_objs c) LCORE_CACHE_SIZE
    else Some (0, cache_objs c, free_slots h))"
  have "\<exists>n objs r. filled = Some (of_nat n, objs, r) \<and> unat (cache_len c) + n \<le> 8 \<and> length objs = 8 \<and> ring_ok r \<and>
      (cache_len c = 0 \<longrightarrow> n = min 8 (length (ring_contents (free_slots h)))) \<and> ring_capacity r = ring_capacity (free_slots h) \<and> prod_watermark r = prod_watermark (free_slots h) \<and>
      mset (map unat (ring_contents (free_slots h))) + cache_free c =
        mset (map unat (ring_contents r)) + mset (map unat (take (unat (cache_len c) + n) objs))"
  proof (cases "cache_len c = 0")
    case True
    obtain n r where "rte_ring_mc_dequeue_burst (free_slots h) (cache_objs c) LCORE_CACHE_SIZE =
        Some (of_nat n, take n (ring_contents (free_slots h)) @ drop n (cache_objs c), r)" "n = min 8 (length (ring_contents (free_slots h)))"
      "ring_ok r" "ring_contents r = drop n (ring_contents (free_slots h))" "ring_capacity r = ring_capacity (free_slots h)"
      "prod_watermark r = prod_watermark (free_slots h)"
      using mc_burst_ok [of "free_slots h" "cache_objs c"] ok c by (auto simp: pool_ok_def cache_ok_def)
    moreover have "mset (map unat (ring_contents (free_slots h))) =
        mset (map unat (drop n (ring_contents (free_slots h)))) + mset (map unat (take n (ring_contents (free_slots h))))"
      by (metis add.commute append_take_drop_id map_append mset_append)
    ultimately show ?thesis using True c
      by (intro exI [of _ n] exI [of _ "take n (ring_contents (free_slots h)) @ drop n (cache_objs c)"] exI [of _ r])
        (auto simp: filled_def cache_free_def cache_ok_def)
  next
    case False
    then show ?thesis using c ok
      by (intro exI [of _ 0] exI [of _ "cache_objs c"] exI [of _ "free_slots h"]) (simp add: filled_def cache_free_def cache_ok_def pool_ok_def)
  qed
  then obtain n objs r where f: "filled = Some (of_nat n, objs, r)" "unat (cache_len c) + n \<le> 8" "length objs = 8" "ring_ok r"
      "ring_capacity r = ring_capacity (free_slots h)" "prod_watermark r = prod_watermark (free_slots h)"
      "mset (map unat (ring_contents (free_slots h))) + cache_free c =
        mset (map unat (ring_contents r)) + mset (map unat (take (unat (cache_len c) + n) objs))"
      "cache_len c = 0 \<longrightarrow> n = min 8 (length (ring_contents (free_slots h)))"
    by blast
  define m where "m = unat (cache_len c) + n"
  have sum: "unat (cache_len c + of_nat n) = m" using f(2) by (simp add: m_def unat_word_ariths(1) unat_of_nat)
  have free: "pool_free (with_pool r' ((local_free_slots h)[l := c']) h) + cache_free c =
      mset (map unat (ring_contents r')) + (\<Sum>c\<leftarrow>local_free_slots h. cache_free c) + cache_free c'" for r' c'
    using caches_update [OF l, of c'] True by (simp add: pool_free_def c_def ac_simps)
  have wf: "\<forall>x \<in> set ((local_free_slots h)[l := c']). cache_ok x" if "cache_ok c'" for c'
    using ok that by (auto simp: pool_ok_def dest!: set_update_subset_insert [THEN subsetD])
  have start: "get_slot h l = (if m = 0 then Some (Inl (- ENOSPC), h\<lparr>free_slots := r\<rparr>)
      else do {
        slot_id \<leftarrow> read_at objs (m - 1);
        caches \<leftarrow> write_at (local_free_slots h) l \<lparr>cache_len = cache_len c + of_nat n - 1, cache_objs = objs\<rparr>;
        Some (Inr slot_id, h\<lparr>free_slots := r, local_free_slots := caches\<rparr>) })"
  proof -
    have "(of_nat n :: u32) = 0 \<longleftrightarrow> n = 0" using f(2) by (simp add: word_unat_eq_iff burst_len)
    then have z: "cache_len c = 0 \<and> (of_nat n :: u32) = 0 \<longleftrightarrow> m = 0" by (simp add: m_def unat_eq_zero)
    have m1: "m \<noteq> 0 \<Longrightarrow> unat (cache_len c + of_nat n - 1) = m - 1" using sum by (metis unat_minus_one unat_0)
    show ?thesis
      using True l f(1) unfolding get_slot_def filled_def
      by (simp add: c_def [symmetric] z m1)
  qed
  show ?thesis
  proof (cases "m = 0")
    case True
    then have r: "mset (map unat (ring_contents r)) = mset (map unat (ring_contents (free_slots h)))" using f(7)
      by (simp add: m_def cache_free_def)
    have "h\<lparr>free_slots := r\<rparr> = with_pool r (local_free_slots h) h" by (simp add: with_pool_def)
    moreover have "moved h (with_pool r (local_free_slots h) h) l"
      by (rule movedI) (use f ok core in \<open>simp_all add: pool_ok_def\<close>)
    moreover have "pool_free (with_pool r (local_free_slots h) h) = pool_free h" using r by (simp add: pool_free_def)
    moreover have "cache_len c = 0" "n = 0" using True by (simp_all add: m_def unat_eq_zero)
    then have "no_slot h l" using f(8) by (simp add: no_slot_def min_def split: if_splits flip: c_def)
    ultimately show ?thesis using start True \<open>hw_trans_mem_support h\<close> by simp
  next
    case False
    define c' where "c' = \<lparr>cache_len = cache_len c + of_nat n - 1, cache_objs = objs\<rparr>"
    have "unat (cache_len c + of_nat n - 1) = m - 1"
      using False sum by (metis unat_minus_one unat_0 gr_zeroI)
    then have c': "cache_ok c'" "unat (cache_len c') = m - 1" "m - 1 < 8" using f(2,3) False by (simp_all add: c'_def cache_ok_def m_def)
    have len: "m - 1 < length objs" using c'(3) f(3) by simp
    have "take m objs = take (m - 1) objs @ [objs ! (m - 1)]"
      using take_Suc_conv_app_nth [OF len] False by simp
    moreover have "cache_free c' = mset (map unat (take (m - 1) objs))" by (simp add: cache_free_def c'(2)) (simp add: c'_def)
    ultimately have eq: "mset (map unat (take m objs)) = add_mset (unat (objs ! (m - 1))) (cache_free c')" by simp
    have "pool_free h + cache_free c = mset (map unat (ring_contents (free_slots h))) + cache_free c + (\<Sum>c\<leftarrow>local_free_slots h. cache_free c)"
      using True by (simp add: pool_free_def ac_simps)
    also have "\<dots> = add_mset (unat (objs ! (m - 1))) (pool_free (with_pool r ((local_free_slots h)[l := c']) h)) + cache_free c"
      unfolding f(7) using free [of r c'] eq by (simp add: m_def ac_simps)
    finally have "pool_free h = add_mset (unat (objs ! (m - 1))) (pool_free (with_pool r ((local_free_slots h)[l := c']) h))"
      by simp
    moreover have "moved h (with_pool r ((local_free_slots h)[l := c']) h) l"
      by (rule movedI) (use f ok core wf [OF c'(1)] in \<open>simp_all add: pool_ok_def\<close>)
    moreover have "get_slot h l = Some (Inr (objs ! (m - 1)), with_pool r ((local_free_slots h)[l := c']) h)"
      using start False len l by (simp add: c'_def with_pool_def)
    ultimately show ?thesis using c'(2,3) l by auto
  qed
qed

lemma enqueue_slot_back_ok:
  assumes ok: "pool_ok h" and core: "core_ok h l"
    and room: "if hw_trans_mem_support h then unat (cache_len (local_free_slots h ! l)) < 8
      else length (ring_contents (free_slots h)) < ring_capacity (free_slots h)"
  shows "\<exists>h'. enqueue_slot_back h l s = Some h' \<and> moved h h' l \<and> pool_free h' = add_mset (unat s) (pool_free h)"
proof (cases "hw_trans_mem_support h")
  case False
  then obtain ret r where r: "rte_ring_sp_enqueue (free_slots h) s = Some (ret, r)" "ring_ok r"
      "ring_contents r = ring_contents (free_slots h) @ [s]" "ring_capacity r = ring_capacity (free_slots h)"
    using ring_queue_sp_sc.enq_room [of "free_slots h" s] ok room by (auto simp: pool_ok_def)
  then have "enqueue_slot_back h l s = Some (with_pool r (local_free_slots h) h)"
    using False by (simp add: enqueue_slot_back_def with_pool_def)
  moreover have "moved h (with_pool r (local_free_slots h) h) l"
    by (rule movedI) (use r ok core single_watermark(1) [OF _ r(1)] in \<open>simp_all add: pool_ok_def\<close>)
  ultimately show ?thesis using r(3) False by (auto simp: pool_free_def)
next
  case True
  define c where "c = local_free_slots h ! l"
  have l: "l < length (local_free_slots h)" and c: "cache_ok c" and c8: "unat (cache_len c) < 8"
    using True ok core room by (auto simp: pool_ok_def core_ok_def c_def)
  define c' where "c' = \<lparr>cache_len = cache_len c + 1, cache_objs = (cache_objs c)[unat (cache_len c) := s]\<rparr>"
  have len: "unat (cache_len c + 1) = Suc (unat (cache_len c))" using c8 by (simp add: unat_word_ariths(1))
  have "cache_free c' = add_mset (unat s) (cache_free c)"
    using c8 c by (simp add: cache_free_def c'_def len cache_ok_def take_Suc_conv_app_nth)
  then have "pool_free (with_pool (free_slots h) ((local_free_slots h)[l := c']) h) = add_mset (unat s) (pool_free h)"
    using caches_update [OF l, of c'] True by (simp add: pool_free_def c_def)
  moreover have "enqueue_slot_back h l s = Some (with_pool (free_slots h) ((local_free_slots h)[l := c']) h)"
    using True l c c8 by (simp add: enqueue_slot_back_def c_def c'_def with_pool_def cache_ok_def)
  moreover have "cache_ok c'" using c c8 by (simp add: cache_ok_def c'_def len)
  then have "moved h (with_pool (free_slots h) ((local_free_slots h)[l := c']) h) l"
    by (intro movedI) (use ok core in \<open>auto simp: pool_ok_def dest!: set_update_subset_insert [THEN subsetD]\<close>)
  ultimately show ?thesis by blast
qed

lemma recycle_slot_ok:
  assumes ok: "pool_ok h" and core: "core_ok h l" and room: "size (pool_free h) < ring_capacity (free_slots h)"
  shows "\<exists>h'. recycle_slot h l s = Some h' \<and> moved h h' l \<and> pool_free h' = add_mset (unat s) (pool_free h)"
proof (cases "hw_trans_mem_support h")
  case False
  then have "recycle_slot h l s = enqueue_slot_back h l s" by (simp add: recycle_slot_def enqueue_slot_back_def)
  moreover have "length (ring_contents (free_slots h)) < ring_capacity (free_slots h)" using room False by (simp add: pool_free_def)
  ultimately show ?thesis using enqueue_slot_back_ok [OF ok core] False by simp
next
  case True
  define c where "c = local_free_slots h ! l"
  have l: "l < length (local_free_slots h)" and c: "cache_ok c" using True ok core by (auto simp: pool_ok_def core_ok_def c_def)
  show ?thesis
  proof (cases "cache_len c = 8")
    case False
    then have "unat (cache_len c) \<noteq> unat (8 :: u32)" by (simp add: word_unat_eq_iff del: unat_numeral)
    then have "unat (cache_len c) < 8" using c by (simp add: cache_ok_def)
    moreover have "recycle_slot h l s = enqueue_slot_back h l s"
      using True l False by (simp add: recycle_slot_def enqueue_slot_back_def Let_def c_def)
    ultimately show ?thesis using enqueue_slot_back_ok [OF ok core] True by (simp add: c_def)
  next
    case full: True
    have all: "take (unat (cache_len c)) (cache_objs c) = cache_objs c" using c by (simp add: full cache_ok_def)
    have "(\<Sum>c\<leftarrow>local_free_slots h. cache_free c) = (\<Sum>c\<leftarrow>(local_free_slots h)[l := zero_cache]. cache_free c) + cache_free c"
      using caches_update [OF l, of zero_cache] by (simp add: c_def cache_free_def zero_cache_def)
    moreover have c8: "size (cache_free c) = 8" using c by (simp add: cache_free_def all cache_ok_def)
    ultimately have "size (pool_free h) = length (ring_contents (free_slots h)) + 8 + size (\<Sum>c\<leftarrow>(local_free_slots h)[l := zero_cache]. cache_free c)"
      using True c8 by (simp add: pool_free_def)
    then obtain r where r: "rte_ring_mp_enqueue_burst (free_slots h) (cache_objs c) LCORE_CACHE_SIZE = Some (8, r)" "ring_ok r"
        "ring_contents r = ring_contents (free_slots h) @ cache_objs c" "ring_capacity r = ring_capacity (free_slots h)"
        "prod_watermark r = prod_watermark (free_slots h)"
      using mp_burst_ok [of "free_slots h" "cache_objs c"] ok c room by (auto simp: pool_ok_def cache_ok_def)
    define c' where "c' = \<lparr>cache_len = 1, cache_objs = (cache_objs c)[0 := s]\<rparr>"
    have c': "cache_free c' = {#unat s#}" "cache_ok c'"
      using c by (cases "cache_objs c"; simp add: cache_free_def c'_def cache_ok_def)+
    have "mset (map unat (cache_objs c)) = cache_free c" by (simp add: cache_free_def all)
    then have "pool_free (with_pool r ((local_free_slots h)[l := c']) h) = add_mset (unat s) (pool_free h)"
      using caches_update [OF l, of c'] True c'(1) by (simp add: pool_free_def r(3) c_def ac_simps)
    moreover have "recycle_slot h l s = Some (with_pool r ((local_free_slots h)[l := c']) h)"
      using True l c r(1) full by (simp add: recycle_slot_def c_def c'_def with_pool_def cache_ok_def Let_def)
    moreover have "moved h (with_pool r ((local_free_slots h)[l := c']) h) l"
      by (rule movedI) (use r ok core c'(2) in \<open>auto simp: pool_ok_def dest!: set_update_subset_insert [THEN subsetD]\<close>)
    ultimately show ?thesis by blast
  qed
qed

section \<open>The invariant\<close>

text \<open>The two hashes of a key, as the entry of the key holds them in one of the two orders.\<close>

definition key_hashes :: "rte_hash \<Rightarrow> u8 list \<Rightarrow> u32 multiset" where
  "key_hashes h key = {#rte_hash_hash h key, rte_hash_secondary_hash (rte_hash_hash h key)#}"

definition stored_key :: "rte_hash \<Rightarrow> u32 \<Rightarrow> u8 list" where
  "stored_key h idx = key_bytes (key_store h ! unat idx)"

definition used :: "rte_hash_bucket list \<Rightarrow> u32 set" where
  "used bs = fst ` set_mset (contents bs)"

lemma usedI: "(idx, hs) \<in># contents bs \<Longrightarrow> idx \<in> used bs"
  by (force simp: used_def)

lemma usedE: "idx \<in> used bs \<Longrightarrow> (\<And>hs. (idx, hs) \<in># contents bs \<Longrightarrow> P) \<Longrightarrow> P"
  by (auto simp: used_def)

definition entries_ok :: "rte_hash \<Rightarrow> bool" where
  "entries_ok h \<longleftrightarrow>
     (\<forall>(idx, hs) \<in># contents (buckets h). hs = key_hashes h (stored_key h idx) \<and> length (stored_key h idx) = unat (h_key_len h)) \<and>
     inj_on (stored_key h) (used (buckets h))"

definition used_slots :: "rte_hash_bucket list \<Rightarrow> nat multiset" where
  "used_slots bs = image_mset (\<lambda>(idx, hs). unat idx) (contents bs)"

definition cmp_ok :: "rte_hash \<Rightarrow> bool" where
  "cmp_ok h \<longleftrightarrow> (\<forall>k k'. length k = unat (h_key_len h) \<longrightarrow> length k' = unat (h_key_len h) \<longrightarrow>
     (rte_hash_cmp_eq h k k' (h_key_len h) = 0 \<longleftrightarrow> k = k'))"

definition sizes_ok :: "rte_hash \<Rightarrow> bool" where
  "sizes_ok h \<longleftrightarrow> unat (num_buckets h) = length (buckets h) \<and> length (buckets h) \<le> 2 ^ 28 \<and> unat (h_entries h) < length (key_store h) \<and>
     h_entries h \<le> RTE_HASH_ENTRIES_MAX \<and> 0 < key_entry_size h \<and> Suc (unat (h_entries h)) * unat (key_entry_size h) \<le> 2 ^ 32"

definition table_ok :: "rte_hash \<Rightarrow> bool" where
  "table_ok h \<longleftrightarrow> layout (bucket_bitmask h) (buckets h) \<and> (\<forall>fs \<in> set (flags (buckets h)). set fs \<subseteq> {0}) \<and>
     entries_ok h \<and> cmp_ok h \<and> sizes_ok h \<and> (\<forall>n \<in># used_slots (buckets h). 0 < n \<and> n \<le> unat (h_entries h))"

text \<open>Every slot from 1 to the number of entries is free, once, or used by one entry.\<close>

definition hash_ok :: "rte_hash \<Rightarrow> bool" where
  "hash_ok h \<longleftrightarrow> table_ok h \<and> pool_ok h \<and> unat (h_entries h) \<le> ring_capacity (free_slots h) \<and>
     pool_free h + used_slots (buckets h) = mset [1..<Suc (unat (h_entries h))]"

section \<open>The map\<close>

definition bucket_idxs :: "rte_hash_bucket \<Rightarrow> u32 list" where
  "bucket_idxs bkt = map (\<lambda>i. key_idx bkt ! i) (filter (\<lambda>i. signatures bkt ! i \<noteq> NULL_SIGNATURE) [0..<4])"

definition hmap :: "rte_hash \<Rightarrow> u8 list \<rightharpoonup> (u32 \<times> u64)" where
  "hmap h = map_of (map (\<lambda>idx. (stored_key h idx, (idx, pdata (key_store h ! unat idx)))) (concat (map bucket_idxs (buckets h))))"

lemma set_idxs: "set (concat (map bucket_idxs bs)) = used bs"
proof -
  have "set (bucket_idxs bkt) = fst ` set_mset (bucket_cells bkt)" for bkt
    unfolding bucket_idxs_def bucket_cells_def upt_4 by (auto simp: cell_def)
  then show ?thesis unfolding contents_def used_def by (induction bs) (simp_all add: image_Un)
qed

lemma hmap_iff:
  assumes "entries_ok h"
  shows "hmap h key = Some (idx, d) \<longleftrightarrow>
    idx \<in> used (buckets h) \<and> stored_key h idx = key \<and> d = pdata (key_store h ! unat idx)"
proof -
  let ?xs = "concat (map bucket_idxs (buckets h))"
  have inj: "idx = idx'" if "idx \<in> set ?xs" "idx' \<in> set ?xs" "stored_key h idx = stored_key h idx'" for idx idx'
    using assms that unfolding set_idxs entries_ok_def inj_on_def by blast
  have "map_of (map (\<lambda>idx. (stored_key h idx, (idx, f idx))) xs) key = Some (idx, d) \<longleftrightarrow>
      idx \<in> set xs \<and> stored_key h idx = key \<and> d = f idx" if "set xs \<subseteq> set ?xs" for xs and f :: "u32 \<Rightarrow> u64"
    using that
  proof (induction xs)
    case (Cons a xs)
    then show ?case using inj [of idx a] by (cases "stored_key h a = key") auto
  qed simp
  from this [of ?xs] show ?thesis unfolding hmap_def set_idxs [symmetric] by simp
qed

lemma hmap_None:
  assumes "entries_ok h"
  shows "hmap h key = None \<longleftrightarrow> (\<forall>idx \<in> used (buckets h). stored_key h idx \<noteq> key)"
proof -
  have "hmap h key = None \<longleftrightarrow> (\<forall>idx d. hmap h key \<noteq> Some (idx, d))" by (cases "hmap h key") auto
  then show ?thesis unfolding hmap_iff [OF assms] by blast
qed

lemma secondary_zero: "\<not> (s = 0 \<and> rte_hash_secondary_hash s = 0)"
  by (auto simp: rte_hash_secondary_hash_def)

lemma entry_slot:
  assumes ok: "table_ok h" and mem: "idx \<in> used (buckets h)"
  shows "0 < unat idx" "unat idx \<le> unat (h_entries h)" "unat idx < length (key_store h)" "key_slot h idx = Some (unat idx)"
    "position idx = int (unat idx) - 1" "length (stored_key h idx) = unat (h_key_len h)"
proof -
  have sizes: "sizes_ok h" using ok by (simp add: table_ok_def)
  have "unat idx \<in># used_slots (buckets h)" using mem by (force simp: used_slots_def used_def)
  then show r: "0 < unat idx" "unat idx \<le> unat (h_entries h)" using ok by (simp_all add: table_ok_def)
  then show "unat idx < length (key_store h)" using sizes by (simp add: sizes_ok_def)
  have "Suc (unat idx) * unat (key_entry_size h) \<le> 2 ^ 32"
    using r(2) sizes unfolding sizes_ok_def by (meson Suc_le_mono le_trans mult_le_mono1)
  moreover have "0 < unat (key_entry_size h)" using sizes by (simp add: sizes_ok_def word_less_nat_alt)
  ultimately have "unat (idx * key_entry_size h) = unat idx * unat (key_entry_size h)"
    by (simp add: unat_word_ariths(2))
  then show "key_slot h idx = Some (unat idx)"
    using \<open>unat idx < length (key_store h)\<close> \<open>0 < unat (key_entry_size h)\<close> by (simp add: key_slot_def Let_def)
  have "unat (h_entries h) \<le> 2 ^ 30" using sizes by (simp add: sizes_ok_def word_le_nat_alt)
  moreover have "unat (idx - 1) = unat idx - 1" using r(1) by (simp add: unat_minus_one unat_gt_0)
  ultimately show "position idx = int (unat idx) - 1" using r by (simp add: position_def sint_small)
  show "length (stored_key h idx) = unat (h_key_len h)" using ok mem by (auto simp: table_ok_def entries_ok_def elim!: usedE)
qed

lemma entry_used:
  "b < length bs \<Longrightarrow> i < 4 \<Longrightarrow> sig_at bs b i \<noteq> NULL_SIGNATURE \<Longrightarrow> idx_at bs b i \<in> used bs"
  by (rule usedI) (auto simp: mem_contents)

lemma find_key_ok:
  assumes ok: "table_ok h" and b: "b < length (buckets h)" and key: "length key = unat (h_key_len h)"
    and test: "\<And>i. i < 4 \<Longrightarrow> test (sig_at (buckets h) b i) \<Longrightarrow> sig_at (buckets h) b i \<noteq> NULL_SIGNATURE"
  shows "set is \<subseteq> {..<4} \<Longrightarrow> find_key h (buckets h ! b) test key is =
    Some (find (\<lambda>i. test (sig_at (buckets h) b i) \<and> stored_key h (idx_at (buckets h) b i) = key) is)"
proof (induction "is")
  case (Cons i "is")
  show ?case
  proof (cases "test (sig_at (buckets h) b i)")
    case True
    then have mem: "idx_at (buckets h) b i \<in> used (buckets h)"
      using entry_used [OF b] test Cons.prems by auto
    note slot = entry_slot [OF ok mem]
    have "rte_hash_cmp_eq h key (key_bytes (key_store h ! unat (idx_at (buckets h) b i))) (h_key_len h) = 0 \<longleftrightarrow>
        stored_key h (idx_at (buckets h) b i) = key"
      using ok key slot(6) by (auto simp: table_ok_def cmp_ok_def stored_key_def)
    then show ?thesis using True slot(4) Cons by (simp add: sig_at_def idx_at_def)
  next
    case False
    then show ?thesis using Cons by (simp add: sig_at_def)
  qed
qed simp

lemma found:
  assumes "find (\<lambda>i. P i) [0..<4] = r"
  shows "case r of Some i \<Rightarrow> i < 4 \<and> P i | None \<Rightarrow> \<forall>i < 4. \<not> P (i :: nat)"
  using assms by (auto simp: find_Some_iff find_None_iff split: option.splits)

text \<open>Where a key is: in the bucket of its hash or in that of its secondary hash.\<close>

lemma key_located:
  assumes ok: "table_ok h" and d: "hmap h key = Some (idx, d)"
  defines "s \<equiv> rte_hash_hash h key" and "s2 \<equiv> rte_hash_secondary_hash (rte_hash_hash h key)"
  shows "\<exists>b i. b < length (buckets h) \<and> i < 4 \<and> idx_at (buckets h) b i = idx \<and>
    (b = unat (s AND bucket_bitmask h) \<and> sig_at (buckets h) b i = \<lparr>sig_current = s, sig_alt = s2\<rparr> \<or>
     b = unat (s2 AND bucket_bitmask h) \<and> sig_at (buckets h) b i = \<lparr>sig_current = s2, sig_alt = s\<rparr>)"
proof -
  have ent: "entries_ok h" and lay: "layout (bucket_bitmask h) (buckets h)" using ok by (simp_all add: table_ok_def)
  obtain hs where e: "(idx, hs) \<in># contents (buckets h)" "stored_key h idx = key" using d unfolding hmap_iff [OF ent] by (auto elim: usedE)
  then have "hs = {#s, s2#}" using ent by (auto simp: entries_ok_def key_hashes_def s_def s2_def)
  with e(1) obtain b i where bi: "b < length (buckets h)" "i < 4" "sig_at (buckets h) b i \<noteq> NULL_SIGNATURE" "idx = idx_at (buckets h) b i"
      "{#s, s2#} = {#sig_current (sig_at (buckets h) b i), sig_alt (sig_at (buckets h) b i)#}"
    unfolding mem_contents by auto
  have "unat (sig_current (sig_at (buckets h) b i) AND bucket_bitmask h) = b" using lay bi(1-3) by (simp add: layout_def)
  moreover have "sig_at (buckets h) b i = \<lparr>sig_current = s, sig_alt = s2\<rparr> \<or> sig_at (buckets h) b i = \<lparr>sig_current = s2, sig_alt = s\<rparr>"
    using bi(5) by (cases "sig_at (buckets h) b i") (auto simp: add_eq_conv_ex)
  ultimately show ?thesis using bi(1,2,4) by (intro exI [of _ b] exI [of _ i]) auto
qed

lemma key_absent:
  assumes ok: "table_ok h"
    and prim: "\<And>i. i < 4 \<Longrightarrow> sig_at (buckets h) (unat (rte_hash_hash h key AND bucket_bitmask h)) i =
        \<lparr>sig_current = rte_hash_hash h key, sig_alt = rte_hash_secondary_hash (rte_hash_hash h key)\<rparr> \<Longrightarrow>
      stored_key h (idx_at (buckets h) (unat (rte_hash_hash h key AND bucket_bitmask h)) i) \<noteq> key"
    and sec: "\<And>i. i < 4 \<Longrightarrow> sig_at (buckets h) (unat (rte_hash_secondary_hash (rte_hash_hash h key) AND bucket_bitmask h)) i =
        \<lparr>sig_current = rte_hash_secondary_hash (rte_hash_hash h key), sig_alt = rte_hash_hash h key\<rparr> \<Longrightarrow>
      stored_key h (idx_at (buckets h) (unat (rte_hash_secondary_hash (rte_hash_hash h key) AND bucket_bitmask h)) i) \<noteq> key"
  shows "hmap h key = None"
proof (rule ccontr)
  assume "hmap h key \<noteq> None"
  then obtain idx d where d: "hmap h key = Some (idx, d)" by auto
  then have st: "stored_key h idx = key" using ok by (simp add: table_ok_def hmap_iff)
  from key_located [OF ok d] show False
    by (elim exE conjE disjE) (use prim sec st in \<open>simp_all, blast+\<close>)
qed

text \<open>What the search of the primary and of the secondary bucket finds.\<close>

lemma key_at:
  assumes "table_ok h" and "b < length (buckets h)" and "i < 4" and "sig_at (buckets h) b i \<noteq> NULL_SIGNATURE"
    and "stored_key h (idx_at (buckets h) b i) = key"
  shows "hmap h key = Some (idx_at (buckets h) b i, pdata (key_store h ! unat (idx_at (buckets h) b i)))"
proof -
  have "entries_ok h" using assms(1) by (simp add: table_ok_def)
  from hmap_iff [OF this] show ?thesis using entry_used [OF assms(2-4)] assms(5) by blast
qed

lemma hash_lookup_with_hash_ok:
  assumes ok: "table_ok h" and key: "length key = unat (h_key_len h)"
  shows "hash_lookup_with_hash h key (rte_hash_hash h key) =
    Some (case hmap h key of Some (idx, d) \<Rightarrow> (int (unat idx) - 1, Some d) | None \<Rightarrow> (- ENOENT, None))"
proof -
  define s where "s = rte_hash_hash h key"
  define s2 where "s2 = rte_hash_secondary_hash s"
  let ?bs = "buckets h" let ?m = "bucket_bitmask h"
  define b where "b = unat (s AND ?m)" define b2 where "b2 = unat (s2 AND ?m)"
  have lay: "layout ?m ?bs" using ok by (simp add: table_ok_def)
  have b: "b < length ?bs" "b2 < length ?bs" using layout_index [OF lay] by (simp_all add: b_def b2_def)
  define t1 where "t1 = (\<lambda>x :: rte_hash_signatures. sig_current x = s \<and> x \<noteq> NULL_SIGNATURE)"
  define t2 where "t2 = (\<lambda>x :: rte_hash_signatures. sig_current x = s2 \<and> sig_alt x = s)"
  have n12: "\<lparr>sig_current = s, sig_alt = s2\<rparr> \<noteq> NULL_SIGNATURE" "\<lparr>sig_current = s2, sig_alt = s\<rparr> \<noteq> NULL_SIGNATURE"
    using secondary_zero [of s] by (auto simp: s2_def NULL_SIGNATURE_def)
  have n2: "t2 x \<Longrightarrow> x \<noteq> NULL_SIGNATURE" for x using secondary_zero [of s] by (auto simp: t2_def s2_def NULL_SIGNATURE_def)
  have hit: "hmap h key = Some (idx_at ?bs b' i, pdata (key_store h ! unat (idx_at ?bs b' i)))" "key_slot h (idx_at ?bs b' i) = Some (unat (idx_at ?bs b' i))"
      "position (idx_at ?bs b' i) = int (unat (idx_at ?bs b' i)) - 1"
    if "b' < length ?bs" "i < 4" "sig_at ?bs b' i \<noteq> NULL_SIGNATURE" "stored_key h (idx_at ?bs b' i) = key" for b' i
    using key_at [OF ok that] entry_slot [OF ok entry_used [OF that(1-3)]] by blast+
  define r1 where "r1 = find (\<lambda>i. t1 (sig_at ?bs b i) \<and> stored_key h (idx_at ?bs b i) = key) [0..<4]"
  define r2 where "r2 = find (\<lambda>i. t2 (sig_at ?bs b2 i) \<and> stored_key h (idx_at ?bs b2 i) = key) [0..<4]"
  have f1: "find_key h (?bs ! b) t1 key [0..<4] = Some r1" unfolding r1_def by (rule find_key_ok [OF ok b(1) key]) (auto simp: t1_def)
  have f2: "find_key h (?bs ! b2) t2 key [0..<4] = Some r2" unfolding r2_def by (rule find_key_ok [OF ok b(2) key]) (auto simp: n2)
  have run: "hash_lookup_with_hash h key s = (case r1 of
      Some i \<Rightarrow> do { k \<leftarrow> key_slot h (idx_at ?bs b i); Some (position (idx_at ?bs b i), Some (pdata (key_store h ! k))) }
    | None \<Rightarrow> (case r2 of Some i \<Rightarrow> do { k \<leftarrow> key_slot h (idx_at ?bs b2 i); Some (position (idx_at ?bs b2 i), Some (pdata (key_store h ! k))) }
        | None \<Rightarrow> Some (- ENOENT, None)))"
    using b f1 f2 unfolding hash_lookup_with_hash_def t1_def t2_def
    by (simp add: b_def b2_def s2_def idx_at_def Let_def split: option.split)
  show ?thesis
  proof (cases r1)
    case (Some i)
    with found [OF r1_def [symmetric]] have "i < 4" "t1 (sig_at ?bs b i)" "stored_key h (idx_at ?bs b i) = key" by simp_all
    then show ?thesis using hit [OF b(1)] run Some by (simp add: s_def t1_def)
  next
    case n1: None
    show ?thesis
    proof (cases r2)
      case (Some i)
      with found [OF r2_def [symmetric]] have "i < 4" "t2 (sig_at ?bs b2 i)" "stored_key h (idx_at ?bs b2 i) = key" by simp_all
      then show ?thesis using hit [OF b(2)] run Some n1 by (simp add: s_def n2)
    next
      case None
      have "hmap h key = None"
        by (rule key_absent [OF ok]) (use found [OF r1_def [symmetric]] found [OF r2_def [symmetric]] n1 None n12 in
          \<open>auto simp: b_def b2_def s_def s2_def t1_def t2_def\<close>)
      then show ?thesis using run n1 None by (simp add: s_def)
    qed
  qed
qed

end
