(* ===== verification/Hash_Ops.thy ===== *)
theory Hash_Ops
  imports Hash_Map
begin

text \<open>
  The steps of insertion and deletion and what each does to the map: moving slots of the pool,
  writing a key slot, and replacing the buckets by some with one entry more or less.
\<close>

section \<open>Changes of the table\<close>

lemma with_pool_table [simp]:
  "table_ok (with_pool r cs h) = table_ok h" "hmap (with_pool r cs h) = hmap h" "stored_key (with_pool r cs h) idx = stored_key h idx"
  "rte_hash_hash (with_pool r cs h) key = rte_hash_hash h key" "key_hashes (with_pool r cs h) key = key_hashes h key"
proof -
  show hash: "rte_hash_hash (with_pool r cs h) key = rte_hash_hash h key" for key by (simp add: rte_hash_hash_def)
  have stored: "stored_key (with_pool r cs h) = stored_key h" by (rule ext) (simp add: stored_key_def)
  then show "stored_key (with_pool r cs h) idx = stored_key h idx" by simp
  show hashes: "key_hashes (with_pool r cs h) key = key_hashes h key" for key by (simp add: key_hashes_def hash)
  show "hmap (with_pool r cs h) = hmap h" by (simp add: hmap_def stored)
  show "table_ok (with_pool r cs h) = table_ok h"
    by (simp add: table_ok_def entries_ok_def cmp_ok_def sizes_ok_def stored hashes)
qed

lemma movedD:
  assumes "moved h h' l"
  shows "pool_ok h'" "core_ok h' l" "ring_capacity (free_slots h') = ring_capacity (free_slots h)" "table_ok h' = table_ok h"
    "hmap h' = hmap h" "buckets h' = buckets h" "h_entries h' = h_entries h" "h_key_len h' = h_key_len h"
    "rte_hash_hash h' key = rte_hash_hash h key" "hw_trans_mem_support h' = hw_trans_mem_support h" "bucket_bitmask h' = bucket_bitmask h"
    "key_store h' = key_store h"
proof -
  have eq: "h' = with_pool (free_slots h') (local_free_slots h') h" using assms by (simp add: moved_def)
  show "pool_ok h'" "core_ok h' l" "ring_capacity (free_slots h') = ring_capacity (free_slots h)" using assms by (simp_all add: moved_def)
  show "table_ok h' = table_ok h" "hmap h' = hmap h" "rte_hash_hash h' key = rte_hash_hash h key" by (subst eq, simp)+
  show "buckets h' = buckets h" "h_entries h' = h_entries h" "h_key_len h' = h_key_len h" "hw_trans_mem_support h' = hw_trans_mem_support h"
    "bucket_bitmask h' = bucket_bitmask h" "key_store h' = key_store h" by (subst eq, simp)+
qed

text \<open>Writing a key slot: the data of a used slot, or anything into a slot that no entry uses.\<close>

definition put_slot :: "rte_hash \<Rightarrow> nat \<Rightarrow> rte_hash_key \<Rightarrow> rte_hash" where
  "put_slot h k x = h\<lparr>key_store := (key_store h)[k := x]\<rparr>"

lemma put_slot_simps [simp]:
  "buckets (put_slot h k x) = buckets h" "bucket_bitmask (put_slot h k x) = bucket_bitmask h" "h_key_len (put_slot h k x) = h_key_len h"
  "rte_hash_cmp_eq (put_slot h k x) = rte_hash_cmp_eq h" "h_entries (put_slot h k x) = h_entries h"
  "key_entry_size (put_slot h k x) = key_entry_size h" "num_buckets (put_slot h k x) = num_buckets h"
  "hash_func (put_slot h k x) = hash_func h" "hash_func_init_val (put_slot h k x) = hash_func_init_val h"
  "key_store (put_slot h k x) = (key_store h)[k := x]" "free_slots (put_slot h k x) = free_slots h"
  "local_free_slots (put_slot h k x) = local_free_slots h" "hw_trans_mem_support (put_slot h k x) = hw_trans_mem_support h"
  "pool_ok (put_slot h k x) = pool_ok h" "pool_free (put_slot h k x) = pool_free h" "core_ok (put_slot h k x) l = core_ok h l"
  "rte_hash_hash (put_slot h k x) key = rte_hash_hash h key" "key_hashes (put_slot h k x) key = key_hashes h key"
  by (simp_all add: put_slot_def pool_ok_def pool_free_def core_ok_def rte_hash_hash_def key_hashes_def)

lemma stored_put_slot:
  "stored_key (put_slot h k x) idx = (if unat idx = k \<and> k < length (key_store h) then key_bytes x else stored_key h idx)"
  by (cases "k < length (key_store h)") (auto simp: stored_key_def nth_list_update list_update_beyond)

lemma table_put_slot:
  assumes "table_ok h" and "\<And>idx. idx \<in> used (buckets h) \<Longrightarrow> stored_key (put_slot h k x) idx = stored_key h idx"
  shows "table_ok (put_slot h k x)"
proof -
  have "inj_on (stored_key (put_slot h k x)) (used (buckets h)) = inj_on (stored_key h) (used (buckets h))"
    by (rule inj_on_cong) (rule assms(2))
  moreover have ent: "entries_ok h" using assms(1) by (simp add: table_ok_def)
  moreover have "hs = key_hashes h (stored_key (put_slot h k x) idx) \<and> length (stored_key (put_slot h k x) idx) = unat (h_key_len h)"
    if m: "(idx, hs) \<in># contents (buckets h)" for idx hs
    using ent m assms(2) [OF usedI [OF m]] by (auto simp: entries_ok_def)
  ultimately have "entries_ok (put_slot h k x)" unfolding entries_ok_def put_slot_simps by blast
  then show ?thesis using assms(1) by (simp add: table_ok_def cmp_ok_def sizes_ok_def)
qed

lemma hmap_put_slot_data:
  fixes data :: u64
  assumes ok: "table_ok h" and old: "hmap h key = Some (idx, d)"
  defines "h' \<equiv> put_slot h (unat idx) ((key_store h ! unat idx)\<lparr>pdata := data\<rparr>)"
  shows "table_ok h'" "hmap h' = (hmap h)(key \<mapsto> (idx, data))"
proof -
  have ent: "entries_ok h" using ok by (simp add: table_ok_def)
  have mem: "idx \<in> used (buckets h)" "stored_key h idx = key" using old unfolding hmap_iff [OF ent] by blast+
  have same: "stored_key h' i = stored_key h i" for i unfolding h'_def stored_put_slot by (simp add: stored_key_def)
  show ok': "table_ok h'" unfolding h'_def by (rule table_put_slot [OF ok]) (use same in \<open>simp add: h'_def\<close>)
  then have ent': "entries_ok h'" by (simp add: table_ok_def)
  have "hmap h' k = Some (i, d') \<longleftrightarrow> ((hmap h)(key \<mapsto> (idx, data))) k = Some (i, d')" for k i d'
  proof (cases "k = key")
    case True
    have uniq: "i \<in> used (buckets h) \<and> stored_key h i = key \<longleftrightarrow> i = idx" for i
      using mem ent unfolding entries_ok_def inj_on_def by blast
    have "hmap h' key = Some (i, d') \<longleftrightarrow> i = idx \<and> d' = pdata (key_store h' ! unat i)"
      unfolding hmap_iff [OF ent'] same using uniq by (auto simp: h'_def)
    then show ?thesis using True entry_slot(3) [OF ok mem(1)] by (auto simp: h'_def)
  next
    case False
    have "i \<noteq> idx" if "stored_key h i = k" using that False mem by auto
    then have "unat i \<noteq> unat idx" if "stored_key h i = k" using that by (auto simp: word_unat_eq_iff)
    then show ?thesis using False unfolding hmap_iff [OF ent'] same by (auto simp: hmap_iff [OF ent] h'_def)
  qed
  then show "hmap h' = (hmap h)(key \<mapsto> (idx, data))" by (intro ext) (metis option.exhaust surj_pair)
qed

lemma hmap_put_slot_unused:
  assumes ok: "table_ok h" and free: "k \<notin># used_slots (buckets h)"
  shows "table_ok (put_slot h k x)" "hmap (put_slot h k x) = hmap h"
proof -
  have ne: "unat i \<noteq> k" if "i \<in> used (buckets h)" for i using that free by (force simp: used_slots_def elim: usedE)
  then have same: "stored_key (put_slot h k x) i = stored_key h i" if "i \<in> used (buckets h)" for i
    using that by (simp add: stored_put_slot)
  show ok': "table_ok (put_slot h k x)" by (rule table_put_slot [OF ok]) (rule same)
  have ent: "entries_ok h" "entries_ok (put_slot h k x)" using ok ok' by (simp_all add: table_ok_def)
  have "hmap (put_slot h k x) key = Some (i, d) \<longleftrightarrow> hmap h key = Some (i, d)" for key i d
    unfolding hmap_iff [OF ent(1)] hmap_iff [OF ent(2)] put_slot_simps using same [of i] ne [of i] by auto
  then show "hmap (put_slot h k x) = hmap h" by (intro ext) (metis option.exhaust surj_pair)
qed

text \<open>A new list of buckets, with one entry more or one less.\<close>

definition put_buckets :: "rte_hash \<Rightarrow> rte_hash_bucket list \<Rightarrow> rte_hash" where
  "put_buckets h bs = h\<lparr>buckets := bs\<rparr>"

lemma put_buckets_simps [simp]:
  "buckets (put_buckets h bs) = bs" "bucket_bitmask (put_buckets h bs) = bucket_bitmask h" "h_key_len (put_buckets h bs) = h_key_len h"
  "h_entries (put_buckets h bs) = h_entries h" "free_slots (put_buckets h bs) = free_slots h"
  "num_buckets (put_buckets h bs) = num_buckets h" "key_entry_size (put_buckets h bs) = key_entry_size h"
  "hw_trans_mem_support (put_buckets h bs) = hw_trans_mem_support h" "key_store (put_buckets h bs) = key_store h"
  "local_free_slots (put_buckets h bs) = local_free_slots h" "rte_hash_cmp_eq (put_buckets h bs) = rte_hash_cmp_eq h"
  "hash_func (put_buckets h bs) = hash_func h" "hash_func_init_val (put_buckets h bs) = hash_func_init_val h"
  "pool_ok (put_buckets h bs) = pool_ok h" "pool_free (put_buckets h bs) = pool_free h" "core_ok (put_buckets h bs) l = core_ok h l"
  "stored_key (put_buckets h bs) = stored_key h" "rte_hash_hash (put_buckets h bs) key = rte_hash_hash h key"
  "key_hashes (put_buckets h bs) key = key_hashes h key"
  by (simp_all add: put_buckets_def pool_ok_def pool_free_def core_ok_def stored_key_def [abs_def] rte_hash_hash_def key_hashes_def)

lemma hmap_same_contents:
  assumes "table_ok h" and "layout (bucket_bitmask h) bs" and "flags bs = flags (buckets h)" and "contents bs = contents (buckets h)"
  shows "table_ok (put_buckets h bs)" "hmap (put_buckets h bs) = hmap h"
proof -
  have "length bs = length (buckets h)" using assms(3) by (metis length_flags)
  then show ok': "table_ok (put_buckets h bs)"
    using assms by (simp add: table_ok_def entries_ok_def cmp_ok_def sizes_ok_def used_slots_def used_def)
  have ent: "entries_ok h" "entries_ok (put_buckets h bs)" using assms(1) ok' by (simp_all add: table_ok_def)
  have "hmap (put_buckets h bs) key = Some (i, d) \<longleftrightarrow> hmap h key = Some (i, d)" for key i d
    unfolding hmap_iff [OF ent(1)] hmap_iff [OF ent(2)] by (simp add: assms(4) used_def)
  then show "hmap (put_buckets h bs) = hmap h" by (intro ext) (metis option.exhaust surj_pair)
qed

lemma hmap_insert:
  assumes ok: "table_ok h" and new: "hmap h key = None" and key: "stored_key h idx = key" "length key = unat (h_key_len h)"
    and slot: "0 < unat idx" "unat idx \<le> unat (h_entries h)"
    and bs: "layout (bucket_bitmask h) bs" "flags bs = flags (buckets h)" "contents bs = contents (buckets h) + {#(idx, key_hashes h key)#}"
  shows "table_ok (put_buckets h bs)" "hmap (put_buckets h bs) = (hmap h)(key \<mapsto> (idx, pdata (key_store h ! unat idx)))"
proof -
  have ent: "entries_ok h" using ok by (simp add: table_ok_def)
  have none: "\<forall>i \<in> used (buckets h). stored_key h i \<noteq> key" using new unfolding hmap_None [OF ent] .
  then have "entries_ok (put_buckets h bs)" using ent key by (auto simp: entries_ok_def used_def bs(3))
  moreover have "length bs = length (buckets h)" using bs(2) by (metis length_flags)
  ultimately show ok': "table_ok (put_buckets h bs)" using ok bs slot by (auto simp: table_ok_def cmp_ok_def sizes_ok_def used_slots_def)
  have ent': "entries_ok (put_buckets h bs)" using ok' by (simp add: table_ok_def)
  have "hmap (put_buckets h bs) k = Some (i, d) \<longleftrightarrow> ((hmap h)(key \<mapsto> (idx, pdata (key_store h ! unat idx)))) k = Some (i, d)" for k i d
    unfolding hmap_iff [OF ent'] using key none by (auto simp: hmap_iff [OF ent] used_def bs(3))
  then show "hmap (put_buckets h bs) = (hmap h)(key \<mapsto> (idx, pdata (key_store h ! unat idx)))" by (intro ext) (metis option.exhaust surj_pair)
qed

lemma hmap_remove:
  assumes ok: "table_ok h" and key: "stored_key h idx = key"
    and bs: "layout (bucket_bitmask h) bs" "flags bs = flags (buckets h)" "contents (buckets h) = contents bs + {#(idx, hs)#}"
    and once: "idx \<notin> used bs"
  shows "table_ok (put_buckets h bs)" "hmap (put_buckets h bs) = (hmap h)(key := None)"
proof -
  have ent: "entries_ok h" using ok by (simp add: table_ok_def)
  have sub: "used bs \<subseteq> used (buckets h)" "idx \<in> used (buckets h)" by (auto simp: used_def bs(3))
  then have "entries_ok (put_buckets h bs)" using ent inj_on_subset by (auto simp: entries_ok_def bs(3))
  moreover have "length bs = length (buckets h)" using bs(2) by (metis length_flags)
  ultimately show ok': "table_ok (put_buckets h bs)" using ok bs by (auto simp: table_ok_def cmp_ok_def sizes_ok_def used_slots_def)
  have ent': "entries_ok (put_buckets h bs)" using ok' by (simp add: table_ok_def)
  have uniq: "i = idx" if "i \<in> used (buckets h)" "stored_key h i = key" for i
    using that key ent sub(2) unfolding entries_ok_def inj_on_def by blast
  have "i \<in> used bs \<and> stored_key h i = k \<longleftrightarrow> i \<in> used (buckets h) \<and> stored_key h i = k \<and> k \<noteq> key" for i k
    using uniq [of i] once key by (auto simp: used_def bs(3))
  then have "hmap (put_buckets h bs) k = Some (i, d) \<longleftrightarrow> ((hmap h)(key := None)) k = Some (i, d)" for k i d
    unfolding hmap_iff [OF ent'] by (auto simp: hmap_iff [OF ent])
  then show "hmap (put_buckets h bs) = (hmap h)(key := None)" by (intro ext) (metis option.exhaust surj_pair)
qed

end
