(* ===== verification/Hash_Api.thy ===== *)
theory Hash_Api
  imports Hash_Ops
begin

text \<open>
  Deletion and insertion of a key: they run to their end from every table that satisfies the
  invariant, keep it, and update the map. What an insertion may report is \<open>add_result\<close>.
\<close>

section \<open>Deletion\<close>

text \<open>What no operation on keys changes.\<close>

definition same_config :: "rte_hash \<Rightarrow> rte_hash \<Rightarrow> bool" where
  "same_config h h' \<longleftrightarrow> h'\<lparr>free_slots := free_slots h, local_free_slots := local_free_slots h, key_store := key_store h,
     buckets := buckets h\<rparr> = h \<and> length (buckets h') = length (buckets h) \<and> length (key_store h') = length (key_store h) \<and>
     length (local_free_slots h') = length (local_free_slots h)"

lemma same_configI:
  assumes "length bs = length (buckets h)" and "length ks = length (key_store h)" and "length cs = length (local_free_slots h)"
  shows "same_config h (h\<lparr>free_slots := r, local_free_slots := cs, key_store := ks, buckets := bs\<rparr>)"
  using assms by (simp add: same_config_def)

lemma same_config_trans: "same_config h h' \<Longrightarrow> same_config h' h'' \<Longrightarrow> same_config h h''"
proof -
  assume a: "same_config h h'" "same_config h' h''"
  have "h''\<lparr>free_slots := free_slots h, local_free_slots := local_free_slots h, key_store := key_store h, buckets := buckets h\<rparr> =
      (h''\<lparr>free_slots := free_slots h', local_free_slots := local_free_slots h', key_store := key_store h', buckets := buckets h'\<rparr>)
        \<lparr>free_slots := free_slots h, local_free_slots := local_free_slots h, key_store := key_store h, buckets := buckets h\<rparr>" by simp
  also have "\<dots> = h" using a by (simp add: same_config_def)
  finally show ?thesis using a by (simp add: same_config_def)
qed

lemma same_configD:
  assumes "same_config h h'"
  shows "h_entries h' = h_entries h" "h_key_len h' = h_key_len h" "hw_trans_mem_support h' = hw_trans_mem_support h"
    "rte_hash_hash h' = rte_hash_hash h" "length (local_free_slots h') = length (local_free_slots h)"
proof -
  have eq: "h'\<lparr>free_slots := free_slots h, local_free_slots := local_free_slots h, key_store := key_store h, buckets := buckets h\<rparr> = h"
    using assms by (simp add: same_config_def)
  show "h_entries h' = h_entries h" "h_key_len h' = h_key_len h" "hw_trans_mem_support h' = hw_trans_mem_support h"
    using arg_cong [OF eq, of h_entries] arg_cong [OF eq, of h_key_len] arg_cong [OF eq, of hw_trans_mem_support] by simp_all
  show "rte_hash_hash h' = rte_hash_hash h" using arg_cong [OF eq, of rte_hash_hash] by (simp add: rte_hash_hash_def [abs_def])
  show "length (local_free_slots h') = length (local_free_slots h)" using assms by (simp add: same_config_def)
qed

lemma same_config_put [simp]:
  "same_config h (put_slot h k x)" "length bs = length (buckets h) \<Longrightarrow> same_config h (put_buckets h bs)" "same_config h h"
  by (simp_all add: same_config_def put_slot_def put_buckets_def)

lemma moved_config: "moved h h' l \<Longrightarrow> same_config h h'"
proof -
  assume "moved h h' l"
  then obtain r cs where "h' = with_pool r cs h" "length cs = length (local_free_slots h)" unfolding moved_def by metis
  then show ?thesis by (simp add: same_config_def with_pool_def)
qed

lemma hash_okI:
  assumes "hash_ok h" and "table_ok h'" and "pool_ok h'" and "h_entries h' = h_entries h"
    and "ring_capacity (free_slots h') = ring_capacity (free_slots h)"
    and "pool_free h' + used_slots (buckets h') = pool_free h + used_slots (buckets h)"
  shows "hash_ok h'"
  using assms by (simp add: hash_ok_def)

lemma used_slots_add: "contents bs' = contents bs + {#(idx, hs)#} \<Longrightarrow> used_slots bs' = add_mset (unat idx) (used_slots bs)"
  by (simp add: used_slots_def)

lemma slots_distinct:
  assumes "hash_ok h" and "pool_free h + used_slots (buckets h) = add_mset n M"
  shows "n \<notin># M" "0 < n" "n \<le> unat (h_entries h)" "size M < unat (h_entries h)"
proof -
  have eq: "add_mset n M = mset [1..<Suc (unat (h_entries h))]" using assms by (simp add: hash_ok_def del: mset_upt)
  have "count (mset [1..<Suc (unat (h_entries h))]) n \<le> 1"
    using distinct_count_atmost_1 [of "[1..<Suc (unat (h_entries h))]"] distinct_upt by (auto simp del: mset_upt upt_Suc)
  then have "count (add_mset n M) n \<le> 1" by (simp only: eq)
  then show "n \<notin># M" by (simp add: not_in_iff)
  have "n \<in># mset [1..<Suc (unat (h_entries h))]" using eq by (metis union_single_eq_member)
  then show "0 < n" "n \<le> unat (h_entries h)" unfolding set_mset_mset set_upt atLeastLessThan_iff by linarith+
  have "size (add_mset n M) = unat (h_entries h)" unfolding eq by simp
  then show "size M < unat (h_entries h)" by simp
qed

lemma remove_entry_ok:
  assumes ok: "hash_ok h" and core: "core_ok h l" and b: "b < length (buckets h)" and i: "i < 4"
    and sig: "sig_at (buckets h) b i \<noteq> NULL_SIGNATURE"
  shows "\<exists>h'. remove_entry h l b i = Some h' \<and> hash_ok h' \<and> core_ok h' l \<and> same_config h h' \<and>
    hmap h' = (hmap h)(stored_key h (idx_at (buckets h) b i) := None)"
proof -
  define idx where "idx = idx_at (buckets h) b i"
  have tab: "table_ok h" and pool: "pool_ok h" using ok by (simp_all add: hash_ok_def)
  then have lay: "layout (bucket_bitmask h) (buckets h)" by (simp add: table_ok_def)
  obtain bs where set: "set_entry (buckets h) b i NULL_SIGNATURE idx = Some bs" and ch: "changed (buckets h) b i NULL_SIGNATURE idx bs"
    using set_entry_changed [OF layout_wf [OF lay] b i] by blast
  have lay': "layout (bucket_bitmask h) bs" using layout_changed [OF lay ch] by simp
  define hs where "hs = {#sig_current (sig_at (buckets h) b i), sig_alt (sig_at (buckets h) b i)#}"
  have "contents bs + cell (sig_at (buckets h) b i) idx = contents (buckets h) + cell NULL_SIGNATURE idx"
    using ch unfolding changed_def idx_def by blast
  then have hs: "contents (buckets h) = contents bs + {#(idx, hs)#}" using sig by (simp add: cell_def hs_def)
  have part: "pool_free h + used_slots (buckets h) = add_mset (unat idx) (pool_free h + used_slots bs)"
    by (simp add: used_slots_add [OF hs])
  note dist = slots_distinct [OF ok part]
  have once: "idx \<notin> used bs" using dist(1) by (force simp: used_slots_def elim: usedE)
  have fl: "flags bs = flags (buckets h)" using ch by (simp add: changed_def)
  define h1 where "h1 = put_buckets h bs"
  have h1: "table_ok h1" "hmap h1 = (hmap h)(stored_key h idx := None)"
    using hmap_remove [OF tab refl lay' fl hs once] by (simp_all add: h1_def)
  have "size (pool_free h1) < ring_capacity (free_slots h1)" using dist(4) ok by (simp add: h1_def hash_ok_def)
  then obtain h' where h': "recycle_slot h1 l (ucast idx) = Some h'" "moved h1 h' l" "pool_free h' = add_mset (unat idx) (pool_free h1)"
    using recycle_slot_ok [of h1 l "ucast idx"] pool core by (auto simp: h1_def unat_ucast_32)
  note mv = movedD [OF h'(2)]
  have "remove_entry h l b i = Some h'"
    using b set h'(1) by (simp add: remove_entry_def idx_def idx_at_def h1_def put_buckets_def)
  moreover have "hash_ok h'"
    by (rule hash_okI [OF ok]) (use mv h1 h'(3) part in \<open>simp_all add: h1_def\<close>)
  moreover have "same_config h h'"
    by (rule same_config_trans [OF _ moved_config [OF h'(2)]]) (use ch in \<open>simp add: h1_def changed_def\<close>)
  ultimately show ?thesis using mv h1 by (simp add: idx_def)
qed

text \<open>
  Deleting a key takes exactly this key out of the map and returns its position, or
  \<open>-ENOENT\<close> without a change when it is not there; the invariant stays.
\<close>

lemma hash_del_key_ok:
  assumes ok: "hash_ok h" and core: "core_ok h l" and key: "length key = unat (h_key_len h)"
  shows "\<exists>h'. hash_del_key_with_hash h l key (rte_hash_hash h key) =
      Some (case hmap h key of Some (idx, d) \<Rightarrow> int (unat idx) - 1 | None \<Rightarrow> - ENOENT, h') \<and>
    hash_ok h' \<and> core_ok h' l \<and> same_config h h' \<and> hmap h' = (hmap h)(key := None)"
proof -
  define s where "s = rte_hash_hash h key"
  define s2 where "s2 = rte_hash_secondary_hash s"
  let ?bs = "buckets h" let ?m = "bucket_bitmask h"
  define b where "b = unat (s AND ?m)" define b2 where "b2 = unat (s2 AND ?m)"
  have tab: "table_ok h" using ok by (simp add: hash_ok_def)
  then have lay: "layout ?m ?bs" by (simp add: table_ok_def)
  have b: "b < length ?bs" "b2 < length ?bs" using layout_index [OF lay] by (simp_all add: b_def b2_def)
  define t where "t = (\<lambda>s (x :: rte_hash_signatures). sig_current x = s \<and> x \<noteq> NULL_SIGNATURE)"
  have n12: "\<lparr>sig_current = s, sig_alt = s2\<rparr> \<noteq> NULL_SIGNATURE" "\<lparr>sig_current = s2, sig_alt = s\<rparr> \<noteq> NULL_SIGNATURE"
    using secondary_zero [of s] by (auto simp: s2_def NULL_SIGNATURE_def)
  have del: "\<exists>h'. remove_entry h l b' i = Some h' \<and> hash_ok h' \<and> core_ok h' l \<and> same_config h h' \<and>
      hmap h' = (hmap h)(key := None) \<and> (\<exists>d. hmap h key = Some (idx_at ?bs b' i, d)) \<and>
      position (idx_at ?bs b' i) = int (unat (idx_at ?bs b' i)) - 1"
    if "b' < length ?bs" "i < 4" "t s' (sig_at ?bs b' i)" "stored_key h (idx_at ?bs b' i) = key" for b' i s'
    using that remove_entry_ok [OF ok core that(1,2)] key_at [OF tab that(1,2)] entry_slot [OF tab entry_used [OF that(1,2)]]
    by (auto simp: t_def)
  define r1 where "r1 = find (\<lambda>i. t s (sig_at ?bs b i) \<and> stored_key h (idx_at ?bs b i) = key) [0..<4]"
  define r2 where "r2 = find (\<lambda>i. t s2 (sig_at ?bs b2 i) \<and> stored_key h (idx_at ?bs b2 i) = key) [0..<4]"
  have f1: "find_key h (?bs ! b) (t s) key [0..<4] = Some r1" unfolding r1_def by (rule find_key_ok [OF tab b(1) key]) (auto simp: t_def)
  have f2: "find_key h (?bs ! b2) (t s2) key [0..<4] = Some r2" unfolding r2_def by (rule find_key_ok [OF tab b(2) key]) (auto simp: t_def)
  have run: "hash_del_key_with_hash h l key s = (case r1 of
      Some i \<Rightarrow> do { h' \<leftarrow> remove_entry h l b i; Some (position (idx_at ?bs b i), h') }
    | None \<Rightarrow> (case r2 of Some i \<Rightarrow> do { h' \<leftarrow> remove_entry h l b2 i; Some (position (idx_at ?bs b2 i), h') }
        | None \<Rightarrow> Some (- ENOENT, h)))"
    using b f1 f2 unfolding hash_del_key_with_hash_def t_def
    by (simp add: b_def b2_def s2_def idx_at_def Let_def split: option.split)
  show ?thesis
  proof (cases r1)
    case (Some i)
    with found [OF r1_def [symmetric]] have "i < 4" "t s (sig_at ?bs b i)" "stored_key h (idx_at ?bs b i) = key" by simp_all
    then show ?thesis using del [OF b(1)] run Some by (fastforce simp: s_def)
  next
    case n1: None
    show ?thesis
    proof (cases r2)
      case (Some i)
      with found [OF r2_def [symmetric]] have "i < 4" "t s2 (sig_at ?bs b2 i)" "stored_key h (idx_at ?bs b2 i) = key" by simp_all
      then show ?thesis using del [OF b(2)] run Some n1 by (fastforce simp: s_def)
    next
      case None
      have "hmap h key = None"
        by (rule key_absent [OF tab]) (use found [OF r1_def [symmetric]] found [OF r2_def [symmetric]] n1 None n12 in
          \<open>auto simp: b_def b2_def s_def s2_def t_def\<close>)
      then show ?thesis using run n1 None ok core by (auto simp: s_def)
    qed
  qed
qed

section \<open>Insertion\<close>

text \<open>
  What an insertion may do to the map: bind the key to the data, or nothing but report \<open>-ENOSPC\<close>
  because no slot is left or because a new key finds its primary bucket full.
\<close>

definition add_result :: "rte_hash \<Rightarrow> nat \<Rightarrow> u8 list \<Rightarrow> u64 \<Rightarrow> int \<Rightarrow> rte_hash \<Rightarrow> bool" where
  "add_result h l key data ret h' \<longleftrightarrow>
     (if ret < 0 then ret = - ENOSPC \<and> hmap h' = hmap h \<and>
        (no_slot h l \<or> hmap h key = None \<and> full (buckets h) (unat (rte_hash_hash h key AND bucket_bitmask h)))
      else \<exists>idx. ret = int (unat idx) - 1 \<and> 0 < unat idx \<and> unat idx \<le> unat (h_entries h) \<and> hmap h' = (hmap h)(key \<mapsto> (idx, data)) \<and>
        (case hmap h key of Some (idx0, d) \<Rightarrow> idx = idx0 | None \<Rightarrow> \<forall>k d. hmap h k \<noteq> Some (idx, d)))"

lemma add_resultI:
  assumes "0 < unat idx" and "unat idx \<le> unat (h_entries h)" and "hmap h' = (hmap h)(key \<mapsto> (idx, data))"
    and "case hmap h key of Some (idx0, d) \<Rightarrow> idx = idx0 | None \<Rightarrow> \<forall>k d. hmap h k \<noteq> Some (idx, d)"
  shows "add_result h l key data (int (unat idx) - 1) h'"
proof -
  have "\<not> int (unat idx) - 1 < 0" using assms(1) by linarith
  then show ?thesis unfolding add_result_def using assms by (simp only: if_False) blast
qed

lemma add_no_slot:
  assumes ok: "hash_ok h" and mv: "moved h h' l" and free: "pool_free h' = pool_free h" and none: "no_slot h l"
  shows "hash_ok h' \<and> core_ok h' l \<and> same_config h h' \<and> add_result h l key data (- ENOSPC) h'"
proof -
  note m = movedD [OF mv]
  have "hash_ok h'" by (rule hash_okI [OF ok]) (use m free ok in \<open>simp_all add: hash_ok_def\<close>)
  then show ?thesis using m none moved_config [OF mv] by (simp add: add_result_def)
qed

text \<open>After a slot has been taken, with \<open>s\<close> the slot and \<open>h1\<close> the table without it in its pool.\<close>

definition slot_taken :: "rte_hash \<Rightarrow> nat \<Rightarrow> u64 \<Rightarrow> rte_hash \<Rightarrow> bool" where
  "slot_taken h l s h1 \<longleftrightarrow> hash_ok h \<and> moved h h1 l \<and> pool_free h = add_mset (unat s) (pool_free h1) \<and>
     (hw_trans_mem_support h \<longrightarrow> unat (cache_len (local_free_slots h1 ! l)) < 8)"

lemma slot_takenD:
  assumes "slot_taken h l s h1"
  shows "unat s \<notin># pool_free h1" "unat s \<notin># used_slots (buckets h)" "0 < unat s" "unat s \<le> unat (h_entries h)" "table_ok h1"
    "unat (ucast s :: u32) = unat s" "ucast (ucast s :: u32) = s"
proof -
  have ok: "hash_ok h" and mv: "moved h h1 l" and free: "pool_free h = add_mset (unat s) (pool_free h1)"
    using assms by (simp_all add: slot_taken_def)
  have part: "pool_free h + used_slots (buckets h) = add_mset (unat s) (pool_free h1 + used_slots (buckets h))" by (simp add: free)
  note d = slots_distinct [OF ok part]
  show "unat s \<notin># pool_free h1" "unat s \<notin># used_slots (buckets h)" "0 < unat s" "unat s \<le> unat (h_entries h)" using d by auto
  show "table_ok h1" using ok movedD [OF mv] by (simp add: hash_ok_def)
  have "h_entries h \<le> RTE_HASH_ENTRIES_MAX" using ok by (simp add: hash_ok_def table_ok_def sizes_ok_def)
  then have "unat s < 2 ^ 32" using d(3) by (simp add: word_le_nat_alt)
  then show u: "unat (ucast s :: u32) = unat s" by (simp add: unsigned_ucast_eq take_bit_nat_eq_self)
  then show "ucast (ucast s :: u32) = s" by (simp add: word_unat_eq_iff unat_ucast_32)
qed

text \<open>Giving the slot back restores the pool.\<close>

lemma give_back:
  assumes tk: "slot_taken h l s h1" and h2: "pool_ok h2" "core_ok h2 l" "pool_free h2 = pool_free h1"
    "hw_trans_mem_support h2 = hw_trans_mem_support h" "local_free_slots h2 = local_free_slots h1" "free_slots h2 = free_slots h1"
  shows "\<exists>h'. enqueue_slot_back h2 l s = Some h' \<and> moved h2 h' l \<and> pool_free h' = pool_free h"
proof -
  have ok: "hash_ok h" and mv: "moved h h1 l" and free: "pool_free h = add_mset (unat s) (pool_free h1)"
    using tk by (simp_all add: slot_taken_def)
  have part: "pool_free h + used_slots (buckets h) = add_mset (unat s) (pool_free h1 + used_slots (buckets h))" by (simp add: free)
  have "size (pool_free h1) < ring_capacity (free_slots h)" using slots_distinct(4) [OF ok part] ok by (simp add: hash_ok_def)
  then have "length (ring_contents (free_slots h1)) < ring_capacity (free_slots h1)" using movedD(3) [OF mv] by (simp add: pool_free_def)
  moreover have "hw_trans_mem_support h \<longrightarrow> unat (cache_len (local_free_slots h1 ! l)) < 8" using tk by (simp add: slot_taken_def)
  ultimately have "if hw_trans_mem_support h2 then unat (cache_len (local_free_slots h2 ! l)) < 8
      else length (ring_contents (free_slots h2)) < ring_capacity (free_slots h2)" using h2 by simp
  from enqueue_slot_back_ok [OF h2(1,2) this, of s] free h2(3) show ?thesis by auto
qed

lemma add_update:
  assumes tk: "slot_taken h l s h1" and old: "hmap h1 key = Some (idx, d)"
  shows "\<exists>h'. update_data h1 l s idx data = Some (int (unat idx) - 1, h') \<and>
    hash_ok h' \<and> core_ok h' l \<and> same_config h h' \<and> add_result h l key data (int (unat idx) - 1) h'"
proof -
  have ok: "hash_ok h" and mv: "moved h h1 l" using tk by (simp_all add: slot_taken_def)
  note m = movedD [OF mv] and t = slot_takenD [OF tk]
  obtain h2 where h2: "enqueue_slot_back h1 l s = Some h2" "moved h1 h2 l" "pool_free h2 = pool_free h"
    using give_back [OF tk m(1,2)] m(10) by auto
  note m2 = movedD [OF h2(2)]
  have tab2: "table_ok h2" and old2: "hmap h2 key = Some (idx, d)" using m2 t(5) old by simp_all
  have mem: "idx \<in> used (buckets h2)" using tab2 old2 by (simp add: table_ok_def hmap_iff)
  note slot = entry_slot [OF tab2 mem]
  define h3 where "h3 = put_slot h2 (unat idx) ((key_store h2 ! unat idx)\<lparr>pdata := data\<rparr>)"
  note h3 = hmap_put_slot_data [OF tab2 old2, of data, folded h3_def]
  have "hash_ok h3"
    by (rule hash_okI [OF ok]) (use h3 m m2 h2(3) in \<open>simp_all add: h3_def\<close>)
  moreover have "same_config h h3"
    using same_config_trans [OF moved_config [OF mv]] same_config_trans [OF moved_config [OF h2(2)]] by (simp add: h3_def)
  moreover have "add_result h l key data (int (unat idx) - 1) h3"
    by (rule add_resultI) (use slot(1,2) h3(2) old m m2 in simp_all)
  moreover have "core_ok h3 l" using m2(2) by (simp add: h3_def)
  ultimately show ?thesis using h2(1) slot(3,4,5) by (simp add: update_data_def h3_def put_slot_def)
qed

lemma add_insert:
  fixes data :: u64
  assumes tk: "slot_taken h l s h1" and new: "hmap h1 key = None" and key: "length key = unat (h_key_len h)"
  defines "idx \<equiv> ucast s :: u32"
  defines "h2 \<equiv> put_slot h1 (unat s) \<lparr>pdata = data, key_bytes = key\<rparr>"
  assumes bs: "layout (bucket_bitmask h) bs" "flags bs = flags (buckets h)"
    "contents bs = contents (buckets h) + {#(idx, key_hashes h key)#}"
  shows "position idx = int (unat idx) - 1 \<and> hash_ok (put_buckets h2 bs) \<and> core_ok (put_buckets h2 bs) l \<and>
    same_config h (put_buckets h2 bs) \<and> add_result h l key data (int (unat idx) - 1) (put_buckets h2 bs)"
proof -
  have ok: "hash_ok h" and mv: "moved h h1 l" and free: "pool_free h = add_mset (unat s) (pool_free h1)"
    using tk by (simp_all add: slot_taken_def)
  note m = movedD [OF mv] and t = slot_takenD [OF tk]
  have u: "unat idx = unat s" by (simp add: idx_def t(6))
  have h2: "table_ok h2" "hmap h2 = hmap h1"
    using hmap_put_slot_unused [OF t(5), of "unat s"] t(2) m by (simp_all add: h2_def)
  have "unat s < length (key_store h1)" using t(4) ok m by (simp add: hash_ok_def table_ok_def sizes_ok_def)
  then have at: "key_store h2 ! unat idx = \<lparr>pdata = data, key_bytes = key\<rparr>" by (simp add: h2_def u)
  have hs: "key_hashes h2 key = key_hashes h key" by (simp add: h2_def key_hashes_def m)
  have ins: "table_ok (put_buckets h2 bs)" "hmap (put_buckets h2 bs) = (hmap h2)(key \<mapsto> (idx, data))"
    using hmap_insert [OF h2(1), of key idx bs] new h2(2) at key t(3,4) bs hs m
    by (simp_all add: stored_key_def u) (simp_all add: h2_def m key_hashes_def)
  have "hash_ok (put_buckets h2 bs)"
    by (rule hash_okI [OF ok]) (use ins m free used_slots_add [OF bs(3)] u in \<open>simp_all add: h2_def\<close>)
  moreover have "same_config h (put_buckets h2 bs)"
  proof -
    have "length bs = length (buckets h2)" using bs(2) m by (simp add: h2_def) (metis length_flags)
    then show ?thesis using same_config_trans [OF moved_config [OF mv]] same_config_trans [of h1 h2] by (simp add: h2_def)
  qed
  moreover have fresh: "hmap h k \<noteq> Some (idx, d)" for k d
  proof
    assume "hmap h k = Some (idx, d)"
    moreover have "entries_ok h" using ok by (simp add: hash_ok_def table_ok_def)
    ultimately have "idx \<in> used (buckets h)" by (simp add: hmap_iff)
    then show False using t(2) u by (force simp: used_slots_def elim: usedE)
  qed
  moreover have "add_result h l key data (int (unat idx) - 1) (put_buckets h2 bs)"
    by (rule add_resultI) (use fresh t(3,4) u ins(2) h2(2) m new in simp_all)
  moreover have "position idx = int (unat idx) - 1"
    by (rule entry_slot(5) [OF ins(1)]) (simp add: used_def bs(3))
  ultimately show ?thesis using m(2) by (simp add: h2_def)
qed

text \<open>Between operations no entry is being pushed.\<close>

lemma table_flags:
  assumes tab: "table_ok h"
  shows "flags_ok (bucket_bitmask h) (buckets h)"
proof -
  have "flag_at (buckets h) b i = 0" if "b < length (buckets h)" "i < 4" for b i
  proof -
    have "\<forall>bkt \<in> set (buckets h). bucket_wf bkt" using tab by (simp add: table_ok_def layout_def)
    then have "flags (buckets h) ! b \<in> set (flags (buckets h))" and "length (flags (buckets h) ! b) = 4"
      using that(1) by (simp_all add: flags_def bucket_wf_def)
    then have "flags (buckets h) ! b ! i \<in> set (flags (buckets h) ! b)" and "set (flags (buckets h) ! b) \<subseteq> {0}"
      using that(2) tab by (simp_all add: table_ok_def)
    then show ?thesis unfolding flag_at_def by blast
  qed
  then show ?thesis by (simp add: flags_ok_def)
qed

text \<open>The insertion of a new key, whether its bucket has room or must make some.\<close>

lemma insert_key_ok:
  fixes data :: u64
  assumes tk: "slot_taken h l s h1" and new: "hmap h1 key = None" and key: "length key = unat (h_key_len h)"
  defines "sig \<equiv> rte_hash_hash h key"
  defines "sigs \<equiv> \<lparr>sig_current = sig, sig_alt = rte_hash_secondary_hash sig\<rparr>" and "b \<equiv> unat (sig AND bucket_bitmask h)"
  shows "\<exists>ret h'. insert_key h1 l b key sigs s data = Some (ret, h') \<and>
    hash_ok h' \<and> core_ok h' l \<and> same_config h h' \<and> add_result h l key data ret h'"
proof -
  have ok: "hash_ok h" and mv: "moved h h1 l" and free: "pool_free h = add_mset (unat s) (pool_free h1)"
    using tk by (simp_all add: slot_taken_def)
  note m = movedD [OF mv] and t = slot_takenD [OF tk]
  let ?bs = "buckets h" let ?m = "bucket_bitmask h" let ?idx = "ucast s :: u32"
  have tab: "table_ok h" using ok by (simp add: hash_ok_def)
  then have lay: "layout ?m ?bs" by (simp add: table_ok_def)
  have b: "b < length ?bs" using layout_index [OF lay] by (simp add: b_def)
  define h2 where "h2 = put_slot h1 (unat s) \<lparr>pdata = data, key_bytes = key\<rparr>"
  have store: "write_at (key_store h1) (unat s) \<lparr>pdata = data, key_bytes = take (unat (h_key_len h1)) key\<rparr> = Some (key_store h2)"
    using t(4) tab m key by (simp add: h2_def table_ok_def sizes_ok_def)
  have h2: "h1\<lparr>key_store := key_store h2\<rparr> = h2" by (simp add: h2_def put_slot_def)
  have sigs: "sigs \<noteq> NULL_SIGNATURE" "unat (sig_current sigs AND ?m) = b" "cell sigs ?idx = {#(?idx, key_hashes h key)#}"
    using secondary_zero [of sig] by (auto simp: sigs_def b_def sig_def NULL_SIGNATURE_def cell_def key_hashes_def)
  have run: "insert_key h1 l b key sigs s data = (case free_entry (?bs ! b) of
      Some i \<Rightarrow> do { bs \<leftarrow> set_entry ?bs b i sigs ?idx; Some (position ?idx, put_buckets h2 bs) }
    | None \<Rightarrow> do { (ret, bs) \<leftarrow> make_space_bucket ?m ?bs b;
        if 0 \<le> ret then do { bs \<leftarrow> set_entry bs b (nat ret) sigs ?idx; Some (position ?idx, put_buckets h2 bs) }
        else do { h \<leftarrow> enqueue_slot_back (put_buckets h2 bs) l s; Some (ret, h) } })"
    using b key m store t(7) unfolding insert_key_def h2_def
    by (simp add: put_buckets_def put_slot_def Let_def cong: option.case_cong if_cong)
  have fin: ?thesis
    if "set_entry bs b i sigs ?idx = Some bs'" "changed bs b i sigs ?idx bs'" "layout ?m bs" "flags bs = flags ?bs"
      "contents bs = contents ?bs + cell (sig_at bs b i) (idx_at bs b i)"
      "insert_key h1 l b key sigs s data = Some (position ?idx, put_buckets h2 bs')" for bs i bs'
  proof -
    have "contents bs' + cell (sig_at bs b i) (idx_at bs b i) = contents bs + cell sigs ?idx"
      using that(2) unfolding changed_def by blast
    then have "contents bs' = contents ?bs + {#(?idx, key_hashes h key)#}" using that(5) sigs(3) by simp
    moreover have "layout ?m bs'" by (rule layout_changed [OF that(3,2)]) (simp add: sigs(2))
    moreover have "flags bs' = flags ?bs" using that(2,4) by (simp add: changed_def)
    ultimately show ?thesis using add_insert [OF tk new key, of bs' data] that(6) by (auto simp: h2_def)
  qed
  show ?thesis
  proof (cases "free_entry (?bs ! b)")
    case (Some i)
    then have i: "i < 4" "sig_at ?bs b i = NULL_SIGNATURE" using free_entry_Some by blast+
    obtain bs' where bs': "set_entry ?bs b i sigs ?idx = Some bs'" "changed ?bs b i sigs ?idx bs'"
      using set_entry_changed [OF layout_wf [OF lay] b i(1)] by blast
    show ?thesis by (rule fin [OF bs' lay]) (use run Some bs' i(2) in \<open>simp_all add: cell_def\<close>)
  next
    case None
    then have full: "full ?bs b" by (simp add: free_entry_None)
    then obtain ret bs where ms: "make_space_bucket ?m ?bs b = Some (ret, bs)" "layout ?m bs" "space_made ?bs b ret bs"
      using make_space_bucket_ok [OF lay b full table_flags [OF tab]] by blast
    show ?thesis
    proof (cases "ret < 0")
      case True
      then have r: "ret = - ENOSPC" "bs = ?bs" using ms(3) by (simp_all add: space_made_def)
      define h3 where "h3 = put_buckets h2 ?bs"
      have eq: "h3 = h2" by (simp add: h3_def h2_def put_buckets_def put_slot_def flip: m(6))
      have "table_ok h2" "hmap h2 = hmap h"
        using hmap_put_slot_unused [OF t(5), of "unat s"] t(2) m by (simp_all add: h2_def)
      moreover obtain h4 where h4: "enqueue_slot_back h2 l s = Some h4" "moved h2 h4 l" "pool_free h4 = pool_free h"
        using give_back [OF tk, of h2] m by (auto simp: h2_def)
      note m4 = movedD [OF h4(2)]
      ultimately have "hash_ok h4" "hmap h4 = hmap h"
        using m4 h4(3) m by (auto intro!: hash_okI [OF ok] simp: h2_def)
      moreover have "same_config h h4"
        using same_config_trans [OF moved_config [OF mv]] same_config_trans [OF _ moved_config [OF h4(2)], of h1] by (simp add: h2_def)
      moreover have "insert_key h1 l b key sigs s data = Some (- ENOSPC, h4)"
        using run None ms(1) r True h4(1) eq by (simp add: h3_def)
      moreover have "hmap h key = None" using new m by simp
      ultimately show ?thesis using m4(2) full by (auto simp: add_result_def b_def sig_def)
    next
      case False
      then have "ret < 4" and r: "flags bs = flags ?bs" "length bs = length ?bs"
        "contents bs = contents ?bs + cell (sig_at bs b (nat ret)) (idx_at bs b (nat ret))" using ms(3) by (simp_all add: space_made_def)
      then have i: "nat ret < 4" by linarith
      obtain bs' where bs': "set_entry bs b (nat ret) sigs ?idx = Some bs'" "changed bs b (nat ret) sigs ?idx bs'"
        using set_entry_changed [OF layout_wf [OF ms(2)] _ i, of b sigs ?idx] b r(2) by auto
      show ?thesis by (rule fin [OF bs' ms(2) r(1,3)]) (use run None ms(1) False bs' in simp)
    qed
  qed
qed

text \<open>
  Adding a key binds it to the data: an old key keeps its position, a new one gets a position
  that no key has. Or the table is full, the result \<open>-ENOSPC\<close>, and no key is lost.
\<close>

lemma hash_add_key_ok:
  fixes data :: u64
  assumes ok: "hash_ok h" and core: "core_ok h l" and key: "length key = unat (h_key_len h)"
  shows "\<exists>ret h'. hash_add_key_with_hash h l key (rte_hash_hash h key) data = Some (ret, h') \<and>
    hash_ok h' \<and> core_ok h' l \<and> same_config h h' \<and> add_result h l key data ret h'"
proof -
  define s where "s = rte_hash_hash h key"
  define s2 where "s2 = rte_hash_secondary_hash s"
  let ?bs = "buckets h" let ?m = "bucket_bitmask h"
  define b where "b = unat (s AND ?m)" define b2 where "b2 = unat (s2 AND ?m)"
  have tab: "table_ok h" and pool: "pool_ok h" using ok by (simp_all add: hash_ok_def)
  then have lay: "layout ?m ?bs" by (simp add: table_ok_def)
  have b: "b < length ?bs" "b2 < length ?bs" using layout_index [OF lay] by (simp_all add: b_def b2_def)
  from get_slot_ok [OF pool core] show ?thesis
  proof (elim disjE exE conjE)
    fix h1
    assume "get_slot h l = Some (Inl (- ENOSPC), h1)" and mv: "moved h h1 l" "pool_free h1 = pool_free h" "no_slot h l"
    then have "hash_add_key_with_hash h l key s data = Some (- ENOSPC, h1)"
      using b by (simp add: hash_add_key_with_hash_def b_def b2_def s2_def Let_def)
    then show ?thesis using add_no_slot [OF ok mv, of key data] by (auto simp: s_def)
  next
    fix slot h1
    assume get: "get_slot h l = Some (Inr slot, h1)" and mv: "moved h h1 l"
      and free: "pool_free h = add_mset (unat slot) (pool_free h1)"
      and room: "hw_trans_mem_support h \<longrightarrow> unat (cache_len (local_free_slots h1 ! l)) < 8"
    have tk: "slot_taken h l slot h1" using ok mv free room by (simp add: slot_taken_def)
    note m = movedD [OF mv] and t = slot_takenD [OF tk]
    define t1 where "t1 = (\<lambda>x :: rte_hash_signatures. sig_current x = s \<and> sig_alt x = s2)"
    define t2 where "t2 = (\<lambda>x :: rte_hash_signatures. sig_alt x = s \<and> sig_current x = s2)"
    have n: "t1 x \<Longrightarrow> x \<noteq> NULL_SIGNATURE" "t2 x \<Longrightarrow> x \<noteq> NULL_SIGNATURE" for x
      using secondary_zero [of s] by (auto simp: t1_def t2_def s2_def NULL_SIGNATURE_def)
    define r1 where "r1 = find (\<lambda>i. t1 (sig_at ?bs b i) \<and> stored_key h1 (idx_at ?bs b i) = key) [0..<4]"
    define r2 where "r2 = find (\<lambda>i. t2 (sig_at ?bs b2 i) \<and> stored_key h1 (idx_at ?bs b2 i) = key) [0..<4]"
    have f1: "find_key h1 (?bs ! b) t1 key [0..<4] = Some r1"
      unfolding r1_def m(6) [symmetric] by (rule find_key_ok [OF t(5)]) (use b m key n in auto)
    have f2: "find_key h1 (?bs ! b2) t2 key [0..<4] = Some r2"
      unfolding r2_def m(6) [symmetric] by (rule find_key_ok [OF t(5)]) (use b m key n in auto)
    have run: "hash_add_key_with_hash h l key s data = (case r1 of Some i \<Rightarrow> update_data h1 l slot (idx_at ?bs b i) data
      | None \<Rightarrow> (case r2 of Some i \<Rightarrow> update_data h1 l slot (idx_at ?bs b2 i) data
          | None \<Rightarrow> insert_key h1 l b key \<lparr>sig_current = s, sig_alt = s2\<rparr> slot data))"
      using b get f1 f2 unfolding hash_add_key_with_hash_def t1_def t2_def
      by (simp add: b_def b2_def s2_def idx_at_def Let_def split: option.split)
    have upd: ?thesis if "b' < length ?bs" "i < 4" "sig_at ?bs b' i \<noteq> NULL_SIGNATURE" "stored_key h1 (idx_at ?bs b' i) = key"
      "hash_add_key_with_hash h l key s data = update_data h1 l slot (idx_at ?bs b' i) data" for b' i
      using add_update [OF tk key_at [OF t(5), of b' i key], of data] that m(6) unfolding s_def by auto
    show ?thesis
    proof (cases r1)
      case (Some i)
      with found [OF r1_def [symmetric]] have "i < 4" "t1 (sig_at ?bs b i)" "stored_key h1 (idx_at ?bs b i) = key" by simp_all
      then show ?thesis using upd [OF b(1)] run Some n by simp
    next
      case n1: None
      show ?thesis
      proof (cases r2)
        case (Some i)
        with found [OF r2_def [symmetric]] have "i < 4" "t2 (sig_at ?bs b2 i)" "stored_key h1 (idx_at ?bs b2 i) = key" by simp_all
        then show ?thesis using upd [OF b(2)] run Some n1 n by simp
      next
        case None
        have "hmap h1 key = None"
          by (rule key_absent [OF t(5)]) (use found [OF r1_def [symmetric]] found [OF r2_def [symmetric]] n1 None m in
            \<open>auto simp: b_def b2_def s_def s2_def t1_def t2_def\<close>)
        then show ?thesis using insert_key_ok [OF tk _ key, of data] run n1 None by (simp add: s_def s2_def b_def)
      qed
    qed
  qed
qed

end
