(* ===== verification/Hash_Create.thy ===== *)
theory Hash_Create
  imports Hash_Api
begin

text \<open>
  The life of the tables of lib/librte_hash/rte_cuckoo_hash.c: the list of named tables, creation,
  deletion and reset. A table that is created or reset satisfies the invariant of the operations
  on keys and is the empty map.
\<close>

section \<open>Sizes\<close>

text \<open>\<open>rte_align32pow2\<close> of rte_common.h.\<close>

definition rte_align32pow2 :: "u32 \<Rightarrow> u32" where
  "rte_align32pow2 x =
     (let x = x - 1;
          x = x OR drop_bit 1 x;
          x = x OR drop_bit 2 x;
          x = x OR drop_bit 4 x;
          x = x OR drop_bit 8 x;
          x = x OR drop_bit 16 x
      in x + 1)"

lemma smear_step:
  fixes x y :: u32
  assumes "\<And>n. bit x n \<longleftrightarrow> (\<exists>d < m. bit y (n + d))"
  shows "bit (x OR drop_bit m x) n \<longleftrightarrow> (\<exists>d < m + m. bit y (n + d))"
proof -
  have "bit (x OR drop_bit m x) n \<longleftrightarrow> (\<exists>d < m. bit y (n + d)) \<or> (\<exists>d < m. bit y (n + m + d))"
    by (simp add: bit_or_iff bit_drop_bit_eq assms ac_simps)
  also have "\<dots> \<longleftrightarrow> (\<exists>d < m + m. bit y (n + d))"
  proof safe
    fix d assume "d < m" "bit y (n + m + d)"
    then show "\<exists>d < m + m. bit y (n + d)" by (intro exI [of _ "m + d"]) (simp add: ac_simps)
  next
    fix d assume a: "d < m + m" "bit y (n + d)" "\<not> (\<exists>d < m. bit y (n + m + d))"
    have "d < m"
    proof (rule ccontr)
      assume "\<not> d < m"
      then have "d - m < m" "n + m + (d - m) = n + d" using a(1) by simp_all
      then show False using a(2,3) by metis
    qed
    then show "\<exists>d < m. bit y (n + d)" using a(2) by blast
  qed (auto intro: trans_less_add1)
  finally show ?thesis .
qed

lemma smear_mask:
  fixes x y :: u32
  assumes "\<And>n. bit x n \<longleftrightarrow> (\<exists>d < 32. bit y (n + d))" and "unat y < 2 ^ k" and "0 < k \<longrightarrow> 2 ^ (k - 1) \<le> unat y"
  shows "x = mask k"
proof (rule bit_word_eqI)
  fix n assume n: "n < LENGTH(32)"
  have hi: "\<not> bit y i" if "k \<le> i" for i
  proof -
    have "unat y < 2 ^ i" using assms(2) that by (meson less_le_trans one_le_numeral power_increasing)
    then have "\<not> bit (unat y) i" by (simp add: bit_iff_odd)
    then show ?thesis by (simp add: bit_unsigned_iff)
  qed
  have lo: "bit y (k - 1)" if "0 < k"
  proof -
    have "unat y div 2 ^ (k - 1) = 1"
    proof (rule div_nat_eqI)
      show "unat y < 2 ^ (k - 1) * Suc 1" using assms(2) that by (cases k) simp_all
    qed (use assms(3) that in simp)
    then have "bit (unat y) (k - 1)" by (simp add: bit_iff_odd)
    then show ?thesis by (simp add: bit_unsigned_iff)
  qed
  show "bit x n \<longleftrightarrow> bit (mask k :: u32) n"
  proof (cases "n < k")
    case True
    have "k - 1 < 32" using bit_imp_le_length [OF lo] True by simp
    then have "bit y (n + (k - 1 - n))" "k - 1 - n < 32" using lo True by simp_all
    then show ?thesis unfolding assms(1) bit_mask_iff using True n by auto
  next
    case False
    then show ?thesis unfolding assms(1) bit_mask_iff using hi by auto
  qed
qed

lemma align32pow2:
  assumes "x \<noteq> 0" and "unat x \<le> 2 ^ 31"
  shows "\<exists>k \<le> 31. rte_align32pow2 x = 2 ^ k \<and> unat x \<le> 2 ^ k \<and> 2 ^ k < 2 * unat x"
proof -
  define y where "y = x - 1"
  have y: "unat y = unat x - 1" "0 < unat x" using assms(1) by (simp_all add: y_def unat_minus_one unat_gt_0)
  define k where "k = (LEAST k. unat y < 2 ^ k)"
  have "\<exists>k. unat y < 2 ^ k" by (rule exI [of _ 32]) (use y assms(2) in simp)
  then have k: "unat y < 2 ^ k" unfolding k_def by (rule LeastI_ex)
  have k1: "2 ^ (k - 1) \<le> unat y" if "0 < k" using not_less_Least [of "k - 1" "\<lambda>k. unat y < 2 ^ k"] that by (simp add: k_def)
  have "unat y < 2 ^ 31" using y assms(2) by linarith
  then have k31: "k \<le> 31" unfolding k_def by (rule Least_le)
  define x1 where "x1 = y OR drop_bit 1 y"
  define x2 where "x2 = x1 OR drop_bit 2 x1"
  define x4 where "x4 = x2 OR drop_bit 4 x2"
  define x8 where "x8 = x4 OR drop_bit 8 x4"
  define x16 where "x16 = x8 OR drop_bit 16 x8"
  have "bit x1 n \<longleftrightarrow> (\<exists>d < 2. bit y (n + d))" for n
    using smear_step [of y 1 y n] by (simp add: x1_def numeral_2_eq_2)
  from smear_step [OF this] have "bit x2 n \<longleftrightarrow> (\<exists>d < 4. bit y (n + d))" for n by (simp add: x2_def)
  from smear_step [OF this] have "bit x4 n \<longleftrightarrow> (\<exists>d < 8. bit y (n + d))" for n by (simp add: x4_def)
  from smear_step [OF this] have "bit x8 n \<longleftrightarrow> (\<exists>d < 16. bit y (n + d))" for n by (simp add: x8_def)
  from smear_step [OF this] have "bit x16 n \<longleftrightarrow> (\<exists>d < 32. bit y (n + d))" for n by (simp add: x16_def)
  then have "x16 = mask k" by (rule smear_mask) (use k k1 in auto)
  then have "rte_align32pow2 x = mask k + 1"
    by (simp add: rte_align32pow2_def Let_def x16_def x8_def x4_def x2_def x1_def y_def)
  also have "\<dots> = 2 ^ k" by (simp add: mask_eq_decr_exp)
  finally have "rte_align32pow2 x = 2 ^ k" .
  moreover have "(2 :: nat) ^ k < 2 * unat x" using k1 y by (cases k) auto
  ultimately show ?thesis using k k31 y by auto
qed

section \<open>Named tables\<close>

text \<open>
  A table in memory: its address is the key of \<open>ht_tables\<close>, the other fields are the addresses of
  the blocks it owns and of its ring. \<open>ht_live\<close> are the blocks that were allocated and not freed,
  \<open>ht_rings\<close> is the state of the ring library, whose \<open>rte_errno\<close> the hash library shares. The
  allocator is another component: \<open>he_zmalloc i size\<close> is the block the \<open>i\<close>-th allocation of the
  call returns. \<open>he_default_hash\<close> is the hash function the build selects, \<open>rte_hash_crc\<close> or
  \<open>rte_jhash\<close>. Key lengths are those for which the size of a key slot fits in 32 bits.
\<close>

record rte_hash_parameters =
  p_name :: string
  p_entries :: u32
  p_key_len :: u32
  p_hash_func :: "(u8 list \<Rightarrow> u32 \<Rightarrow> u32 \<Rightarrow> u32) option"
  p_hash_func_init_val :: u32
  p_socket_id :: int
  p_extra_flag :: u8

record hash_object =
  ho_table :: rte_hash
  ho_buckets :: nat
  ho_key_store :: nat
  ho_caches :: "nat option"
  ho_ring :: nat

record hash_env =
  he_zmalloc :: "nat \<Rightarrow> u64 \<Rightarrow> nat option"
  he_default_hash :: "u8 list \<Rightarrow> u32 \<Rightarrow> u32 \<Rightarrow> u32"
  he_ring :: "u64 ring_env"

record hash_registry =
  ht_tables :: "nat \<Rightarrow> hash_object option"
  ht_list :: "(nat \<times> nat) list"
  ht_live :: "nat set"
  ht_rings :: "u64 ring_registry"

abbreviation (input) sizeof_rte_tailq_entry :: u64 where "sizeof_rte_tailq_entry \<equiv> 24"
abbreviation (input) sizeof_rte_hash :: u64 where "sizeof_rte_hash \<equiv> 128"
abbreviation (input) sizeof_rte_hash_bucket :: u64 where "sizeof_rte_hash_bucket \<equiv> 64"
abbreviation (input) sizeof_lcore_cache :: u64 where "sizeof_lcore_cache \<equiv> 128"

definition set_errno :: "int \<Rightarrow> hash_registry \<Rightarrow> hash_registry" where
  "set_errno err st = st\<lparr>ht_rings := (ht_rings st)\<lparr>rte_errno := err\<rparr>\<rparr>"

text \<open>\<open>None\<close>: an entry of the list points to memory that holds no table.\<close>

fun hash_search :: "(nat \<Rightarrow> hash_object option) \<Rightarrow> string \<Rightarrow> (nat \<times> nat) list \<Rightarrow> nat option option" where
  "hash_search mem name [] = Some None"
| "hash_search mem name ((te, addr) # tes) = do {
     obj \<leftarrow> mem addr;
     if strncmp_eq name (h_name (ho_table obj)) RTE_HASH_NAMESIZE then Some (Some addr)
     else hash_search mem name tes }"

definition rte_hash_find_existing :: "string \<Rightarrow> hash_registry \<Rightarrow> (nat option \<times> hash_registry) option" where
  "rte_hash_find_existing name st = do {
     found \<leftarrow> hash_search (ht_tables st) name (ht_list st);
     Some (case found of None \<Rightarrow> (None, set_errno ENOENT st) | Some addr \<Rightarrow> (Some addr, st)) }"

definition rte_hash_set_cmp_func :: "rte_hash \<Rightarrow> (u8 list \<Rightarrow> u8 list \<Rightarrow> u32 \<Rightarrow> int) \<Rightarrow> rte_hash" where
  "rte_hash_set_cmp_func h func = h\<lparr>rte_hash_cmp_eq := func\<rparr>"

text \<open>The loop that puts the indices \<open>i\<close> to \<open>n\<close> into the ring of free slots.\<close>

fun populate :: "u64 rte_ring \<Rightarrow> nat list \<Rightarrow> u64 rte_ring option" where
  "populate r [] = Some r"
| "populate r (i # is) = do { (ret, r) \<leftarrow> rte_ring_sp_enqueue r (of_nat i); populate r is }"

text \<open>What creation writes into the zeroed memory of the table, before the ring is populated.\<close>

definition num_key_slots :: "rte_hash_parameters \<Rightarrow> bool \<Rightarrow> u32" where
  "num_key_slots p trans_mem =
     (if trans_mem then p_entries p + (of_nat RTE_MAX_LCORE - 1) * LCORE_CACHE_SIZE + 1 else p_entries p + 1)"

definition new_table :: "hash_env \<Rightarrow> rte_hash_parameters \<Rightarrow> bool \<Rightarrow> nat option \<Rightarrow> u64 rte_ring \<Rightarrow> rte_hash" where
  "new_table env p trans_mem caches r =
     (let buckets_n = rte_align32pow2 (p_entries p) div of_nat RTE_HASH_BUCKET_ENTRIES in
      \<lparr> h_name = take (RTE_HASH_NAMESIZE - 1) (p_name p), h_entries = p_entries p, num_buckets = buckets_n,
        h_key_len = p_key_len p,
        hash_func = (case p_hash_func p of None \<Rightarrow> he_default_hash env | Some f \<Rightarrow> f),
        hash_func_init_val = p_hash_func_init_val p,
        rte_hash_cmp_eq = select_cmp_eq (p_key_len p),
        bucket_bitmask = buckets_n - 1,
        key_entry_size = sizeof_rte_hash_key + p_key_len p,
        free_slots = r,
        key_store = replicate (unat (num_key_slots p trans_mem)) (zero_key (p_key_len p)),
        buckets = replicate (unat buckets_n) zero_bucket,
        hw_trans_mem_support = trans_mem,
        local_free_slots = (case caches of None \<Rightarrow> [] | Some _ \<Rightarrow> replicate RTE_MAX_LCORE zero_cache) \<rparr>)"

text \<open>The way out of a failed creation: the blocks allocated so far are freed.\<close>

definition create_err :: "nat list \<Rightarrow> hash_registry \<Rightarrow> (nat option \<times> hash_registry) option" where
  "create_err blocks st = Some (None, st\<lparr>ht_live := ht_live st - set blocks\<rparr>)"

definition hash_zmalloc :: "hash_env \<Rightarrow> nat \<Rightarrow> u64 \<Rightarrow> hash_registry \<Rightarrow> nat option \<times> hash_registry" where
  "hash_zmalloc env i bytes st =
     (case he_zmalloc env i bytes of None \<Rightarrow> (None, st)
      | Some a \<Rightarrow> (Some a, st\<lparr>ht_live := insert a (ht_live st)\<rparr>))"

definition rte_hash_create ::
  "hash_env \<Rightarrow> rte_hash_parameters option \<Rightarrow> hash_registry \<Rightarrow> (nat option \<times> hash_registry) option" where
  "rte_hash_create env params st =
     (case params of None \<Rightarrow> Some (None, st)
      | Some p \<Rightarrow>
        if RTE_HASH_ENTRIES_MAX < p_entries p \<or> p_entries p < of_nat RTE_HASH_BUCKET_ENTRIES \<or> p_key_len p = 0
        then Some (None, set_errno EINVAL st)
        else do {
          let trans_mem = (p_extra_flag p AND 1 \<noteq> 0);
          (found, st) \<leftarrow> rte_hash_find_existing (p_name p) st;
          if found \<noteq> None then Some (found, st)
          else (case hash_zmalloc env 0 sizeof_rte_tailq_entry st of (None, st) \<Rightarrow> create_err [] st
          | (Some te, st) \<Rightarrow> (case hash_zmalloc env 1 sizeof_rte_hash st of (None, st) \<Rightarrow> create_err [te] st
          | (Some h, st) \<Rightarrow>
            (let buckets_n = rte_align32pow2 (p_entries p) div of_nat RTE_HASH_BUCKET_ENTRIES in
             case hash_zmalloc env 2 (ucast buckets_n * sizeof_rte_hash_bucket) st of (None, st) \<Rightarrow> create_err [te, h] st
          | (Some bkts, st) \<Rightarrow>
            (let key_tbl_size = ucast (sizeof_rte_hash_key + p_key_len p) * ucast (num_key_slots p trans_mem) in
             case hash_zmalloc env 3 key_tbl_size st of (None, st) \<Rightarrow> create_err [te, h, bkts] st
          | (Some k, st) \<Rightarrow>
            (case rte_ring_create (he_ring env) (take (RTE_RING_NAMESIZE - 1) (''HT_'' @ p_name p))
                (rte_align32pow2 (num_key_slots p trans_mem)) (p_socket_id p) 0 (ht_rings st) of
               (None, rings) \<Rightarrow> create_err [te, h, bkts, k] (st\<lparr>ht_rings := rings\<rparr>)
             | (Some raddr, rings) \<Rightarrow> do {
                 let st = st\<lparr>ht_rings := rings\<rparr>;
                 let (caches, st) = (if trans_mem then hash_zmalloc env 4 (sizeof_lcore_cache * of_nat RTE_MAX_LCORE) st else (None, st));
                 r \<leftarrow> reg_rings rings raddr;
                 r \<leftarrow> populate r [1..<Suc (unat (p_entries p))];
                 Some (Some h, st\<lparr>ht_rings := rings\<lparr>reg_rings := (reg_rings rings)(raddr \<mapsto> r)\<rparr>,
                   ht_tables := (ht_tables st)(h \<mapsto> \<lparr>ho_table = new_table env p trans_mem caches r, ho_buckets = bkts,
                     ho_key_store = k, ho_caches = caches, ho_ring = raddr\<rparr>),
                   ht_list := ht_list st @ [(te, h)]\<rparr>) }))))) })"

text \<open>
  \<open>rte_hash_free\<close>; \<open>None\<close> when the address is listed but holds no table.
\<close>

definition rte_hash_free :: "hash_env \<Rightarrow> nat option \<Rightarrow> hash_registry \<Rightarrow> hash_registry option" where
  "rte_hash_free env table st =
     (case table of None \<Rightarrow> Some st
      | Some h \<Rightarrow>
        (case find (\<lambda>te. snd te = h) (ht_list st) of None \<Rightarrow> Some st
         | Some te \<Rightarrow> do {
             let st = st\<lparr>ht_list := remove1 te (ht_list st)\<rparr>;
             obj \<leftarrow> ht_tables st h;
             let st = (if hw_trans_mem_support (ho_table obj) then st\<lparr>ht_live := ht_live st - set_option (ho_caches obj)\<rparr> else st);
             rings \<leftarrow> rte_ring_free (he_ring env) (Some (ho_ring obj)) (ht_rings st);
             Some (st\<lparr>ht_rings := rings, ht_live := ht_live st - {ho_key_store obj, ho_buckets obj, h, fst te},
               ht_tables := (ht_tables st)(h := None)\<rparr>) }))"

section \<open>Reset\<close>

text \<open>
  \<open>memset (h->key_store, 0, n)\<close> with a 32-bit \<open>n\<close>: the first \<open>n\<close> bytes of the array of key slots,
  each with 8 bytes of data, 8 of padding and the key.
\<close>

definition memset_slot :: "nat \<Rightarrow> rte_hash_key \<Rightarrow> rte_hash_key" where
  "memset_slot n k = \<lparr>pdata = (if 8 \<le> n then 0 else push_bit (8 * n) (drop_bit (8 * n) (pdata k))),
     key_bytes = replicate (min (n - 16) (length (key_bytes k))) 0 @ drop (n - 16) (key_bytes k)\<rparr>"

definition memset_store :: "nat \<Rightarrow> nat \<Rightarrow> rte_hash_key list \<Rightarrow> rte_hash_key list" where
  "memset_store n slot_size ks = map (\<lambda>j. memset_slot (n - j * slot_size) (ks ! j)) [0..<length ks]"

partial_function (option) drain :: "u64 rte_ring \<Rightarrow> u64 rte_ring option" where
  "drain r = do {
     (ret, ptr, r) \<leftarrow> rte_ring_dequeue r 0;
     if ret = 0 then drain r else Some r }"

definition rte_hash_reset :: "rte_hash option \<Rightarrow> rte_hash option option" where
  "rte_hash_reset table =
     (case table of None \<Rightarrow> Some None
      | Some h \<Rightarrow> do {
          let h = h\<lparr>buckets := map (\<lambda>_. zero_bucket) (buckets h)\<rparr>;
          let h = h\<lparr>key_store := memset_store (unat (key_entry_size h * (h_entries h + 1))) (unat (key_entry_size h)) (key_store h)\<rparr>;
          r \<leftarrow> drain (free_slots h);
          r \<leftarrow> populate r [1..<Suc (unat (h_entries h))];
          let h = h\<lparr>free_slots := r\<rparr>;
          if hw_trans_mem_support h then
            (if length (local_free_slots h) < RTE_MAX_LCORE then None
             else Some (Some (h\<lparr>local_free_slots := map (\<lambda>c. c\<lparr>cache_len := 0\<rparr>) (local_free_slots h)\<rparr>)))
          else Some (Some h) })"

section \<open>The comparison functions\<close>

lemma take_split:
  "length k = length k' \<Longrightarrow> take (a + b) k = take (a + b) k' \<longleftrightarrow> take a k = take a k' \<and> take b (drop a k) = take b (drop a k')"
  by (simp add: take_add)

lemma cmp_eq_take:
  assumes "length k = length k'"
  shows "rte_hash_k16_cmp_eq k k' n = 0 \<longleftrightarrow> take 16 k = take 16 k'" "rte_hash_k32_cmp_eq k k' n = 0 \<longleftrightarrow> take 32 k = take 32 k'"
    "rte_hash_k48_cmp_eq k k' n = 0 \<longleftrightarrow> take 48 k = take 48 k'" "rte_hash_k64_cmp_eq k k' n = 0 \<longleftrightarrow> take 64 k = take 64 k'"
    "rte_hash_k80_cmp_eq k k' n = 0 \<longleftrightarrow> take 80 k = take 80 k'" "rte_hash_k96_cmp_eq k k' n = 0 \<longleftrightarrow> take 96 k = take 96 k'"
    "rte_hash_k112_cmp_eq k k' n = 0 \<longleftrightarrow> take 112 k = take 112 k'" "rte_hash_k128_cmp_eq k k' n = 0 \<longleftrightarrow> take 128 k = take 128 k'"
proof -
  have or: "c_or a b = 0 \<longleftrightarrow> a = 0 \<and> b = 0" for a b by (simp add: c_or_def)
  have k16: "rte_hash_k16_cmp_eq k k' n = 0 \<longleftrightarrow> take 16 k = take 16 k'" if "length k = length k'" for k k' n
    by (simp add: rte_hash_k16_cmp_eq_def)
  have k32: "rte_hash_k32_cmp_eq k k' n = 0 \<longleftrightarrow> take 32 k = take 32 k'" if "length k = length k'" for k k' n
    using take_split [OF that, of 16 16] that by (simp add: rte_hash_k32_cmp_eq_def or k16)
  show "rte_hash_k48_cmp_eq k k' n = 0 \<longleftrightarrow> take 48 k = take 48 k'"
    using take_split [OF assms, of 32 16] take_split [OF assms, of 16 16] assms by (simp add: rte_hash_k48_cmp_eq_def or k16)
  have k64: "rte_hash_k64_cmp_eq k k' n = 0 \<longleftrightarrow> take 64 k = take 64 k'" if "length k = length k'" for k k' n
    using take_split [OF that, of 32 32] that by (simp add: rte_hash_k64_cmp_eq_def or k32)
  show "rte_hash_k80_cmp_eq k k' n = 0 \<longleftrightarrow> take 80 k = take 80 k'"
    using take_split [OF assms, of 64 16] assms by (simp add: rte_hash_k80_cmp_eq_def or k64 k16)
  show "rte_hash_k96_cmp_eq k k' n = 0 \<longleftrightarrow> take 96 k = take 96 k'"
    using take_split [OF assms, of 64 32] assms by (simp add: rte_hash_k96_cmp_eq_def or k64 k32)
  show "rte_hash_k112_cmp_eq k k' n = 0 \<longleftrightarrow> take 112 k = take 112 k'"
    using take_split [OF assms, of 96 16] take_split [OF assms, of 64 32] assms by (simp add: rte_hash_k112_cmp_eq_def or k64 k32 k16)
  show "rte_hash_k128_cmp_eq k k' n = 0 \<longleftrightarrow> take 128 k = take 128 k'"
    using take_split [OF assms, of 64 64] assms by (simp add: rte_hash_k128_cmp_eq_def or k64)
  show "rte_hash_k16_cmp_eq k k' n = 0 \<longleftrightarrow> take 16 k = take 16 k'" "rte_hash_k32_cmp_eq k k' n = 0 \<longleftrightarrow> take 32 k = take 32 k'"
    "rte_hash_k64_cmp_eq k k' n = 0 \<longleftrightarrow> take 64 k = take 64 k'" using assms by (rule k16 k32 k64)+
qed

lemma select_cmp_eq_iff:
  assumes "length k = unat n" and "length k' = unat n"
  shows "select_cmp_eq n k k' n = 0 \<longleftrightarrow> k = k'"
proof -
  have len: "length k = length k'" using assms by simp
  show ?thesis
    unfolding select_cmp_eq_def by (split if_split)+ (use assms in \<open>simp add: cmp_eq_take [OF len] memcmp_eq_def\<close>)
qed

section \<open>An empty table\<close>

lemma populate_ok:
  assumes "ring_ok r" and "length (ring_contents r) + length is \<le> ring_capacity r"
  shows "\<exists>r'. populate r is = Some r' \<and> ring_ok r' \<and> ring_contents r' = ring_contents r @ map of_nat is \<and>
    ring_capacity r' = ring_capacity r \<and> prod_watermark r' = prod_watermark r"
  using assms
proof (induction "is" arbitrary: r)
  case (Cons i "is")
  obtain ret r1 where r1: "rte_ring_sp_enqueue r (of_nat i) = Some (ret, r1)" "ring_ok r1"
      "ring_contents r1 = ring_contents r @ [of_nat i]" "ring_capacity r1 = ring_capacity r"
    using ring_queue_sp_sc.enq_room [of r "of_nat i"] Cons.prems by auto
  then show ?case using Cons.IH [of r1] Cons.prems single_watermark(1) [OF Cons.prems(1) r1(1)] by simp
qed simp

lemma drain_ok:
  assumes "ring_ok r"
  shows "\<exists>r'. drain r = Some r' \<and> ring_ok r' \<and> ring_contents r' = [] \<and> ring_capacity r' = ring_capacity r \<and>
    prod_watermark r' = prod_watermark r"
  using assms
proof (induction "ring_contents r" arbitrary: r)
  case Nil
  then show ?case using ring_queue.deq_none [of r 0] by (subst drain.simps) simp
next
  case (Cons x xs)
  obtain r1 where r1: "rte_ring_dequeue r 0 = Some (0, x, r1)" "ring_ok r1" "ring_contents r1 = xs" "ring_capacity r1 = ring_capacity r"
    using ring_queue.deq_some [OF Cons.prems Cons.hyps(2) [symmetric], of 0] by auto
  have "rte_ring_sc_dequeue r 0 = Some (0, x, r1)" using r1(1) by (simp add: ring_single_dequeue [OF Cons.prems])
  then have "prod_watermark r1 = prod_watermark r" by (rule single_watermark(2) [OF Cons.prems])
  then show ?case using Cons.hyps(1) [of r1] r1 by (subst drain.simps) simp
qed

lemma zero_bucket_cells: "bucket_cells zero_bucket = {#}" "bucket_wf zero_bucket" "signatures zero_bucket = replicate 4 NULL_SIGNATURE"
  "flag zero_bucket = replicate 4 0"
  by (simp_all add: bucket_cells_def zero_bucket_def upt_4 cell_def bucket_wf_def)

lemma contents_zero: "contents (replicate n zero_bucket) = {#}"
  by (induction n) (simp_all add: contents_def zero_bucket_cells)

lemma empty_table_ok:
  assumes bs: "buckets h = replicate (2 ^ k) zero_bucket" and mask: "bucket_bitmask h = mask k" "k < 32"
    and "cmp_ok h" and "sizes_ok h" and "pool_ok h" and "unat (h_entries h) \<le> ring_capacity (free_slots h)"
    and "pool_free h = mset [1..<Suc (unat (h_entries h))]"
  shows "hash_ok h" "hmap h = Map.empty"
proof -
  have c: "contents (buckets h) = {#}" by (simp add: bs contents_zero)
  have "layout (mask k) (buckets h)"
    using mask(2) by (auto simp: layout_def bs zero_bucket_cells sig_at_def)
  then have tab: "table_ok h"
    using assms by (auto simp: table_ok_def entries_ok_def used_def used_slots_def contents_zero flags_def zero_bucket_cells)
  then show "hash_ok h" using assms by (simp add: hash_ok_def used_slots_def contents_zero del: mset_upt upt_Suc)
  have "entries_ok h" using tab by (simp add: table_ok_def)
  then show "hmap h = Map.empty" by (intro ext) (simp add: hmap_None used_def c)
qed

text \<open>The free slots of a table whose ring has just been populated and whose caches are empty.\<close>

lemma caches_empty: "\<forall>c \<in> set cs. unat (cache_len c) = 0 \<Longrightarrow> (\<Sum>c\<leftarrow>cs. cache_free c) = {#}"
  by (induction cs) (simp_all add: cache_free_def)

lemma populated_pool:
  assumes "ring_contents (free_slots h) = map of_nat [1..<Suc (unat (h_entries h))]"
    and "\<forall>c \<in> set (local_free_slots h). unat (cache_len c) = 0"
  shows "pool_free h = mset [1..<Suc (unat (h_entries h))]"
proof -
  have "unat (of_nat n :: u64) = n" if "n \<in> set [1..<Suc (unat (h_entries h))]" for n
  proof (rule unat_of_nat_less)
    have "unat (h_entries h) < 2 ^ LENGTH(32)" by (rule unsigned_less)
    moreover have "n \<le> unat (h_entries h)" using that by auto
    ultimately show "n < 2 ^ LENGTH(64)" by simp
  qed
  then have "map (unat \<circ> (of_nat :: nat \<Rightarrow> u64)) [1..<Suc (unat (h_entries h))] = [1..<Suc (unat (h_entries h))]"
    by (intro map_idI) (simp del: set_upt upt_Suc)
  then show ?thesis by (simp add: pool_free_def assms(1) caches_empty [OF assms(2)] del: mset_upt upt_Suc)
qed

section \<open>Reset empties the table\<close>

lemma rte_hash_reset_empties:
  assumes ok: "hash_ok h" and caches: "hw_trans_mem_support h \<longrightarrow> length (local_free_slots h) = RTE_MAX_LCORE"
  shows "\<exists>h'. rte_hash_reset (Some h) = Some (Some h') \<and> hash_ok h' \<and> hmap h' = Map.empty \<and> same_config h h'"
proof -
  have tab: "table_ok h" and pool: "pool_ok h" and cap: "unat (h_entries h) \<le> ring_capacity (free_slots h)"
    using ok by (simp_all add: hash_ok_def)
  obtain k where k: "bucket_bitmask h = mask k" "k < 32" "length (buckets h) = 2 ^ k" using tab by (auto simp: table_ok_def layout_def)
  obtain r1 where r1: "drain (free_slots h) = Some r1" "ring_ok r1" "ring_contents r1 = []"
      "ring_capacity r1 = ring_capacity (free_slots h)" "prod_watermark r1 = prod_watermark (free_slots h)"
    using drain_ok [of "free_slots h"] pool by (auto simp: pool_ok_def)
  obtain r2 where r2: "populate r1 [1..<Suc (unat (h_entries h))] = Some r2" "ring_ok r2"
      "ring_contents r2 = map of_nat [1..<Suc (unat (h_entries h))]"
      "ring_capacity r2 = ring_capacity (free_slots h)" "prod_watermark r2 = prod_watermark (free_slots h)"
    using populate_ok [OF r1(2), of "[1..<Suc (unat (h_entries h))]"] r1 cap by (auto simp del: upt_Suc)
  define cs where "cs = (if hw_trans_mem_support h then map (\<lambda>c. c\<lparr>cache_len := 0\<rparr>) (local_free_slots h) else local_free_slots h)"
  define ks where "ks = memset_store (unat (key_entry_size h * (h_entries h + 1))) (unat (key_entry_size h)) (key_store h)"
  define h' where "h' = h\<lparr>free_slots := r2, local_free_slots := cs, key_store := ks, buckets := replicate (2 ^ k) zero_bucket\<rparr>"
  have run: "rte_hash_reset (Some h) = Some (Some h')"
    using r1(1) r2(1) caches by (simp add: rte_hash_reset_def h'_def cs_def ks_def map_replicate_const k(3) del: upt_Suc)
  have cs: "\<forall>c \<in> set cs. cache_ok c" "hw_trans_mem_support h \<longrightarrow> (\<forall>c \<in> set cs. unat (cache_len c) = 0)" "length cs = length (local_free_slots h)"
    using pool by (auto simp: cs_def pool_ok_def cache_ok_def)
  have ks: "length ks = length (key_store h)" by (simp add: ks_def memset_store_def)
  have "pool_ok h'" using r2 cs(1) pool by (simp add: h'_def pool_ok_def)
  moreover have "pool_free h' = mset [1..<Suc (unat (h_entries h'))]"
  proof (cases "hw_trans_mem_support h")
    case True
    then show ?thesis by (intro populated_pool) (use r2(3) cs(2) in \<open>simp_all add: h'_def del: upt_Suc\<close>)
  next
    case False
    have "pool_free h' = pool_free (h'\<lparr>local_free_slots := []\<rparr>)" using False by (simp add: pool_free_def h'_def)
    also have "\<dots> = mset [1..<Suc (unat (h_entries h'))]"
      using populated_pool [of "h'\<lparr>local_free_slots := []\<rparr>"] r2(3) by (simp add: h'_def del: upt_Suc mset_upt)
    finally show ?thesis .
  qed
  moreover have "cmp_ok h'" "sizes_ok h'"
    using tab ks k(3) by (simp_all add: table_ok_def cmp_ok_def sizes_ok_def h'_def)
  ultimately have "hash_ok h'" "hmap h' = Map.empty"
    using empty_table_ok [of h' k] k r2(4) cap by (simp_all add: h'_def)
  moreover have "same_config h h'" using same_configI [of "replicate (2 ^ k) zero_bucket" h ks cs r2] k(3) ks cs(3) by (simp add: h'_def)
  ultimately show ?thesis using run by blast
qed

section \<open>Creation\<close>

text \<open>The list of tables is consistent, and what the allocator is relied on for: new blocks are not in use.\<close>

definition hash_registry_ok :: "hash_registry \<Rightarrow> bool" where
  "hash_registry_ok st \<longleftrightarrow> ring_registry_ok (ht_rings st) \<and> (\<forall>te \<in> set (ht_list st). ht_tables st (snd te) \<noteq> None)"

definition hash_env_ok :: "hash_env \<Rightarrow> hash_registry \<Rightarrow> bool" where
  "hash_env_ok env st \<longleftrightarrow> ring_env_ok (he_ring env) (ht_rings st) \<and>
     (\<forall>i n a. he_zmalloc env i n = Some a \<longrightarrow> a \<notin> ht_live st \<and> (\<forall>j m. he_zmalloc env j m = Some a \<longrightarrow> i = j))"

lemma hash_search_ok:
  assumes "\<forall>te \<in> set tes. mem (snd te) \<noteq> None"
  shows "hash_search mem name tes =
    Some (map_option snd (find (\<lambda>te. strncmp_eq name (h_name (ho_table (the (mem (snd te))))) RTE_HASH_NAMESIZE) tes))"
  using assms by (induction mem name tes rule: hash_search.induct) auto

text \<open>The listed table at \<open>a\<close> has the name (the comparison of \<open>strncmp\<close> over the stored names).\<close>

definition named :: "hash_registry \<Rightarrow> string \<Rightarrow> nat \<Rightarrow> bool" where
  "named st name a \<longleftrightarrow> (\<exists>te obj. (te, a) \<in> set (ht_list st) \<and> ht_tables st a = Some obj \<and>
     strncmp_eq name (h_name (ho_table obj)) RTE_HASH_NAMESIZE)"

lemma find_existing_cases:
  assumes "hash_registry_ok st"
  shows "rte_hash_find_existing name st = Some (None, set_errno ENOENT st) \<and> (\<forall>b. \<not> named st name b) \<or>
    (\<exists>a. rte_hash_find_existing name st = Some (Some a, st) \<and> named st name a)"
proof -
  let ?P = "\<lambda>te. strncmp_eq name (h_name (ho_table (the (ht_tables st (snd te))))) RTE_HASH_NAMESIZE"
  have mem: "\<forall>te \<in> set (ht_list st). ht_tables st (snd te) \<noteq> None" using assms by (simp add: hash_registry_ok_def)
  have run: "rte_hash_find_existing name st =
      Some (case find ?P (ht_list st) of None \<Rightarrow> (None, set_errno ENOENT st) | Some te \<Rightarrow> (Some (snd te), st))"
    by (simp add: rte_hash_find_existing_def hash_search_ok [OF mem] split: option.split)
  show ?thesis
  proof (cases "find ?P (ht_list st)")
    case None
    then have "\<forall>te \<in> set (ht_list st). \<not> ?P te" unfolding find_None_iff by blast
    then have "\<not> named st name b" for b by (force simp: named_def)
    then show ?thesis using run None by simp
  next
    case (Some te)
    then have te: "te \<in> set (ht_list st)" "?P te" by (auto simp: find_Some_iff)
    from mem te(1) obtain obj where "ht_tables st (snd te) = Some obj" by blast
    with te have "named st name (snd te)"
      unfolding named_def by (intro exI [of _ "fst te"] exI [of _ obj]) simp
    then show ?thesis using run Some by auto
  qed
qed

lemma set_errno_simps [simp]:
  "ht_tables (set_errno e st) = ht_tables st" "ht_list (set_errno e st) = ht_list st" "ht_live (set_errno e st) = ht_live st"
  "ht_rings (set_errno e st) = (ht_rings st)\<lparr>rte_errno := e\<rparr>"
  by (simp_all add: set_errno_def)

lemma params_sizes:
  assumes "p_entries p \<le> RTE_HASH_ENTRIES_MAX" and "4 \<le> p_entries p"
  shows "unat (p_entries p) < unat (num_key_slots p tm)" "num_key_slots p tm \<noteq> 0" "unat (num_key_slots p tm) \<le> 2 ^ 31"
    "unat (p_entries p + 1) = Suc (unat (p_entries p))"
proof -
  have e: "unat (p_entries p) \<le> 2 ^ 30" using assms(1) by (simp add: word_le_nat_alt)
  then have "unat (num_key_slots p tm) = unat (p_entries p) + (if tm then 1017 else 1)"
    by (simp add: num_key_slots_def unat_word_ariths(1))
  then show "unat (p_entries p) < unat (num_key_slots p tm)" "unat (num_key_slots p tm) \<le> 2 ^ 31" using e by simp_all
  then show "num_key_slots p tm \<noteq> 0" by (auto simp: unat_gt_0)
  show "unat (p_entries p + 1) = Suc (unat (p_entries p))" using e by (simp add: unat_word_ariths(1))
qed

lemma unat_2_power:
  assumes "k < 32"
  shows "unat (2 ^ k :: u32) = 2 ^ k"
proof -
  have "(2 :: nat) ^ k < 2 ^ LENGTH(32)" by (rule power_strict_increasing) (use assms in simp_all)
  from unat_of_nat_less [OF this] show ?thesis by simp
qed

text \<open>The table that creation builds around a new ring is an empty map.\<close>

lemma new_table_ok:
  assumes n: "p_entries p \<le> RTE_HASH_ENTRIES_MAX" "4 \<le> p_entries p"
    and key: "Suc (unat (p_entries p)) * (16 + unat (p_key_len p)) \<le> 2 ^ 32"
    and r: "ring_ok r" "ring_contents r = map of_nat [1..<Suc (unat (p_entries p))]" "unat (p_entries p) \<le> ring_capacity r"
      "ring_capacity r < unat (prod_watermark r)"
  shows "hash_ok (new_table env p tm caches r)" "hmap (new_table env p tm caches r) = Map.empty"
proof -
  let ?h = "new_table env p tm caches r"
  have e: "unat (p_entries p) \<le> 2 ^ 30" "4 \<le> unat (p_entries p)" using n by (simp_all add: word_le_nat_alt)
  then have "p_entries p \<noteq> 0" by auto
  then obtain k where k: "k \<le> 31" "rte_align32pow2 (p_entries p) = 2 ^ k" "unat (p_entries p) \<le> 2 ^ k" "2 ^ k < 2 * unat (p_entries p)"
    using align32pow2 [of "p_entries p"] e by auto
  have "2 \<le> k"
  proof (rule ccontr)
    assume "\<not> 2 \<le> k"
    then have "(2 :: nat) ^ k \<le> 2 ^ 1" by (intro power_increasing) auto
    then show False using k(3) e(2) by simp
  qed
  then obtain j where j: "k = j + 2" by (metis add.commute le_Suc_ex)
  have "unat (2 ^ k :: u32) = 2 ^ k" using k(1) by (simp add: unat_2_power)
  then have "unat (2 ^ k div 4 :: u32) = 2 ^ j" by (simp add: unat_div j power_add)
  then have bn: "rte_align32pow2 (p_entries p) div of_nat 4 = 2 ^ j" "unat (2 ^ j :: u32) = 2 ^ j"
    using k(1) j unfolding k(2) by (simp_all add: word_unat_eq_iff unat_2_power)
  have bs: "buckets ?h = replicate (2 ^ j) zero_bucket" "bucket_bitmask ?h = mask j" "num_buckets ?h = 2 ^ j"
    using bn by (simp_all add: new_table_def Let_def mask_eq_decr_exp)
  have es: "unat (16 + p_key_len p) = 16 + unat (p_key_len p)"
  proof -
    have "16 + unat (p_key_len p) < Suc (unat (p_entries p)) * (16 + unat (p_key_len p))" using e(2) by simp
    also note key
    finally show ?thesis by (simp add: unat_word_ariths(1))
  qed
  have "(2 :: nat) ^ k < 2 ^ 31" using k(4) e(1) by simp
  then have "k < 31" by (rule power_less_imp_less_exp [rotated]) simp
  then have "(2 :: nat) ^ j \<le> 2 ^ 28" using j by (intro power_increasing) auto
  then have sizes: "sizes_ok ?h"
    using key es params_sizes(1) [OF n, of tm] n bs bn(2)
    by (simp add: sizes_ok_def) (simp add: new_table_def Let_def word_less_nat_alt)
  have cmp: "cmp_ok ?h" unfolding cmp_ok_def new_table_def Let_def by (simp add: select_cmp_eq_iff)
  have caches: "\<forall>c \<in> set (local_free_slots ?h). c = zero_cache" by (auto simp: new_table_def Let_def split: option.splits)
  have zc: "cache_ok zero_cache" "unat (cache_len zero_cache) = 0" by (simp_all add: zero_cache_def cache_ok_def)
  have free: "free_slots ?h = r" "h_entries ?h = p_entries p" by (simp_all add: new_table_def Let_def)
  have pool: "pool_ok ?h" using r caches zc by (auto simp: pool_ok_def free)
  have all: "pool_free ?h = mset [1..<Suc (unat (h_entries ?h))]"
    by (rule populated_pool) (use r(2) caches zc free in \<open>auto simp del: upt_Suc\<close>)
  show "hash_ok ?h" "hmap ?h = Map.empty"
    using empty_table_ok [OF bs(1,2) _ cmp sizes pool _ all] j k(1) r(3) free by simp_all
qed

text \<open>The sizes of the blocks of a new table.\<close>

definition buckets_size :: "rte_hash_parameters \<Rightarrow> u64" where
  "buckets_size p = ucast (rte_align32pow2 (p_entries p) div of_nat RTE_HASH_BUCKET_ENTRIES) * sizeof_rte_hash_bucket"

definition key_store_size :: "rte_hash_parameters \<Rightarrow> u64" where
  "key_store_size p = ucast (sizeof_rte_hash_key + p_key_len p) * ucast (num_key_slots p (p_extra_flag p AND 1 \<noteq> 0))"

definition params_ok :: "rte_hash_parameters \<Rightarrow> bool" where
  "params_ok p \<longleftrightarrow> \<not> (RTE_HASH_ENTRIES_MAX < p_entries p \<or> p_entries p < of_nat RTE_HASH_BUCKET_ENTRIES \<or> p_key_len p = 0)"

lemma hash_env_fresh:
  assumes "hash_env_ok env st"
  shows "he_zmalloc env i n = Some a \<Longrightarrow> a \<notin> ht_live st"
    "he_zmalloc env i n = Some a \<Longrightarrow> he_zmalloc env j m = Some b \<Longrightarrow> i \<noteq> j \<Longrightarrow> a \<noteq> b"
  using assms unfolding hash_env_ok_def by blast+

lemma create_no_memory:
  assumes env: "hash_env_ok env st" and ok: "params_ok p"
    and new: "rte_hash_find_existing (p_name p) st = Some (None, st1)" "ht_live st1 = ht_live st"
    and none: "he_zmalloc env 0 sizeof_rte_tailq_entry = None \<or> he_zmalloc env 1 sizeof_rte_hash = None \<or>
      he_zmalloc env 2 (buckets_size p) = None \<or> he_zmalloc env 3 (key_store_size p) = None"
  shows "rte_hash_create env (Some p) st = Some (None, st1)"
proof -
  have live: "st1\<lparr>ht_live := ht_live st\<rparr> = st1" using new(2) by (metis hash_registry.surjective hash_registry.update_convs(3))
  have ok': "\<not> RTE_HASH_ENTRIES_MAX < p_entries p" "\<not> p_entries p < 4" "p_key_len p \<noteq> 0" using ok by (simp_all add: params_ok_def)
  note def = rte_hash_create_def new ok' Let_def hash_zmalloc_def create_err_def live buckets_size_def key_store_size_def
  note fresh = hash_env_fresh [OF env]
  show ?thesis
  proof (cases "he_zmalloc env 0 sizeof_rte_tailq_entry")
    case te: (Some te)
    show ?thesis
    proof (cases "he_zmalloc env 1 sizeof_rte_hash")
      case h: (Some h)
      show ?thesis
      proof (cases "he_zmalloc env 2 (buckets_size p)")
        case b: (Some b)
        then have "he_zmalloc env 3 (key_store_size p) = None" using none te h by simp
        then show ?thesis using te h b fresh(1) [OF te] fresh(1) [OF h] fresh(1) [OF b] fresh(2) [OF te h] fresh(2) [OF te b] fresh(2) [OF h b]
          by (simp add: def)
      qed (use te h fresh(1) [OF te] fresh(1) [OF h] fresh(2) [OF te h] in \<open>simp add: def\<close>)
    qed (use te fresh(1) [OF te] in \<open>simp add: def\<close>)
  qed (simp add: def)
qed

lemma create_with_memory:
  assumes env: "hash_env_ok env st" and ok: "params_ok p"
    and new: "rte_hash_find_existing (p_name p) st = Some (None, st1)" "ht_live st1 = ht_live st"
    and mem: "he_zmalloc env 0 sizeof_rte_tailq_entry = Some te" "he_zmalloc env 1 sizeof_rte_hash = Some h"
      "he_zmalloc env 2 (buckets_size p) = Some b" "he_zmalloc env 3 (key_store_size p) = Some k"
  defines "tm \<equiv> p_extra_flag p AND 1 \<noteq> 0"
  defines "created \<equiv> rte_ring_create (he_ring env) (take (RTE_RING_NAMESIZE - 1) (''HT_'' @ p_name p))
    (rte_align32pow2 (num_key_slots p tm)) (p_socket_id p) 0 (ht_rings st1)"
  defines "caches \<equiv> (if tm then he_zmalloc env 4 (sizeof_lcore_cache * of_nat RTE_MAX_LCORE) else None)"
  shows "created = (None, rings) \<Longrightarrow> rte_hash_create env (Some p) st = Some (None, st1\<lparr>ht_rings := rings\<rparr>)"
    "created = (Some raddr, rings) \<Longrightarrow> reg_rings rings raddr = Some r \<Longrightarrow> populate r [1..<Suc (unat (p_entries p))] = Some r' \<Longrightarrow>
      \<exists>st'. rte_hash_create env (Some p) st = Some (Some h, st') \<and> ht_list st' = ht_list st1 @ [(te, h)] \<and>
        ht_tables st' = (ht_tables st1)(h \<mapsto> \<lparr>ho_table = new_table env p tm caches r', ho_buckets = b,
          ho_key_store = k, ho_caches = caches, ho_ring = raddr\<rparr>)"
proof -
  have "ht_live st - {te, h, b, k} = ht_live st1" using hash_env_fresh(1) [OF env] mem new(2) by blast
  then have keep: "st1\<lparr>ht_rings := rings, ht_live := ht_live st - {te, h, b, k}\<rparr> = st1\<lparr>ht_rings := rings\<rparr>"
    by (cases st1) simp
  have ok': "\<not> RTE_HASH_ENTRIES_MAX < p_entries p" "\<not> p_entries p < 4" "p_key_len p \<noteq> 0" using ok by (simp_all add: params_ok_def)
  note def = rte_hash_create_def new ok' Let_def hash_zmalloc_def create_err_def
  {
    assume "created = (None, rings)"
    then show "rte_hash_create env (Some p) st = Some (None, st1\<lparr>ht_rings := rings\<rparr>)"
      using mem keep by (simp add: def buckets_size_def key_store_size_def created_def tm_def)
  next
    assume "created = (Some raddr, rings)" "reg_rings rings raddr = Some r" "populate r [1..<Suc (unat (p_entries p))] = Some r'"
    then show "\<exists>st'. rte_hash_create env (Some p) st = Some (Some h, st') \<and> ht_list st' = ht_list st1 @ [(te, h)] \<and>
        ht_tables st' = (ht_tables st1)(h \<mapsto> \<lparr>ho_table = new_table env p tm caches r', ho_buckets = b,
          ho_key_store = k, ho_caches = caches, ho_ring = raddr\<rparr>)"
      using mem by (simp add: def buckets_size_def key_store_size_def created_def caches_def tm_def del: upt_Suc split: option.split)
  }
qed

text \<open>With memory for all of it, only the ring can still fail.\<close>

lemma create_ring:
  assumes env: "hash_env_ok env st" and ok: "params_ok p"
    and new: "rte_hash_find_existing (p_name p) st = Some (None, st1)" "ht_live st1 = ht_live st"
    and regs: "ring_registry_ok (ht_rings st1)" "ring_env_ok (he_ring env) (ht_rings st1)"
    and key: "Suc (unat (p_entries p)) * (16 + unat (p_key_len p)) \<le> 2 ^ 32"
    and all: "he_zmalloc env 0 sizeof_rte_tailq_entry = Some te" "he_zmalloc env 1 sizeof_rte_hash = Some h"
      "he_zmalloc env 2 (buckets_size p) = Some b" "he_zmalloc env 3 (key_store_size p) = Some ka"
  defines "tm \<equiv> p_extra_flag p AND 1 \<noteq> 0"
  shows "(\<exists>rings. rte_hash_create env (Some p) st = Some (None, st1\<lparr>ht_rings := rings\<rparr>)) \<or>
    (\<exists>st' r caches ra. rte_hash_create env (Some p) st = Some (Some h, st') \<and> ht_list st' = ht_list st1 @ [(te, h)] \<and>
      ht_tables st' = (ht_tables st1)(h \<mapsto> \<lparr>ho_table = new_table env p tm caches r, ho_buckets = b,
        ho_key_store = ka, ho_caches = caches, ho_ring = ra\<rparr>) \<and>
      hash_ok (new_table env p tm caches r) \<and> hmap (new_table env p tm caches r) = Map.empty)"
proof -
  have n: "p_entries p \<le> RTE_HASH_ENTRIES_MAX" "4 \<le> p_entries p" using ok by (simp_all add: params_ok_def not_less)
  note mem = create_with_memory [OF env ok new all, folded tm_def]
  obtain k where k: "k \<le> 31" "rte_align32pow2 (num_key_slots p tm) = 2 ^ k" "unat (num_key_slots p tm) \<le> 2 ^ k"
    using align32pow2 [OF params_sizes(2,3) [OF n]] by blast
  define count where "count = rte_align32pow2 (num_key_slots p tm)"
  have count: "count \<noteq> 0" "unat (p_entries p) \<le> unat count - 1" "unat count - 1 < unat count"
    using k params_sizes(1) [OF n, of tm] unat_2_power [of k] by (auto simp: count_def word_unat_eq_iff)
  define created where "created = rte_ring_create (he_ring env) (take (RTE_RING_NAMESIZE - 1) (''HT_'' @ p_name p))
    count (p_socket_id p) 0 (ht_rings st1)"
  obtain raddr rings where c: "created = (raddr, rings)" by fastforce
  show ?thesis
  proof (cases raddr)
    case None
    then show ?thesis using mem(1) [of rings] c by (auto simp: created_def count_def)
  next
    case (Some ra)
    obtain r where r: "reg_rings rings = (reg_rings (ht_rings st1))(ra \<mapsto> r)" "ring_ok r" "ring_contents r = []"
        "ring_capacity r = unat count - 1" "unat (prod_watermark r) = unat count"
      using rte_ring_create_cases [OF regs count(1), of "take (RTE_RING_NAMESIZE - 1) (''HT_'' @ p_name p)" "p_socket_id p" 0] c Some
      by (auto simp: created_def)
    obtain r' where r': "populate r [1..<Suc (unat (p_entries p))] = Some r'" "ring_ok r'"
        "ring_contents r' = map of_nat [1..<Suc (unat (p_entries p))]" "ring_capacity r' = unat count - 1" "prod_watermark r' = prod_watermark r"
      using populate_ok [OF r(2), of "[1..<Suc (unat (p_entries p))]"] r count(2) by (auto simp del: upt_Suc)
    define caches where "caches = (if tm then he_zmalloc env 4 (sizeof_lcore_cache * of_nat RTE_MAX_LCORE) else None)"
    have tab: "hash_ok (new_table env p tm caches r')" "hmap (new_table env p tm caches r') = Map.empty"
      using new_table_ok [OF n key r'(2,3), of env tm caches] r' r(5) count by simp_all
    obtain st' where st': "rte_hash_create env (Some p) st = Some (Some h, st')" "ht_list st' = ht_list st1 @ [(te, h)]"
        "ht_tables st' = (ht_tables st1)(h \<mapsto> \<lparr>ho_table = new_table env p tm caches r', ho_buckets = b,
          ho_key_store = ka, ho_caches = caches, ho_ring = ra\<rparr>)"
      using mem(2) [of ra rings r r'] c Some r(1) r'(1) by (auto simp: created_def count_def caches_def)
    then show ?thesis using tab by (intro disjI2) blast
  qed
qed

section \<open>A table for examples\<close>

definition demo_hash :: "u8 list \<Rightarrow> u32 \<Rightarrow> u32 \<Rightarrow> u32" where
  "demo_hash key n init = foldl (\<lambda>a b. a * 31 + ucast b) init (take (unat n) key)"

definition demo_hash_env :: hash_env where
  "demo_hash_env = \<lparr> he_zmalloc = (\<lambda>i n. Some (200 + i)), he_default_hash = demo_hash,
     he_ring = \<lparr> env_zmalloc = Some 7, env_reserve = (\<lambda>name size socket.
       if size \<le> 256 then Inr (3, 100, replicate 16 0) else Inl ENOMEM), env_free = (\<lambda>mz. 0) \<rparr> \<rparr>"

definition demo_registry :: hash_registry where
  "demo_registry = \<lparr> ht_tables = (\<lambda>_. None), ht_list = [], ht_live = {}, ht_rings = empty_registry \<rparr>"

definition demo_params :: rte_hash_parameters where
  "demo_params = \<lparr> p_name = ''flows'', p_entries = 8, p_key_len = 4, p_hash_func = None, p_hash_func_init_val = 0,
     p_socket_id = 0, p_extra_flag = 0 \<rparr>"

lemma demo_hash_ok: "hash_registry_ok demo_registry" "hash_env_ok demo_hash_env demo_registry"
  by (auto simp: hash_registry_ok_def demo_registry_def hash_env_ok_def demo_hash_env_def ring_registry_ok_def ring_env_ok_def
      empty_registry_def split: if_splits)

definition demo_free_slots :: "u64 rte_ring" where
  "demo_free_slots = the (populate (rte_ring_init ''HT_flows'' 16 0 (replicate 16 0)) [1..<Suc (unat (8 :: u32))])"

definition demo_table :: rte_hash where
  "demo_table = new_table demo_hash_env demo_params False None demo_free_slots"

lemma demo_table_ok: "hash_ok demo_table" "core_ok demo_table l" "h_key_len demo_table = 4" "hmap demo_table = Map.empty"
proof -
  have init: "ring_ok (rte_ring_init ''HT_flows'' 16 0 (replicate 16 0 :: u64 list))"
    "ring_contents (rte_ring_init ''HT_flows'' 16 0 (replicate 16 0 :: u64 list)) = []"
    by (rule rte_ring_init_ok; simp add: POWEROF2_def)+
  have size: "ring_capacity (rte_ring_init ''HT_flows'' 16 0 (replicate 16 0 :: u64 list)) = 15"
    "prod_watermark (rte_ring_init ''HT_flows'' 16 0 (replicate 16 0 :: u64 list)) = 16"
    by (simp_all add: ring_capacity_def rte_ring_init_def)
  have r: "ring_ok demo_free_slots" "ring_contents demo_free_slots = map of_nat [1..<Suc (unat (p_entries demo_params))]"
    "unat (p_entries demo_params) \<le> ring_capacity demo_free_slots" "ring_capacity demo_free_slots < unat (prod_watermark demo_free_slots)"
    using populate_ok [OF init(1), of "[1..<Suc (unat (8 :: u32))]"] init(2) size
    by (auto simp: demo_free_slots_def demo_params_def simp del: upt_Suc unat_numeral)
  show "hash_ok demo_table" "hmap demo_table = Map.empty"
    using new_table_ok [OF _ _ _ r, of demo_hash_env False None] by (simp_all add: demo_params_def demo_table_def)
  show "core_ok demo_table l" "h_key_len demo_table = 4" by (simp_all add: demo_table_def core_ok_def new_table_def Let_def demo_params_def)
qed

section \<open>Properties\<close>

text \<open>
  C30. Creation keeps the list of tables as it is, and no block of memory, when it fails, which it
  does with good parameters only if no table has the name; it hands out a listed table of that
  name when there is one, and changes nothing; or there is none, and it appends a new table with
  the name (cut to 31 characters) and the given parameters, which satisfies the invariant, is
  an empty map, and has caches for every core unless there is no memory for them. The key store,
  one slot more than entries of 16 bytes and the key, is at most 4 GiB.
\<close>

theorem rte_hash_create_ok:
  assumes st: "hash_registry_ok st" and env: "hash_env_ok env st"
    and key: "Suc (unat (p_entries p)) * (16 + unat (p_key_len p)) \<le> 2 ^ 32"
  shows "case rte_hash_create env (Some p) st of None \<Rightarrow> False
    | Some (None, st') \<Rightarrow> ht_tables st' = ht_tables st \<and> ht_list st' = ht_list st \<and> ht_live st' = ht_live st \<and>
        (params_ok p \<longrightarrow> (\<forall>b. \<not> named st (p_name p) b))
    | Some (Some a, st') \<Rightarrow> (st' = st \<and> named st (p_name p) a) \<or>
        (\<forall>b. \<not> named st (p_name p) b) \<and>
        (\<exists>obj te. ht_tables st' = (ht_tables st)(a \<mapsto> obj) \<and> ht_list st' = ht_list st @ [(te, a)] \<and> a \<notin> ht_live st \<and>
          h_name (ho_table obj) = take (RTE_HASH_NAMESIZE - 1) (p_name p) \<and>
          h_entries (ho_table obj) = p_entries p \<and> h_key_len (ho_table obj) = p_key_len p \<and>
          hash_ok (ho_table obj) \<and> hmap (ho_table obj) = Map.empty \<and>
          (hw_trans_mem_support (ho_table obj) \<and> ho_caches obj = None \<or> (\<forall>l < RTE_MAX_LCORE. core_ok (ho_table obj) l)))"
proof -
  define tm where "tm = (p_extra_flag p AND 1 \<noteq> 0)"
  define st1 where "st1 = set_errno ENOENT st"
  show ?thesis
  proof (cases "params_ok p")
    case False
    then show ?thesis by (auto simp: rte_hash_create_def params_ok_def)
  next
    case ok: True
    from find_existing_cases [OF st, of "p_name p"] show ?thesis
    proof (elim disjE exE conjE)
      fix a assume "rte_hash_find_existing (p_name p) st = Some (Some a, st)" "named st (p_name p) a"
      then show ?thesis using ok by (simp add: rte_hash_create_def Let_def params_ok_def)
    next
      assume fresh: "\<forall>b. \<not> named st (p_name p) b"
      assume "rte_hash_find_existing (p_name p) st = Some (None, set_errno ENOENT st)"
      then have new: "rte_hash_find_existing (p_name p) st = Some (None, st1)" "ht_live st1 = ht_live st" by (simp_all add: st1_def)
      consider (none) "he_zmalloc env 0 sizeof_rte_tailq_entry = None \<or> he_zmalloc env 1 sizeof_rte_hash = None \<or>
          he_zmalloc env 2 (buckets_size p) = None \<or> he_zmalloc env 3 (key_store_size p) = None"
        | (all) te h b ka where "he_zmalloc env 0 sizeof_rte_tailq_entry = Some te" "he_zmalloc env 1 sizeof_rte_hash = Some h"
          "he_zmalloc env 2 (buckets_size p) = Some b" "he_zmalloc env 3 (key_store_size p) = Some ka" by fastforce
      then show ?thesis
      proof cases
        case none
        then show ?thesis using create_no_memory [OF env ok new] fresh by (simp add: st1_def)
      next
        case all
        have regs: "ring_registry_ok (ht_rings st1)" "ring_env_ok (he_ring env) (ht_rings st1)"
          using st env by (simp_all add: hash_registry_ok_def hash_env_ok_def ring_registry_ok_def ring_env_ok_def st1_def)
        have h: "h \<notin> ht_live st" by (rule hash_env_fresh(1) [OF env all(2)])
        from create_ring [OF env ok new regs key all, folded tm_def] show ?thesis
        proof (elim disjE exE conjE)
          fix st' r caches ra
          define t where "t = new_table env p tm caches r"
          have t: "h_name t = take (RTE_HASH_NAMESIZE - 1) (p_name p)" "h_entries t = p_entries p" "h_key_len t = p_key_len p" "hw_trans_mem_support t = tm"
            "caches \<noteq> None \<Longrightarrow> length (local_free_slots t) = RTE_MAX_LCORE" by (auto simp: t_def new_table_def Let_def)
          assume "rte_hash_create env (Some p) st = Some (Some h, st')" "ht_list st' = ht_list st1 @ [(te, h)]"
            "ht_tables st' = (ht_tables st1)(h \<mapsto> \<lparr>ho_table = new_table env p tm caches r, ho_buckets = b,
              ho_key_store = ka, ho_caches = caches, ho_ring = ra\<rparr>)"
            "hash_ok (new_table env p tm caches r)" "hmap (new_table env p tm caches r) = Map.empty"
          moreover have "tm \<and> caches = None \<or> (\<forall>l < RTE_MAX_LCORE. core_ok t l)"
            by (cases caches) (use t(4,5) in \<open>auto simp: core_ok_def\<close>)
          ultimately show ?thesis using t(1-4) h fresh unfolding t_def [symmetric]
            by (simp add: st1_def) (intro disjI2 exI [of _ "\<lparr>ho_table = t, ho_buckets = b, ho_key_store = ka, ho_caches = caches, ho_ring = ra\<rparr>"], simp)
        qed (simp add: st1_def fresh)
      qed
    qed
  qed
qed

lemma rte_hash_create_ok_witness:
  "case rte_hash_create demo_hash_env (Some demo_params) demo_registry of None \<Rightarrow> False
    | Some (None, st') \<Rightarrow> ht_list st' = []
    | Some (Some a, st') \<Rightarrow> \<exists>obj. ht_tables st' a = Some obj \<and> hash_ok (ho_table obj) \<and> hmap (ho_table obj) = Map.empty"
  using rte_hash_create_ok [OF demo_hash_ok, of demo_params]
  by (auto simp: demo_params_def demo_registry_def named_def split: option.splits prod.splits)

text \<open>
  No table with 2^27 entries or more is ever created, although the documented limit
  \<open>RTE_HASH_ENTRIES_MAX\<close> is 2^30: the ring of its free slots would need a count of 2^28, and
  \<open>rte_ring_create\<close> refuses it.
\<close>

theorem rte_hash_create_too_large:
  assumes st: "hash_registry_ok st" and env: "hash_env_ok env st" and "2 ^ 27 \<le> unat (p_entries p)"
    and new: "rte_hash_find_existing (p_name p) st = Some (None, st1)"
  shows "\<exists>st'. rte_hash_create env (Some p) st = Some (None, st')"
proof (cases "params_ok p")
  case False
  then show ?thesis by (auto simp: rte_hash_create_def params_ok_def)
next
  case ok: True
  define tm where "tm = (p_extra_flag p AND 1 \<noteq> 0)"
  have n: "p_entries p \<le> RTE_HASH_ENTRIES_MAX" "4 \<le> p_entries p" using ok by (simp_all add: params_ok_def not_less)
  obtain k where k: "k \<le> 31" "rte_align32pow2 (num_key_slots p tm) = 2 ^ k" "unat (num_key_slots p tm) \<le> 2 ^ k"
    using align32pow2 [OF params_sizes(2,3) [OF n]] by blast
  have "(2 :: nat) ^ 27 < 2 ^ k" using params_sizes(1) [OF n, of tm] assms(3) k(3) by linarith
  then have "27 < k" by (rule power_less_imp_less_exp [rotated]) simp
  then have "28 \<le> k" by simp
  then have "(2 :: nat) ^ 28 \<le> 2 ^ k" by (intro power_increasing) auto
  then have "RTE_RING_SZ_MASK < (2 ^ k :: u32)" using unat_2_power [of k] k(1) by (simp add: word_less_nat_alt)
  then have bad: "rte_ring_create (he_ring env) name (rte_align32pow2 (num_key_slots p tm)) sock fl rs = (None, rs\<lparr>rte_errno := - EINVAL\<rparr>)"
    for name sock fl rs unfolding k(2) by (auto simp: rte_ring_create_def rte_ring_get_memsize_def)
  have live: "ht_live st1 = ht_live st" using find_existing_cases [OF st, of "p_name p"] new by auto
  consider (none) "he_zmalloc env 0 sizeof_rte_tailq_entry = None \<or> he_zmalloc env 1 sizeof_rte_hash = None \<or>
      he_zmalloc env 2 (buckets_size p) = None \<or> he_zmalloc env 3 (key_store_size p) = None"
    | (all) te h b ka where "he_zmalloc env 0 sizeof_rte_tailq_entry = Some te" "he_zmalloc env 1 sizeof_rte_hash = Some h"
      "he_zmalloc env 2 (buckets_size p) = Some b" "he_zmalloc env 3 (key_store_size p) = Some ka" by fastforce
  then show ?thesis
  proof cases
    case none
    then show ?thesis using create_no_memory [OF env ok new live] by blast
  next
    case all
    then show ?thesis using create_with_memory(1) [OF env ok new live all, folded tm_def, OF bad] by blast
  qed
qed

lemma rte_hash_create_too_large_witness:
  "\<exists>st'. rte_hash_create demo_hash_env (Some (demo_params\<lparr>p_entries := 0x8000000\<rparr>)) demo_registry = Some (None, st')"
  by (rule rte_hash_create_too_large [OF demo_hash_ok])
    (simp_all add: rte_hash_find_existing_def demo_registry_def)

text \<open>
  Resetting a table, whatever it holds and wherever its free slots are, empties it: the loops
  end, every slot is free again, the invariant holds and the map is empty.
\<close>

theorem rte_hash_reset_ok:
  assumes "hash_ok h" and "hw_trans_mem_support h \<longrightarrow> length (local_free_slots h) = RTE_MAX_LCORE"
  shows "\<exists>h'. rte_hash_reset (Some h) = Some (Some h') \<and> hash_ok h' \<and> hmap h' = Map.empty \<and>
    pool_free h' = mset [1..<Suc (unat (h_entries h))]"
proof -
  obtain h' where h': "rte_hash_reset (Some h) = Some (Some h')" "hash_ok h'" "hmap h' = Map.empty" "same_config h h'"
    using rte_hash_reset_empties [OF assms] by blast
  have ent: "entries_ok h'" using h'(2) by (simp add: hash_ok_def table_ok_def)
  have "used (buckets h') = {}" using h'(3) hmap_None [OF ent] by auto
  then have "used_slots (buckets h') = {#}" by (simp add: used_slots_def used_def)
  moreover have "h_entries h' = h_entries h" using h'(4) by (rule same_configD)
  ultimately show ?thesis using h' by (auto simp: hash_ok_def simp del: mset_upt upt_Suc)
qed

lemma rte_hash_reset_ok_witness:
  "\<exists>h'. rte_hash_reset (Some demo_table) = Some (Some h') \<and> hash_ok h' \<and> hmap h' = Map.empty"
  using rte_hash_reset_ok [OF demo_table_ok(1)] demo_table_ok(2) [of 0]
  by (auto simp: demo_table_def new_table_def Let_def)

text \<open>
  The comparison function that creation selects for a key length, be it \<open>memcmp\<close> or one of
  those built from 16-byte comparisons, is equality on keys of that length.
\<close>

theorem select_cmp_eq_ok:
  assumes "length k = unat n" and "length k' = unat n"
  shows "select_cmp_eq n k k' n = 0 \<longleftrightarrow> k = k'"
  by (rule select_cmp_eq_iff [OF assms])

lemma select_cmp_eq_ok_witness:
  "select_cmp_eq 48 (replicate 47 1 @ [2]) (replicate 48 1) 48 \<noteq> 0"
proof -
  have "last (replicate 47 1 @ [2]) \<noteq> last (replicate 48 (1 :: u8))" by (simp add: last_replicate)
  then have "replicate 47 1 @ [2] \<noteq> replicate 48 (1 :: u8)" by metis
  then show ?thesis using select_cmp_eq_ok [of "replicate 47 1 @ [2]" 48 "replicate 48 1"] by simp
qed

end
