(* ===== verification/Hash_Client.thy ===== *)
theory Hash_Client
  imports Hash_Create
begin

text \<open>
  The hash table as its clients see it: the interface \<open>keyed_table\<close> of a table of keys and data,
  what any sequence of insertions and deletions does to such a table, the walk over a table, and
  the properties of the operations.
\<close>

section \<open>The interface of a table of keys\<close>

datatype ('k, 'd) table_cmd = Insert 'k 'd | Delete 'k

fun run_cmds ::
  "('t \<Rightarrow> 'k \<Rightarrow> 'd \<Rightarrow> (int \<times> 't) option) \<Rightarrow> ('t \<Rightarrow> 'k \<Rightarrow> (int \<times> 't) option) \<Rightarrow> 't \<Rightarrow> ('k, 'd) table_cmd list \<Rightarrow>
    (int list \<times> 't) option" where
  "run_cmds add del t [] = Some ([], t)"
| "run_cmds add del t (c # cs) = do {
     (ret, t) \<leftarrow> (case c of Insert k d \<Rightarrow> add t k d | Delete k \<Rightarrow> del t k);
     (rets, t) \<leftarrow> run_cmds add del t cs;
     Some (ret # rets, t) }"

fun cmd_key :: "('k, 'd) table_cmd \<Rightarrow> 'k" where
  "cmd_key (Insert k d) = k"
| "cmd_key (Delete k) = k"

text \<open>What a client may conclude from the results: a failed insertion changes nothing.\<close>

fun replay :: "('k \<rightharpoonup> 'd) \<Rightarrow> ('k, 'd) table_cmd list \<Rightarrow> int list \<Rightarrow> ('k \<rightharpoonup> 'd)" where
  "replay m (Insert k d # cs) (ret # rets) = replay (if ret < 0 then m else m(k \<mapsto> d)) cs rets"
| "replay m (Delete k # cs) (ret # rets) = replay (m(k := None)) cs rets"
| "replay m cs rets = m"

locale keyed_table =
  fixes ok :: "'t \<Rightarrow> bool" and valid :: "'k \<Rightarrow> bool" and view :: "'t \<Rightarrow> 'k \<rightharpoonup> 'd"
    and add :: "'t \<Rightarrow> 'k \<Rightarrow> 'd \<Rightarrow> (int \<times> 't) option" and del :: "'t \<Rightarrow> 'k \<Rightarrow> (int \<times> 't) option"
    and get :: "'t \<Rightarrow> 'k \<Rightarrow> (int \<times> 'd option) option"
  assumes add_law: "ok t \<Longrightarrow> valid k \<Longrightarrow> \<exists>ret t'. add t k d = Some (ret, t') \<and> ok t' \<and>
      view t' = (if ret < 0 then view t else (view t)(k \<mapsto> d))"
    and del_law: "ok t \<Longrightarrow> valid k \<Longrightarrow> \<exists>ret t'. del t k = Some (ret, t') \<and> ok t' \<and>
      view t' = (view t)(k := None) \<and> (ret < 0 \<longleftrightarrow> view t k = None)"
    and get_law: "ok t \<Longrightarrow> valid k \<Longrightarrow> \<exists>ret. get t k = Some (ret, view t k) \<and> (ret < 0 \<longleftrightarrow> view t k = None)"
begin

lemma run_cmds_replay:
  assumes "ok t" and "\<forall>c \<in> set cs. valid (cmd_key c)"
  shows "\<exists>rets t'. run_cmds add del t cs = Some (rets, t') \<and> length rets = length cs \<and> ok t' \<and> view t' = replay (view t) cs rets"
  using assms
proof (induction cs arbitrary: t)
  case (Cons c cs)
  obtain ret t1 where t1: "(case c of Insert k d \<Rightarrow> add t k d | Delete k \<Rightarrow> del t k) = Some (ret, t1)" "ok t1"
      "\<And>rets. replay (view t) (c # cs) (ret # rets) = replay (view t1) cs rets"
  proof (cases c)
    case (Insert k d)
    then show ?thesis using add_law [of t k d] Cons.prems that by fastforce
  next
    case (Delete k)
    then show ?thesis using del_law [of t k] Cons.prems that by fastforce
  qed
  obtain rets t2 where "run_cmds add del t1 cs = Some (rets, t2)" "length rets = length cs" "ok t2" "view t2 = replay (view t1) cs rets"
    using Cons.IH [OF t1(2)] Cons.prems by auto
  then show ?case using t1 by simp
qed simp

lemma get_after_cmds:
  assumes "ok t" and "\<forall>c \<in> set cs. valid (cmd_key c)" and "valid k"
  shows "\<exists>rets t' ret. run_cmds add del t cs = Some (rets, t') \<and> get t' k = Some (ret, replay (view t) cs rets k) \<and>
    (ret < 0 \<longleftrightarrow> replay (view t) cs rets k = None)"
  using run_cmds_replay [OF assms(1,2)] get_law [OF _ assms(3)] by fastforce

end

section \<open>The cuckoo hash table provides it\<close>

definition hash_client_ok :: "nat \<Rightarrow> nat \<Rightarrow> rte_hash \<Rightarrow> bool" where
  "hash_client_ok l n h \<longleftrightarrow> hash_ok h \<and> core_ok h l \<and> unat (h_key_len h) = n"

definition hash_view :: "rte_hash \<Rightarrow> u8 list \<rightharpoonup> u64" where
  "hash_view h = map_option snd \<circ> hmap h"

lemma hash_add_law:
  assumes "hash_client_ok l n h" and "length key = n"
  shows "\<exists>ret h'. rte_hash_add_key_data h l key data = Some (ret, h') \<and> hash_client_ok l n h' \<and>
    hash_view h' = (if ret < 0 then hash_view h else (hash_view h)(key \<mapsto> data))"
proof -
  obtain ret h' where h': "hash_add_key_with_hash h l key (rte_hash_hash h key) data = Some (ret, h')" "hash_ok h'" "core_ok h' l"
      "same_config h h'" "add_result h l key data ret h'"
    using hash_add_key_ok [of h l key data] assms by (auto simp: hash_client_ok_def)
  have "hash_view h' = (if ret < 0 then hash_view h else (hash_view h)(key \<mapsto> data))"
    using h'(5) by (auto simp: add_result_def hash_view_def split: if_splits)
  then show ?thesis using h' assms same_configD(2) [OF h'(4)] by (auto simp: rte_hash_add_key_data_def hash_client_ok_def)
qed

text \<open>A result is negative exactly for a key that is not in the table.\<close>

lemma position_sign:
  assumes "table_ok h"
  shows "(case hmap h key of Some (idx, d) \<Rightarrow> int (unat idx) - 1 | None \<Rightarrow> - ENOENT) < 0 \<longleftrightarrow> hash_view h key = None"
proof (cases "hmap h key")
  case (Some e)
  then obtain idx d where e: "hmap h key = Some (idx, d)" by (cases e) auto
  have "0 < unat idx" using entry_slot(1) [OF assms] e assms by (simp add: hmap_iff table_ok_def)
  then have "\<not> int (unat idx) - 1 < 0" by linarith
  then show ?thesis using e by (simp add: hash_view_def)
qed (simp add: hash_view_def)

lemma hash_del_law:
  assumes "hash_client_ok l n h" and "length key = n"
  shows "\<exists>ret h'. rte_hash_del_key h l key = Some (ret, h') \<and> hash_client_ok l n h' \<and>
    hash_view h' = (hash_view h)(key := None) \<and> (ret < 0 \<longleftrightarrow> hash_view h key = None)"
proof -
  have tab: "table_ok h" using assms(1) by (simp add: hash_client_ok_def hash_ok_def)
  obtain h' where h': "rte_hash_del_key h l key =
      Some (case hmap h key of Some (idx, d) \<Rightarrow> int (unat idx) - 1 | None \<Rightarrow> - ENOENT, h')"
      "hash_ok h'" "core_ok h' l" "same_config h h'" "hmap h' = (hmap h)(key := None)"
    using hash_del_key_ok [of h l key] assms by (auto simp: hash_client_ok_def rte_hash_del_key_def)
  note sign = position_sign [OF tab, of key]
  have "hash_view h' = (hash_view h)(key := None)" by (auto simp: hash_view_def h'(5))
  then show ?thesis using sign h' assms same_configD(2) [OF h'(4)] by (auto simp: hash_client_ok_def)
qed

lemma hash_get_law:
  assumes "hash_client_ok l n h" and "length key = n"
  shows "\<exists>ret. rte_hash_lookup_data h key = Some (ret, hash_view h key) \<and> (ret < 0 \<longleftrightarrow> hash_view h key = None)"
proof -
  have tab: "table_ok h" and len: "length key = unat (h_key_len h)" using assms by (simp_all add: hash_client_ok_def hash_ok_def)
  have "rte_hash_lookup_data h key =
      Some (case hmap h key of Some (idx, d) \<Rightarrow> int (unat idx) - 1 | None \<Rightarrow> - ENOENT, hash_view h key)"
    unfolding rte_hash_lookup_data_def hash_lookup_with_hash_ok [OF tab len] by (cases "hmap h key") (auto simp: hash_view_def)
  then show ?thesis by (intro exI conjI) (assumption, rule position_sign [OF tab])
qed

interpretation hash_table: keyed_table "hash_client_ok l n" "\<lambda>key. length key = n" hash_view
    "\<lambda>h key data. rte_hash_add_key_data h l key data" "\<lambda>h key. rte_hash_del_key h l key" rte_hash_lookup_data for l n
  by unfold_locales (rule hash_add_law hash_del_law hash_get_law; assumption)+

section \<open>Walking the table\<close>

lemma unat_Suc_less:
  fixes i n :: u32
  assumes "unat i < unat n"
  shows "unat (i + 1) = Suc (unat i)"
proof -
  have "unat n < 2 ^ LENGTH(32)" by (rule unsigned_less)
  then show ?thesis using assms by (simp add: unat_word_ariths(1))
qed

text \<open>
  The loop of \<open>rte_hash_iterate\<close> over empty entries: whether it found one in use, and the value of
  \<open>*next\<close>. The call yields the result with the key and the data, and \<open>*next\<close>.
\<close>

function iterate_skip :: "rte_hash \<Rightarrow> u32 \<Rightarrow> u32 \<Rightarrow> (bool \<times> u32) option" where
  "iterate_skip h total_entries i =
     (if i < total_entries then do {
        bkt \<leftarrow> read_at (buckets h) (unat (i div of_nat RTE_HASH_BUCKET_ENTRIES));
        if signatures bkt ! unat (i mod of_nat RTE_HASH_BUCKET_ENTRIES) \<noteq> NULL_SIGNATURE then Some (True, i)
        else if i + 1 = total_entries then Some (False, i + 1)
        else iterate_skip h total_entries (i + 1) }
      else None)"
  by pat_completeness auto
termination
proof (relation "measure (\<lambda>(h, total_entries, i). unat total_entries - unat i)")
  fix h total_entries i bkt
  assume "i < (total_entries :: u32)" and "i + 1 \<noteq> total_entries"
  then have "unat i < unat total_entries" by (simp add: word_less_nat_alt)
  moreover from this have "unat (i + 1) = Suc (unat i)" by (rule unat_Suc_less)
  ultimately show "((h, total_entries, i + 1), (h, total_entries, i)) \<in> measure (\<lambda>(h, total_entries, i). unat total_entries - unat i)"
    by simp
qed simp

declare iterate_skip.simps [simp del]

definition rte_hash_iterate :: "rte_hash \<Rightarrow> u32 \<Rightarrow> (int \<times> (u8 list \<times> u64) option \<times> u32) option" where
  "rte_hash_iterate h i =
     (let total_entries = num_buckets h * of_nat RTE_HASH_BUCKET_ENTRIES in
      if total_entries \<le> i then Some (- ENOENT, None, i)
      else do {
        (in_use, i) \<leftarrow> iterate_skip h total_entries i;
        if \<not> in_use then Some (- ENOENT, None, i)
        else do {
          bkt \<leftarrow> read_at (buckets h) (unat (i div of_nat RTE_HASH_BUCKET_ENTRIES));
          let idx = key_idx bkt ! unat (i mod of_nat RTE_HASH_BUCKET_ENTRIES);
          k \<leftarrow> key_slot h idx;
          Some (position idx, Some (key_bytes (key_store h ! k), pdata (key_store h ! k)), i + 1) } })"

text \<open>The walk of a client: from \<open>*next\<close> on until the result is negative.\<close>

partial_function (option) iterate_all :: "rte_hash \<Rightarrow> u32 \<Rightarrow> (int \<times> u8 list \<times> u64) list option" where
  "iterate_all h i = do {
     (ret, kd, i) \<leftarrow> rte_hash_iterate h i;
     case kd of None \<Rightarrow> Some []
     | Some x \<Rightarrow> do { rest \<leftarrow> iterate_all h i; Some ((ret, x) # rest) } }"

definition live_from :: "rte_hash \<Rightarrow> nat \<Rightarrow> nat list" where
  "live_from h n = filter (\<lambda>m. sig_at (buckets h) (m div 4) (m mod 4) \<noteq> NULL_SIGNATURE) [n..<4 * length (buckets h)]"

definition entry_at :: "rte_hash \<Rightarrow> nat \<Rightarrow> u32" where
  "entry_at h m = idx_at (buckets h) (m div 4) (m mod 4)"

lemma live_from_rec:
  "live_from h n = (if n < 4 * length (buckets h)
     then (if sig_at (buckets h) (n div 4) (n mod 4) \<noteq> NULL_SIGNATURE then n # live_from h (Suc n) else live_from h (Suc n)) else [])"
  by (simp add: live_from_def upt_conv_Cons)

lemma iterate_skip_live:
  assumes tot: "unat n = 4 * length (buckets h)" and i: "unat i < unat n"
  shows "iterate_skip h n i = Some (case live_from h (unat i) of [] \<Rightarrow> (False, n) | m # _ \<Rightarrow> (True, of_nat m))"
  using i
proof (induction "unat n - unat i" arbitrary: i rule: less_induct)
  case less
  have lt: "i < n" using less.prems by (simp add: word_less_nat_alt)
  have suc: "unat (i + 1) = Suc (unat i)" by (rule unat_Suc_less [OF less.prems])
  have dm: "unat (i div 4) = unat i div 4" "unat (i mod 4) = unat i mod 4" by (simp_all add: unat_div unat_mod)
  have b: "unat i div 4 < length (buckets h)" using less.prems tot by simp
  show ?case
  proof (cases "sig_at (buckets h) (unat i div 4) (unat i mod 4) = NULL_SIGNATURE")
    case False
    then show ?thesis using lt b less.prems tot by (subst iterate_skip.simps) (simp add: dm live_from_rec [of h "unat i"] sig_at_def)
  next
    case True
    then have live: "live_from h (unat i) = live_from h (unat (i + 1))" using less.prems tot by (simp add: live_from_rec [of h "unat i"] suc)
    show ?thesis
    proof (cases "i + 1 = n")
      case last: True
      then have "live_from h (unat (i + 1)) = []" using tot by (simp add: live_from_rec)
      then show ?thesis using True last lt b live by (subst iterate_skip.simps) (simp add: dm sig_at_def)
    next
      case False
      then have "unat (i + 1) < unat n" using suc less.prems by (metis Suc_lessI word_unat_eq_iff)
      then show ?thesis using less.hyps [of "i + 1"] False True lt b suc live
        by (subst iterate_skip.simps) (simp add: dm sig_at_def)
    qed
  qed
qed

lemma live_from_Cons:
  "live_from h n = m # ms \<Longrightarrow> n \<le> m \<and> m < 4 * length (buckets h) \<and> live_from h (Suc m) = ms \<and>
    sig_at (buckets h) (m div 4) (m mod 4) \<noteq> NULL_SIGNATURE"
proof (induction "4 * length (buckets h) - n" arbitrary: n rule: less_induct)
  case less
  show ?case
  proof (cases "n < 4 * length (buckets h)")
    case True
    then have "4 * length (buckets h) - Suc n < 4 * length (buckets h) - n" by simp
    from less.hyps [OF this] show ?thesis using True less.prems live_from_rec [of h n]
      by (cases "sig_at (buckets h) (n div 4) (n mod 4) = NULL_SIGNATURE") auto
  next
    case False
    then show ?thesis using less.prems by (simp add: live_from_rec [of h n])
  qed
qed

definition walk_entry :: "rte_hash \<Rightarrow> u32 \<Rightarrow> int \<times> u8 list \<times> u64" where
  "walk_entry h idx = (int (unat idx) - 1, stored_key h idx, pdata (key_store h ! unat idx))"

lemma total_entries:
  assumes "table_ok h"
  shows "unat (num_buckets h * 4) = 4 * length (buckets h)" "4 * length (buckets h) \<le> 2 ^ 30"
  using assms by (simp_all add: table_ok_def sizes_ok_def unat_word_ariths(2))

lemma rte_hash_iterate_live:
  assumes ok: "table_ok h" and i: "unat i \<le> 4 * length (buckets h)"
  shows "case live_from h (unat i) of
      [] \<Rightarrow> \<exists>i'. rte_hash_iterate h i = Some (- ENOENT, None, i')
    | m # _ \<Rightarrow> \<exists>i'. rte_hash_iterate h i = Some (int (unat (entry_at h m)) - 1, Some (snd (walk_entry h (entry_at h m))), i') \<and>
        unat i' = Suc m"
proof (cases "unat i < 4 * length (buckets h)")
  case False
  then have "num_buckets h * 4 \<le> i" using total_entries(1) [OF ok] by (simp add: word_le_nat_alt)
  then show ?thesis using False by (simp add: live_from_rec rte_hash_iterate_def)
next
  case True
  note tot = total_entries [OF ok]
  have nle: "\<not> num_buckets h * 4 \<le> i" using True tot(1) by (simp add: word_le_nat_alt)
  have skip: "iterate_skip h (num_buckets h * 4) i = Some (case live_from h (unat i) of [] \<Rightarrow> (False, num_buckets h * 4) | m # _ \<Rightarrow> (True, of_nat m))"
    by (rule iterate_skip_live) (use tot(1) True in simp_all)
  show ?thesis
  proof (cases "live_from h (unat i)")
    case Nil
    then show ?thesis using nle skip by (simp add: rte_hash_iterate_def Let_def)
  next
    case (Cons m ms)
    note live = live_from_Cons [OF Cons]
    have m: "unat (of_nat m :: u32) = m" by (rule unat_of_nat_less) (use live tot(2) in simp)
    have dm: "unat (of_nat m div 4 :: u32) = m div 4" "unat (of_nat m mod 4 :: u32) = m mod 4" by (simp_all add: unat_div unat_mod m)
    have b: "m div 4 < length (buckets h)" by (rule less_mult_imp_div_less) (use live in simp)
    have mem: "entry_at h m \<in> used (buckets h)" unfolding entry_at_def by (rule entry_used) (use live b in simp_all)
    note slot = entry_slot [OF ok mem]
    have "m < 2 ^ 30" using live tot(2) by linarith
    then have "unat (of_nat m + 1 :: u32) = Suc m" using m by (simp add: unat_word_ariths(1))
    then show ?thesis using Cons nle skip slot(3,4,5) b
      by (simp add: rte_hash_iterate_def Let_def dm walk_entry_def stored_key_def) (simp add: entry_at_def idx_at_def)
  qed
qed

lemma iterate_all_live:
  assumes ok: "table_ok h"
  shows "unat i \<le> 4 * length (buckets h) \<Longrightarrow> iterate_all h i = Some (map (walk_entry h \<circ> entry_at h) (live_from h (unat i)))"
proof (induction "live_from h (unat i)" arbitrary: i)
  case Nil
  then show ?case using rte_hash_iterate_live [OF ok Nil(2)] by (subst iterate_all.simps) (auto simp flip: Nil(1))
next
  case (Cons m ms)
  note live = live_from_Cons [OF Cons.hyps(2) [symmetric]]
  obtain i' where i': "rte_hash_iterate h i = Some (int (unat (entry_at h m)) - 1, Some (snd (walk_entry h (entry_at h m))), i')"
      "unat i' = Suc m"
    using rte_hash_iterate_live [OF ok Cons.prems] by (auto simp flip: Cons.hyps(2))
  have "iterate_all h i' = Some (map (walk_entry h \<circ> entry_at h) ms)"
    using Cons.hyps(1) [of i'] live i'(2) by simp
  then show ?case using i'(1) by (subst iterate_all.simps) (simp add: walk_entry_def flip: Cons.hyps(2))
qed

text \<open>The entries in use in the order of the walk are those of the buckets.\<close>

lemma upt_buckets: "[0..<4 * n] = concat (map (\<lambda>b. map (\<lambda>i. 4 * b + i) [0..<4]) [0..<n])"
proof (induction n)
  case (Suc n)
  have "[0..<4 * Suc n] = [0..<4 * n] @ [4 * n..<4 * n + 4]" using upt_add_eq_append [of 0 "4 * n" 4] by (simp add: ac_simps)
  also have "[4 * n..<4 * n + 4] = map (\<lambda>i. 4 * n + i) [0..<4]" by (simp add: upt_4) (simp add: upt_rec)
  finally show ?case using Suc.IH by simp
qed simp

lemma live_entries: "map (entry_at h) (live_from h 0) = concat (map bucket_idxs (buckets h))"
proof -
  let ?bs = "buckets h"
  have "map (entry_at h) (filter (\<lambda>m. sig_at ?bs (m div 4) (m mod 4) \<noteq> NULL_SIGNATURE) (map (\<lambda>i. 4 * b + i) [0..<4])) =
      bucket_idxs (?bs ! b)" for b
  proof -
    have "(4 * b + i) div 4 = b" "(4 * b + i) mod 4 = i" if "i < 4" for i using that by simp_all
    then show ?thesis
      by (auto simp: bucket_idxs_def filter_map comp_def entry_at_def sig_at_def idx_at_def intro!: map_cong filter_cong)
  qed
  then have "map (entry_at h) (live_from h 0) = concat (map (\<lambda>b. bucket_idxs (?bs ! b)) [0..<length ?bs])"
    by (simp add: live_from_def upt_buckets filter_concat map_concat comp_def)
  also have "map (\<lambda>b. bucket_idxs (?bs ! b)) [0..<length ?bs] = map bucket_idxs ?bs"
    by (rule nth_equalityI) simp_all
  finally show ?thesis .
qed

lemma live_distinct:
  assumes "hash_ok h"
  shows "distinct (concat (map bucket_idxs (buckets h)))"
proof -
  have "mset (bucket_idxs bkt) = image_mset fst (bucket_cells bkt)" for bkt
    unfolding bucket_idxs_def bucket_cells_def upt_4 by (simp add: cell_def)
  then have "mset (concat (map bucket_idxs bs)) = image_mset fst (contents bs)" for bs
    unfolding contents_def by (induction bs) simp_all
  then have "mset (map unat (concat (map bucket_idxs (buckets h)))) = used_slots (buckets h)"
    unfolding mset_map by (simp add: used_slots_def image_mset.compositionality comp_def case_prod_unfold)
  then have "pool_free h + mset (map unat (concat (map bucket_idxs (buckets h)))) = mset [1..<Suc (unat (h_entries h))]"
    using assms by (simp add: hash_ok_def del: mset_upt upt_Suc mset_map)
  then obtain ys where "mset (ys @ map unat (concat (map bucket_idxs (buckets h)))) = mset [1..<Suc (unat (h_entries h))]"
    using ex_mset [of "pool_free h"] by (metis mset_append)
  then have "distinct (ys @ map unat (concat (map bucket_idxs (buckets h))))"
    using mset_eq_imp_distinct_iff [of _ "[1..<Suc (unat (h_entries h))]"] distinct_upt by blast
  then show ?thesis by (simp add: distinct_map)
qed

text \<open>A core that has no slot within reach gets none.\<close>

lemma get_slot_none:
  assumes ok: "pool_ok h" and core: "core_ok h l" and none: "no_slot h l"
  shows "\<exists>h'. get_slot h l = Some (Inl (- ENOSPC), h') \<and> moved h h' l"
proof (cases "hw_trans_mem_support h")
  case False
  have "moved h h l" using ok core by (simp add: moved_def with_pool_id)
  then show ?thesis using ring_queue_sp_sc.deq_none [of "free_slots h" 0] ok none False by (simp add: get_slot_def pool_ok_def no_slot_def)
next
  case True
  define c where "c = local_free_slots h ! l"
  have l: "l < length (local_free_slots h)" and c: "cache_ok c" "cache_len c = 0"
    using True ok core none by (auto simp: pool_ok_def core_ok_def c_def no_slot_def)
  obtain r where "rte_ring_mc_dequeue_burst (free_slots h) (cache_objs c) LCORE_CACHE_SIZE = Some (0, cache_objs c, r)"
      "ring_ok r" "ring_capacity r = ring_capacity (free_slots h)" "prod_watermark r = prod_watermark (free_slots h)"
    using mc_burst_ok [of "free_slots h" "cache_objs c"] ok c none by (auto simp: pool_ok_def cache_ok_def no_slot_def)
  then have "get_slot h l = Some (Inl (- ENOSPC), with_pool r (local_free_slots h) h)"
      and "moved h (with_pool r (local_free_slots h) h) l"
    using True l c ok core by (simp add: get_slot_def c_def with_pool_def, intro movedI, simp_all add: pool_ok_def)
  then show ?thesis by blast
qed

section \<open>A full table for examples\<close>

text \<open>One bucket, four entries, all of whose keys have the same hash.\<close>

definition full_table :: rte_hash where
  "full_table = \<lparr> h_name = ''full'', h_entries = 4, num_buckets = 1, h_key_len = 1, hash_func = (\<lambda>_ _ _. 5), hash_func_init_val = 0,
     rte_hash_cmp_eq = memcmp_eq, bucket_bitmask = 0, key_entry_size = 17, free_slots = rte_ring_init ''HT_full'' 8 0 (replicate 8 0),
     key_store = map (\<lambda>b. \<lparr>pdata = 0, key_bytes = [b]\<rparr>) [0, 1, 2, 3, 4],
     buckets = [\<lparr>signatures = replicate 4 \<lparr>sig_current = 5, sig_alt = rte_hash_secondary_hash 5\<rparr>, key_idx = [1, 2, 3, 4, 0],
       flag = replicate 4 0\<rparr>],
     hw_trans_mem_support = False, local_free_slots = [] \<rparr>"

lemma full_table_contents:
  "contents (buckets full_table) = {#(1, {#5, rte_hash_secondary_hash 5#}), (2, {#5, rte_hash_secondary_hash 5#}),
     (3, {#5, rte_hash_secondary_hash 5#}), (4, {#5, rte_hash_secondary_hash 5#})#}"
  by (simp add: contents_def full_table_def bucket_cells_def upt_4 cell_def NULL_SIGNATURE_def)

lemma full_table_ok: "hash_ok full_table" "core_ok full_table l" "full (buckets full_table) 0" "no_slot full_table l"
  "bucket_bitmask full_table = 0"
proof -
  have ring: "ring_ok (free_slots full_table)" "ring_contents (free_slots full_table) = []"
    unfolding full_table_def rte_hash.simps by (rule rte_ring_init_ok; simp add: POWEROF2_def)+
  have cap: "ring_capacity (free_slots full_table) = 7" "prod_watermark (free_slots full_table) = 8"
    by (simp_all add: ring_capacity_def rte_ring_init_def full_table_def)
  show fl: "full (buckets full_table) 0"
    by (simp add: full_def full_table_def sig_at_def NULL_SIGNATURE_def)
  have "layout 0 (buckets full_table)"
    by (auto simp: layout_def full_table_def bucket_wf_def intro!: exI [of _ 0])
  moreover have "cmp_ok full_table" by (simp add: cmp_ok_def full_table_def memcmp_eq_def)
  moreover have "sizes_ok full_table" by (simp add: sizes_ok_def full_table_def)
  moreover have "entries_ok full_table"
    unfolding entries_ok_def full_table_contents used_def
    by (simp add: key_hashes_def rte_hash_hash_def stored_key_def inj_on_def full_table_def)
  moreover have "flags (buckets full_table) = [replicate 4 0]" "used_slots (buckets full_table) = {#1, 2, 3, 4#}"
    by (simp add: flags_def full_table_def, simp add: used_slots_def full_table_contents)
  moreover have "pool_free full_table = {#}" by (simp add: pool_free_def ring) (simp add: full_table_def)
  moreover have "pool_ok full_table" by (simp add: pool_ok_def ring cap) (simp add: full_table_def)
  moreover have "mset [1..<Suc 4] = {#1, 2, 3, 4 :: nat#}" by (simp add: upt_rec numeral_eq_Suc del: mset_upt)
  moreover have "unat (h_entries full_table) = 4" "bucket_bitmask full_table = 0" by (simp_all add: full_table_def)
  ultimately show "hash_ok full_table" by (simp add: hash_ok_def table_ok_def cap del: mset_upt upt_Suc)
  show "core_ok full_table l" "no_slot full_table l" "bucket_bitmask full_table = 0"
    by (simp_all add: core_ok_def no_slot_def ring) (simp_all add: full_table_def)
qed

lemma full_table_key: "hmap full_table [1] = Some (1, 0)"
proof -
  have "entries_ok full_table" using full_table_ok(1) by (simp add: hash_ok_def table_ok_def)
  from hmap_iff [OF this] show ?thesis
    by (simp add: used_def full_table_contents) (simp add: stored_key_def full_table_def)
qed

section \<open>Properties\<close>

text \<open>
  C4. Any sequence of insertions and deletions runs to its end, keeps the invariant, and leaves
  the table that the same sequence on a finite map leaves, where an insertion that reported an
  error did nothing; a lookup of any key afterwards returns the data of that map, a negative
  result exactly when the map has no such key.
\<close>

theorem hash_session_refines_map:
  assumes "hash_ok h" and "core_ok h l" and "\<forall>c \<in> set cs. length (cmd_key c) = unat (h_key_len h)"
    and "length key = unat (h_key_len h)"
  shows "\<exists>rets h' ret. run_cmds (\<lambda>h k d. rte_hash_add_key_data h l k d) (\<lambda>h k. rte_hash_del_key h l k) h cs = Some (rets, h') \<and>
    rte_hash_lookup_data h' key = Some (ret, replay (hash_view h) cs rets key) \<and>
    (ret < 0 \<longleftrightarrow> replay (hash_view h) cs rets key = None)"
  by (rule hash_table.get_after_cmds [of l "unat (h_key_len h)"]) (use assms in \<open>simp_all add: hash_client_ok_def\<close>)

lemma hash_session_refines_map_witness:
  "\<exists>rets h' ret. run_cmds (\<lambda>h k d. rte_hash_add_key_data h 0 k d) (\<lambda>h k. rte_hash_del_key h 0 k) demo_table
      [Insert [1, 2, 3, 4] 7, Delete [1, 2, 3, 4]] = Some (rets, h') \<and>
    rte_hash_lookup_data h' [1, 2, 3, 4] =
      Some (ret, replay (hash_view demo_table) [Insert [1, 2, 3, 4] 7, Delete [1, 2, 3, 4]] rets [1, 2, 3, 4])"
  using hash_session_refines_map [of demo_table 0 "[Insert [1, 2, 3, 4] 7, Delete [1, 2, 3, 4]]" "[1, 2, 3, 4]"] demo_table_ok
  by auto

text \<open>
  C13. A lookup finds a key wherever insertions and displacements have put it, in its primary or
  its secondary bucket: it returns the position and the data of the key, or \<open>-ENOENT\<close>.
\<close>

theorem rte_hash_lookup_ok:
  assumes "hash_ok h" and "length key = unat (h_key_len h)"
  shows "rte_hash_lookup_data h key =
      Some (case hmap h key of Some (idx, d) \<Rightarrow> (int (unat idx) - 1, Some d) | None \<Rightarrow> (- ENOENT, None)) \<and>
    rte_hash_lookup h key = Some (case hmap h key of Some (idx, d) \<Rightarrow> int (unat idx) - 1 | None \<Rightarrow> - ENOENT)"
proof -
  have "table_ok h" using assms(1) by (simp add: hash_ok_def)
  from hash_lookup_with_hash_ok [OF this assms(2)] show ?thesis
    by (simp add: rte_hash_lookup_data_def rte_hash_lookup_def split: option.split)
qed

lemma rte_hash_lookup_ok_witness: "rte_hash_lookup demo_table [1, 2, 3, 4] = Some (- 2)"
  using rte_hash_lookup_ok [OF demo_table_ok(1), of "[1, 2, 3, 4]"] by (simp add: demo_table_ok)

text \<open>
  C12. An insertion binds the key to the data: a key that was there keeps its position, a new key
  gets one that no other key has; nothing else changes, even when entries are pushed to other
  buckets. It fails, with \<open>-ENOSPC\<close> and the map as before, only when no slot is within reach of
  the core or when the key is new and its primary bucket is full.
\<close>

theorem rte_hash_add_key_ok:
  assumes "hash_ok h" and "core_ok h l" and "length key = unat (h_key_len h)"
  shows "\<exists>ret h'. rte_hash_add_key h l key = Some (ret, h') \<and> hash_ok h' \<and> core_ok h' l \<and>
    (if ret < 0 then ret = - ENOSPC \<and> hmap h' = hmap h \<and>
       (no_slot h l \<or> hmap h key = None \<and> full (buckets h) (unat (rte_hash_hash h key AND bucket_bitmask h)))
     else \<exists>idx. ret = int (unat idx) - 1 \<and> 0 < unat idx \<and> unat idx \<le> unat (h_entries h) \<and> hmap h' = (hmap h)(key \<mapsto> (idx, 0)) \<and>
       (case hmap h key of Some (idx0, d) \<Rightarrow> idx = idx0 | None \<Rightarrow> \<forall>k d. hmap h k \<noteq> Some (idx, d)))"
proof -
  obtain ret h' where "hash_add_key_with_hash h l key (rte_hash_hash h key) 0 = Some (ret, h')" "hash_ok h'" "core_ok h' l"
      "add_result h l key 0 ret h'" using hash_add_key_ok [OF assms, of 0] by blast
  then show ?thesis unfolding rte_hash_add_key_def add_result_def by (intro exI [of _ ret] exI [of _ h']) (simp only: simp_thms)
qed

lemma rte_hash_add_key_ok_witness:
  "\<exists>ret h'. rte_hash_add_key demo_table 0 [1, 2, 3, 4] = Some (ret, h') \<and> hash_ok h'"
  using rte_hash_add_key_ok [OF demo_table_ok(1), of 0 "[1, 2, 3, 4]"] demo_table_ok by auto

text \<open>
  C14. A deletion takes exactly this key out of the map and returns the position it had, or it
  returns \<open>-ENOENT\<close> when the key is not there; the slot of the key is free again.
\<close>

theorem rte_hash_del_key_ok:
  assumes "hash_ok h" and "core_ok h l" and "length key = unat (h_key_len h)"
  shows "\<exists>h'. rte_hash_del_key h l key =
      Some (case hmap h key of Some (idx, d) \<Rightarrow> int (unat idx) - 1 | None \<Rightarrow> - ENOENT, h') \<and>
    hash_ok h' \<and> core_ok h' l \<and> hmap h' = (hmap h)(key := None)"
  using hash_del_key_ok [OF assms] by (auto simp: rte_hash_del_key_def)

lemma rte_hash_del_key_ok_witness:
  "\<exists>h'. rte_hash_del_key demo_table 0 [1, 2, 3, 4] = Some (- 2, h') \<and> hash_ok h'"
  using rte_hash_del_key_ok [OF demo_table_ok(1), of 0 "[1, 2, 3, 4]"] demo_table_ok by auto

text \<open>
  C15. Making room in a full bucket: the recursion ends, and when it reports an entry this entry
  has a copy elsewhere, so that overwriting it loses no key; when it reports \<open>-ENOSPC\<close> the
  buckets are as before. Either way all flags are back at 0.
\<close>

theorem make_space_bucket_keeps:
  assumes "hash_ok h" and "b < length (buckets h)" and "full (buckets h) b"
  shows "\<exists>ret bs. make_space_bucket (bucket_bitmask h) (buckets h) b = Some (ret, bs) \<and> flags bs = flags (buckets h) \<and>
    (if ret < 0 then ret = - ENOSPC \<and> bs = buckets h
     else ret < 4 \<and> contents bs = contents (buckets h) + cell (sig_at bs b (nat ret)) (idx_at bs b (nat ret)))"
proof -
  have tab: "table_ok h" and lay: "layout (bucket_bitmask h) (buckets h)" using assms(1) by (simp_all add: hash_ok_def table_ok_def)
  obtain ret bs where r: "make_space_bucket (bucket_bitmask h) (buckets h) b = Some (ret, bs)" "space_made (buckets h) b ret bs"
    using make_space_bucket_ok [OF lay assms(2,3) table_flags [OF tab]] by blast
  show ?thesis
    by (rule exI [of _ ret], rule exI [of _ bs]) (use r in \<open>auto simp: space_made_def split: if_splits\<close>)
qed

lemma make_space_bucket_keeps_witness:
  "\<exists>ret bs. make_space_bucket 0 (buckets full_table) 0 = Some (ret, bs) \<and> flags bs = [[0, 0, 0, 0]]"
  using make_space_bucket_keeps [OF full_table_ok(1), of 0] full_table_ok
  by (auto simp: full_table_def flags_def numeral_eq_Suc)

text \<open>
  When no slot is within reach, an insertion fails even for a key that is in the table: its
  data is not updated and the result is \<open>-ENOSPC\<close>, because the slot for a new key is taken before
  the search.
\<close>

theorem rte_hash_add_key_full:
  assumes "hash_ok h" and "core_ok h l" and "no_slot h l" and "hmap h key = Some (idx, old)"
  shows "\<exists>h'. rte_hash_add_key_data h l key data = Some (- ENOSPC, h') \<and> hmap h' key = Some (idx, old)"
proof -
  have pool: "pool_ok h" and tab: "table_ok h" using assms(1) by (simp_all add: hash_ok_def)
  then have lay: "layout (bucket_bitmask h) (buckets h)" by (simp add: table_ok_def)
  obtain h' where "get_slot h l = Some (Inl (- ENOSPC), h')" "hmap h' = hmap h"
    using get_slot_none [OF pool assms(2,3)] movedD(5) by blast
  then show ?thesis using assms(4) layout_index [OF lay]
    by (simp add: rte_hash_add_key_data_def hash_add_key_with_hash_def Let_def)
qed

lemma rte_hash_add_key_full_witness:
  "\<exists>h'. rte_hash_add_key_data full_table 0 [1] 9 = Some (- 28, h') \<and> hmap h' [1] = Some (1, 0)"
  by (rule rte_hash_add_key_full [OF full_table_ok(1,2,4)]) (rule full_table_key)

text \<open>
  C31. Walking the table with \<open>rte_hash_iterate\<close> from 0 until it fails ends and visits every key
  exactly once, with its position and its data.
\<close>

theorem rte_hash_iterate_all:
  assumes "hash_ok h"
  shows "\<exists>xs. iterate_all h 0 = Some xs \<and> distinct (map (fst \<circ> snd) xs) \<and>
    set xs = {(int (unat idx) - 1, key, d) | idx key d. hmap h key = Some (idx, d)}"
proof -
  have tab: "table_ok h" using assms by (simp add: hash_ok_def)
  then have ent: "entries_ok h" by (simp add: table_ok_def)
  define ids where "ids = concat (map bucket_idxs (buckets h))"
  have run: "iterate_all h 0 = Some (map (walk_entry h) ids)"
    using iterate_all_live [OF tab, of 0] by (simp add: ids_def flip: live_entries)
  have used: "set ids = used (buckets h)" unfolding ids_def by (rule set_idxs)
  have "distinct (map (stored_key h) ids)"
    using live_distinct [OF assms] ent used by (simp add: distinct_map entries_ok_def flip: ids_def)
  then have "distinct (map (fst \<circ> snd) (map (walk_entry h) ids))" by (simp add: comp_def walk_entry_def)
  moreover have "set (map (walk_entry h) ids) = {(int (unat idx) - 1, key, d) | idx key d. hmap h key = Some (idx, d)}"
    by (auto simp: used walk_entry_def hmap_iff [OF ent])
  ultimately show ?thesis using run by blast
qed

lemma rte_hash_iterate_all_witness: "iterate_all demo_table 0 = Some []"
  using rte_hash_iterate_all [OF demo_table_ok(1)] by (auto simp: demo_table_ok)

end
