(* ===== verification/Hash_Bulk.thy ===== *)
theory Hash_Bulk
  imports Hash_Client Bits
begin

text \<open>
  \<open>rte_hash_lookup_bulk\<close> and \<open>rte_hash_lookup_bulk_data\<close>: the lookup of up to 64 keys in a
  software pipeline, two keys in each of its four stages, and its equivalence with the lookups of
  the single keys.
\<close>

section \<open>The stages\<close>

text \<open>
  The local state of the call. Positions are kept as the bit patterns of their \<open>int32_t\<close>; \<open>data\<close>
  is \<open>None\<close> when NULL; memory that the code leaves uninitialised is 0. Prefetches do nothing.
\<close>

record bulk_state =
  lookup_mask :: u64
  hash_vals :: "u32 list"
  bulk_positions :: "u32 list"
  extra_hits_mask :: u64
  bulk_hits :: u64
  bulk_data :: "u64 list option"

abbreviation (input) RTE_HASH_LOOKUP_BULK_MAX :: nat where "RTE_HASH_LOOKUP_BULK_MAX \<equiv> 64"

definition lookup_stage0 :: "u8 list list \<Rightarrow> bulk_state \<Rightarrow> (nat \<times> bulk_state) option" where
  "lookup_stage0 keys s =
     (let idx = (if lookup_mask s = 0 then 0 else ctzll (lookup_mask s)) in do {
        key \<leftarrow> read_at keys idx;
        Some (idx, s\<lparr>lookup_mask := lookup_mask s AND NOT (push_bit idx 1)\<rparr>) })"

text \<open>The second stage passes on the index, the two hashes and the two buckets.\<close>

type_synonym bulk_buckets = "nat \<times> u32 \<times> u32 \<times> rte_hash_bucket \<times> rte_hash_bucket"

definition lookup_stage1 :: "rte_hash \<Rightarrow> u8 list list \<Rightarrow> nat \<Rightarrow> bulk_state \<Rightarrow> (bulk_buckets \<times> bulk_state) option" where
  "lookup_stage1 h keys idx s = do {
     key \<leftarrow> read_at keys idx;
     let prim_hash = rte_hash_hash h key;
     hv \<leftarrow> write_at (hash_vals s) idx prim_hash;
     let sec_hash = rte_hash_secondary_hash prim_hash;
     primary_bkt \<leftarrow> read_at (buckets h) (unat (prim_hash AND bucket_bitmask h));
     secondary_bkt \<leftarrow> read_at (buckets h) (unat (sec_hash AND bucket_bitmask h));
     Some ((idx, prim_hash, sec_hash, primary_bkt, secondary_bkt), s\<lparr>hash_vals := hv\<rparr>) }"

text \<open>
  The entries whose current signature is the hash, as a mask with bit 4 always set. It has at
  most ten bits, so that its width does not matter.
\<close>

definition hash_matches :: "u32 \<Rightarrow> rte_hash_bucket \<Rightarrow> u64" where
  "hash_matches hash bkt =
     foldl (\<lambda>m i. m OR push_bit i (if hash = sig_current (signatures bkt ! i) then 1 else 0))
       (push_bit RTE_HASH_BUCKET_ENTRIES 1) [0..<RTE_HASH_BUCKET_ENTRIES]"

definition lookup_stage2 :: "rte_hash \<Rightarrow> bulk_buckets \<Rightarrow> bulk_state \<Rightarrow> ((nat \<times> nat) \<times> bulk_state) option" where
  "lookup_stage2 h regs s =
     (let (idx, prim_hash, sec_hash, prim_bkt, sec_bkt) = regs;
          prim_hash_matches = hash_matches prim_hash prim_bkt;
          sec_hash_matches = hash_matches sec_hash sec_bkt;
          idx1 = key_idx prim_bkt ! ctzll prim_hash_matches;
          kidx = (if idx1 = 0 then key_idx sec_bkt ! ctzll sec_hash_matches else idx1);
          total_hash_matches = prim_hash_matches OR push_bit (RTE_HASH_BUCKET_ENTRIES + 1) sec_hash_matches in do {
        k \<leftarrow> key_slot h kidx;
        pos \<leftarrow> write_at (bulk_positions s) idx (kidx - 1);
        Some ((idx, k), s\<lparr>bulk_positions := pos,
          extra_hits_mask := extra_hits_mask s OR push_bit idx (if 3 < popcountll total_hash_matches then 1 else 0)\<rparr>) })"

definition lookup_stage3 :: "rte_hash \<Rightarrow> u8 list list \<Rightarrow> nat \<times> nat \<Rightarrow> bulk_state \<Rightarrow> bulk_state option" where
  "lookup_stage3 h keys regs s =
     (let (idx, k) = regs; slot = key_store h ! k in do {
        key \<leftarrow> read_at keys idx;
        let hit = (rte_hash_cmp_eq h (key_bytes slot) key (h_key_len h) = 0);
        data \<leftarrow> (case bulk_data s of None \<Rightarrow> Some None | Some d \<Rightarrow> map_option Some (write_at d idx (pdata slot)));
        pos \<leftarrow> read_at (bulk_positions s) idx;
        let kidx = pos + 1;
        Some (s\<lparr>bulk_data := data, bulk_hits := bulk_hits s OR push_bit idx (if hit \<and> kidx \<noteq> 0 then 1 else 0)\<rparr>) })"

text \<open>Every stage runs for two keys.\<close>

definition stage0_pair :: "u8 list list \<Rightarrow> bulk_state \<Rightarrow> ((nat \<times> nat) \<times> bulk_state) option" where
  "stage0_pair keys s = do {
     (i, s) \<leftarrow> lookup_stage0 keys s;
     (j, s) \<leftarrow> lookup_stage0 keys s;
     Some ((i, j), s) }"

definition stage1_pair :: "rte_hash \<Rightarrow> u8 list list \<Rightarrow> nat \<times> nat \<Rightarrow> bulk_state \<Rightarrow> ((bulk_buckets \<times> bulk_buckets) \<times> bulk_state) option" where
  "stage1_pair h keys ij s = do {
     (a, s) \<leftarrow> lookup_stage1 h keys (fst ij) s;
     (b, s) \<leftarrow> lookup_stage1 h keys (snd ij) s;
     Some ((a, b), s) }"

definition stage2_pair :: "rte_hash \<Rightarrow> bulk_buckets \<times> bulk_buckets \<Rightarrow> bulk_state \<Rightarrow> (((nat \<times> nat) \<times> (nat \<times> nat)) \<times> bulk_state) option" where
  "stage2_pair h ab s = do {
     (a, s) \<leftarrow> lookup_stage2 h (fst ab) s;
     (b, s) \<leftarrow> lookup_stage2 h (snd ab) s;
     Some ((a, b), s) }"

definition stage3_pair :: "rte_hash \<Rightarrow> u8 list list \<Rightarrow> (nat \<times> nat) \<times> (nat \<times> nat) \<Rightarrow> bulk_state \<Rightarrow> bulk_state option" where
  "stage3_pair h keys ab s = do {
     s \<leftarrow> lookup_stage3 h keys (fst ab) s;
     lookup_stage3 h keys (snd ab) s }"

section \<open>The pipeline\<close>

partial_function (option) bulk_loop ::
  "rte_hash \<Rightarrow> u8 list list \<Rightarrow> nat \<times> nat \<Rightarrow> bulk_buckets \<times> bulk_buckets \<Rightarrow> (nat \<times> nat) \<times> (nat \<times> nat) \<Rightarrow> bulk_state \<Rightarrow>
    ((nat \<times> nat) \<times> (bulk_buckets \<times> bulk_buckets) \<times> ((nat \<times> nat) \<times> (nat \<times> nat)) \<times> bulk_state) option" where
  "bulk_loop h keys idx0 bkts1 slots2 s =
     (if lookup_mask s = 0 then Some (idx0, bkts1, slots2, s)
      else do {
        let slots3 = slots2;
        let bkts2 = bkts1;
        let idx1 = idx0;
        (idx0, s) \<leftarrow> stage0_pair keys s;
        (bkts1, s) \<leftarrow> stage1_pair h keys idx1 s;
        (slots2, s) \<leftarrow> stage2_pair h bkts2 s;
        s \<leftarrow> stage3_pair h keys slots3 s;
        bulk_loop h keys idx0 bkts1 slots2 s })"

text \<open>The loops over the bits of a mask: \<open>do { idx = __builtin_ctzl (mask); ...; mask &= ~(1llu << idx); } while (mask)\<close>.\<close>

partial_function (option) ctz_loop :: "(nat \<Rightarrow> bulk_state \<Rightarrow> bulk_state option) \<Rightarrow> u64 \<Rightarrow> bulk_state \<Rightarrow> bulk_state option" where
  "ctz_loop body m s =
     (if m = 0 then Some s
      else do {
        s \<leftarrow> body (ctzll m) s;
        ctz_loop body (m AND NOT (push_bit (ctzll m) 1)) s })"

text \<open>The single search of a key that had more than one match.\<close>

definition extra_search :: "rte_hash \<Rightarrow> u8 list list \<Rightarrow> nat \<Rightarrow> bulk_state \<Rightarrow> bulk_state option" where
  "extra_search h keys idx s = do {
     key \<leftarrow> read_at keys idx;
     hash \<leftarrow> read_at (hash_vals s) idx;
     case bulk_data s of Some data \<Rightarrow> do {
       (ret, found) \<leftarrow> rte_hash_lookup_with_hash_data h key hash;
       data \<leftarrow> (case found of None \<Rightarrow> Some data | Some d \<Rightarrow> write_at data idx d);
       Some (s\<lparr>bulk_data := Some data, bulk_hits := (if 0 \<le> ret then bulk_hits s OR push_bit idx 1 else bulk_hits s)\<rparr>) }
     | None \<Rightarrow> do {
       ret \<leftarrow> rte_hash_lookup_with_hash h key hash;
       pos \<leftarrow> write_at (bulk_positions s) idx (word_of_int ret);
       Some (s\<lparr>bulk_positions := pos, bulk_hits := (if 0 \<le> ret then bulk_hits s OR push_bit idx 1 else bulk_hits s)\<rparr>) } }"

definition miss_position :: "nat \<Rightarrow> bulk_state \<Rightarrow> bulk_state option" where
  "miss_position idx s = do {
     pos \<leftarrow> write_at (bulk_positions s) idx (word_of_int (- ENOENT));
     Some (s\<lparr>bulk_positions := pos\<rparr>) }"

text \<open>The pipeline is filled, runs while there are keys to start, and is drained.\<close>

definition bulk_pipeline :: "rte_hash \<Rightarrow> u8 list list \<Rightarrow> bulk_state \<Rightarrow> bulk_state option" where
  "bulk_pipeline h keys s = do {
     (idx1, s) \<leftarrow> stage0_pair keys s;
     (idx0, s) \<leftarrow> stage0_pair keys s;
     (bkts2, s) \<leftarrow> stage1_pair h keys idx1 s;
     let idx1 = idx0;
     (idx0, s) \<leftarrow> stage0_pair keys s;
     (bkts1, s) \<leftarrow> stage1_pair h keys idx1 s;
     (slots2, s) \<leftarrow> stage2_pair h bkts2 s;
     (idx0, bkts1, slots2, s) \<leftarrow> bulk_loop h keys idx0 bkts1 slots2 s;
     let slots3 = slots2;
     let bkts2 = bkts1;
     (bkts1, s) \<leftarrow> stage1_pair h keys idx0 s;
     (slots2, s) \<leftarrow> stage2_pair h bkts2 s;
     s \<leftarrow> stage3_pair h keys slots3 s;
     let slots3 = slots2;
     (slots2, s) \<leftarrow> stage2_pair h bkts1 s;
     s \<leftarrow> stage3_pair h keys slots3 s;
     stage3_pair h keys slots2 s }"

text \<open>A shift by 64 or more, for 0 keys or more than 64, is undefined behaviour.\<close>

definition hash_lookup_bulk :: "rte_hash \<Rightarrow> u8 list list \<Rightarrow> u32 \<Rightarrow> u32 list \<Rightarrow> u64 list option \<Rightarrow> bulk_state option" where
  "hash_lookup_bulk h keys num_keys positions data =
     (if num_keys = 0 \<or> of_nat RTE_HASH_LOOKUP_BULK_MAX < num_keys then None
      else do {
        let miss_mask = drop_bit (unat (64 - num_keys)) (- 1);
        s \<leftarrow> bulk_pipeline h keys \<lparr>lookup_mask = miss_mask, hash_vals = replicate RTE_HASH_LOOKUP_BULK_MAX 0,
          bulk_positions = positions, extra_hits_mask = 0, bulk_hits = 0, bulk_data = data\<rparr>;
        s \<leftarrow> ctz_loop (extra_search h keys) (extra_hits_mask s AND NOT (bulk_hits s)) s;
        ctz_loop miss_position (miss_mask AND NOT (bulk_hits s)) s })"

definition rte_hash_lookup_bulk :: "rte_hash \<Rightarrow> u8 list list \<Rightarrow> u32 \<Rightarrow> u32 list \<Rightarrow> (int \<times> u32 list) option" where
  "rte_hash_lookup_bulk h keys num_keys positions = do {
     s \<leftarrow> hash_lookup_bulk h keys num_keys positions None;
     Some (0, bulk_positions s) }"

definition rte_hash_lookup_bulk_data :: "rte_hash \<Rightarrow> u8 list list \<Rightarrow> u32 \<Rightarrow> u64 list option \<Rightarrow> (int \<times> u64 \<times> u64 list option) option" where
  "rte_hash_lookup_bulk_data h keys num_keys data = do {
     s \<leftarrow> hash_lookup_bulk h keys num_keys (replicate (unat num_keys) 0) data;
     Some (int (popcountll (bulk_hits s)), bulk_hits s, bulk_data s) }"

section \<open>The matches of one key\<close>

lemma bits_push_if: "n < 64 \<Longrightarrow> bits (push_bit n (if P then 1 else 0)) = (if P then {n} else {})"
  by (auto simp: bits_single) (auto simp: bits_def bit_simps)

lemma popcountll_card: "popcountll m = card (bits m)"
  unfolding popcountll_def filter_bit by simp

definition matching :: "u32 \<Rightarrow> rte_hash_bucket \<Rightarrow> nat set" where
  "matching hash bkt = {i. i < 4 \<and> hash = sig_current (signatures bkt ! i)}"

lemma set_less_4: "{i. i < 4 \<and> P i} =
    (if P 0 then {0} else {}) \<union> (if P 1 then {1} else {}) \<union> (if P 2 then {2} else {}) \<union> (if P (3 :: nat) then {3} else {})"
proof -
  have "{i. i < 4 \<and> P i} = set (filter P [0..<4])" by auto
  then show ?thesis unfolding upt_4 by auto
qed

lemma bits_matches: "bits (hash_matches hash bkt) = insert 4 (matching hash bkt)"
proof -
  have b: "bits (push_bit 0 (if P then 1 else 0)) = (if P then {0} else {})" "bits (push_bit 1 (if P then 1 else 0)) = (if P then {1} else {})"
    "bits (push_bit 2 (if P then 1 else 0)) = (if P then {2} else {})" "bits (push_bit 3 (if P then 1 else 0)) = (if P then {3} else {})" for P
    by (rule bits_push_if, simp)+
  have b4: "bits (push_bit 4 1) = {4}" by (rule bits_single) simp
  have "bits (hash_matches hash bkt) = {4} \<union> (if hash = sig_current (signatures bkt ! 0) then {0} else {}) \<union>
      (if hash = sig_current (signatures bkt ! 1) then {1} else {}) \<union> (if hash = sig_current (signatures bkt ! 2) then {2} else {}) \<union>
      (if hash = sig_current (signatures bkt ! 3) then {3} else {})"
    unfolding hash_matches_def upt_4 by (simp only: foldl.simps bits_or b b4)
  then show ?thesis unfolding matching_def set_less_4 by (simp only: Un_insert_left Un_empty_left)
qed

lemma finite_matching [simp]: "finite (matching hash bkt)"
  by (simp add: matching_def)

lemma matches_ctz:
  "ctzll (hash_matches hash bkt) = (if matching hash bkt = {} then 4 else Min (matching hash bkt))"
proof -
  have ne: "hash_matches hash bkt \<noteq> 0" using bits_matches [of hash bkt] by (metis bits_0 insert_not_empty)
  have "Min (insert 4 (matching hash bkt)) = min 4 (Min (matching hash bkt))" if "matching hash bkt \<noteq> {}"
    using that by (simp add: Min_insert)
  moreover have "Min (matching hash bkt) < 4" if "matching hash bkt \<noteq> {}"
    using Min_in [OF finite_matching that] by (simp add: matching_def)
  ultimately show ?thesis unfolding ctzll_Min [OF ne] bits_matches by fastforce
qed

lemma bits_push: "bits (push_bit 5 m) = (\<lambda>i. i + 5) ` bits m" if "\<forall>i \<in> bits m. i + 5 < 64"
proof -
  have "i \<in> bits (push_bit 5 m) \<longleftrightarrow> 5 \<le> i \<and> i < 64 \<and> i - 5 \<in> bits m" for i
    by (auto simp: bits_def bit_push_bit_iff dest: bit_less_64)
  moreover have "i \<in> (\<lambda>i. i + 5) ` bits m \<longleftrightarrow> 5 \<le> i \<and> i < 64 \<and> i - 5 \<in> bits m" for i
    using that by (force simp: image_iff)
  ultimately show ?thesis by blast
qed

lemma matches_popcount:
  "popcountll (hash_matches p bp OR push_bit 5 (hash_matches q bq)) = 2 + card (matching p bp) + card (matching q bq)"
proof -
  have small: "\<forall>i \<in> insert 4 (matching p b). i < 5" for p b by (auto simp: matching_def)
  then have "bits (push_bit 5 (hash_matches q bq)) = (\<lambda>i. i + 5) ` insert 4 (matching q bq)"
    by (subst bits_push) (force simp: bits_matches)+
  moreover have "insert 4 (matching p bp) \<inter> (\<lambda>i. i + 5) ` insert 4 (matching q bq) = {}" using small [of p bp] by fastforce
  ultimately have "popcountll (hash_matches p bp OR push_bit 5 (hash_matches q bq)) =
      card (insert 4 (matching p bp)) + card ((\<lambda>i. i + 5) ` insert 4 (matching q bq))"
    unfolding popcountll_card bits_or bits_matches by (subst card_Un_disjoint) auto
  moreover have "4 \<notin> matching p b" for p b by (simp add: matching_def)
  ultimately show ?thesis by (simp add: card_image del: image_insert)
qed

text \<open>What the third and the fourth stage find for a key.\<close>

definition prim_bkt :: "rte_hash \<Rightarrow> u8 list \<Rightarrow> rte_hash_bucket" where
  "prim_bkt h key = buckets h ! unat (rte_hash_hash h key AND bucket_bitmask h)"

definition sec_bkt :: "rte_hash \<Rightarrow> u8 list \<Rightarrow> rte_hash_bucket" where
  "sec_bkt h key = buckets h ! unat (rte_hash_secondary_hash (rte_hash_hash h key) AND bucket_bitmask h)"

definition prim_matching :: "rte_hash \<Rightarrow> u8 list \<Rightarrow> nat set" where
  "prim_matching h key = matching (rte_hash_hash h key) (prim_bkt h key)"

definition sec_matching :: "rte_hash \<Rightarrow> u8 list \<Rightarrow> nat set" where
  "sec_matching h key = matching (rte_hash_secondary_hash (rte_hash_hash h key)) (sec_bkt h key)"

definition match_idx :: "rte_hash \<Rightarrow> u8 list \<Rightarrow> u32" where
  "match_idx h key =
     (let first = (\<lambda>bkt M. key_idx bkt ! (if M = {} then 4 else Min M)); idx1 = first (prim_bkt h key) (prim_matching h key) in
      if idx1 = 0 then first (sec_bkt h key) (sec_matching h key) else idx1)"

definition match_slot :: "rte_hash \<Rightarrow> u8 list \<Rightarrow> rte_hash_key" where
  "match_slot h key = key_store h ! the (key_slot h (match_idx h key))"

definition match_hit :: "rte_hash \<Rightarrow> u8 list \<Rightarrow> bool" where
  "match_hit h key \<longleftrightarrow> rte_hash_cmp_eq h (key_bytes (match_slot h key)) key (h_key_len h) = 0 \<and> match_idx h key \<noteq> 0"

definition match_many :: "rte_hash \<Rightarrow> u8 list \<Rightarrow> bool" where
  "match_many h key \<longleftrightarrow> 1 < card (prim_matching h key) + card (sec_matching h key)"

section \<open>The pipeline treats every key\<close>

text \<open>\<open>A1\<close>, \<open>A2\<close>, \<open>A3\<close>: the keys that have passed the second, the third and the last stage.\<close>

definition bulk_ctx :: "rte_hash \<Rightarrow> u8 list list \<Rightarrow> nat \<Rightarrow> u32 list \<Rightarrow> u64 list option \<Rightarrow> bool" where
  "bulk_ctx h keys n pos0 data0 \<longleftrightarrow> 0 < n \<and> n \<le> 64 \<and> n \<le> length keys \<and> n \<le> length pos0 \<and>
     (\<forall>d. data0 = Some d \<longrightarrow> n \<le> length d) \<and> (\<forall>s. unat (s AND bucket_bitmask h) < length (buckets h)) \<and>
     (\<forall>i < n. key_slot h (match_idx h (keys ! i)) \<noteq> None)"

definition filled :: "(nat \<Rightarrow> 'a) \<Rightarrow> nat set \<Rightarrow> 'a list \<Rightarrow> 'a list" where
  "filled f A xs = map (\<lambda>i. if i \<in> A then f i else xs ! i) [0..<length xs]"

lemma filled_simps [simp]: "length (filled f A xs) = length xs" "filled f {} xs = xs"
  "i < length xs \<Longrightarrow> filled f A xs ! i = (if i \<in> A then f i else xs ! i)"
  by (simp_all add: filled_def map_nth)

lemma filled_insert: "i < length xs \<Longrightarrow> (filled f A xs)[i := f i] = filled f (insert i A) xs"
  by (rule nth_equalityI) (auto simp: nth_list_update)

definition bulk_inv ::
  "rte_hash \<Rightarrow> u8 list list \<Rightarrow> nat \<Rightarrow> u32 list \<Rightarrow> u64 list option \<Rightarrow> nat set \<Rightarrow> nat set \<Rightarrow> nat set \<Rightarrow> bulk_state \<Rightarrow> bool" where
  "bulk_inv h keys n pos0 data0 A1 A2 A3 s \<longleftrightarrow> A3 \<subseteq> A2 \<and> A2 \<subseteq> A1 \<and> A1 \<subseteq> {..<n} \<and>
     hash_vals s = filled (\<lambda>i. rte_hash_hash h (keys ! i)) A1 (replicate 64 0) \<and>
     bulk_positions s = filled (\<lambda>i. match_idx h (keys ! i) - 1) A2 pos0 \<and>
     bits (extra_hits_mask s) = {i \<in> A2. match_many h (keys ! i)} \<and>
     bits (bulk_hits s) = {i \<in> A3. match_hit h (keys ! i)} \<and>
     bulk_data s = map_option (filled (\<lambda>i. pdata (match_slot h (keys ! i))) A3) data0"

definition stage1_regs :: "rte_hash \<Rightarrow> u8 list list \<Rightarrow> nat \<Rightarrow> bulk_buckets" where
  "stage1_regs h keys i = (i, rte_hash_hash h (keys ! i), rte_hash_secondary_hash (rte_hash_hash h (keys ! i)),
     prim_bkt h (keys ! i), sec_bkt h (keys ! i))"

definition stage2_regs :: "rte_hash \<Rightarrow> u8 list list \<Rightarrow> nat \<Rightarrow> nat \<times> nat" where
  "stage2_regs h keys i = (i, the (key_slot h (match_idx h (keys ! i))))"

lemma stage1_ok:
  assumes ctx: "bulk_ctx h keys n pos0 data0" and inv: "bulk_inv h keys n pos0 data0 A1 A2 A3 s" and i: "i < n"
  shows "\<exists>s'. lookup_stage1 h keys i s = Some (stage1_regs h keys i, s') \<and> bulk_inv h keys n pos0 data0 (insert i A1) A2 A3 s' \<and>
    lookup_mask s' = lookup_mask s"
proof -
  have i64: "i < length (replicate 64 (0 :: u32))" and ik: "i < length keys" using ctx i by (simp_all add: bulk_ctx_def)
  define s' where "s' = s\<lparr>hash_vals := (hash_vals s)[i := rte_hash_hash h (keys ! i)]\<rparr>"
  have "lookup_stage1 h keys i s = Some (stage1_regs h keys i, s')"
    using ctx inv i i64 ik by (simp add: lookup_stage1_def bulk_ctx_def bulk_inv_def Let_def stage1_regs_def prim_bkt_def sec_bkt_def s'_def)
  moreover have "bulk_inv h keys n pos0 data0 (insert i A1) A2 A3 s'"
    using inv i filled_insert [OF i64, of "\<lambda>i. rte_hash_hash h (keys ! i)" A1] by (auto simp: bulk_inv_def s'_def)
  ultimately show ?thesis by (simp add: s'_def)
qed

lemma stage2_ok:
  assumes ctx: "bulk_ctx h keys n pos0 data0" and inv: "bulk_inv h keys n pos0 data0 A1 A2 A3 s" and i: "i \<in> A1"
  shows "\<exists>s'. lookup_stage2 h (stage1_regs h keys i) s = Some (stage2_regs h keys i, s') \<and>
    bulk_inv h keys n pos0 data0 A1 (insert i A2) A3 s' \<and> lookup_mask s' = lookup_mask s"
proof -
  have n: "i < n" "n \<le> 64" "i < length pos0" "i < 64" using ctx inv i by (auto simp: bulk_ctx_def bulk_inv_def)
  define s' where "s' = s\<lparr>bulk_positions := (bulk_positions s)[i := match_idx h (keys ! i) - 1],
      extra_hits_mask := extra_hits_mask s OR push_bit i (if match_many h (keys ! i) then 1 else 0)\<rparr>"
  let ?key = "keys ! i"
  let ?p = "hash_matches (rte_hash_hash h ?key) (prim_bkt h ?key)"
  let ?q = "hash_matches (rte_hash_secondary_hash (rte_hash_hash h ?key)) (sec_bkt h ?key)"
  have idx: "(if key_idx (prim_bkt h ?key) ! ctzll ?p = 0 then key_idx (sec_bkt h ?key) ! ctzll ?q else key_idx (prim_bkt h ?key) ! ctzll ?p) =
      match_idx h ?key"
    by (simp add: matches_ctz match_idx_def Let_def prim_matching_def sec_matching_def)
  have many: "3 < popcountll (?p OR push_bit 5 ?q) \<longleftrightarrow> match_many h ?key"
    unfolding matches_popcount by (simp add: match_many_def prim_matching_def sec_matching_def)
  obtain k where k: "key_slot h (match_idx h ?key) = Some k" using ctx n by (auto simp: bulk_ctx_def)
  have pos: "length (bulk_positions s) = length pos0" using inv by (simp add: bulk_inv_def)
  have "lookup_stage2 h (stage1_regs h keys i) s = Some (stage2_regs h keys i, s')"
    using n(3) k pos by (simp add: lookup_stage2_def stage1_regs_def Let_def idx many stage2_regs_def s'_def)
  moreover have "bits (extra_hits_mask s') = {j \<in> insert i A2. match_many h (keys ! j)}"
    using inv bits_push_if [OF n(4), of "match_many h (keys ! i)"] by (auto simp: s'_def bulk_inv_def bits_or)
  then have "bulk_inv h keys n pos0 data0 A1 (insert i A2) A3 s'"
    using inv i filled_insert [OF n(3), of "\<lambda>i. match_idx h (keys ! i) - 1" A2] by (auto simp: bulk_inv_def s'_def)
  ultimately show ?thesis by (simp add: s'_def)
qed

lemma stage3_ok:
  assumes ctx: "bulk_ctx h keys n pos0 data0" and inv: "bulk_inv h keys n pos0 data0 A1 A2 A3 s" and i: "i \<in> A2"
  shows "\<exists>s'. lookup_stage3 h keys (stage2_regs h keys i) s = Some s' \<and>
    bulk_inv h keys n pos0 data0 A1 A2 (insert i A3) s' \<and> lookup_mask s' = lookup_mask s"
proof -
  have n: "i < n" "n \<le> 64" "i < length pos0" "i < 64" "i < length keys" using ctx inv i by (auto simp: bulk_ctx_def bulk_inv_def)
  define s' where "s' = s\<lparr>bulk_data := map_option (filled (\<lambda>i. pdata (match_slot h (keys ! i))) (insert i A3)) data0,
      bulk_hits := bulk_hits s OR push_bit i (if match_hit h (keys ! i) then 1 else 0)\<rparr>"
  have "lookup_stage3 h keys (stage2_regs h keys i) s = Some s'"
  proof (cases data0)
    case None
    then show ?thesis using inv n i
      by (simp add: lookup_stage3_def stage2_regs_def Let_def bulk_inv_def s'_def match_hit_def match_slot_def)
  next
    case (Some d0)
    then have "i < length d0" using ctx n by (auto simp: bulk_ctx_def)
    then show ?thesis using inv n i Some filled_insert [of i d0 "\<lambda>i. pdata (match_slot h (keys ! i))" A3]
      by (simp add: lookup_stage3_def stage2_regs_def Let_def bulk_inv_def s'_def match_hit_def match_slot_def)
  qed
  moreover have "bits (bulk_hits s') = {j \<in> insert i A3. match_hit h (keys ! j)}"
    using inv bits_push_if [OF n(4), of "match_hit h (keys ! i)"] by (auto simp: s'_def bulk_inv_def bits_or)
  then have "bulk_inv h keys n pos0 data0 A1 A2 (insert i A3) s'" using inv i by (auto simp: bulk_inv_def s'_def)
  ultimately show ?thesis by (simp add: s'_def)
qed

lemma bulk_inv_mask [simp]: "bulk_inv h keys n pos0 data0 A1 A2 A3 (s\<lparr>lookup_mask := m\<rparr>) = bulk_inv h keys n pos0 data0 A1 A2 A3 s"
  by (simp add: bulk_inv_def)

lemma stage0_ok:
  assumes ctx: "bulk_ctx h keys n pos0 data0" and T: "bits (lookup_mask s) \<subseteq> {..<n}"
  shows "\<exists>i m. lookup_stage0 keys s = Some (i, s\<lparr>lookup_mask := m\<rparr>) \<and> i < n \<and> bits m = bits (lookup_mask s) - {i} \<and>
    (bits (lookup_mask s) \<noteq> {} \<longrightarrow> i \<in> bits (lookup_mask s))"
proof -
  define i where "i = (if lookup_mask s = 0 then 0 else ctzll (lookup_mask s))"
  have "i \<in> bits (lookup_mask s)" if "bits (lookup_mask s) \<noteq> {}"
    using that Min_in [OF finite_bits that] ctzll_Min [of "lookup_mask s"] by (auto simp: i_def)
  moreover have "i < n" using calculation T ctx by (cases "lookup_mask s = 0") (auto simp: i_def bulk_ctx_def)
  moreover have "bits (lookup_mask s AND NOT (push_bit i 1)) = bits (lookup_mask s) - {i}"
  proof -
    have "bits (push_bit i 1) = {i}" by (rule bits_single) (use \<open>i < n\<close> ctx in \<open>simp add: bulk_ctx_def\<close>)
    then show ?thesis by (simp only: bits_and_not)
  qed
  ultimately show ?thesis using ctx
    by (intro exI [of _ i] exI [of _ "lookup_mask s AND NOT (push_bit i 1)"]) (simp add: lookup_stage0_def bulk_ctx_def flip: i_def)
qed

lemma stage0_pair_ok:
  assumes ctx: "bulk_ctx h keys n pos0 data0" and T: "bits (lookup_mask s) \<subseteq> {..<n}"
  shows "\<exists>i j m. stage0_pair keys s = Some ((i, j), s\<lparr>lookup_mask := m\<rparr>) \<and> i < n \<and> j < n \<and> bits m = bits (lookup_mask s) - {i, j} \<and>
    (bits (lookup_mask s) \<noteq> {} \<longrightarrow> i \<in> bits (lookup_mask s))"
proof -
  obtain i m where 1: "lookup_stage0 keys s = Some (i, s\<lparr>lookup_mask := m\<rparr>)" "i < n" "bits m = bits (lookup_mask s) - {i}"
    "bits (lookup_mask s) \<noteq> {} \<longrightarrow> i \<in> bits (lookup_mask s)" using stage0_ok [OF ctx T] by blast
  have "bits (lookup_mask (s\<lparr>lookup_mask := m\<rparr>)) \<subseteq> {..<n}" using 1(3) T by auto
  from stage0_ok [OF ctx this] obtain j m' where
    2: "lookup_stage0 keys (s\<lparr>lookup_mask := m\<rparr>) = Some (j, s\<lparr>lookup_mask := m'\<rparr>)" "j < n" "bits m' = bits m - {j}" by auto
  show ?thesis
    by (rule exI [of _ i], rule exI [of _ j], rule exI [of _ m']) (use 1 2 in \<open>auto simp: stage0_pair_def\<close>)
qed

lemma stage1_pair_ok:
  assumes ctx: "bulk_ctx h keys n pos0 data0" and inv: "bulk_inv h keys n pos0 data0 A1 A2 A3 s" and "i < n" "j < n"
  shows "\<exists>s'. stage1_pair h keys (i, j) s = Some ((stage1_regs h keys i, stage1_regs h keys j), s') \<and>
    bulk_inv h keys n pos0 data0 (A1 \<union> {i, j}) A2 A3 s' \<and> lookup_mask s' = lookup_mask s"
proof -
  obtain s1 where 1: "lookup_stage1 h keys i s = Some (stage1_regs h keys i, s1)" "bulk_inv h keys n pos0 data0 (insert i A1) A2 A3 s1"
    "lookup_mask s1 = lookup_mask s" using stage1_ok [OF ctx inv assms(3)] by blast
  obtain s2 where 2: "lookup_stage1 h keys j s1 = Some (stage1_regs h keys j, s2)"
    "bulk_inv h keys n pos0 data0 (insert j (insert i A1)) A2 A3 s2" "lookup_mask s2 = lookup_mask s1"
    using stage1_ok [OF ctx 1(2) assms(4)] by blast
  have "A1 \<union> {i, j} = insert j (insert i A1)" by auto
  with 1 2 show ?thesis by (simp add: stage1_pair_def)
qed

lemma stage2_pair_ok:
  assumes ctx: "bulk_ctx h keys n pos0 data0" and inv: "bulk_inv h keys n pos0 data0 A1 A2 A3 s" and "{i, j} \<subseteq> A1"
  shows "\<exists>s'. stage2_pair h (stage1_regs h keys i, stage1_regs h keys j) s = Some ((stage2_regs h keys i, stage2_regs h keys j), s') \<and>
    bulk_inv h keys n pos0 data0 A1 (A2 \<union> {i, j}) A3 s' \<and> lookup_mask s' = lookup_mask s"
proof -
  obtain s1 where 1: "lookup_stage2 h (stage1_regs h keys i) s = Some (stage2_regs h keys i, s1)"
    "bulk_inv h keys n pos0 data0 A1 (insert i A2) A3 s1" "lookup_mask s1 = lookup_mask s" using stage2_ok [OF ctx inv] assms(3) by blast
  obtain s2 where 2: "lookup_stage2 h (stage1_regs h keys j) s1 = Some (stage2_regs h keys j, s2)"
    "bulk_inv h keys n pos0 data0 A1 (insert j (insert i A2)) A3 s2" "lookup_mask s2 = lookup_mask s1"
    using stage2_ok [OF ctx 1(2)] assms(3) by blast
  have "A2 \<union> {i, j} = insert j (insert i A2)" by auto
  with 1 2 show ?thesis by (simp add: stage2_pair_def)
qed

lemma stage3_pair_ok:
  assumes ctx: "bulk_ctx h keys n pos0 data0" and inv: "bulk_inv h keys n pos0 data0 A1 A2 A3 s" and "{i, j} \<subseteq> A2"
  shows "\<exists>s'. stage3_pair h keys (stage2_regs h keys i, stage2_regs h keys j) s = Some s' \<and>
    bulk_inv h keys n pos0 data0 A1 A2 (A3 \<union> {i, j}) s' \<and> lookup_mask s' = lookup_mask s"
proof -
  obtain s1 where 1: "lookup_stage3 h keys (stage2_regs h keys i) s = Some s1"
    "bulk_inv h keys n pos0 data0 A1 A2 (insert i A3) s1" "lookup_mask s1 = lookup_mask s" using stage3_ok [OF ctx inv] assms(3) by blast
  obtain s2 where 2: "lookup_stage3 h keys (stage2_regs h keys j) s1 = Some s2"
    "bulk_inv h keys n pos0 data0 A1 A2 (insert j (insert i A3)) s2" "lookup_mask s2 = lookup_mask s1"
    using stage3_ok [OF ctx 1(2)] assms(3) by blast
  have "A3 \<union> {i, j} = insert j (insert i A3)" by auto
  with 1 2 show ?thesis by (simp add: stage3_pair_def)
qed

text \<open>What flows through the pipeline between two turns: two keys in every stage, and the keys of the mask before it.\<close>

definition in_flight ::
  "rte_hash \<Rightarrow> u8 list list \<Rightarrow> nat \<Rightarrow> u32 list \<Rightarrow> u64 list option \<Rightarrow> nat \<times> nat \<Rightarrow> bulk_buckets \<times> bulk_buckets \<Rightarrow>
    (nat \<times> nat) \<times> (nat \<times> nat) \<Rightarrow> bulk_state \<Rightarrow> bool" where
  "in_flight h keys n pos0 data0 idx0 bkts1 slots2 s \<longleftrightarrow>
     (\<exists>a b c d e f A3. idx0 = (a, b) \<and> bkts1 = (stage1_regs h keys c, stage1_regs h keys d) \<and>
        slots2 = (stage2_regs h keys e, stage2_regs h keys f) \<and> a < n \<and> b < n \<and>
        bulk_inv h keys n pos0 data0 (A3 \<union> {e, f} \<union> {c, d}) (A3 \<union> {e, f}) A3 s \<and>
        A3 \<union> {e, f} \<union> {c, d} \<union> {a, b} \<union> bits (lookup_mask s) = {..<n})"

lemma bulk_turn:
  assumes ctx: "bulk_ctx h keys n pos0 data0" and fl: "in_flight h keys n pos0 data0 idx0 bkts1 slots2 s" and ne: "bits (lookup_mask s) \<noteq> {}"
  shows "\<exists>idx0' bkts1' slots2' s1 s2 s3 s4. stage0_pair keys s = Some (idx0', s1) \<and> stage1_pair h keys idx0 s1 = Some (bkts1', s2) \<and>
    stage2_pair h bkts1 s2 = Some (slots2', s3) \<and> stage3_pair h keys slots2 s3 = Some s4 \<and>
    in_flight h keys n pos0 data0 idx0' bkts1' slots2' s4 \<and> card (bits (lookup_mask s4)) < card (bits (lookup_mask s))"
proof -
  obtain a b c d e f A3 where x: "idx0 = (a, b)" "bkts1 = (stage1_regs h keys c, stage1_regs h keys d)"
      "slots2 = (stage2_regs h keys e, stage2_regs h keys f)" "a < n" "b < n"
      and inv: "bulk_inv h keys n pos0 data0 (A3 \<union> {e, f} \<union> {c, d}) (A3 \<union> {e, f}) A3 s"
      and all: "A3 \<union> {e, f} \<union> {c, d} \<union> {a, b} \<union> bits (lookup_mask s) = {..<n}"
    using fl unfolding in_flight_def by blast
  have "bits (lookup_mask s) \<subseteq> {..<n}" using all by blast
  from stage0_pair_ok [OF ctx this] obtain i j m where 0: "stage0_pair keys s = Some ((i, j), s\<lparr>lookup_mask := m\<rparr>)" "i < n" "j < n"
      "bits m = bits (lookup_mask s) - {i, j}" "i \<in> bits (lookup_mask s)" using ne by blast
  have "bulk_inv h keys n pos0 data0 (A3 \<union> {e, f} \<union> {c, d}) (A3 \<union> {e, f}) A3 (s\<lparr>lookup_mask := m\<rparr>)" using inv by simp
  from stage1_pair_ok [OF ctx this x(4,5)] obtain s2 where
    1: "stage1_pair h keys (a, b) (s\<lparr>lookup_mask := m\<rparr>) = Some ((stage1_regs h keys a, stage1_regs h keys b), s2)"
      "bulk_inv h keys n pos0 data0 (A3 \<union> {e, f} \<union> {c, d} \<union> {a, b}) (A3 \<union> {e, f}) A3 s2" "lookup_mask s2 = m" by auto
  obtain s3 where 2: "stage2_pair h (stage1_regs h keys c, stage1_regs h keys d) s2 = Some ((stage2_regs h keys c, stage2_regs h keys d), s3)"
      "bulk_inv h keys n pos0 data0 (A3 \<union> {e, f} \<union> {c, d} \<union> {a, b}) (A3 \<union> {e, f} \<union> {c, d}) A3 s3" "lookup_mask s3 = m"
    using stage2_pair_ok [OF ctx 1(2), of c d] 1(3) by auto
  obtain s4 where 3: "stage3_pair h keys (stage2_regs h keys e, stage2_regs h keys f) s3 = Some s4"
      "bulk_inv h keys n pos0 data0 (A3 \<union> {e, f} \<union> {c, d} \<union> {a, b}) (A3 \<union> {e, f} \<union> {c, d}) (A3 \<union> {e, f}) s4" "lookup_mask s4 = m"
    using stage3_pair_ok [OF ctx 2(2), of e f] 2(3) by auto
  have "A3 \<union> {e, f} \<union> {c, d} \<union> {a, b} \<union> {i, j} \<union> bits m = {..<n}" using all 0(2-4) by blast
  then have "in_flight h keys n pos0 data0 (i, j) (stage1_regs h keys a, stage1_regs h keys b) (stage2_regs h keys c, stage2_regs h keys d) s4"
    unfolding in_flight_def using 0(2,3) 3(2,3) by blast
  moreover have "card (bits (lookup_mask s4)) < card (bits (lookup_mask s))"
    using 0(4,5) 3(3) by (intro psubset_card_mono) auto
  ultimately show ?thesis using 0(1) 1(1) 2(1) 3(1) unfolding x by blast
qed

lemma bulk_loop_ok:
  assumes ctx: "bulk_ctx h keys n pos0 data0"
  shows "in_flight h keys n pos0 data0 idx0 bkts1 slots2 s \<Longrightarrow> \<exists>idx0' bkts1' slots2' s'.
    bulk_loop h keys idx0 bkts1 slots2 s = Some (idx0', bkts1', slots2', s') \<and> in_flight h keys n pos0 data0 idx0' bkts1' slots2' s' \<and>
    bits (lookup_mask s') = {}"
proof (induction "card (bits (lookup_mask s))" arbitrary: idx0 bkts1 slots2 s rule: less_induct)
  case less
  show ?case
  proof (cases "lookup_mask s = 0")
    case True
    then show ?thesis using less.prems by (subst bulk_loop.simps) simp
  next
    case False
    then have "bits (lookup_mask s) \<noteq> {}" by simp
    from bulk_turn [OF ctx less.prems this] obtain i b2 k2 s1 s2 s3 s4 where t: "stage0_pair keys s = Some (i, s1)"
        "stage1_pair h keys idx0 s1 = Some (b2, s2)" "stage2_pair h bkts1 s2 = Some (k2, s3)" "stage3_pair h keys slots2 s3 = Some s4"
        "in_flight h keys n pos0 data0 i b2 k2 s4" "card (bits (lookup_mask s4)) < card (bits (lookup_mask s))" by blast
    have "bulk_loop h keys idx0 bkts1 slots2 s = bulk_loop h keys i b2 k2 s4"
      using False t(1-4) by (subst bulk_loop.simps) simp
    then show ?thesis using less.hyps [OF t(6,5)] by simp
  qed
qed

text \<open>When the mask is empty, three more rounds bring every key through the last stage.\<close>

lemma bulk_drain:
  assumes ctx: "bulk_ctx h keys n pos0 data0" and fl: "in_flight h keys n pos0 data0 idx0 bkts1 slots2 s" and none: "bits (lookup_mask s) = {}"
  shows "\<exists>b1 k2 k3 s1 s2 s3 s4 s5 s6. stage1_pair h keys idx0 s = Some (b1, s1) \<and> stage2_pair h bkts1 s1 = Some (k2, s2) \<and>
    stage3_pair h keys slots2 s2 = Some s3 \<and> stage2_pair h b1 s3 = Some (k3, s4) \<and> stage3_pair h keys k2 s4 = Some s5 \<and>
    stage3_pair h keys k3 s5 = Some s6 \<and> bulk_inv h keys n pos0 data0 {..<n} {..<n} {..<n} s6"
proof -
  obtain a b c d e f A3 where x: "idx0 = (a, b)" "bkts1 = (stage1_regs h keys c, stage1_regs h keys d)"
      "slots2 = (stage2_regs h keys e, stage2_regs h keys f)" "a < n" "b < n"
      and inv: "bulk_inv h keys n pos0 data0 (A3 \<union> {e, f} \<union> {c, d}) (A3 \<union> {e, f}) A3 s"
      and all: "A3 \<union> {e, f} \<union> {c, d} \<union> {a, b} = {..<n}"
    using fl none unfolding in_flight_def by auto
  obtain s1 where 1: "stage1_pair h keys (a, b) s = Some ((stage1_regs h keys a, stage1_regs h keys b), s1)"
      "bulk_inv h keys n pos0 data0 {..<n} (A3 \<union> {e, f}) A3 s1" using stage1_pair_ok [OF ctx inv x(4,5)] unfolding all by blast
  obtain s2 where 2: "stage2_pair h (stage1_regs h keys c, stage1_regs h keys d) s1 = Some ((stage2_regs h keys c, stage2_regs h keys d), s2)"
      "bulk_inv h keys n pos0 data0 {..<n} (A3 \<union> {e, f} \<union> {c, d}) A3 s2" using stage2_pair_ok [OF ctx 1(2), of c d] all by blast
  obtain s3 where 3: "stage3_pair h keys (stage2_regs h keys e, stage2_regs h keys f) s2 = Some s3"
      "bulk_inv h keys n pos0 data0 {..<n} (A3 \<union> {e, f} \<union> {c, d}) (A3 \<union> {e, f}) s3" using stage3_pair_ok [OF ctx 2(2), of e f] by blast
  obtain s4 where 4: "stage2_pair h (stage1_regs h keys a, stage1_regs h keys b) s3 = Some ((stage2_regs h keys a, stage2_regs h keys b), s4)"
      "bulk_inv h keys n pos0 data0 {..<n} {..<n} (A3 \<union> {e, f}) s4" using stage2_pair_ok [OF ctx 3(2), of a b] x(4,5) unfolding all by blast
  obtain s5 where 5: "stage3_pair h keys (stage2_regs h keys c, stage2_regs h keys d) s4 = Some s5"
      "bulk_inv h keys n pos0 data0 {..<n} {..<n} (A3 \<union> {e, f} \<union> {c, d}) s5" using stage3_pair_ok [OF ctx 4(2), of c d] all by blast
  obtain s6 where 6: "stage3_pair h keys (stage2_regs h keys a, stage2_regs h keys b) s5 = Some s6"
      "bulk_inv h keys n pos0 data0 {..<n} {..<n} {..<n} s6" using stage3_pair_ok [OF ctx 5(2), of a b] x(4,5) unfolding all by blast
  show ?thesis unfolding x using 1(1) 2(1) 3(1) 4(1) 5(1) 6 by blast
qed

lemma bulk_pipeline_ok:
  assumes ctx: "bulk_ctx h keys n pos0 data0" and inv: "bulk_inv h keys n pos0 data0 {} {} {} s" and mask: "bits (lookup_mask s) = {..<n}"
  shows "\<exists>s'. bulk_pipeline h keys s = Some s' \<and> bulk_inv h keys n pos0 data0 {..<n} {..<n} {..<n} s'"
proof -
  obtain c d m where 1: "stage0_pair keys s = Some ((c, d), s\<lparr>lookup_mask := m\<rparr>)" "c < n" "d < n" "bits m = bits (lookup_mask s) - {c, d}"
    using stage0_pair_ok [OF ctx, of s] mask by blast
  have "bits (lookup_mask (s\<lparr>lookup_mask := m\<rparr>)) \<subseteq> {..<n}" using 1(4) mask by auto
  from stage0_pair_ok [OF ctx this] obtain e f m2 where
    2: "stage0_pair keys (s\<lparr>lookup_mask := m\<rparr>) = Some ((e, f), s\<lparr>lookup_mask := m2\<rparr>)" "e < n" "f < n" "bits m2 = bits m - {e, f}" by auto
  have "bulk_inv h keys n pos0 data0 {} {} {} (s\<lparr>lookup_mask := m2\<rparr>)" using inv by simp
  from stage1_pair_ok [OF ctx this 1(2,3)] obtain s3 where
    3: "stage1_pair h keys (c, d) (s\<lparr>lookup_mask := m2\<rparr>) = Some ((stage1_regs h keys c, stage1_regs h keys d), s3)"
      "bulk_inv h keys n pos0 data0 {c, d} {} {} s3" "lookup_mask s3 = m2" by auto
  have "bits (lookup_mask s3) \<subseteq> {..<n}" using 3(3) 2(4) 1(4) mask by auto
  from stage0_pair_ok [OF ctx this] obtain i j m4 where
    4: "stage0_pair keys s3 = Some ((i, j), s3\<lparr>lookup_mask := m4\<rparr>)" "i < n" "j < n" "bits m4 = bits m2 - {i, j}" using 3(3) by auto
  have "bulk_inv h keys n pos0 data0 {c, d} {} {} (s3\<lparr>lookup_mask := m4\<rparr>)" using 3(2) by simp
  from stage1_pair_ok [OF ctx this 2(2,3)] obtain s5 where
    5: "stage1_pair h keys (e, f) (s3\<lparr>lookup_mask := m4\<rparr>) = Some ((stage1_regs h keys e, stage1_regs h keys f), s5)"
      "bulk_inv h keys n pos0 data0 ({c, d} \<union> {e, f}) {} {} s5" "lookup_mask s5 = m4" by auto
  have "{c, d} \<subseteq> {c, d} \<union> {e, f}" by blast
  from stage2_pair_ok [OF ctx 5(2) this] obtain s6 where 6: "stage2_pair h (stage1_regs h keys c, stage1_regs h keys d) s5 = Some ((stage2_regs h keys c, stage2_regs h keys d), s6)"
      "bulk_inv h keys n pos0 data0 ({c, d} \<union> {e, f}) {c, d} {} s6" "lookup_mask s6 = m4"
    using 5(3) unfolding Un_empty_left by blast
  have "{} \<union> {c, d} \<union> {e, f} \<union> {i, j} \<union> bits (lookup_mask s6) = {..<n}"
    using 1(2,3) 2(2,3) 4(2,3) unfolding 6(3) 4(4) 2(4) 1(4) mask by auto
  then have "in_flight h keys n pos0 data0 (i, j) (stage1_regs h keys e, stage1_regs h keys f) (stage2_regs h keys c, stage2_regs h keys d) s6"
    unfolding in_flight_def using 4(2,3) 6(2)
    by (intro exI [of _ i] exI [of _ j] exI [of _ e] exI [of _ f] exI [of _ c] exI [of _ d] exI [of _ "{}"]) simp
  from bulk_loop_ok [OF ctx this] obtain idx0 bkts1 slots2 s7 where
    7: "bulk_loop h keys (i, j) (stage1_regs h keys e, stage1_regs h keys f) (stage2_regs h keys c, stage2_regs h keys d) s6 =
        Some (idx0, bkts1, slots2, s7)" "in_flight h keys n pos0 data0 idx0 bkts1 slots2 s7" "bits (lookup_mask s7) = {}" by blast
  from bulk_drain [OF ctx 7(2,3)] obtain b1 k2 k3 s8 s9 s10 s11 s12 s13 where
    8: "stage1_pair h keys idx0 s7 = Some (b1, s8)" "stage2_pair h bkts1 s8 = Some (k2, s9)" "stage3_pair h keys slots2 s9 = Some s10"
      "stage2_pair h b1 s10 = Some (k3, s11)" "stage3_pair h keys k2 s11 = Some s12" "stage3_pair h keys k3 s12 = Some s13"
      "bulk_inv h keys n pos0 data0 {..<n} {..<n} {..<n} s13" by blast
  have "bulk_pipeline h keys s = Some s13"
    by (simp add: bulk_pipeline_def Let_def 1(1) 2(1) 3(1) 4(1) 5(1) 6(1) 7(1) 8(1-6) cong: eval_cong prod_case_weak_cong)
  then show ?thesis using 8(7) by blast
qed

end
