(* ===== verification/Hash_Bulk_Api.thy ===== *)
theory Hash_Bulk_Api
  imports Hash_Bulk
begin

text \<open>
  The lookup of many keys and the lookups of the single keys: what the pipeline of Hash_Bulk finds
  is what is in the table, the loops after it treat exactly the keys it left open, and the results
  are those of \<open>rte_hash_lookup\<close>. A key whose hash is 0 is the exception.
\<close>

section \<open>What the pipeline finds is in the table\<close>

text \<open>The first match of a hash that is not 0, for which no unused entry matches.\<close>

lemma first_match:
  assumes ok: "table_ok h" and b: "b < length (buckets h)" and v: "v \<noteq> 0"
  defines "M \<equiv> matching v (buckets h ! b)"
  defines "x \<equiv> key_idx (buckets h ! b) ! (if M = {} then 4 else Min M)"
  shows "M = {} \<Longrightarrow> x = 0"
    "M \<noteq> {} \<Longrightarrow> Min M < 4 \<and> x = idx_at (buckets h) b (Min M) \<and> sig_at (buckets h) b (Min M) \<noteq> NULL_SIGNATURE \<and>
      x \<in> used (buckets h) \<and> x \<noteq> 0"
proof -
  have "bucket_wf (buckets h ! b)" using ok b by (simp add: table_ok_def layout_def)
  then show "M = {} \<Longrightarrow> x = 0" by (simp add: x_def bucket_wf_def)
  assume ne: "M \<noteq> {}"
  then have "Min M \<in> M" by (intro Min_in) (simp_all add: M_def)
  then have m: "Min M < 4" "sig_current (sig_at (buckets h) b (Min M)) = v" by (auto simp: M_def matching_def sig_at_def)
  then have s: "sig_at (buckets h) b (Min M) \<noteq> NULL_SIGNATURE" using v by (auto simp: NULL_SIGNATURE_def)
  have x: "x = idx_at (buckets h) b (Min M)" using ne by (simp add: x_def idx_at_def)
  have "x \<in> used (buckets h)" unfolding x by (rule entry_used [OF b m(1) s])
  moreover have "x \<noteq> 0" using entry_slot(1) [OF ok calculation] by auto
  ultimately show "Min M < 4 \<and> x = idx_at (buckets h) b (Min M) \<and> sig_at (buckets h) b (Min M) \<noteq> NULL_SIGNATURE \<and>
      x \<in> used (buckets h) \<and> x \<noteq> 0" using m s x by simp
qed

definition hashes_nonzero :: "rte_hash \<Rightarrow> u8 list \<Rightarrow> bool" where
  "hashes_nonzero h key \<longleftrightarrow> rte_hash_hash h key \<noteq> 0 \<and> rte_hash_secondary_hash (rte_hash_hash h key) \<noteq> 0"

lemma match_idx_cases:
  assumes ok: "table_ok h" and nz: "hashes_nonzero h key"
  defines "b \<equiv> unat (rte_hash_hash h key AND bucket_bitmask h)"
    and "b2 \<equiv> unat (rte_hash_secondary_hash (rte_hash_hash h key) AND bucket_bitmask h)"
  shows "prim_matching h key = {} \<and> sec_matching h key = {} \<and> match_idx h key = 0 \<or>
    (match_idx h key \<in> used (buckets h) \<and>
     (prim_matching h key \<noteq> {} \<and> match_idx h key = idx_at (buckets h) b (Min (prim_matching h key)) \<or>
      prim_matching h key = {} \<and> sec_matching h key \<noteq> {} \<and> match_idx h key = idx_at (buckets h) b2 (Min (sec_matching h key))))"
proof -
  have lay: "layout (bucket_bitmask h) (buckets h)" using ok by (simp add: table_ok_def)
  have b: "b < length (buckets h)" "b2 < length (buckets h)" using layout_index [OF lay] by (simp_all add: b_def b2_def)
  note p = first_match [OF ok b(1), of "rte_hash_hash h key"] and q = first_match [OF ok b(2), of "rte_hash_secondary_hash (rte_hash_hash h key)"]
  have fold: "prim_matching h key = matching (rte_hash_hash h key) (buckets h ! b)"
    "sec_matching h key = matching (rte_hash_secondary_hash (rte_hash_hash h key)) (buckets h ! b2)"
    "prim_bkt h key = buckets h ! b" "sec_bkt h key = buckets h ! b2"
    by (simp_all add: prim_matching_def sec_matching_def prim_bkt_def sec_bkt_def b_def b2_def)
  define x1 where "x1 = key_idx (buckets h ! b) ! (if prim_matching h key = {} then 4 else Min (prim_matching h key))"
  define x2 where "x2 = key_idx (buckets h ! b2) ! (if sec_matching h key = {} then 4 else Min (sec_matching h key))"
  have x: "match_idx h key = (if x1 = 0 then x2 else x1)"
    by (simp only: match_idx_def Let_def x1_def x2_def) (simp only: fold)
  have x1: "prim_matching h key = {} \<Longrightarrow> x1 = 0" "prim_matching h key \<noteq> {} \<Longrightarrow>
      x1 = idx_at (buckets h) b (Min (prim_matching h key)) \<and> x1 \<in> used (buckets h) \<and> x1 \<noteq> 0"
    using p nz unfolding x1_def fold hashes_nonzero_def by blast+
  have x2: "sec_matching h key = {} \<Longrightarrow> x2 = 0" "sec_matching h key \<noteq> {} \<Longrightarrow>
      x2 = idx_at (buckets h) b2 (Min (sec_matching h key)) \<and> x2 \<in> used (buckets h) \<and> x2 \<noteq> 0"
    using q nz unfolding x2_def fold hashes_nonzero_def by blast+
  have "match_idx h key = x1" if "prim_matching h key \<noteq> {}"
  proof -
    have "x1 \<noteq> 0" using x1(2) [OF that] by blast
    then show ?thesis using x by simp
  qed
  moreover have "match_idx h key = x2" if "prim_matching h key = {}" using x x1(1) [OF that] by (simp only: if_True simp_thms)
  ultimately show ?thesis using x1(2) x2 by metis
qed

lemma match_slot_ok:
  assumes ok: "table_ok h" and nz: "hashes_nonzero h key"
  shows "key_slot h (match_idx h key) \<noteq> None" "match_idx h key \<noteq> 0 \<Longrightarrow> match_slot h key = key_store h ! unat (match_idx h key)"
    "match_idx h key \<noteq> 0 \<Longrightarrow> match_idx h key \<in> used (buckets h)"
proof -
  have "unat (h_entries h) < length (key_store h)" using ok by (simp add: table_ok_def sizes_ok_def)
  then have "0 < length (key_store h)" by linarith
  then have zero: "key_slot h 0 = Some 0" by (simp add: key_slot_def Let_def)
  have slot: "key_slot h x = Some (unat x)" if "x \<in> used (buckets h)" for x by (rule entry_slot(4) [OF ok that])
  show "key_slot h (match_idx h key) \<noteq> None" using match_idx_cases [OF ok nz] zero slot by fastforce
  assume "match_idx h key \<noteq> 0"
  then show "match_idx h key \<in> used (buckets h)" using match_idx_cases [OF ok nz] by blast
  then show "match_slot h key = key_store h ! unat (match_idx h key)" using slot by (simp add: match_slot_def)
qed

lemma match_hit_ok:
  assumes ok: "table_ok h" and nz: "hashes_nonzero h key" and key: "length key = unat (h_key_len h)"
  shows "match_hit h key \<longleftrightarrow> match_idx h key \<noteq> 0 \<and> stored_key h (match_idx h key) = key"
proof (cases "match_idx h key = 0")
  case False
  note s = match_slot_ok(2,3) [OF ok nz False]
  have "length (stored_key h (match_idx h key)) = unat (h_key_len h)" by (rule entry_slot(6) [OF ok s(2)])
  then show ?thesis using False ok key s(1) by (simp add: match_hit_def table_ok_def cmp_ok_def stored_key_def)
qed (simp add: match_hit_def)

lemma match_hit_found:
  assumes ok: "table_ok h" and nz: "hashes_nonzero h key" and key: "length key = unat (h_key_len h)" and hit: "match_hit h key"
  shows "hmap h key = Some (match_idx h key, pdata (match_slot h key))"
proof -
  have x: "match_idx h key \<noteq> 0" "stored_key h (match_idx h key) = key" using hit match_hit_ok [OF ok nz key] by simp_all
  have "entries_ok h" using ok by (simp add: table_ok_def)
  from hmap_iff [OF this] show ?thesis using match_slot_ok(2,3) [OF ok nz x(1)] x(2) by simp
qed

text \<open>A key without a hit and without a second match is not in the table.\<close>

lemma match_missed:
  assumes ok: "table_ok h" and nz: "hashes_nonzero h key" and key: "length key = unat (h_key_len h)"
    and miss: "\<not> match_hit h key" "\<not> match_many h key"
  shows "hmap h key = None"
proof (rule ccontr)
  let ?s = "rte_hash_hash h key" let ?s2 = "rte_hash_secondary_hash (rte_hash_hash h key)"
  let ?P = "prim_matching h key" let ?Q = "sec_matching h key"
  assume "hmap h key \<noteq> None"
  then obtain idx d where d: "hmap h key = Some (idx, d)" by auto
  have ent: "entries_ok h" using ok by (simp add: table_ok_def)
  have st: "idx \<in> used (buckets h)" "stored_key h idx = key" using d unfolding hmap_iff [OF ent] by blast+
  have "idx \<noteq> 0" using entry_slot(1) [OF ok st(1)] by auto
  then have ne: "match_idx h key \<noteq> idx" using miss(1) match_hit_ok [OF ok nz key] st(2) by auto
  have fin: "finite ?P" "finite ?Q" by (simp_all add: prim_matching_def sec_matching_def)
  have few: "card ?P + card ?Q \<le> 1" using miss(2) by (simp add: match_many_def)
  obtain b i where loc: "b < length (buckets h)" "i < 4" "idx_at (buckets h) b i = idx"
      "b = unat (?s AND bucket_bitmask h) \<and> sig_at (buckets h) b i = \<lparr>sig_current = ?s, sig_alt = ?s2\<rparr> \<or>
       b = unat (?s2 AND bucket_bitmask h) \<and> sig_at (buckets h) b i = \<lparr>sig_current = ?s2, sig_alt = ?s\<rparr>"
    using key_located [OF ok d] by blast
  from loc(4) show False
  proof (elim disjE conjE)
    assume b: "b = unat (?s AND bucket_bitmask h)" "sig_at (buckets h) b i = \<lparr>sig_current = ?s, sig_alt = ?s2\<rparr>"
    then have "i \<in> ?P" using loc(2) by (simp add: prim_matching_def matching_def prim_bkt_def sig_at_def)
    then have "?P = {i}" using few fin card_le_Suc0_iff_eq [OF fin(1)] by fastforce
    then show False using match_idx_cases [OF ok nz] ne loc(3) b(1) by auto
  next
    assume b: "b = unat (?s2 AND bucket_bitmask h)" "sig_at (buckets h) b i = \<lparr>sig_current = ?s2, sig_alt = ?s\<rparr>"
    then have i: "i \<in> ?Q" using loc(2) by (simp add: sec_matching_def matching_def sec_bkt_def sig_at_def)
    then have "0 < card ?Q" using fin(2) by (simp add: card_gt_0_iff) blast
    then have "card ?P = 0" using few by linarith
    then have "?P = {}" using fin(1) by simp
    moreover have "?Q = {i}" using i few fin card_le_Suc0_iff_eq [OF fin(2)] by fastforce
    ultimately show False using match_idx_cases [OF ok nz] ne loc(3) b(1) by auto
  qed
qed

section \<open>The loops over the rest\<close>

lemma ctz_loop_ok:
  assumes step: "\<And>A i s. P A s \<Longrightarrow> A \<subseteq> M \<Longrightarrow> i \<in> M \<Longrightarrow> \<exists>s'. body i s = Some s' \<and> P (insert i A) s'" and M: "M \<subseteq> {..<64}"
  shows "P A s \<Longrightarrow> A \<subseteq> M \<Longrightarrow> A \<union> bits m = M \<Longrightarrow> \<exists>s'. ctz_loop body m s = Some s' \<and> P M s'"
proof (induction "card (bits m)" arbitrary: A s m rule: less_induct)
  case less
  show ?case
  proof (cases "m = 0")
    case True
    then show ?thesis using less.prems by (subst ctz_loop.simps) simp
  next
    case False
    then have i: "ctzll m \<in> bits m" unfolding ctzll_Min [OF False] by (intro Min_in) simp_all
    then have iM: "ctzll m \<in> M" using less.prems(3) by blast
    from step [OF less.prems(1,2) this] obtain s' where s': "body (ctzll m) s = Some s'" "P (insert (ctzll m) A) s'" by blast
    have "bits (push_bit (ctzll m) 1) = {ctzll m}" by (rule bits_single) (use iM M in auto)
    then have b: "bits (m AND NOT (push_bit (ctzll m) 1)) = bits m - {ctzll m}" by (simp only: bits_and_not)
    then have "card (bits (m AND NOT (push_bit (ctzll m) 1))) < card (bits m)" using i by (intro psubset_card_mono) auto
    moreover have "insert (ctzll m) A \<subseteq> M" "insert (ctzll m) A \<union> bits (m AND NOT (push_bit (ctzll m) 1)) = M"
      unfolding b using less.prems(2,3) iM i by blast+
    ultimately obtain s2 where "ctz_loop body (m AND NOT (push_bit (ctzll m) 1)) s' = Some s2" "P M s2"
      using less.hyps s'(2) by blast
    moreover have "ctz_loop body m s = ctz_loop body (m AND NOT (push_bit (ctzll m) 1)) s'"
      using False s'(1) by (subst ctz_loop.simps) simp
    ultimately show ?thesis by simp
  qed
qed

text \<open>What a single lookup returns.\<close>

definition found_at :: "rte_hash \<Rightarrow> u8 list \<Rightarrow> int" where
  "found_at h key = (case hmap h key of Some (idx, d) \<Rightarrow> int (unat idx) - 1 | None \<Rightarrow> - ENOENT)"

definition found_data :: "rte_hash \<Rightarrow> u8 list \<Rightarrow> u64" where
  "found_data h key = (case hmap h key of Some (idx, d) \<Rightarrow> d | None \<Rightarrow> 0)"

definition bulk_keys :: "rte_hash \<Rightarrow> u8 list list \<Rightarrow> nat \<Rightarrow> bool" where
  "bulk_keys h keys n \<longleftrightarrow> table_ok h \<and> n \<le> length keys \<and>
     (\<forall>i < n. length (keys ! i) = unat (h_key_len h) \<and> hashes_nonzero h (keys ! i))"

lemma bulk_keysD:
  assumes "bulk_keys h keys n" and "i < n"
  shows "table_ok h" "i < length keys" "length (keys ! i) = unat (h_key_len h)" "hashes_nonzero h (keys ! i)"
  using assms by (simp_all add: bulk_keys_def)

lemma found_at_sign: "table_ok h \<Longrightarrow> 0 \<le> found_at h key \<longleftrightarrow> hmap h key \<noteq> None"
proof (cases "hmap h key")
  case (Some x)
  assume ok: "table_ok h"
  obtain idx d where x: "x = (idx, d)" by (cases x)
  have "idx \<in> used (buckets h)" using ok Some by (simp add: x table_ok_def hmap_iff)
  from entry_slot(1) [OF ok this] have "0 < unat idx" .
  then have "0 \<le> int (unat idx) - 1" by linarith
  then show ?thesis unfolding found_at_def Some x option.case prod.case by (simp only: simp_thms option.distinct)
qed (simp add: found_at_def)

text \<open>\<open>B\<close>: the keys that were searched one by one.\<close>

definition extra_inv :: "rte_hash \<Rightarrow> u8 list list \<Rightarrow> nat \<Rightarrow> u32 list \<Rightarrow> u64 list option \<Rightarrow> nat set \<Rightarrow> bulk_state \<Rightarrow> bool" where
  "extra_inv h keys n pos0 data0 B s \<longleftrightarrow>
     hash_vals s = filled (\<lambda>i. rte_hash_hash h (keys ! i)) {..<n} (replicate 64 0) \<and>
     bulk_positions s = filled (\<lambda>i. word_of_int (found_at h (keys ! i))) (if data0 = None then B else {})
       (filled (\<lambda>i. match_idx h (keys ! i) - 1) {..<n} pos0) \<and>
     bits (bulk_hits s) = {i. i < n \<and> match_hit h (keys ! i)} \<union> {i \<in> B. hmap h (keys ! i) \<noteq> None} \<and>
     bulk_data s = map_option (\<lambda>d. filled (\<lambda>i. found_data h (keys ! i)) {i \<in> B. hmap h (keys ! i) \<noteq> None}
       (filled (\<lambda>i. pdata (match_slot h (keys ! i))) {..<n} d)) data0"

lemma extra_search_ok:
  assumes ctx: "bulk_ctx h keys n pos0 data0" and ks: "bulk_keys h keys n" and inv: "extra_inv h keys n pos0 data0 B s" and i: "i < n"
  shows "\<exists>s'. extra_search h keys i s = Some s' \<and> extra_inv h keys n pos0 data0 (insert i B) s'"
proof -
  let ?key = "keys ! i"
  note k = bulk_keysD [OF ks i]
  have n: "i < length pos0" "i < 64" using ctx i by (simp_all add: bulk_ctx_def)
  have hv: "read_at (hash_vals s) i = Some (rte_hash_hash h ?key)" using inv n(2) i by (simp add: extra_inv_def)
  have look: "hash_lookup_with_hash h ?key (rte_hash_hash h ?key) =
      Some (found_at h ?key, if hmap h ?key = None then None else Some (found_data h ?key))"
    using hash_lookup_with_hash_ok [OF k(1,3)] by (auto simp: found_at_def found_data_def split: option.splits)
  note sign = found_at_sign [OF k(1), of ?key]
  have hit: "bits (m OR push_bit i 1) = insert i (bits m)" for m
    unfolding bits_or by (subst bits_single [OF n(2)]) simp
  define s' where "s' = s\<lparr>bulk_positions := (if data0 = None then (bulk_positions s)[i := word_of_int (found_at h ?key)] else bulk_positions s),
      bulk_data := map_option (\<lambda>d. if hmap h ?key = None then d else d[i := found_data h ?key]) (bulk_data s),
      bulk_hits := (if hmap h ?key = None then bulk_hits s else bulk_hits s OR push_bit i 1)\<rparr>"
  have hits: "bits (bulk_hits s') = {i. i < n \<and> match_hit h (keys ! i)} \<union> {j \<in> insert i B. hmap h (keys ! j) \<noteq> None}"
    using inv hit [of "bulk_hits s"] by (auto simp: s'_def extra_inv_def)
  show ?thesis
  proof (cases data0)
    case None
    have "extra_search h keys i s = Some s'"
      using inv None k(2) hv look sign n
      by (cases "hmap h ?key = None")
        (simp_all add: extra_search_def extra_inv_def rte_hash_lookup_with_hash_def s'_def del: not_None_eq split_paired_Ex)
    moreover have "extra_inv h keys n pos0 data0 (insert i B) s'"
      using inv None hits filled_insert [of i "filled (\<lambda>i. match_idx h (keys ! i) - 1) {..<n} pos0" "\<lambda>i. word_of_int (found_at h (keys ! i))" B] n
      by (simp add: extra_inv_def s'_def)
    ultimately show ?thesis by blast
  next
    case (Some d0)
    then have d0: "i < length d0" using ctx i by (simp add: bulk_ctx_def)
    have "extra_search h keys i s = Some s'"
      using inv Some k(2) hv look sign n d0
      by (cases "hmap h ?key = None")
        (simp_all add: extra_search_def extra_inv_def rte_hash_lookup_with_hash_data_def s'_def del: not_None_eq split_paired_Ex)
    moreover have "{j \<in> insert i B. hmap h (keys ! j) \<noteq> None} =
        (if hmap h ?key = None then {j \<in> B. hmap h (keys ! j) \<noteq> None} else insert i {j \<in> B. hmap h (keys ! j) \<noteq> None})" by auto
    then have "extra_inv h keys n pos0 data0 (insert i B) s'"
      using inv Some hits d0
        filled_insert [of i "filled (\<lambda>i. pdata (match_slot h (keys ! i))) {..<n} d0" "\<lambda>i. found_data h (keys ! i)" "{j \<in> B. hmap h (keys ! j) \<noteq> None}"]
      by (simp add: extra_inv_def s'_def)
    ultimately show ?thesis by blast
  qed
qed

lemma miss_position_ok:
  assumes "bulk_positions s = filled (\<lambda>_. word_of_int (- ENOENT)) B pos" and "i < length pos"
  shows "\<exists>s'. miss_position i s = Some s' \<and> s' = s\<lparr>bulk_positions := filled (\<lambda>_. word_of_int (- ENOENT)) (insert i B) pos\<rparr>"
  using assms filled_insert [of i pos "\<lambda>_. word_of_int (- ENOENT)" B] by (simp add: miss_position_def)

lemma miss_loop_ok:
  assumes "bits m \<subseteq> {..<length (bulk_positions s)}"
  shows "ctz_loop miss_position m s = Some (s\<lparr>bulk_positions := filled (\<lambda>_. word_of_int (- ENOENT)) (bits m) (bulk_positions s)\<rparr>)"
proof -
  let ?P = "\<lambda>B t. t = s\<lparr>bulk_positions := filled (\<lambda>_. word_of_int (- ENOENT)) B (bulk_positions s)\<rparr>"
  have "\<exists>s'. miss_position i t = Some s' \<and> ?P (insert i B) s'" if "?P B t" "B \<subseteq> bits m" "i \<in> bits m" for B i t
    using miss_position_ok [of t B "bulk_positions s" i] that assms by auto
  moreover have "bits m \<subseteq> {..<64}" using bits_less by blast
  moreover have "?P {} s" by simp
  ultimately show ?thesis using ctz_loop_ok [of ?P "bits m" miss_position "{}" s m] by blast
qed

lemma first_bits: "0 < n \<Longrightarrow> n \<le> 64 \<Longrightarrow> bits (drop_bit (64 - n) (- 1)) = {..<n}"
  by (auto simp: bits_def bit_simps)

section \<open>The whole lookup\<close>

lemma hash_lookup_bulk_ok:
  assumes ks: "bulk_keys h keys n" and n: "unat num_keys = n" "0 < n" "n \<le> 64" and pos: "n \<le> length pos0"
    and data: "\<forall>d. data0 = Some d \<longrightarrow> n \<le> length d"
  shows "\<exists>s. hash_lookup_bulk h keys num_keys pos0 data0 = Some s \<and>
    bits (bulk_hits s) = {i. i < n \<and> hmap h (keys ! i) \<noteq> None} \<and>
    (data0 = None \<longrightarrow> bulk_positions s = filled (\<lambda>i. word_of_int (found_at h (keys ! i))) {..<n} pos0) \<and>
    (\<forall>d0. data0 = Some d0 \<longrightarrow> (\<exists>d. bulk_data s = Some d \<and> length d = length d0 \<and> drop n d = drop n d0 \<and>
       (\<forall>i < n. hmap h (keys ! i) \<noteq> None \<longrightarrow> d ! i = found_data h (keys ! i))))"
proof -
  have ok: "table_ok h" using ks by (simp add: bulk_keys_def)
  then have "\<forall>s. unat (s AND bucket_bitmask h) < length (buckets h)" using layout_index by (auto simp: table_ok_def)
  moreover have "\<forall>i < n. key_slot h (match_idx h (keys ! i)) \<noteq> None"
    using match_slot_ok(1) [OF ok] bulk_keysD(4) [OF ks] by blast
  ultimately have ctx: "bulk_ctx h keys n pos0 data0" using ks n pos data by (simp add: bulk_ctx_def bulk_keys_def)
  define miss where "miss = (drop_bit (unat (64 - num_keys)) (- 1) :: u64)"
  have le: "num_keys \<le> 64" "num_keys \<noteq> 0" using n by (auto simp: word_le_nat_alt)
  then have "unat (64 - num_keys) = 64 - n" using n(1) by (simp add: unat_sub)
  then have miss: "bits miss = {..<n}" unfolding miss_def using first_bits n by simp
  define s0 where "s0 = \<lparr>lookup_mask = miss, hash_vals = replicate RTE_HASH_LOOKUP_BULK_MAX 0,
      bulk_positions = pos0, extra_hits_mask = 0, bulk_hits = 0, bulk_data = data0\<rparr>"
  have "bulk_inv h keys n pos0 data0 {} {} {} s0" by (cases data0) (simp_all add: bulk_inv_def s0_def)
  from bulk_pipeline_ok [OF ctx this] obtain s1 where s1: "bulk_pipeline h keys s0 = Some s1" "bulk_inv h keys n pos0 data0 {..<n} {..<n} {..<n} s1"
    using miss by (auto simp: s0_def)
  define E where "E = {i. i < n \<and> match_many h (keys ! i) \<and> \<not> match_hit h (keys ! i)}"
  have "bits (extra_hits_mask s1 AND NOT (bulk_hits s1)) = E"
    using s1(2) unfolding bits_and_not by (auto simp: bulk_inv_def E_def)
  moreover have "extra_inv h keys n pos0 data0 {} s1" using s1(2) by (auto simp: extra_inv_def bulk_inv_def)
  moreover have "\<exists>s'. extra_search h keys i s = Some s' \<and> extra_inv h keys n pos0 data0 (insert i A) s'"
    if "extra_inv h keys n pos0 data0 A s" "A \<subseteq> E" "i \<in> E" for A i s
    using extra_search_ok [OF ctx ks that(1)] that(3) by (simp add: E_def)
  moreover have "E \<subseteq> {..<64}" using n by (auto simp: E_def)
  ultimately obtain s2 where s2: "ctz_loop (extra_search h keys) (extra_hits_mask s1 AND NOT (bulk_hits s1)) s1 = Some s2"
    "extra_inv h keys n pos0 data0 E s2"
    using ctz_loop_ok [of "extra_inv h keys n pos0 data0" E "extra_search h keys" "{}" s1 "extra_hits_mask s1 AND NOT (bulk_hits s1)"] by auto
  have found: "match_hit h (keys ! i) \<Longrightarrow> hmap h (keys ! i) = Some (match_idx h (keys ! i), pdata (match_slot h (keys ! i)))"
    and missed: "\<not> match_hit h (keys ! i) \<Longrightarrow> i \<notin> E \<Longrightarrow> hmap h (keys ! i) = None" if "i < n" for i
    using match_hit_found [OF ok] match_missed [OF ok] bulk_keysD(3,4) [OF ks that] that by (auto simp: E_def)
  have hits: "bits (bulk_hits s2) = {i. i < n \<and> hmap h (keys ! i) \<noteq> None}"
  proof (rule set_eqI)
    fix i
    have "i \<in> bits (bulk_hits s2) \<longleftrightarrow> (i < n \<and> match_hit h (keys ! i)) \<or> (i \<in> E \<and> hmap h (keys ! i) \<noteq> None)"
      using s2(2) by (simp add: extra_inv_def del: not_None_eq)
    moreover have "i < n" if "i \<in> E" using that by (simp add: E_def)
    ultimately show "i \<in> bits (bulk_hits s2) \<longleftrightarrow> i \<in> {i. i < n \<and> hmap h (keys ! i) \<noteq> None}"
      unfolding mem_Collect_eq using found [of i] missed [of i] by (metis option.distinct(1))
  qed
  have len: "length (bulk_positions s2) = length pos0" using s2(2) by (simp add: extra_inv_def)
  define s3 where "s3 = s2\<lparr>bulk_positions := filled (\<lambda>_. word_of_int (- ENOENT)) (bits (miss AND NOT (bulk_hits s2))) (bulk_positions s2)\<rparr>"
  have "bits (miss AND NOT (bulk_hits s2)) \<subseteq> {..<length (bulk_positions s2)}"
    unfolding bits_and_not miss len using pos by auto
  then have s3: "ctz_loop miss_position (miss AND NOT (bulk_hits s2)) s2 = Some s3"
    unfolding s3_def by (rule miss_loop_ok)
  have run: "hash_lookup_bulk h keys num_keys pos0 data0 = Some s3"
    unfolding hash_lookup_bulk_def Let_def miss_def [symmetric] s0_def [symmetric] using le s1(1) s2(1) s3 by (simp add: not_less)
  have p: "bulk_positions s3 = filled (\<lambda>i. word_of_int (found_at h (keys ! i))) {..<n} pos0" if "data0 = None"
  proof (rule nth_equalityI)
    fix i assume "i < length (bulk_positions s3)"
    then have i: "i < length pos0" using len by (simp add: s3_def)
    have b: "i \<in> bits (miss AND NOT (bulk_hits s2)) \<longleftrightarrow> i < n \<and> hmap h (keys ! i) = None"
      unfolding bits_and_not miss hits by (auto simp del: not_None_eq)
    have old: "bulk_positions s2 ! i = (if i \<in> E then word_of_int (found_at h (keys ! i)) else if i < n then match_idx h (keys ! i) - 1 else pos0 ! i)"
      using s2(2) that i by (simp add: extra_inv_def)
    have "word_of_int (found_at h (keys ! i)) = match_idx h (keys ! i) - 1" if "match_hit h (keys ! i)" "i < n"
      using found [OF that(2,1)] by (simp add: found_at_def)
    then show "bulk_positions s3 ! i = filled (\<lambda>i. word_of_int (found_at h (keys ! i))) {..<n} pos0 ! i"
      using i len b old missed [of i] by (cases "hmap h (keys ! i) = None"; cases "match_hit h (keys ! i)") (auto simp: s3_def found_at_def E_def)
  qed (simp add: s3_def len)
  have d: "\<exists>d. bulk_data s3 = Some d \<and> length d = length d0 \<and> drop n d = drop n d0 \<and>
      (\<forall>i < n. hmap h (keys ! i) \<noteq> None \<longrightarrow> d ! i = found_data h (keys ! i))" if "data0 = Some d0" for d0
  proof -
    define d where "d = filled (\<lambda>i. found_data h (keys ! i)) {i \<in> E. hmap h (keys ! i) \<noteq> None} (filled (\<lambda>i. pdata (match_slot h (keys ! i))) {..<n} d0)"
    have l: "n \<le> length d0" using data that by simp
    have "bulk_data s3 = Some d" using s2(2) that by (simp add: s3_def extra_inv_def d_def)
    moreover have "length d = length d0" by (simp add: d_def)
    moreover have "drop n d = drop n d0" by (rule nth_equalityI) (auto simp: d_def E_def)
    moreover have "d ! i = found_data h (keys ! i)" if "i < n" "hmap h (keys ! i) \<noteq> None" for i
      using that l found [of i] missed [of i] by (cases "i \<in> E"; cases "match_hit h (keys ! i)") (auto simp: d_def found_data_def)
    ultimately show ?thesis by blast
  qed
  show ?thesis using run hits p d by (intro exI [of _ s3] conjI) (simp_all add: s3_def)
qed

lemma found_at_lookup: "table_ok h \<Longrightarrow> length key = unat (h_key_len h) \<Longrightarrow> rte_hash_lookup h key = Some (found_at h key)"
  using hash_lookup_with_hash_ok by (auto simp: rte_hash_lookup_def found_at_def split: option.split)

text \<open>When every key has a hit the single searches and the misses are left out.\<close>

lemma bulk_all_hit:
  assumes ctx: "bulk_ctx h keys n pos0 None" and n: "unat num_keys = n" and hit: "\<forall>i < n. match_hit h (keys ! i)"
  shows "rte_hash_lookup_bulk h keys num_keys pos0 = Some (0, filled (\<lambda>i. match_idx h (keys ! i) - 1) {..<n} pos0)"
proof -
  have le: "0 < n" "n \<le> 64" using ctx by (simp_all add: bulk_ctx_def)
  then have num: "num_keys \<noteq> 0" "\<not> 64 < num_keys" using n by (auto simp: word_less_nat_alt)
  define miss where "miss = (drop_bit (unat (64 - num_keys)) (- 1) :: u64)"
  have "unat (64 - num_keys) = 64 - n" using n num(2) by (simp add: unat_sub not_less)
  then have miss: "bits miss = {..<n}" unfolding miss_def using first_bits le by simp
  define s0 where "s0 = \<lparr>lookup_mask = miss, hash_vals = replicate RTE_HASH_LOOKUP_BULK_MAX 0,
      bulk_positions = pos0, extra_hits_mask = 0, bulk_hits = 0, bulk_data = None\<rparr>"
  have "bulk_inv h keys n pos0 None {} {} {} s0" by (simp add: bulk_inv_def s0_def)
  from bulk_pipeline_ok [OF ctx this] obtain s1 where s1: "bulk_pipeline h keys s0 = Some s1" "bulk_inv h keys n pos0 None {..<n} {..<n} {..<n} s1"
    using miss by (auto simp: s0_def)
  have "bits (extra_hits_mask s1 AND NOT (bulk_hits s1)) = {}" "bits (miss AND NOT (bulk_hits s1)) = {}"
    using s1(2) hit miss unfolding bits_and_not by (auto simp: bulk_inv_def)
  then have none: "extra_hits_mask s1 AND NOT (bulk_hits s1) = 0" "miss AND NOT (bulk_hits s1) = 0" by simp_all
  have "hash_lookup_bulk h keys num_keys pos0 None = Some s1"
    unfolding hash_lookup_bulk_def Let_def miss_def [symmetric] s0_def [symmetric] using num s1(1) none by (simp add: ctz_loop.simps [of _ 0])
  then show ?thesis using s1(2) by (simp add: rte_hash_lookup_bulk_def bulk_inv_def)
qed

text \<open>
  A table that the code creates, with a hash function that gives 0, after one key has been added
  and deleted.
\<close>

definition zero_hash_params :: rte_hash_parameters where
  "zero_hash_params = demo_params\<lparr>p_entries := 5, p_key_len := 1, p_hash_func := Some (\<lambda>_ _ _. 0)\<rparr>"

definition added_and_deleted :: "rte_hash option" where
  "added_and_deleted = do {
     (a, st) \<leftarrow> rte_hash_create demo_hash_env (Some zero_hash_params) demo_registry;
     obj \<leftarrow> ht_tables st 201;
     (i, h1) \<leftarrow> rte_hash_add_key_data (ho_table obj) 0 [1] 5;
     (j, h2) \<leftarrow> rte_hash_del_key h1 0 [1];
     if a = Some 201 \<and> i = 0 \<and> j = 0 then Some h2 else None }"

definition emptied_table :: rte_hash where
  "emptied_table = the added_and_deleted"

lemma emptied_table_run:
  obtains st obj h1 where "rte_hash_create demo_hash_env (Some zero_hash_params) demo_registry = Some (Some 201, st)"
    and "ht_tables st 201 = Some obj" and "rte_hash_add_key_data (ho_table obj) 0 [1] 5 = Some (0, h1)"
    and "rte_hash_del_key h1 0 [1] = Some (0, emptied_table)"
proof -
  have "case added_and_deleted of None \<Rightarrow> False | Some h \<Rightarrow> True" by code_simp
  then obtain h where h: "added_and_deleted = Some h" by (cases added_and_deleted) auto
  then have "emptied_table = h" unfolding emptied_table_def by (rule ssubst) (rule option.sel)
  with h show ?thesis using that by (auto simp: added_and_deleted_def bind_eq_Some_conv split: if_splits)
qed

lemma emptied_table_fields:
  "buckets emptied_table ! 0 = \<lparr>signatures = replicate 4 NULL_SIGNATURE, key_idx = [1, 0, 0, 0, 0], flag = replicate 4 0\<rparr>"
  "length (buckets emptied_table) = 2" "bucket_bitmask emptied_table = 1" "h_key_len emptied_table = 1"
  "length (key_store emptied_table) = 6" "key_bytes (key_store emptied_table ! 1) = [1]"
  "hash_func emptied_table [1] 1 (hash_func_init_val emptied_table) = 0"
  "key_slot emptied_table 1 = Some 1" "rte_hash_cmp_eq emptied_table [1] [1] 1 = 0"
  "rte_hash_lookup emptied_table [1] = Some (- 2)"
  by code_simp+

lemma full_table_keys: "hmap full_table [2] = Some (2, 0)" "hmap full_table [9] = None" "unat (h_key_len full_table) = 1"
  "hashes_nonzero full_table key"
proof -
  have ent: "entries_ok full_table" using full_table_ok(1) by (simp add: hash_ok_def table_ok_def)
  show "hmap full_table [2] = Some (2, 0)" unfolding hmap_iff [OF ent]
    by (simp add: used_def full_table_contents) (simp add: stored_key_def full_table_def)
  have "hmap full_table [9] \<noteq> Some (x, d)" for x d unfolding hmap_iff [OF ent]
    by (auto simp: used_def full_table_contents stored_key_def) (simp_all add: full_table_def)
  then show "hmap full_table [9] = None" by (cases "hmap full_table [9]") auto
  show "unat (h_key_len full_table) = 1" "hashes_nonzero full_table key"
    by (simp_all add: full_table_def hashes_nonzero_def rte_hash_hash_def rte_hash_secondary_hash_def)
qed

section \<open>Properties\<close>

text \<open>
  C16. The lookup of up to 64 keys at once returns for every key the position, or \<open>-ENOENT\<close>, that
  the lookup of this key alone returns, provided that no key has a hash of 0; the software
  pipeline ends, and it writes no other position.
\<close>

theorem rte_hash_lookup_bulk_ok:
  assumes "hash_ok h" and "0 < unat num_keys" and "unat num_keys \<le> 64" and "unat num_keys \<le> length keys" and "unat num_keys \<le> length positions"
    and "\<forall>key \<in> set (take (unat num_keys) keys). length key = unat (h_key_len h) \<and> hashes_nonzero h key"
  shows "rte_hash_lookup_bulk h keys num_keys positions =
    Some (0, map (\<lambda>key. word_of_int (the (rte_hash_lookup h key))) (take (unat num_keys) keys) @ drop (unat num_keys) positions)"
proof -
  define n where "n = unat num_keys"
  have ok: "table_ok h" using assms(1) by (simp add: hash_ok_def)
  have key: "length (keys ! i) = unat (h_key_len h) \<and> hashes_nonzero h (keys ! i)" if "i < n" for i
  proof -
    have "take n keys ! i \<in> set (take n keys)" by (rule nth_mem) (use that assms(4) in \<open>simp add: n_def\<close>)
    then show ?thesis using assms(6) that by (simp add: n_def)
  qed
  then have ks: "bulk_keys h keys n" using ok assms(4) by (simp add: bulk_keys_def n_def)
  from hash_lookup_bulk_ok [OF ks n_def [symmetric], of positions None] assms(2,3,5) obtain s where
    s: "hash_lookup_bulk h keys num_keys positions None = Some s" "bulk_positions s = filled (\<lambda>i. word_of_int (found_at h (keys ! i))) {..<n} positions"
    by (auto simp: n_def)
  have "filled (\<lambda>i. word_of_int (found_at h (keys ! i))) {..<n} positions =
      map (\<lambda>key. word_of_int (the (rte_hash_lookup h key))) (take n keys) @ drop n positions"
    by (rule nth_equalityI) (use assms(4,5) key found_at_lookup [OF ok] in \<open>auto simp: nth_append n_def\<close>)
  then show ?thesis using s by (simp add: rte_hash_lookup_bulk_def n_def)
qed

lemma rte_hash_lookup_bulk_ok_witness:
  "rte_hash_lookup_bulk full_table [[2], [9], [2]] 3 [7, 7, 7, 7] = Some (0, [1, - 2, 1, 7])"
proof -
  have "rte_hash_lookup full_table [2] = Some 1" "rte_hash_lookup full_table [9] = Some (- 2)"
    using found_at_lookup [of full_table] full_table_ok(1) full_table_keys by (simp_all add: hash_ok_def found_at_def)
  then show ?thesis
    using rte_hash_lookup_bulk_ok [OF full_table_ok(1), of 3 "[[2], [9], [2]]" "[7, 7, 7, 7]"] by (simp add: full_table_keys)
qed

text \<open>
  With data, the mask of hits has exactly the bits of the keys that are in the table, the
  returned number counts them, and the data of each of them is stored at its place.
\<close>

theorem rte_hash_lookup_bulk_data_ok:
  assumes "hash_ok h" and "0 < unat num_keys" and "unat num_keys \<le> 64" and "unat num_keys \<le> length keys" and "unat num_keys \<le> length data"
    and "\<forall>key \<in> set (take (unat num_keys) keys). length key = unat (h_key_len h) \<and> hashes_nonzero h key"
  shows "\<exists>hits d. rte_hash_lookup_bulk_data h keys num_keys (Some data) =
      Some (int (card {i. i < unat num_keys \<and> hmap h (keys ! i) \<noteq> None}), hits, Some d) \<and>
    bits hits = {i. i < unat num_keys \<and> hmap h (keys ! i) \<noteq> None} \<and> length d = length data \<and>
    drop (unat num_keys) d = drop (unat num_keys) data \<and>
    (\<forall>i < unat num_keys. hmap h (keys ! i) \<noteq> None \<longrightarrow> d ! i = snd (the (hmap h (keys ! i))))"
proof -
  define n where "n = unat num_keys"
  have ok: "table_ok h" using assms(1) by (simp add: hash_ok_def)
  have key: "length (keys ! i) = unat (h_key_len h) \<and> hashes_nonzero h (keys ! i)" if "i < n" for i
  proof -
    have "take n keys ! i \<in> set (take n keys)" by (rule nth_mem) (use that assms(4) in \<open>simp add: n_def\<close>)
    then show ?thesis using assms(6) that by (simp add: n_def)
  qed
  then have ks: "bulk_keys h keys n" using ok assms(4) by (simp add: bulk_keys_def n_def)
  from hash_lookup_bulk_ok [OF ks n_def [symmetric], of "replicate n 0" "Some data"] assms(2,3,5) obtain s d where
    s: "hash_lookup_bulk h keys num_keys (replicate n 0) (Some data) = Some s" "bits (bulk_hits s) = {i. i < n \<and> hmap h (keys ! i) \<noteq> None}"
      "bulk_data s = Some d" "length d = length data" "drop n d = drop n data" "\<forall>i < n. hmap h (keys ! i) \<noteq> None \<longrightarrow> d ! i = found_data h (keys ! i)"
    by (auto simp: n_def)
  have "found_data h key = snd (the (hmap h key))" if "hmap h key \<noteq> None" for key using that by (auto simp: found_data_def)
  then show ?thesis unfolding rte_hash_lookup_bulk_data_def n_def [symmetric] using s
    by (intro exI [of _ "bulk_hits s"] exI [of _ d]) (simp add: popcountll_card)
qed

lemma rte_hash_lookup_bulk_data_ok_witness:
  "\<exists>hits d. rte_hash_lookup_bulk_data full_table [[2], [9]] 2 (Some [5, 6]) = Some (1, hits, Some d) \<and> d ! 0 = 0"
proof -
  have "{i. i < unat (2 :: u32) \<and> hmap full_table ([[2], [9]] ! i) \<noteq> None} = {0}"
    by (auto simp: less_2_cases_iff full_table_keys nth_Cons')
  then show ?thesis
    using rte_hash_lookup_bulk_data_ok [OF full_table_ok(1), of 2 "[[2], [9]]" "[5, 6]"] by (auto simp: full_table_keys)
qed

text \<open>
  C38. A table that the code creates for 5 entries with a hash function that returns 0: after its
  first key has been added and deleted, the lookup of this key does not find it, and the bulk
  lookup does. Unused entries have the signature 0 and keep the index of the slot, and the slot
  keeps the bytes of the key.
\<close>

theorem rte_hash_lookup_bulk_finds_deleted:
  "\<exists>st obj h1 h2. rte_hash_create demo_hash_env (Some zero_hash_params) demo_registry = Some (Some 201, st) \<and>
     ht_tables st 201 = Some obj \<and> rte_hash_add_key_data (ho_table obj) 0 [1] 5 = Some (0, h1) \<and>
     rte_hash_del_key h1 0 [1] = Some (0, h2) \<and> rte_hash_lookup h2 [1] = Some (- ENOENT) \<and>
     rte_hash_lookup_bulk h2 [[1]] 1 [9] = Some (0, [0])"
proof -
  let ?h = emptied_table
  have hash: "rte_hash_hash ?h [1] = 0" by (simp add: rte_hash_hash_def emptied_table_fields)
  have bkt: "prim_bkt ?h [1] = \<lparr>signatures = replicate 4 NULL_SIGNATURE, key_idx = [1, 0, 0, 0, 0], flag = replicate 4 0\<rparr>"
    by (simp add: prim_bkt_def hash emptied_table_fields)
  have "prim_matching ?h [1] = {..<4}" by (auto simp: prim_matching_def matching_def bkt hash NULL_SIGNATURE_def)
  moreover have "Min {..<4 :: nat} = 0" by (intro Min_eqI) auto
  moreover have "{..<4 :: nat} \<noteq> {}" by (metis empty_iff lessThan_iff zero_less_numeral)
  ultimately have idx: "match_idx ?h [1] = 1" unfolding match_idx_def Let_def bkt by simp
  have "match_hit ?h [1]" unfolding match_hit_def idx match_slot_def by (simp add: emptied_table_fields del: One_nat_def)
  moreover have "unat (s AND (1 :: u32)) < 2" for s
    using word_and_le1 [of s 1] by (simp add: word_le_nat_alt)
  then have "bulk_ctx ?h [[1]] 1 [9] None" using idx by (simp add: bulk_ctx_def) (simp add: emptied_table_fields)
  ultimately have "rte_hash_lookup_bulk ?h [[1]] 1 [9] = Some (0, filled (\<lambda>i. match_idx ?h ([[1]] ! i) - 1) {..<1} [9])"
    by (intro bulk_all_hit) simp_all
  then have "rte_hash_lookup_bulk ?h [[1]] 1 [9] = Some (0, [0])" using idx by (simp add: filled_def)
  then show ?thesis using emptied_table_run emptied_table_fields(10) by metis
qed

end
