(* ===== verification/Vm_Bytes.thy ===== *)
theory Vm_Bytes
  imports Prelude
begin

text \<open>
  Byte memory as the stream VM of TRex uses it: flow variables, packets and programs are arrays of
  bytes that the code casts to pointers to packed structs and integers. A load or a store outside
  the array is \<open>None\<close>. The machine is little endian.
\<close>

section \<open>Integers as bytes\<close>

fun le_bytes :: "nat \<Rightarrow> nat \<Rightarrow> u8 list" where
  "le_bytes 0 x = []"
| "le_bytes (Suc n) x = of_nat x # le_bytes n (x div 256)"

fun le_nat :: "u8 list \<Rightarrow> nat" where
  "le_nat [] = 0"
| "le_nat (b # bs) = unat b + 256 * le_nat bs"

definition bytes_of :: "'a::len word \<Rightarrow> u8 list" where
  "bytes_of w = le_bytes (LENGTH('a) div 8) (unat w)"

definition word_of_bytes :: "u8 list \<Rightarrow> 'a::len word" where
  "word_of_bytes bs = of_nat (le_nat bs)"

text \<open>\<open>rte_bswap16\<close>, \<open>rte_bswap32\<close> and \<open>rte_bswap64\<close>, which are PKT_NTOHS, PKT_NTOHL and \<open>pal_ntohl64\<close>.\<close>

definition bswap :: "'a::len word \<Rightarrow> 'a word" where
  "bswap w = word_of_bytes (rev (bytes_of w))"

lemma length_le_bytes [simp]: "length (le_bytes n x) = n"
  by (induction n arbitrary: x) simp_all

lemma length_bytes_of [simp]: "length (bytes_of (w :: 'a::len word)) = LENGTH('a) div 8"
  by (simp add: bytes_of_def)

lemma le_nat_less: "le_nat bs < 256 ^ length bs"
proof (induction bs)
  case (Cons b bs)
  have "unat b < 2 ^ LENGTH(8)" by (rule unsigned_less)
  with Cons show ?case by simp
qed simp

lemma le_nat_bytes: "le_nat (le_bytes n x) = x mod 256 ^ n"
proof (induction n arbitrary: x)
  case (Suc n)
  have "x mod 256 + 256 * (x div 256 mod 256 ^ n) = x mod (256 * 256 ^ n)"
    by (metis add.commute mod_mult2_eq)
  with Suc show ?case by (simp add: unat_of_nat)
qed simp

lemma le_bytes_nat: "le_bytes (length bs) (le_nat bs) = bs"
proof (induction bs)
  case (Cons b bs)
  have "unat b < 2 ^ LENGTH(8)" by (rule unsigned_less)
  then have "(unat b + 256 * le_nat bs) div 256 = le_nat bs" by simp
  moreover have "(of_nat (unat b + 256 * le_nat bs) :: u8) = b"
  proof -
    have "unat (of_nat (unat b + 256 * le_nat bs) :: u8) = unat b"
      unfolding unat_of_nat using \<open>unat b < 2 ^ LENGTH(8)\<close> by simp
    then show ?thesis by (simp only: word_unat_eq_iff)
  qed
  ultimately show ?case using Cons by simp
qed simp

text \<open>The widths of the C types: a multiple of 8.\<close>

abbreviation (input) byte_width :: "'a::len itself \<Rightarrow> bool" where
  "byte_width T \<equiv> 8 dvd LENGTH('a)"

lemma width_pow: "byte_width TYPE('a::len) \<Longrightarrow> (256 :: nat) ^ (LENGTH('a) div 8) = 2 ^ LENGTH('a)"
proof -
  assume "byte_width TYPE('a)"
  then obtain k where "LENGTH('a) = 8 * k" by (rule dvdE)
  then show ?thesis by (simp add: power_mult)
qed

lemma word_bytes_of [simp]: "byte_width TYPE('a::len) \<Longrightarrow> word_of_bytes (bytes_of (w :: 'a word)) = w"
  using unsigned_less [of w] by (simp add: word_of_bytes_def bytes_of_def le_nat_bytes width_pow)

lemma bytes_of_word [simp]:
  assumes "byte_width TYPE('a::len)" and "length bs = LENGTH('a) div 8"
  shows "bytes_of (word_of_bytes bs :: 'a word) = bs"
proof -
  have "le_nat bs < 2 ^ LENGTH('a)" using le_nat_less [of bs] assms by (simp add: width_pow)
  then show ?thesis using le_bytes_nat [of bs] assms(2) by (simp add: bytes_of_def word_of_bytes_def unat_of_nat)
qed

lemma bytes_bswap [simp]: "byte_width TYPE('a::len) \<Longrightarrow> bytes_of (bswap (w :: 'a word)) = rev (bytes_of w)"
  by (simp add: bswap_def)

lemma bswap_bswap [simp]: "byte_width TYPE('a::len) \<Longrightarrow> bswap (bswap (w :: 'a word)) = w"
  by (simp add: bswap_def)

lemma bswap_8 [simp]: "bswap (w :: u8) = w"
proof -
  have "length (bytes_of w) = 1" by simp
  then obtain b where "bytes_of w = [b]" by (metis One_nat_def length_0_conv length_Suc_conv)
  then have "rev (bytes_of w) = bytes_of w" by simp
  then show ?thesis by (simp add: bswap_def)
qed

section \<open>Loads and stores\<close>

definition mem_get :: "u8 list \<Rightarrow> nat \<Rightarrow> 'a::len word option" where
  "mem_get m off =
     (let n = LENGTH('a) div 8 in if off + n \<le> length m then Some (word_of_bytes (take n (drop off m))) else None)"

definition mem_put :: "u8 list \<Rightarrow> nat \<Rightarrow> 'a::len word \<Rightarrow> u8 list option" where
  "mem_put m off w =
     (let n = LENGTH('a) div 8 in if off + n \<le> length m then Some (take off m @ bytes_of w @ drop (off + n) m) else None)"

lemma mem_get_Some: "off + LENGTH('a::len) div 8 \<le> length m \<Longrightarrow>
    mem_get m off = Some (word_of_bytes (take (LENGTH('a) div 8) (drop off m)) :: 'a word)"
  by (simp add: mem_get_def)

lemma mem_put_Some: "off + LENGTH('a::len) div 8 \<le> length m \<Longrightarrow>
    mem_put m off (w :: 'a word) = Some (take off m @ bytes_of w @ drop (off + LENGTH('a) div 8) m)"
  by (simp add: mem_put_def)

lemma mem_get_iff: "(\<exists>w :: 'a::len word. mem_get m off = Some w) \<longleftrightarrow> off + LENGTH('a) div 8 \<le> length m"
  by (auto simp: mem_get_def Let_def split: if_splits)

lemma mem_put_length: "mem_put m off w = Some m' \<Longrightarrow> length m' = length m"
  by (auto simp: mem_put_def Let_def split: if_splits)

lemma mem_put_nth:
  assumes "mem_put m off (w :: 'a::len word) = Some m'" and "i < off \<or> off + LENGTH('a) div 8 \<le> i"
  shows "m' ! i = m ! i"
  using assms by (auto simp: mem_put_def Let_def nth_append split: if_splits)

lemma mem_put_bytes:
  assumes "mem_put m off (w :: 'a::len word) = Some m'"
  shows "take (LENGTH('a) div 8) (drop off m') = bytes_of w"
  using assms by (auto simp: mem_put_def Let_def split: if_splits)

lemma mem_get_put:
  assumes "byte_width TYPE('a::len)" and "mem_put m off (w :: 'a word) = Some m'"
  shows "mem_get m' off = Some w"
proof -
  have "off + LENGTH('a) div 8 \<le> length m'" using assms(2) by (auto simp: mem_put_def Let_def split: if_splits)
  then show ?thesis using mem_put_bytes [OF assms(2)] assms(1) by (simp add: mem_get_Some)
qed

text \<open>Loads that do not overlap a store.\<close>

lemma slice_cong:
  assumes "length m = length m'" and "\<And>i. off \<le> i \<Longrightarrow> i < off + n \<Longrightarrow> i < length m \<Longrightarrow> m ! i = m' ! i"
  shows "take n (drop off m) = take n (drop off m')"
  by (rule nth_equalityI) (use assms in auto)

lemma mem_get_cong:
  assumes "length m = length m'" and "\<And>i. off \<le> i \<Longrightarrow> i < off + LENGTH('a::len) div 8 \<Longrightarrow> i < length m \<Longrightarrow> m ! i = m' ! i"
  shows "mem_get m off = (mem_get m' off :: 'a word option)"
  using slice_cong [OF assms] assms(1) by (simp add: mem_get_def Let_def)

lemma mem_get_put_other:
  assumes "mem_put m off (w :: 'a::len word) = Some m'" and "off' + LENGTH('b::len) div 8 \<le> off \<or> off + LENGTH('a) div 8 \<le> off'"
  shows "mem_get m' off' = (mem_get m off' :: 'b word option)"
  by (rule mem_get_cong [symmetric]) (use mem_put_length [OF assms(1)] mem_put_nth [OF assms(1)] assms(2) in auto)

section \<open>Halves of a 32-bit word\<close>

lemma le_bytes_add: "le_bytes (a + b) x = le_bytes a x @ le_bytes b (x div 256 ^ a)"
  by (induction a arbitrary: x) (simp_all add: div_mult2_eq)

lemma le_bytes_mod: "le_bytes n (x mod 256 ^ n) = le_bytes n x"
  using le_bytes_nat [of "le_bytes n x"] by (simp add: le_nat_bytes)

definition low_half :: "u32 \<Rightarrow> u16" where "low_half w = ucast (w AND 0xffff)"
definition high_half :: "u32 \<Rightarrow> u16" where "high_half w = ucast (drop_bit 16 (w AND 0xffff0000))"

lemma unat_halves: "unat (low_half w) = unat w mod 65536" "unat (high_half w) = unat w div 65536"
proof -
  have less: "unat w < 2 ^ LENGTH(32)" by (rule unsigned_less)
  have "unat (w AND mask 16) = unat w mod 2 ^ 16" by (rule unat_and_mask)
  then have "unat (w AND 0xffff) = unat w mod 65536" by (simp add: mask_eq_exp_minus_1)
  then show "unat (low_half w) = unat w mod 65536" by (simp add: low_half_def unsigned_ucast_eq take_bit_eq_mod)
  have "drop_bit 16 (w AND 0xffff0000) = drop_bit 16 w"
  proof -
    have "drop_bit 16 (w AND 0xffff0000) = drop_bit 16 w AND drop_bit 16 0xffff0000" by (rule drop_bit_and)
    also have "drop_bit 16 (0xffff0000 :: u32) = mask 16" by code_simp
    also have "drop_bit 16 w AND mask 16 = take_bit 16 (drop_bit 16 w)" by (simp add: take_bit_eq_mask)
    also have "\<dots> = drop_bit 16 w" by (rule bit_word_eqI) (auto simp: bit_simps dest: bit_imp_le_length)
    finally show ?thesis .
  qed
  moreover have "unat (drop_bit 16 w) = unat w div 65536" unfolding unat_drop_bit_eq by (simp add: drop_bit_eq_div)
  ultimately show "unat (high_half w) = unat w div 65536" using less by (simp add: high_half_def unsigned_ucast_eq take_bit_eq_mod)
qed

lemma bytes_halves: "bytes_of w = bytes_of (low_half w) @ bytes_of (high_half w)"
  using le_bytes_add [of 2 2 "unat w"] le_bytes_mod [of 2 "unat w"] by (simp add: bytes_of_def unat_halves)

lemma mem_get_halves:
  assumes "mem_get m off = Some (w :: u32)"
  shows "mem_get m off = Some (low_half w)" "mem_get m (off + 2) = Some (high_half w)"
proof -
  have in4: "off + 4 \<le> length m" and w: "w = word_of_bytes (take 4 (drop off m))"
    using assms by (auto simp: mem_get_def split: if_splits)
  have "bytes_of w = take 4 (drop off m)" unfolding w by (rule bytes_of_word) (use in4 in simp_all)
  then have "take (2 + 2) (drop off m) = bytes_of (low_half w) @ bytes_of (high_half w)" by (simp add: bytes_halves)
  then have "take 2 (drop off m) = bytes_of (low_half w)" "take 2 (drop (off + 2) m) = bytes_of (high_half w)"
    unfolding take_add using in4 by (simp_all add: append_eq_append_conv add.commute)
  then show "mem_get m off = Some (low_half w)" "mem_get m (off + 2) = Some (high_half w)"
    using in4 by (simp_all add: mem_get_def)
qed

lemma mem_put_halves:
  "mem_put m off (w :: u32) = do { m \<leftarrow> mem_put m off (low_half w); mem_put m (off + 2) (high_half w) }"
  by (auto simp: mem_put_def bytes_halves [of w]) (simp add: numeral_eq_Suc)

end
