(* ===== verification/Vm_Checksum.thy ===== *)
theory Vm_Checksum
  imports Vm_Bytes
begin

text \<open>
  The Internet checksum of \<open>CPktCmn.cpp\<close> and the operations of \<open>IPHeader\<close> that keep the
  checksum of an IPv4 header: the whole computation and the incremental updates.
\<close>

section \<open>The checksum of a buffer\<close>

text \<open>
  The sum of the 16-bit words in network order. The C variable is an \<open>int\<close>; \<open>inet_sum_int\<close> shows
  that it does not overflow. For an odd length the code reads the whole last word.
\<close>

fun inet_sum :: "u8 list \<Rightarrow> nat \<Rightarrow> nat \<Rightarrow> nat \<Rightarrow> nat option" where
  "inet_sum m data 0 s = Some s"
| "inet_sum m data (Suc 0) s = do {
     w \<leftarrow> (mem_get m data :: u16 option);
     Some (s + unat (bswap w AND 0xff00)) }"
| "inet_sum m data (Suc (Suc len)) s = do {
     w \<leftarrow> (mem_get m data :: u16 option);
     inet_sum m (data + 2) len (s + unat (bswap w)) }"

function fold_carry :: "nat \<Rightarrow> nat" where
  "fold_carry s = (if s div 65536 \<noteq> 0 then fold_carry (s mod 65536 + s div 65536) else s)"
  by auto
termination
proof (relation "measure id")
  fix s :: nat
  assume "s div 65536 \<noteq> 0"
  moreover have "s = 65536 * (s div 65536) + s mod 65536" by simp
  ultimately have "s mod 65536 + s div 65536 < s" by linarith
  then show "(s mod 65536 + s div 65536, s) \<in> measure id" by simp
qed simp

definition pkt_InetChecksum :: "u8 list \<Rightarrow> nat \<Rightarrow> nat \<Rightarrow> u16 option" where
  "pkt_InetChecksum m data len = do {
     s \<leftarrow> inet_sum m data len 0;
     Some (bswap (NOT (of_nat (fold_carry s)))) }"

definition pkt_InetChecksum2 :: "u8 list \<Rightarrow> nat \<Rightarrow> nat \<Rightarrow> u8 list \<Rightarrow> nat \<Rightarrow> nat \<Rightarrow> u16 option" where
  "pkt_InetChecksum2 m data len m2 data2 len2 = do {
     s \<leftarrow> inet_sum m data (len - len mod 2) 0;
     s \<leftarrow> inet_sum m2 data2 len2 s;
     Some (bswap (NOT (of_nat (fold_carry s)))) }"

text \<open>The incremental forms; their arguments and results are in network order.\<close>

definition pkt_UpdateInetChecksum :: "u16 \<Rightarrow> u16 \<Rightarrow> u16 \<Rightarrow> u16" where
  "pkt_UpdateInetChecksum csFieldFromPacket oldVal newVal =
     bswap (NOT (of_nat (fold_carry
       (unat (NOT (bswap csFieldFromPacket)) + unat (NOT (bswap oldVal)) + unat (bswap newVal)))))"

definition pkt_SubtractInetChecksum :: "u16 \<Rightarrow> u16 \<Rightarrow> u16" where
  "pkt_SubtractInetChecksum checksum csToSubtract =
     bswap (NOT (of_nat (fold_carry (unat (NOT (bswap checksum)) + unat (bswap csToSubtract)))))"

definition pkt_AddInetChecksum :: "u16 \<Rightarrow> u16 \<Rightarrow> u16" where
  "pkt_AddInetChecksum checksum csToAdd =
     bswap (NOT (of_nat (fold_carry (unat (NOT (bswap checksum)) + unat (bswap (NOT csToAdd))))))"

section \<open>The IPv4 header\<close>

text \<open>\<open>ip\<close> is the offset of the header in the buffer \<open>m\<close>.\<close>

definition getHeaderLength :: "u8 list \<Rightarrow> nat \<Rightarrow> nat option" where
  "getHeaderLength m ip = do {
     v \<leftarrow> (mem_get m ip :: u8 option);
     Some (unat (push_bit 2 (v AND 0x0f))) }"

definition isChecksumOK :: "u8 list \<Rightarrow> nat \<Rightarrow> bool option" where
  "isChecksumOK m ip = do {
     size \<leftarrow> getHeaderLength m ip;
     theChecksum \<leftarrow> pkt_InetChecksum m ip size;
     Some (theChecksum = 0) }"

definition updateCheckSum :: "u8 list \<Rightarrow> nat \<Rightarrow> u8 list option" where
  "updateCheckSum m ip = do {
     m \<leftarrow> mem_put m (ip + 10) (0 :: u16);
     size \<leftarrow> getHeaderLength m ip;
     cs \<leftarrow> pkt_InetChecksum m ip size;
     mem_put m (ip + 10) cs }"

definition updateCheckSum_field :: "u8 list \<Rightarrow> nat \<Rightarrow> u16 \<Rightarrow> u16 \<Rightarrow> u8 list option" where
  "updateCheckSum_field m ip old_val new_val = do {
     cs \<leftarrow> mem_get m (ip + 10);
     mem_put m (ip + 10) (pkt_UpdateInetChecksum cs old_val new_val) }"

definition updateTos :: "u8 list \<Rightarrow> nat \<Rightarrow> u8 \<Rightarrow> u8 list option" where
  "updateTos m ip newTos = do {
     oldWord \<leftarrow> mem_get m ip;
     m \<leftarrow> mem_put m (ip + 1) newTos;
     newWord \<leftarrow> mem_get m ip;
     updateCheckSum_field m ip oldWord newWord }"

definition updateTotalLength :: "u8 list \<Rightarrow> nat \<Rightarrow> u16 \<Rightarrow> u8 list option" where
  "updateTotalLength m ip newlen = do {
     oldLen \<leftarrow> mem_get m (ip + 2);
     m \<leftarrow> mem_put m (ip + 2) (bswap newlen);
     updateCheckSum_field m ip oldLen (bswap newlen) }"

text \<open>\<open>updateIpSrc\<close> and \<open>updateIpDst\<close>, for the address at the offset 12 or 16.\<close>

definition updateIp :: "nat \<Rightarrow> u8 list \<Rightarrow> nat \<Rightarrow> u32 \<Rightarrow> u8 list option" where
  "updateIp field m ip ipsrc = do {
     old \<leftarrow> (mem_get m (ip + field) :: u32 option);
     let new_src = bswap ipsrc;
     m \<leftarrow> updateCheckSum_field m ip (high_half old) (high_half new_src);
     m \<leftarrow> updateCheckSum_field m ip (low_half old) (low_half new_src);
     mem_put m (ip + field) new_src }"

abbreviation updateIpSrc :: "u8 list \<Rightarrow> nat \<Rightarrow> u32 \<Rightarrow> u8 list option" where "updateIpSrc \<equiv> updateIp 12"
abbreviation updateIpDst :: "u8 list \<Rightarrow> nat \<Rightarrow> u32 \<Rightarrow> u8 list option" where "updateIpDst \<equiv> updateIp 16"

section \<open>One's complement sums\<close>

text \<open>The sum of a list of bytes as RFC 1071 states it.\<close>

fun be_sum :: "u8 list \<Rightarrow> nat" where
  "be_sum [] = 0"
| "be_sum [a] = 256 * unat a"
| "be_sum (a # b # bs) = 256 * unat a + unat b + be_sum bs"

declare fold_carry.simps [simp del]

lemma fold_carry_mod: "fold_carry s mod 65535 = s mod 65535"
proof (induction s rule: fold_carry.induct)
  case (1 s)
  show ?case
  proof (cases "s div 65536 = 0")
    case False
    have "s mod 65536 + s div 65536 + 65535 * (s div 65536) = s" by (simp add: algebra_simps)
    then have "(s mod 65536 + s div 65536) mod 65535 = s mod 65535" by (metis mod_mult_self2)
    then show ?thesis using 1 [OF False] False by (subst fold_carry.simps) simp
  qed (subst fold_carry.simps, simp)
qed

lemma fold_carry_less: "fold_carry s < 65536"
proof (induction s rule: fold_carry.induct)
  case (1 s)
  then show ?case by (cases "s div 65536 = 0") (subst fold_carry.simps, simp add: div_eq_0_iff)+
qed

lemma fold_carry_0 [simp]: "fold_carry s = 0 \<longleftrightarrow> s = 0"
proof (induction s rule: fold_carry.induct)
  case (1 s)
  show ?case
  proof (cases "s div 65536 = 0")
    case False
    then have "s mod 65536 + s div 65536 \<noteq> 0" "s \<noteq> 0" by auto
    then show ?thesis using 1 [OF False] False by (subst fold_carry.simps) simp
  qed (subst fold_carry.simps, simp)
qed

lemma fold_carry_full: "fold_carry s = 65535 \<longleftrightarrow> s mod 65535 = 0 \<and> 0 < s"
proof
  assume full: "fold_carry s = 65535"
  then have "s mod 65535 = 0" using fold_carry_mod [of s] by simp
  moreover have "s \<noteq> 0" using full fold_carry_0 [of s] by linarith
  ultimately show "s mod 65535 = 0 \<and> 0 < s" by simp
next
  assume s: "s mod 65535 = 0 \<and> 0 < s"
  then have "fold_carry s mod 65535 = 0" using fold_carry_mod [of s] by simp
  then obtain k where "fold_carry s = 65535 * k" by (blast elim: dvdE dest: mod_0_imp_dvd)
  moreover have "fold_carry s \<noteq> 0" using s fold_carry_0 [of s] by simp
  ultimately show "fold_carry s = 65535" using fold_carry_less [of s] by simp
qed

lemma not_16: "unat (NOT (w :: u16)) = 65535 - unat w"
proof -
  have "NOT w = - 1 - w" by (simp add: not_eq_complement)
  moreover have "unat (- 1 - w) = unat (- 1 :: u16) - unat w" by (rule unat_sub) simp
  ultimately show ?thesis by (simp add: unsigned_minus_1_eq_mask mask_eq_exp_minus_1)
qed

lemma bswap_16:
  assumes "bytes_of (w :: u16) = [a, b]"
  shows "unat (bswap w) = 256 * unat a + unat b"
proof -
  have "unat a < 2 ^ LENGTH(8)" "unat b < 2 ^ LENGTH(8)" by (rule unsigned_less)+
  then have "256 * unat a + unat b < 65536" by simp
  moreover have "le_nat (rev (bytes_of w)) = 256 * unat a + unat b" using assms by simp
  ultimately show ?thesis unfolding bswap_def word_of_bytes_def by (simp only: unat_of_nat) simp
qed

lemma bytes_16: obtains a b where "bytes_of (w :: u16) = [a, b]"
proof -
  have "length (bytes_of w) = Suc (Suc 0)" by simp
  then show ?thesis using that by (auto simp only: length_Suc_conv length_0_conv)
qed

lemma be_sum_bytes: "be_sum (bytes_of (w :: u16)) = unat (bswap w)"
  by (rule bytes_16 [of w]) (simp add: bswap_16)

lemma bswap_16_0: "bswap (w :: u16) = 0 \<longleftrightarrow> w = 0"
proof -
  have "bswap (bswap w) = w" by (rule bswap_bswap) simp
  moreover have "bswap 0 = (0 :: u16)" by code_simp
  ultimately show ?thesis by metis
qed

lemma be_sum_append: "even (length xs) \<Longrightarrow> be_sum (xs @ ys) = be_sum xs + be_sum ys"
  by (induction xs rule: be_sum.induct) simp_all

lemma get_16: "mem_get m off = Some (w :: u16) \<Longrightarrow> take 2 (drop off m) = bytes_of w"
  by (auto simp: mem_get_def split: if_splits)

lemma inet_sum_ok: "even len \<Longrightarrow> data + len \<le> length m \<Longrightarrow> inet_sum m data len s = Some (s + be_sum (take len (drop data m)))"
proof (induction m data len s rule: inet_sum.induct)
  case (3 m data len s)
  then have in2: "data + 2 \<le> length m" by simp
  then obtain w where w: "mem_get m data = Some (w :: u16)" by (simp add: mem_get_Some)
  have "take (Suc (Suc len)) (drop data m) = take 2 (drop data m) @ take len (drop (data + 2) m)"
    using take_add [of 2 len "drop data m"] by (simp add: add.commute)
  then have "be_sum (take (Suc (Suc len)) (drop data m)) = unat (bswap w) + be_sum (take len (drop (data + 2) m))"
    using get_16 [OF w] by (simp add: be_sum_append be_sum_bytes)
  then show ?case using 3 w by simp
qed simp_all

lemma be_sum_bound: "be_sum bs \<le> 65535 * ((length bs + 1) div 2)"
proof (induction bs rule: be_sum.induct)
  case (2 a)
  have "unat a < 2 ^ LENGTH(8)" by (rule unsigned_less)
  then show ?case by simp
next
  case (3 a b bs)
  have "unat a < 2 ^ LENGTH(8)" "unat b < 2 ^ LENGTH(8)" by (rule unsigned_less)+
  then show ?case using 3 by simp
qed simp

text \<open>The C variable does not overflow for any length that a \<open>uint16_t\<close> holds.\<close>

lemma inet_sum_int: "length bs \<le> 65535 \<Longrightarrow> be_sum bs < 2 ^ 31"
  using be_sum_bound [of bs] by simp

section \<open>Headers\<close>

definition header :: "u8 list \<Rightarrow> nat \<Rightarrow> nat \<Rightarrow> u8 list" where
  "header m ip n = take n (drop ip m)"

lemma getHeaderLength_facts:
  assumes "getHeaderLength m ip = Some n"
  shows "4 dvd n" "n \<le> 60" "ip < length m" "n = 4 * (unat (m ! ip) mod 16)"
proof -
  have in1: "ip < length m" and n: "n = unat (push_bit 2 (m ! ip AND 0x0f))"
    using assms by (auto simp: getHeaderLength_def mem_get_def word_of_bytes_def take_Suc_conv_app_nth Let_def split: if_splits)
  have "unat (m ! ip AND mask 4) = unat (m ! ip) mod 2 ^ 4" by (rule unat_and_mask)
  then have a: "unat (m ! ip AND 0x0f) = unat (m ! ip) mod 16" by (simp add: mask_eq_exp_minus_1)
  then have "unat (m ! ip AND 0x0f) < 16" by simp
  then have "unat (4 * (m ! ip AND 0x0f)) = 4 * unat (m ! ip AND 0x0f)" by (simp add: unat_word_ariths(2))
  moreover have "push_bit 2 (m ! ip AND 0x0f) = 4 * (m ! ip AND 0x0f)" by (simp add: push_bit_eq_mult)
  ultimately have "n = 4 * (unat (m ! ip) mod 16)" using n a by simp
  then show "n = 4 * (unat (m ! ip) mod 16)" "4 dvd n" by simp_all
  then show "n \<le> 60" "ip < length m" using in1 by simp_all
qed

lemma isChecksumOK_sum:
  assumes "getHeaderLength m ip = Some n" and "ip + n \<le> length m"
  shows "isChecksumOK m ip = Some (be_sum (header m ip n) mod 65535 = 0 \<and> 0 < be_sum (header m ip n))"
proof -
  let ?F = "fold_carry (be_sum (header m ip n))"
  have "even n" using getHeaderLength_facts(1) [OF assms(1)] by (auto elim: dvdE)
  then have "pkt_InetChecksum m ip n = Some (bswap (NOT (of_nat ?F)))"
    using inet_sum_ok [of n ip m 0] assms(2) by (simp add: pkt_InetChecksum_def header_def)
  moreover have "bswap (NOT (of_nat ?F :: u16)) = 0 \<longleftrightarrow> ?F = 65535"
  proof -
    have f: "unat (of_nat ?F :: u16) = ?F" by (rule unat_of_nat_less) (use fold_carry_less in simp)
    have "bswap (NOT (of_nat ?F :: u16)) = 0 \<longleftrightarrow> unat (NOT (of_nat ?F :: u16)) = 0" by (simp add: bswap_16_0 unat_eq_0)
    then show ?thesis unfolding not_16 f using fold_carry_less [of "be_sum (header m ip n)"] by linarith
  qed
  ultimately show ?thesis using assms(1) unfolding isChecksumOK_def fold_carry_full by simp
qed

text \<open>A 16-bit field at an even offset of the header is one summand.\<close>

lemma header_put_16:
  assumes "mem_put m (ip + f) (w :: u16) = Some m'" and "mem_get m (ip + f) = Some (old :: u16)" and "even f" and "f + 2 \<le> n" and "ip + n \<le> length m"
  shows "be_sum (header m' ip n) + unat (bswap old) = be_sum (header m ip n) + unat (bswap w)"
proof -
  have m': "m' = take (ip + f) m @ bytes_of w @ drop (ip + f + 2) m" using assms(1) by (simp add: mem_put_def Let_def split: if_splits)
  have old: "take 2 (drop (ip + f) m) = bytes_of old" using assms(2) by (rule get_16)
  have parts: "drop ip m = take f (drop ip m) @ bytes_of old @ drop (ip + f + 2) m"
    using old append_take_drop_id [of f "drop ip m"] append_take_drop_id [of 2 "drop (ip + f) m"]
    by (metis add.commute add.left_commute drop_drop)
  have cut: "take n (take f (drop ip m) @ bytes_of w @ ys) = take f (drop ip m) @ bytes_of w @ take (n - (f + 2)) ys" for w :: u16 and ys
    using assms(4,5) by (simp add: take_append min_def)
  have h: "header m ip n = take f (drop ip m) @ bytes_of old @ take (n - (f + 2)) (drop (ip + f + 2) m)"
    unfolding header_def by (subst parts) (rule cut)
  have "drop ip m' = take f (drop ip m) @ bytes_of w @ drop (ip + f + 2) m"
    unfolding m' using assms(4,5) by (simp add: drop_take add.commute)
  then have h': "header m' ip n = take f (drop ip m) @ bytes_of w @ take (n - (f + 2)) (drop (ip + f + 2) m)"
    unfolding header_def by (simp only: cut)
  have "even (length (take f (drop ip m)))" using assms(3-5) by simp
  then show ?thesis unfolding h h' by (simp add: be_sum_append be_sum_bytes)
qed

lemma header_length_put:
  assumes "mem_put m (ip + f) (w :: 'a::len word) = Some m'" and "0 < f"
  shows "getHeaderLength m' ip = getHeaderLength m ip"
proof -
  have "mem_get m' ip = (mem_get m ip :: u8 option)" by (rule mem_get_put_other [OF assms(1)]) (use assms(2) in simp)
  then show ?thesis by (simp add: getHeaderLength_def)
qed

lemma header_positive:
  assumes "getHeaderLength m ip = Some n" and "0 < n" and "ip + n \<le> length m"
  shows "0 < be_sum (header m ip n)"
proof -
  have "unat (m ! ip) \<noteq> 0" "2 \<le> n" using getHeaderLength_facts(1,4) [OF assms(1)] assms(2) by (auto elim: dvdE)
  moreover have "header m ip n = m ! ip # m ! Suc ip # take (n - 2) (drop (Suc (Suc ip)) m)"
  proof -
    have "drop ip m = m ! ip # m ! Suc ip # drop (Suc (Suc ip)) m"
      using calculation(2) assms(3) by (simp add: Cons_nth_drop_Suc)
    moreover obtain k where "n = Suc (Suc k)" using \<open>2 \<le> n\<close> by (metis Suc_le_D numeral_2_eq_2 Suc_le_mono)
    ultimately show ?thesis by (simp add: header_def)
  qed
  ultimately show ?thesis by simp
qed

section \<open>The operations on headers\<close>

text \<open>A header of at least 20 bytes that lies in the buffer.\<close>

definition header_in :: "u8 list \<Rightarrow> nat \<Rightarrow> bool" where
  "header_in m ip \<longleftrightarrow> (\<exists>n. getHeaderLength m ip = Some n \<and> 20 \<le> n \<and> ip + n \<le> length m)"

definition header_sum :: "u8 list \<Rightarrow> nat \<Rightarrow> nat" where
  "header_sum m ip = be_sum (header m ip (the (getHeaderLength m ip)))"

lemma isChecksumOK_iff:
  assumes "header_in m ip"
  shows "isChecksumOK m ip = Some (header_sum m ip mod 65535 = 0)"
proof -
  obtain n where n: "getHeaderLength m ip = Some n" "20 \<le> n" "ip + n \<le> length m" using assms by (auto simp: header_in_def)
  have "0 < be_sum (header m ip n)" using header_positive [OF n(1) _ n(3)] n(2) by simp
  then show ?thesis using isChecksumOK_sum [OF n(1,3)] n(1) by (simp add: header_sum_def)
qed

lemma header_store:
  assumes "header_in m ip" and "even f" and "0 < f" and "f \<le> 18"
  shows "\<exists>old m'. mem_get m (ip + f) = Some (old :: u16) \<and> mem_put m (ip + f) (w :: u16) = Some m' \<and> header_in m' ip \<and>
    header_sum m' ip + unat (bswap old) = header_sum m ip + unat (bswap w) \<and> mem_get m' (ip + f) = Some w"
proof -
  obtain n where n: "getHeaderLength m ip = Some n" "20 \<le> n" "ip + n \<le> length m" using assms by (auto simp: header_in_def)
  have room: "ip + f + LENGTH(16) div 8 \<le> length m" using n assms(4) by simp
  obtain old where old: "mem_get m (ip + f) = Some (old :: u16)" using mem_get_Some [OF room] by blast
  obtain m' where m': "mem_put m (ip + f) w = Some m'" using mem_put_Some [OF room] by blast
  have "getHeaderLength m' ip = Some n" "length m' = length m"
    using header_length_put [OF m' assms(3)] n(1) mem_put_length [OF m'] by simp_all
  moreover have "be_sum (header m' ip n) + unat (bswap old) = be_sum (header m ip n) + unat (bswap w)"
    by (rule header_put_16 [OF m' old assms(2) _ n(3)]) (use assms(4) n(2) in simp)
  moreover have "mem_get m' (ip + f) = Some w" using m' by (intro mem_get_put) simp_all
  ultimately show ?thesis using old m' n by (simp add: header_in_def header_sum_def)
qed

lemma unat_16: "unat (w :: u16) \<le> 65535"
proof -
  have "unat w < 2 ^ LENGTH(16)" by (rule unsigned_less)
  then show ?thesis by simp
qed

lemma nat_mod_iff_dvd: "a mod n = b mod n \<longleftrightarrow> int n dvd int a - int b" for a b n :: nat
  by (metis mod_eq_dvd_iff of_nat_eq_iff of_nat_mod)

lemma nat_mod_cancel: "(a + x) mod n = (b + x) mod n \<longleftrightarrow> a mod n = b mod n" for a b n x :: nat
  by (simp add: nat_mod_iff_dvd)

lemma mod_exchange:
  fixes a b x y u v k :: nat
  assumes "(x + u) mod k = (y + v) mod k" and "b + y = a + x"
  shows "(b + u) mod k = (a + v) mod k"
proof -
  have "b + u + y = a + (x + u)" using assms(2) by linarith
  then have "(b + u + y) mod k = (a + (x + u)) mod k" by (simp only:)
  also have "\<dots> = (a + (y + v)) mod k" using assms(1) by (metis mod_add_right_eq)
  also have "\<dots> = (a + v + y) mod k" by (simp add: algebra_simps)
  finally show ?thesis unfolding nat_mod_cancel .
qed

lemma ones_complement_update:
  fixes c old new F :: nat
  assumes "c \<le> 65535" and "old \<le> 65535" and "F \<le> 65535" and "F mod 65535 = (65535 - c + (65535 - old) + new) mod 65535"
  shows "(65535 - F + new) mod 65535 = (c + old) mod 65535"
proof -
  obtain k where "int F - int (65535 - c + (65535 - old) + new) = int 65535 * k"
    using assms(4) unfolding nat_mod_iff_dvd by (blast elim: dvdE)
  then have "int (65535 - F + new) - int (c + old) = int 65535 * (- k - 1)" using assms(1-3) by (simp add: of_nat_diff)
  then show ?thesis unfolding nat_mod_iff_dvd by (metis dvd_triv_left)
qed

lemma update_mod:
  "(unat (bswap (pkt_UpdateInetChecksum cs old new)) + unat (bswap new)) mod 65535 = (unat (bswap cs) + unat (bswap old)) mod 65535"
proof -
  let ?c = "unat (bswap cs)" let ?o = "unat (bswap old)" let ?n = "unat (bswap new)"
  let ?s = "65535 - ?c + (65535 - ?o) + ?n"
  note le = unat_16 [of "bswap cs"] unat_16 [of "bswap old"]
  have f: "unat (of_nat (fold_carry ?s) :: u16) = fold_carry ?s" by (rule unat_of_nat_less) (use fold_carry_less in simp)
  have "pkt_UpdateInetChecksum cs old new = bswap (NOT (of_nat (fold_carry ?s)))"
    unfolding pkt_UpdateInetChecksum_def not_16 by (rule refl)
  moreover have "bswap (bswap w) = w" for w :: u16 by simp
  ultimately have new: "unat (bswap (pkt_UpdateInetChecksum cs old new)) = 65535 - fold_carry ?s"
    by (simp only: not_16 f)
  have "fold_carry ?s \<le> 65535" using fold_carry_less [of ?s] by simp
  from ones_complement_update [OF le this fold_carry_mod] show ?thesis unfolding new .
qed

lemma bswap_16_zero [simp]: "bswap (0 :: u16) = 0"
  by (simp add: bswap_16_0)

lemma updateCheckSum_field_ok:
  assumes "header_in m ip"
  shows "\<exists>m'. updateCheckSum_field m ip old new = Some m' \<and> header_in m' ip \<and> length m' = length m \<and>
    (\<forall>i. i < ip + 10 \<or> ip + 12 \<le> i \<longrightarrow> m' ! i = m ! i) \<and>
    (header_sum m' ip + unat (bswap new)) mod 65535 = (header_sum m ip + unat (bswap old)) mod 65535"
proof -
  obtain cs where cs: "mem_get m (ip + 10) = Some (cs :: u16)" using header_store [OF assms, of 10 0] by auto
  obtain m' where c: "mem_put m (ip + 10) (pkt_UpdateInetChecksum cs old new) = Some m'" "header_in m' ip"
      "header_sum m' ip + unat (bswap cs) = header_sum m ip + unat (bswap (pkt_UpdateInetChecksum cs old new))"
    using header_store [OF assms, of 10 "pkt_UpdateInetChecksum cs old new"] cs by auto
  have "(header_sum m' ip + unat (bswap new)) mod 65535 = (header_sum m ip + unat (bswap old)) mod 65535"
    by (rule mod_exchange [OF update_mod c(3)])
  then show ?thesis using cs c mem_put_length [OF c(1)] mem_put_nth [OF c(1)] by (simp add: updateCheckSum_field_def)
qed

lemma checksum_kept:
  assumes "header_in m ip" and "isChecksumOK m ip = Some True" and "header_in m' ip" and "header_sum m' ip mod 65535 = header_sum m ip mod 65535"
  shows "isChecksumOK m' ip = Some True"
  using assms by (simp add: isChecksumOK_iff)

lemma updateTotalLength_ok:
  assumes "header_in m ip"
  shows "\<exists>m'. updateTotalLength m ip len = Some m' \<and> header_in m' ip \<and> header_sum m' ip mod 65535 = header_sum m ip mod 65535 \<and>
    mem_get m' (ip + 2) = Some (bswap len)"
proof -
  obtain old m1 where 1: "mem_get m (ip + 2) = Some (old :: u16)" "mem_put m (ip + 2) (bswap len) = Some m1" "header_in m1 ip"
      "header_sum m1 ip + unat (bswap old) = header_sum m ip + unat (bswap (bswap len))" "mem_get m1 (ip + 2) = Some (bswap len)"
    using header_store [OF assms, of 2 "bswap len"] by auto
  obtain m2 where 2: "updateCheckSum_field m1 ip old (bswap len) = Some m2" "header_in m2 ip" "length m2 = length m1"
      "\<forall>i. i < ip + 10 \<or> ip + 12 \<le> i \<longrightarrow> m2 ! i = m1 ! i"
      "(header_sum m2 ip + unat (bswap (bswap len))) mod 65535 = (header_sum m1 ip + unat (bswap old)) mod 65535"
    using updateCheckSum_field_ok [OF 1(3), of old "bswap len"] by blast
  have "mem_get m2 (ip + 2) = (mem_get m1 (ip + 2) :: u16 option)" by (rule mem_get_cong) (use 2(3,4) in auto)
  moreover have "header_sum m2 ip mod 65535 = header_sum m ip mod 65535" using 2(5) unfolding 1(4) nat_mod_cancel .
  ultimately show ?thesis using 1 2 by (simp add: updateTotalLength_def)
qed

lemma updateTos_ok:
  assumes "header_in m ip"
  shows "\<exists>m'. updateTos m ip tos = Some m' \<and> header_in m' ip \<and> header_sum m' ip mod 65535 = header_sum m ip mod 65535 \<and> m' ! (ip + 1) = tos"
proof -
  obtain n where n: "getHeaderLength m ip = Some n" "20 \<le> n" "ip + n \<le> length m" using assms by (auto simp: header_in_def)
  define m1 where "m1 = m[ip + 1 := tos]"
  have put: "mem_put m (ip + 1) tos = Some m1"
    using n by (simp add: mem_put_Some m1_def upd_conv_take_nth_drop bytes_of_def)
  have len: "length m1 = length m" by (simp add: m1_def)
  have in1: "header_in m1 ip" using n header_length_put [OF put] len by (simp add: header_in_def)
  obtain old new where w: "mem_get m ip = Some (old :: u16)" "mem_get m1 ip = Some (new :: u16)" using n len by (simp add: mem_get_Some)
  have "take 2 (drop ip m1) = bytes_of new" using get_16 [OF w(2)] .
  moreover have "m1 = take ip m1 @ take 2 (drop ip m1) @ drop (ip + 2) m1" by (metis append_take_drop_id add.commute drop_drop)
  moreover have "take ip m1 = take ip m" "drop (ip + 2) m1 = drop (ip + 2) m" by (simp_all add: m1_def)
  ultimately have "mem_put m (ip + 0) new = Some m1" using n by (simp add: mem_put_Some)
  from header_put_16 [OF this _ _ _ n(3), of old] have sum1: "header_sum m1 ip + unat (bswap old) = header_sum m ip + unat (bswap new)"
    using n w header_length_put [OF put] by (simp add: header_sum_def)
  obtain m2 where 2: "updateCheckSum_field m1 ip old new = Some m2" "header_in m2 ip" "length m2 = length m1"
      "\<forall>i. i < ip + 10 \<or> ip + 12 \<le> i \<longrightarrow> m2 ! i = m1 ! i"
      "(header_sum m2 ip + unat (bswap new)) mod 65535 = (header_sum m1 ip + unat (bswap old)) mod 65535"
    using updateCheckSum_field_ok [OF in1, of old new] by blast
  have "header_sum m2 ip mod 65535 = header_sum m ip mod 65535" using 2(5) unfolding sum1 nat_mod_cancel .
  moreover have "m2 ! (ip + 1) = tos" using 2(4) n by (simp add: m1_def)
  ultimately show ?thesis using put w 2 by (simp add: updateTos_def)
qed

lemma updateIp_ok:
  assumes "header_in m ip" and f: "f = 12 \<or> f = 16"
  shows "\<exists>m'. updateIp f m ip addr = Some m' \<and> header_in m' ip \<and> header_sum m' ip mod 65535 = header_sum m ip mod 65535 \<and>
    mem_get m' (ip + f) = Some (bswap addr)"
proof -
  obtain n where n: "getHeaderLength m ip = Some n" "20 \<le> n" "ip + n \<le> length m" using assms by (auto simp: header_in_def)
  obtain old where old: "mem_get m (ip + f) = Some (old :: u32)" using n f by (auto simp: mem_get_Some)
  let ?v = "\<lambda>w :: u16. unat (bswap w)" and ?new = "bswap addr"
  obtain m1 where 1: "updateCheckSum_field m ip (high_half old) (high_half ?new) = Some m1" "header_in m1 ip" "length m1 = length m"
      "\<forall>i. i < ip + 10 \<or> ip + 12 \<le> i \<longrightarrow> m1 ! i = m ! i"
      "(header_sum m1 ip + ?v (high_half ?new)) mod 65535 = (header_sum m ip + ?v (high_half old)) mod 65535"
    using updateCheckSum_field_ok [OF assms(1)] by blast
  obtain m2 where 2: "updateCheckSum_field m1 ip (low_half old) (low_half ?new) = Some m2" "header_in m2 ip" "length m2 = length m1"
      "\<forall>i. i < ip + 10 \<or> ip + 12 \<le> i \<longrightarrow> m2 ! i = m1 ! i"
      "(header_sum m2 ip + ?v (low_half ?new)) mod 65535 = (header_sum m1 ip + ?v (low_half old)) mod 65535"
    using updateCheckSum_field_ok [OF 1(2)] by blast
  have "mem_get m2 (ip + f) = (mem_get m (ip + f) :: u32 option)" by (rule mem_get_cong) (use 1(3,4) 2(3,4) f in auto)
  then have halves: "mem_get m2 (ip + f) = Some (low_half old)" "mem_get m2 (ip + f + 2) = Some (high_half old)"
    using mem_get_halves [of m2 "ip + f" old] old by simp_all
  obtain m3 where 3: "mem_put m2 (ip + f) (low_half ?new) = Some m3" "header_in m3 ip"
      "header_sum m3 ip + ?v (low_half old) = header_sum m2 ip + ?v (low_half ?new)"
    using header_store [OF 2(2), of f "low_half ?new"] f halves(1) by auto
  have "mem_get m3 (ip + f + 2) = (mem_get m2 (ip + f + 2) :: u16 option)" by (rule mem_get_put_other [OF 3(1)]) simp
  then obtain m4 where 4: "mem_put m3 (ip + f + 2) (high_half ?new) = Some m4" "header_in m4 ip"
      "header_sum m4 ip + ?v (high_half old) = header_sum m3 ip + ?v (high_half ?new)"
    using header_store [OF 3(2), of "f + 2" "high_half ?new"] f halves(2) by (auto simp: add.assoc)
  have put: "mem_put m2 (ip + f) ?new = Some m4" using 3(1) 4(1) by (simp add: mem_put_halves)
  have "header_sum m4 ip + (?v (high_half old) + ?v (low_half old)) = header_sum m2 ip + ?v (low_half ?new) + ?v (high_half ?new)"
    using 3(3) 4(3) by linarith
  then have "(header_sum m4 ip + (?v (high_half old) + ?v (low_half old))) mod 65535 =
      (header_sum m2 ip + ?v (low_half ?new) + ?v (high_half ?new)) mod 65535" by (simp only:)
  also have "\<dots> = (header_sum m1 ip + ?v (low_half old) + ?v (high_half ?new)) mod 65535"
    using 2(5) by (simp only: nat_mod_cancel)
  also have "\<dots> = (header_sum m1 ip + ?v (high_half ?new) + ?v (low_half old)) mod 65535" by (simp only: add.assoc add.commute [of "?v (low_half old)"])
  also have "\<dots> = (header_sum m ip + ?v (high_half old) + ?v (low_half old)) mod 65535"
    using 1(5) by (simp only: nat_mod_cancel)
  finally have "header_sum m4 ip mod 65535 = header_sum m ip mod 65535" by (simp only: add.assoc nat_mod_cancel)
  moreover have "mem_get m4 (ip + f) = Some ?new" using put by (intro mem_get_put) simp_all
  ultimately show ?thesis using old 1(1) 2(1) put 4(2) by (simp add: updateIp_def Let_def)
qed

text \<open>After \<open>updateCheckSum\<close> the header verifies, and only the two bytes of the checksum have changed.\<close>

lemma updateCheckSum_verifies:
  assumes "header_in m ip"
  shows "\<exists>m'. updateCheckSum m ip = Some m' \<and> isChecksumOK m' ip = Some True \<and> length m' = length m \<and>
    (\<forall>i. i < ip + 10 \<or> ip + 12 \<le> i \<longrightarrow> m' ! i = m ! i)"
proof -
  obtain m1 where 1: "mem_put m (ip + 10) (0 :: u16) = Some m1" "header_in m1 ip" "mem_get m1 (ip + 10) = Some (0 :: u16)"
    using header_store [OF assms, of 10 0] by force
  obtain n where n: "getHeaderLength m1 ip = Some n" "ip + n \<le> length m1" using 1(2) by (auto simp: header_in_def)
  define F where "F = fold_carry (header_sum m1 ip)"
  define cs where "cs = bswap (NOT (of_nat F :: u16))"
  have "even n" using getHeaderLength_facts(1) [OF n(1)] by (auto elim: dvdE)
  then have sum: "pkt_InetChecksum m1 ip n = Some cs"
    using inet_sum_ok [of n ip m1 0] n by (simp add: pkt_InetChecksum_def header_def header_sum_def F_def cs_def)
  obtain m2 where 2: "mem_put m1 (ip + 10) cs = Some m2" "header_in m2 ip"
      "header_sum m2 ip + 0 = header_sum m1 ip + unat (bswap cs)"
    using header_store [OF 1(2), of 10 cs] 1(3) by force
  have "F < 65536" unfolding F_def by (rule fold_carry_less)
  then have "unat (bswap cs) = 65535 - F" by (simp add: cs_def not_16 unat_of_nat)
  then have "header_sum m2 ip + F = header_sum m1 ip + 65535" using 2(3) \<open>F < 65536\<close> by simp
  then have "(header_sum m2 ip + F) mod 65535 = (0 + F) mod 65535" using fold_carry_mod [of "header_sum m1 ip"] by (simp add: F_def)
  then have "header_sum m2 ip mod 65535 = 0" unfolding nat_mod_cancel by simp
  then have "isChecksumOK m2 ip = Some True" using isChecksumOK_iff [OF 2(2)] by simp
  then show ?thesis
    using 1(1) n(1) sum 2(1) mem_put_length [OF 1(1)] mem_put_length [OF 2(1)] mem_put_nth [OF 1(1)] mem_put_nth [OF 2(1)]
    by (simp add: updateCheckSum_def)
qed

section \<open>Properties\<close>

text \<open>
  C18. The incremental updates keep a correct checksum correct: after changing the type of service,
  the total length, the source or the destination address the header still verifies, and the
  field holds the new value in network order.
\<close>

theorem header_updates_keep_checksum:
  assumes "header_in m ip" and "isChecksumOK m ip = Some True"
  shows "(\<exists>m'. updateTos m ip tos = Some m' \<and> isChecksumOK m' ip = Some True \<and> m' ! (ip + 1) = tos) \<and>
    (\<exists>m'. updateTotalLength m ip len = Some m' \<and> isChecksumOK m' ip = Some True \<and> mem_get m' (ip + 2) = Some (bswap len)) \<and>
    (\<exists>m'. updateIpSrc m ip addr = Some m' \<and> isChecksumOK m' ip = Some True \<and> mem_get m' (ip + 12) = Some (bswap addr)) \<and>
    (\<exists>m'. updateIpDst m ip addr = Some m' \<and> isChecksumOK m' ip = Some True \<and> mem_get m' (ip + 16) = Some (bswap addr))"
  using updateTos_ok [OF assms(1), of tos] updateTotalLength_ok [OF assms(1), of len] updateIp_ok [OF assms(1), of 12 addr]
    updateIp_ok [OF assms(1), of 16 addr] checksum_kept [OF assms] by blast

definition demo_header :: "u8 list" where
  "demo_header = [0x45, 0, 0, 0x3c, 0x1c, 0x46, 0x40, 0, 0x40, 6, 0xb1, 0xe6, 0xac, 0x10, 0x0a, 0x63, 0xac, 0x10, 0x0a, 0x0c]"

lemma header_updates_keep_checksum_witness: "\<exists>m'. updateTos demo_header 0 9 = Some m' \<and> isChecksumOK m' 0 = Some True"
proof -
  have 1: "header_in demo_header 0" by (simp add: header_in_def getHeaderLength_def mem_get_def word_of_bytes_def demo_header_def)
  have "getHeaderLength demo_header 0 = Some 20" by (simp add: getHeaderLength_def mem_get_def word_of_bytes_def demo_header_def)
  moreover have "be_sum demo_header = 196605" by (simp add: demo_header_def)
  ultimately have "header_sum demo_header 0 = 196605" by (simp add: header_sum_def header_def demo_header_def)
  then have 2: "isChecksumOK demo_header 0 = Some True" by (simp add: isChecksumOK_iff [OF 1])
  from header_updates_keep_checksum [OF 1 2, of 9 0 0] show ?thesis by (elim conjE exE) (intro exI conjI)
qed

end
