(* ===== verification/Vm_Ops.thy ===== *)
theory Vm_Ops
  imports Vm_Checksum
begin

text \<open>
  The data plane instructions of stateless/cp/trex_stream_vm.h: packed structs that a program
  holds one after the other, and their operations on the flow variables and the packet. The
  flow variables are one array of bytes, as are the packet and the program.
\<close>

section \<open>Random numbers\<close>

text \<open>
  The generator returns its value and the new seed. The two halves of a 32-bit value are drawn
  from left to right; the language leaves their order open.
\<close>

definition fastrand :: "u32 \<Rightarrow> u32 \<times> u32" where
  "fastrand g_seed = (let g_seed = 214013 * g_seed + 2531011 in (drop_bit 16 g_seed AND 0x7FFF, g_seed))"

definition vm_rand16 :: "u32 \<Rightarrow> u32 \<times> u32" where
  "vm_rand16 seed = fastrand seed"

definition vm_rand32 :: "u32 \<Rightarrow> u32 \<times> u32" where
  "vm_rand32 seed = (let (a, seed) = vm_rand16 seed; (b, seed) = vm_rand16 seed in (push_bit 16 a + b, seed))"

definition vm_rand64 :: "u32 \<Rightarrow> u64 \<times> u32" where
  "vm_rand64 seed = (let (a, seed) = vm_rand32 seed; (b, seed) = vm_rand32 seed in (push_bit 32 (ucast a) + ucast b, seed))"

section \<open>Flow variables\<close>

record 'w flow_var_op =
  fv_offset :: u8
  fv_min :: 'w
  fv_max :: 'w

record 'w flow_var_step_op = "'w flow_var_op" +
  fv_step :: 'w

text \<open>The four widths share the text of \<open>run_inc\<close> and \<open>run_dec\<close>.\<close>

definition inc_val :: "'a::len word \<Rightarrow> 'a word \<Rightarrow> 'a word \<Rightarrow> 'a word" where
  "inc_val m_min m_max p = (if p = m_max then m_min else p + 1)"

definition dec_val :: "'a::len word \<Rightarrow> 'a word \<Rightarrow> 'a word \<Rightarrow> 'a word" where
  "dec_val m_min m_max p = (if p = m_min then m_max else p - 1)"

text \<open>
  With a step, 8- and 16-bit operands are promoted to \<open>int\<close> before the comparison; 32- and 64-bit
  operands are subtracted and added at their width.
\<close>

definition inc_step_int :: "'a::len word \<Rightarrow> 'a word \<Rightarrow> 'a word \<Rightarrow> 'a word \<Rightarrow> 'a word" where
  "inc_step_int m_min m_max m_step p = (if uint p > uint m_max - uint m_step then m_min else p + m_step)"

definition dec_step_int :: "'a::len word \<Rightarrow> 'a word \<Rightarrow> 'a word \<Rightarrow> 'a word \<Rightarrow> 'a word" where
  "dec_step_int m_min m_max m_step p = (if uint p < uint m_min + uint m_step then m_max else p - m_step)"

definition inc_step_word :: "'a::len word \<Rightarrow> 'a word \<Rightarrow> 'a word \<Rightarrow> 'a word \<Rightarrow> 'a word" where
  "inc_step_word m_min m_max m_step p = (if p > m_max - m_step then m_min else p + m_step)"

definition dec_step_word :: "'a::len word \<Rightarrow> 'a word \<Rightarrow> 'a word \<Rightarrow> 'a word \<Rightarrow> 'a word" where
  "dec_step_word m_min m_max m_step p = (if p < m_min + m_step then m_max else p - m_step)"

definition upd_var :: "nat \<Rightarrow> ('a::len word \<Rightarrow> 'a word) \<Rightarrow> u8 list \<Rightarrow> u8 list option" where
  "upd_var off f flow_var = do { p \<leftarrow> mem_get flow_var off; mem_put flow_var off (f p) }"

definition run_inc :: "'a::len word flow_var_op \<Rightarrow> u8 list \<Rightarrow> u8 list option" where
  "run_inc op = upd_var (unat (fv_offset op)) (inc_val (fv_min op) (fv_max op))"

definition run_dec :: "'a::len word flow_var_op \<Rightarrow> u8 list \<Rightarrow> u8 list option" where
  "run_dec op = upd_var (unat (fv_offset op)) (dec_val (fv_min op) (fv_max op))"

definition run_inc_step_int :: "'a::len word flow_var_step_op \<Rightarrow> u8 list \<Rightarrow> u8 list option" where
  "run_inc_step_int op = upd_var (unat (fv_offset op)) (inc_step_int (fv_min op) (fv_max op) (fv_step op))"

definition run_dec_step_int :: "'a::len word flow_var_step_op \<Rightarrow> u8 list \<Rightarrow> u8 list option" where
  "run_dec_step_int op = upd_var (unat (fv_offset op)) (dec_step_int (fv_min op) (fv_max op) (fv_step op))"

definition run_inc_step_word :: "'a::len word flow_var_step_op \<Rightarrow> u8 list \<Rightarrow> u8 list option" where
  "run_inc_step_word op = upd_var (unat (fv_offset op)) (inc_step_word (fv_min op) (fv_max op) (fv_step op))"

definition run_dec_step_word :: "'a::len word flow_var_step_op \<Rightarrow> u8 list \<Rightarrow> u8 list option" where
  "run_dec_step_word op = upd_var (unat (fv_offset op)) (dec_step_word (fv_min op) (fv_max op) (fv_step op))"

text \<open>
  The range is an \<open>int\<close>: for 64 bits the low half of the difference with its sign. A remainder by 0
  is undefined. The seed is the first word of the flow variables, the pointer that the caller
  passes.
\<close>

definition rand_range_int :: "'a::len word \<Rightarrow> 'a word \<Rightarrow> u32" where
  "rand_range_int m_min m_max = word_of_int (uint m_max - uint m_min + 1)"

definition rand_range_64 :: "u64 \<Rightarrow> u64 \<Rightarrow> u64" where
  "rand_range_64 m_min m_max = scast (ucast (m_max - m_min + 1) :: u32)"

definition run_rand_16 :: "'a::len word flow_var_op \<Rightarrow> u8 list \<Rightarrow> u8 list option" where
  "run_rand_16 op flow_var = do {
     seed \<leftarrow> mem_get flow_var 0;
     let (r, seed) = vm_rand16 seed;
     let range = rand_range_int (fv_min op) (fv_max op);
     if range = 0 then None
     else do {
       flow_var \<leftarrow> mem_put flow_var 0 seed;
       mem_put flow_var (unat (fv_offset op)) (fv_min op + ucast (r mod range)) } }"

definition run_rand_32 :: "u32 flow_var_op \<Rightarrow> u8 list \<Rightarrow> u8 list option" where
  "run_rand_32 op flow_var = do {
     seed \<leftarrow> mem_get flow_var 0;
     let (r, seed) = vm_rand32 seed;
     let range = rand_range_int (fv_min op) (fv_max op);
     if range = 0 then None
     else do {
       flow_var \<leftarrow> mem_put flow_var 0 seed;
       mem_put flow_var (unat (fv_offset op)) (fv_min op + r mod range) } }"

definition run_rand_64 :: "u64 flow_var_op \<Rightarrow> u8 list \<Rightarrow> u8 list option" where
  "run_rand_64 op flow_var = do {
     seed \<leftarrow> mem_get flow_var 0;
     let (r, seed) = vm_rand64 seed;
     let range = rand_range_64 (fv_min op) (fv_max op);
     if range = 0 then None
     else do {
       flow_var \<leftarrow> mem_put flow_var 0 seed;
       mem_put flow_var (unat (fv_offset op)) (fv_min op + r mod range) } }"

section \<open>Writes to the packet\<close>

record 'w pkt_wr_op =
  pw_flags :: u8
  pw_offset :: u8
  pw_pkt_offset :: u16
  pw_val_offset :: 'w

definition is_big :: "u8 \<Rightarrow> bool" where
  "is_big m_flags \<longleftrightarrow> m_flags AND 1 = 1"

definition wr8 :: "u8 pkt_wr_op \<Rightarrow> u8 list \<Rightarrow> u8 list \<Rightarrow> u8 list option" where
  "wr8 op flow_var pkt = do {
     v \<leftarrow> mem_get flow_var (unat (pw_offset op));
     mem_put pkt (unat (pw_pkt_offset op)) (v + pw_val_offset op) }"

definition wr :: "'a::len word pkt_wr_op \<Rightarrow> u8 list \<Rightarrow> u8 list \<Rightarrow> u8 list option" where
  "wr op flow_var pkt = do {
     v \<leftarrow> mem_get flow_var (unat (pw_offset op));
     let x = v + pw_val_offset op;
     mem_put pkt (unat (pw_pkt_offset op)) (if is_big (pw_flags op) then bswap x else x) }"

record pkt_wr_mask_op =
  wm_flags :: u8
  wm_var_offset :: u8
  wm_shift :: u8
  wm_pkt_cast_size :: u8
  wm_flowv_cast_size :: u8
  wm_pkt_offset :: u16
  wm_mask :: u32
  wm_add_value :: u32

text \<open>A shift by 32 or more is undefined; a cast size other than 1, 2 and 4 fails an assertion.\<close>

definition read_cast :: "u8 \<Rightarrow> u8 list \<Rightarrow> nat \<Rightarrow> u32 option" where
  "read_cast cast_size m off =
     (if cast_size = 1 then map_option ucast (mem_get m off :: u8 option)
      else if cast_size = 2 then map_option ucast (mem_get m off :: u16 option)
      else if cast_size = 4 then mem_get m off else None)"

definition shift_val :: "u8 \<Rightarrow> u32 \<Rightarrow> u32 option" where
  "shift_val m_shift val =
     (if 0 < sint m_shift then (if sint m_shift < 32 then Some (push_bit (nat (sint m_shift)) val) else None)
      else if sint m_shift < 0 then (if - sint m_shift < 32 then Some (drop_bit (nat (- sint m_shift)) val) else None)
      else Some val)"

definition wr_mask :: "pkt_wr_mask_op \<Rightarrow> u8 list \<Rightarrow> u8 list \<Rightarrow> u8 list option" where
  "wr_mask op flow_var pkt = do {
     val \<leftarrow> read_cast (wm_flowv_cast_size op) flow_var (unat (wm_var_offset op));
     val \<leftarrow> shift_val (wm_shift op) (val + wm_add_value op);
     let p_pkt = unat (wm_pkt_offset op);
     let rmw = (\<lambda>pkt_val. (pkt_val AND NOT (wm_mask op)) OR (val AND wm_mask op));
     if is_big (wm_flags op) then
       (if wm_pkt_cast_size op = 1 then do {
          v \<leftarrow> (mem_get pkt p_pkt :: u8 option);
          mem_put pkt p_pkt (ucast (rmw (ucast v) AND 0xff) :: u8) }
        else if wm_pkt_cast_size op = 2 then do {
          v \<leftarrow> (mem_get pkt p_pkt :: u16 option);
          mem_put pkt p_pkt (bswap (ucast (rmw (ucast (bswap v)) AND 0xffff)) :: u16) }
        else if wm_pkt_cast_size op = 4 then do {
          v \<leftarrow> mem_get pkt p_pkt;
          mem_put pkt p_pkt (bswap (rmw (bswap v))) }
        else None)
     else
       (if wm_flowv_cast_size op = 1 then do {
          v \<leftarrow> (mem_get pkt p_pkt :: u8 option);
          mem_put pkt p_pkt (ucast (rmw (ucast v) AND 0xff) :: u8) }
        else if wm_flowv_cast_size op = 2 then do {
          v \<leftarrow> (mem_get pkt p_pkt :: u16 option);
          mem_put pkt p_pkt (ucast (rmw (ucast v) AND 0xffff) :: u16) }
        else if wm_flowv_cast_size op = 4 then do {
          v \<leftarrow> mem_get pkt p_pkt;
          mem_put pkt p_pkt (rmw v) }
        else None) }"

section \<open>Clients, checksum and packet size\<close>

text \<open>\<open>StreamDPFlowClient\<close>: the address, the port at offset 4 and the flow number at offset 6.\<close>

record clients_limit_op =
  cl_flow_offset :: u8
  cl_flags :: u8
  cl_pad :: u8
  cl_min_port :: u16
  cl_max_port :: u16
  cl_min_ip :: u32
  cl_max_ip :: u32
  cl_limit_flows :: u32

type_synonym client = "u32 \<times> u16 \<times> u32"

definition client_step :: "clients_limit_op \<Rightarrow> client \<Rightarrow> client" where
  "client_step op = (\<lambda>(cur_ip, cur_port, cur_flow_id).
     let cur_ip = cur_ip + 1;
         (cur_ip, cur_port) =
           (if cl_max_ip op < cur_ip then
              (let cur_port = cur_port + 1 in (cl_min_ip op, if cl_max_port op < cur_port then cl_min_port op else cur_port))
            else (cur_ip, cur_port)) in
     if cl_limit_flows op \<noteq> 0 then
       (let cur_flow_id = cur_flow_id + 1 in
        if cl_limit_flows op < cur_flow_id then (cl_min_ip op, cl_min_port op, 1) else (cur_ip, cur_port, cur_flow_id))
     else (cur_ip, cur_port, cur_flow_id))"

record clients_unlimit_op =
  cu_flow_offset :: u8
  cu_flags :: u8
  cu_pad :: u8
  cu_min_ip :: u32
  cu_max_ip :: u32

abbreviation (input) CLIENT_UNLIMITED_MIN_PORT :: u16 where "CLIENT_UNLIMITED_MIN_PORT \<equiv> 1025"

definition client_unlimit_step :: "clients_unlimit_op \<Rightarrow> client \<Rightarrow> client" where
  "client_unlimit_step op = (\<lambda>(cur_ip, cur_port, cur_flow_id).
     let cur_ip = cur_ip + 1 in
     if cu_max_ip op < cur_ip then
       (let cur_port = cur_port + 1 in (cu_min_ip op, if cur_port = 0 then CLIENT_UNLIMITED_MIN_PORT else cur_port, cur_flow_id))
     else (cur_ip, cur_port, cur_flow_id))"

definition get_client :: "u8 list \<Rightarrow> nat \<Rightarrow> client option" where
  "get_client m off = do {
     cur_ip \<leftarrow> mem_get m off;
     cur_port \<leftarrow> mem_get m (off + 4);
     cur_flow_id \<leftarrow> mem_get m (off + 6);
     Some (cur_ip, cur_port, cur_flow_id) }"

definition put_client :: "u8 list \<Rightarrow> nat \<Rightarrow> client \<Rightarrow> u8 list option" where
  "put_client m off c = (case c of (cur_ip, cur_port, cur_flow_id) \<Rightarrow> do {
     m \<leftarrow> mem_put m off cur_ip;
     m \<leftarrow> mem_put m (off + 4) cur_port;
     mem_put m (off + 6) cur_flow_id })"

definition upd_client :: "nat \<Rightarrow> (client \<Rightarrow> client) \<Rightarrow> u8 list \<Rightarrow> u8 list option" where
  "upd_client off f flow_var = do { lp \<leftarrow> get_client flow_var off; put_client flow_var off (f lp) }"

definition run_client :: "clients_limit_op \<Rightarrow> u8 list \<Rightarrow> u8 list option" where
  "run_client op = upd_client (unat (cl_flow_offset op)) (client_step op)"

definition run_client_unlimit :: "clients_unlimit_op \<Rightarrow> u8 list \<Rightarrow> u8 list option" where
  "run_client_unlimit op = upd_client (unat (cu_flow_offset op)) (client_unlimit_step op)"

record ipv4_fix_op =
  if_offset :: u16

definition run_ipv4_fix :: "ipv4_fix_op \<Rightarrow> u8 list \<Rightarrow> u8 list option" where
  "run_ipv4_fix op pkt = updateCheckSum pkt (unat (if_offset op))"

record pkt_size_op =
  ps_flow_offset :: u8

definition run_pkt_size :: "pkt_size_op \<Rightarrow> u8 list \<Rightarrow> u16 option" where
  "run_pkt_size op flow_var = mem_get flow_var (unat (ps_flow_offset op))"

end
