(* ===== verification/Vm_Program.thy ===== *)
theory Vm_Program
  imports Vm_Ops
begin

text \<open>
  The program of the stream VM: the layout of the instructions as packed structs, which
  \<open>add_command\<close> appends byte by byte, and the runner, which reads the operation code at its
  pointer, casts the pointer to the struct of the operation, executes it and steps over it.
  Reading back what was appended gives the same instruction, so that running the bytes of a
  list of instructions ins executing the instructions in order.
\<close>

section \<open>Instructions\<close>

datatype dp_ins =
  ditINC8 "u8 flow_var_op"
  | ditINC16 "u16 flow_var_op"
  | ditINC32 "u32 flow_var_op"
  | ditINC64 "u64 flow_var_op"
  | ditDEC8 "u8 flow_var_op"
  | ditDEC16 "u16 flow_var_op"
  | ditDEC32 "u32 flow_var_op"
  | ditDEC64 "u64 flow_var_op"
  | ditRANDOM8 "u8 flow_var_op"
  | ditRANDOM16 "u16 flow_var_op"
  | ditRANDOM32 "u32 flow_var_op"
  | ditRANDOM64 "u64 flow_var_op"
  | ditFIX_IPV4_CS ipv4_fix_op
  | itPKT_WR8 "u8 pkt_wr_op"
  | itPKT_WR16 "u16 pkt_wr_op"
  | itPKT_WR32 "u32 pkt_wr_op"
  | itPKT_WR64 "u64 pkt_wr_op"
  | itCLIENT_VAR clients_limit_op
  | itCLIENT_VAR_UNLIMIT clients_unlimit_op
  | itPKT_SIZE_CHANGE pkt_size_op
  | ditINC8_STEP "u8 flow_var_step_op"
  | ditINC16_STEP "u16 flow_var_step_op"
  | ditINC32_STEP "u32 flow_var_step_op"
  | ditINC64_STEP "u64 flow_var_step_op"
  | ditDEC8_STEP "u8 flow_var_step_op"
  | ditDEC16_STEP "u16 flow_var_step_op"
  | ditDEC32_STEP "u32 flow_var_step_op"
  | ditDEC64_STEP "u64 flow_var_step_op"
  | itPKT_WR_MASK pkt_wr_mask_op

fun op_code :: "dp_ins \<Rightarrow> u8" where
  "op_code (ditINC8 op) = 7"
| "op_code (ditINC16 op) = 8"
| "op_code (ditINC32 op) = 9"
| "op_code (ditINC64 op) = 10"
| "op_code (ditDEC8 op) = 11"
| "op_code (ditDEC16 op) = 12"
| "op_code (ditDEC32 op) = 13"
| "op_code (ditDEC64 op) = 14"
| "op_code (ditRANDOM8 op) = 15"
| "op_code (ditRANDOM16 op) = 16"
| "op_code (ditRANDOM32 op) = 17"
| "op_code (ditRANDOM64 op) = 18"
| "op_code (ditFIX_IPV4_CS op) = 19"
| "op_code (itPKT_WR8 op) = 20"
| "op_code (itPKT_WR16 op) = 21"
| "op_code (itPKT_WR32 op) = 22"
| "op_code (itPKT_WR64 op) = 23"
| "op_code (itCLIENT_VAR op) = 24"
| "op_code (itCLIENT_VAR_UNLIMIT op) = 25"
| "op_code (itPKT_SIZE_CHANGE op) = 26"
| "op_code (ditINC8_STEP op) = 27"
| "op_code (ditINC16_STEP op) = 28"
| "op_code (ditINC32_STEP op) = 29"
| "op_code (ditINC64_STEP op) = 30"
| "op_code (ditDEC8_STEP op) = 31"
| "op_code (ditDEC16_STEP op) = 32"
| "op_code (ditDEC32_STEP op) = 33"
| "op_code (ditDEC64_STEP op) = 34"
| "op_code (itPKT_WR_MASK op) = 35"

section \<open>Packed structs\<close>

definition put_flow_var :: "'a::len word flow_var_op \<Rightarrow> u8 list" where
  "put_flow_var op = bytes_of (fv_offset op) @ bytes_of (fv_min op) @ bytes_of (fv_max op)"

definition put_flow_var_step :: "'a::len word flow_var_step_op \<Rightarrow> u8 list" where
  "put_flow_var_step op = bytes_of (fv_offset op) @ bytes_of (fv_min op) @ bytes_of (fv_max op) @ bytes_of (fv_step op)"

definition put_ipv4_fix :: "ipv4_fix_op \<Rightarrow> u8 list" where
  "put_ipv4_fix op = bytes_of (if_offset op)"

definition put_pkt_wr8 :: "u8 pkt_wr_op \<Rightarrow> u8 list" where
  "put_pkt_wr8 op = bytes_of (pw_flags op) @ bytes_of (pw_offset op) @ bytes_of (pw_val_offset op) @ bytes_of (pw_pkt_offset op)"

definition put_pkt_wr :: "'a::len word pkt_wr_op \<Rightarrow> u8 list" where
  "put_pkt_wr op = bytes_of (pw_flags op) @ bytes_of (pw_offset op) @ bytes_of (pw_pkt_offset op) @ bytes_of (pw_val_offset op)"

definition put_wr_mask :: "pkt_wr_mask_op \<Rightarrow> u8 list" where
  "put_wr_mask op = bytes_of (wm_flags op) @ bytes_of (wm_var_offset op) @ bytes_of (wm_shift op) @ bytes_of (wm_pkt_cast_size op) @
     bytes_of (wm_flowv_cast_size op) @ bytes_of (wm_pkt_offset op) @ bytes_of (wm_mask op) @ bytes_of (wm_add_value op)"

definition put_client_op :: "clients_limit_op \<Rightarrow> u8 list" where
  "put_client_op op = bytes_of (cl_flow_offset op) @ bytes_of (cl_flags op) @ bytes_of (cl_pad op) @ bytes_of (cl_min_port op) @
     bytes_of (cl_max_port op) @ bytes_of (cl_min_ip op) @ bytes_of (cl_max_ip op) @ bytes_of (cl_limit_flows op)"

definition put_client_unlimit_op :: "clients_unlimit_op \<Rightarrow> u8 list" where
  "put_client_unlimit_op op = bytes_of (cu_flow_offset op) @ bytes_of (cu_flags op) @ bytes_of (cu_pad op) @
     bytes_of (cu_min_ip op) @ bytes_of (cu_max_ip op)"

definition put_pkt_size :: "pkt_size_op \<Rightarrow> u8 list" where
  "put_pkt_size op = bytes_of (ps_flow_offset op)"

fun op_fields :: "dp_ins \<Rightarrow> u8 list" where
  "op_fields (ditINC8 op) = put_flow_var op"
| "op_fields (ditINC16 op) = put_flow_var op"
| "op_fields (ditINC32 op) = put_flow_var op"
| "op_fields (ditINC64 op) = put_flow_var op"
| "op_fields (ditDEC8 op) = put_flow_var op"
| "op_fields (ditDEC16 op) = put_flow_var op"
| "op_fields (ditDEC32 op) = put_flow_var op"
| "op_fields (ditDEC64 op) = put_flow_var op"
| "op_fields (ditRANDOM8 op) = put_flow_var op"
| "op_fields (ditRANDOM16 op) = put_flow_var op"
| "op_fields (ditRANDOM32 op) = put_flow_var op"
| "op_fields (ditRANDOM64 op) = put_flow_var op"
| "op_fields (ditFIX_IPV4_CS op) = put_ipv4_fix op"
| "op_fields (itPKT_WR8 op) = put_pkt_wr8 op"
| "op_fields (itPKT_WR16 op) = put_pkt_wr op"
| "op_fields (itPKT_WR32 op) = put_pkt_wr op"
| "op_fields (itPKT_WR64 op) = put_pkt_wr op"
| "op_fields (itCLIENT_VAR op) = put_client_op op"
| "op_fields (itCLIENT_VAR_UNLIMIT op) = put_client_unlimit_op op"
| "op_fields (itPKT_SIZE_CHANGE op) = put_pkt_size op"
| "op_fields (ditINC8_STEP op) = put_flow_var_step op"
| "op_fields (ditINC16_STEP op) = put_flow_var_step op"
| "op_fields (ditINC32_STEP op) = put_flow_var_step op"
| "op_fields (ditINC64_STEP op) = put_flow_var_step op"
| "op_fields (ditDEC8_STEP op) = put_flow_var_step op"
| "op_fields (ditDEC16_STEP op) = put_flow_var_step op"
| "op_fields (ditDEC32_STEP op) = put_flow_var_step op"
| "op_fields (ditDEC64_STEP op) = put_flow_var_step op"
| "op_fields (itPKT_WR_MASK op) = put_wr_mask op"

text \<open>\<open>add_command\<close>: the struct goes to the end of the program.\<close>

definition encode_ins :: "dp_ins \<Rightarrow> u8 list" where
  "encode_ins i = op_code i # op_fields i"

definition add_command :: "u8 list \<Rightarrow> dp_ins \<Rightarrow> u8 list" where
  "add_command m_inst_list i = m_inst_list @ encode_ins i"

section \<open>Reading structs\<close>

text \<open>Each reader returns what it has read and the rest; it fails at the end of the program.\<close>

definition rd :: "u8 list \<Rightarrow> ('a::len word \<times> u8 list) option" where
  "rd bs = (let n = LENGTH('a) div 8 in if n \<le> length bs then Some (word_of_bytes (take n bs), drop n bs) else None)"

definition rd_flow_var :: "u8 list \<Rightarrow> ('a::len word flow_var_op \<times> u8 list) option" where
  "rd_flow_var bs = do {
     (off, bs) \<leftarrow> rd bs; (mn, bs) \<leftarrow> rd bs; (mx, bs) \<leftarrow> rd bs;
     Some (\<lparr>fv_offset = off, fv_min = mn, fv_max = mx\<rparr>, bs) }"

definition rd_flow_var_step :: "u8 list \<Rightarrow> ('a::len word flow_var_step_op \<times> u8 list) option" where
  "rd_flow_var_step bs = do {
     (off, bs) \<leftarrow> rd bs; (mn, bs) \<leftarrow> rd bs; (mx, bs) \<leftarrow> rd bs; (st, bs) \<leftarrow> rd bs;
     Some (\<lparr>fv_offset = off, fv_min = mn, fv_max = mx, fv_step = st\<rparr>, bs) }"

definition rd_ipv4_fix :: "u8 list \<Rightarrow> (ipv4_fix_op \<times> u8 list) option" where
  "rd_ipv4_fix bs = do { (off, bs) \<leftarrow> rd bs; Some (\<lparr>if_offset = off\<rparr>, bs) }"

definition rd_pkt_wr8 :: "u8 list \<Rightarrow> (u8 pkt_wr_op \<times> u8 list) option" where
  "rd_pkt_wr8 bs = do {
     (fl, bs) \<leftarrow> rd bs; (off, bs) \<leftarrow> rd bs; (va, bs) \<leftarrow> rd bs; (po, bs) \<leftarrow> rd bs;
     Some (\<lparr>pw_flags = fl, pw_offset = off, pw_pkt_offset = po, pw_val_offset = va\<rparr>, bs) }"

definition rd_pkt_wr :: "u8 list \<Rightarrow> ('a::len word pkt_wr_op \<times> u8 list) option" where
  "rd_pkt_wr bs = do {
     (fl, bs) \<leftarrow> rd bs; (off, bs) \<leftarrow> rd bs; (po, bs) \<leftarrow> rd bs; (va, bs) \<leftarrow> rd bs;
     Some (\<lparr>pw_flags = fl, pw_offset = off, pw_pkt_offset = po, pw_val_offset = va\<rparr>, bs) }"

definition rd_wr_mask :: "u8 list \<Rightarrow> (pkt_wr_mask_op \<times> u8 list) option" where
  "rd_wr_mask bs = do {
     (fl, bs) \<leftarrow> rd bs; (vo, bs) \<leftarrow> rd bs; (sh, bs) \<leftarrow> rd bs; (pc, bs) \<leftarrow> rd bs; (fc, bs) \<leftarrow> rd bs;
     (po, bs) \<leftarrow> rd bs; (ma, bs) \<leftarrow> rd bs; (ad, bs) \<leftarrow> rd bs;
     Some (\<lparr>wm_flags = fl, wm_var_offset = vo, wm_shift = sh, wm_pkt_cast_size = pc, wm_flowv_cast_size = fc,
       wm_pkt_offset = po, wm_mask = ma, wm_add_value = ad\<rparr>, bs) }"

definition rd_client :: "u8 list \<Rightarrow> (clients_limit_op \<times> u8 list) option" where
  "rd_client bs = do {
     (off, bs) \<leftarrow> rd bs; (fl, bs) \<leftarrow> rd bs; (pa, bs) \<leftarrow> rd bs; (pmin, bs) \<leftarrow> rd bs; (pmax, bs) \<leftarrow> rd bs;
     (imin, bs) \<leftarrow> rd bs; (imax, bs) \<leftarrow> rd bs; (lim, bs) \<leftarrow> rd bs;
     Some (\<lparr>cl_flow_offset = off, cl_flags = fl, cl_pad = pa, cl_min_port = pmin, cl_max_port = pmax,
       cl_min_ip = imin, cl_max_ip = imax, cl_limit_flows = lim\<rparr>, bs) }"

definition rd_client_unlimit :: "u8 list \<Rightarrow> (clients_unlimit_op \<times> u8 list) option" where
  "rd_client_unlimit bs = do {
     (off, bs) \<leftarrow> rd bs; (fl, bs) \<leftarrow> rd bs; (pa, bs) \<leftarrow> rd bs; (imin, bs) \<leftarrow> rd bs; (imax, bs) \<leftarrow> rd bs;
     Some (\<lparr>cu_flow_offset = off, cu_flags = fl, cu_pad = pa, cu_min_ip = imin, cu_max_ip = imax\<rparr>, bs) }"

definition rd_pkt_size :: "u8 list \<Rightarrow> (pkt_size_op \<times> u8 list) option" where
  "rd_pkt_size bs = do { (off, bs) \<leftarrow> rd bs; Some (\<lparr>ps_flow_offset = off\<rparr>, bs) }"

section \<open>The runner\<close>

text \<open>The state of a run: the flow variables, the packet, and the new packet size of the runner.\<close>

record vm_run =
  vr_flow_var :: "u8 list"
  vr_pkt :: "u8 list"
  vr_new_pkt_size :: u16

definition with_flow_var :: "(u8 list \<Rightarrow> u8 list option) \<Rightarrow> vm_run \<Rightarrow> vm_run option" where
  "with_flow_var f s = do { fv \<leftarrow> f (vr_flow_var s); Some (s\<lparr>vr_flow_var := fv\<rparr>) }"

definition with_pkt :: "(u8 list \<Rightarrow> u8 list option) \<Rightarrow> vm_run \<Rightarrow> vm_run option" where
  "with_pkt f s = do { pkt \<leftarrow> f (vr_pkt s); Some (s\<lparr>vr_pkt := pkt\<rparr>) }"

fun exec_ins :: "dp_ins \<Rightarrow> vm_run \<Rightarrow> vm_run option" where
  "exec_ins (ditINC8 op) = with_flow_var (run_inc op)"
| "exec_ins (ditINC16 op) = with_flow_var (run_inc op)"
| "exec_ins (ditINC32 op) = with_flow_var (run_inc op)"
| "exec_ins (ditINC64 op) = with_flow_var (run_inc op)"
| "exec_ins (ditDEC8 op) = with_flow_var (run_dec op)"
| "exec_ins (ditDEC16 op) = with_flow_var (run_dec op)"
| "exec_ins (ditDEC32 op) = with_flow_var (run_dec op)"
| "exec_ins (ditDEC64 op) = with_flow_var (run_dec op)"
| "exec_ins (ditRANDOM8 op) = with_flow_var (run_rand_16 op)"
| "exec_ins (ditRANDOM16 op) = with_flow_var (run_rand_16 op)"
| "exec_ins (ditRANDOM32 op) = with_flow_var (run_rand_32 op)"
| "exec_ins (ditRANDOM64 op) = with_flow_var (run_rand_64 op)"
| "exec_ins (ditFIX_IPV4_CS op) = with_pkt (run_ipv4_fix op)"
| "exec_ins (itPKT_WR8 op) = (\<lambda>s. with_pkt (wr8 op (vr_flow_var s)) s)"
| "exec_ins (itPKT_WR16 op) = (\<lambda>s. with_pkt (wr op (vr_flow_var s)) s)"
| "exec_ins (itPKT_WR32 op) = (\<lambda>s. with_pkt (wr op (vr_flow_var s)) s)"
| "exec_ins (itPKT_WR64 op) = (\<lambda>s. with_pkt (wr op (vr_flow_var s)) s)"
| "exec_ins (itCLIENT_VAR op) = with_flow_var (run_client op)"
| "exec_ins (itCLIENT_VAR_UNLIMIT op) = with_flow_var (run_client_unlimit op)"
| "exec_ins (itPKT_SIZE_CHANGE op) = (\<lambda>s. do { size \<leftarrow> run_pkt_size op (vr_flow_var s); Some (s\<lparr>vr_new_pkt_size := size\<rparr>) })"
| "exec_ins (ditINC8_STEP op) = with_flow_var (run_inc_step_int op)"
| "exec_ins (ditINC16_STEP op) = with_flow_var (run_inc_step_int op)"
| "exec_ins (ditINC32_STEP op) = with_flow_var (run_inc_step_word op)"
| "exec_ins (ditINC64_STEP op) = with_flow_var (run_inc_step_word op)"
| "exec_ins (ditDEC8_STEP op) = with_flow_var (run_dec_step_int op)"
| "exec_ins (ditDEC16_STEP op) = with_flow_var (run_dec_step_int op)"
| "exec_ins (ditDEC32_STEP op) = with_flow_var (run_dec_step_word op)"
| "exec_ins (ditDEC64_STEP op) = with_flow_var (run_dec_step_word op)"
| "exec_ins (itPKT_WR_MASK op) = (\<lambda>s. with_pkt (wr_mask op (vr_flow_var s)) s)"

text \<open>The cast of the pointer by the operation code; \<open>slow_commands\<close> has the rest of the cases.\<close>

definition map_ins :: "('op \<Rightarrow> dp_ins) \<Rightarrow> ('op \<times> u8 list) option \<Rightarrow> (dp_ins \<times> u8 list) option" where
  "map_ins c r = map_option (\<lambda>(op, bs). (c op, bs)) r"

definition slow_commands :: "u8 \<Rightarrow> u8 list \<Rightarrow> (dp_ins \<times> u8 list) option" where
  "slow_commands op bs =
     (if op = 27 then map_ins ditINC8_STEP (rd_flow_var_step bs)
      else if op = 28 then map_ins ditINC16_STEP (rd_flow_var_step bs)
      else if op = 29 then map_ins ditINC32_STEP (rd_flow_var_step bs)
      else if op = 30 then map_ins ditINC64_STEP (rd_flow_var_step bs)
      else if op = 31 then map_ins ditDEC8_STEP (rd_flow_var_step bs)
      else if op = 32 then map_ins ditDEC16_STEP (rd_flow_var_step bs)
      else if op = 33 then map_ins ditDEC32_STEP (rd_flow_var_step bs)
      else if op = 34 then map_ins ditDEC64_STEP (rd_flow_var_step bs)
      else if op = 35 then map_ins itPKT_WR_MASK (rd_wr_mask bs)
      else None)"

definition decode_ins :: "u8 \<Rightarrow> u8 list \<Rightarrow> (dp_ins \<times> u8 list) option" where
  "decode_ins op bs =
     (if op = 24 then map_ins itCLIENT_VAR (rd_client bs)
      else if op = 25 then map_ins itCLIENT_VAR_UNLIMIT (rd_client_unlimit bs)
      else if op = 7 then map_ins ditINC8 (rd_flow_var bs)
      else if op = 8 then map_ins ditINC16 (rd_flow_var bs)
      else if op = 9 then map_ins ditINC32 (rd_flow_var bs)
      else if op = 10 then map_ins ditINC64 (rd_flow_var bs)
      else if op = 11 then map_ins ditDEC8 (rd_flow_var bs)
      else if op = 12 then map_ins ditDEC16 (rd_flow_var bs)
      else if op = 13 then map_ins ditDEC32 (rd_flow_var bs)
      else if op = 14 then map_ins ditDEC64 (rd_flow_var bs)
      else if op = 15 then map_ins ditRANDOM8 (rd_flow_var bs)
      else if op = 16 then map_ins ditRANDOM16 (rd_flow_var bs)
      else if op = 17 then map_ins ditRANDOM32 (rd_flow_var bs)
      else if op = 18 then map_ins ditRANDOM64 (rd_flow_var bs)
      else if op = 19 then map_ins ditFIX_IPV4_CS (rd_ipv4_fix bs)
      else if op = 20 then map_ins itPKT_WR8 (rd_pkt_wr8 bs)
      else if op = 21 then map_ins itPKT_WR16 (rd_pkt_wr bs)
      else if op = 22 then map_ins itPKT_WR32 (rd_pkt_wr bs)
      else if op = 23 then map_ins itPKT_WR64 (rd_pkt_wr bs)
      else if op = 26 then map_ins itPKT_SIZE_CHANGE (rd_pkt_size bs)
      else slow_commands op bs)"

lemma rd_length: "rd bs = Some (w :: 'a::len word, bs') \<Longrightarrow> length bs' \<le> length bs"
  by (auto simp: rd_def Let_def split: if_splits)

lemmas rd_defs = rd_flow_var_def rd_flow_var_step_def rd_ipv4_fix_def rd_pkt_wr8_def rd_pkt_wr_def rd_wr_mask_def rd_client_def
  rd_client_unlimit_def rd_pkt_size_def

lemma rd_struct_length:
  "rd_flow_var bs = Some (a :: 'a::len word flow_var_op, bs') \<Longrightarrow> length bs' \<le> length bs"
  "rd_flow_var_step bs = Some (b :: 'a::len word flow_var_step_op, bs') \<Longrightarrow> length bs' \<le> length bs"
  "rd_ipv4_fix bs = Some (c, bs') \<Longrightarrow> length bs' \<le> length bs"
  "rd_pkt_wr8 bs = Some (d, bs') \<Longrightarrow> length bs' \<le> length bs"
  "rd_pkt_wr bs = Some (e :: 'a::len word pkt_wr_op, bs') \<Longrightarrow> length bs' \<le> length bs"
  "rd_wr_mask bs = Some (f, bs') \<Longrightarrow> length bs' \<le> length bs"
  "rd_client bs = Some (g, bs') \<Longrightarrow> length bs' \<le> length bs"
  "rd_client_unlimit bs = Some (h, bs') \<Longrightarrow> length bs' \<le> length bs"
  "rd_pkt_size bs = Some (i, bs') \<Longrightarrow> length bs' \<le> length bs"
  by (auto simp: rd_defs bind_eq_Some_conv dest!: rd_length)

lemma map_ins_Some: "map_ins c r = Some (i, bs) \<longleftrightarrow> (\<exists>op. r = Some (op, bs) \<and> i = c op)"
  by (auto simp: map_ins_def)

lemma decode_length: "decode_ins op bs = Some (i, bs') \<Longrightarrow> length bs' \<le> length bs"
  unfolding decode_ins_def slow_commands_def by (auto simp: map_ins_Some dest: rd_struct_length split: if_split_asm)

text \<open>\<open>StreamDPVmInstructionsRunner::run\<close>: the loop over the program.\<close>

function run_program :: "u8 list \<Rightarrow> vm_run \<Rightarrow> vm_run option" where
  "run_program [] s = Some s"
| "run_program (op # p) s = do {
     (i, p) \<leftarrow> decode_ins op p;
     s \<leftarrow> exec_ins i s;
     run_program p s }"
  by pat_completeness auto
termination by (relation "measure (length o fst)") (auto dest: decode_length)

section \<open>Round trip\<close>

lemma rd_bytes [simp]: "byte_width TYPE('a::len) \<Longrightarrow> rd (bytes_of (w :: 'a word) @ bs) = Some (w, bs)"
  by (simp add: rd_def)

lemma rd_put [simp]:
  "byte_width TYPE('a::len) \<Longrightarrow> rd_flow_var (put_flow_var a @ bs) = Some (a :: 'a word flow_var_op, bs)"
  "byte_width TYPE('a::len) \<Longrightarrow> rd_flow_var_step (put_flow_var_step b @ bs) = Some (b :: 'a word flow_var_step_op, bs)"
  "rd_ipv4_fix (put_ipv4_fix c @ bs) = Some (c, bs)"
  "rd_pkt_wr8 (put_pkt_wr8 d @ bs) = Some (d, bs)"
  "byte_width TYPE('a::len) \<Longrightarrow> rd_pkt_wr (put_pkt_wr e @ bs) = Some (e :: 'a word pkt_wr_op, bs)"
  "rd_wr_mask (put_wr_mask f @ bs) = Some (f, bs)"
  "rd_client (put_client_op g @ bs) = Some (g, bs)"
  "rd_client_unlimit (put_client_unlimit_op h @ bs) = Some (h, bs)"
  "rd_pkt_size (put_pkt_size i @ bs) = Some (i, bs)"
  by (simp_all add: rd_defs put_flow_var_def put_flow_var_step_def put_ipv4_fix_def put_pkt_wr8_def put_pkt_wr_def put_wr_mask_def
      put_client_op_def put_client_unlimit_op_def put_pkt_size_def)

lemma decode_encode: "decode_ins (op_code i) (op_fields i @ bs) = Some (i, bs)"
  by (cases i) (simp_all add: decode_ins_def slow_commands_def map_ins_def)

text \<open>Running the bytes is executing the instructions in order.\<close>

fun exec_all :: "dp_ins list \<Rightarrow> vm_run \<Rightarrow> vm_run option" where
  "exec_all [] s = Some s"
| "exec_all (i # ins) s = do { s \<leftarrow> exec_ins i s; exec_all ins s }"

lemma foldl_add_command: "foldl add_command bs ins = bs @ concat (map encode_ins ins)"
  by (induction ins arbitrary: bs) (simp_all add: add_command_def)

lemma run_program_encode: "run_program (concat (map encode_ins ins)) s = exec_all ins s"
proof (induction ins arbitrary: s)
  case (Cons i ins)
  have "run_program (concat (map encode_ins (i # ins))) s = do { s \<leftarrow> exec_ins i s; run_program (concat (map encode_ins ins)) s }"
    by (simp add: encode_ins_def decode_encode)
  then show ?case using Cons by simp
qed simp

lemma exec_all_append: "exec_all (ins @ js) s = do { s \<leftarrow> exec_all ins s; exec_all js s }"
proof (induction ins arbitrary: s)
  case (Cons i ins)
  then have "exec_all (ins @ js) = (\<lambda>s. do { s \<leftarrow> exec_all ins s; exec_all js s })" by (intro ext)
  then show ?case by (simp add: Option.bind_assoc)
qed simp

section \<open>More room\<close>

text \<open>A run that ends on a packet ends in the same way on the packet with bytes behind it, which stay.\<close>

lemma mem_get_frame: "mem_get m off = Some (v :: 'a::len word) \<Longrightarrow> mem_get (m @ r) off = Some v"
  by (auto simp: mem_get_def Let_def split: if_splits)

lemma mem_put_frame: "mem_put m off (v :: 'a::len word) = Some m' \<Longrightarrow> mem_put (m @ r) off v = Some (m' @ r)"
  by (auto simp: mem_put_def Let_def split: if_splits)

lemma inet_sum_frame: "inet_sum m data len s = Some x \<Longrightarrow> inet_sum (m @ r) data len s = Some x"
  by (induction m data len s rule: inet_sum.induct) (auto simp: bind_eq_Some_conv dest: mem_get_frame [of _ _ _ r])

lemma updateCheckSum_frame:
  assumes "updateCheckSum m ip = Some m'"
  shows "updateCheckSum (m @ r) ip = Some (m' @ r)"
proof -
  obtain m1 size cs where *: "mem_put m (ip + 10) (0 :: u16) = Some m1" "getHeaderLength m1 ip = Some size"
      "pkt_InetChecksum m1 ip size = Some cs" "mem_put m1 (ip + 10) cs = Some m'"
    using assms by (auto simp: updateCheckSum_def bind_eq_Some_conv)
  have "getHeaderLength (m1 @ r) ip = Some size" using *(2) by (auto simp: getHeaderLength_def bind_eq_Some_conv dest: mem_get_frame [of _ _ _ r])
  moreover have "pkt_InetChecksum (m1 @ r) ip size = Some cs"
    using *(3) by (auto simp: pkt_InetChecksum_def bind_eq_Some_conv dest: inet_sum_frame [of _ _ _ _ _ r])
  ultimately show ?thesis using mem_put_frame [OF *(1), of r] mem_put_frame [OF *(4), of r] by (simp add: updateCheckSum_def)
qed

lemma wr_frame:
  "wr8 op8 fv m = Some m' \<Longrightarrow> wr8 op8 fv (m @ r) = Some (m' @ r)"
  "wr op fv m = Some m' \<Longrightarrow> wr op fv (m @ r) = Some (m' @ r)"
  by (auto simp: wr8_def wr_def bind_eq_Some_conv Let_def mem_put_frame [of _ _ _ _ r] simp del: if_split)

lemma wr_mask_frame: "wr_mask op fv m = Some m' \<Longrightarrow> wr_mask op fv (m @ r) = Some (m' @ r)"
  unfolding wr_mask_def Let_def
  by (auto simp: bind_eq_Some_conv mem_get_frame [of _ _ _ r] mem_put_frame [of _ _ _ _ r] split: if_split_asm)

definition add_room :: "u8 list \<Rightarrow> vm_run \<Rightarrow> vm_run" where
  "add_room r s = s\<lparr>vr_pkt := vr_pkt s @ r\<rparr>"

lemma exec_ins_frame: "exec_ins i s = Some s' \<Longrightarrow> exec_ins i (add_room r s) = Some (add_room r s')"
  by (cases i) (auto simp: with_flow_var_def with_pkt_def bind_eq_Some_conv add_room_def run_ipv4_fix_def wr_frame [of _ _ _ _ r]
      wr_mask_frame [of _ _ _ _ r] updateCheckSum_frame [of _ _ _ r])

lemma run_program_frame: "run_program p s = Some s' \<Longrightarrow> run_program p (add_room r s) = Some (add_room r s')"
proof (induction p s arbitrary: s' rule: run_program.induct)
  case (2 op p s)
  obtain i p' s1 where *: "decode_ins op p = Some (i, p')" "exec_ins i s = Some s1" "run_program p' s1 = Some s'"
    using 2(2) by (auto simp: bind_eq_Some_conv)
  show ?case using 2(1) [OF *(1) refl *(2,3)] exec_ins_frame [OF *(2), of r] *(1) by simp
qed simp

section \<open>The program stored and run\<close>

text \<open>
  C22. The program that \<open>add_command\<close> writes for a sequence of instructions is read back as that
  sequence. Decoding at the operation code of an instruction yields the instruction with all its
  fields and leaves the bytes after it, for all 29 instructions and whatever follows; and the loop
  of the runner over the stored bytes executes the instructions one after the other, so that the
  pointer never stops inside an instruction.
\<close>

theorem vm_program_roundtrip:
  "decode_ins (op_code i) (op_fields i @ bs) = Some (i, bs) \<and> run_program (foldl add_command [] ins) s = exec_all ins s"
  using decode_encode run_program_encode by (simp add: foldl_add_command)

end
