(* ===== verification/Vm_Compile.thy ===== *)
theory Vm_Compile
  imports Vm_Program
begin

text \<open>
  The compiler of the stream VM, stateless/cp/trex_stream_vm.cpp: from the instructions of a
  stream to the initial flow variables and the program of the data plane. An exception is
  \<open>Throw\<close>; undefined behaviour, a failed assertion included, is \<open>Undef\<close>.
\<close>

section \<open>Instructions of a stream\<close>

datatype flow_var_op_e = FLOW_VAR_OP_INC | FLOW_VAR_OP_DEC | FLOW_VAR_OP_RANDOM

record ins_flow_man =
  fm_var_name :: string
  fm_size_bytes :: u8
  fm_op :: flow_var_op_e
  fm_init_value :: u64
  fm_min_value :: u64
  fm_max_value :: u64
  fm_step :: u64

record ins_flow_client =
  fc_var_name :: string
  fc_client_min :: u32
  fc_client_max :: u32
  fc_port_min :: u16
  fc_port_max :: u16
  fc_limit_num_flows :: u32
  fc_flags :: u16

record ins_write_to_pkt =
  wp_flow_var_name :: string
  wp_pkt_offset :: u16
  wp_add_value :: u32
  wp_is_big_endian :: bool

record ins_write_mask_to_pkt =
  wk_flow_var_name :: string
  wk_pkt_offset :: u16
  wk_pkt_cast_size :: u8
  wk_mask :: u32
  wk_shift :: int
  wk_add_value :: u32
  wk_is_big_endian :: bool

datatype vm_ins =
    FixChecksumIpv4 u16
  | FlowMan ins_flow_man
  | WriteToPkt ins_write_to_pkt
  | FlowClient ins_flow_client
  | ChangePktSize string
  | WriteMaskToPkt ins_write_mask_to_pkt

text \<open>The exceptions, with the number of the instruction.\<close>

datatype vm_error =
    InvalidLength nat
  | VariableExists nat
  | TooManyVariables nat
  | NoVariable nat
  | PktSizeNotTwo nat
  | PktSizeRange nat
  | FixOffsetTooHigh nat
  | WriteOffsetTooHigh nat
  | CastSize nat
  | NoVariableInProgram
  | MaxOffsetTooHigh nat
  | NotSplittable

datatype 'a outcome = Ok 'a | Throw vm_error | Undef

primrec obind :: "'a outcome \<Rightarrow> ('a \<Rightarrow> 'b outcome) \<Rightarrow> 'b outcome" where
  "obind (Ok x) f = f x"
| "obind (Throw e) f = Throw e"
| "obind Undef f = Undef"

section \<open>The state of a VM\<close>

text \<open>\<open>VmFlowVarRec\<close>; the pointer to the instruction is its place in the list.\<close>

record var_rec =
  rec_offset :: nat
  rec_ins :: "nat option"
  rec_size :: u8

type_synonym var_table = "string \<rightharpoonup> var_rec"

record stream_vm =
  m_is_random_var :: bool
  m_is_change_pkt_size :: bool
  m_is_compiled :: bool
  m_prefix_size :: u16
  m_pkt_size :: u16
  m_expected_pkt_size :: u16
  m_cur_var_offset :: nat
  m_max_field_update :: nat
  m_inst_list :: "vm_ins list"
  m_flow_var_offset :: var_table
  m_bss :: "u8 list option"
  m_instructions :: "u8 list"
  m_split_instr :: "nat option"
  m_pkt :: "u8 list option"

definition new_stream_vm :: stream_vm where
  "new_stream_vm = \<lparr>m_is_random_var = False, m_is_change_pkt_size = False, m_is_compiled = False, m_prefix_size = 0, m_pkt_size = 0,
     m_expected_pkt_size = 0, m_cur_var_offset = 0, m_max_field_update = 0, m_inst_list = [], m_flow_var_offset = Map.empty,
     m_bss = None, m_instructions = [], m_split_instr = None, m_pkt = None\<rparr>"

abbreviation (input) svMAX_FLOW_VAR :: nat where "svMAX_FLOW_VAR \<equiv> 64"
abbreviation (input) svMAX_PACKET_OFFSET_CHANGE :: nat where "svMAX_PACKET_OFFSET_CHANGE \<equiv> 512"
abbreviation (input) IPV4_HDR_LEN :: nat where "IPV4_HDR_LEN \<equiv> 20"

definition add_instruction :: "stream_vm \<Rightarrow> vm_ins \<Rightarrow> stream_vm" where
  "add_instruction vm inst =
     vm\<lparr>m_is_random_var := (case inst of FlowMan m \<Rightarrow> fm_op m = FLOW_VAR_OP_RANDOM \<or> m_is_random_var vm | _ \<Rightarrow> m_is_random_var vm),
        m_is_change_pkt_size := (case inst of ChangePktSize n \<Rightarrow> True | _ \<Rightarrow> m_is_change_pkt_size vm),
        m_inst_list := m_inst_list vm @ [inst]\<rparr>"

section \<open>The table of flow variables\<close>

definition valid_size :: "u8 \<Rightarrow> bool" where
  "valid_size n \<longleftrightarrow> n \<in> {1, 2, 4, 8}"

text \<open>The flow variables of one instruction; \<open>id\<close> is also its place in the list.\<close>

definition add_vars :: "nat \<Rightarrow> vm_ins \<Rightarrow> var_table \<times> nat \<Rightarrow> (var_table \<times> nat) outcome" where
  "add_vars ins_id inst = (\<lambda>(table, cur). case inst of
     FlowMan m \<Rightarrow>
       (if \<not> valid_size (fm_size_bytes m) then Throw (InvalidLength ins_id)
        else if table (fm_var_name m) \<noteq> None then Throw (VariableExists ins_id)
        else Ok (table(fm_var_name m \<mapsto> \<lparr>rec_offset = cur, rec_ins = Some ins_id, rec_size = fm_size_bytes m\<rparr>),
                 cur + unat (fm_size_bytes m)))
   | FlowClient c \<Rightarrow>
       (if table (fc_var_name c @ ''.ip'') \<noteq> None \<or> table (fc_var_name c @ ''.port'') \<noteq> None \<or>
           table (fc_var_name c @ ''.flow_limit'') \<noteq> None
        then Throw (VariableExists ins_id)
        else Ok (table
          (fc_var_name c @ ''.ip'' \<mapsto> \<lparr>rec_offset = cur, rec_ins = Some ins_id, rec_size = 4\<rparr>,
           fc_var_name c @ ''.port'' \<mapsto> \<lparr>rec_offset = cur + 4, rec_ins = Some ins_id, rec_size = 2\<rparr>,
           fc_var_name c @ ''.flow_limit'' \<mapsto> \<lparr>rec_offset = cur + 6, rec_ins = Some ins_id, rec_size = 4\<rparr>), cur + 10))
   | _ \<Rightarrow> Ok (table, cur))"

fun scan_vars :: "nat \<Rightarrow> vm_ins list \<Rightarrow> var_table \<times> nat \<Rightarrow> (var_table \<times> nat) outcome" where
  "scan_vars ins_id [] st = Ok st"
| "scan_vars ins_id (inst # rest) st =
     obind (add_vars ins_id inst st) (\<lambda>st.
       if svMAX_FLOW_VAR < snd st then Throw (TooManyVariables ins_id) else scan_vars (ins_id + 1) rest st)"

text \<open>
  The second pass: a packet size change clips the range of its variable to the packet. The
  record is taken to point to a flow variable instruction whatever it points to.
\<close>

definition clip_size :: "nat \<Rightarrow> u16 \<Rightarrow> ins_flow_man \<Rightarrow> (ins_flow_man \<times> u16) outcome" where
  "clip_size ins_id pkt_size m =
     (let size = ucast pkt_size;
          max_value = (if size < fm_max_value m then size else fm_max_value m);
          min_value = (if size < fm_min_value m then size else fm_min_value m) in
      if max_value \<le> min_value then Throw (PktSizeRange ins_id)
      else
        (let min_value = (if min_value < 60 then 60 else min_value) in
         Ok (m\<lparr>fm_min_value := min_value, fm_max_value := max_value\<rparr>, ucast ((min_value + max_value) div 2))))"

definition fix_size :: "nat \<Rightarrow> vm_ins \<Rightarrow> stream_vm \<Rightarrow> stream_vm outcome" where
  "fix_size ins_id inst vm = (case inst of
     ChangePktSize name \<Rightarrow>
       (case m_flow_var_offset vm name of None \<Rightarrow> Throw (NoVariable ins_id)
        | Some var \<Rightarrow>
          if rec_size var \<noteq> 2 then Throw (PktSizeNotTwo ins_id)
          else (case rec_ins var of None \<Rightarrow> Undef
            | Some k \<Rightarrow> (case m_inst_list vm ! k of
                FlowMan m \<Rightarrow> obind (clip_size ins_id (m_pkt_size vm) m) (\<lambda>(m, expected).
                  Ok (vm\<lparr>m_inst_list := (m_inst_list vm)[k := FlowMan m], m_expected_pkt_size := expected\<rparr>))
              | _ \<Rightarrow> Undef)))
   | _ \<Rightarrow> Ok vm)"

fun fix_sizes :: "nat \<Rightarrow> vm_ins list \<Rightarrow> stream_vm \<Rightarrow> stream_vm outcome" where
  "fix_sizes ins_id [] vm = Ok vm"
| "fix_sizes ins_id (inst # rest) vm = obind (fix_size ins_id inst vm) (fix_sizes (ins_id + 1) rest)"

definition random_vars :: "bool \<Rightarrow> var_table \<times> nat" where
  "random_vars is_random =
     (if is_random then ([''___random___'' \<mapsto> \<lparr>rec_offset = 0, rec_ins = None, rec_size = 4\<rparr>], 4) else (Map.empty, 0))"

definition build_flow_var_table :: "stream_vm \<Rightarrow> stream_vm outcome" where
  "build_flow_var_table vm =
     obind (scan_vars 0 (m_inst_list vm) (random_vars (m_is_random_var vm))) (\<lambda>(table, cur).
       fix_sizes 0 (m_inst_list vm) (vm\<lparr>m_flow_var_offset := table, m_cur_var_offset := cur\<rparr>))"

section \<open>The initial flow variables\<close>

definition get_bss_init_value :: "ins_flow_man \<Rightarrow> u64" where
  "get_bss_init_value m = (let init = fm_init_value m in case fm_op m of
     FLOW_VAR_OP_INC \<Rightarrow> if init = fm_min_value m then fm_max_value m else init - 1
   | FLOW_VAR_OP_DEC \<Rightarrow> if init = fm_max_value m then fm_min_value m else init + 1
   | FLOW_VAR_OP_RANDOM \<Rightarrow> init)"

definition is_unlimited_flows :: "ins_flow_client \<Rightarrow> bool" where
  "is_unlimited_flows c \<longleftrightarrow> fc_flags c AND 1 = 1"

definition bss_bytes :: "vm_ins \<Rightarrow> u8 list" where
  "bss_bytes inst = (case inst of
     FlowMan m \<Rightarrow>
       (let v = get_bss_init_value m in
        if fm_size_bytes m = 1 then bytes_of (ucast v :: u8)
        else if fm_size_bytes m = 2 then bytes_of (ucast v :: u16)
        else if fm_size_bytes m = 4 then bytes_of (ucast v :: u32)
        else bytes_of v)
   | FlowClient c \<Rightarrow>
       bytes_of (if 0 < fc_client_min c then fc_client_min c - 1 else fc_client_min c) @
       bytes_of (if is_unlimited_flows c then CLIENT_UNLIMITED_MIN_PORT else fc_port_min c) @ bytes_of (0 :: u32)
   | _ \<Rightarrow> [])"

text \<open>\<open>rnd\<close> is what \<open>rand\<close> returns. The array of \<open>m_cur_var_offset\<close> bytes is written from its start.\<close>

definition build_bss :: "u32 \<Rightarrow> stream_vm \<Rightarrow> stream_vm" where
  "build_bss rnd vm =
     vm\<lparr>m_bss := Some ((if m_is_random_var vm then bytes_of rnd else []) @ concat (map bss_bytes (m_inst_list vm)))\<rparr>"

section \<open>The program\<close>

text \<open>Each instruction yields its commands and the end of the field of the packet that it writes.\<close>

definition gen_fix :: "stream_vm \<Rightarrow> nat \<Rightarrow> u16 \<Rightarrow> (dp_ins list \<times> nat) outcome" where
  "gen_fix vm ins_id pkt_offset =
     (let off = unat pkt_offset; size = unat (m_pkt_size vm) in
      if size < off + IPV4_HDR_LEN then Throw (FixOffsetTooHigh ins_id)
      else case (case m_pkt vm of None \<Rightarrow> Some IPV4_HDR_LEN | Some pkt \<Rightarrow> getHeaderLength pkt off) of
        None \<Rightarrow> Undef
      | Some len \<Rightarrow>
        (let next_layer = (if len < IPV4_HDR_LEN then IPV4_HDR_LEN else len) in
         if size < off + next_layer then Throw (FixOffsetTooHigh ins_id)
         else Ok ([ditFIX_IPV4_CS \<lparr>if_offset = pkt_offset\<rparr>], off + next_layer)))"

definition flow_var_cmd :: "u8 \<Rightarrow> ins_flow_man \<Rightarrow> dp_ins list" where
  "flow_var_cmd off m =
     (let simple = (fm_step m = 1 \<or> fm_op m = FLOW_VAR_OP_RANDOM);
          op8 = \<lparr>fv_offset = off, fv_min = ucast (fm_min_value m) :: u8, fv_max = ucast (fm_max_value m)\<rparr>;
          op16 = \<lparr>fv_offset = off, fv_min = ucast (fm_min_value m) :: u16, fv_max = ucast (fm_max_value m)\<rparr>;
          op32 = \<lparr>fv_offset = off, fv_min = ucast (fm_min_value m) :: u32, fv_max = ucast (fm_max_value m)\<rparr>;
          op64 = \<lparr>fv_offset = off, fv_min = fm_min_value m, fv_max = fm_max_value m\<rparr>;
          st8 = \<lparr>fv_offset = off, fv_min = ucast (fm_min_value m) :: u8, fv_max = ucast (fm_max_value m), fv_step = ucast (fm_step m)\<rparr>;
          st16 = \<lparr>fv_offset = off, fv_min = ucast (fm_min_value m) :: u16, fv_max = ucast (fm_max_value m), fv_step = ucast (fm_step m)\<rparr>;
          st32 = \<lparr>fv_offset = off, fv_min = ucast (fm_min_value m) :: u32, fv_max = ucast (fm_max_value m), fv_step = ucast (fm_step m)\<rparr>;
          st64 = \<lparr>fv_offset = off, fv_min = fm_min_value m, fv_max = fm_max_value m, fv_step = fm_step m\<rparr> in
      if fm_size_bytes m = 1 then
        [if simple then (case fm_op m of FLOW_VAR_OP_INC \<Rightarrow> ditINC8 op8 | FLOW_VAR_OP_DEC \<Rightarrow> ditDEC8 op8 | FLOW_VAR_OP_RANDOM \<Rightarrow> ditRANDOM8 op8)
         else (case fm_op m of FLOW_VAR_OP_DEC \<Rightarrow> ditDEC8_STEP st8 | _ \<Rightarrow> ditINC8_STEP st8)]
      else if fm_size_bytes m = 2 then
        [if simple then (case fm_op m of FLOW_VAR_OP_INC \<Rightarrow> ditINC16 op16 | FLOW_VAR_OP_DEC \<Rightarrow> ditDEC16 op16 | FLOW_VAR_OP_RANDOM \<Rightarrow> ditRANDOM16 op16)
         else (case fm_op m of FLOW_VAR_OP_DEC \<Rightarrow> ditDEC16_STEP st16 | _ \<Rightarrow> ditINC16_STEP st16)]
      else if fm_size_bytes m = 4 then
        [if simple then (case fm_op m of FLOW_VAR_OP_INC \<Rightarrow> ditINC32 op32 | FLOW_VAR_OP_DEC \<Rightarrow> ditDEC32 op32 | FLOW_VAR_OP_RANDOM \<Rightarrow> ditRANDOM32 op32)
         else (case fm_op m of FLOW_VAR_OP_DEC \<Rightarrow> ditDEC32_STEP st32 | _ \<Rightarrow> ditINC32_STEP st32)]
      else if fm_size_bytes m = 8 then
        [if simple then (case fm_op m of FLOW_VAR_OP_INC \<Rightarrow> ditINC64 op64 | FLOW_VAR_OP_DEC \<Rightarrow> ditDEC64 op64 | FLOW_VAR_OP_RANDOM \<Rightarrow> ditRANDOM64 op64)
         else (case fm_op m of FLOW_VAR_OP_DEC \<Rightarrow> ditDEC64_STEP st64 | _ \<Rightarrow> ditINC64_STEP st64)]
      else [])"

definition write_cmd :: "var_rec \<Rightarrow> ins_write_to_pkt \<Rightarrow> dp_ins list" where
  "write_cmd var w =
     (let flags = (if wp_is_big_endian w then 1 else 0); off = of_nat (rec_offset var); pkt = wp_pkt_offset w; add = wp_add_value w in
      if rec_size var = 1 then
        [itPKT_WR8 \<lparr>pw_flags = flags, pw_offset = off, pw_pkt_offset = pkt, pw_val_offset = ucast add\<rparr>]
      else if rec_size var = 2 then
        [itPKT_WR16 \<lparr>pw_flags = flags, pw_offset = off, pw_pkt_offset = pkt, pw_val_offset = ucast add\<rparr>]
      else if rec_size var = 4 then
        [itPKT_WR32 \<lparr>pw_flags = flags, pw_offset = off, pw_pkt_offset = pkt, pw_val_offset = add\<rparr>]
      else if rec_size var = 8 then
        [itPKT_WR64 \<lparr>pw_flags = flags, pw_offset = off, pw_pkt_offset = pkt, pw_val_offset = scast add\<rparr>]
      else [])"

definition write_mask_cmd :: "var_rec \<Rightarrow> ins_write_mask_to_pkt \<Rightarrow> dp_ins" where
  "write_mask_cmd var w =
     (let flags = (if wk_is_big_endian w then 1 else 0); off = of_nat (rec_offset var) in
      itPKT_WR_MASK \<lparr>wm_flags = flags,
        wm_var_offset = (if rec_size var = 8 \<and> wk_is_big_endian w then off + 4 else off),
        wm_shift = word_of_int (wk_shift w), wm_pkt_cast_size = wk_pkt_cast_size w,
        wm_flowv_cast_size = (if rec_size var = 8 then 4 else rec_size var),
        wm_pkt_offset = wk_pkt_offset w, wm_mask = wk_mask w, wm_add_value = wk_add_value w\<rparr>)"

definition client_cmd :: "u8 \<Rightarrow> ins_flow_client \<Rightarrow> dp_ins" where
  "client_cmd off c =
     (if is_unlimited_flows c then
        itCLIENT_VAR_UNLIMIT \<lparr>cu_flow_offset = off, cu_flags = 0, cu_pad = 0, cu_min_ip = fc_client_min c, cu_max_ip = fc_client_max c\<rparr>
      else
        itCLIENT_VAR \<lparr>cl_flow_offset = off, cl_flags = 0, cl_pad = 0, cl_min_port = fc_port_min c, cl_max_port = fc_port_max c,
          cl_min_ip = fc_client_min c, cl_max_ip = fc_client_max c, cl_limit_flows = fc_limit_num_flows c\<rparr>)"

definition get_var_offset :: "stream_vm \<Rightarrow> string \<Rightarrow> u8 outcome" where
  "get_var_offset vm name = (case m_flow_var_offset vm name of None \<Rightarrow> Undef | Some var \<Rightarrow> Ok (of_nat (rec_offset var)))"

definition gen_ins :: "stream_vm \<Rightarrow> nat \<Rightarrow> vm_ins \<Rightarrow> (dp_ins list \<times> nat) outcome" where
  "gen_ins vm ins_id inst = (case inst of
     FixChecksumIpv4 off \<Rightarrow> gen_fix vm ins_id off
   | FlowMan m \<Rightarrow> obind (get_var_offset vm (fm_var_name m)) (\<lambda>off. Ok (flow_var_cmd off m, 0))
   | WriteToPkt w \<Rightarrow>
       (case m_flow_var_offset vm (wp_flow_var_name w) of None \<Rightarrow> Throw (NoVariable ins_id)
        | Some var \<Rightarrow>
          (let field = unat (wp_pkt_offset w) + unat (rec_size var) in
           if unat (m_pkt_size vm) < field then Throw (WriteOffsetTooHigh ins_id) else Ok (write_cmd var w, field)))
   | WriteMaskToPkt w \<Rightarrow>
       (if wk_pkt_cast_size w \<notin> {1, 2, 4} then Throw (CastSize ins_id)
        else case m_flow_var_offset vm (wk_flow_var_name w) of None \<Rightarrow> Throw (NoVariable ins_id)
        | Some var \<Rightarrow>
          (let field = unat (wk_pkt_offset w) + unat (wk_pkt_cast_size w) in
           if unat (m_pkt_size vm) < field then Throw (WriteOffsetTooHigh ins_id) else Ok ([write_mask_cmd var w], field)))
   | FlowClient c \<Rightarrow> obind (get_var_offset vm (fc_var_name c @ ''.ip'')) (\<lambda>off. Ok ([client_cmd off c], 0))
   | ChangePktSize name \<Rightarrow>
       (case m_flow_var_offset vm name of None \<Rightarrow> Throw (NoVariable ins_id)
        | Some var \<Rightarrow>
          if rec_size var \<noteq> 2 then Throw (PktSizeNotTwo ins_id)
          else Ok ([itPKT_SIZE_CHANGE \<lparr>ps_flow_offset = of_nat (rec_offset var)\<rparr>], 0)))"

definition add_field_cnt :: "stream_vm \<Rightarrow> nat \<Rightarrow> stream_vm" where
  "add_field_cnt vm new_cnt = (if m_max_field_update vm < new_cnt then vm\<lparr>m_max_field_update := new_cnt\<rparr> else vm)"

fun gen_all :: "nat \<Rightarrow> vm_ins list \<Rightarrow> stream_vm \<Rightarrow> stream_vm outcome" where
  "gen_all ins_id [] vm = Ok vm"
| "gen_all ins_id (inst # rest) vm =
     obind (gen_ins vm ins_id inst) (\<lambda>(cmds, field).
       gen_all (ins_id + 1) rest (add_field_cnt (vm\<lparr>m_instructions := foldl add_command (m_instructions vm) cmds\<rparr>) field))"

definition is_var_ins :: "vm_ins \<Rightarrow> bool" where
  "is_var_ins inst = (case inst of FlowMan m \<Rightarrow> True | FlowClient c \<Rightarrow> True | _ \<Rightarrow> False)"

definition build_program :: "stream_vm \<Rightarrow> stream_vm outcome" where
  "build_program vm =
     obind (gen_all 0 (m_inst_list vm) (vm\<lparr>m_instructions := [], m_max_field_update := 0\<rparr>)) (\<lambda>vm.
       if length (filter is_var_ins (m_inst_list vm)) = 0 then Throw NoVariableInProgram else Ok vm)"

section \<open>Compilation\<close>

definition calc_writable_mbuf_size :: "u16 \<Rightarrow> u16 \<Rightarrow> u16" where
  "calc_writable_mbuf_size max_offset_writable pkt_size =
     (if pkt_size \<le> 128 then pkt_size
      else
        (let non_writable = pkt_size - (max_offset_writable + 1) in
         if non_writable < 64 then pkt_size
         else if unat max_offset_writable + 1 \<le> 60 then 60
         else max_offset_writable + 1))"

definition compile :: "u32 \<Rightarrow> u16 \<Rightarrow> stream_vm \<Rightarrow> stream_vm outcome" where
  "compile rnd pkt_len vm =
     (if m_inst_list vm = [] then Ok vm
      else obind (build_flow_var_table (vm\<lparr>m_pkt_size := pkt_len\<rparr>)) (\<lambda>vm.
        obind (build_program (build_bss rnd vm)) (\<lambda>vm.
          if svMAX_PACKET_OFFSET_CHANGE < m_max_field_update vm then Throw (MaxOffsetTooHigh (m_max_field_update vm))
          else Ok (vm\<lparr>m_prefix_size := calc_writable_mbuf_size (of_nat (m_max_field_update vm)) (m_pkt_size vm),
                     m_is_compiled := True\<rparr>))))"

text \<open>The object for the data plane, the compilation of a stream, and the copy of a VM.\<close>

record stream_vm_dp =
  dp_bss :: "u8 list"
  dp_program :: "u8 list"
  dp_max_pkt_offset_change :: nat
  dp_prefix_size :: u16
  dp_is_pkt_size_var :: bool
  dp_is_random_seed :: bool

text \<open>
  The constructor copies as many bytes of the program as the size says, which is passed with 16 bits.
  An array or a program of size 0 fails an assertion.
\<close>

definition new_stream_vm_dp :: "u8 list option \<Rightarrow> u8 list \<Rightarrow> u16 \<Rightarrow> nat \<Rightarrow> u16 \<Rightarrow> bool \<Rightarrow> bool \<Rightarrow> stream_vm_dp outcome" where
  "new_stream_vm_dp bss prog prog_size max_pkt_offset prefix_size a_is_pkt_size_var a_is_random_seed =
     (if bss = Some [] \<or> prog_size = 0 then Undef
      else Ok \<lparr>dp_bss = (case bss of None \<Rightarrow> [] | Some bss \<Rightarrow> bss), dp_program = take (unat prog_size) prog,
        dp_max_pkt_offset_change = max_pkt_offset, dp_prefix_size = prefix_size,
        dp_is_pkt_size_var = a_is_pkt_size_var, dp_is_random_seed = a_is_random_seed\<rparr>)"

definition generate_dp_object :: "stream_vm \<Rightarrow> stream_vm_dp option outcome" where
  "generate_dp_object vm =
     (if \<not> m_is_compiled vm then Ok None
      else obind (new_stream_vm_dp (m_bss vm) (m_instructions vm) (of_nat (length (m_instructions vm)))
        (m_max_field_update vm) (m_prefix_size vm) (m_is_change_pkt_size vm) (m_is_random_var vm)) (\<lambda>lp. Ok (Some lp)))"

definition vm_compile :: "u32 \<Rightarrow> u8 list \<Rightarrow> stream_vm \<Rightarrow> (stream_vm \<times> stream_vm_dp option) outcome" where
  "vm_compile rnd pkt vm =
     (if m_inst_list vm = [] then Ok (vm, None)
      else obind (compile rnd (of_nat (length pkt)) (vm\<lparr>m_pkt := Some pkt\<rparr>)) (\<lambda>vm.
        obind (generate_dp_object vm) (\<lambda>dp. Ok (vm\<lparr>m_pkt := None\<rparr>, dp))))"

definition clone :: "stream_vm \<Rightarrow> stream_vm \<Rightarrow> stream_vm" where
  "clone vm other =
     other\<lparr>m_inst_list := m_inst_list vm,
           m_split_instr := (case m_split_instr vm of None \<Rightarrow> m_split_instr other
             | Some k \<Rightarrow> if k < length (m_inst_list vm) then Some k else m_split_instr other),
           m_is_random_var := m_is_random_var vm\<rparr>"

definition calc_expected_pkt_size :: "u32 \<Rightarrow> u16 \<Rightarrow> stream_vm \<Rightarrow> u16 outcome" where
  "calc_expected_pkt_size rnd regular_pkt_size vm =
     (if \<not> m_is_change_pkt_size vm then Ok regular_pkt_size
      else obind (compile rnd regular_pkt_size (clone vm new_stream_vm)) (\<lambda>dummy.
        if m_expected_pkt_size dummy = 0 then Undef else Ok (m_expected_pkt_size dummy)))"

end
