(* ===== verification/Vm_Table.thy ===== *)
theory Vm_Table
  imports Vm_Compile
begin

text \<open>
  The table of flow variables and the initial flow variables that the compiler builds agree: the
  variables of the table lie one after the other in the array, without gaps, and at the offset of
  each variable the array holds its initial value.
\<close>

section \<open>The entries of the table\<close>

lemma obind_Ok: "obind x f = Ok y \<longleftrightarrow> (\<exists>z. x = Ok z \<and> f z = Ok y)"
  by (cases x) simp_all

definition var_bytes :: "vm_ins \<Rightarrow> nat" where
  "var_bytes inst = (case inst of FlowMan m \<Rightarrow> unat (fm_size_bytes m) | FlowClient c \<Rightarrow> 10 | _ \<Rightarrow> 0)"

definition entries :: "nat \<Rightarrow> nat \<Rightarrow> vm_ins \<Rightarrow> (string \<times> var_rec) list" where
  "entries k cur inst = (case inst of
     FlowMan m \<Rightarrow> [(fm_var_name m, \<lparr>rec_offset = cur, rec_ins = Some k, rec_size = fm_size_bytes m\<rparr>)]
   | FlowClient c \<Rightarrow>
       [(fc_var_name c @ ''.ip'', \<lparr>rec_offset = cur, rec_ins = Some k, rec_size = 4\<rparr>),
        (fc_var_name c @ ''.port'', \<lparr>rec_offset = cur + 4, rec_ins = Some k, rec_size = 2\<rparr>),
        (fc_var_name c @ ''.flow_limit'', \<lparr>rec_offset = cur + 6, rec_ins = Some k, rec_size = 4\<rparr>)]
   | _ \<Rightarrow> [])"

fun all_entries :: "nat \<Rightarrow> nat \<Rightarrow> vm_ins list \<Rightarrow> (string \<times> var_rec) list" where
  "all_entries k cur [] = []"
| "all_entries k cur (i # is') = entries k cur i @ all_entries (k + 1) (cur + var_bytes i) is'"

definition size_ok :: "vm_ins \<Rightarrow> bool" where
  "size_ok inst \<longleftrightarrow> (case inst of FlowMan m \<Rightarrow> valid_size (fm_size_bytes m) | _ \<Rightarrow> True)"

abbreviation names :: "(string \<times> var_rec) list \<Rightarrow> string list" where
  "names es \<equiv> map fst es"

lemma map_of_snoc: "n \<notin> set (names es) \<Longrightarrow> (map_of es)(n \<mapsto> r) = map_of (es @ [(n, r)])"
  by (rule ext) (auto simp: map_add_def map_of_eq_None_iff [symmetric] split: option.splits)

lemma add_vars_Ok:
  assumes "add_vars k inst (map_of es, cur) = Ok st" and "distinct (names es)"
  shows "st = (map_of (es @ entries k cur inst), cur + var_bytes inst) \<and> distinct (names (es @ entries k cur inst)) \<and> size_ok inst"
proof (cases inst)
  case (FlowMan m)
  have "fm_var_name m \<notin> set (names es)" "valid_size (fm_size_bytes m)"
    using assms(1) FlowMan by (auto simp: add_vars_def map_of_eq_None_iff split: if_splits)
  then show ?thesis using assms FlowMan
    by (auto simp: add_vars_def entries_def var_bytes_def size_ok_def map_of_snoc split: if_splits)
next
  case (FlowClient c)
  let ?n = "fc_var_name c"
  have fresh: "?n @ ''.ip'' \<notin> set (names es)" "?n @ ''.port'' \<notin> set (names es)" "?n @ ''.flow_limit'' \<notin> set (names es)"
    using assms(1) FlowClient by (auto simp: add_vars_def map_of_eq_None_iff split: if_splits)
  define a where "a = (?n @ ''.ip'', \<lparr>rec_offset = cur, rec_ins = Some k, rec_size = 4\<rparr>)"
  define b where "b = (?n @ ''.port'', \<lparr>rec_offset = cur + 4, rec_ins = Some k, rec_size = 2\<rparr>)"
  define c' where "c' = (?n @ ''.flow_limit'', \<lparr>rec_offset = cur + 6, rec_ins = Some k, rec_size = 4\<rparr>)"
  have e: "entries k cur inst = [a, b, c']" by (simp add: FlowClient entries_def a_def b_def c'_def)
  have "st = ((map_of es)(fst a \<mapsto> snd a, fst b \<mapsto> snd b, fst c' \<mapsto> snd c'), cur + 10)"
    using assms(1) FlowClient by (simp add: add_vars_def a_def b_def c'_def split: if_splits)
  also have "(map_of es)(fst a \<mapsto> snd a) = map_of (es @ [a])" using map_of_snoc [of "fst a" es "snd a"] fresh by (simp add: a_def)
  also have "(map_of (es @ [a]))(fst b \<mapsto> snd b) = map_of (es @ [a, b])"
    using map_of_snoc [of "fst b" "es @ [a]" "snd b"] fresh by (simp add: a_def b_def)
  also have "(map_of (es @ [a, b]))(fst c' \<mapsto> snd c') = map_of (es @ [a, b, c'])"
    using map_of_snoc [of "fst c'" "es @ [a, b]" "snd c'"] fresh by (simp add: a_def b_def c'_def)
  finally show ?thesis unfolding e using fresh assms(2)
    by (simp add: FlowClient var_bytes_def size_ok_def) (simp add: a_def b_def c'_def)
qed (use assms in \<open>simp_all add: add_vars_def entries_def var_bytes_def size_ok_def\<close>)

lemma scan_vars_Ok:
  assumes "scan_vars k insts (map_of es, cur) = Ok (table, cur')" and "distinct (names es)" and "cur \<le> 64"
  shows "table = map_of (es @ all_entries k cur insts) \<and> distinct (names (es @ all_entries k cur insts)) \<and>
    cur' = cur + sum_list (map var_bytes insts) \<and> (\<forall>i\<in>set insts. size_ok i) \<and> cur' \<le> 64"
  using assms
proof (induction insts arbitrary: k es cur)
  case (Cons i insts)
  obtain st where st: "add_vars k i (map_of es, cur) = Ok st"
      and rest: "\<not> 64 < snd st" "scan_vars (k + 1) insts st = Ok (table, cur')"
    using Cons.prems(1) by (auto simp: obind_Ok split: if_splits)
  have step: "st = (map_of (es @ entries k cur i), cur + var_bytes i)" "distinct (names (es @ entries k cur i))" "size_ok i"
    using add_vars_Ok [OF st Cons.prems(2)] by blast+
  show ?case using Cons.IH [of "k + 1" "es @ entries k cur i" "cur + var_bytes i"] rest step by (simp add: add.assoc)
qed simp

section \<open>The entries lie one after the other\<close>

fun tiles :: "nat \<Rightarrow> (string \<times> var_rec) list \<Rightarrow> nat \<Rightarrow> bool" where
  "tiles a [] b = (a = b)"
| "tiles a ((n, r) # es) b = (rec_offset r = a \<and> valid_size (rec_size r) \<and> tiles (a + unat (rec_size r)) es b)"

lemma tiles_append: "tiles a es b \<Longrightarrow> tiles b es' c \<Longrightarrow> tiles a (es @ es') c"
  by (induction a es b rule: tiles.induct) auto

lemma tiles_entries: "size_ok i \<Longrightarrow> tiles cur (entries k cur i) (cur + var_bytes i)"
  by (cases i) (auto simp: entries_def var_bytes_def size_ok_def valid_size_def)

lemma tiles_all: "\<forall>i\<in>set insts. size_ok i \<Longrightarrow> tiles cur (all_entries k cur insts) (cur + sum_list (map var_bytes insts))"
proof (induction insts arbitrary: k cur)
  case (Cons i insts)
  have "tiles cur (entries k cur i @ all_entries (k + 1) (cur + var_bytes i) insts)
      (cur + var_bytes i + sum_list (map var_bytes insts))"
    by (rule tiles_append [OF tiles_entries]) (use Cons in simp_all)
  then show ?case by (simp add: add.assoc)
qed simp

lemma tiles_bounds: "tiles a es b \<Longrightarrow> a \<le> b \<and> (\<forall>(n, r)\<in>set es. valid_size (rec_size r) \<and> a \<le> rec_offset r \<and> rec_offset r + unat (rec_size r) \<le> b)"
  by (induction a es b rule: tiles.induct) fastforce+

lemma tiles_cover: "tiles a es b \<Longrightarrow> a \<le> k \<Longrightarrow> k < b \<Longrightarrow>
    \<exists>n r. (n, r) \<in> set es \<and> rec_offset r \<le> k \<and> k < rec_offset r + unat (rec_size r)"
proof (induction a es b rule: tiles.induct)
  case (2 a n r es b)
  show ?case
  proof (cases "k < a + unat (rec_size r)")
    case True
    then show ?thesis using 2(2,3) by auto
  next
    case False
    then have "\<exists>n r. (n, r) \<in> set es \<and> rec_offset r \<le> k \<and> k < rec_offset r + unat (rec_size r)" using 2 by simp
    then show ?thesis by (meson list.set_intros(2))
  qed
qed simp

lemma tiles_disjoint:
  assumes "tiles a es b" and "(n, r) \<in> set es" and "(n', r') \<in> set es" and "n \<noteq> n'"
  shows "rec_offset r + unat (rec_size r) \<le> rec_offset r' \<or> rec_offset r' + unat (rec_size r') \<le> rec_offset r"
  using assms
proof (induction a es b rule: tiles.induct)
  case (2 a m s es b)
  have "\<forall>(n, r)\<in>set es. a + unat (rec_size s) \<le> rec_offset r" using 2(2) tiles_bounds by fastforce
  then show ?case using 2 by fastforce
qed simp

section \<open>The initial flow variables\<close>

lemma length_bss_bytes: "size_ok i \<Longrightarrow> length (bss_bytes i) = var_bytes i"
  by (cases i) (auto simp: bss_bytes_def var_bytes_def size_ok_def valid_size_def Let_def)

lemma length_bss: "\<forall>i\<in>set insts. size_ok i \<Longrightarrow> length (concat (map bss_bytes insts)) = sum_list (map var_bytes insts)"
  by (induction insts) (simp_all add: length_bss_bytes)

lemma bss_at:
  assumes "\<forall>i\<in>set insts. size_ok i" and "j < length insts"
  shows "take (var_bytes (insts ! j)) (drop (sum_list (map var_bytes (take j insts))) (concat (map bss_bytes insts))) = bss_bytes (insts ! j)"
  using assms
proof (induction insts arbitrary: j)
  case (Cons i insts)
  show ?case
  proof (cases j)
    case 0
    then show ?thesis using Cons.prems length_bss_bytes [of i] by simp
  next
    case (Suc j')
    then show ?thesis using Cons length_bss_bytes [of i] by simp
  qed
qed simp

lemma entries_at:
  assumes "j < length insts" and "e \<in> set (entries (k + j) (cur + sum_list (map var_bytes (take j insts))) (insts ! j))"
  shows "e \<in> set (all_entries k cur insts)"
  using assms
proof (induction insts arbitrary: j k cur)
  case (Cons i insts)
  show ?case
  proof (cases j)
    case (Suc j')
    then show ?thesis using Cons.prems Cons.IH [of j' "k + 1" "cur + var_bytes i"] by (simp add: add.assoc)
  qed (use Cons in simp)
qed simp

lemma entries_inv:
  assumes "e \<in> set (all_entries k cur insts)"
  shows "\<exists>j < length insts. e \<in> set (entries (k + j) (cur + sum_list (map var_bytes (take j insts))) (insts ! j))"
  using assms
proof (induction insts arbitrary: k cur)
  case (Cons i insts)
  show ?case
  proof (cases "e \<in> set (entries k cur i)")
    case False
    then obtain j where "j < length insts" "e \<in> set (entries (k + 1 + j) (cur + var_bytes i + sum_list (map var_bytes (take j insts))) (insts ! j))"
      using Cons by fastforce
    then show ?thesis by (intro exI [of _ "Suc j"]) (simp add: add.assoc)
  qed (intro exI [of _ 0], simp)
qed simp

section \<open>The second pass\<close>

text \<open>The second pass changes ranges only.\<close>

definition no_range :: "ins_flow_man \<Rightarrow> ins_flow_man" where
  "no_range m = m\<lparr>fm_min_value := 0, fm_max_value := 0\<rparr>"

definition same_var :: "vm_ins \<Rightarrow> vm_ins \<Rightarrow> bool" where
  "same_var i j \<longleftrightarrow> (case i of FlowMan m \<Rightarrow> (\<exists>m'. j = FlowMan m' \<and> no_range m' = no_range m) | _ \<Rightarrow> i = j)"

lemma no_range_facts:
  assumes "no_range m' = no_range m"
  shows "fm_var_name m' = fm_var_name m" "fm_size_bytes m' = fm_size_bytes m" "fm_op m' = fm_op m"
    "fm_init_value m' = fm_init_value m" "fm_step m' = fm_step m"
  using arg_cong [OF assms, of fm_var_name] arg_cong [OF assms, of fm_size_bytes] arg_cong [OF assms, of fm_op]
    arg_cong [OF assms, of fm_init_value] arg_cong [OF assms, of fm_step]
  by (simp_all add: no_range_def)

lemma same_var_refl [simp]: "same_var i i"
  by (cases i) (simp_all add: same_var_def)

lemma same_var_trans: "same_var i j \<Longrightarrow> same_var j k \<Longrightarrow> same_var i k"
  by (cases i) (auto simp: same_var_def)

lemma same_var_facts:
  assumes "same_var i j"
  shows "entries k cur j = entries k cur i" "var_bytes j = var_bytes i" "size_ok j = size_ok i"
  using assms by (cases i; auto simp: same_var_def entries_def var_bytes_def size_ok_def dest: no_range_facts)+

definition vm_meta :: "stream_vm \<Rightarrow> stream_vm" where
  "vm_meta vm = vm\<lparr>m_inst_list := [], m_expected_pkt_size := 0\<rparr>"

lemma fix_size_Ok:
  assumes "fix_size k inst vm = Ok vm'"
  shows "list_all2 same_var (m_inst_list vm) (m_inst_list vm') \<and> vm_meta vm' = vm_meta vm"
proof (cases "\<exists>name. inst = ChangePktSize name")
  case True
  then obtain name where inst: "inst = ChangePktSize name" by blast
  obtain var j m m' expected where
      *: "m_flow_var_offset vm name = Some var" "rec_size var = 2" "rec_ins var = Some j" "m_inst_list vm ! j = FlowMan m"
        "clip_size k (m_pkt_size vm) m = Ok (m', expected)"
        "vm' = vm\<lparr>m_inst_list := (m_inst_list vm)[j := FlowMan m'], m_expected_pkt_size := expected\<rparr>"
    using assms by (auto simp: inst fix_size_def obind_Ok split: option.splits if_splits vm_ins.splits)
  have "same_var (FlowMan m) (FlowMan m')" using *(5) by (auto simp: clip_size_def same_var_def no_range_def Let_def split: if_splits)
  then have "same_var (m_inst_list vm ! i) ((m_inst_list vm)[j := FlowMan m'] ! i)" if "i < length (m_inst_list vm)" for i
    using *(4) that by (cases "i = j") simp_all
  then have "list_all2 same_var (m_inst_list vm) ((m_inst_list vm)[j := FlowMan m'])" by (simp add: list_all2_conv_all_nth)
  then show ?thesis by (simp add: *(6) vm_meta_def)
next
  case False
  then have "vm' = vm" using assms by (cases inst) (auto simp: fix_size_def)
  then show ?thesis by (simp add: list_all2_conv_all_nth)
qed

lemma fix_sizes_Ok:
  "fix_sizes k insts vm = Ok vm' \<Longrightarrow> list_all2 same_var (m_inst_list vm) (m_inst_list vm') \<and> vm_meta vm' = vm_meta vm"
proof (induction insts arbitrary: k vm)
  case (Cons i insts)
  obtain vm1 where vm1: "fix_size k i vm = Ok vm1" "fix_sizes (k + 1) insts vm1 = Ok vm'"
    using Cons.prems by (auto simp: obind_Ok)
  show ?case using fix_size_Ok [OF vm1(1)] Cons.IH [OF vm1(2)] list_all2_trans [of same_var same_var same_var] same_var_trans by metis
qed (simp add: list_all2_conv_all_nth)

lemma vm_meta_facts:
  assumes "vm_meta vm' = vm_meta vm"
  shows "m_flow_var_offset vm' = m_flow_var_offset vm" "m_cur_var_offset vm' = m_cur_var_offset vm" "m_pkt_size vm' = m_pkt_size vm"
    "m_is_random_var vm' = m_is_random_var vm" "m_pkt vm' = m_pkt vm" "m_is_change_pkt_size vm' = m_is_change_pkt_size vm"
    "m_bss vm' = m_bss vm" "m_is_compiled vm' = m_is_compiled vm"
  using arg_cong [OF assms, of m_flow_var_offset] arg_cong [OF assms, of m_cur_var_offset] arg_cong [OF assms, of m_pkt_size]
    arg_cong [OF assms, of m_is_random_var] arg_cong [OF assms, of m_pkt] arg_cong [OF assms, of m_is_change_pkt_size]
    arg_cong [OF assms, of m_bss] arg_cong [OF assms, of m_is_compiled]
  by (simp_all add: vm_meta_def)

section \<open>The program\<close>

text \<open>The commands of an instruction depend on the table and the packet only.\<close>

lemma gen_ins_cong:
  assumes "m_flow_var_offset vm' = m_flow_var_offset vm" and "m_pkt_size vm' = m_pkt_size vm" and "m_pkt vm' = m_pkt vm"
  shows "gen_ins vm' k i = gen_ins vm k i"
  unfolding gen_ins_def gen_fix_def get_var_offset_def assms by (rule refl)

definition vm_static :: "stream_vm \<Rightarrow> stream_vm" where
  "vm_static vm = vm\<lparr>m_instructions := [], m_max_field_update := 0\<rparr>"

lemma vm_static_facts:
  assumes "vm_static vm' = vm_static vm"
  shows "m_flow_var_offset vm' = m_flow_var_offset vm" "m_cur_var_offset vm' = m_cur_var_offset vm" "m_pkt_size vm' = m_pkt_size vm"
    "m_is_random_var vm' = m_is_random_var vm" "m_pkt vm' = m_pkt vm" "m_is_change_pkt_size vm' = m_is_change_pkt_size vm"
    "m_bss vm' = m_bss vm" "m_inst_list vm' = m_inst_list vm"
  using arg_cong [OF assms, of m_flow_var_offset] arg_cong [OF assms, of m_cur_var_offset] arg_cong [OF assms, of m_pkt_size]
    arg_cong [OF assms, of m_is_random_var] arg_cong [OF assms, of m_pkt] arg_cong [OF assms, of m_is_change_pkt_size]
    arg_cong [OF assms, of m_bss] arg_cong [OF assms, of m_inst_list]
  by (simp_all add: vm_static_def)

definition generates :: "stream_vm \<Rightarrow> vm_ins \<Rightarrow> dp_ins list \<times> nat \<Rightarrow> bool" where
  "generates vm i c \<longleftrightarrow> (\<exists>k. gen_ins vm k i = Ok c)"

lemma generates_cong:
  assumes "m_flow_var_offset vm' = m_flow_var_offset vm" and "m_pkt_size vm' = m_pkt_size vm" and "m_pkt vm' = m_pkt vm"
  shows "generates vm' = generates vm"
  unfolding generates_def gen_ins_cong [OF assms] by (rule refl)

lemma gen_all_Ok:
  assumes "gen_all k insts vm = Ok vm'"
  shows "\<exists>cs. list_all2 (generates vm) insts cs \<and> m_instructions vm' = m_instructions vm @ concat (map encode_ins (concat (map fst cs))) \<and>
    m_max_field_update vm \<le> m_max_field_update vm' \<and> (\<forall>c\<in>set cs. snd c \<le> m_max_field_update vm') \<and>
    m_max_field_update vm' \<in> insert (m_max_field_update vm) (snd ` set cs) \<and> vm_static vm' = vm_static vm"
  using assms
proof (induction insts arbitrary: k vm)
  case Nil
  then show ?case by (intro exI [of _ "[]"]) simp
next
  case (Cons i insts)
  obtain cmds field where g: "gen_ins vm k i = Ok (cmds, field)"
    and rest: "gen_all (k + 1) insts (add_field_cnt (vm\<lparr>m_instructions := foldl add_command (m_instructions vm) cmds\<rparr>) field) = Ok vm'"
    using Cons.prems by (auto simp: obind_Ok)
  define vm1 where "vm1 = add_field_cnt (vm\<lparr>m_instructions := foldl add_command (m_instructions vm) cmds\<rparr>) field"
  have vm1: "m_instructions vm1 = m_instructions vm @ concat (map encode_ins cmds)" "vm_static vm1 = vm_static vm"
      "m_max_field_update vm1 = max (m_max_field_update vm) field"
    by (auto simp: vm1_def add_field_cnt_def foldl_add_command vm_static_def)
  have same: "generates vm1 = generates vm"
    by (rule generates_cong) (rule vm_static_facts [OF vm1(2)])+
  obtain cs where cs: "list_all2 (generates vm) insts cs" "m_instructions vm' = m_instructions vm1 @ concat (map encode_ins (concat (map fst cs)))"
      "m_max_field_update vm1 \<le> m_max_field_update vm'" "\<forall>c\<in>set cs. snd c \<le> m_max_field_update vm'"
      "m_max_field_update vm' \<in> insert (m_max_field_update vm1) (snd ` set cs)" "vm_static vm' = vm_static vm1"
    using Cons.IH [OF rest [folded vm1_def]] unfolding same by blast
  have "generates vm i (cmds, field)" using g by (auto simp: generates_def)
  then show ?case using cs vm1 by (intro exI [of _ "(cmds, field) # cs"]) (auto simp: max_def split: if_splits)
qed

section \<open>What compilation yields\<close>

definition random_entries :: "bool \<Rightarrow> (string \<times> var_rec) list" where
  "random_entries r = (if r then [(''___random___'', \<lparr>rec_offset = 0, rec_ins = None, rec_size = 4\<rparr>)] else [])"

abbreviation first_var :: "stream_vm \<Rightarrow> nat" where
  "first_var vm \<equiv> (if m_is_random_var vm then 4 else 0)"

abbreviation vm_entries :: "stream_vm \<Rightarrow> (string \<times> var_rec) list" where
  "vm_entries vm \<equiv> random_entries (m_is_random_var vm) @ all_entries 0 (first_var vm) (m_inst_list vm)"

definition compiled :: "stream_vm \<Rightarrow> bool" where
  "compiled vm \<longleftrightarrow> m_flow_var_offset vm = map_of (vm_entries vm) \<and> distinct (names (vm_entries vm)) \<and>
     m_cur_var_offset vm = first_var vm + sum_list (map var_bytes (m_inst_list vm)) \<and> m_cur_var_offset vm \<le> svMAX_FLOW_VAR \<and>
     (\<forall>i\<in>set (m_inst_list vm). size_ok i) \<and> (\<exists>i\<in>set (m_inst_list vm). is_var_ins i) \<and>
     (\<exists>rnd. m_bss vm = Some ((if m_is_random_var vm then bytes_of (rnd :: u32) else []) @ concat (map bss_bytes (m_inst_list vm)))) \<and>
     (\<exists>cs. list_all2 (generates vm) (m_inst_list vm) cs \<and> m_instructions vm = concat (map encode_ins (concat (map fst cs))) \<and>
        (\<forall>c\<in>set cs. snd c \<le> m_max_field_update vm) \<and> m_max_field_update vm \<in> insert 0 (snd ` set cs)) \<and>
     m_max_field_update vm \<le> svMAX_PACKET_OFFSET_CHANGE \<and>
     m_prefix_size vm = calc_writable_mbuf_size (of_nat (m_max_field_update vm)) (m_pkt_size vm)"

lemma all_entries_same:
  "list_all2 same_var is' js \<Longrightarrow> all_entries k cur js = all_entries k cur is' \<and> map var_bytes js = map var_bytes is' \<and>
     ((\<forall>i\<in>set js. size_ok i) \<longleftrightarrow> (\<forall>i\<in>set is'. size_ok i))"
  by (induction is' js arbitrary: k cur rule: list_all2_induct) (simp_all add: same_var_facts)

lemma compile_Ok:
  assumes "compile rnd len vm = Ok vm'" and "m_inst_list vm \<noteq> []"
  shows "compiled vm' \<and> list_all2 same_var (m_inst_list vm) (m_inst_list vm') \<and> m_is_compiled vm' \<and> m_pkt_size vm' = len \<and>
    m_pkt vm' = m_pkt vm \<and> m_is_random_var vm' = m_is_random_var vm \<and> m_is_change_pkt_size vm' = m_is_change_pkt_size vm"
proof -
  define r where "r = m_is_random_var vm"
  obtain vm1 vm3 where b: "build_flow_var_table (vm\<lparr>m_pkt_size := len\<rparr>) = Ok vm1"
      and p: "build_program (build_bss rnd vm1) = Ok vm3" and m: "\<not> svMAX_PACKET_OFFSET_CHANGE < m_max_field_update vm3"
      and vm': "vm' = vm3\<lparr>m_prefix_size := calc_writable_mbuf_size (of_nat (m_max_field_update vm3)) (m_pkt_size vm3), m_is_compiled := True\<rparr>"
    using assms by (auto simp: compile_def obind_Ok split: if_splits)
  obtain table cur where sc: "scan_vars 0 (m_inst_list vm) (random_vars r) = Ok (table, cur)"
      and fx: "fix_sizes 0 (m_inst_list vm) (vm\<lparr>m_pkt_size := len, m_flow_var_offset := table, m_cur_var_offset := cur\<rparr>) = Ok vm1"
    using b by (auto simp: build_flow_var_table_def obind_Ok r_def)
  have rv: "random_vars r = (map_of (random_entries r), if r then 4 else 0)" by (simp add: random_vars_def random_entries_def)
  have "distinct (names (random_entries r))" "(if r then 4 else 0 :: nat) \<le> 64" by (simp_all add: random_entries_def)
  note scan = scan_vars_Ok [OF sc [unfolded rv] this]
  note fix' = fix_sizes_Ok [OF fx]
  have f1: "list_all2 same_var (m_inst_list vm) (m_inst_list vm1)" using fix' by simp
  note f2 = vm_meta_facts [OF conjunct2 [OF fix']]
  note same = all_entries_same [OF f1]
  define vm2 where "vm2 = build_bss rnd vm1"
  obtain g: "gen_all 0 (m_inst_list vm2) (vm2\<lparr>m_instructions := [], m_max_field_update := 0\<rparr>) = Ok vm3"
      and v: "filter is_var_ins (m_inst_list vm3) \<noteq> []"
    using p by (auto simp: build_program_def obind_Ok vm2_def split: if_splits)
  obtain cs where cs: "list_all2 (generates (vm2\<lparr>m_instructions := [], m_max_field_update := 0\<rparr>)) (m_inst_list vm2) cs"
      "m_instructions vm3 = concat (map encode_ins (concat (map fst cs)))" "\<forall>c\<in>set cs. snd c \<le> m_max_field_update vm3"
      "m_max_field_update vm3 \<in> insert 0 (snd ` set cs)" "vm_static vm3 = vm_static vm2"
    using gen_all_Ok [OF g] by (auto simp: vm_static_def)
  note st = vm_static_facts [OF cs(5)]
  have "generates (vm2\<lparr>m_instructions := [], m_max_field_update := 0\<rparr>) = generates vm'"
    by (rule generates_cong) (use st in \<open>simp_all add: vm'\<close>)
  then have prog: "list_all2 (generates vm') (m_inst_list vm') cs" using cs(1) st by (simp add: vm')
  have insts: "m_inst_list vm3 = m_inst_list vm1" using st by (simp add: vm2_def build_bss_def)
  have ent: "vm_entries vm' = random_entries r @ all_entries 0 (if r then 4 else 0) (m_inst_list vm)"
    using same f2 st insts by (simp add: vm' vm2_def build_bss_def r_def)
  have tab: "m_flow_var_offset vm' = map_of (vm_entries vm')" "distinct (names (vm_entries vm'))"
    unfolding ent using scan f2 st by (simp_all add: vm' vm2_def build_bss_def)
  have sz: "\<forall>i\<in>set (m_inst_list vm'). size_ok i" "map var_bytes (m_inst_list vm') = map var_bytes (m_inst_list vm)"
    using scan same insts by (simp_all add: vm')
  have "m_cur_var_offset vm' = cur" using f2 st by (simp add: vm' vm2_def build_bss_def)
  then have cur: "m_cur_var_offset vm' \<le> 64" using scan by simp
  have cur': "m_cur_var_offset vm' = first_var vm' + sum_list (map var_bytes (m_inst_list vm'))"
    unfolding sz(2) using scan f2 st by (simp add: vm' vm2_def build_bss_def r_def)
  have bss: "m_bss vm' = Some ((if m_is_random_var vm' then bytes_of rnd else []) @ concat (map bss_bytes (m_inst_list vm')))"
    using f2 st insts by (simp add: vm' vm2_def build_bss_def)
  have "m_instructions vm' = m_instructions vm3" "m_max_field_update vm' = m_max_field_update vm3" "m_pkt_size vm' = m_pkt_size vm3"
    by (simp_all add: vm')
  moreover have "\<exists>i\<in>set (m_inst_list vm'). is_var_ins i" using v by (auto simp: vm' filter_empty_conv)
  ultimately have "compiled vm'" unfolding compiled_def
    using tab sz cur cur' bss prog cs(2-4) m by (intro conjI exI [of _ cs] exI [of _ rnd]) (simp_all add: vm')
  moreover have "m_pkt_size vm' = len" "m_pkt vm' = m_pkt vm" "m_is_random_var vm' = m_is_random_var vm"
      "m_is_change_pkt_size vm' = m_is_change_pkt_size vm" "m_is_compiled vm'" "m_inst_list vm' = m_inst_list vm1"
    using f2 st insts by (simp_all add: vm' vm2_def build_bss_def)
  ultimately show ?thesis using f1 by simp
qed

section \<open>The variables of a compiled VM\<close>

lemma compiled_tiles:
  assumes "compiled vm"
  shows "tiles 0 (vm_entries vm) (m_cur_var_offset vm)"
proof (rule tiles_append)
  show "tiles 0 (random_entries (m_is_random_var vm)) (first_var vm)" by (simp add: random_entries_def valid_size_def)
  have "tiles (first_var vm) (all_entries 0 (first_var vm) (m_inst_list vm)) (first_var vm + sum_list (map var_bytes (m_inst_list vm)))"
    by (rule tiles_all) (use assms in \<open>simp add: compiled_def\<close>)
  then show "tiles (first_var vm) (all_entries 0 (first_var vm) (m_inst_list vm)) (m_cur_var_offset vm)"
    using assms by (simp add: compiled_def)
qed

lemma compiled_cover:
  assumes "compiled vm" and "k < m_cur_var_offset vm"
  shows "\<exists>n r. m_flow_var_offset vm n = Some r \<and> rec_offset r \<le> k \<and> k < rec_offset r + unat (rec_size r)"
proof -
  obtain n r where "(n, r) \<in> set (vm_entries vm)" "rec_offset r \<le> k" "k < rec_offset r + unat (rec_size r)"
    using tiles_cover [OF compiled_tiles [OF assms(1)] _ assms(2)] by blast
  moreover have "distinct (map fst (vm_entries vm))" "m_flow_var_offset vm = map_of (vm_entries vm)"
    using assms(1) by (simp_all add: compiled_def)
  ultimately show ?thesis by (metis map_of_is_SomeI)
qed

lemma compiled_bss:
  assumes "compiled vm"
  shows "\<exists>rnd. m_bss vm = Some ((if m_is_random_var vm then bytes_of (rnd :: u32) else []) @ concat (map bss_bytes (m_inst_list vm)))"
    "\<exists>bss. m_bss vm = Some bss \<and> length bss = m_cur_var_offset vm \<and> length bss \<le> 64"
  using assms length_bss [of "m_inst_list vm"] by (auto simp: compiled_def)

lemma compiled_bss_pos:
  assumes "compiled vm"
  shows "0 < m_cur_var_offset vm"
proof -
  obtain i where i: "i \<in> set (m_inst_list vm)" "is_var_ins i" "size_ok i" using assms by (auto simp: compiled_def)
  have "0 < var_bytes i" using i(2,3) by (cases i) (auto simp: is_var_ins_def size_ok_def var_bytes_def valid_size_def)
  also have "\<dots> \<le> sum_list (map var_bytes (m_inst_list vm))" using i(1) by (intro member_le_sum_list) simp_all
  finally show ?thesis using assms by (simp add: compiled_def)
qed

lemma compiled_lookup:
  assumes "compiled vm" and "m_flow_var_offset vm n = Some r"
  shows "valid_size (rec_size r) \<and> rec_offset r + unat (rec_size r) \<le> m_cur_var_offset vm \<and> m_cur_var_offset vm \<le> 64"
proof -
  have "(n, r) \<in> set (vm_entries vm)" using assms by (auto simp: compiled_def dest: map_of_SomeD)
  then show ?thesis using tiles_bounds [OF compiled_tiles [OF assms(1)]] assms(1) by (fastforce simp: compiled_def)
qed

lemma compiled_disjoint:
  assumes "compiled vm" and "m_flow_var_offset vm n = Some r" and "m_flow_var_offset vm n' = Some r'" and "n \<noteq> n'"
  shows "rec_offset r + unat (rec_size r) \<le> rec_offset r' \<or> rec_offset r' + unat (rec_size r') \<le> rec_offset r"
proof -
  have "(n, r) \<in> set (vm_entries vm)" "(n', r') \<in> set (vm_entries vm)" using assms by (auto simp: compiled_def dest: map_of_SomeD)
  then show ?thesis using tiles_disjoint [OF compiled_tiles [OF assms(1)]] assms(4) by blast
qed

lemma compiled_entry:
  assumes "compiled vm" and "j < length (m_inst_list vm)"
    and "(n, r) \<in> set (entries j (first_var vm + sum_list (map var_bytes (take j (m_inst_list vm)))) (m_inst_list vm ! j))"
  shows "m_flow_var_offset vm n = Some r"
proof -
  have "(n, r) \<in> set (vm_entries vm)" using entries_at [of j "m_inst_list vm" "(n, r)" 0] assms(2,3) by simp
  then have "map_of (vm_entries vm) n = Some r" using assms(1) by (intro map_of_is_SomeI) (simp_all add: compiled_def)
  then show ?thesis using assms(1) by (simp add: compiled_def)
qed

lemma compiled_init:
  assumes "compiled vm" and "j < length (m_inst_list vm)" and "m_bss vm = Some bss"
  shows "take (var_bytes (m_inst_list vm ! j)) (drop (first_var vm + sum_list (map var_bytes (take j (m_inst_list vm)))) bss) =
    bss_bytes (m_inst_list vm ! j)"
proof -
  obtain rnd :: u32 where bss: "bss = (if m_is_random_var vm then bytes_of rnd else []) @ concat (map bss_bytes (m_inst_list vm))"
    using compiled_bss(1) [OF assms(1)] assms(3) by auto
  have "drop (first_var vm + k) bss = drop k (concat (map bss_bytes (m_inst_list vm)))" for k by (simp add: bss)
  then show ?thesis using bss_at [of "m_inst_list vm" j] assms(1,2) by (simp add: compiled_def)
qed

lemma bytes_of_ucast:
  assumes "byte_width TYPE('a::len)"
  shows "bytes_of (ucast (w :: u64) :: 'a word) = le_bytes (LENGTH('a) div 8) (unat w)"
proof -
  have "unat (ucast w :: 'a word) = unat w mod 256 ^ (LENGTH('a) div 8)"
    unfolding width_pow [OF assms] by (simp add: unsigned_ucast_eq take_bit_eq_mod)
  then show ?thesis by (simp add: bytes_of_def le_bytes_mod)
qed

lemma bss_bytes_FlowMan:
  assumes "valid_size (fm_size_bytes m)"
  shows "bss_bytes (FlowMan m) = le_bytes (unat (fm_size_bytes m)) (unat (get_bss_init_value m))"
  using assms bytes_of_ucast [where 'a = 8] bytes_of_ucast [where 'a = 16] bytes_of_ucast [where 'a = 32]
  by (auto simp: bss_bytes_def valid_size_def Let_def bytes_of_def)

lemma compiled_FlowMan:
  assumes "compiled vm" and "FlowMan m \<in> set (m_inst_list vm)" and "m_bss vm = Some bss"
  shows "\<exists>r. m_flow_var_offset vm (fm_var_name m) = Some r \<and> rec_size r = fm_size_bytes m \<and> valid_size (fm_size_bytes m) \<and>
    take (unat (rec_size r)) (drop (rec_offset r) bss) = le_bytes (unat (rec_size r)) (unat (get_bss_init_value m))"
proof -
  obtain j where j: "j < length (m_inst_list vm)" "m_inst_list vm ! j = FlowMan m" using assms(2) by (auto simp: in_set_conv_nth)
  define off where "off = first_var vm + sum_list (map var_bytes (take j (m_inst_list vm)))"
  have "m_flow_var_offset vm (fm_var_name m) = Some \<lparr>rec_offset = off, rec_ins = Some j, rec_size = fm_size_bytes m\<rparr>"
    by (rule compiled_entry [OF assms(1) j(1)]) (simp add: j(2) entries_def off_def)
  moreover have v: "valid_size (fm_size_bytes m)" using assms(1,2) by (fastforce simp: compiled_def size_ok_def)
  moreover have "take (unat (fm_size_bytes m)) (drop off bss) = le_bytes (unat (fm_size_bytes m)) (unat (get_bss_init_value m))"
    using compiled_init [OF assms(1) j(1) assms(3), folded off_def] unfolding j(2) bss_bytes_FlowMan [OF v] by (simp add: var_bytes_def)
  ultimately show ?thesis by simp
qed

lemma compiled_FlowClient:
  assumes "compiled vm" and "FlowClient c \<in> set (m_inst_list vm)" and "m_bss vm = Some bss"
  shows "\<exists>r. m_flow_var_offset vm (fc_var_name c @ ''.ip'') = Some r \<and> rec_offset r + 10 \<le> m_cur_var_offset vm \<and>
    take 10 (drop (rec_offset r) bss) = bss_bytes (FlowClient c)"
proof -
  obtain j where j: "j < length (m_inst_list vm)" "m_inst_list vm ! j = FlowClient c" using assms(2) by (auto simp: in_set_conv_nth)
  define off where "off = first_var vm + sum_list (map var_bytes (take j (m_inst_list vm)))"
  have ip: "m_flow_var_offset vm (fc_var_name c @ ''.ip'') = Some \<lparr>rec_offset = off, rec_ins = Some j, rec_size = 4\<rparr>"
    by (rule compiled_entry [OF assms(1) j(1)]) (simp add: j(2) entries_def off_def)
  have "m_flow_var_offset vm (fc_var_name c @ ''.flow_limit'') = Some \<lparr>rec_offset = off + 6, rec_ins = Some j, rec_size = 4\<rparr>"
    by (rule compiled_entry [OF assms(1) j(1)]) (simp add: j(2) entries_def off_def)
  then have "off + 10 \<le> m_cur_var_offset vm" using compiled_lookup [OF assms(1)] by fastforce
  moreover have "take 10 (drop off bss) = bss_bytes (FlowClient c)"
    using compiled_init [OF assms(1) j(1) assms(3), folded off_def] unfolding j(2) by (simp add: var_bytes_def)
  ultimately show ?thesis using ip by simp
qed

section \<open>Properties\<close>

text \<open>
  C17. Compilation lays the flow variables out without overlap and without gaps in an array of at
  most 64 bytes whose length is the offset the compiler has counted: every variable of the table
  has 1, 2, 4 or 8 bytes inside the array, every byte of the array is one of a variable (the seed
  of a random stream included), and at the offset of each variable stands its initial value, low
  byte first.
\<close>

theorem compile_variables_ok:
  assumes "compile rnd len vm = Ok vm'" and "m_inst_list vm \<noteq> []"
  shows "\<exists>bss. m_bss vm' = Some bss \<and> length bss = m_cur_var_offset vm' \<and> length bss \<le> svMAX_FLOW_VAR \<and>
    (\<forall>n r. m_flow_var_offset vm' n = Some r \<longrightarrow> rec_size r \<in> {1, 2, 4, 8} \<and> rec_offset r + unat (rec_size r) \<le> length bss) \<and>
    (\<forall>n r n' r'. m_flow_var_offset vm' n = Some r \<and> m_flow_var_offset vm' n' = Some r' \<and> n \<noteq> n' \<longrightarrow>
       rec_offset r + unat (rec_size r) \<le> rec_offset r' \<or> rec_offset r' + unat (rec_size r') \<le> rec_offset r) \<and>
    (\<forall>k < length bss. \<exists>n r. m_flow_var_offset vm' n = Some r \<and> rec_offset r \<le> k \<and> k < rec_offset r + unat (rec_size r)) \<and>
    (\<forall>m. FlowMan m \<in> set (m_inst_list vm') \<longrightarrow>
       (\<exists>r. m_flow_var_offset vm' (fm_var_name m) = Some r \<and> rec_size r = fm_size_bytes m \<and>
         take (unat (rec_size r)) (drop (rec_offset r) bss) = le_bytes (unat (rec_size r)) (unat (get_bss_init_value m)))) \<and>
    (\<forall>c. FlowClient c \<in> set (m_inst_list vm') \<longrightarrow>
       (\<exists>r. m_flow_var_offset vm' (fc_var_name c @ ''.ip'') = Some r \<and> take 10 (drop (rec_offset r) bss) = bss_bytes (FlowClient c)))"
proof -
  have c: "compiled vm'" using compile_Ok [OF assms] by simp
  obtain bss where bss: "m_bss vm' = Some bss" "length bss = m_cur_var_offset vm'" "length bss \<le> 64" using compiled_bss(2) [OF c] by blast
  show ?thesis
  proof (intro exI [of _ bss] conjI allI impI)
    fix n r assume "m_flow_var_offset vm' n = Some r"
    then show "rec_size r \<in> {1, 2, 4, 8}" "rec_offset r + unat (rec_size r) \<le> length bss"
      using compiled_lookup [OF c] bss(2) by (simp_all only: valid_size_def)
  next
    fix n r n' r' assume "m_flow_var_offset vm' n = Some r \<and> m_flow_var_offset vm' n' = Some r' \<and> n \<noteq> n'"
    then show "rec_offset r + unat (rec_size r) \<le> rec_offset r' \<or> rec_offset r' + unat (rec_size r') \<le> rec_offset r"
      using compiled_disjoint [OF c] by blast
  next
    fix k assume "k < length bss"
    then show "\<exists>n r. m_flow_var_offset vm' n = Some r \<and> rec_offset r \<le> k \<and> k < rec_offset r + unat (rec_size r)"
      using compiled_cover [OF c] bss(2) by simp
  qed (use bss compiled_FlowMan [OF c _ bss(1)] compiled_FlowClient [OF c _ bss(1)] in blast)+
qed

text \<open>An example: a counter that is written to a packet whose checksum is then fixed.\<close>

definition demo_counter :: ins_flow_man where
  "demo_counter = \<lparr>fm_var_name = ''x'', fm_size_bytes = 2, fm_op = FLOW_VAR_OP_INC, fm_init_value = 5, fm_min_value = 5,
     fm_max_value = 7, fm_step = 1\<rparr>"

definition demo_write :: ins_write_to_pkt where
  "demo_write = \<lparr>wp_flow_var_name = ''x'', wp_pkt_offset = 30, wp_add_value = 0, wp_is_big_endian = True\<rparr>"

definition demo_vm :: stream_vm where
  "demo_vm = add_instruction (add_instruction (add_instruction new_stream_vm (FlowMan demo_counter)) (WriteToPkt demo_write)) (FixChecksumIpv4 14)"

definition demo_pkt :: "u8 list" where
  "demo_pkt = replicate 14 0 @ demo_header @ replicate 30 0"

definition demo_compiled :: stream_vm where
  "demo_compiled = demo_vm\<lparr>m_is_compiled := True, m_prefix_size := 64, m_pkt_size := 64, m_cur_var_offset := 2, m_max_field_update := 34,
     m_flow_var_offset := [''x'' \<mapsto> \<lparr>rec_offset = 0, rec_ins = Some 0, rec_size = 2\<rparr>], m_bss := Some [7, 0],
     m_instructions := [8, 0, 5, 0, 7, 0, 21, 1, 0, 30, 0, 0, 0, 19, 14, 0]\<rparr>"

lemma demo_vm_simp: "demo_vm = new_stream_vm\<lparr>m_inst_list := [FlowMan demo_counter, WriteToPkt demo_write, FixChecksumIpv4 14]\<rparr>"
  by (simp add: demo_vm_def add_instruction_def demo_counter_def new_stream_vm_def)

lemmas compile_eval = compile_def build_flow_var_table_def random_vars_def add_vars_def fix_size_def build_bss_def bss_bytes_def
  get_bss_init_value_def build_program_def gen_ins_def gen_fix_def get_var_offset_def flow_var_cmd_def write_cmd_def add_field_cnt_def
  is_var_ins_def calc_writable_mbuf_size_def add_command_def encode_ins_def valid_size_def

lemma le_bytes_numeral: "le_bytes (numeral k) x = of_nat x # le_bytes (pred_numeral k) (x div 256)"
  unfolding numeral_eq_Suc [of k] by (rule le_bytes.simps(2))

lemmas struct_eval = le_bytes_numeral put_flow_var_def put_flow_var_step_def put_ipv4_fix_def put_pkt_wr8_def put_pkt_wr_def put_wr_mask_def put_client_op_def
  put_client_unlimit_op_def put_pkt_size_def bytes_of_def

lemma demo_compile: "compile rnd 64 demo_vm = Ok demo_compiled"
  by (simp add: demo_vm_simp demo_counter_def demo_write_def demo_compiled_def new_stream_vm_def compile_eval struct_eval Let_def)

lemma compile_variables_ok_witness:
  "m_bss demo_compiled = Some [7, 0] \<and> take (unat (2 :: u8)) (drop 0 [7, 0]) = le_bytes (unat (2 :: u8)) (unat (get_bss_init_value demo_counter))"
proof -
  have "m_inst_list demo_vm \<noteq> []" "FlowMan demo_counter \<in> set (m_inst_list demo_compiled)" "fm_var_name demo_counter = ''x''"
      "m_flow_var_offset demo_compiled = [''x'' \<mapsto> \<lparr>rec_offset = 0, rec_ins = Some 0, rec_size = 2\<rparr>]" "m_bss demo_compiled = Some [7, 0]"
    by (simp_all add: demo_vm_simp demo_compiled_def demo_counter_def)
  then show ?thesis using compile_variables_ok [OF demo_compile] by fastforce
qed

end
