(* ===== verification/Vm_Safe.thy ===== *)
theory Vm_Safe
  imports Vm_Table
begin

text \<open>
  Running a compiled program: every command finds its flow variables in the array and its bytes in
  the part of the packet that the compiler has counted, so that the run ends without leaving its
  memory and changes nothing behind this part.
\<close>

section \<open>One command\<close>

text \<open>The bytes of the packet that a command may write.\<close>

fun writes :: "dp_ins \<Rightarrow> nat \<Rightarrow> bool" where
  "writes (itPKT_WR8 op) i = (unat (pw_pkt_offset op) \<le> i \<and> i < unat (pw_pkt_offset op) + 1)"
| "writes (itPKT_WR16 op) i = (unat (pw_pkt_offset op) \<le> i \<and> i < unat (pw_pkt_offset op) + 2)"
| "writes (itPKT_WR32 op) i = (unat (pw_pkt_offset op) \<le> i \<and> i < unat (pw_pkt_offset op) + 4)"
| "writes (itPKT_WR64 op) i = (unat (pw_pkt_offset op) \<le> i \<and> i < unat (pw_pkt_offset op) + 8)"
| "writes (itPKT_WR_MASK op) i = (unat (wm_pkt_offset op) \<le> i \<and> i < unat (wm_pkt_offset op) + unat (wm_pkt_cast_size op))"
| "writes (ditFIX_IPV4_CS op) i = (unat (if_offset op) + 10 \<le> i \<and> i < unat (if_offset op) + 12)"
| "writes _ i = False"

text \<open>A command for \<open>B\<close> bytes of flow variables and \<open>M\<close> writable bytes of the packet.\<close>

fun cmd_ok :: "nat \<Rightarrow> nat \<Rightarrow> dp_ins \<Rightarrow> bool" where
  "cmd_ok B M (ditINC8 op) = (unat (fv_offset op) + 1 \<le> B)"
| "cmd_ok B M (ditINC16 op) = (unat (fv_offset op) + 2 \<le> B)"
| "cmd_ok B M (ditINC32 op) = (unat (fv_offset op) + 4 \<le> B)"
| "cmd_ok B M (ditINC64 op) = (unat (fv_offset op) + 8 \<le> B)"
| "cmd_ok B M (ditDEC8 op) = (unat (fv_offset op) + 1 \<le> B)"
| "cmd_ok B M (ditDEC16 op) = (unat (fv_offset op) + 2 \<le> B)"
| "cmd_ok B M (ditDEC32 op) = (unat (fv_offset op) + 4 \<le> B)"
| "cmd_ok B M (ditDEC64 op) = (unat (fv_offset op) + 8 \<le> B)"
| "cmd_ok B M (ditRANDOM8 op) = (4 \<le> B \<and> unat (fv_offset op) + 1 \<le> B \<and> rand_range_int (fv_min op) (fv_max op) \<noteq> 0)"
| "cmd_ok B M (ditRANDOM16 op) = (4 \<le> B \<and> unat (fv_offset op) + 2 \<le> B \<and> rand_range_int (fv_min op) (fv_max op) \<noteq> 0)"
| "cmd_ok B M (ditRANDOM32 op) = (4 \<le> B \<and> unat (fv_offset op) + 4 \<le> B \<and> rand_range_int (fv_min op) (fv_max op) \<noteq> 0)"
| "cmd_ok B M (ditRANDOM64 op) = (4 \<le> B \<and> unat (fv_offset op) + 8 \<le> B \<and> rand_range_64 (fv_min op) (fv_max op) \<noteq> 0)"
| "cmd_ok B M (ditFIX_IPV4_CS op) = (unat (if_offset op) + 20 \<le> M)"
| "cmd_ok B M (itPKT_WR8 op) = (unat (pw_offset op) + 1 \<le> B \<and> unat (pw_pkt_offset op) + 1 \<le> M)"
| "cmd_ok B M (itPKT_WR16 op) = (unat (pw_offset op) + 2 \<le> B \<and> unat (pw_pkt_offset op) + 2 \<le> M)"
| "cmd_ok B M (itPKT_WR32 op) = (unat (pw_offset op) + 4 \<le> B \<and> unat (pw_pkt_offset op) + 4 \<le> M)"
| "cmd_ok B M (itPKT_WR64 op) = (unat (pw_offset op) + 8 \<le> B \<and> unat (pw_pkt_offset op) + 8 \<le> M)"
| "cmd_ok B M (itCLIENT_VAR op) = (unat (cl_flow_offset op) + 10 \<le> B)"
| "cmd_ok B M (itCLIENT_VAR_UNLIMIT op) = (unat (cu_flow_offset op) + 10 \<le> B)"
| "cmd_ok B M (itPKT_SIZE_CHANGE op) = (unat (ps_flow_offset op) + 2 \<le> B)"
| "cmd_ok B M (ditINC8_STEP op) = (unat (fv_offset op) + 1 \<le> B)"
| "cmd_ok B M (ditINC16_STEP op) = (unat (fv_offset op) + 2 \<le> B)"
| "cmd_ok B M (ditINC32_STEP op) = (unat (fv_offset op) + 4 \<le> B)"
| "cmd_ok B M (ditINC64_STEP op) = (unat (fv_offset op) + 8 \<le> B)"
| "cmd_ok B M (ditDEC8_STEP op) = (unat (fv_offset op) + 1 \<le> B)"
| "cmd_ok B M (ditDEC16_STEP op) = (unat (fv_offset op) + 2 \<le> B)"
| "cmd_ok B M (ditDEC32_STEP op) = (unat (fv_offset op) + 4 \<le> B)"
| "cmd_ok B M (ditDEC64_STEP op) = (unat (fv_offset op) + 8 \<le> B)"
| "cmd_ok B M (itPKT_WR_MASK op) = (wm_flowv_cast_size op \<in> {1, 2, 4} \<and> unat (wm_var_offset op) + unat (wm_flowv_cast_size op) \<le> B \<and>
     - 32 < sint (wm_shift op) \<and> sint (wm_shift op) < 32 \<and> wm_pkt_cast_size op \<in> {1, 2, 4} \<and>
     (is_big (wm_flags op) \<or> unat (wm_flowv_cast_size op) \<le> unat (wm_pkt_cast_size op)) \<and>
     unat (wm_pkt_offset op) + unat (wm_pkt_cast_size op) \<le> M)"

text \<open>The header that a checksum command finds lies in the writable part.\<close>

definition header_fits :: "nat \<Rightarrow> u8 list \<Rightarrow> nat \<Rightarrow> bool" where
  "header_fits M pkt ip \<longleftrightarrow> (\<exists>n. getHeaderLength pkt ip = Some n \<and> ip + n \<le> M)"

fun needs_header :: "dp_ins \<Rightarrow> nat option" where
  "needs_header (ditFIX_IPV4_CS op) = Some (unat (if_offset op))"
| "needs_header _ = None"

text \<open>Loads and stores inside an array.\<close>

lemma mem_store:
  assumes "off + LENGTH('a::len) div 8 \<le> length m"
  obtains m' where "mem_put m off (w :: 'a word) = Some m'" "length m' = length m"
    "\<And>i. i < off \<or> off + LENGTH('a) div 8 \<le> i \<Longrightarrow> m' ! i = m ! i"
proof -
  obtain m' where m': "mem_put m off w = Some m'" using mem_put_Some [OF assms] by blast
  then show thesis using mem_put_length [OF m'] mem_put_nth [OF m'] by (intro that [of m']) blast+
qed

lemma mem_store_ex:
  "off + LENGTH('a::len) div 8 \<le> length m \<Longrightarrow> \<exists>m'. mem_put m off (w :: 'a word) = Some m' \<and> length m' = length m"
  by (rule mem_store [of off m w]) blast+

lemma mem_load:
  assumes "off + LENGTH('a::len) div 8 \<le> length m"
  obtains w where "mem_get m off = Some (w :: 'a word)"
  using mem_get_Some [OF assms] by blast

lemma upd_var_in:
  fixes f :: "'a::len word \<Rightarrow> 'a word"
  assumes "off + LENGTH('a) div 8 \<le> length m"
  shows "\<exists>m'. upd_var off f m = Some m' \<and> length m' = length m"
proof -
  obtain p where "mem_get m off = Some (p :: 'a word)" using mem_load [OF assms] by blast
  moreover obtain m' where "mem_put m off (f p) = Some m'" "length m' = length m" using mem_store [OF assms, of "f p"] by blast
  ultimately show ?thesis by (simp add: upd_var_def)
qed

lemma upd_client_in:
  assumes "off + 10 \<le> length m"
  shows "\<exists>m'. upd_client off f m = Some m' \<and> length m' = length m"
proof -
  obtain ip where ip: "mem_get m off = Some (ip :: u32)" using mem_load [where 'a = 32 and off = off and m = m] assms by auto
  obtain port where port: "mem_get m (off + 4) = Some (port :: u16)" using mem_load [where 'a = 16 and off = "off + 4" and m = m] assms by auto
  obtain fl where fl: "mem_get m (off + 6) = Some (fl :: u32)" using mem_load [where 'a = 32 and off = "off + 6" and m = m] assms by auto
  have g: "get_client m off = Some (ip, port, fl)" using ip port fl by (simp add: get_client_def)
  obtain ip' port' fl' where f: "f (ip, port, fl) = (ip', port', fl')" by (rule prod_cases3)
  obtain m1 where m1: "mem_put m off ip' = Some m1" "length m1 = length m" using mem_store_ex [of off m ip'] assms by auto
  obtain m2 where m2: "mem_put m1 (off + 4) port' = Some m2" "length m2 = length m"
    using mem_store_ex [of "off + 4" m1 port'] assms m1(2) by auto
  obtain m3 where m3: "mem_put m2 (off + 6) fl' = Some m3" "length m3 = length m"
    using mem_store_ex [of "off + 6" m2 fl'] assms m2(2) by auto
  show ?thesis using g f m1 m2 m3 by (simp add: upd_client_def put_client_def)
qed

lemma store_twice:
  assumes "4 \<le> length m" and "off + LENGTH('b) div 8 \<le> length m"
  shows "\<exists>m2. (do { m1 \<leftarrow> mem_put m 0 (seed :: u32); mem_put m1 off (w :: 'b::len word) }) = Some m2 \<and> length m2 = length m"
proof -
  obtain m1 where m1: "mem_put m 0 seed = Some m1" "length m1 = length m" using mem_store [of 0 m seed] assms(1) by auto
  obtain m2 where "mem_put m1 off w = Some m2" "length m2 = length m" using mem_store [of off m1 w] assms(2) m1(2) by metis
  with m1 show ?thesis by simp
qed

lemma run_rand_in:
  fixes op :: "'a::len word flow_var_op"
  assumes "4 \<le> length m \<and> unat (fv_offset op) + LENGTH('a) div 8 \<le> length m \<and> rand_range_int (fv_min op) (fv_max op) \<noteq> 0"
  shows "\<exists>m'. run_rand_16 op m = Some m' \<and> length m' = length m"
proof -
  obtain seed where s: "mem_get m 0 = Some (seed :: u32)" using mem_load [where 'a = 32 and off = 0 and m = m] assms by auto
  obtain r seed' where r: "vm_rand16 seed = (r, seed')" by (rule prod.exhaust)
  show ?thesis using s r store_twice [of m "unat (fv_offset op)" seed' "fv_min op + ucast (r mod rand_range_int (fv_min op) (fv_max op))"] assms
    by (simp add: run_rand_16_def)
qed

lemma run_rand_32_in:
  assumes "4 \<le> length m \<and> unat (fv_offset op) + 4 \<le> length m \<and> rand_range_int (fv_min op) (fv_max op) \<noteq> 0"
  shows "\<exists>m'. run_rand_32 op m = Some m' \<and> length m' = length m"
proof -
  obtain seed where s: "mem_get m 0 = Some (seed :: u32)" using mem_load [where 'a = 32 and off = 0 and m = m] assms by auto
  obtain r seed' where r: "vm_rand32 seed = (r, seed')" by (rule prod.exhaust)
  show ?thesis using s r store_twice [of m "unat (fv_offset op)" seed' "fv_min op + r mod rand_range_int (fv_min op) (fv_max op)"] assms
    by (simp add: run_rand_32_def)
qed

lemma run_rand_64_in:
  assumes "4 \<le> length m \<and> unat (fv_offset op) + 8 \<le> length m \<and> rand_range_64 (fv_min op) (fv_max op) \<noteq> 0"
  shows "\<exists>m'. run_rand_64 op m = Some m' \<and> length m' = length m"
proof -
  obtain seed where s: "mem_get m 0 = Some (seed :: u32)" using mem_load [where 'a = 32 and off = 0 and m = m] assms by auto
  obtain r seed' where r: "vm_rand64 seed = (r, seed')" by (rule prod.exhaust)
  show ?thesis using s r store_twice [of m "unat (fv_offset op)" seed' "fv_min op + r mod rand_range_64 (fv_min op) (fv_max op)"] assms
    by (simp add: run_rand_64_def)
qed

lemma run_var_in:
  fixes op :: "'a::len word flow_var_op" and st :: "'b::len word flow_var_step_op"
  shows "unat (fv_offset op) + LENGTH('a) div 8 \<le> length m \<Longrightarrow> \<exists>m'. run_inc op m = Some m' \<and> length m' = length m"
    "unat (fv_offset op) + LENGTH('a) div 8 \<le> length m \<Longrightarrow> \<exists>m'. run_dec op m = Some m' \<and> length m' = length m"
    "unat (fv_offset st) + LENGTH('b) div 8 \<le> length m \<Longrightarrow> \<exists>m'. run_inc_step_int st m = Some m' \<and> length m' = length m"
    "unat (fv_offset st) + LENGTH('b) div 8 \<le> length m \<Longrightarrow> \<exists>m'. run_dec_step_int st m = Some m' \<and> length m' = length m"
    "unat (fv_offset st) + LENGTH('b) div 8 \<le> length m \<Longrightarrow> \<exists>m'. run_inc_step_word st m = Some m' \<and> length m' = length m"
    "unat (fv_offset st) + LENGTH('b) div 8 \<le> length m \<Longrightarrow> \<exists>m'. run_dec_step_word st m = Some m' \<and> length m' = length m"
    "unat (cl_flow_offset cl) + 10 \<le> length m \<Longrightarrow> \<exists>m'. run_client cl m = Some m' \<and> length m' = length m"
    "unat (cu_flow_offset cu) + 10 \<le> length m \<Longrightarrow> \<exists>m'. run_client_unlimit cu m = Some m' \<and> length m' = length m"
  by (simp_all add: run_inc_def run_dec_def run_inc_step_int_def run_dec_step_int_def run_inc_step_word_def run_dec_step_word_def
      run_client_def run_client_unlimit_def upd_var_in upd_client_in)

lemma with_flow_var_in:
  assumes "\<exists>m'. f (vr_flow_var s) = Some m' \<and> length m' = length (vr_flow_var s)"
  shows "\<exists>s'. with_flow_var f s = Some s' \<and> length (vr_flow_var s') = length (vr_flow_var s) \<and> length (vr_pkt s') = length (vr_pkt s) \<and>
    (\<forall>i. \<not> False \<longrightarrow> vr_pkt s' ! i = vr_pkt s ! i)"
  using assms by (auto simp: with_flow_var_def)

lemma wr_in:
  fixes op :: "'a::len word pkt_wr_op"
  assumes "unat (pw_offset op) + LENGTH('a) div 8 \<le> length fv" and "unat (pw_pkt_offset op) + LENGTH('a) div 8 \<le> length pkt"
  shows "\<exists>pkt'. wr op fv pkt = Some pkt' \<and> length pkt' = length pkt \<and>
    (\<forall>i. i < unat (pw_pkt_offset op) \<or> unat (pw_pkt_offset op) + LENGTH('a) div 8 \<le> i \<longrightarrow> pkt' ! i = pkt ! i)"
proof -
  obtain v where v: "mem_get fv (unat (pw_offset op)) = Some (v :: 'a word)" using mem_load [OF assms(1)] by blast
  define x where "x = (if is_big (pw_flags op) then bswap (v + pw_val_offset op) else v + pw_val_offset op)"
  show ?thesis using v mem_store [OF assms(2), of x] by (simp add: wr_def x_def [symmetric]) metis
qed

lemma wr8_in:
  assumes "unat (pw_offset op) + 1 \<le> length fv" and "unat (pw_pkt_offset op) + 1 \<le> length pkt"
  shows "\<exists>pkt'. wr8 op fv pkt = Some pkt' \<and> length pkt' = length pkt \<and>
    (\<forall>i. i < unat (pw_pkt_offset op) \<or> unat (pw_pkt_offset op) + 1 \<le> i \<longrightarrow> pkt' ! i = pkt ! i)"
proof -
  have "wr8 op fv pkt = wr op fv pkt" unfolding wr8_def wr_def Let_def bswap_8 if_cancel by (rule refl)
  then show ?thesis using wr_in [of op fv pkt] assms by simp
qed

text \<open>A read followed by a write of the same bytes.\<close>

lemma rmw_in:
  fixes f :: "'a::len word \<Rightarrow> 'a word"
  assumes "r = do { v \<leftarrow> mem_get pkt p; mem_put pkt p (f v) }" and "LENGTH('a) div 8 \<le> n" and "p + n \<le> length pkt"
  shows "\<exists>pkt'. r = Some pkt' \<and> length pkt' = length pkt \<and> (\<forall>i. \<not> (p \<le> i \<and> i < p + n) \<longrightarrow> pkt' ! i = pkt ! i)"
proof -
  have room: "p + LENGTH('a) div 8 \<le> length pkt" using assms(2,3) by linarith
  obtain v where v: "mem_get pkt p = Some (v :: 'a word)" using mem_load [OF room] by blast
  obtain pkt' where "mem_put pkt p (f v) = Some pkt'" "length pkt' = length pkt"
      "\<And>i. i < p \<or> p + LENGTH('a) div 8 \<le> i \<Longrightarrow> pkt' ! i = pkt ! i" using mem_store [OF room] by blast
  then show ?thesis using v assms(1,2) by (intro exI [of _ pkt']) auto
qed

lemma wr_mask_in:
  assumes "cmd_ok (length fv) M (itPKT_WR_MASK op)" and "M \<le> length pkt"
  shows "\<exists>pkt'. wr_mask op fv pkt = Some pkt' \<and> length pkt' = length pkt \<and> (\<forall>i. \<not> writes (itPKT_WR_MASK op) i \<longrightarrow> pkt' ! i = pkt ! i)"
proof -
  have ok: "wm_flowv_cast_size op \<in> {1, 2, 4}" "unat (wm_var_offset op) + unat (wm_flowv_cast_size op) \<le> length fv"
      "- 32 < sint (wm_shift op)" "sint (wm_shift op) < 32" "wm_pkt_cast_size op \<in> {1, 2, 4}"
      "is_big (wm_flags op) \<or> unat (wm_flowv_cast_size op) \<le> unat (wm_pkt_cast_size op)"
      "unat (wm_pkt_offset op) + unat (wm_pkt_cast_size op) \<le> length pkt" using assms by auto
  have "\<exists>val. read_cast (wm_flowv_cast_size op) fv (unat (wm_var_offset op)) = Some val"
    using ok(1,2) by (auto simp: read_cast_def mem_get_def)
  then obtain v where v: "read_cast (wm_flowv_cast_size op) fv (unat (wm_var_offset op)) = Some v" by blast
  have "\<exists>val. shift_val (wm_shift op) (v + wm_add_value op) = Some val" using ok(3,4) by (simp add: shift_val_def)
  then obtain val where val: "shift_val (wm_shift op) (v + wm_add_value op) = Some val" by blast
  let ?p = "unat (wm_pkt_offset op)" and ?n = "unat (wm_pkt_cast_size op)"
  define rmw where "rmw = (\<lambda>pkt_val. (pkt_val AND NOT (wm_mask op)) OR (val AND wm_mask op))"
  have w: "wr_mask op fv pkt =
     (if is_big (wm_flags op) then
       (if wm_pkt_cast_size op = 1 then do { v \<leftarrow> (mem_get pkt ?p :: u8 option); mem_put pkt ?p (ucast (rmw (ucast v) AND 0xff) :: u8) }
        else if wm_pkt_cast_size op = 2 then do {
          v \<leftarrow> (mem_get pkt ?p :: u16 option); mem_put pkt ?p (bswap (ucast (rmw (ucast (bswap v)) AND 0xffff)) :: u16) }
        else if wm_pkt_cast_size op = 4 then do { v \<leftarrow> mem_get pkt ?p; mem_put pkt ?p (bswap (rmw (bswap v))) } else None)
     else
       (if wm_flowv_cast_size op = 1 then do { v \<leftarrow> (mem_get pkt ?p :: u8 option); mem_put pkt ?p (ucast (rmw (ucast v) AND 0xff) :: u8) }
        else if wm_flowv_cast_size op = 2 then do {
          v \<leftarrow> (mem_get pkt ?p :: u16 option); mem_put pkt ?p (ucast (rmw (ucast v) AND 0xffff) :: u16) }
        else if wm_flowv_cast_size op = 4 then do { v \<leftarrow> mem_get pkt ?p; mem_put pkt ?p (rmw v) } else None))"
    using v val by (simp add: wr_mask_def rmw_def Let_def)
  show ?thesis
  proof (cases "is_big (wm_flags op)")
    case True
    consider "wm_pkt_cast_size op = 1" | "wm_pkt_cast_size op = 2" | "wm_pkt_cast_size op = 4" using ok(5) by auto
    then show ?thesis
    proof cases
      case 1 then show ?thesis unfolding writes.simps using True w ok(7) by (intro rmw_in [where 'a = 8]) simp_all
    next
      case 2 then show ?thesis unfolding writes.simps using True w ok(7) by (intro rmw_in [where 'a = 16]) simp_all
    next
      case 3 then show ?thesis unfolding writes.simps using True w ok(7) by (intro rmw_in [where 'a = 32]) simp_all
    qed
  next
    case False
    consider "wm_flowv_cast_size op = 1" | "wm_flowv_cast_size op = 2" | "wm_flowv_cast_size op = 4" using ok(1) by auto
    then show ?thesis
    proof cases
      case 1 then show ?thesis unfolding writes.simps using False w ok(6,7) by (intro rmw_in [where 'a = 8]) simp_all
    next
      case 2 then show ?thesis unfolding writes.simps using False w ok(6,7) by (intro rmw_in [where 'a = 16]) simp_all
    next
      case 3 then show ?thesis unfolding writes.simps using False w ok(6,7) by (intro rmw_in [where 'a = 32]) simp_all
    qed
  qed
qed

lemma updateCheckSum_in:
  assumes "ip + 20 \<le> length m" and "getHeaderLength m ip = Some n" and "ip + n \<le> length m"
  shows "\<exists>m'. updateCheckSum m ip = Some m' \<and> length m' = length m \<and> (\<forall>i. \<not> (ip + 10 \<le> i \<and> i < ip + 12) \<longrightarrow> m' ! i = m ! i)"
proof -
  have room: "ip + 10 + LENGTH(16) div 8 \<le> length m" using assms(1) by simp
  obtain m1 where m1: "mem_put m (ip + 10) (0 :: u16) = Some m1" "length m1 = length m"
      "\<And>i. i < ip + 10 \<or> ip + 10 + LENGTH(16) div 8 \<le> i \<Longrightarrow> m1 ! i = m ! i" using mem_store [OF room] by blast
  have h: "getHeaderLength m1 ip = Some n" using header_length_put [OF m1(1)] assms(2) by simp
  have "even n" using getHeaderLength_facts(1) [OF h] by (auto elim: dvdE)
  then obtain cs where cs: "pkt_InetChecksum m1 ip n = Some cs"
    using inet_sum_ok [of n ip m1 0] assms(3) m1(2) by (simp add: pkt_InetChecksum_def)
  have room1: "ip + 10 + LENGTH(16) div 8 \<le> length m1" using room m1(2) by simp
  obtain m2 where m2: "mem_put m1 (ip + 10) cs = Some m2" "length m2 = length m1"
      "\<And>i. i < ip + 10 \<or> ip + 10 + LENGTH(16) div 8 \<le> i \<Longrightarrow> m2 ! i = m1 ! i" using mem_store [OF room1] by blast
  have "updateCheckSum m ip = Some m2" using m1(1) h cs m2(1) by (simp add: updateCheckSum_def)
  moreover have "m2 ! i = m ! i" if "\<not> (ip + 10 \<le> i \<and> i < ip + 12)" for i using that m1(3) [of i] m2(3) [of i] by auto
  ultimately show ?thesis using m1(2) m2(2) by simp
qed

lemma exec_ins_in:
  assumes "cmd_ok (length (vr_flow_var s)) M c" and "M \<le> length (vr_pkt s)"
    and "\<And>ip. needs_header c = Some ip \<Longrightarrow> header_fits M (vr_pkt s) ip"
  shows "\<exists>s'. exec_ins c s = Some s' \<and> length (vr_flow_var s') = length (vr_flow_var s) \<and> length (vr_pkt s') = length (vr_pkt s) \<and>
    (\<forall>i. \<not> writes c i \<longrightarrow> vr_pkt s' ! i = vr_pkt s ! i)"
proof -
  have pkt: "?thesis" if "exec_ins c s = with_pkt f s"
      "\<exists>m'. f (vr_pkt s) = Some m' \<and> length m' = length (vr_pkt s) \<and> (\<forall>i. \<not> writes c i \<longrightarrow> m' ! i = vr_pkt s ! i)" for f
    using that by (auto simp: with_pkt_def)
  show ?thesis
  proof (cases c)
    case (ditFIX_IPV4_CS op)
    obtain n where "getHeaderLength (vr_pkt s) (unat (if_offset op)) = Some n" "unat (if_offset op) + n \<le> M"
      using assms(3) ditFIX_IPV4_CS by (auto simp: header_fits_def)
    then show ?thesis using updateCheckSum_in [of "unat (if_offset op)" "vr_pkt s"] assms(1,2) ditFIX_IPV4_CS
      by (intro pkt [of "run_ipv4_fix op"]) (simp_all add: run_ipv4_fix_def)
  next
    case (itPKT_WR8 op)
    then show ?thesis using wr8_in [of op "vr_flow_var s" "vr_pkt s"] assms(1,2)
      by (intro pkt [of "wr8 op (vr_flow_var s)"]) (auto simp: not_le not_less)
  next
    case (itPKT_WR16 op)
    then show ?thesis using wr_in [of op "vr_flow_var s" "vr_pkt s"] assms(1,2)
      by (intro pkt [of "wr op (vr_flow_var s)"]) (auto simp: not_le not_less)
  next
    case (itPKT_WR32 op)
    then show ?thesis using wr_in [of op "vr_flow_var s" "vr_pkt s"] assms(1,2)
      by (intro pkt [of "wr op (vr_flow_var s)"]) (auto simp: not_le not_less)
  next
    case (itPKT_WR64 op)
    then show ?thesis using wr_in [of op "vr_flow_var s" "vr_pkt s"] assms(1,2)
      by (intro pkt [of "wr op (vr_flow_var s)"]) (auto simp: not_le not_less)
  next
    case (itPKT_WR_MASK op)
    then show ?thesis using wr_mask_in [of "vr_flow_var s" M op "vr_pkt s"] assms(1,2)
      by (intro pkt [of "wr_mask op (vr_flow_var s)"]) simp_all
  next
    case (itPKT_SIZE_CHANGE op)
    have "\<exists>w. run_pkt_size op (vr_flow_var s) = Some w" using assms(1) itPKT_SIZE_CHANGE by (simp add: run_pkt_size_def mem_get_def)
    then show ?thesis using itPKT_SIZE_CHANGE by auto
  qed (simp only: exec_ins.simps writes.simps, rule with_flow_var_in,
      (rule run_var_in | rule run_rand_in | rule run_rand_32_in | rule run_rand_64_in), use assms(1) in simp)+
qed

section \<open>A list of commands\<close>

lemma header_fits_cong:
  assumes "length pkt' = length pkt" and "pkt' ! ip = pkt ! ip"
  shows "header_fits M pkt' ip = header_fits M pkt ip"
proof -
  have "mem_get pkt' ip = (mem_get pkt ip :: u8 option)" by (rule mem_get_cong) (use assms in \<open>simp_all add: le_less_Suc_eq\<close>)
  then show ?thesis by (simp add: header_fits_def getHeaderLength_def)
qed

lemma exec_all_in:
  assumes "\<forall>c\<in>set cs. cmd_ok (length (vr_flow_var s)) M c" and "M \<le> length (vr_pkt s)"
    and "\<forall>c\<in>set cs. \<forall>ip. needs_header c = Some ip \<longrightarrow> header_fits M (vr_pkt s) ip \<and> (\<forall>d\<in>set cs. \<not> writes d ip)"
  shows "\<exists>s'. exec_all cs s = Some s' \<and> length (vr_flow_var s') = length (vr_flow_var s) \<and> length (vr_pkt s') = length (vr_pkt s) \<and>
    (\<forall>i. (\<forall>c\<in>set cs. \<not> writes c i) \<longrightarrow> vr_pkt s' ! i = vr_pkt s ! i)"
  using assms
proof (induction cs arbitrary: s)
  case (Cons c cs)
  have here: "cmd_ok (length (vr_flow_var s)) M c" "\<And>ip. needs_header c = Some ip \<Longrightarrow> header_fits M (vr_pkt s) ip"
    using Cons.prems by simp_all
  obtain s1 where s1: "exec_ins c s = Some s1" "length (vr_flow_var s1) = length (vr_flow_var s)" "length (vr_pkt s1) = length (vr_pkt s)"
      "\<And>i. \<not> writes c i \<Longrightarrow> vr_pkt s1 ! i = vr_pkt s ! i" using exec_ins_in [OF here(1) Cons.prems(2) here(2)] by blast
  have hdr: "\<forall>d\<in>set cs. \<forall>ip. needs_header d = Some ip \<longrightarrow> header_fits M (vr_pkt s1) ip \<and> (\<forall>d\<in>set cs. \<not> writes d ip)"
    using Cons.prems(3) s1(4) header_fits_cong [OF s1(3)] by simp
  obtain s' where s': "exec_all cs s1 = Some s'" "length (vr_flow_var s') = length (vr_flow_var s)" "length (vr_pkt s') = length (vr_pkt s)"
      "\<And>i. (\<forall>c\<in>set cs. \<not> writes c i) \<Longrightarrow> vr_pkt s' ! i = vr_pkt s1 ! i"
    using Cons.IH [OF _ _ hdr] Cons.prems(1,2) s1(2,3) by auto
  show ?case using s1(1,4) s' by auto
qed simp

text \<open>Only \<open>itPKT_SIZE_CHANGE\<close> sets the new packet size.\<close>

lemma exec_ins_size: "exec_ins c s = Some s' \<Longrightarrow> \<forall>op. c \<noteq> itPKT_SIZE_CHANGE op \<Longrightarrow> vr_new_pkt_size s' = vr_new_pkt_size s"
  by (cases c) (auto simp: with_flow_var_def with_pkt_def bind_eq_Some_conv)

lemma exec_all_size:
  "exec_all cs s = Some s' \<Longrightarrow> \<forall>c\<in>set cs. \<forall>op. c \<noteq> itPKT_SIZE_CHANGE op \<Longrightarrow> vr_new_pkt_size s' = vr_new_pkt_size s"
proof (induction cs arbitrary: s)
  case (Cons c cs)
  then obtain s1 where "exec_ins c s = Some s1" "exec_all cs s1 = Some s'" by (auto simp: bind_eq_Some_conv)
  then show ?case using Cons exec_ins_size [of c s s1] by auto
qed simp

text \<open>After a last command that fixes a checksum the header verifies.\<close>

lemma exec_all_fix:
  assumes "\<forall>c\<in>set (cs @ [ditFIX_IPV4_CS op]). cmd_ok (length (vr_flow_var s)) M c" and "M \<le> length (vr_pkt s)"
    and "\<forall>c\<in>set (cs @ [ditFIX_IPV4_CS op]). \<forall>ip. needs_header c = Some ip \<longrightarrow>
      header_fits M (vr_pkt s) ip \<and> (\<forall>d\<in>set (cs @ [ditFIX_IPV4_CS op]). \<not> writes d ip)"
    and "getHeaderLength (vr_pkt s) (unat (if_offset op)) = Some n" and "20 \<le> n" and "exec_all (cs @ [ditFIX_IPV4_CS op]) s = Some s'"
  shows "isChecksumOK (vr_pkt s') (unat (if_offset op)) = Some True"
proof -
  let ?ip = "unat (if_offset op)"
  obtain s1 where s1: "exec_all cs s = Some s1" "length (vr_pkt s1) = length (vr_pkt s)"
      "\<And>i. (\<forall>c\<in>set cs. \<not> writes c i) \<Longrightarrow> vr_pkt s1 ! i = vr_pkt s ! i"
    using exec_all_in [of cs s M] assms(1-3) by auto
  have fits: "header_fits M (vr_pkt s) ?ip" "vr_pkt s1 ! ?ip = vr_pkt s ! ?ip" using assms(3) s1(3) by simp_all
  have in1: "?ip < length (vr_pkt s)" using getHeaderLength_facts(3) [OF assms(4)] .
  have len: "getHeaderLength (vr_pkt s1) ?ip = Some n"
  proof -
    have "mem_get (vr_pkt s1) ?ip = (mem_get (vr_pkt s) ?ip :: u8 option)"
      by (rule mem_get_cong) (use s1(2) fits(2) in \<open>simp_all add: le_less_Suc_eq\<close>)
    then show ?thesis using assms(4) by (simp add: getHeaderLength_def)
  qed
  have "?ip + n \<le> length (vr_pkt s1)" using fits(1) assms(2,4) s1(2) by (auto simp: header_fits_def)
  then have "header_in (vr_pkt s1) ?ip" using len assms(5) by (auto simp: header_in_def)
  then obtain m' where m': "updateCheckSum (vr_pkt s1) ?ip = Some m'" "isChecksumOK m' ?ip = Some True"
    using updateCheckSum_verifies by blast
  have "vr_pkt s' = m'" using assms(6) s1(1) m'(1) by (auto simp: exec_all_append with_pkt_def run_ipv4_fix_def)
  then show ?thesis using m'(2) by simp
qed

text \<open>No command writes behind the part it is made for.\<close>

lemma writes_below: "cmd_ok B M c \<Longrightarrow> writes c i \<Longrightarrow> i < M"
  by (cases c) auto

section \<open>The commands of a compiled VM\<close>

text \<open>
  What the compiler does not check: the range of a random variable is not empty, a shift is less
  than the width, and a little-endian write does not write more bytes than its cast size.
\<close>

definition random_ok :: "ins_flow_man \<Rightarrow> bool" where
  "random_ok m \<longleftrightarrow> (fm_op m = FLOW_VAR_OP_RANDOM \<longrightarrow>
     (if fm_size_bytes m = 1 then rand_range_int (ucast (fm_min_value m) :: u8) (ucast (fm_max_value m)) \<noteq> 0
      else if fm_size_bytes m = 2 then rand_range_int (ucast (fm_min_value m) :: u16) (ucast (fm_max_value m)) \<noteq> 0
      else if fm_size_bytes m = 4 then rand_range_int (ucast (fm_min_value m) :: u32) (ucast (fm_max_value m)) \<noteq> 0
      else rand_range_64 (fm_min_value m) (fm_max_value m) \<noteq> 0))"

definition mask_ok :: "stream_vm \<Rightarrow> ins_write_mask_to_pkt \<Rightarrow> bool" where
  "mask_ok vm w \<longleftrightarrow> - 32 < wk_shift w \<and> wk_shift w < 32 \<and>
     (wk_is_big_endian w \<or>
      (\<forall>r. m_flow_var_offset vm (wk_flow_var_name w) = Some r \<longrightarrow> (if rec_size r = 8 then 4 else rec_size r) \<le> wk_pkt_cast_size w))"

definition ins_ok :: "stream_vm \<Rightarrow> vm_ins \<Rightarrow> bool" where
  "ins_ok vm i \<longleftrightarrow> (case i of FlowMan m \<Rightarrow> random_ok m | WriteMaskToPkt w \<Rightarrow> mask_ok vm w | _ \<Rightarrow> True)"

text \<open>The bytes that an instruction may change.\<close>

definition ins_writes :: "stream_vm \<Rightarrow> vm_ins \<Rightarrow> nat \<Rightarrow> bool" where
  "ins_writes vm i k \<longleftrightarrow> (case i of
     WriteToPkt w \<Rightarrow> (\<exists>r. m_flow_var_offset vm (wp_flow_var_name w) = Some r \<and>
       unat (wp_pkt_offset w) \<le> k \<and> k < unat (wp_pkt_offset w) + unat (rec_size r))
   | WriteMaskToPkt w \<Rightarrow> unat (wk_pkt_offset w) \<le> k \<and> k < unat (wk_pkt_offset w) + unat (wk_pkt_cast_size w)
   | FixChecksumIpv4 off \<Rightarrow> unat off + 10 \<le> k \<and> k < unat off + 12
   | _ \<Rightarrow> False)"

lemma unat_small: "n \<le> 64 \<Longrightarrow> unat (of_nat n :: u8) = n"
  by (rule unat_of_nat_less) simp

lemma get_var_offset_Ok:
  assumes "compiled vm" and "get_var_offset vm name = Ok off"
  shows "\<exists>r. m_flow_var_offset vm name = Some r \<and> unat off = rec_offset r"
  using assms(2) compiled_lookup [OF assms(1)] by (fastforce simp: get_var_offset_def unat_small split: option.splits)

lemma generates_FlowMan:
  assumes "compiled vm" and "generates vm (FlowMan m) (cmds, field)" and "FlowMan m \<in> set (m_inst_list vm)" and "random_ok m"
    and "fm_op m = FLOW_VAR_OP_RANDOM \<Longrightarrow> 4 \<le> m_cur_var_offset vm"
  shows "\<forall>c\<in>set cmds. cmd_ok (m_cur_var_offset vm) field c \<and> needs_header c = None \<and> (\<forall>k. \<not> writes c k)"
proof -
  obtain off where off: "get_var_offset vm (fm_var_name m) = Ok off" "cmds = flow_var_cmd off m"
    using assms(2) by (auto simp: generates_def gen_ins_def obind_Ok)
  obtain bss where bss: "m_bss vm = Some bss" using compiled_bss(2) [OF assms(1)] by blast
  obtain r where r: "m_flow_var_offset vm (fm_var_name m) = Some r" "rec_size r = fm_size_bytes m" "valid_size (fm_size_bytes m)"
    using compiled_FlowMan [OF assms(1,3) bss] by blast
  have room: "unat off + unat (fm_size_bytes m) \<le> m_cur_var_offset vm"
    using get_var_offset_Ok [OF assms(1) off(1)] compiled_lookup [OF assms(1) r(1)] r(1,2) by auto
  show ?thesis
  proof (cases "fm_op m")
    case FLOW_VAR_OP_RANDOM
    then show ?thesis using room r(3) assms(4,5) unfolding off(2) flow_var_cmd_def random_ok_def valid_size_def by (auto simp: Let_def)
  qed (use room r(3) in \<open>unfold off(2) flow_var_cmd_def valid_size_def, auto simp: Let_def\<close>)
qed

lemma write_flags: "is_big (if b then 1 else 0) = b"
  by (simp add: is_big_def)

lemma generates_WriteToPkt:
  assumes "compiled vm" and "generates vm (WriteToPkt w) (cmds, field)"
  shows "\<forall>c\<in>set cmds. cmd_ok (m_cur_var_offset vm) field c \<and> needs_header c = None \<and> (\<forall>k. writes c k \<longrightarrow> ins_writes vm (WriteToPkt w) k)"
proof -
  obtain r where r: "m_flow_var_offset vm (wp_flow_var_name w) = Some r" "field = unat (wp_pkt_offset w) + unat (rec_size r)"
      "cmds = write_cmd r w" using assms(2) by (auto simp: generates_def gen_ins_def Let_def split: option.splits if_splits)
  have l: "valid_size (rec_size r)" "rec_offset r + unat (rec_size r) \<le> m_cur_var_offset vm" "rec_offset r \<le> 64"
    using compiled_lookup [OF assms(1) r(1)] by auto
  show ?thesis using l unat_small [OF l(3)] unfolding r(2,3) write_cmd_def ins_writes_def valid_size_def
    by (auto simp: Let_def r(1))
qed

lemma generates_WriteMask:
  assumes "compiled vm" and "generates vm (WriteMaskToPkt w) (cmds, field)" and "mask_ok vm w"
  shows "\<forall>c\<in>set cmds. cmd_ok (m_cur_var_offset vm) field c \<and> needs_header c = None \<and> (\<forall>k. writes c k \<longrightarrow> ins_writes vm (WriteMaskToPkt w) k)"
proof -
  obtain r where r: "m_flow_var_offset vm (wk_flow_var_name w) = Some r" "field = unat (wk_pkt_offset w) + unat (wk_pkt_cast_size w)"
      "cmds = [write_mask_cmd r w]" "wk_pkt_cast_size w \<in> {1, 2, 4}"
    using assms(2) by (auto simp: generates_def gen_ins_def Let_def split: option.splits if_splits)
  have l: "valid_size (rec_size r)" "rec_offset r + unat (rec_size r) \<le> m_cur_var_offset vm" "m_cur_var_offset vm \<le> 64"
    using compiled_lookup [OF assms(1) r(1)] by auto
  have shift: "sint (word_of_int (wk_shift w) :: u8) = wk_shift w"
    using assms(3) by (simp add: mask_ok_def signed_of_int signed_take_bit_int_eq_self)
  have "unat (of_nat (rec_offset r) :: u8) = rec_offset r" using l by (intro unat_small) simp
  moreover have "unat (of_nat (rec_offset r) + 4 :: u8) = rec_offset r + 4" if "rec_size r = 8"
  proof -
    have "rec_offset r + 4 \<le> 64" using l that by simp
    then show ?thesis using unat_small [of "rec_offset r + 4"] by simp
  qed
  ultimately show ?thesis using l r(4) assms(3) shift unfolding r(2,3) write_mask_cmd_def ins_writes_def valid_size_def mask_ok_def
    by (auto simp: Let_def r(1) write_flags word_le_nat_alt)
qed

lemma generates_FlowClient:
  assumes "compiled vm" and "generates vm (FlowClient c) (cmds, field)" and "FlowClient c \<in> set (m_inst_list vm)"
  shows "\<forall>c\<in>set cmds. cmd_ok (m_cur_var_offset vm) field c \<and> needs_header c = None \<and> (\<forall>k. \<not> writes c k)"
proof -
  obtain off where off: "get_var_offset vm (fc_var_name c @ ''.ip'') = Ok off" "cmds = [client_cmd off c]"
    using assms(2) by (auto simp: generates_def gen_ins_def obind_Ok)
  obtain bss where bss: "m_bss vm = Some bss" using compiled_bss(2) [OF assms(1)] by blast
  have "unat off + 10 \<le> m_cur_var_offset vm"
    using get_var_offset_Ok [OF assms(1) off(1)] compiled_FlowClient [OF assms(1,3) bss] by auto
  then show ?thesis unfolding off(2) client_cmd_def by simp
qed

lemma generates_ChangePktSize:
  assumes "compiled vm" and "generates vm (ChangePktSize name) (cmds, field)"
  shows "\<forall>c\<in>set cmds. cmd_ok (m_cur_var_offset vm) field c \<and> needs_header c = None \<and> (\<forall>k. \<not> writes c k)"
proof -
  obtain r where r: "m_flow_var_offset vm name = Some r" "rec_size r = 2" "cmds = [itPKT_SIZE_CHANGE \<lparr>ps_flow_offset = of_nat (rec_offset r)\<rparr>]"
    using assms(2) by (auto simp: generates_def gen_ins_def split: option.splits if_splits)
  have l: "rec_offset r + 2 \<le> m_cur_var_offset vm" "rec_offset r \<le> 64" using compiled_lookup [OF assms(1) r(1)] r(2) by auto
  then show ?thesis unfolding r(3) by (simp add: unat_small)
qed

lemma generates_Fix:
  assumes "generates vm (FixChecksumIpv4 off) (cmds, field)"
  shows "\<forall>c\<in>set cmds. cmd_ok B field c \<and> needs_header c = Some (unat off) \<and> (\<forall>k. writes c k \<longrightarrow> ins_writes vm (FixChecksumIpv4 off) k)"
    "field \<le> unat (m_pkt_size vm)" "m_pkt vm = Some pkt \<Longrightarrow> header_fits field pkt (unat off)"
  using assms by (auto simp: generates_def gen_ins_def gen_fix_def Let_def ins_writes_def header_fits_def split: option.splits if_splits)

section \<open>Running a compiled program\<close>

lemma getHeaderLength_in: "ip < length m \<Longrightarrow> getHeaderLength m ip = Some (4 * (unat (m ! ip) mod 16))"
proof -
  assume "ip < length m"
  then obtain n where n: "getHeaderLength m ip = Some n" by (auto simp: getHeaderLength_def mem_get_def)
  then show ?thesis using getHeaderLength_facts(4) [OF n] by simp
qed

lemma header_fits_same:
  assumes "header_fits M pkt ip" and "ip < length buf" and "buf ! ip = pkt ! ip"
  shows "header_fits M buf ip"
  using assms getHeaderLength_facts(3,4) [of pkt ip] getHeaderLength_in [of ip buf] by (auto simp: header_fits_def)

text \<open>\<open>add_instruction\<close> keeps the flag of the random variables true.\<close>

definition random_flag :: "stream_vm \<Rightarrow> bool" where
  "random_flag vm \<longleftrightarrow> (\<forall>m. FlowMan m \<in> set (m_inst_list vm) \<and> fm_op m = FLOW_VAR_OP_RANDOM \<longrightarrow> m_is_random_var vm)"

lemma random_flag_new: "random_flag new_stream_vm"
  by (simp add: random_flag_def new_stream_vm_def)

lemma random_flag_add: "random_flag vm \<Longrightarrow> random_flag (add_instruction vm i)"
  by (auto simp: random_flag_def add_instruction_def split: vm_ins.splits)

lemma same_var_FlowMan: "same_var i (FlowMan m) \<Longrightarrow> \<exists>m'. i = FlowMan m' \<and> no_range m = no_range m'"
  by (cases i) (auto simp: same_var_def)

lemma random_flag_same:
  assumes "list_all2 same_var (m_inst_list vm) (m_inst_list vm')" and "m_is_random_var vm' = m_is_random_var vm" and "random_flag vm"
  shows "random_flag vm'"
  unfolding random_flag_def
proof (intro allI impI)
  fix m assume m: "FlowMan m \<in> set (m_inst_list vm') \<and> fm_op m = FLOW_VAR_OP_RANDOM"
  then obtain i where "i \<in> set (m_inst_list vm)" "same_var i (FlowMan m)"
    using assms(1) by (metis in_set_conv_nth list_all2_conv_all_nth)
  moreover from this obtain m' where "i = FlowMan m'" "no_range m = no_range m'" using same_var_FlowMan by blast
  ultimately have "FlowMan m' \<in> set (m_inst_list vm) \<and> fm_op m' = FLOW_VAR_OP_RANDOM" using m no_range_facts(3) [of m m'] by simp
  then show "m_is_random_var vm'" using assms(2,3) by (auto simp: random_flag_def)
qed

text \<open>
  The program has fewer than 64 KiB, each instruction is in order, and none changes the first byte
  of an IPv4 header whose checksum is fixed.
\<close>

definition vm_ok :: "stream_vm \<Rightarrow> bool" where
  "vm_ok vm \<longleftrightarrow> length (m_instructions vm) < 65536 \<and> (\<forall>i\<in>set (m_inst_list vm). ins_ok vm i) \<and>
     (\<forall>off. FixChecksumIpv4 off \<in> set (m_inst_list vm) \<longrightarrow> (\<forall>i\<in>set (m_inst_list vm). \<not> ins_writes vm i (unat off)))"

definition same_headers :: "stream_vm \<Rightarrow> u8 list \<Rightarrow> u8 list \<Rightarrow> bool" where
  "same_headers vm pkt buf \<longleftrightarrow> (\<forall>off. FixChecksumIpv4 off \<in> set (m_inst_list vm) \<longrightarrow> buf ! unat off = pkt ! unat off)"

lemma generates_ok:
  assumes "compiled vm" and "random_flag vm" and "i \<in> set (m_inst_list vm)" and "ins_ok vm i" and "generates vm i (cmds, field)"
  shows "\<forall>c\<in>set cmds. cmd_ok (m_cur_var_offset vm) field c \<and> (\<forall>k. writes c k \<longrightarrow> ins_writes vm i k) \<and>
    (\<forall>ip. needs_header c = Some ip \<longrightarrow> (\<exists>off. i = FixChecksumIpv4 off \<and> ip = unat off \<and> (\<forall>pkt. m_pkt vm = Some pkt \<longrightarrow> header_fits field pkt ip)))"
proof (cases i)
  case (FixChecksumIpv4 off)
  show ?thesis using generates_Fix [of vm off cmds field] assms(5) FixChecksumIpv4 by auto
next
  case (FlowMan m)
  have "4 \<le> m_cur_var_offset vm" if "fm_op m = FLOW_VAR_OP_RANDOM"
  proof -
    have "m_is_random_var vm" using that assms(2,3) FlowMan by (auto simp: random_flag_def)
    then show ?thesis using assms(1) by (simp add: compiled_def)
  qed
  then show ?thesis using generates_FlowMan [of vm m cmds field] assms FlowMan by (auto simp: ins_ok_def)
next
  case (WriteToPkt w)
  then show ?thesis using generates_WriteToPkt [of vm w cmds field] assms by auto
next
  case (FlowClient c)
  then show ?thesis using generates_FlowClient [of vm c cmds field] assms by auto
next
  case (ChangePktSize name)
  then show ?thesis using generates_ChangePktSize [of vm name cmds field] assms by auto
next
  case (WriteMaskToPkt w)
  then show ?thesis using generates_WriteMask [of vm w cmds field] assms by (auto simp: ins_ok_def)
qed

lemma cmd_ok_mono: "cmd_ok B M c \<Longrightarrow> M \<le> M' \<Longrightarrow> cmd_ok B M' c"
  by (cases c) auto

lemma header_fits_mono: "header_fits M pkt ip \<Longrightarrow> M \<le> M' \<Longrightarrow> header_fits M' pkt ip"
  by (auto simp: header_fits_def)

lemma generates_size:
  "generates vm i (cmds, field) \<Longrightarrow> itPKT_SIZE_CHANGE op \<in> set cmds \<Longrightarrow> \<exists>name. i = ChangePktSize name"
  by (cases i) (auto simp: generates_def gen_ins_def gen_fix_def flow_var_cmd_def write_cmd_def write_mask_cmd_def client_cmd_def obind_Ok Let_def
      split: option.splits if_splits flow_var_op_e.splits)

lemma compiled_commands:
  assumes "compiled vm" and "random_flag vm" and "vm_ok vm" and "m_pkt vm = Some pkt"
  shows "\<exists>cs. m_instructions vm = concat (map encode_ins cs) \<and>
    (\<forall>c\<in>set cs. cmd_ok (m_cur_var_offset vm) (m_max_field_update vm) c \<and>
      (\<exists>i\<in>set (m_inst_list vm). \<forall>k. writes c k \<longrightarrow> ins_writes vm i k) \<and>
      (\<forall>ip. needs_header c = Some ip \<longrightarrow> (\<exists>off. FixChecksumIpv4 off \<in> set (m_inst_list vm) \<and> ip = unat off) \<and>
         header_fits (m_max_field_update vm) pkt ip \<and> ip + 20 \<le> m_max_field_update vm) \<and>
      (\<forall>op. c = itPKT_SIZE_CHANGE op \<longrightarrow> (\<exists>name. ChangePktSize name \<in> set (m_inst_list vm)))) \<and>
    (\<forall>insts off. m_inst_list vm = insts @ [FixChecksumIpv4 off] \<longrightarrow> (\<exists>ds. cs = ds @ [ditFIX_IPV4_CS \<lparr>if_offset = off\<rparr>]))"
proof -
  obtain css where css: "list_all2 (generates vm) (m_inst_list vm) css" "m_instructions vm = concat (map encode_ins (concat (map fst css)))"
      "\<forall>c\<in>set css. snd c \<le> m_max_field_update vm" using assms(1) by (auto simp: compiled_def)
  have each: "cmd_ok (m_cur_var_offset vm) (m_max_field_update vm) c \<and> (\<exists>i\<in>set (m_inst_list vm). \<forall>k. writes c k \<longrightarrow> ins_writes vm i k) \<and>
      (\<forall>ip. needs_header c = Some ip \<longrightarrow> (\<exists>off. FixChecksumIpv4 off \<in> set (m_inst_list vm) \<and> ip = unat off) \<and>
         header_fits (m_max_field_update vm) pkt ip \<and> ip + 20 \<le> m_max_field_update vm) \<and>
      (\<forall>op. c = itPKT_SIZE_CHANGE op \<longrightarrow> (\<exists>name. ChangePktSize name \<in> set (m_inst_list vm)))"
    if c: "c \<in> set (concat (map fst css))" for c
  proof -
    obtain cmds field where cf: "(cmds, field) \<in> set css" "c \<in> set cmds" using c by auto
    then obtain i where i: "i \<in> set (m_inst_list vm)" "generates vm i (cmds, field)"
      using css(1) by (metis in_set_conv_nth list_all2_conv_all_nth)
    have le: "field \<le> m_max_field_update vm" using css(3) cf(1) by auto
    have ok: "ins_ok vm i" using assms(3) i(1) by (simp add: vm_ok_def)
    note g = bspec [OF generates_ok [OF assms(1,2) i(1) ok i(2)] cf(2)]
    have room: "ip + 20 \<le> field" if "needs_header c = Some ip" for ip using g that by (cases c) auto
    have chg: "\<exists>name. ChangePktSize name \<in> set (m_inst_list vm)" if "c = itPKT_SIZE_CHANGE op" for op
    proof -
      have "itPKT_SIZE_CHANGE op \<in> set cmds" using cf(2) that by simp
      then obtain name where "i = ChangePktSize name" using generates_size [OF i(2)] by blast
      then show ?thesis using i(1) by auto
    qed
    have fits: "cmd_ok (m_cur_var_offset vm) (m_max_field_update vm) c" using cmd_ok_mono [OF conjunct1 [OF g] le] .
    have wr: "\<exists>i\<in>set (m_inst_list vm). \<forall>k. writes c k \<longrightarrow> ins_writes vm i k" using conjunct1 [OF conjunct2 [OF g]] i(1) by (rule bexI)
    have hd: "(\<exists>off. FixChecksumIpv4 off \<in> set (m_inst_list vm) \<and> ip = unat off) \<and> header_fits (m_max_field_update vm) pkt ip"
      if "needs_header c = Some ip" for ip
    proof -
      obtain off where "i = FixChecksumIpv4 off" "ip = unat off" "header_fits field pkt ip"
        using conjunct2 [OF conjunct2 [OF g]] \<open>needs_header c = Some ip\<close> assms(4) by auto
      then show ?thesis using i(1) header_fits_mono [OF _ le] by blast
    qed
    show ?thesis
      by (intro conjI allI impI fits wr; (rule conjunct1 [OF hd] | rule conjunct2 [OF hd] | rule order_trans [OF room le] | rule chg); assumption)
  qed
  have last: "\<exists>ds. concat (map fst css) = ds @ [ditFIX_IPV4_CS \<lparr>if_offset = off\<rparr>]" if l: "m_inst_list vm = insts @ [FixChecksumIpv4 off]" for insts off
  proof -
    obtain css1 c where "css = css1 @ [c]" "generates vm (FixChecksumIpv4 off) c"
      using css(1) unfolding l by (auto simp: list_all2_append1 list_all2_Cons1)
    then show ?thesis by (cases c) (auto simp: generates_def gen_ins_def gen_fix_def Let_def split: option.splits if_splits)
  qed
  show ?thesis by (rule exI [of _ "concat (map fst css)"]) (use css(2) each last in blast)
qed

lemma compiled_run:
  assumes "compiled vm" and "random_flag vm" and "vm_ok vm" and "m_pkt vm = Some pkt"
    and "length (vr_flow_var s) = m_cur_var_offset vm" and "m_max_field_update vm \<le> length (vr_pkt s)" and "same_headers vm pkt (vr_pkt s)"
  shows "\<exists>s'. run_program (m_instructions vm) s = Some s' \<and> length (vr_flow_var s') = m_cur_var_offset vm \<and>
    length (vr_pkt s') = length (vr_pkt s) \<and> (\<forall>k. (\<forall>i\<in>set (m_inst_list vm). \<not> ins_writes vm i k) \<longrightarrow> vr_pkt s' ! k = vr_pkt s ! k) \<and>
    (\<forall>k \<ge> m_max_field_update vm. vr_pkt s' ! k = vr_pkt s ! k) \<and>
    ((\<forall>name. ChangePktSize name \<notin> set (m_inst_list vm)) \<longrightarrow> vr_new_pkt_size s' = vr_new_pkt_size s) \<and>
    (\<forall>insts off n. m_inst_list vm = insts @ [FixChecksumIpv4 off] \<and> getHeaderLength pkt (unat off) = Some n \<and> 20 \<le> n \<longrightarrow>
       isChecksumOK (vr_pkt s') (unat off) = Some True)"
proof -
  obtain cs where cs: "m_instructions vm = concat (map encode_ins cs)"
      and all: "\<forall>c\<in>set cs. cmd_ok (m_cur_var_offset vm) (m_max_field_update vm) c \<and>
        (\<exists>i\<in>set (m_inst_list vm). \<forall>k. writes c k \<longrightarrow> ins_writes vm i k) \<and>
        (\<forall>ip. needs_header c = Some ip \<longrightarrow> (\<exists>off. FixChecksumIpv4 off \<in> set (m_inst_list vm) \<and> ip = unat off) \<and>
           header_fits (m_max_field_update vm) pkt ip \<and> ip + 20 \<le> m_max_field_update vm) \<and>
        (\<forall>op. c = itPKT_SIZE_CHANGE op \<longrightarrow> (\<exists>name. ChangePktSize name \<in> set (m_inst_list vm)))"
      and last: "\<forall>insts off. m_inst_list vm = insts @ [FixChecksumIpv4 off] \<longrightarrow> (\<exists>ds. cs = ds @ [ditFIX_IPV4_CS \<lparr>if_offset = off\<rparr>])"
    using compiled_commands [OF assms(1-4)] by blast
  have ok: "cmd_ok (m_cur_var_offset vm) (m_max_field_update vm) c" and wr: "\<exists>i\<in>set (m_inst_list vm). \<forall>k. writes c k \<longrightarrow> ins_writes vm i k"
    if "c \<in> set cs" for c using bspec [OF all that] by blast+
  have hdr: "(\<exists>off. FixChecksumIpv4 off \<in> set (m_inst_list vm) \<and> ip = unat off) \<and>
      header_fits (m_max_field_update vm) pkt ip \<and> ip + 20 \<le> m_max_field_update vm"
    if "c \<in> set cs" "needs_header c = Some ip" for c ip using bspec [OF all that(1)] that(2) by blast
  have h: "header_fits (m_max_field_update vm) (vr_pkt s) ip \<and> (\<forall>d\<in>set cs. \<not> writes d ip)"
    if c: "c \<in> set cs" "needs_header c = Some ip" for c ip
  proof -
    obtain off where off: "FixChecksumIpv4 off \<in> set (m_inst_list vm)" "ip = unat off" using hdr [OF c] by blast
    have "vr_pkt s ! ip = pkt ! ip" using assms(7) off by (simp add: same_headers_def)
    moreover have "\<forall>d\<in>set cs. \<not> writes d ip" using assms(3) off wr unfolding vm_ok_def by blast
    moreover have "header_fits (m_max_field_update vm) pkt ip" "ip < length (vr_pkt s)" using hdr [OF c] assms(6) by linarith+
    ultimately show ?thesis using header_fits_same by blast
  qed
  obtain s' where s': "exec_all cs s = Some s'" "length (vr_flow_var s') = length (vr_flow_var s)" "length (vr_pkt s') = length (vr_pkt s)"
      "\<And>k. (\<forall>c\<in>set cs. \<not> writes c k) \<Longrightarrow> vr_pkt s' ! k = vr_pkt s ! k"
    using exec_all_in [of cs s "m_max_field_update vm"] ok h assms(5,6) by metis
  have below: "\<forall>k \<ge> m_max_field_update vm. vr_pkt s' ! k = vr_pkt s ! k"
  proof (intro allI impI)
    fix k assume "m_max_field_update vm \<le> k"
    then show "vr_pkt s' ! k = vr_pkt s ! k" using writes_below [OF ok] by (intro s'(4)) fastforce
  qed
  have other: "\<forall>k. (\<forall>i\<in>set (m_inst_list vm). \<not> ins_writes vm i k) \<longrightarrow> vr_pkt s' ! k = vr_pkt s ! k"
  proof (intro allI impI)
    fix k assume "\<forall>i\<in>set (m_inst_list vm). \<not> ins_writes vm i k"
    then show "vr_pkt s' ! k = vr_pkt s ! k" using wr by (intro s'(4)) blast
  qed
  have keep: "(\<forall>name. ChangePktSize name \<notin> set (m_inst_list vm)) \<longrightarrow> vr_new_pkt_size s' = vr_new_pkt_size s"
    using exec_all_size [OF s'(1)] all by blast
  have "isChecksumOK (vr_pkt s') (unat off) = Some True"
    if fx: "m_inst_list vm = insts @ [FixChecksumIpv4 off]" "getHeaderLength pkt (unat off) = Some n" "20 \<le> n" for insts off n
  proof -
    obtain ds where ds: "cs = ds @ [ditFIX_IPV4_CS \<lparr>if_offset = off\<rparr>]" using last fx(1) by blast
    have "unat off < length (vr_pkt s)" using hdr [of "ditFIX_IPV4_CS \<lparr>if_offset = off\<rparr>" "unat off"] assms(6) by (auto simp: ds)
    moreover have "vr_pkt s ! unat off = pkt ! unat off" using assms(7) fx(1) by (simp add: same_headers_def)
    ultimately have "getHeaderLength (vr_pkt s) (unat off) = Some n"
      using getHeaderLength_in [of "unat off" "vr_pkt s"] getHeaderLength_facts(4) [OF fx(2)] by simp
    then show ?thesis
      using exec_all_fix [of ds "\<lparr>if_offset = off\<rparr>" s "m_max_field_update vm" n s'] ok h assms(5,6) fx(3) s'(1) unfolding ds by simp
  qed
  then have ver: "\<forall>insts off n. m_inst_list vm = insts @ [FixChecksumIpv4 off] \<and> getHeaderLength pkt (unat off) = Some n \<and> 20 \<le> n \<longrightarrow>
      isChecksumOK (vr_pkt s') (unat off) = Some True" by (intro allI impI) (elim conjE)
  show ?thesis unfolding cs run_program_encode
    by (intro exI [of _ s'] conjI below other keep ver s'(1)) (use s'(2,3) assms(5) in simp_all)
qed

section \<open>Properties\<close>

lemma fix_sizes_none: "(\<forall>i\<in>set insts. \<forall>n. i \<noteq> ChangePktSize n) \<Longrightarrow> fix_sizes k insts vm = Ok vm"
proof (induction insts arbitrary: k)
  case (Cons i insts)
  then have "fix_size k i vm = Ok vm" by (cases i) (auto simp: fix_size_def)
  then show ?case using Cons by simp
qed simp

lemma vm_compile_Some:
  assumes "vm_compile rnd pkt vm = Ok (vm', Some dp)"
  obtains vm1 where "compile rnd (of_nat (length pkt)) (vm\<lparr>m_pkt := Some pkt\<rparr>) = Ok vm1" "vm' = vm1\<lparr>m_pkt := None\<rparr>" "m_inst_list vm \<noteq> []"
    "compiled vm1" "m_pkt vm1 = Some pkt" "m_pkt_size vm1 = of_nat (length pkt)" "list_all2 same_var (m_inst_list vm) (m_inst_list vm1)"
    "m_is_random_var vm1 = m_is_random_var vm" "m_bss vm1 = Some (dp_bss dp)" "vm_ok vm' \<Longrightarrow> dp_program dp = m_instructions vm1"
    "dp_max_pkt_offset_change dp = m_max_field_update vm1" "dp_prefix_size dp = m_prefix_size vm1" "dp_is_pkt_size_var dp = m_is_change_pkt_size vm" "dp_is_random_seed dp = m_is_random_var vm1"
proof -
  obtain vm1 where vm1: "compile rnd (of_nat (length pkt)) (vm\<lparr>m_pkt := Some pkt\<rparr>) = Ok vm1" "vm' = vm1\<lparr>m_pkt := None\<rparr>"
      "generate_dp_object vm1 = Ok (Some dp)" "m_inst_list vm \<noteq> []"
    using assms by (auto simp: vm_compile_def obind_Ok split: if_splits)
  have ne: "m_inst_list (vm\<lparr>m_pkt := Some pkt\<rparr>) \<noteq> []" using vm1(4) by simp
  note c = compile_Ok [OF vm1(1) ne]
  obtain bss where "m_bss vm1 = Some bss" using compiled_bss(2) c by blast
  moreover have "dp_program dp = m_instructions vm1" if "vm_ok vm'"
  proof -
    have "length (m_instructions vm1) < 65536" using that vm1(2) by (simp add: vm_ok_def)
    then have "unat (of_nat (length (m_instructions vm1)) :: u16) = length (m_instructions vm1)" by (intro unat_of_nat_less) simp
    then show ?thesis using vm1(3) by (auto simp: generate_dp_object_def new_stream_vm_dp_def obind_Ok split: if_splits)
  qed
  ultimately show thesis using vm1 c by (intro that [of vm1]) (auto simp: generate_dp_object_def new_stream_vm_dp_def obind_Ok split: if_splits)
qed

lemma vm_compile_run:
  assumes "vm_compile rnd pkt vm = Ok (vm', Some dp)" and "random_flag vm" and "vm_ok vm'"
    and "length fv = length (dp_bss dp)" and "dp_max_pkt_offset_change dp \<le> length buf" and "same_headers vm' pkt buf"
  shows "\<exists>s'. run_program (dp_program dp) \<lparr>vr_flow_var = fv, vr_pkt = buf, vr_new_pkt_size = 0\<rparr> = Some s' \<and>
    length (vr_flow_var s') = length (dp_bss dp) \<and> length (vr_pkt s') = length buf \<and> same_headers vm' pkt (vr_pkt s') \<and>
    (\<forall>k. (\<forall>i\<in>set (m_inst_list vm'). \<not> ins_writes vm' i k) \<longrightarrow> vr_pkt s' ! k = buf ! k) \<and>
    (\<forall>k \<ge> dp_max_pkt_offset_change dp. vr_pkt s' ! k = buf ! k) \<and> dp_max_pkt_offset_change dp \<le> svMAX_PACKET_OFFSET_CHANGE \<and>
    ((\<forall>name. ChangePktSize name \<notin> set (m_inst_list vm')) \<longrightarrow> vr_new_pkt_size s' = 0) \<and>
    (\<forall>insts off n. m_inst_list vm' = insts @ [FixChecksumIpv4 off] \<and> getHeaderLength pkt (unat off) = Some n \<and> 20 \<le> n \<longrightarrow>
       isChecksumOK (vr_pkt s') (unat off) = Some True)"
proof -
  obtain vm1 where vm1: "vm' = vm1\<lparr>m_pkt := None\<rparr>" "compiled vm1" "m_pkt vm1 = Some pkt" "list_all2 same_var (m_inst_list vm) (m_inst_list vm1)"
      "m_is_random_var vm1 = m_is_random_var vm" "m_bss vm1 = Some (dp_bss dp)" "dp_program dp = m_instructions vm1"
      "dp_max_pkt_offset_change dp = m_max_field_update vm1"
    using vm_compile_Some [OF assms(1)] assms(3) by metis
  have flag: "random_flag vm1" by (rule random_flag_same [OF vm1(4,5) assms(2)])
  have ok: "vm_ok vm1" "same_headers vm1 pkt buf"
    using assms(3,6) unfolding vm1(1) by (simp_all add: vm_ok_def same_headers_def ins_ok_def mask_ok_def ins_writes_def cong: vm_ins.case_cong)
  let ?s = "\<lparr>vr_flow_var = fv, vr_pkt = buf, vr_new_pkt_size = 0\<rparr>"
  have len: "length (vr_flow_var ?s) = m_cur_var_offset vm1" "m_max_field_update vm1 \<le> length (vr_pkt ?s)" "same_headers vm1 pkt (vr_pkt ?s)"
    using compiled_bss(2) [OF vm1(2)] assms(4,5) vm1(6,8) ok(2) by simp_all
  obtain s' where s': "run_program (m_instructions vm1) ?s = Some s'" "length (vr_flow_var s') = m_cur_var_offset vm1"
      "length (vr_pkt s') = length buf" "\<And>k. (\<forall>i\<in>set (m_inst_list vm1). \<not> ins_writes vm1 i k) \<Longrightarrow> vr_pkt s' ! k = buf ! k"
      "\<forall>k \<ge> m_max_field_update vm1. vr_pkt s' ! k = buf ! k"
      "(\<forall>name. ChangePktSize name \<notin> set (m_inst_list vm1)) \<longrightarrow> vr_new_pkt_size s' = 0"
      "\<forall>insts off n. m_inst_list vm1 = insts @ [FixChecksumIpv4 off] \<and> getHeaderLength pkt (unat off) = Some n \<and> 20 \<le> n \<longrightarrow>
         isChecksumOK (vr_pkt s') (unat off) = Some True"
    using compiled_run [OF vm1(2) flag ok(1) vm1(3) len] by auto
  have "same_headers vm' pkt (vr_pkt s')"
    using ok s'(4) unfolding vm1(1) same_headers_def vm_ok_def by simp
  moreover have "\<forall>k. (\<forall>i\<in>set (m_inst_list vm'). \<not> ins_writes vm' i k) \<longrightarrow> vr_pkt s' ! k = buf ! k"
    using s'(4) unfolding vm1(1) by (simp add: ins_writes_def cong: vm_ins.case_cong)
  moreover have "m_max_field_update vm1 \<le> 512" using vm1(2) by (simp add: compiled_def)
  ultimately show ?thesis using s' vm1(6-8) len(1) assms(4) by (simp add: vm1(1))
qed

text \<open>
  C8. A run of a compiled program ends without leaving its memory: on flow variables of the
  compiled length and a packet buffer of at least the counted length, every command finds its bytes,
  the lengths stay, and only bytes of fields that an instruction writes are changed, none behind
  the counted length, which is at most 512. The compiler accepts more than what this holds for:
  the program must have fewer than 64 KiB, the range of a random variable must not be empty,
  no shift may be 32 or more, no little-endian masked write may have a variable wider than its
  cast, and no instruction may change the first byte of an IPv4 header whose checksum is fixed. The
  headers are again in place after the run.
\<close>

theorem vm_run_in_bounds:
  assumes "vm_compile rnd pkt vm = Ok (vm', Some dp)" and "random_flag vm" and "vm_ok vm'"
    and "length fv = length (dp_bss dp)" and "dp_max_pkt_offset_change dp \<le> length buf" and "same_headers vm' pkt buf"
  shows "\<exists>s'. run_program (dp_program dp) \<lparr>vr_flow_var = fv, vr_pkt = buf, vr_new_pkt_size = 0\<rparr> = Some s' \<and>
    length (vr_flow_var s') = length (dp_bss dp) \<and> length (vr_pkt s') = length buf \<and> same_headers vm' pkt (vr_pkt s') \<and>
    (\<forall>k. (\<forall>i\<in>set (m_inst_list vm'). \<not> ins_writes vm' i k) \<longrightarrow> vr_pkt s' ! k = buf ! k) \<and>
    (\<forall>k \<ge> dp_max_pkt_offset_change dp. vr_pkt s' ! k = buf ! k) \<and> dp_max_pkt_offset_change dp \<le> svMAX_PACKET_OFFSET_CHANGE"
  using vm_compile_run [OF assms] by blast

text \<open>
  Where the last instruction fixes the checksum of an IPv4 header, the header of every packet
  that the program has run over verifies, whatever the program has written into it before.
\<close>

theorem vm_run_fixes_checksum:
  assumes "vm_compile rnd pkt vm = Ok (vm', Some dp)" and "random_flag vm" and "vm_ok vm'"
    and "length fv = length (dp_bss dp)" and "dp_max_pkt_offset_change dp \<le> length buf" and "same_headers vm' pkt buf"
    and "m_inst_list vm' = insts @ [FixChecksumIpv4 off]" and "getHeaderLength pkt (unat off) = Some n" and "20 \<le> n"
  shows "\<exists>s'. run_program (dp_program dp) \<lparr>vr_flow_var = fv, vr_pkt = buf, vr_new_pkt_size = 0\<rparr> = Some s' \<and>
    isChecksumOK (vr_pkt s') (unat off) = Some True"
  using vm_compile_run [OF assms(1-6)] assms(7-9) by blast

section \<open>An example\<close>

definition demo_dp :: stream_vm_dp where
  "demo_dp = \<lparr>dp_bss = [7, 0], dp_program = m_instructions demo_compiled, dp_max_pkt_offset_change = 34, dp_prefix_size = 64,
     dp_is_pkt_size_var = False, dp_is_random_seed = False\<rparr>"

lemma demo_header_length: "getHeaderLength demo_pkt 14 = Some 20"
  by (simp add: getHeaderLength_def mem_get_def word_of_bytes_def demo_pkt_def demo_header_def)

lemma demo_vm_compile: "vm_compile rnd demo_pkt demo_vm = Ok (demo_compiled, Some demo_dp)"
proof -
  have "compile rnd 64 (demo_vm\<lparr>m_pkt := Some demo_pkt\<rparr>) = Ok (demo_compiled\<lparr>m_pkt := Some demo_pkt\<rparr>)"
    by (simp add: demo_vm_simp demo_counter_def demo_write_def demo_compiled_def new_stream_vm_def compile_eval struct_eval Let_def demo_header_length)
  moreover have "length demo_pkt = 64" by (simp add: demo_pkt_def demo_header_def)
  ultimately show ?thesis
    by (simp add: vm_compile_def demo_vm_simp generate_dp_object_def new_stream_vm_dp_def demo_compiled_def new_stream_vm_def demo_dp_def)
qed

lemma demo_ok: "random_flag demo_vm" "vm_ok demo_compiled" "same_headers demo_compiled demo_pkt demo_pkt"
  by (auto simp: random_flag_def vm_ok_def same_headers_def ins_ok_def random_ok_def ins_writes_def demo_vm_simp demo_compiled_def
      demo_counter_def demo_write_def)

lemma vm_run_in_bounds_witness:
  "\<exists>s'. run_program (dp_program demo_dp) \<lparr>vr_flow_var = [7, 0], vr_pkt = demo_pkt, vr_new_pkt_size = 0\<rparr> = Some s' \<and> length (vr_pkt s') = 64"
  using vm_run_in_bounds [OF demo_vm_compile demo_ok(1,2), of "[7, 0]" demo_pkt] demo_ok(3)
  by (auto simp: demo_dp_def demo_pkt_def demo_header_def)

lemma vm_run_fixes_checksum_witness:
  "\<exists>s'. run_program (dp_program demo_dp) \<lparr>vr_flow_var = [7, 0], vr_pkt = demo_pkt, vr_new_pkt_size = 0\<rparr> = Some s' \<and>
    isChecksumOK (vr_pkt s') 14 = Some True"
proof -
  have "m_inst_list demo_compiled = [FlowMan demo_counter, WriteToPkt demo_write] @ [FixChecksumIpv4 14]"
    by (simp add: demo_compiled_def demo_vm_simp)
  moreover have "length [7, 0 :: u8] = length (dp_bss demo_dp)" "dp_max_pkt_offset_change demo_dp \<le> length demo_pkt"
    by (simp_all add: demo_dp_def demo_pkt_def demo_header_def)
  moreover have "getHeaderLength demo_pkt (unat (14 :: u16)) = Some 20" "unat (14 :: u16) = 14" using demo_header_length by simp_all
  ultimately show ?thesis using vm_run_fixes_checksum [OF demo_vm_compile demo_ok(1,2) _ _ demo_ok(3)] by simp
qed

section \<open>A program of 64 KiB\<close>

definition long_counter :: ins_flow_man where
  "long_counter = \<lparr>fm_var_name = ''x'', fm_size_bytes = 1, fm_op = FLOW_VAR_OP_INC, fm_init_value = 0, fm_min_value = 0,
     fm_max_value = 9, fm_step = 1\<rparr>"

definition long_write :: ins_write_to_pkt where
  "long_write = \<lparr>wp_flow_var_name = ''x'', wp_pkt_offset = 0, wp_add_value = 0, wp_is_big_endian = False\<rparr>"

definition long_vm :: stream_vm where
  "long_vm = foldl add_instruction new_stream_vm (FlowMan long_counter # replicate 10923 (WriteToPkt long_write))"

definition long_cmd :: "u8 list" where
  "long_cmd = encode_ins (itPKT_WR8 \<lparr>pw_flags = 0, pw_offset = 0, pw_pkt_offset = 0, pw_val_offset = 0\<rparr>)"

lemma add_writes: "foldl add_instruction vm (replicate n (WriteToPkt w)) = vm\<lparr>m_inst_list := m_inst_list vm @ replicate n (WriteToPkt w)\<rparr>"
  by (induction n arbitrary: vm) (simp_all add: add_instruction_def)

lemma long_vm_eq: "long_vm = new_stream_vm\<lparr>m_inst_list := FlowMan long_counter # replicate 10923 (WriteToPkt long_write)\<rparr>"
  by (simp add: long_vm_def add_writes) (simp add: add_instruction_def new_stream_vm_def long_counter_def)

lemma scan_writes: "snd st \<le> 64 \<Longrightarrow> scan_vars k (replicate n (WriteToPkt w)) st = Ok st"
proof (induction n arbitrary: k)
  case (Suc n)
  obtain t c where st: "st = (t, c)" by (cases st)
  show ?case using Suc by (simp add: add_vars_def st)
qed simp

lemma gen_writes:
  assumes "m_flow_var_offset vm ''x'' = Some \<lparr>rec_offset = 0, rec_ins = i, rec_size = 1\<rparr>" and "1 \<le> unat (m_pkt_size vm)"
  shows "gen_all k (replicate n (WriteToPkt long_write)) vm =
    Ok (vm\<lparr>m_instructions := m_instructions vm @ concat (replicate n long_cmd),
           m_max_field_update := (if n = 0 then m_max_field_update vm else max (m_max_field_update vm) 1)\<rparr>)"
  using assms
proof (induction n arbitrary: k vm)
  case (Suc n)
  let ?vm = "vm\<lparr>m_instructions := m_instructions vm @ long_cmd, m_max_field_update := max (m_max_field_update vm) 1\<rparr>"
  have "gen_ins vm k (WriteToPkt long_write) = Ok ([itPKT_WR8 \<lparr>pw_flags = 0, pw_offset = 0, pw_pkt_offset = 0, pw_val_offset = 0\<rparr>], 1)"
    using Suc.prems by (simp add: gen_ins_def long_write_def write_cmd_def Let_def)
  moreover have "add_field_cnt (vm\<lparr>m_instructions := m_instructions vm @ long_cmd\<rparr>) 1 = ?vm"
    by (auto simp: add_field_cnt_def max_def)
  ultimately have "gen_all k (replicate (Suc n) (WriteToPkt long_write)) vm = gen_all (k + 1) (replicate n (WriteToPkt long_write)) ?vm"
    by (simp add: add_command_def long_cmd_def)
  also have "\<dots> = Ok (?vm\<lparr>m_instructions := m_instructions ?vm @ concat (replicate n long_cmd),
           m_max_field_update := (if n = 0 then m_max_field_update ?vm else max (m_max_field_update ?vm) 1)\<rparr>)"
    by (rule Suc.IH) (use Suc.prems in simp_all)
  finally show ?case by simp
qed simp

lemma length_long: "length (concat (replicate n long_cmd)) = 6 * n"
  by (induction n) (simp_all add: long_cmd_def encode_ins_def put_pkt_wr8_def)

lemma long_compile:
  "\<exists>vm' dp. vm_compile rnd [0] long_vm = Ok (vm', Some dp) \<and> length (m_instructions vm') = 65542 \<and> dp_bss dp = [9] \<and>
     dp_program dp = encode_ins (ditINC8 \<lparr>fv_offset = 0, fv_min = 0, fv_max = 9\<rparr>) @ [20, 0]"
proof -
  let ?ws = "replicate 10923 (WriteToPkt long_write)" and ?x = "\<lparr>rec_offset = 0, rec_ins = Some 0, rec_size = 1\<rparr> :: var_rec"
  define vm0 where "vm0 = new_stream_vm\<lparr>m_inst_list := FlowMan long_counter # ?ws, m_pkt := Some [0], m_pkt_size := 1\<rparr>"
  define vm1 where "vm1 = vm0\<lparr>m_flow_var_offset := [''x'' \<mapsto> ?x], m_cur_var_offset := 1\<rparr>"
  define code where "code = encode_ins (ditINC8 \<lparr>fv_offset = 0, fv_min = 0, fv_max = 9\<rparr>) @ concat (replicate 10923 long_cmd)"
  have "scan_vars 0 (FlowMan long_counter # ?ws) (Map.empty, 0) = Ok ([''x'' \<mapsto> ?x], 1)"
    by (simp add: add_vars_def long_counter_def valid_size_def scan_writes)
  moreover have "fix_sizes 0 (FlowMan long_counter # ?ws) vm1 = Ok vm1" by (rule fix_sizes_none) auto
  ultimately have b: "build_flow_var_table vm0 = Ok vm1"
    by (simp add: build_flow_var_table_def vm0_def vm1_def new_stream_vm_def random_vars_def del: scan_vars.simps fix_sizes.simps)
  define vm2 where "vm2 = vm1\<lparr>m_bss := Some [9]\<rparr>"
  have "build_bss rnd vm1 = vm2"
    by (simp add: build_bss_def vm2_def vm1_def vm0_def new_stream_vm_def bss_bytes_def long_counter_def get_bss_init_value_def bytes_of_def
        concat_replicate_trivial)
  moreover have "build_program vm2 = Ok (vm2\<lparr>m_instructions := code, m_max_field_update := 1\<rparr>)"
  proof -
    have "gen_ins (vm2\<lparr>m_instructions := [], m_max_field_update := 0\<rparr>) 0 (FlowMan long_counter) =
        Ok ([ditINC8 \<lparr>fv_offset = 0, fv_min = 0, fv_max = 9\<rparr>], 0)"
      by (simp add: gen_ins_def get_var_offset_def vm2_def vm1_def long_counter_def flow_var_cmd_def Let_def)
    then show ?thesis
      by (simp add: build_program_def vm2_def vm1_def vm0_def new_stream_vm_def gen_writes add_field_cnt_def add_command_def code_def is_var_ins_def
         )
  qed
  ultimately have c: "compile rnd 1 (long_vm\<lparr>m_pkt := Some [0]\<rparr>) =
      Ok (vm2\<lparr>m_instructions := code, m_max_field_update := 1, m_prefix_size := 1, m_is_compiled := True\<rparr>)"
    using b by (simp add: compile_def long_vm_eq vm0_def new_stream_vm_def calc_writable_mbuf_size_def vm2_def vm1_def)
  have len: "length code = 65542" by (simp add: code_def length_long encode_ins_def put_flow_var_def)
  have "concat (replicate (Suc 10922) long_cmd) = long_cmd @ concat (replicate 10922 long_cmd)"
    by (simp only: replicate_Suc concat.simps)
  then have code: "code = encode_ins (ditINC8 \<lparr>fv_offset = 0, fv_min = 0, fv_max = 9\<rparr>) @ long_cmd @ concat (replicate 10922 long_cmd)"
    by (simp add: code_def del: replicate_Suc)
  have "take 6 (encode_ins (ditINC8 \<lparr>fv_offset = 0, fv_min = 0, fv_max = 9\<rparr>) @ long_cmd @ r) =
      encode_ins (ditINC8 \<lparr>fv_offset = 0, fv_min = 0, fv_max = 9\<rparr>) @ [20, 0]" for r
    by (simp add: long_cmd_def encode_ins_def put_flow_var_def put_pkt_wr8_def bytes_of_def)
  then have "take 6 code = encode_ins (ditINC8 \<lparr>fv_offset = 0, fv_min = 0, fv_max = 9\<rparr>) @ [20, 0]" unfolding code .
  then show ?thesis using c len
    by (simp add: vm_compile_def long_vm_eq generate_dp_object_def new_stream_vm_dp_def vm2_def Let_def unat_of_nat new_stream_vm_def vm1_def vm0_def)
qed

text \<open>
  C34. A program of 64 KiB or more is cut. The compiler accepts this stream, whose program has 65542
  bytes; the object for the data plane gets the first 6 of them, which end inside the second
  instruction, and the first packet makes the runner read behind the program.
\<close>

theorem vm_long_program_overruns:
  "\<exists>vm' dp. vm_compile rnd [0] long_vm = Ok (vm', Some dp) \<and> length (m_instructions vm') = 65542 \<and> length (dp_program dp) = 6 \<and>
     run_program (dp_program dp) \<lparr>vr_flow_var = dp_bss dp, vr_pkt = buf, vr_new_pkt_size = 0\<rparr> = None"
proof -
  obtain vm' dp where c: "vm_compile rnd [0] long_vm = Ok (vm', Some dp)" "length (m_instructions vm') = 65542" "dp_bss dp = [9]"
      "dp_program dp = encode_ins (ditINC8 \<lparr>fv_offset = 0, fv_min = 0, fv_max = 9\<rparr>) @ [20, 0]" using long_compile by blast
  have "decode_ins 20 [0] = None" by (simp add: decode_ins_def map_ins_def rd_defs rd_def)
  then have "run_program (dp_program dp) \<lparr>vr_flow_var = dp_bss dp, vr_pkt = buf, vr_new_pkt_size = 0\<rparr> = None"
    unfolding c(3,4) encode_ins_def append_Cons by (simp add: decode_encode bind_eq_None_conv del: op_code.simps op_fields.simps)
  moreover have "length (dp_program dp) = 6" unfolding c(4) by (simp add: encode_ins_def put_flow_var_def)
  ultimately show ?thesis using c(1,2) by blast
qed

end
