(* ===== verification/Vm_Values.thy ===== *)
theory Vm_Values
  imports Vm_Safe
begin

text \<open>
  The values of flow variables over the packets of a stream: no other instruction of a compiled
  program touches a variable, so that a counter of step 1 runs through its range in a circle, and a
  field of the packet holds the value of its variable.
\<close>

section \<open>Circular counters\<close>

locale circular_counter =
  fixes step :: "'a \<Rightarrow> 'a" and inv :: "'a \<Rightarrow> bool" and val :: "'a \<Rightarrow> int" and period :: int
  assumes inv_step: "inv p \<Longrightarrow> inv (step p)"
    and val_range: "inv p \<Longrightarrow> 0 \<le> val p \<and> val p < period"
    and val_step: "inv p \<Longrightarrow> val (step p) = (if val p + 1 = period then 0 else val p + 1)"
begin

lemma steps: "inv p \<Longrightarrow> inv ((step ^^ n) p) \<and> val ((step ^^ n) p) = (val p + int n) mod period"
proof (induction n)
  case 0
  then show ?case using val_range [of p] by simp
next
  case (Suc n)
  let ?q = "(step ^^ n) p"
  have q: "inv ?q" "val ?q = (val p + int n) mod period" using Suc by simp_all
  have "val (step ?q) = (val ?q + 1) mod period" using val_step [OF q(1)] val_range [OF q(1)] by simp
  also have "\<dots> = (val p + int (Suc n)) mod period" unfolding q(2) mod_add_left_eq by (simp add: algebra_simps)
  finally show ?case using inv_step [OF q(1)] by simp
qed

end

lemma uint_less_Suc:
  assumes "uint (p :: 'a::len word) < uint (mx :: 'a word)"
  shows "uint (p + 1) = uint p + 1"
proof -
  have "uint mx < 2 ^ LENGTH('a)" by (rule unsigned_less)
  moreover have "0 \<le> uint p" by simp
  ultimately have "(uint p + 1) mod 2 ^ LENGTH('a) = uint p + 1" using assms by (intro mod_pos_pos_trivial) linarith+
  then show ?thesis by (simp add: uint_word_ariths(1))
qed

lemma uint_greater_pred:
  assumes "uint (mn :: 'a word) < uint (p :: 'a::len word)"
  shows "uint (p - 1) = uint p - 1"
proof -
  have "uint p < 2 ^ LENGTH('a)" by (rule unsigned_less)
  moreover have "0 \<le> uint mn" by simp
  ultimately have "(uint p - 1) mod 2 ^ LENGTH('a) = uint p - 1" using assms by (intro mod_pos_pos_trivial) linarith+
  then show ?thesis by (simp add: uint_word_ariths(2))
qed

definition between :: "'a::len word \<Rightarrow> 'a word \<Rightarrow> 'a word \<Rightarrow> bool" where
  "between mn mx p \<longleftrightarrow> uint mn \<le> uint p \<and> uint p \<le> uint mx"

interpretation inc: circular_counter "inc_val mn mx" "between mn mx" "\<lambda>p. uint p - uint mn" "uint mx - uint mn + 1" for mn mx :: "'a::len word"
proof
  fix p assume p: "between mn mx p"
  show "between mn mx (inc_val mn mx p)" "uint (inc_val mn mx p) - uint mn =
      (if uint p - uint mn + 1 = uint mx - uint mn + 1 then 0 else uint p - uint mn + 1)"
    using p uint_less_Suc [of p mx] by (auto simp: between_def inc_val_def word_uint_eq_iff)
qed (auto simp: between_def)

text \<open>A decreasing counter is an increasing one, read from the other end.\<close>

interpretation dec: circular_counter "dec_val mn mx" "between mn mx" "\<lambda>p. uint mx - uint p" "uint mx - uint mn + 1" for mn mx :: "'a::len word"
proof
  fix p assume p: "between mn mx p"
  show "between mn mx (dec_val mn mx p)" "uint mx - uint (dec_val mn mx p) =
      (if uint mx - uint p + 1 = uint mx - uint mn + 1 then 0 else uint mx - uint p + 1)"
    using p uint_greater_pred [of mn p] by (auto simp: between_def dec_val_def word_uint_eq_iff)
qed (auto simp: between_def)

section \<open>The flow variables that a command changes\<close>

fun touches :: "dp_ins \<Rightarrow> nat \<Rightarrow> bool" where
  "touches (ditINC8 op) k = (unat (fv_offset op) \<le> k \<and> k < unat (fv_offset op) + 1)"
| "touches (ditINC16 op) k = (unat (fv_offset op) \<le> k \<and> k < unat (fv_offset op) + 2)"
| "touches (ditINC32 op) k = (unat (fv_offset op) \<le> k \<and> k < unat (fv_offset op) + 4)"
| "touches (ditINC64 op) k = (unat (fv_offset op) \<le> k \<and> k < unat (fv_offset op) + 8)"
| "touches (ditDEC8 op) k = (unat (fv_offset op) \<le> k \<and> k < unat (fv_offset op) + 1)"
| "touches (ditDEC16 op) k = (unat (fv_offset op) \<le> k \<and> k < unat (fv_offset op) + 2)"
| "touches (ditDEC32 op) k = (unat (fv_offset op) \<le> k \<and> k < unat (fv_offset op) + 4)"
| "touches (ditDEC64 op) k = (unat (fv_offset op) \<le> k \<and> k < unat (fv_offset op) + 8)"
| "touches (ditRANDOM8 op) k = (k < 4 \<or> unat (fv_offset op) \<le> k \<and> k < unat (fv_offset op) + 1)"
| "touches (ditRANDOM16 op) k = (k < 4 \<or> unat (fv_offset op) \<le> k \<and> k < unat (fv_offset op) + 2)"
| "touches (ditRANDOM32 op) k = (k < 4 \<or> unat (fv_offset op) \<le> k \<and> k < unat (fv_offset op) + 4)"
| "touches (ditRANDOM64 op) k = (k < 4 \<or> unat (fv_offset op) \<le> k \<and> k < unat (fv_offset op) + 8)"
| "touches (ditINC8_STEP op) k = (unat (fv_offset op) \<le> k \<and> k < unat (fv_offset op) + 1)"
| "touches (ditINC16_STEP op) k = (unat (fv_offset op) \<le> k \<and> k < unat (fv_offset op) + 2)"
| "touches (ditINC32_STEP op) k = (unat (fv_offset op) \<le> k \<and> k < unat (fv_offset op) + 4)"
| "touches (ditINC64_STEP op) k = (unat (fv_offset op) \<le> k \<and> k < unat (fv_offset op) + 8)"
| "touches (ditDEC8_STEP op) k = (unat (fv_offset op) \<le> k \<and> k < unat (fv_offset op) + 1)"
| "touches (ditDEC16_STEP op) k = (unat (fv_offset op) \<le> k \<and> k < unat (fv_offset op) + 2)"
| "touches (ditDEC32_STEP op) k = (unat (fv_offset op) \<le> k \<and> k < unat (fv_offset op) + 4)"
| "touches (ditDEC64_STEP op) k = (unat (fv_offset op) \<le> k \<and> k < unat (fv_offset op) + 8)"
| "touches (itCLIENT_VAR op) k = (unat (cl_flow_offset op) \<le> k \<and> k < unat (cl_flow_offset op) + 10)"
| "touches (itCLIENT_VAR_UNLIMIT op) k = (unat (cu_flow_offset op) \<le> k \<and> k < unat (cu_flow_offset op) + 10)"
| "touches _ k = False"

lemma upd_var_keeps:
  fixes f :: "'a::len word \<Rightarrow> 'a word"
  assumes "upd_var off f m = Some m'"
  shows "length m' = length m \<and> (\<forall>k. \<not> (off \<le> k \<and> k < off + LENGTH('a) div 8) \<longrightarrow> m' ! k = m ! k)"
  using assms mem_put_length mem_put_nth [where 'a = 'a] by (fastforce simp: upd_var_def bind_eq_Some_conv not_le not_less)

lemma upd_client_keeps:
  assumes "upd_client off f m = Some m'"
  shows "length m' = length m \<and> (\<forall>k. \<not> (off \<le> k \<and> k < off + 10) \<longrightarrow> m' ! k = m ! k)"
proof -
  obtain c where c: "get_client m off = Some c" "put_client m off (f c) = Some m'" using assms by (auto simp: upd_client_def bind_eq_Some_conv)
  obtain ip port fl where fc: "f c = (ip, port, fl)" by (rule prod_cases3)
  obtain m1 m2 where *: "mem_put m off ip = Some m1" "mem_put m1 (off + 4) port = Some m2" "mem_put m2 (off + 6) fl = Some m'"
    using c(2) unfolding fc by (auto simp: put_client_def bind_eq_Some_conv)
  have "m' ! k = m ! k" if "\<not> (off \<le> k \<and> k < off + 10)" for k
  proof -
    have k: "k < off \<or> off + 10 \<le> k" using that by linarith
    have "m1 ! k = m ! k" by (rule mem_put_nth [OF *(1)]) (use k in auto)
    moreover have "m2 ! k = m1 ! k" by (rule mem_put_nth [OF *(2)]) (use k in auto)
    moreover have "m' ! k = m2 ! k" by (rule mem_put_nth [OF *(3)]) (use k in auto)
    ultimately show ?thesis by simp
  qed
  then show ?thesis using mem_put_length [OF *(1)] mem_put_length [OF *(2)] mem_put_length [OF *(3)] by simp
qed

lemma store_twice_keeps:
  fixes w :: "'b::len word"
  assumes "do { m1 \<leftarrow> mem_put m 0 (seed :: u32); mem_put m1 off w } = Some m'"
  shows "length m' = length m \<and> (\<forall>k. \<not> (k < 4 \<or> off \<le> k \<and> k < off + LENGTH('b) div 8) \<longrightarrow> m' ! k = m ! k)"
proof -
  obtain m1 where m1: "mem_put m 0 seed = Some m1" "mem_put m1 off w = Some m'" using assms by (auto simp: bind_eq_Some_conv)
  have "m' ! k = m ! k" if "\<not> (k < 4 \<or> off \<le> k \<and> k < off + LENGTH('b) div 8)" for k
  proof -
    have "m1 ! k = m ! k" by (rule mem_put_nth [OF m1(1)]) (use that in auto)
    moreover have "m' ! k = m1 ! k" by (rule mem_put_nth [OF m1(2)]) (use that in auto)
    ultimately show ?thesis by simp
  qed
  then show ?thesis using mem_put_length [OF m1(1)] mem_put_length [OF m1(2)] by simp
qed

lemma run_rand_keeps:
  fixes op :: "'a::len word flow_var_op"
  assumes "run_rand_16 op m = Some m'"
  shows "length m' = length m \<and> (\<forall>k. \<not> (k < 4 \<or> unat (fv_offset op) \<le> k \<and> k < unat (fv_offset op) + LENGTH('a) div 8) \<longrightarrow> m' ! k = m ! k)"
proof -
  obtain seed where seed: "mem_get m 0 = Some (seed :: u32)" using assms by (auto simp: run_rand_16_def bind_eq_Some_conv)
  obtain r seed' where r: "vm_rand16 seed = (r, seed')" by (rule prod.exhaust)
  show ?thesis
    using store_twice_keeps [of m seed' "unat (fv_offset op)" "fv_min op + ucast (r mod rand_range_int (fv_min op) (fv_max op))" m'] assms seed r
    by (simp add: run_rand_16_def Let_def split: if_splits)
qed

lemma run_rand_32_keeps:
  assumes "run_rand_32 op m = Some m'"
  shows "length m' = length m \<and> (\<forall>k. \<not> (k < 4 \<or> unat (fv_offset op) \<le> k \<and> k < unat (fv_offset op) + 4) \<longrightarrow> m' ! k = m ! k)"
proof -
  obtain seed where seed: "mem_get m 0 = Some (seed :: u32)" using assms by (auto simp: run_rand_32_def bind_eq_Some_conv)
  obtain r seed' where r: "vm_rand32 seed = (r, seed')" by (rule prod.exhaust)
  show ?thesis
    using store_twice_keeps [of m seed' "unat (fv_offset op)" "fv_min op + r mod rand_range_int (fv_min op) (fv_max op)" m'] assms seed r
    by (simp add: run_rand_32_def Let_def split: if_splits)
qed

lemma run_rand_64_keeps:
  assumes "run_rand_64 op m = Some m'"
  shows "length m' = length m \<and> (\<forall>k. \<not> (k < 4 \<or> unat (fv_offset op) \<le> k \<and> k < unat (fv_offset op) + 8) \<longrightarrow> m' ! k = m ! k)"
proof -
  obtain seed where seed: "mem_get m 0 = Some (seed :: u32)" using assms by (auto simp: run_rand_64_def bind_eq_Some_conv)
  obtain r seed' where r: "vm_rand64 seed = (r, seed')" by (rule prod.exhaust)
  show ?thesis
    using store_twice_keeps [of m seed' "unat (fv_offset op)" "fv_min op + r mod rand_range_64 (fv_min op) (fv_max op)" m'] assms seed r
    by (simp add: run_rand_64_def Let_def split: if_splits)
qed

lemma run_var_keeps:
  fixes op :: "'a::len word flow_var_op" and st :: "'b::len word flow_var_step_op"
  shows "run_inc op m = Some m' \<Longrightarrow> length m' = length m \<and>
      (\<forall>k. \<not> (unat (fv_offset op) \<le> k \<and> k < unat (fv_offset op) + LENGTH('a) div 8) \<longrightarrow> m' ! k = m ! k)"
    and "run_dec op m = Some m' \<Longrightarrow> length m' = length m \<and>
      (\<forall>k. \<not> (unat (fv_offset op) \<le> k \<and> k < unat (fv_offset op) + LENGTH('a) div 8) \<longrightarrow> m' ! k = m ! k)"
    and "run_inc_step_int st m = Some m' \<Longrightarrow> length m' = length m \<and>
      (\<forall>k. \<not> (unat (fv_offset st) \<le> k \<and> k < unat (fv_offset st) + LENGTH('b) div 8) \<longrightarrow> m' ! k = m ! k)"
    and "run_dec_step_int st m = Some m' \<Longrightarrow> length m' = length m \<and>
      (\<forall>k. \<not> (unat (fv_offset st) \<le> k \<and> k < unat (fv_offset st) + LENGTH('b) div 8) \<longrightarrow> m' ! k = m ! k)"
    and "run_inc_step_word st m = Some m' \<Longrightarrow> length m' = length m \<and>
      (\<forall>k. \<not> (unat (fv_offset st) \<le> k \<and> k < unat (fv_offset st) + LENGTH('b) div 8) \<longrightarrow> m' ! k = m ! k)"
    and "run_dec_step_word st m = Some m' \<Longrightarrow> length m' = length m \<and>
      (\<forall>k. \<not> (unat (fv_offset st) \<le> k \<and> k < unat (fv_offset st) + LENGTH('b) div 8) \<longrightarrow> m' ! k = m ! k)"
    and "run_client cl m = Some m' \<Longrightarrow> length m' = length m \<and>
      (\<forall>k. \<not> (unat (cl_flow_offset cl) \<le> k \<and> k < unat (cl_flow_offset cl) + 10) \<longrightarrow> m' ! k = m ! k)"
    and "run_client_unlimit cu m = Some m' \<Longrightarrow> length m' = length m \<and>
      (\<forall>k. \<not> (unat (cu_flow_offset cu) \<le> k \<and> k < unat (cu_flow_offset cu) + 10) \<longrightarrow> m' ! k = m ! k)"
  unfolding run_inc_def run_dec_def run_inc_step_int_def run_dec_step_int_def run_inc_step_word_def run_dec_step_word_def
    run_client_def run_client_unlimit_def
  by (erule upd_var_keeps upd_client_keeps)+

lemma with_flow_var_keeps:
  "with_flow_var f s = Some s' \<Longrightarrow> (\<And>m'. f (vr_flow_var s) = Some m' \<Longrightarrow> length m' = length (vr_flow_var s) \<and> (\<forall>k. \<not> P k \<longrightarrow> m' ! k = vr_flow_var s ! k)) \<Longrightarrow>
   length (vr_flow_var s') = length (vr_flow_var s) \<and> (\<forall>k. \<not> P k \<longrightarrow> vr_flow_var s' ! k = vr_flow_var s ! k)"
  by (auto simp: with_flow_var_def bind_eq_Some_conv)

lemma with_pkt_keeps:
  "with_pkt f s = Some s' \<Longrightarrow> length (vr_flow_var s') = length (vr_flow_var s) \<and> (\<forall>k. \<not> P k \<longrightarrow> vr_flow_var s' ! k = vr_flow_var s ! k)"
  by (auto simp: with_pkt_def bind_eq_Some_conv)

lemma exec_ins_touches:
  assumes "exec_ins c s = Some s'"
  shows "length (vr_flow_var s') = length (vr_flow_var s) \<and> (\<forall>k. \<not> touches c k \<longrightarrow> vr_flow_var s' ! k = vr_flow_var s ! k)"
  using assms
proof (cases c)
  case (itPKT_SIZE_CHANGE op)
  then show ?thesis using assms by (auto simp: bind_eq_Some_conv)
qed (simp only: exec_ins.simps touches.simps;
  (erule with_pkt_keeps | (erule with_flow_var_keeps, drule run_var_keeps run_rand_keeps run_rand_32_keeps run_rand_64_keeps, simp)))+

lemma exec_all_touches:
  "exec_all cs s = Some s' \<Longrightarrow> length (vr_flow_var s') = length (vr_flow_var s) \<and>
     (\<forall>k. (\<forall>c\<in>set cs. \<not> touches c k) \<longrightarrow> vr_flow_var s' ! k = vr_flow_var s ! k)"
proof (induction cs arbitrary: s)
  case (Cons c cs)
  then obtain s1 where s1: "exec_ins c s = Some s1" "exec_all cs s1 = Some s'" by (auto simp: bind_eq_Some_conv)
  show ?case using exec_ins_touches [OF s1(1)] Cons.IH [OF s1(2)] by auto
qed simp

section \<open>The variables of an instruction\<close>

definition var_names :: "vm_ins \<Rightarrow> string list" where
  "var_names i = (case i of FlowMan m \<Rightarrow> [fm_var_name m]
   | FlowClient c \<Rightarrow> [fc_var_name c @ ''.ip'', fc_var_name c @ ''.port'', fc_var_name c @ ''.flow_limit''] | _ \<Rightarrow> [])"

lemma names_entries: "names (entries k cur i) = var_names i"
  by (cases i) (simp_all add: entries_def var_names_def)

lemma names_all_entries: "names (all_entries k cur insts) = concat (map var_names insts)"
  by (induction insts arbitrary: k cur) (simp_all add: names_entries)

text \<open>The bytes of a variable.\<close>

definition var_at :: "stream_vm \<Rightarrow> string \<Rightarrow> nat \<Rightarrow> bool" where
  "var_at vm n k \<longleftrightarrow> (\<exists>r. m_flow_var_offset vm n = Some r \<and> rec_offset r \<le> k \<and> k < rec_offset r + unat (rec_size r))"

lemma var_at_disjoint: "compiled vm \<Longrightarrow> var_at vm n k \<Longrightarrow> var_at vm n' k \<Longrightarrow> n = n'"
  using compiled_disjoint [of vm n _ n'] by (fastforce simp: var_at_def)

lemma random_at:
  assumes "compiled vm" and "m_is_random_var vm" and "k < 4"
  shows "var_at vm ''___random___'' k"
proof -
  have "(''___random___'', \<lparr>rec_offset = 0, rec_ins = None, rec_size = 4\<rparr>) \<in> set (vm_entries vm)" using assms(2) by (simp add: random_entries_def)
  then have "map_of (vm_entries vm) ''___random___'' = Some \<lparr>rec_offset = 0, rec_ins = None, rec_size = 4\<rparr>"
    using assms(1) by (intro map_of_is_SomeI) (simp_all only: compiled_def)
  then show ?thesis using assms(1,3) by (simp add: var_at_def compiled_def)
qed

lemma generates_touches:
  assumes "compiled vm" and "random_flag vm" and "i \<in> set (m_inst_list vm)" and "generates vm i (cmds, field)" and "c \<in> set cmds" and "touches c k"
  shows "\<exists>n. (n \<in> set (var_names i) \<or> n = ''___random___'' \<and> m_is_random_var vm) \<and> var_at vm n k"
proof (cases i)
  case (FlowMan m)
  obtain off where off: "get_var_offset vm (fm_var_name m) = Ok off" "cmds = flow_var_cmd off m"
    using assms(4) by (auto simp: FlowMan generates_def gen_ins_def obind_Ok)
  obtain bss where bss: "m_bss vm = Some bss" using compiled_bss(2) [OF assms(1)] by blast
  obtain r where r: "m_flow_var_offset vm (fm_var_name m) = Some r" "rec_size r = fm_size_bytes m" "valid_size (fm_size_bytes m)"
    using compiled_FlowMan [OF assms(1) _ bss] assms(3) FlowMan by blast
  have o: "unat off = rec_offset r" using get_var_offset_Ok [OF assms(1) off(1)] r(1) by auto
  have "unat off \<le> k \<and> k < unat off + unat (fm_size_bytes m) \<or> k < 4 \<and> fm_op m = FLOW_VAR_OP_RANDOM"
    using assms(5,6) r(3) unfolding off(2) flow_var_cmd_def valid_size_def by (cases "fm_op m") (auto simp: Let_def split: if_splits)
  then show ?thesis
  proof
    assume "unat off \<le> k \<and> k < unat off + unat (fm_size_bytes m)"
    then have "var_at vm (fm_var_name m) k" using r o by (simp add: var_at_def)
    then show ?thesis by (auto simp: FlowMan var_names_def)
  next
    assume k: "k < 4 \<and> fm_op m = FLOW_VAR_OP_RANDOM"
    then have "m_is_random_var vm" using assms(2,3) FlowMan by (auto simp: random_flag_def)
    then show ?thesis using random_at [OF assms(1)] k by blast
  qed
next
  case (FlowClient cl)
  obtain off where off: "get_var_offset vm (fc_var_name cl @ ''.ip'') = Ok off" "cmds = [client_cmd off cl]"
    using assms(4) by (auto simp: FlowClient generates_def gen_ins_def obind_Ok)
  obtain j where j: "j < length (m_inst_list vm)" "m_inst_list vm ! j = FlowClient cl"
    using assms(3) FlowClient by (auto simp: in_set_conv_nth)
  define cur where "cur = first_var vm + sum_list (map var_bytes (take j (m_inst_list vm)))"
  have e: "m_flow_var_offset vm (fc_var_name cl @ ''.ip'') = Some \<lparr>rec_offset = cur, rec_ins = Some j, rec_size = 4\<rparr>"
      "m_flow_var_offset vm (fc_var_name cl @ ''.port'') = Some \<lparr>rec_offset = cur + 4, rec_ins = Some j, rec_size = 2\<rparr>"
      "m_flow_var_offset vm (fc_var_name cl @ ''.flow_limit'') = Some \<lparr>rec_offset = cur + 6, rec_ins = Some j, rec_size = 4\<rparr>"
    by (rule compiled_entry [OF assms(1) j(1)], simp add: j(2) entries_def cur_def)+
  have "unat off = cur" using get_var_offset_Ok [OF assms(1) off(1)] e(1) by auto
  then have "cur \<le> k \<and> k < cur + 10" using assms(5,6) unfolding off(2) client_cmd_def by (auto split: if_splits)
  then consider "cur \<le> k \<and> k < cur + 4" | "cur + 4 \<le> k \<and> k < cur + 6" | "cur + 6 \<le> k \<and> k < cur + 10" by linarith
  then show ?thesis
  proof cases
    case 1
    then have "var_at vm (fc_var_name cl @ ''.ip'') k" using e(1) by (simp add: var_at_def)
    then show ?thesis by (auto simp: FlowClient var_names_def)
  next
    case 2
    then have "var_at vm (fc_var_name cl @ ''.port'') k" using e(2) by (simp add: var_at_def)
    then show ?thesis by (auto simp: FlowClient var_names_def)
  next
    case 3
    then have "var_at vm (fc_var_name cl @ ''.flow_limit'') k" using e(3) by (simp add: var_at_def)
    then show ?thesis by (auto simp: FlowClient var_names_def)
  qed
qed (use assms(4-6) in \<open>auto simp: generates_def gen_ins_def gen_fix_def write_cmd_def write_mask_cmd_def Let_def split: option.splits if_splits\<close>)

section \<open>One variable over one run\<close>

lemma generates_map:
  assumes "list_all2 (generates vm) is' cs" and "c \<in> set (concat (map fst cs))"
  shows "\<exists>i\<in>set is'. \<exists>cmds field. generates vm i (cmds, field) \<and> c \<in> set cmds"
  using assms by (induction is' cs rule: list_all2_induct) force+

lemma ins_split:
  assumes "compiled vm" and "random_flag vm" and "i \<in> set (m_inst_list vm)"
  shows "\<exists>pre cmds field post. m_instructions vm = concat (map encode_ins (pre @ cmds @ post)) \<and> generates vm i (cmds, field) \<and>
    (\<forall>c\<in>set pre \<union> set post. \<forall>n\<in>set (var_names i). \<forall>k. var_at vm n k \<longrightarrow> \<not> touches c k)"
proof -
  obtain as bs where ab: "m_inst_list vm = as @ i # bs" using assms(3) by (meson split_list)
  obtain css where css: "list_all2 (generates vm) (m_inst_list vm) css" "m_instructions vm = concat (map encode_ins (concat (map fst css)))"
    using assms(1) by (auto simp: compiled_def)
  obtain ca cm cb where c: "css = ca @ cm # cb" "list_all2 (generates vm) as ca" "generates vm i cm" "list_all2 (generates vm) bs cb"
    using css(1) unfolding ab by (auto simp: list_all2_append1 list_all2_Cons1)
  have dist: "distinct (names (random_entries (m_is_random_var vm)) @ concat (map var_names as) @ var_names i @ concat (map var_names bs))"
  proof -
    have "distinct (names (vm_entries vm))" using assms(1) by (simp only: compiled_def)
    then show ?thesis by (simp add: names_all_entries ab)
  qed
  have quiet: "\<not> touches d k" if d: "d \<in> set (concat (map fst ca)) \<union> set (concat (map fst cb))"
    and n: "n \<in> set (var_names i)" "var_at vm n k" for d n k
  proof
    assume t: "touches d k"
    obtain j cmds field where j: "j \<in> set as \<union> set bs" "generates vm j (cmds, field)" "d \<in> set cmds"
      using d generates_map [OF c(2), of d] generates_map [OF c(4), of d] by blast
    have mem: "j \<in> set (m_inst_list vm)" using j(1) ab by auto
    obtain n' where n': "n' \<in> set (var_names j) \<or> n' = ''___random___'' \<and> m_is_random_var vm" "var_at vm n' k"
      using generates_touches [OF assms(1,2) mem j(2,3) t] by blast
    then have "n' = n" using var_at_disjoint [OF assms(1)] n(2) by blast
    then show False using n'(1) n(1) j(1) dist by (auto simp: random_entries_def)
  qed
  have "generates vm i (fst cm, snd cm)" using c(3) by simp
  moreover have "m_instructions vm = concat (map encode_ins (concat (map fst ca) @ fst cm @ concat (map fst cb)))" using css(2) c(1) by simp
  ultimately show ?thesis using quiet by blast
qed

lemma FlowMan_split:
  assumes "compiled vm" and "random_flag vm" and "FlowMan m \<in> set (m_inst_list vm)" and "m_flow_var_offset vm (fm_var_name m) = Some r"
  shows "\<exists>pre off post. m_instructions vm = concat (map encode_ins (pre @ flow_var_cmd off m @ post)) \<and> unat off = rec_offset r \<and>
    (\<forall>c\<in>set pre \<union> set post. \<forall>k. rec_offset r \<le> k \<and> k < rec_offset r + unat (rec_size r) \<longrightarrow> \<not> touches c k)"
proof -
  obtain pre cmds field post where s: "m_instructions vm = concat (map encode_ins (pre @ cmds @ post))" "generates vm (FlowMan m) (cmds, field)"
      "\<forall>c\<in>set pre \<union> set post. \<forall>k. var_at vm (fm_var_name m) k \<longrightarrow> \<not> touches c k"
    using ins_split [OF assms(1-3)] by (fastforce simp: var_names_def)
  obtain off where off: "get_var_offset vm (fm_var_name m) = Ok off" "cmds = flow_var_cmd off m"
    using s(2) by (auto simp: generates_def gen_ins_def obind_Ok)
  have "unat off = rec_offset r" using get_var_offset_Ok [OF assms(1) off(1)] assms(4) by auto
  moreover have "var_at vm (fm_var_name m) k" if "rec_offset r \<le> k \<and> k < rec_offset r + unat (rec_size r)" for k
    using that assms(4) by (simp add: var_at_def)
  ultimately show ?thesis using s(1,3) off(2) by blast
qed

text \<open>
  A variable is what \<open>read\<close> finds in the bytes from \<open>off\<close> on; its commands \<open>cmd\<close> apply \<open>f\<close> to it, and the
  others leave its bytes alone.
\<close>

definition reads_at :: "(u8 list \<Rightarrow> 'x option) \<Rightarrow> nat \<Rightarrow> nat \<Rightarrow> bool" where
  "reads_at read off len \<longleftrightarrow> (\<forall>m m'. length m = length m' \<and> (\<forall>k. off \<le> k \<and> k < off + len \<longrightarrow> m ! k = m' ! k) \<longrightarrow> read m = read m')"

definition applies :: "dp_ins list \<Rightarrow> (u8 list \<Rightarrow> 'x option) \<Rightarrow> ('x \<Rightarrow> 'x) \<Rightarrow> bool" where
  "applies cmd read f \<longleftrightarrow>
     (\<forall>s s' x. exec_all cmd s = Some s' \<and> read (vr_flow_var s) = Some x \<longrightarrow> read (vr_flow_var s') = Some (f x))"

lemma var_one_run:
  assumes "reads_at read off len" and "applies cmd read f"
    and "\<forall>c\<in>set pre \<union> set post. \<forall>k. off \<le> k \<and> k < off + len \<longrightarrow> \<not> touches c k"
    and "read (vr_flow_var s) = Some x" and "exec_all (pre @ cmd @ post) s = Some s'"
  shows "read (vr_flow_var s') = Some (f x)"
proof -
  obtain s1 s2 where s: "exec_all pre s = Some s1" "exec_all cmd s1 = Some s2" "exec_all post s2 = Some s'"
    using assms(5) by (auto simp: exec_all_append bind_eq_Some_conv)
  have "read (vr_flow_var s1) = read (vr_flow_var s)"
    using exec_all_touches [OF s(1)] assms(1,3) by (simp add: reads_at_def)
  then have "read (vr_flow_var s2) = Some (f x)" using s(2) assms(2,4) by (simp add: applies_def)
  moreover have "read (vr_flow_var s') = read (vr_flow_var s2)"
    using exec_all_touches [OF s(3)] assms(1,3) by (simp add: reads_at_def)
  ultimately show ?thesis by simp
qed

lemma reads_word: "reads_at (\<lambda>m. mem_get m off :: 'a::len word option) off (LENGTH('a) div 8)"
  unfolding reads_at_def by (intro allI impI mem_get_cong) auto

lemma applies_word:
  fixes f :: "'a::len word \<Rightarrow> 'a word"
  assumes "byte_width TYPE('a)" and "exec_all cmd = with_flow_var (upd_var off f)"
  shows "applies cmd (\<lambda>m. mem_get m off :: 'a word option) f"
  unfolding applies_def
proof (intro allI impI)
  fix s s' and x :: "'a word" assume "exec_all cmd s = Some s' \<and> mem_get (vr_flow_var s) off = Some x"
  then have "mem_put (vr_flow_var s) off (f x) = Some (vr_flow_var s')"
    unfolding assms(2) by (auto simp: with_flow_var_def upd_var_def bind_eq_Some_conv)
  then show "mem_get (vr_flow_var s') off = Some (f x)" by (rule mem_get_put [OF assms(1)])
qed

section \<open>A variable over many packets\<close>

text \<open>The flow variables after the program has run over the buffers one after the other.\<close>

fun run_packets :: "u8 list \<Rightarrow> u8 list list \<Rightarrow> u8 list \<Rightarrow> u8 list option" where
  "run_packets program [] flow_var = Some flow_var"
| "run_packets program (buf # bufs) flow_var = do {
     s \<leftarrow> run_program program \<lparr>vr_flow_var = flow_var, vr_pkt = buf, vr_new_pkt_size = 0\<rparr>;
     run_packets program bufs (vr_flow_var s) }"

lemma run_packets_ok:
  assumes "vm_compile rnd pkt vm = Ok (vm', Some dp)" and "random_flag vm" and "vm_ok vm'"
    and "\<forall>buf\<in>set bufs. dp_max_pkt_offset_change dp \<le> length buf \<and> same_headers vm' pkt buf" and "length fv = length (dp_bss dp)"
  shows "\<exists>fv'. run_packets (dp_program dp) bufs fv = Some fv' \<and> length fv' = length (dp_bss dp)"
  using assms(4,5)
proof (induction bufs arbitrary: fv)
  case (Cons buf bufs)
  obtain s where s: "run_program (dp_program dp) \<lparr>vr_flow_var = fv, vr_pkt = buf, vr_new_pkt_size = 0\<rparr> = Some s"
      "length (vr_flow_var s) = length (dp_bss dp)"
    using vm_compile_run [OF assms(1-3) Cons.prems(2)] Cons.prems(1) by (meson list.set_intros(1))
  show ?case using Cons.IH [of "vr_flow_var s"] Cons.prems(1) s by simp
qed simp

lemma var_many_runs:
  assumes "reads_at read off len" and "applies cmd read f"
    and "\<forall>c\<in>set pre \<union> set post. \<forall>k. off \<le> k \<and> k < off + len \<longrightarrow> \<not> touches c k"
    and "read fv = Some x" and "run_packets (concat (map encode_ins (pre @ cmd @ post))) bufs fv = Some fv'"
  shows "read fv' = Some ((f ^^ length bufs) x)"
  using assms(4,5)
proof (induction bufs arbitrary: fv x)
  case (Cons buf bufs)
  obtain s where s: "exec_all (pre @ cmd @ post) \<lparr>vr_flow_var = fv, vr_pkt = buf, vr_new_pkt_size = 0\<rparr> = Some s"
      "run_packets (concat (map encode_ins (pre @ cmd @ post))) bufs (vr_flow_var s) = Some fv'"
    using Cons.prems(2) by (auto simp: bind_eq_Some_conv run_program_encode simp del: concat.simps list.map map_append concat_append)
  have "read (vr_flow_var s) = Some (f x)" using var_one_run [OF assms(1-3) _ s(1)] Cons.prems(1) by simp
  then show ?case using Cons.IH [OF _ s(2)] by (simp add: funpow_swap1)
qed simp

lemma get_le_nat:
  assumes "byte_width TYPE('a::len)" and "mem_get m off = Some (w :: 'a word)"
  shows "le_nat (take (LENGTH('a) div 8) (drop off m)) = unat w"
proof -
  let ?bs = "take (LENGTH('a) div 8) (drop off m)"
  have "length ?bs = LENGTH('a) div 8" "w = word_of_bytes ?bs" using assms(2) by (auto simp: mem_get_def Let_def split: if_splits)
  moreover have "le_nat ?bs < 2 ^ LENGTH('a)" using le_nat_less [of ?bs] calculation(1) width_pow [OF assms(1)] by simp
  ultimately show ?thesis by (simp add: word_of_bytes_def unat_of_nat_less)
qed

section \<open>Counters\<close>

text \<open>The program of a VM, split at the commands of one of its variables.\<close>

lemma flow_var_program:
  assumes "vm_compile rnd pkt vm = Ok (vm', Some dp)" and "random_flag vm" and "vm_ok vm'" and "FlowMan m \<in> set (m_inst_list vm')"
    and "\<forall>buf\<in>set bufs. dp_max_pkt_offset_change dp \<le> length buf \<and> same_headers vm' pkt buf"
    and "byte_width TYPE('a::len)" and "unat (fm_size_bytes m) = LENGTH('a) div 8"
  obtains r pre off post fv where "m_flow_var_offset vm' (fm_var_name m) = Some r" "rec_size r = fm_size_bytes m"
    "dp_program dp = concat (map encode_ins (pre @ flow_var_cmd off m @ post))" "unat off = rec_offset r"
    "\<forall>c\<in>set pre \<union> set post. \<forall>k. rec_offset r \<le> k \<and> k < rec_offset r + LENGTH('a) div 8 \<longrightarrow> \<not> touches c k"
    "run_packets (dp_program dp) bufs (dp_bss dp) = Some fv"
    "mem_get (dp_bss dp) (rec_offset r) = Some (ucast (get_bss_init_value m) :: 'a word)"
proof -
  obtain vm1 where vm1: "vm' = vm1\<lparr>m_pkt := None\<rparr>" "compiled vm1" "list_all2 same_var (m_inst_list vm) (m_inst_list vm1)"
      "m_is_random_var vm1 = m_is_random_var vm" "m_bss vm1 = Some (dp_bss dp)" "dp_program dp = m_instructions vm1"
    using vm_compile_Some [OF assms(1)] assms(3) by metis
  have flag: "random_flag vm1" by (rule random_flag_same [OF vm1(3,4) assms(2)])
  have mem: "FlowMan m \<in> set (m_inst_list vm1)" using assms(4) unfolding vm1(1) by simp
  obtain r where r: "m_flow_var_offset vm1 (fm_var_name m) = Some r" "rec_size r = fm_size_bytes m"
      "take (unat (rec_size r)) (drop (rec_offset r) (dp_bss dp)) = le_bytes (unat (rec_size r)) (unat (get_bss_init_value m))"
    using compiled_FlowMan [OF vm1(2) mem vm1(5)] by blast
  have len: "unat (rec_size r) = LENGTH('a) div 8" using r(2) assms(7) by simp
  obtain pre off post where p: "m_instructions vm1 = concat (map encode_ins (pre @ flow_var_cmd off m @ post))" "unat off = rec_offset r"
      "\<forall>c\<in>set pre \<union> set post. \<forall>k. rec_offset r \<le> k \<and> k < rec_offset r + unat (rec_size r) \<longrightarrow> \<not> touches c k"
    using FlowMan_split [OF vm1(2) flag mem r(1)] by blast
  obtain fv where fv: "run_packets (dp_program dp) bufs (dp_bss dp) = Some fv"
    using run_packets_ok [OF assms(1-3,5)] by blast
  have room: "rec_offset r + LENGTH('a) div 8 \<le> length (dp_bss dp)"
    using compiled_lookup [OF vm1(2) r(1)] compiled_bss(2) [OF vm1(2)] vm1(5) len by auto
  have "le_bytes (LENGTH('a) div 8) (unat (get_bss_init_value m)) = bytes_of (ucast (get_bss_init_value m) :: 'a word)"
    by (rule bytes_of_ucast [OF assms(6), symmetric])
  then have init: "mem_get (dp_bss dp) (rec_offset r) = Some (ucast (get_bss_init_value m) :: 'a word)"
    using room r(3) assms(6) unfolding len by (simp add: mem_get_Some)
  have r': "m_flow_var_offset vm' (fm_var_name m) = Some r" using r(1) by (simp add: vm1(1))
  show thesis by (rule that [OF r' r(2) _ p(2) _ fv init]) (use p(1,3) len vm1(6) in simp_all)
qed

lemma flow_var_runs:
  fixes f :: "'a::len word \<Rightarrow> 'a word"
  assumes "vm_compile rnd pkt vm = Ok (vm', Some dp)" and "random_flag vm" and "vm_ok vm'" and "FlowMan m \<in> set (m_inst_list vm')"
    and "\<forall>buf\<in>set bufs. dp_max_pkt_offset_change dp \<le> length buf \<and> same_headers vm' pkt buf"
    and "byte_width TYPE('a)" and "unat (fm_size_bytes m) = LENGTH('a) div 8"
    and "\<And>off. exec_all (flow_var_cmd off m) = with_flow_var (upd_var (unat off) f)"
  shows "\<exists>r fv. m_flow_var_offset vm' (fm_var_name m) = Some r \<and> rec_size r = fm_size_bytes m \<and>
    run_packets (dp_program dp) bufs (dp_bss dp) = Some fv \<and>
    le_nat (take (unat (rec_size r)) (drop (rec_offset r) fv)) = unat ((f ^^ length bufs) (ucast (get_bss_init_value m)))"
proof (rule flow_var_program [OF assms(1-7)])
  fix r pre off post fv
  assume p: "m_flow_var_offset vm' (fm_var_name m) = Some r" "rec_size r = fm_size_bytes m"
    "dp_program dp = concat (map encode_ins (pre @ flow_var_cmd off m @ post))" "unat off = rec_offset r"
    "\<forall>c\<in>set pre \<union> set post. \<forall>k. rec_offset r \<le> k \<and> k < rec_offset r + LENGTH('a) div 8 \<longrightarrow> \<not> touches c k"
    "run_packets (dp_program dp) bufs (dp_bss dp) = Some fv"
    "mem_get (dp_bss dp) (rec_offset r) = Some (ucast (get_bss_init_value m) :: 'a word)"
  have "mem_get fv (rec_offset r) = Some ((f ^^ length bufs) (ucast (get_bss_init_value m)))"
    using var_many_runs [OF reads_word applies_word [OF assms(6,8)] _ _ p(6) [unfolded p(3)]] p(4,5,7) by simp
  then have "le_nat (take (LENGTH('a) div 8) (drop (rec_offset r) fv)) = unat ((f ^^ length bufs) (ucast (get_bss_init_value m)))"
    by (rule get_le_nat [OF assms(6)])
  then show ?thesis using p(1,2,6) assms(7) by simp
qed

lemma uint_ucast_small:
  assumes "unat (x :: u64) < 256 ^ (LENGTH('a) div 8)" and "byte_width TYPE('a::len)"
  shows "uint (ucast x :: 'a word) = uint x"
proof -
  have "unat (ucast x :: 'a word) = unat x mod 2 ^ LENGTH('a)" by (simp add: unsigned_ucast_eq take_bit_eq_mod)
  then have "unat (ucast x :: 'a word) = unat x" using assms width_pow [OF assms(2)] by simp
  then show ?thesis by (simp only: uint_nat)
qed

lemma exec_all_one: "exec_all [c] = exec_ins c"
proof
  fix s show "exec_all [c] s = exec_ins c s" by (cases "exec_ins c s") simp_all
qed

definition counter_val :: "ins_flow_man \<Rightarrow> 'a::len word \<Rightarrow> 'a word" where
  "counter_val m = (if fm_op m = FLOW_VAR_OP_INC then inc_val (ucast (fm_min_value m)) (ucast (fm_max_value m))
     else dec_val (ucast (fm_min_value m)) (ucast (fm_max_value m)))"

lemma counter_cmd:
  assumes "fm_step m = 1" and "fm_op m \<noteq> FLOW_VAR_OP_RANDOM"
  shows "fm_size_bytes m = 1 \<Longrightarrow> exec_all (flow_var_cmd off m) = with_flow_var (upd_var (unat off) (counter_val m :: u8 \<Rightarrow> u8))"
    "fm_size_bytes m = 2 \<Longrightarrow> exec_all (flow_var_cmd off m) = with_flow_var (upd_var (unat off) (counter_val m :: u16 \<Rightarrow> u16))"
    "fm_size_bytes m = 4 \<Longrightarrow> exec_all (flow_var_cmd off m) = with_flow_var (upd_var (unat off) (counter_val m :: u32 \<Rightarrow> u32))"
    "fm_size_bytes m = 8 \<Longrightarrow> exec_all (flow_var_cmd off m) = with_flow_var (upd_var (unat off) (counter_val m :: u64 \<Rightarrow> u64))"
  using assms by (cases "fm_op m"; simp add: flow_var_cmd_def counter_val_def Let_def exec_all_one run_inc_def run_dec_def del: exec_all.simps)+

text \<open>The value of a counter after \<open>n\<close> packets.\<close>

definition counter_spec :: "ins_flow_man \<Rightarrow> nat \<Rightarrow> int" where
  "counter_spec m n = (let mn = uint (fm_min_value m); mx = uint (fm_max_value m); init = uint (fm_init_value m) in
     if fm_op m = FLOW_VAR_OP_INC then mn + (init - mn + int n - 1) mod (mx - mn + 1)
     else mx - (mx - init + int n - 1) mod (mx - mn + 1))"

lemma mod_range_pred: "(hi - lo + x) mod (hi - lo + 1) = (x - 1) mod (hi - lo + 1)" for hi lo x :: int
proof -
  have "hi - lo + x = (x - 1) + (hi - lo + 1)" by simp
  then show ?thesis by (simp only: mod_add_self2)
qed

lemma counter_steps:
  assumes "byte_width TYPE('a::len)" and "unat (fm_max_value m) < 256 ^ (LENGTH('a) div 8)" and "fm_op m \<noteq> FLOW_VAR_OP_RANDOM"
    and "fm_min_value m \<le> fm_init_value m" and "fm_init_value m \<le> fm_max_value m"
  shows "uint (((counter_val m :: 'a word \<Rightarrow> 'a word) ^^ n) (ucast (get_bss_init_value m))) = counter_spec m n"
proof -
  let ?mn = "fm_min_value m" and ?mx = "fm_max_value m" and ?init = "fm_init_value m"
  have le: "uint ?mn \<le> uint ?init" "uint ?init \<le> uint ?mx" using assms(4,5) by (simp_all add: word_le_def)
  have small: "uint (ucast x :: 'a word) = uint x" if "uint x \<le> uint ?mx" for x :: u64
  proof (rule uint_ucast_small [OF _ assms(1)])
    have "unat x \<le> unat ?mx" using that by (simp only: uint_nat of_nat_le_iff)
    then show "unat x < 256 ^ (LENGTH('a) div 8)" using assms(2) by simp
  qed
  have mn: "uint (ucast ?mn :: 'a word) = uint ?mn" "uint (ucast ?mx :: 'a word) = uint ?mx"
    by (rule small; use le in linarith)+
  define p where "p = get_bss_init_value m"
  show ?thesis
  proof (cases "fm_op m")
    case FLOW_VAR_OP_INC
    have p: "uint ?mn \<le> uint p \<and> uint p \<le> uint ?mx \<and> (uint p - uint ?mn + int n) mod (uint ?mx - uint ?mn + 1) =
        (uint ?init - uint ?mn + int n - 1) mod (uint ?mx - uint ?mn + 1)"
    proof (cases "?init = ?mn")
      case True
      then have "p = ?mx" using FLOW_VAR_OP_INC by (simp add: p_def get_bss_init_value_def)
      then show ?thesis using True le mod_range_pred [of "uint ?mx" "uint ?mn" "int n"] by simp
    next
      case False
      then have "p = ?init - 1" using FLOW_VAR_OP_INC by (simp add: p_def get_bss_init_value_def)
      moreover have "uint ?mn < uint ?init" using le(1) False by (simp add: word_uint_eq_iff)
      ultimately have p: "uint p = uint ?init - 1" "uint ?mn < uint ?init" using uint_greater_pred by simp_all
      then have eq: "uint p - uint ?mn + int n = uint ?init - uint ?mn + int n - 1" by simp
      show ?thesis unfolding eq using p le by simp
    qed
    show ?thesis
      using inc.steps [of "ucast ?mn :: 'a word" "ucast ?mx" "ucast p" n] small [of p] mn p FLOW_VAR_OP_INC
      by (simp add: counter_val_def counter_spec_def p_def Let_def between_def)
  next
    case FLOW_VAR_OP_DEC
    have p: "uint ?mn \<le> uint p \<and> uint p \<le> uint ?mx \<and> (uint ?mx - uint p + int n) mod (uint ?mx - uint ?mn + 1) =
        (uint ?mx - uint ?init + int n - 1) mod (uint ?mx - uint ?mn + 1)"
    proof (cases "?init = ?mx")
      case True
      then have "p = ?mn" using FLOW_VAR_OP_DEC by (simp add: p_def get_bss_init_value_def)
      then show ?thesis using True le mod_range_pred [of "uint ?mx" "uint ?mn" "int n"] by simp
    next
      case False
      then have "p = ?init + 1" using FLOW_VAR_OP_DEC by (simp add: p_def get_bss_init_value_def)
      moreover have "uint ?init < uint ?mx" using le(2) False by (simp add: word_uint_eq_iff)
      ultimately have p: "uint p = uint ?init + 1" "uint ?init < uint ?mx" using uint_less_Suc by simp_all
      then have eq: "uint ?mx - uint p + int n = uint ?mx - uint ?init + int n - 1" by simp
      show ?thesis unfolding eq using p le by simp
    qed
    show ?thesis
      using dec.steps [of "ucast ?mn :: 'a word" "ucast ?mx" "ucast p" n] small [of p] mn p FLOW_VAR_OP_DEC
      by (simp add: counter_val_def counter_spec_def p_def Let_def between_def)
  qed (use assms(3) in simp)
qed

lemma counter_value_width:
  assumes "vm_compile rnd pkt vm = Ok (vm', Some dp)" and "random_flag vm" and "vm_ok vm'" and "FlowMan m \<in> set (m_inst_list vm')"
    and "\<forall>buf\<in>set bufs. dp_max_pkt_offset_change dp \<le> length buf \<and> same_headers vm' pkt buf"
    and "fm_op m \<noteq> FLOW_VAR_OP_RANDOM" and "unat (fm_max_value m) < 256 ^ unat (fm_size_bytes m)"
    and "fm_min_value m \<le> fm_init_value m" and "fm_init_value m \<le> fm_max_value m"
    and "byte_width TYPE('a::len)" and "unat (fm_size_bytes m) = LENGTH('a) div 8"
    and "\<And>off. exec_all (flow_var_cmd off m) = with_flow_var (upd_var (unat off) (counter_val m :: 'a word \<Rightarrow> 'a word))"
  shows "\<exists>r fv. m_flow_var_offset vm' (fm_var_name m) = Some r \<and> rec_size r = fm_size_bytes m \<and>
    run_packets (dp_program dp) bufs (dp_bss dp) = Some fv \<and>
    int (le_nat (take (unat (rec_size r)) (drop (rec_offset r) fv))) = counter_spec m (length bufs)"
proof -
  obtain r fv where *: "m_flow_var_offset vm' (fm_var_name m) = Some r" "rec_size r = fm_size_bytes m"
      "run_packets (dp_program dp) bufs (dp_bss dp) = Some fv"
      "le_nat (take (unat (rec_size r)) (drop (rec_offset r) fv)) =
         unat (((counter_val m :: 'a word \<Rightarrow> 'a word) ^^ length bufs) (ucast (get_bss_init_value m)))"
    using flow_var_runs [OF assms(1-5,10-12)] by blast
  have "uint (((counter_val m :: 'a word \<Rightarrow> 'a word) ^^ length bufs) (ucast (get_bss_init_value m))) = counter_spec m (length bufs)"
    by (rule counter_steps [OF assms(10) _ assms(6,8,9)]) (use assms(7,11) in simp)
  then have "int (le_nat (take (unat (rec_size r)) (drop (rec_offset r) fv))) = counter_spec m (length bufs)"
    unfolding *(4) by (simp only: uint_nat)
  with *(1-3) show ?thesis by blast
qed

lemma counter_values:
  assumes "vm_compile rnd pkt vm = Ok (vm', Some dp)" and "random_flag vm" and "vm_ok vm'" and "FlowMan m \<in> set (m_inst_list vm')"
    and "\<forall>buf\<in>set bufs. dp_max_pkt_offset_change dp \<le> length buf \<and> same_headers vm' pkt buf"
    and "fm_step m = 1" and "fm_op m \<noteq> FLOW_VAR_OP_RANDOM" and "unat (fm_max_value m) < 256 ^ unat (fm_size_bytes m)"
    and "fm_min_value m \<le> fm_init_value m" and "fm_init_value m \<le> fm_max_value m"
  shows "\<exists>r fv. m_flow_var_offset vm' (fm_var_name m) = Some r \<and> rec_size r = fm_size_bytes m \<and>
    run_packets (dp_program dp) bufs (dp_bss dp) = Some fv \<and>
    int (le_nat (take (unat (rec_size r)) (drop (rec_offset r) fv))) = counter_spec m (length bufs)"
proof -
  obtain vm1 where vm1: "vm' = vm1\<lparr>m_pkt := None\<rparr>" "compiled vm1" using vm_compile_Some [OF assms(1)] by blast
  then have "valid_size (fm_size_bytes m)" using assms(4) by (fastforce simp: compiled_def size_ok_def)
  then consider "fm_size_bytes m = 1" | "fm_size_bytes m = 2" | "fm_size_bytes m = 4" | "fm_size_bytes m = 8" by (auto simp: valid_size_def)
  then show ?thesis
  proof cases
    case 1
    show ?thesis by (rule counter_value_width [OF assms(1-5,7-10) _ _ counter_cmd(1) [OF assms(6,7) 1]]) (use 1 in simp_all)
  next
    case 2
    show ?thesis by (rule counter_value_width [OF assms(1-5,7-10) _ _ counter_cmd(2) [OF assms(6,7) 2]]) (use 2 in simp_all)
  next
    case 3
    show ?thesis by (rule counter_value_width [OF assms(1-5,7-10) _ _ counter_cmd(3) [OF assms(6,7) 3]]) (use 3 in simp_all)
  next
    case 4
    show ?thesis by (rule counter_value_width [OF assms(1-5,7-10) _ _ counter_cmd(4) [OF assms(6,7) 4]]) (use 4 in simp_all)
  qed
qed

section \<open>Properties\<close>

text \<open>
  C10. A counter of step 1 whose initial value lies in a range that fits its size runs through its
  range in a circle, whatever the other instructions are: after the program has run over \<open>n\<close>
  packets the variable of an increasing counter is \<open>min + (init - min + n - 1) mod (max - min + 1)\<close>, so
  the first packet has the initial value, and a decreasing counter mirrors it. The program must have fewer
  than 64 KiB and satisfy the other conditions of \<open>vm_ok\<close>, and it runs over buffers that hold the
  fields that it writes, with the header lengths of the compiled packet.
\<close>

theorem vm_counter_values:
  assumes "vm_compile rnd pkt vm = Ok (vm', Some dp)" and "random_flag vm" and "vm_ok vm'" and "FlowMan m \<in> set (m_inst_list vm')"
    and "\<forall>buf\<in>set bufs. dp_max_pkt_offset_change dp \<le> length buf \<and> same_headers vm' pkt buf"
    and "fm_step m = 1" and "fm_op m \<noteq> FLOW_VAR_OP_RANDOM" and "unat (fm_max_value m) < 256 ^ unat (fm_size_bytes m)"
    and "fm_min_value m \<le> fm_init_value m" and "fm_init_value m \<le> fm_max_value m"
  shows "\<exists>r fv. m_flow_var_offset vm' (fm_var_name m) = Some r \<and> rec_size r = fm_size_bytes m \<and>
    run_packets (dp_program dp) bufs (dp_bss dp) = Some fv \<and>
    int (le_nat (take (unat (rec_size r)) (drop (rec_offset r) fv))) = counter_spec m (length bufs)"
  by (rule counter_values [OF assms])

lemma vm_counter_values_witness:
  "\<exists>r fv. m_flow_var_offset demo_compiled ''x'' = Some r \<and>
    run_packets (dp_program demo_dp) [demo_pkt, demo_pkt, demo_pkt, demo_pkt] (dp_bss demo_dp) = Some fv \<and>
    int (le_nat (take (unat (rec_size r)) (drop (rec_offset r) fv))) = 5"
proof -
  have mem: "FlowMan demo_counter \<in> set (m_inst_list demo_compiled)" by (simp add: demo_compiled_def demo_vm_simp)
  have bufs: "\<forall>buf\<in>set [demo_pkt, demo_pkt, demo_pkt, demo_pkt].
      dp_max_pkt_offset_change demo_dp \<le> length buf \<and> same_headers demo_compiled demo_pkt buf"
    using demo_ok(3) by (simp add: demo_dp_def demo_pkt_def demo_header_def)
  have m: "fm_step demo_counter = 1" "fm_op demo_counter \<noteq> FLOW_VAR_OP_RANDOM"
      "unat (fm_max_value demo_counter) < 256 ^ unat (fm_size_bytes demo_counter)" "fm_min_value demo_counter \<le> fm_init_value demo_counter"
      "fm_init_value demo_counter \<le> fm_max_value demo_counter" by (simp_all add: demo_counter_def)
  have "fm_var_name demo_counter = ''x''" "counter_spec demo_counter (length [demo_pkt, demo_pkt, demo_pkt, demo_pkt]) = 5"
    by (simp_all add: counter_spec_def demo_counter_def)
  then show ?thesis using vm_counter_values [OF demo_vm_compile demo_ok(1,2) mem bufs m] by metis
qed

end
