(* ===== verification/Vm_Client.thy ===== *)
theory Vm_Client
  imports Vm_Values
begin

text \<open>
  The client variable of a stream: an address, a port and a flow number. The pairs of address and
  port are counted with the address as the low digit; with a limit the flows start again at the
  first pair after the limit.
\<close>

section \<open>Pairs of address and port\<close>

definition tuple_val :: "u32 \<Rightarrow> u32 \<Rightarrow> u16 \<Rightarrow> u32 \<times> u16 \<Rightarrow> int" where
  "tuple_val min_ip max_ip min_port t =
     (uint (snd t) - uint min_port) * (uint max_ip - uint min_ip + 1) + (uint (fst t) - uint min_ip)"

definition tuples :: "u32 \<Rightarrow> u32 \<Rightarrow> u16 \<Rightarrow> u16 \<Rightarrow> int" where
  "tuples min_ip max_ip min_port max_port = (uint max_port - uint min_port + 1) * (uint max_ip - uint min_ip + 1)"

definition tuple_in :: "u32 \<Rightarrow> u32 \<Rightarrow> u16 \<Rightarrow> u16 \<Rightarrow> u32 \<times> u16 \<Rightarrow> bool" where
  "tuple_in min_ip max_ip min_port max_port t \<longleftrightarrow> between min_ip max_ip (fst t) \<and> between min_port max_port (snd t)"

definition tuple_next :: "u32 \<Rightarrow> u32 \<Rightarrow> u16 \<Rightarrow> u16 \<Rightarrow> u32 \<times> u16 \<Rightarrow> u32 \<times> u16" where
  "tuple_next min_ip max_ip min_port max_port t =
     (if fst t = max_ip then (min_ip, inc_val min_port max_port (snd t)) else (fst t + 1, snd t))"

interpretation tuple: circular_counter "tuple_next min_ip max_ip min_port max_port" "tuple_in min_ip max_ip min_port max_port"
  "tuple_val min_ip max_ip min_port" "tuples min_ip max_ip min_port max_port"
  for min_ip max_ip min_port max_port
proof
  fix t assume t: "tuple_in min_ip max_ip min_port max_port t"
  let ?R = "uint max_ip - uint min_ip + 1" and ?P = "uint max_port - uint min_port + 1"
  have ip: "uint min_ip \<le> uint (fst t)" "uint (fst t) \<le> uint max_ip" and port: "uint min_port \<le> uint (snd t)" "uint (snd t) \<le> uint max_port"
    using t by (simp_all add: tuple_in_def between_def)
  have R: "0 < ?R" using ip by simp
  let ?a = "uint (snd t) - uint min_port" and ?b = "uint (fst t) - uint min_ip"
  have "?a * ?R \<le> (?P - 1) * ?R" using port R by (intro mult_right_mono) simp_all
  then have up: "?a * ?R + ?b < ?P * ?R" using ip by (simp add: algebra_simps)
  moreover have "0 \<le> ?a * ?R" using port R by (intro mult_nonneg_nonneg) simp_all
  ultimately show "0 \<le> tuple_val min_ip max_ip min_port t \<and> tuple_val min_ip max_ip min_port t < tuples min_ip max_ip min_port max_port"
    using ip by (simp add: tuple_val_def tuples_def)
  note port_step = inc.inv_step [of min_port max_port "snd t"] inc.val_step [of min_port max_port "snd t"]
  show "tuple_in min_ip max_ip min_port max_port (tuple_next min_ip max_ip min_port max_port t)"
    using t port_step(1) uint_less_Suc [of "fst t" max_ip]
    by (auto simp: tuple_in_def tuple_next_def between_def word_uint_eq_iff)
  show "tuple_val min_ip max_ip min_port (tuple_next min_ip max_ip min_port max_port t) =
      (if tuple_val min_ip max_ip min_port t + 1 = tuples min_ip max_ip min_port max_port then 0 else tuple_val min_ip max_ip min_port t + 1)"
  proof (cases "fst t = max_ip")
    case False
    then have lt: "uint (fst t) < uint max_ip" using ip(2) by (simp add: word_uint_eq_iff)
    have "?a * ?R + ?b + 1 < ?P * ?R" using \<open>?a * ?R \<le> (?P - 1) * ?R\<close> lt by (simp add: algebra_simps)
    then show ?thesis using False uint_less_Suc [OF lt] by (simp add: tuple_val_def tuples_def tuple_next_def)
  next
    case True
    show ?thesis
    proof (cases "?a + 1 = ?P")
      case True
      then have "?a * ?R + ?b + 1 = ?P * ?R" using \<open>fst t = max_ip\<close> by (simp add: algebra_simps)
      then show ?thesis using True \<open>fst t = max_ip\<close> port_step(2) t
        by (simp add: tuple_val_def tuples_def tuple_next_def tuple_in_def)
    next
      case False
      then have "uint (snd t) + 1 \<le> uint max_port" using port by simp
      then have "(?a + 1) * ?R < ?P * ?R" using R by (intro mult_strict_right_mono) simp_all
      moreover have "?a * ?R + ?b + 1 = (?a + 1) * ?R" using \<open>fst t = max_ip\<close> by (simp add: algebra_simps)
      ultimately show ?thesis using False \<open>fst t = max_ip\<close> port_step(2) t
        by (simp add: tuple_val_def tuples_def tuple_next_def tuple_in_def)
    qed
  qed
qed

text \<open>The digits of a pair.\<close>

lemma tuple_digits:
  assumes "tuple_in min_ip max_ip min_port max_port t"
  shows "uint (fst t) = uint min_ip + tuple_val min_ip max_ip min_port t mod (uint max_ip - uint min_ip + 1)"
    "uint (snd t) = uint min_port + tuple_val min_ip max_ip min_port t div (uint max_ip - uint min_ip + 1)"
proof -
  let ?R = "uint max_ip - uint min_ip + 1"
  have b: "0 \<le> uint (fst t) - uint min_ip" "uint (fst t) - uint min_ip < ?R" using assms by (simp_all add: tuple_in_def between_def)
  then have "(uint (fst t) - uint min_ip) mod ?R = uint (fst t) - uint min_ip" "(uint (fst t) - uint min_ip) div ?R = 0"
    by (simp_all add: mod_pos_pos_trivial div_pos_pos_trivial)
  then show "uint (fst t) = uint min_ip + tuple_val min_ip max_ip min_port t mod ?R"
    "uint (snd t) = uint min_port + tuple_val min_ip max_ip min_port t div ?R"
    using b by (simp_all add: tuple_val_def)
qed

section \<open>The commands of a client\<close>

lemma ip_wrap:
  assumes "between mn mx p" and "mx \<noteq> - 1"
  shows "mx < p + 1 \<longleftrightarrow> p = (mx :: 'a::len word)"
proof (cases "p = mx")
  case True
  have "uint mx < 2 ^ LENGTH('a) - 1"
  proof -
    have "uint mx \<noteq> uint (- 1 :: 'a word)" using assms(2) by (simp add: word_uint_eq_iff)
    moreover have "uint (- 1 :: 'a word) = 2 ^ LENGTH('a) - 1" by (simp add: unsigned_minus_1_eq_mask mask_eq_exp_minus_1)
    moreover have "uint mx < 2 ^ LENGTH('a)" by (rule unsigned_less)
    ultimately show ?thesis by linarith
  qed
  then have "uint (mx + 1) = uint mx + 1" by (simp add: uint_word_ariths(1) mod_pos_pos_trivial)
  then show ?thesis using True by (simp add: word_less_def)
next
  case False
  then have "uint p < uint mx" using assms(1) by (simp add: between_def word_uint_eq_iff)
  then show ?thesis using False uint_less_Suc [of p mx] by (simp add: word_less_def)
qed

lemma client_step_next:
  assumes "tuple_in (cl_min_ip op) (cl_max_ip op) (cl_min_port op) (cl_max_port op) (ip, port)" and "cl_max_ip op \<noteq> - 1" and "cl_max_port op \<noteq> - 1"
  shows "client_step op (ip, port, flow) =
    (let t = tuple_next (cl_min_ip op) (cl_max_ip op) (cl_min_port op) (cl_max_port op) (ip, port) in
     if cl_limit_flows op \<noteq> 0 then
       (if cl_limit_flows op < flow + 1 then (cl_min_ip op, cl_min_port op, 1) else (fst t, snd t, flow + 1))
     else (fst t, snd t, flow))"
  using ip_wrap [OF _ assms(2), of "cl_min_ip op" ip] ip_wrap [OF _ assms(3), of "cl_min_port op" port] assms(1)
  by (simp add: client_step_def tuple_next_def inc_val_def tuple_in_def Let_def)

lemma client_unlimit_step_next:
  assumes "tuple_in (cu_min_ip op) (cu_max_ip op) CLIENT_UNLIMITED_MIN_PORT (- 1) (ip, port)" and "cu_max_ip op \<noteq> - 1"
  shows "client_unlimit_step op (ip, port, flow) =
    (let t = tuple_next (cu_min_ip op) (cu_max_ip op) CLIENT_UNLIMITED_MIN_PORT (- 1) (ip, port) in (fst t, snd t, flow))"
proof -
  have "port + 1 = 0 \<longleftrightarrow> port = - 1" by (simp add: eq_neg_iff_add_eq_0)
  then show ?thesis
    using ip_wrap [OF _ assms(2), of "cu_min_ip op" ip] assms(1)
    by (simp add: client_unlimit_step_def tuple_next_def inc_val_def tuple_in_def Let_def)
qed

text \<open>Without a limit the pairs go round; with a limit the flow number goes round and the pairs with it.\<close>

definition free_in :: "clients_limit_op \<Rightarrow> client \<Rightarrow> bool" where
  "free_in op c \<longleftrightarrow> cl_limit_flows op = 0 \<and> cl_max_ip op \<noteq> - 1 \<and> cl_max_port op \<noteq> - 1 \<and> snd (snd c) = 0 \<and>
     tuple_in (cl_min_ip op) (cl_max_ip op) (cl_min_port op) (cl_max_port op) (fst c, fst (snd c))"

definition client_val :: "clients_limit_op \<Rightarrow> client \<Rightarrow> int" where
  "client_val op c = tuple_val (cl_min_ip op) (cl_max_ip op) (cl_min_port op) (fst c, fst (snd c))"

abbreviation client_tuples :: "clients_limit_op \<Rightarrow> int" where
  "client_tuples op \<equiv> tuples (cl_min_ip op) (cl_max_ip op) (cl_min_port op) (cl_max_port op)"

interpretation free: circular_counter "client_step op" "free_in op" "client_val op" "client_tuples op" for op
proof
  fix c assume c: "free_in op c"
  let ?t = "(fst c, fst (snd c))"
  have t: "tuple_in (cl_min_ip op) (cl_max_ip op) (cl_min_port op) (cl_max_port op) ?t" using c by (simp add: free_in_def)
  have step: "client_step op c = (let t = tuple_next (cl_min_ip op) (cl_max_ip op) (cl_min_port op) (cl_max_port op) ?t in (fst t, snd t, 0))"
    using client_step_next [of op "fst c" "fst (snd c)" "snd (snd c)"] c t by (simp add: free_in_def)
  show "free_in op (client_step op c)" using c tuple.inv_step [OF t] by (simp add: free_in_def step Let_def)
  show "0 \<le> client_val op c \<and> client_val op c < client_tuples op" using tuple.val_range [OF t] by (simp add: client_val_def)
  show "client_val op (client_step op c) = (if client_val op c + 1 = client_tuples op then 0 else client_val op c + 1)"
    using tuple.val_step [OF t] by (simp add: client_val_def step Let_def)
qed

definition limit_in :: "clients_limit_op \<Rightarrow> client \<Rightarrow> bool" where
  "limit_in op c \<longleftrightarrow> cl_limit_flows op \<noteq> 0 \<and> cl_limit_flows op \<noteq> - 1 \<and> cl_max_ip op \<noteq> - 1 \<and> cl_max_port op \<noteq> - 1 \<and>
     between 1 (cl_limit_flows op) (snd (snd c)) \<and>
     tuple_in (cl_min_ip op) (cl_max_ip op) (cl_min_port op) (cl_max_port op) (fst c, fst (snd c)) \<and>
     client_val op c = (uint (snd (snd c)) - 1) mod client_tuples op"

interpretation limit: circular_counter "client_step op" "limit_in op" "\<lambda>c. uint (snd (snd c)) - 1" "uint (cl_limit_flows op)" for op
proof
  fix c assume c: "limit_in op c"
  let ?t = "(fst c, fst (snd c))" and ?f = "snd (snd c)"
  let ?t' = "tuple_next (cl_min_ip op) (cl_max_ip op) (cl_min_port op) (cl_max_port op) ?t"
  have t: "tuple_in (cl_min_ip op) (cl_max_ip op) (cl_min_port op) (cl_max_port op) ?t" using c by (simp add: limit_in_def)
  have f: "between 1 (cl_limit_flows op) ?f" "cl_limit_flows op \<noteq> - 1" using c by (simp_all add: limit_in_def)
  have step: "client_step op c = (if ?f = cl_limit_flows op then (cl_min_ip op, cl_min_port op, 1) else (fst ?t', snd ?t', ?f + 1))"
    using client_step_next [of op "fst c" "fst (snd c)" ?f] c t ip_wrap [OF f] by (simp add: limit_in_def Let_def)
  have t0: "tuple_in (cl_min_ip op) (cl_max_ip op) (cl_min_port op) (cl_max_port op) (cl_min_ip op, cl_min_port op)"
    using t by (simp add: tuple_in_def between_def)
  have pos: "0 < client_tuples op" using tuple.val_range [OF t] by linarith
  have lt: "uint ?f < uint (cl_limit_flows op)" if "?f \<noteq> cl_limit_flows op" using f(1) that by (simp add: between_def word_uint_eq_iff)
  show "0 \<le> uint ?f - 1 \<and> uint ?f - 1 < uint (cl_limit_flows op)" using f(1) by (simp add: between_def)
  show "uint (snd (snd (client_step op c))) - 1 = (if uint ?f - 1 + 1 = uint (cl_limit_flows op) then 0 else uint ?f - 1 + 1)"
    using lt uint_less_Suc [of ?f "cl_limit_flows op"] by (auto simp: step word_uint_eq_iff)
  show "limit_in op (client_step op c)"
  proof (cases "?f = cl_limit_flows op")
    case True
    have "client_val op (cl_min_ip op, cl_min_port op, 1) = 0" by (simp add: client_val_def tuple_val_def)
    then show ?thesis using c True t0 f(1) by (simp add: limit_in_def step between_def)
  next
    case False
    have v: "client_val op (fst ?t', snd ?t', ?f + 1) = (if client_val op c + 1 = client_tuples op then 0 else client_val op c + 1)"
      using tuple.val_step [OF t] by (simp add: client_val_def)
    have "client_val op c = (uint ?f - 1) mod client_tuples op" using c by (simp add: limit_in_def)
    moreover have "client_val op c < client_tuples op" "0 \<le> client_val op c" using tuple.val_range [OF t] by (simp_all add: client_val_def)
    ultimately have "client_val op (fst ?t', snd ?t', ?f + 1) = (client_val op c + 1) mod client_tuples op" unfolding v by simp
    also have "\<dots> = uint ?f mod client_tuples op" unfolding \<open>client_val op c = _\<close> mod_add_left_eq by simp
    finally have "client_val op (fst ?t', snd ?t', ?f + 1) = (uint (?f + 1) - 1) mod client_tuples op"
      using uint_less_Suc [OF lt [OF False]] by simp
    then show ?thesis using c False tuple.inv_step [OF t] lt [OF False] uint_less_Suc [OF lt [OF False]] f(1)
      by (simp add: limit_in_def step between_def)
  qed
qed

definition unlimit_in :: "clients_unlimit_op \<Rightarrow> client \<Rightarrow> bool" where
  "unlimit_in op c \<longleftrightarrow> cu_max_ip op \<noteq> - 1 \<and> snd (snd c) = 0 \<and>
     tuple_in (cu_min_ip op) (cu_max_ip op) CLIENT_UNLIMITED_MIN_PORT (- 1) (fst c, fst (snd c))"

interpretation unlimit: circular_counter "client_unlimit_step op" "unlimit_in op"
  "\<lambda>c. tuple_val (cu_min_ip op) (cu_max_ip op) CLIENT_UNLIMITED_MIN_PORT (fst c, fst (snd c))"
  "tuples (cu_min_ip op) (cu_max_ip op) CLIENT_UNLIMITED_MIN_PORT (- 1)" for op
proof
  fix c assume c: "unlimit_in op c"
  let ?t = "(fst c, fst (snd c))"
  have t: "tuple_in (cu_min_ip op) (cu_max_ip op) CLIENT_UNLIMITED_MIN_PORT (- 1) ?t" using c by (simp add: unlimit_in_def)
  have step: "client_unlimit_step op c =
      (let t = tuple_next (cu_min_ip op) (cu_max_ip op) CLIENT_UNLIMITED_MIN_PORT (- 1) ?t in (fst t, snd t, 0))"
    using client_unlimit_step_next [of op "fst c" "fst (snd c)" "snd (snd c)"] c t by (simp add: unlimit_in_def)
  show "unlimit_in op (client_unlimit_step op c)" using c tuple.inv_step [OF t] by (simp add: unlimit_in_def step Let_def)
  show "0 \<le> tuple_val (cu_min_ip op) (cu_max_ip op) CLIENT_UNLIMITED_MIN_PORT ?t \<and>
      tuple_val (cu_min_ip op) (cu_max_ip op) CLIENT_UNLIMITED_MIN_PORT ?t < tuples (cu_min_ip op) (cu_max_ip op) CLIENT_UNLIMITED_MIN_PORT (- 1)"
    by (rule tuple.val_range [OF t])
  show "tuple_val (cu_min_ip op) (cu_max_ip op) CLIENT_UNLIMITED_MIN_PORT (fst (client_unlimit_step op c), fst (snd (client_unlimit_step op c))) =
      (if tuple_val (cu_min_ip op) (cu_max_ip op) CLIENT_UNLIMITED_MIN_PORT ?t + 1 =
          tuples (cu_min_ip op) (cu_max_ip op) CLIENT_UNLIMITED_MIN_PORT (- 1)
       then 0 else tuple_val (cu_min_ip op) (cu_max_ip op) CLIENT_UNLIMITED_MIN_PORT ?t + 1)"
    using tuple.val_step [OF t] by (simp add: step Let_def)
qed

section \<open>The clients of a stream\<close>

definition port_range :: "ins_flow_client \<Rightarrow> u16 \<times> u16" where
  "port_range c = (if is_unlimited_flows c then (CLIENT_UNLIMITED_MIN_PORT, - 1) else (fc_port_min c, fc_port_max c))"

text \<open>The client after \<open>n\<close> packets.\<close>

definition client_at :: "ins_flow_client \<Rightarrow> nat \<Rightarrow> client \<Rightarrow> bool" where
  "client_at c n = (\<lambda>(ip, port, flow).
     let (port_min, port_max) = port_range c;
         limited = (\<not> is_unlimited_flows c \<and> fc_limit_num_flows c \<noteq> 0);
         flows = uint (fc_limit_num_flows c);
         ips = uint (fc_client_max c) - uint (fc_client_min c) + 1;
         pairs = (uint port_max - uint port_min + 1) * ips;
         k = (if limited then (int n - 1) mod flows mod pairs else (int n - 1) mod pairs) in
     uint ip = uint (fc_client_min c) + k mod ips \<and> uint port = uint port_min + k div ips \<and>
     uint flow = (if limited then (int n - 1) mod flows + 1 else 0))"

definition client_ok :: "ins_flow_client \<Rightarrow> bool" where
  "client_ok c \<longleftrightarrow> 0 < fc_client_min c \<and> fc_client_min c \<le> fc_client_max c \<and> fc_client_max c \<noteq> - 1 \<and>
     (\<not> is_unlimited_flows c \<longrightarrow> fc_port_min c \<le> fc_port_max c \<and> fc_port_max c \<noteq> - 1 \<and> fc_limit_num_flows c \<noteq> - 1)"

definition client_fun :: "ins_flow_client \<Rightarrow> client \<Rightarrow> client" where
  "client_fun c = (if is_unlimited_flows c
     then client_unlimit_step \<lparr>cu_flow_offset = 0, cu_flags = 0, cu_pad = 0, cu_min_ip = fc_client_min c, cu_max_ip = fc_client_max c\<rparr>
     else client_step \<lparr>cl_flow_offset = 0, cl_flags = 0, cl_pad = 0, cl_min_port = fc_port_min c, cl_max_port = fc_port_max c,
       cl_min_ip = fc_client_min c, cl_max_ip = fc_client_max c, cl_limit_flows = fc_limit_num_flows c\<rparr>)"

definition client_init :: "ins_flow_client \<Rightarrow> client" where
  "client_init c = (fc_client_min c - 1, fst (port_range c), 0)"

lemma int_Suc_pred: "int (Suc n) - 1 = int n" by simp

lemma client_steps:
  assumes "client_ok c"
  shows "client_at c (Suc n) ((client_fun c ^^ Suc n) (client_init c))"
proof -
  have ip: "fc_client_min c \<le> fc_client_max c" "fc_client_max c \<noteq> - 1" using assms by (simp_all add: client_ok_def)
  have not_less: "\<not> fc_client_max c < fc_client_min c" using ip(1) by simp
  have start: "(client_fun c ^^ Suc n) (client_init c) = (client_fun c ^^ n) (client_fun c (client_init c))" by (simp only: funpow_Suc_right o_apply)
  show ?thesis
  proof (cases "is_unlimited_flows c")
    case True
    define op where "op = \<lparr>cu_flow_offset = 0, cu_flags = 0, cu_pad = 0, cu_min_ip = fc_client_min c, cu_max_ip = fc_client_max c\<rparr>"
    have f: "client_fun c = client_unlimit_step op" using True by (simp add: client_fun_def op_def)
    have first: "client_fun c (client_init c) = (fc_client_min c, CLIENT_UNLIMITED_MIN_PORT, 0)"
      using not_less True by (simp add: f client_unlimit_step_def op_def client_init_def port_range_def)
    have t: "tuple_in (fc_client_min c) (fc_client_max c) CLIENT_UNLIMITED_MIN_PORT (- 1) (fc_client_min c, CLIENT_UNLIMITED_MIN_PORT)"
      using ip(1) by (simp add: tuple_in_def between_def word_le_def unsigned_minus_1_eq_mask mask_eq_exp_minus_1)
    then have inv: "unlimit_in op (fc_client_min c, CLIENT_UNLIMITED_MIN_PORT, 0)" using ip(2) by (simp add: unlimit_in_def op_def)
    obtain q where q: "(client_unlimit_step op ^^ n) (fc_client_min c, CLIENT_UNLIMITED_MIN_PORT, 0) = q" by blast
    have s: "unlimit_in op q" "tuple_val (fc_client_min c) (fc_client_max c) CLIENT_UNLIMITED_MIN_PORT (fst q, fst (snd q)) =
        int n mod tuples (fc_client_min c) (fc_client_max c) CLIENT_UNLIMITED_MIN_PORT (- 1)"
      using unlimit.steps [OF inv, of n] q by (simp_all add: op_def tuple_val_def)
    have d: "tuple_in (fc_client_min c) (fc_client_max c) CLIENT_UNLIMITED_MIN_PORT (- 1) (fst q, fst (snd q))" "snd (snd q) = 0"
      using s(1) by (simp_all add: unlimit_in_def op_def)
    have eq: "(client_fun c ^^ Suc n) (client_init c) = q" unfolding start first unfolding f by (rule q)
    show ?thesis unfolding eq client_at_def int_Suc_pred
      using tuple_digits [OF d(1)] d(2) s(2) True by (simp add: port_range_def tuples_def split_beta Let_def)
  next
    case False
    define op where "op = \<lparr>cl_flow_offset = 0, cl_flags = 0, cl_pad = 0, cl_min_port = fc_port_min c, cl_max_port = fc_port_max c,
       cl_min_ip = fc_client_min c, cl_max_ip = fc_client_max c, cl_limit_flows = fc_limit_num_flows c\<rparr>"
    have f: "client_fun c = client_step op" using False by (simp add: client_fun_def op_def)
    have port: "fc_port_min c \<le> fc_port_max c" "fc_port_max c \<noteq> - 1" "fc_limit_num_flows c \<noteq> - 1" using assms False by (simp_all add: client_ok_def)
    have t: "tuple_in (fc_client_min c) (fc_client_max c) (fc_port_min c) (fc_port_max c) (fc_client_min c, fc_port_min c)"
      using ip(1) port(1) by (simp add: tuple_in_def between_def word_le_def)
    show ?thesis
    proof (cases "fc_limit_num_flows c = 0")
      case True
      have first: "client_fun c (client_init c) = (fc_client_min c, fc_port_min c, 0)"
        using not_less False True by (simp add: f client_step_def op_def client_init_def port_range_def)
      have inv: "free_in op (fc_client_min c, fc_port_min c, 0)" using ip(2) port(2) True t by (simp add: free_in_def op_def)
      obtain q where q: "(client_step op ^^ n) (fc_client_min c, fc_port_min c, 0) = q" by blast
      have s: "free_in op q" "tuple_val (fc_client_min c) (fc_client_max c) (fc_port_min c) (fst q, fst (snd q)) =
          int n mod tuples (fc_client_min c) (fc_client_max c) (fc_port_min c) (fc_port_max c)"
        using free.steps [OF inv, of n] q by (simp_all add: client_val_def op_def tuple_val_def)
      have d: "tuple_in (fc_client_min c) (fc_client_max c) (fc_port_min c) (fc_port_max c) (fst q, fst (snd q))" "snd (snd q) = 0"
        using s(1) by (simp_all add: free_in_def op_def)
      have eq: "(client_fun c ^^ Suc n) (client_init c) = q" unfolding start first unfolding f by (rule q)
    show ?thesis unfolding eq client_at_def int_Suc_pred
        using tuple_digits [OF d(1)] d(2) s(2) False True by (simp add: port_range_def tuples_def split_beta Let_def)
    next
      case limited: False
      then have "0 < fc_limit_num_flows c" by (simp add: word_neq_0_conv)
      then have l1: "uint (1 :: u32) \<le> uint (fc_limit_num_flows c)" by (simp add: word_less_def)
      then have "\<not> fc_limit_num_flows c < 1" by (simp add: word_less_def)
      then have first: "client_fun c (client_init c) = (fc_client_min c, fc_port_min c, 1)"
        using not_less False limited by (simp add: f client_step_def op_def client_init_def port_range_def)
      have inv: "limit_in op (fc_client_min c, fc_port_min c, 1)"
        using ip(2) port(2,3) limited t l1 by (simp add: limit_in_def op_def between_def client_val_def tuple_val_def)
      obtain q where q: "(client_step op ^^ n) (fc_client_min c, fc_port_min c, 1) = q" by blast
      have s: "limit_in op q" "uint (snd (snd q)) - 1 = int n mod uint (fc_limit_num_flows c)"
        using limit.steps [OF inv, of n] q by (simp_all add: op_def)
      have d: "tuple_in (fc_client_min c) (fc_client_max c) (fc_port_min c) (fc_port_max c) (fst q, fst (snd q))"
          "tuple_val (fc_client_min c) (fc_client_max c) (fc_port_min c) (fst q, fst (snd q)) =
            int n mod uint (fc_limit_num_flows c) mod tuples (fc_client_min c) (fc_client_max c) (fc_port_min c) (fc_port_max c)"
        using s by (simp_all add: limit_in_def op_def client_val_def)
      have flow: "uint (snd (snd q)) = int n mod uint (fc_limit_num_flows c) + 1" using s(2) by simp
      have eq: "(client_fun c ^^ Suc n) (client_init c) = q" unfolding start first unfolding f by (rule q)
    show ?thesis unfolding eq client_at_def int_Suc_pred
        using tuple_digits [OF d(1)] d(2) flow False limited by (simp add: port_range_def tuples_def split_beta Let_def)
    qed
  qed
qed

section \<open>The client variable in a program\<close>

lemma reads_client: "reads_at (\<lambda>m. get_client m off) off 10"
  unfolding reads_at_def
proof (intro allI impI)
  fix m m' :: "u8 list" assume *: "length m = length m' \<and> (\<forall>k. off \<le> k \<and> k < off + 10 \<longrightarrow> m ! k = m' ! k)"
  have "mem_get m off = (mem_get m' off :: u32 option)" "mem_get m (off + 4) = (mem_get m' (off + 4) :: u16 option)"
      "mem_get m (off + 6) = (mem_get m' (off + 6) :: u32 option)" by (rule mem_get_cong; use * in auto)+
  then show "get_client m off = get_client m' off" by (simp add: get_client_def)
qed

lemma get_put_client:
  assumes "put_client m off c = Some m'"
  shows "get_client m' off = Some c"
proof -
  obtain ip port fl where c: "c = (ip, port, fl)" by (rule prod_cases3)
  obtain m1 m2 where m: "mem_put m off ip = Some m1" "mem_put m1 (off + 4) port = Some m2" "mem_put m2 (off + 6) fl = Some m'"
    using assms unfolding c by (auto simp: put_client_def bind_eq_Some_conv)
  have "mem_get m1 off = Some ip" "mem_get m2 (off + 4) = Some port" "mem_get m' (off + 6) = Some fl"
    using m by (simp_all add: mem_get_put)
  moreover have "mem_get m2 off = (mem_get m1 off :: u32 option)" by (rule mem_get_put_other [OF m(2)]) simp
  moreover have "mem_get m' off = (mem_get m2 off :: u32 option)" by (rule mem_get_put_other [OF m(3)]) simp
  moreover have "mem_get m' (off + 4) = (mem_get m2 (off + 4) :: u16 option)" by (rule mem_get_put_other [OF m(3)]) simp
  ultimately show ?thesis by (simp add: get_client_def c)
qed

lemma applies_client: "applies [client_cmd off c] (\<lambda>m. get_client m (unat off)) (client_fun c)"
  unfolding applies_def
proof (intro allI impI)
  fix s s' x assume *: "exec_all [client_cmd off c] s = Some s' \<and> get_client (vr_flow_var s) (unat off) = Some x"
  have "client_step \<lparr>cl_flow_offset = off, cl_flags = 0, cl_pad = 0, cl_min_port = fc_port_min c, cl_max_port = fc_port_max c,
      cl_min_ip = fc_client_min c, cl_max_ip = fc_client_max c, cl_limit_flows = fc_limit_num_flows c\<rparr> = client_fun c"
    if "\<not> is_unlimited_flows c"
    unfolding client_fun_def if_not_P [OF that] client_step_def clients_limit_op.select_convs by (rule refl)
  moreover have "client_unlimit_step \<lparr>cu_flow_offset = off, cu_flags = 0, cu_pad = 0, cu_min_ip = fc_client_min c, cu_max_ip = fc_client_max c\<rparr> =
      client_fun c" if "is_unlimited_flows c"
    unfolding client_fun_def if_P [OF that] client_unlimit_step_def clients_unlimit_op.select_convs by (rule refl)
  ultimately have "exec_ins (client_cmd off c) = with_flow_var (upd_client (unat off) (client_fun c))"
    by (simp add: client_cmd_def run_client_def run_client_unlimit_def)
  then have "upd_client (unat off) (client_fun c) (vr_flow_var s) = Some (vr_flow_var s')"
    using * unfolding exec_all_one by (auto simp: with_flow_var_def bind_eq_Some_conv)
  then have "put_client (vr_flow_var s) (unat off) (client_fun c x) = Some (vr_flow_var s')" using * by (simp add: upd_client_def)
  then show "get_client (vr_flow_var s') (unat off) = Some (client_fun c x)" by (rule get_put_client)
qed

lemma get_bytes:
  assumes "byte_width TYPE('a::len)" and "off + LENGTH('a) div 8 \<le> length m" and "take (LENGTH('a) div 8) (drop off m) = bytes_of (w :: 'a word)"
  shows "mem_get m off = Some w"
  using assms by (simp add: mem_get_Some)

lemma client_bss:
  assumes "take 10 (drop off bss) = bss_bytes (FlowClient c)" and "off + 10 \<le> length bss" and "0 < fc_client_min c"
  shows "get_client bss off = Some (client_init c)"
proof -
  let ?b = "bytes_of (fc_client_min c - 1) @ bytes_of (fst (port_range c)) @ bytes_of (0 :: u32)"
  have b: "take 10 (drop off bss) = ?b" using assms(1,3) by (simp add: bss_bytes_def port_range_def)
  have "take 4 (drop off bss) = take 4 (take 10 (drop off bss))" by simp
  then have 1: "take 4 (drop off bss) = bytes_of (fc_client_min c - 1)" unfolding b by simp
  have "take 2 (drop (off + 4) bss) = take 2 (drop 4 (take 10 (drop off bss)))" by (simp add: drop_take add.commute)
  then have 2: "take 2 (drop (off + 4) bss) = bytes_of (fst (port_range c))" unfolding b by simp
  have "take 4 (drop (off + 6) bss) = take 4 (drop 6 (take 10 (drop off bss)))" by (simp add: drop_take add.commute)
  then have 3: "take 4 (drop (off + 6) bss) = bytes_of (0 :: u32)" unfolding b by simp
  have "mem_get bss off = Some (fc_client_min c - 1)" "mem_get bss (off + 4) = Some (fst (port_range c))" "mem_get bss (off + 6) = Some (0 :: u32)"
    using 1 2 3 assms(2) by (auto intro!: get_bytes)
  then show ?thesis by (simp add: get_client_def client_init_def)
qed

section \<open>Properties\<close>

lemma client_values:
  assumes "vm_compile rnd pkt vm = Ok (vm', Some dp)" and "random_flag vm" and "vm_ok vm'" and "FlowClient c \<in> set (m_inst_list vm')"
    and "\<forall>buf\<in>set bufs. dp_max_pkt_offset_change dp \<le> length buf \<and> same_headers vm' pkt buf" and "bufs \<noteq> []" and "client_ok c"
  shows "\<exists>r fv lp. m_flow_var_offset vm' (fc_var_name c @ ''.ip'') = Some r \<and> run_packets (dp_program dp) bufs (dp_bss dp) = Some fv \<and>
    get_client fv (rec_offset r) = Some lp \<and> client_at c (length bufs) lp"
proof -
  obtain vm1 where vm1: "vm' = vm1\<lparr>m_pkt := None\<rparr>" "compiled vm1" "list_all2 same_var (m_inst_list vm) (m_inst_list vm1)"
      "m_is_random_var vm1 = m_is_random_var vm" "m_bss vm1 = Some (dp_bss dp)" "dp_program dp = m_instructions vm1"
    using vm_compile_Some [OF assms(1)] assms(3) by metis
  have flag: "random_flag vm1" by (rule random_flag_same [OF vm1(3,4) assms(2)])
  have mem: "FlowClient c \<in> set (m_inst_list vm1)" using assms(4) unfolding vm1(1) by simp
  obtain j where j: "j < length (m_inst_list vm1)" "m_inst_list vm1 ! j = FlowClient c" using mem by (auto simp: in_set_conv_nth)
  define cur where "cur = first_var vm1 + sum_list (map var_bytes (take j (m_inst_list vm1)))"
  have e: "m_flow_var_offset vm1 (fc_var_name c @ ''.ip'') = Some \<lparr>rec_offset = cur, rec_ins = Some j, rec_size = 4\<rparr>"
      "m_flow_var_offset vm1 (fc_var_name c @ ''.port'') = Some \<lparr>rec_offset = cur + 4, rec_ins = Some j, rec_size = 2\<rparr>"
      "m_flow_var_offset vm1 (fc_var_name c @ ''.flow_limit'') = Some \<lparr>rec_offset = cur + 6, rec_ins = Some j, rec_size = 4\<rparr>"
    by (rule compiled_entry [OF vm1(2) j(1)], simp add: j(2) entries_def cur_def)+
  obtain pre cmds field post where p: "m_instructions vm1 = concat (map encode_ins (pre @ cmds @ post))"
      "generates vm1 (FlowClient c) (cmds, field)"
      "\<forall>d\<in>set pre \<union> set post. \<forall>n\<in>set (var_names (FlowClient c)). \<forall>k. var_at vm1 n k \<longrightarrow> \<not> touches d k"
    using ins_split [OF vm1(2) flag mem] by blast
  obtain off where off: "get_var_offset vm1 (fc_var_name c @ ''.ip'') = Ok off" "cmds = [client_cmd off c]"
    using p(2) by (auto simp: generates_def gen_ins_def obind_Ok)
  have o: "unat off = cur" using get_var_offset_Ok [OF vm1(2) off(1)] e(1) by auto
  have quiet: "\<not> touches d k" if "d \<in> set pre \<union> set post" "cur \<le> k" "k < cur + 10" for d k
  proof -
    have "var_at vm1 (fc_var_name c @ ''.ip'') k \<or> var_at vm1 (fc_var_name c @ ''.port'') k \<or> var_at vm1 (fc_var_name c @ ''.flow_limit'') k"
      using that(2,3) e by (auto simp: var_at_def)
    then show ?thesis using p(3) that(1) by (fastforce simp: var_names_def)
  qed
  have len: "cur + 10 \<le> length (dp_bss dp)" "take 10 (drop cur (dp_bss dp)) = bss_bytes (FlowClient c)"
    using compiled_FlowClient [OF vm1(2) mem vm1(5)] e(1) compiled_bss(2) [OF vm1(2)] vm1(5) by auto
  have init: "get_client (dp_bss dp) cur = Some (client_init c)"
    by (rule client_bss [OF len(2,1)]) (use assms(7) in \<open>simp add: client_ok_def\<close>)
  obtain fv where fv: "run_packets (dp_program dp) bufs (dp_bss dp) = Some fv" using run_packets_ok [OF assms(1-3,5)] by blast
  have run: "run_packets (concat (map encode_ins (pre @ [client_cmd off c] @ post))) bufs (dp_bss dp) = Some fv"
    using fv unfolding vm1(6) p(1) off(2) .
  have "get_client fv cur = Some ((client_fun c ^^ length bufs) (client_init c))"
    using var_many_runs [OF reads_client [of cur] applies_client [of off c, unfolded o] _ init run] quiet by blast
  moreover have "client_at c (length bufs) ((client_fun c ^^ length bufs) (client_init c))"
    using client_steps [OF assms(7)] assms(6) by (cases "length bufs") auto
  moreover have "m_flow_var_offset vm' (fc_var_name c @ ''.ip'') = Some \<lparr>rec_offset = cur, rec_ins = Some j, rec_size = 4\<rparr>"
    using e(1) by (simp add: vm1(1))
  ultimately show ?thesis using fv by (metis var_rec.select_convs(1))
qed


text \<open>Two addresses and two ports, and a flow limit of three.\<close>

definition demo_client :: ins_flow_client where
  "demo_client = \<lparr>fc_var_name = ''c'', fc_client_min = 10, fc_client_max = 11, fc_port_min = 5, fc_port_max = 6,
     fc_limit_num_flows = 3, fc_flags = 0\<rparr>"

definition client_vm :: stream_vm where
  "client_vm = add_instruction new_stream_vm (FlowClient demo_client)"

lemma client_vm_compile: "\<exists>vm' dp. vm_compile rnd [0] client_vm = Ok (vm', Some dp) \<and> m_inst_list vm' = [FlowClient demo_client] \<and>
    dp_max_pkt_offset_change dp = 0 \<and> length (m_instructions vm') < 65536"
  by (simp add: client_vm_def add_instruction_def new_stream_vm_def demo_client_def vm_compile_def compile_eval struct_eval Let_def
      generate_dp_object_def new_stream_vm_dp_def is_unlimited_flows_def client_cmd_def)


end
