(* ===== verification/Vm_Node.thy ===== *)
theory Vm_Node
  imports Vm_Safe
begin

text \<open>
  The data plane node of a stream with a VM, stateless/dp/trex_stateless_dp_core.cpp: the prefix of
  the packet that is copied into a buffer and run over by the program for each packet, and the
  constant rest of the packet, which all packets share as a second segment.
\<close>

section \<open>Addresses\<close>

datatype stream_dst_mac = stCFG_FILE | stPKT | stARP

text \<open>
  \<open>cfg\<close> holds the 12 bytes of the configuration. A copy of 12 bytes to or from a shorter buffer is
  \<open>None\<close>.
\<close>

definition update_mac_addr_from_global_cfg :: "u8 list \<Rightarrow> u8 list \<Rightarrow> u8 list option" where
  "update_mac_addr_from_global_cfg cfg p = (if length p < 12 then None else Some (take 12 cfg @ drop 12 p))"

definition update_mac_addr :: "bool \<Rightarrow> stream_dst_mac \<Rightarrow> u8 list \<Rightarrow> u8 list \<Rightarrow> u8 list option" where
  "update_mac_addr ov_src ov_dst cfg raw_pkt =
     (if ov_src \<and> ov_dst = stPKT then Some raw_pkt
      else if \<not> ov_src \<and> ov_dst = stCFG_FILE then update_mac_addr_from_global_cfg cfg raw_pkt
      else if length raw_pkt < 12 then None
      else do {
        let tmp_pkt = take 12 raw_pkt;
        raw_pkt \<leftarrow> update_mac_addr_from_global_cfg cfg raw_pkt;
        let raw_pkt = (if ov_src \<and> ov_dst = stCFG_FILE then take 6 raw_pkt @ drop 6 tmp_pkt @ drop 12 raw_pkt else raw_pkt);
        Some (if \<not> ov_src \<and> ov_dst = stPKT then take 6 tmp_pkt @ drop 6 raw_pkt else raw_pkt) })"

section \<open>The node\<close>

text \<open>The data of the first segment of a buffer, with its room, and the data of the second segment.\<close>

record vm_mbuf =
  mb_data :: "u8 list"
  mb_data_len :: u16
  mb_pkt_len :: u32
  mb_next :: "(u8 list \<times> u16) option"

record vm_node =
  m_vm_flow_var :: "u8 list"
  m_vm_program :: "u8 list"
  m_original_packet_data_prefix :: "u8 list"
  m_const_mbuf :: "u8 list option"

text \<open>The part of \<open>add_stream\<close> for a stream with a VM. A seed of 0 is not set.\<close>

definition add_stream_vm :: "bool \<Rightarrow> stream_dst_mac \<Rightarrow> u8 list \<Rightarrow> u32 \<Rightarrow> u8 list \<Rightarrow> stream_vm_dp \<Rightarrow> vm_node option" where
  "add_stream_vm ov_src ov_dst cfg random_seed stream_pkt vm_dp =
     (if dp_bss vm_dp = [] then None
      else do {
        flow_var \<leftarrow> (if dp_is_random_seed vm_dp \<and> random_seed \<noteq> 0 then mem_put (dp_bss vm_dp) 0 random_seed else Some (dp_bss vm_dp));
        let pkt_size = length stream_pkt;
        let prefix_size = unat (dp_prefix_size vm_dp);
        let const_mbuf = (if prefix_size < pkt_size then Some (drop prefix_size stream_pkt) else None);
        let header_size = (if pkt_size < prefix_size then pkt_size else prefix_size);
        if header_size = 0 then None
        else do {
          p \<leftarrow> update_mac_addr ov_src ov_dst cfg (take header_size stream_pkt);
          Some \<lparr>m_vm_flow_var = flow_var, m_vm_program = dp_program vm_dp, m_original_packet_data_prefix = p, m_const_mbuf = const_mbuf\<rparr> } })"

text \<open>
  \<open>utl_rte_pktmbuf_add_after\<close> of the constant segment, for which \<open>utl_rte_pktmbuf_add_after2\<close> does
  the same for a new segment attached to it; the reference counts are not modelled.
\<close>

definition pktmbuf_add_after :: "vm_mbuf \<Rightarrow> u8 list \<Rightarrow> vm_mbuf" where
  "pktmbuf_add_after m1 m2 = m1\<lparr>mb_next := Some (m2, of_nat (length m2)), mb_pkt_len := mb_pkt_len m1 + of_nat (length m2)\<rparr>"

definition finish_packet :: "bool \<Rightarrow> nat \<Rightarrow> u8 list option \<Rightarrow> u16 \<Rightarrow> vm_mbuf \<Rightarrow> vm_mbuf option" where
  "finish_packet small prefix_size const pkt_new_size m =
     (if pkt_new_size = 0 then
        Some (case const of None \<Rightarrow> m | Some m_const \<Rightarrow> pktmbuf_add_after m m_const)
      else (case const of
        None \<Rightarrow> Some (m\<lparr>mb_data_len := pkt_new_size, mb_pkt_len := ucast pkt_new_size\<rparr>)
      | Some m_const \<Rightarrow>
          if unat pkt_new_size \<le> prefix_size then Some (m\<lparr>mb_data_len := pkt_new_size, mb_pkt_len := ucast pkt_new_size\<rparr>)
          else if \<not> small then None
          else
            (let m = pktmbuf_add_after m m_const in
             Some (if ucast pkt_new_size < mb_pkt_len m
               then m\<lparr>mb_next := Some (m_const, pkt_new_size - of_nat prefix_size), mb_pkt_len := ucast pkt_new_size\<rparr> else m))))"

text \<open>
  \<open>room\<close> is the data area of the buffer that the pool gives, \<open>small\<close> whether the pool has a buffer for
  the second segment; a failed assertion is \<open>None\<close>.
\<close>

definition alloc_node_with_vm :: "u8 list option \<Rightarrow> bool \<Rightarrow> vm_node \<Rightarrow> (vm_mbuf option \<times> vm_node) option" where
  "alloc_node_with_vm room small node = (case room of
     None \<Rightarrow> Some (None, node)
   | Some room \<Rightarrow>
     (let prefix_size = length (m_original_packet_data_prefix node) in
      if length room < prefix_size then None
      else do {
        let p = m_original_packet_data_prefix node @ drop prefix_size room;
        s \<leftarrow> run_program (m_vm_program node) \<lparr>vr_flow_var = m_vm_flow_var node, vr_pkt = p, vr_new_pkt_size = 0\<rparr>;
        m \<leftarrow> finish_packet small prefix_size (m_const_mbuf node) (vr_new_pkt_size s)
          \<lparr>mb_data = vr_pkt s, mb_data_len = of_nat prefix_size, mb_pkt_len = of_nat prefix_size, mb_next = None\<rparr>;
        Some (Some m, node\<lparr>m_vm_flow_var := vr_flow_var s\<rparr>) }))"

text \<open>The packets of a node, one for each buffer of the pool.\<close>

fun send_packets :: "u8 list list \<Rightarrow> vm_node \<Rightarrow> (vm_mbuf list \<times> vm_node) option" where
  "send_packets [] node = Some ([], node)"
| "send_packets (room # rooms) node = do {
     (m, node) \<leftarrow> alloc_node_with_vm (Some room) True node;
     (ms, node) \<leftarrow> send_packets rooms node;
     Some (case m of None \<Rightarrow> ms | Some m \<Rightarrow> m # ms, node) }"

text \<open>The bytes that go to the wire; a length beyond the data is \<open>None\<close>.\<close>

definition seg_bytes :: "u8 list \<Rightarrow> u16 \<Rightarrow> u8 list option" where
  "seg_bytes d len = (if unat len \<le> length d then Some (take (unat len) d) else None)"

definition wire :: "vm_mbuf \<Rightarrow> u8 list option" where
  "wire m = do {
     a \<leftarrow> seg_bytes (mb_data m) (mb_data_len m);
     b \<leftarrow> (case mb_next m of None \<Rightarrow> Some [] | Some (d, len) \<Rightarrow> seg_bytes d len);
     Some (a @ b) }"

section \<open>The writable prefix\<close>

lemma generates_field: "generates vm i (cmds, field) \<Longrightarrow> field \<le> unat (m_pkt_size vm)"
proof (cases i)
  case (FixChecksumIpv4 off)
  then show "generates vm i (cmds, field) \<Longrightarrow> field \<le> unat (m_pkt_size vm)" using generates_Fix(2) by blast
next
  case (WriteToPkt w)
  then show "generates vm i (cmds, field) \<Longrightarrow> field \<le> unat (m_pkt_size vm)"
    by (auto simp: generates_def gen_ins_def Let_def split: option.splits if_splits)
next
  case (WriteMaskToPkt w)
  then show "generates vm i (cmds, field) \<Longrightarrow> field \<le> unat (m_pkt_size vm)"
    by (auto simp: generates_def gen_ins_def Let_def split: option.splits if_splits)
qed (auto simp: generates_def gen_ins_def obind_Ok split: option.splits if_splits)

lemma compiled_max_field:
  assumes "compiled vm"
  shows "m_max_field_update vm \<le> unat (m_pkt_size vm)"
proof -
  obtain cs where cs: "list_all2 (generates vm) (m_inst_list vm) cs" "m_max_field_update vm \<in> insert 0 (snd ` set cs)"
    using assms by (auto simp: compiled_def)
  have "snd c \<le> unat (m_pkt_size vm)" if c: "c \<in> set cs" for c
  proof -
    obtain j where "j < length cs" "cs ! j = c" using c by (auto simp: in_set_conv_nth)
    then have "generates vm (m_inst_list vm ! j) c" using cs(1) by (auto simp: list_all2_conv_all_nth)
    then show ?thesis using generates_field [of vm _ "fst c" "snd c"] by simp
  qed
  then show ?thesis using cs(2) by auto
qed

text \<open>The prefix holds all bytes that the program may change, cut to the packet if it is longer.\<close>

lemma calc_writable_covers:
  assumes "M \<le> 512" and "M \<le> unat pkt_size"
  shows "M \<le> min (unat (calc_writable_mbuf_size (of_nat M) pkt_size)) (unat pkt_size)"
proof -
  have m: "unat (of_nat M :: u16) = M" by (rule unat_of_nat_less) (use assms(1) in simp)
  moreover have "unat (of_nat M + 1 :: u16) = M + 1"
  proof -
    have "of_nat M + 1 = (of_nat (M + 1) :: u16)" by simp
    also have "unat \<dots> = M + 1" by (rule unat_of_nat_less) (use assms(1) in simp)
    finally show ?thesis .
  qed
  ultimately show ?thesis using assms by (simp add: calc_writable_mbuf_size_def Let_def)
qed

lemma calc_writable_pos:
  assumes "M \<le> 512" and "12 \<le> unat pkt_size"
  shows "12 \<le> min (unat (calc_writable_mbuf_size (of_nat M) pkt_size)) (unat pkt_size)"
proof -
  have m: "unat (of_nat M :: u16) = M" by (rule unat_of_nat_less) (use assms(1) in simp)
  moreover have "unat (of_nat M + 1 :: u16) = M + 1"
  proof -
    have "of_nat M + 1 = (of_nat (M + 1) :: u16)" by simp
    also have "unat \<dots> = M + 1" by (rule unat_of_nat_less) (use assms(1) in simp)
    finally show ?thesis .
  qed
  ultimately show ?thesis using assms by (simp add: calc_writable_mbuf_size_def Let_def)
qed

section \<open>Addresses are in the first 12 bytes\<close>

definition mac_head :: "bool \<Rightarrow> stream_dst_mac \<Rightarrow> u8 list \<Rightarrow> u8 list \<Rightarrow> u8 list" where
  "mac_head ov_src ov_dst cfg h =
     (if ov_src \<and> ov_dst = stPKT then h else if ov_src \<and> ov_dst = stCFG_FILE then take 6 cfg @ drop 6 h
      else if \<not> ov_src \<and> ov_dst = stPKT then take 6 h @ drop 6 cfg else cfg)"

lemma update_mac_addr_eq:
  assumes "12 \<le> length p" and "length cfg = 12"
  shows "update_mac_addr ov_src ov_dst cfg p = Some (mac_head ov_src ov_dst cfg (take 12 p) @ drop 12 p)"
  using assms by (cases ov_src; cases ov_dst) (simp_all add: update_mac_addr_def update_mac_addr_from_global_cfg_def mac_head_def Let_def)

lemma length_mac_head: "length h = 12 \<Longrightarrow> length cfg = 12 \<Longrightarrow> length (mac_head ov_src ov_dst cfg h) = 12"
  by (simp add: mac_head_def)

lemma update_mac_addr_take:
  assumes "12 \<le> n" and "n \<le> length p" and "length cfg = 12" and "update_mac_addr ov_src ov_dst cfg p = Some p'"
  shows "update_mac_addr ov_src ov_dst cfg (take n p) = Some (take n p')"
proof -
  have "p' = mac_head ov_src ov_dst cfg (take 12 p) @ drop 12 p" using update_mac_addr_eq assms by simp
  moreover have "take 12 (take n p) = take 12 p" "drop 12 (take n p) = take (n - 12) (drop 12 p)"
    using assms(1) by (simp_all add: min_def drop_take)
  moreover have "length (mac_head ov_src ov_dst cfg (take 12 p)) = 12" using assms by (intro length_mac_head) simp_all
  ultimately show ?thesis using update_mac_addr_eq [of "take n p" cfg] assms(1-3) by simp
qed

section \<open>One packet\<close>

text \<open>The second segment and the lengths, for a first segment that holds the prefix.\<close>

lemma finish_packet_ok:
  assumes "length P = n" and "length rest + n = len" and "n \<le> len" and "len < 65536" and "length room = k"
    and "const = (if n < len then Some rest else None)" and "sz = 0 \<or> n < len"
  shows "\<exists>m. finish_packet True n const sz \<lparr>mb_data = P @ room, mb_data_len = of_nat n, mb_pkt_len = of_nat n, mb_next = None\<rparr> = Some m \<and>
    wire m = Some (if sz = 0 then P @ rest else take (unat sz) (P @ rest)) \<and>
    unat (mb_pkt_len m) = length (if sz = 0 then P @ rest else take (unat sz) (P @ rest))"
proof -
  have n: "unat (of_nat n :: u16) = n" "unat (of_nat n :: u32) = n" by (rule unat_of_nat_less, use assms in simp)+
  have rest: "unat (of_nat (length rest) :: u16) = length rest" "unat (of_nat (length rest) :: u32) = length rest"
    by (rule unat_of_nat_less, use assms in simp)+
  have "of_nat n + of_nat (length rest) = (of_nat len :: u32)" using assms(2) by (metis add.commute of_nat_add)
  then have len: "unat (of_nat n + of_nat (length rest) :: u32) = len" using assms(4) by (simp add: unat_of_nat_less)
  have sz: "unat (ucast sz :: u32) = unat sz" by (simp add: unsigned_ucast_eq take_bit_nat_eq_self unsigned_less [THEN less_trans])
  show ?thesis
  proof (cases "n < len")
    case False
    then have "rest = []" "sz = 0" "const = None" using assms by auto
    then show ?thesis using n assms(1) by (simp add: finish_packet_def wire_def seg_bytes_def)
  next
    case True
    note const = assms(6) [unfolded if_P [OF True]]
    consider "sz = 0" | "sz \<noteq> 0" "unat sz \<le> n" | "n < unat sz" "unat sz < len" | "len \<le> unat sz" by linarith
    then show ?thesis
    proof cases
      case 1
      then show ?thesis using n rest len assms(1,2) by (simp add: finish_packet_def const pktmbuf_add_after_def wire_def seg_bytes_def)
    next
      case 2
      then show ?thesis using sz assms(1,2) by (simp add: finish_packet_def const wire_def seg_bytes_def min_def)
    next
      case 3
      then have "sz \<noteq> 0" by (auto simp: unat_gt_0)
      moreover have "unat (sz - of_nat n) = unat sz - n" using 3 n by (subst unat_sub) (simp_all add: word_le_nat_alt)
      ultimately show ?thesis using 3 n rest len sz assms(1,2)
        by (simp add: finish_packet_def const pktmbuf_add_after_def wire_def seg_bytes_def word_less_nat_alt Let_def)
    next
      case 4
      then have "sz \<noteq> 0" using True by (auto simp: unat_gt_0)
      then show ?thesis using 4 True n rest len sz assms(1,2)
        by (simp add: finish_packet_def const pktmbuf_add_after_def wire_def seg_bytes_def word_less_nat_alt Let_def)
    qed
  qed
qed

section \<open>The packets of a node\<close>

text \<open>
  What the packets of a stream are meant to be: the program runs over one whole copy of the packet
  after the other, with the flow variables that the run before has left. A packet comes with the
  new size that the program has set, 0 if none.
\<close>

fun vm_packets :: "u8 list \<Rightarrow> u8 list \<Rightarrow> u8 list \<Rightarrow> nat \<Rightarrow> ((u8 list \<times> u16) list \<times> u8 list) option" where
  "vm_packets prog fv pkt 0 = Some ([], fv)"
| "vm_packets prog fv pkt (Suc n) = do {
     s \<leftarrow> run_program prog \<lparr>vr_flow_var = fv, vr_pkt = pkt, vr_new_pkt_size = 0\<rparr>;
     (ps, fv) \<leftarrow> vm_packets prog (vr_flow_var s) pkt n;
     Some ((vr_pkt s, vr_new_pkt_size s) # ps, fv) }"

definition cut_packet :: "u8 list \<times> u16 \<Rightarrow> u8 list" where
  "cut_packet p = (if snd p = 0 then fst p else take (unat (snd p)) (fst p))"

text \<open>
  \<open>pkt1\<close> is the packet of the stream with its addresses set. The program has changed only bytes of
  fields that its instructions write, and it has repaired the IPv4 header if it ends with that.
\<close>

definition packet_ok :: "stream_vm \<Rightarrow> u8 list \<Rightarrow> u8 list \<Rightarrow> bool" where
  "packet_ok vm pkt1 w \<longleftrightarrow> length w = length pkt1 \<and>
     (\<forall>k. (\<forall>i\<in>set (m_inst_list vm). \<not> ins_writes vm i k) \<longrightarrow> w ! k = pkt1 ! k) \<and>
     (\<forall>insts off n. m_inst_list vm = insts @ [FixChecksumIpv4 off] \<and> getHeaderLength pkt1 (unat off) = Some n \<and> 20 \<le> n \<longrightarrow>
        isChecksumOK w (unat off) = Some True)"

text \<open>The frame of a mbuf: its bytes on the wire are the packet, cut to the new size if there is one.\<close>

definition mbuf_ok :: "stream_vm \<Rightarrow> u8 list \<Rightarrow> vm_mbuf \<Rightarrow> u8 list \<times> u16 \<Rightarrow> bool" where
  "mbuf_ok vm pkt1 m p \<longleftrightarrow> wire m = Some (cut_packet p) \<and> unat (mb_pkt_len m) = length (cut_packet p) \<and> packet_ok vm pkt1 (fst p) \<and>
     ((\<forall>name. ChangePktSize name \<notin> set (m_inst_list vm)) \<longrightarrow> snd p = 0)"

definition prefix_of :: "stream_vm_dp \<Rightarrow> u8 list \<Rightarrow> nat" where
  "prefix_of dp pkt = min (unat (dp_prefix_size dp)) (length pkt)"

definition node_ok :: "stream_vm_dp \<Rightarrow> u8 list \<Rightarrow> vm_node \<Rightarrow> bool" where
  "node_ok dp pkt1 node \<longleftrightarrow> length (m_vm_flow_var node) = length (dp_bss dp) \<and> m_vm_program node = dp_program dp \<and>
     m_original_packet_data_prefix node = take (prefix_of dp pkt1) pkt1 \<and>
     m_const_mbuf node = (if prefix_of dp pkt1 < length pkt1 then Some (drop (prefix_of dp pkt1) pkt1) else None)"

lemma vm_compile_prefix:
  assumes "vm_compile rnd pkt vm = Ok (vm', Some dp)" and "length pkt < 65536"
  shows "dp_max_pkt_offset_change dp \<le> prefix_of dp pkt" "12 \<le> length pkt \<Longrightarrow> 12 \<le> prefix_of dp pkt"
    "FixChecksumIpv4 off \<in> set (m_inst_list vm') \<Longrightarrow>
       header_fits (dp_max_pkt_offset_change dp) pkt (unat off) \<and> unat off + 20 \<le> dp_max_pkt_offset_change dp"
    "dp_bss dp \<noteq> []" "dp_is_random_seed dp \<Longrightarrow> 4 \<le> length (dp_bss dp)"
proof -
  obtain vm1 where vm1: "vm' = vm1\<lparr>m_pkt := None\<rparr>" "compiled vm1" "m_pkt vm1 = Some pkt" "m_pkt_size vm1 = of_nat (length pkt)"
      "m_bss vm1 = Some (dp_bss dp)" "dp_max_pkt_offset_change dp = m_max_field_update vm1" "dp_prefix_size dp = m_prefix_size vm1"
      "dp_is_random_seed dp = m_is_random_var vm1"
    using vm_compile_Some [OF assms(1)] by blast
  have len: "unat (m_pkt_size vm1) = length pkt" unfolding vm1(4) by (rule unat_of_nat_less) (use assms(2) in simp)
  have M: "m_max_field_update vm1 \<le> 512" "m_max_field_update vm1 \<le> unat (m_pkt_size vm1)"
    using vm1(2) compiled_max_field [OF vm1(2)] by (simp_all add: compiled_def)
  have p: "dp_prefix_size dp = calc_writable_mbuf_size (of_nat (m_max_field_update vm1)) (m_pkt_size vm1)"
    using vm1(2,7) by (simp add: compiled_def)
  show "dp_max_pkt_offset_change dp \<le> prefix_of dp pkt"
    using calc_writable_covers [OF M] unfolding prefix_of_def p len vm1(6) .
  show "12 \<le> prefix_of dp pkt" if "12 \<le> length pkt"
    using calc_writable_pos [OF M(1), of "m_pkt_size vm1"] that unfolding prefix_of_def p len by simp
  show "header_fits (dp_max_pkt_offset_change dp) pkt (unat off) \<and> unat off + 20 \<le> dp_max_pkt_offset_change dp"
    if off: "FixChecksumIpv4 off \<in> set (m_inst_list vm')"
  proof -
    obtain cs where cs: "list_all2 (generates vm1) (m_inst_list vm1) cs" "\<forall>c\<in>set cs. snd c \<le> m_max_field_update vm1"
      using vm1(2) by (auto simp: compiled_def)
    obtain j where j: "j < length (m_inst_list vm1)" "m_inst_list vm1 ! j = FixChecksumIpv4 off"
      using off unfolding vm1(1) by (auto simp: in_set_conv_nth)
    define c where "c = cs ! j"
    have c: "generates vm1 (FixChecksumIpv4 off) (fst c, snd c)" "c \<in> set cs"
      using cs(1) j by (auto simp: list_all2_conv_all_nth c_def)
    have "header_fits (snd c) pkt (unat off)" using generates_Fix(3) [OF c(1) vm1(3)] .
    moreover have "unat off + 20 \<le> snd c" using c(1) by (auto simp: generates_def gen_ins_def gen_fix_def Let_def split: option.splits if_splits)
    ultimately show ?thesis using cs(2) c(2) header_fits_mono unfolding vm1(6) by (meson le_trans)
  qed
  have bss: "length (dp_bss dp) = m_cur_var_offset vm1" using compiled_bss(2) [OF vm1(2)] vm1(5) by auto
  then show "dp_bss dp \<noteq> []" using compiled_bss_pos [OF vm1(2)] by auto
  show "4 \<le> length (dp_bss dp)" if "dp_is_random_seed dp"
    using that vm1(2) unfolding bss vm1(8) by (simp add: compiled_def)
qed

text \<open>
  Sending one packet keeps the node and yields what the program makes of the whole packet, though
  the program runs over the prefix alone.
\<close>

lemma alloc_node_ok:
  assumes c: "vm_compile rnd pkt vm = Ok (vm', Some dp)" and "random_flag vm" and "vm_ok vm'" and "length pkt < 65536"
    and pkt1: "length pkt1 = length pkt" "drop 12 pkt1 = drop 12 pkt"
    and offs: "\<forall>off. FixChecksumIpv4 off \<in> set (m_inst_list vm') \<longrightarrow> 12 \<le> unat off"
    and var: "(\<forall>name. ChangePktSize name \<notin> set (m_inst_list vm')) \<or> prefix_of dp pkt < length pkt"
    and node: "node_ok dp pkt1 node" and room: "prefix_of dp pkt \<le> length room"
  shows "\<exists>m s. run_program (dp_program dp) \<lparr>vr_flow_var = m_vm_flow_var node, vr_pkt = pkt1, vr_new_pkt_size = 0\<rparr> = Some s \<and>
    alloc_node_with_vm (Some room) True node = Some (Some m, node\<lparr>m_vm_flow_var := vr_flow_var s\<rparr>) \<and>
    node_ok dp pkt1 (node\<lparr>m_vm_flow_var := vr_flow_var s\<rparr>) \<and> mbuf_ok vm' pkt1 m (vr_pkt s, vr_new_pkt_size s)"
proof -
  let ?M = "dp_max_pkt_offset_change dp" and ?n = "prefix_of dp pkt" and ?fv = "m_vm_flow_var node"
  let ?run = "\<lambda>buf. run_program (dp_program dp) \<lparr>vr_flow_var = ?fv, vr_pkt = buf, vr_new_pkt_size = 0\<rparr>"
  note pre = vm_compile_prefix [OF c assms(4)]
  have n1: "prefix_of dp pkt1 = ?n" "?n \<le> length pkt1" using pkt1(1) by (simp_all add: prefix_of_def)
  have same: "pkt1 ! i = pkt ! i" if "12 \<le> i" "i < length pkt" for i
    using arg_cong [OF pkt1(2), of "\<lambda>xs. xs ! (i - 12)"] that pkt1(1) by simp
  have off_in: "12 \<le> unat off" "unat off < ?n" if "FixChecksumIpv4 off \<in> set (m_inst_list vm')" for off
    using offs that pre(1) pre(3) [OF that] by auto
  have hdr: "pkt1 ! unat off = pkt ! unat off" if "FixChecksumIpv4 off \<in> set (m_inst_list vm')" for off
    using same off_in [OF that] n1(2) pkt1(1) by simp
  then have sh: "same_headers vm' pkt pkt1" "same_headers vm' pkt (take ?n pkt1)"
    using off_in by (simp_all add: same_headers_def)
  have len: "length ?fv = length (dp_bss dp)" "?M \<le> length pkt1" "?M \<le> length (take ?n pkt1)"
    using node n1(2) pre(1) by (simp_all add: node_ok_def)
  obtain s0 where s0: "?run (take ?n pkt1) = Some s0" "length (vr_pkt s0) = ?n"
    using vm_compile_run [OF c assms(2,3) len(1,3) sh(2)] n1(2) by auto
  have frame: "?run (take ?n pkt1 @ r) = Some (add_room r s0)" for r
    using run_program_frame [OF s0(1), of r] by (simp add: add_room_def)
  define s where "s = add_room (drop ?n pkt1) s0"
  have s: "?run pkt1 = Some s" using frame [of "drop ?n pkt1"] by (simp add: s_def)
  obtain "length (vr_flow_var s) = length (dp_bss dp)" "length (vr_pkt s) = length pkt1"
      "\<forall>k. (\<forall>i\<in>set (m_inst_list vm'). \<not> ins_writes vm' i k) \<longrightarrow> vr_pkt s ! k = pkt1 ! k"
      "(\<forall>name. ChangePktSize name \<notin> set (m_inst_list vm')) \<longrightarrow> vr_new_pkt_size s = 0"
      "\<forall>insts off n. m_inst_list vm' = insts @ [FixChecksumIpv4 off] \<and> getHeaderLength pkt (unat off) = Some n \<and> 20 \<le> n \<longrightarrow>
         isChecksumOK (vr_pkt s) (unat off) = Some True"
    using vm_compile_run [OF c assms(2,3) len(1,2) sh(1)] unfolding s by auto
  note run = this
  have "getHeaderLength pkt (unat off) = getHeaderLength pkt1 (unat off)" if "FixChecksumIpv4 off \<in> set (m_inst_list vm')" for off
    using hdr [OF that] off_in [OF that] n1(2) pkt1(1) getHeaderLength_in [of "unat off" pkt] getHeaderLength_in [of "unat off" pkt1] by simp
  then have ok: "packet_ok vm' pkt1 (vr_pkt s)" using run(2,3,5) unfolding packet_ok_def by auto
  let ?m = "add_room (drop ?n room) s0"
  have const: "m_const_mbuf node = (if ?n < length pkt1 then Some (drop ?n pkt1) else None)" using node n1(1) by (simp add: node_ok_def)
  have sz: "vr_new_pkt_size s0 = 0 \<or> ?n < length pkt1" using var run(4) pkt1(1) by (auto simp: s_def add_room_def)
  obtain m where m: "finish_packet True ?n (m_const_mbuf node) (vr_new_pkt_size s0)
        \<lparr>mb_data = vr_pkt ?m, mb_data_len = of_nat ?n, mb_pkt_len = of_nat ?n, mb_next = None\<rparr> = Some m"
      "wire m = Some (cut_packet (vr_pkt s, vr_new_pkt_size s))" "unat (mb_pkt_len m) = length (cut_packet (vr_pkt s, vr_new_pkt_size s))"
    using finish_packet_ok [of "vr_pkt s0" ?n "drop ?n pkt1" "length pkt1" "drop ?n room" _ "m_const_mbuf node" "vr_new_pkt_size s0"]
      s0(2) const sz n1(2) assms(4) pkt1(1) by (auto simp: s_def add_room_def cut_packet_def)
  have "m_original_packet_data_prefix node = take ?n pkt1" "m_vm_program node = dp_program dp" "length (take ?n pkt1) = ?n"
    using node n1 by (simp_all add: node_ok_def)
  then have "alloc_node_with_vm (Some room) True node = Some (Some m, node\<lparr>m_vm_flow_var := vr_flow_var s\<rparr>)"
    using room frame [of "drop ?n room"] m(1) by (simp add: alloc_node_with_vm_def Let_def s_def add_room_def)
  moreover have "node_ok dp pkt1 (node\<lparr>m_vm_flow_var := vr_flow_var s\<rparr>)" using node run(1) by (simp add: node_ok_def)
  moreover have "mbuf_ok vm' pkt1 m (vr_pkt s, vr_new_pkt_size s)" using m(2,3) ok run(4) by (simp add: mbuf_ok_def)
  ultimately show ?thesis using s by blast
qed

lemma send_packets_ok:
  assumes "vm_compile rnd pkt vm = Ok (vm', Some dp)" and "random_flag vm" and "vm_ok vm'" and "length pkt < 65536"
    and "length pkt1 = length pkt" "drop 12 pkt1 = drop 12 pkt"
    and "\<forall>off. FixChecksumIpv4 off \<in> set (m_inst_list vm') \<longrightarrow> 12 \<le> unat off"
    and "(\<forall>name. ChangePktSize name \<notin> set (m_inst_list vm')) \<or> prefix_of dp pkt < length pkt"
    and "node_ok dp pkt1 node" and "\<forall>room\<in>set rooms. prefix_of dp pkt \<le> length room"
  shows "\<exists>ms node' ps. send_packets rooms node = Some (ms, node') \<and>
    vm_packets (dp_program dp) (m_vm_flow_var node) pkt1 (length rooms) = Some (ps, m_vm_flow_var node') \<and> list_all2 (mbuf_ok vm' pkt1) ms ps"
  using assms(9,10)
proof (induction rooms arbitrary: node)
  case (Cons room rooms)
  obtain m s where m: "run_program (dp_program dp) \<lparr>vr_flow_var = m_vm_flow_var node, vr_pkt = pkt1, vr_new_pkt_size = 0\<rparr> = Some s"
      "alloc_node_with_vm (Some room) True node = Some (Some m, node\<lparr>m_vm_flow_var := vr_flow_var s\<rparr>)"
      "node_ok dp pkt1 (node\<lparr>m_vm_flow_var := vr_flow_var s\<rparr>)" "mbuf_ok vm' pkt1 m (vr_pkt s, vr_new_pkt_size s)"
    using alloc_node_ok [OF assms(1-8) Cons.prems(1), of room] Cons.prems(2) by (meson list.set_intros(1))
  let ?node1 = "node\<lparr>m_vm_flow_var := vr_flow_var s\<rparr>"
  obtain ms node' ps where ms: "send_packets rooms ?node1 = Some (ms, node')"
      "vm_packets (dp_program dp) (vr_flow_var s) pkt1 (length rooms) = Some (ps, m_vm_flow_var node')" "list_all2 (mbuf_ok vm' pkt1) ms ps"
    using Cons.IH [OF m(3)] Cons.prems(2) by auto
  show ?case using m(1,2,4) ms
    by (intro exI [of _ "m # ms"] exI [of _ node'] exI [of _ "(vr_pkt s, vr_new_pkt_size s) # ps"]) simp
qed simp

lemma add_stream_vm_ok:
  assumes "vm_compile rnd pkt vm = Ok (vm', Some dp)" and "length pkt < 65536" and "12 \<le> length pkt" and "length cfg = 12"
  shows "\<exists>pkt1 node. update_mac_addr ov_src ov_dst cfg pkt = Some pkt1 \<and> length pkt1 = length pkt \<and> drop 12 pkt1 = drop 12 pkt \<and>
    add_stream_vm ov_src ov_dst cfg seed pkt dp = Some node \<and> node_ok dp pkt1 node \<and>
    (if dp_is_random_seed dp \<and> seed \<noteq> 0 then mem_put (dp_bss dp) 0 seed else Some (dp_bss dp)) = Some (m_vm_flow_var node)"
proof -
  note pre = vm_compile_prefix [OF assms(1,2)]
  define pkt1 where "pkt1 = mac_head ov_src ov_dst cfg (take 12 pkt) @ drop 12 pkt"
  have mac: "update_mac_addr ov_src ov_dst cfg pkt = Some pkt1" unfolding pkt1_def by (rule update_mac_addr_eq [OF assms(3,4)])
  have head: "length (mac_head ov_src ov_dst cfg (take 12 pkt)) = 12" using assms(3,4) by (intro length_mac_head) simp_all
  then have pkt1: "length pkt1 = length pkt" "drop 12 pkt1 = drop 12 pkt" using assms(3) by (simp_all add: pkt1_def)
  let ?n = "prefix_of dp pkt"
  have n: "12 \<le> ?n" "?n \<le> length pkt" using pre(2) [OF assms(3)] by (simp_all add: prefix_of_def)
  have p: "update_mac_addr ov_src ov_dst cfg (take ?n pkt) = Some (take ?n pkt1)" by (rule update_mac_addr_take [OF n assms(4) mac])
  have d: "drop k pkt1 = drop k pkt" if "12 \<le> k" for k
    using arg_cong [OF pkt1(2), of "drop (k - 12)"] that by simp
  obtain fv where fv: "(if dp_is_random_seed dp \<and> seed \<noteq> 0 then mem_put (dp_bss dp) 0 seed else Some (dp_bss dp)) = Some fv"
      "length fv = length (dp_bss dp)"
    using pre(5) mem_store_ex [of 0 "dp_bss dp" seed] by (cases "dp_is_random_seed dp \<and> seed \<noteq> 0") auto
  have header: "(if length pkt < unat (dp_prefix_size dp) then length pkt else unat (dp_prefix_size dp)) = ?n" by (simp add: prefix_of_def)
  define node where "node = \<lparr>m_vm_flow_var = fv, m_vm_program = dp_program dp, m_original_packet_data_prefix = take ?n pkt1,
    m_const_mbuf = (if unat (dp_prefix_size dp) < length pkt then Some (drop (unat (dp_prefix_size dp)) pkt) else None)\<rparr>"
  have "add_stream_vm ov_src ov_dst cfg seed pkt dp = Some node"
    unfolding add_stream_vm_def Let_def header using fv(1) p n(1) pre(4) by (simp add: node_def)
  moreover have "node_ok dp pkt1 node"
  proof -
    have "prefix_of dp pkt1 = ?n" using pkt1(1) by (simp add: prefix_of_def)
    moreover have "unat (dp_prefix_size dp) = ?n" if "unat (dp_prefix_size dp) < length pkt" using that by (simp add: prefix_of_def)
    moreover have "?n < length pkt \<longleftrightarrow> unat (dp_prefix_size dp) < length pkt" by (auto simp: prefix_of_def)
    ultimately show ?thesis using fv(2) d [OF n(1)] pkt1(1) by (auto simp: node_ok_def node_def)
  qed
  moreover have "m_vm_flow_var node = fv" by (simp add: node_def)
  ultimately show ?thesis using mac pkt1 fv(1) by blast
qed

section \<open>Properties\<close>

text \<open>
  C7. The packets of a stream with a VM. From a compiled stream the node is created, and with
  buffers that hold the prefix the n-th packet on the wire is what the n-th run of the program
  makes of the whole packet of the stream with the addresses of the configuration, cut to the size
  that this run has set if it has set one, though the node runs the program over its prefix alone
  and shares the rest. The runs start from the initial flow variables, with the seed of the node in
  a random stream. A run changes only bytes of fields that an instruction of the stream writes, and
  the IPv4 header verifies if the last instruction fixes it. This holds for a program of fewer than
  64 KiB that satisfies the conditions of \<open>vm_ok\<close>, checksums behind the addresses, and, with a
  size variable, a packet that is longer than its prefix.
\<close>

theorem vm_node_packets_ok:
  assumes "vm_compile rnd pkt vm = Ok (vm', Some dp)" and "random_flag vm" and "vm_ok vm'" and "12 \<le> length pkt" and "length pkt < 65536"
    and "length cfg = 12" and "\<forall>off. FixChecksumIpv4 off \<in> set (m_inst_list vm') \<longrightarrow> 12 \<le> unat off"
    and "(\<forall>name. ChangePktSize name \<notin> set (m_inst_list vm')) \<or> prefix_of dp pkt < length pkt"
    and "\<forall>room\<in>set rooms. prefix_of dp pkt \<le> length room"
  shows "\<exists>pkt1 node ms node' ps. update_mac_addr ov_src ov_dst cfg pkt = Some pkt1 \<and>
    add_stream_vm ov_src ov_dst cfg seed pkt dp = Some node \<and>
    (if dp_is_random_seed dp \<and> seed \<noteq> 0 then mem_put (dp_bss dp) 0 seed else Some (dp_bss dp)) = Some (m_vm_flow_var node) \<and>
    send_packets rooms node = Some (ms, node') \<and>
    vm_packets (dp_program dp) (m_vm_flow_var node) pkt1 (length rooms) = Some (ps, m_vm_flow_var node') \<and>
    list_all2 (mbuf_ok vm' pkt1) ms ps"
proof -
  obtain pkt1 node where *: "update_mac_addr ov_src ov_dst cfg pkt = Some pkt1" "length pkt1 = length pkt" "drop 12 pkt1 = drop 12 pkt"
      "add_stream_vm ov_src ov_dst cfg seed pkt dp = Some node" "node_ok dp pkt1 node"
      "(if dp_is_random_seed dp \<and> seed \<noteq> 0 then mem_put (dp_bss dp) 0 seed else Some (dp_bss dp)) = Some (m_vm_flow_var node)"
    using add_stream_vm_ok [OF assms(1,5,4,6)] by blast
  show ?thesis using send_packets_ok [OF assms(1-3,5) *(2,3) assms(7,8) *(5) assms(9)] *(1,4,6) by blast
qed

lemma vm_node_packets_ok_witness:
  "\<exists>pkt1 node ms node' ps. update_mac_addr True stPKT (replicate 12 1) demo_pkt = Some pkt1 \<and>
    add_stream_vm True stPKT (replicate 12 1) 0 demo_pkt demo_dp = Some node \<and>
    send_packets [replicate 70 0, replicate 80 1] node = Some (ms, node') \<and>
    vm_packets (dp_program demo_dp) (m_vm_flow_var node) pkt1 2 = Some (ps, m_vm_flow_var node') \<and> list_all2 (mbuf_ok demo_compiled pkt1) ms ps"
proof -
  have "12 \<le> length demo_pkt" "length demo_pkt < 65536" "length (replicate 12 (1 :: u8)) = 12" "prefix_of demo_dp demo_pkt = 64"
    by (simp_all add: demo_pkt_def demo_header_def prefix_of_def demo_dp_def)
  moreover have "\<forall>off. FixChecksumIpv4 off \<in> set (m_inst_list demo_compiled) \<longrightarrow> 12 \<le> unat off"
    "\<forall>name. ChangePktSize name \<notin> set (m_inst_list demo_compiled)" by (auto simp: demo_compiled_def demo_vm_simp)
  moreover have "\<forall>room\<in>set [replicate 70 0, replicate 80 (1 :: u8)]. 64 \<le> length room" by simp
  ultimately obtain pkt1 node ms node' ps where "update_mac_addr True stPKT (replicate 12 1) demo_pkt = Some pkt1"
      "add_stream_vm True stPKT (replicate 12 1) 0 demo_pkt demo_dp = Some node"
      "send_packets [replicate 70 0, replicate 80 1] node = Some (ms, node')"
      "vm_packets (dp_program demo_dp) (m_vm_flow_var node) pkt1 (length [replicate 70 0, replicate 80 (1 :: u8)]) = Some (ps, m_vm_flow_var node')"
      "list_all2 (mbuf_ok demo_compiled pkt1) ms ps"
    using vm_node_packets_ok [OF demo_vm_compile demo_ok(1,2), of "replicate 12 1" "[replicate 70 0, replicate 80 1]" True stPKT 0] by metis
  moreover have "length [replicate 70 0, replicate 80 (1 :: u8)] = 2" by simp
  ultimately show ?thesis by metis
qed

text \<open>A size variable that counts down from 1500, on a packet of 70 bytes.\<close>

definition dec_size :: ins_flow_man where
  "dec_size = \<lparr>fm_var_name = ''s'', fm_size_bytes = 2, fm_op = FLOW_VAR_OP_DEC, fm_init_value = 1500, fm_min_value = 60,
     fm_max_value = 1500, fm_step = 1\<rparr>"

definition dec_size_vm :: stream_vm where
  "dec_size_vm = add_instruction (add_instruction new_stream_vm (FlowMan dec_size)) (ChangePktSize ''s'')"

definition dec_size_dp :: stream_vm_dp where
  "dec_size_dp = \<lparr>dp_bss = [0xDD, 5], dp_program = concat (map encode_ins
       [ditDEC16 \<lparr>fv_offset = 0, fv_min = 60, fv_max = 70\<rparr>, itPKT_SIZE_CHANGE \<lparr>ps_flow_offset = 0\<rparr>]),
     dp_max_pkt_offset_change = 0, dp_prefix_size = 70, dp_is_pkt_size_var = True, dp_is_random_seed = False\<rparr>"

lemma dec_size_compile: "\<exists>vm'. vm_compile rnd (replicate 70 0) dec_size_vm = Ok (vm', Some dec_size_dp)"
  by (simp add: dec_size_vm_def add_instruction_def new_stream_vm_def dec_size_def vm_compile_def compile_eval clip_size_def struct_eval Let_def
      generate_dp_object_def new_stream_vm_dp_def dec_size_dp_def)

lemma dec_size_run:
  "run_program (dp_program dec_size_dp) \<lparr>vr_flow_var = [0xDD, 5], vr_pkt = p, vr_new_pkt_size = 0\<rparr> =
     Some \<lparr>vr_flow_var = [0xDC, 5], vr_pkt = p, vr_new_pkt_size = 1500\<rparr>"
  by (simp add: dec_size_dp_def run_program_encode del: concat.simps list.map)
    (simp add: with_flow_var_def run_dec_def upd_var_def mem_get_def mem_put_def word_of_bytes_def dec_val_def bytes_of_def le_bytes_numeral
      run_pkt_size_def)

text \<open>
  C33. A decreasing packet size variable sends memory behind the packet. The compiler clips the range
  of the variable to the packet but not its initial value, which a decreasing variable has at the
  old maximum: with 60 to 1500 on a packet of 70 bytes, the first packet has 1500 bytes, of which
  1430 are what the buffer held before.
\<close>

theorem pkt_size_dec_sends_stale_bytes:
  "\<exists>vm' dp node m node'. vm_compile rnd (replicate 70 0) dec_size_vm = Ok (vm', Some dp) \<and>
    add_stream_vm True stPKT cfg 0 (replicate 70 0) dp = Some node \<and>
    alloc_node_with_vm (Some (replicate 2048 stale)) True node = Some (Some m, node') \<and>
    wire m = Some (replicate 70 0 @ replicate 1430 stale)"
proof -
  obtain vm' where vm': "vm_compile rnd (replicate 70 0) dec_size_vm = Ok (vm', Some dec_size_dp)" using dec_size_compile by blast
  define node where "node = \<lparr>m_vm_flow_var = [0xDD, 5], m_vm_program = dp_program dec_size_dp,
    m_original_packet_data_prefix = replicate 70 0, m_const_mbuf = None\<rparr>"
  have node: "add_stream_vm True stPKT cfg 0 (replicate 70 0) dec_size_dp = Some node"
    by (simp add: add_stream_vm_def dec_size_dp_def update_mac_addr_def Let_def node_def)
  define m where "m = \<lparr>mb_data = replicate 70 0 @ replicate 1978 stale, mb_data_len = 1500, mb_pkt_len = 1500, mb_next = None\<rparr>"
  have alloc: "alloc_node_with_vm (Some (replicate 2048 stale)) True node = Some (Some m, node\<lparr>m_vm_flow_var := [0xDC, 5]\<rparr>)"
    by (simp add: alloc_node_with_vm_def node_def Let_def dec_size_run finish_packet_def m_def)
  have "wire m = Some (replicate 70 0 @ replicate 1430 stale)" by (simp add: wire_def seg_bytes_def m_def)
  with vm' node alloc show ?thesis by blast
qed

end
