(* ===== verification/Vm_Range.thy ===== *)
theory Vm_Range
  imports Vm_Values
begin

text \<open>
  The ranges of flow variables: counters with a step and random variables, where they stay in the range of
  the instruction, and where the code lets them leave it.
\<close>

section \<open>A variable that stays in a set\<close>

text \<open>The commands take a value with \<open>P\<close> to one with \<open>Q\<close>.\<close>

definition takes :: "dp_ins list \<Rightarrow> nat \<Rightarrow> ('a::len word \<Rightarrow> bool) \<Rightarrow> ('a word \<Rightarrow> bool) \<Rightarrow> bool" where
  "takes cmd off P Q \<longleftrightarrow> (\<forall>s s' x. exec_all cmd s = Some s' \<and> mem_get (vr_flow_var s) off = Some x \<and> P x \<longrightarrow>
     (\<exists>y. mem_get (vr_flow_var s') off = Some y \<and> Q y))"

lemma takes_one_run:
  fixes P Q :: "'a::len word \<Rightarrow> bool"
  assumes "takes cmd off P Q" and "\<forall>c\<in>set pre \<union> set post. \<forall>k. off \<le> k \<and> k < off + LENGTH('a) div 8 \<longrightarrow> \<not> touches c k"
    and "mem_get (vr_flow_var s) off = Some x" and "P x" and "exec_all (pre @ cmd @ post) s = Some s'"
  shows "\<exists>y. mem_get (vr_flow_var s') off = Some y \<and> Q y"
proof -
  obtain s1 s2 where s: "exec_all pre s = Some s1" "exec_all cmd s1 = Some s2" "exec_all post s2 = Some s'"
    using assms(5) by (auto simp: exec_all_append bind_eq_Some_conv)
  have same: "mem_get a off = (mem_get b off :: 'a word option)"
    if "length a = length b \<and> (\<forall>k. off \<le> k \<and> k < off + LENGTH('a) div 8 \<longrightarrow> a ! k = b ! k)" for a b
    using reads_word [of off, where 'a = 'a] that unfolding reads_at_def by blast
  have "mem_get (vr_flow_var s1) off = (mem_get (vr_flow_var s) off :: 'a word option)"
    by (rule same) (use exec_all_touches [OF s(1)] assms(2) in simp)
  then obtain y where "mem_get (vr_flow_var s2) off = Some y" "Q y" using s(2) assms(1,3,4) by (auto simp: takes_def)
  moreover have "mem_get (vr_flow_var s') off = (mem_get (vr_flow_var s2) off :: 'a word option)"
    by (rule same) (use exec_all_touches [OF s(3)] assms(2) in simp)
  ultimately show ?thesis by simp
qed

lemma takes_many_runs:
  fixes P Q :: "'a::len word \<Rightarrow> bool"
  assumes "takes cmd off P Q" and "\<forall>c\<in>set pre \<union> set post. \<forall>k. off \<le> k \<and> k < off + LENGTH('a) div 8 \<longrightarrow> \<not> touches c k"
    and "\<And>x. Q x \<Longrightarrow> P x" and "mem_get fv off = Some x" and "P x" and "bufs = [] \<Longrightarrow> Q x"
    and "run_packets (concat (map encode_ins (pre @ cmd @ post))) bufs fv = Some fv'"
  shows "\<exists>y. mem_get fv' off = Some y \<and> Q y"
  using assms(4-7)
proof (induction bufs arbitrary: fv x)
  case (Cons buf bufs)
  obtain s where s: "exec_all (pre @ cmd @ post) \<lparr>vr_flow_var = fv, vr_pkt = buf, vr_new_pkt_size = 0\<rparr> = Some s"
      "run_packets (concat (map encode_ins (pre @ cmd @ post))) bufs (vr_flow_var s) = Some fv'"
    using Cons.prems(4) by (auto simp: bind_eq_Some_conv run_program_encode simp del: concat.simps list.map map_append concat_append)
  obtain y where y: "mem_get (vr_flow_var s) off = Some y" "Q y" using takes_one_run [OF assms(1,2) _ Cons.prems(2) s(1)] Cons.prems(1) by auto
  show ?case by (rule Cons.IH [OF y(1) assms(3) [OF y(2)] y(2) s(2)])
qed simp

lemma var_ends_in:
  fixes P Q :: "'a::len word \<Rightarrow> bool"
  assumes "vm_compile rnd pkt vm = Ok (vm', Some dp)" and "random_flag vm" and "vm_ok vm'" and "FlowMan m \<in> set (m_inst_list vm')"
    and "\<forall>buf\<in>set bufs. dp_max_pkt_offset_change dp \<le> length buf \<and> same_headers vm' pkt buf"
    and "byte_width TYPE('a)" and "unat (fm_size_bytes m) = LENGTH('a) div 8"
    and "\<And>off. takes (flow_var_cmd off m) (unat off) P Q" and "\<And>x. Q x \<Longrightarrow> P x"
    and "P (ucast (get_bss_init_value m))" and "bufs = [] \<Longrightarrow> Q (ucast (get_bss_init_value m))"
  shows "\<exists>r fv y. m_flow_var_offset vm' (fm_var_name m) = Some r \<and> rec_size r = fm_size_bytes m \<and>
    run_packets (dp_program dp) bufs (dp_bss dp) = Some fv \<and>
    le_nat (take (unat (rec_size r)) (drop (rec_offset r) fv)) = unat y \<and> Q y"
proof (rule flow_var_program [OF assms(1-7)])
  fix r pre off post fv
  assume p: "m_flow_var_offset vm' (fm_var_name m) = Some r" "rec_size r = fm_size_bytes m"
    "dp_program dp = concat (map encode_ins (pre @ flow_var_cmd off m @ post))" "unat off = rec_offset r"
    "\<forall>c\<in>set pre \<union> set post. \<forall>k. rec_offset r \<le> k \<and> k < rec_offset r + LENGTH('a) div 8 \<longrightarrow> \<not> touches c k"
    "run_packets (dp_program dp) bufs (dp_bss dp) = Some fv"
    "mem_get (dp_bss dp) (rec_offset r) = Some (ucast (get_bss_init_value m) :: 'a word)"
  obtain y where y: "mem_get fv (rec_offset r) = Some y" "Q y"
    using takes_many_runs [OF assms(8) [of off, unfolded p(4)] p(5) assms(9) p(7) assms(10,11) p(6) [unfolded p(3)]] by blast
  have "le_nat (take (LENGTH('a) div 8) (drop (rec_offset r) fv)) = unat y" by (rule get_le_nat [OF assms(6) y(1)])
  then show ?thesis using p(1,2,6) y(2) assms(7) by auto
qed

lemma takes_upd_var:
  fixes f :: "'a::len word \<Rightarrow> 'a word"
  assumes "byte_width TYPE('a)" and "exec_all cmd = with_flow_var (upd_var off f)" and "\<And>x. P x \<Longrightarrow> Q (f x)"
  shows "takes cmd off P Q"
  using applies_word [OF assms(1,2)] assms(3) by (fastforce simp: takes_def applies_def)

section \<open>Counters with a step\<close>

lemma inc_step_int_between:
  fixes mn mx st p :: "'a::len word"
  assumes "uint mn \<le> uint mx" and "between mn mx p"
  shows "between mn mx (inc_step_int mn mx st p)"
proof (cases "uint p > uint mx - uint st")
  case False
  then have le: "uint p + uint st \<le> uint mx" by simp
  moreover have "uint mx < 2 ^ LENGTH('a)" by (rule uint_bounded)
  ultimately have "uint p + uint st < 2 ^ LENGTH('a)" by (rule order.strict_trans1)
  then have "uint (p + st) = uint p + uint st" by (simp add: uint_plus_if')
  then have "between mn mx (p + st)" unfolding between_def using assms(2) [unfolded between_def] le uint_ge_0 [of st] by linarith
  then show ?thesis using False by (simp add: inc_step_int_def)
qed (use assms(1) in \<open>simp add: inc_step_int_def between_def\<close>)

lemma dec_step_int_between:
  fixes mn mx st p :: "'a::len word"
  assumes "uint mn \<le> uint mx" and "between mn mx p"
  shows "between mn mx (dec_step_int mn mx st p)"
proof (cases "uint p < uint mn + uint st")
  case False
  then have "uint st \<le> uint p" using uint_ge_0 [of mn] by linarith
  then have "uint (p - st) = uint p - uint st" by (simp add: uint_sub_if')
  then have "between mn mx (p - st)" unfolding between_def using assms(2) [unfolded between_def] False uint_ge_0 [of st] by linarith
  then show ?thesis using False by (simp add: dec_step_int_def)
qed (use assms(1) in \<open>simp add: dec_step_int_def between_def\<close>)

text \<open>Without wrap-around the two forms agree.\<close>

lemma step_word_eq_int:
  fixes mn mx st p :: "'a::len word"
  shows "uint st \<le> uint mx \<Longrightarrow> inc_step_word mn mx st p = inc_step_int mn mx st p"
    and "uint mn + uint st < 2 ^ LENGTH('a) \<Longrightarrow> dec_step_word mn mx st p = dec_step_int mn mx st p"
  by (simp_all add: inc_step_word_def inc_step_int_def dec_step_word_def dec_step_int_def word_less_def uint_sub_if' uint_plus_if')

lemma counter_val_between:
  fixes p :: "'a::len word"
  assumes "uint mn \<le> uint mx" and "between mn mx p"
  shows "between mn mx (inc_val mn mx p)" and "between mn mx (dec_val mn mx p)"
  using assms inc.inv_step [of mn mx p] dec.inv_step [of mn mx p] by simp_all

definition step_val :: "ins_flow_man \<Rightarrow> 'a::len word \<Rightarrow> 'a word" where
  "step_val m = (let mn = ucast (fm_min_value m); mx = ucast (fm_max_value m); st = ucast (fm_step m) in
     if fm_step m = 1 then counter_val m
     else if fm_size_bytes m = 1 \<or> fm_size_bytes m = 2 then (if fm_op m = FLOW_VAR_OP_DEC then dec_step_int mn mx st else inc_step_int mn mx st)
     else (if fm_op m = FLOW_VAR_OP_DEC then dec_step_word mn mx st else inc_step_word mn mx st))"

lemma step_cmd:
  assumes "fm_op m \<noteq> FLOW_VAR_OP_RANDOM"
  shows "fm_size_bytes m = 1 \<Longrightarrow> exec_all (flow_var_cmd off m) = with_flow_var (upd_var (unat off) (step_val m :: u8 \<Rightarrow> u8))"
    "fm_size_bytes m = 2 \<Longrightarrow> exec_all (flow_var_cmd off m) = with_flow_var (upd_var (unat off) (step_val m :: u16 \<Rightarrow> u16))"
    "fm_size_bytes m = 4 \<Longrightarrow> exec_all (flow_var_cmd off m) = with_flow_var (upd_var (unat off) (step_val m :: u32 \<Rightarrow> u32))"
    "fm_size_bytes m = 8 \<Longrightarrow> exec_all (flow_var_cmd off m) = with_flow_var (upd_var (unat off) (step_val m :: u64 \<Rightarrow> u64))"
  using assms by (cases "fm_op m"; simp add: flow_var_cmd_def counter_val_def step_val_def Let_def exec_all_one run_inc_def run_dec_def
      run_inc_step_int_def run_dec_step_int_def run_inc_step_word_def run_dec_step_word_def del: exec_all.simps)+

text \<open>The step does not wrap around at 32 or 64 bits.\<close>

definition step_ok :: "ins_flow_man \<Rightarrow> bool" where
  "step_ok m \<longleftrightarrow> fm_step m = 1 \<or> fm_size_bytes m = 1 \<or> fm_size_bytes m = 2 \<or>
     (if fm_op m = FLOW_VAR_OP_DEC then uint (fm_min_value m) + uint (fm_step m) < 256 ^ unat (fm_size_bytes m) else fm_step m \<le> fm_max_value m)"

lemma step_val_between:
  fixes p :: "'a::len word"
  assumes "byte_width TYPE('a)" and "unat (fm_size_bytes m) = LENGTH('a) div 8" and "unat (fm_max_value m) < 256 ^ (LENGTH('a) div 8)"
    and "fm_op m \<noteq> FLOW_VAR_OP_RANDOM" and "fm_min_value m \<le> fm_max_value m" and "step_ok m"
    and "between (ucast (fm_min_value m)) (ucast (fm_max_value m)) p"
  shows "between (ucast (fm_min_value m)) (ucast (fm_max_value m)) (step_val m p)"
proof -
  let ?mn = "ucast (fm_min_value m) :: 'a word" and ?mx = "ucast (fm_max_value m) :: 'a word" and ?st = "ucast (fm_step m) :: 'a word"
  have u: "uint ?mn = uint (fm_min_value m)" "uint ?mx = uint (fm_max_value m)"
    by (rule uint_ucast_small [OF _ assms(1)]; use assms(3,5) in \<open>simp add: word_le_nat_alt\<close>)+
  then have le: "uint ?mn \<le> uint ?mx" using assms(5) by (simp add: word_le_def)
  note keep = inc_step_int_between [OF le assms(7)] dec_step_int_between [OF le assms(7)] counter_val_between [OF le assms(7)]
  show ?thesis
  proof (cases "fm_step m = 1 \<or> fm_size_bytes m = 1 \<or> fm_size_bytes m = 2")
    case True
    then show ?thesis using keep assms(4) by (auto simp: step_val_def counter_val_def Let_def)
  next
    case False
    show ?thesis
    proof (cases "fm_op m = FLOW_VAR_OP_DEC")
      case True
      then have "uint (fm_min_value m) + uint (fm_step m) < 256 ^ (LENGTH('a) div 8)" using False assms(2,6) by (simp add: step_ok_def)
      moreover have "unat (fm_step m) < 256 ^ (LENGTH('a) div 8)"
      proof -
        have "uint (fm_step m) < int (256 ^ (LENGTH('a) div 8))" using calculation uint_ge_0 [of "fm_min_value m"] unfolding of_nat_power of_nat_numeral by linarith
        then show ?thesis by (simp only: uint_nat of_nat_less_iff)
      qed
      ultimately have "uint ?mn + uint ?st < 2 ^ LENGTH('a)"
        using u uint_ucast_small [OF _ assms(1), of "fm_step m"] arg_cong [OF width_pow [OF assms(1)], of int] by simp
      then show ?thesis using keep(2) True False by (simp add: step_val_def Let_def step_word_eq_int)
    next
      case inc: False
      then have st: "fm_step m \<le> fm_max_value m" using False assms(6) by (simp add: step_ok_def)
      then have "uint ?st = uint (fm_step m)" using uint_ucast_small [OF _ assms(1)] assms(3) by (simp add: word_le_nat_alt)
      then have "uint ?st \<le> uint ?mx" using st u by (simp add: word_le_def)
      then show ?thesis using keep(1) inc False by (simp add: step_val_def Let_def step_word_eq_int)
    qed
  qed
qed

section \<open>Random variables\<close>

lemma between_add:
  fixes mn mx x :: "'a::len word"
  assumes "uint x \<le> uint mx - uint mn"
  shows "between mn mx (mn + x)"
proof -
  have "uint mx < 2 ^ LENGTH('a)" by (rule uint_bounded)
  then have "uint mn + uint x < 2 ^ LENGTH('a)" using assms by linarith
  then have "uint (mn + x) = uint mn + uint x" by (simp add: uint_plus_if')
  then show ?thesis unfolding between_def using assms uint_ge_0 [of x] by linarith
qed

lemma rand_get:
  assumes "byte_width TYPE('a::len)" and "do { m1 \<leftarrow> mem_put m 0 (seed :: u32); mem_put m1 off (w :: 'a word) } = Some m'"
  shows "mem_get m' off = Some w"
  using assms mem_get_put [OF assms(1)] by (auto simp: bind_eq_Some_conv)

lemma mod_range_le:
  fixes r range :: "'a::len word"
  assumes "uint range = d + 1" and "0 \<le> d"
  shows "uint (r mod range) \<le> d"
  using assms pos_mod_bound [of "uint range" "uint r"] by (simp add: uint_mod)

lemma run_rand_16_between:
  fixes op :: "'a::len word flow_var_op"
  assumes "run_rand_16 op m = Some m'" and "byte_width TYPE('a)" and "LENGTH('a) \<le> 16" and "uint (fv_min op) \<le> uint (fv_max op)"
  shows "\<exists>y. mem_get m' (unat (fv_offset op)) = Some y \<and> between (fv_min op) (fv_max op) y"
proof -
  let ?range = "rand_range_int (fv_min op) (fv_max op)" and ?d = "uint (fv_max op) - uint (fv_min op)"
  obtain seed where seed: "mem_get m 0 = Some (seed :: u32)" using assms(1) by (auto simp: run_rand_16_def bind_eq_Some_conv)
  obtain r seed' where r: "vm_rand16 seed = (r, seed')" by (rule prod.exhaust)
  have put: "do { m1 \<leftarrow> mem_put m 0 seed'; mem_put m1 (unat (fv_offset op)) (fv_min op + ucast (r mod ?range)) } = Some m'"
    using assms(1) seed r by (simp add: run_rand_16_def Let_def split: if_splits)
  have mx: "uint (fv_max op) < 2 ^ LENGTH('a)" by (rule uint_bounded)
  have "(2 :: int) ^ LENGTH('a) \<le> 2 ^ 16" by (rule power_increasing) (use assms(3) in simp_all)
  then have "uint (fv_max op) < 2 ^ 16" using mx by (rule order.strict_trans2 [rotated])
  then have "uint (fv_max op) < 65536" by simp
  then have "?d + 1 < 4294967296" using uint_ge_0 [of "fv_min op"] by linarith
  then have "?d + 1 < 2 ^ 32" by simp
  moreover have "?d < 2 ^ LENGTH('a)" using mx uint_ge_0 [of "fv_min op"] by linarith
  ultimately have d: "?d + 1 < 2 ^ 32 \<and> ?d < 2 ^ LENGTH('a) \<and> 0 \<le> ?d" using assms(4) by linarith
  then have "uint ?range = ?d + 1" unfolding rand_range_int_def unsigned_of_int by (simp add: take_bit_int_eq_self)
  then have le: "uint (r mod ?range) \<le> ?d" by (rule mod_range_le) (use d in simp)
  moreover have "uint (ucast (r mod ?range) :: 'a word) = uint (r mod ?range)"
  proof -
    have "uint (r mod ?range) < 2 ^ LENGTH('a)" using le d by linarith
    then show ?thesis by (simp add: unsigned_ucast_eq take_bit_int_eq_self)
  qed
  ultimately have "between (fv_min op) (fv_max op) (fv_min op + ucast (r mod ?range))" by (intro between_add) simp
  then show ?thesis using rand_get [OF assms(2) put] by blast
qed

lemma run_rand_32_between:
  assumes "run_rand_32 op m = Some m'" and "uint (fv_min op) \<le> uint (fv_max op)"
  shows "\<exists>y. mem_get m' (unat (fv_offset op)) = Some y \<and> between (fv_min op) (fv_max op) y"
proof -
  let ?range = "rand_range_int (fv_min op) (fv_max op)" and ?d = "uint (fv_max op) - uint (fv_min op)"
  obtain seed where seed: "mem_get m 0 = Some (seed :: u32)" using assms(1) by (auto simp: run_rand_32_def bind_eq_Some_conv)
  obtain r seed' where r: "vm_rand32 seed = (r, seed')" by (rule prod.exhaust)
  have put: "do { m1 \<leftarrow> mem_put m 0 seed'; mem_put m1 (unat (fv_offset op)) (fv_min op + r mod ?range) } = Some m'"
    and nz: "?range \<noteq> 0"
    using assms(1) seed r by (simp_all add: run_rand_32_def Let_def split: if_splits)
  have mx: "uint (fv_max op) < 2 ^ 32" using uint_bounded [of "fv_max op"] by simp
  have "?range = 0" if "?d + 1 = 2 ^ 32" unfolding rand_range_int_def that by simp
  then have "?d + 1 \<noteq> 2 ^ 32" using nz by blast
  moreover have "?d + 1 \<le> 2 ^ 32" using mx uint_ge_0 [of "fv_min op"] by linarith
  ultimately have "?d + 1 < 2 ^ 32 \<and> 0 \<le> ?d" using assms(2) by linarith
  then have "uint ?range = ?d + 1" "0 \<le> ?d" unfolding rand_range_int_def unsigned_of_int by (simp_all add: take_bit_int_eq_self)
  then have "uint (r mod ?range) \<le> ?d" by (rule mod_range_le)
  then have "between (fv_min op) (fv_max op) (fv_min op + r mod ?range)" by (rule between_add)
  moreover have "mem_get m' (unat (fv_offset op)) = Some (fv_min op + r mod ?range)" by (rule rand_get [OF _ put]) simp
  ultimately show ?thesis by blast
qed

lemma run_rand_64_between:
  assumes "run_rand_64 op m = Some m'" and "uint (fv_min op) \<le> uint (fv_max op)" and "uint (fv_max op) - uint (fv_min op) + 1 < 2 ^ 31"
  shows "\<exists>y. mem_get m' (unat (fv_offset op)) = Some y \<and> between (fv_min op) (fv_max op) y"
proof -
  let ?range = "rand_range_64 (fv_min op) (fv_max op)" and ?d = "uint (fv_max op) - uint (fv_min op)"
  obtain seed where seed: "mem_get m 0 = Some (seed :: u32)" using assms(1) by (auto simp: run_rand_64_def bind_eq_Some_conv)
  obtain r seed' where r: "vm_rand64 seed = (r, seed')" by (rule prod.exhaust)
  have put: "do { m1 \<leftarrow> mem_put m 0 seed'; mem_put m1 (unat (fv_offset op)) (fv_min op + r mod ?range) } = Some m'"
    using assms(1) seed r by (simp add: run_rand_64_def Let_def split: if_splits)
  have "uint (of_int (?d + 1) :: u64) = ?d + 1" using assms(2,3) by (simp add: unsigned_of_int take_bit_int_eq_self del: of_int_add of_int_diff)
  then have "uint (fv_max op - fv_min op + 1) = ?d + 1" by simp
  then have "uint (ucast (fv_max op - fv_min op + 1) :: u32) = ?d + 1"
    using assms(2,3) by (simp add: unsigned_ucast_eq take_bit_int_eq_self)
  then have "sint (ucast (fv_max op - fv_min op + 1) :: u32) = ?d + 1"
    using assms(2,3) by (simp add: sint_uint signed_take_bit_int_eq_self)
  then have "?range = of_int (?d + 1)" unfolding rand_range_64_def by (metis scast_eq)
  moreover have "uint (of_int (?d + 1) :: u64) = ?d + 1" by fact
  ultimately have "uint ?range = ?d + 1" by (simp only:)
  then have "uint (r mod ?range) \<le> ?d" by (rule mod_range_le) (use assms(2) in simp)
  then have "between (fv_min op) (fv_max op) (fv_min op + r mod ?range)" by (rule between_add)
  moreover have "mem_get m' (unat (fv_offset op)) = Some (fv_min op + r mod ?range)" by (rule rand_get [OF _ put]) simp
  ultimately show ?thesis by blast
qed

lemma takes_with_flow_var:
  assumes "exec_all cmd = with_flow_var f" and "\<And>m m'. f m = Some m' \<Longrightarrow> \<exists>y. mem_get m' off = Some y \<and> Q y"
  shows "takes cmd off P Q"
  using assms(2) by (auto simp: takes_def assms(1) with_flow_var_def bind_eq_Some_conv)

lemma random_cmd:
  assumes "fm_op m = FLOW_VAR_OP_RANDOM"
  shows "fm_size_bytes m = 1 \<Longrightarrow> exec_all (flow_var_cmd off m) =
      with_flow_var (run_rand_16 \<lparr>fv_offset = off, fv_min = ucast (fm_min_value m) :: u8, fv_max = ucast (fm_max_value m)\<rparr>)"
    "fm_size_bytes m = 2 \<Longrightarrow> exec_all (flow_var_cmd off m) =
      with_flow_var (run_rand_16 \<lparr>fv_offset = off, fv_min = ucast (fm_min_value m) :: u16, fv_max = ucast (fm_max_value m)\<rparr>)"
    "fm_size_bytes m = 4 \<Longrightarrow> exec_all (flow_var_cmd off m) =
      with_flow_var (run_rand_32 \<lparr>fv_offset = off, fv_min = ucast (fm_min_value m), fv_max = ucast (fm_max_value m)\<rparr>)"
    "fm_size_bytes m = 8 \<Longrightarrow> exec_all (flow_var_cmd off m) =
      with_flow_var (run_rand_64 \<lparr>fv_offset = off, fv_min = fm_min_value m, fv_max = fm_max_value m\<rparr>)"
  using assms by (simp_all add: flow_var_cmd_def Let_def exec_all_one del: exec_all.simps)

lemma range_ucast_le:
  assumes "fm_min_value m \<le> fm_max_value m" and "unat (fm_max_value m) < 256 ^ unat (fm_size_bytes m)"
    and "byte_width TYPE('a::len)" and "unat (fm_size_bytes m) = LENGTH('a) div 8"
  shows "uint (ucast (fm_min_value m) :: 'a word) = uint (fm_min_value m)" "uint (ucast (fm_max_value m) :: 'a word) = uint (fm_max_value m)"
    "uint (ucast (fm_min_value m) :: 'a word) \<le> uint (ucast (fm_max_value m) :: 'a word)"
proof -
  show u: "uint (ucast (fm_min_value m) :: 'a word) = uint (fm_min_value m)" "uint (ucast (fm_max_value m) :: 'a word) = uint (fm_max_value m)"
    by (rule uint_ucast_small [OF _ assms(3)]; use assms(1,2,4) in \<open>simp add: word_le_nat_alt\<close>)+
  show "uint (ucast (fm_min_value m) :: 'a word) \<le> uint (ucast (fm_max_value m) :: 'a word)" unfolding u using assms(1) by (simp add: word_le_def)
qed

lemma random_takes:
  assumes "fm_op m = FLOW_VAR_OP_RANDOM" and "fm_min_value m \<le> fm_max_value m" and "unat (fm_max_value m) < 256 ^ unat (fm_size_bytes m)"
  shows "fm_size_bytes m = 1 \<Longrightarrow> takes (flow_var_cmd off m) (unat off) P1 (between (ucast (fm_min_value m) :: u8) (ucast (fm_max_value m)))"
    "fm_size_bytes m = 2 \<Longrightarrow> takes (flow_var_cmd off m) (unat off) P2 (between (ucast (fm_min_value m) :: u16) (ucast (fm_max_value m)))"
    "fm_size_bytes m = 4 \<Longrightarrow> takes (flow_var_cmd off m) (unat off) P3 (between (ucast (fm_min_value m) :: u32) (ucast (fm_max_value m)))"
    "fm_size_bytes m = 8 \<Longrightarrow> uint (fm_max_value m) - uint (fm_min_value m) + 1 < 2 ^ 31 \<Longrightarrow>
      takes (flow_var_cmd off m) (unat off) P4 (between (fm_min_value m) (fm_max_value m))"
proof -
  note u = range_ucast_le(3) [OF assms(2,3)]
  show "fm_size_bytes m = 1 \<Longrightarrow> takes (flow_var_cmd off m) (unat off) P1 (between (ucast (fm_min_value m) :: u8) (ucast (fm_max_value m)))"
    using u [where 'a = 8] run_rand_16_between [where 'a = 8] by (intro takes_with_flow_var [OF random_cmd(1) [OF assms(1)]]) fastforce+
  show "fm_size_bytes m = 2 \<Longrightarrow> takes (flow_var_cmd off m) (unat off) P2 (between (ucast (fm_min_value m) :: u16) (ucast (fm_max_value m)))"
    using u [where 'a = 16] run_rand_16_between [where 'a = 16] by (intro takes_with_flow_var [OF random_cmd(2) [OF assms(1)]]) fastforce+
  show "fm_size_bytes m = 4 \<Longrightarrow> takes (flow_var_cmd off m) (unat off) P3 (between (ucast (fm_min_value m) :: u32) (ucast (fm_max_value m)))"
    using u [where 'a = 32] run_rand_32_between by (intro takes_with_flow_var [OF random_cmd(3) [OF assms(1)]]) fastforce+
  show "fm_size_bytes m = 8 \<Longrightarrow> uint (fm_max_value m) - uint (fm_min_value m) + 1 < 2 ^ 31 \<Longrightarrow>
      takes (flow_var_cmd off m) (unat off) P4 (between (fm_min_value m) (fm_max_value m))"
    using assms(2) run_rand_64_between by (intro takes_with_flow_var [OF random_cmd(4) [OF assms(1)]]) (fastforce simp: word_le_def)+
qed

section \<open>Whole programs\<close>

lemma bss_init_between:
  assumes "fm_min_value m \<le> fm_init_value m" and "fm_init_value m \<le> fm_max_value m" and "fm_op m \<noteq> FLOW_VAR_OP_RANDOM"
  shows "fm_min_value m \<le> get_bss_init_value m \<and> get_bss_init_value m \<le> fm_max_value m"
proof (cases "fm_op m")
  case FLOW_VAR_OP_INC
  show ?thesis
  proof (cases "fm_init_value m = fm_min_value m")
    case False
    then have lt: "uint (fm_min_value m) < uint (fm_init_value m)" using assms(1) by (simp add: word_le_def word_uint_eq_iff)
    show ?thesis using uint_greater_pred [OF lt] lt assms(2) False FLOW_VAR_OP_INC by (simp add: get_bss_init_value_def word_le_def Let_def)
  qed (use assms FLOW_VAR_OP_INC in \<open>simp add: get_bss_init_value_def Let_def\<close>)
next
  case FLOW_VAR_OP_DEC
  show ?thesis
  proof (cases "fm_init_value m = fm_max_value m")
    case False
    then have lt: "uint (fm_init_value m) < uint (fm_max_value m)" using assms(2) by (simp add: word_le_def word_uint_eq_iff)
    show ?thesis using uint_less_Suc [OF lt] lt assms(1) False FLOW_VAR_OP_DEC by (simp add: get_bss_init_value_def word_le_def Let_def)
  qed (use assms FLOW_VAR_OP_DEC in \<open>simp add: get_bss_init_value_def Let_def\<close>)
qed (use assms(3) in simp)

definition in_range :: "ins_flow_man \<Rightarrow> nat \<Rightarrow> bool" where
  "in_range m v \<longleftrightarrow> unat (fm_min_value m) \<le> v \<and> v \<le> unat (fm_max_value m)"

lemma between_in_range:
  fixes y :: "'a::len word"
  assumes "fm_min_value m \<le> fm_max_value m" and "unat (fm_max_value m) < 256 ^ unat (fm_size_bytes m)"
    and "byte_width TYPE('a)" and "unat (fm_size_bytes m) = LENGTH('a) div 8"
    and "between (ucast (fm_min_value m)) (ucast (fm_max_value m)) y"
  shows "in_range m (unat y)"
  using assms(5) range_ucast_le [OF assms(1-4)] unfolding between_def in_range_def by (simp only: uint_nat of_nat_le_iff of_nat_eq_iff)

lemma compiled_size:
  assumes "vm_compile rnd pkt vm = Ok (vm', Some dp)" and "FlowMan m \<in> set (m_inst_list vm')"
  shows "valid_size (fm_size_bytes m)"
proof -
  obtain vm1 where vm1: "vm' = vm1\<lparr>m_pkt := None\<rparr>" "compiled vm1" using vm_compile_Some [OF assms(1)] by blast
  then show ?thesis using assms(2) by (fastforce simp: compiled_def size_ok_def)
qed

lemma var_ends_in_range:
  fixes P :: "'a::len word \<Rightarrow> bool"
  assumes "vm_compile rnd pkt vm = Ok (vm', Some dp)" and "random_flag vm" and "vm_ok vm'" and "FlowMan m \<in> set (m_inst_list vm')"
    and "\<forall>buf\<in>set bufs. dp_max_pkt_offset_change dp \<le> length buf \<and> same_headers vm' pkt buf"
    and "fm_min_value m \<le> fm_max_value m" and "unat (fm_max_value m) < 256 ^ unat (fm_size_bytes m)"
    and "byte_width TYPE('a)" and "unat (fm_size_bytes m) = LENGTH('a) div 8"
    and "\<And>off. takes (flow_var_cmd off m) (unat off) P (between (ucast (fm_min_value m)) (ucast (fm_max_value m)))"
    and "\<And>x. between (ucast (fm_min_value m)) (ucast (fm_max_value m)) x \<Longrightarrow> P x" and "P (ucast (get_bss_init_value m))"
    and "bufs = [] \<Longrightarrow> between (ucast (fm_min_value m)) (ucast (fm_max_value m)) (ucast (get_bss_init_value m) :: 'a word)"
  shows "\<exists>r fv. m_flow_var_offset vm' (fm_var_name m) = Some r \<and> run_packets (dp_program dp) bufs (dp_bss dp) = Some fv \<and>
    in_range m (le_nat (take (unat (rec_size r)) (drop (rec_offset r) fv)))"
  using var_ends_in [OF assms(1-5,8-13)] between_in_range [OF assms(6-9)] by force

lemma step_range_width:
  assumes "vm_compile rnd pkt vm = Ok (vm', Some dp)" and "random_flag vm" and "vm_ok vm'" and "FlowMan m \<in> set (m_inst_list vm')"
    and "\<forall>buf\<in>set bufs. dp_max_pkt_offset_change dp \<le> length buf \<and> same_headers vm' pkt buf"
    and "fm_op m \<noteq> FLOW_VAR_OP_RANDOM" and "unat (fm_max_value m) < 256 ^ unat (fm_size_bytes m)"
    and "fm_min_value m \<le> fm_init_value m" and "fm_init_value m \<le> fm_max_value m" and "step_ok m"
    and "byte_width TYPE('a::len)" and "unat (fm_size_bytes m) = LENGTH('a) div 8"
    and "\<And>off. exec_all (flow_var_cmd off m) = with_flow_var (upd_var (unat off) (step_val m :: 'a word \<Rightarrow> 'a word))"
  shows "\<exists>r fv. m_flow_var_offset vm' (fm_var_name m) = Some r \<and> run_packets (dp_program dp) bufs (dp_bss dp) = Some fv \<and>
    in_range m (le_nat (take (unat (rec_size r)) (drop (rec_offset r) fv)))"
proof -
  have le: "fm_min_value m \<le> fm_max_value m" using assms(8,9) by (rule order.trans)
  have small: "unat (fm_max_value m) < 256 ^ (LENGTH('a) div 8)" using assms(7,12) by simp
  let ?B = "between (ucast (fm_min_value m)) (ucast (fm_max_value m)) :: 'a word \<Rightarrow> bool"
  have step: "takes (flow_var_cmd off m) (unat off) ?B ?B" for off
    by (rule takes_upd_var [OF assms(11,13)]) (rule step_val_between [OF assms(11,12) small assms(6) le assms(10)])
  note b = bss_init_between [OF assms(8,9,6)]
  have "unat (get_bss_init_value m) < 256 ^ (LENGTH('a) div 8)" using b small by (simp add: word_le_nat_alt)
  then have "uint (ucast (get_bss_init_value m) :: 'a word) = uint (get_bss_init_value m)" by (rule uint_ucast_small [OF _ assms(11)])
  then have "?B (ucast (get_bss_init_value m))" using b range_ucast_le [OF le assms(7,11,12)] by (simp add: between_def word_le_def)
  then show ?thesis by (intro var_ends_in_range [OF assms(1-5) le assms(7,11,12) step])
qed

section \<open>Properties\<close>

text \<open>
  C20. A counter stays in its range with any step, whatever the other instructions are, if its initial value lies in
  the range and the range fits the variable. For 1 and 2 bytes this holds for all steps; for 4 and 8 bytes the
  step of an increasing counter must be at most its maximum, and that of a decreasing one must not
  wrap around when it is added to the minimum. The program must have fewer
  than 64 KiB and satisfy the other conditions of \<open>vm_ok\<close>, and it runs over buffers that hold the
  fields that it writes, with the header lengths of the compiled packet.
\<close>

theorem vm_step_values_in_range:
  assumes "vm_compile rnd pkt vm = Ok (vm', Some dp)" and "random_flag vm" and "vm_ok vm'" and "FlowMan m \<in> set (m_inst_list vm')"
    and "\<forall>buf\<in>set bufs. dp_max_pkt_offset_change dp \<le> length buf \<and> same_headers vm' pkt buf"
    and "fm_op m \<noteq> FLOW_VAR_OP_RANDOM" and "unat (fm_max_value m) < 256 ^ unat (fm_size_bytes m)"
    and "fm_min_value m \<le> fm_init_value m" and "fm_init_value m \<le> fm_max_value m" and "step_ok m"
  shows "\<exists>r fv. m_flow_var_offset vm' (fm_var_name m) = Some r \<and> run_packets (dp_program dp) bufs (dp_bss dp) = Some fv \<and>
    in_range m (le_nat (take (unat (rec_size r)) (drop (rec_offset r) fv)))"
proof -
  note go = step_range_width [OF assms(1-10)]
  have "valid_size (fm_size_bytes m)" by (rule compiled_size [OF assms(1,4)])
  then consider "fm_size_bytes m = 1" | "fm_size_bytes m = 2" | "fm_size_bytes m = 4" | "fm_size_bytes m = 8" by (auto simp: valid_size_def)
  then show ?thesis
  proof cases
    case 1
    show ?thesis by (rule go [OF _ _ step_cmd(1) [OF assms(6) 1]]) (use 1 in simp_all)
  next
    case 2
    show ?thesis by (rule go [OF _ _ step_cmd(2) [OF assms(6) 2]]) (use 2 in simp_all)
  next
    case 3
    show ?thesis by (rule go [OF _ _ step_cmd(3) [OF assms(6) 3]]) (use 3 in simp_all)
  next
    case 4
    show ?thesis by (rule go [OF _ _ step_cmd(4) [OF assms(6) 4]]) (use 4 in simp_all)
  qed
qed

text \<open>A counter of step 4 and a random variable of 1 and 2 bytes.\<close>

definition step_counter :: ins_flow_man where
  "step_counter = \<lparr>fm_var_name = ''x'', fm_size_bytes = 1, fm_op = FLOW_VAR_OP_INC, fm_init_value = 2, fm_min_value = 1,
     fm_max_value = 9, fm_step = 4\<rparr>"

definition step_vm :: stream_vm where
  "step_vm = new_stream_vm\<lparr>m_inst_list := [FlowMan step_counter]\<rparr>"

definition random_var :: ins_flow_man where
  "random_var = \<lparr>fm_var_name = ''y'', fm_size_bytes = 2, fm_op = FLOW_VAR_OP_RANDOM, fm_init_value = 0, fm_min_value = 300,
     fm_max_value = 310, fm_step = 1\<rparr>"

definition random_vm :: stream_vm where
  "random_vm = new_stream_vm\<lparr>m_inst_list := [FlowMan random_var], m_is_random_var := True\<rparr>"

lemma step_vm_compile: "\<exists>vm' dp. vm_compile rnd [0] step_vm = Ok (vm', Some dp) \<and> m_inst_list vm' = [FlowMan step_counter] \<and>
    dp_max_pkt_offset_change dp = 0 \<and> length (m_instructions vm') < 65536"
  by (simp add: step_vm_def new_stream_vm_def step_counter_def vm_compile_def compile_eval struct_eval Let_def generate_dp_object_def new_stream_vm_dp_def)

lemma random_vm_compile: "\<exists>vm' dp. vm_compile rnd [0] random_vm = Ok (vm', Some dp) \<and> m_inst_list vm' = [FlowMan random_var] \<and>
    dp_max_pkt_offset_change dp = 0 \<and> length (m_instructions vm') < 65536"
  by (simp add: random_vm_def new_stream_vm_def random_var_def vm_compile_def compile_eval struct_eval Let_def generate_dp_object_def new_stream_vm_dp_def)

lemma vm_step_values_in_range_witness:
  "\<exists>vm' dp r fv. vm_compile 0 [0] step_vm = Ok (vm', Some dp) \<and> m_flow_var_offset vm' ''x'' = Some r \<and>
    run_packets (dp_program dp) [[0], [0], [0]] (dp_bss dp) = Some fv \<and> in_range step_counter (le_nat (take (unat (rec_size r)) (drop (rec_offset r) fv)))"
proof -
  obtain vm' dp where c: "vm_compile 0 [0] step_vm = Ok (vm', Some dp)" "m_inst_list vm' = [FlowMan step_counter]" "dp_max_pkt_offset_change dp = 0"
      "length (m_instructions vm') < 65536"
    using step_vm_compile by blast
  have ok: "random_flag step_vm" "vm_ok vm'" "FlowMan step_counter \<in> set (m_inst_list vm')"
    using c(2,4) by (simp_all add: random_flag_def step_vm_def vm_ok_def ins_ok_def random_ok_def step_counter_def)
  have bufs: "\<forall>buf\<in>set [[0], [0], [0]]. dp_max_pkt_offset_change dp \<le> length buf \<and> same_headers vm' [0] buf"
    using c(2,3) by (simp add: same_headers_def)
  have m: "fm_op step_counter \<noteq> FLOW_VAR_OP_RANDOM" "unat (fm_max_value step_counter) < 256 ^ unat (fm_size_bytes step_counter)"
      "fm_min_value step_counter \<le> fm_init_value step_counter" "fm_init_value step_counter \<le> fm_max_value step_counter" "step_ok step_counter"
      "fm_var_name step_counter = ''x''"
    by (simp_all add: step_counter_def step_ok_def)
  show ?thesis using vm_step_values_in_range [OF c(1) ok bufs m(1-5)] c(1) unfolding m(6) by blast
qed

text \<open>
  C21. A random variable whose range fits it has a value of its range in every packet. For 8 bytes the
  range must have less than 2 to the power of 31 values. The program must have fewer
  than 64 KiB and satisfy the other conditions of \<open>vm_ok\<close>, and it runs over buffers that hold the
  fields that it writes, with the header lengths of the compiled packet.
\<close>

theorem vm_random_values_in_range:
  assumes "vm_compile rnd pkt vm = Ok (vm', Some dp)" and "random_flag vm" and "vm_ok vm'" and "FlowMan m \<in> set (m_inst_list vm')"
    and "\<forall>buf\<in>set bufs. dp_max_pkt_offset_change dp \<le> length buf \<and> same_headers vm' pkt buf" and "bufs \<noteq> []"
    and "fm_op m = FLOW_VAR_OP_RANDOM" and "fm_min_value m \<le> fm_max_value m" and "unat (fm_max_value m) < 256 ^ unat (fm_size_bytes m)"
    and "fm_size_bytes m = 8 \<longrightarrow> uint (fm_max_value m) - uint (fm_min_value m) + 1 < 2 ^ 31"
  shows "\<exists>r fv. m_flow_var_offset vm' (fm_var_name m) = Some r \<and> run_packets (dp_program dp) bufs (dp_bss dp) = Some fv \<and>
    in_range m (le_nat (take (unat (rec_size r)) (drop (rec_offset r) fv)))"
proof -
  note go = var_ends_in_range [OF assms(1-5,8,9) _ _ _ TrueI TrueI] and t = random_takes [OF assms(7-9)]
  have "valid_size (fm_size_bytes m)" by (rule compiled_size [OF assms(1,4)])
  then consider "fm_size_bytes m = 1" | "fm_size_bytes m = 2" | "fm_size_bytes m = 4" | "fm_size_bytes m = 8" by (auto simp: valid_size_def)
  then show ?thesis
  proof cases
    case 1
    show ?thesis by (rule go [OF _ _ t(1) [OF 1]]) (use 1 assms(6) in simp_all)
  next
    case 2
    show ?thesis by (rule go [OF _ _ t(2) [OF 2]]) (use 2 assms(6) in simp_all)
  next
    case 3
    show ?thesis by (rule go [OF _ _ t(3) [OF 3]]) (use 3 assms(6) in simp_all)
  next
    case 4
    have "takes (flow_var_cmd off m) (unat off) (\<lambda>_. True) (between (ucast (fm_min_value m) :: u64) (ucast (fm_max_value m)))" for off
      using t(4) [OF 4] assms(10) 4 by simp
    then show ?thesis by (intro go [where 'a = 64]) (use 4 assms(6) in simp_all)
  qed
qed

lemma vm_random_values_in_range_witness:
  "\<exists>vm' dp r fv. vm_compile 7 [0] random_vm = Ok (vm', Some dp) \<and> m_flow_var_offset vm' ''y'' = Some r \<and>
    run_packets (dp_program dp) [[0], [0]] (dp_bss dp) = Some fv \<and> in_range random_var (le_nat (take (unat (rec_size r)) (drop (rec_offset r) fv)))"
proof -
  obtain vm' dp where c: "vm_compile 7 [0] random_vm = Ok (vm', Some dp)" "m_inst_list vm' = [FlowMan random_var]" "dp_max_pkt_offset_change dp = 0"
      "length (m_instructions vm') < 65536"
    using random_vm_compile by blast
  have ok: "random_flag random_vm" "vm_ok vm'" "FlowMan random_var \<in> set (m_inst_list vm')"
    using c(2,4) by (simp_all add: random_flag_def random_vm_def vm_ok_def ins_ok_def random_ok_def rand_range_int_def random_var_def)
  have bufs: "\<forall>buf\<in>set [[0], [0]]. dp_max_pkt_offset_change dp \<le> length buf \<and> same_headers vm' [0] buf" "[[0], [0]] \<noteq> ([] :: u8 list list)"
    using c(2,3) by (simp_all add: same_headers_def)
  have m: "fm_op random_var = FLOW_VAR_OP_RANDOM" "fm_min_value random_var \<le> fm_max_value random_var"
      "unat (fm_max_value random_var) < 256 ^ unat (fm_size_bytes random_var)"
      "fm_size_bytes random_var = 8 \<longrightarrow> uint (fm_max_value random_var) - uint (fm_min_value random_var) + 1 < 2 ^ 31"
      "fm_var_name random_var = ''y''"
    by (simp_all add: random_var_def)
  show ?thesis using vm_random_values_in_range [OF c(1) ok bufs m(1-4)] c(1) unfolding m(5) by blast
qed

text \<open>Counters of 4 bytes with a step, and a random variable of 8 bytes with 2 to the power of 31 values.\<close>

definition wide_step :: "u64 \<Rightarrow> u64 \<Rightarrow> u64 \<Rightarrow> ins_flow_man" where
  "wide_step init mx st = \<lparr>fm_var_name = ''x'', fm_size_bytes = 4, fm_op = FLOW_VAR_OP_INC, fm_init_value = init, fm_min_value = 0,
     fm_max_value = mx, fm_step = st\<rparr>"

definition wide_random :: ins_flow_man where
  "wide_random = \<lparr>fm_var_name = ''x'', fm_size_bytes = 8, fm_op = FLOW_VAR_OP_RANDOM, fm_init_value = 0, fm_min_value = 0,
     fm_max_value = 0x7FFFFFFF, fm_step = 1\<rparr>"

definition one_var :: "ins_flow_man \<Rightarrow> stream_vm" where
  "one_var m = add_instruction new_stream_vm (FlowMan m)"

lemma wide_step_compile:
  "\<exists>vm' dp. vm_compile rnd [0] (one_var (wide_step 0 5 10)) = Ok (vm', Some dp) \<and> dp_bss dp = [5, 0, 0, 0] \<and>
     dp_program dp = concat (map encode_ins [ditINC32_STEP \<lparr>fv_offset = 0, fv_min = 0, fv_max = 5, fv_step = 10\<rparr>])"
  "\<exists>vm' dp. vm_compile rnd [0] (one_var (wide_step 10 100 5)) = Ok (vm', Some dp) \<and> dp_bss dp = [9, 0, 0, 0] \<and>
     dp_program dp = concat (map encode_ins [ditINC32_STEP \<lparr>fv_offset = 0, fv_min = 0, fv_max = 100, fv_step = 5\<rparr>])"
  by (simp_all add: one_var_def add_instruction_def new_stream_vm_def wide_step_def vm_compile_def compile_eval struct_eval Let_def
      generate_dp_object_def new_stream_vm_dp_def)

lemma wide_random_compile:
  "\<exists>vm' dp. vm_compile 0 [0] (one_var wide_random) = Ok (vm', Some dp) \<and> dp_bss dp = [0, 0, 0, 0, 0, 0, 0, 0, 0, 0, 0, 0] \<and>
     dp_program dp = concat (map encode_ins [ditRANDOM64 \<lparr>fv_offset = 4, fv_min = 0, fv_max = 0x7FFFFFFF\<rparr>])"
  by (simp add: one_var_def add_instruction_def new_stream_vm_def wide_random_def vm_compile_def compile_eval struct_eval Let_def
      generate_dp_object_def new_stream_vm_dp_def)

lemmas run_eval = with_flow_var_def upd_var_def mem_get_def mem_put_def word_of_bytes_def bytes_of_def le_bytes_numeral

lemma wide_step_run:
  "run_packets (concat (map encode_ins [ditINC32_STEP \<lparr>fv_offset = 0, fv_min = 0, fv_max = 5, fv_step = 10\<rparr>])) [buf] [5, 0, 0, 0] = Some [15, 0, 0, 0]"
  "run_packets (concat (map encode_ins [ditINC32_STEP \<lparr>fv_offset = 0, fv_min = 0, fv_max = 100, fv_step = 5\<rparr>])) [buf] [9, 0, 0, 0] = Some [14, 0, 0, 0]"
  by (simp_all add: run_program_encode del: concat.simps list.map) (simp_all add: run_eval run_inc_step_word_def inc_step_word_def)

lemma wide_random_run:
  "\<exists>fv. run_packets (concat (map encode_ins [ditRANDOM64 \<lparr>fv_offset = 4, fv_min = 0, fv_max = 0x7FFFFFFF\<rparr>])) [buf]
     [0, 0, 0, 0, 0, 0, 0, 0, 0, 0, 0, 0] = Some fv \<and> 0x7FFFFFFF < le_nat (drop 4 fv)"
  by (simp add: run_program_encode del: concat.simps list.map)
    (simp add: run_eval run_rand_64_def rand_range_64_def vm_rand64_def vm_rand32_def vm_rand16_def fastrand_def Let_def)

text \<open>
  C35. A counter of 4 bytes does not keep what its instruction says when the step is not 1. With a step above its
  maximum it leaves its range: from 0 to 5 with step 10, the first packet has the value 15, since
  the maximum less the step wraps around. And it does not begin with its initial value, as the
  stored value is one below, whatever the step: from 10 with step 5 the first packet has 14.
\<close>

theorem vm_wide_step_leaves_range:
  "(\<exists>vm' dp fv. vm_compile rnd [0] (one_var (wide_step 0 5 10)) = Ok (vm', Some dp) \<and>
      run_packets (dp_program dp) [buf] (dp_bss dp) = Some fv \<and> \<not> in_range (wide_step 0 5 10) (le_nat fv)) \<and>
    (\<exists>vm' dp fv. vm_compile rnd [0] (one_var (wide_step 10 100 5)) = Ok (vm', Some dp) \<and>
      run_packets (dp_program dp) [buf] (dp_bss dp) = Some fv \<and> le_nat fv = 14)"
proof
  show "\<exists>vm' dp fv. vm_compile rnd [0] (one_var (wide_step 0 5 10)) = Ok (vm', Some dp) \<and>
      run_packets (dp_program dp) [buf] (dp_bss dp) = Some fv \<and> \<not> in_range (wide_step 0 5 10) (le_nat fv)"
    using wide_step_compile(1) [of rnd] wide_step_run(1) [of buf] by (fastforce simp: in_range_def wide_step_def)
  show "\<exists>vm' dp fv. vm_compile rnd [0] (one_var (wide_step 10 100 5)) = Ok (vm', Some dp) \<and>
      run_packets (dp_program dp) [buf] (dp_bss dp) = Some fv \<and> le_nat fv = 14"
    using wide_step_compile(2) [of rnd] wide_step_run(2) [of buf] by fastforce
qed

text \<open>
  C36. A random variable of 8 bytes leaves its range when this has 2 to the power of 31 values: the number
  of values is cast to a signed integer of 4 bytes and extended, so the remainder is taken by a number close
  to 2 to the power of 64. For 0 to 0x7FFFFFFF and seed 0 the first packet is above the maximum.
\<close>

theorem vm_wide_random_leaves_range:
  "\<exists>vm' dp fv. vm_compile 0 [0] (one_var wide_random) = Ok (vm', Some dp) \<and>
    run_packets (dp_program dp) [buf] (dp_bss dp) = Some fv \<and> \<not> in_range wide_random (le_nat (drop 4 fv))"
proof -
  obtain fv where fv: "run_packets (concat (map encode_ins [ditRANDOM64 \<lparr>fv_offset = 4, fv_min = 0, fv_max = 0x7FFFFFFF\<rparr>])) [buf]
     [0, 0, 0, 0, 0, 0, 0, 0, 0, 0, 0, 0] = Some fv" "0x7FFFFFFF < le_nat (drop 4 fv)" using wide_random_run by blast
  have "\<not> in_range wide_random (le_nat (drop 4 fv))" using fv(2) by (simp add: in_range_def wide_random_def)
  then show ?thesis using wide_random_compile fv(1) by metis
qed

end
