(* ===== verification/Vm_Split.thy ===== *)
theory Vm_Split
  imports Vm_Client Vm_Node
begin

text \<open>
  Splitting a stream over the cores of the data plane, stateless/cp/trex_vm_splitter.cpp: the range of
  one variable is cut into parts, and every core compiles its own copy of the instructions.
\<close>

section \<open>Streams and their split instruction\<close>

text \<open>The fields of \<open>TrexStream\<close> that the splitter uses.\<close>

record trex_stream =
  ts_pkt :: "u8 list"
  ts_vm :: stream_vm
  ts_vm_dp :: "stream_vm_dp option"

definition stream_vm_compile :: "u32 \<Rightarrow> trex_stream \<Rightarrow> trex_stream outcome" where
  "stream_vm_compile rnd s =
     (if m_inst_list (ts_vm s) = [] then Ok s
      else obind (vm_compile rnd (ts_pkt s) (ts_vm s)) (\<lambda>(vm, dp). Ok (s\<lparr>ts_vm := vm, ts_vm_dp := dp\<rparr>)))"

fun lookup_var :: "string \<Rightarrow> nat \<Rightarrow> vm_ins list \<Rightarrow> nat option" where
  "lookup_var var_name k [] = None"
| "lookup_var var_name k (inst # rest) =
     (if (case inst of FlowMan m \<Rightarrow> fm_var_name m = var_name | FlowClient c \<Rightarrow> fc_var_name c = var_name | _ \<Rightarrow> False)
      then Some k else lookup_var var_name (k + 1) rest)"

definition lookup_var_by_name :: "string \<Rightarrow> stream_vm \<Rightarrow> nat option" where
  "lookup_var_by_name var_name vm = lookup_var var_name 0 (m_inst_list vm)"

definition set_split_instruction :: "nat \<Rightarrow> stream_vm \<Rightarrow> stream_vm" where
  "set_split_instruction instr vm = vm\<lparr>m_split_instr := Some instr\<rparr>"

definition get_split_instruction :: "stream_vm \<Rightarrow> (nat \<times> vm_ins) option" where
  "get_split_instruction vm = (case m_split_instr vm of None \<Rightarrow> None
     | Some k \<Rightarrow> if k < length (m_inst_list vm) then Some (k, m_inst_list vm ! k) else None)"

definition get_splitable_range :: "ins_flow_man \<Rightarrow> u64" where
  "get_splitable_range m = fm_max_value m - fm_min_value m + 1"

definition is_valid_for_split :: "ins_flow_man \<Rightarrow> bool" where
  "is_valid_for_split m \<longleftrightarrow> fm_step m = 1"

definition get_ip_range :: "ins_flow_client \<Rightarrow> u32" where
  "get_ip_range c = fc_client_max c - fc_client_min c + 1"

section \<open>The splitter\<close>

definition duplicate_vm :: "trex_stream \<Rightarrow> trex_stream list \<Rightarrow> trex_stream list" where
  "duplicate_vm stream core_streams = map (\<lambda>core_stream. core_stream\<lparr>ts_vm := clone (ts_vm stream) (ts_vm core_stream)\<rparr>) core_streams"

definition set_instruction :: "nat \<Rightarrow> vm_ins \<Rightarrow> stream_vm \<Rightarrow> stream_vm" where
  "set_instruction k i vm = vm\<lparr>m_inst_list := (m_inst_list vm)[k := i]\<rparr>"

text \<open>The body of the two loops; \<open>rnd\<close> is what the calls of \<open>rand\<close> return.\<close>

definition split_flow_man :: "u64 \<Rightarrow> u64 \<Rightarrow> ins_flow_man \<Rightarrow> ins_flow_man" where
  "split_flow_man start stop m = m\<lparr>fm_min_value := start, fm_max_value := stop,
     fm_init_value := (if fm_op m = FLOW_VAR_OP_DEC then stop else start)\<rparr>"

definition split_flow_core :: "u32 \<Rightarrow> u64 \<Rightarrow> u64 \<Rightarrow> trex_stream \<Rightarrow> trex_stream outcome" where
  "split_flow_core rnd start stop core_stream = (case get_split_instruction (ts_vm core_stream) of
     Some (k, FlowMan m) \<Rightarrow>
       stream_vm_compile rnd (core_stream\<lparr>ts_vm := set_instruction k (FlowMan (split_flow_man start stop m)) (ts_vm core_stream)\<rparr>)
   | _ \<Rightarrow> Undef)"

definition split_client :: "u64 \<Rightarrow> u64 \<Rightarrow> ins_flow_client \<Rightarrow> ins_flow_client" where
  "split_client start stop c = c\<lparr>fc_client_min := ucast start, fc_client_max := ucast stop\<rparr>"

definition split_client_core :: "u32 \<Rightarrow> u64 \<Rightarrow> u64 \<Rightarrow> trex_stream \<Rightarrow> trex_stream outcome" where
  "split_client_core rnd start stop core_stream = (case get_split_instruction (ts_vm core_stream) of
     Some (k, FlowClient c) \<Rightarrow>
       stream_vm_compile rnd (core_stream\<lparr>ts_vm := set_instruction k (FlowClient (split_client start stop c)) (ts_vm core_stream)\<rparr>)
   | _ \<Rightarrow> Undef)"

fun split_cores :: "(u32 \<Rightarrow> u64 \<Rightarrow> u64 \<Rightarrow> trex_stream \<Rightarrow> trex_stream outcome) \<Rightarrow> (nat \<Rightarrow> u32) \<Rightarrow> nat \<Rightarrow> u64 \<Rightarrow> u64 \<Rightarrow> u64 \<Rightarrow>
    trex_stream list \<Rightarrow> trex_stream list outcome" where
  "split_cores f rnd i range_part start stop [] = Ok []"
| "split_cores f rnd i range_part start stop (core_stream # rest) =
     obind (f (rnd i) start stop core_stream) (\<lambda>core_stream.
       obind (split_cores f rnd (i + 1) range_part (stop + 1) (stop + 1 + range_part - 1) rest) (\<lambda>rest. Ok (core_stream # rest)))"

text \<open>\<open>Ok None\<close> is the result false: the variable is not split. The number of cores has 8 bits.\<close>

definition split_by_flow_var :: "(nat \<Rightarrow> u32) \<Rightarrow> ins_flow_man \<Rightarrow> trex_stream \<Rightarrow> trex_stream list \<Rightarrow> trex_stream list option outcome" where
  "split_by_flow_var rnd instr stream core_streams =
     (let dp_core_count = ucast (of_nat (length core_streams) :: u8); range = get_splitable_range instr in
      if fm_op instr = FLOW_VAR_OP_RANDOM then Ok None
      else if range < dp_core_count then Ok None
      else if \<not> is_valid_for_split instr then Ok None
      else if dp_core_count = 0 then Undef
      else
        (let range_part = range div dp_core_count; leftover = range mod dp_core_count; start = fm_min_value instr in
         obind (split_cores split_flow_core rnd 0 range_part start (start + range_part + leftover - 1) (duplicate_vm stream core_streams))
           (\<lambda>cores. Ok (Some cores))))"

definition split_by_flow_client_var :: "(nat \<Rightarrow> u32) \<Rightarrow> ins_flow_client \<Rightarrow> trex_stream \<Rightarrow> trex_stream list \<Rightarrow> trex_stream list option outcome"
where
  "split_by_flow_client_var rnd instr stream core_streams =
     (let dp_core_count = of_nat (length core_streams) :: u8; range = ucast (get_ip_range instr) :: u64 in
      if get_ip_range instr < ucast dp_core_count then Ok None
      else if dp_core_count = 0 then Undef
      else
        (let range_part = range div ucast dp_core_count; leftover = range mod ucast dp_core_count; start = ucast (fc_client_min instr) in
         obind (split_cores split_client_core rnd 0 range_part start (start + range_part + leftover - 1) (duplicate_vm stream core_streams))
           (\<lambda>cores. Ok (Some cores))))"

definition split_internal :: "(nat \<Rightarrow> u32) \<Rightarrow> trex_stream \<Rightarrow> trex_stream list \<Rightarrow> trex_stream list option outcome" where
  "split_internal rnd stream core_streams = (case get_split_instruction (ts_vm stream) of
     None \<Rightarrow> Ok None
   | Some (k, FlowMan m) \<Rightarrow> split_by_flow_var rnd m stream core_streams
   | Some (k, FlowClient c) \<Rightarrow> split_by_flow_client_var rnd c stream core_streams
   | _ \<Rightarrow> Throw NotSplittable)"

definition split :: "(nat \<Rightarrow> u32) \<Rightarrow> trex_stream \<Rightarrow> trex_stream list \<Rightarrow> (trex_stream \<times> trex_stream list) outcome" where
  "split rnd stream core_streams =
     (if m_inst_list (ts_vm stream) = [] then Ok (stream, core_streams)
      else obind (split_internal rnd stream core_streams) (\<lambda>rc. case rc of
        Some cores \<Rightarrow> Ok (stream, cores)
      | None \<Rightarrow> obind (stream_vm_compile (rnd 0) stream) (\<lambda>stream.
          if ts_vm_dp stream = None then Undef
          else Ok (stream\<lparr>ts_vm_dp := None\<rparr>, map (\<lambda>core_stream. core_stream\<lparr>ts_vm_dp := ts_vm_dp stream\<rparr>) core_streams))))"

section \<open>The parts of a range\<close>

text \<open>The first and the last value of the part of core \<open>j\<close>, as numbers.\<close>

definition part_first :: "int \<Rightarrow> int \<Rightarrow> int \<Rightarrow> nat \<Rightarrow> int" where
  "part_first first len0 part j = (if j = 0 then first else first + len0 + (int j - 1) * part)"

definition part_size :: "int \<Rightarrow> int \<Rightarrow> nat \<Rightarrow> int" where
  "part_size len0 part j = (if j = 0 then len0 else part)"

lemma parts_cover:
  assumes "0 < part" and "part \<le> len0" and "first \<le> v" and "v < first + len0 + (int n - 1) * part" and "0 < n"
  shows "\<exists>!j. j < n \<and> part_first first len0 part j \<le> v \<and> v < part_first first len0 part j + part_size len0 part j"
proof (cases "v < first + len0")
  case True
  have "first + len0 \<le> part_first first len0 part j" if "0 < j" for j :: nat using that assms(1) by (simp add: part_first_def)
  from order.strict_trans2 [OF True this] have zero: "\<not> part_first first len0 part j \<le> v" if "0 < j" for j
    using that by (simp add: not_le)
  show ?thesis
  proof (rule ex1I [of _ 0])
    show "0 < n \<and> part_first first len0 part 0 \<le> v \<and> v < part_first first len0 part 0 + part_size len0 part 0"
      using True assms(3,5) by (simp add: part_first_def part_size_def)
  qed (use zero in blast)
next
  case False
  define q where "q = (v - first - len0) div part"
  have q: "q * part \<le> v - first - len0" "v - first - len0 < q * part + part"
    using assms(1) by (simp_all add: q_def minus_mod_eq_div_mult [symmetric])
  have q0: "0 \<le> q" using False assms(1) by (simp add: q_def pos_imp_zdiv_nonneg_iff)
  have "q * part < (int n - 1) * part" using q(1) assms(4) by simp
  then have qn: "q < int n - 1" using assms(1) by simp
  show ?thesis
  proof (rule ex1I [of _ "nat q + 1"])
    show "nat q + 1 < n \<and> part_first first len0 part (nat q + 1) \<le> v \<and>
        v < part_first first len0 part (nat q + 1) + part_size len0 part (nat q + 1)"
      using q q0 qn by (simp add: part_first_def part_size_def)
  next
    fix j assume j: "j < n \<and> part_first first len0 part j \<le> v \<and> v < part_first first len0 part j + part_size len0 part j"
    have j0: "0 < j" using j False by (cases j) (auto simp: part_first_def part_size_def)
    then have "(int j - 1) * part \<le> v - first - len0" "v - first - len0 < (int j - 1) * part + part"
      using j by (simp_all add: part_first_def part_size_def)
    moreover have "(q + 1) * part = q * part + part" "int j * part = (int j - 1) * part + part" by (simp_all add: algebra_simps)
    ultimately have "(int j - 1) * part < (q + 1) * part" "q * part < int j * part" using q by linarith+
    then have "int j - 1 < q + 1" "q < int j" using assms(1) by (simp_all only: mult_less_cancel_right_pos)
    then show "j = nat q + 1" using q0 by linarith
  qed
qed

text \<open>The loop hands these parts to its body.\<close>

lemma split_cores_nth:
  assumes "split_cores f rnd i range_part start stop cores = Ok cores'" and "j < length cores"
  shows "f (rnd (i + j)) (if j = 0 then start else stop + 1 + of_nat (j - 1) * range_part) (stop + of_nat j * range_part) (cores ! j) = Ok (cores' ! j)"
  using assms
proof (induction cores arbitrary: i start stop cores' j)
  case (Cons c cores)
  obtain c' cores1 where c: "f (rnd i) start stop c = Ok c'" "cores' = c' # cores1"
      "split_cores f rnd (i + 1) range_part (stop + 1) (stop + 1 + range_part - 1) cores = Ok cores1"
    using Cons.prems(1) by (auto simp: obind_Ok)
  show ?case
  proof (cases j)
    case 0
    then show ?thesis using c by simp
  next
    case (Suc n)
    have "n < length cores" using Cons.prems(2) Suc by simp
    note ih = Cons.IH [OF c(3) this]
    have first: "(if n = 0 then stop + 1 else stop + 1 + range_part - 1 + 1 + of_nat (n - 1) * range_part) =
        stop + 1 + of_nat n * range_part" by (cases n) (simp_all add: algebra_simps)
    have e: "stop + 1 + range_part - 1 + of_nat n * range_part = stop + of_nat (Suc n) * range_part" by (simp add: algebra_simps)
    show ?thesis using ih unfolding first e c(2) Suc by simp
  qed
qed simp

lemma split_cores_length: "split_cores f rnd i range_part start stop cores = Ok cores' \<Longrightarrow> length cores' = length cores"
  by (induction cores arbitrary: i start stop cores') (auto simp: obind_Ok)

text \<open>The parts as words.\<close>

lemma uint_of_int_small: "0 \<le> x \<Longrightarrow> x < 2 ^ 64 \<Longrightarrow> uint (of_int x :: u64) = x"
  by (simp add: unsigned_of_int take_bit_int_eq_self)

lemma part_words:
  fixes first part left :: u64
  assumes "0 < uint part" and "uint first + (uint part + uint left) + (int n - 1) * uint part \<le> 2 ^ 64" and "j < n"
  defines "stop \<equiv> first + part + left - 1"
  shows "uint (if j = 0 then first else stop + 1 + of_nat (j - 1) * part) = part_first (uint first) (uint part + uint left) (uint part) j"
    and "uint (stop + of_nat j * part) =
      part_first (uint first) (uint part + uint left) (uint part) j + part_size (uint part + uint left) (uint part) j - 1"
proof -
  have "int j * uint part \<le> (int n - 1) * uint part" using assms(1,3) by (intro mult_right_mono) auto
  then have top: "uint first + (uint part + uint left) + int j * uint part \<le> 2 ^ 64" using assms(2) by linarith
  have ge: "0 \<le> uint first" "0 \<le> uint left" "0 \<le> int j * uint part" by simp_all
  have "stop + of_nat j * part = of_int (uint first + (uint part + uint left) + int j * uint part - 1)" by (simp add: stop_def)
  moreover have "uint (of_int (uint first + (uint part + uint left) + int j * uint part - 1) :: u64) =
      uint first + (uint part + uint left) + int j * uint part - 1"
    by (rule uint_of_int_small) (use top ge assms(1) in linarith)+
  ultimately have "uint (stop + of_nat j * part) = uint first + (uint part + uint left) + int j * uint part - 1" by (simp only:)
  then show "uint (stop + of_nat j * part) =
      part_first (uint first) (uint part + uint left) (uint part) j + part_size (uint part + uint left) (uint part) j - 1"
    by (cases "j = 0") (simp_all add: part_first_def part_size_def algebra_simps)
  show "uint (if j = 0 then first else stop + 1 + of_nat (j - 1) * part) = part_first (uint first) (uint part + uint left) (uint part) j"
  proof (cases "j = 0")
    case False
    have j: "int (j - 1) = int j - 1" "(int j - 1) * uint part = int j * uint part - uint part" using False by (simp_all add: algebra_simps)
    have "stop + 1 + of_nat (j - 1) * part = of_int (uint first + (uint part + uint left) + int (j - 1) * uint part)" by (simp add: stop_def)
    moreover have "uint (of_int (uint first + (uint part + uint left) + int (j - 1) * uint part) :: u64) =
        uint first + (uint part + uint left) + int (j - 1) * uint part"
      by (rule uint_of_int_small) (use top ge assms(1) j in \<open>simp_all\<close>)
    ultimately show ?thesis using False j(1) by (simp add: part_first_def)
  qed (simp add: part_first_def)
qed

section \<open>The copies\<close>

lemma get_split_clone: "get_split_instruction vm = Some ki \<Longrightarrow> get_split_instruction (clone vm other) = Some ki"
  by (auto simp: get_split_instruction_def clone_def split: option.splits if_splits)

lemma random_flag_clone: "random_flag vm \<Longrightarrow> random_flag (clone vm other)"
  by (simp add: random_flag_def clone_def)

lemma random_flag_set:
  assumes "random_flag vm" and "\<And>m. i = FlowMan m \<Longrightarrow> fm_op m = FLOW_VAR_OP_RANDOM \<Longrightarrow> m_is_random_var vm"
  shows "random_flag (set_instruction k i vm)"
  using assms set_update_subset_insert [of "m_inst_list vm" k i] by (fastforce simp: random_flag_def set_instruction_def)

section \<open>Compilation of a copy\<close>

lemma vm_compile_dp: "vm_compile rnd pkt vm = Ok (vm', dp) \<Longrightarrow> m_inst_list vm \<noteq> [] \<Longrightarrow> \<exists>d. dp = Some d"
  using compile_Ok [of rnd _ "vm\<lparr>m_pkt := Some pkt\<rparr>"]
  by (auto simp: vm_compile_def obind_Ok generate_dp_object_def new_stream_vm_dp_def Let_def split: if_splits)

lemma compile_insts:
  assumes "compile rnd len vm = Ok vm'" and "\<forall>n. ChangePktSize n \<notin> set (m_inst_list vm)"
  shows "m_inst_list vm' = m_inst_list vm"
proof (cases "m_inst_list vm = []")
  case True
  then show ?thesis using assms(1) by (simp add: compile_def)
next
  case False
  obtain vm1 vm3 where b: "build_flow_var_table (vm\<lparr>m_pkt_size := len\<rparr>) = Ok vm1" "build_program (build_bss rnd vm1) = Ok vm3"
      "vm' = vm3\<lparr>m_prefix_size := calc_writable_mbuf_size (of_nat (m_max_field_update vm3)) (m_pkt_size vm3), m_is_compiled := True\<rparr>"
    using assms(1) False by (auto simp: compile_def obind_Ok split: if_splits)
  have "\<forall>i\<in>set (m_inst_list vm). \<forall>n. i \<noteq> ChangePktSize n" using assms(2) by auto
  then have "m_inst_list vm1 = m_inst_list vm" using b(1) by (auto simp: build_flow_var_table_def obind_Ok fix_sizes_none)
  moreover have "m_inst_list vm3 = m_inst_list vm1"
    using b(2) by (auto simp: build_program_def obind_Ok build_bss_def split: if_splits dest!: gen_all_Ok vm_static_facts(8))
  ultimately show ?thesis using b(3) by simp
qed

lemma vm_compile_insts:
  assumes "vm_compile rnd pkt vm = Ok (vm', dp)" and "\<forall>n. ChangePktSize n \<notin> set (m_inst_list vm)"
  shows "m_inst_list vm' = m_inst_list vm"
  using assms compile_insts [of rnd _ "vm\<lparr>m_pkt := Some pkt\<rparr>"] by (auto simp: vm_compile_def obind_Ok split: if_splits)

lemma full_packet_ok:
  assumes "vm_compile rnd pkt vm = Ok (vm', Some dp)"
  shows "dp_max_pkt_offset_change dp \<le> length pkt \<and> same_headers vm' pkt pkt"
proof -
  obtain vm1 where vm1: "compiled vm1" "m_pkt_size vm1 = of_nat (length pkt)" "dp_max_pkt_offset_change dp = m_max_field_update vm1"
    using vm_compile_Some [OF assms] by blast
  have "unat (of_nat (length pkt) :: u16) \<le> length pkt" by (simp add: unsigned_of_nat)
  then show ?thesis using compiled_max_field [OF vm1(1)] vm1(2,3) by (simp add: same_headers_def)
qed

text \<open>The value of a variable after the program of a core has run over some packets.\<close>

definition var_value :: "trex_stream \<Rightarrow> string \<Rightarrow> u8 list list \<Rightarrow> nat option" where
  "var_value s name bufs = do {
     dp \<leftarrow> ts_vm_dp s;
     r \<leftarrow> m_flow_var_offset (ts_vm s) name;
     fv \<leftarrow> run_packets (dp_program dp) bufs (dp_bss dp);
     Some (le_nat (take (unat (rec_size r)) (drop (rec_offset r) fv))) }"

lemma split_flow_core_value:
  assumes "split_flow_core rnd start stop s = Ok s'" and "get_split_instruction (ts_vm s) = Some (k, FlowMan m)"
    and "random_flag (ts_vm s)" and "\<forall>n. ChangePktSize n \<notin> set (m_inst_list (ts_vm s))" and "vm_ok (ts_vm s')"
    and "fm_step m = 1" and "fm_op m \<noteq> FLOW_VAR_OP_RANDOM" and "unat stop < 256 ^ unat (fm_size_bytes m)" and "start \<le> stop"
  shows "ts_pkt s' = ts_pkt s \<and>
    (\<exists>x. var_value s' (fm_var_name m) (replicate n (ts_pkt s)) = Some x \<and> int x = counter_spec (split_flow_man start stop m) n)"
proof -
  let ?m = "split_flow_man start stop m" and ?vm = "set_instruction k (FlowMan (split_flow_man start stop m)) (ts_vm s)"
  have k: "k < length (m_inst_list (ts_vm s))" using assms(2) by (auto simp: get_split_instruction_def split: option.splits if_splits)
  then have ne: "m_inst_list ?vm \<noteq> []" by (auto simp: set_instruction_def)
  obtain vm' dp where c: "vm_compile rnd (ts_pkt s) ?vm = Ok (vm', dp)" "s' = s\<lparr>ts_vm := vm', ts_vm_dp := dp\<rparr>"
    using assms(1,2) ne by (auto simp: split_flow_core_def stream_vm_compile_def obind_Ok)
  obtain d where d: "dp = Some d" using vm_compile_dp [OF c(1) ne] by blast
  note comp = c(1) [unfolded d]
  have flag: "random_flag ?vm" by (rule random_flag_set [OF assms(3)]) (use assms(7) in \<open>simp add: split_flow_man_def\<close>)
  have "\<forall>n. ChangePktSize n \<notin> set (m_inst_list ?vm)"
    using assms(4) set_update_subset_insert [of "m_inst_list (ts_vm s)" k "FlowMan ?m"] by (auto simp: set_instruction_def)
  then have mem: "FlowMan ?m \<in> set (m_inst_list vm')"
    using vm_compile_insts [OF c(1)] k by (simp add: set_instruction_def set_update_memI)
  have ok: "vm_ok vm'" using assms(5) c(2) by simp
  have bufs: "\<forall>buf\<in>set (replicate n (ts_pkt s)). dp_max_pkt_offset_change d \<le> length buf \<and> same_headers vm' (ts_pkt s) buf"
    using full_packet_ok [OF comp] by auto
  have m: "fm_step ?m = 1" "fm_op ?m \<noteq> FLOW_VAR_OP_RANDOM" "unat (fm_max_value ?m) < 256 ^ unat (fm_size_bytes ?m)"
      "fm_min_value ?m \<le> fm_init_value ?m" "fm_init_value ?m \<le> fm_max_value ?m" "fm_var_name ?m = fm_var_name m"
    using assms(6-9) by (simp_all add: split_flow_man_def)
  show ?thesis using counter_values [OF comp flag ok mem bufs m(1-5)] c(2) d m(6) by (auto simp: var_value_def)
qed

section \<open>The values of the cores\<close>

text \<open>
  The share of core \<open>j\<close> of \<open>R\<close> values; for a counter it is the number of packets in which the core
  sends its part.
\<close>

definition share :: "int \<Rightarrow> nat \<Rightarrow> nat \<Rightarrow> int" where
  "share R n j = (if j = 0 then R div int n + R mod int n else R div int n)"

definition core_share :: "ins_flow_man \<Rightarrow> nat \<Rightarrow> nat \<Rightarrow> int" where
  "core_share m n j = share (uint (fm_max_value m) - uint (fm_min_value m) + 1) n j"

lemma counter_spec_split:
  assumes "start \<le> stop" and "int i < uint stop - uint start + 1"
  shows "counter_spec (split_flow_man start stop m) (Suc i) =
    (if fm_op m = FLOW_VAR_OP_DEC then uint stop - int i else uint start + int i) \<or> fm_op m = FLOW_VAR_OP_RANDOM"
proof -
  have "int i mod (uint stop - uint start + 1) = int i" using assms(2) by (intro mod_pos_pos_trivial) simp_all
  then show ?thesis by (cases "fm_op m") (simp_all add: counter_spec_def split_flow_man_def Let_def)
qed

text \<open>A number lies in a part just when the counter of the part reaches it.\<close>

lemma counter_reaches:
  assumes "start \<le> stop" and "fm_op m \<noteq> FLOW_VAR_OP_RANDOM"
  shows "(\<exists>!i. int i < uint stop - uint start + 1 \<and> counter_spec (split_flow_man start stop m) (Suc i) = v) \<longleftrightarrow> uint start \<le> v \<and> v \<le> uint stop"
    and "int i < uint stop - uint start + 1 \<Longrightarrow> counter_spec (split_flow_man start stop m) (Suc i) = v \<Longrightarrow> uint start \<le> v \<and> v \<le> uint stop"
proof -
  have c: "counter_spec (split_flow_man start stop m) (Suc i) = (if fm_op m = FLOW_VAR_OP_DEC then uint stop - int i else uint start + int i)"
    if "int i < uint stop - uint start + 1" for i
    using counter_spec_split [OF assms(1) that] assms(2) by blast
  show r: "int i < uint stop - uint start + 1 \<Longrightarrow> counter_spec (split_flow_man start stop m) (Suc i) = v \<Longrightarrow> uint start \<le> v \<and> v \<le> uint stop" for i
    using c [of i] by (auto split: if_splits)
  define k where "k = nat (if fm_op m = FLOW_VAR_OP_DEC then uint stop - v else v - uint start)"
  have "\<exists>!i. int i < uint stop - uint start + 1 \<and> counter_spec (split_flow_man start stop m) (Suc i) = v" if v: "uint start \<le> v \<and> v \<le> uint stop"
  proof (rule ex1I [of _ k])
    have "int k < uint stop - uint start + 1" using v by (simp add: k_def)
    then show "int k < uint stop - uint start + 1 \<and> counter_spec (split_flow_man start stop m) (Suc k) = v"
      using c [of k] v by (auto simp: k_def)
  next
    fix i assume i: "int i < uint stop - uint start + 1 \<and> counter_spec (split_flow_man start stop m) (Suc i) = v"
    then show "i = k" using c [of i] by (auto simp: k_def split: if_splits)
  qed
  then show "(\<exists>!i. int i < uint stop - uint start + 1 \<and> counter_spec (split_flow_man start stop m) (Suc i) = v) \<longleftrightarrow> uint start \<le> v \<and> v \<le> uint stop"
    using r by blast
qed

lemma uint_plus_one_not_max:
  assumes "x \<noteq> - 1"
  shows "uint (x + 1 :: u64) = uint x + 1"
proof -
  have "x = - 1" if "uint x = 2 ^ 64 - 1"
  proof -
    have "x = of_int (2 ^ 64 - 1)" unfolding that [symmetric] by simp
    then show ?thesis by simp
  qed
  then have "uint x \<noteq> 2 ^ 64 - 1" using assms by blast
  moreover have "uint x < 2 ^ 64" using uint_bounded [of x] by simp
  ultimately have "uint (of_int (uint x + 1) :: u64) = uint x + 1" by (intro uint_of_int_small) simp_all
  then show ?thesis by simp
qed

lemma uint_diff_le:
  assumes "uint y \<le> uint x"
  shows "uint (x - y :: u64) = uint x - uint y"
proof -
  have b: "uint x < 2 ^ 64" using uint_bounded [of x] by simp
  have "uint (of_int (uint x - uint y) :: u64) = uint x - uint y"
    by (rule uint_of_int_small) (use assms b uint_ge_0 [of y] in linarith)+
  then show ?thesis by simp
qed

lemma share_facts:
  assumes "0 < n" and "int n \<le> R"
  shows "0 < share R n j" "share R n 1 \<le> share R n 0" "share R n j = part_size (share R n 0) (share R n 1) j"
    "first + share R n 0 + (int n - 1) * share R n 1 = first + R"
  using assms mult_div_mod_eq [of "int n" R] by (simp_all add: share_def part_size_def algebra_simps pos_imp_zdiv_pos_iff add_pos_nonneg)

lemma split_cores_parts:
  fixes first range count :: u64
  assumes "split_cores f rnd 0 (range div count) first (first + range div count + range mod count - 1) cores = Ok cores'"
    and "uint count = int (length cores)" and "0 < length cores" and "int (length cores) \<le> uint range" and "uint first + uint range \<le> 2 ^ 64"
  shows "length cores' = length cores \<and> (\<forall>j<length cores. \<exists>start stop. f (rnd j) start stop (cores ! j) = Ok (cores' ! j) \<and>
    uint start = part_first (uint first) (share (uint range) (length cores) 0) (share (uint range) (length cores) 1) j \<and>
    uint stop - uint start + 1 = share (uint range) (length cores) j \<and> uint stop < uint first + uint range)"
proof -
  let ?n = "length cores" and ?P = "range div count" and ?L = "range mod count" and ?R = "uint range"
  note sf = share_facts [OF assms(3,4)]
  have P: "uint ?P = share ?R ?n 1" "uint ?P + uint ?L = share ?R ?n 0" using assms(2) by (simp_all add: uint_div uint_mod share_def)
  have "\<exists>start stop. f (rnd j) start stop (cores ! j) = Ok (cores' ! j) \<and> uint start = part_first (uint first) (share ?R ?n 0) (share ?R ?n 1) j \<and>
      uint stop - uint start + 1 = share ?R ?n j \<and> uint stop < uint first + ?R" if j: "j < ?n" for j
  proof -
    define start where "start = (if j = 0 then first else first + ?P + ?L - 1 + 1 + of_nat (j - 1) * ?P)"
    define stop where "stop = first + ?P + ?L - 1 + of_nat j * ?P"
    have bound: "uint first + (uint ?P + uint ?L) + (int ?n - 1) * uint ?P \<le> 2 ^ 64" using sf(4) [of "uint first"] assms(5) unfolding P(2) unfolding P(1) by simp
    have p0: "0 < uint ?P" using P(1) sf(1) by simp
    note w = part_words [OF p0 bound j, folded start_def stop_def, unfolded P(2), unfolded P(1)]
    have "f (rnd (0 + j)) start stop (cores ! j) = Ok (cores' ! j)" using split_cores_nth [OF assms(1) j] unfolding start_def stop_def .
    moreover have "uint stop < uint first + ?R"
    proof -
      have "part_first (uint first) (share ?R ?n 0) (share ?R ?n 1) j + part_size (share ?R ?n 0) (share ?R ?n 1) j =
          uint first + share ?R ?n 0 + int j * share ?R ?n 1" by (cases "j = 0") (simp_all add: part_first_def part_size_def algebra_simps)
      moreover have "int j * share ?R ?n 1 \<le> (int ?n - 1) * share ?R ?n 1" using j sf(1) [of 1] by (intro mult_right_mono) auto
      ultimately show ?thesis using w(2) sf(4) [of "uint first"] by linarith
    qed
    ultimately show ?thesis using w sf(3) [of j] by (intro exI [of _ start] exI [of _ stop]) simp
  qed
  then show ?thesis using split_cores_length [OF assms(1)] by blast
qed

lemma split_flow_cores:
  assumes "split rnd stream cores = Ok (stream', cores')" and "get_split_instruction (ts_vm stream) = Some (k, FlowMan m)"
    and "fm_op m \<noteq> FLOW_VAR_OP_RANDOM" and "fm_step m = 1" and "fm_min_value m \<le> fm_max_value m" and "fm_max_value m - fm_min_value m \<noteq> - 1"
    and "0 < length cores" and "length cores \<le> 255" and "int (length cores) \<le> uint (fm_max_value m) - uint (fm_min_value m) + 1"
  shows "length cores' = length cores \<and> (\<forall>j<length cores. \<exists>start stop.
    split_flow_core (rnd j) start stop ((cores ! j)\<lparr>ts_vm := clone (ts_vm stream) (ts_vm (cores ! j))\<rparr>) = Ok (cores' ! j) \<and>
    uint start = part_first (uint (fm_min_value m)) (core_share m (length cores) 0) (core_share m (length cores) 1) j \<and>
    uint stop - uint start + 1 = core_share m (length cores) j \<and> stop \<le> fm_max_value m)"
proof -
  let ?mn = "fm_min_value m" and ?mx = "fm_max_value m" and ?n = "length cores"
  define range where "range = get_splitable_range m"
  define count where "count = (ucast (of_nat ?n :: u8) :: u64)"
  have le: "uint ?mn \<le> uint ?mx" using assms(5) by (simp add: word_le_def)
  have "uint (?mx - ?mn + 1) = uint (?mx - ?mn) + 1" by (rule uint_plus_one_not_max [OF assms(6)])
  then have R: "uint range = uint ?mx - uint ?mn + 1" using uint_diff_le [OF le] by (simp add: range_def get_splitable_range_def)
  have n: "uint count = int ?n" using assms(8) by (simp add: count_def unsigned_of_nat unsigned_ucast_eq take_bit_nat_eq_self)
  have c: "count \<noteq> 0" "\<not> range < count" using n R assms(7,9) by (auto simp: word_less_def)
  have step: "is_valid_for_split m" using assms(4) by (simp add: is_valid_for_split_def)
  have ne: "m_inst_list (ts_vm stream) \<noteq> []" using assms(2) by (auto simp: get_split_instruction_def split: option.splits if_splits)
  have "split_internal rnd stream cores = split_by_flow_var rnd m stream cores" using assms(2) by (simp add: split_internal_def)
  also have "\<dots> = obind (split_cores split_flow_core rnd 0 (range div count) ?mn (?mn + range div count + range mod count - 1)
      (duplicate_vm stream cores)) (\<lambda>cores. Ok (Some cores))"
    using assms(3) c step by (simp add: split_by_flow_var_def Let_def range_def [symmetric] count_def [symmetric])
  finally have int: "split_internal rnd stream cores = \<dots>" .
  have sc: "split_cores split_flow_core rnd 0 (range div count) ?mn (?mn + range div count + range mod count - 1) (duplicate_vm stream cores) = Ok cores'"
    using assms(1) ne unfolding split_def int by (auto simp: obind_Ok)
  have len: "length (duplicate_vm stream cores) = ?n" by (simp add: duplicate_vm_def)
  have nth: "duplicate_vm stream cores ! j = (cores ! j)\<lparr>ts_vm := clone (ts_vm stream) (ts_vm (cores ! j))\<rparr>" if "j < ?n" for j
    using that by (simp add: duplicate_vm_def)
  have bound: "uint ?mn + uint range \<le> 2 ^ 64" using R uint_bounded [of ?mx] by simp
  have stop: "x \<le> ?mx" if "uint x < uint ?mn + (uint ?mx - uint ?mn + 1)" for x using that by (simp add: word_le_def)
  have "uint count = int (length (duplicate_vm stream cores))" "0 < length (duplicate_vm stream cores)"
      "int (length (duplicate_vm stream cores)) \<le> uint range" using n R assms(7,9) len by simp_all
  note parts = split_cores_parts [OF sc this bound, unfolded len R, folded core_share_def]
  show ?thesis using parts nth stop by metis
qed

text \<open>The client variable of a core.\<close>

definition client_value :: "trex_stream \<Rightarrow> string \<Rightarrow> u8 list list \<Rightarrow> client option" where
  "client_value s name bufs = do {
     dp \<leftarrow> ts_vm_dp s;
     r \<leftarrow> m_flow_var_offset (ts_vm s) (name @ ''.ip'');
     fv \<leftarrow> run_packets (dp_program dp) bufs (dp_bss dp);
     get_client fv (rec_offset r) }"

lemma split_client_core_value:
  assumes "split_client_core rnd start stop s = Ok s'" and "get_split_instruction (ts_vm s) = Some (k, FlowClient c)"
    and "random_flag (ts_vm s)" and "\<forall>n. ChangePktSize n \<notin> set (m_inst_list (ts_vm s))" and "vm_ok (ts_vm s')"
    and "client_ok (split_client start stop c)" and "n \<noteq> 0"
  shows "ts_pkt s' = ts_pkt s \<and>
    (\<exists>lp. client_value s' (fc_var_name c) (replicate n (ts_pkt s)) = Some lp \<and> client_at (split_client start stop c) n lp)"
proof -
  let ?c = "split_client start stop c" and ?vm = "set_instruction k (FlowClient (split_client start stop c)) (ts_vm s)"
  have k: "k < length (m_inst_list (ts_vm s))" using assms(2) by (auto simp: get_split_instruction_def split: option.splits if_splits)
  then have ne: "m_inst_list ?vm \<noteq> []" by (auto simp: set_instruction_def)
  obtain vm' dp where c: "vm_compile rnd (ts_pkt s) ?vm = Ok (vm', dp)" "s' = s\<lparr>ts_vm := vm', ts_vm_dp := dp\<rparr>"
    using assms(1,2) ne by (auto simp: split_client_core_def stream_vm_compile_def obind_Ok)
  obtain d where d: "dp = Some d" using vm_compile_dp [OF c(1) ne] by blast
  note comp = c(1) [unfolded d]
  have flag: "random_flag ?vm" by (rule random_flag_set [OF assms(3)]) simp
  have "\<forall>n. ChangePktSize n \<notin> set (m_inst_list ?vm)"
    using assms(4) set_update_subset_insert [of "m_inst_list (ts_vm s)" k "FlowClient ?c"] by (auto simp: set_instruction_def)
  then have mem: "FlowClient ?c \<in> set (m_inst_list vm')"
    using vm_compile_insts [OF c(1)] k by (simp add: set_instruction_def set_update_memI)
  have ok: "vm_ok vm'" using assms(5) c(2) by simp
  have bufs: "\<forall>buf\<in>set (replicate n (ts_pkt s)). dp_max_pkt_offset_change d \<le> length buf \<and> same_headers vm' (ts_pkt s) buf"
    using full_packet_ok [OF comp] by auto
  have n: "replicate n (ts_pkt s) \<noteq> []" "fc_var_name ?c = fc_var_name c" using assms(7) by (simp_all add: split_client_def)
  show ?thesis using client_values [OF comp flag ok mem bufs n(1) assms(6)] c(2) d n(2) by (auto simp: client_value_def)
qed

lemma uint_ucast_u64 [simp]: "uint (ucast (w :: u32) :: u64) = uint w"
  by (simp add: uint_up_ucast is_up)

lemma uint_of_int_u32: "0 \<le> x \<Longrightarrow> x < 2 ^ 32 \<Longrightarrow> uint (of_int x :: u32) = x"
  by (simp add: unsigned_of_int take_bit_int_eq_self)

lemma uint_ucast_u32: "uint (w :: u64) < 2 ^ 32 \<Longrightarrow> uint (ucast w :: u32) = uint w"
  by (simp add: unsigned_ucast_eq take_bit_int_eq_self)

lemma uint_get_ip_range:
  assumes "fc_client_min c \<le> fc_client_max c" and "0 < fc_client_min c"
  shows "uint (get_ip_range c) = uint (fc_client_max c) - uint (fc_client_min c) + 1"
proof -
  have le: "uint (fc_client_min c) \<le> uint (fc_client_max c)" "0 < uint (fc_client_min c)" using assms by (simp_all add: word_le_def word_less_def)
  have b: "uint (fc_client_max c) < 2 ^ 32" using uint_bounded [of "fc_client_max c"] by simp
  have "uint (of_int (uint (fc_client_max c) - uint (fc_client_min c) + 1) :: u32) = uint (fc_client_max c) - uint (fc_client_min c) + 1"
    by (rule uint_of_int_u32) (use le b in linarith)+
  then show ?thesis by (simp add: get_ip_range_def)
qed

lemma split_client_cores:
  assumes "split rnd stream cores = Ok (stream', cores')" and "get_split_instruction (ts_vm stream) = Some (k, FlowClient c)"
    and "fc_client_min c \<le> fc_client_max c" and "0 < fc_client_min c"
    and "0 < length cores" and "length cores \<le> 255" and "int (length cores) \<le> uint (fc_client_max c) - uint (fc_client_min c) + 1"
  shows "length cores' = length cores \<and> (\<forall>j<length cores. \<exists>start stop.
    split_client_core (rnd j) start stop ((cores ! j)\<lparr>ts_vm := clone (ts_vm stream) (ts_vm (cores ! j))\<rparr>) = Ok (cores' ! j) \<and>
    (let R = uint (fc_client_max c) - uint (fc_client_min c) + 1; n = length cores in
     uint start = part_first (uint (fc_client_min c)) (share R n 0) (share R n 1) j \<and>
     uint stop - uint start + 1 = share R n j \<and> uint stop \<le> uint (fc_client_max c)))"
proof -
  let ?mn = "fc_client_min c" and ?mx = "fc_client_max c" and ?n = "length cores"
  define range :: u64 where "range = ucast (get_ip_range c)"
  define count :: u64 where "count = ucast (of_nat ?n :: u8)"
  define first :: u64 where "first = ucast ?mn"
  note R0 = uint_get_ip_range [OF assms(3,4)]
  have R: "uint range = uint ?mx - uint ?mn + 1" "uint first = uint ?mn" using R0 by (simp_all add: range_def first_def)
  have n: "uint count = int ?n" using assms(6) by (simp add: count_def unsigned_of_nat unsigned_ucast_eq take_bit_nat_eq_self)
  have n8: "uint (of_nat ?n :: u8) = int ?n" using assms(6) by (simp add: unsigned_of_nat take_bit_nat_eq_self)
  then have "uint (ucast (of_nat ?n :: u8) :: u32) = int ?n" by (simp add: uint_up_ucast is_up)
  then have n': "(of_nat ?n :: u8) \<noteq> 0" "\<not> get_ip_range c < ucast (of_nat ?n :: u8)"
    using n8 R0 assms(5,7) by (auto simp: word_less_def)
  have ne: "m_inst_list (ts_vm stream) \<noteq> []" using assms(2) by (auto simp: get_split_instruction_def split: option.splits if_splits)
  have "split_internal rnd stream cores = split_by_flow_client_var rnd c stream cores" using assms(2) by (simp add: split_internal_def)
  also have "\<dots> = obind (split_cores split_client_core rnd 0 (range div count) first (first + range div count + range mod count - 1)
      (duplicate_vm stream cores)) (\<lambda>cores. Ok (Some cores))"
    using n' by (simp add: split_by_flow_client_var_def Let_def range_def [symmetric] count_def [symmetric] first_def [symmetric])
  finally have int: "split_internal rnd stream cores = \<dots>" .
  have sc: "split_cores split_client_core rnd 0 (range div count) first (first + range div count + range mod count - 1)
      (duplicate_vm stream cores) = Ok cores'"
    using assms(1) ne unfolding split_def int by (auto simp: obind_Ok)
  have len: "length (duplicate_vm stream cores) = ?n" by (simp add: duplicate_vm_def)
  have nth: "duplicate_vm stream cores ! j = (cores ! j)\<lparr>ts_vm := clone (ts_vm stream) (ts_vm (cores ! j))\<rparr>" if "j < ?n" for j
    using that by (simp add: duplicate_vm_def)
  have bound: "uint first + uint range \<le> 2 ^ 64" using R uint_bounded [of ?mx] by simp
  have stop: "uint x \<le> uint ?mx" if "uint x < uint ?mn + (uint ?mx - uint ?mn + 1)" for x :: u64 using that by simp
  have "uint count = int (length (duplicate_vm stream cores))" "0 < length (duplicate_vm stream cores)"
      "int (length (duplicate_vm stream cores)) \<le> uint range" using n R assms(5,7) len by simp_all
  note parts = split_cores_parts [OF sc this bound, unfolded len R]
  show ?thesis unfolding Let_def using parts nth stop by metis
qed

section \<open>Properties\<close>

text \<open>
  C11. Splitting a counter over cores loses and repeats no value. When a stream is split by a counter of
  step 1 whose range has at least as many values as there are cores, then for every value of the
  range there is exactly one core, and exactly one packet among the first that this core sends (one for
  each value of its part), in which the variable has the value. The range is any that fits the
  variable, except that of all 64-bit values; the stream must not change the size of its packets,
  and the program of each core must have fewer than 64 KiB and satisfy the other conditions of
  \<open>vm_ok\<close>.
\<close>

theorem vm_split_covers_range:
  assumes "split rnd stream cores = Ok (stream', cores')" and "get_split_instruction (ts_vm stream) = Some (k, FlowMan m)"
    and "fm_op m \<noteq> FLOW_VAR_OP_RANDOM" and "fm_step m = 1" and "fm_min_value m \<le> fm_max_value m" and "fm_max_value m - fm_min_value m \<noteq> - 1"
    and "0 < length cores" and "length cores \<le> 255" and "int (length cores) \<le> uint (fm_max_value m) - uint (fm_min_value m) + 1"
    and "unat (fm_max_value m) < 256 ^ unat (fm_size_bytes m)" and "random_flag (ts_vm stream)"
    and "\<forall>n. ChangePktSize n \<notin> set (m_inst_list (ts_vm stream))" and "\<forall>s\<in>set cores'. vm_ok (ts_vm s)"
  shows "length cores' = length cores \<and>
    (\<forall>v. uint (fm_min_value m) \<le> v \<and> v \<le> uint (fm_max_value m) \<longrightarrow>
      (\<exists>!(j, i). j < length cores \<and> int i < core_share m (length cores) j \<and>
        map_option int (var_value (cores' ! j) (fm_var_name m) (replicate (Suc i) (ts_pkt (cores' ! j)))) = Some v))"
proof -
  let ?mn = "uint (fm_min_value m)" and ?mx = "uint (fm_max_value m)" and ?n = "length cores"
  note c = split_flow_cores [OF assms(1-9)]
  obtain start stop where s: "\<And>j. j < ?n \<Longrightarrow> split_flow_core (rnd j) (start j) (stop j) ((cores ! j)\<lparr>ts_vm := clone (ts_vm stream) (ts_vm (cores ! j))\<rparr>) = Ok (cores' ! j)"
      "\<And>j. j < ?n \<Longrightarrow> uint (start j) = part_first ?mn (core_share m ?n 0) (core_share m ?n 1) j"
      "\<And>j. j < ?n \<Longrightarrow> uint (stop j) - uint (start j) + 1 = core_share m ?n j" "\<And>j. j < ?n \<Longrightarrow> stop j \<le> fm_max_value m"
    using c by metis
  note sf = share_facts [OF assms(7,9), folded core_share_def]
  have le: "start j \<le> stop j" if "j < ?n" for j using s(3) [OF that] sf(1) [of j] by (simp add: word_le_def)
  have val: "map_option int (var_value (cores' ! j) (fm_var_name m) (replicate (Suc i) (ts_pkt (cores' ! j)))) =
      Some (counter_spec (split_flow_man (start j) (stop j) m) (Suc i))" if j: "j < ?n" for i j
  proof -
    have vm: "get_split_instruction (clone (ts_vm stream) (ts_vm (cores ! j))) = Some (k, FlowMan m)"
        "random_flag (clone (ts_vm stream) (ts_vm (cores ! j)))"
        "\<forall>n. ChangePktSize n \<notin> set (m_inst_list (clone (ts_vm stream) (ts_vm (cores ! j))))"
      using get_split_clone [OF assms(2)] random_flag_clone [OF assms(11)] assms(12) by (simp_all add: clone_def)
    have ok: "vm_ok (ts_vm (cores' ! j))" using assms(13) j c by simp
    have "unat (stop j) < 256 ^ unat (fm_size_bytes m)" using s(4) [OF j] assms(10) by (simp add: word_le_nat_alt)
    then obtain x where "ts_pkt (cores' ! j) = ts_pkt (cores ! j)"
        "var_value (cores' ! j) (fm_var_name m) (replicate (Suc i) (ts_pkt (cores ! j))) = Some x"
        "int x = counter_spec (split_flow_man (start j) (stop j) m) (Suc i)"
      using split_flow_core_value [OF s(1) [OF j], of k m "Suc i"] vm ok assms(3,4) le [OF j] by auto
    then show ?thesis by simp
  qed
  have "\<exists>!(j, i). j < ?n \<and> int i < core_share m ?n j \<and> counter_spec (split_flow_man (start j) (stop j) m) (Suc i) = v"
    if v: "?mn \<le> v" "v \<le> ?mx" for v
  proof -
    have "\<exists>!j. j < ?n \<and> part_first ?mn (core_share m ?n 0) (core_share m ?n 1) j \<le> v \<and>
        v < part_first ?mn (core_share m ?n 0) (core_share m ?n 1) j + core_share m ?n j"
      using parts_cover [of "core_share m ?n 1" "core_share m ?n 0" ?mn v ?n] v assms(7) sf(1,2) sf(4) [of ?mn]
      unfolding sf(3) [symmetric] by simp
    then obtain j where j: "j < ?n" "uint (start j) \<le> v \<and> v \<le> uint (stop j)"
        and uniq: "\<And>j'. j' < ?n \<Longrightarrow> uint (start j') \<le> v \<and> v \<le> uint (stop j') \<Longrightarrow> j' = j"
      using s(2,3) by (smt (verit))
    obtain i where i: "int i < core_share m ?n j \<and> counter_spec (split_flow_man (start j) (stop j) m) (Suc i) = v"
        "\<And>i'. int i' < core_share m ?n j \<and> counter_spec (split_flow_man (start j) (stop j) m) (Suc i') = v \<Longrightarrow> i' = i"
      using counter_reaches(1) [OF le [OF j(1)] assms(3), of v] j(2) unfolding s(3) [OF j(1)] by blast
    show ?thesis
    proof (rule ex1I [of _ "(j, i)"])
      show "case (j, i) of (j, i) \<Rightarrow> j < ?n \<and> int i < core_share m ?n j \<and> counter_spec (split_flow_man (start j) (stop j) m) (Suc i) = v"
        using j(1) i(1) by simp
    next
      fix p assume "case p of (j, i) \<Rightarrow> j < ?n \<and> int i < core_share m ?n j \<and> counter_spec (split_flow_man (start j) (stop j) m) (Suc i) = v"
      then obtain j' i' where p: "p = (j', i')" "j' < ?n" "int i' < core_share m ?n j'" "counter_spec (split_flow_man (start j') (stop j') m) (Suc i') = v"
        by (cases p) simp
      have "j' = j" using uniq [OF p(2)] counter_reaches(2) [OF le [OF p(2)] assms(3) _ p(4)] p(3) s(3) [OF p(2)] by simp
      then show "p = (j, i)" using p(1,3,4) i(2) by simp
    qed
  qed
  moreover have "(case p of (j, i) \<Rightarrow> j < ?n \<and> int i < core_share m ?n j \<and>
        map_option int (var_value (cores' ! j) (fm_var_name m) (replicate (Suc i) (ts_pkt (cores' ! j)))) = Some v) =
      (case p of (j, i) \<Rightarrow> j < ?n \<and> int i < core_share m ?n j \<and> counter_spec (split_flow_man (start j) (stop j) m) (Suc i) = v)" for p v
    using val [of "fst p" "snd p"] by (auto simp: case_prod_unfold simp del: replicate.simps)
  ultimately show ?thesis using c by presburger
qed

text \<open>The values 1 to 5 over two cores.\<close>

definition split_counter :: ins_flow_man where
  "split_counter = \<lparr>fm_var_name = ''x'', fm_size_bytes = 1, fm_op = FLOW_VAR_OP_INC, fm_init_value = 2, fm_min_value = 1,
     fm_max_value = 5, fm_step = 1\<rparr>"

definition split_vm :: stream_vm where
  "split_vm = set_split_instruction 0 (add_instruction new_stream_vm (FlowMan split_counter))"

definition split_core :: trex_stream where
  "split_core = \<lparr>ts_pkt = [0], ts_vm = new_stream_vm, ts_vm_dp = None\<rparr>"

lemma split_vm_simp: "split_vm = new_stream_vm\<lparr>m_inst_list := [FlowMan split_counter], m_split_instr := Some 0\<rparr>"
  by (simp add: split_vm_def set_split_instruction_def add_instruction_def split_counter_def new_stream_vm_def)

lemma split_core_part:
  "\<exists>s. split_flow_core rnd start stop (split_core\<lparr>ts_vm := clone split_vm new_stream_vm\<rparr>) = Ok s \<and>
    m_inst_list (ts_vm s) = [FlowMan (split_flow_man start stop split_counter)] \<and> length (m_instructions (ts_vm s)) < 65536"
  by (simp add: split_flow_core_def split_core_def split_vm_simp clone_def get_split_instruction_def set_instruction_def stream_vm_compile_def
      split_flow_man_def split_counter_def new_stream_vm_def vm_compile_def compile_eval struct_eval Let_def generate_dp_object_def new_stream_vm_dp_def)

lemma split_demo:
  "\<exists>cores'. split rnd (split_core\<lparr>ts_vm := split_vm\<rparr>) [split_core, split_core] = Ok (split_core\<lparr>ts_vm := split_vm\<rparr>, cores') \<and>
    (\<forall>s\<in>set cores'. vm_ok (ts_vm s))"
proof -
  obtain s1 where s1: "split_flow_core (rnd 0) 1 3 (split_core\<lparr>ts_vm := clone split_vm new_stream_vm\<rparr>) = Ok s1"
      "m_inst_list (ts_vm s1) = [FlowMan (split_flow_man 1 3 split_counter)]" "length (m_instructions (ts_vm s1)) < 65536" using split_core_part by blast
  obtain s2 where s2: "split_flow_core (rnd 1) 4 5 (split_core\<lparr>ts_vm := clone split_vm new_stream_vm\<rparr>) = Ok s2"
      "m_inst_list (ts_vm s2) = [FlowMan (split_flow_man 4 5 split_counter)]" "length (m_instructions (ts_vm s2)) < 65536" using split_core_part by blast
  have "vm_ok (ts_vm s1)" "vm_ok (ts_vm s2)"
    using s1(2,3) s2(2,3) by (simp_all add: vm_ok_def ins_ok_def random_ok_def split_flow_man_def split_counter_def)
  moreover have "split_by_flow_var rnd split_counter (split_core\<lparr>ts_vm := split_vm\<rparr>) [split_core, split_core] = Ok (Some [s1, s2])"
    using s1(1) s2(1) by (simp add: split_by_flow_var_def get_splitable_range_def is_valid_for_split_def split_counter_def [THEN arg_cong [of _ _ fm_op]]
      duplicate_vm_def split_core_def Let_def split_counter_def)
  ultimately show ?thesis by (intro exI [of _ "[s1, s2]"])
    (simp add: split_def split_internal_def get_split_instruction_def split_vm_simp)
qed

lemma vm_split_covers_range_witness:
  "\<exists>stream' cores'. split (\<lambda>_. 0) (split_core\<lparr>ts_vm := split_vm\<rparr>) [split_core, split_core] = Ok (stream', cores') \<and>
    (\<exists>!(j, i). j < 2 \<and> int i < core_share split_counter 2 j \<and>
      map_option int (var_value (cores' ! j) ''x'' (replicate (Suc i) (ts_pkt (cores' ! j)))) = Some 4)"
proof -
  let ?s = "split_core\<lparr>ts_vm := split_vm\<rparr>"
  obtain cores' where c: "split (\<lambda>_. 0) ?s [split_core, split_core] = Ok (?s, cores')" "\<forall>s\<in>set cores'. vm_ok (ts_vm s)"
    using split_demo by blast
  have i: "get_split_instruction (ts_vm ?s) = Some (0, FlowMan split_counter)" by (simp add: get_split_instruction_def split_vm_simp)
  have m: "fm_op split_counter \<noteq> FLOW_VAR_OP_RANDOM" "fm_step split_counter = 1" "fm_min_value split_counter \<le> fm_max_value split_counter"
      "fm_max_value split_counter - fm_min_value split_counter \<noteq> - 1" "unat (fm_max_value split_counter) < 256 ^ unat (fm_size_bytes split_counter)"
      "fm_var_name split_counter = ''x''" "uint (fm_min_value split_counter) \<le> 4" "4 \<le> uint (fm_max_value split_counter)"
    by (simp_all add: split_counter_def)
  have n: "0 < length [split_core, split_core]" "length [split_core, split_core] \<le> 255"
      "int (length [split_core, split_core]) \<le> uint (fm_max_value split_counter) - uint (fm_min_value split_counter) + 1"
    by (simp_all add: split_counter_def)
  have f: "random_flag (ts_vm ?s)" "\<forall>n. ChangePktSize n \<notin> set (m_inst_list (ts_vm ?s))"
    by (simp_all add: random_flag_def split_vm_simp split_counter_def)
  note all = vm_split_covers_range [OF c(1) i m(1-4) n m(5) f c(2), THEN conjunct2, THEN spec, THEN mp, OF conjI, OF m(7,8)]
  have two: "length [split_core, split_core] = 2" by simp
  show ?thesis using c(1) all [unfolded two m(6)] by blast
qed

text \<open>
  C19. Splitting clients over cores. When a stream is split by a client variable with at least as many
  addresses as there are cores, every core has a client variable that differs from that of the
  stream in the range of its addresses only; the ranges of the cores are disjoint and together are the
  range of the stream; and after \<open>n\<close> packets of a core its variable is the \<open>n\<close>-th client of its range.
  The range must start above address 0 and end below the largest address and port, the stream must not
  change the size of its packets, and the program of each core must have fewer than 64 KiB and satisfy
  the other conditions of \<open>vm_ok\<close>.
\<close>

theorem vm_split_clients:
  assumes "split rnd stream cores = Ok (stream', cores')" and "get_split_instruction (ts_vm stream) = Some (k, FlowClient c)"
    and "client_ok c" and "0 < length cores" and "length cores \<le> 255"
    and "int (length cores) \<le> uint (fc_client_max c) - uint (fc_client_min c) + 1" and "random_flag (ts_vm stream)"
    and "\<forall>n. ChangePktSize n \<notin> set (m_inst_list (ts_vm stream))" and "\<forall>s\<in>set cores'. vm_ok (ts_vm s)"
  shows "length cores' = length cores \<and>
    (\<exists>ip_min ip_max.
      (\<forall>ip. fc_client_min c \<le> ip \<and> ip \<le> fc_client_max c \<longleftrightarrow> (\<exists>j<length cores. ip_min j \<le> ip \<and> ip \<le> ip_max j)) \<and>
      (\<forall>i<length cores. \<forall>j<length cores. \<forall>ip. ip_min i \<le> ip \<and> ip \<le> ip_max i \<and> ip_min j \<le> ip \<and> ip \<le> ip_max j \<longrightarrow> i = j) \<and>
      (\<forall>j<length cores. \<forall>n>0. \<exists>lp. client_value (cores' ! j) (fc_var_name c) (replicate n (ts_pkt (cores' ! j))) = Some lp \<and>
         client_at (c\<lparr>fc_client_min := ip_min j, fc_client_max := ip_max j\<rparr>) n lp))"
proof -
  let ?mn = "uint (fc_client_min c)" and ?mx = "uint (fc_client_max c)" and ?n = "length cores"
  define R where "R = ?mx - ?mn + 1"
  have ok: "fc_client_min c \<le> fc_client_max c" "0 < fc_client_min c" using assms(3) by (simp_all add: client_ok_def)
  note parts = split_client_cores [OF assms(1,2) ok assms(4-6), folded R_def, unfolded Let_def]
  obtain start stop where s: "\<And>j. j < ?n \<Longrightarrow> split_client_core (rnd j) (start j) (stop j) ((cores ! j)\<lparr>ts_vm := clone (ts_vm stream) (ts_vm (cores ! j))\<rparr>) = Ok (cores' ! j)"
      "\<And>j. j < ?n \<Longrightarrow> uint (start j) = part_first ?mn (share R ?n 0) (share R ?n 1) j"
      "\<And>j. j < ?n \<Longrightarrow> uint (stop j) - uint (start j) + 1 = share R ?n j" "\<And>j. j < ?n \<Longrightarrow> uint (stop j) \<le> ?mx"
    using parts by metis
  note sf = share_facts [OF assms(4,6), folded R_def]
  define ip_min :: "nat \<Rightarrow> u32" where "ip_min j = ucast (start j)" for j
  define ip_max :: "nat \<Rightarrow> u32" where "ip_max j = ucast (stop j)" for j
  have b: "?mx < 2 ^ 32" using uint_bounded [of "fc_client_max c"] by simp
  have u: "uint (ip_min j) = uint (start j)" "uint (ip_max j) = uint (stop j)" "uint (start j) \<le> uint (stop j)" "?mn \<le> uint (start j)"
    if j: "j < ?n" for j
  proof -
    show le: "uint (start j) \<le> uint (stop j)" using s(3) [OF j] sf(1) [of j] by linarith
    then show "uint (ip_min j) = uint (start j)" "uint (ip_max j) = uint (stop j)"
      using s(4) [OF j] b by (simp_all add: ip_min_def ip_max_def uint_ucast_u32)
    show "?mn \<le> uint (start j)" using s(2) [OF j] sf(1) [of 0] sf(1) [of 1] by (auto simp: part_first_def)
  qed
  have inside: "ip_min j \<le> ip \<and> ip \<le> ip_max j \<longleftrightarrow> part_first ?mn (share R ?n 0) (share R ?n 1) j \<le> uint ip \<and>
      uint ip < part_first ?mn (share R ?n 0) (share R ?n 1) j + part_size (share R ?n 0) (share R ?n 1) j" if j: "j < ?n" for j ip
    using u [OF j] s(2,3) [OF j] sf(3) [of j] unfolding word_le_def by linarith
  have cover: "\<exists>!j. j < ?n \<and> ip_min j \<le> ip \<and> ip \<le> ip_max j" if ip: "fc_client_min c \<le> ip" "ip \<le> fc_client_max c" for ip
  proof -
    have "?mn \<le> uint ip" "uint ip < ?mn + share R ?n 0 + (int ?n - 1) * share R ?n 1"
      using ip sf(4) [of ?mn] by (simp_all add: word_le_def R_def)
    note p = parts_cover [OF sf(1) sf(2) this assms(4)]
    have "(j < ?n \<and> ip_min j \<le> ip \<and> ip \<le> ip_max j) = (j < ?n \<and> part_first ?mn (share R ?n 0) (share R ?n 1) j \<le> uint ip \<and>
      uint ip < part_first ?mn (share R ?n 0) (share R ?n 1) j + part_size (share R ?n 0) (share R ?n 1) j)" for j
      using inside [of j ip] by blast
    then show ?thesis using p by (simp only:)
  qed
  have within: "fc_client_min c \<le> ip \<and> ip \<le> fc_client_max c" if "j < ?n" "ip_min j \<le> ip" "ip \<le> ip_max j" for j ip
    using u [OF that(1)] s(4) [OF that(1)] that(2,3) by (simp add: word_le_def)
  have vals: "\<exists>lp. client_value (cores' ! j) (fc_var_name c) (replicate n (ts_pkt (cores' ! j))) = Some lp \<and>
      client_at (c\<lparr>fc_client_min := ip_min j, fc_client_max := ip_max j\<rparr>) n lp" if j: "j < ?n" and n: "0 < n" for j n
  proof -
    have vm: "get_split_instruction (clone (ts_vm stream) (ts_vm (cores ! j))) = Some (k, FlowClient c)"
        "random_flag (clone (ts_vm stream) (ts_vm (cores ! j)))"
        "\<forall>n. ChangePktSize n \<notin> set (m_inst_list (clone (ts_vm stream) (ts_vm (cores ! j))))"
      using get_split_clone [OF assms(2)] random_flag_clone [OF assms(7)] assms(8) by (simp_all add: clone_def)
    have vmok: "vm_ok (ts_vm (cores' ! j))" using assms(9) j parts by simp
    have eq: "split_client (start j) (stop j) c = c\<lparr>fc_client_min := ip_min j, fc_client_max := ip_max j\<rparr>"
      by (simp add: split_client_def ip_min_def ip_max_def)
    have le: "ip_min j \<le> ip_max j" using u [OF j] by (simp add: word_le_def)
    have m: "fc_client_min c \<le> ip_min j" "ip_max j \<le> fc_client_max c" using within [OF j _ le] within [OF j le] le by blast+
    have "ip_max j \<noteq> - 1" using m(2) assms(3) by (auto simp: client_ok_def word_order.extremum_unique)
    moreover have "0 < ip_min j" using m(1) ok(2) by (rule order.strict_trans2 [rotated])
    ultimately have "client_ok (split_client (start j) (stop j) c)"
      using assms(3) le unfolding eq by (simp add: client_ok_def is_unlimited_flows_def)
    then show ?thesis
      using split_client_core_value [OF s(1) [OF j], of k c n] vm vmok n unfolding eq by auto
  qed
  show ?thesis
  proof (rule conjI, use parts in blast, rule exI [of _ ip_min], rule exI [of _ ip_max], intro conjI)
    show "\<forall>ip. fc_client_min c \<le> ip \<and> ip \<le> fc_client_max c \<longleftrightarrow> (\<exists>j<?n. ip_min j \<le> ip \<and> ip \<le> ip_max j)"
      using cover within by blast
    show "\<forall>i<?n. \<forall>j<?n. \<forall>ip. ip_min i \<le> ip \<and> ip \<le> ip_max i \<and> ip_min j \<le> ip \<and> ip \<le> ip_max j \<longrightarrow> i = j"
      using cover within by blast
    show "\<forall>j<?n. \<forall>n>0. \<exists>lp. client_value (cores' ! j) (fc_var_name c) (replicate n (ts_pkt (cores' ! j))) = Some lp \<and>
         client_at (c\<lparr>fc_client_min := ip_min j, fc_client_max := ip_max j\<rparr>) n lp" using vals by blast
  qed
qed

text \<open>The addresses 10 to 14 over two cores.\<close>

definition split_client_var :: ins_flow_client where
  "split_client_var = \<lparr>fc_var_name = ''c'', fc_client_min = 10, fc_client_max = 14, fc_port_min = 5, fc_port_max = 6,
     fc_limit_num_flows = 0, fc_flags = 0\<rparr>"

definition split_client_vm :: stream_vm where
  "split_client_vm = new_stream_vm\<lparr>m_inst_list := [FlowClient split_client_var], m_split_instr := Some 0\<rparr>"

lemma split_client_part:
  "\<exists>s. split_client_core rnd start stop (split_core\<lparr>ts_vm := clone split_client_vm new_stream_vm\<rparr>) = Ok s \<and>
    m_inst_list (ts_vm s) = [FlowClient (split_client start stop split_client_var)] \<and> length (m_instructions (ts_vm s)) < 65536"
  by (simp add: split_client_core_def split_core_def split_client_vm_def clone_def get_split_instruction_def set_instruction_def stream_vm_compile_def
      split_client_def split_client_var_def new_stream_vm_def vm_compile_def compile_eval struct_eval Let_def generate_dp_object_def new_stream_vm_dp_def
      is_unlimited_flows_def client_cmd_def)

lemma split_client_demo:
  "\<exists>cores'. split rnd (split_core\<lparr>ts_vm := split_client_vm\<rparr>) [split_core, split_core] = Ok (split_core\<lparr>ts_vm := split_client_vm\<rparr>, cores') \<and>
    (\<forall>s\<in>set cores'. vm_ok (ts_vm s))"
proof -
  obtain s1 where s1: "split_client_core (rnd 0) 10 12 (split_core\<lparr>ts_vm := clone split_client_vm new_stream_vm\<rparr>) = Ok s1"
      "m_inst_list (ts_vm s1) = [FlowClient (split_client 10 12 split_client_var)]" "length (m_instructions (ts_vm s1)) < 65536" using split_client_part by blast
  obtain s2 where s2: "split_client_core (rnd 1) 13 14 (split_core\<lparr>ts_vm := clone split_client_vm new_stream_vm\<rparr>) = Ok s2"
      "m_inst_list (ts_vm s2) = [FlowClient (split_client 13 14 split_client_var)]" "length (m_instructions (ts_vm s2)) < 65536" using split_client_part by blast
  have "vm_ok (ts_vm s1)" "vm_ok (ts_vm s2)" using s1(2,3) s2(2,3) by (simp_all add: vm_ok_def ins_ok_def)
  moreover have "split_by_flow_client_var rnd split_client_var (split_core\<lparr>ts_vm := split_client_vm\<rparr>) [split_core, split_core] = Ok (Some [s1, s2])"
    using s1(1) s2(1) by (simp add: split_by_flow_client_var_def get_ip_range_def duplicate_vm_def split_core_def Let_def split_client_var_def)
  ultimately show ?thesis by (intro exI [of _ "[s1, s2]"])
    (simp add: split_def split_internal_def get_split_instruction_def split_client_vm_def)
qed

lemma vm_split_clients_witness:
  "\<exists>stream' cores' c' lp. split (\<lambda>_. 0) (split_core\<lparr>ts_vm := split_client_vm\<rparr>) [split_core, split_core] = Ok (stream', cores') \<and>
    client_value (cores' ! 1) ''c'' (replicate 3 (ts_pkt (cores' ! 1))) = Some lp \<and> client_at c' 3 lp"
proof -
  let ?s = "split_core\<lparr>ts_vm := split_client_vm\<rparr>"
  obtain cores' where c: "split (\<lambda>_. 0) ?s [split_core, split_core] = Ok (?s, cores')" "\<forall>s\<in>set cores'. vm_ok (ts_vm s)"
    using split_client_demo by blast
  have i: "get_split_instruction (ts_vm ?s) = Some (0, FlowClient split_client_var)"
    by (simp add: get_split_instruction_def split_client_vm_def)
  have m: "client_ok split_client_var" by (simp add: client_ok_def split_client_var_def is_unlimited_flows_def)
  have n: "0 < length [split_core, split_core]" "length [split_core, split_core] \<le> 255"
      "int (length [split_core, split_core]) \<le> uint (fc_client_max split_client_var) - uint (fc_client_min split_client_var) + 1"
    by (simp_all add: split_client_var_def)
  have f: "random_flag (ts_vm ?s)" "\<forall>n. ChangePktSize n \<notin> set (m_inst_list (ts_vm ?s))"
    by (simp_all add: random_flag_def split_client_vm_def)
  have name: "fc_var_name split_client_var = ''c''" "1 < length [split_core, split_core]" "(0 :: nat) < 3" by (simp_all add: split_client_var_def)
  show ?thesis using vm_split_clients [OF c(1) i m n f c(2)] c(1) name by metis
qed

end
