(* ===== verification/Spec2Isabelle.thy ===== *)
theory Spec2Isabelle
  imports Prelude Bits Ring Ring_MP Ring_Api Malloc Malloc_Proof Malloc_Heap Malloc_Api Pipeline Pipeline_Ports Pipeline_Run
    Pipeline_Api Hash Hash_Space Hash_Map Hash_Ops Hash_Api Hash_Create Hash_Client Hash_Bulk Hash_Bulk_Api
    Vm_Bytes Vm_Checksum Vm_Ops Vm_Program Vm_Compile Vm_Table Vm_Safe Vm_Values Vm_Client Vm_Node Vm_Range Vm_Split
begin

text \<open>
  A verification library for the packet path of TRex, a traffic generator. TRex builds streams of
  packets in its own stateless core and sends them through the DPDK 2.2 libraries it carries
  in src/src/dpdk22. The theories model the libraries with the algorithmic content (rings,
  the heap, the packet pipeline, the cuckoo hash table) and the
  field engine of the stateless core, a small virtual machine that changes fields of every packet; the definitions
  bear the names of the functions and types they translate.

  \<^bold>\<open>How the parts interact\<close>

  Rings are fixed arrays of object pointers shared by threads; the heap hands out the memory
  that rings, tables and pipelines live in; a hash table keeps its free slots in a ring; the
  pipeline moves bursts of packets from input ports through tables to output ports and calls
  the operations that ports and tables supply. A stream may carry a VM: its
  instructions are compiled into a program and initial flow variables, and a node of the data plane
  runs the program over a copy of the first bytes of the packet for every packet it sends.

  \<^bold>\<open>Conventions\<close>

  C integers are words of their width, so that wrap-around is that of the code; arrays are lists
  that are read and written with a check, and an access outside, a null dereference, undefined
  arithmetic or an assertion that fails is \<open>None\<close>. Hence a theorem that a call returns \<open>Some\<close>
  also says that it stays inside its arrays and ends. The run of a pipeline tells a fault from a
  loop that has not ended: its result is \<open>Done\<close>, \<open>Fault\<close> or \<open>Still_running\<close>. Loops that may not end are
  \<open>partial_function (option)\<close> or carry a measure; the theorems then prove the value to be \<open>Some\<close>.
  Code outside the modelled files (allocation of memory zones, the operations of ports and
  tables, hash functions, the source of random seeds) is an argument, with its documented behaviour
  as a named hypothesis (\<open>ring_env_ok\<close>, \<open>hash_env_ok\<close>, \<open>lookup_ok\<close> and others) that a witness
  satisfies. The build configuration is the one of the repository: no debug checks, no debug
  statistics, x86-64, cache lines of 64 bytes, 128 cores.

  \<^bold>\<open>The theories\<close>

  \<^item> Prelude and Bits: the C types, checked array accesses, congruences for evaluation, words and
    masks as numbers and as sets of positions. They model no component.

  \<^item> Ring (librte_ring/rte_ring.h, rte_ring.c): the record \<open>rte_ring\<close> holds the two pairs of head and
    tail indices and the memory; initialisation, watermark, counters, the two copy macros, the
    single-producer and single-consumer operations. \<open>ring_ok\<close> is the invariant, \<open>ring_contents\<close> the
    queue a ring stands for, and the operations refine those of a bounded queue.
  \<^item> Ring_MP: the multi-producer and multi-consumer operations, one shared access per step of the
    relation \<open>ring_trans\<close>, for any number of threads and under sequential consistency. The copy
    computes its indices as the macros do (\<open>ptrs_idx\<close>): the masked head plus a counter up to the
    end of the ring, from 0 afterwards. A step of the relation assumes that fewer than 2^32
    entries pass between the moment a thread reads an index and its compare-and-swap. \<open>ring_inv\<close> is proved by rule induction; from it follow the order of the objects, exclusive slots,
    absence of faults, the state when all calls have returned, and progress.
  \<^item> Ring_Api: the wrappers that choose an operation by the flags of the ring, and the table of named
    rings with creation, lookup and deletion. The locale \<open>fifo_queue\<close> is what clients use; it is
    interpreted for the three combinations of wrappers.

  \<^item> Malloc (librte_eal/common/malloc_elem.c, malloc_heap.c, rte_malloc.c): one memory of
    bytes, in which a header occupies 64 of them: writing a header destroys the bytes and the headers it
    covers, and storing bytes destroys the headers it covers; and the free lists of every heap.
    Malloc_Proof: the elements tile the segments, the free lists hold exactly the free elements,
    splitting and joining keep this and write headers only. Malloc_Heap: the search, allocation, initialisation, blocks as seen by callers, and
    that the data of live blocks survives every operation.
    Malloc_Api: the locale \<open>allocator\<close> with a client that stores data in its blocks, interpreted on
    the model; the public calls, and the calls that do not do what their documentation says.

  \<^item> Pipeline (librte_pipeline/rte_pipeline.c): configuration calls and the run. Pipeline_Ports: the
    chain of enabled ports is the sorted list of the enabled ports. Pipeline_Run: every received
    packet is sent or freed exactly once, under hypotheses on the operations that ports and tables
    supply (what a lookup leaves in the entries of missed packets is arbitrary). Pipeline_Api: the pipelines that configuration calls can reach (an inductive predicate),
    what they hold and release, and configurations on which a run goes wrong.

  \<^item> Hash (librte_hash/rte_cuckoo_hash.c): buckets of four entries, slots for keys, the ring and caches
    of free slots. Hash_Space: pushing entries to other buckets ends and loses none. Hash_Map: the
    invariant \<open>hash_ok\<close> and the map \<open>hmap\<close> a table stands for. Hash_Ops and Hash_Api: the effect of
    the steps and of whole insertions and deletions on the map. Hash_Create: creation, reset,
    deletion, the comparison functions. Hash_Client: the locale \<open>keyed_table\<close>, its interpretation
    on the table, and the walk over all keys. Hash_Bulk and Hash_Bulk_Api: the software-pipelined
    lookup of up to 64 keys and its equality with single lookups.

  \<^item> Vm_Bytes: memory as lists of bytes with words at offsets, low byte first. Vm_Checksum
    (common/Network/Packet/CPktCmn.cpp, IPHeader.inl): the Internet checksum as a sum modulo 65535,
    and the updates of header fields that keep it.
  \<^item> Vm_Ops, Vm_Program (stateless/cp/trex_stream_vm.h): the instructions of the data plane, their
    layout as packed structures, the program buffer and the runner; decoding is the inverse of
    encoding, so that a run of the bytes is the execution of the instructions.
  \<^item> Vm_Compile (trex_stream_vm.cpp, trex_stream.cpp): from the instructions of a stream to flow
    variables and program, with the exceptions of the code as values. Vm_Table: the invariant
    \<open>compiled\<close> of a compiled VM and the layout of its variables. Vm_Safe: a compiled program whose
    instructions satisfy \<open>vm_ok\<close> (operands the compiler does not check, and fewer than 65536 bytes of
    program, since the data plane keeps the size in 16 bits) runs, inside the bytes the compiler has counted, and leaves a valid checksum.
  \<^item> Vm_Values: the values of counters over many packets, through the locale \<open>circular_counter\<close>.
    Vm_Client: the same for client variables, that enumerate addresses and ports. Vm_Range: where
    counters with a step and random variables stay in their ranges, and where they leave them.
  \<^item> Vm_Node (stateless/dp/trex_stateless_dp_core.cpp): the node of a stream, its addresses, the prefix
    that is copied and the constant rest, and the packets on the wire.
  \<^item> Vm_Split (stateless/cp/trex_vm_splitter.cpp): one variable of a stream is split over the cores; together
    the cores send every value of the range once.

  \<^bold>\<open>Bounds and fuel\<close>

  \<open>make_space_bucket\<close> recurses on the number
  of entries whose flag is not set; \<open>run_tables\<close> takes a bound on the turns of its loop, which the
  code does not have: a result other than \<open>Still_running\<close> does not depend on it, the run is proved to
  be \<open>Done\<close> when tables are chained upwards in a rank, and to be \<open>Still_running\<close> for every bound on a
  circle of tables; \<open>drain\<close>, \<open>iterate_all\<close>, \<open>bulk_loop\<close> and \<open>ctz_loop\<close> are partial and proved
  to return for every valid table. The limits of 64 ports and tables, 64 keys of a bulk lookup and
  8 objects of a cache are those of the code. The checksum loop takes two bytes a turn and \<open>run_program\<close>
  at least one; flow variables have at most 64 bytes and the writable part of a packet 512, as in
  the code.

  \<^bold>\<open>Not modelled\<close>

  Functions that only print. Weak memory: the barriers of the ring are taken to give sequential
  consistency. Allocations inside rings and tables are those of the record; address arithmetic
  inside them is by index. Of the rest of the repository: the drivers are register programming;
  the stateful core, the scheduler, the rates of streams, latency and statistics of TRex compute with
  floating-point numbers; the RPC server, configuration files and command lines are JSON, YAML
  and system calls; the object pools behind packet buffers are not modelled, a buffer is the data it
  holds; third-party libraries, tests and Python are outside the language or the program. The
  manifest lists each with its reason.
\<close>

end
